(* ===== verification/Prelude.thy ===== *)
theory Prelude
  imports
    Main
    "HOL-Library.Multiset"
    "HOL-Library.Char_ord"
    "HOL-Library.List_Lexorder"
    "HOL-Library.Code_Target_Nat"
begin

text \<open>
  Shared vocabulary of the development.

  \<^item> \<open>usize\<close> arithmetic: unbounded \<open>nat\<close> with the saturating and checked operations of the
    Rust standard library written out against \<open>usize_max\<close>.
  \<^item> \<open>ordering\<close>, comparators and the stable \<open>sort_by\<close> of slices.  The locale \<open>comparator_laws\<close>
    is the contract \<open>slice::sort_by\<close> asks of its closure (a total preorder); the sorting lemmas
    are proved once inside it and every comparator of the program is shown to satisfy it.
  \<^item> Lists: first position of a match, removal by position, group counts.
\<close>

named_theorems usize_simps \<open>unfolding of the saturating and checked \<open>usize\<close> operations\<close>
named_theorems cmp_defs \<open>definitions of the comparators built from keys\<close>
named_theorems path_defs \<open>definitions of the path and string predicates\<close>

type_synonym usize = nat

section \<open>Machine-size counters\<close>

definition usize_max :: nat where
  "usize_max = 2 ^ 64 - 1"

definition sat_add :: "usize \<Rightarrow> usize \<Rightarrow> usize" where
  [usize_simps]: "sat_add a b = min (a + b) usize_max"

definition sat_mul :: "usize \<Rightarrow> usize \<Rightarrow> usize" where
  [usize_simps]: "sat_mul a b = min (a * b) usize_max"

text \<open>\<open>saturating_sub\<close> is the truncating subtraction of \<open>nat\<close>.\<close>

definition checked_add :: "usize \<Rightarrow> usize \<Rightarrow> usize option" where
  [usize_simps]: "checked_add a b = (if a + b \<le> usize_max then Some (a + b) else None)"

text \<open>Plain \<open>+\<close> and \<open>-\<close> on \<open>usize\<close> wrap in the release profile, which leaves overflow checks off.\<close>

definition wrapping_add :: "usize \<Rightarrow> usize \<Rightarrow> usize" where
  "wrapping_add a b = (a + b) mod 2 ^ 64"

definition wrapping_sub :: "usize \<Rightarrow> usize \<Rightarrow> usize" where
  "wrapping_sub a b = (if b \<le> a then a - b else a + 2 ^ 64 - b)"

definition div_ceil :: "usize \<Rightarrow> usize \<Rightarrow> usize" where
  [usize_simps]: "div_ceil a b = (a + b - 1) div b"

lemma sat_add_le [simp]: "sat_add a b \<le> usize_max"
  by (simp add: usize_simps)

lemma sat_add_exact: "a + b \<le> usize_max \<Longrightarrow> sat_add a b = a + b"
  by (simp add: usize_simps)

lemma sat_add_le_sum: "sat_add a b \<le> a + b"
  by (simp add: usize_simps)

lemma sat_add_mono: "a \<le> c \<Longrightarrow> b \<le> d \<Longrightarrow> sat_add a b \<le> sat_add c d"
  by (simp add: usize_simps)

lemma checked_add_Some [simp]: "checked_add a b = Some c \<longleftrightarrow> c = a + b \<and> a + b \<le> usize_max"
  by (auto simp: usize_simps)

lemma div_ceil_two: "div_ceil n 2 = (n + 1) div 2"
  by (simp add: usize_simps)

section \<open>Ordering and comparators\<close>

text \<open>\<open>std::cmp::Ordering\<close>.\<close>

datatype ordering = Less | Equal | Greater

fun reverse_ordering :: "ordering \<Rightarrow> ordering" where
  "reverse_ordering Less = Greater"
| "reverse_ordering Equal = Equal"
| "reverse_ordering Greater = Less"

fun then_with :: "ordering \<Rightarrow> ordering \<Rightarrow> ordering" where
  "then_with Equal o2 = o2"
| "then_with o1 o2 = o1"

definition ord_cmp :: "'a::linorder \<Rightarrow> 'a \<Rightarrow> ordering" where
  [cmp_defs]: "ord_cmp a b = (if a < b then Less else if a = b then Equal else Greater)"

type_synonym 'a cmp = "'a \<Rightarrow> 'a \<Rightarrow> ordering"

definition key_cmp :: "('a \<Rightarrow> 'k::linorder) \<Rightarrow> 'a cmp" where
  [cmp_defs]: "key_cmp f a b = ord_cmp (f a) (f b)"

definition rev_cmp :: "'a cmp \<Rightarrow> 'a cmp" where
  [cmp_defs]: "rev_cmp c a b = c b a"

definition lex_cmp :: "'a cmp \<Rightarrow> 'a cmp \<Rightarrow> 'a cmp" where
  [cmp_defs]: "lex_cmp c d a b = then_with (c a b) (d a b)"

text \<open>
  The contract of a comparison closure: flipping the arguments reverses the answer and
  \<open>not Greater\<close> is transitive.
\<close>

locale comparator_laws =
  fixes cmp :: "'a cmp"
  assumes flip: "cmp b a = reverse_ordering (cmp a b)"
    and trans: "cmp a b \<noteq> Greater \<Longrightarrow> cmp b c \<noteq> Greater \<Longrightarrow> cmp a c \<noteq> Greater"

lemma then_with_simps [simp]:
  "then_with o1 Equal = o1"
  "then_with o1 o2 = Equal \<longleftrightarrow> o1 = Equal \<and> o2 = Equal"
  "then_with o1 o2 = Less \<longleftrightarrow> o1 = Less \<or> o1 = Equal \<and> o2 = Less"
  "then_with o1 o2 = Greater \<longleftrightarrow> o1 = Greater \<or> o1 = Equal \<and> o2 = Greater"
  by (cases o1; simp)+

lemma then_with_if: "then_with a b = (if a \<noteq> Equal then a else b)"
  by (cases a) auto

lemma reverse_ordering_simps [simp]:
  "reverse_ordering (reverse_ordering x) = x"
  "reverse_ordering x = Equal \<longleftrightarrow> x = Equal"
  "reverse_ordering x = Less \<longleftrightarrow> x = Greater"
  "reverse_ordering x = Greater \<longleftrightarrow> x = Less"
  "reverse_ordering (then_with x y) = then_with (reverse_ordering x) (reverse_ordering y)"
  by (cases x; simp)+

lemma ord_cmp_simps [simp]:
  "ord_cmp a b = Less \<longleftrightarrow> a < b"
  "ord_cmp a b = Equal \<longleftrightarrow> a = b"
  "ord_cmp a b = Greater \<longleftrightarrow> b < a"
  by (auto simp: ord_cmp_def)

lemma ord_cmp_flip: "ord_cmp b a = reverse_ordering (ord_cmp a b)"
  by (auto simp: ord_cmp_def)

lemma comparator_key_cmp [intro]: "comparator_laws (key_cmp f)"
proof
  show "key_cmp f b a = reverse_ordering (key_cmp f a b)" for a b
    unfolding key_cmp_def by (rule ord_cmp_flip)
qed (simp add: key_cmp_def)

lemma comparator_rev_cmp [intro]: "comparator_laws c \<Longrightarrow> comparator_laws (rev_cmp c)"
  unfolding rev_cmp_def
proof
  assume c: "comparator_laws c"
  show "c a b = reverse_ordering (c b a)" for a b
    by (rule comparator_laws.flip [OF c])
  show "c b a \<noteq> Greater \<Longrightarrow> c z b \<noteq> Greater \<Longrightarrow> c z a \<noteq> Greater" for a b z
    using comparator_laws.trans [OF c, of z b a] by blast
qed

lemma comparator_equal_sym: "comparator_laws c \<Longrightarrow> c a b = Equal \<Longrightarrow> c b a = Equal"
  using comparator_laws.flip [of c b a] by simp

lemma comparator_antisym:
  assumes "comparator_laws c" "c a b \<noteq> Greater" "c b a \<noteq> Greater"
  shows "c a b = Equal"
  using assms comparator_laws.flip [OF assms(1), of a b] by (cases "c b a") auto

lemma comparator_lex_cmp [intro]:
  assumes c: "comparator_laws c" and d: "comparator_laws d"
  shows "comparator_laws (lex_cmp c d)"
proof
  fix a b
  show "lex_cmp c d b a = reverse_ordering (lex_cmp c d a b)"
    unfolding lex_cmp_def
    by (subst comparator_laws.flip [OF c], subst comparator_laws.flip [OF d]) simp
next
  fix x y z
  assume xy: "lex_cmp c d x y \<noteq> Greater" and yz: "lex_cmp c d y z \<noteq> Greater"
  have cs: "c x y \<noteq> Greater" "c y z \<noteq> Greater"
    using xy yz by (auto simp: lex_cmp_def)
  have le: "c x z \<noteq> Greater"
    using cs comparator_laws.trans [OF c] by blast
  have "d x z \<noteq> Greater" if "c x z = Equal"
  proof -
    have zx: "c z x \<noteq> Greater"
      using comparator_equal_sym [OF c that] by simp
    have "c x y = Equal"
      using comparator_antisym [OF c cs(1)] comparator_laws.trans [OF c cs(2) zx] by blast
    moreover have "c y z = Equal"
      using comparator_antisym [OF c cs(2)] comparator_laws.trans [OF c zx cs(1)] by blast
    ultimately have "d x y \<noteq> Greater" "d y z \<noteq> Greater"
      using xy yz by (auto simp: lex_cmp_def)
    then show ?thesis
      using comparator_laws.trans [OF d] by blast
  qed
  then show "lex_cmp c d x z \<noteq> Greater"
    using le by (auto simp: lex_cmp_def)
qed

section \<open>The stable slice sort\<close>

text \<open>
  \<open>slice::sort_by\<close> is stable; a stable sort is determined by the comparator, so the
  insertion sort below computes the same list.
\<close>

fun insert_by :: "'a cmp \<Rightarrow> 'a \<Rightarrow> 'a list \<Rightarrow> 'a list" where
  "insert_by cmp x [] = [x]"
| "insert_by cmp x (y # ys) =
     (if cmp x y = Greater then y # insert_by cmp x ys else x # y # ys)"

definition sort_by :: "'a cmp \<Rightarrow> 'a list \<Rightarrow> 'a list" where
  "sort_by cmp xs = foldr (insert_by cmp) xs []"

lemma sort_by_simps [simp]:
  "sort_by cmp [] = []"
  "sort_by cmp (x # xs) = insert_by cmp x (sort_by cmp xs)"
  by (simp_all add: sort_by_def)

lemma mset_insert_by [simp]: "mset (insert_by cmp x ys) = add_mset x (mset ys)"
  by (induction ys) auto

lemma mset_sort_by [simp]: "mset (sort_by cmp xs) = mset xs"
  by (induction xs) auto

lemma set_sort_by [simp]: "set (sort_by cmp xs) = set xs"
  by (rule mset_eq_setD) simp

lemma length_sort_by [simp]: "length (sort_by cmp xs) = length xs"
  by (rule mset_eq_length) simp

context comparator_laws
begin

lemma equal_sym: "cmp a b = Equal \<Longrightarrow> cmp b a = Equal"
  by (subst flip) simp

lemma antisym: "cmp a b \<noteq> Greater \<Longrightarrow> cmp b a \<noteq> Greater \<Longrightarrow> cmp a b = Equal"
  by (rule comparator_antisym [OF comparator_laws_axioms])

lemma le_of_greater: "cmp a b = Greater \<Longrightarrow> cmp b a \<noteq> Greater"
  by (subst flip) simp

lemma refl: "cmp a a = Equal"
  using antisym le_of_greater by blast

lemma sorted_insert_by:
  "sorted_wrt (\<lambda>a b. cmp a b \<noteq> Greater) ys \<Longrightarrow>
     sorted_wrt (\<lambda>a b. cmp a b \<noteq> Greater) (insert_by cmp x ys)"
proof (induction ys)
  case (Cons y ys)
  have set_ins: "set (insert_by cmp x ys) = insert x (set ys)"
    using mset_insert_by [of cmp x ys] by (metis set_mset_add_mset_insert set_mset_mset)
  show ?case
  proof (cases "cmp x y = Greater")
    case True
    then show ?thesis
      using Cons le_of_greater by (simp add: set_ins)
  next
    case False
    then show ?thesis
      using Cons.prems trans [of x y] by auto
  qed
qed simp

lemma sorted_sort_by: "sorted_wrt (\<lambda>a b. cmp a b \<noteq> Greater) (sort_by cmp xs)"
  by (induction xs) (simp_all add: sorted_insert_by)

lemma equal_trans: "cmp a b = Equal \<Longrightarrow> cmp b c = Equal \<Longrightarrow> cmp a c = Equal"
proof -
  assume ab: "cmp a b = Equal" and bc: "cmp b c = Equal"
  have "cmp a c \<noteq> Greater" using trans [of a b c] ab bc by simp
  moreover have "cmp c a \<noteq> Greater"
    using trans [of c b a] equal_sym [OF ab] equal_sym [OF bc] by simp
  ultimately show ?thesis by (rule antisym)
qed

lemma equal_cong: "cmp a b = Equal \<Longrightarrow> cmp a c = Equal \<longleftrightarrow> cmp b c = Equal"
  using equal_trans equal_sym by blast

lemma filter_insert_by:
  "filter (\<lambda>y. cmp k y = Equal) (insert_by cmp x ys) =
     (if cmp k x = Equal then x # filter (\<lambda>y. cmp k y = Equal) ys
      else filter (\<lambda>y. cmp k y = Equal) ys)"
proof (induction ys)
  case (Cons y ys)
  have "cmp k y \<noteq> Equal" if "cmp x y = Greater" "cmp k x = Equal"
    using that equal_cong [of k x y] by auto
  then show ?case using Cons by auto
qed simp

text \<open>Stability: elements the comparator cannot tell apart keep their order.\<close>

lemma sort_by_stable:
  "filter (\<lambda>y. cmp k y = Equal) (sort_by cmp xs) = filter (\<lambda>y. cmp k y = Equal) xs"
  by (induction xs) (simp_all add: filter_insert_by)

end

section \<open>Positions in lists\<close>

text \<open>\<open>Iterator::position\<close> and \<open>Vec::remove\<close>.\<close>

fun position :: "('a \<Rightarrow> bool) \<Rightarrow> 'a list \<Rightarrow> nat option" where
  "position p [] = None"
| "position p (x # xs) = (if p x then Some 0 else map_option Suc (position p xs))"

definition remove_at :: "nat \<Rightarrow> 'a list \<Rightarrow> 'a list" where
  "remove_at i xs = take i xs @ drop (Suc i) xs"

lemma position_Some: "position p xs = Some i \<Longrightarrow> i < length xs \<and> p (xs ! i)"
  by (induction xs arbitrary: i) (auto split: if_splits)

lemma position_None: "position p xs = None \<longleftrightarrow> (\<forall>x \<in> set xs. \<not> p x)"
  by (induction xs) auto

lemma mset_remove_at: "i < length xs \<Longrightarrow> add_mset (xs ! i) (mset (remove_at i xs)) = mset xs"
proof -
  assume i: "i < length xs"
  have "mset xs = mset (take i xs @ xs ! i # drop (Suc i) xs)"
    using i by (simp add: id_take_nth_drop [symmetric])
  then show ?thesis by (simp add: remove_at_def)
qed

lemma length_remove_at [simp]: "i < length xs \<Longrightarrow> length (remove_at i xs) = length xs - 1"
  by (auto simp: remove_at_def)

lemma set_remove_at_subset: "set (remove_at i xs) \<subseteq> set xs"
  by (auto simp: remove_at_def dest: in_set_takeD in_set_dropD)

section \<open>Counting map\<close>

text \<open>A \<open>HashMap<K, usize>\<close> used as a counter: absent keys count zero.\<close>

type_synonym 'k counts = "'k \<Rightarrow> nat option"

definition count_of :: "'k counts \<Rightarrow> 'k \<Rightarrow> nat" where
  "count_of m k = (case m k of None \<Rightarrow> 0 | Some n \<Rightarrow> n)"

definition bump :: "'k \<Rightarrow> 'k counts \<Rightarrow> 'k counts" where
  "bump k m = m(k \<mapsto> count_of m k + 1)"

lemma count_of_bump [simp]: "count_of (bump k m) j = (if j = k then count_of m j + 1 else count_of m j)"
  by (simp add: count_of_def bump_def)

lemma count_of_empty [simp]: "count_of Map.empty k = 0"
  by (simp add: count_of_def)

end
