(* ===== verification/Text.thy ===== *)
theory Text
  imports Rust_Str
begin

text \<open>
  Text preparation (\<open>src/text.rs\<close>): binary detection, line tables, byte/line conversions,
  bounded chunking and excerpt windows.  BLAKE3 is a parameter \<open>b3\<close>, the lowercase hex digest
  of a byte string.  Slicing a \<open>str\<close> off a character boundary or out of range panics in the
  source; the model returns \<open>None\<close> there, so a \<open>Some\<close> result is a proof that the call does
  not panic.
\<close>

section \<open>Data\<close>

datatype text_kind = Text | Binary

record chunk =
  start_byte :: usize
  end_byte :: usize
  start_line :: usize
  end_line :: usize
  content :: string
  chunk_hash :: string

record prepared_text =
  pt_kind :: text_kind
  pt_content :: string
  pt_chunks :: "chunk list"
  pt_line_count :: usize

section \<open>Fingerprints and binary detection\<close>

definition content_fingerprint_hex_len :: nat where
  "content_fingerprint_hex_len = 32"

definition hash_bytes :: "(string \<Rightarrow> string) \<Rightarrow> string \<Rightarrow> string" where
  "hash_bytes b3 bytes = take content_fingerprint_hex_len (b3 bytes)"

definition text_hash :: "(string \<Rightarrow> string) \<Rightarrow> string \<Rightarrow> string" where
  "text_hash b3 t = hash_bytes b3 t"

definition is_control_byte :: "char \<Rightarrow> bool" where
  "is_control_byte b =
     (byte b < 32 \<and> byte b \<noteq> 9 \<and> byte b \<noteq> 10 \<and> byte b \<noteq> 13 \<or> byte b = 127)"

definition detect_kind :: "string \<Rightarrow> text_kind" where
  "detect_kind bytes =
     (if list_ex (\<lambda>b. byte b = 0) bytes then Binary
      else if \<not> utf8_valid bytes then Binary
      else if length (filter is_control_byte bytes) * 10 > length bytes * 3 then Binary
      else Text)"

section \<open>Line tables\<close>

abbreviation newline :: char where
  "newline \<equiv> CHR 0x0A"

text \<open>The loop of \<open>line_starts\<close> at byte index \<open>i\<close> of a text of \<open>n\<close> bytes.\<close>

fun line_starts_from :: "nat \<Rightarrow> nat \<Rightarrow> string \<Rightarrow> nat list" where
  "line_starts_from n i [] = []"
| "line_starts_from n i (b # bs) =
     (if b = newline \<and> i + 1 < n then (i + 1) # line_starts_from n (i + 1) bs
      else line_starts_from n (i + 1) bs)"

definition line_starts :: "string \<Rightarrow> usize list" where
  "line_starts t = (if t = [] then [] else 0 # line_starts_from (length t) 0 t)"

text \<open>
  \<open>slice::binary_search\<close> on a strictly sorted slice: \<open>Inr\<close> the index of the value, \<open>Inl\<close> its
  insertion point.
\<close>

definition binary_search :: "nat list \<Rightarrow> nat \<Rightarrow> nat + nat" where
  "binary_search xs v =
     (let k = length (takeWhile (\<lambda>x. x < v) xs)
      in if k < length xs \<and> xs ! k = v then Inr k else Inl k)"

definition byte_to_line :: "usize list \<Rightarrow> usize \<Rightarrow> usize \<Rightarrow> usize" where
  "byte_to_line starts text_len byte_offset =
     (let byte_offset = min byte_offset text_len
      in if starts = [] then 1
         else case binary_search starts byte_offset of Inr idx \<Rightarrow> idx + 1 | Inl idx \<Rightarrow> idx)"

definition byte_range_to_line_range :: "string \<Rightarrow> usize \<Rightarrow> usize \<Rightarrow> usize \<times> usize" where
  "byte_range_to_line_range t sb eb =
     (let text_len = length t;
          sb0 = min sb text_len;
          eb0 = min eb text_len;
          (sb, eb) = (if eb0 < sb0 then (eb0, sb0) else (sb0, eb0));
          starts = line_starts t;
          start_line = byte_to_line starts text_len sb;
          end_line = (if eb = 0 \<or> eb = sb then start_line else byte_to_line starts text_len (eb - 1))
      in (start_line, end_line))"

text \<open>
  \<open>None\<close> is a panic.  Indexing a slice panics out of range.  The swap of a reversed range runs after
  \<open>start_line == 0\<close> has been lifted to 1, so an \<open>end_line\<close> of 0 makes \<open>start_line\<close> 0 again and
  \<open>start_line - 1\<close> underflows (without overflow checks it wraps, and the index is out of range).
\<close>

definition index_checked :: "'a list \<Rightarrow> nat \<Rightarrow> 'a option" where
  "index_checked xs i = (if i < length xs then Some (xs ! i) else None)"

definition line_range_to_byte_range ::
  "usize list \<Rightarrow> usize \<Rightarrow> usize \<Rightarrow> usize \<Rightarrow> (usize \<times> usize) option" where
  "line_range_to_byte_range starts text_len sl el =
     (if starts = [] then Some (0, text_len)
      else
        let count = length starts;
            sl = (if sl = 0 then 1 else sl);
            (sl, el) = (if el < sl then (el, sl) else (sl, el));
            sl = (if sl > count then count else sl);
            el = (if el > count then count else el)
        in if sl = 0 then None
           else case index_checked starts (sl - 1) of
             None \<Rightarrow> None
           | Some sb \<Rightarrow> if el < count then map_option (Pair sb) (index_checked starts el) else Some (sb, text_len))"

section \<open>Slices and character boundaries\<close>

definition slice_str :: "string \<Rightarrow> nat \<Rightarrow> nat \<Rightarrow> string option" where
  "slice_str t a b =
     (if a \<le> b \<and> b \<le> length t \<and> is_char_boundary t a \<and> is_char_boundary t b
      then Some (drop a (take b t)) else None)"

fun floor_cb_loop :: "string \<Rightarrow> nat \<Rightarrow> nat" where
  "floor_cb_loop t 0 = 0"
| "floor_cb_loop t (Suc i) = (if is_char_boundary t (Suc i) then Suc i else floor_cb_loop t i)"

definition floor_char_boundary :: "string \<Rightarrow> nat \<Rightarrow> nat" where
  "floor_char_boundary t index = floor_cb_loop t (min index (length t))"

function next_cb_loop :: "string \<Rightarrow> nat \<Rightarrow> nat" where
  "next_cb_loop t i =
     (if i < length t \<and> \<not> is_char_boundary t i then next_cb_loop t (Suc i) else i)"
  by pat_completeness auto
termination
  by (relation "measure (\<lambda>(t, i). length t - i)") auto

declare next_cb_loop.simps [simp del]

definition next_char_boundary :: "string \<Rightarrow> nat \<Rightarrow> nat" where
  "next_char_boundary t index = next_cb_loop t (min index (length t))"

section \<open>Chunking\<close>

definition push_chunk ::
  "(string \<Rightarrow> string) \<Rightarrow> chunk list \<Rightarrow> string \<Rightarrow> nat \<Rightarrow> nat \<Rightarrow> nat \<Rightarrow> nat \<Rightarrow> chunk list option" where
  "push_chunk b3 chunks t sb eb sl el =
     map_option
       (\<lambda>c. chunks @ [\<lparr>start_byte = sb, end_byte = eb, start_line = sl, end_line = el,
                       content = c, chunk_hash = text_hash b3 c\<rparr>])
       (slice_str t sb eb)"

text \<open>The end of the next piece of an over-long line.\<close>

definition piece_end :: "string \<Rightarrow> nat \<Rightarrow> nat \<Rightarrow> nat \<Rightarrow> nat" where
  "piece_end t max_bytes offset line_end =
     (if offset + max_bytes \<ge> line_end then line_end
      else
        let boundary = floor_char_boundary t (offset + max_bytes);
            boundary = (if boundary \<le> offset then next_char_boundary t (offset + 1) else boundary)
        in min boundary line_end)"

lemma next_cb_loop_ge: "i \<le> next_cb_loop t i"
proof (induction t i rule: next_cb_loop.induct)
  case (1 t i)
  then show ?case
    by (cases "i < length t \<and> \<not> is_char_boundary t i")
      (auto simp: next_cb_loop.simps [of t i] dest: Suc_leD)
qed

lemma piece_end_progress:
  "offset < line_end \<Longrightarrow> line_end \<le> length t \<Longrightarrow> offset < piece_end t mb offset line_end"
  using next_cb_loop_ge [of "min (offset + 1) (length t)" t]
  by (auto simp: piece_end_def Let_def next_char_boundary_def)

text \<open>
  The inner loop over one over-long line.  The outer loop only calls it with
  \<open>line_end \<le> length t\<close>; outside that range the source would panic in \<open>push_chunk\<close>.
\<close>

function split_long_line ::
  "(string \<Rightarrow> string) \<Rightarrow> string \<Rightarrow> nat \<Rightarrow> nat \<Rightarrow> nat \<Rightarrow> nat \<Rightarrow> chunk list \<Rightarrow> chunk list option" where
  "split_long_line b3 t max_bytes line_no line_end offset chunks =
     (if offset < line_end then
        if line_end \<le> length t then
          let end_byte = piece_end t max_bytes offset line_end
          in case push_chunk b3 chunks t offset end_byte line_no line_no of
               None \<Rightarrow> None
             | Some chunks' \<Rightarrow> split_long_line b3 t max_bytes line_no line_end end_byte chunks'
        else None
      else Some chunks)"
  by pat_completeness auto
termination
  by (relation "measure (\<lambda>(b3, t, mb, ln, le, off, cs). le - off)")
    (auto simp: piece_end_progress diff_less_mono2)

declare split_long_line.simps [simp del]

record chunk_state =
  st_start_byte :: nat
  st_start_line :: nat
  st_lines :: nat
  st_bytes :: nat

definition line_end_of :: "string \<Rightarrow> nat list \<Rightarrow> nat \<Rightarrow> nat" where
  "line_end_of t starts i = (if i + 1 < length starts then starts ! (i + 1) else length t)"

text \<open>
  The outer loop.  Closing the current chunk re-examines the same line with an empty chunk,
  as the \<open>continue\<close> of the source does.
\<close>

function chunk_loop ::
  "(string \<Rightarrow> string) \<Rightarrow> string \<Rightarrow> nat list \<Rightarrow> nat \<Rightarrow> nat \<Rightarrow> nat \<Rightarrow> chunk_state \<Rightarrow> chunk list
     \<Rightarrow> (chunk_state \<times> chunk list) option" where
  "chunk_loop b3 t starts max_lines max_bytes i st chunks =
     (if i < length starts then
        let line_start = starts ! i;
            line_end = line_end_of t starts i;
            line_len = line_end - line_start;
            line_no = i + 1
        in if st_lines st > 0 \<and> (st_lines st + 1 > max_lines \<or> st_bytes st + line_len > max_bytes)
           then case push_chunk b3 chunks t (st_start_byte st) line_start (st_start_line st) (line_no - 1) of
                  None \<Rightarrow> None
                | Some chunks' \<Rightarrow>
                    chunk_loop b3 t starts max_lines max_bytes i
                      (st\<lparr>st_lines := 0, st_bytes := 0\<rparr>) chunks'
           else if st_lines st = 0 \<and> line_len > max_bytes
           then case split_long_line b3 t max_bytes line_no line_end line_start chunks of
                  None \<Rightarrow> None
                | Some chunks' \<Rightarrow> chunk_loop b3 t starts max_lines max_bytes (i + 1) st chunks'
           else chunk_loop b3 t starts max_lines max_bytes (i + 1)
                  \<lparr>st_start_byte = (if st_lines st = 0 then line_start else st_start_byte st),
                   st_start_line = (if st_lines st = 0 then line_no else st_start_line st),
                   st_lines = st_lines st + 1,
                   st_bytes = st_bytes st + line_len\<rparr> chunks
      else Some (st, chunks))"
  by pat_completeness auto
termination
  by (relation "measures [\<lambda>(b3, t, starts, ml, mb, i, st, cs). length starts - i,
                          \<lambda>(b3, t, starts, ml, mb, i, st, cs). st_lines st]") auto

declare chunk_loop.simps [simp del]

definition chunk_text ::
  "(string \<Rightarrow> string) \<Rightarrow> string \<Rightarrow> nat \<Rightarrow> nat \<Rightarrow> chunk list option" where
  "chunk_text b3 t max_lines max_bytes =
     (if max_lines = 0 \<or> max_bytes = 0 then None
      else if t = [] then Some []
      else
        let starts = line_starts t
        in case chunk_loop b3 t starts max_lines max_bytes 0
                  \<lparr>st_start_byte = 0, st_start_line = 1, st_lines = 0, st_bytes = 0\<rparr> [] of
             None \<Rightarrow> None
           | Some (st, chunks) \<Rightarrow>
               if st_lines st > 0
               then push_chunk b3 chunks t (st_start_byte st) (length t) (st_start_line st) (length starts)
               else Some chunks)"

text \<open>\<open>PreparedText::from_vec\<close>; \<open>from_bytes\<close> copies its argument and calls it.\<close>

definition from_vec :: "(string \<Rightarrow> string) \<Rightarrow> string \<Rightarrow> nat \<Rightarrow> nat \<Rightarrow> prepared_text option" where
  "from_vec b3 bytes max_chunk_lines max_chunk_bytes =
     (if max_chunk_lines = 0 \<or> max_chunk_bytes = 0 then None
      else
        let kind = detect_kind bytes
        in if kind = Binary
           then Some \<lparr>pt_kind = kind, pt_content = [], pt_chunks = [], pt_line_count = 0\<rparr>
           else map_option
             (\<lambda>chunks. \<lparr>pt_kind = kind, pt_content = bytes, pt_chunks = chunks,
                pt_line_count = (if chunks = [] then 0 else end_line (last chunks))\<rparr>)
             (chunk_text b3 bytes max_chunk_lines max_chunk_bytes))"

section \<open>Excerpts\<close>

definition excerpt :: "string \<Rightarrow> nat \<Rightarrow> nat \<Rightarrow> string option" where
  "excerpt t sl el =
     (let starts = line_starts t
      in case line_range_to_byte_range starts (length t) sl el of
           None \<Rightarrow> None
         | Some (sb, eb) \<Rightarrow> slice_str t sb eb)"

definition anchored_line_window :: "nat \<Rightarrow> nat \<Rightarrow> nat \<Rightarrow> nat \<Rightarrow> nat \<Rightarrow> nat \<times> nat" where
  "anchored_line_window desired_start desired_end required_start required_end max_lines =
     (let required_start = max required_start 1;
          required_end = max required_end required_start;
          desired_start = min (max desired_start 1) required_start;
          desired_end = max desired_end required_end;
          desired_lines = sat_add (desired_end - desired_start) 1
      in if max_lines = 0 \<or> desired_lines \<le> max_lines then (desired_start, desired_end)
         else
           let required_lines = sat_add (required_end - required_start) 1
           in if required_lines \<ge> max_lines then (required_start, required_end)
              else
                let available_before = required_start - desired_start;
                    available_after = desired_end - required_end;
                    extra_lines = max_lines - required_lines;
                    before = min available_before (div_ceil extra_lines 2);
                    after = min available_after (extra_lines - before);
                    remaining = extra_lines - before - after;
                    additional_before = min (available_before - before) remaining;
                    before = before + additional_before;
                    remaining = remaining - additional_before;
                    after = after + min (available_after - after) remaining
                in (required_start - before, sat_add required_end after))"

definition excerpt_with_context :: "string \<Rightarrow> nat \<Rightarrow> nat \<Rightarrow> nat \<Rightarrow> nat \<Rightarrow> string option" where
  "excerpt_with_context t focus_start_line focus_end_line context_lines max_lines =
     (let starts = line_starts t;
          count = length starts
      in if count = 0 then Some []
         else
           let required_start = min (max focus_start_line 1) count;
               required_end = min (max focus_end_line required_start) count;
               desired_start = max (required_start - context_lines) 1;
               desired_end = min (sat_add required_end context_lines) count;
               (first, last) =
                 anchored_line_window desired_start desired_end required_start required_end max_lines
           in excerpt t first last)"

definition excerpt_around :: "string \<Rightarrow> nat \<Rightarrow> nat \<Rightarrow> nat \<Rightarrow> string option" where
  "excerpt_around t sb eb context_lines =
     (let (start_line, end_line) = byte_range_to_line_range t sb eb
      in excerpt_with_context t start_line end_line context_lines 0)"

end
