(* ===== verification/Text_Lines.thy ===== *)
theory Text_Lines
  imports Text
begin

text \<open>
  Line tables and line windows (\<open>src/text.rs\<close>): the line starts of a text partition its bytes,
  byte offsets and line numbers convert into each other, excerpts of valid UTF-8 never slice
  inside a character, and the anchored window keeps the required lines and fills its line cap.
\<close>

section \<open>UTF-8 structure\<close>

lemma utf8_valid_step:
  "utf8_valid (a # bs) \<Longrightarrow>
     \<not> is_cont a \<and> (\<exists>k \<le> 3. k \<le> length bs \<and> (\<forall>j < k. is_cont (bs ! j)) \<and> utf8_valid (drop k bs) \<and>
       (byte a < 128 \<longrightarrow> k = 0))"
proof (cases "byte a < 128")
  case True
  assume "utf8_valid (a # bs)"
  then have "\<not> is_cont a \<and> utf8_valid bs" using True by (simp add: is_cont_def utf8_valid.simps(2))
  then show ?thesis by (intro conjI exI [of _ 0]) auto
next
  case False
  assume v: "utf8_valid (a # bs)"
  then obtain b cs where bs: "bs = b # cs" using False by (auto simp: utf8_valid.simps(2) [of a bs] split: list.splits)
  consider (two) "utf8_seq2 a b" "utf8_valid cs"
    | (three) c ds where "cs = c # ds" "utf8_seq3 a b c" "utf8_valid ds"
    | (four) c d es where "cs = c # d # es" "utf8_seq4 a b c d" "utf8_valid es"
    using v False utf8_valid.simps(2) [of a bs] unfolding bs by (auto split: list.splits if_splits)
  then show ?thesis
  proof cases
    case two
    then show ?thesis unfolding bs
      using False utf8_seq2_cont [OF two(1)]
      by (intro conjI exI [of _ 1]) (auto simp: is_cont_def)
  next
    case three
    then show ?thesis unfolding bs
      using False utf8_seq3_cont [OF three(2)]
      by (intro conjI exI [of _ 2]) (auto simp: is_cont_def less_Suc_eq numeral_2_eq_2)
  next
    case four
    then show ?thesis unfolding bs
      using False utf8_seq4_cont [OF four(2)]
      by (intro conjI exI [of _ 3]) (auto simp: is_cont_def less_Suc_eq numeral_3_eq_3)
  qed
qed

lemma utf8_valid_hd: "utf8_valid t \<Longrightarrow> t \<noteq> [] \<Longrightarrow> \<not> is_cont (t ! 0)"
  by (cases t) (auto dest: utf8_valid_step)

text \<open>A character spans at most four bytes.\<close>

lemma boundary_within_four:
  "utf8_valid t \<Longrightarrow> is_char_boundary t a \<Longrightarrow> a < length t \<Longrightarrow>
     \<exists>b. a < b \<and> b \<le> a + 4 \<and> b \<le> length t \<and> is_char_boundary t b"
proof (induction "length t" arbitrary: t a rule: less_induct)
  case less
  then obtain x bs where t: "t = x # bs" by (cases t) auto
  obtain k where k: "k \<le> 3" "k \<le> length bs" "\<forall>j < k. is_cont (bs ! j)" "utf8_valid (drop k bs)"
    using utf8_valid_step [of x bs] less.prems(1) unfolding t by blast
  show ?case
  proof (cases "a = 0")
    case True
    have "k < length bs \<Longrightarrow> \<not> is_cont (bs ! k)"
      using utf8_valid_hd [OF k(4)] by (cases "drop k bs") (auto simp: nth_via_drop)
    then have "is_char_boundary t (Suc k)"
      using k(2) by (auto simp: is_char_boundary_def t)
    then show ?thesis using True k by (intro exI [of _ "Suc k"]) (auto simp: t)
  next
    case False
    have "\<not> is_cont (t ! a)" using less.prems False by (auto simp: is_char_boundary_def)
    then have "Suc k \<le> a"
      using k(3) False by (cases a) (auto simp: t simp flip: not_less)
    define u where "u = drop k bs"
    have lu: "length u < length t" "length t = Suc k + length u"
      using k(2) by (auto simp: u_def t)
    have nth: "u ! j = t ! (Suc k + j)" for j
      using k(2) by (simp add: u_def t)
    have "is_char_boundary u (a - Suc k)" "a - Suc k < length u"
      using less.prems(2,3) \<open>Suc k \<le> a\<close> False lu(2)
      by (auto simp: is_char_boundary_def nth)
    then obtain b where b: "a - Suc k < b" "b \<le> a - Suc k + 4" "b \<le> length u" "is_char_boundary u b"
      using less.hyps [OF lu(1)] k(4) u_def by blast
    have "is_char_boundary t (Suc k + b)"
      using b(1,4) lu(2) by (auto simp: is_char_boundary_def nth)
    then show ?thesis
      using b \<open>Suc k \<le> a\<close> lu(2) by (intro exI [of _ "Suc k + b"]) auto
  qed
qed

lemma boundary_after_newline:
  "utf8_valid t \<Longrightarrow> t ! i = newline \<Longrightarrow> Suc i < length t \<Longrightarrow> is_char_boundary t (Suc i)"
proof (induction "length t" arbitrary: t i rule: less_induct)
  case less
  then obtain x bs where t: "t = x # bs" by (cases t) auto
  obtain k where k: "k \<le> 3" "k \<le> length bs" "\<forall>j < k. is_cont (bs ! j)" "utf8_valid (drop k bs)"
    "byte x < 128 \<longrightarrow> k = 0"
    using utf8_valid_step [of x bs] less.prems(1) unfolding t by blast
  define u where "u = drop k bs"
  have lu: "length u < length t" "length t = Suc k + length u"
    using k(2) by (auto simp: u_def t)
  have nth: "u ! j = t ! (Suc k + j)" for j
    using k(2) by (simp add: u_def t)
  show ?case
  proof (cases "i = 0")
    case True
    then have "k = 0" using k(5) less.prems(2) by (simp add: t)
    then have "\<not> is_cont (t ! 1)"
      using utf8_valid_hd [OF k(4)] less.prems(3) True by (auto simp: t)
    then show ?thesis using True less.prems(3) by (simp add: is_char_boundary_def)
  next
    case False
    have "\<not> is_cont (t ! i)" using less.prems(2) by (simp add: is_cont_def)
    then have ge: "Suc k \<le> i" using k(3) False by (cases i) (auto simp: t simp flip: not_less)
    then have "is_char_boundary u (Suc (i - Suc k))"
      using less.hyps [OF lu(1), of "i - Suc k"] less.prems lu(2) k(4)
      by (auto simp: nth u_def [symmetric])
    then show ?thesis
      using ge less.prems(3) lu(2) by (auto simp: is_char_boundary_def nth Suc_diff_Suc)
  qed
qed

section \<open>Line tables\<close>

lemma line_starts_from_iff:
  "x \<in> set (line_starts_from n i bs) \<longleftrightarrow>
     (\<exists>j < length bs. bs ! j = newline \<and> x = i + j + 1 \<and> x < n)"
proof (induction bs arbitrary: i)
  case (Cons b bs)
  have "(\<exists>j < length (b # bs). (b # bs) ! j = newline \<and> x = i + j + 1 \<and> x < n) \<longleftrightarrow>
      (b = newline \<and> x = i + 1 \<and> x < n) \<or>
      (\<exists>j < length bs. bs ! j = newline \<and> x = (i + 1) + j + 1 \<and> x < n)"
    by (auto simp: less_Suc_eq_0_disj)
  then show ?case using Cons by auto
qed simp

lemma line_starts_from_sorted: "sorted_wrt (<) (line_starts_from n i bs)"
proof (induction bs arbitrary: i)
  case (Cons b bs)
  then show ?case by (auto simp: line_starts_from_iff)
qed simp

lemma line_starts_sorted: "sorted_wrt (<) (line_starts t)"
  by (auto simp: line_starts_def line_starts_from_sorted line_starts_from_iff)

lemma line_starts_lt: "x \<in> set (line_starts t) \<Longrightarrow> x < length t"
  by (auto simp: line_starts_def line_starts_from_iff split: if_splits)

lemma line_starts_hd: "t \<noteq> [] \<Longrightarrow> line_starts t ! 0 = 0 \<and> 0 < length (line_starts t)"
  by (simp add: line_starts_def)

lemma line_starts_empty [simp]: "line_starts [] = []"
  by (simp add: line_starts_def)

lemma line_starts_Nil [simp]: "line_starts t = [] \<longleftrightarrow> t = []"
  by (simp add: line_starts_def)

lemma line_starts_boundary:
  "utf8_valid t \<Longrightarrow> x \<in> set (line_starts t) \<Longrightarrow> is_char_boundary t x"
  by (auto simp: line_starts_def line_starts_from_iff boundary_after_newline
      split: if_splits) (simp add: is_char_boundary_def)

section \<open>The line table as a partition\<close>

definition line_pos :: "string \<Rightarrow> nat \<Rightarrow> nat" where
  "line_pos t i = (if i < length (line_starts t) then line_starts t ! i else length t)"

lemma line_end_of_pos: "line_end_of t (line_starts t) i = line_pos t (Suc i)"
  by (simp add: line_end_of_def line_pos_def)

lemma line_pos_le_length: "line_pos t i \<le> length t"
  using line_starts_lt by (auto simp: line_pos_def intro: less_imp_le)

lemma line_pos_strict: "i < j \<Longrightarrow> i < length (line_starts t) \<Longrightarrow> line_pos t i < line_pos t j"
  using line_starts_sorted [of t] line_starts_lt [of "line_starts t ! i" t]
  by (auto simp: line_pos_def sorted_wrt_iff_nth_less)

lemma line_pos_mono: "i \<le> j \<Longrightarrow> line_pos t i \<le> line_pos t j"
  using line_pos_strict [of i j t] line_pos_le_length [of t i]
  by (cases "i = j"; cases "i < length (line_starts t)")
    (auto simp: line_pos_def intro: less_imp_le)

lemma line_pos_0: "t \<noteq> [] \<Longrightarrow> line_pos t 0 = 0"
  by (simp add: line_pos_def line_starts_hd)

lemma line_pos_boundary: "utf8_valid t \<Longrightarrow> is_char_boundary t (line_pos t i)"
  using line_starts_boundary by (auto simp: line_pos_def) (simp add: is_char_boundary_def)



section \<open>Anchored windows\<close>

lemma window_balance:
  fixes A B E :: nat
  assumes "E \<le> A + B"
  defines "p \<equiv> min A (div_ceil E 2)"
  defines "q \<equiv> min B (E - p)"
  defines "x \<equiv> min (A - p) (E - p - q)"
  defines "y \<equiv> min (B - q) (E - p - q - x)"
  shows "p + x \<le> A" and "q + y \<le> B" and "(p + x) + (q + y) = E"
proof -
  have "p \<le> E" by (simp add: p_def div_ceil_two)
  then show "p + x \<le> A" "q + y \<le> B" "(p + x) + (q + y) = E"
    using assms(1) by (auto simp: p_def q_def x_def y_def min_def)
qed

lemma anchored_line_window_spec:
  fixes ds de rs re ml :: nat
  assumes "de \<le> usize_max" "rs \<le> usize_max" "re \<le> usize_max"
  defines "rs' \<equiv> max rs 1"
  defines "re' \<equiv> max re rs'"
  defines "ds' \<equiv> min (max ds 1) rs'"
  defines "de' \<equiv> max de re'"
  defines "w \<equiv> anchored_line_window ds de rs re ml"
  shows "ds' \<le> fst w \<and> fst w \<le> rs' \<and> re' \<le> snd w \<and> snd w \<le> de' \<and>
    snd w - fst w + 1 = (if ml = 0 then de' - ds' + 1 else max (re' - rs' + 1) (min ml (de' - ds' + 1)))"
proof -
  have one: "1 \<le> usize_max" by (simp add: usize_max_def)
  have ord: "1 \<le> ds'" "ds' \<le> rs'" "rs' \<le> re'" "re' \<le> de'" "de' \<le> usize_max"
    using assms(1-3) one by (auto simp: rs'_def re'_def ds'_def de'_def)
  have dl: "sat_add (de' - ds') 1 = de' - ds' + 1" and rl: "sat_add (re' - rs') 1 = re' - rs' + 1"
    using ord by (simp_all add: sat_add_def)
  define A where "A = rs' - ds'"
  define B where "B = de' - re'"
  define E where "E = ml - (re' - rs' + 1)"
  define p where "p = min A (div_ceil E 2)"
  define q where "q = min B (E - p)"
  define x where "x = min (A - p) (E - p - q)"
  define y where "y = min (B - q) (E - p - q - x)"
  have w: "w = (if ml = 0 \<or> de' - ds' + 1 \<le> ml then (ds', de')
      else if re' - rs' + 1 \<ge> ml then (rs', re')
      else (rs' - (p + x), sat_add re' (q + y)))"
    unfolding w_def anchored_line_window_def Let_def rs'_def [symmetric] re'_def [symmetric]
      ds'_def [symmetric] de'_def [symmetric] dl rl A_def [symmetric] B_def [symmetric]
      E_def [symmetric] p_def [symmetric] q_def [symmetric] x_def [symmetric] y_def [symmetric]
    by simp
  show ?thesis
  proof (cases "ml = 0 \<or> de' - ds' + 1 \<le> ml \<or> re' - rs' + 1 \<ge> ml")
    case True
    then show ?thesis using ord by (auto simp: w)
  next
    case False
    then have "E \<le> A + B" using ord unfolding A_def B_def E_def by linarith
    note bal = window_balance [OF this, folded p_def, folded q_def, folded x_def, folded y_def]
    have "q + y \<le> de' - re'" using bal(2) by (simp add: B_def)
    then have "sat_add re' (q + y) = re' + (q + y)" using ord by (intro sat_add_exact) simp
    then show ?thesis
      using False ord bal by (auto simp: w A_def B_def E_def)
  qed
qed

section \<open>Byte offsets and line numbers\<close>

lemma byte_to_line_unique:
  assumes t: "t \<noteq> []" and b: "b < length t" and i: "line_pos t i \<le> b" "b < line_pos t (Suc i)"
  shows "byte_to_line (line_starts t) (length t) b = Suc i"
proof -
  let ?s = "line_starts t"
  have il: "i < length ?s"
    using i b by (rule_tac ccontr) (auto simp: line_pos_def)
  have lt: "j < i \<Longrightarrow> ?s ! j < ?s ! i" for j
    using line_pos_strict [of j i t] il by (auto simp: line_pos_def)
  have si: "?s ! i \<le> b" using i(1) il by (simp add: line_pos_def)
  have ss: "j < length ?s \<Longrightarrow> i < j \<Longrightarrow> b < ?s ! j" for j
    using line_pos_mono [of "Suc i" j t] i(2) by (simp add: line_pos_def)
  define k where "k = length (takeWhile (\<lambda>x. x < b) ?s)"
  have k: "k = (if ?s ! i = b then i else Suc i)"
  proof (cases "?s ! i = b")
    case True
    then have "takeWhile (\<lambda>x. x < b) ?s = take i ?s"
      using il lt by (intro takeWhile_eq_take_P_nth) auto
    then show ?thesis using True il by (simp add: k_def)
  next
    case False
    have "?s ! j < b" if "j < Suc i" "j < length ?s" for j
      using that lt [of j] si False by (cases "j = i") auto
    moreover have "\<not> ?s ! Suc i < b" if "Suc i < length ?s"
      using that ss [of "Suc i"] by simp
    ultimately have "takeWhile (\<lambda>x. x < b) ?s = take (Suc i) ?s"
      by (intro takeWhile_eq_take_P_nth) auto
    then show ?thesis using False il by (simp add: k_def)
  qed
  have "binary_search ?s b = (if ?s ! i = b then Inr i else Inl (Suc i))"
    using k il ss [of "Suc i"] by (auto simp: binary_search_def k_def [symmetric] Let_def)
  then show ?thesis using b t by (simp add: byte_to_line_def)
qed

lemma line_of_byte:
  assumes "t \<noteq> []" "b < length t"
  obtains i where "i < length (line_starts t)" "line_pos t i \<le> b" "b < line_pos t (Suc i)"
proof -
  let ?n = "length (line_starts t)"
  define P where "P i \<longleftrightarrow> line_pos t i \<le> b" for i
  have "P 0" using line_pos_0 [OF assms(1)] by (simp add: P_def)
  have "\<not> P ?n" using assms(2) by (simp add: P_def line_pos_def)
  define i where "i = (GREATEST i. P i \<and> i < ?n)"
  have "P i \<and> i < ?n"
    unfolding i_def
  proof (rule GreatestI_nat [where b = ?n])
    show "P 0 \<and> 0 < ?n" using \<open>P 0\<close> line_starts_hd [OF assms(1)] by simp
  qed simp
  moreover have "\<not> P (Suc i)"
  proof
    assume "P (Suc i)"
    then have "Suc i < ?n" using \<open>\<not> P ?n\<close> calculation by (cases "Suc i = ?n") auto
    then have "Suc i \<le> i"
      unfolding i_def using \<open>P (Suc i)\<close> i_def by (intro Greatest_le_nat [where b = ?n]) auto
    then show False by simp
  qed
  ultimately show thesis by (intro that [of i]) (auto simp: P_def)
qed

text \<open>A non-empty byte range inside lines \<open>i + 1\<close> to \<open>j + 1\<close> maps to exactly those lines.\<close>

lemma byte_range_lines:
  assumes t: "t \<noteq> []" and r: "sb < eb" "eb \<le> length t"
    and i: "line_pos t i \<le> sb" "sb < line_pos t (Suc i)"
    and j: "line_pos t j < eb" "eb \<le> line_pos t (Suc j)"
  shows "byte_range_to_line_range t sb eb = (Suc i, Suc j)"
proof -
  have "byte_to_line (line_starts t) (length t) sb = Suc i"
    using byte_to_line_unique [OF t _ i] r by simp
  moreover have "byte_to_line (line_starts t) (length t) (eb - 1) = Suc j"
    using byte_to_line_unique [OF t, of "eb - 1" j] r j by simp
  ultimately show ?thesis
    using r by (simp add: byte_range_to_line_range_def Let_def min_def)
qed

lemma line_range_bytes:
  assumes "1 \<le> sl" "sl \<le> el" "el \<le> length (line_starts t)"
  shows "line_range_to_byte_range (line_starts t) (length t) sl el =
    Some (line_pos t (sl - 1), line_pos t el)"
proof -
  have "line_starts t \<noteq> []" "sl - 1 < length (line_starts t)" using assms by auto
  then show ?thesis
    using assms by (simp add: line_range_to_byte_range_def index_checked_def line_pos_def)
qed

lemma line_range_clamped:
  fixes sl el :: nat
  assumes t: "t \<noteq> []" and el: "0 < el"
  defines "s0 \<equiv> max sl 1" and "n \<equiv> length (line_starts t)"
  shows "line_range_to_byte_range (line_starts t) (length t) sl el =
    Some (line_pos t (min (min s0 el) n - 1), line_pos t (min (max s0 el) n))"
proof -
  have n: "0 < n" using line_starts_hd [OF t] by (simp add: n_def)
  have s0: "s0 = (if sl = 0 then 1 else sl)" "0 < s0" by (auto simp: s0_def)
  have ne: "line_starts t \<noteq> []" using t by simp
  show ?thesis
    unfolding line_range_to_byte_range_def Let_def s0(1) [symmetric] n_def [symmetric]
    using n ne el s0(2) by (auto simp: line_pos_def index_checked_def n_def [symmetric] min_def max_def)
qed

lemma excerpt_total:
  assumes v: "utf8_valid t" and el: "0 < el"
  shows "\<exists>s. excerpt t sl el = Some s"
proof (cases "t = []")
  case True
  then show ?thesis
    by (simp add: excerpt_def line_range_to_byte_range_def slice_str_def is_char_boundary_def)
next
  case False
  let ?n = "length (line_starts t)"
  define a where "a = min (min (max sl 1) el) ?n - 1"
  define b where "b = min (max (max sl 1) el) ?n"
  have "a \<le> b" unfolding a_def b_def by linarith
  then show ?thesis
    using line_range_clamped [OF False el, of sl, folded a_def b_def] line_pos_boundary [OF v]
      line_pos_le_length [of t b] line_pos_mono [of a b t]
    by (simp add: excerpt_def slice_str_def)
qed

lemma excerpt_lines:
  assumes v: "utf8_valid t" and r: "1 \<le> sl" "sl \<le> el" "el \<le> length (line_starts t)"
  shows "excerpt t sl el = Some (drop (line_pos t (sl - 1)) (take (line_pos t el) t))"
  using line_range_bytes [OF r] line_pos_boundary [OF v] line_pos_le_length [of t el]
    line_pos_mono [of "sl - 1" el t] r
  by (simp add: excerpt_def Let_def slice_str_def)

lemma line_count_le: "length (line_starts t) \<le> length t"
proof -
  have "distinct (line_starts t)"
    using line_starts_sorted strict_sorted_iff by blast
  then have "length (line_starts t) = card (set (line_starts t))" by (simp add: distinct_card)
  also have "\<dots> \<le> card {..< length t}"
    using line_starts_lt by (intro card_mono) auto
  finally show ?thesis by simp
qed

text \<open>
  A context excerpt is a run of whole lines that holds the (clamped) focus lines, whatever the
  line cap.
\<close>

lemma excerpt_with_context_lines:
  fixes fs fe cl ml :: nat
  assumes v: "utf8_valid t" and t: "t \<noteq> []" and len: "length t \<le> usize_max"
  defines "n \<equiv> length (line_starts t)"
  defines "r1 \<equiv> min (max fs 1) n" 
  defines "r2 \<equiv> min (max fe r1) n"
  shows "\<exists>a b. 1 \<le> a \<and> a \<le> r1 \<and> r2 \<le> b \<and> b \<le> n \<and>
    excerpt_with_context t fs fe cl ml = Some (drop (line_pos t (a - 1)) (take (line_pos t b) t))"
proof -
  have n: "0 < n" "n \<le> usize_max"
    using line_starts_hd [OF t] line_count_le [of t] len by (auto simp: n_def)
  define ds where "ds = max (r1 - cl) 1"
  define de where "de = min (sat_add r2 cl) n"
  have r: "1 \<le> r1" "r1 \<le> r2" "r2 \<le> n" using n by (auto simp: r1_def r2_def)
  define w where "w = anchored_line_window ds de r1 r2 ml"
  have de: "de \<le> n" "de \<le> usize_max" using n by (auto simp: de_def)
  have mx: "max r1 1 = r1" "max r2 r1 = r2" using r by auto
  have "min (max ds 1) r1 \<le> fst w \<and> fst w \<le> r1 \<and> r2 \<le> snd w \<and> snd w \<le> max de r2"
    using anchored_line_window_spec [of de r1 r2 ds ml] r n de unfolding mx w_def by simp
  then have ab: "1 \<le> fst w" "fst w \<le> r1" "r2 \<le> snd w" "snd w \<le> n"
    using de r by (auto simp: ds_def)
  have "excerpt_with_context t fs fe cl ml = excerpt t (fst w) (snd w)"
    unfolding excerpt_with_context_def Let_def n_def [symmetric] r1_def [symmetric]
      r2_def [symmetric] ds_def [symmetric] de_def [symmetric] w_def [symmetric]
    using n by (simp add: case_prod_beta)
  also have "\<dots> = Some (drop (line_pos t (fst w - 1)) (take (line_pos t (snd w)) t))"
    using ab r by (intro excerpt_lines [OF v]) (auto simp: n_def)
  finally show ?thesis using ab by blast
qed

section \<open>Properties\<close>

text \<open>Byte and line ranges convert back: the bytes of lines \<open>sl\<close> to \<open>el\<close> of a text, looked up
  in its line table, map back to exactly those lines.\<close>

theorem line_byte_roundtrip:
  assumes "1 \<le> sl" "sl \<le> el" "el \<le> length (line_starts t)"
  shows "\<exists>sb eb. line_range_to_byte_range (line_starts t) (length t) sl el = Some (sb, eb) \<and>
    sb < eb \<and> eb \<le> length t \<and> byte_range_to_line_range t sb eb = (sl, el)"
proof -
  have t: "t \<noteq> []" using assms by auto
  have lt: "line_pos t (sl - 1) < line_pos t sl" "line_pos t (el - 1) < line_pos t el"
    using assms by (auto intro!: line_pos_strict)
  have le: "line_pos t (sl - 1) < line_pos t el"
    using lt(1) line_pos_mono [OF assms(2), of t] by simp
  have "byte_range_to_line_range t (line_pos t (sl - 1)) (line_pos t el) = (Suc (sl - 1), Suc (el - 1))"
    using lt le assms line_pos_le_length [of t el] by (intro byte_range_lines [OF t]) auto
  then show ?thesis
    using line_range_bytes [OF assms] le line_pos_le_length [of t el] assms by simp
qed

theorem line_byte_roundtrip_witness:
  "\<exists>sb eb. line_range_to_byte_range (line_starts [CHR ''a'', newline, CHR ''b'', newline, CHR ''c'']) 5 2 3 = Some (sb, eb) \<and>
    sb < eb \<and> eb \<le> 5 \<and>
    byte_range_to_line_range [CHR ''a'', newline, CHR ''b'', newline, CHR ''c''] sb eb = (2, 3)"
  using line_byte_roundtrip [of 2 3 "[CHR ''a'', newline, CHR ''b'', newline, CHR ''c'']"]
  by (simp add: line_starts_def numeral_eq_Suc)

text \<open>C35: \<open>line_range_to_byte_range\<close> on the line table of any text and any pair of line numbers, in
  range or not.  It panics for exactly one kind of input: a non-empty text and an end line of 0.
  Otherwise it clamps and swaps as intended: for a non-empty text the result is a non-empty byte range inside the text,
  and looking its bytes up again gives exactly the lines asked for, with the start lifted to 1, the
  two put in order and both cut off at the last line.\<close>

theorem line_range_panics_iff:
  fixes sl el :: nat and t :: string
  defines "n \<equiv> length (line_starts t)"
  shows "(line_range_to_byte_range (line_starts t) (length t) sl el = None \<longleftrightarrow> t \<noteq> [] \<and> el = 0) \<and>
    (t \<noteq> [] \<and> el \<noteq> 0 \<longrightarrow> (\<exists>sb eb. line_range_to_byte_range (line_starts t) (length t) sl el = Some (sb, eb) \<and>
       sb < eb \<and> eb \<le> length t \<and>
       byte_range_to_line_range t sb eb = (min (min (max sl 1) el) n, min (max (max sl 1) el) n)))"
proof (cases "t = [] \<or> el = 0")
  case True
  then show ?thesis by (auto simp: line_range_to_byte_range_def Let_def)
next
  case False
  define a where "a = min (min (max sl 1) el) n"
  define b where "b = min (max (max sl 1) el) n"
  have "0 < n" using False line_starts_hd [of t] by (simp add: n_def)
  then have ab: "1 \<le> a" "a \<le> b" "b \<le> length (line_starts t)" using False unfolding n_def [symmetric] by (auto simp: a_def b_def)
  have "line_range_to_byte_range (line_starts t) (length t) sl el = line_range_to_byte_range (line_starts t) (length t) a b"
    using line_range_bytes [OF ab] line_range_clamped [of t el sl] False by (simp add: a_def b_def n_def)
  then show ?thesis using line_byte_roundtrip [OF ab] False unfolding a_def [symmetric] b_def [symmetric] by auto
qed

theorem line_range_panics_iff_witness:
  "(\<exists>sb eb. line_range_to_byte_range (line_starts [CHR ''a'', newline, CHR ''b'']) 3 9 2 = Some (sb, eb) \<and> sb < eb \<and> eb \<le> 3 \<and>
     byte_range_to_line_range [CHR ''a'', newline, CHR ''b''] sb eb = (2, 2)) \<and>
   line_range_to_byte_range (line_starts [CHR ''a'', newline, CHR ''b'']) 3 9 0 = None"
  using line_range_panics_iff [of "[CHR ''a'', newline, CHR ''b'']" 9 2]
    line_range_panics_iff [of "[CHR ''a'', newline, CHR ''b'']" 9 0]
  by (simp add: line_starts_def eval_nat_numeral)

text \<open>The anchored line window always contains the required lines, never leaves the desired
  span, and is exactly as long as the cap allows: the whole desired span without a cap, otherwise
  the cap, or the required lines when they alone exceed it.\<close>

theorem anchored_line_window_exact:
  assumes "de \<le> usize_max" "rs \<le> usize_max" "re \<le> usize_max" "1 \<le> ds" "ds \<le> rs" "rs \<le> re" "re \<le> de"
  shows "\<exists>a b. anchored_line_window ds de rs re ml = (a, b) \<and>
    ds \<le> a \<and> a \<le> rs \<and> re \<le> b \<and> b \<le> de \<and>
    b - a + 1 = (if ml = 0 then de - ds + 1 else max (re - rs + 1) (min ml (de - ds + 1)))"
proof -
  have m: "max rs 1 = rs" "max re rs = re" "max ds 1 = ds" "min ds rs = ds" "max de re = de"
    using assms(4-7) by auto
  show ?thesis
    using anchored_line_window_spec [OF assms(1-3), of ds ml] unfolding m
    by (cases "anchored_line_window ds de rs re ml") auto
qed

theorem anchored_line_window_exact_witness:
  "\<exists>a b. anchored_line_window 10 50 30 30 20 = (a, b) \<and>
    10 \<le> a \<and> a \<le> 30 \<and> 30 \<le> b \<and> b \<le> 50 \<and> b - a + 1 = 20"
  using anchored_line_window_exact [of 50 30 30 10 20] by (simp add: usize_max_def)

text \<open>A context excerpt of valid UTF-8 text never panics and is a run of whole lines that
  contains the focus lines, whatever the requested context and line cap.\<close>

theorem excerpt_with_context_keeps_focus:
  assumes "utf8_valid t" "t \<noteq> []" "length t \<le> usize_max"
    "1 \<le> fs" "fs \<le> fe" "fe \<le> length (line_starts t)"
  shows "\<exists>a b. 1 \<le> a \<and> a \<le> fs \<and> fe \<le> b \<and> b \<le> length (line_starts t) \<and>
    excerpt_with_context t fs fe cl ml = excerpt t a b \<and> excerpt t a b \<noteq> None"
proof -
  have "min (max fs 1) (length (line_starts t)) = fs" "min (max fe fs) (length (line_starts t)) = fe"
    using assms by auto
  then obtain a b where ab: "1 \<le> a" "a \<le> fs" "fe \<le> b" "b \<le> length (line_starts t)"
    "excerpt_with_context t fs fe cl ml = Some (drop (line_pos t (a - 1)) (take (line_pos t b) t))"
    using excerpt_with_context_lines [OF assms(1-3), of fs fe cl ml] by auto
  moreover have "excerpt t a b = Some (drop (line_pos t (a - 1)) (take (line_pos t b) t))"
    using ab assms by (intro excerpt_lines) auto
  ultimately show ?thesis by (metis option.distinct(1))
qed

theorem excerpt_with_context_keeps_focus_witness:
  "\<exists>a b. 1 \<le> a \<and> a \<le> 2 \<and> 2 \<le> b \<and> b \<le> 3 \<and>
    excerpt_with_context [CHR ''a'', newline, CHR ''b'', newline, CHR ''c''] 2 2 1 2 =
      excerpt [CHR ''a'', newline, CHR ''b'', newline, CHR ''c''] a b \<and>
    excerpt [CHR ''a'', newline, CHR ''b'', newline, CHR ''c''] a b \<noteq> None"
proof -
  have "length [CHR ''a'', newline, CHR ''b'', newline, CHR ''c''] \<le> usize_max"
    by (simp add: usize_max_def)
  then show ?thesis
    using excerpt_with_context_keeps_focus [of "[CHR ''a'', newline, CHR ''b'', newline, CHR ''c'']" 2 2 1 2]
    by (simp add: line_starts_def utf8_valid.simps(2) numeral_eq_Suc)
qed

end
