(* ===== verification/Text_Chunks.thy ===== *)
theory Text_Chunks
  imports Text_Lines
begin

text \<open>
  Correctness of \<open>chunk_text\<close> (\<open>src/text.rs\<close>): on valid UTF-8 the two nested loops never panic,
  and the chunks tile the text in order, respect the line and byte bounds and record the lines
  their bytes lie on.
\<close>

section \<open>Chunk well-formedness\<close>

definition chunk_ok :: "(string \<Rightarrow> string) \<Rightarrow> string \<Rightarrow> nat \<Rightarrow> nat \<Rightarrow> chunk \<Rightarrow> bool" where
  "chunk_ok b3 t ml mb c \<longleftrightarrow>
     start_byte c < end_byte c \<and> end_byte c \<le> length t \<and>
     content c = drop (start_byte c) (take (end_byte c) t) \<and>
     chunk_hash c = text_hash b3 (content c) \<and>
     1 \<le> start_line c \<and> start_line c \<le> end_line c \<and> end_line c \<le> length (line_starts t) \<and>
     line_pos t (start_line c - 1) \<le> start_byte c \<and> start_byte c < line_pos t (start_line c) \<and>
     line_pos t (end_line c - 1) < end_byte c \<and> end_byte c \<le> line_pos t (end_line c) \<and>
     end_line c - start_line c < ml \<and> end_byte c - start_byte c \<le> max mb 4"

text \<open>\<open>tiles cs a b\<close>: the chunks follow one another without gap from byte \<open>a\<close> to byte \<open>b\<close>.\<close>

fun tiles :: "chunk list \<Rightarrow> nat \<Rightarrow> nat \<Rightarrow> bool" where
  "tiles [] a b = (a = b)"
| "tiles (c # cs) a b = (start_byte c = a \<and> tiles cs (end_byte c) b)"

lemma tiles_append: "tiles (cs @ ds) a b \<longleftrightarrow> (\<exists>m. tiles cs a m \<and> tiles ds m b)"
  by (induction cs arbitrary: a) auto

lemma tiles_le: "tiles cs a b \<Longrightarrow> \<forall>c \<in> set cs. start_byte c \<le> end_byte c \<Longrightarrow> a \<le> b"
  by (induction cs arbitrary: a) force+

lemma drop_take_append:
  assumes "a \<le> e" "e \<le> length u"
  shows "drop a (take e u) @ drop e u = drop a u"
proof -
  have "drop a u = drop a (take e u @ drop e u)" by simp
  also have "\<dots> = drop a (take e u) @ drop e u" using assms by (simp del: append_take_drop_id)
  finally show ?thesis by simp
qed

lemma tiles_content:
  assumes "tiles cs a b" "\<forall>c \<in> set cs. chunk_ok b3 t ml mb c"
  shows "concat (map content cs) = drop a (take b t)"
  using assms
proof (induction cs arbitrary: a)
  case (Cons c cs)
  have "\<forall>d \<in> set cs. start_byte d \<le> end_byte d"
    using Cons.prems(2) by (auto simp: chunk_ok_def dest: less_imp_le)
  then have "end_byte c \<le> b"
    using Cons.prems tiles_le [of cs "end_byte c" b] by simp
  then have "take (end_byte c) t = take (end_byte c) (take b t)" by (simp add: min_def)
  moreover have "a \<le> end_byte c" "end_byte c \<le> length (take b t)"
    using Cons.prems \<open>end_byte c \<le> b\<close> by (auto simp: chunk_ok_def)
  ultimately have "drop a (take (end_byte c) t) @ drop (end_byte c) (take b t) = drop a (take b t)"
    using drop_take_append by metis
  then show ?case using Cons by (auto simp: chunk_ok_def)
qed simp

section \<open>Character boundaries\<close>

lemma floor_cb_loop_props:
  "floor_cb_loop t i \<le> i \<and> is_char_boundary t (floor_cb_loop t i)"
  by (induction i) (auto simp: is_char_boundary_def)

lemma next_cb_loop_props:
  "i \<le> length t \<Longrightarrow> next_cb_loop t i \<le> length t \<and> is_char_boundary t (next_cb_loop t i) \<and>
     (\<forall>b. i \<le> b \<longrightarrow> b \<le> length t \<longrightarrow> is_char_boundary t b \<longrightarrow> next_cb_loop t i \<le> b)"
proof (induction t i rule: next_cb_loop.induct)
  case (1 t i)
  show ?case
  proof (cases "i < length t \<and> \<not> is_char_boundary t i")
    case True
    then have IH: "next_cb_loop t (Suc i) \<le> length t \<and> is_char_boundary t (next_cb_loop t (Suc i)) \<and>
        (\<forall>b. Suc i \<le> b \<longrightarrow> b \<le> length t \<longrightarrow> is_char_boundary t b \<longrightarrow> next_cb_loop t (Suc i) \<le> b)"
      using 1 by simp
    moreover have "Suc i \<le> b" if "i \<le> b" "is_char_boundary t b" for b
      using that True by (cases "i = b") auto
    ultimately show ?thesis using True by (simp add: next_cb_loop.simps [of t i])
  next
    case False
    then show ?thesis using 1 by (auto simp: next_cb_loop.simps [of t i] is_char_boundary_def)
  qed
qed

lemma piece_end_props:
  fixes mb :: nat
  assumes v: "utf8_valid t" and off: "offset < le" "le \<le> length t"
    and bo: "is_char_boundary t offset" and be: "is_char_boundary t le"
  defines "e \<equiv> piece_end t mb offset le"
  shows "offset < e \<and> e \<le> le \<and> is_char_boundary t e \<and> e - offset \<le> max mb 4"
proof -
  obtain b where b: "offset < b" "b \<le> offset + 4" "b \<le> length t" "is_char_boundary t b"
    using boundary_within_four [OF v bo] off by auto
  have nx: "next_char_boundary t (offset + 1) \<le> b" "is_char_boundary t (next_char_boundary t (offset + 1))"
    using next_cb_loop_props [of "offset + 1" t] b off by (auto simp: next_char_boundary_def)
  have fl: "floor_char_boundary t (offset + mb) \<le> offset + mb"
    "is_char_boundary t (floor_char_boundary t (offset + mb))"
    using floor_cb_loop_props [of t "min (offset + mb) (length t)"]
    by (auto simp: floor_char_boundary_def)
  have "offset < e" using piece_end_progress [OF off] by (simp add: e_def)
  then show ?thesis
    using nx fl b be off by (auto simp: e_def piece_end_def Let_def min_def)
qed

lemma push_chunk_Some:
  "a \<le> b \<Longrightarrow> b \<le> length t \<Longrightarrow> is_char_boundary t a \<Longrightarrow> is_char_boundary t b \<Longrightarrow>
     push_chunk b3 cs t a b sl el =
       Some (cs @ [\<lparr>start_byte = a, end_byte = b, start_line = sl, end_line = el,
         content = drop a (take b t), chunk_hash = text_hash b3 (drop a (take b t))\<rparr>])"
  by (simp add: push_chunk_def slice_str_def)

section \<open>The inner loop\<close>

lemma split_long_line_ok:
  assumes v: "utf8_valid t" and i: "i < length (line_starts t)" and ml: "0 < ml"
    and start: "line_pos t i \<le> offset" "offset \<le> line_pos t (Suc i)" "is_char_boundary t offset"
  shows "\<exists>ds. split_long_line b3 t mb (Suc i) (line_pos t (Suc i)) offset cs = Some (cs @ ds) \<and>
     tiles ds offset (line_pos t (Suc i)) \<and> (\<forall>c \<in> set ds. chunk_ok b3 t ml mb c)"
  using start
proof (induction "line_pos t (Suc i) - offset" arbitrary: offset cs rule: less_induct)
  case less
  let ?le = "line_pos t (Suc i)"
  have le: "?le \<le> length t" "is_char_boundary t ?le"
    using line_pos_le_length line_pos_boundary [OF v] by auto
  show ?case
  proof (cases "offset < ?le")
    case False
    then show ?thesis using less.prems by (simp add: split_long_line.simps)
  next
    case True
    define e where "e = piece_end t mb offset ?le"
    have e: "offset < e" "e \<le> ?le" "is_char_boundary t e" "e - offset \<le> max mb 4"
      using piece_end_props [OF v True le(1) less.prems(3) le(2), of mb] by (simp_all add: e_def)
    define c where "c = \<lparr>start_byte = offset, end_byte = e, start_line = Suc i, end_line = Suc i,
      content = drop offset (take e t), chunk_hash = text_hash b3 (drop offset (take e t))\<rparr>"
    have push: "push_chunk b3 cs t offset e (Suc i) (Suc i) = Some (cs @ [c])"
      unfolding c_def using e le less.prems(3) by (intro push_chunk_Some) auto
    obtain ds where ds: "split_long_line b3 t mb (Suc i) ?le e (cs @ [c]) = Some ((cs @ [c]) @ ds)"
      "tiles ds e ?le" "\<forall>c \<in> set ds. chunk_ok b3 t ml mb c"
      using less.hyps [of e "cs @ [c]"] e less.prems by (force simp: True)
    have "chunk_ok b3 t ml mb c"
      using e le less.prems True i ml by (auto simp: chunk_ok_def c_def)
    then have "tiles (c # ds) offset ?le \<and> (\<forall>c \<in> set (c # ds). chunk_ok b3 t ml mb c)"
      using ds by (simp add: c_def)
    moreover have "split_long_line b3 t mb (Suc i) ?le offset cs = Some (cs @ c # ds)"
      using True le push ds(1) by (simp add: split_long_line.simps [of _ _ _ _ _ offset] e_def [symmetric])
    ultimately show ?thesis by blast
  qed
qed

section \<open>The outer loop\<close>

definition chunk_inv ::
  "(string \<Rightarrow> string) \<Rightarrow> string \<Rightarrow> nat \<Rightarrow> nat \<Rightarrow> nat \<Rightarrow> chunk_state \<Rightarrow> chunk list \<Rightarrow> bool" where
  "chunk_inv b3 t ml mb i st cs \<longleftrightarrow>
     i \<le> length (line_starts t) \<and> (\<forall>c \<in> set cs. chunk_ok b3 t ml mb c) \<and>
     (if st_lines st = 0 then tiles cs 0 (line_pos t i) \<and> st_bytes st = 0
      else tiles cs 0 (st_start_byte st) \<and> st_lines st \<le> ml \<and> st_lines st \<le> i \<and>
        st_start_line st = i - st_lines st + 1 \<and>
        st_start_byte st = line_pos t (i - st_lines st) \<and>
        st_start_byte st + st_bytes st = line_pos t i \<and> st_bytes st \<le> mb)"

lemma close_chunk:
  assumes v: "utf8_valid t" and inv: "chunk_inv b3 t ml mb i st cs" and lines: "st_lines st > 0"
  shows "\<exists>c. push_chunk b3 cs t (st_start_byte st) (line_pos t i) (st_start_line st) i = Some (cs @ [c]) \<and>
     chunk_ok b3 t ml mb c \<and> tiles (cs @ [c]) 0 (line_pos t i)"
proof -
  let ?s = "st_start_byte st" and ?e = "line_pos t i"
  have h: "tiles cs 0 ?s" "st_lines st \<le> ml" "st_lines st \<le> i" "st_start_line st = i - st_lines st + 1"
    "?s = line_pos t (i - st_lines st)" "?s + st_bytes st = ?e" "st_bytes st \<le> mb"
    "i \<le> length (line_starts t)"
    using inv lines by (auto simp: chunk_inv_def)
  have lt: "?s < ?e" "line_pos t (i - 1) < ?e" "?s < line_pos t (st_start_line st)"
    using h lines by (auto intro: line_pos_strict)
  define c where "c = \<lparr>start_byte = ?s, end_byte = ?e, start_line = st_start_line st, end_line = i,
    content = drop ?s (take ?e t), chunk_hash = text_hash b3 (drop ?s (take ?e t))\<rparr>"
  have size: "?e - ?s \<le> max mb 4" using h(6,7) by linarith
  have span: "st_start_line st \<le> i" "i - st_start_line st < ml"
    using h(2-4) lines by linarith+
  have "push_chunk b3 cs t ?s ?e (st_start_line st) i = Some (cs @ [c])"
    unfolding c_def using lt h line_pos_boundary [OF v] line_pos_le_length [of t i]
    by (intro push_chunk_Some) auto
  moreover have "chunk_ok b3 t ml mb c"
    using h lt lines size span line_pos_le_length [of t i] by (simp add: chunk_ok_def c_def)
  moreover have "tiles (cs @ [c]) 0 ?e"
    using h(1) by (auto simp: tiles_append c_def)
  ultimately show ?thesis by blast
qed

lemma chunk_loop_step:
  assumes i: "i < length (line_starts t)"
  defines "len \<equiv> line_pos t (Suc i) - line_pos t i"
  shows "chunk_loop b3 t (line_starts t) ml mb i st cs =
    (if st_lines st > 0 \<and> (st_lines st + 1 > ml \<or> st_bytes st + len > mb)
     then case push_chunk b3 cs t (st_start_byte st) (line_pos t i) (st_start_line st) i of
            None \<Rightarrow> None
          | Some cs' \<Rightarrow> chunk_loop b3 t (line_starts t) ml mb i (st\<lparr>st_lines := 0, st_bytes := 0\<rparr>) cs'
     else if st_lines st = 0 \<and> len > mb
     then case split_long_line b3 t mb (Suc i) (line_pos t (Suc i)) (line_pos t i) cs of
            None \<Rightarrow> None
          | Some cs' \<Rightarrow> chunk_loop b3 t (line_starts t) ml mb (Suc i) st cs'
     else chunk_loop b3 t (line_starts t) ml mb (Suc i)
            \<lparr>st_start_byte = (if st_lines st = 0 then line_pos t i else st_start_byte st),
             st_start_line = (if st_lines st = 0 then Suc i else st_start_line st),
             st_lines = st_lines st + 1, st_bytes = st_bytes st + len\<rparr> cs)"
proof -
  have nth: "line_starts t ! i = line_pos t i" using i by (simp add: line_pos_def)
  show ?thesis
    unfolding chunk_loop.simps [of b3 t "line_starts t" ml mb i st cs] len_def
    by (simp only: i if_True Let_def nth line_end_of_pos Suc_eq_plus1 [symmetric] diff_Suc_1)
qed

lemma chunk_loop_ok:
  assumes v: "utf8_valid t" and pos: "0 < ml" "0 < mb"
  shows "chunk_inv b3 t ml mb i st cs \<Longrightarrow>
     \<exists>st' cs'. chunk_loop b3 t (line_starts t) ml mb i st cs = Some (st', cs') \<and>
       chunk_inv b3 t ml mb (length (line_starts t)) st' cs'"
proof (induction "2 * (length (line_starts t) - i) + (if st_lines st > 0 then 1 else 0)"
    arbitrary: i st cs rule: less_induct)
  case less
  let ?n = "length (line_starts t)"
  let ?len = "line_pos t (Suc i) - line_pos t i"
  note inv = less.prems and unfold = chunk_loop_step [of i t b3 ml mb st cs]
  show ?case
  proof (cases "i < ?n")
    case False
    then have "i = ?n" using inv by (simp add: chunk_inv_def)
    then show ?thesis using inv by (intro exI [of _ st] exI [of _ cs]) (simp add: chunk_loop.simps)
  next
    case i: True
    have step: "line_pos t i < line_pos t (Suc i)" using i by (simp add: line_pos_strict)
    consider (close) "st_lines st > 0" "st_lines st + 1 > ml \<or> st_bytes st + ?len > mb"
      | (long) "st_lines st = 0" "?len > mb"
      | (extend) "st_lines st > 0 \<Longrightarrow> st_lines st + 1 \<le> ml \<and> st_bytes st + ?len \<le> mb" "?len \<le> mb"
      by fastforce
    then show ?thesis
    proof cases
      case close
      obtain c where c: "push_chunk b3 cs t (st_start_byte st) (line_pos t i) (st_start_line st) i = Some (cs @ [c])"
        "chunk_ok b3 t ml mb c" "tiles (cs @ [c]) 0 (line_pos t i)"
        using close_chunk [OF v inv close(1)] by blast
      have "chunk_inv b3 t ml mb i (st\<lparr>st_lines := 0, st_bytes := 0\<rparr>) (cs @ [c])"
        using inv c i by (simp add: chunk_inv_def)
      from less.hyps [OF _ this] close obtain st' cs' where
        "chunk_loop b3 t (line_starts t) ml mb i (st\<lparr>st_lines := 0, st_bytes := 0\<rparr>) (cs @ [c]) = Some (st', cs')"
        "chunk_inv b3 t ml mb ?n st' cs'" by auto
      then show ?thesis using unfold i close c(1) by auto
    next
      case long
      have t0: "tiles cs 0 (line_pos t i)" using inv long by (simp add: chunk_inv_def)
      obtain ds where ds: "split_long_line b3 t mb (Suc i) (line_pos t (Suc i)) (line_pos t i) cs = Some (cs @ ds)"
        "tiles ds (line_pos t i) (line_pos t (Suc i))" "\<forall>c \<in> set ds. chunk_ok b3 t ml mb c"
        using split_long_line_ok [OF v i pos(1)] step line_pos_boundary [OF v] by (meson less_imp_le order_refl)
      have "chunk_inv b3 t ml mb (Suc i) st (cs @ ds)"
        using inv ds t0 i long by (auto simp: chunk_inv_def tiles_append)
      from less.hyps [OF _ this] i diff_less_mono2 [OF lessI, of i ?n] obtain st' cs' where
        "chunk_loop b3 t (line_starts t) ml mb (Suc i) st (cs @ ds) = Some (st', cs')"
        "chunk_inv b3 t ml mb ?n st' cs'" by auto
      then show ?thesis using unfold i long ds(1) by auto
    next
      case extend
      let ?st = "\<lparr>st_start_byte = (if st_lines st = 0 then line_pos t i else st_start_byte st),
        st_start_line = (if st_lines st = 0 then Suc i else st_start_line st),
        st_lines = st_lines st + 1, st_bytes = st_bytes st + ?len\<rparr>"
      have "chunk_inv b3 t ml mb (Suc i) ?st cs"
        using inv extend step i pos by (auto simp: chunk_inv_def)
      from less.hyps [OF _ this] i diff_less_mono2 [OF lessI, of i ?n] obtain st' cs' where
        "chunk_loop b3 t (line_starts t) ml mb (Suc i) ?st cs = Some (st', cs')"
        "chunk_inv b3 t ml mb ?n st' cs'" by auto
      then show ?thesis using unfold i extend by auto
    qed
  qed
qed

lemma chunk_text_tiles:
  assumes v: "utf8_valid t" and pos: "0 < ml" "0 < mb"
  shows "\<exists>cs. chunk_text b3 t ml mb = Some cs \<and> tiles cs 0 (length t) \<and>
     (\<forall>c \<in> set cs. chunk_ok b3 t ml mb c)"
proof (cases "t = []")
  case True
  then show ?thesis using pos by (simp add: chunk_text_def)
next
  case False
  let ?n = "length (line_starts t)"
  let ?st = "\<lparr>st_start_byte = 0, st_start_line = 1, st_lines = 0, st_bytes = 0\<rparr>"
  have "chunk_inv b3 t ml mb 0 ?st []"
    using False by (simp add: chunk_inv_def line_pos_0)
  then obtain st cs where loop: "chunk_loop b3 t (line_starts t) ml mb 0 ?st [] = Some (st, cs)"
    and inv: "chunk_inv b3 t ml mb ?n st cs"
    using chunk_loop_ok [OF v pos] by blast
  have end_pos: "line_pos t ?n = length t" by (simp add: line_pos_def)
  show ?thesis
  proof (cases "st_lines st > 0")
    case True
    then show ?thesis
      using close_chunk [OF v inv True] loop pos False inv
      by (fastforce simp: chunk_text_def end_pos chunk_inv_def)
  next
    case nl: False
    then show ?thesis
      using loop pos False inv by (simp add: chunk_text_def end_pos chunk_inv_def)
  qed
qed

section \<open>Properties\<close>

lemma chunk_ok_lines:
  "t \<noteq> [] \<Longrightarrow> chunk_ok b3 t ml mb c \<Longrightarrow>
     byte_range_to_line_range t (start_byte c) (end_byte c) = (start_line c, end_line c)"
  using byte_range_lines [of t "start_byte c" "end_byte c" "start_line c - 1" "end_line c - 1"]
  by (simp add: chunk_ok_def)

text \<open>C34: Chunking valid UTF-8 text under positive limits never panics and loses nothing: the chunk
  contents concatenate to the text and their byte ranges follow one another without gap or
  overlap.\<close>

theorem chunk_text_covers:
  assumes "utf8_valid t" "0 < ml" "0 < mb"
  shows "\<exists>cs. chunk_text b3 t ml mb = Some cs \<and> concat (map content cs) = t \<and> tiles cs 0 (length t)"
proof -
  obtain cs where cs: "chunk_text b3 t ml mb = Some cs" "tiles cs 0 (length t)"
    "\<forall>c \<in> set cs. chunk_ok b3 t ml mb c"
    using chunk_text_tiles [OF assms] by blast
  then show ?thesis using tiles_content [OF cs(2,3)] by auto
qed

theorem chunk_text_covers_witness:
  "\<exists>cs. chunk_text (\<lambda>s. s) [CHR ''a'', newline, CHR ''b'', CHR ''c''] 1 1 = Some cs \<and>
    concat (map content cs) = [CHR ''a'', newline, CHR ''b'', CHR ''c''] \<and> tiles cs 0 4"
  using chunk_text_covers [of "[CHR ''a'', newline, CHR ''b'', CHR ''c'']" 1 1 "\<lambda>s. s"]
  by (simp add: utf8_valid.simps(2) numeral_eq_Suc)

text \<open>Every chunk respects its bounds and tells the truth about itself: it is not empty, spans at
  most \<open>max_lines\<close> lines, holds at most \<open>max_bytes\<close> bytes (a single character may take up to four),
  carries the fingerprint of its own content, and its recorded line range is the one its byte
  range maps to.\<close>

theorem chunk_text_bounded:
  assumes "utf8_valid t" "0 < ml" "0 < mb" "chunk_text b3 t ml mb = Some cs" "c \<in> set cs"
  shows "content c \<noteq> [] \<and> length (content c) \<le> max mb 4 \<and> end_line c - start_line c + 1 \<le> ml \<and>
    content c = drop (start_byte c) (take (end_byte c) t) \<and>
    chunk_hash c = text_hash b3 (content c) \<and>
    byte_range_to_line_range t (start_byte c) (end_byte c) = (start_line c, end_line c)"
proof -
  have ok: "chunk_ok b3 t ml mb c"
    using chunk_text_tiles [OF assms(1-3), of b3] assms(4,5) by auto
  then have "t \<noteq> []" by (auto simp: chunk_ok_def)
  then show ?thesis
    using ok chunk_ok_lines [OF _ ok] by (auto simp: chunk_ok_def)
qed

lemma chunk_text_example:
  "chunk_text (\<lambda>s. s) [CHR ''a'', newline, CHR ''b'', CHR ''c''] 1 1 = Some
    [\<lparr>start_byte = 0, end_byte = 1, start_line = 1, end_line = 1, content = ''a'', chunk_hash = ''a''\<rparr>,
     \<lparr>start_byte = 1, end_byte = 2, start_line = 1, end_line = 1, content = [newline], chunk_hash = [newline]\<rparr>,
     \<lparr>start_byte = 2, end_byte = 3, start_line = 2, end_line = 2, content = ''b'', chunk_hash = ''b''\<rparr>,
     \<lparr>start_byte = 3, end_byte = 4, start_line = 2, end_line = 2, content = ''c'', chunk_hash = ''c''\<rparr>]"
  by code_simp

theorem chunk_text_bounded_witness:
  "length ''b'' \<le> max 1 4 \<and>
   byte_range_to_line_range [CHR ''a'', newline, CHR ''b'', CHR ''c''] 2 3 = (2, 2)"
  using chunk_text_bounded [OF _ _ _ chunk_text_example,
      of "\<lparr>start_byte = 2, end_byte = 3, start_line = 2, end_line = 2, content = ''b'', chunk_hash = ''b''\<rparr>"]
  by (simp add: utf8_valid.simps(2))

end
