(* ===== verification/F64.thy ===== *)
theory F64
  imports Prelude
begin

text \<open>
  IEEE-754 binary64 as the ranker uses it: a value is its sign, its biased exponent and its
  mantissa field. Arithmetic computes the exact result as a dyadic number \<open>m * 2 ^ e\<close> and rounds it to
  nearest, ties to even, as Rust's \<open>f64\<close> operators do; overflow gives an infinity and invalid
  operations a quiet NaN. The language leaves two results open, and one permitted result is taken:
  a produced NaN is positive, and \<open>max\<close> and \<open>min\<close> order \<open>-0\<close> before \<open>+0\<close>.
\<close>

section \<open>Representation\<close>

datatype f64 = F64 (f_sign: bool) (f_exp: int) (f_mant: int)

definition f64_wf :: "f64 \<Rightarrow> bool" where
  "f64_wf x \<longleftrightarrow> 0 \<le> f_exp x \<and> f_exp x < 2048 \<and> 0 \<le> f_mant x \<and> f_mant x < 2 ^ 52"

definition f64_nan :: f64 where "f64_nan = F64 False 2047 (2 ^ 51)"

definition f64_inf :: "bool \<Rightarrow> f64" where "f64_inf s = F64 s 2047 0"

definition f64_zero :: "bool \<Rightarrow> f64" where "f64_zero s = F64 s 0 0"

definition f64_is_nan :: "f64 \<Rightarrow> bool" where
  "f64_is_nan x \<longleftrightarrow> f_exp x = 2047 \<and> f_mant x \<noteq> 0"

definition f64_is_inf :: "f64 \<Rightarrow> bool" where
  "f64_is_inf x \<longleftrightarrow> f_exp x = 2047 \<and> f_mant x = 0"

definition f64_is_zero :: "f64 \<Rightarrow> bool" where
  "f64_is_zero x \<longleftrightarrow> f_exp x = 0 \<and> f_mant x = 0"

text \<open>The significand and the exponent of a finite value: it stands for \<open>\<plusminus> f_sig x * 2 ^ f_scale x\<close>.\<close>

definition f_sig :: "f64 \<Rightarrow> int" where
  "f_sig x = (if f_exp x = 0 then f_mant x else f_mant x + 2 ^ 52)"

definition f_scale :: "f64 \<Rightarrow> int" where
  "f_scale x = max (f_exp x) 1 - 1075"

section \<open>Rounding\<close>

function bit_len :: "int \<Rightarrow> int" where
  "bit_len n = (if n \<le> 0 then 0 else 1 + bit_len (n div 2))"
  by auto
termination by (relation "measure nat") auto

declare bit_len.simps [simp del]

text \<open>Round half to even: the quotient of \<open>m\<close> by \<open>2 ^ k\<close>; \<open>sticky\<close> says that the exact value lies
  strictly above \<open>m\<close> (and below \<open>m + 1\<close>).\<close>

definition round_shift :: "int \<Rightarrow> nat \<Rightarrow> bool \<Rightarrow> int" where
  "round_shift m k sticky =
     (let q = m div 2 ^ k; r = m mod 2 ^ k; half = 2 ^ (k - 1) in
      if k = 0 then m
      else if half < r \<or> (r = half \<and> (sticky \<or> odd q)) then q + 1 else q)"

text \<open>Pack \<open>m * 2 ^ e\<close> with \<open>m \<le> 2 ^ 53\<close> into the fields.\<close>

definition f64_pack :: "bool \<Rightarrow> int \<Rightarrow> int \<Rightarrow> f64" where
  "f64_pack s m e =
     (let (m', e') = (if m = 2 ^ 53 then (2 ^ 52, e + 1) else (m, e)) in
      if m' < 2 ^ 52 then F64 s 0 m'
      else if 2047 \<le> e' + 1075 then f64_inf s
      else F64 s (e' + 1075) (m' - 2 ^ 52))"

definition f64_round :: "bool \<Rightarrow> int \<Rightarrow> int \<Rightarrow> bool \<Rightarrow> f64" where
  "f64_round s m e sticky =
     (if m = 0 then f64_zero s
      else let q = max (bit_len m - 53) (- 1074 - e) in
        if q \<le> 0 then f64_pack s (m * 2 ^ nat (- q)) (e + q)
        else f64_pack s (round_shift m (nat q) sticky) (e + q))"

section \<open>Arithmetic\<close>

definition f64_of_nat :: "nat \<Rightarrow> f64" where
  "f64_of_nat n = f64_round False (int n) 0 False"

definition f64_neg :: "f64 \<Rightarrow> f64" where
  "f64_neg x = F64 (\<not> f_sign x) (f_exp x) (f_mant x)"

definition f64_add :: "f64 \<Rightarrow> f64 \<Rightarrow> f64" where
  "f64_add x y =
     (if f64_is_nan x \<or> f64_is_nan y then f64_nan
      else if f64_is_inf x then (if f64_is_inf y \<and> f_sign x \<noteq> f_sign y then f64_nan else x)
      else if f64_is_inf y then y
      else if f64_is_zero x \<and> f64_is_zero y then f64_zero (f_sign x \<and> f_sign y)
      else if f64_is_zero x then y
      else if f64_is_zero y then x
      else
        let e = min (f_scale x) (f_scale y);
            mx = f_sig x * 2 ^ nat (f_scale x - e);
            my = f_sig y * 2 ^ nat (f_scale y - e);
            t = (if f_sign x then - mx else mx) + (if f_sign y then - my else my)
        in f64_round (t < 0) \<bar>t\<bar> e False)"

definition f64_sub :: "f64 \<Rightarrow> f64 \<Rightarrow> f64" where
  "f64_sub x y = f64_add x (f64_neg y)"

definition f64_mul :: "f64 \<Rightarrow> f64 \<Rightarrow> f64" where
  "f64_mul x y =
     (let s = (f_sign x \<noteq> f_sign y) in
      if f64_is_nan x \<or> f64_is_nan y then f64_nan
      else if f64_is_inf x \<or> f64_is_inf y then
        (if f64_is_zero x \<or> f64_is_zero y then f64_nan else f64_inf s)
      else f64_round s (f_sig x * f_sig y) (f_scale x + f_scale y) False)"

definition f64_div :: "f64 \<Rightarrow> f64 \<Rightarrow> f64" where
  "f64_div x y =
     (let s = (f_sign x \<noteq> f_sign y) in
      if f64_is_nan x \<or> f64_is_nan y then f64_nan
      else if f64_is_inf x then (if f64_is_inf y then f64_nan else f64_inf s)
      else if f64_is_inf y then f64_zero s
      else if f64_is_zero y then (if f64_is_zero x then f64_nan else f64_inf s)
      else
        let k = nat (55 + bit_len (f_sig y)); n = f_sig x * 2 ^ k in
        f64_round s (n div f_sig y) (f_scale x - f_scale y - int k) (n mod f_sig y \<noteq> 0))"

text \<open>\<open>f64::round\<close>: to the nearest integer, halves away from zero.\<close>

definition f64_round_int :: "f64 \<Rightarrow> f64" where
  "f64_round_int x =
     (if f_exp x = 2047 \<or> 0 \<le> f_scale x then x
      else let k = nat (- f_scale x) in
        f64_round (f_sign x) ((f_sig x + 2 ^ (k - 1)) div 2 ^ k) 0 False)"

text \<open>A decimal literal \<open>n / d\<close>: both are exact in binary64 for the literals of the source, so the
  rounded quotient is the literal's value.\<close>

definition f64_lit :: "nat \<Rightarrow> nat \<Rightarrow> f64" where
  "f64_lit n d = f64_div (f64_of_nat n) (f64_of_nat d)"

section \<open>Comparison\<close>

text \<open>\<open>total_cmp\<close> compares the bit patterns, negative ones reversed; the numeric order identifies
  the two zeros and is false on NaN.\<close>

definition f64_mag :: "f64 \<Rightarrow> int" where
  "f64_mag x = f_exp x * 2 ^ 52 + f_mant x"

definition f64_total_key :: "f64 \<Rightarrow> int" where
  "f64_total_key x = (if f_sign x then - f64_mag x - 1 else f64_mag x)"

definition f64_total_cmp :: "f64 \<Rightarrow> f64 \<Rightarrow> ordering" where
  "f64_total_cmp = key_cmp f64_total_key"

definition f64_num_key :: "f64 \<Rightarrow> int" where
  "f64_num_key x = (if f_sign x then - f64_mag x else f64_mag x)"

definition f64_lt :: "f64 \<Rightarrow> f64 \<Rightarrow> bool" where
  "f64_lt x y \<longleftrightarrow> \<not> f64_is_nan x \<and> \<not> f64_is_nan y \<and> f64_num_key x < f64_num_key y"

definition f64_le :: "f64 \<Rightarrow> f64 \<Rightarrow> bool" where
  "f64_le x y \<longleftrightarrow> \<not> f64_is_nan x \<and> \<not> f64_is_nan y \<and> f64_num_key x \<le> f64_num_key y"

definition f64_eq :: "f64 \<Rightarrow> f64 \<Rightarrow> bool" where
  "f64_eq x y \<longleftrightarrow> \<not> f64_is_nan x \<and> \<not> f64_is_nan y \<and> f64_num_key x = f64_num_key y"

definition f64_max :: "f64 \<Rightarrow> f64 \<Rightarrow> f64" where
  "f64_max x y = (if f64_is_nan x then y else if f64_is_nan y then x
     else if f64_total_key x < f64_total_key y then y else x)"

definition f64_min :: "f64 \<Rightarrow> f64 \<Rightarrow> f64" where
  "f64_min x y = (if f64_is_nan x then y else if f64_is_nan y then x
     else if f64_total_key y < f64_total_key x then y else x)"

definition f64_clamp :: "f64 \<Rightarrow> f64 \<Rightarrow> f64 \<Rightarrow> f64" where
  "f64_clamp x lo hi = (let x1 = (if f64_lt x lo then lo else x) in
     if f64_lt hi x1 then hi else x1)"


section \<open>Rounding lemmas\<close>

lemma bit_len_nonneg [simp]: "0 \<le> bit_len n"
  by (induction n rule: bit_len.induct) (subst bit_len.simps, auto)

lemma bit_len_bounds:
  "0 < n \<Longrightarrow> 0 < bit_len n \<and> 2 ^ nat (bit_len n - 1) \<le> n \<and> n < 2 ^ nat (bit_len n)"
proof (induction n rule: bit_len.induct)
  case (1 n)
  show ?case
  proof (cases "n = 1")
    case True
    then show ?thesis by (simp add: bit_len.simps)
  next
    case False
    then have h: "0 < n div 2" "\<not> n \<le> 0" using 1(2) by auto
    let ?b = "bit_len (n div 2)"
    have IH: "0 < ?b" "2 ^ nat (?b - 1) \<le> n div 2" "n div 2 < 2 ^ nat ?b"
      using "1.IH" [OF h(2) h(1)] by auto
    have e: "nat ?b = Suc (nat (?b - 1))" "nat (1 + ?b) = Suc (nat ?b)" using IH(1) by auto
    have "bit_len n = 1 + ?b" using h(2) by (simp add: bit_len.simps [of n])
    moreover have "2 ^ nat ?b \<le> n" "n < 2 * 2 ^ nat ?b"
      using IH(2,3) unfolding e(1) by simp_all
    ultimately show ?thesis using IH(1) e(2) by simp
  qed
qed

lemma bit_len_mono: "0 < m \<Longrightarrow> m \<le> n \<Longrightarrow> bit_len m \<le> bit_len n"
proof (rule ccontr)
  assume a: "0 < m" "m \<le> n" "\<not> bit_len m \<le> bit_len n"
  have "n < 2 ^ nat (bit_len n)" using bit_len_bounds [of n] a by auto
  also have "\<dots> \<le> 2 ^ nat (bit_len m - 1)"
    using a(3) by (intro power_increasing) auto
  also have "\<dots> \<le> m" using bit_len_bounds [of m] a by auto
  finally show False using a by simp
qed

lemma round_shift_mono: "m \<le> n \<Longrightarrow> round_shift m k False \<le> round_shift n k False"
proof -
  assume le: "m \<le> n"
  then have d: "m div 2 ^ k \<le> n div 2 ^ k" by (simp add: zdiv_mono1)
  show ?thesis
  proof (cases "m div 2 ^ k = n div 2 ^ k")
    case True
    have "m mod 2 ^ k \<le> n mod 2 ^ k"
      using le True div_mult_mod_eq [of m "2 ^ k"] div_mult_mod_eq [of n "2 ^ k"] by simp
    then show ?thesis using True le by (auto simp: round_shift_def Let_def)
  next
    case False
    then show ?thesis using d le by (auto simp: round_shift_def Let_def)
  qed
qed

lemma div_power_less: "m < 2 ^ j * 2 ^ k \<Longrightarrow> m div 2 ^ k < (2 ^ j :: int)"
proof (rule ccontr)
  assume a: "m < 2 ^ j * 2 ^ k" "\<not> m div 2 ^ k < 2 ^ j"
  then have "2 ^ j * 2 ^ k \<le> m div 2 ^ k * (2 ^ k :: int)" by (intro mult_right_mono) auto
  also have "\<dots> \<le> m"
  proof -
    have "0 \<le> m mod 2 ^ k" by simp
    then show ?thesis using div_mult_mod_eq [of m "2 ^ k"] by linarith
  qed
  finally show False using a by simp
qed

text \<open>Rounding a significand of at most \<open>53 + k\<close> bits gives at most \<open>2 ^ 53\<close>, and one of exactly
  \<open>53 + k\<close> bits gives at least \<open>2 ^ 52\<close>.\<close>

lemma round_shift_le:
  assumes "0 \<le> m" "m < 2 ^ 53 * 2 ^ k"
  shows "0 \<le> round_shift m k st \<and> round_shift m k st \<le> 2 ^ 53"
  using div_power_less [OF assms(2)] assms by (auto simp: round_shift_def Let_def pos_imp_zdiv_nonneg_iff)

lemma round_shift_ge:
  assumes "2 ^ 52 * 2 ^ k \<le> m"
  shows "2 ^ 52 \<le> round_shift m k st"
proof -
  have "2 ^ 52 \<le> m div 2 ^ k" using zdiv_mono1 [OF assms, of "2 ^ k"] by simp
  then show ?thesis using assms by (auto simp: round_shift_def Let_def)
qed

lemma f64_pack_wf: "0 \<le> m \<Longrightarrow> m \<le> 2 ^ 53 \<Longrightarrow> - 1074 \<le> e \<Longrightarrow> f64_wf (f64_pack s m e)"
  by (auto simp: f64_pack_def f64_wf_def f64_inf_def Let_def)

lemma f64_pack_not_nan: "- 1074 \<le> e \<Longrightarrow> \<not> f64_is_nan (f64_pack s m e)"
  by (auto simp: f64_pack_def f64_is_nan_def f64_inf_def Let_def)

lemma f64_pack_key:
  assumes "2 ^ 52 \<le> m" "m \<le> 2 ^ 53" "e < 900"
  shows "f64_num_key (f64_pack False m e) = (e + 1074) * 2 ^ 52 + m"
  using assms by (auto simp: f64_pack_def f64_num_key_def f64_mag_def Let_def)

lemma shift_left_bounds:
  assumes "0 < m" "bit_len m + int k \<le> 53"
  shows "0 \<le> m * 2 ^ k \<and> m * 2 ^ k \<le> 2 ^ 53"
proof -
  have "m * 2 ^ k \<le> 2 ^ nat (bit_len m) * 2 ^ k"
    using bit_len_bounds [OF assms(1)] by (intro mult_right_mono) auto
  also have "\<dots> = 2 ^ (nat (bit_len m) + k)" by (simp add: power_add)
  also have "\<dots> \<le> 2 ^ 53" using assms(2) bit_len_nonneg [of m] by (intro power_increasing) linarith+
  finally show ?thesis using assms(1) by simp
qed

lemma shift_right_bounds:
  assumes "0 < m" "bit_len m \<le> 53 + int k"
  shows "m < 2 ^ 53 * 2 ^ k"
proof -
  have "m < 2 ^ nat (bit_len m)" using bit_len_bounds [OF assms(1)] by auto
  also have "\<dots> \<le> 2 ^ (53 + k)" using assms(2) by (intro power_increasing) linarith+
  finally show ?thesis by (simp add: power_add)
qed

lemma f64_round_wf:
  assumes "0 \<le> m"
  shows "f64_wf (f64_round s m e st)"
proof (cases "m = 0")
  case True
  then show ?thesis by (simp add: f64_round_def f64_zero_def f64_wf_def)
next
  case False
  define q where "q = max (bit_len m - 53) (- 1074 - e)"
  have q: "bit_len m - 53 \<le> q" "- 1074 \<le> e + q" by (auto simp: q_def)
  have r: "f64_round s m e st = (if q \<le> 0 then f64_pack s (m * 2 ^ nat (- q)) (e + q)
      else f64_pack s (round_shift m (nat q) st) (e + q))"
    using False by (simp add: f64_round_def q_def Let_def)
  show ?thesis
  proof (cases "q \<le> 0")
    case True
    then show ?thesis
      using shift_left_bounds [of m "nat (- q)"] assms False q by (simp add: r f64_pack_wf)
  next
    case g: False
    have "m < 2 ^ 53 * 2 ^ nat q" using assms False q g by (intro shift_right_bounds) auto
    then show ?thesis
      using round_shift_le [of m "nat q" st] assms g q by (simp add: r f64_pack_wf)
  qed
qed

lemma f64_round_not_nan: "\<not> f64_is_nan (f64_round s m e st)"
  by (auto simp: f64_round_def Let_def f64_zero_def f64_is_nan_def [of "F64 _ 0 0"] f64_pack_not_nan)

section \<open>Conversion from counts\<close>

lemma bit_len_usize: "n \<le> usize_max \<Longrightarrow> bit_len (int n) \<le> 64"
proof (rule ccontr)
  assume a: "n \<le> usize_max" "\<not> bit_len (int n) \<le> 64"
  then have pos: "0 < n" by (cases n) (auto simp: bit_len.simps)
  have "(2 :: int) ^ 64 \<le> 2 ^ nat (bit_len (int n) - 1)"
    using a(2) by (intro power_increasing) auto
  also have "\<dots> \<le> int n" using bit_len_bounds [of "int n"] pos by auto
  finally show False using a(1) by (simp add: usize_max_def)
qed

definition count_sig :: "int \<Rightarrow> int" where
  "count_sig m = (if bit_len m \<le> 53 then m * 2 ^ nat (53 - bit_len m)
     else round_shift m (nat (bit_len m - 53)) False)"

lemma count_sig_range: "0 < m \<Longrightarrow> 2 ^ 52 \<le> count_sig m \<and> count_sig m \<le> 2 ^ 53"
proof -
  assume m: "0 < m"
  have b: "0 < bit_len m" "2 ^ nat (bit_len m - 1) \<le> m" using bit_len_bounds [OF m] by auto
  show ?thesis
  proof (cases "bit_len m \<le> 53")
    case True
    have "(2 :: int) ^ 52 = 2 ^ nat (bit_len m - 1) * 2 ^ nat (53 - bit_len m)"
      using True b(1) by (simp flip: power_add nat_add_distrib)
    also have "\<dots> \<le> m * 2 ^ nat (53 - bit_len m)" using b(2) by (intro mult_right_mono) auto
    finally show ?thesis
      using True shift_left_bounds [OF m, of "nat (53 - bit_len m)"] by (simp add: count_sig_def)
  next
    case False
    let ?k = "nat (bit_len m - 53)"
    have "(2 :: int) ^ 52 * 2 ^ ?k = 2 ^ nat (bit_len m - 1)"
    proof -
      have "52 + ?k = nat (bit_len m - 1)" using False by simp
      then show ?thesis by (metis power_add)
    qed
    then have "2 ^ 52 \<le> round_shift m ?k False" using b(2) by (intro round_shift_ge) simp
    then show ?thesis
      using False round_shift_le [OF _ shift_right_bounds [OF m], of ?k False] m
      by (simp add: count_sig_def)
  qed
qed

lemma f64_of_nat_key:
  assumes "0 < n" "n \<le> usize_max"
  shows "f64_num_key (f64_of_nat n) = (bit_len (int n) + 1021) * 2 ^ 52 + count_sig (int n)"
proof -
  have b: "0 < bit_len (int n)" "bit_len (int n) \<le> 64"
    using bit_len_bounds [of "int n"] bit_len_usize [OF assms(2)] assms(1) by auto
  have "f64_of_nat n = f64_pack False (count_sig (int n)) (bit_len (int n) - 53)"
    using assms(1) b by (simp add: f64_of_nat_def f64_round_def count_sig_def Let_def)
  then show ?thesis using f64_pack_key [of "count_sig (int n)" "bit_len (int n) - 53"] b
    count_sig_range [of "int n"] assms(1) by simp
qed

lemma f64_of_nat_zero: "f64_of_nat 0 = F64 False 0 0"
  by (simp add: f64_of_nat_def f64_round_def f64_zero_def)

text \<open>Converting a count is monotone: distinct counts may become equal, never reversed.\<close>

lemma f64_of_nat_mono:
  assumes "n \<le> m" "m \<le> usize_max"
  shows "f64_num_key (f64_of_nat n) \<le> f64_num_key (f64_of_nat m)"
proof (cases "n = 0")
  case True
  then show ?thesis
    using f64_of_nat_key [of m] assms count_sig_range [of "int m"] bit_len_nonneg [of "int m"]
    by (cases "m = 0") (auto simp: f64_of_nat_zero f64_num_key_def [of "F64 False 0 0"] f64_mag_def)
next
  case False
  let ?bn = "bit_len (int n)" and ?bm = "bit_len (int m)"
  have k: "f64_num_key (f64_of_nat n) = (?bn + 1021) * 2 ^ 52 + count_sig (int n)"
    "f64_num_key (f64_of_nat m) = (?bm + 1021) * 2 ^ 52 + count_sig (int m)"
    using f64_of_nat_key [of n] f64_of_nat_key [of m] False assms by auto
  have r: "count_sig (int n) \<le> 2 ^ 53" "2 ^ 52 \<le> count_sig (int m)"
    using count_sig_range [of "int n"] count_sig_range [of "int m"] False assms by auto
  have "?bn \<le> ?bm" using bit_len_mono [of "int n" "int m"] False assms by simp
  then consider "?bn = ?bm" | "?bn + 1 \<le> ?bm" by linarith
  then show ?thesis
  proof cases
    case 1
    then have "count_sig (int n) \<le> count_sig (int m)"
      using assms(1) round_shift_mono [of "int n" "int m"] by (simp add: count_sig_def mult_right_mono)
    then show ?thesis using k 1 by simp
  next
    case 2
    then have "(?bn + 1 + 1021) * 2 ^ 52 \<le> (?bm + 1021) * 2 ^ 52" by (intro mult_right_mono) auto
    then show ?thesis using k r by (simp add: algebra_simps)
  qed
qed

section \<open>Order lemmas\<close>

lemma f64_total_cmp_comparator: "comparator_laws (key_cmp f64_total_key)"
  by (rule comparator_key_cmp)

lemma f64_max_not_nan: "\<not> f64_is_nan y \<Longrightarrow> \<not> f64_is_nan (f64_max x y)"
  by (simp add: f64_max_def)

lemma f64_max_ge:
  assumes "\<not> f64_is_nan y" "\<not> f_sign y"
  shows "f64_le y (f64_max x y)"
proof -
  have "f64_total_key y \<le> f64_total_key z \<Longrightarrow> f64_num_key y \<le> f64_num_key z" for z
    using assms(2) by (auto simp: f64_total_key_def f64_num_key_def split: if_splits)
  then show ?thesis using assms by (auto simp: f64_max_def f64_le_def not_less)
qed

end
