(* ===== verification/Rank_Candidate.thy ===== *)
theory Rank_Candidate
  imports F64 Rust_Str Text
begin

text \<open>
  Ranking candidates (\<open>src/ranking/candidate.rs\<close>, \<open>src/ranking/scored.rs\<close>): the signals of a source
  fragment, their linear combination into a score, and the ranked list. The BLAKE3 hex digest \<open>b3\<close> and
  the token counter \<open>tk\<close> of the chosen tokenizer are parameters.
\<close>

section \<open>Weights and candidates\<close>

record weights =
  w_exact :: f64
  w_symbol :: f64
  w_reference :: f64
  w_bm25 :: f64
  w_path :: f64
  w_lexical_frequency_penalty :: f64
  w_size :: f64
  w_focus :: f64
  w_import :: f64
  w_change :: f64

definition weights_default :: weights where
  "weights_default =
     \<lparr>w_exact = f64_lit 1 1, w_symbol = f64_lit 8 10, w_reference = f64_lit 5 10, w_bm25 = f64_lit 4 10,
      w_path = f64_lit 25 100, w_lexical_frequency_penalty = f64_lit 25 100, w_size = f64_lit 15 100,
      w_focus = f64_lit 35 100, w_import = f64_lit 25 100, w_change = f64_lit 2 10\<rparr>"

type_synonym target_range = "usize \<times> usize"

text \<open>\<open>CandidateTargetRange::new\<close>: both ends non-zero and ordered.\<close>

definition target_range_new :: "usize \<Rightarrow> usize \<Rightarrow> target_range option" where
  "target_range_new sl el =
     (if sl = 0 then None else if el = 0 then None else if sl \<le> el then Some (sl, el) else None)"

record candidate =
  cand_path :: string
  cand_start_line :: usize
  cand_end_line :: usize
  cand_content :: string
  cand_match_kinds :: "string list"
  cand_concepts :: "string list"
  cand_concept_weight :: f64
  cand_representation :: string
  cand_symbol_name :: "string option"
  cand_target_range :: "target_range option"
  cand_exact :: f64
  cand_symbol :: f64
  cand_reference :: f64
  cand_bm25 :: f64
  cand_path_score :: f64
  cand_lexical_frequency_penalty :: f64
  cand_size_score :: f64
  cand_focus_boost :: f64
  cand_import_boost :: f64
  cand_change_boost :: f64

abbreviation f0 :: f64 where "f0 \<equiv> f64_zero False"

definition f1 :: f64 where "f1 = f64_of_nat 1"

definition candidate_new :: "string \<Rightarrow> usize \<Rightarrow> usize \<Rightarrow> string \<Rightarrow> candidate" where
  "candidate_new path sl el text =
     \<lparr>cand_path = path, cand_start_line = sl, cand_end_line = el, cand_content = text,
      cand_match_kinds = [], cand_concepts = [], cand_concept_weight = f0, cand_representation = ''source'',
      cand_symbol_name = None, cand_target_range = None, cand_exact = f0, cand_symbol = f0,
      cand_reference = f0, cand_bm25 = f0, cand_path_score = f0, cand_lexical_frequency_penalty = f0,
      cand_size_score = f0, cand_focus_boost = f0, cand_import_boost = f0, cand_change_boost = f0\<rparr>"

definition FACET_PREFIX :: string where "FACET_PREFIX = ''facet:''"
definition CHANNEL_PREFIX :: string where "CHANNEL_PREFIX = ''channel:''"
definition REQUIRED_EVIDENCE_PREFIX :: string where "REQUIRED_EVIDENCE_PREFIX = ''required_evidence:''"

definition push_metadata :: "string \<Rightarrow> candidate \<Rightarrow> candidate" where
  "push_metadata value c =
     (if value \<in> set (cand_match_kinds c) then c
      else c\<lparr>cand_match_kinds := cand_match_kinds c @ [value]\<rparr>)"

definition facet :: "string \<Rightarrow> string \<Rightarrow> candidate \<Rightarrow> candidate" where
  "facet kind fusion_key c = push_metadata (FACET_PREFIX @ kind @ '':'' @ fusion_key) c"

definition channel :: "string \<Rightarrow> nat \<Rightarrow> candidate \<Rightarrow> candidate" where
  "channel ch rk c = push_metadata (CHANNEL_PREFIX @ ch @ '':'' @ show_nat rk) c"

definition match_kind :: "string \<Rightarrow> candidate \<Rightarrow> candidate" where
  "match_kind kind c = c\<lparr>cand_match_kinds := cand_match_kinds c @ [kind]\<rparr>"

definition concept :: "string \<Rightarrow> f64 \<Rightarrow> candidate \<Rightarrow> candidate" where
  "concept name weight c =
     (let c1 = (if name \<noteq> [] \<and> name \<notin> set (cand_concepts c)
                then c\<lparr>cand_concepts := cand_concepts c @ [name]\<rparr> else c)
      in c1\<lparr>cand_concept_weight := f64_max (cand_concept_weight c1) (f64_clamp weight f0 (f64_of_nat 2))\<rparr>)"

definition target_lines :: "candidate \<Rightarrow> (usize \<times> usize) option" where
  "target_lines c = cand_target_range c"

definition target_truncated :: "candidate \<Rightarrow> bool" where
  "target_truncated c =
     (case target_lines c of
        None \<Rightarrow> False
      | Some (s, e) \<Rightarrow> s < cand_start_line c \<or> cand_end_line c < e)"

definition cand_content_hash :: "(string \<Rightarrow> string) \<Rightarrow> candidate \<Rightarrow> string" where
  "cand_content_hash b3 c = text_hash b3 (cand_content c)"

definition token_count_with :: "(string \<Rightarrow> usize) \<Rightarrow> candidate \<Rightarrow> usize" where
  "token_count_with tk c = tk (cand_content c)"

definition line_count :: "candidate \<Rightarrow> usize" where
  "line_count c =
     (if cand_start_line c \<le> cand_end_line c then cand_end_line c - cand_start_line c + 1 else 0)"

section \<open>Scores\<close>

definition bounded_count_f64 :: "usize \<Rightarrow> f64" where
  "bounded_count_f64 value = f64_of_nat value"

definition score :: "candidate \<Rightarrow> weights \<Rightarrow> usize \<Rightarrow> f64" where
  "score c w token_count =
     (let bm25_norm = f64_div (cand_bm25 c) (f64_add f1 (cand_bm25 c));
          size = (if f64_eq (cand_size_score c) f0
                  then f64_div f1 (f64_add f1 (f64_div (bounded_count_f64 token_count) (f64_of_nat 150)))
                  else cand_size_score c);
          base = f64_add (f64_add (f64_add (f64_add (f64_add
                   (f64_mul (cand_exact c) (w_exact w))
                   (f64_mul (cand_symbol c) (w_symbol w)))
                   (f64_mul (cand_reference c) (w_reference w)))
                   (f64_mul bm25_norm (w_bm25 w)))
                   (f64_mul (cand_path_score c) (w_path w)))
                   (f64_mul size (w_size w));
          penalty = f64_mul (cand_lexical_frequency_penalty c) (w_lexical_frequency_penalty w);
          boost = f64_add (f64_add
                    (f64_mul (cand_focus_boost c) (w_focus w))
                    (f64_mul (cand_import_boost c) (w_import w)))
                    (f64_mul (cand_change_boost c) (w_change w))
      in f64_max (f64_sub (f64_add base boost) penalty) f0)"

definition is_internal_metadata :: "string \<Rightarrow> bool" where
  "is_internal_metadata kind \<longleftrightarrow> starts_with kind FACET_PREFIX \<or> starts_with kind CHANNEL_PREFIX"

definition push_reason :: "bool \<Rightarrow> string \<Rightarrow> string list \<Rightarrow> string list" where
  "push_reason cond name parts = (if cond \<and> name \<notin> set parts then parts @ [name] else parts)"

definition reason :: "candidate \<Rightarrow> string" where
  "reason c =
     (let parts0 = filter (\<lambda>kind. \<not> is_internal_metadata kind) (cand_match_kinds c);
          parts1 = push_reason (f64_lt f0 (cand_focus_boost c)) ''focus'' parts0;
          parts2 = push_reason (f64_lt f0 (cand_import_boost c)) ''import'' parts1;
          parts = push_reason (f64_lt f0 (cand_change_boost c)) ''changed'' parts2
      in if parts = [] then ''context'' else str_join ''; '' parts)"

section \<open>Ranked candidates\<close>

record scored =
  sc_candidate :: candidate
  sc_score :: f64
  sc_token_count :: usize
  sc_content_hash :: string
  sc_marginal_score :: f64

definition scored_new_with_tokenizer ::
  "(string \<Rightarrow> string) \<Rightarrow> (string \<Rightarrow> usize) \<Rightarrow> weights \<Rightarrow> candidate \<Rightarrow> scored" where
  "scored_new_with_tokenizer b3 tk w c =
     (let token_count = max (token_count_with tk c) 1;
          s = score c w token_count
      in \<lparr>sc_candidate = c, sc_score = s, sc_token_count = token_count,
          sc_content_hash = cand_content_hash b3 c,
          sc_marginal_score = f64_div s (bounded_count_f64 token_count)\<rparr>)"

abbreviation sc_path :: "scored \<Rightarrow> string" where
  "sc_path s \<equiv> cand_path (sc_candidate s)"

abbreviation sc_start :: "scored \<Rightarrow> usize" where
  "sc_start s \<equiv> cand_start_line (sc_candidate s)"

definition rank_cmp :: "scored cmp" where
  "rank_cmp a b =
     (let o1 = f64_total_cmp (sc_score b) (sc_score a) in
      if o1 \<noteq> Equal then o1
      else let o2 = ord_cmp (sc_path a) (sc_path b) in
        if o2 \<noteq> Equal then o2 else ord_cmp (sc_start a) (sc_start b))"

definition rank_with_tokenizer ::
  "(string \<Rightarrow> string) \<Rightarrow> (string \<Rightarrow> usize) \<Rightarrow> candidate list \<Rightarrow> weights \<Rightarrow> scored list" where
  "rank_with_tokenizer b3 tk candidates w =
     sort_by rank_cmp (map (scored_new_with_tokenizer b3 tk w) candidates)"

lemma rank_cmp_lex:
  "rank_cmp = lex_cmp (rev_cmp (key_cmp (f64_total_key \<circ> sc_score))) (lex_cmp (key_cmp sc_path) (key_cmp sc_start))"
  by (rule ext)+ (simp add: rank_cmp_def then_with_if lex_cmp_def rev_cmp_def key_cmp_def f64_total_cmp_def Let_def
      del: ord_cmp_simps)

interpretation rank_order: comparator_laws rank_cmp
  unfolding rank_cmp_lex by (intro comparator_lex_cmp comparator_rev_cmp comparator_key_cmp)

section \<open>Lemmas on scores\<close>

lemma f0_simps [simp]: "\<not> f64_is_nan f0" "\<not> f_sign f0"
  by (simp_all add: f64_zero_def f64_is_nan_def)

lemma score_regular: "\<not> f64_is_nan (score c w n) \<and> f64_le f0 (score c w n)"
  by (simp add: score_def Let_def f64_max_not_nan f64_max_ge)

lemma f64_of_nat_sign: "\<not> f_sign (f64_of_nat n)"
  by (auto simp: f64_of_nat_def f64_round_def f64_pack_def f64_zero_def f64_inf_def Let_def)

lemma f64_of_nat_regular:
  assumes "0 < n" "n \<le> usize_max"
  shows "\<not> f64_is_nan (f64_of_nat n)" "\<not> f64_is_inf (f64_of_nat n)" "\<not> f64_is_zero (f64_of_nat n)"
proof -
  let ?x = "f64_of_nat n"
  have k: "f64_mag ?x = (bit_len (int n) + 1021) * 2 ^ 52 + count_sig (int n)"
    using f64_of_nat_key [OF assms] f64_of_nat_sign [of n] by (simp add: f64_num_key_def)
  have b: "0 < bit_len (int n)" "bit_len (int n) \<le> 64" "count_sig (int n) \<le> 2 ^ 53" "2 ^ 52 \<le> count_sig (int n)"
    using bit_len_bounds [of "int n"] bit_len_usize [OF assms(2)] count_sig_range [of "int n"] assms(1) by auto
  have m: "0 < f64_mag ?x" "f64_mag ?x < 2047 * 2 ^ 52" unfolding k using b by simp_all
  show "\<not> f64_is_nan ?x" by (simp add: f64_of_nat_def f64_round_not_nan)
  show "\<not> f64_is_inf ?x" using m(2) by (auto simp: f64_is_inf_def f64_mag_def)
  show "\<not> f64_is_zero ?x" using m(1) by (auto simp: f64_is_zero_def f64_mag_def)
qed

lemma f64_div_regular:
  "\<not> f64_is_nan x \<Longrightarrow> \<not> f64_is_nan y \<Longrightarrow> \<not> f64_is_inf y \<Longrightarrow> \<not> f64_is_zero y \<Longrightarrow> \<not> f64_is_nan (f64_div x y)"
  by (simp add: f64_div_def Let_def f64_round_not_nan) (simp add: f64_inf_def f64_is_nan_def)

text \<open>A candidate for the examples below.\<close>

definition sample_scored :: "string \<Rightarrow> usize \<Rightarrow> usize \<Rightarrow> string list \<Rightarrow> scored" where
  "sample_scored path a b kinds = scored_new_with_tokenizer id length weights_default
     ((candidate_new path a b path)\<lparr>cand_match_kinds := kinds\<rparr>)"

section \<open>Properties\<close>

text \<open>Whatever the signals and weights are (infinities and NaN included), a scored candidate has a
  real score: neither its score nor its score per token is NaN, and the score is not negative.\<close>

theorem scored_is_regular:
  assumes "tk (cand_content c) \<le> usize_max"
  shows "\<not> f64_is_nan (sc_score (scored_new_with_tokenizer b3 tk w c)) \<and>
    f64_le f0 (sc_score (scored_new_with_tokenizer b3 tk w c)) \<and>
    \<not> f64_is_nan (sc_marginal_score (scored_new_with_tokenizer b3 tk w c)) \<and>
    1 \<le> sc_token_count (scored_new_with_tokenizer b3 tk w c)"
proof -
  let ?n = "max (tk (cand_content c)) 1"
  have n: "0 < ?n" "?n \<le> usize_max" using assms by (auto simp: usize_max_def)
  show ?thesis
    using score_regular [of c w ?n] f64_of_nat_regular [OF n]
      f64_div_regular [of "score c w ?n" "f64_of_nat ?n"]
    by (simp add: scored_new_with_tokenizer_def token_count_with_def bounded_count_f64_def Let_def)
qed

theorem scored_is_regular_witness:
  "\<not> f64_is_nan (sc_score (scored_new_with_tokenizer id length weights_default
      ((candidate_new ''a.rs'' 1 2 ''fn a'')\<lparr>cand_bm25 := f64_inf False, cand_exact := f64_nan\<rparr>))) \<and>
   f64_le f0 (sc_score (scored_new_with_tokenizer id length weights_default
      ((candidate_new ''a.rs'' 1 2 ''fn a'')\<lparr>cand_bm25 := f64_inf False, cand_exact := f64_nan\<rparr>))) \<and>
   \<not> f64_is_nan (sc_marginal_score (scored_new_with_tokenizer id length weights_default
      ((candidate_new ''a.rs'' 1 2 ''fn a'')\<lparr>cand_bm25 := f64_inf False, cand_exact := f64_nan\<rparr>))) \<and>
   1 \<le> sc_token_count (scored_new_with_tokenizer id length weights_default
      ((candidate_new ''a.rs'' 1 2 ''fn a'')\<lparr>cand_bm25 := f64_inf False, cand_exact := f64_nan\<rparr>))"
  by (rule scored_is_regular) (simp add: candidate_new_def usize_max_def)

text \<open>Converting token counts to floating point keeps their order over the whole \<open>usize\<close> range: a
  larger fragment never gets a smaller count, as the comment in the code promises.\<close>

theorem bounded_count_monotone:
  assumes "n \<le> m" "m \<le> usize_max"
  shows "f64_num_key (bounded_count_f64 n) \<le> f64_num_key (bounded_count_f64 m)"
  unfolding bounded_count_f64_def by (rule f64_of_nat_mono [OF assms])

theorem bounded_count_monotone_witness:
  "f64_num_key (bounded_count_f64 (2 ^ 53 + 1)) \<le> f64_num_key (bounded_count_f64 (2 ^ 53 + 3))"
  by (rule bounded_count_monotone) (simp_all add: usize_max_def)

text \<open>Ranking is deterministic and loses nothing: the result is a permutation of the scored
  candidates, ordered by falling score, then path, then first line, and candidates equal in all
  three keep their input order.\<close>

theorem rank_sorts_stably:
  "mset (rank_with_tokenizer b3 tk cs w) = mset (map (scored_new_with_tokenizer b3 tk w) cs) \<and>
   sorted_wrt (\<lambda>a b. rank_cmp a b \<noteq> Greater) (rank_with_tokenizer b3 tk cs w) \<and>
   filter (\<lambda>s. rank_cmp k s = Equal) (rank_with_tokenizer b3 tk cs w) =
     filter (\<lambda>s. rank_cmp k s = Equal) (map (scored_new_with_tokenizer b3 tk w) cs)"
  unfolding rank_with_tokenizer_def
  by (simp only: mset_sort_by rank_order.sorted_sort_by rank_order.sort_by_stable)

end
