(* ===== verification/Rank_Metadata.thy ===== *)
theory Rank_Metadata
  imports Rank_Candidate
begin

text \<open>
  Candidate metadata and path classes (\<open>src/ranking/metadata.rs\<close>, \<open>language_by_path\<close> of
  \<open>src/parser/api.rs\<close>). The Unicode tables beyond ASCII are the fields of \<open>unicode_tables\<close>, on one
  encoded character.
\<close>

section \<open>Languages\<close>

definition language_by_path :: "string \<Rightarrow> string option" where
  "language_by_path path =
     (case path_extension path of
        None \<Rightarrow> None
      | Some ext0 \<Rightarrow>
          (let ext = lower_for_ascii ext0 in
           if ext = ''c'' then Some ''c''
           else if ext = ''cs'' then Some ''csharp''
           else if ext \<in> {''cc'', ''cpp'', ''cxx'', ''h'', ''hh'', ''hpp'', ''hxx'', ''inl'', ''ipp'', ''tpp''}
             then Some ''cpp''
           else if ext = ''java'' then Some ''java''
           else if ext = ''rs'' then Some ''rust''
           else if ext \<in> {''py'', ''pyi''} then Some ''python''
           else if ext = ''php'' then Some ''php''
           else if ext = ''rb'' then Some ''ruby''
           else if ext \<in> {''js'', ''jsx'', ''mjs'', ''cjs''} then Some ''javascript''
           else if ext \<in> {''ts'', ''mts'', ''cts''} then Some ''typescript''
           else if ext = ''tsx'' then Some ''tsx''
           else if ext = ''go'' then Some ''go''
           else if ext \<in> {''html'', ''htm''} then Some ''html''
           else if ext = ''css'' then Some ''css''
           else if ext \<in> {''md'', ''markdown''} then Some ''markdown''
           else if ext \<in> {''tex'', ''ltx''} then Some ''latex''
           else None))"

section \<open>Markers and facets\<close>

datatype context_path_class = Production | Test | Auxiliary | Supporting

definition required_evidence_marker :: "nat \<Rightarrow> nat \<Rightarrow> string" where
  "required_evidence_marker requirement query =
     REQUIRED_EVIDENCE_PREFIX @ show_nat requirement @ '':'' @ show_nat query"

definition required_evidence_query :: "candidate \<Rightarrow> nat \<Rightarrow> nat \<Rightarrow> bool" where
  "required_evidence_query c requirement query \<longleftrightarrow>
     required_evidence_marker requirement query \<in> set (cand_match_kinds c)"

definition carries_required_evidence :: "candidate \<Rightarrow> nat \<Rightarrow> bool" where
  "carries_required_evidence c requirement \<longleftrightarrow>
     list_ex (\<lambda>kind. starts_with kind (REQUIRED_EVIDENCE_PREFIX @ show_nat requirement @ '':'')) (cand_match_kinds c)"

definition facet_prefix :: "string \<Rightarrow> string" where
  "facet_prefix fc = FACET_PREFIX @ fc @ '':''"

definition carries_facet :: "candidate \<Rightarrow> string \<Rightarrow> bool" where
  "carries_facet c fc \<longleftrightarrow> list_ex (\<lambda>kind. starts_with kind (facet_prefix fc)) (cand_match_kinds c)"

definition facet_values :: "candidate \<Rightarrow> string \<Rightarrow> string list" where
  "facet_values c fc = List.map_filter (\<lambda>kind. strip_prefix kind (facet_prefix fc)) (cand_match_kinds c)"

text \<open>A character outside ASCII is one of several bytes; ASCII tests are false on it.\<close>

definition ascii_char :: "(char \<Rightarrow> bool) \<Rightarrow> string \<Rightarrow> bool" where
  "ascii_char p w \<longleftrightarrow> (case w of [c] \<Rightarrow> byte c < 128 \<and> p c | _ \<Rightarrow> False)"

definition specific_exact_atom :: "string \<Rightarrow> bool" where
  "specific_exact_atom atom =
     (let prose_hyphen = CHR ''-'' \<in> set atom
            \<and> list_all (ascii_char (\<lambda>c. is_ascii_lower c \<or> c = CHR ''-'')) (utf8_chars atom)
      in \<not> prose_hyphen
         \<and> (5 \<le> char_count atom \<or> list_ex (\<lambda>w. \<not> ascii_char is_ascii_alphanumeric w) (utf8_chars atom)))"

definition carries_specific_exact_atom :: "candidate \<Rightarrow> bool" where
  "carries_specific_exact_atom c \<longleftrightarrow> list_ex specific_exact_atom (facet_values c ''exact_atom'')"

record unicode_tables =
  u_alphanumeric :: "string \<Rightarrow> bool"
  u_lowercase :: "string \<Rightarrow> string"

definition char_alphanumeric :: "unicode_tables \<Rightarrow> string \<Rightarrow> bool" where
  "char_alphanumeric u w =
     (case w of [c] \<Rightarrow> if byte c < 128 then is_ascii_alphanumeric c else u_alphanumeric u w
      | _ \<Rightarrow> u_alphanumeric u w)"

definition char_lowercase :: "unicode_tables \<Rightarrow> string \<Rightarrow> string" where
  "char_lowercase u w =
     (case w of [c] \<Rightarrow> if byte c < 128 then [ascii_lower c] else u_lowercase u w
      | _ \<Rightarrow> u_lowercase u w)"

definition normalized_facet_identity :: "unicode_tables \<Rightarrow> string \<Rightarrow> string" where
  "normalized_facet_identity u value =
     concat (map (char_lowercase u) (filter (char_alphanumeric u) (utf8_chars value)))"

definition carries_specific_exact_primary_change :: "unicode_tables \<Rightarrow> candidate \<Rightarrow> bool" where
  "carries_specific_exact_primary_change u c \<longleftrightarrow>
     list_ex (\<lambda>exact. exact \<in> set (map (normalized_facet_identity u) (facet_values c ''primary_change'')))
       (map (normalized_facet_identity u) (filter specific_exact_atom (facet_values c ''exact_atom'')))"

definition carries_specific_primary_change :: "candidate \<Rightarrow> bool" where
  "carries_specific_primary_change c \<longleftrightarrow>
     list_ex (\<lambda>fv. 5 \<le> char_count fv \<or> list_ex (\<lambda>w. \<not> ascii_char is_ascii_alphanumeric w) (utf8_chars fv))
       (facet_values c ''primary_change'')"

definition facet_value_count :: "candidate \<Rightarrow> string \<Rightarrow> nat" where
  "facet_value_count c fc = length (filter (\<lambda>kind. starts_with kind (facet_prefix fc)) (cand_match_kinds c))"

definition carries_all_facet_values :: "candidate \<Rightarrow> candidate \<Rightarrow> string \<Rightarrow> bool" where
  "carries_all_facet_values c baseline fc \<longleftrightarrow>
     list_all (\<lambda>kind. kind \<in> set (cand_match_kinds c))
       (filter (\<lambda>kind. starts_with kind (facet_prefix fc)) (cand_match_kinds baseline))"

section \<open>Path classes\<close>

definition last_component :: "string \<Rightarrow> string" where
  "last_component path = last (split_char CHR ''/'' path)"

definition stem_before_dot :: "string \<Rightarrow> string" where
  "stem_before_dot file_name = (case split_once CHR ''.'' file_name of None \<Rightarrow> file_name | Some (s, _) \<Rightarrow> s)"

definition stem_before_last_dot :: "string \<Rightarrow> string" where
  "stem_before_last_dot file_name = (case rsplit_once CHR ''.'' file_name of None \<Rightarrow> file_name | Some (s, _) \<Rightarrow> s)"

definition is_test_path :: "string \<Rightarrow> bool" where
  "is_test_path path =
     (let file_name = last_component path;
          stem = stem_before_dot file_name;
          module_stem = stem_before_last_dot file_name
      in file_name = ''conftest.py''
       \<or> starts_with path ''test/'' \<or> starts_with path ''tests/'' \<or> starts_with path ''spec/''
       \<or> str_contains path ''/test/'' \<or> str_contains path ''/tests/'' \<or> str_contains path ''/spec/''
       \<or> str_contains path ''/test-suite/'' \<or> starts_with path ''crates/test-suite/''
       \<or> list_ex (\<lambda>comp. comp = ''__tests__'' \<or> starts_with comp ''test_'') (split_char CHR ''/'' path)
       \<or> ends_with module_stem ''.test'' \<or> ends_with module_stem ''.spec''
       \<or> ends_with module_stem ''.test-d'' \<or> ends_with module_stem ''.spec-d''
       \<or> stem = ''test'' \<or> stem = ''tests''
       \<or> ends_with file_name ''_spec.rb'' \<or> ends_with file_name ''.spec.rb''
       \<or> ends_with stem ''_test'' \<or> ends_with stem ''_tests'' \<or> starts_with stem ''test_'')"

definition class_language :: "string \<Rightarrow> bool" where
  "class_language path \<longleftrightarrow> language_by_path path \<in> {Some ''csharp'', Some ''java''}"

definition is_class_or_project_test_path :: "string \<Rightarrow> bool" where
  "is_class_or_project_test_path path =
     (class_language path \<and>
      (let stem = stem_before_last_dot (last_component path)
       in ends_with stem ''Test'' \<or> ends_with stem ''Tests''
        \<or> list_ex (\<lambda>comp. ends_with (to_ascii_lowercase comp) ''.tests'') (split_char CHR ''/'' path)))"

definition is_programming_language_path :: "string \<Rightarrow> bool" where
  "is_programming_language_path path \<longleftrightarrow>
     language_by_path path \<in> Some ` {''c'', ''csharp'', ''cpp'', ''java'', ''rust'', ''python'', ''php'', ''ruby'',
       ''javascript'', ''typescript'', ''tsx'', ''go'', ''html'', ''css''}"

definition is_supporting_code_path :: "string \<Rightarrow> bool" where
  "is_supporting_code_path path \<longleftrightarrow>
     starts_with path ''docs/'' \<or> str_contains path ''/docs/''
     \<or> starts_with path ''examples/'' \<or> str_contains path ''/examples/''
     \<or> starts_with path ''example/'' \<or> str_contains path ''/example/''
     \<or> starts_with path ''benches/'' \<or> str_contains path ''/benches/''
     \<or> starts_with path ''benchmarks/'' \<or> str_contains path ''/benchmarks/''
     \<or> starts_with path ''scripts/'' \<or> starts_with path ''tools/''"

text \<open>\<open>a.strip_suffix(..).or_else(..)...unwrap_or(a)\<close>: the first suffix that applies.\<close>

fun strip_first_suffix :: "string \<Rightarrow> string list \<Rightarrow> string option" where
  "strip_first_suffix s [] = None"
| "strip_first_suffix s (p # ps) = (case strip_suffix s p of Some t \<Rightarrow> Some t | None \<Rightarrow> strip_first_suffix s ps)"

definition unwrap_or :: "'a option \<Rightarrow> 'a \<Rightarrow> 'a" where
  "unwrap_or o1 d = (case o1 of None \<Rightarrow> d | Some x \<Rightarrow> x)"

definition normalized_source_stem :: "string \<Rightarrow> string" where
  "normalized_source_stem path =
     (let stem0 = stem_before_last_dot (last_component path);
          stem1 = unwrap_or (strip_first_suffix stem0 [''.test-d'', ''.spec-d'', ''.test'', ''.spec'']) stem0;
          stem2 = (case strip_first_suffix stem1 [''_tests'', ''_test'', ''_spec''] of
                     Some t \<Rightarrow> t | None \<Rightarrow> unwrap_or (strip_prefix stem1 ''test_'') stem1);
          stem3 = (if class_language path
                   then unwrap_or (strip_first_suffix stem2 [''Tests'', ''Test'']) stem2 else stem2)
      in to_ascii_lowercase stem3)"

definition parent_of :: "string \<Rightarrow> string" where
  "parent_of path = (case rsplit_once CHR ''/'' path of None \<Rightarrow> [] | Some (parent, _) \<Rightarrow> parent)"

definition owner_test_path_affinity :: "string \<Rightarrow> string \<Rightarrow> nat" where
  "owner_test_path_affinity owner test =
     (let owner_parent = parent_of owner;
          same_parent = (owner_parent = parent_of test);
          owner_stem = normalized_source_stem owner;
          test_stem = normalized_source_stem test;
          directory_module_test = (same_parent \<and> owner_parent \<noteq> []
            \<and> eq_ignore_ascii_case (last_component owner_parent) test_stem);
          alnum_parts = split_by (\<lambda>c. \<not> is_ascii_alphanumeric c)
      in if (owner_stem = test_stem \<and> same_parent) \<or> directory_module_test then 4
         else if char_count owner_stem < 4 \<or> char_count test_stem < 4 then 0
         else if owner_stem = test_stem \<or> starts_with owner_stem test_stem \<or> starts_with test_stem owner_stem then 2
         else if list_ex (\<lambda>part. part \<in> set (alnum_parts test_stem))
                   (filter (\<lambda>part. 4 \<le> char_count part) (alnum_parts owner_stem)) then 1
         else 0)"

definition context_path_class :: "string \<Rightarrow> context_path_class" where
  "context_path_class path0 =
     (let class_or_project_test = is_class_or_project_test_path path0;
          path = to_ascii_lowercase path0;
          root_markdown = (CHR ''/'' \<notin> set path \<and> (ends_with path ''.md'' \<or> ends_with path ''.mdx'')
            \<and> path \<notin> {''readme.md'', ''agents.md'', ''contributing.md''})
      in if starts_with path ''.agents/'' \<or> starts_with path ''fixtures/'' \<or> str_contains path ''/fixtures/''
            \<or> list_ex (\<lambda>comp. eq_ignore_ascii_case comp ''testdata'') (split_char CHR ''/'' path)
            \<or> starts_with path ''benchmarks/reports/'' \<or> str_contains path ''/snapshots/''
            \<or> ends_with path ''.snap'' \<or> root_markdown
            \<or> str_contains path ''/requests/'' \<or> str_contains path ''/schema/'' then Auxiliary
         else if class_or_project_test \<or> is_test_path path then Test
         else if is_supporting_code_path path then Supporting
         else if is_programming_language_path path then Production
         else Supporting)"

definition owner_path_prior :: "string \<Rightarrow> f64" where
  "owner_path_prior path =
     (case context_path_class path of
        Production \<Rightarrow> f64_of_nat 4
      | Test \<Rightarrow> f0
      | Auxiliary \<Rightarrow> f64_neg (f64_of_nat 8)
      | Supporting \<Rightarrow> f0)"

end
