(* ===== verification/Rank_Greedy.thy ===== *)
theory Rank_Greedy
  imports Rank_Metadata "HOL-Library.Product_Lexorder"
begin

text \<open>
  Greedy selection under a token budget (\<open>src/ranking/greedy.rs\<close>). The mutable locals of
  \<open>greedy_select\<close> are one record; each loop over the pool is one \<open>greedy_pass\<close> with its admission test
  and its bookkeeping. \<open>std::cmp::Reverse(position)\<close> is the negated position.
\<close>

section \<open>Quotas\<close>

record evidence_quota =
  q_auxiliary :: usize
  q_failures :: usize
  q_tests :: usize
  q_preserve :: usize

definition quota_default :: evidence_quota where
  "quota_default = \<lparr>q_auxiliary = 0, q_failures = 0, q_tests = 0, q_preserve = 0\<rparr>"

definition quota_allows :: "evidence_quota \<Rightarrow> scored \<Rightarrow> usize \<Rightarrow> bool" where
  "quota_allows q s max_fragments =
     (let auxiliary_limit = (if 0 < max_fragments then 1 else 0);
          failure_limit = min max_fragments 2;
          test_limit = min max_fragments 2;
          preserve_limit = min max_fragments 2;
          path_class = context_path_class (sc_path s)
      in (path_class \<noteq> Auxiliary \<or> q_auxiliary q < auxiliary_limit)
       \<and> (\<not> carries_facet (sc_candidate s) ''failure_trace'' \<or> q_failures q < failure_limit)
       \<and> (path_class \<noteq> Test \<or> q_tests q < test_limit)
       \<and> (\<not> carries_facet (sc_candidate s) ''preserve_constraint'' \<or> q_preserve q < preserve_limit))"

definition quota_record :: "scored \<Rightarrow> evidence_quota \<Rightarrow> evidence_quota" where
  "quota_record s q =
     (let q1 = (case context_path_class (sc_path s) of
                  Auxiliary \<Rightarrow> q\<lparr>q_auxiliary := q_auxiliary q + 1\<rparr>
                | Test \<Rightarrow> q\<lparr>q_tests := q_tests q + 1\<rparr>
                | Production \<Rightarrow> q
                | Supporting \<Rightarrow> q);
          q2 = (if carries_facet (sc_candidate s) ''preserve_constraint''
                then q1\<lparr>q_preserve := q_preserve q1 + 1\<rparr> else q1)
      in if carries_facet (sc_candidate s) ''failure_trace''
         then q2\<lparr>q_failures := q_failures q2 + 1\<rparr> else q2)"

section \<open>State\<close>

record greedy =
  gr_selected :: "scored list"
  gr_used_tokens :: usize
  gr_file_counts :: "string counts"
  gr_covered_concepts :: "string set"
  gr_concept_representations :: "(string \<times> string) set"
  gr_concept_paths :: "string \<Rightarrow> string option"
  gr_evidence_counts :: evidence_quota

definition greedy_init :: "string counts \<Rightarrow> greedy" where
  "greedy_init initial_file_counts =
     \<lparr>gr_selected = [], gr_used_tokens = 0, gr_file_counts = initial_file_counts, gr_covered_concepts = {},
      gr_concept_representations = {}, gr_concept_paths = Map.empty, gr_evidence_counts = quota_default\<rparr>"

definition candidate_fits :: "scored \<Rightarrow> usize \<Rightarrow> usize \<Rightarrow> usize \<Rightarrow> usize \<Rightarrow> usize \<Rightarrow> bool" where
  "candidate_fits s remaining_tokens file_count max_per_file selected_count max_fragments \<longleftrightarrow>
     sc_token_count s \<le> remaining_tokens \<and> file_count < max_per_file \<and> selected_count < max_fragments"

definition push_selected :: "scored \<Rightarrow> greedy \<Rightarrow> greedy" where
  "push_selected s g =
     g\<lparr>gr_used_tokens := gr_used_tokens g + sc_token_count s,
       gr_file_counts := bump (sc_path s) (gr_file_counts g),
       gr_selected := gr_selected g @ [s]\<rparr>"

text \<open>The bookkeeping steps of the loops.\<close>

definition cover_concepts :: "scored \<Rightarrow> greedy \<Rightarrow> greedy" where
  "cover_concepts s g =
     g\<lparr>gr_covered_concepts := gr_covered_concepts g \<union> set (cand_concepts (sc_candidate s))\<rparr>"

definition cover_representations :: "scored \<Rightarrow> greedy \<Rightarrow> greedy" where
  "cover_representations s g =
     g\<lparr>gr_concept_representations := gr_concept_representations g \<union>
         set (map (\<lambda>concept. (concept, cand_representation (sc_candidate s))) (cand_concepts (sc_candidate s)))\<rparr>"

definition cover_paths :: "scored \<Rightarrow> greedy \<Rightarrow> greedy" where
  "cover_paths s g =
     g\<lparr>gr_concept_paths :=
         fold (\<lambda>concept m. if m concept = None then m(concept \<mapsto> sc_path s) else m)
           (cand_concepts (sc_candidate s)) (gr_concept_paths g)\<rparr>"

definition count_evidence :: "scored \<Rightarrow> greedy \<Rightarrow> greedy" where
  "count_evidence s g = g\<lparr>gr_evidence_counts := quota_record s (gr_evidence_counts g)\<rparr>"

definition record_context_selection :: "scored \<Rightarrow> greedy \<Rightarrow> greedy" where
  "record_context_selection s g =
     count_evidence s (cover_paths s (cover_representations s (cover_concepts s g)))"

definition admits :: "usize \<Rightarrow> usize \<Rightarrow> usize \<Rightarrow> greedy \<Rightarrow> scored \<Rightarrow> bool" where
  "admits budget max_per_file max_fragments g s \<longleftrightarrow>
     quota_allows (gr_evidence_counts g) s max_fragments \<and>
     candidate_fits s (budget - gr_used_tokens g) (count_of (gr_file_counts g) (sc_path s)) max_per_file
       (length (gr_selected g)) max_fragments"

section \<open>Order\<close>

definition compare_utility :: "scored cmp" where
  "compare_utility a b =
     (let o1 = f64_total_cmp (sc_score b) (sc_score a) in
      if o1 \<noteq> Equal then o1
      else let o2 = f64_total_cmp (sc_marginal_score b) (sc_marginal_score a) in
      if o2 \<noteq> Equal then o2
      else let o3 = ord_cmp (sc_token_count a) (sc_token_count b) in
      if o3 \<noteq> Equal then o3
      else let o4 = ord_cmp (sc_path a) (sc_path b) in
        if o4 \<noteq> Equal then o4 else ord_cmp (sc_start a) (sc_start b))"

lemma compare_utility_lex:
  "compare_utility =
     lex_cmp (rev_cmp (key_cmp (f64_total_key \<circ> sc_score)))
       (lex_cmp (rev_cmp (key_cmp (f64_total_key \<circ> sc_marginal_score)))
         (lex_cmp (key_cmp sc_token_count) (lex_cmp (key_cmp sc_path) (key_cmp sc_start))))"
  by (rule ext)+ (simp add: compare_utility_def then_with_if lex_cmp_def rev_cmp_def key_cmp_def
      f64_total_cmp_def Let_def del: ord_cmp_simps)

interpretation utility_order: comparator_laws compare_utility
  unfolding compare_utility_lex by (intro comparator_lex_cmp comparator_rev_cmp comparator_key_cmp)

text \<open>\<open>Iterator::max_by_key\<close>: the last of the maximal elements.\<close>

definition max_by_key :: "('a \<Rightarrow> 'k::linorder) \<Rightarrow> 'a list \<Rightarrow> 'a option" where
  "max_by_key key xs =
     fold (\<lambda>x acc. case acc of None \<Rightarrow> Some x | Some y \<Rightarrow> if key x < key y then Some y else Some x) xs None"

section \<open>The primary and supporting picks\<close>

definition owner_position ::
  "(scored \<Rightarrow> bool) \<Rightarrow> scored \<Rightarrow> scored list \<Rightarrow> nat option" where
  "owner_position fits baseline pool =
     (let eligible = (\<lambda>s. fits s
            \<and> cand_representation (sc_candidate s) = cand_representation (sc_candidate baseline)
            \<and> carries_all_facet_values (sc_candidate s) (sc_candidate baseline) ''primary_change'')
      in case max_by_key (\<lambda>(i, s). (facet_value_count (sc_candidate s) ''primary_change'', - int i))
                (filter (\<lambda>(i, s). eligible s) (enumerate 0 pool)) of
           None \<Rightarrow> None
         | Some (_, owner) \<Rightarrow> position (\<lambda>s. sc_path s = sc_path owner \<and> eligible s) pool)"

definition primary_position_for ::
  "unicode_tables \<Rightarrow> (scored \<Rightarrow> bool) \<Rightarrow> scored list \<Rightarrow> nat option" where
  "primary_position_for u fits pool =
     (case position (\<lambda>s. fits s \<and> carries_specific_exact_primary_change u (sc_candidate s)
                        \<and> carries_facet (sc_candidate s) ''primary_change'') pool of
        Some i \<Rightarrow> Some i
      | None \<Rightarrow>
          (let specific = (\<lambda>s. fits s \<and> carries_specific_primary_change (sc_candidate s));
               facetted = (\<lambda>s. fits s \<and> carries_facet (sc_candidate s) ''primary_change'');
               first_choice = (case find specific pool of
                   None \<Rightarrow> None | Some baseline \<Rightarrow> owner_position specific baseline pool)
           in case first_choice of
                Some i \<Rightarrow> Some i
              | None \<Rightarrow>
                  (case find facetted pool of
                     None \<Rightarrow> None
                   | Some baseline \<Rightarrow> owner_position facetted baseline pool)))"

definition primary_position ::
  "unicode_tables \<Rightarrow> usize \<Rightarrow> usize \<Rightarrow> usize \<Rightarrow> greedy \<Rightarrow> scored list \<Rightarrow> nat option" where
  "primary_position u budget mpf maxf g pool =
     (let fits = (\<lambda>cls s. context_path_class (sc_path s) = cls \<and> admits budget mpf maxf g s)
      in case primary_position_for u (fits Production) pool of
           Some i \<Rightarrow> Some i
         | None \<Rightarrow> primary_position_for u (fits Supporting) pool)"

definition test_position ::
  "usize \<Rightarrow> usize \<Rightarrow> usize \<Rightarrow> string option \<Rightarrow> greedy \<Rightarrow> scored list \<Rightarrow> nat option" where
  "test_position budget mpf maxf primary_owner g pool =
     (let affinity = (\<lambda>s. case primary_owner of None \<Rightarrow> 0 | Some path \<Rightarrow> owner_test_path_affinity path (sc_path s));
          eligible = filter (\<lambda>(i, s).
              context_path_class (sc_path s) = Test
              \<and> (carries_specific_exact_atom (sc_candidate s)
                 \<or> 0 < affinity s
                 \<or> list_ex (\<lambda>concept. concept \<in> gr_covered_concepts g) (cand_concepts (sc_candidate s)))
              \<and> admits budget mpf maxf g s) (enumerate 0 pool)
      in map_option fst (max_by_key
           (\<lambda>(i, s). (if 3 \<le> affinity s then 1 else 0 :: nat,
                      (if carries_specific_exact_atom (sc_candidate s) then 1 else 0 :: nat,
                       (affinity s, - int i)))) eligible))"

definition preserve_position :: "usize \<Rightarrow> usize \<Rightarrow> usize \<Rightarrow> greedy \<Rightarrow> scored list \<Rightarrow> nat option" where
  "preserve_position budget mpf maxf g pool =
     position (\<lambda>s. context_path_class (sc_path s) \<noteq> Auxiliary
       \<and> carries_facet (sc_candidate s) ''preserve_constraint'' \<and> admits budget mpf maxf g s) pool"

text \<open>Remove the candidate at a position from the pool and select it.\<close>

definition pick_at :: "nat option \<Rightarrow> greedy \<times> scored list \<Rightarrow> greedy \<times> scored list" where
  "pick_at pos gp =
     (case (pos, gp) of
        (None, gp) \<Rightarrow> gp
      | (Some i, g, pool) \<Rightarrow> (push_selected (pool ! i) (record_context_selection (pool ! i) g), remove_at i pool))"

section \<open>The passes\<close>

text \<open>One loop over the remaining candidates: an admitted one is noted and selected, any other is left
  for the next loop.\<close>

fun greedy_pass ::
  "(greedy \<Rightarrow> scored \<Rightarrow> bool) \<Rightarrow> (scored \<Rightarrow> greedy \<Rightarrow> greedy) \<Rightarrow> scored list \<Rightarrow> greedy \<times> scored list \<Rightarrow> greedy \<times> scored list" where
  "greedy_pass takes marks [] (g, rest) = (g, rest)"
| "greedy_pass takes marks (s # ss) (g, rest) =
     (if takes g s then greedy_pass takes marks ss (push_selected s (marks s g), rest)
      else greedy_pass takes marks ss (g, rest @ [s]))"

definition adds_concept :: "greedy \<Rightarrow> scored \<Rightarrow> bool" where
  "adds_concept g s \<longleftrightarrow> list_ex (\<lambda>concept. concept \<notin> gr_covered_concepts g) (cand_concepts (sc_candidate s))"

definition concept_takes :: "usize \<Rightarrow> usize \<Rightarrow> usize \<Rightarrow> greedy \<Rightarrow> scored \<Rightarrow> bool" where
  "concept_takes budget mpf maxf g s \<longleftrightarrow>
     adds_concept g s \<and> \<not> f64_lt (cand_concept_weight (sc_candidate s)) f1 \<and> admits budget mpf maxf g s"

definition view_takes :: "usize \<Rightarrow> usize \<Rightarrow> usize \<Rightarrow> greedy \<Rightarrow> scored \<Rightarrow> bool" where
  "view_takes budget mpf maxf g s \<longleftrightarrow>
     f64_le (f64_lit 18 10) (cand_concept_weight (sc_candidate s))
     \<and> list_ex (\<lambda>concept. concept \<in> gr_covered_concepts g
          \<and> (concept, cand_representation (sc_candidate s)) \<notin> gr_concept_representations g)
         (cand_concepts (sc_candidate s))
     \<and> admits budget mpf maxf g s"

definition view_notes :: "scored \<Rightarrow> greedy \<Rightarrow> greedy" where
  "view_notes s g = count_evidence s (cover_representations s g)"

definition confident_takes :: "f64 \<Rightarrow> usize \<Rightarrow> usize \<Rightarrow> usize \<Rightarrow> greedy \<Rightarrow> scored \<Rightarrow> bool" where
  "confident_takes confidence_floor budget mpf maxf g s \<longleftrightarrow>
     adds_concept g s
     \<and> (f64_le f1 (cand_concept_weight (sc_candidate s)) \<or> f64_le confidence_floor (sc_score s))
     \<and> admits budget mpf maxf g s"

definition confident_notes :: "scored \<Rightarrow> greedy \<Rightarrow> greedy" where
  "confident_notes s g = count_evidence s (cover_concepts s g)"

definition fill_takes :: "f64 \<Rightarrow> usize \<Rightarrow> usize \<Rightarrow> usize \<Rightarrow> greedy \<Rightarrow> scored \<Rightarrow> bool" where
  "fill_takes confidence_floor budget mpf maxf g s \<longleftrightarrow>
     \<not> (f64_lt (cand_concept_weight (sc_candidate s)) f1 \<and> f64_lt (sc_score s) confidence_floor)
     \<and> admits budget mpf maxf g s"

text \<open>Deferred candidates on a path already chosen for one of their concepts come first.\<close>

definition same_path :: "greedy \<Rightarrow> scored \<Rightarrow> bool" where
  "same_path g s \<longleftrightarrow>
     list_ex (\<lambda>concept. gr_concept_paths g concept = Some (sc_path s)) (cand_concepts (sc_candidate s))"

definition deferred_cmp :: "greedy \<Rightarrow> scored cmp" where
  "deferred_cmp g left right = then_with (ord_cmp (same_path g right) (same_path g left)) (compare_utility left right)"

definition min_relative_context_score :: f64 where
  "min_relative_context_score = f64_lit 25 100"

definition confidence_floor_of :: "scored list \<Rightarrow> f64" where
  "confidence_floor_of pool =
     (case pool of [] \<Rightarrow> f0 | s # _ \<Rightarrow> f64_mul (sc_score s) min_relative_context_score)"

definition greedy_select ::
  "unicode_tables \<Rightarrow> scored list \<Rightarrow> usize \<Rightarrow> usize \<Rightarrow> usize \<Rightarrow> string counts \<Rightarrow> scored list \<times> scored list" where
  "greedy_select u candidates budget mpf maxf initial_file_counts =
     (let pool0 = sort_by compare_utility candidates;
          confidence_floor = confidence_floor_of pool0;
          g0 = greedy_init initial_file_counts;
          primary = primary_position u budget mpf maxf g0 pool0;
          primary_owner = map_option (\<lambda>i. sc_path (pool0 ! i)) primary;
          (g1, pool1) = pick_at primary (g0, pool0);
          (g2, pool2) = pick_at (test_position budget mpf maxf primary_owner g1 pool1) (g1, pool1);
          (g3, pool3) = pick_at (preserve_position budget mpf maxf g2 pool2) (g2, pool2);
          (g4, deferred) = greedy_pass (concept_takes budget mpf maxf) record_context_selection pool3 (g3, []);
          (g5, remaining) = greedy_pass (view_takes budget mpf maxf) view_notes
                              (sort_by (deferred_cmp g4) deferred) (g4, []);
          (g6, fill) = greedy_pass (confident_takes confidence_floor budget mpf maxf) confident_notes remaining (g5, []);
          (g7, omitted) = greedy_pass (fill_takes confidence_floor budget mpf maxf) count_evidence fill (g6, [])
      in (gr_selected g7, omitted))"

end
