(* ===== verification/Repo_Path.thy ===== *)
theory Repo_Path
  imports Rust_Str "HOL-Library.Sublist"
begin

text \<open>
  Repository-relative paths and patterns (\<open>src/repository/path.rs\<close>): \<open>normalize_repository_value\<close>,
  \<open>RepositoryPath\<close> with its relative join, \<open>RepositoryPattern\<close> and \<open>RepositoryPatternSet\<close>, and the two
  filters built on them in \<open>src/services/validation.rs\<close>. The glob engine is the crate \<open>globset\<close>: which
  globs compile, which sets build and what a set matches are the fields of \<open>glob_lib\<close>.
\<close>

section \<open>Data\<close>

datatype repo_error =
    InputTooLong string usize
  | InvalidInput string string
  | PathOutsideRoot string
  | LimitExceeded
  | GlobError string
  | InvalidConfiguration string

type_synonym 'a repo_result = "repo_error + 'a"

record glob_lib =
  glob_new :: "string \<Rightarrow> bool"
  glob_error :: "string \<Rightarrow> string"
  globset_build :: "string list \<Rightarrow> bool"
  globset_error :: "string list \<Rightarrow> string"
  globset_match :: "string list \<Rightarrow> string \<Rightarrow> bool"

definition max_repository_patterns :: nat where
  "max_repository_patterns = 256"

definition max_repository_path_bytes :: nat where
  "max_repository_path_bytes = 4 * 1024"

section \<open>Normalization\<close>

fun normalize_components :: "string list \<Rightarrow> string list option" where
  "normalize_components [] = Some []"
| "normalize_components (c # cs) =
     (if c = '''' \<or> c = ''.'' then normalize_components cs
      else if c = ''..'' then None
      else map_option ((#) c) (normalize_components cs))"

definition drive_prefixed :: "string \<Rightarrow> bool" where
  "drive_prefixed s \<longleftrightarrow> 2 \<le> length s \<and> (is_ascii_lower (s ! 0) \<or> is_ascii_upper (s ! 0)) \<and> s ! 1 = CHR '':''"

definition normalize_repository_value :: "string \<Rightarrow> string \<Rightarrow> bool \<Rightarrow> usize \<Rightarrow> string repo_result" where
  "normalize_repository_value requested field allow_root max_bytes =
     (if max_bytes < length requested then Inl (InputTooLong field max_bytes)
      else if trim requested = [] \<or> CHR 0x00 \<in> set requested then
        Inl (InvalidInput field ''must be a non-empty repository-relative value'')
      else if starts_with requested ''/'' \<or> starts_with requested [CHR 0x5C] \<or> drive_prefixed requested then
        Inl (PathOutsideRoot requested)
      else
        case normalize_components (split_char CHR ''/'' (str_replace_char (CHR 0x5C) CHR ''/'' requested)) of
          None \<Rightarrow> Inl (PathOutsideRoot requested)
        | Some [] \<Rightarrow>
            if allow_root then Inr ''.''
            else Inl (InvalidInput field ''must not resolve to the repository root'')
        | Some cs \<Rightarrow> Inr (str_join ''/'' cs))"

definition repository_path_parse :: "string \<Rightarrow> string repo_result" where
  "repository_path_parse value = normalize_repository_value value ''path'' True max_repository_path_bytes"

definition normalize_relative :: "string \<Rightarrow> string repo_result" where
  "normalize_relative requested = repository_path_parse requested"

section \<open>Relative join\<close>

text \<open>The component loop of \<open>join_relative\<close>; \<open>None\<close> is the parent component popped at the root.\<close>

fun join_components :: "string list \<Rightarrow> string list \<Rightarrow> string list option" where
  "join_components components [] = Some components"
| "join_components components (c # cs) =
     (if c = '''' \<or> c = ''.'' then join_components components cs
      else if c = ''..'' then
        (if components = [] then None else join_components (butlast components) cs)
      else join_components (components @ [c]) cs)"

definition parent_components :: "string \<Rightarrow> string list" where
  "parent_components path =
     (case rsplit_once CHR ''/'' path of
        None \<Rightarrow> []
      | Some (parent, _) \<Rightarrow> split_char CHR ''/'' parent)"

definition join_relative :: "string \<Rightarrow> string \<Rightarrow> string repo_result" where
  "join_relative path relative =
     (if starts_with relative ''/'' \<or> starts_with relative [CHR 0x5C]
         \<or> (1 < length relative \<and> relative ! 1 = CHR '':'') then Inl (PathOutsideRoot relative)
      else if CHR 0x00 \<in> set relative then
        Inl (InvalidInput ''import path'' ''must not contain NUL bytes'')
      else
        case join_components (parent_components path)
               (split_char CHR ''/'' (str_replace_char (CHR 0x5C) CHR ''/'' relative)) of
          None \<Rightarrow> Inl (PathOutsideRoot relative)
        | Some [] \<Rightarrow> Inl (InvalidInput ''import path'' ''must identify a repository-relative path'')
        | Some cs \<Rightarrow> repository_path_parse (str_join ''/'' cs))"

section \<open>Patterns\<close>

definition glob_meta :: "char \<Rightarrow> bool" where
  "glob_meta c \<longleftrightarrow> c \<in> {CHR ''*'', CHR ''?'', CHR ''['', CHR '']'', CHR ''{'', CHR ''}''}"

definition has_glob_meta :: "string \<Rightarrow> bool" where
  "has_glob_meta value \<longleftrightarrow> (\<exists>c \<in> set value. glob_meta c)"

definition repository_pattern_parse :: "glob_lib \<Rightarrow> string \<Rightarrow> string repo_result" where
  "repository_pattern_parse gl value =
     (case normalize_repository_value value ''path pattern'' False max_repository_path_bytes of
        Inl e \<Rightarrow> Inl e
      | Inr canonical \<Rightarrow>
          if has_glob_meta canonical \<and> \<not> glob_new gl canonical then Inl (GlobError (glob_error gl canonical)) else Inr canonical)"

fun collect_results :: "('e + 'a) list \<Rightarrow> 'e + 'a list" where
  "collect_results [] = Inr []"
| "collect_results (Inl e # rs) = Inl e"
| "collect_results (Inr x # rs) =
     (case collect_results rs of Inl e \<Rightarrow> Inl e | Inr xs \<Rightarrow> Inr (x # xs))"

record pattern_set =
  ps_patterns :: "string list"
  ps_literals :: "string list"
  ps_globs :: "string list"

definition pattern_set_empty :: pattern_set where
  "pattern_set_empty = \<lparr>ps_patterns = [], ps_literals = [], ps_globs = []\<rparr>"

definition pattern_set_compile :: "glob_lib \<Rightarrow> string list \<Rightarrow> pattern_set repo_result" where
  "pattern_set_compile gl patterns =
     (if max_repository_patterns < length patterns then Inl LimitExceeded
      else
        let globs = filter has_glob_meta patterns;
            literals = filter (\<lambda>p. \<not> has_glob_meta p) patterns in
        case find (\<lambda>g. \<not> glob_new gl g) globs of
          Some g \<Rightarrow> Inl (GlobError (glob_error gl g))
        | None \<Rightarrow>
            if \<not> globset_build gl globs then Inl (GlobError (globset_error gl globs))
            else Inr \<lparr>ps_patterns = patterns, ps_literals = literals, ps_globs = globs\<rparr>)"

definition pattern_set_new :: "glob_lib \<Rightarrow> string list \<Rightarrow> pattern_set repo_result" where
  "pattern_set_new gl patterns =
     (if max_repository_patterns < length patterns then Inl LimitExceeded
      else case collect_results (map (repository_pattern_parse gl) patterns) of
        Inl e \<Rightarrow> Inl e
      | Inr ps \<Rightarrow> pattern_set_compile gl ps)"

definition path_is_within :: "string \<Rightarrow> string \<Rightarrow> bool" where
  "path_is_within path root =
     (case strip_prefix path root of
        None \<Rightarrow> False
      | Some rest \<Rightarrow> rest = [] \<or> starts_with rest ''/'')"

definition is_match :: "glob_lib \<Rightarrow> pattern_set \<Rightarrow> string \<Rightarrow> bool" where
  "is_match gl ps path \<longleftrightarrow>
     list_ex (\<lambda>literal. path_is_within path literal) (ps_literals ps)
     \<or> (ps_globs ps \<noteq> [] \<and> globset_match gl (ps_globs ps) path)"

definition canonical_strings :: "pattern_set \<Rightarrow> string list" where
  "canonical_strings ps = ps_patterns ps"

section \<open>Filters\<close>

text \<open>\<open>path_matches\<close> and \<open>PathFilter\<close> of the services.\<close>

definition path_matches :: "glob_lib \<Rightarrow> string \<Rightarrow> string \<Rightarrow> bool repo_result" where
  "path_matches gl path pattern =
     (case pattern_set_new gl [pattern] of Inl e \<Rightarrow> Inl e | Inr ps \<Rightarrow> Inr (is_match gl ps path))"

record path_filter =
  pf_includes :: pattern_set
  pf_excludes :: pattern_set
  pf_include_all :: bool

definition path_filter_new :: "glob_lib \<Rightarrow> string list \<Rightarrow> string list \<Rightarrow> path_filter repo_result" where
  "path_filter_new gl includes excludes =
     (case pattern_set_new gl includes of
        Inl e \<Rightarrow> Inl e
      | Inr inc \<Rightarrow>
          (case pattern_set_new gl excludes of
             Inl e \<Rightarrow> Inl e
           | Inr exc \<Rightarrow> Inr \<lparr>pf_includes = inc, pf_excludes = exc, pf_include_all = (includes = [])\<rparr>))"

definition path_filter_allows :: "glob_lib \<Rightarrow> path_filter \<Rightarrow> string \<Rightarrow> bool" where
  "path_filter_allows gl f path \<longleftrightarrow>
     (pf_include_all f \<or> is_match gl (pf_includes f) path) \<and> \<not> is_match gl (pf_excludes f) path"

definition validate_input :: "string \<Rightarrow> string \<Rightarrow> usize \<Rightarrow> unit repo_result" where
  "validate_input value name max_bytes =
     (if max_bytes < length value then Inl (InputTooLong name max_bytes) else Inr ())"

definition validate_patterns :: "string list \<Rightarrow> unit repo_result" where
  "validate_patterns patterns =
     (if 256 < length patterns then Inl LimitExceeded
      else case collect_results (map (\<lambda>p. validate_input p ''path pattern'' (4 * 1024)) patterns) of
        Inl e \<Rightarrow> Inl e | Inr _ \<Rightarrow> Inr ())"

definition validate_glob_patterns :: "glob_lib \<Rightarrow> string list \<Rightarrow> unit repo_result" where
  "validate_glob_patterns gl patterns =
     (case validate_patterns patterns of
        Inl e \<Rightarrow> Inl e
      | Inr _ \<Rightarrow> (case pattern_set_new gl patterns of Inl e \<Rightarrow> Inl e | Inr _ \<Rightarrow> Inr ()))"

section \<open>Canonical paths\<close>

definition component_ok :: "string \<Rightarrow> bool" where
  "component_ok c \<longleftrightarrow> c \<noteq> '''' \<and> c \<noteq> ''.'' \<and> c \<noteq> ''..''
     \<and> CHR ''/'' \<notin> set c \<and> CHR 0x5C \<notin> set c \<and> CHR 0x00 \<notin> set c"

definition canonical_components :: "string list \<Rightarrow> bool" where
  "canonical_components cs \<longleftrightarrow> cs \<noteq> [] \<and> list_all component_ok cs"

definition canonical_path :: "string \<Rightarrow> bool" where
  "canonical_path p \<longleftrightarrow> canonical_components (split_char CHR ''/'' p)"

lemma normalize_components_Some:
  "normalize_components cs = Some ds \<Longrightarrow>
     ds = filter (\<lambda>c. c \<noteq> '''' \<and> c \<noteq> ''.'') cs \<and> ''..'' \<notin> set cs"
  by (induction cs arbitrary: ds) (auto split: if_splits)

lemma normalize_components_id:
  "(\<And>c. c \<in> set cs \<Longrightarrow> c \<noteq> '''' \<and> c \<noteq> ''.'' \<and> c \<noteq> ''..'') \<Longrightarrow> normalize_components cs = Some cs"
  by (induction cs) auto

lemma set_replace [simp]: "a \<noteq> b \<Longrightarrow> a \<notin> set (str_replace_char a b s)"
  by (auto simp: str_replace_char_def)

lemma set_replace_in: "c \<in> set (str_replace_char a b s) \<Longrightarrow> c \<in> set s \<or> c = b"
  by (auto simp: str_replace_char_def split: if_splits)

lemma length_replace [simp]: "length (str_replace_char a b s) = length s"
  by (simp add: str_replace_char_def)

lemma replace_id: "a \<notin> set s \<Longrightarrow> str_replace_char a b s = s"
  unfolding str_replace_char_def by (rule map_idI) auto

lemma split_char_pieces: "w \<in> set (split_char c s) \<Longrightarrow> d \<in> set w \<Longrightarrow> d \<noteq> c \<and> d \<in> set s"
  using split_by_pieces [of w "\<lambda>d. d = c" s d] by (simp add: split_char_def)

text \<open>The components that survive the loops carry no separator, backslash or NUL.\<close>

lemma replaced_components_ok:
  assumes "CHR 0x00 \<notin> set s" "c \<in> set (split_char CHR ''/'' (str_replace_char (CHR 0x5C) CHR ''/'' s))"
    "c \<noteq> ''''" "c \<noteq> ''.''" "c \<noteq> ''..''"
  shows "component_ok c"
proof -
  have "d \<noteq> CHR ''/'' \<and> d \<noteq> CHR 0x5C \<and> d \<noteq> CHR 0x00" if "d \<in> set c" for d
    using split_char_pieces [OF assms(2) that] assms(1)
      set_replace [of "CHR 0x5C" "CHR ''/''" s] set_replace_in [of d "CHR 0x5C" "CHR ''/''" s]
    by auto
  then show ?thesis using assms(3-5) by (auto simp: component_ok_def)
qed

lemma canonical_split_join:
  "canonical_components cs \<Longrightarrow> split_char CHR ''/'' (str_join ''/'' cs) = cs"
  by (rule split_join) (auto simp: canonical_components_def list_all_iff component_ok_def)

lemma canonical_path_join: "canonical_components cs \<Longrightarrow> canonical_path (str_join ''/'' cs)"
  by (simp add: canonical_path_def canonical_split_join)

lemma normalize_repository_value_Inr:
  assumes "normalize_repository_value v f ar mb = Inr w"
  shows "(w = ''.'' \<and> ar) \<or>
    (\<exists>cs. canonical_components cs \<and> w = str_join ''/'' cs \<and>
      cs = filter (\<lambda>c. c \<noteq> '''' \<and> c \<noteq> ''.'') (split_char CHR ''/'' (str_replace_char (CHR 0x5C) CHR ''/'' v)))"
proof -
  let ?ps = "split_char CHR ''/'' (str_replace_char (CHR 0x5C) CHR ''/'' v)"
  have nul: "CHR 0x00 \<notin> set v"
    using assms by (auto simp: normalize_repository_value_def split: if_splits)
  obtain ds where ds: "normalize_components ?ps = Some ds"
    using assms by (auto simp: normalize_repository_value_def split: if_splits option.splits)
  show ?thesis
  proof (cases "ds = []")
    case True
    then show ?thesis
      using assms ds by (auto simp: normalize_repository_value_def split: if_splits)
  next
    case False
    then have w: "w = str_join ''/'' ds"
      using assms ds by (cases ds) (auto simp: normalize_repository_value_def split: if_splits)
    have f: "ds = filter (\<lambda>c. c \<noteq> '''' \<and> c \<noteq> ''.'') ?ps" "''..'' \<notin> set ?ps"
      using normalize_components_Some [OF ds] by auto
    have "list_all component_ok ds"
      unfolding list_all_iff
    proof
      fix c assume "c \<in> set ds"
      then have "c \<in> set ?ps" "c \<noteq> ''''" "c \<noteq> ''.''" "c \<noteq> ''..''" using f by auto
      then show "component_ok c" using replaced_components_ok [OF nul] by blast
    qed
    then show ?thesis using False w f(1) by (auto simp: canonical_components_def)
  qed
qed

lemma canonical_path_chars:
  assumes "canonical_path p"
  shows "CHR 0x00 \<notin> set p" "CHR 0x5C \<notin> set p" "\<not> starts_with p ''/''" "p \<noteq> ''''"
proof -
  let ?cs = "split_char CHR ''/'' p"
  have ok: "component_ok c" if "c \<in> set ?cs" for c
    using that assms by (auto simp: canonical_path_def canonical_components_def list_all_iff)
  have p: "p = str_join ''/'' ?cs" by (simp add: join_split)
  have mem: "d \<in> set (str_join ''/'' ws) \<Longrightarrow> d = CHR ''/'' \<or> (\<exists>w \<in> set ws. d \<in> set w)" for d ws
    by (induction "''/''" ws rule: str_join.induct) auto
  have in_p: "d = CHR ''/'' \<or> (\<exists>w \<in> set ?cs. d \<in> set w)" if "d \<in> set p" for d
    using mem [of d ?cs] that p by simp
  show "CHR 0x00 \<notin> set p" "CHR 0x5C \<notin> set p"
    using in_p ok by (auto simp: component_ok_def)
  show "\<not> starts_with p ''/''"
  proof
    assume "starts_with p ''/''"
    then have "'''' \<in> set ?cs" by (cases p) (auto simp: starts_with_def split_char_def)
    then show False using ok by (auto simp: component_ok_def)
  qed
  show "p \<noteq> ''''" using ok by (auto simp: split_char_def component_ok_def)
qed

section \<open>Component view of paths\<close>

lemma split_char_append: "split_char c (a @ c # b) = split_char c a @ split_char c b"
proof (induction a)
  case (Cons d a)
  obtain w ws where "split_by (\<lambda>e. e = c) a = w # ws"
    by (cases "split_by (\<lambda>e. e = c) a") auto
  then show ?case using Cons by (auto simp: split_char_def)
qed (simp add: split_char_def)

lemma str_join_append:
  "as \<noteq> [] \<Longrightarrow> bs \<noteq> [] \<Longrightarrow> str_join sep (as @ bs) = str_join sep as @ sep @ str_join sep bs"
proof (induction as)
  case (Cons a as)
  then show ?case by (cases as; cases bs) auto
qed simp

lemma split_char_not_Nil [simp]: "split_char c s \<noteq> []"
  by (simp add: split_char_def)

lemma length_str_join_Cons:
  "length (str_join [c] (w # ws)) = length w + (if ws = [] then 0 else Suc (length (str_join [c] ws)))"
  by (cases ws) auto

lemma length_str_join_filter: "length (str_join [c] (filter P ws)) \<le> length (str_join [c] ws)"
proof (induction ws)
  case (Cons w ws)
  then show ?case by (cases "P w") (auto simp: length_str_join_Cons simp del: str_join.simps(2,3))
qed simp

lemma path_is_within_iff: "path_is_within path root \<longleftrightarrow> path = root \<or> (\<exists>rest. path = root @ CHR ''/'' # rest)"
proof -
  have "starts_with t ''/'' \<longleftrightarrow> (\<exists>u. t = CHR ''/'' # u)" for t by (simp add: starts_with_iff)
  then show ?thesis
    by (auto simp: path_is_within_def strip_prefix_Some strip_prefix_def starts_with_iff split: option.splits)
qed

text \<open>A literal covers a path exactly when its components are a prefix of the path's components.\<close>

lemma path_is_within_components:
  "path_is_within path root \<longleftrightarrow> prefix (split_char CHR ''/'' root) (split_char CHR ''/'' path)"
proof
  assume "path_is_within path root"
  then show "prefix (split_char CHR ''/'' root) (split_char CHR ''/'' path)"
    by (auto simp: path_is_within_iff split_char_append)
next
  assume "prefix (split_char CHR ''/'' root) (split_char CHR ''/'' path)"
  then obtain ds where ds: "split_char CHR ''/'' path = split_char CHR ''/'' root @ ds"
    by (auto simp: prefix_def)
  have "path = str_join ''/'' (split_char CHR ''/'' root @ ds)"
    using join_split [of "CHR ''/''" path] ds by simp
  then show "path_is_within path root"
    by (cases "ds = []") (auto simp: path_is_within_iff str_join_append join_split)
qed

lemma join_components_Some:
  "join_components ps cs = Some qs \<Longrightarrow> list_all component_ok ps \<Longrightarrow>
     (\<And>c. c \<in> set cs \<Longrightarrow> c \<noteq> '''' \<Longrightarrow> c \<noteq> ''.'' \<Longrightarrow> c \<noteq> ''..'' \<Longrightarrow> component_ok c) \<Longrightarrow> list_all component_ok qs"
proof (induction ps cs rule: join_components.induct)
  case (2 ps c cs)
  have "list_all component_ok (butlast ps)" using 2(5) by (auto simp: list_all_iff dest: in_set_butlastD)
  then show ?case using 2 by (auto split: if_splits)
qed simp

lemma parent_components_ok:
  assumes "canonical_path p \<or> p = ''.''"
  shows "list_all component_ok (parent_components p)"
proof (cases "rsplit_once CHR ''/'' p")
  case (Some ab)
  then obtain a b where ab: "ab = (a, b)" "p = a @ CHR ''/'' # b"
    by (cases ab) (auto simp: rsplit_once_Some)
  then have "canonical_path p" using assms by (auto simp: append_eq_Cons_conv Cons_eq_append_conv)
  then show ?thesis
    using Some ab by (simp add: parent_components_def canonical_path_def canonical_components_def split_char_append)
qed (simp add: parent_components_def)

lemma renormalize:
  assumes "normalize_repository_value v f ar mb = Inr w"
  shows "normalize_repository_value w f ar mb =
    (if trim w = [] then Inl (InvalidInput f ''must be a non-empty repository-relative value'')
     else if drive_prefixed w then Inl (PathOutsideRoot w) else Inr w)"
proof -
  have v: "length v \<le> mb" "v \<noteq> []"
    using assms by (auto simp: normalize_repository_value_def not_less trim_def trim_end_def split: if_splits)
  from normalize_repository_value_Inr [OF assms] show ?thesis
  proof
    assume "w = ''.'' \<and> ar"
    moreover have "1 \<le> mb" using v by (cases v) auto
    ultimately show ?thesis
      by (simp add: normalize_repository_value_def starts_with_def drive_prefixed_def split_char_def
          str_replace_char_def)
  next
    let ?ps = "split_char CHR ''/'' (str_replace_char (CHR 0x5C) CHR ''/'' v)"
    assume "\<exists>cs. canonical_components cs \<and> w = str_join ''/'' cs \<and> cs = filter (\<lambda>c. c \<noteq> '''' \<and> c \<noteq> ''.'') ?ps"
    then obtain cs where cs: "canonical_components cs" "w = str_join ''/'' cs"
      "cs = filter (\<lambda>c. c \<noteq> '''' \<and> c \<noteq> ''.'') ?ps" by blast
    have "length w \<le> length (str_join ''/'' ?ps)" unfolding cs(2,3) by (rule length_str_join_filter)
    also have "\<dots> = length v" by (simp add: join_split)
    finally have len: "length w \<le> mb" using v by simp
    have w: "canonical_path w" using canonical_path_join [OF cs(1)] cs(2) by simp
    note ch = canonical_path_chars [OF w]
    have bs: "\<not> starts_with w [CHR 0x5C]" using ch(2) by (auto simp: starts_with_iff)
    have sp: "split_char CHR ''/'' w = cs" using cs(1,2) canonical_split_join by simp
    have "normalize_components cs = Some cs"
      using cs(1) by (intro normalize_components_id) (auto simp: canonical_components_def list_all_iff component_ok_def)
    then show ?thesis
      using len ch bs sp cs(1,2)
      by (cases cs) (auto simp: normalize_repository_value_def replace_id canonical_components_def)
  qed
qed

text \<open>A glob engine without globs, for the examples below.\<close>

definition no_globs :: glob_lib where
  "no_globs = \<lparr>glob_new = (\<lambda>_. False), glob_error = id, globset_build = (\<lambda>_. True), globset_error = concat,
     globset_match = (\<lambda>_ _. False)\<rparr>"

section \<open>Properties\<close>

text \<open>C29: Normalizing a path or pattern keeps it inside the repository: the result is the root \<open>.\<close> (only
  where the root is allowed) or a slash-separated list of proper components, with no empty, \<open>.\<close>
  or \<open>..\<close> component, no backslash, no NUL and no leading slash, and it is never longer than the input.\<close>

theorem normalize_contained:
  assumes "normalize_repository_value v f ar mb = Inr w"
  shows "(w = ''.'' \<and> ar \<or> canonical_path w \<and> \<not> starts_with w ''/'') \<and> length w \<le> max 1 (length v) \<and> length v \<le> mb"
proof -
  have mb: "length v \<le> mb"
    using assms by (auto simp: normalize_repository_value_def not_less split: if_splits)
  from normalize_repository_value_Inr [OF assms] show ?thesis
  proof
    assume "w = ''.'' \<and> ar" then show ?thesis using mb by simp
  next
    let ?ps = "split_char CHR ''/'' (str_replace_char (CHR 0x5C) CHR ''/'' v)"
    assume "\<exists>cs. canonical_components cs \<and> w = str_join ''/'' cs \<and> cs = filter (\<lambda>c. c \<noteq> '''' \<and> c \<noteq> ''.'') ?ps"
    then obtain cs where cs: "canonical_components cs" "w = str_join ''/'' cs"
      "cs = filter (\<lambda>c. c \<noteq> '''' \<and> c \<noteq> ''.'') ?ps" by blast
    have "length w \<le> length (str_join ''/'' ?ps)" unfolding cs(2,3) by (rule length_str_join_filter)
    also have "\<dots> = length v" by (simp add: join_split)
    finally show ?thesis using mb cs canonical_path_join [OF cs(1)] canonical_path_chars(3) by auto
  qed
qed

theorem normalize_contained_witness:
  "(''src/lib.rs'' = ''.'' \<and> True \<or> canonical_path ''src/lib.rs'' \<and> \<not> starts_with ''src/lib.rs'' ''/'')
     \<and> length ''src/lib.rs'' \<le> max 1 (length ''./src//lib.rs'') \<and> length ''./src//lib.rs'' \<le> 4096"
proof -
  have "normalize_repository_value ''./src//lib.rs'' ''path'' True 4096 = Inr ''src/lib.rs''" by code_simp
  then show ?thesis by (rule normalize_contained)
qed

text \<open>C31: Normalizing a normalized value gives it back, with exactly two exceptions: a value that is left
  with a drive prefix (\<open>./C:/x\<close> becomes \<open>C:/x\<close>) and one that is left blank are then refused.\<close>

theorem normalize_again:
  assumes "normalize_repository_value v f ar mb = Inr w"
  shows "normalize_repository_value w f ar mb =
    (if trim w = [] then Inl (InvalidInput f ''must be a non-empty repository-relative value'')
     else if drive_prefixed w then Inl (PathOutsideRoot w) else Inr w)"
  by (rule renormalize [OF assms])

lemma drive_prefix_accepted:
  "normalize_repository_value ''./C:/x'' ''path'' True 4096 = Inr ''C:/x''"
  by code_simp

theorem normalize_again_witness:
  "normalize_repository_value ''./C:/x'' ''path'' True 4096 = Inr ''C:/x'' \<and>
   normalize_repository_value ''C:/x'' ''path'' True 4096 = Inl (PathOutsideRoot ''C:/x'')"
proof -
  have "trim ''C:/x'' \<noteq> []" "drive_prefixed ''C:/x''" by code_simp+
  then show ?thesis
    using normalize_again [OF drive_prefix_accepted] drive_prefix_accepted by simp
qed

text \<open>An import-relative join never leaves the repository: joining onto a canonical path gives an
  error or a canonical path whose components are those of the parent directory with every \<open>..\<close> of the
  relative part popping one of them.\<close>

theorem join_relative_contained:
  assumes "canonical_path p \<or> p = ''.''" "join_relative p r = Inr q"
  shows "canonical_path q \<and>
    join_components (parent_components p)
      (split_char CHR ''/'' (str_replace_char (CHR 0x5C) CHR ''/'' r)) = Some (split_char CHR ''/'' q)"
proof -
  let ?rs = "split_char CHR ''/'' (str_replace_char (CHR 0x5C) CHR ''/'' r)"
  have nul: "CHR 0x00 \<notin> set r" using assms(2) by (auto simp: join_relative_def split: if_splits)
  obtain cs where cs: "join_components (parent_components p) ?rs = Some cs" "cs \<noteq> []"
    "repository_path_parse (str_join ''/'' cs) = Inr q"
    using assms(2) by (auto simp: join_relative_def split: if_splits option.splits list.splits)
  have "list_all component_ok cs"
    using join_components_Some [OF cs(1) parent_components_ok [OF assms(1)]] replaced_components_ok [OF nul] by blast
  then have can: "canonical_components cs" using cs(2) by (simp add: canonical_components_def)
  let ?w = "str_join ''/'' cs"
  have cw: "canonical_path ?w" "split_char CHR ''/'' ?w = cs"
    using canonical_path_join [OF can] canonical_split_join [OF can] by auto
  have f: "filter (\<lambda>c. c \<noteq> '''' \<and> c \<noteq> ''.'') cs = cs"
    using can by (intro filter_True) (auto simp: canonical_components_def list_all_iff component_ok_def)
  have "q = ?w"
    using normalize_repository_value_Inr [OF cs(3) [unfolded repository_path_parse_def]]
  proof
    assume q: "q = ''.'' \<and> True"
    have "normalize_components cs = Some cs"
      using can by (intro normalize_components_id) (auto simp: canonical_components_def list_all_iff component_ok_def)
    then show ?thesis
      using cs(3) can canonical_path_chars(2) [OF cw(1)] cw(2)
      by (cases cs) (auto simp: repository_path_parse_def normalize_repository_value_def replace_id
          canonical_components_def split: if_splits)
  qed (use f canonical_path_chars(2) [OF cw(1)] cw(2) in \<open>auto simp: replace_id\<close>)
  then show ?thesis using cw cs(1) by simp
qed

theorem join_relative_contained_witness:
  "canonical_path ''src/shared.rs'' \<and>
   join_components (parent_components ''src/nested/module.rs'')
     (split_char CHR ''/'' (str_replace_char (CHR 0x5C) CHR ''/'' ''../shared.rs''))
     = Some (split_char CHR ''/'' ''src/shared.rs'')"
proof -
  have "canonical_path ''src/nested/module.rs''"
    "join_relative ''src/nested/module.rs'' ''../shared.rs'' = Inr ''src/shared.rs''" by code_simp+
  then show ?thesis using join_relative_contained by blast
qed

text \<open>A set of literal patterns matches exactly the paths whose components start with the
  components of one of the patterns: a directory covers its subtree and never a sibling that merely
  shares its name as a string prefix.\<close>

theorem literal_patterns_match_subtrees:
  assumes "pattern_set_new gl pats = Inr ps" "list_all (\<lambda>p. \<not> has_glob_meta p) pats"
    "list_all canonical_path pats" "list_all (\<lambda>p. \<not> drive_prefixed p \<and> trim p \<noteq> [] \<and> length p \<le> 4096) pats"
  shows "is_match gl ps path \<longleftrightarrow>
    (\<exists>p \<in> set pats. prefix (split_char CHR ''/'' p) (split_char CHR ''/'' path))"
proof -
  have parse: "repository_pattern_parse gl p = Inr p" if "p \<in> set pats" for p
  proof -
    have c: "canonical_path p" "\<not> drive_prefixed p" "trim p \<noteq> []" "length p \<le> 4096" "\<not> has_glob_meta p"
      using that assms(2-4) by (auto simp: list_all_iff)
    have "normalize_components (split_char CHR ''/'' p) = Some (split_char CHR ''/'' p)"
      using c(1) by (intro normalize_components_id)
        (auto simp: canonical_path_def canonical_components_def list_all_iff component_ok_def)
    moreover have "\<not> starts_with p [CHR 0x5C]" using canonical_path_chars(2) [OF c(1)] by (auto simp: starts_with_iff)
    moreover obtain x xs where "split_char CHR ''/'' p = x # xs" by (cases "split_char CHR ''/'' p") auto
    ultimately show ?thesis
      using c canonical_path_chars [OF c(1)] join_split [of "CHR ''/''" p]
      by (simp add: repository_pattern_parse_def normalize_repository_value_def replace_id
          max_repository_path_bytes_def not_less)
  qed
  then have "collect_results (map (repository_pattern_parse gl) xs) = Inr xs" if "set xs \<subseteq> set pats" for xs
    using that by (induction xs) auto
  then have "ps_literals ps = filter (\<lambda>p. \<not> has_glob_meta p) pats" "ps_globs ps = filter has_glob_meta pats"
    using assms(1) by (auto simp: pattern_set_new_def pattern_set_compile_def Let_def split: if_splits option.splits)
  then have "ps_literals ps = pats" "ps_globs ps = []"
    using assms(2) by (auto simp: list_all_iff filter_empty_conv)
  then show ?thesis by (auto simp: is_match_def list_ex_iff path_is_within_components)
qed

theorem literal_patterns_match_subtrees_witness:
  "is_match \<lparr>glob_new = (\<lambda>_. False), glob_error = id, globset_build = (\<lambda>_. True), globset_error = concat, globset_match = (\<lambda>_ _. False)\<rparr>
      \<lparr>ps_patterns = [''src''], ps_literals = [''src''], ps_globs = []\<rparr> ''srcs/a''
   \<longleftrightarrow> (\<exists>p \<in> set [''src'']. prefix (split_char CHR ''/'' p) (split_char CHR ''/'' ''srcs/a''))"
proof -
  have "pattern_set_new \<lparr>glob_new = (\<lambda>_. False), glob_error = id, globset_build = (\<lambda>_. True), globset_error = concat, globset_match = (\<lambda>_ _. False)\<rparr> [''src'']
      = Inr \<lparr>ps_patterns = [''src''], ps_literals = [''src''], ps_globs = []\<rparr>"
    "list_all (\<lambda>p. \<not> has_glob_meta p) [''src'']" "list_all canonical_path [''src'']"
    "list_all (\<lambda>p. \<not> drive_prefixed p \<and> trim p \<noteq> [] \<and> length p \<le> 4096) [''src'']"
    by code_simp+
  then show ?thesis by (rule literal_patterns_match_subtrees)
qed

end
