(* ===== verification/Rank_Required.thy ===== *)
theory Rank_Required
  imports Rank_Greedy Repo_Path
begin

text \<open>
  Context requests (\<open>src/model/context.rs\<close>), the selection policy (\<open>src/ranking/mod.rs\<close>) and the evidence
  a request requires (\<open>src/ranking/requirements.rs\<close>), which is selected before the greedy fill. The
  request fields that only other services read are left out of the record.
\<close>

section \<open>Requests and policy\<close>

record required_evidence =
  re_path :: string
  re_queries :: "string list"
  re_minimum_query_matches :: usize

record context_request =
  cr_task :: string
  cr_token_budget :: usize
  cr_include_paths :: "string list"
  cr_must_include_paths :: "string list"
  cr_must_include_symbols :: "string list"
  cr_required_evidence :: "required_evidence list"
  cr_max_fragments :: "usize option"
  cr_plan_only :: bool
  cr_focus_paths :: "string list"
  cr_strict_focus_paths :: bool
  cr_minimum_fragments_per_focus_path :: "usize option"
  cr_focus_symbols :: "string list"
  cr_exclude_paths :: "string list"
  cr_known_hashes :: "string list"
  cr_changed_paths :: "string list"
  cr_strict_changed_paths :: bool
  cr_explain_diagnostics :: bool

datatype focus_policy = Advisory | Minimum usize | Strict usize

definition focus_policy_parse :: "context_request \<Rightarrow> focus_policy" where
  "focus_policy_parse r =
     (case (cr_strict_focus_paths r, cr_minimum_fragments_per_focus_path r) of
        (True, minimum_fragments) \<Rightarrow> Strict (unwrap_or minimum_fragments 1)
      | (False, Some minimum_fragments) \<Rightarrow> Minimum minimum_fragments
      | (False, None) \<Rightarrow> Advisory)"

fun minimum_fragments :: "focus_policy \<Rightarrow> usize option" where
  "minimum_fragments Advisory = None"
| "minimum_fragments (Minimum n) = Some n"
| "minimum_fragments (Strict n) = Some n"

fun focus_is_strict :: "focus_policy \<Rightarrow> bool" where
  "focus_is_strict (Strict n) = True"
| "focus_is_strict _ = False"

datatype selection_output = Plan | Fragments

record selection_policy =
  sp_output :: selection_output
  sp_focus :: focus_policy

definition selection_policy_parse :: "context_request \<Rightarrow> selection_policy" where
  "selection_policy_parse r =
     \<lparr>sp_output = (if cr_plan_only r then Plan else Fragments), sp_focus = focus_policy_parse r\<rparr>"

definition is_plan :: "selection_policy \<Rightarrow> bool" where
  "is_plan p \<longleftrightarrow> sp_output p = Plan"

definition strict_focus :: "selection_policy \<Rightarrow> bool" where
  "strict_focus p = focus_is_strict (sp_focus p)"

definition focus_minimum :: "selection_policy \<Rightarrow> usize option" where
  "focus_minimum p = minimum_fragments (sp_focus p)"

section \<open>Requirement tests\<close>

definition required_path_matches :: "glob_lib \<Rightarrow> candidate \<Rightarrow> string \<Rightarrow> bool" where
  "required_path_matches gl c pattern =
     (case path_matches gl (cand_path c) pattern of Inl _ \<Rightarrow> False | Inr b \<Rightarrow> b)"

definition required_symbol_matches :: "candidate \<Rightarrow> string \<Rightarrow> bool" where
  "required_symbol_matches c symbol \<longleftrightarrow> cand_symbol_name c = Some symbol \<and> cand_target_range c \<noteq> None"

definition required_symbol_satisfied :: "candidate \<Rightarrow> string \<Rightarrow> bool" where
  "required_symbol_satisfied c symbol \<longleftrightarrow> required_symbol_matches c symbol \<and> \<not> target_truncated c"

definition apply_request_signals :: "glob_lib \<Rightarrow> context_request \<Rightarrow> pattern_set \<Rightarrow> candidate \<Rightarrow> candidate" where
  "apply_request_signals gl r focus_paths c =
     (let c1 = (if is_match gl focus_paths (cand_path c)
                then c\<lparr>cand_focus_boost := f64_add (cand_focus_boost c) f1\<rparr> else c)
      in case cand_symbol_name c1 of
           None \<Rightarrow> c1
         | Some name \<Rightarrow> if name \<in> set (cr_focus_symbols r)
             then c1\<lparr>cand_focus_boost := f64_add (cand_focus_boost c1) f1\<rparr> else c1)"

section \<open>Selecting required candidates\<close>

record required_state =
  rq_selected :: "scored list"
  rq_candidates :: "scored list"
  rq_used_tokens :: usize

text \<open>Move the candidate at a position into the selection.\<close>

definition rq_take :: "nat \<Rightarrow> required_state \<Rightarrow> required_state" where
  "rq_take i st =
     (let s = rq_candidates st ! i
      in \<lparr>rq_selected = rq_selected st @ [s], rq_candidates = remove_at i (rq_candidates st),
          rq_used_tokens = sat_add (rq_used_tokens st) (sc_token_count s)\<rparr>)"

definition rq_position :: "usize \<Rightarrow> (scored \<Rightarrow> bool) \<Rightarrow> required_state \<Rightarrow> nat option" where
  "rq_position budget wanted st =
     position (\<lambda>s. sc_token_count s \<le> budget - rq_used_tokens st \<and> wanted s) (rq_candidates st)"

text \<open>One evidence contract: keep selecting until enough of its queries are matched.\<close>

definition matched_now :: "nat \<Rightarrow> required_evidence \<Rightarrow> nat list \<Rightarrow> scored list \<Rightarrow> nat list" where
  "matched_now ri req matched ss =
     filter (\<lambda>q. q \<in> set matched \<or> list_ex (\<lambda>s. required_evidence_query (sc_candidate s) ri q) ss)
       [0..<length (re_queries req)]"

function evidence_loop ::
  "usize \<Rightarrow> usize \<Rightarrow> nat \<Rightarrow> required_evidence \<Rightarrow> nat list \<Rightarrow> required_state \<Rightarrow> required_state" where
  "evidence_loop budget maxf ri req matched st =
     (let m = matched_now ri req matched (rq_selected st)
      in if re_minimum_query_matches req \<le> length m \<or> length (rq_selected st) = maxf then st
         else case rq_position budget (\<lambda>s. list_ex (\<lambda>q. q \<notin> set m \<and> required_evidence_query (sc_candidate s) ri q)
                     [0..<length (re_queries req)]) st of
                None \<Rightarrow> st
              | Some i \<Rightarrow> evidence_loop budget maxf ri req m (rq_take i st))"
  by pat_completeness auto
termination
  by (relation "measure (\<lambda>(_, _, _, _, _, st). length (rq_candidates st))")
    (auto simp: rq_position_def rq_take_def Let_def dest!: position_Some)

declare evidence_loop.simps [simp del]

fun evidence_contracts ::
  "usize \<Rightarrow> usize \<Rightarrow> nat \<Rightarrow> required_evidence list \<Rightarrow> required_state \<Rightarrow> required_state" where
  "evidence_contracts budget maxf ri [] st = st"
| "evidence_contracts budget maxf ri (req # reqs) st =
     evidence_contracts budget maxf (Suc ri) reqs (evidence_loop budget maxf ri req [] st)"

text \<open>The loops over required paths and required symbols: skip what is satisfied or has no candidate, stop
  at the fragment cap.\<close>

fun require_each ::
  "usize \<Rightarrow> usize \<Rightarrow> (candidate \<Rightarrow> string \<Rightarrow> bool) \<Rightarrow> string list \<Rightarrow> required_state \<Rightarrow> required_state" where
  "require_each budget maxf wanted [] st = st"
| "require_each budget maxf wanted (item # items) st =
     (if list_ex (\<lambda>s. wanted (sc_candidate s) item) (rq_selected st) then require_each budget maxf wanted items st
      else case rq_position budget (\<lambda>s. wanted (sc_candidate s) item) st of
        None \<Rightarrow> require_each budget maxf wanted items st
      | Some i \<Rightarrow>
          if length (rq_selected st) = maxf then st
          else require_each budget maxf wanted items (rq_take i st))"

function focus_loop ::
  "usize \<Rightarrow> usize \<Rightarrow> (scored \<Rightarrow> bool) \<Rightarrow> usize \<Rightarrow> required_state \<Rightarrow> required_state" where
  "focus_loop budget maxf wanted minimum st =
     (if minimum \<le> length (filter wanted (rq_selected st)) \<or> length (rq_selected st) = maxf then st
      else case rq_position budget wanted st of
        None \<Rightarrow> st
      | Some i \<Rightarrow> focus_loop budget maxf wanted minimum (rq_take i st))"
  by pat_completeness auto
termination
  by (relation "measure (\<lambda>(_, _, _, _, st). length (rq_candidates st))")
    (auto simp: rq_position_def rq_take_def Let_def dest!: position_Some)

declare focus_loop.simps [simp del]

definition select_required_candidates ::
  "glob_lib \<Rightarrow> scored list \<Rightarrow> context_request \<Rightarrow> selection_policy \<Rightarrow> usize \<Rightarrow> usize \<Rightarrow> scored list \<times> scored list" where
  "select_required_candidates gl candidates r policy budget maxf =
     (let st0 = \<lparr>rq_selected = [], rq_candidates = candidates, rq_used_tokens = 0\<rparr>;
          st1 = evidence_contracts budget maxf 0 (cr_required_evidence r) st0;
          st2 = require_each budget maxf (required_path_matches gl) (cr_must_include_paths r) st1;
          st3 = require_each budget maxf required_symbol_matches (cr_must_include_symbols r) st2;
          st4 = (case focus_minimum policy of
                   None \<Rightarrow> st3
                 | Some minimum \<Rightarrow>
                     if 0 < minimum
                     then fold (\<lambda>pattern. focus_loop budget maxf
                                  (\<lambda>s. required_path_matches gl (sc_candidate s) pattern) minimum)
                            (cr_focus_paths r) st3
                     else st3)
      in (rq_selected st4, rq_candidates st4))"

section \<open>Invariant\<close>

definition required_inv :: "usize \<Rightarrow> usize \<Rightarrow> scored list \<Rightarrow> required_state \<Rightarrow> bool" where
  "required_inv budget maxf cs st \<longleftrightarrow>
     rq_used_tokens st = sum_list (map sc_token_count (rq_selected st)) \<and> rq_used_tokens st \<le> budget \<and>
     length (rq_selected st) \<le> maxf \<and> mset (rq_selected st) + mset (rq_candidates st) = mset cs"

text \<open>A step of the required selection is always: a candidate that fits the remaining budget, while the
  fragment cap is not reached.\<close>

lemma rq_take_inv:
  assumes "budget \<le> usize_max" "required_inv budget maxf cs st" "rq_position budget wanted st = Some i"
    "length (rq_selected st) \<noteq> maxf"
  shows "required_inv budget maxf cs (rq_take i st)"
proof -
  have p: "i < length (rq_candidates st)" "sc_token_count (rq_candidates st ! i) \<le> budget - rq_used_tokens st"
    using position_Some [OF assms(3) [unfolded rq_position_def]] by auto
  have "sat_add (rq_used_tokens st) (sc_token_count (rq_candidates st ! i)) =
      rq_used_tokens st + sc_token_count (rq_candidates st ! i)"
    using p(2) assms(1,2) by (intro sat_add_exact) (auto simp: required_inv_def)
  moreover have "mset (rq_selected st) + mset (rq_candidates st) =
      add_mset (rq_candidates st ! i) (mset (rq_selected st) + mset (remove_at i (rq_candidates st)))"
    unfolding mset_remove_at [OF p(1), symmetric] by simp
  ultimately show ?thesis
    using p assms(2,4) by (auto simp: required_inv_def rq_take_def Let_def)
qed

lemma evidence_loop_inv:
  "budget \<le> usize_max \<Longrightarrow> required_inv budget maxf cs st \<Longrightarrow>
     required_inv budget maxf cs (evidence_loop budget maxf ri req matched st)"
proof (induction budget maxf ri req matched st rule: evidence_loop.induct)
  case (1 budget maxf ri req matched st)
  then show ?case
    by (subst evidence_loop.simps) (auto simp: Let_def rq_take_inv split: option.splits)
qed

lemma evidence_contracts_inv:
  "budget \<le> usize_max \<Longrightarrow> required_inv budget maxf cs st \<Longrightarrow>
     required_inv budget maxf cs (evidence_contracts budget maxf ri reqs st)"
  by (induction reqs arbitrary: ri st) (auto simp: evidence_loop_inv)

lemma require_each_inv:
  "budget \<le> usize_max \<Longrightarrow> required_inv budget maxf cs st \<Longrightarrow>
     required_inv budget maxf cs (require_each budget maxf wanted items st)"
  by (induction items arbitrary: st) (auto simp: rq_take_inv split: option.splits)

lemma focus_loop_inv:
  "budget \<le> usize_max \<Longrightarrow> required_inv budget maxf cs st \<Longrightarrow>
     required_inv budget maxf cs (focus_loop budget maxf wanted minimum st)"
proof (induction budget maxf wanted minimum st rule: focus_loop.induct)
  case (1 budget maxf wanted minimum st)
  then show ?case
    by (subst focus_loop.simps) (auto simp: rq_take_inv split: option.splits)
qed

lemma focus_fold_inv:
  "budget \<le> usize_max \<Longrightarrow> required_inv budget maxf cs st \<Longrightarrow>
     required_inv budget maxf cs (fold (\<lambda>p. focus_loop budget maxf (wanted p) minimum) ps st)"
  by (induction ps arbitrary: st) (auto simp: focus_loop_inv)

lemma select_required_inv:
  assumes "budget \<le> usize_max"
  shows "\<exists>st. select_required_candidates gl cs r policy budget maxf = (rq_selected st, rq_candidates st) \<and>
    required_inv budget maxf cs st"
proof -
  have "required_inv budget maxf cs \<lparr>rq_selected = [], rq_candidates = cs, rq_used_tokens = 0\<rparr>"
    by (simp add: required_inv_def)
  then show ?thesis
    using assms unfolding select_required_candidates_def Let_def
    by (auto simp: evidence_contracts_inv require_each_inv focus_fold_inv split: option.splits intro!: exI)
qed

section \<open>Required items are served\<close>

text \<open>How the state may change from one loop to the next.\<close>

definition later :: "usize \<Rightarrow> required_state \<Rightarrow> required_state \<Rightarrow> bool" where
  "later maxf st st' \<longleftrightarrow>
     set (rq_selected st) \<subseteq> set (rq_selected st') \<and> set (rq_candidates st') \<subseteq> set (rq_candidates st) \<and>
     rq_used_tokens st \<le> rq_used_tokens st' \<and> (length (rq_selected st) = maxf \<longrightarrow> st' = st)"

lemma later_refl [simp]: "later maxf st st"
  by (simp add: later_def)

lemma later_trans: "later maxf a b \<Longrightarrow> later maxf b c \<Longrightarrow> later maxf a c"
  by (auto simp: later_def)

lemma later_take:
  assumes "budget \<le> usize_max" "required_inv budget maxf cs st" "rq_position budget wanted st = Some i"
    "length (rq_selected st) \<noteq> maxf"
  shows "later maxf st (rq_take i st)"
proof -
  have "required_inv budget maxf cs (rq_take i st)" by (rule rq_take_inv [OF assms])
  then have "rq_used_tokens st \<le> rq_used_tokens (rq_take i st)"
    using assms(2) by (auto simp: required_inv_def rq_take_def Let_def)
  then show ?thesis
    using assms(4) set_remove_at_subset [of i "rq_candidates st"] by (auto simp: later_def rq_take_def Let_def)
qed

definition served :: "usize \<Rightarrow> usize \<Rightarrow> (scored \<Rightarrow> bool) \<Rightarrow> required_state \<Rightarrow> bool" where
  "served budget maxf wanted st \<longleftrightarrow>
     list_ex wanted (rq_selected st) \<or> length (rq_selected st) = maxf \<or>
     list_all (\<lambda>s. wanted s \<longrightarrow> budget < rq_used_tokens st + sc_token_count s) (rq_candidates st)"

lemma served_later: "later maxf st st' \<Longrightarrow> served budget maxf wanted st \<Longrightarrow> served budget maxf wanted st'"
  unfolding served_def later_def list_ex_iff list_all_iff by (metis add_le_mono1 order_less_le_trans subsetD)

lemma served_position_None:
  "rq_used_tokens st \<le> budget \<Longrightarrow> rq_position budget wanted st = None \<Longrightarrow> served budget maxf wanted st"
  by (auto simp: rq_position_def position_None served_def list_all_iff not_le)

lemma require_each_later:
  "budget \<le> usize_max \<Longrightarrow> required_inv budget maxf cs st \<Longrightarrow> later maxf st (require_each budget maxf wanted items st)"
proof (induction items arbitrary: st)
  case (Cons item items)
  let ?pos = "rq_position budget (\<lambda>s. wanted (sc_candidate s) item) st"
  have "later maxf st (require_each budget maxf wanted items (rq_take i st))"
    if "?pos = Some i" "length (rq_selected st) \<noteq> maxf" for i
    using later_take [OF Cons.prems that] Cons.IH [OF Cons.prems(1) rq_take_inv [OF Cons.prems that]] later_trans
    by blast
  then show ?case using Cons.IH [OF Cons.prems] by (simp split: option.split)
qed simp

lemma require_each_served:
  "budget \<le> usize_max \<Longrightarrow> required_inv budget maxf cs st \<Longrightarrow> item \<in> set items \<Longrightarrow>
     served budget maxf (\<lambda>s. wanted (sc_candidate s) item) (require_each budget maxf wanted items st)"
proof (induction items arbitrary: st)
  case (Cons it items)
  let ?sv = "served budget maxf (\<lambda>s. wanted (sc_candidate s) item)"
  let ?req = "require_each budget maxf wanted items"
  let ?pos = "rq_position budget (\<lambda>s. wanted (sc_candidate s) it) st"
  note inv = Cons.prems(2)
  have cont: "?sv (?req st')" if "required_inv budget maxf cs st'" "item = it \<longrightarrow> ?sv st'" for st'
    using Cons.IH [OF Cons.prems(1) that(1)] Cons.prems(3) that(2)
      served_later [OF require_each_later [OF Cons.prems(1) that(1)]]
    by (cases "item = it") simp_all
  consider (sat) "list_ex (\<lambda>s. wanted (sc_candidate s) it) (rq_selected st)"
    | (none) "\<not> list_ex (\<lambda>s. wanted (sc_candidate s) it) (rq_selected st)" "?pos = None"
    | (full) i where "\<not> list_ex (\<lambda>s. wanted (sc_candidate s) it) (rq_selected st)" "?pos = Some i"
        "length (rq_selected st) = maxf"
    | (pick) i where "\<not> list_ex (\<lambda>s. wanted (sc_candidate s) it) (rq_selected st)" "?pos = Some i"
        "length (rq_selected st) \<noteq> maxf"
    by (cases ?pos) auto
  then show ?case
  proof cases
    case sat
    then show ?thesis using cont [OF inv] by (simp add: served_def)
  next
    case none
    then show ?thesis using cont [OF inv] inv served_position_None by (simp add: required_inv_def)
  next
    case full
    then show ?thesis by (simp add: served_def)
  next
    case pick
    have "wanted (sc_candidate (rq_candidates st ! i)) it"
      using position_Some [OF pick(2) [unfolded rq_position_def]] by simp
    then have "item = it \<longrightarrow> ?sv (rq_take i st)" by (simp add: served_def rq_take_def Let_def)
    then show ?thesis using cont [OF rq_take_inv [OF Cons.prems(1) inv pick(2,3)]] pick by simp
  qed
qed simp

lemma focus_loop_later:
  "budget \<le> usize_max \<Longrightarrow> required_inv budget maxf cs st \<Longrightarrow> later maxf st (focus_loop budget maxf wanted minimum st)"
proof (induction budget maxf wanted minimum st rule: focus_loop.induct)
  case (1 budget maxf wanted minimum st)
  then show ?case
    using later_take [OF 1(2,3)] rq_take_inv [OF 1(2,3)] later_trans
    by (subst focus_loop.simps) (fastforce split: option.splits)
qed

lemma focus_fold_later:
  "budget \<le> usize_max \<Longrightarrow> required_inv budget maxf cs st \<Longrightarrow>
     later maxf st (fold (\<lambda>p. focus_loop budget maxf (wanted p) minimum) ps st)"
proof (induction ps arbitrary: st)
  case (Cons p ps)
  have "later maxf st (focus_loop budget maxf (wanted p) minimum st)"
    "later maxf (focus_loop budget maxf (wanted p) minimum st)
       (fold (\<lambda>p. focus_loop budget maxf (wanted p) minimum) ps (focus_loop budget maxf (wanted p) minimum st))"
    using Cons focus_loop_later focus_loop_inv by blast+
  then show ?case using later_trans by auto
qed simp

definition sample_request :: context_request where
  "sample_request =
     \<lparr>cr_task = ''fix parser'', cr_token_budget = 1200, cr_include_paths = [], cr_must_include_paths = [''src''],
      cr_must_include_symbols = [''parse''], cr_required_evidence = [], cr_max_fragments = Some 2,
      cr_plan_only = False, cr_focus_paths = [], cr_strict_focus_paths = False,
      cr_minimum_fragments_per_focus_path = None, cr_focus_symbols = [], cr_exclude_paths = [''target''],
      cr_known_hashes = [], cr_changed_paths = [], cr_strict_changed_paths = False,
      cr_explain_diagnostics = False\<rparr>"

section \<open>Properties\<close>

text \<open>C6: Every required path and every required symbol is served whenever it can be: after the required
  selection, for each pattern of \<open>must_include_paths\<close> and for each symbol of \<open>must_include_symbols\<close> (either
  list may be empty), either a selected candidate satisfies it, or the fragment cap is reached, or every remaining candidate
  that would satisfy it is too large for the remaining budget.\<close>

theorem required_items_served:
  assumes "budget \<le> usize_max" "select_required_candidates gl cs r policy budget maxf = (sel, rest)"
  shows "(\<forall>pattern \<in> set (cr_must_include_paths r). served budget maxf (\<lambda>s. required_path_matches gl (sc_candidate s) pattern)
      \<lparr>rq_selected = sel, rq_candidates = rest, rq_used_tokens = sum_list (map sc_token_count sel)\<rparr>) \<and>
    (\<forall>symbol \<in> set (cr_must_include_symbols r). served budget maxf (\<lambda>s. required_symbol_matches (sc_candidate s) symbol)
      \<lparr>rq_selected = sel, rq_candidates = rest, rq_used_tokens = sum_list (map sc_token_count sel)\<rparr>)"
proof -
  let ?inv = "required_inv budget maxf cs"
  define st1 where "st1 = evidence_contracts budget maxf 0 (cr_required_evidence r)
      \<lparr>rq_selected = [], rq_candidates = cs, rq_used_tokens = 0\<rparr>"
  define st2 where "st2 = require_each budget maxf (required_path_matches gl) (cr_must_include_paths r) st1"
  define st3 where "st3 = require_each budget maxf required_symbol_matches (cr_must_include_symbols r) st2"
  define st4 where "st4 = (case focus_minimum policy of None \<Rightarrow> st3
      | Some minimum \<Rightarrow> if 0 < minimum
          then fold (\<lambda>pattern. focus_loop budget maxf (\<lambda>s. required_path_matches gl (sc_candidate s) pattern) minimum)
                 (cr_focus_paths r) st3 else st3)"
  have "?inv \<lparr>rq_selected = [], rq_candidates = cs, rq_used_tokens = 0\<rparr>" by (simp add: required_inv_def)
  then have i1: "?inv st1" unfolding st1_def by (rule evidence_contracts_inv [OF assms(1)])
  then have i2: "?inv st2" unfolding st2_def by (rule require_each_inv [OF assms(1)])
  then have i3: "?inv st3" unfolding st3_def by (rule require_each_inv [OF assms(1)])
  have i4: "?inv st4" and l4: "later maxf st3 st4"
    unfolding st4_def using i3 assms(1) by (auto simp: focus_fold_inv focus_fold_later split: option.splits)
  have l3: "later maxf st2 st3" unfolding st3_def by (rule require_each_later [OF assms(1) i2])
  have "(sel, rest) = (rq_selected st4, rq_candidates st4)"
    using assms(2) unfolding select_required_candidates_def Let_def st1_def st2_def st3_def st4_def by simp
  then have st4: "\<lparr>rq_selected = sel, rq_candidates = rest, rq_used_tokens = sum_list (map sc_token_count sel)\<rparr> = st4"
    using i4 by (cases st4) (simp add: required_inv_def)
  have "served budget maxf (\<lambda>s. required_path_matches gl (sc_candidate s) pattern) st4"
    if "pattern \<in> set (cr_must_include_paths r)" for pattern
    using require_each_served [OF assms(1) i1 that, of "required_path_matches gl", folded st2_def]
      served_later later_trans [OF l3 l4] by blast
  moreover have "served budget maxf (\<lambda>s. required_symbol_matches (sc_candidate s) symbol) st4"
    if "symbol \<in> set (cr_must_include_symbols r)" for symbol
    using require_each_served [OF assms(1) i2 that, of required_symbol_matches, folded st3_def] served_later l4 by blast
  ultimately show ?thesis unfolding st4 by blast
qed

text \<open>A request with a required path and no required symbol.\<close>

theorem required_items_served_witness:
  "case select_required_candidates no_globs [sample_scored ''src/a.rs'' 1 9 []] (sample_request\<lparr>cr_must_include_symbols := []\<rparr>)
      (selection_policy_parse sample_request) 1200 2 of (sel, rest) \<Rightarrow>
     served 1200 2 (\<lambda>s. required_path_matches no_globs (sc_candidate s) ''src'')
       \<lparr>rq_selected = sel, rq_candidates = rest, rq_used_tokens = sum_list (map sc_token_count sel)\<rparr>"
proof -
  obtain sel rest where "select_required_candidates no_globs [sample_scored ''src/a.rs'' 1 9 []]
      (sample_request\<lparr>cr_must_include_symbols := []\<rparr>) (selection_policy_parse sample_request) 1200 2 = (sel, rest)" by fastforce
  moreover from this have "served 1200 2 (\<lambda>s. required_path_matches no_globs (sc_candidate s) ''src'')
       \<lparr>rq_selected = sel, rq_candidates = rest, rq_used_tokens = sum_list (map sc_token_count sel)\<rparr>"
    using required_items_served [of 1200 no_globs "[sample_scored ''src/a.rs'' 1 9 []]"
        "sample_request\<lparr>cr_must_include_symbols := []\<rparr>" "selection_policy_parse sample_request" 2 sel rest]
    by (simp add: usize_max_def sample_request_def)
  ultimately show ?thesis by simp
qed

end
