(* ===== verification/Rank_Dedup.thy ===== *)
theory Rank_Dedup
  imports Rank_Metadata
begin

text \<open>
  Deduplication of ranked candidates (\<open>src/ranking/dedup.rs\<close>): content-identical fragments of a file
  and fragments that overlap by at least half of the shorter one are merged into the higher-ranked copy.
  The two hash maps are functions from keys to indices into the kept list.
\<close>

section \<open>Merging\<close>

fun push_missing :: "string list \<Rightarrow> string list \<Rightarrow> string list" where
  "push_missing xs [] = xs"
| "push_missing xs (y # ys) = push_missing (if y \<in> set xs then xs else xs @ [y]) ys"

definition merge_candidate_signals :: "candidate \<Rightarrow> candidate \<Rightarrow> candidate" where
  "merge_candidate_signals e d =
     (let e1 = e\<lparr>cand_match_kinds := push_missing (cand_match_kinds e) (cand_match_kinds d),
                 cand_concepts := push_missing (cand_concepts e) (cand_concepts d),
                 cand_concept_weight := f64_max (cand_concept_weight e) (cand_concept_weight d)\<rparr>;
          e2 = (if cand_target_range e = None \<and> cand_target_range d \<noteq> None
                then e1\<lparr>cand_symbol_name := cand_symbol_name d, cand_target_range := cand_target_range d,
                        cand_representation := cand_representation d\<rparr>
                else if cand_symbol_name e = None then e1\<lparr>cand_symbol_name := cand_symbol_name d\<rparr>
                else e1)
      in e2\<lparr>cand_exact := f64_max (cand_exact e) (cand_exact d),
            cand_symbol := f64_max (cand_symbol e) (cand_symbol d),
            cand_reference := f64_max (cand_reference e) (cand_reference d),
            cand_bm25 := f64_max (cand_bm25 e) (cand_bm25 d),
            cand_path_score := f64_max (cand_path_score e) (cand_path_score d),
            cand_lexical_frequency_penalty :=
              f64_min (cand_lexical_frequency_penalty e) (cand_lexical_frequency_penalty d),
            cand_size_score := f64_max (cand_size_score e) (cand_size_score d),
            cand_focus_boost := f64_max (cand_focus_boost e) (cand_focus_boost d),
            cand_import_boost := f64_max (cand_import_boost e) (cand_import_boost d),
            cand_change_boost := f64_max (cand_change_boost e) (cand_change_boost d)\<rparr>)"

definition merge_scored_candidate :: "weights \<Rightarrow> scored \<Rightarrow> scored \<Rightarrow> scored" where
  "merge_scored_candidate w existing duplicate =
     (let c = merge_candidate_signals (sc_candidate existing) (sc_candidate duplicate);
          s = score c w (sc_token_count existing)
      in existing\<lparr>sc_candidate := c, sc_score := s,
                  sc_marginal_score := f64_div s (bounded_count_f64 (sc_token_count existing))\<rparr>)"

section \<open>Overlap\<close>

definition overlapping_provenance_is_compatible :: "candidate \<Rightarrow> candidate \<Rightarrow> bool" where
  "overlapping_provenance_is_compatible retained secondary \<longleftrightarrow>
     list_all (\<lambda>kind. kind \<in> set (cand_match_kinds retained))
       (filter (\<lambda>kind. starts_with kind REQUIRED_EVIDENCE_PREFIX) (cand_match_kinds secondary))"

definition overlap_duplicate :: "candidate \<Rightarrow> candidate \<Rightarrow> bool" where
  "overlap_duplicate c e =
     (if cand_end_line c < cand_start_line e \<or> cand_end_line e < cand_start_line c then False
      else
        let overlap_start = max (cand_start_line c) (cand_start_line e);
            overlap_end = min (cand_end_line c) (cand_end_line e);
            overlap_lines = wrapping_add (wrapping_sub overlap_end overlap_start) 1;
            min_lines = min (line_count c) (line_count e)
        in div_ceil min_lines 2 \<le> overlap_lines \<and> overlapping_provenance_is_compatible e c)"

section \<open>The pass\<close>

definition dedup_cmp :: "scored cmp" where
  "dedup_cmp a b =
     (let o0 = f64_total_cmp (cand_exact (sc_candidate b)) (cand_exact (sc_candidate a)) in
      if o0 \<noteq> Equal then o0
      else let o1 = f64_total_cmp (sc_score b) (sc_score a) in
      if o1 \<noteq> Equal then o1
      else let o2 = ord_cmp (sc_path a) (sc_path b) in
        if o2 \<noteq> Equal then o2 else ord_cmp (sc_start a) (sc_start b))"

record dedup_state =
  ds_kept :: "scored list"
  ds_seen_hashes :: "string \<times> string \<Rightarrow> nat option"
  ds_kept_by_path :: "string \<Rightarrow> nat list"

definition dedup_init :: dedup_state where
  "dedup_init = \<lparr>ds_kept = [], ds_seen_hashes = Map.empty, ds_kept_by_path = (\<lambda>_. [])\<rparr>"

definition dedup_duplicate_of :: "dedup_state \<Rightarrow> scored \<Rightarrow> nat option" where
  "dedup_duplicate_of st x =
     (case ds_seen_hashes st (sc_path x, sc_content_hash x) of
        Some i \<Rightarrow> Some i
      | None \<Rightarrow> find (\<lambda>i. overlap_duplicate (sc_candidate x) (sc_candidate (ds_kept st ! i))) (ds_kept_by_path st (sc_path x)))"

definition dedup_step :: "weights \<Rightarrow> scored \<Rightarrow> dedup_state \<Rightarrow> dedup_state" where
  "dedup_step w x st =
     (case dedup_duplicate_of st x of
        Some i \<Rightarrow> st\<lparr>ds_kept := (ds_kept st)[i := merge_scored_candidate w (ds_kept st ! i) x]\<rparr>
      | None \<Rightarrow>
          let i = length (ds_kept st) in
          \<lparr>ds_kept = ds_kept st @ [x],
           ds_seen_hashes = (ds_seen_hashes st)((sc_path x, sc_content_hash x) \<mapsto> i),
           ds_kept_by_path = (ds_kept_by_path st)(sc_path x := ds_kept_by_path st (sc_path x) @ [i])\<rparr>)"

definition dedup_final_cmp :: "scored cmp" where
  "dedup_final_cmp a b =
     then_with (then_with (f64_total_cmp (sc_score b) (sc_score a)) (ord_cmp (sc_path a) (sc_path b)))
       (ord_cmp (sc_start a) (sc_start b))"

definition deduplicate_with_options :: "scored list \<Rightarrow> weights \<Rightarrow> scored list" where
  "deduplicate_with_options candidates w =
     sort_by dedup_final_cmp (ds_kept (fold (dedup_step w) (sort_by dedup_cmp candidates) dedup_init))"

definition deduplicate :: "scored list \<Rightarrow> scored list" where
  "deduplicate candidates = deduplicate_with_options candidates weights_default"

lemma dedup_cmp_lex:
  "dedup_cmp = lex_cmp (rev_cmp (key_cmp (f64_total_key \<circ> cand_exact \<circ> sc_candidate))) rank_cmp"
  by (rule ext)+ (simp add: dedup_cmp_def rank_cmp_def then_with_if lex_cmp_def rev_cmp_def key_cmp_def
      f64_total_cmp_def Let_def del: ord_cmp_simps)

interpretation dedup_order: comparator_laws dedup_cmp
  unfolding dedup_cmp_lex
  by (intro comparator_lex_cmp comparator_rev_cmp comparator_key_cmp rank_order.comparator_laws_axioms)

lemma dedup_final_cmp_rank: "dedup_final_cmp = rank_cmp"
  by (rule ext)+ (simp add: dedup_final_cmp_def rank_cmp_def then_with_if Let_def del: ord_cmp_simps)

section \<open>What merging keeps\<close>

text \<open>The part of a scored candidate that merging never changes.\<close>

definition identity :: "scored \<Rightarrow> string \<times> usize \<times> usize \<times> string \<times> usize \<times> string" where
  "identity s = (sc_path s, sc_start s, cand_end_line (sc_candidate s), cand_content (sc_candidate s),
     sc_token_count s, sc_content_hash s)"

definition absorbs :: "scored \<Rightarrow> scored \<Rightarrow> bool" where
  "absorbs y x \<longleftrightarrow> sc_path y = sc_path x
     \<and> set (cand_match_kinds (sc_candidate x)) \<subseteq> set (cand_match_kinds (sc_candidate y))
     \<and> set (cand_concepts (sc_candidate x)) \<subseteq> set (cand_concepts (sc_candidate y))"

lemma set_push_missing [simp]: "set (push_missing xs ys) = set xs \<union> set ys"
  by (induction ys arbitrary: xs) auto

lemma merge_signals_fields [simp]:
  "cand_path (merge_candidate_signals e d) = cand_path e"
  "cand_start_line (merge_candidate_signals e d) = cand_start_line e"
  "cand_end_line (merge_candidate_signals e d) = cand_end_line e"
  "cand_content (merge_candidate_signals e d) = cand_content e"
  "set (cand_match_kinds (merge_candidate_signals e d)) = set (cand_match_kinds e) \<union> set (cand_match_kinds d)"
  "set (cand_concepts (merge_candidate_signals e d)) = set (cand_concepts e) \<union> set (cand_concepts d)"
  by (simp_all add: merge_candidate_signals_def Let_def)

lemma merge_scored_candidate_simps [simp]:
  "sc_candidate (merge_scored_candidate w e d) = merge_candidate_signals (sc_candidate e) (sc_candidate d)"
  "sc_content_hash (merge_scored_candidate w e d) = sc_content_hash e"
  "sc_token_count (merge_scored_candidate w e d) = sc_token_count e"
  by (simp_all add: merge_scored_candidate_def Let_def)

lemma identity_merge [simp]: "identity (merge_scored_candidate w e d) = identity e"
  by (simp add: identity_def)

lemma map_identity_update:
  "i < length xs \<Longrightarrow> identity y = identity (xs ! i) \<Longrightarrow> map identity (xs[i := y]) = map identity xs"
  by (simp add: map_update) (metis list_update_id nth_map)

lemma absorbs_refl [simp]: "absorbs x x"
  by (simp add: absorbs_def)

lemma absorbs_merge:
  "sc_path e = sc_path d \<Longrightarrow> absorbs (merge_scored_candidate w e d) d"
  "absorbs e x \<Longrightarrow> absorbs (merge_scored_candidate w e d) x"
  by (auto simp: absorbs_def)

section \<open>The invariant of the pass\<close>

definition dedup_inv :: "scored set \<Rightarrow> dedup_state \<Rightarrow> bool" where
  "dedup_inv P st \<longleftrightarrow>
     (\<forall>p h i. ds_seen_hashes st (p, h) = Some i \<longleftrightarrow>
        i < length (ds_kept st) \<and> sc_path (ds_kept st ! i) = p \<and> sc_content_hash (ds_kept st ! i) = h) \<and>
     (\<forall>p. set (ds_kept_by_path st p) = {i. i < length (ds_kept st) \<and> sc_path (ds_kept st ! i) = p}) \<and>
     (\<forall>x \<in> P. \<exists>y \<in> set (ds_kept st). absorbs y x) \<and>
     (\<forall>y \<in> set (ds_kept st). identity y \<in> identity ` P)"

lemma dedup_inv_init: "dedup_inv {} dedup_init"
  by (simp add: dedup_inv_def dedup_init_def)

lemma dedup_duplicate_of_Some:
  assumes "dedup_inv P st" "dedup_duplicate_of st x = Some i"
  shows "i < length (ds_kept st) \<and> sc_path (ds_kept st ! i) = sc_path x"
  using assms unfolding dedup_inv_def dedup_duplicate_of_def
  by (auto split: option.splits simp: find_Some_iff) (metis (mono_tags, lifting) mem_Collect_eq nth_mem)+

lemma identity_fields:
  "identity a = identity b \<Longrightarrow> sc_path a = sc_path b \<and> sc_content_hash a = sc_content_hash b"
  by (simp add: identity_def)

lemma dedup_step_inv:
  assumes "dedup_inv P st"
  shows "dedup_inv (insert x P) (dedup_step w x st)"
proof (cases "dedup_duplicate_of st x")
  case None
  then have seen: "ds_seen_hashes st (sc_path x, sc_content_hash x) = None"
    by (auto simp: dedup_duplicate_of_def split: option.splits)
  have fresh: "\<not> (i < length (ds_kept st) \<and> sc_path (ds_kept st ! i) = sc_path x \<and>
      sc_content_hash (ds_kept st ! i) = sc_content_hash x)" for i
    using assms seen unfolding dedup_inv_def by (metis option.distinct(1))
  show ?thesis
    using assms None seen fresh
    unfolding dedup_inv_def dedup_step_def Let_def
    by (auto simp: nth_append less_Suc_eq)
next
  case (Some i)
  have i: "i < length (ds_kept st)" "sc_path (ds_kept st ! i) = sc_path x"
    using dedup_duplicate_of_Some [OF assms Some] by auto
  let ?m = "merge_scored_candidate w (ds_kept st ! i) x"
  let ?k = "(ds_kept st)[i := ?m]"
  have keep: "\<And>j. j < length (ds_kept st) \<Longrightarrow> identity (?k ! j) = identity (ds_kept st ! j)"
    using i by (auto simp: nth_list_update)
  have st: "dedup_step w x st = st\<lparr>ds_kept := ?k\<rparr>" using Some by (simp add: dedup_step_def)
  have fields: "\<And>j. j < length (ds_kept st) \<Longrightarrow> sc_path (?k ! j) = sc_path (ds_kept st ! j) \<and>
      sc_content_hash (?k ! j) = sc_content_hash (ds_kept st ! j)"
    using keep identity_fields by blast
  have ab: "\<exists>y \<in> set ?k. absorbs y z" if "z \<in> insert x P" for z
  proof (cases "z = x")
    case True
    then show ?thesis using i absorbs_merge(1) by (auto intro!: bexI [of _ ?m] simp: set_update_memI)
  next
    case False
    then have "z \<in> P" using that by simp
    then obtain y where y: "y \<in> set (ds_kept st)" "absorbs y z"
      using assms unfolding dedup_inv_def by blast
    then obtain j where j: "j < length (ds_kept st)" "ds_kept st ! j = y" by (auto simp: in_set_conv_nth)
    then have "absorbs (?k ! j) z" using y i absorbs_merge(2) by (auto simp: nth_list_update)
    then show ?thesis using j by (auto intro!: bexI [of _ "?k ! j"])
  qed
  have idn: "identity y \<in> identity ` insert x P" if "y \<in> set ?k" for y
  proof -
    obtain j where "j < length (ds_kept st)" "?k ! j = y" using \<open>y \<in> set ?k\<close> by (auto simp: in_set_conv_nth)
    then have "identity y = identity (ds_kept st ! j)" "ds_kept st ! j \<in> set (ds_kept st)" using keep by auto
    then show ?thesis using assms by (auto simp: dedup_inv_def)
  qed
  show ?thesis
    using assms ab idn fields unfolding st dedup_inv_def by auto
qed

lemma dedup_fold_inv: "dedup_inv P st \<Longrightarrow> dedup_inv (P \<union> set xs) (fold (dedup_step w) xs st)"
proof (induction xs arbitrary: P st)
  case (Cons x xs)
  have "dedup_inv (insert x P \<union> set xs) (fold (dedup_step w) xs (dedup_step w x st))"
    using Cons dedup_step_inv by blast
  then show ?case by simp
qed simp

lemma deduplicate_inv:
  "dedup_inv (set cs) (fold (dedup_step w) (sort_by dedup_cmp cs) dedup_init)"
  using dedup_fold_inv [OF dedup_inv_init, of "sort_by dedup_cmp cs" w] by simp

section \<open>Overlap between kept fragments\<close>

definition majority_overlap :: "scored \<Rightarrow> scored \<Rightarrow> bool" where
  "majority_overlap a b \<longleftrightarrow> sc_path a = sc_path b \<and>
     cand_start_line (sc_candidate b) \<le> cand_end_line (sc_candidate a) \<and>
     cand_start_line (sc_candidate a) \<le> cand_end_line (sc_candidate b) \<and>
     min (line_count (sc_candidate a)) (line_count (sc_candidate b)) \<le>
       2 * (min (cand_end_line (sc_candidate a)) (cand_end_line (sc_candidate b)) + 1
            - max (cand_start_line (sc_candidate a)) (cand_start_line (sc_candidate b)))"

definition proper_range :: "scored \<Rightarrow> bool" where
  "proper_range s \<longleftrightarrow> sc_start s \<le> cand_end_line (sc_candidate s) \<and> cand_end_line (sc_candidate s) < usize_max"

definition unmarked :: "scored \<Rightarrow> bool" where
  "unmarked s \<longleftrightarrow> list_all (\<lambda>kind. \<not> starts_with kind REQUIRED_EVIDENCE_PREFIX) (cand_match_kinds (sc_candidate s))"

lemma majority_overlap_sym: "majority_overlap a b \<Longrightarrow> majority_overlap b a"
  by (auto simp: majority_overlap_def min.commute max.commute)

lemma majority_overlap_identity:
  "identity a = identity a' \<Longrightarrow> identity b = identity b' \<Longrightarrow> majority_overlap a b \<longleftrightarrow> majority_overlap a' b'"
  by (simp add: identity_def majority_overlap_def line_count_def)

lemma line_count_identity: "identity a = identity a' \<Longrightarrow> proper_range a \<longleftrightarrow> proper_range a'"
  by (simp add: identity_def proper_range_def)

lemma overlap_duplicate_majority:
  assumes "proper_range x" "proper_range y" "unmarked x" "sc_path x = sc_path y"
  shows "overlap_duplicate (sc_candidate x) (sc_candidate y) \<longleftrightarrow> majority_overlap x y"
proof -
  let ?s = "max (cand_start_line (sc_candidate x)) (cand_start_line (sc_candidate y))"
  let ?e = "min (cand_end_line (sc_candidate x)) (cand_end_line (sc_candidate y))"
  have compat: "overlapping_provenance_is_compatible (sc_candidate y) (sc_candidate x)"
    using assms(3) by (auto simp: overlapping_provenance_is_compatible_def unmarked_def list_all_iff)
  have w: "wrapping_add (wrapping_sub ?e ?s) 1 = ?e + 1 - ?s" if "?s \<le> ?e"
    using that assms(1,2) by (auto simp: wrapping_add_def wrapping_sub_def proper_range_def usize_max_def)
  have d: "div_ceil m 2 \<le> k \<longleftrightarrow> m \<le> 2 * k" for m k by (auto simp: div_ceil_two)
  show ?thesis
  proof (cases "?s \<le> ?e")
    case True
    then show ?thesis
      using assms compat w
      by (simp add: overlap_duplicate_def majority_overlap_def Let_def d not_less)
  next
    case False
    then show ?thesis using assms by (auto simp: overlap_duplicate_def majority_overlap_def proper_range_def)
  qed
qed

definition separated :: "scored list \<Rightarrow> bool" where
  "separated ys \<longleftrightarrow> sorted_wrt (\<lambda>a b. \<not> majority_overlap a b) ys"

lemma separated_perm:
  assumes "mset xs = mset ys" "separated xs"
  shows "separated ys"
  using assms
proof (induction xs arbitrary: ys)
  case (Cons x xs)
  have "x \<in> set ys" using Cons.prems(1) by (metis list.set_intros(1) mset_eq_setD)
  then obtain as bs where ys: "ys = as @ x # bs" by (meson split_list)
  then have m: "mset xs = mset (as @ bs)" using Cons.prems(1) by simp
  have x: "\<not> majority_overlap x z" if "z \<in> set xs" for z
    using Cons.prems(2) that by (simp add: separated_def)
  have "separated (as @ bs)" using Cons.IH [OF m] Cons.prems(2) by (simp add: separated_def)
  moreover have "set xs = set as \<union> set bs" using m by (metis mset_eq_setD set_append)
  ultimately show ?case
    using x majority_overlap_sym unfolding ys by (auto simp: separated_def sorted_wrt_append)
qed simp

lemma separated_identity:
  "map identity xs = map identity ys \<Longrightarrow> separated xs \<Longrightarrow> separated ys"
proof (induction xs arbitrary: ys)
  case (Cons x xs)
  obtain y zs where ys: "ys = y # zs" "identity x = identity y" "map identity xs = map identity zs"
    using Cons.prems(1) by (cases ys) auto
  have "\<not> majority_overlap y z" if z: "z \<in> set zs" for z
  proof -
    have "identity z \<in> set (map identity xs)" using z by (simp add: ys(3))
    then obtain z' where "z' \<in> set xs" "identity z' = identity z" unfolding set_map by (metis imageE)
    moreover have "\<not> majority_overlap x z'" using Cons.prems(2) \<open>z' \<in> set xs\<close> by (simp add: separated_def)
    ultimately show ?thesis using majority_overlap_identity [OF ys(2), of z' z] by simp
  qed
  moreover have "separated zs" using Cons.IH [OF ys(3)] Cons.prems(2) by (simp add: separated_def)
  ultimately show ?case unfolding ys(1) by (simp add: separated_def)
qed simp

lemma dedup_step_separated:
  assumes "dedup_inv P st" "separated (ds_kept st)" "\<forall>z \<in> insert x P. proper_range z" "unmarked x"
  shows "separated (ds_kept (dedup_step w x st))"
proof (cases "dedup_duplicate_of st x")
  case (Some i)
  have i: "i < length (ds_kept st)" using dedup_duplicate_of_Some [OF assms(1) Some] by simp
  have "map identity (ds_kept st) = map identity (ds_kept (dedup_step w x st))"
    using Some i map_identity_update [of i "ds_kept st" "merge_scored_candidate w (ds_kept st ! i) x"]
    by (simp add: dedup_step_def)
  then show ?thesis using separated_identity assms(2) by blast
next
  case None
  have "\<not> majority_overlap y x" if y: "y \<in> set (ds_kept st)" for y
  proof
    assume o: "majority_overlap y x"
    then have p: "sc_path y = sc_path x" by (simp add: majority_overlap_def)
    obtain i where i: "i < length (ds_kept st)" "ds_kept st ! i = y" using y by (auto simp: in_set_conv_nth)
    then have "i \<in> set (ds_kept_by_path st (sc_path x))" using assms(1) p by (simp add: dedup_inv_def)
    then have "\<not> overlap_duplicate (sc_candidate x) (sc_candidate y)"
      using None i by (auto simp: dedup_duplicate_of_def find_None_iff split: option.splits)
    moreover have "identity y \<in> identity ` P" using assms(1) y unfolding dedup_inv_def by blast
    then obtain z where "z \<in> P" "identity y = identity z" by blast
    then have "proper_range y" "proper_range x" using assms(3) line_count_identity [of y z] by auto
    ultimately show False
      using overlap_duplicate_majority [of x y] assms(4) p majority_overlap_sym [OF o] by simp
  qed
  then show ?thesis using None assms(2) by (simp add: dedup_step_def Let_def separated_def sorted_wrt_append)
qed

lemma dedup_fold_separated:
  "dedup_inv P st \<Longrightarrow> separated (ds_kept st) \<Longrightarrow> \<forall>z \<in> set xs \<union> P. proper_range z \<Longrightarrow> \<forall>z \<in> set xs. unmarked z \<Longrightarrow>
     separated (ds_kept (fold (dedup_step w) xs st))"
proof (induction xs arbitrary: P st)
  case (Cons x xs)
  have "separated (ds_kept (fold (dedup_step w) xs (dedup_step w x st)))"
    using Cons.prems by (intro Cons.IH [OF dedup_step_inv [of P]] dedup_step_separated [of P]) auto
  then show ?case by simp
qed simp

lemma dedup_inv_distinct:
  assumes "dedup_inv P st"
  shows "distinct (map (\<lambda>s. (sc_path s, sc_content_hash s)) (ds_kept st))"
  unfolding distinct_conv_nth
proof (intro allI impI)
  fix i j
  assume ij: "i < length (map (\<lambda>s. (sc_path s, sc_content_hash s)) (ds_kept st))"
    "j < length (map (\<lambda>s. (sc_path s, sc_content_hash s)) (ds_kept st))" "i \<noteq> j"
  let ?p = "sc_path (ds_kept st ! i)" and ?h = "sc_content_hash (ds_kept st ! i)"
  have "ds_seen_hashes st (?p, ?h) = Some i" using assms ij(1) by (simp add: dedup_inv_def)
  moreover have "ds_seen_hashes st (?p, ?h) = Some j"
    if "sc_path (ds_kept st ! j) = ?p" "sc_content_hash (ds_kept st ! j) = ?h"
    using assms ij(2) that by (simp add: dedup_inv_def)
  ultimately show "map (\<lambda>s. (sc_path s, sc_content_hash s)) (ds_kept st) ! i \<noteq>
      map (\<lambda>s. (sc_path s, sc_content_hash s)) (ds_kept st) ! j"
    using ij by auto
qed

section \<open>Properties\<close>

lemma deduplicate_mset:
  "mset (deduplicate_with_options cs w) = mset (ds_kept (fold (dedup_step w) (sort_by dedup_cmp cs) dedup_init))"
  by (simp add: deduplicate_with_options_def)

lemma deduplicate_set:
  "set (deduplicate_with_options cs w) = set (ds_kept (fold (dedup_step w) (sort_by dedup_cmp cs) dedup_init))"
  using deduplicate_mset mset_eq_setD by blast

text \<open>Deduplication keeps one fragment per file and content, in rank order: no two results share path
  and content fingerprint, each is one of the inputs in path, lines, content and token count, and the
  results are sorted.\<close>

theorem deduplicate_unique:
  "distinct (map (\<lambda>s. (sc_path s, sc_content_hash s)) (deduplicate_with_options cs w)) \<and>
   identity ` set (deduplicate_with_options cs w) \<subseteq> identity ` set cs \<and>
   sorted_wrt (\<lambda>a b. rank_cmp a b \<noteq> Greater) (deduplicate_with_options cs w)"
proof (intro conjI)
  let ?st = "fold (dedup_step w) (sort_by dedup_cmp cs) dedup_init"
  let ?key = "\<lambda>s. (sc_path s, sc_content_hash s)"
  have "mset (map ?key (deduplicate_with_options cs w)) = mset (map ?key (ds_kept ?st))"
    by (simp add: deduplicate_mset)
  then show "distinct (map ?key (deduplicate_with_options cs w))"
    using dedup_inv_distinct [OF deduplicate_inv] mset_eq_imp_distinct_iff by blast
  show "identity ` set (deduplicate_with_options cs w) \<subseteq> identity ` set cs"
    using deduplicate_inv [of cs w] by (auto simp: deduplicate_set dedup_inv_def)
  show "sorted_wrt (\<lambda>a b. rank_cmp a b \<noteq> Greater) (deduplicate_with_options cs w)"
    by (simp add: deduplicate_with_options_def dedup_final_cmp_rank rank_order.sorted_sort_by)
qed

text \<open>Deduplication loses no evidence: every input candidate is represented by a result of the same
  file that carries all of its match kinds and all of its concepts.\<close>

theorem deduplicate_keeps_evidence:
  assumes "x \<in> set cs"
  shows "\<exists>y \<in> set (deduplicate_with_options cs w). sc_path y = sc_path x \<and>
    set (cand_match_kinds (sc_candidate x)) \<subseteq> set (cand_match_kinds (sc_candidate y)) \<and>
    set (cand_concepts (sc_candidate x)) \<subseteq> set (cand_concepts (sc_candidate y))"
  using deduplicate_inv [of cs w] assms by (auto simp: deduplicate_set dedup_inv_def absorbs_def)

theorem deduplicate_keeps_evidence_witness:
  "\<exists>y \<in> set (deduplicate_with_options [sample_scored ''a.rs'' 1 9 [''text''], sample_scored ''a.rs'' 2 8 [''symbol'']] weights_default).
     sc_path y = ''a.rs'' \<and> ''symbol'' \<in> set (cand_match_kinds (sc_candidate y))"
  using deduplicate_keeps_evidence [of "sample_scored ''a.rs'' 2 8 [''symbol'']"
      "[sample_scored ''a.rs'' 1 9 [''text''], sample_scored ''a.rs'' 2 8 [''symbol'']]" weights_default]
  by (simp add: sample_scored_def scored_new_with_tokenizer_def candidate_new_def Let_def)

text \<open>C28: Fragments without required-evidence markers come out separated: no two results of one file
  overlap by half or more of the shorter one.\<close>

theorem deduplicate_separates:
  assumes "list_all proper_range cs" "list_all unmarked cs"
  shows "separated (deduplicate_with_options cs w)"
proof -
  have "separated (ds_kept (fold (dedup_step w) (sort_by dedup_cmp cs) dedup_init))"
    using assms by (intro dedup_fold_separated [OF dedup_inv_init])
      (auto simp: dedup_init_def separated_def list_all_iff)
  then show ?thesis using separated_perm deduplicate_mset by metis
qed

theorem deduplicate_separates_witness:
  "separated (deduplicate_with_options [sample_scored ''a.rs'' 1 9 [''text''], sample_scored ''a.rs'' 2 8 [''symbol'']] weights_default)"
  by (rule deduplicate_separates)
    (simp_all add: sample_scored_def scored_new_with_tokenizer_def candidate_new_def Let_def proper_range_def
      unmarked_def starts_with_def REQUIRED_EVIDENCE_PREFIX_def usize_max_def)

end
