(* ===== verification/Rank_Greedy_Props.thy ===== *)
theory Rank_Greedy_Props
  imports Rank_Greedy
begin

text \<open>
  What greedy selection guarantees: the budget, the fragment cap, the per-file cap and the evidence
  quotas hold at every step, and selected and omitted candidates together are exactly the input. The
  contract of one pass is the locale \<open>greedy_phase\<close>, interpreted for the four passes of the code.
\<close>

section \<open>The state invariant\<close>

definition class_count :: "context_path_class \<Rightarrow> scored list \<Rightarrow> nat" where
  "class_count cls ss = length (filter (\<lambda>s. context_path_class (sc_path s) = cls) ss)"

definition facet_count :: "string \<Rightarrow> scored list \<Rightarrow> nat" where
  "facet_count fc ss = length (filter (\<lambda>s. carries_facet (sc_candidate s) fc) ss)"

definition path_count :: "string \<Rightarrow> scored list \<Rightarrow> nat" where
  "path_count p ss = length (filter (\<lambda>s. sc_path s = p) ss)"

definition total_tokens :: "scored list \<Rightarrow> nat" where
  "total_tokens ss = sum_list (map sc_token_count ss)"

lemma count_append [simp]:
  "class_count cls (xs @ ys) = class_count cls xs + class_count cls ys"
  "facet_count fc (xs @ ys) = facet_count fc xs + facet_count fc ys"
  "path_count p (xs @ ys) = path_count p xs + path_count p ys"
  "total_tokens (xs @ ys) = total_tokens xs + total_tokens ys"
  by (simp_all add: class_count_def facet_count_def path_count_def total_tokens_def)

lemma count_single [simp]:
  "class_count cls [s] = (if context_path_class (sc_path s) = cls then 1 else 0)"
  "facet_count fc [s] = (if carries_facet (sc_candidate s) fc then 1 else 0)"
  "path_count p [s] = (if sc_path s = p then 1 else 0)"
  "total_tokens [s] = sc_token_count s"
  by (simp_all add: class_count_def facet_count_def path_count_def total_tokens_def)

lemma count_Nil [simp]:
  "class_count cls [] = 0" "facet_count fc [] = 0" "path_count p [] = 0" "total_tokens [] = 0"
  by (simp_all add: class_count_def facet_count_def path_count_def total_tokens_def)

definition quota_counts :: "evidence_quota \<Rightarrow> scored list \<Rightarrow> bool" where
  "quota_counts q ss \<longleftrightarrow>
     q_auxiliary q = class_count Auxiliary ss \<and> q_tests q = class_count Test ss \<and>
     q_failures q = facet_count ''failure_trace'' ss \<and> q_preserve q = facet_count ''preserve_constraint'' ss"

definition quota_bounds :: "scored list \<Rightarrow> bool" where
  "quota_bounds ss \<longleftrightarrow>
     class_count Auxiliary ss \<le> 1 \<and> class_count Test ss \<le> 2 \<and>
     facet_count ''failure_trace'' ss \<le> 2 \<and> facet_count ''preserve_constraint'' ss \<le> 2"

definition greedy_inv :: "usize \<Rightarrow> usize \<Rightarrow> usize \<Rightarrow> string counts \<Rightarrow> greedy \<Rightarrow> bool" where
  "greedy_inv budget mpf maxf init g \<longleftrightarrow>
     gr_used_tokens g = total_tokens (gr_selected g) \<and>
     gr_used_tokens g \<le> budget \<and>
     length (gr_selected g) \<le> maxf \<and>
     (\<forall>p. count_of (gr_file_counts g) p = count_of init p + path_count p (gr_selected g)) \<and>
     (\<forall>p. 0 < path_count p (gr_selected g) \<longrightarrow> count_of (gr_file_counts g) p \<le> mpf) \<and>
     quota_counts (gr_evidence_counts g) (gr_selected g) \<and> quota_bounds (gr_selected g)"

lemma greedy_inv_init: "greedy_inv budget mpf maxf init (greedy_init init)"
  by (simp add: greedy_inv_def greedy_init_def quota_counts_def quota_default_def quota_bounds_def)

lemma quota_record_counts:
  "quota_counts q ss \<Longrightarrow> quota_counts (quota_record s q) (ss @ [s])"
  by (auto simp: quota_counts_def quota_record_def Let_def split: context_path_class.splits)

lemma quota_allows_bounds:
  "quota_counts q ss \<Longrightarrow> quota_bounds ss \<Longrightarrow> quota_allows q s maxf \<Longrightarrow> quota_bounds (ss @ [s])"
  by (auto simp: quota_counts_def quota_bounds_def quota_allows_def Let_def split: if_splits)

text \<open>Bookkeeping that counts the evidence and touches nothing the limits depend on.\<close>

definition frame_notes :: "(scored \<Rightarrow> greedy \<Rightarrow> greedy) \<Rightarrow> bool" where
  "frame_notes marks \<longleftrightarrow> (\<forall>s g.
     gr_selected (marks s g) = gr_selected g \<and> gr_used_tokens (marks s g) = gr_used_tokens g \<and>
     gr_file_counts (marks s g) = gr_file_counts g \<and>
     gr_evidence_counts (marks s g) = quota_record s (gr_evidence_counts g))"

lemma frame_notes_code:
  "frame_notes record_context_selection" "frame_notes view_notes" "frame_notes confident_notes"
  "frame_notes count_evidence"
  by (simp_all add: frame_notes_def record_context_selection_def view_notes_def confident_notes_def
      count_evidence_def cover_paths_def cover_representations_def cover_concepts_def)

lemma push_admitted_inv:
  assumes "frame_notes marks" "greedy_inv budget mpf maxf init g" "admits budget mpf maxf g s"
  shows "greedy_inv budget mpf maxf init (push_selected s (marks s g))"
proof -
  have n: "gr_selected (marks s g) = gr_selected g" "gr_used_tokens (marks s g) = gr_used_tokens g"
    "gr_file_counts (marks s g) = gr_file_counts g"
    "gr_evidence_counts (marks s g) = quota_record s (gr_evidence_counts g)"
    using assms(1) by (auto simp: frame_notes_def)
  have a: "quota_allows (gr_evidence_counts g) s maxf" "sc_token_count s \<le> budget - gr_used_tokens g"
    "count_of (gr_file_counts g) (sc_path s) < mpf" "length (gr_selected g) < maxf"
    using assms(3) by (auto simp: admits_def candidate_fits_def)
  have i: "gr_used_tokens g = total_tokens (gr_selected g)" "gr_used_tokens g \<le> budget"
    "\<And>p. count_of (gr_file_counts g) p = count_of init p + path_count p (gr_selected g)"
    "\<And>p. 0 < path_count p (gr_selected g) \<Longrightarrow> count_of (gr_file_counts g) p \<le> mpf"
    "quota_counts (gr_evidence_counts g) (gr_selected g)" "quota_bounds (gr_selected g)"
    using assms(2) by (auto simp: greedy_inv_def)
  show ?thesis
    unfolding greedy_inv_def push_selected_def
    using a i n quota_record_counts [OF i(5), of s] quota_allows_bounds [OF i(5,6) a(1)]
    by (simp add: Suc_le_eq)
qed

section \<open>The contract of a pass\<close>

locale greedy_phase =
  fixes budget mpf maxf :: usize
    and takes :: "greedy \<Rightarrow> scored \<Rightarrow> bool"
    and marks :: "scored \<Rightarrow> greedy \<Rightarrow> greedy"
  assumes takes_admitted: "takes g s \<Longrightarrow> admits budget mpf maxf g s"
    and notes_frame: "frame_notes marks"
begin

lemma phase_inv:
  "greedy_inv budget mpf maxf init g \<Longrightarrow> greedy_inv budget mpf maxf init (fst (greedy_pass takes marks ss (g, rest)))"
proof (induction ss arbitrary: g rest)
  case (Cons s ss)
  then show ?case using push_admitted_inv [OF notes_frame _ takes_admitted] by simp
qed simp

lemma phase_partition:
  "mset (gr_selected (fst (greedy_pass takes marks ss (g, rest)))) + mset (snd (greedy_pass takes marks ss (g, rest)))
     = mset (gr_selected g) + mset ss + mset rest"
proof (induction ss arbitrary: g rest)
  case (Cons s ss)
  have "gr_selected (marks s g) = gr_selected g" using notes_frame by (simp add: frame_notes_def)
  then show ?case using Cons by (simp add: push_selected_def)
qed simp

end

interpretation concept_phase: greedy_phase budget mpf maxf "concept_takes budget mpf maxf" record_context_selection
  for budget mpf maxf
  by unfold_locales (auto simp: concept_takes_def frame_notes_code)

interpretation view_phase: greedy_phase budget mpf maxf "view_takes budget mpf maxf" view_notes
  for budget mpf maxf
  by unfold_locales (auto simp: view_takes_def frame_notes_code)

interpretation confident_phase: greedy_phase budget mpf maxf "confident_takes fl budget mpf maxf" confident_notes
  for fl budget mpf maxf
  by unfold_locales (auto simp: confident_takes_def frame_notes_code)

interpretation fill_phase: greedy_phase budget mpf maxf "fill_takes fl budget mpf maxf" count_evidence
  for fl budget mpf maxf
  by unfold_locales (auto simp: fill_takes_def frame_notes_code)

section \<open>The three picks\<close>

lemma max_by_key_in: "max_by_key key xs = Some y \<Longrightarrow> y \<in> set xs"
proof -
  have "fold (\<lambda>x acc. case acc of None \<Rightarrow> Some x | Some y \<Rightarrow> if key x < key y then Some y else Some x) xs acc = Some y \<Longrightarrow>
      acc = Some y \<or> y \<in> set xs" for acc
    by (induction xs arbitrary: acc) (auto split: option.splits if_splits)
  then show "max_by_key key xs = Some y \<Longrightarrow> y \<in> set xs" by (force simp: max_by_key_def)
qed

definition admitted_position :: "usize \<Rightarrow> usize \<Rightarrow> usize \<Rightarrow> greedy \<Rightarrow> scored list \<Rightarrow> nat option \<Rightarrow> bool" where
  "admitted_position budget mpf maxf g pool pos \<longleftrightarrow>
     (case pos of None \<Rightarrow> True | Some i \<Rightarrow> i < length pool \<and> admits budget mpf maxf g (pool ! i))"

lemma owner_position_Some:
  "owner_position fits baseline pool = Some i \<Longrightarrow> i < length pool \<and> fits (pool ! i)"
  by (auto simp: owner_position_def Let_def split: option.splits dest: position_Some)

lemma primary_position_for_Some:
  "primary_position_for u fits pool = Some i \<Longrightarrow> i < length pool \<and> fits (pool ! i)"
  by (auto simp: primary_position_for_def Let_def split: option.splits
      dest: position_Some owner_position_Some)

lemma primary_position_admitted:
  "admitted_position budget mpf maxf g pool (primary_position u budget mpf maxf g pool)"
  unfolding admitted_position_def primary_position_def Let_def
  by (auto split: option.splits dest: primary_position_for_Some)

lemma test_position_admitted:
  "admitted_position budget mpf maxf g pool (test_position budget mpf maxf owner g pool)"
  unfolding admitted_position_def test_position_def Let_def
  by (auto split: option.splits dest!: max_by_key_in simp: in_set_enumerate_eq)

lemma preserve_position_admitted:
  "admitted_position budget mpf maxf g pool (preserve_position budget mpf maxf g pool)"
  unfolding admitted_position_def preserve_position_def
  by (auto split: option.splits dest: position_Some)

lemma pick_at_inv:
  "greedy_inv budget mpf maxf init g \<Longrightarrow> admitted_position budget mpf maxf g pool pos \<Longrightarrow>
     greedy_inv budget mpf maxf init (fst (pick_at pos (g, pool)))"
  by (auto simp: pick_at_def admitted_position_def push_admitted_inv [OF frame_notes_code(1)] split: option.splits)

lemma pick_at_partition:
  assumes "admitted_position budget mpf maxf g pool pos"
  shows "mset (gr_selected (fst (pick_at pos (g, pool)))) + mset (snd (pick_at pos (g, pool)))
    = mset (gr_selected g) + mset pool"
proof (cases pos)
  case (Some i)
  have "gr_selected (record_context_selection (pool ! i) g) = gr_selected g"
    using frame_notes_code(1) by (simp add: frame_notes_def)
  then show ?thesis
    using Some assms mset_remove_at [of i pool] by (simp add: pick_at_def push_selected_def admitted_position_def)
qed (simp add: pick_at_def)

section \<open>The whole selection\<close>

text \<open>The states between the phases, as one relation: selected plus remaining is the input, and the
  limits hold.\<close>

definition greedy_ok :: "usize \<Rightarrow> usize \<Rightarrow> usize \<Rightarrow> string counts \<Rightarrow> scored list \<Rightarrow> greedy \<times> scored list \<Rightarrow> bool" where
  "greedy_ok budget mpf maxf init cs gp \<longleftrightarrow>
     greedy_inv budget mpf maxf init (fst gp) \<and> mset (gr_selected (fst gp)) + mset (snd gp) = mset cs"

lemma greedy_ok_start: "greedy_ok budget mpf maxf init cs (greedy_init init, sort_by compare_utility cs)"
  using greedy_inv_init [of budget mpf maxf init] by (simp add: greedy_ok_def) (simp add: greedy_init_def)

lemma greedy_ok_pick:
  "greedy_ok budget mpf maxf init cs (g, pool) \<Longrightarrow> admitted_position budget mpf maxf g pool pos \<Longrightarrow>
     greedy_ok budget mpf maxf init cs (pick_at pos (g, pool))"
  using pick_at_inv pick_at_partition by (auto simp: greedy_ok_def)

lemma greedy_ok_pass:
  assumes "greedy_phase budget mpf maxf tak nts" "greedy_ok budget mpf maxf init cs (g, pool)" "mset ss = mset pool"
  shows "greedy_ok budget mpf maxf init cs (greedy_pass tak nts ss (g, []))"
  using greedy_phase.phase_inv [OF assms(1)] greedy_phase.phase_partition [OF assms(1), of ss g "[]"] assms(2,3)
  by (simp add: greedy_ok_def)

lemmas greedy_phases =
  concept_phase.greedy_phase_axioms view_phase.greedy_phase_axioms
  confident_phase.greedy_phase_axioms fill_phase.greedy_phase_axioms


section \<open>Why candidates are omitted\<close>

definition quota_of :: "scored list \<Rightarrow> evidence_quota" where
  "quota_of ss = \<lparr>q_auxiliary = class_count Auxiliary ss, q_failures = facet_count ''failure_trace'' ss,
     q_tests = class_count Test ss, q_preserve = facet_count ''preserve_constraint'' ss\<rparr>"

text \<open>Whether a candidate could still be added to a selection.\<close>

definition admissible :: "usize \<Rightarrow> usize \<Rightarrow> usize \<Rightarrow> string counts \<Rightarrow> scored list \<Rightarrow> scored \<Rightarrow> bool" where
  "admissible budget mpf maxf init ss s \<longleftrightarrow>
     total_tokens ss + sc_token_count s \<le> budget \<and> count_of init (sc_path s) + path_count (sc_path s) ss < mpf \<and>
     length ss < maxf \<and> quota_allows (quota_of ss) s maxf"

definition low_confidence :: "f64 \<Rightarrow> scored \<Rightarrow> bool" where
  "low_confidence fl s \<longleftrightarrow> f64_lt (cand_concept_weight (sc_candidate s)) f1 \<and> f64_lt (sc_score s) fl"

definition omission_justified :: "f64 \<Rightarrow> usize \<Rightarrow> usize \<Rightarrow> usize \<Rightarrow> string counts \<Rightarrow> scored list \<Rightarrow> scored \<Rightarrow> bool" where
  "omission_justified fl budget mpf maxf init ss s \<longleftrightarrow>
     low_confidence fl s \<or> \<not> admissible budget mpf maxf init ss s"

lemma quota_counts_of: "quota_counts q ss \<longleftrightarrow> q = quota_of ss"
  by (cases q) (auto simp: quota_counts_def quota_of_def)

lemma admits_admissible:
  assumes "greedy_inv budget mpf maxf init g"
  shows "admits budget mpf maxf g s \<longleftrightarrow> admissible budget mpf maxf init (gr_selected g) s"
  using assms by (auto simp: greedy_inv_def admits_def candidate_fits_def admissible_def quota_counts_of)

lemma quota_allows_antitone:
  "quota_allows (quota_of (ss @ ts)) s maxf \<Longrightarrow> quota_allows (quota_of ss) s maxf"
  by (auto simp: quota_allows_def quota_of_def Let_def)

lemma admissible_antitone:
  "admissible budget mpf maxf init (ss @ ts) s \<Longrightarrow> admissible budget mpf maxf init ss s"
  using quota_allows_antitone by (auto simp: admissible_def)

lemma greedy_pass_extends:
  assumes "frame_notes marks"
  shows "\<exists>ts. gr_selected (fst (greedy_pass tak marks ss (g, rest))) = gr_selected g @ ts"
proof (induction ss arbitrary: g rest)
  case (Cons s ss)
  have "gr_selected (push_selected s (marks s g)) = gr_selected g @ [s]"
    using assms by (simp add: push_selected_def frame_notes_def)
  then show ?case
    using Cons [of g "rest @ [s]"] Cons [of "push_selected s (marks s g)" rest] by auto
qed simp

lemma fill_pass_justified:
  assumes "greedy_inv budget mpf maxf init g" "list_all (omission_justified fl budget mpf maxf init (gr_selected g)) rest"
  shows "list_all (omission_justified fl budget mpf maxf init
           (gr_selected (fst (greedy_pass (fill_takes fl budget mpf maxf) count_evidence ss (g, rest)))))
         (snd (greedy_pass (fill_takes fl budget mpf maxf) count_evidence ss (g, rest)))"
  using assms
proof (induction ss arbitrary: g rest)
  case (Cons s ss)
  let ?takes = "fill_takes fl budget mpf maxf"
  let ?J = "omission_justified fl budget mpf maxf init"
  show ?case
  proof (cases "?takes g s")
    case True
    let ?g = "push_selected s (count_evidence s g)"
    have inv: "greedy_inv budget mpf maxf init ?g"
      using push_admitted_inv [OF frame_notes_code(4) Cons.prems(1)] True fill_phase.takes_admitted by blast
    have "gr_selected ?g = gr_selected g @ [s]" by (simp add: push_selected_def count_evidence_def)
    then have "list_all (?J (gr_selected ?g)) rest"
      using Cons.prems(2) admissible_antitone by (fastforce simp: list_all_iff omission_justified_def)
    then show ?thesis using Cons.IH [OF inv] True by simp
  next
    case False
    then have "?J (gr_selected g) s"
      using admits_admissible [OF Cons.prems(1)] by (auto simp: fill_takes_def omission_justified_def low_confidence_def)
    then show ?thesis using Cons.IH [OF Cons.prems(1)] Cons.prems(2) False by simp
  qed
qed simp

text \<open>The last pass starts from a state that satisfies the invariant.\<close>

lemma greedy_select_fill:
  "\<exists>g ss. greedy_ok budget mpf maxf init cs (g, ss) \<and>
     greedy_select u cs budget mpf maxf init =
       (let r = greedy_pass (fill_takes (confidence_floor_of (sort_by compare_utility cs)) budget mpf maxf) count_evidence ss (g, [])
        in (gr_selected (fst r), snd r))"
proof -
  let ?ok = "greedy_ok budget mpf maxf init cs"
  define pool0 where "pool0 = sort_by compare_utility cs"
  define fl where "fl = confidence_floor_of pool0"
  define g0 where "g0 = greedy_init init"
  define pos1 where "pos1 = primary_position u budget mpf maxf g0 pool0"
  define owner where "owner = map_option (\<lambda>i. sc_path (pool0 ! i)) pos1"
  obtain g1 pool1 where s1: "pick_at pos1 (g0, pool0) = (g1, pool1)" by fastforce
  obtain g2 pool2 where s2: "pick_at (test_position budget mpf maxf owner g1 pool1) (g1, pool1) = (g2, pool2)" by fastforce
  obtain g3 pool3 where s3: "pick_at (preserve_position budget mpf maxf g2 pool2) (g2, pool2) = (g3, pool3)" by fastforce
  obtain g4 dfr where s4: "greedy_pass (concept_takes budget mpf maxf) record_context_selection pool3 (g3, []) = (g4, dfr)" by fastforce
  obtain g5 rem where s5: "greedy_pass (view_takes budget mpf maxf) view_notes (sort_by (deferred_cmp g4) dfr) (g4, []) = (g5, rem)" by fastforce
  obtain g6 fil where s6: "greedy_pass (confident_takes fl budget mpf maxf) confident_notes rem (g5, []) = (g6, fil)" by fastforce
  obtain g7 om where s7: "greedy_pass (fill_takes fl budget mpf maxf) count_evidence fil (g6, []) = (g7, om)" by fastforce
  have "?ok (g0, pool0)" by (simp add: g0_def pool0_def greedy_ok_start)
  then have "?ok (g1, pool1)" using greedy_ok_pick [OF _ primary_position_admitted] s1 pos1_def by metis
  then have "?ok (g2, pool2)" using greedy_ok_pick [OF _ test_position_admitted] s2 by metis
  then have "?ok (g3, pool3)" using greedy_ok_pick [OF _ preserve_position_admitted] s3 by metis
  then have "?ok (g4, dfr)" using greedy_ok_pass [OF greedy_phases(1)] s4 by metis
  then have "?ok (g5, rem)"
    using greedy_ok_pass [OF greedy_phases(2), of budget mpf maxf init cs g4 dfr] s5 mset_sort_by by metis
  then have "?ok (g6, fil)" using greedy_ok_pass [OF greedy_phases(3)] s6 by metis
  moreover have "greedy_select u cs budget mpf maxf init = (gr_selected g7, om)"
    using s1 s2 s3 s4 s5 s6 s7
    unfolding greedy_select_def Let_def pool0_def fl_def g0_def pos1_def owner_def by simp
  ultimately show ?thesis
    using s7 unfolding fl_def pool0_def by (auto simp: Let_def intro!: exI [of _ g6] exI [of _ fil])
qed

lemma greedy_select_ok:
  "\<exists>g om. greedy_select u cs budget mpf maxf init = (gr_selected g, om) \<and> greedy_ok budget mpf maxf init cs (g, om)"
proof -
  let ?tak = "fill_takes (confidence_floor_of (sort_by compare_utility cs)) budget mpf maxf"
  obtain g ss where g: "greedy_ok budget mpf maxf init cs (g, ss)"
    "greedy_select u cs budget mpf maxf init =
       (gr_selected (fst (greedy_pass ?tak count_evidence ss (g, []))), snd (greedy_pass ?tak count_evidence ss (g, [])))"
    using greedy_select_fill [of budget mpf maxf init cs u] by (auto simp: Let_def)
  then show ?thesis
    using greedy_ok_pass [OF greedy_phases(4) g(1), of ss] by (metis prod.collapse)
qed

section \<open>Properties\<close>

text \<open>Greedy selection respects every limit: the selected fragments fit the token budget and the
  fragment cap, no file gets more fragments than the per-file cap leaves after the ones already
  counted, and at most one auxiliary fragment, two tests, two failure traces and two preserve
  constraints are taken.\<close>

theorem greedy_select_limits:
  "case greedy_select u cs budget mpf maxf init of (selected, omitted) \<Rightarrow>
     total_tokens selected \<le> budget \<and> length selected \<le> maxf \<and>
     path_count p selected \<le> mpf - count_of init p \<and> quota_bounds selected"
proof -
  obtain g om where g: "greedy_select u cs budget mpf maxf init = (gr_selected g, om)"
    "greedy_inv budget mpf maxf init g"
    using greedy_select_ok [of u cs budget mpf maxf init] by (auto simp: greedy_ok_def)
  have "count_of init p + path_count p (gr_selected g) \<le> mpf" if "0 < path_count p (gr_selected g)"
    using g(2) that by (auto simp: greedy_inv_def)
  then have "path_count p (gr_selected g) \<le> mpf - count_of init p" by fastforce
  then show ?thesis using g by (simp add: greedy_inv_def)
qed

text \<open>Greedy selection neither loses nor invents candidates: what it selects and what it omits are
  together exactly the candidates it was given, each as often as it was given.\<close>

theorem greedy_select_partition:
  "case greedy_select u cs budget mpf maxf init of (selected, omitted) \<Rightarrow>
     mset selected + mset omitted = mset cs"
  using greedy_select_ok [of u cs budget mpf maxf init] by (auto simp: greedy_ok_def)

text \<open>C5: Greedy selection omits nothing needlessly: every omitted candidate is either below the
  confidence floor (and carries no strong concept), or cannot be added to the final selection without
  breaking the budget, the fragment cap, the per-file cap or an evidence quota.\<close>

theorem greedy_select_maximal:
  "case greedy_select u cs budget mpf maxf init of (selected, omitted) \<Rightarrow>
     list_all (omission_justified (confidence_floor_of (sort_by compare_utility cs)) budget mpf maxf init selected) omitted"
proof -
  let ?fl = "confidence_floor_of (sort_by compare_utility cs)"
  obtain g ss where "greedy_inv budget mpf maxf init g"
    "greedy_select u cs budget mpf maxf init =
       (let r = greedy_pass (fill_takes ?fl budget mpf maxf) count_evidence ss (g, []) in (gr_selected (fst r), snd r))"
    using greedy_select_fill [of budget mpf maxf init cs u] by (auto simp: greedy_ok_def)
  then show ?thesis using fill_pass_justified [of budget mpf maxf init g ?fl "[]" ss] by (simp add: Let_def)
qed

end
