(* ===== verification/Rank_Select.thy ===== *)
theory Rank_Select
  imports Rank_Required Rank_Dedup Rank_Greedy_Props
begin

text \<open>
  Candidate partition and selection (\<open>src/ranking/selection.rs\<close>): the path policy and known fingerprints
  split the candidates, the eligible ones are ranked, deduplicated, and selected in two phases under the
  request's token budget and fragment cap.
\<close>

section \<open>Scope and partition\<close>

record selection_scope =
  ss_focus_paths :: pattern_set
  ss_focus_path_matchers :: "pattern_set list"
  ss_include_paths :: pattern_set
  ss_exclude_paths :: pattern_set
  ss_context_exclude_paths :: pattern_set
  ss_changed_paths :: "string list"

definition pattern_set_or_empty :: "glob_lib \<Rightarrow> string list \<Rightarrow> pattern_set" where
  "pattern_set_or_empty gl patterns = (case pattern_set_new gl patterns of Inl _ \<Rightarrow> pattern_set_empty | Inr ps \<Rightarrow> ps)"

definition selection_scope_new :: "glob_lib \<Rightarrow> context_request \<Rightarrow> string list \<Rightarrow> selection_scope" where
  "selection_scope_new gl r context_exclude_paths =
     \<lparr>ss_focus_paths = pattern_set_or_empty gl (cr_focus_paths r),
      ss_focus_path_matchers = map (\<lambda>p. pattern_set_or_empty gl [p]) (cr_focus_paths r),
      ss_include_paths = pattern_set_or_empty gl (cr_include_paths r),
      ss_exclude_paths = pattern_set_or_empty gl (cr_exclude_paths r),
      ss_context_exclude_paths = pattern_set_or_empty gl context_exclude_paths,
      ss_changed_paths = cr_changed_paths r\<rparr>"

record candidate_partition =
  cp_eligible :: "candidate list"
  cp_path_omitted :: "scored list"
  cp_known_omitted :: "scored list"
  cp_generated_artifact_warning :: bool

definition path_excluded :: "glob_lib \<Rightarrow> context_request \<Rightarrow> selection_scope \<Rightarrow> selection_policy \<Rightarrow> string \<Rightarrow> bool" where
  "path_excluded gl r scope policy path =
     (let explicitly_included = cr_include_paths r \<noteq> [] \<and> is_match gl (ss_include_paths scope) path
      in (cr_include_paths r \<noteq> [] \<and> \<not> is_match gl (ss_include_paths scope) path)
       \<or> is_match gl (ss_exclude_paths scope) path
       \<or> (is_match gl (ss_context_exclude_paths scope) path \<and> \<not> explicitly_included)
       \<or> (strict_focus policy \<and> \<not> is_match gl (ss_focus_paths scope) path)
       \<or> (cr_strict_changed_paths r \<and> path \<notin> set (ss_changed_paths scope)))"

fun partition_candidates ::
  "(string \<Rightarrow> string) \<Rightarrow> (string \<Rightarrow> usize) \<Rightarrow> glob_lib \<Rightarrow> context_request \<Rightarrow> selection_scope \<Rightarrow> weights \<Rightarrow> selection_policy
     \<Rightarrow> candidate list \<Rightarrow> candidate_partition \<Rightarrow> candidate_partition" where
  "partition_candidates b3 tk gl r scope w policy [] p = p"
| "partition_candidates b3 tk gl r scope w policy (c # cs) p =
     (let p1 = p\<lparr>cp_generated_artifact_warning := cp_generated_artifact_warning p
                    \<or> is_match gl (ss_context_exclude_paths scope) (cand_path c)\<rparr>;
          p2 = (if path_excluded gl r scope policy (cand_path c) then
                  p1\<lparr>cp_path_omitted := cp_path_omitted p1 @ [scored_new_with_tokenizer b3 tk w c]\<rparr>
                else if cand_content_hash b3 c \<in> set (cr_known_hashes r) then
                  p1\<lparr>cp_known_omitted := cp_known_omitted p1 @ [scored_new_with_tokenizer b3 tk w c]\<rparr>
                else p1\<lparr>cp_eligible := cp_eligible p1 @ [c]\<rparr>)
      in partition_candidates b3 tk gl r scope w policy cs p2)"

definition partition_init :: candidate_partition where
  "partition_init = \<lparr>cp_eligible = [], cp_path_omitted = [], cp_known_omitted = [], cp_generated_artifact_warning = False\<rparr>"

section \<open>Selection\<close>

record candidate_selection =
  cs_selected :: "scored list"
  cs_omitted :: "scored list"
  cs_candidate_paths_total :: usize
  cs_result_complete :: bool

definition diversity_divisor :: nat where "diversity_divisor = 600"
definition default_context_fragments :: nat where "default_context_fragments = 8"

definition max_per_file_of :: "usize \<Rightarrow> usize" where
  "max_per_file_of budget = min (max (budget div diversity_divisor) 1) 3"

definition max_fragments_of :: "context_request \<Rightarrow> usize" where
  "max_fragments_of r = unwrap_or (cr_max_fragments r) default_context_fragments"

definition select_candidates ::
  "unicode_tables \<Rightarrow> (string \<Rightarrow> string) \<Rightarrow> (string \<Rightarrow> usize) \<Rightarrow> glob_lib \<Rightarrow> candidate list \<Rightarrow> context_request \<Rightarrow> weights
     \<Rightarrow> selection_policy \<Rightarrow> candidate_selection" where
  "select_candidates u b3 tk gl candidates r w policy =
     (let ranked = rank_with_tokenizer b3 tk candidates w;
          deduped = deduplicate_with_options ranked w;
          candidate_paths_total = length (remdups (map sc_path deduped));
          budget = cr_token_budget r;
          max_per_file = max_per_file_of budget;
          max_fragments = max_fragments_of r;
          (selected, remaining) = select_required_candidates gl deduped r policy budget max_fragments;
          required_tokens = sum_list (map sc_token_count selected);
          initial_file_counts = fold (\<lambda>s. bump (sc_path s)) selected Map.empty;
          (additional, omitted) = greedy_select u remaining (budget - required_tokens) max_per_file
                                    (max_fragments - length selected) initial_file_counts
      in \<lparr>cs_selected = selected @ additional, cs_omitted = omitted,
          cs_candidate_paths_total = candidate_paths_total, cs_result_complete = (omitted = [])\<rparr>)"

section \<open>Lemmas\<close>

lemma partition_candidates_append:
  "partition_candidates b3 tk gl r scope w policy cs p =
     \<lparr>cp_eligible = cp_eligible p @ filter (\<lambda>c. \<not> path_excluded gl r scope policy (cand_path c)
                                       \<and> cand_content_hash b3 c \<notin> set (cr_known_hashes r)) cs,
      cp_path_omitted = cp_path_omitted p @ map (scored_new_with_tokenizer b3 tk w)
        (filter (\<lambda>c. path_excluded gl r scope policy (cand_path c)) cs),
      cp_known_omitted = cp_known_omitted p @ map (scored_new_with_tokenizer b3 tk w)
        (filter (\<lambda>c. \<not> path_excluded gl r scope policy (cand_path c) \<and> cand_content_hash b3 c \<in> set (cr_known_hashes r)) cs),
      cp_generated_artifact_warning = (cp_generated_artifact_warning p
        \<or> list_ex (\<lambda>c. is_match gl (ss_context_exclude_paths scope) (cand_path c)) cs)\<rparr>"
  by (induction cs arbitrary: p) (auto simp: Let_def)

lemma count_of_fold_bump:
  "count_of (fold (\<lambda>s. bump (sc_path s)) ss m) p = count_of m p + path_count p ss"
  by (induction ss arbitrary: m) (auto simp: path_count_def)

lemma select_candidates_ok:
  assumes "cr_token_budget r \<le> usize_max"
    and S_def: "S = select_candidates u b3 tk gl cs r w policy"
    and D_def: "D = deduplicate_with_options (rank_with_tokenizer b3 tk cs w) w"
  shows "total_tokens (cs_selected S) \<le> cr_token_budget r \<and> length (cs_selected S) \<le> max_fragments_of r \<and>
    mset (cs_selected S) + mset (cs_omitted S) = mset D \<and> cs_result_complete S = (cs_omitted S = [])"
proof -
  let ?b = "cr_token_budget r" and ?m = "max_fragments_of r"
  obtain st where st: "select_required_candidates gl D r policy ?b ?m = (rq_selected st, rq_candidates st)"
    "required_inv ?b ?m D st"
    using select_required_inv [OF assms(1), of gl D r policy ?m] by blast
  define init where "init = fold (\<lambda>s. bump (sc_path s)) (rq_selected st) Map.empty"
  define b' where "b' = ?b - sum_list (map sc_token_count (rq_selected st))"
  define m' where "m' = ?m - length (rq_selected st)"
  obtain g om where g: "greedy_select u (rq_candidates st) b' (max_per_file_of ?b) m' init = (gr_selected g, om)"
    "greedy_ok b' (max_per_file_of ?b) m' init (rq_candidates st) (g, om)"
    using greedy_select_ok [of u "rq_candidates st" b' "max_per_file_of ?b" m' init] by blast
  have S: "cs_selected S = rq_selected st @ gr_selected g" "cs_omitted S = om" "cs_result_complete S = (om = [])"
    using st(1) g(1) unfolding S_def select_candidates_def Let_def init_def b'_def m'_def D_def by simp_all
  have r: "sum_list (map sc_token_count (rq_selected st)) \<le> ?b" "length (rq_selected st) \<le> ?m"
    "mset (rq_selected st) + mset (rq_candidates st) = mset D"
    using st(2) by (auto simp: required_inv_def)
  have h: "total_tokens (gr_selected g) \<le> b'" "length (gr_selected g) \<le> m'"
    "mset (gr_selected g) + mset om = mset (rq_candidates st)"
    using g(2) by (auto simp: greedy_ok_def greedy_inv_def)
  have "total_tokens (rq_selected st) = sum_list (map sc_token_count (rq_selected st))" by (simp add: total_tokens_def)
  moreover have "mset (rq_selected st) + mset (gr_selected g) + mset om = mset D"
    using r(3) h(3) by (metis add.assoc)
  ultimately show ?thesis using r(1,2) h(1,2) unfolding S b'_def m'_def by simp linarith
qed

text \<open>Every selected or omitted candidate has the path and the fingerprint of an eligible candidate.\<close>

lemma select_candidates_source:
  assumes "cr_token_budget r \<le> usize_max"
    "s \<in> set (cs_selected (select_candidates u b3 tk gl cs r w policy))"
  shows "\<exists>c \<in> set cs. sc_path s = cand_path c \<and> sc_content_hash s = cand_content_hash b3 c \<and>
    cand_content (sc_candidate s) = cand_content c"
proof -
  let ?R = "rank_with_tokenizer b3 tk cs w"
  have "set (cs_selected (select_candidates u b3 tk gl cs r w policy)) \<subseteq> set (deduplicate_with_options ?R w)"
    using select_candidates_ok [OF assms(1) refl refl, of u b3 tk gl cs w policy]
    by (metis mset_subset_eq_add_left set_mset_mono set_mset_mset)
  then have "identity s \<in> identity ` set ?R"
    using assms(2) deduplicate_inv [of ?R w] by (auto simp: deduplicate_set dedup_inv_def)
  then obtain x where x: "x \<in> set ?R" "identity s = identity x" by blast
  then obtain c where "c \<in> set cs" "x = scored_new_with_tokenizer b3 tk w c"
    by (auto simp: rank_with_tokenizer_def)
  then show ?thesis using x(2) by (auto simp: identity_def scored_new_with_tokenizer_def Let_def)
qed

section \<open>Properties\<close>

text \<open>C2: A context selection keeps its promises to the request: the selected fragments never exceed the
  token budget or the fragment cap, required evidence included; selected and omitted fragments are
  exactly the deduplicated candidates; and the result is reported complete only when nothing was omitted.\<close>

theorem select_candidates_bounded:
  assumes "cr_token_budget r \<le> usize_max"
  shows "total_tokens (cs_selected (select_candidates u b3 tk gl cs r w policy)) \<le> cr_token_budget r \<and>
    length (cs_selected (select_candidates u b3 tk gl cs r w policy)) \<le> max_fragments_of r \<and>
    mset (cs_selected (select_candidates u b3 tk gl cs r w policy))
      + mset (cs_omitted (select_candidates u b3 tk gl cs r w policy))
      = mset (deduplicate_with_options (rank_with_tokenizer b3 tk cs w) w) \<and>
    cs_result_complete (select_candidates u b3 tk gl cs r w policy)
      = (cs_omitted (select_candidates u b3 tk gl cs r w policy) = [])"
  using select_candidates_ok [OF assms refl refl] by blast

definition sample_unicode :: unicode_tables where
  "sample_unicode = \<lparr>u_alphanumeric = (\<lambda>_. True), u_lowercase = id\<rparr>"

theorem select_candidates_bounded_witness:
  "total_tokens (cs_selected (select_candidates sample_unicode id length no_globs
      [candidate_new ''src/a.rs'' 1 9 ''fn a''] sample_request weights_default (selection_policy_parse sample_request))) \<le> 1200"
  using select_candidates_bounded [of sample_request sample_unicode id length no_globs
      "[candidate_new ''src/a.rs'' 1 9 ''fn a'']" weights_default "selection_policy_parse sample_request"]
  by (simp add: sample_request_def usize_max_def)

text \<open>The path policy and the caller's known fingerprints are enforced on everything selected: a
  selected fragment lies on a path that no include, exclude, generated-artifact, strict focus or strict
  change rule rejects, and its content fingerprint is none of the known ones.\<close>

theorem selected_respect_policy:
  assumes "cr_token_budget r \<le> usize_max"
  shows "list_all (\<lambda>s. \<not> path_excluded gl r scope policy (sc_path s) \<and> sc_content_hash s \<notin> set (cr_known_hashes r))
    (cs_selected (select_candidates u b3 tk gl
      (cp_eligible (partition_candidates b3 tk gl r scope w policy cs partition_init)) r w policy))"
  unfolding list_all_iff
proof
  fix s assume s: "s \<in> set (cs_selected (select_candidates u b3 tk gl
      (cp_eligible (partition_candidates b3 tk gl r scope w policy cs partition_init)) r w policy))"
  obtain c where "c \<in> set (cp_eligible (partition_candidates b3 tk gl r scope w policy cs partition_init))"
    "sc_path s = cand_path c" "sc_content_hash s = cand_content_hash b3 c"
    using select_candidates_source [OF assms s] by blast
  then show "\<not> path_excluded gl r scope policy (sc_path s) \<and> sc_content_hash s \<notin> set (cr_known_hashes r)"
    by (auto simp: partition_candidates_append partition_init_def)
qed

theorem selected_respect_policy_witness:
  "list_all (\<lambda>s. \<not> path_excluded no_globs sample_request (selection_scope_new no_globs sample_request [])
        (selection_policy_parse sample_request) (sc_path s) \<and> sc_content_hash s \<notin> set (cr_known_hashes sample_request))
    (cs_selected (select_candidates sample_unicode id length no_globs
      (cp_eligible (partition_candidates id length no_globs sample_request (selection_scope_new no_globs sample_request [])
        weights_default (selection_policy_parse sample_request)
        [candidate_new ''src/a.rs'' 1 9 ''fn a'', candidate_new ''target/b.rs'' 1 9 ''fn b''] partition_init))
      sample_request weights_default (selection_policy_parse sample_request)))"
  by (rule selected_respect_policy) (simp add: sample_request_def usize_max_def)

end
