(* ===== verification/Tokens.thy ===== *)
theory Tokens
  imports Text
begin

text \<open>
  Token counting and response budgets (\<open>src/tokens.rs\<close>). The byte-pair encoders are those of the crate
  \<open>tiktoken_rs\<close>: encoding, counting and decoding are the fields of \<open>bpe\<close>, one per encoder. The JSON text
  of a response is that of \<open>serde_json\<close>, also a parameter.
\<close>

section \<open>Tokenizers\<close>

datatype tokenizer =
  Cl100kBase | O200kBase | O200kHarmony | P50kBase | R50kBase | Gpt2 | P50kEdit | Estimate

definition tokenizer_name :: "tokenizer \<Rightarrow> string" where
  "tokenizer_name t =
     (case t of
        Cl100kBase \<Rightarrow> ''cl100k_base''
      | O200kBase \<Rightarrow> ''o200k_base''
      | O200kHarmony \<Rightarrow> ''o200k_harmony''
      | P50kBase \<Rightarrow> ''p50k_base''
      | R50kBase \<Rightarrow> ''r50k_base''
      | Gpt2 \<Rightarrow> ''gpt2''
      | P50kEdit \<Rightarrow> ''p50k_edit''
      | Estimate \<Rightarrow> ''estimate'')"

definition is_exact :: "tokenizer \<Rightarrow> bool" where
  "is_exact t \<longleftrightarrow> t \<noteq> Estimate"

record bpe =
  encode_ordinary :: "string \<Rightarrow> nat list"
  count_ordinary :: "string \<Rightarrow> usize"
  decode_bytes :: "nat list \<Rightarrow> string option"

record bpe_lib =
  cl100k_base :: bpe
  o200k_base :: bpe
  o200k_harmony :: bpe
  p50k_base :: bpe
  p50k_edit :: bpe
  r50k_base :: bpe

fun bpe_of :: "bpe_lib \<Rightarrow> tokenizer \<Rightarrow> bpe option" where
  "bpe_of bl Cl100kBase = Some (cl100k_base bl)"
| "bpe_of bl O200kBase = Some (o200k_base bl)"
| "bpe_of bl O200kHarmony = Some (o200k_harmony bl)"
| "bpe_of bl P50kBase = Some (p50k_base bl)"
| "bpe_of bl P50kEdit = Some (p50k_edit bl)"
| "bpe_of bl R50kBase = Some (r50k_base bl)"
| "bpe_of bl Gpt2 = Some (r50k_base bl)"
| "bpe_of bl Estimate = None"

section \<open>The estimate\<close>

text \<open>\<open>text.split_whitespace().count()\<close>: the runs of characters that are not white space.\<close>

fun count_words :: "bool \<Rightarrow> string list \<Rightarrow> nat" where
  "count_words in_word [] = 0"
| "count_words in_word (c # cs) =
     (if \<not> char_whitespace c \<and> \<not> in_word then 1 else 0) + count_words (\<not> char_whitespace c) cs"

definition estimate_count :: "string \<Rightarrow> usize" where
  "estimate_count t =
     (if t = [] then 0
      else max (max (div_ceil (char_count t) 4) (count_words False (utf8_chars t))) 1)"

text \<open>The loop over \<open>char_indices\<close>: the state is the offset, the characters and words so far, and whether
  the last character belongs to a word.\<close>

fun estimate_loop :: "usize \<Rightarrow> string list \<Rightarrow> usize \<Rightarrow> usize \<Rightarrow> usize \<Rightarrow> bool \<Rightarrow> usize" where
  "estimate_loop max_tokens [] offset chars words in_word = offset"
| "estimate_loop max_tokens (c # cs) offset chars words in_word =
     (let next_chars = chars + 1;
          next_in_word = (\<not> char_whitespace c);
          next_words = words + (if next_in_word \<and> \<not> in_word then 1 else 0)
      in if max_tokens < max (div_ceil next_chars 4) next_words then offset
         else estimate_loop max_tokens cs (offset + length c) next_chars next_words next_in_word)"

definition estimate_boundary :: "string \<Rightarrow> usize \<Rightarrow> usize" where
  "estimate_boundary t max_tokens = estimate_loop max_tokens (utf8_chars t) 0 0 0 False"

section \<open>Counting and truncating\<close>

definition token_count :: "bpe_lib \<Rightarrow> tokenizer \<Rightarrow> string \<Rightarrow> usize" where
  "token_count bl t text =
     (case bpe_of bl t of None \<Rightarrow> estimate_count text | Some b \<Rightarrow> count_ordinary b text)"

definition decoded_prefix_offset :: "bpe \<Rightarrow> string \<Rightarrow> nat list \<Rightarrow> usize option" where
  "decoded_prefix_offset b text tokens =
     (case decode_bytes b tokens of
        None \<Rightarrow> None
      | Some bytes \<Rightarrow> Some (floor_cb_loop text (min (length bytes) (length text))))"

definition truncate_bpe_tokens :: "bpe \<Rightarrow> string \<Rightarrow> nat list \<Rightarrow> usize \<Rightarrow> string \<times> usize" where
  "truncate_bpe_tokens b text tokens max_tokens =
     (if length tokens \<le> max_tokens then (text, length tokens)
      else case decoded_prefix_offset b text (take max_tokens tokens) of
        None \<Rightarrow> ([], 0)
      | Some offset \<Rightarrow> (take offset text, count_ordinary b (take offset text)))"

definition truncate_text :: "bpe_lib \<Rightarrow> tokenizer \<Rightarrow> string \<Rightarrow> usize \<Rightarrow> string \<times> usize" where
  "truncate_text bl t text max_tokens =
     (if text = [] \<or> max_tokens = 0 then ([], 0)
      else case bpe_of bl t of
        Some b \<Rightarrow> truncate_bpe_tokens b text (encode_ordinary b text) max_tokens
      | None \<Rightarrow>
          let total = estimate_count text in
          if total \<le> max_tokens then (text, total)
          else let pre = take (estimate_boundary text max_tokens) text in (pre, estimate_count pre))"

definition minimum_bpe_progress_tokens :: "bpe \<Rightarrow> string \<Rightarrow> nat list \<Rightarrow> usize option" where
  "minimum_bpe_progress_tokens b text tokens =
     (case utf8_chars text of
        [] \<Rightarrow> None
      | c # _ \<Rightarrow>
          find (\<lambda>k. case decoded_prefix_offset b text (take k tokens) of None \<Rightarrow> False | Some offset \<Rightarrow> 0 < offset)
            [1..<Suc (min (length tokens) (length c))])"

definition truncate_for_read :: "bpe_lib \<Rightarrow> tokenizer \<Rightarrow> string \<Rightarrow> usize \<Rightarrow> string \<times> usize \<times> usize option" where
  "truncate_for_read bl t text max_tokens =
     (if text = [] then ([], 0, None)
      else case bpe_of bl t of
        Some b \<Rightarrow>
          (let tokens = encode_ordinary b text;
               (pre, emitted) = truncate_bpe_tokens b text tokens max_tokens
           in (pre, emitted, minimum_bpe_progress_tokens b text tokens))
      | None \<Rightarrow> let (pre, tokens) = truncate_text bl t text max_tokens in (pre, tokens, Some 1))"

section \<open>Response budgets\<close>

text \<open>The binary search of \<open>ResponseBudget::largest_fitting_prefix\<close>; a failing count ends it.\<close>

function prefix_search ::
  "usize \<Rightarrow> (nat \<Rightarrow> 'e + usize) \<Rightarrow> usize \<Rightarrow> usize \<Rightarrow> usize option \<Rightarrow> 'e + usize option" where
  "prefix_search max_tokens count_prefix lower upper best =
     (if upper < lower then Inr best
      else let middle = lower + (upper - lower) div 2 in
        case count_prefix middle of
          Inl e \<Rightarrow> Inl e
        | Inr n \<Rightarrow>
            if n \<le> max_tokens then prefix_search max_tokens count_prefix (middle + 1) upper (Some middle)
            else if middle = 0 then Inr best
            else prefix_search max_tokens count_prefix lower (middle - 1) best)"
  by pat_completeness auto
termination
  by (relation "measure (\<lambda>(_, _, lower, upper, _). Suc upper - lower)") auto

declare prefix_search.simps [simp del]

definition largest_fitting_prefix :: "usize \<Rightarrow> usize \<Rightarrow> (nat \<Rightarrow> 'e + usize) \<Rightarrow> 'e + usize option" where
  "largest_fitting_prefix max_tokens item_count count_prefix =
     prefix_search max_tokens count_prefix 0 item_count None"

datatype json =
    JNull
  | JBool bool
  | JNumber string
  | JString string
  | JArray "json list"
  | JObject "(string \<times> json) list"

fun strip_response_values :: "json \<Rightarrow> json" where
  "strip_response_values JNull = JNull"
| "strip_response_values (JBool b) = JBool False"
| "strip_response_values (JNumber n) = JNumber ''0''"
| "strip_response_values (JString s) = JString []"
| "strip_response_values (JArray vs) = JArray []"
| "strip_response_values (JObject kvs) = JObject (map (\<lambda>(k, v). (k, strip_response_values v)) kvs)"

record response_token_accounting =
  ra_protocol_tokens :: usize
  ra_path_and_metadata_tokens :: usize
  ra_total_response_tokens :: usize

text \<open>\<open>json_text\<close> prints a JSON value; \<open>payload\<close> is the printed response and \<open>v\<close> its value.\<close>

definition response_token_accounting ::
  "(string \<Rightarrow> usize) \<Rightarrow> (json \<Rightarrow> string) \<Rightarrow> string \<Rightarrow> json \<Rightarrow> usize \<Rightarrow> response_token_accounting" where
  "response_token_accounting tk json_text payload v source_tokens =
     (let total = tk payload;
          available_overhead = total - source_tokens;
          protocol = min (tk (json_text (strip_response_values v))) available_overhead
      in \<lparr>ra_protocol_tokens = protocol, ra_path_and_metadata_tokens = available_overhead - protocol,
          ra_total_response_tokens = total\<rparr>)"

section \<open>Lemmas\<close>

lemma prefix_search_largest:
  assumes "\<And>k. k \<le> n \<Longrightarrow> \<exists>c. count_prefix k = Inr c"
    "\<And>j k c d. j \<le> k \<Longrightarrow> k \<le> n \<Longrightarrow> count_prefix j = Inr c \<Longrightarrow> count_prefix k = Inr d \<Longrightarrow> d \<le> mx \<Longrightarrow> c \<le> mx"
    "upper \<le> n" "lower \<le> Suc upper"
    "\<And>k c. upper < k \<Longrightarrow> k \<le> n \<Longrightarrow> count_prefix k = Inr c \<Longrightarrow> mx < c"
    "best = (if lower = 0 then None else Some (lower - 1))"
    "0 < lower \<Longrightarrow> \<exists>c. count_prefix (lower - 1) = Inr c \<and> c \<le> mx"
  shows "\<exists>r. prefix_search mx count_prefix lower upper best = Inr r \<and>
    (case r of None \<Rightarrow> \<forall>k c. k \<le> n \<longrightarrow> count_prefix k = Inr c \<longrightarrow> mx < c
     | Some p \<Rightarrow> p \<le> n \<and> (\<exists>c. count_prefix p = Inr c \<and> c \<le> mx)
         \<and> (\<forall>k c. p < k \<longrightarrow> k \<le> n \<longrightarrow> count_prefix k = Inr c \<longrightarrow> mx < c))"
  using assms(3-7)
proof (induction "Suc upper - lower" arbitrary: lower upper best rule: less_induct)
  case less
  show ?case
  proof (cases "upper < lower")
    case True
    then have "lower = Suc upper" using less.prems(2) by simp
    then show ?thesis
      using less.prems by (subst prefix_search.simps) auto
  next
    case False
    define mid where "mid = lower + (upper - lower) div 2"
    have mid: "lower \<le> mid" "mid \<le> upper" using False by (auto simp: mid_def)
    obtain c where c: "count_prefix mid = Inr c" using assms(1) [of mid] mid less.prems(1) by auto
    have step: "prefix_search mx count_prefix lower upper best =
        (if c \<le> mx then prefix_search mx count_prefix (mid + 1) upper (Some mid)
         else if mid = 0 then Inr best else prefix_search mx count_prefix lower (mid - 1) best)"
      by (subst prefix_search.simps, simp only: mid_def [symmetric] Let_def) (simp add: c False)
    have above: "mx < d" if "\<not> c \<le> mx" "mid \<le> k" "k \<le> n" "count_prefix k = Inr d" for k d
      using assms(2) [of mid k c d] that c by fastforce
    consider (fits) "c \<le> mx" | (zero) "\<not> c \<le> mx" "mid = 0" | (big) "\<not> c \<le> mx" "mid \<noteq> 0" by blast
    then show ?thesis
    proof cases
      case fits
      then show ?thesis
        unfolding step using less.hyps [of upper "mid + 1" "Some mid"] less.prems(1,3) mid c by auto
    next
      case zero
      then have "best = None" using mid less.prems(4) by simp
      then show ?thesis unfolding step using zero above by auto
    next
      case big
      have "prefix_search mx count_prefix lower upper best = prefix_search mx count_prefix lower (mid - 1) best"
        using big step by simp
      moreover have "Suc (mid - 1) - lower < Suc upper - lower" using big mid by auto
      moreover have "mid - 1 \<le> n" "lower \<le> Suc (mid - 1)" using mid less.prems(1) big by auto
      moreover have "mx < d" if "mid - 1 < k" "k \<le> n" "count_prefix k = Inr d" for k d
        using above [OF big(1), of k d] that by simp
      ultimately show ?thesis
        using less.hyps [of "mid - 1" lower best, OF _ _ _ _ less.prems(4,5)] by presburger
    qed
  qed
qed

lemma concat_utf8_prefix:
  "utf8_chars (concat (take n (utf8_chars s))) = take n (utf8_chars s)"
proof (induction s arbitrary: n rule: utf8_chars.induct)
  case (2 b bs)
  show ?case
  proof (cases n)
    case (Suc m)
    define rest where "rest = concat (take m (utf8_chars (dropWhile is_cont bs)))"
    have nc: "rest = [] \<or> \<not> is_cont (hd rest)"
    proof (cases "dropWhile is_cont bs")
      case (Cons x xs)
      then have "\<not> is_cont x" by (metis hd_dropWhile list.distinct(1) list.sel(1))
      then show ?thesis using Cons by (cases m) (auto simp: rest_def)
    next
      case Nil
      then have "utf8_chars (dropWhile is_cont bs) = []" by (simp only: utf8_chars.simps)
      then show ?thesis by (simp add: rest_def)
    qed
    have tw: "takeWhile is_cont (takeWhile is_cont bs @ rest) = takeWhile is_cont bs"
      using nc set_takeWhileD by (cases rest) (fastforce simp: takeWhile_append)+
    have dw: "dropWhile is_cont (takeWhile is_cont bs @ rest) = rest"
      using nc set_takeWhileD by (cases rest) (fastforce simp: dropWhile_append)+
    have "utf8_chars rest = take m (utf8_chars (dropWhile is_cont bs))" using 2 [of m] by (simp add: rest_def)
    then show ?thesis using Suc tw dw by (simp flip: rest_def)
  qed simp
qed simp

lemma estimate_loop_prefix:
  "\<exists>n \<le> length cs. estimate_loop mx cs offset chars words w = offset + length (concat (take n cs)) \<and>
     (0 < n \<longrightarrow> max (div_ceil (chars + n) 4) (words + count_words w (take n cs)) \<le> mx) \<and>
     (n < length cs \<longrightarrow> mx < max (div_ceil (chars + Suc n) 4) (words + count_words w (take (Suc n) cs)))"
proof (induction cs arbitrary: offset chars words w)
  case (Cons c cs)
  let ?iw = "\<not> char_whitespace c"
  let ?nw = "words + (if ?iw \<and> \<not> w then 1 else 0)"
  show ?case
  proof (cases "mx < max (div_ceil (chars + 1) 4) ?nw")
    case True
    then show ?thesis by (intro exI [of _ 0]) (auto simp: Let_def)
  next
    case False
    obtain n where n: "n \<le> length cs"
      "estimate_loop mx cs (offset + length c) (chars + 1) ?nw ?iw = offset + length c + length (concat (take n cs))"
      "0 < n \<longrightarrow> max (div_ceil (chars + 1 + n) 4) (?nw + count_words ?iw (take n cs)) \<le> mx"
      "n < length cs \<longrightarrow> mx < max (div_ceil (chars + 1 + Suc n) 4) (?nw + count_words ?iw (take (Suc n) cs))"
      using Cons by blast
    have "max (div_ceil (chars + Suc n) 4) (words + count_words w (take (Suc n) (c # cs))) \<le> mx"
      using n(3) False by (cases "n = 0") (auto simp: add.assoc)
    then show ?thesis
      using n False by (intro exI [of _ "Suc n"]) (auto simp: Let_def add.assoc)
  qed
qed simp

lemma estimate_count_prefix:
  assumes "n \<le> length (utf8_chars t)" "0 < n"
  shows "estimate_count (concat (take n (utf8_chars t))) =
    max (max (div_ceil n 4) (count_words False (take n (utf8_chars t)))) 1"
proof -
  have "concat (take n (utf8_chars t)) \<noteq> []"
    using assms concat_utf8_prefix [of n t] by (cases "concat (take n (utf8_chars t))") auto
  then show ?thesis using assms by (simp add: estimate_count_def char_count_def concat_utf8_prefix)
qed

lemma take_prefix_chars: "take (length (concat (take n (utf8_chars t)))) t = concat (take n (utf8_chars t))"
proof -
  have "concat (take n (utf8_chars t)) @ concat (drop n (utf8_chars t)) = t"
    by (metis append_take_drop_id concat_append concat_utf8_chars)
  then show ?thesis by (metis append_eq_conv_conj)
qed

section \<open>Properties\<close>

text \<open>The binary search of a response budget finds the largest prefix that fits: when the counts of all
  prefixes succeed and never shrink with length, it returns the largest number of items whose response
  is within the budget, and none only if even the empty response is too large.\<close>

theorem largest_fitting_prefix_maximal:
  fixes f :: "nat \<Rightarrow> nat"
  assumes "\<And>j k. j \<le> k \<Longrightarrow> k \<le> n \<Longrightarrow> f j \<le> f k"
  shows "\<exists>r. largest_fitting_prefix mx n (\<lambda>k. Inr (f k) :: 'e + nat) = Inr r \<and>
    (case r of None \<Rightarrow> mx < f 0 | Some p \<Rightarrow> p \<le> n \<and> f p \<le> mx \<and> (\<forall>k \<in> {p<..n}. mx < f k))"
proof -
  let ?c = "\<lambda>k. Inr (f k) :: 'e + nat"
  have "\<exists>r. prefix_search mx ?c 0 n None = Inr r \<and>
    (case r of None \<Rightarrow> \<forall>k c. k \<le> n \<longrightarrow> ?c k = Inr c \<longrightarrow> mx < c
     | Some p \<Rightarrow> p \<le> n \<and> (\<exists>c. ?c p = Inr c \<and> c \<le> mx) \<and> (\<forall>k c. p < k \<longrightarrow> k \<le> n \<longrightarrow> ?c k = Inr c \<longrightarrow> mx < c))"
  proof (rule prefix_search_largest)
    show "c \<le> mx" if "j \<le> k" "k \<le> n" "?c j = Inr c" "?c k = Inr d" "d \<le> mx" for j k c d
      using assms [OF that(1,2)] that(3-5) by simp
  qed auto
  then show ?thesis by (auto simp: largest_fitting_prefix_def split: option.splits)
qed

theorem largest_fitting_prefix_maximal_witness:
  "\<exists>r. largest_fitting_prefix 40 20 (\<lambda>k. Inr (7 + 3 * k) :: string + nat) = Inr r \<and>
    (case r of None \<Rightarrow> 40 < (7 + 3 * 0 :: nat)
     | Some p \<Rightarrow> p \<le> 20 \<and> 7 + 3 * p \<le> 40 \<and> (\<forall>k \<in> {p<..20}. 40 < 7 + 3 * k))"
  by (rule largest_fitting_prefix_maximal [where f = "\<lambda>k. 7 + 3 * k"]) simp

text \<open>Truncating with the estimating tokenizer is exact: the result is a run of whole characters from
  the start of the text, its reported count is its own estimate and within the limit, and it is the
  longest such run: it is the whole text or one more character would exceed the limit.\<close>

theorem truncate_estimate_longest:
  assumes "t \<noteq> []" "0 < mx"
  shows "\<exists>n. truncate_text bl Estimate t mx = (concat (take n (utf8_chars t)), estimate_count (concat (take n (utf8_chars t)))) \<and>
    0 < n \<and> n \<le> length (utf8_chars t) \<and> estimate_count (concat (take n (utf8_chars t))) \<le> mx \<and>
    (n = length (utf8_chars t) \<or> mx < estimate_count (concat (take (Suc n) (utf8_chars t))))"
proof (cases "estimate_count t \<le> mx")
  case True
  have "utf8_chars t \<noteq> []" using assms(1) by (cases t) auto
  then show ?thesis
    using True assms by (intro exI [of _ "length (utf8_chars t)"]) (simp add: truncate_text_def Let_def)
next
  case False
  obtain n where n: "n \<le> length (utf8_chars t)" "estimate_boundary t mx = length (concat (take n (utf8_chars t)))"
    "0 < n \<longrightarrow> max (div_ceil n 4) (count_words False (take n (utf8_chars t))) \<le> mx"
    "n < length (utf8_chars t) \<longrightarrow> mx < max (div_ceil (Suc n) 4) (count_words False (take (Suc n) (utf8_chars t)))"
    using estimate_loop_prefix [of "utf8_chars t" mx 0 0 0 False] by (auto simp: estimate_boundary_def)
  have pos: "0 < n"
  proof (rule ccontr)
    assume "\<not> 0 < n"
    moreover obtain c cs where "utf8_chars t = c # cs" using assms(1) by (cases t) auto
    ultimately show False using n(4) assms(2) by (auto simp: div_ceil_def split: if_splits)
  qed
  then have le: "estimate_count (concat (take n (utf8_chars t))) \<le> mx"
    using estimate_count_prefix [OF n(1)] n(3) assms(2) by simp
  have "mx < estimate_count (concat (take (Suc n) (utf8_chars t)))" if "n \<noteq> length (utf8_chars t)"
    using estimate_count_prefix [of "Suc n" t] n(1,4) that by simp
  then show ?thesis
    using False assms n(1,2) pos le by (intro exI [of _ n]) (auto simp: truncate_text_def Let_def take_prefix_chars)
qed

theorem truncate_estimate_longest_witness:
  "\<forall>bl. \<exists>n. truncate_text bl Estimate ''ab cd ef gh'' 2 =
      (concat (take n (utf8_chars ''ab cd ef gh'')), estimate_count (concat (take n (utf8_chars ''ab cd ef gh'')))) \<and>
    0 < n \<and> n \<le> length (utf8_chars ''ab cd ef gh'') \<and> estimate_count (concat (take n (utf8_chars ''ab cd ef gh''))) \<le> 2 \<and>
    (n = length (utf8_chars ''ab cd ef gh'') \<or> 2 < estimate_count (concat (take (Suc n) (utf8_chars ''ab cd ef gh''))))"
  by (intro allI truncate_estimate_longest) simp_all

end
