(* ===== verification/Rank_Report.thy ===== *)
theory Rank_Report
  imports Rank_Select Tokens
begin

text \<open>
  What a context response reports about its selection: omissions (\<open>src/ranking/omissions.rs\<close>), requirement
  coverage (\<open>src/ranking/coverage.rs\<close>) and focus diagnostics (\<open>src/ranking/focus_diagnostics.rs\<close>). A
  counting hash map that is listed at the end is an association list with distinct keys; the listing is
  sorted, so the map's iteration order does not show.
\<close>

section \<open>Omission facets\<close>

type_synonym facet_counts = "(string \<times> usize) list"

definition max_omitted_details :: nat where "max_omitted_details = 1"
definition max_omission_facets :: nat where "max_omission_facets = 12"

fun increment_facet :: "string \<Rightarrow> facet_counts \<Rightarrow> facet_counts" where
  "increment_facet value [] = [(value, sat_add 0 1)]"
| "increment_facet value ((v, n) # fs) =
     (if v = value then (v, sat_add n 1) # fs else (v, n) # increment_facet value fs)"

definition facet_cmp :: "(string \<times> usize) cmp" where
  "facet_cmp left right = then_with (ord_cmp (snd right) (snd left)) (ord_cmp (fst left) (fst right))"

lemma facet_cmp_lex: "facet_cmp = lex_cmp (rev_cmp (key_cmp snd)) (key_cmp fst)"
  by (rule ext)+ (simp add: facet_cmp_def lex_cmp_def rev_cmp_def key_cmp_def)

interpretation facet_order: comparator_laws facet_cmp
  unfolding facet_cmp_lex by (intro comparator_lex_cmp comparator_rev_cmp comparator_key_cmp)

definition bounded_facets :: "facet_counts \<Rightarrow> facet_counts" where
  "bounded_facets counts =
     (let facets = sort_by facet_cmp counts
      in if max_omission_facets < length facets
         then take (max_omission_facets - 1) facets
              @ [(''[other]'', sum_list (map snd (drop (max_omission_facets - 1) facets)))]
         else facets)"

definition candidate_file_type :: "string \<Rightarrow> string" where
  "candidate_file_type path =
     (case path_extension path of
        None \<Rightarrow> ''[no extension]''
      | Some ext \<Rightarrow> if ext = [] then ''[no extension]'' else ''.'' @ to_ascii_lowercase ext)"

definition score_band :: "f64 \<Rightarrow> string" where
  "score_band s =
     (if f64_le f1 s then ''score >= 1.0''
      else if f64_le (f64_lit 5 10) s then ''0.5 <= score < 1.0''
      else if f64_lt f0 s then ''0 < score < 0.5''
      else ''score = 0'')"

record omission_summary =
  os_path_excluded :: usize
  os_known_hash :: usize
  os_budget_or_result_limit :: usize
  os_by_path :: facet_counts
  os_by_file_type :: facet_counts
  os_by_reason :: facet_counts
  os_by_score_band :: facet_counts
  os_focused :: usize
  os_not_focused :: usize
  os_changed :: usize
  os_not_changed :: usize

record omission_tally =
  ot_paths :: facet_counts
  ot_file_types :: facet_counts
  ot_score_bands :: facet_counts
  ot_focused :: usize
  ot_changed :: usize

definition tally_record :: "(string \<Rightarrow> bool) \<Rightarrow> string list \<Rightarrow> string \<times> f64 option \<Rightarrow> omission_tally \<Rightarrow> omission_tally" where
  "tally_record focus_match changed_paths x t =
     (let (path, s) = x in
      \<lparr>ot_paths = increment_facet path (ot_paths t),
       ot_file_types = increment_facet (candidate_file_type path) (ot_file_types t),
       ot_score_bands = increment_facet (case s of None \<Rightarrow> ''not scored'' | Some v \<Rightarrow> score_band v) (ot_score_bands t),
       ot_focused = sat_add (ot_focused t) (if focus_match path then 1 else 0),
       ot_changed = sat_add (ot_changed t) (if path \<in> set changed_paths then 1 else 0)\<rparr>)"

definition summarize_omissions ::
  "scored list \<Rightarrow> scored list \<Rightarrow> scored list \<Rightarrow> string list \<Rightarrow> (string \<Rightarrow> bool) \<Rightarrow> string list \<Rightarrow> bool \<Rightarrow> omission_summary" where
  "summarize_omissions path_omitted known_omitted limit_omitted prefiltered focus_match changed_paths explain =
     (let path_excl = sat_add (length path_omitted) (length prefiltered);
          known_hash = length known_omitted;
          limit = length limit_omitted
      in if \<not> explain then
           \<lparr>os_path_excluded = path_excl, os_known_hash = known_hash, os_budget_or_result_limit = limit,
            os_by_path = [], os_by_file_type = [], os_by_reason = [], os_by_score_band = [],
            os_focused = 0, os_not_focused = 0, os_changed = 0, os_not_changed = 0\<rparr>
         else
           let items = map (\<lambda>s. (sc_path s, Some (sc_score s))) (path_omitted @ known_omitted @ limit_omitted)
                       @ map (\<lambda>p. (p, None)) prefiltered;
               t = fold (tally_record focus_match changed_paths) items
                     \<lparr>ot_paths = [], ot_file_types = [], ot_score_bands = [], ot_focused = 0, ot_changed = 0\<rparr>;
               total = sat_add (sat_add path_excl known_hash) limit;
               reasons = (if 0 < path_excl then [(''path_excluded'', path_excl)] else [])
                       @ (if 0 < known_hash then [(''known_hash'', known_hash)] else [])
                       @ (if 0 < limit then [(''budget_or_result_limit'', limit)] else [])
           in \<lparr>os_path_excluded = path_excl, os_known_hash = known_hash, os_budget_or_result_limit = limit,
               os_by_path = bounded_facets (ot_paths t), os_by_file_type = bounded_facets (ot_file_types t),
               os_by_reason = bounded_facets reasons, os_by_score_band = bounded_facets (ot_score_bands t),
               os_focused = ot_focused t, os_not_focused = total - ot_focused t,
               os_changed = ot_changed t, os_not_changed = total - ot_changed t\<rparr>)"

record omitted_candidate =
  oc_path :: string
  oc_start_line :: usize
  oc_end_line :: usize
  oc_reason :: string

definition omitted_as :: "string \<Rightarrow> scored \<Rightarrow> omitted_candidate" where
  "omitted_as why s = \<lparr>oc_path = sc_path s, oc_start_line = sc_start s,
     oc_end_line = cand_end_line (sc_candidate s), oc_reason = why\<rparr>"

definition generated_artifact_message :: string where
  "generated_artifact_message = ''generated-artifact candidates matched context exclusion defaults; review their explicit inclusion before materializing source''"

definition build_context_omissions ::
  "context_request \<Rightarrow> scored list \<Rightarrow> scored list \<Rightarrow> scored list \<Rightarrow> string list \<Rightarrow> (string \<Rightarrow> bool) \<Rightarrow> string list
     \<Rightarrow> bool \<Rightarrow> selection_policy \<Rightarrow> omission_summary \<times> omitted_candidate list \<times> string list" where
  "build_context_omissions r path_omitted known_omitted limit_omitted prefiltered focus_match changed_paths warn policy =
     (let summary = summarize_omissions path_omitted known_omitted limit_omitted prefiltered focus_match changed_paths
                      (cr_explain_diagnostics r);
          all = map (omitted_as ''path excluded'') path_omitted @ map (omitted_as ''known hash'') known_omitted
                @ map (omitted_as ''budget or result limit'') limit_omitted;
          om = take max_omitted_details (if cr_explain_diagnostics r then all else []);
          omitted_count = sat_add (sat_add (os_path_excluded summary) (os_known_hash summary))
                            (os_budget_or_result_limit summary);
          warnings = (if 0 < omitted_count then [show_nat omitted_count @ '' omitted''] else [])
                     @ (if is_plan policy \<and> warn then [generated_artifact_message] else [])
      in (summary, om, warnings))"

section \<open>Coverage\<close>

record evidence_coverage =
  ec_path :: string
  ec_indexed_paths :: usize
  ec_inspected_paths :: usize
  ec_minimum_query_matches :: usize
  ec_matched_queries :: "string list"
  ec_unmatched_queries :: "string list"
  ec_selected_fragments :: usize
  ec_satisfied :: bool

datatype focus_boundary = PathPolicy | KnownHash | Deduplicated | TokenBudget | MaxFragments | FileDiversity | GlobalRanking

datatype capacity_blocker =
    BlockNoIndexedPaths | BlockPathPolicy | BlockCandidateGeneration | BlockCandidateFanoutLimit | BlockKnownHash
  | BlockDeduplicated | BlockTokenBudget | BlockMaxFragments | BlockFileDiversity | BlockGlobalRanking

record focus_diagnostics =
  fd_eligible_paths :: usize
  fd_generated_fragments :: usize
  fd_generated_symbol_fragments :: usize
  fd_reserved_fragments :: usize
  fd_selected_source_tokens :: usize
  fd_suppressed_by :: "(focus_boundary \<times> usize) list"
  fd_capacity_blocker :: "capacity_blocker option"

record focus_path_coverage =
  fc_pattern :: string
  fc_indexed_paths :: usize
  fc_minimum_fragments :: usize
  fc_selected_fragments :: usize
  fc_satisfied :: bool
  fc_diagnostics :: "focus_diagnostics option"

record coverage_receipt =
  cv_focus_path_coverage :: "focus_path_coverage list"
  cv_required_evidence :: "evidence_coverage list"
  cv_evidence_scope_satisfied :: "bool option"
  cv_covered_must_include_paths :: "string list"
  cv_uncovered_must_include_paths :: "string list"
  cv_covered_must_include_symbols :: "string list"
  cv_partial_must_include_symbols :: "string list"
  cv_uncovered_must_include_symbols :: "string list"

definition evidence_coverage_of :: "scored list \<Rightarrow> nat \<Rightarrow> required_evidence \<Rightarrow> evidence_coverage" where
  "evidence_coverage_of covered ri req =
     (let matched = map snd (filter (\<lambda>(qi, _). list_ex (\<lambda>s. required_evidence_query (sc_candidate s) ri qi) covered)
                       (enumerate 0 (re_queries req)))
      in \<lparr>ec_path = re_path req, ec_indexed_paths = 0, ec_inspected_paths = 0,
          ec_minimum_query_matches = re_minimum_query_matches req,
          ec_matched_queries = matched,
          ec_unmatched_queries = filter (\<lambda>q. q \<notin> set matched) (re_queries req),
          ec_selected_fragments = length (filter (\<lambda>s. carries_required_evidence (sc_candidate s) ri) covered),
          ec_satisfied = (re_minimum_query_matches req \<le> length matched)\<rparr>)"

definition build_context_coverage :: "glob_lib \<Rightarrow> context_request \<Rightarrow> scored list \<Rightarrow> scored list \<Rightarrow> coverage_receipt" where
  "build_context_coverage gl r selected known_omitted =
     (let covered = selected @ known_omitted;
          path_covered = (\<lambda>p. list_ex (\<lambda>s. required_path_matches gl (sc_candidate s) p) covered);
          symbol_full = (\<lambda>y. list_ex (\<lambda>s. required_symbol_satisfied (sc_candidate s) y) covered);
          symbol_any = (\<lambda>y. list_ex (\<lambda>s. required_symbol_matches (sc_candidate s) y) covered);
          evidence = map (\<lambda>(ri, req). evidence_coverage_of covered ri req) (enumerate 0 (cr_required_evidence r))
      in \<lparr>cv_focus_path_coverage = [],
          cv_required_evidence = evidence,
          cv_evidence_scope_satisfied =
            (if cr_required_evidence r = [] then None else Some (list_all ec_satisfied evidence)),
          cv_covered_must_include_paths = filter path_covered (cr_must_include_paths r),
          cv_uncovered_must_include_paths = filter (\<lambda>p. \<not> path_covered p) (cr_must_include_paths r),
          cv_covered_must_include_symbols = filter symbol_full (cr_must_include_symbols r),
          cv_partial_must_include_symbols = filter (\<lambda>y. \<not> symbol_full y \<and> symbol_any y) (cr_must_include_symbols r),
          cv_uncovered_must_include_symbols =
            filter (\<lambda>y. \<not> symbol_full y \<and> \<not> symbol_any y) (cr_must_include_symbols r)\<rparr>)"

section \<open>Focus diagnostics\<close>

definition focus_key :: "candidate \<Rightarrow> string \<times> usize \<times> usize" where
  "focus_key c = (cand_path c, cand_start_line c, cand_end_line c)"

definition unique_focus_candidates :: "(string \<Rightarrow> bool) \<Rightarrow> scored list \<Rightarrow> (string \<times> usize \<times> usize) list" where
  "unique_focus_candidates matches ss =
     remdups (map (focus_key \<circ> sc_candidate) (filter (\<lambda>s. matches (sc_path s)) ss))"

text \<open>The generated fragments of each focus matcher, and those with a symbol target.\<close>

definition generated_focus_facts :: "glob_lib \<Rightarrow> candidate list \<Rightarrow> pattern_set list \<Rightarrow> (pattern_set \<times> usize \<times> usize) list" where
  "generated_focus_facts gl candidates matchers =
     map (\<lambda>m. let cs = filter (\<lambda>c. is_match gl m (cand_path c)) candidates
              in (m, length (remdups (map focus_key cs)),
                  length (remdups (map focus_key (filter (\<lambda>c. cand_target_range c \<noteq> None) cs))))) matchers"

definition push_focus_suppression ::
  "focus_boundary \<Rightarrow> usize \<Rightarrow> (focus_boundary \<times> usize) list \<Rightarrow> (focus_boundary \<times> usize) list" where
  "push_focus_suppression b n xs = (if 0 < n then xs @ [(b, n)] else xs)"

datatype limit_class = LimitTokens | LimitFragments | LimitDiversity | LimitRanking

definition limit_class_of ::
  "scored list \<Rightarrow> context_request \<Rightarrow> selection_policy \<Rightarrow> scored \<Rightarrow> limit_class" where
  "limit_class_of selected r policy s =
     (let remaining_tokens = cr_token_budget r - sum_list (map sc_token_count selected);
          per_file = fold (\<lambda>x. bump (sc_path x)) selected Map.empty
      in if focus_minimum policy \<noteq> None \<and> max_fragments_of r \<le> length selected then LimitFragments
         else if remaining_tokens < sc_token_count s then LimitTokens
         else if max_per_file_of (cr_token_budget r) \<le> count_of per_file (sc_path s) then LimitDiversity
         else LimitRanking)"

text \<open>The counts in the code's order: token budget, fragment cap, file diversity, global ranking.\<close>

definition focus_limit_suppressions ::
  "scored list \<Rightarrow> scored list \<Rightarrow> (string \<Rightarrow> bool) \<Rightarrow> context_request \<Rightarrow> selection_policy \<Rightarrow> usize \<times> usize \<times> usize \<times> usize" where
  "focus_limit_suppressions omitted selected matches r policy =
     (let classes = map (limit_class_of selected r policy) (filter (\<lambda>s. matches (sc_path s)) omitted);
          n = (\<lambda>c. fold (\<lambda>d k. if d = c then sat_add k 1 else k) classes 0)
      in (n LimitTokens, n LimitFragments, n LimitDiversity, n LimitRanking))"

fun blocker_of :: "focus_boundary \<Rightarrow> capacity_blocker" where
  "blocker_of PathPolicy = BlockPathPolicy"
| "blocker_of KnownHash = BlockKnownHash"
| "blocker_of Deduplicated = BlockDeduplicated"
| "blocker_of GlobalRanking = BlockGlobalRanking"
| "blocker_of TokenBudget = BlockTokenBudget"
| "blocker_of MaxFragments = BlockMaxFragments"
| "blocker_of FileDiversity = BlockFileDiversity"

definition focus_capacity_blocker ::
  "usize \<Rightarrow> usize \<Rightarrow> usize \<Rightarrow> (focus_boundary \<times> usize) list \<Rightarrow> capacity_blocker option" where
  "focus_capacity_blocker selected_fragments minimum generated_fragments suppressions =
     (if minimum \<le> selected_fragments then None
      else if generated_fragments = 0 then Some BlockCandidateGeneration
      else case find (\<lambda>b. b \<in> set (map fst suppressions))
                  [MaxFragments, TokenBudget, KnownHash, FileDiversity, GlobalRanking, Deduplicated, PathPolicy] of
        Some b \<Rightarrow> Some (blocker_of b)
      | None \<Rightarrow> Some BlockCandidateGeneration)"

definition focus_coverage_of ::
  "glob_lib \<Rightarrow> context_request \<Rightarrow> scored list \<Rightarrow> scored list \<Rightarrow> scored list \<Rightarrow> scored list \<Rightarrow> selection_policy
     \<Rightarrow> string \<Rightarrow> pattern_set \<times> usize \<times> usize \<Rightarrow> focus_path_coverage" where
  "focus_coverage_of gl r path_omitted known_omitted selected limit_omitted policy pattern facts =
     (let (m, generated_fragments, generated_symbols) = facts;
          matches = is_match gl m;
          minimum = unwrap_or (focus_minimum policy) 0;
          po = length (unique_focus_candidates matches path_omitted);
          ko = length (unique_focus_candidates matches known_omitted);
          selected_fragments = length (unique_focus_candidates matches selected);
          om = length (unique_focus_candidates matches limit_omitted);
          classified = sat_add (sat_add (sat_add po ko) selected_fragments) om;
          deduplicated = generated_fragments - classified;
          source_tokens = sum_list (map sc_token_count (filter (\<lambda>s. matches (sc_path s)) selected));
          reserved = (if focus_minimum policy \<noteq> None then min selected_fragments minimum else 0);
          (token_budget, max_fragments, file_diversity, global_ranking) =
            focus_limit_suppressions limit_omitted selected matches r policy;
          suppressed_by =
            push_focus_suppression GlobalRanking global_ranking
              (push_focus_suppression FileDiversity file_diversity
                (push_focus_suppression MaxFragments max_fragments
                  (push_focus_suppression TokenBudget token_budget
                    (push_focus_suppression Deduplicated deduplicated
                      (push_focus_suppression KnownHash ko
                        (push_focus_suppression PathPolicy po []))))))
      in \<lparr>fc_pattern = pattern, fc_indexed_paths = 0, fc_minimum_fragments = minimum,
          fc_selected_fragments = selected_fragments, fc_satisfied = (minimum \<le> selected_fragments),
          fc_diagnostics = Some
            \<lparr>fd_eligible_paths = 0, fd_generated_fragments = generated_fragments,
             fd_generated_symbol_fragments = generated_symbols, fd_reserved_fragments = reserved,
             fd_selected_source_tokens = source_tokens, fd_suppressed_by = suppressed_by,
             fd_capacity_blocker =
               focus_capacity_blocker selected_fragments minimum generated_fragments suppressed_by\<rparr>\<rparr>)"

definition build_focus_path_coverage ::
  "glob_lib \<Rightarrow> context_request \<Rightarrow> (pattern_set \<times> usize \<times> usize) list \<Rightarrow> scored list \<Rightarrow> scored list \<Rightarrow> scored list
     \<Rightarrow> scored list \<Rightarrow> selection_policy \<Rightarrow> focus_path_coverage list" where
  "build_focus_path_coverage gl r generated path_omitted known_omitted selected limit_omitted policy =
     map (\<lambda>(pattern, facts). focus_coverage_of gl r path_omitted known_omitted selected limit_omitted policy pattern facts)
       (zip (cr_focus_paths r) generated)"

section \<open>Lemmas\<close>

definition facet_total :: "facet_counts \<Rightarrow> nat" where
  "facet_total fs = sum_list (map snd fs)"

lemma facet_total_mset: "mset fs = mset gs \<Longrightarrow> facet_total fs = facet_total gs"
  unfolding facet_total_def by (metis mset_map sum_mset_sum_list)

lemma facet_total_sort [simp]: "facet_total (sort_by facet_cmp fs) = facet_total fs"
  by (rule facet_total_mset) simp

lemma facet_total_bounded [simp]: "facet_total (bounded_facets fs) = facet_total fs"
proof -
  let ?g = "sort_by facet_cmp fs"
  have "facet_total ?g = facet_total (take 11 ?g) + facet_total (drop 11 ?g)"
    unfolding facet_total_def by (metis append_take_drop_id map_append sum_list_append)
  then show ?thesis
    by (simp add: bounded_facets_def Let_def max_omission_facets_def facet_total_def)
      (metis facet_total_def facet_total_sort)
qed

lemma facet_total_increment:
  "facet_total fs < usize_max \<Longrightarrow> facet_total (increment_facet v fs) = facet_total fs + 1"
  by (induction v fs rule: increment_facet.induct) (auto simp: facet_total_def usize_simps usize_max_def)

definition tally_ok :: "nat \<Rightarrow> omission_tally \<Rightarrow> bool" where
  "tally_ok n t \<longleftrightarrow> facet_total (ot_paths t) = n \<and> facet_total (ot_file_types t) = n \<and>
     facet_total (ot_score_bands t) = n \<and> ot_focused t \<le> n \<and> ot_changed t \<le> n"

lemma tally_record_ok: "tally_ok n t \<Longrightarrow> n < usize_max \<Longrightarrow> tally_ok (n + 1) (tally_record fm cp x t)"
  using sat_add_le_sum by (fastforce simp: tally_ok_def tally_record_def facet_total_increment Let_def usize_simps split: prod.splits)

lemma tally_fold_ok:
  "tally_ok n t \<Longrightarrow> n + length xs \<le> usize_max \<Longrightarrow> tally_ok (n + length xs) (fold (tally_record fm cp) xs t)"
proof (induction xs arbitrary: n t)
  case (Cons x xs)
  then show ?case using tally_record_ok [of n t fm cp x] Cons.IH [of "n + 1" "tally_record fm cp x t"] by simp
qed simp

section \<open>Properties\<close>

text \<open>A bounded facet list is a faithful summary: at most twelve entries, in falling order of count up to
  the overflow bucket, and their counts add up to the counts that went in.\<close>

theorem bounded_facets_summary:
  "length (bounded_facets fs) \<le> 12 \<and> facet_total (bounded_facets fs) = facet_total fs \<and>
   sorted_wrt (\<lambda>a b. facet_cmp a b \<noteq> Greater) (take 11 (bounded_facets fs))"
proof -
  have "sorted_wrt (\<lambda>a b. facet_cmp a b \<noteq> Greater) (take 11 (sort_by facet_cmp fs))"
    using facet_order.sorted_sort_by sorted_wrt_take by blast
  then have "length (bounded_facets fs) \<le> 12" "sorted_wrt (\<lambda>a b. facet_cmp a b \<noteq> Greater) (take 11 (bounded_facets fs))"
    by (auto simp: bounded_facets_def Let_def max_omission_facets_def)
  then show ?thesis by simp
qed

text \<open>Omission diagnostics account for every omission once: the counts by path, by file type, by reason
  and by score band each add up to the number of omitted candidates, and the focused and changed
  counts complement their negations to it.\<close>

theorem omission_summary_adds_up:
  assumes "length po + length ko + length lo + length pf \<le> usize_max"
    "summary = summarize_omissions po ko lo pf fm cp True"
  shows "facet_total (os_by_path summary) = length po + length ko + length lo + length pf \<and>
    facet_total (os_by_file_type summary) = length po + length ko + length lo + length pf \<and>
    facet_total (os_by_reason summary) = length po + length ko + length lo + length pf \<and>
    facet_total (os_by_score_band summary) = length po + length ko + length lo + length pf \<and>
    os_focused summary + os_not_focused summary = length po + length ko + length lo + length pf \<and>
    os_changed summary + os_not_changed summary = length po + length ko + length lo + length pf"
proof -
  let ?n = "length po + length ko + length lo + length pf"
  let ?items = "map (\<lambda>s. (sc_path s, Some (sc_score s))) (po @ ko @ lo) @ map (\<lambda>p. (p, None)) pf"
  let ?t = "fold (tally_record fm cp) ?items \<lparr>ot_paths = [], ot_file_types = [], ot_score_bands = [], ot_focused = 0, ot_changed = 0\<rparr>"
  have "tally_ok (0 + length ?items) ?t"
    using assms(1) by (intro tally_fold_ok) (auto simp: tally_ok_def facet_total_def)
  moreover have "0 + length ?items = ?n" by simp
  ultimately have t: "tally_ok ?n ?t" by (simp only:)
  have s: "sat_add (length po) (length pf) = length po + length pf"
    "sat_add (length po + length pf) (length ko) = length po + length pf + length ko"
    "sat_add (length po + length pf + length ko) (length lo) = length po + length pf + length ko + length lo"
    using assms(1) by (auto intro: sat_add_exact)
  show ?thesis
    using t unfolding assms(2) summarize_omissions_def Let_def tally_ok_def s
    by (simp add: facet_total_def [of "_ @ _"] facet_total_def [of "[]"] facet_total_def [of "[_]"])
qed

theorem omission_summary_adds_up_witness:
  "facet_total (os_by_reason (summarize_omissions [sample_scored ''a.rs'' 1 9 []] [] [sample_scored ''b.rs'' 1 9 []]
     [''c.rs''] (\<lambda>_. False) [] True)) = 3"
  using omission_summary_adds_up [of "[sample_scored ''a.rs'' 1 9 []]" "[]" "[sample_scored ''b.rs'' 1 9 []]" "[''c.rs'']"
      _ "\<lambda>_. False" "[]", OF _ refl]
  by (simp add: usize_max_def)

end
