(* ===== verification/Rank_Response.thy ===== *)
theory Rank_Response
  imports Rank_Report
begin

text \<open>
  Assembling the context response (\<open>src/ranking/response.rs\<close>, \<open>select_with_options\<close> of
  \<open>src/ranking/selection.rs\<close>). Response fields that this code always leaves at their defaults are not in the
  records. Serialization is the parameter \<open>ser\<close>: the JSON text of the response and its JSON value.
\<close>

section \<open>Response data\<close>

record plan_candidate =
  pc_path :: string
  pc_start_line :: usize
  pc_end_line :: usize
  pc_target :: "(usize \<times> usize) option"
  pc_truncated :: bool
  pc_representation :: string
  pc_score :: f64
  pc_reasons :: "string list"
  pc_estimated_tokens :: usize

record plan_focus_coverage =
  pf_pattern :: string
  pf_candidate_fragments :: usize
  pf_minimum_fragments :: usize
  pf_satisfied :: bool

record query_plan =
  qp_candidates :: "plan_candidate list"
  qp_candidate_paths_total :: usize
  qp_estimated_source_tokens :: usize
  qp_focus_coverage :: "plan_focus_coverage list"
  qp_generated_artifact_warning :: bool
  qp_result_complete :: bool

record context_fragment =
  fr_path :: string
  fr_start_line :: usize
  fr_end_line :: usize
  fr_target :: "(usize \<times> usize) option"
  fr_truncated :: bool
  fr_representation :: string
  fr_content :: string
  fr_content_hash :: string
  fr_score :: f64
  fr_reason :: string
  fr_token_count :: usize

datatype response_profile = Compact | Balanced | Explain

record response_meta =
  rm_repository_generation :: nat
  rm_source_tokens :: usize
  rm_protocol_tokens :: usize
  rm_path_and_metadata_tokens :: usize
  rm_total_response_tokens :: usize
  rm_tokenizer :: string
  rm_token_count_exact :: bool

record context_response =
  rs_profile :: response_profile
  rs_plan :: "query_plan option"
  rs_fragments :: "context_fragment list"
  rs_task_fingerprint :: string
  rs_fragment_hashes :: "string list"
  rs_omitted :: "omitted_candidate list"
  rs_omission_summary :: omission_summary
  rs_coverage :: coverage_receipt
  rs_warnings :: "string list"
  rs_meta :: response_meta

section \<open>Plan and fragments\<close>

definition rounded_score :: "f64 \<Rightarrow> f64" where
  "rounded_score s = f64_div (f64_round_int (f64_mul s (f64_of_nat 10000))) (f64_of_nat 10000)"

text \<open>\<open>str::split("; ")\<close>.\<close>

function split_reasons :: "string \<Rightarrow> string \<Rightarrow> string list" where
  "split_reasons acc [] = [rev acc]"
| "split_reasons acc (c # s) =
     (if starts_with (c # s) ''; '' then rev acc # split_reasons [] (drop 2 (c # s))
      else split_reasons (c # acc) s)"
  by pat_completeness auto
termination by (relation "measure (length \<circ> snd)") auto

definition build_context_plan ::
  "glob_lib \<Rightarrow> context_request \<Rightarrow> pattern_set list \<Rightarrow> scored list \<Rightarrow> usize \<Rightarrow> usize \<Rightarrow> bool \<Rightarrow> bool \<Rightarrow> selection_policy
     \<Rightarrow> query_plan option" where
  "build_context_plan gl r matchers selected paths_total estimated warn complete policy =
     (if \<not> is_plan policy then None
      else
        let minimum = unwrap_or (focus_minimum policy) 0;
            focus_cov = map (\<lambda>(pattern, m).
              let n = length (filter (\<lambda>s. is_match gl m (sc_path s)) selected)
              in \<lparr>pf_pattern = pattern, pf_candidate_fragments = n, pf_minimum_fragments = minimum,
                  pf_satisfied = (minimum \<le> n)\<rparr>) (zip (cr_focus_paths r) matchers);
            cands = map (\<lambda>s. \<lparr>pc_path = sc_path s, pc_start_line = sc_start s,
              pc_end_line = cand_end_line (sc_candidate s), pc_target = target_lines (sc_candidate s),
              pc_truncated = target_truncated (sc_candidate s),
              pc_representation = cand_representation (sc_candidate s), pc_score = rounded_score (sc_score s),
              pc_reasons = split_reasons [] (reason (sc_candidate s)), pc_estimated_tokens = sc_token_count s\<rparr>) selected
        in Some \<lparr>qp_candidates = cands, qp_candidate_paths_total = paths_total,
             qp_estimated_source_tokens = estimated, qp_focus_coverage = focus_cov,
             qp_generated_artifact_warning = warn, qp_result_complete = complete\<rparr>)"

definition fragment_of :: "scored \<Rightarrow> context_fragment" where
  "fragment_of s =
     \<lparr>fr_path = sc_path s, fr_start_line = sc_start s, fr_end_line = cand_end_line (sc_candidate s),
      fr_target = target_lines (sc_candidate s), fr_truncated = target_truncated (sc_candidate s),
      fr_representation = cand_representation (sc_candidate s), fr_content = cand_content (sc_candidate s),
      fr_content_hash = sc_content_hash s, fr_score = rounded_score (sc_score s),
      fr_reason = reason (sc_candidate s), fr_token_count = sc_token_count s\<rparr>"

definition materialize_context_fragments ::
  "scored list \<Rightarrow> usize \<Rightarrow> selection_policy \<Rightarrow> context_fragment list \<times> string list \<times> usize" where
  "materialize_context_fragments selected estimated policy =
     (if is_plan policy then ([], [], 0)
      else (map fragment_of selected, map sc_content_hash selected, estimated))"

section \<open>The response\<close>

definition finalize_context_response ::
  "(string \<Rightarrow> string) \<Rightarrow> bpe_lib \<Rightarrow> tokenizer \<Rightarrow> (json \<Rightarrow> string) \<Rightarrow> (context_response \<Rightarrow> string \<times> json) \<Rightarrow> context_request \<Rightarrow> nat
     \<Rightarrow> query_plan option \<Rightarrow> context_fragment list \<Rightarrow> string list \<Rightarrow> usize \<Rightarrow> omitted_candidate list
     \<Rightarrow> omission_summary \<Rightarrow> coverage_receipt \<Rightarrow> string list \<Rightarrow> context_response" where
  "finalize_context_response b3 bl t json_text ser r generation plan fragments hashes emitted om summary cov warnings =
     (let meta = \<lparr>rm_repository_generation = generation, rm_source_tokens = emitted, rm_protocol_tokens = 0,
            rm_path_and_metadata_tokens = 0, rm_total_response_tokens = 0,
            rm_tokenizer = tokenizer_name t, rm_token_count_exact = is_exact t\<rparr>;
          resp = \<lparr>rs_profile = (if cr_explain_diagnostics r then Explain else Balanced), rs_plan = plan,
            rs_fragments = fragments, rs_task_fingerprint = take 32 (b3 (cr_task r)), rs_fragment_hashes = hashes,
            rs_omitted = om, rs_omission_summary = summary, rs_coverage = cov, rs_warnings = warnings,
            rs_meta = meta\<rparr>;
          (payload, v) = ser resp;
          acc = response_token_accounting (token_count bl t) json_text payload v emitted
      in resp\<lparr>rs_meta := meta\<lparr>rm_protocol_tokens := ra_protocol_tokens acc,
             rm_path_and_metadata_tokens := ra_path_and_metadata_tokens acc,
             rm_total_response_tokens := ra_total_response_tokens acc\<rparr>\<rparr>)"

text \<open>What the ranking code is linked with.\<close>

record ranking_env =
  re_blake3 :: "string \<Rightarrow> string"
  re_bpes :: bpe_lib
  re_json_text :: "json \<Rightarrow> string"
  re_serialize :: "context_response \<Rightarrow> string \<times> json"
  re_globs :: glob_lib
  re_unicode :: unicode_tables

definition select_with_options ::
  "ranking_env \<Rightarrow> candidate list \<Rightarrow> context_request \<Rightarrow> nat \<Rightarrow> weights \<Rightarrow> tokenizer \<Rightarrow> string list \<Rightarrow> string list
     \<Rightarrow> context_response" where
  "select_with_options env candidates0 r generation w t context_exclude_paths prefiltered =
     (let b3 = re_blake3 env; gl = re_globs env; tk = token_count (re_bpes env) t;
          policy = selection_policy_parse r;
          scope = selection_scope_new gl r context_exclude_paths;
          candidates = map (apply_request_signals gl r (ss_focus_paths scope)) candidates0;
          part = partition_candidates b3 tk gl r scope w policy candidates partition_init;
          sel = select_candidates (re_unicode env) b3 tk gl (cp_eligible part) r w policy;
          cov0 = build_context_coverage gl r (cs_selected sel) (cp_known_omitted part);
          cov = (if cr_explain_diagnostics r
                 then cov0\<lparr>cv_focus_path_coverage :=
                        build_focus_path_coverage gl r
                          (generated_focus_facts gl candidates (ss_focus_path_matchers scope))
                          (cp_path_omitted part) (cp_known_omitted part) (cs_selected sel) (cs_omitted sel) policy\<rparr>
                 else cov0);
          estimated = sum_list (map sc_token_count (cs_selected sel));
          plan = build_context_plan gl r (ss_focus_path_matchers scope) (cs_selected sel)
                   (cs_candidate_paths_total sel) estimated (cp_generated_artifact_warning part)
                   (cs_result_complete sel) policy;
          (fragments, hashes, emitted) = materialize_context_fragments (cs_selected sel) estimated policy;
          (summary, om, warnings) = build_context_omissions r (cp_path_omitted part) (cp_known_omitted part)
                   (cs_omitted sel) prefiltered (is_match gl (ss_focus_paths scope)) (ss_changed_paths scope)
                   (cp_generated_artifact_warning part) policy
      in finalize_context_response b3 (re_bpes env) t (re_json_text env) (re_serialize env) r generation plan
           fragments hashes emitted om summary cov warnings)"

definition default_context_exclude_paths :: "string list" where
  "default_context_exclude_paths =
     [''artifacts/runtime_reports/**'', ''artifacts/viability_audit/**'', ''artifacts/replay_reports/**'',
      ''notes/runs/**'', ''node_modules/**'']"

definition select_with_weights_and_tokenizer ::
  "ranking_env \<Rightarrow> candidate list \<Rightarrow> context_request \<Rightarrow> nat \<Rightarrow> weights \<Rightarrow> tokenizer \<Rightarrow> context_response" where
  "select_with_weights_and_tokenizer env candidates r generation w t =
     select_with_options env candidates r generation w t default_context_exclude_paths []"

definition select_with_tokenizer_and_context_exclusions ::
  "ranking_env \<Rightarrow> candidate list \<Rightarrow> context_request \<Rightarrow> nat \<Rightarrow> tokenizer \<Rightarrow> string list \<Rightarrow> string list \<Rightarrow> context_response" where
  "select_with_tokenizer_and_context_exclusions env candidates r generation t excludes prefiltered =
     select_with_options env candidates r generation weights_default t excludes prefiltered"

definition select :: "ranking_env \<Rightarrow> candidate list \<Rightarrow> context_request \<Rightarrow> nat \<Rightarrow> context_response" where
  "select env candidates r generation =
     select_with_tokenizer_and_context_exclusions env candidates r generation Cl100kBase
       default_context_exclude_paths []"

section \<open>Lemmas\<close>

lemma finalize_fields [simp]:
  "rs_fragments (finalize_context_response b3 bl t jt ser r g p fs hs em om su cv ws) = fs"
  "rs_fragment_hashes (finalize_context_response b3 bl t jt ser r g p fs hs em om su cv ws) = hs"
  "rs_plan (finalize_context_response b3 bl t jt ser r g p fs hs em om su cv ws) = p"
  "rm_source_tokens (rs_meta (finalize_context_response b3 bl t jt ser r g p fs hs em om su cv ws)) = em"
  by (simp_all add: finalize_context_response_def Let_def split: prod.splits)

text \<open>The fragments of a response are the selected candidates, or none for a plan.\<close>

lemma select_with_options_fragments:
  "\<exists>cs scope. scope = selection_scope_new (re_globs env) r ex \<and>
    (let sel = cs_selected (select_candidates (re_unicode env) (re_blake3 env) (token_count (re_bpes env) t) (re_globs env)
            (cp_eligible (partition_candidates (re_blake3 env) (token_count (re_bpes env) t) (re_globs env) r scope w
              (selection_policy_parse r) cs partition_init)) r w (selection_policy_parse r));
         resp = select_with_options env cs0 r g w t ex pre
     in rs_fragments resp = (if cr_plan_only r then [] else map fragment_of sel) \<and>
        rs_fragment_hashes resp = (if cr_plan_only r then [] else map sc_content_hash sel) \<and>
        rm_source_tokens (rs_meta resp) = (if cr_plan_only r then 0 else total_tokens sel))"
  by (rule exI [of _ "map (apply_request_signals (re_globs env) r
        (ss_focus_paths (selection_scope_new (re_globs env) r ex))) cs0"])
    (simp add: select_with_options_def Let_def materialize_context_fragments_def is_plan_def
      selection_policy_parse_def total_tokens_def split: prod.splits)

section \<open>Properties\<close>

text \<open>C1: A context response is within its request, end to end: it has at most the allowed number of
  fragments, their token counts add up to the reported source tokens, which never exceed the token
  budget, the hash list of its evidence receipt is aligned with the fragments, no fragment repeats
  content the caller already holds, and every fragment's path passes the request's path policy.\<close>

theorem context_response_within_request:
  assumes "cr_token_budget r \<le> usize_max" "resp = select_with_options env cs r g w t ex pre"
  shows "length (rs_fragments resp) \<le> max_fragments_of r \<and>
    sum_list (map fr_token_count (rs_fragments resp)) = rm_source_tokens (rs_meta resp) \<and>
    rm_source_tokens (rs_meta resp) \<le> cr_token_budget r \<and>
    rs_fragment_hashes resp = map fr_content_hash (rs_fragments resp) \<and>
    list_all (\<lambda>f. fr_content_hash f \<notin> set (cr_known_hashes r) \<and>
      \<not> path_excluded (re_globs env) r (selection_scope_new (re_globs env) r ex) (selection_policy_parse r) (fr_path f))
      (rs_fragments resp)"
proof -
  obtain cs' sel where sel: "sel = cs_selected (select_candidates (re_unicode env) (re_blake3 env)
        (token_count (re_bpes env) t) (re_globs env)
        (cp_eligible (partition_candidates (re_blake3 env) (token_count (re_bpes env) t) (re_globs env) r
          (selection_scope_new (re_globs env) r ex) w (selection_policy_parse r) cs' partition_init)) r w
        (selection_policy_parse r))"
    and f: "rs_fragments resp = (if cr_plan_only r then [] else map fragment_of sel)"
    "rs_fragment_hashes resp = (if cr_plan_only r then [] else map sc_content_hash sel)"
    "rm_source_tokens (rs_meta resp) = (if cr_plan_only r then 0 else total_tokens sel)"
    using select_with_options_fragments [of env r ex t w cs g pre] unfolding assms(2) Let_def by blast
  have b: "total_tokens sel \<le> cr_token_budget r" "length sel \<le> max_fragments_of r"
    using select_candidates_ok [OF assms(1) refl refl] unfolding sel by blast+
  have p: "\<not> path_excluded (re_globs env) r (selection_scope_new (re_globs env) r ex) (selection_policy_parse r) (sc_path s) \<and>
      sc_content_hash s \<notin> set (cr_known_hashes r)" if "s \<in> set sel" for s
    using select_candidates_source [OF assms(1) that [unfolded sel]]
    by (auto simp: partition_candidates_append partition_init_def)
  show ?thesis
    using b p unfolding f by (auto simp: fragment_of_def comp_def total_tokens_def list_all_iff)
qed

definition sample_env :: ranking_env where
  "sample_env =
     (let b = \<lparr>encode_ordinary = map of_char, count_ordinary = length, decode_bytes = (\<lambda>ts. Some (map char_of ts))\<rparr>
      in \<lparr>re_blake3 = id,
          re_bpes = \<lparr>cl100k_base = b, o200k_base = b, o200k_harmony = b, p50k_base = b, p50k_edit = b, r50k_base = b\<rparr>,
          re_json_text = (\<lambda>_. ''{}''), re_serialize = (\<lambda>_. (''{}'', JObject [])), re_globs = no_globs,
          re_unicode = sample_unicode\<rparr>)"

theorem context_response_within_request_witness:
  "\<exists>resp. resp = select_with_options sample_env [candidate_new ''src/a.rs'' 1 9 ''fn a''] sample_request 7
        weights_default Cl100kBase [] [] \<and>
     length (rs_fragments resp) \<le> 2 \<and> rm_source_tokens (rs_meta resp) \<le> 1200"
  using context_response_within_request [of sample_request _ sample_env "[candidate_new ''src/a.rs'' 1 9 ''fn a'']" 7
      weights_default Cl100kBase "[]" "[]", OF _ refl]
  by (simp add: sample_request_def max_fragments_of_def unwrap_or_def usize_max_def)

end
