(* ===== verification/Watch.thy ===== *)
theory Watch
  imports Rust_Str
begin

text \<open>
  The reconciliation scheduler between the filesystem watcher and the indexer
  (\<open>src/watcher/scheduler.rs\<close> and the types it uses from \<open>src/watcher/types.rs\<close>), with the loop
  of the index leader that drives it (\<open>src/main/index_runtime.rs\<close>).  Instants and durations are
  natural numbers of one unit, so that \<open>saturating_mul\<close> followed by \<open>min\<close> with a representable
  delay is the \<open>min\<close> of the exact product.  A \<open>BTreeSet\<close> of paths is a set, read in sorted order.
\<close>

type_synonym instant = nat
type_synonym duration = nat

section \<open>Messages, actions and the pending state\<close>

datatype watcher_message = Changed "string list" | ReconcileRequired

datatype watcher_action = Act_Paths "string list" | Act_Full

datatype pending_reconciliation = Pending_Paths "string set" | Pending_Full

definition pending_empty :: pending_reconciliation where
  "pending_empty = Pending_Paths {}"

definition pending_is_full :: "pending_reconciliation \<Rightarrow> bool" where
  "pending_is_full p = (case p of Pending_Full \<Rightarrow> True | Pending_Paths _ \<Rightarrow> False)"

definition pending_is_empty :: "pending_reconciliation \<Rightarrow> bool" where
  "pending_is_empty p = (case p of Pending_Paths ps \<Rightarrow> ps = {} | Pending_Full \<Rightarrow> False)"

definition pending_insert :: "string \<Rightarrow> pending_reconciliation \<Rightarrow> pending_reconciliation" where
  "pending_insert x p = (case p of Pending_Paths ps \<Rightarrow> Pending_Paths (insert x ps) | Pending_Full \<Rightarrow> p)"

definition pending_extend :: "string list \<Rightarrow> pending_reconciliation \<Rightarrow> pending_reconciliation" where
  "pending_extend xs p = (case p of Pending_Paths ps \<Rightarrow> Pending_Paths (ps \<union> set xs) | Pending_Full \<Rightarrow> p)"

definition pending_bound :: "nat \<Rightarrow> pending_reconciliation \<Rightarrow> pending_reconciliation" where
  "pending_bound limit p =
     (case p of Pending_Paths ps \<Rightarrow> if limit < card ps then Pending_Full else p | Pending_Full \<Rightarrow> p)"

text \<open>A pending request covers a path when running it reconciles that path.\<close>

definition covers :: "pending_reconciliation \<Rightarrow> string \<Rightarrow> bool" where
  "covers p x = (case p of Pending_Paths ps \<Rightarrow> x \<in> ps | Pending_Full \<Rightarrow> True)"

definition action_covers :: "watcher_action \<Rightarrow> string \<Rightarrow> bool" where
  "action_covers a x = (case a of Act_Paths ps \<Rightarrow> x \<in> set ps | Act_Full \<Rightarrow> True)"

fun pending_ok :: "nat \<Rightarrow> pending_reconciliation \<Rightarrow> bool" where
  "pending_ok limit (Pending_Paths ps) \<longleftrightarrow> finite ps \<and> card ps \<le> limit"
| "pending_ok limit Pending_Full \<longleftrightarrow> True"

lemma covers_simps [simp]:
  "covers Pending_Full x"
  "covers (Pending_Paths ps) x \<longleftrightarrow> x \<in> ps"
  "\<not> covers pending_empty x"
  by (simp_all add: covers_def pending_empty_def)

lemma action_covers_simps [simp]:
  "action_covers Act_Full x"
  "action_covers (Act_Paths ps) x \<longleftrightarrow> x \<in> set ps"
  by (simp_all add: action_covers_def)

lemma covers_extend [simp]: "covers (pending_extend xs p) x \<longleftrightarrow> covers p x \<or> x \<in> set xs"
  by (cases p) (auto simp: pending_extend_def)

lemma covers_insert [simp]: "covers (pending_insert y p) x \<longleftrightarrow> covers p x \<or> x = y"
  by (cases p) (auto simp: pending_insert_def)

lemma covers_bound: "covers p x \<Longrightarrow> covers (pending_bound n p) x"
  by (cases p) (auto simp: pending_bound_def)

lemma pending_full_eq [simp]: "pending_is_full p \<longleftrightarrow> p = Pending_Full"
  by (cases p) (auto simp: pending_is_full_def)

lemma pending_is_empty_eq [simp]: "pending_is_empty p \<longleftrightarrow> p = pending_empty"
  by (cases p) (auto simp: pending_is_empty_def pending_empty_def)

lemma extend_full [simp]: "pending_extend xs p = Pending_Full \<longleftrightarrow> p = Pending_Full"
  by (cases p) (auto simp: pending_extend_def)

lemma insert_full [simp]: "pending_insert x p = Pending_Full \<longleftrightarrow> p = Pending_Full"
  by (cases p) (auto simp: pending_insert_def)

lemma bound_full [simp]: "pending_bound n Pending_Full = Pending_Full"
  by (simp add: pending_bound_def)

lemma finite_extend: "pending_ok n p \<Longrightarrow> pending_ok m (pending_bound m (pending_extend xs p))"
  by (cases p) (auto simp: pending_extend_def pending_bound_def)

lemma bound_nonempty: "p \<noteq> pending_empty \<Longrightarrow> pending_bound n p \<noteq> pending_empty"
  by (cases p) (auto simp: pending_bound_def pending_empty_def)

lemma extend_nonempty: "p \<noteq> pending_empty \<or> xs \<noteq> [] \<Longrightarrow> pending_extend xs p \<noteq> pending_empty"
  by (cases p) (auto simp: pending_extend_def pending_empty_def)

section \<open>The scheduler\<close>

record schedule_policy =
  quiet_period :: duration
  max_pending_paths :: nat
  retry_initial_delay :: duration
  retry_max_delay :: duration
  full_initial_delay :: duration
  full_max_delay :: duration
  full_reset_after :: duration

text \<open>The runtime policy, in milliseconds.\<close>

definition max_scheduled_paths :: nat where
  "max_scheduled_paths = 4096"

definition runtime_policy :: "duration \<Rightarrow> schedule_policy" where
  "runtime_policy quiet =
     \<lparr> quiet_period = quiet, max_pending_paths = max_scheduled_paths,
       retry_initial_delay = 500, retry_max_delay = 30 * 1000,
       full_initial_delay = 1000, full_max_delay = 30 * 1000,
       full_reset_after = 60 * 1000 \<rparr>"

record scheduler =
  policy :: schedule_policy
  pending :: "pending_reconciliation option"
  quiet_until :: "instant option"
  retry_not_before :: "instant option"
  next_full_not_before :: "instant option"
  last_full_completed :: "instant option"
  retry_delay :: duration
  full_delay :: duration

definition with_policy :: "schedule_policy \<Rightarrow> scheduler" where
  "with_policy p =
     \<lparr> policy = p, pending = None, quiet_until = None, retry_not_before = None,
       next_full_not_before = None, last_full_completed = None,
       retry_delay = retry_initial_delay p, full_delay = full_initial_delay p \<rparr>"

definition scheduler_new :: "duration \<Rightarrow> scheduler" where
  "scheduler_new quiet = with_policy (runtime_policy quiet)"

definition merge_paths :: "string list \<Rightarrow> scheduler \<Rightarrow> scheduler" where
  "merge_paths paths s =
     (let p = (case pending s of Some q \<Rightarrow> q | None \<Rightarrow> pending_empty) in
      s\<lparr>pending := Some (pending_bound (max_pending_paths (policy s)) (pending_extend paths p))\<rparr>)"

definition backoff_stable :: "scheduler \<Rightarrow> instant \<Rightarrow> bool" where
  "backoff_stable s now =
     (case last_full_completed s of
        None \<Rightarrow> False
      | Some completed \<Rightarrow> completed \<le> now \<and> full_reset_after (policy s) \<le> now - completed)"

definition reset_full_backoff_after_stability :: "instant \<Rightarrow> scheduler \<Rightarrow> scheduler" where
  "reset_full_backoff_after_stability now s =
     (if backoff_stable s now
      then s\<lparr>last_full_completed := None, next_full_not_before := None,
             full_delay := full_initial_delay (policy s)\<rparr>
      else s)"

definition enqueue :: "watcher_message \<Rightarrow> instant \<Rightarrow> scheduler \<Rightarrow> scheduler" where
  "enqueue message now s =
     (let s = reset_full_backoff_after_stability now s in
      case message of
        Changed paths \<Rightarrow>
          if paths = [] then s
          else (merge_paths paths s)\<lparr>quiet_until := Some (now + quiet_period (policy s))\<rparr>
      | ReconcileRequired \<Rightarrow>
          s\<lparr>pending := Some Pending_Full, quiet_until := Some (now + quiet_period (policy s))\<rparr>)"

definition not_before :: "instant option \<Rightarrow> instant \<Rightarrow> instant" where
  "not_before t deadline = (case t of None \<Rightarrow> deadline | Some u \<Rightarrow> max deadline u)"

definition next_deadline :: "scheduler \<Rightarrow> instant option" where
  "next_deadline s =
     (case quiet_until s of
        None \<Rightarrow> None
      | Some quiet \<Rightarrow>
          let deadline = not_before (retry_not_before s) quiet in
          Some (if pending s = Some Pending_Full
                then not_before (next_full_not_before s) deadline else deadline))"

definition take_ready :: "instant \<Rightarrow> scheduler \<Rightarrow> watcher_action option \<times> scheduler" where
  "take_ready now s =
     (case next_deadline s of
        None \<Rightarrow> (None, s)
      | Some deadline \<Rightarrow>
          if now < deadline then (None, s)
          else
            (case pending s of
               None \<Rightarrow> None
             | Some (Pending_Paths ps) \<Rightarrow> Some (Act_Paths (sorted_list_of_set ps))
             | Some Pending_Full \<Rightarrow> Some Act_Full,
             s\<lparr>quiet_until := None, retry_not_before := None, pending := None\<rparr>))"

definition finish_success :: "watcher_action \<Rightarrow> instant \<Rightarrow> scheduler \<Rightarrow> scheduler" where
  "finish_success action now s =
     (let s = s\<lparr>retry_delay := retry_initial_delay (policy s), retry_not_before := None\<rparr> in
      if action = Act_Full
      then s\<lparr>last_full_completed := Some now, next_full_not_before := Some (now + full_delay s),
             full_delay := min (full_delay s * 2) (full_max_delay (policy s))\<rparr>
      else s)"

definition finish_failure :: "watcher_action \<Rightarrow> instant \<Rightarrow> scheduler \<Rightarrow> scheduler" where
  "finish_failure action now s =
     (let s = (case action of
                 Act_Paths paths \<Rightarrow> merge_paths paths s
               | Act_Full \<Rightarrow> s\<lparr>pending := Some Pending_Full\<rparr>) in
      s\<lparr>quiet_until := Some now, retry_not_before := Some (now + retry_delay s),
        retry_delay := min (retry_delay s * 2) (retry_max_delay (policy s))\<rparr>)"

section \<open>The leader loop\<close>

text \<open>
  \<open>run_watcher_reconciliations\<close> runs one action at a time: messages are drained into the
  scheduler, and when the deadline has passed the ready action is executed to its end before the
  next message is read.  Which paths are database artifacts is a function of the configuration.
\<close>

datatype index_error =
    Err_RootNotFound | Err_UnsafeRepositoryRoot | Err_IndexLimitExceeded
  | Err_InvalidConfiguration | Err_RepositoryMismatch | Err_RuntimeCapabilityUnavailable
  | Err_Cancelled | Err_Other

fun is_terminal_index_error :: "index_error \<Rightarrow> bool" where
  "is_terminal_index_error Err_Cancelled = False"
| "is_terminal_index_error Err_Other = False"
| "is_terminal_index_error _ = True"

definition schedule_watcher_message ::
  "(string \<Rightarrow> bool) \<Rightarrow> watcher_message \<Rightarrow> instant \<Rightarrow> scheduler \<Rightarrow> scheduler" where
  "schedule_watcher_message is_artifact message now s =
     (case message of
        Changed paths \<Rightarrow>
          let paths = filter (\<lambda>p. \<not> is_artifact p) paths in
          if paths = [] then s else enqueue (Changed paths) now s
      | ReconcileRequired \<Rightarrow> enqueue ReconcileRequired now s)"

text \<open>
  The result of \<open>execute_watcher_action\<close>: whether the loop goes on, or the error it ends with,
  together with the scheduler.  The outcome of the reconciliation and the state of the
  cancellation token come from the indexer and the caller.
\<close>

definition execute_watcher_action ::
  "(index_error + unit) \<Rightarrow> bool \<Rightarrow> watcher_action \<Rightarrow> instant \<Rightarrow> scheduler \<Rightarrow>
   (index_error + bool) \<times> scheduler" where
  "execute_watcher_action outcome cancelled action now s =
     (case outcome of
        Inr _ \<Rightarrow> (Inr True, finish_success action now s)
      | Inl e \<Rightarrow>
          if e = Err_Cancelled \<and> cancelled then (Inr False, s)
          else if is_terminal_index_error e then (Inl e, s)
          else (Inr True, finish_failure action now s))"

text \<open>
  The state of the loop, with what the correctness argument needs to remember: the paths
  reported since they were last reconciled, whether a full reconciliation is owed, the failures
  since the last success, the full reconciliations since the last reset of their backoff, and the
  time the last one completed.
\<close>

record leader =
  sched :: scheduler
  running :: "watcher_action option"
  ended :: "(index_error + unit) option"
  clock :: instant
  owed :: "string set"
  owed_full :: bool
  failures :: nat
  full_runs :: nat
  last_full :: "instant option"

definition leader_new :: "schedule_policy \<Rightarrow> leader" where
  "leader_new p =
     \<lparr> sched = with_policy p, running = None, ended = None, clock = 0, owed = {}, owed_full = False,
       failures = 0, full_runs = 0, last_full = None \<rparr>"

definition message_paths :: "(string \<Rightarrow> bool) \<Rightarrow> watcher_message \<Rightarrow> string set" where
  "message_paths is_artifact m =
     (case m of Changed ps \<Rightarrow> {p \<in> set ps. \<not> is_artifact p} | ReconcileRequired \<Rightarrow> {})"

definition message_enqueued :: "(string \<Rightarrow> bool) \<Rightarrow> watcher_message \<Rightarrow> bool" where
  "message_enqueued is_artifact m \<longleftrightarrow> m = ReconcileRequired \<or> message_paths is_artifact m \<noteq> {}"

definition receive :: "(string \<Rightarrow> bool) \<Rightarrow> watcher_message \<Rightarrow> leader \<Rightarrow> leader" where
  "receive is_artifact m l =
     l\<lparr>sched := schedule_watcher_message is_artifact m (clock l) (sched l),
       owed := owed l \<union> message_paths is_artifact m,
       owed_full := owed_full l \<or> m = ReconcileRequired,
       full_runs := (if message_enqueued is_artifact m \<and> backoff_stable (sched l) (clock l)
                     then 0 else full_runs l)\<rparr>"

definition start_action :: "watcher_action \<Rightarrow> leader \<Rightarrow> leader" where
  "start_action a l = l\<lparr>sched := snd (take_ready (clock l) (sched l)), running := Some a\<rparr>"

definition finish_action :: "(index_error + unit) \<Rightarrow> bool \<Rightarrow> watcher_action \<Rightarrow> leader \<Rightarrow> leader" where
  "finish_action outcome cancelled a l =
     (case execute_watcher_action outcome cancelled a (clock l) (sched l) of (r, s) \<Rightarrow>
      let l = l\<lparr>sched := s, running := None\<rparr> in
      case r of
        Inl e \<Rightarrow> l\<lparr>ended := Some (Inl e)\<rparr>
      | Inr False \<Rightarrow> l\<lparr>ended := Some (Inr ())\<rparr>
      | Inr True \<Rightarrow>
          (case outcome of
             Inl _ \<Rightarrow> l\<lparr>failures := Suc (failures l)\<rparr>
           | Inr _ \<Rightarrow>
               l\<lparr>failures := 0,
                 owed := (case a of Act_Paths ps \<Rightarrow> owed l - set ps | Act_Full \<Rightarrow> {}),
                 owed_full := (owed_full l \<and> a \<noteq> Act_Full),
                 full_runs := (if a = Act_Full then Suc (full_runs l) else full_runs l),
                 last_full := (if a = Act_Full then Some (clock l) else last_full l)\<rparr>))"

inductive leader_step :: "(string \<Rightarrow> bool) \<Rightarrow> leader \<Rightarrow> leader \<Rightarrow> bool"
  for is_artifact :: "string \<Rightarrow> bool" where
  Elapse: "leader_step is_artifact l (l\<lparr>clock := clock l + d\<rparr>)"
| Receive: "running l = None \<Longrightarrow> ended l = None \<Longrightarrow> leader_step is_artifact l (receive is_artifact m l)"
| Start: "running l = None \<Longrightarrow> ended l = None \<Longrightarrow> fst (take_ready (clock l) (sched l)) = Some a \<Longrightarrow>
    leader_step is_artifact l (start_action a l)"
| Finish: "running l = Some a \<Longrightarrow> leader_step is_artifact l (finish_action outcome cancelled a l)"

inductive leader_reachable :: "(string \<Rightarrow> bool) \<Rightarrow> schedule_policy \<Rightarrow> leader \<Rightarrow> bool"
  for is_artifact :: "string \<Rightarrow> bool" and p :: schedule_policy where
  Init: "leader_reachable is_artifact p (leader_new p)"
| Step: "leader_reachable is_artifact p l \<Longrightarrow> leader_step is_artifact l l' \<Longrightarrow>
    leader_reachable is_artifact p l'"

section \<open>Invariants of the scheduler\<close>

definition policy_ok :: "schedule_policy \<Rightarrow> bool" where
  "policy_ok p \<longleftrightarrow> retry_initial_delay p \<le> retry_max_delay p \<and> full_initial_delay p \<le> full_max_delay p"

lemma runtime_policy_ok: "policy_ok (runtime_policy q)"
  by (simp add: policy_ok_def runtime_policy_def)

definition option_all :: "('a \<Rightarrow> bool) \<Rightarrow> 'a option \<Rightarrow> bool" where
  "option_all P v = (case v of None \<Rightarrow> True | Some a \<Rightarrow> P a)"

lemma option_all_simps [simp]: "option_all P None" "option_all P (Some a) \<longleftrightarrow> P a"
  by (simp_all add: option_all_def)

lemma option_all_mono: "option_all P v \<Longrightarrow> (\<And>a. P a \<Longrightarrow> Q a) \<Longrightarrow> option_all Q v"
  by (cases v) auto

text \<open>Work is pending exactly when it has a deadline, it is never empty, and it is bounded.\<close>

definition sched_ok :: "schedule_policy \<Rightarrow> scheduler \<Rightarrow> bool" where
  "sched_ok p s \<longleftrightarrow> policy s = p \<and> (quiet_until s = None \<longleftrightarrow> pending s = None) \<and>
     option_all (\<lambda>q. q \<noteq> pending_empty \<and> pending_ok (max_pending_paths p) q) (pending s)"

text \<open>No scheduled instant is further away than the policy allows.\<close>

definition times_ok :: "schedule_policy \<Rightarrow> instant \<Rightarrow> scheduler \<Rightarrow> bool" where
  "times_ok p now s \<longleftrightarrow>
     option_all (\<lambda>t. t \<le> now + quiet_period p) (quiet_until s) \<and>
     option_all (\<lambda>t. t \<le> now + retry_max_delay p) (retry_not_before s) \<and>
     option_all (\<lambda>t. t \<le> now + full_max_delay p) (next_full_not_before s) \<and>
     retry_delay s \<le> retry_max_delay p \<and> full_delay s \<le> full_max_delay p"

lemma merge_paths_fields [simp]:
  "policy (merge_paths xs s) = policy s"
  "quiet_until (merge_paths xs s) = quiet_until s"
  "retry_not_before (merge_paths xs s) = retry_not_before s"
  "next_full_not_before (merge_paths xs s) = next_full_not_before s"
  "last_full_completed (merge_paths xs s) = last_full_completed s"
  "retry_delay (merge_paths xs s) = retry_delay s"
  "full_delay (merge_paths xs s) = full_delay s"
  by (simp_all add: merge_paths_def Let_def)

lemma reset_fields [simp]:
  "policy (reset_full_backoff_after_stability now s) = policy s"
  "pending (reset_full_backoff_after_stability now s) = pending s"
  "quiet_until (reset_full_backoff_after_stability now s) = quiet_until s"
  "retry_not_before (reset_full_backoff_after_stability now s) = retry_not_before s"
  "retry_delay (reset_full_backoff_after_stability now s) = retry_delay s"
  by (simp_all add: reset_full_backoff_after_stability_def)

lemma enqueue_fields [simp]:
  "policy (enqueue m now s) = policy s"
  "retry_not_before (enqueue m now s) = retry_not_before s"
  "retry_delay (enqueue m now s) = retry_delay s"
  "next_full_not_before (enqueue m now s) = next_full_not_before (reset_full_backoff_after_stability now s)"
  "last_full_completed (enqueue m now s) = last_full_completed (reset_full_backoff_after_stability now s)"
  "full_delay (enqueue m now s) = full_delay (reset_full_backoff_after_stability now s)"
  by (simp_all add: enqueue_def Let_def split: watcher_message.split)

lemma merge_paths_ok:
  assumes "option_all (pending_ok n) (pending s)" "xs \<noteq> [] \<or> option_all (\<lambda>q. q \<noteq> pending_empty) (pending s) \<and> pending s \<noteq> None"
  shows "option_all (\<lambda>q. q \<noteq> pending_empty \<and> pending_ok (max_pending_paths (policy s)) q)
      (pending (merge_paths xs s)) \<and> pending (merge_paths xs s) \<noteq> None"
proof -
  let ?p = "case pending s of Some q \<Rightarrow> q | None \<Rightarrow> pending_empty"
  have "pending_ok n ?p" using assms(1) by (cases "pending s") (auto simp: pending_empty_def)
  moreover have "?p \<noteq> pending_empty \<or> xs \<noteq> []" using assms(2) by (cases "pending s") auto
  ultimately show ?thesis
    by (auto simp: merge_paths_def Let_def intro!: finite_extend bound_nonempty extend_nonempty
        split: option.splits)
qed

lemma sched_ok_with_policy: "sched_ok p (with_policy p)"
  by (simp add: sched_ok_def with_policy_def)

lemma sched_ok_enqueue:
  assumes "sched_ok p s" shows "sched_ok p (enqueue m now s)"
proof (cases m)
  case (Changed xs)
  have "option_all (pending_ok (max_pending_paths p)) (pending s)"
    using assms by (auto simp: sched_ok_def elim: option_all_mono)
  then show ?thesis
    using assms Changed merge_paths_ok [of "max_pending_paths p" "reset_full_backoff_after_stability now s" xs]
    by (auto simp: sched_ok_def enqueue_def Let_def)
next
  case ReconcileRequired
  then show ?thesis using assms by (auto simp: sched_ok_def enqueue_def Let_def pending_empty_def)
qed

lemma sched_ok_schedule: "sched_ok p s \<Longrightarrow> sched_ok p (schedule_watcher_message db m now s)"
  by (auto simp: schedule_watcher_message_def Let_def sched_ok_enqueue split: watcher_message.split)

lemma sched_ok_take: "sched_ok p s \<Longrightarrow> sched_ok p (snd (take_ready now s))"
  by (auto simp: take_ready_def sched_ok_def split: option.split)

lemma sched_ok_success: "sched_ok p s \<Longrightarrow> sched_ok p (finish_success a now s)"
  by (auto simp: finish_success_def sched_ok_def Let_def)

lemma sched_ok_failure:
  assumes "sched_ok p s" "a \<noteq> Act_Paths []" shows "sched_ok p (finish_failure a now s)"
proof (cases a)
  case (Act_Paths xs)
  have "option_all (pending_ok (max_pending_paths p)) (pending s)"
    using assms by (auto simp: sched_ok_def elim: option_all_mono)
  then show ?thesis
    using assms Act_Paths merge_paths_ok [of "max_pending_paths p" s xs]
    by (auto simp: sched_ok_def finish_failure_def Let_def)
next
  case Act_Full
  then show ?thesis using assms by (auto simp: sched_ok_def finish_failure_def Let_def pending_empty_def)
qed

lemma take_ready_action:
  assumes "sched_ok p s" "fst (take_ready now s) = Some a"
  shows "a \<noteq> Act_Paths [] \<and> (\<exists>q. pending s = Some q \<and> (\<forall>x. covers q x \<longrightarrow> action_covers a x) \<and>
      (q = Pending_Full \<longleftrightarrow> a = Act_Full)) \<and> pending (snd (take_ready now s)) = None"
  using assms
  by (auto simp: take_ready_def sched_ok_def pending_empty_def
      split: option.splits if_splits pending_reconciliation.splits)

lemma times_ok_later: "times_ok p now s \<Longrightarrow> now \<le> later \<Longrightarrow> times_ok p later s"
  unfolding times_ok_def by (auto elim!: option_all_mono)

lemma times_ok_reset:
  "times_ok p now s \<Longrightarrow> policy s = p \<Longrightarrow> policy_ok p \<Longrightarrow>
   times_ok p now (reset_full_backoff_after_stability now s)"
  by (auto simp: times_ok_def reset_full_backoff_after_stability_def policy_ok_def)

lemma times_ok_schedule:
  assumes "times_ok p now s" "policy s = p" "policy_ok p"
  shows "times_ok p now (schedule_watcher_message db m now s)"
proof -
  have "times_ok p now (enqueue m' now s)" for m'
    using times_ok_reset [OF assms] assms(2)
    by (auto simp: times_ok_def enqueue_def Let_def split: watcher_message.split)
  with assms show ?thesis
    by (auto simp: schedule_watcher_message_def Let_def split: watcher_message.split)
qed

lemma times_ok_take: "times_ok p now s \<Longrightarrow> times_ok p now (snd (take_ready now' s))"
  by (auto simp: take_ready_def times_ok_def split: option.split)

lemma times_ok_success:
  "times_ok p now s \<Longrightarrow> policy s = p \<Longrightarrow> policy_ok p \<Longrightarrow> times_ok p now (finish_success a now s)"
  by (auto simp: finish_success_def times_ok_def Let_def policy_ok_def)

lemma times_ok_failure: "times_ok p now s \<Longrightarrow> policy s = p \<Longrightarrow> times_ok p now (finish_failure a now s)"
  by (cases a) (auto simp: finish_failure_def times_ok_def Let_def)

lemma next_deadline_bound:
  assumes "times_ok p now s" "next_deadline s = Some d"
  shows "d \<le> now + max (quiet_period p) (max (retry_max_delay p) (full_max_delay p))"
  using assms unfolding times_ok_def next_deadline_def not_before_def
  by (auto simp: Let_def option_all_def split: option.splits if_splits)

section \<open>Invariants of the leader loop\<close>

definition backoff :: "duration \<Rightarrow> duration \<Rightarrow> nat \<Rightarrow> duration" where
  "backoff initial bound n = min (initial * 2 ^ n) bound"

lemma backoff_0: "initial \<le> bound \<Longrightarrow> backoff initial bound 0 = initial"
  by (simp add: backoff_def)

lemma backoff_Suc: "min (backoff initial bound n * 2) bound = backoff initial bound (Suc n)"
  by (auto simp: backoff_def)

lemma backoff_ge: "initial \<le> bound \<Longrightarrow> initial \<le> backoff initial bound n"
  by (simp add: backoff_def)

definition holds_work :: "leader \<Rightarrow> string \<Rightarrow> bool" where
  "holds_work l x = (case running l of
     Some a \<Rightarrow> action_covers a x
   | None \<Rightarrow> (case pending (sched l) of None \<Rightarrow> False | Some q \<Rightarrow> covers q x))"

definition holds_full :: "leader \<Rightarrow> bool" where
  "holds_full l = (case running l of
     Some a \<Rightarrow> a = Act_Full
   | None \<Rightarrow> pending (sched l) = Some Pending_Full)"

definition leader_ok :: "schedule_policy \<Rightarrow> leader \<Rightarrow> bool" where
  "leader_ok p l \<longleftrightarrow> sched_ok p (sched l) \<and> times_ok p (clock l) (sched l) \<and>
     option_all (\<lambda>a. pending (sched l) = None \<and> a \<noteq> Act_Paths []) (running l) \<and>
     (ended l = None \<longrightarrow> (\<forall>x\<in>owed l. holds_work l x) \<and> (owed_full l \<longrightarrow> holds_full l))"

definition backoff_ok :: "schedule_policy \<Rightarrow> leader \<Rightarrow> bool" where
  "backoff_ok p l \<longleftrightarrow> policy (sched l) = p \<and>
     retry_delay (sched l) = backoff (retry_initial_delay p) (retry_max_delay p) (failures l) \<and>
     full_delay (sched l) = backoff (full_initial_delay p) (full_max_delay p) (full_runs l) \<and>
     option_all (\<lambda>c. last_full l = Some c) (last_full_completed (sched l)) \<and>
     option_all (\<lambda>c. c + full_reset_after p \<le> clock l \<or>
         (\<exists>t. next_full_not_before (sched l) = Some t \<and> c + full_initial_delay p \<le> t)) (last_full l)"

lemma covers_merge:
  "covers q x \<Longrightarrow> pending s = Some q \<Longrightarrow> \<exists>r. pending (merge_paths xs s) = Some r \<and> covers r x"
  by (auto simp: merge_paths_def Let_def intro: covers_bound)

lemma covers_merge_new: "x \<in> set xs \<Longrightarrow> \<exists>r. pending (merge_paths xs s) = Some r \<and> covers r x"
  by (auto simp: merge_paths_def Let_def intro!: covers_bound)

lemma merge_full: "pending s = Some Pending_Full \<Longrightarrow> pending (merge_paths xs s) = Some Pending_Full"
  by (auto simp: merge_paths_def Let_def pending_extend_def)

lemma schedule_covers:
  assumes "(\<exists>q. pending s = Some q \<and> covers q x) \<or> x \<in> message_paths db m"
  shows "\<exists>q. pending (schedule_watcher_message db m now s) = Some q \<and> covers q x"
  using assms
  by (cases m) (auto simp: schedule_watcher_message_def message_paths_def enqueue_def Let_def filter_empty_conv
      intro: covers_merge covers_merge_new)

lemma schedule_full:
  "pending s = Some Pending_Full \<or> m = ReconcileRequired \<Longrightarrow>
   pending (schedule_watcher_message db m now s) = Some Pending_Full"
  by (cases m) (auto simp: schedule_watcher_message_def enqueue_def Let_def merge_full)

lemma schedule_fields:
  "policy (schedule_watcher_message db m now s) = policy s"
  "retry_delay (schedule_watcher_message db m now s) = retry_delay s"
  "next_full_not_before (schedule_watcher_message db m now s) =
     (if message_enqueued db m \<and> backoff_stable s now then None else next_full_not_before s)"
  "last_full_completed (schedule_watcher_message db m now s) =
     (if message_enqueued db m \<and> backoff_stable s now then None else last_full_completed s)"
  "full_delay (schedule_watcher_message db m now s) =
     (if message_enqueued db m \<and> backoff_stable s now then full_initial_delay (policy s) else full_delay s)"
  by (auto simp: schedule_watcher_message_def message_enqueued_def message_paths_def Let_def filter_empty_conv
      reset_full_backoff_after_stability_def split: watcher_message.split)

lemma failure_covers:
  "action_covers a x \<Longrightarrow> \<exists>q. pending (finish_failure a now s) = Some q \<and> covers q x"
  using covers_merge_new [of x _ s] by (cases a) (auto simp: finish_failure_def Let_def)

lemma failure_full: "pending (finish_failure Act_Full now s) = Some Pending_Full"
  by (simp add: finish_failure_def Let_def)

lemma failure_fields:
  "policy (finish_failure a now s) = policy s"
  "retry_delay (finish_failure a now s) = min (retry_delay s * 2) (retry_max_delay (policy s))"
  "full_delay (finish_failure a now s) = full_delay s"
  "next_full_not_before (finish_failure a now s) = next_full_not_before s"
  "last_full_completed (finish_failure a now s) = last_full_completed s"
  by (cases a; simp add: finish_failure_def Let_def)+

lemma success_fields:
  "policy (finish_success a now s) = policy s"
  "pending (finish_success a now s) = pending s"
  "retry_delay (finish_success a now s) = retry_initial_delay (policy s)"
  "full_delay (finish_success a now s) =
     (if a = Act_Full then min (full_delay s * 2) (full_max_delay (policy s)) else full_delay s)"
  "next_full_not_before (finish_success a now s) =
     (if a = Act_Full then Some (now + full_delay s) else next_full_not_before s)"
  "last_full_completed (finish_success a now s) = (if a = Act_Full then Some now else last_full_completed s)"
  by (auto simp: finish_success_def Let_def)

lemma take_fields:
  "policy (snd (take_ready now s)) = policy s"
  "retry_delay (snd (take_ready now s)) = retry_delay s"
  "full_delay (snd (take_ready now s)) = full_delay s"
  "next_full_not_before (snd (take_ready now s)) = next_full_not_before s"
  "last_full_completed (snd (take_ready now s)) = last_full_completed s"
  by (auto simp: take_ready_def split: option.split)

text \<open>The three ways an action can end, as seen by the loop.\<close>

lemma finish_action_cases [consumes 0, case_names success stop failure]:
  obtains
    "outcome = Inr ()"
    "finish_action outcome cancelled a l =
       l\<lparr>sched := finish_success a (clock l) (sched l), running := None, failures := 0,
         owed := (case a of Act_Paths ps \<Rightarrow> owed l - set ps | Act_Full \<Rightarrow> {}),
         owed_full := (owed_full l \<and> a \<noteq> Act_Full),
         full_runs := (if a = Act_Full then Suc (full_runs l) else full_runs l),
         last_full := (if a = Act_Full then Some (clock l) else last_full l)\<rparr>"
  | r where "finish_action outcome cancelled a l = l\<lparr>running := None, ended := Some r\<rparr>"
  | "finish_action outcome cancelled a l =
       l\<lparr>sched := finish_failure a (clock l) (sched l), running := None, failures := Suc (failures l)\<rparr>"
proof -
  have eq: "l\<lparr>sched := sched l, running := r, ended := e\<rparr> = l\<lparr>running := r, ended := e\<rparr>" for r e
    by (cases l) simp
  consider (ok) "outcome = Inr ()"
    | (cancel) "outcome = Inl Err_Cancelled" "cancelled"
    | (terminal) e where "outcome = Inl e" "\<not> (e = Err_Cancelled \<and> cancelled)" "is_terminal_index_error e"
    | (retry) e where "outcome = Inl e" "\<not> (e = Err_Cancelled \<and> cancelled)" "\<not> is_terminal_index_error e"
    by (cases outcome) auto
  then show ?thesis
  proof cases
    case ok
    then show ?thesis by (intro that(1); cases a; simp add: finish_action_def execute_watcher_action_def Let_def)
  next
    case cancel
    then show ?thesis
      by (intro that(2) [of "Inr ()"]) (simp add: finish_action_def execute_watcher_action_def eq)
  next
    case (terminal e)
    then show ?thesis
      by (intro that(2) [of "Inl e"]) (simp add: finish_action_def execute_watcher_action_def eq)
  next
    case (retry e)
    then show ?thesis by (intro that(3)) (auto simp: finish_action_def execute_watcher_action_def)
  qed
qed

lemma holds_clock [simp]:
  "holds_work (l\<lparr>clock := c\<rparr>) x = holds_work l x"
  "holds_full (l\<lparr>clock := c\<rparr>) = holds_full l"
  by (simp_all add: holds_work_def holds_full_def cong: option.case_cong)

lemma holds_idle [simp]:
  "running l = None \<Longrightarrow> holds_work l x \<longleftrightarrow> (\<exists>q. pending (sched l) = Some q \<and> covers q x)"
  "running l = None \<Longrightarrow> holds_full l \<longleftrightarrow> pending (sched l) = Some Pending_Full"
  by (auto simp: holds_work_def holds_full_def split: option.splits)

lemma holds_busy [simp]:
  "running l = Some a \<Longrightarrow> holds_work l x \<longleftrightarrow> action_covers a x"
  "running l = Some a \<Longrightarrow> holds_full l \<longleftrightarrow> a = Act_Full"
  by (simp_all add: holds_work_def holds_full_def)

lemma leader_ok_step:
  assumes "leader_step db l l'" "leader_ok p l" "policy_ok p"
  shows "leader_ok p l'"
  using assms(1)
proof (cases rule: leader_step.cases)
  case (Elapse d)
  then show ?thesis using assms(2)
    by (auto simp: leader_ok_def elim: times_ok_later)
next
  case (Receive m)
  have "policy (sched l) = p" using assms(2) by (simp add: leader_ok_def sched_ok_def)
  moreover have "holds_work (receive db m l) x" if "holds_work l x \<or> x \<in> message_paths db m" for x
    using that Receive schedule_covers [of "sched l" x db m "clock l"] by (simp add: receive_def)
  ultimately show ?thesis using Receive assms(2,3)
    by (auto simp: leader_ok_def receive_def sched_ok_schedule schedule_full intro!: times_ok_schedule)
next
  case (Start a)
  then show ?thesis
    using assms(2) take_ready_action [of p "sched l" "clock l" a]
    by (auto simp: leader_ok_def start_action_def sched_ok_take times_ok_take)
next
  case (Finish a outcome cancelled)
  have pol: "policy (sched l) = p" using assms(2) by (simp add: leader_ok_def sched_ok_def)
  show ?thesis
  proof (cases rule: finish_action_cases [of outcome cancelled a l])
    case success
    then show ?thesis using Finish assms(2,3) pol
      by (cases a) (auto simp: leader_ok_def sched_ok_success times_ok_success)
  next
    case (stop r)
    then show ?thesis using Finish assms(2) by (auto simp: leader_ok_def)
  next
    case failure
    then show ?thesis using Finish assms(2) pol failure_covers [of a _ "clock l" "sched l"]
      by (auto simp: leader_ok_def sched_ok_failure times_ok_failure failure_full)
  qed
qed

lemma backoff_ok_step:
  assumes "leader_step db l l'" "backoff_ok p l" "policy_ok p"
  shows "backoff_ok p l'"
  using assms(1)
proof (cases rule: leader_step.cases)
  case (Elapse d)
  then show ?thesis using assms(2) by (auto simp: backoff_ok_def elim!: option_all_mono)
next
  case (Receive m)
  show ?thesis
  proof (cases "message_enqueued db m \<and> backoff_stable (sched l) (clock l)")
    case True
    then have "option_all (\<lambda>c. c + full_reset_after p \<le> clock l) (last_full l)"
      using assms(2) by (auto simp: backoff_stable_def backoff_ok_def split: option.splits)
    then show ?thesis using Receive assms(2,3) True
      by (auto simp: backoff_ok_def receive_def schedule_fields policy_ok_def backoff_0 elim: option_all_mono)
  qed (use Receive assms(2) in \<open>auto simp: backoff_ok_def receive_def schedule_fields\<close>)
next
  case (Start a)
  then show ?thesis using assms(2) by (simp add: backoff_ok_def start_action_def take_fields)
next
  case (Finish a outcome cancelled)
  show ?thesis
  proof (cases rule: finish_action_cases [of outcome cancelled a l])
    case success
    then show ?thesis using Finish assms(2,3)
      by (auto simp: backoff_ok_def success_fields policy_ok_def backoff_0 backoff_Suc backoff_ge)
  next
    case (stop r)
    then show ?thesis using Finish assms(2) by (simp add: backoff_ok_def)
  next
    case failure
    then show ?thesis using Finish assms(2) by (simp add: backoff_ok_def failure_fields backoff_Suc)
  qed
qed

lemma reachable_ok:
  assumes "leader_reachable db p l" "policy_ok p"
  shows "leader_ok p l \<and> backoff_ok p l"
  using assms(1)
proof induction
  case Init
  show ?case using assms(2)
    by (simp add: leader_ok_def backoff_ok_def leader_new_def sched_ok_with_policy times_ok_def
        policy_ok_def backoff_0) (simp add: with_policy_def backoff_0)
next
  case (Step l l')
  then show ?case using assms(2) leader_ok_step backoff_ok_step by blast
qed

lemma take_ready_at_deadline:
  assumes "sched_ok p s" "pending s = Some q" "covers q x"
  shows "\<exists>d. next_deadline s = Some d \<and> (\<forall>t\<ge>d. \<exists>a. fst (take_ready t s) = Some a \<and> action_covers a x)"
proof -
  obtain d where d: "next_deadline s = Some d"
    using assms(1,2) by (auto simp: sched_ok_def next_deadline_def Let_def split: option.splits)
  have "\<exists>a. fst (take_ready t s) = Some a \<and> action_covers a x" if "d \<le> t" for t
    using assms d that by (cases q) (auto simp: take_ready_def sched_ok_def)
  with d show ?thesis by blast
qed

section \<open>Properties\<close>

text \<open>The leader never loses a change.  While the loop runs, every path reported by the watcher
  since it was last reconciled (database artifacts aside) is either covered by the action in progress
  or pending in the scheduler; pending work has a deadline no further away than the longest of the
  quiet period and the two backoff caps, and from that deadline on \<open>take_ready\<close> yields an action that
  covers the path.\<close>

lemma leader_never_loses_changes:
  assumes "policy_ok p" "leader_reachable is_artifact p l" "ended l = None" "x \<in> owed l"
  shows "case running l of
      Some a \<Rightarrow> action_covers a x
    | None \<Rightarrow> (\<exists>d. next_deadline (sched l) = Some d \<and>
        d \<le> clock l + max (quiet_period p) (max (retry_max_delay p) (full_max_delay p)) \<and>
        (\<forall>t\<ge>d. \<exists>a. fst (take_ready t (sched l)) = Some a \<and> action_covers a x))"
proof (cases "running l")
  case None
  have ok: "leader_ok p l" using reachable_ok assms by blast
  obtain q where "pending (sched l) = Some q" "covers q x"
    using ok assms(3,4) None by (auto simp: leader_ok_def)
  then show ?thesis
    using take_ready_at_deadline [of p "sched l" q x] ok next_deadline_bound None
    by (auto simp: leader_ok_def)
next
  case (Some a)
  then show ?thesis using reachable_ok [OF assms(2,1)] assms(3,4) by (auto simp: leader_ok_def)
qed

definition sample_leader :: leader where
  "sample_leader = receive (\<lambda>p. p = ''db'') (Changed [''b'', ''a'', ''db'']) (leader_new (runtime_policy 200))"

lemmas reachable_step =
  leader_reachable.Step [OF _ leader_step.Elapse]
  leader_reachable.Step [OF _ leader_step.Receive]
  leader_reachable.Step [OF _ leader_step.Start]
  leader_reachable.Step [OF _ leader_step.Finish]

lemma sample_leader_reachable: "leader_reachable (\<lambda>p. p = ''db'') (runtime_policy 200) sample_leader"
  unfolding sample_leader_def
  by (rule reachable_step(2), rule leader_reachable.Init) (simp_all add: leader_new_def)

lemma leader_never_loses_changes_witness:
  "\<exists>a. fst (take_ready 30200 (sched sample_leader)) = Some a \<and> action_covers a ''a''"
proof -
  have "running sample_leader = None" "ended sample_leader = None" "''a'' \<in> owed sample_leader"
    "clock sample_leader = 0"
    by (simp_all add: sample_leader_def receive_def leader_new_def message_paths_def)
  then show ?thesis
    using leader_never_loses_changes [OF runtime_policy_ok sample_leader_reachable, of "''a''"]
    by (auto simp: runtime_policy_def)
qed

text \<open>The delays follow the documented backoff exactly: after \<open>n\<close> failures in a row the next retry
  delay is the initial delay doubled \<open>n\<close> times, capped; after \<open>n\<close> full reconciliations since the last
  stable period the full cooldown is its initial delay doubled \<open>n\<close> times, capped.\<close>

lemma leader_backoff_exact:
  assumes "policy_ok p" "leader_reachable is_artifact p l"
  shows "retry_delay (sched l) = min (retry_initial_delay p * 2 ^ failures l) (retry_max_delay p) \<and>
    full_delay (sched l) = min (full_initial_delay p * 2 ^ full_runs l) (full_max_delay p)"
  using reachable_ok [OF assms(2,1)] by (simp add: backoff_ok_def backoff_def)

lemma leader_backoff_exact_witness: "retry_delay (sched sample_leader) = 500"
proof -
  have "failures sample_leader = 0" by (simp add: sample_leader_def receive_def leader_new_def)
  then show ?thesis
    using leader_backoff_exact [OF runtime_policy_ok sample_leader_reachable]
    by (simp add: runtime_policy_def)
qed

text \<open>Full reconciliations are rate limited: whatever the watcher reports, a full action is only
  taken once the initial full cooldown, or the stability period that resets it, has passed since the
  last one completed.\<close>

lemma full_reconciliation_cooldown:
  assumes "policy_ok p" "leader_reachable is_artifact p l" "last_full l = Some c"
    and "fst (take_ready (clock l) (sched l)) = Some Act_Full"
  shows "c + min (full_initial_delay p) (full_reset_after p) \<le> clock l"
proof -
  have "backoff_ok p l" using reachable_ok assms by blast
  then consider "c + full_reset_after p \<le> clock l"
    | t where "next_full_not_before (sched l) = Some t" "c + full_initial_delay p \<le> t"
    using assms(3) by (auto simp: backoff_ok_def)
  then show ?thesis
  proof cases
    case 2
    have "pending (sched l) = Some Pending_Full"
      using assms(4) by (auto simp: take_ready_def split: option.splits if_splits pending_reconciliation.splits)
    then show ?thesis using 2 assms(4)
      by (auto simp: take_ready_def next_deadline_def not_before_def Let_def split: option.splits if_splits)
  qed simp
qed

definition sample_cooled :: leader where
  "sample_cooled =
     (let l = receive (\<lambda>_. False) ReconcileRequired (leader_new (runtime_policy 0));
          l = finish_action (Inr ()) False Act_Full (start_action Act_Full l);
          l = receive (\<lambda>_. False) ReconcileRequired l in
      l\<lparr>clock := clock l + 1000\<rparr>)"

lemma sample_cooled_reachable: "leader_reachable (\<lambda>_. False) (runtime_policy 0) sample_cooled"
  unfolding sample_cooled_def Let_def
  by (rule reachable_step(1), rule reachable_step(2), rule reachable_step(4), rule reachable_step(3),
      rule reachable_step(2), rule leader_reachable.Init) code_simp+

lemma full_reconciliation_cooldown_witness:
  "last_full sample_cooled = Some 0 \<and> 0 + min 1000 60000 \<le> clock sample_cooled"
proof -
  have *: "last_full sample_cooled = Some 0"
    "fst (take_ready (clock sample_cooled) (sched sample_cooled)) = Some Act_Full" by code_simp+
  show ?thesis
    using full_reconciliation_cooldown [OF runtime_policy_ok sample_cooled_reachable *] *(1)
    by (simp add: runtime_policy_def)
qed

text \<open>A path action handed to the indexer is non-empty, sorted, without duplicates, and never longer
  than the configured bound on pending paths; overflow turns into a full reconciliation instead.\<close>

lemma ready_paths_bounded:
  assumes "policy_ok p" "leader_reachable is_artifact p l"
    and "fst (take_ready t (sched l)) = Some (Act_Paths xs)"
  shows "xs \<noteq> [] \<and> sorted xs \<and> distinct xs \<and> length xs \<le> max_pending_paths p"
proof -
  have ok: "sched_ok p (sched l)" using reachable_ok [OF assms(2,1)] by (simp add: leader_ok_def)
  obtain ps where "pending (sched l) = Some (Pending_Paths ps)" "xs = sorted_list_of_set ps"
    using assms(3) by (auto simp: take_ready_def split: option.splits if_splits pending_reconciliation.splits)
  with ok show ?thesis by (auto simp: sched_ok_def pending_empty_def)
qed

lemma ready_paths_bounded_witness:
  "fst (take_ready 200 (sched sample_leader)) = Some (Act_Paths [''a'', ''b'']) \<and> sorted [''a'', ''b'']"
proof -
  have *: "fst (take_ready 200 (sched sample_leader)) = Some (Act_Paths [''a'', ''b''])" by code_simp
  show ?thesis using * ready_paths_bounded [OF runtime_policy_ok sample_leader_reachable *] by blast
qed

end
