(* ===== verification/Repo_Scope.thy ===== *)
theory Repo_Scope
  imports Repo_Path
begin

text \<open>
  The indexing boundary of \<open>src/repository/scope.rs\<close>: \<open>ScopeMatcher\<close> and \<open>IndexScope\<close>, which decide for
  every file whether it is indexed and for every directory whether the walk may skip it. The BLAKE3
  hex digest is the parameter \<open>b3\<close>.
\<close>

section \<open>Matchers\<close>

definition max_index_scope_patterns :: nat where "max_index_scope_patterns = 64"
definition max_index_scope_pattern_bytes :: nat where "max_index_scope_pattern_bytes = 1024"
definition max_index_scope_total_bytes :: nat where "max_index_scope_total_bytes = 16 * 1024"
definition index_scope_digest_hex_chars :: nat where "index_scope_digest_hex_chars = 16"

record scope_matcher =
  sm_matcher :: pattern_set
  sm_static_prefixes :: "string list"
  sm_excluded_subtree_roots :: "string list"

definition static_prefix :: "string \<Rightarrow> string" where
  "static_prefix pattern = str_join ''/'' (takeWhile (\<lambda>c. \<not> has_glob_meta c) (split_char CHR ''/'' pattern))"

definition excluded_subtree_root :: "string \<Rightarrow> string option" where
  "excluded_subtree_root pattern =
     (if \<not> has_glob_meta pattern then Some pattern
      else case strip_suffix pattern ''/**'' of
        Some root \<Rightarrow> if has_glob_meta root then None else Some root
      | None \<Rightarrow> None)"

definition sort_dedup :: "string list \<Rightarrow> string list" where
  "sort_dedup xs = remdups_adj (sort xs)"

definition scope_matcher_compile :: "glob_lib \<Rightarrow> string list \<Rightarrow> bool \<Rightarrow> scope_matcher repo_result" where
  "scope_matcher_compile gl patterns exclusions =
     (case pattern_set_new gl patterns of
        Inl e \<Rightarrow> Inl e
      | Inr ps \<Rightarrow> Inr
          \<lparr>sm_matcher = ps,
           sm_static_prefixes = map static_prefix patterns,
           sm_excluded_subtree_roots =
             sort_dedup (if exclusions then List.map_filter excluded_subtree_root patterns else [])\<rparr>)"

definition sm_matches :: "glob_lib \<Rightarrow> scope_matcher \<Rightarrow> string \<Rightarrow> bool" where
  "sm_matches gl sm path = is_match gl (sm_matcher sm) path"

definition excludes_directory :: "glob_lib \<Rightarrow> scope_matcher \<Rightarrow> string \<Rightarrow> bool" where
  "excludes_directory gl sm path \<longleftrightarrow>
     list_ex (\<lambda>root. path_is_within path root) (sm_excluded_subtree_roots sm) \<or> sm_matches gl sm path"

definition may_match_descendant :: "scope_matcher \<Rightarrow> string \<Rightarrow> bool" where
  "may_match_descendant sm directory \<longleftrightarrow>
     list_ex (\<lambda>prefix. prefix = [] \<or> path_is_within directory prefix \<or> path_is_within prefix directory)
       (sm_static_prefixes sm)"

section \<open>Scopes\<close>

definition repo_error_text :: "repo_error \<Rightarrow> string" where
  "repo_error_text e =
     (case e of
        InputTooLong field max_bytes \<Rightarrow> field @ '' exceeds '' @ show_nat max_bytes @ '' bytes''
      | InvalidInput field reason \<Rightarrow> ''invalid '' @ field @ '': '' @ reason
      | PathOutsideRoot p \<Rightarrow> ''path escapes repository root: '' @ p
      | LimitExceeded \<Rightarrow> ''requested content exceeds the configured limit''
      | GlobError t \<Rightarrow> ''glob error: '' @ t
      | InvalidConfiguration t \<Rightarrow> ''invalid repository configuration: '' @ t)"

definition normalize_scope_pattern :: "glob_lib \<Rightarrow> string \<Rightarrow> string repo_result" where
  "normalize_scope_pattern gl pattern =
     (if max_index_scope_pattern_bytes < length pattern then
        Inl (InvalidConfiguration (''index scope pattern exceeds '' @ show_nat max_index_scope_pattern_bytes @ '' bytes''))
      else case repository_pattern_parse gl pattern of
        Inl e \<Rightarrow> Inl (InvalidConfiguration (repo_error_text e))
      | Inr p \<Rightarrow> Inr p)"

record index_scope =
  sc_includes :: "string list"
  sc_excludes :: "string list"
  sc_include_matcher :: scope_matcher
  sc_exclude_matcher :: scope_matcher
  sc_digest :: "string option"

definition scope_digest_material :: "string list \<Rightarrow> string list \<Rightarrow> string" where
  "scope_digest_material includes excludes =
     ''leantoken-index-scope-v2'' @ [CHR 0x00]
     @ concat (map (\<lambda>p. ''include'' @ [CHR 0x00] @ p @ [CHR 0x00]) includes)
     @ concat (map (\<lambda>p. ''exclude'' @ [CHR 0x00] @ p @ [CHR 0x00]) excludes)"

definition index_scope_new ::
  "(string \<Rightarrow> string) \<Rightarrow> glob_lib \<Rightarrow> string list \<Rightarrow> string list \<Rightarrow> index_scope repo_result" where
  "index_scope_new b3 gl includes0 excludes0 =
     (case collect_results (map (normalize_scope_pattern gl) includes0) of
        Inl e \<Rightarrow> Inl e
      | Inr includes1 \<Rightarrow>
     (case collect_results (map (normalize_scope_pattern gl) excludes0) of
        Inl e \<Rightarrow> Inl e
      | Inr excludes1 \<Rightarrow>
      if max_index_scope_patterns < sat_add (length includes1) (length excludes1) then
        Inl (InvalidConfiguration (''index scope accepts at most '' @ show_nat max_index_scope_patterns @ '' patterns''))
      else if max_index_scope_total_bytes < sum_list (map length (includes1 @ excludes1)) then
        Inl (InvalidConfiguration (''index scope patterns exceed '' @ show_nat max_index_scope_total_bytes @ '' total bytes''))
      else
        let includes = sort_dedup includes1; excludes = sort_dedup excludes1 in
        case scope_matcher_compile gl includes False of
          Inl e \<Rightarrow> Inl e
        | Inr im \<Rightarrow>
            (case scope_matcher_compile gl excludes True of
               Inl e \<Rightarrow> Inl e
             | Inr em \<Rightarrow> Inr
                 \<lparr>sc_includes = includes, sc_excludes = excludes,
                  sc_include_matcher = im, sc_exclude_matcher = em,
                  sc_digest = (if includes = [] \<and> excludes = [] then None
                               else Some (b3 (scope_digest_material includes excludes)))\<rparr>)))"

definition scope_is_full :: "index_scope \<Rightarrow> bool" where
  "scope_is_full sc \<longleftrightarrow> sc_digest sc = None"

definition scope_public_digest :: "index_scope \<Rightarrow> string option" where
  "scope_public_digest sc = map_option (take index_scope_digest_hex_chars) (sc_digest sc)"

definition identity_material :: "index_scope \<Rightarrow> string" where
  "identity_material sc = (case sc_digest sc of None \<Rightarrow> ''full'' | Some d \<Rightarrow> d)"

definition includes_path :: "glob_lib \<Rightarrow> index_scope \<Rightarrow> string \<Rightarrow> bool \<Rightarrow> bool" where
  "includes_path gl sc path is_directory =
     (if path = [] then True
      else if is_directory \<and> excludes_directory gl (sc_exclude_matcher sc) path
              \<or> \<not> is_directory \<and> sm_matches gl (sc_exclude_matcher sc) path then False
      else if sc_includes sc = [] then True
      else if is_directory then
        sm_matches gl (sc_include_matcher sc) path \<or> may_match_descendant (sc_include_matcher sc) path
      else sm_matches gl (sc_include_matcher sc) path)"

definition may_include_descendant :: "glob_lib \<Rightarrow> index_scope \<Rightarrow> string \<Rightarrow> bool" where
  "may_include_descendant gl sc directory =
     (if directory \<noteq> [] \<and> excludes_directory gl (sc_exclude_matcher sc) directory then False
      else sc_includes sc = [] \<or> directory = []
        \<or> sm_matches gl (sc_include_matcher sc) directory
        \<or> may_match_descendant (sc_include_matcher sc) directory)"

section \<open>Walk pruning\<close>

text \<open>What the glob engine documents of a pattern's leading literal components: a match starts with
  them.\<close>

definition glob_respects_static_prefix :: "glob_lib \<Rightarrow> bool" where
  "glob_respects_static_prefix gl \<longleftrightarrow>
     (\<forall>gs path. globset_match gl gs path \<longrightarrow>
        (\<exists>g \<in> set gs. prefix (takeWhile (\<lambda>c. \<not> has_glob_meta c) (split_char CHR ''/'' g)) (split_char CHR ''/'' path)))"

lemma set_sort_dedup [simp]: "set (sort_dedup xs) = set xs"
  by (simp add: sort_dedup_def)

lemma collect_results_Inr: "collect_results rs = Inr xs \<Longrightarrow> rs = map Inr xs"
  by (induction rs arbitrary: xs rule: collect_results.induct) (auto split: sum.splits)

lemma pattern_parse_Inr:
  "repository_pattern_parse gl v = Inr p \<Longrightarrow>
     normalize_repository_value v ''path pattern'' False max_repository_path_bytes = Inr p"
  by (auto simp: repository_pattern_parse_def split: sum.splits if_splits)

text \<open>Recompiling normalized patterns keeps them.\<close>

lemma reparse_pattern:
  assumes "repository_pattern_parse gl v = Inr p" "repository_pattern_parse gl' p = Inr q"
  shows "q = p"
  using renormalize [OF pattern_parse_Inr [OF assms(1)]] pattern_parse_Inr [OF assms(2)]
  by (auto split: if_splits)

lemma pattern_set_new_normalized:
  assumes "pattern_set_new gl pats = Inr ps" "\<And>p. p \<in> set pats \<Longrightarrow> \<exists>v. repository_pattern_parse gl v = Inr p"
  shows "ps_literals ps = filter (\<lambda>p. \<not> has_glob_meta p) pats \<and> ps_globs ps = filter has_glob_meta pats"
proof -
  obtain qs where qs: "collect_results (map (repository_pattern_parse gl) pats) = Inr qs"
    "pattern_set_compile gl qs = Inr ps"
    using assms(1) by (auto simp: pattern_set_new_def split: if_splits sum.splits)
  then have m: "map (repository_pattern_parse gl) pats = map Inr qs" by (simp add: collect_results_Inr)
  have "qs = pats"
  proof (rule nth_equalityI)
    show "length qs = length pats" using map_eq_imp_length_eq [OF m] by simp
  next
    fix i assume i: "i < length qs"
    then have l: "i < length pats" using map_eq_imp_length_eq [OF m] by simp
    have "repository_pattern_parse gl (pats ! i) = Inr (qs ! i)"
      using arg_cong [OF m, of "\<lambda>l. l ! i"] i l by simp
    then show "qs ! i = pats ! i" using assms(2) [of "pats ! i"] l reparse_pattern by fastforce
  qed
  then show ?thesis
    using qs(2) by (auto simp: pattern_set_compile_def Let_def split: if_splits option.splits)
qed

lemma static_prefix_split:
  assumes "static_prefix p \<noteq> []"
  shows "split_char CHR ''/'' (static_prefix p) = takeWhile (\<lambda>c. \<not> has_glob_meta c) (split_char CHR ''/'' p)"
proof -
  let ?cs = "takeWhile (\<lambda>c. \<not> has_glob_meta c) (split_char CHR ''/'' p)"
  have "?cs \<noteq> []" using assms by (auto simp: static_prefix_def)
  moreover have "CHR ''/'' \<notin> set w" if "w \<in> set ?cs" for w
    using set_takeWhileD [OF that] split_char_pieces [of w "CHR ''/''" p "CHR ''/''"] by auto
  ultimately show ?thesis unfolding static_prefix_def by (rule split_join)
qed

text \<open>Two ancestors of one path are comparable.\<close>

lemma may_match_descendant_prefix:
  assumes "p \<in> set pats" "sm_static_prefixes sm = map static_prefix pats"
    "prefix (takeWhile (\<lambda>c. \<not> has_glob_meta c) (split_char CHR ''/'' p)) (split_char CHR ''/'' f)"
    "path_is_within f d"
  shows "may_match_descendant sm d"
proof (cases "static_prefix p = []")
  case True
  then show ?thesis using assms(1,2) by (force simp: may_match_descendant_def list_ex_iff)
next
  case False
  have "prefix (split_char CHR ''/'' (static_prefix p)) (split_char CHR ''/'' f)"
    using assms(3) static_prefix_split [OF False] by simp
  moreover have "prefix (split_char CHR ''/'' d) (split_char CHR ''/'' f)"
    using assms(4) by (simp add: path_is_within_components)
  ultimately have "path_is_within d (static_prefix p) \<or> path_is_within (static_prefix p) d"
    using prefix_same_cases unfolding path_is_within_components by blast
  then show ?thesis using assms(1,2) by (force simp: may_match_descendant_def list_ex_iff)
qed

lemma include_match_keeps_directory:
  assumes "glob_respects_static_prefix gl" "scope_matcher_compile gl pats ex = Inr sm"
    "\<And>p. p \<in> set pats \<Longrightarrow> \<exists>v. repository_pattern_parse gl v = Inr p"
    "sm_matches gl sm f" "path_is_within f d"
  shows "may_match_descendant sm d"
proof -
  obtain ps where ps: "pattern_set_new gl pats = Inr ps" "sm_matcher sm = ps"
    "sm_static_prefixes sm = map static_prefix pats"
    using assms(2) by (auto simp: scope_matcher_compile_def split: sum.splits)
  have lits: "ps_literals ps = filter (\<lambda>p. \<not> has_glob_meta p) pats" "ps_globs ps = filter has_glob_meta pats"
    using pattern_set_new_normalized [OF ps(1) assms(3)] by auto
  have "\<exists>p \<in> set pats. prefix (takeWhile (\<lambda>c. \<not> has_glob_meta c) (split_char CHR ''/'' p)) (split_char CHR ''/'' f)"
    using assms(4) unfolding sm_matches_def is_match_def ps(2)
  proof
    assume "list_ex (\<lambda>l. path_is_within f l) (ps_literals ps)"
    then obtain l where l: "l \<in> set pats" "path_is_within f l" by (auto simp: list_ex_iff lits)
    have "prefix (takeWhile (\<lambda>c. \<not> has_glob_meta c) (split_char CHR ''/'' l)) (split_char CHR ''/'' l)"
      by (rule takeWhile_is_prefix)
    then show ?thesis using l path_is_within_components prefix_order.trans by blast
  next
    assume "ps_globs ps \<noteq> [] \<and> globset_match gl (ps_globs ps) f"
    then show ?thesis using assms(1) lits(2) unfolding glob_respects_static_prefix_def by fastforce
  qed
  then show ?thesis using may_match_descendant_prefix [OF _ ps(3) _ assms(5)] by blast
qed

lemma path_is_within_trans: "path_is_within f d \<Longrightarrow> path_is_within d r \<Longrightarrow> path_is_within f r"
  unfolding path_is_within_components by (rule prefix_order.trans)

lemma exclude_literal_subtree:
  assumes "scope_matcher_compile gl pats True = Inr sm" "list_all (\<lambda>p. \<not> has_glob_meta p) pats"
    "\<And>p. p \<in> set pats \<Longrightarrow> \<exists>v. repository_pattern_parse gl v = Inr p"
    "excludes_directory gl sm d" "path_is_within f d"
  shows "sm_matches gl sm f"
proof -
  obtain ps where ps: "pattern_set_new gl pats = Inr ps" "sm_matcher sm = ps"
    "sm_excluded_subtree_roots sm = sort_dedup (List.map_filter excluded_subtree_root pats)"
    using assms(1) by (auto simp: scope_matcher_compile_def split: sum.splits)
  have lits: "ps_literals ps = pats" "ps_globs ps = []"
    using pattern_set_new_normalized [OF ps(1) assms(3)] assms(2) by (auto simp: list_all_iff filter_empty_conv)
  have "set (sm_excluded_subtree_roots sm) \<subseteq> set pats"
    using assms(2) by (auto simp: ps(3) map_filter_def excluded_subtree_root_def list_all_iff)
  then have "\<exists>l \<in> set pats. path_is_within d l"
    using assms(4) lits by (auto simp: excludes_directory_def sm_matches_def is_match_def list_ex_iff ps(2))
  then show ?thesis
    using lits ps(2) path_is_within_trans [OF assms(5)] by (auto simp: sm_matches_def is_match_def list_ex_iff)
qed

section \<open>Properties\<close>

lemma normalized_scope_patterns:
  assumes "collect_results (map (normalize_scope_pattern gl) raw) = Inr ps" "p \<in> set (sort_dedup ps)"
  shows "\<exists>v. repository_pattern_parse gl v = Inr p"
proof -
  have "Inr p \<in> set (map (normalize_scope_pattern gl) raw)"
    using collect_results_Inr [OF assms(1)] assms(2) by simp
  then show ?thesis by (auto simp: normalize_scope_pattern_def split: if_splits sum.splits)
qed

lemma index_scope_new_Inr:
  assumes "index_scope_new b3 gl inc exc = Inr sc"
  shows "scope_matcher_compile gl (sc_includes sc) False = Inr (sc_include_matcher sc) \<and>
    scope_matcher_compile gl (sc_excludes sc) True = Inr (sc_exclude_matcher sc) \<and>
    (\<forall>p \<in> set (sc_includes sc) \<union> set (sc_excludes sc). \<exists>v. repository_pattern_parse gl v = Inr p)"
  using assms normalized_scope_patterns [of gl]
  by (auto simp: index_scope_new_def Let_def simp del: set_sort_dedup split: sum.splits if_splits)

lemma scope_keeps_ancestors:
  assumes "glob_respects_static_prefix gl" "index_scope_new b3 gl inc exc = Inr sc"
    "list_all (\<lambda>p. \<not> has_glob_meta p) (sc_excludes sc)"
    "includes_path gl sc f False" "f \<noteq> []" "path_is_within f d"
  shows "includes_path gl sc d True \<and> may_include_descendant gl sc d"
proof -
  note new = index_scope_new_Inr [OF assms(2)]
  have "\<not> excludes_directory gl (sc_exclude_matcher sc) d"
    using exclude_literal_subtree [of gl "sc_excludes sc" "sc_exclude_matcher sc" d f] new assms(3-6)
    by (auto simp: includes_path_def split: if_splits)
  moreover have "may_match_descendant (sc_include_matcher sc) d" if "sc_includes sc \<noteq> []"
    using include_match_keeps_directory [OF assms(1), of "sc_includes sc" False "sc_include_matcher sc" f d]
      new assms(4-6) that by (auto simp: includes_path_def split: if_splits)
  ultimately show ?thesis by (auto simp: includes_path_def may_include_descendant_def)
qed

text \<open>C32: Skipping directories never hides an indexed file: when a file is in scope, every directory
  that contains it is kept by the walk, provided no exclude pattern is a glob and globs respect their
  leading literal components.\<close>

theorem scope_pruning_sound:
  assumes "glob_respects_static_prefix gl" "index_scope_new b3 gl inc exc = Inr sc"
    "list_all (\<lambda>p. \<not> has_glob_meta p) (sc_excludes sc)"
    "includes_path gl sc f False" "f \<noteq> []" "path_is_within f d"
  shows "includes_path gl sc d True \<and> may_include_descendant gl sc d"
  by (rule scope_keeps_ancestors [OF assms])

theorem scope_pruning_sound_witness:
  "\<exists>sc. index_scope_new id no_globs [''src''] [''src/gen''] = Inr sc \<and>
     includes_path no_globs sc ''src/core'' True \<and> may_include_descendant no_globs sc ''src/core''"
proof -
  have "case index_scope_new id no_globs [''src''] [''src/gen''] of Inl _ \<Rightarrow> False
      | Inr sc \<Rightarrow> list_all (\<lambda>p. \<not> has_glob_meta p) (sc_excludes sc) \<and> includes_path no_globs sc ''src/core/a.rs'' False"
    by code_simp
  then obtain sc where sc: "index_scope_new id no_globs [''src''] [''src/gen''] = Inr sc"
    "list_all (\<lambda>p. \<not> has_glob_meta p) (sc_excludes sc)" "includes_path no_globs sc ''src/core/a.rs'' False"
    by (auto split: sum.splits)
  have "glob_respects_static_prefix no_globs" by (simp add: glob_respects_static_prefix_def no_globs_def)
  moreover have "path_is_within ''src/core/a.rs'' ''src/core''" by code_simp
  ultimately show ?thesis using scope_pruning_sound [OF _ sc(1,2,3)] sc(1) by blast
qed

end
