(* ===== verification/Repo_Discovery.thy ===== *)
theory Repo_Discovery
  imports Repo_Scope
begin

text \<open>
  Repository discovery (\<open>src/repository/discovery.rs\<close>): the visibility policy shared by the walk,
  the indexer and the watcher, and the bounded walk itself.  The directory walker is the crate
  \<open>ignore\<close>: the sequence of entries it yields is the argument of the walk, each with the reading of
  the cancellation token before it.  A path relative to the root is its list of components, byte
  strings that need not be UTF-8.
\<close>

section \<open>Visibility policy\<close>

definition leantoken_ignore_file :: string where
  "leantoken_ignore_file = ''.leantokenignore''"

definition generated_directory_names :: "string list" where
  "generated_directory_names =
     [''.cache'', ''.gradle'', ''.mypy_cache'', ''.npm'', ''.pnpm-store'', ''.pytest_cache'',
      ''.ruff_cache'', ''.rustup'', ''.tox'', ''.venv'', ''__pycache__'', ''node_modules'',
      ''target'', ''venv'']"

definition generated_directory_paths :: "string list list" where
  "generated_directory_paths =
     [[''.bun'', ''install'', ''cache''], [''.local'', ''share''], [''.yarn'', ''cache'']]"

text \<open>\<open>windows\<close> stands for \<open>cfg!(windows)\<close>.\<close>

definition component_eq :: "bool \<Rightarrow> string \<Rightarrow> string \<Rightarrow> bool" where
  "component_eq windows actual expected =
     (if windows then eq_ignore_ascii_case actual expected else actual = expected)"

definition is_git_metadata_path :: "string \<Rightarrow> bool" where
  "is_git_metadata_path path = list_ex (\<lambda>c. c = ''.git'') (split_char CHR ''/'' path)"

definition starts_generated :: "bool \<Rightarrow> bool \<Rightarrow> string list \<Rightarrow> string list \<Rightarrow> bool" where
  "starts_generated windows is_directory comps generated \<longleftrightarrow>
     length generated \<le> length comps \<and>
     list_all2 (component_eq windows) (take (length generated) comps) generated \<and>
     (length generated < length comps \<or> is_directory)"

text \<open>The loop over the component index, as a recursion over the suffixes it slices.\<close>

fun generated_components :: "bool \<Rightarrow> bool \<Rightarrow> string list \<Rightarrow> bool" where
  "generated_components windows is_directory [] = False"
| "generated_components windows is_directory (c # rest) =
     (if list_ex (component_eq windows c) generated_directory_names \<and> (rest \<noteq> [] \<or> is_directory) then True
      else if list_ex (starts_generated windows is_directory (c # rest)) generated_directory_paths then True
      else generated_components windows is_directory rest)"

definition is_generated_path :: "bool \<Rightarrow> string \<Rightarrow> bool \<Rightarrow> bool" where
  "is_generated_path windows relative_path is_directory =
     generated_components windows is_directory (filter (\<lambda>c. c \<noteq> []) (split_char CHR ''/'' relative_path))"

record discovery_policy =
  include_generated :: bool
  dp_index_scope :: index_scope

definition policy_includes_path :: "bool \<Rightarrow> glob_lib \<Rightarrow> discovery_policy \<Rightarrow> string \<Rightarrow> bool \<Rightarrow> bool" where
  "policy_includes_path windows gl p path is_directory \<longleftrightarrow>
     \<not> is_git_metadata_path path \<and>
     (include_generated p \<or> \<not> is_generated_path windows path is_directory) \<and>
     includes_path gl (dp_index_scope p) path is_directory"

definition is_ignore_control_path :: "string \<Rightarrow> bool" where
  "is_ignore_control_path path \<longleftrightarrow>
     path = ''.gitignore'' \<or> path = ''.ignore'' \<or> path = leantoken_ignore_file \<or>
     ends_with path ''/.gitignore'' \<or> ends_with path ''/.ignore'' \<or> ends_with path ''/.leantokenignore''"

definition includes_watch_path :: "bool \<Rightarrow> glob_lib \<Rightarrow> discovery_policy \<Rightarrow> string \<Rightarrow> bool \<Rightarrow> bool" where
  "includes_watch_path windows gl p path is_directory =
     (if policy_includes_path windows gl p path is_directory then True
      else if \<not> is_ignore_control_path path then False
      else
        let parent = (case rsplit_once CHR ''/'' path of None \<Rightarrow> [] | Some (parent, _) \<Rightarrow> parent) in
        may_include_descendant gl (dp_index_scope p) parent)"

section \<open>Limits\<close>

record discovery_limits =
  max_walk_entries :: nat
  max_files :: nat
  max_total_source_bytes :: nat
  max_depth :: nat
  max_file_bytes :: nat
  max_prepare_batch_files :: nat
  max_prepare_batch_bytes :: nat

definition limits_default :: discovery_limits where
  "limits_default =
     \<lparr> max_walk_entries = 500000, max_files = 150000, max_total_source_bytes = 2 * 1024 * 1024 * 1024,
       max_depth = 64, max_file_bytes = 2 * 1024 * 1024, max_prepare_batch_files = 256,
       max_prepare_batch_bytes = 64 * 1024 * 1024 \<rparr>"

datatype index_limit_kind = Limit_WalkEntries | Limit_Files | Limit_TotalSourceBytes | Limit_Depth

datatype discovery_error =
    Dis_Cancelled
  | Dis_Traversal
  | Dis_Metadata
  | Dis_LimitExceeded index_limit_kind nat nat
  | Dis_PathOutsideRoot
  | Dis_UnsupportedPathEncoding
  | Dis_InvalidConfiguration string

definition limits_validate :: "discovery_limits \<Rightarrow> discovery_error + unit" where
  "limits_validate l =
     (if max_walk_entries l = 0 \<or> max_files l = 0 \<or> max_total_source_bytes l = 0 \<or> max_depth l = 0
         \<or> max_file_bytes l = 0 \<or> max_prepare_batch_files l = 0 \<or> max_prepare_batch_bytes l = 0
      then Inl (Dis_InvalidConfiguration ''repository discovery limits must be positive'')
      else if max_prepare_batch_bytes l < max_file_bytes l
      then Inl (Dis_InvalidConfiguration ''max_prepare_batch_bytes must be at least max_file_bytes'')
      else Inr ())"

definition enforce_limit :: "index_limit_kind \<Rightarrow> nat \<Rightarrow> nat \<Rightarrow> discovery_error + unit" where
  "enforce_limit kind observed limit =
     (if limit < observed then Inl (Dis_LimitExceeded kind observed limit) else Inr ())"

definition increment_limit :: "nat \<Rightarrow> nat \<Rightarrow> index_limit_kind \<Rightarrow> nat \<times> (discovery_error + unit)" where
  "increment_limit current limit kind =
     (let current = sat_add current 1 in (current, enforce_limit kind current limit))"

section \<open>The walk\<close>

datatype file_kind = Kind_File | Kind_Dir | Kind_Other

record walk_entry =
  we_relative :: "string list option"
  we_depth :: nat
  we_kind :: "file_kind option"
  we_metadata :: "(nat \<times> nat option) option"

text \<open>An item: the token's reading, and the walker's entry or \<open>None\<close> for its error.\<close>

type_synonym walk_item = "bool \<times> walk_entry option"

record discovered_file =
  relative_path :: string
  size_bytes :: nat
  modified_ns :: "nat option"

record discovery_stats =
  walk_entries :: nat
  files_count :: nat
  total_source_bytes :: nat
  deepest :: nat

record walk_state =
  ws_stats :: discovery_stats
  ws_files :: "discovered_file list"
  ws_observed :: "discovery_stats list"

definition stats_default :: discovery_stats where
  "stats_default = \<lparr> walk_entries = 0, files_count = 0, total_source_bytes = 0, deepest = 0 \<rparr>"

definition walk_start :: walk_state where
  "walk_start = \<lparr> ws_stats = stats_default, ws_files = [], ws_observed = [] \<rparr>"

definition progress_interval_entries :: nat where
  "progress_interval_entries = 256"

definition checked_slash_path :: "string list \<Rightarrow> discovery_error + string" where
  "checked_slash_path comps =
     (if list_all utf8_valid comps then Inr (str_join ''/'' comps) else Inl Dis_UnsupportedPathEncoding)"

text \<open>The closure given to the walker: which entries it may yield and descend into.\<close>

definition walk_filter :: "bool \<Rightarrow> glob_lib \<Rightarrow> discovery_policy \<Rightarrow> walk_entry \<Rightarrow> bool" where
  "walk_filter windows gl p e =
     (case we_relative e of
        None \<Rightarrow> False
      | Some comps \<Rightarrow>
          (case checked_slash_path comps of
             Inl _ \<Rightarrow> True
           | Inr path \<Rightarrow> policy_includes_path windows gl p path (we_kind e = Some Kind_Dir)))"

text \<open>The part of the body after the counters: a file of admitted size that the owner includes.\<close>

definition admit_file ::
  "discovery_limits \<Rightarrow> (walk_entry \<Rightarrow> bool) \<Rightarrow> walk_entry \<Rightarrow> walk_state \<Rightarrow> discovery_error option \<times> walk_state" where
  "admit_file l incl e st =
     (if we_kind e \<noteq> Some Kind_File then (None, st)
      else case we_metadata e of
        None \<Rightarrow> (Some Dis_Metadata, st)
      | Some (len, modified) \<Rightarrow>
          if max_file_bytes l < len then (None, st)
          else if \<not> incl e then (None, st)
          else case we_relative e of
            None \<Rightarrow> (Some Dis_PathOutsideRoot, st)
          | Some comps \<Rightarrow>
              (case checked_slash_path comps of
                 Inl err \<Rightarrow> (Some err, st)
               | Inr path \<Rightarrow>
                   if path = [] \<or> is_git_metadata_path path then (None, st)
                   else
                     case increment_limit (files_count (ws_stats st)) (max_files l) Limit_Files of
                       (n, r) \<Rightarrow>
                         let st = st\<lparr>ws_stats := (ws_stats st)\<lparr>files_count := n\<rparr>\<rparr> in
                         (case r of
                            Inl err \<Rightarrow> (Some err, st)
                          | Inr _ \<Rightarrow>
                              let total = sat_add (total_source_bytes (ws_stats st)) len;
                                  st = st\<lparr>ws_stats := (ws_stats st)\<lparr>total_source_bytes := total\<rparr>\<rparr> in
                              (case enforce_limit Limit_TotalSourceBytes total (max_total_source_bytes l) of
                                 Inl err \<Rightarrow> (Some err, st)
                               | Inr _ \<Rightarrow>
                                   (None, st\<lparr>ws_files := ws_files st @
                                     [\<lparr>relative_path = path, size_bytes = len, modified_ns = modified\<rparr>]\<rparr>)))))"

definition observe :: "walk_state \<Rightarrow> walk_state" where
  "observe st = st\<lparr>ws_observed := ws_observed st @ [ws_stats st]\<rparr>"

definition walk_step ::
  "discovery_limits \<Rightarrow> (walk_entry \<Rightarrow> bool) \<Rightarrow> walk_item \<Rightarrow> walk_state \<Rightarrow> discovery_error option \<times> walk_state" where
  "walk_step l incl item st =
     (if fst item then (Some Dis_Cancelled, st)
      else
        case increment_limit (walk_entries (ws_stats st)) (max_walk_entries l) Limit_WalkEntries of
          (n, r) \<Rightarrow>
            let st = st\<lparr>ws_stats := (ws_stats st)\<lparr>walk_entries := n\<rparr>\<rparr> in
            (case r of
               Inl err \<Rightarrow> (Some err, st)
             | Inr _ \<Rightarrow>
                 let st = (if n mod progress_interval_entries = 0 then observe st else st) in
                 (case snd item of
                    None \<Rightarrow> (Some Dis_Traversal, st)
                  | Some e \<Rightarrow>
                      let st = st\<lparr>ws_stats := (ws_stats st)\<lparr>deepest := max (deepest (ws_stats st)) (we_depth e)\<rparr>\<rparr> in
                      (case enforce_limit Limit_Depth (we_depth e) (max_depth l) of
                         Inl err \<Rightarrow> (Some err, st)
                       | Inr _ \<Rightarrow> admit_file l incl e st))))"

fun walk_loop ::
  "discovery_limits \<Rightarrow> (walk_entry \<Rightarrow> bool) \<Rightarrow> walk_item list \<Rightarrow> walk_state \<Rightarrow> discovery_error option \<times> walk_state" where
  "walk_loop l incl [] st = (None, st)"
| "walk_loop l incl (item # items) st =
     (case walk_step l incl item st of
        (Some err, st) \<Rightarrow> (Some err, st)
      | (None, st) \<Rightarrow> walk_loop l incl items st)"

definition discover_files ::
  "discovery_limits \<Rightarrow> (walk_entry \<Rightarrow> bool) \<Rightarrow> walk_item list \<Rightarrow>
   discovery_error + discovered_file list \<times> discovery_stats" where
  "discover_files l incl items =
     (case limits_validate l of
        Inl err \<Rightarrow> Inl err
      | Inr _ \<Rightarrow>
          (case walk_loop l incl items walk_start of
             (Some err, _) \<Rightarrow> Inl err
           | (None, st) \<Rightarrow>
               let st = observe st in
               Inr (sort_by (key_cmp relative_path) (ws_files st), ws_stats st)))"

section \<open>What a walk admits\<close>

definition admitted :: "discovery_limits \<Rightarrow> (walk_entry \<Rightarrow> bool) \<Rightarrow> walk_entry \<Rightarrow> discovered_file option" where
  "admitted l incl e =
     (case (we_metadata e, we_relative e) of
        (Some (len, modified), Some comps) \<Rightarrow>
          let path = str_join ''/'' comps in
          if we_kind e = Some Kind_File \<and> len \<le> max_file_bytes l \<and> incl e \<and> list_all utf8_valid comps
             \<and> path \<noteq> [] \<and> \<not> is_git_metadata_path path
          then Some \<lparr>relative_path = path, size_bytes = len, modified_ns = modified\<rparr> else None
      | _ \<Rightarrow> None)"

definition admitted_files ::
  "discovery_limits \<Rightarrow> (walk_entry \<Rightarrow> bool) \<Rightarrow> walk_item list \<Rightarrow> discovered_file list" where
  "admitted_files l incl items =
     concat (map (\<lambda>item. case snd item of
        None \<Rightarrow> []
      | Some e \<Rightarrow> (case admitted l incl e of None \<Rightarrow> [] | Some f \<Rightarrow> [f])) items)"

text \<open>An entry that cannot fail the walk by itself.\<close>

definition entry_clean :: "discovery_limits \<Rightarrow> (walk_entry \<Rightarrow> bool) \<Rightarrow> walk_entry \<Rightarrow> bool" where
  "entry_clean l incl e \<longleftrightarrow> we_depth e \<le> max_depth l \<and>
     (we_kind e = Some Kind_File \<longrightarrow>
       (case we_metadata e of
          None \<Rightarrow> False
        | Some (len, _) \<Rightarrow> len \<le> max_file_bytes l \<and> incl e \<longrightarrow>
            (case we_relative e of None \<Rightarrow> False | Some comps \<Rightarrow> list_all utf8_valid comps)))"

definition item_clean :: "discovery_limits \<Rightarrow> (walk_entry \<Rightarrow> bool) \<Rightarrow> walk_item \<Rightarrow> bool" where
  "item_clean l incl item \<longleftrightarrow> \<not> fst item \<and>
     (case snd item of None \<Rightarrow> False | Some e \<Rightarrow> entry_clean l incl e)"

text \<open>The counters saturate at the largest \<open>u64\<close>.\<close>

definition fits :: "discovery_limits \<Rightarrow> nat \<Rightarrow> discovered_file list \<Rightarrow> bool" where
  "fits l n fs \<longleftrightarrow> min n usize_max \<le> max_walk_entries l \<and> min (length fs) usize_max \<le> max_files l \<and>
     min (sum_list (map size_bytes fs)) usize_max \<le> max_total_source_bytes l"

definition counts_ok :: "nat \<Rightarrow> discovered_file list \<Rightarrow> walk_state \<Rightarrow> bool" where
  "counts_ok n fs st \<longleftrightarrow> walk_entries (ws_stats st) = min n usize_max \<and>
     files_count (ws_stats st) = min (length fs) usize_max \<and>
     total_source_bytes (ws_stats st) = min (sum_list (map size_bytes fs)) usize_max \<and> ws_files st = fs"

lemma sat_add_min: "sat_add (min a usize_max) b = min (a + b) usize_max"
  by (auto simp: usize_simps)

lemma counts_ok_start: "counts_ok 0 [] walk_start"
  by (simp add: counts_ok_def walk_start_def stats_default_def)

lemma counts_ok_stats [simp]:
  "counts_ok n fs (st\<lparr>ws_stats := (ws_stats st)\<lparr>deepest := d\<rparr>\<rparr>) = counts_ok n fs st"
  "counts_ok n fs (observe st) = counts_ok n fs st"
  by (simp_all add: counts_ok_def observe_def)

lemma fits_le: "fits l n (fs @ gs) \<Longrightarrow> m \<le> n \<Longrightarrow> fits l m fs"
  by (auto simp: fits_def min_def split: if_splits)

definition new_file :: "discovered_file option \<Rightarrow> discovered_file list" where
  "new_file f = (case f of None \<Rightarrow> [] | Some g \<Rightarrow> [g])"

lemma admit_file_ok:
  assumes "counts_ok n fs st" "fits l n fs" "we_depth e \<le> max_depth l"
  shows "(fst (admit_file l incl e st) = None \<longleftrightarrow>
      entry_clean l incl e \<and> fits l n (fs @ new_file (admitted l incl e))) \<and>
    (fst (admit_file l incl e st) = None \<longrightarrow>
      counts_ok n (fs @ new_file (admitted l incl e)) (snd (admit_file l incl e st)))"
proof (cases "we_kind e = Some Kind_File")
  case False
  then show ?thesis using assms
    by (auto simp: admit_file_def admitted_def new_file_def entry_clean_def Let_def split: option.splits)
next
  case True
  note defs = admit_file_def admitted_def new_file_def entry_clean_def checked_slash_path_def Let_def
  show ?thesis
  proof (cases "admitted l incl e")
    case None
    then show ?thesis using assms True
      by (auto simp: defs split: option.splits if_splits)
  next
    case (Some f)
    then obtain len m comps where e: "we_metadata e = Some (len, m)" "we_relative e = Some comps"
      "len \<le> max_file_bytes l" "incl e" "list_all utf8_valid comps" "str_join ''/'' comps \<noteq> []"
      "\<not> is_git_metadata_path (str_join ''/'' comps)"
      "f = \<lparr>relative_path = str_join ''/'' comps, size_bytes = len, modified_ns = m\<rparr>"
      by (auto simp: admitted_def Let_def split: option.splits if_splits)
    show ?thesis using assms True e Some
      by (auto simp: admit_file_def checked_slash_path_def entry_clean_def new_file_def increment_limit_def
          enforce_limit_def Let_def counts_ok_def fits_def sat_add_min not_le split: if_splits)
  qed
qed

lemma walk_step_ok:
  fixes l :: discovery_limits and incl :: "walk_entry \<Rightarrow> bool" and item :: walk_item
  assumes "counts_ok n fs st" "fits l n fs"
  defines "new \<equiv> admitted_files l incl [item]"
  shows "(fst (walk_step l incl item st) = None \<longleftrightarrow>
      item_clean l incl item \<and> fits l (Suc n) (fs @ new)) \<and>
    (fst (walk_step l incl item st) = None \<longrightarrow>
      counts_ok (Suc n) (fs @ new) (snd (walk_step l incl item st)))"
proof (cases "snd item")
  case None
  then show ?thesis
    by (auto simp: walk_step_def item_clean_def increment_limit_def enforce_limit_def Let_def split: if_splits)
next
  case (Some e)
  have new: "new = new_file (admitted l incl e)"
    using Some by (auto simp: new_def admitted_files_def new_file_def split: option.splits)
  let ?n = "sat_add (walk_entries (ws_stats st)) 1"
  let ?st = "st\<lparr>ws_stats := (ws_stats st)\<lparr>walk_entries := ?n\<rparr>\<rparr>"
  let ?st1 = "if ?n mod progress_interval_entries = 0 then observe ?st else ?st"
  let ?st2 = "?st1\<lparr>ws_stats := (ws_stats ?st1)\<lparr>deepest := max (deepest (ws_stats ?st1)) (we_depth e)\<rparr>\<rparr>"
  have n: "?n = min (Suc n) usize_max" using assms(1) by (simp add: counts_ok_def sat_add_min)
  have st: "counts_ok (Suc n) fs ?st2" using assms(1) n by (auto simp: counts_ok_def observe_def)
  show ?thesis
  proof (cases "fst item \<or> max_walk_entries l < ?n \<or> max_depth l < we_depth e")
    case True
    then show ?thesis using Some n
      by (auto simp: walk_step_def item_clean_def entry_clean_def increment_limit_def enforce_limit_def
          Let_def fits_def split: if_splits)
  next
    case False
    have "min (Suc n) usize_max \<le> max_walk_entries l" using False unfolding n by linarith
    then have fits: "fits l (Suc n) fs" using assms(2) by (simp only: fits_def)
    have "walk_step l incl item st = admit_file l incl e ?st2"
      using False Some by (simp add: walk_step_def increment_limit_def enforce_limit_def Let_def)
    then show ?thesis
      using admit_file_ok [OF st fits, of e incl] False Some
      by (auto simp: new item_clean_def entry_clean_def)
  qed
qed

lemma admitted_files_Cons:
  "admitted_files l incl (item # items) = admitted_files l incl [item] @ admitted_files l incl items"
  by (simp add: admitted_files_def)

lemma walk_loop_ok:
  assumes "counts_ok n fs st" "fits l n fs"
  shows "(fst (walk_loop l incl items st) = None \<longleftrightarrow>
      list_all (item_clean l incl) items \<and> fits l (n + length items) (fs @ admitted_files l incl items)) \<and>
    (fst (walk_loop l incl items st) = None \<longrightarrow>
      counts_ok (n + length items) (fs @ admitted_files l incl items) (snd (walk_loop l incl items st)))"
  using assms
proof (induction items arbitrary: n fs st)
  case Nil
  then show ?case by (simp add: admitted_files_def)
next
  case (Cons item items)
  let ?new = "admitted_files l incl [item]"
  note step = walk_step_ok [OF Cons.prems, of incl item]
  show ?case
  proof (cases "fst (walk_step l incl item st)")
    case None
    then have ok: "counts_ok (Suc n) (fs @ ?new) (snd (walk_step l incl item st))" "fits l (Suc n) (fs @ ?new)"
      "item_clean l incl item" using step by auto
    have "walk_loop l incl (item # items) st = walk_loop l incl items (snd (walk_step l incl item st))"
      using None by (simp add: split_beta)
    then show ?thesis using Cons.IH [OF ok(1,2)] ok(3) admitted_files_Cons [of l incl item items] by simp
  next
    case (Some err)
    then have "fst (walk_loop l incl (item # items) st) \<noteq> None" by (simp add: split_beta)
    moreover have "\<not> (item_clean l incl item \<and> fits l (Suc n) (fs @ ?new))" using Some step by auto
    ultimately show ?thesis
      using fits_le [of l "n + length (item # items)" "fs @ ?new" _ "Suc n"]
        admitted_files_Cons [of l incl item items] by fastforce
  qed
qed

section \<open>Properties of the walk\<close>

text \<open>C36: Discovery never truncates.  It succeeds exactly when the limits are valid, no token reading
  cancels it, no entry is in error and every (saturating) count stays within its limit; then the files
  are all the admitted entries, sorted by path, and the counters are the exact counts.\<close>

theorem discover_files_exact:
  "case discover_files l incl items of
     Inr (files, stats) \<Rightarrow>
       limits_validate l = Inr () \<and> list_all (item_clean l incl) items \<and>
       fits l (length items) (admitted_files l incl items) \<and>
       files = sort_by (key_cmp relative_path) (admitted_files l incl items) \<and>
       walk_entries stats = min (length items) usize_max \<and>
       files_count stats = min (length files) usize_max \<and>
       total_source_bytes stats = min (sum_list (map size_bytes (admitted_files l incl items))) usize_max
   | Inl _ \<Rightarrow>
       \<not> (limits_validate l = Inr () \<and> list_all (item_clean l incl) items \<and>
          fits l (length items) (admitted_files l incl items))"
proof -
  have "fits l 0 []" by (simp add: fits_def)
  note loop = walk_loop_ok [OF counts_ok_start this, of incl items, simplified]
  show ?thesis
    using loop by (cases "walk_loop l incl items walk_start")
      (auto simp: discover_files_def Let_def counts_ok_def observe_def split: sum.splits option.splits)
qed

interpretation path_order: comparator_laws "key_cmp relative_path"
  by (rule comparator_key_cmp)

lemma admitted_files_mem:
  assumes "f \<in> set (admitted_files l incl items)"
  shows "\<exists>e. Some e \<in> snd ` set items \<and> admitted l incl e = Some f"
  using assms by (induction items) (auto simp: admitted_files_def image_iff split: option.splits)

lemma admitted_Some:
  assumes "admitted l incl e = Some f"
  shows "size_bytes f \<le> max_file_bytes l \<and> relative_path f \<noteq> [] \<and> \<not> is_git_metadata_path (relative_path f) \<and>
    incl e \<and> we_kind e = Some Kind_File \<and>
    (\<exists>comps. we_relative e = Some comps \<and> list_all utf8_valid comps \<and> relative_path f = str_join ''/'' comps)"
  using assms by (auto simp: admitted_def Let_def split: option.splits if_splits)

definition sample_walk :: "walk_item list" where
  "sample_walk =
     [(False, Some \<lparr>we_relative = Some [], we_depth = 0, we_kind = Some Kind_Dir, we_metadata = None\<rparr>),
      (False, Some \<lparr>we_relative = Some [''src'', ''b''], we_depth = 2, we_kind = Some Kind_File, we_metadata = Some (7, None)\<rparr>),
      (False, Some \<lparr>we_relative = Some [''.git'', ''x''], we_depth = 2, we_kind = Some Kind_File, we_metadata = Some (7, None)\<rparr>),
      (False, Some \<lparr>we_relative = Some [''a''], we_depth = 1, we_kind = Some Kind_File, we_metadata = Some (9, Some 1)\<rparr>)]"

lemma sample_walk_ok:
  "case discover_files limits_default (\<lambda>_. True) sample_walk of
     Inl _ \<Rightarrow> False | Inr r \<Rightarrow> length (fst r) = 2"
  by code_simp

text \<open>A discovered file is visible to the policy of the walk: the result is sorted by path, and
  every file is within the byte limit, was admitted by the owner's filter, has a UTF-8 path and lies
  outside Git metadata.\<close>

theorem discovered_files_admissible:
  assumes "discover_files l incl items = Inr (files, stats)"
  shows "sorted (map relative_path files) \<and>
    (\<forall>f\<in>set files. size_bytes f \<le> max_file_bytes l \<and> relative_path f \<noteq> [] \<and>
       \<not> is_git_metadata_path (relative_path f) \<and>
       (\<exists>e comps. Some e \<in> snd ` set items \<and> incl e \<and> we_kind e = Some Kind_File \<and>
          we_relative e = Some comps \<and> list_all utf8_valid comps \<and> relative_path f = str_join ''/'' comps))"
proof -
  have fs: "files = sort_by (key_cmp relative_path) (ws_files (snd (walk_loop l incl items walk_start)))"
    and none: "fst (walk_loop l incl items walk_start) = None"
    using assms by (auto simp: discover_files_def Let_def observe_def split: sum.splits prod.splits option.splits)
  have "fits l 0 []" by (simp add: fits_def)
  then have files: "files = sort_by (key_cmp relative_path) (admitted_files l incl items)"
    using walk_loop_ok [OF counts_ok_start, of l incl items] none fs by (simp add: counts_ok_def)
  have "sorted (map relative_path files)"
    using path_order.sorted_sort_by [of "admitted_files l incl items"]
    by (simp add: files sorted_map key_cmp_def not_less)
  moreover have "\<exists>e. Some e \<in> snd ` set items \<and> admitted l incl e = Some f" if "f \<in> set files" for f
    using that by (simp add: files) (erule admitted_files_mem)
  ultimately show ?thesis using admitted_Some by blast
qed

theorem discovered_files_admissible_witness:
  "sorted (map relative_path (fst (projr (discover_files limits_default (\<lambda>_. True) sample_walk)))) \<and>
   length (fst (projr (discover_files limits_default (\<lambda>_. True) sample_walk))) = 2"
proof -
  obtain r where r: "discover_files limits_default (\<lambda>_. True) sample_walk = Inr r" and "length (fst r) = 2"
    using sample_walk_ok by (auto split: sum.splits)
  then show ?thesis
    using discovered_files_admissible [of limits_default "\<lambda>_. True" sample_walk "fst r" "snd r"] by simp
qed

section \<open>Visibility is closed under containing directories\<close>

lemma starts_generated_append:
  "starts_generated w True cs g \<Longrightarrow> rs \<noteq> [] \<Longrightarrow> starts_generated w b (cs @ rs) g"
  by (cases rs) (auto simp: starts_generated_def)

lemma generated_components_append:
  "generated_components w True cs \<Longrightarrow> rs \<noteq> [] \<Longrightarrow> generated_components w b (cs @ rs)"
proof (induction cs)
  case (Cons c cs)
  then show ?case using starts_generated_append [of w "c # cs" _ rs b]
    by (auto simp: list_ex_iff split: if_splits)
qed simp

lemma generated_subtree:
  assumes "is_generated_path w d True" "canonical_path f" "path_is_within f d" "f \<noteq> d"
  shows "is_generated_path w f b"
proof -
  obtain rs where rs: "split_char CHR ''/'' f = split_char CHR ''/'' d @ rs"
    using assms(3) by (auto simp: path_is_within_components prefix_def)
  moreover have "rs \<noteq> []" using assms(4) rs join_split [of "CHR ''/''"] by (metis append_Nil2)
  moreover have "\<forall>c\<in>set rs. c \<noteq> []"
    using assms(2) rs by (auto simp: canonical_path_def canonical_components_def component_ok_def list_all_iff)
  ultimately show ?thesis
    using assms(1) by (simp add: is_generated_path_def generated_components_append)
qed

lemma git_metadata_subtree: "is_git_metadata_path d \<Longrightarrow> path_is_within f d \<Longrightarrow> is_git_metadata_path f"
  by (auto simp: is_git_metadata_path_def path_is_within_components prefix_def)

text \<open>Pruning the walk hides no visible file: when the policy shows a file, it shows every directory
  that contains it, so a walk that descends only into shown directories, and a watcher that applies the
  same policy, still reach the file.\<close>

theorem visible_file_is_reachable:
  assumes "glob_respects_static_prefix gl" "index_scope_new b3 gl inc exc = Inr (dp_index_scope p)"
    "list_all (\<lambda>q. \<not> has_glob_meta q) (sc_excludes (dp_index_scope p))"
    "policy_includes_path windows gl p f False" "canonical_path f" "path_is_within f d" "f \<noteq> d"
  shows "policy_includes_path windows gl p d True"
proof -
  have "f \<noteq> []" using assms(5) by (auto simp: canonical_path_def canonical_components_def split_char_def component_ok_def)
  then have "includes_path gl (dp_index_scope p) d True"
    using scope_keeps_ancestors [OF assms(1-3)] assms(4,6) by (auto simp: policy_includes_path_def)
  then show ?thesis
    using assms(4,5,6,7) git_metadata_subtree [of d f] generated_subtree [of windows d f False]
    by (auto simp: policy_includes_path_def)
qed

theorem visible_file_is_reachable_witness:
  "\<exists>sc. index_scope_new id no_globs [''src''] [''src/gen''] = Inr sc \<and>
     policy_includes_path False no_globs \<lparr>include_generated = False, dp_index_scope = sc\<rparr> ''src/target.d'' True"
proof -
  have "case index_scope_new id no_globs [''src''] [''src/gen''] of Inl _ \<Rightarrow> False
      | Inr sc \<Rightarrow> list_all (\<lambda>p. \<not> has_glob_meta p) (sc_excludes sc) \<and>
          policy_includes_path False no_globs \<lparr>include_generated = False, dp_index_scope = sc\<rparr> ''src/target.d/target'' False"
    by code_simp
  then obtain sc where sc: "index_scope_new id no_globs [''src''] [''src/gen''] = Inr sc"
    "list_all (\<lambda>p. \<not> has_glob_meta p) (sc_excludes sc)"
    "policy_includes_path False no_globs \<lparr>include_generated = False, dp_index_scope = sc\<rparr> ''src/target.d/target'' False"
    by (auto split: sum.splits)
  let ?p = "\<lparr>include_generated = False, dp_index_scope = sc\<rparr>"
  have "glob_respects_static_prefix no_globs" by (simp add: glob_respects_static_prefix_def no_globs_def)
  moreover have "index_scope_new id no_globs [''src''] [''src/gen''] = Inr (dp_index_scope ?p)"
    "list_all (\<lambda>p. \<not> has_glob_meta p) (sc_excludes (dp_index_scope ?p))" using sc by simp_all
  moreover have "canonical_path ''src/target.d/target''" "path_is_within ''src/target.d/target'' ''src/target.d''"
    by code_simp+
  ultimately have "policy_includes_path False no_globs ?p ''src/target.d'' True"
    using visible_file_is_reachable [of no_globs id _ _ ?p False "''src/target.d/target''"] sc(3) by simp
  with sc(1) show ?thesis by blast
qed

end
