(* ===== verification/Watch_Loop.thy ===== *)
theory Watch_Loop
  imports Watch Repo_Discovery
begin

text \<open>
  The filesystem watcher (\<open>src/watcher\<close>): admission of the native backend (\<open>discovery.rs\<close>), the
  interpretation of raw notifications (\<open>events.rs\<close>), delivery (\<open>delivery.rs\<close>) and the event loop of
  \<open>RepositoryWatcher::start_with_factory\<close> (\<open>runtime.rs\<close>) as a step relation in which the
  notification callback, the clock and the receiver of the messages act between any two steps of
  the loop.  A host path is its list of components, byte strings; whether a path is a directory is
  asked of the file system at each call, so it is an argument.
\<close>

section \<open>Notifications\<close>

datatype event_kind =
    Kind_Any | Kind_Access | Kind_Create_Folder | Kind_Create | Kind_Modify_Name | Kind_Modify
  | Kind_Remove_Folder | Kind_Remove | Kind_Other_Event

type_synonym host_path = "string list"

record notify_event =
  ev_kind :: event_kind
  ev_rescan :: bool
  ev_paths :: "host_path list"

text \<open>\<open>notify::Result<Event>\<close>, an error being \<open>None\<close>.\<close>

type_synonym raw_event = "notify_event option"

datatype directory_hint = Hint_Yes | Hint_No | Hint_Unknown

definition event_path_is_directory :: "notify_event \<Rightarrow> directory_hint" where
  "event_path_is_directory e =
     (if ev_kind e = Kind_Create_Folder \<or> ev_kind e = Kind_Remove_Folder then Hint_Yes
      else if ev_kind e = Kind_Modify_Name then Hint_Unknown else Hint_No)"

record watch_env =
  env_windows :: bool
  env_globs :: glob_lib
  env_policy :: discovery_policy
  env_root :: host_path
  env_native :: bool
  env_raw_capacity :: nat
  env_capacity :: nat
  env_debounce :: duration
  env_poll_interval :: duration

definition watch_relative_path ::
  "watch_env \<Rightarrow> (host_path \<Rightarrow> bool) \<Rightarrow> host_path \<Rightarrow> directory_hint \<Rightarrow> unit + string option" where
  "watch_relative_path E is_dir path hint =
     (if take (length (env_root E)) path \<noteq> env_root E then Inr None
      else
        case checked_slash_path
               (filter (\<lambda>c. c \<noteq> ''.'' \<and> c \<noteq> ''..'') (drop (length (env_root E)) path)) of
          Inl _ \<Rightarrow> Inl ()
        | Inr s \<Rightarrow>
            if s = [] then Inr None
            else if hint = Hint_Unknown then Inr (Some s)
            else if \<not> includes_watch_path (env_windows E) (env_globs E) (env_policy E) s
                        (hint = Hint_Yes \<or> is_dir path) then Inr None
            else Inr (Some s))"

definition resolve_paths ::
  "watch_env \<Rightarrow> (host_path \<Rightarrow> bool) \<Rightarrow> notify_event \<Rightarrow> (unit + string option) list" where
  "resolve_paths E is_dir e =
     map (\<lambda>path. watch_relative_path E is_dir path (event_path_is_directory e)) (ev_paths e)"

fun inside_paths :: "(unit + string option) list \<Rightarrow> string list" where
  "inside_paths [] = []"
| "inside_paths (Inr (Some rel) # rs) = rel # inside_paths rs"
| "inside_paths (_ # rs) = inside_paths rs"

definition process_raw_event ::
  "watch_env \<Rightarrow> (host_path \<Rightarrow> bool) \<Rightarrow> raw_event \<Rightarrow> pending_reconciliation \<Rightarrow> pending_reconciliation" where
  "process_raw_event E is_dir raw p =
     (case raw of
        None \<Rightarrow> Pending_Full
      | Some e \<Rightarrow>
          if ev_rescan e then Pending_Full
          else if ev_kind e = Kind_Access \<or> ev_kind e = Kind_Other_Event then p
          else if event_path_is_directory e = Hint_Unknown then Pending_Full
          else
            let resolved = resolve_paths E is_dir e;
                inside = inside_paths resolved;
                outside = list_ex (\<lambda>r. r = Inr None) resolved;
                p = (if list_ex (\<lambda>r. r = Inl ()) resolved then Pending_Full else p) in
            if outside \<and> inside = [] then p else fold pending_insert inside p)"

definition raw_event_is_relevant :: "watch_env \<Rightarrow> (host_path \<Rightarrow> bool) \<Rightarrow> raw_event \<Rightarrow> bool" where
  "raw_event_is_relevant E is_dir raw =
     (case raw of
        None \<Rightarrow> True
      | Some e \<Rightarrow>
          if ev_rescan e then True
          else if ev_paths e \<noteq> [] then list_ex (\<lambda>r. r \<noteq> Inr None) (resolve_paths E is_dir e)
          else True)"

section \<open>Admission of the native backend\<close>

datatype fallback_reason =
    AdmissionEntryLimit | AdmissionDirectoryLimit | AdmissionCancelled | AdmissionError
  | BackendCreationFailed | BackendRegistrationFailed

record watch_admission =
  adm_entries :: nat
  adm_directories :: nat
  adm_fallback :: "fallback_reason option"

definition max_watched_directories :: nat where "max_watched_directories = 50000"
definition max_watch_admission_entries :: nat where "max_watch_admission_entries = 100000"

text \<open>An item of the walk: the reading of the token, then the entry (is it a directory) or an error.\<close>

fun admission_loop ::
  "nat \<Rightarrow> nat \<Rightarrow> (bool \<times> bool option) list \<Rightarrow> nat \<Rightarrow> nat \<Rightarrow> watch_admission" where
  "admission_loop dcap ecap [] entries dirs = \<lparr>adm_entries = entries, adm_directories = dirs, adm_fallback = None\<rparr>"
| "admission_loop dcap ecap ((cancelled, entry) # items) entries dirs =
     (let stop = (\<lambda>n d r. \<lparr>adm_entries = n, adm_directories = d, adm_fallback = Some r\<rparr>) in
      if cancelled then stop entries dirs AdmissionCancelled
      else if ecap \<le> entries then stop entries dirs AdmissionEntryLimit
      else
        case entry of
          None \<Rightarrow> stop (entries + 1) dirs AdmissionError
        | Some False \<Rightarrow> admission_loop dcap ecap items (entries + 1) dirs
        | Some True \<Rightarrow>
            if dcap < dirs + 1 then stop (entries + 1) (dirs + 1) AdmissionDirectoryLimit
            else admission_loop dcap ecap items (entries + 1) (dirs + 1))"

definition inspect_watch_admission :: "nat \<Rightarrow> nat \<Rightarrow> (bool \<times> bool option) list \<Rightarrow> watch_admission" where
  "inspect_watch_admission dcap ecap items = admission_loop dcap ecap items 0 0"

text \<open>The backend: \<open>created\<close> and \<open>registered\<close> are the answers of the platform.\<close>

definition select_backend :: "watch_admission \<Rightarrow> bool \<Rightarrow> bool \<Rightarrow> fallback_reason option" where
  "select_backend adm created registered =
     (case adm_fallback adm of
        Some reason \<Rightarrow> Some reason
      | None \<Rightarrow>
          if \<not> created then Some BackendCreationFailed
          else if \<not> registered then Some BackendRegistrationFailed
          else None)"

definition is_directory_entry :: "bool \<times> bool option \<Rightarrow> bool" where
  "is_directory_entry item \<longleftrightarrow> snd item = Some True"

section \<open>Delivery\<close>

record watch_counters =
  poll_ticks :: nat
  changed_path_deliveries :: nat
  full_reconciliation_deliveries :: nat

datatype send_result = Sent | Queue_Full | Queue_Closed

text \<open>\<open>flush\<close>, given what \<open>try_send\<close> answers: whether the loop goes on, what stays pending, the
  message sent and the counters.\<close>

definition flush ::
  "send_result \<Rightarrow> pending_reconciliation \<Rightarrow> watch_counters \<Rightarrow>
   bool \<times> pending_reconciliation \<times> watcher_message option \<times> watch_counters" where
  "flush r p c =
     (case p of
        Pending_Full \<Rightarrow>
          (case r of
             Sent \<Rightarrow> (True, pending_empty, Some ReconcileRequired,
                c\<lparr>full_reconciliation_deliveries := (full_reconciliation_deliveries c + 1) mod 2 ^ 64\<rparr>)
           | Queue_Full \<Rightarrow> (True, p, None, c)
           | Queue_Closed \<Rightarrow> (False, p, None, c))
      | Pending_Paths ps \<Rightarrow>
          if ps = {} then (True, p, None, c)
          else
            (case r of
               Sent \<Rightarrow> (True, pending_empty, Some (Changed (sorted_list_of_set ps)),
                  c\<lparr>changed_path_deliveries := (changed_path_deliveries c + 1) mod 2 ^ 64\<rparr>)
             | Queue_Full \<Rightarrow> (True, Pending_Full, None, c)
             | Queue_Closed \<Rightarrow> (False, p, None, c)))"

section \<open>The event loop\<close>

text \<open>
  Where the task is: before the check of the overflow flag, in the \<open>select\<close>, between the clearing of
  the flag and the length snapshot of the raw queue, discarding the rest of that prefix, about to
  flush, or stopped.
\<close>

datatype loop_pc = At_Top | At_Select | At_Snapshot | Coalescing nat | At_Flush | Stopped

record watch_state =
  pc :: loop_pc
  waiting :: pending_reconciliation
  raw_queue :: "raw_event list"
  overflowed :: bool
  out_queue :: "watcher_message list"
  out_closed :: bool
  sleep_until :: instant
  next_poll :: instant
  time :: instant
  counters :: watch_counters
  reported :: "string set"

text \<open>\<open>reported\<close> only exists for the proofs: the paths whose change the callback was told of since the
  last message that covers them.\<close>

definition long_sleep :: duration where
  "long_sleep = 60 * 60 * 24 * 365 * 10 * 1000"

definition native_reconciliation_interval :: duration where
  "native_reconciliation_interval = 60 * 5 * 1000"

definition poll_period :: "watch_env \<Rightarrow> duration" where
  "poll_period E = (if env_native E then native_reconciliation_interval else env_poll_interval E)"

definition delivery_retry_delay :: "watch_env \<Rightarrow> duration" where
  "delivery_retry_delay E = max (env_debounce E) 10"

definition raw_capacity_of :: "nat \<Rightarrow> nat" where
  "raw_capacity_of capacity = max (sat_mul capacity 4) 64"

definition watch_start :: "watch_env \<Rightarrow> watch_state" where
  "watch_start E =
     \<lparr> pc = At_Top, waiting = pending_empty, raw_queue = [], overflowed = False, out_queue = [],
       out_closed = False, sleep_until = long_sleep, next_poll = poll_period E, time = 0,
       counters = \<lparr>poll_ticks = 0, changed_path_deliveries = 0, full_reconciliation_deliveries = 0\<rparr>,
       reported = {} \<rparr>"

text \<open>The paths a notification obliges the watcher to report, whatever the file system answers when
  the paths are resolved; an ambiguous notification obliges it to report every path.\<close>

definition event_owes :: "watch_env \<Rightarrow> raw_event \<Rightarrow> string \<Rightarrow> bool" where
  "event_owes E raw x =
     (case raw of
        None \<Rightarrow> True
      | Some e \<Rightarrow>
          if ev_rescan e then True
          else if ev_kind e = Kind_Access \<or> ev_kind e = Kind_Other_Event then False
          else if event_path_is_directory e = Hint_Unknown then
            ev_paths e = [] \<or>
            list_ex (\<lambda>path. watch_relative_path E (\<lambda>_. False) path Hint_Unknown \<noteq> Inr None) (ev_paths e)
          else
            list_ex (\<lambda>path. watch_relative_path E (\<lambda>_. False) path (event_path_is_directory e) = Inl () \<or>
                (watch_relative_path E (\<lambda>_. False) path (event_path_is_directory e) = Inr (Some x) \<and>
                 watch_relative_path E (\<lambda>_. True) path (event_path_is_directory e) = Inr (Some x))) (ev_paths e))"

definition callback :: "watch_env \<Rightarrow> (host_path \<Rightarrow> bool) \<Rightarrow> raw_event \<Rightarrow> watch_state \<Rightarrow> watch_state" where
  "callback E is_dir raw s =
     (let s' = (if \<not> raw_event_is_relevant E is_dir raw then s
                else if length (raw_queue s) < env_raw_capacity E then s\<lparr>raw_queue := raw_queue s @ [raw]\<rparr>
                else s\<lparr>overflowed := True\<rparr>) in
      s'\<lparr>reported := reported s \<union> {x. event_owes E raw x}\<rparr>)"

definition loop_top :: "watch_state \<Rightarrow> watch_state" where
  "loop_top s =
     (if overflowed s \<and> waiting s \<noteq> Pending_Full
      then s\<lparr>overflowed := False, waiting := Pending_Full, sleep_until := time s, pc := At_Select\<rparr>
      else s\<lparr>overflowed := False, pc := At_Select\<rparr>)"

definition receive_raw :: "watch_env \<Rightarrow> (host_path \<Rightarrow> bool) \<Rightarrow> raw_event \<Rightarrow> raw_event list \<Rightarrow> watch_state \<Rightarrow> watch_state" where
  "receive_raw E is_dir raw rest s =
     (let p = pending_bound (env_raw_capacity E) (process_raw_event E is_dir raw (waiting s)) in
      s\<lparr>raw_queue := rest, waiting := p, pc := At_Top,
        sleep_until := (if pending_is_full p then time s
                        else if \<not> pending_is_empty p then time s + env_debounce E
                        else time s + long_sleep)\<rparr>)"

definition poll_tick :: "watch_env \<Rightarrow> watch_state \<Rightarrow> watch_state" where
  "poll_tick E s =
     (let s = s\<lparr>counters := (counters s)\<lparr>poll_ticks := (poll_ticks (counters s) + 1) mod 2 ^ 64\<rparr>,
                next_poll := next_poll s + poll_period E * (1 + (time s - next_poll s) div poll_period E),
                pc := At_Top\<rparr> in
      if waiting s \<noteq> Pending_Full then s\<lparr>waiting := Pending_Full, sleep_until := time s\<rparr> else s)"

definition try_send :: "watch_env \<Rightarrow> watch_state \<Rightarrow> send_result" where
  "try_send E s =
     (if out_closed s then Queue_Closed
      else if length (out_queue s) < max (env_capacity E) 1 then Sent else Queue_Full)"

definition message_covers :: "watcher_message option \<Rightarrow> string set" where
  "message_covers m =
     (case m of None \<Rightarrow> {} | Some (Changed ps) \<Rightarrow> set ps | Some ReconcileRequired \<Rightarrow> UNIV)"

definition deliver :: "watch_env \<Rightarrow> watch_state \<Rightarrow> bool \<times> watch_state" where
  "deliver E s =
     (case flush (try_send E s) (waiting s) (counters s) of
        (goes_on, p, m, c) \<Rightarrow>
          (goes_on,
           s\<lparr>waiting := p, counters := c,
             out_queue := (case m of None \<Rightarrow> out_queue s | Some msg \<Rightarrow> out_queue s @ [msg]),
             reported := reported s - message_covers m\<rparr>))"

definition after_sleep :: "watch_env \<Rightarrow> watch_state \<Rightarrow> watch_state" where
  "after_sleep E s =
     (case deliver E s of
        (False, s) \<Rightarrow> s\<lparr>pc := Stopped\<rparr>
      | (True, s) \<Rightarrow>
          s\<lparr>pc := At_Top,
            sleep_until := (if pending_is_full (waiting s) then time s + delivery_retry_delay E
                            else if pending_is_empty (waiting s) then time s + long_sleep
                            else time s + env_debounce E)\<rparr>)"

text \<open>
  One step of the task itself.  The \<open>biased\<close> order of the branches is not used: a branch may be taken
  whenever it is ready, which allows more behaviours than the program has.
\<close>

inductive loop_step :: "watch_env \<Rightarrow> watch_state \<Rightarrow> watch_state \<Rightarrow> bool" for E :: watch_env where
  Elapse: "loop_step E s (s\<lparr>time := time s + d\<rparr>)"
| Top: "pc s = At_Top \<Longrightarrow> loop_step E s (loop_top s)"
| Receive_Raw: "pc s = At_Select \<Longrightarrow> waiting s \<noteq> Pending_Full \<Longrightarrow> raw_queue s = raw # rest \<Longrightarrow>
    loop_step E s (receive_raw E is_dir raw rest s)"
| Poll: "pc s = At_Select \<Longrightarrow> next_poll s \<le> time s \<Longrightarrow> loop_step E s (poll_tick E s)"
| Wake_Full: "pc s = At_Select \<Longrightarrow> sleep_until s \<le> time s \<Longrightarrow> waiting s = Pending_Full \<Longrightarrow>
    loop_step E s (s\<lparr>overflowed := False, pc := At_Snapshot\<rparr>)"
| Wake: "pc s = At_Select \<Longrightarrow> sleep_until s \<le> time s \<Longrightarrow> waiting s \<noteq> Pending_Full \<Longrightarrow>
    loop_step E s (s\<lparr>pc := At_Flush\<rparr>)"
| Snapshot: "pc s = At_Snapshot \<Longrightarrow> loop_step E s (s\<lparr>pc := Coalescing (length (raw_queue s))\<rparr>)"
| Coalesce: "pc s = Coalescing (Suc n) \<Longrightarrow> raw_queue s = raw # rest \<Longrightarrow>
    loop_step E s (s\<lparr>raw_queue := rest, pc := Coalescing n\<rparr>)"
| Coalesced: "pc s = Coalescing n \<Longrightarrow> n = 0 \<or> raw_queue s = [] \<Longrightarrow> loop_step E s (s\<lparr>pc := At_Flush\<rparr>)"
| Flush: "pc s = At_Flush \<Longrightarrow> loop_step E s (after_sleep E s)"
| Cancel: "pc s = At_Select \<Longrightarrow> loop_step E s ((snd (deliver E s))\<lparr>pc := Stopped\<rparr>)"

text \<open>Between any two steps of the task the callback may run and the receiver may take a message or go
  away.\<close>

inductive watch_step :: "watch_env \<Rightarrow> watch_state \<Rightarrow> watch_state \<Rightarrow> bool" for E :: watch_env where
  Task: "loop_step E s s' \<Longrightarrow> watch_step E s s'"
| Callback: "env_native E \<Longrightarrow> watch_step E s (callback E is_dir raw s)"
| Consume: "out_queue s = m # ms \<Longrightarrow> watch_step E s (s\<lparr>out_queue := ms\<rparr>)"
| Close: "watch_step E s (s\<lparr>out_closed := True\<rparr>)"

inductive_simps loop_step_stopped: "loop_step E (s\<lparr>pc := Stopped\<rparr>) s'"

inductive watch_reachable :: "watch_env \<Rightarrow> watch_state \<Rightarrow> bool" for E :: watch_env where
  Watch_Start: "watch_reachable E (watch_start E)"
| Watch_Step: "watch_reachable E s \<Longrightarrow> watch_step E s s' \<Longrightarrow> watch_reachable E s'"

section \<open>What a notification contributes\<close>

lemma set_inside_paths: "set (inside_paths rs) = {x. Inr (Some x) \<in> set rs}"
  by (induction rs rule: inside_paths.induct) auto

lemma covers_fold_insert [simp]: "covers (fold pending_insert xs p) x \<longleftrightarrow> covers p x \<or> x \<in> set xs"
  by (induction xs arbitrary: p) auto

lemma resolve_any:
  "watch_relative_path E is_dir path h = watch_relative_path E (\<lambda>_. is_dir path) path h"
  by (simp add: watch_relative_path_def)

lemma resolve_error: "watch_relative_path E d path h = Inl () \<longleftrightarrow> watch_relative_path E d' path h = Inl ()"
  by (simp add: watch_relative_path_def split: sum.split)

lemma resolve_unknown: "watch_relative_path E d path Hint_Unknown = watch_relative_path E d' path Hint_Unknown"
  by (simp add: watch_relative_path_def split: sum.split)

lemma resolve_both:
  assumes "watch_relative_path E (\<lambda>_. False) path h = r" "watch_relative_path E (\<lambda>_. True) path h = r"
  shows "watch_relative_path E is_dir path h = r"
  using assms by (cases "is_dir path") (simp_all add: resolve_any [of E is_dir])

text \<open>The cases of an owed path: everything, or a path every resolution yields.\<close>

lemma event_owes_cases:
  assumes "event_owes E raw x"
  obtains (ambiguous) "process_raw_event E is_dir raw p = Pending_Full" "raw_event_is_relevant E is_dir raw"
  | (path) e path where "raw = Some e" "\<not> ev_rescan e" "ev_kind e \<noteq> Kind_Access" "ev_kind e \<noteq> Kind_Other_Event"
      "event_path_is_directory e \<noteq> Hint_Unknown" "path \<in> set (ev_paths e)"
      "watch_relative_path E is_dir path (event_path_is_directory e) \<in> {Inl (), Inr (Some x)}"
proof (cases raw)
  case None
  then show ?thesis using that(1) by (simp add: process_raw_event_def raw_event_is_relevant_def)
next
  case (Some e)
  show ?thesis
  proof (cases "ev_rescan e \<or> event_path_is_directory e = Hint_Unknown")
    case True
    have "list_ex (\<lambda>r. r \<noteq> Inr None) (resolve_paths E is_dir e)"
      if "\<not> ev_rescan e" "event_path_is_directory e = Hint_Unknown" "ev_paths e \<noteq> []"
      using assms that Some resolve_unknown [of E is_dir _ "\<lambda>_. False"]
      by (auto simp: event_owes_def resolve_paths_def list_ex_iff split: if_splits)
    with True show ?thesis using Some assms that(1)
      by (auto simp: process_raw_event_def raw_event_is_relevant_def event_owes_def split: if_splits)
  next
    case False
    then show ?thesis
      using assms Some that(2) [of e] resolve_both [of E _ _ "Inr (Some x)" is_dir] resolve_error [of E "\<lambda>_. False" _ _ is_dir]
      by (fastforce simp: event_owes_def list_ex_iff split: if_splits)
  qed
qed

lemma process_keeps: "covers p x \<Longrightarrow> covers (process_raw_event E is_dir raw p) x"
  by (auto simp: process_raw_event_def Let_def split: option.split)

lemma process_covers_owed:
  assumes "event_owes E raw x" shows "covers (process_raw_event E is_dir raw p) x"
  using assms
proof (cases rule: event_owes_cases [where is_dir = is_dir and p = p])
  case (path e q)
  have "watch_relative_path E is_dir q (event_path_is_directory e) \<in> set (resolve_paths E is_dir e)"
    using path by (simp add: resolve_paths_def)
  then have "Inl () \<in> set (resolve_paths E is_dir e) \<or> x \<in> set (inside_paths (resolve_paths E is_dir e))"
    using path(7) by (auto simp: set_inside_paths)
  then show ?thesis using path
    by (auto simp: process_raw_event_def Let_def list_ex_iff)
qed simp

lemma owed_is_relevant:
  assumes "event_owes E raw x" shows "raw_event_is_relevant E is_dir raw"
  using assms
proof (cases rule: event_owes_cases [where is_dir = is_dir and p = pending_empty])
  case (path e q)
  have "watch_relative_path E is_dir q (event_path_is_directory e) \<in> set (resolve_paths E is_dir e)"
    using path by (simp add: resolve_paths_def)
  then have "list_ex (\<lambda>r. r \<noteq> Inr None) (resolve_paths E is_dir e)"
    using path(7) unfolding list_ex_iff by (intro bexI) auto
  then show ?thesis using path by (simp add: raw_event_is_relevant_def)
qed

lemma process_ok:
  assumes "pending_ok m p" shows "pending_ok n (pending_bound n (process_raw_event E is_dir raw p))"
proof -
  have ins: "\<exists>m. pending_ok m (pending_insert x q)" if "\<exists>m. pending_ok m q" for x q
    using that by (cases q) (auto simp: pending_insert_def)
  have "\<exists>m. pending_ok m (fold pending_insert xs q)" if "\<exists>m. pending_ok m q" for xs q
    using that ins by (induction xs arbitrary: q) auto
  moreover have "\<exists>m. pending_ok m p" "pending_ok 0 Pending_Full" using assms by auto
  ultimately have "\<exists>m. pending_ok m (process_raw_event E is_dir raw p)"
    unfolding process_raw_event_def Let_def by (auto split: option.split)
  then obtain m where "pending_ok m (process_raw_event E is_dir raw p)" by blast
  then show ?thesis by (cases "process_raw_event E is_dir raw p") (auto simp: pending_bound_def)
qed

section \<open>Invariants of the loop\<close>

definition kept :: "watch_env \<Rightarrow> watch_state \<Rightarrow> string \<Rightarrow> bool" where
  "kept E s x \<longleftrightarrow> covers (waiting s) x \<or> overflowed s \<or> list_ex (\<lambda>raw. event_owes E raw x) (raw_queue s)"

definition discarding :: "loop_pc \<Rightarrow> bool" where
  "discarding p \<longleftrightarrow> (case p of At_Snapshot \<Rightarrow> True | Coalescing _ \<Rightarrow> True | _ \<Rightarrow> False)"

definition inv_kept :: "watch_env \<Rightarrow> watch_state \<Rightarrow> bool" where
  "inv_kept E s \<longleftrightarrow> (discarding (pc s) \<longrightarrow> waiting s = Pending_Full) \<and>
     (pc s \<noteq> Stopped \<longrightarrow> (\<forall>x\<in>reported s. kept E s x))"

definition inv_bounded :: "watch_env \<Rightarrow> watch_state \<Rightarrow> bool" where
  "inv_bounded E s \<longleftrightarrow> pending_ok (env_raw_capacity E) (waiting s) \<and>
     length (raw_queue s) \<le> env_raw_capacity E \<and> length (out_queue s) \<le> max (env_capacity E) 1"

definition inv_awake :: "watch_env \<Rightarrow> watch_state \<Rightarrow> bool" where
  "inv_awake E s \<longleftrightarrow>
     ((pc s = At_Top \<or> pc s = At_Select) \<and> waiting s \<noteq> pending_empty \<longrightarrow>
        sleep_until s \<le> time s + delivery_retry_delay E) \<and>
     (pc s = At_Select \<and> overflowed s \<longrightarrow> raw_queue s \<noteq> [])"

lemma empty_not_full [simp]: "pending_empty \<noteq> Pending_Full" "Pending_Full \<noteq> pending_empty"
  by (simp_all add: pending_empty_def)

lemma covers_not_empty: "covers p x \<Longrightarrow> p \<noteq> pending_empty"
  by auto

lemma after_sleep_eq:
  "after_sleep E s = (let t = snd (deliver E s) in
     if fst (deliver E s)
     then t\<lparr>pc := At_Top,
            sleep_until := (if waiting t = Pending_Full then time t + delivery_retry_delay E
                            else if waiting t = pending_empty then time t + long_sleep
                            else time t + env_debounce E)\<rparr>
     else t\<lparr>pc := Stopped\<rparr>)"
  by (simp add: after_sleep_def Let_def split: prod.split bool.split)

lemma deliver_fields:
  "pc (snd (deliver E s)) = pc s" "raw_queue (snd (deliver E s)) = raw_queue s"
  "overflowed (snd (deliver E s)) = overflowed s" "time (snd (deliver E s)) = time s"
  "sleep_until (snd (deliver E s)) = sleep_until s"
  by (simp_all add: deliver_def split_beta)

lemma deliver_keeps:
  assumes "x \<in> reported (snd (deliver E s))" "kept E s x"
    "waiting s = Pending_Full \<or> (\<exists>ps. waiting s = Pending_Paths ps \<and> finite ps)"
  shows "kept E (snd (deliver E s)) x"
  using assms
  by (auto simp: deliver_def flush_def kept_def message_covers_def
      split: prod.splits send_result.splits pending_reconciliation.splits if_splits)

lemma deliver_bounded:
  assumes "inv_bounded E s" shows "inv_bounded E (snd (deliver E s))"
  using assms
  by (auto simp: inv_bounded_def deliver_def flush_def try_send_def pending_empty_def
      split: prod.splits send_result.splits pending_reconciliation.splits if_splits)

lemma bounded_loop:
  assumes "loop_step E s s'" "inv_bounded E s"
  shows "inv_bounded E s'"
  using assms(1)
proof (cases rule: loop_step.cases)
  case (Receive_Raw raw rest is_dir)
  then show ?thesis using assms(2) process_ok [of "env_raw_capacity E" "waiting s"]
    by (auto simp: inv_bounded_def receive_raw_def Let_def)
next
  case Flush
  then show ?thesis using deliver_bounded [OF assms(2)]
    by (auto simp: after_sleep_eq Let_def inv_bounded_def)
next
  case Cancel
  then show ?thesis using deliver_bounded [OF assms(2)] by (auto simp: inv_bounded_def)
qed (use assms(2) in \<open>auto simp: inv_bounded_def callback_def loop_top_def poll_tick_def Let_def\<close>)

lemma kept_weaken:
  assumes "kept E s x" "\<And>x. covers (waiting s) x \<Longrightarrow> covers (waiting t) x" "overflowed s \<Longrightarrow> overflowed t"
    "set (raw_queue s) \<subseteq> set (raw_queue t)"
  shows "kept E t x"
  using assms by (auto simp: kept_def list_ex_iff)

lemma callback_kept:
  assumes "inv_kept E s" shows "inv_kept E (callback E is_dir raw s)"
proof -
  let ?t = "callback E is_dir raw s"
  have same: "pc ?t = pc s" "waiting ?t = waiting s" "reported ?t = reported s \<union> {x. event_owes E raw x}"
    by (simp_all add: callback_def Let_def)
  have "kept E ?t x" if "kept E s x" for x
    using that by (rule kept_weaken) (auto simp: callback_def Let_def)
  moreover have "kept E ?t x" if "event_owes E raw x" for x
    using owed_is_relevant [OF that, of is_dir] that by (auto simp: kept_def callback_def Let_def)
  ultimately show ?thesis using assms same by (auto simp: inv_kept_def)
qed

lemma receive_kept:
  assumes "kept E s x" "raw_queue s = raw # rest"
  shows "kept E (receive_raw E is_dir raw rest s) x"
  using assms
  by (auto simp: kept_def receive_raw_def Let_def intro: covers_bound process_keeps process_covers_owed)

lemma kept_loop:
  assumes "loop_step E s s'" "inv_kept E s" "inv_bounded E s"
  shows "inv_kept E s'"
  using assms(1)
proof (cases rule: loop_step.cases)
  case (Receive_Raw raw rest is_dir)
  then show ?thesis using assms(2) receive_kept [of E s _ raw rest is_dir]
    by (auto simp: inv_kept_def discarding_def) (auto simp: receive_raw_def Let_def)
next
  case Flush
  have "waiting s = Pending_Full \<or> (\<exists>ps. waiting s = Pending_Paths ps \<and> finite ps)"
    using assms(3) by (cases "waiting s") (auto simp: inv_bounded_def)
  moreover have "reported (snd (deliver E s)) \<subseteq> reported s" by (auto simp: deliver_def split: prod.splits)
  ultimately show ?thesis
    using Flush assms(2) deliver_keeps [of _ E s]
    by (auto simp: inv_kept_def after_sleep_eq Let_def discarding_def kept_def deliver_fields)
next
  case Cancel
  then show ?thesis by (simp add: inv_kept_def discarding_def)
qed (use assms(2) in \<open>auto simp: inv_kept_def discarding_def kept_def loop_top_def poll_tick_def Let_def\<close>)

lemma awake_loop:
  assumes "loop_step E s s'" "inv_awake E s"
  shows "inv_awake E s'"
  using assms(1)
proof (cases rule: loop_step.cases)
  case (Receive_Raw raw rest is_dir)
  then show ?thesis by (auto simp: inv_awake_def receive_raw_def Let_def delivery_retry_delay_def)
next
  case Flush
  then show ?thesis by (auto simp: inv_awake_def after_sleep_eq Let_def delivery_retry_delay_def)
qed (use assms(2) in \<open>auto simp: inv_awake_def loop_top_def poll_tick_def Let_def\<close>)

lemma invariants_step:
  assumes "watch_step E s s'" "inv_kept E s" "inv_bounded E s" "inv_awake E s" "0 < env_raw_capacity E"
  shows "inv_kept E s' \<and> inv_bounded E s' \<and> inv_awake E s'"
  using assms(1)
proof (cases rule: watch_step.cases)
  case Task
  then show ?thesis using assms(2-4) kept_loop bounded_loop awake_loop by blast
next
  case (Callback is_dir raw)
  then show ?thesis using callback_kept [OF assms(2)] assms(3-5)
    by (auto simp: inv_awake_def inv_bounded_def callback_def Let_def)
qed (use assms(2-4) in \<open>auto simp: inv_kept_def kept_def inv_bounded_def inv_awake_def\<close>)

lemma watch_invariants:
  assumes "watch_reachable E s" "0 < env_raw_capacity E"
  shows "inv_kept E s \<and> inv_bounded E s \<and> inv_awake E s"
  using assms(1)
proof induction
  case Watch_Start
  then show ?case
    by (simp add: watch_start_def inv_kept_def inv_bounded_def inv_awake_def discarding_def pending_empty_def)
next
  case (Watch_Step s s')
  then show ?case using invariants_step assms(2) by blast
qed

section \<open>Properties of the watcher\<close>

text \<open>The watcher never loses a change.  While the task runs, every path it was told of since the
  last message that covers it is still held: in the pending request, by the overflow flag, or by a
  notification in the raw queue that obliges the watcher to report it.\<close>

theorem watcher_never_loses_changes:
  assumes "watch_reachable E s" "0 < env_raw_capacity E" "pc s \<noteq> Stopped" "x \<in> reported s"
  shows "covers (waiting s) x \<or> overflowed s \<or> (\<exists>raw\<in>set (raw_queue s). event_owes E raw x)"
proof -
  have "kept E s x" using watch_invariants [OF assms(1,2)] assms(3,4) by (auto simp: inv_kept_def)
  then show ?thesis by (simp add: kept_def list_ex_iff)
qed

definition sample_watch_env :: watch_env where
  "sample_watch_env =
     \<lparr> env_windows = False, env_globs = no_globs,
       env_policy = \<lparr>include_generated = False, dp_index_scope =
         (let m = \<lparr>sm_matcher = pattern_set_empty, sm_static_prefixes = [], sm_excluded_subtree_roots = []\<rparr> in
          \<lparr>sc_includes = [], sc_excludes = [], sc_include_matcher = m, sc_exclude_matcher = m, sc_digest = None\<rparr>)\<rparr>,
       env_root = [''repo''], env_native = True, env_raw_capacity = 64, env_capacity = 1,
       env_debounce = 200, env_poll_interval = 30000 \<rparr>"

definition sample_event :: raw_event where
  "sample_event = Some \<lparr>ev_kind = Kind_Modify, ev_rescan = False, ev_paths = [[''repo'', ''src'', ''a.rs'']]\<rparr>"

text \<open>The callback is told of a change and the loop reads the notification.\<close>

definition sample_watch :: watch_state where
  "sample_watch = receive_raw sample_watch_env (\<lambda>_. False) sample_event []
     (loop_top (callback sample_watch_env (\<lambda>_. False) sample_event (watch_start sample_watch_env)))"

lemma sample_event_owes: "event_owes sample_watch_env sample_event ''src/a.rs''"
  by code_simp

lemma sample_event_relevant: "raw_event_is_relevant sample_watch_env (\<lambda>_. False) sample_event"
  by code_simp

lemma sample_env [simp]:
  "env_native sample_watch_env" "env_raw_capacity sample_watch_env = 64" "env_debounce sample_watch_env = 200"
  "delivery_retry_delay sample_watch_env = 200"
  by (simp_all add: sample_watch_env_def delivery_retry_delay_def)

lemma sample_callback:
  "callback sample_watch_env (\<lambda>_. False) sample_event (watch_start sample_watch_env) =
     (watch_start sample_watch_env)\<lparr>raw_queue := [sample_event],
        reported := {x. event_owes sample_watch_env sample_event x}\<rparr>"
  by (simp add: callback_def sample_event_relevant Let_def watch_start_def)

lemma sample_watch_eq:
  "sample_watch = (watch_start sample_watch_env)\<lparr>waiting := Pending_Paths {''src/a.rs''}, pc := At_Top,
     sleep_until := 200, reported := {x. event_owes sample_watch_env sample_event x}\<rparr>"
proof -
  have p: "pending_bound 64 (process_raw_event sample_watch_env (\<lambda>_. False) sample_event (Pending_Paths {})) =
      Pending_Paths {''src/a.rs''}"
    by code_simp
  show ?thesis
    unfolding sample_watch_def sample_callback
    by (simp add: receive_raw_def loop_top_def Let_def watch_start_def p flip: pending_empty_def)
      (simp add: pending_empty_def p)
qed

lemma sample_top:
  "loop_top (callback sample_watch_env (\<lambda>_. False) sample_event (watch_start sample_watch_env)) =
     (watch_start sample_watch_env)\<lparr>raw_queue := [sample_event], pc := At_Select,
        reported := {x. event_owes sample_watch_env sample_event x}\<rparr>"
  by (simp add: sample_callback) (simp add: loop_top_def watch_start_def)

lemma sample_read:
  "loop_step sample_watch_env
     (loop_top (callback sample_watch_env (\<lambda>_. False) sample_event (watch_start sample_watch_env))) sample_watch"
  unfolding sample_watch_def
  by (rule Receive_Raw; simp only: sample_top; simp add: watch_start_def pending_empty_def)

lemma sample_watch_reachable: "watch_reachable sample_watch_env sample_watch"
proof -
  let ?c = "callback sample_watch_env (\<lambda>_. False) sample_event (watch_start sample_watch_env)"
  have "watch_reachable sample_watch_env ?c"
    by (rule Watch_Step [OF Watch_Start Callback]) simp
  then have "watch_reachable sample_watch_env (loop_top ?c)"
    by (rule Watch_Step [OF _ Task [OF Top]]) (simp add: sample_callback; simp add: watch_start_def)
  then show ?thesis by (rule Watch_Step [OF _ Task [OF sample_read]])
qed

theorem watcher_never_loses_changes_witness:
  "covers (waiting sample_watch) ''src/a.rs'' \<or> overflowed sample_watch \<or>
   (\<exists>raw\<in>set (raw_queue sample_watch). event_owes sample_watch_env raw ''src/a.rs'')"
  by (rule watcher_never_loses_changes [OF sample_watch_reachable])
    (simp_all add: sample_watch_eq sample_event_owes)

text \<open>The watcher does not sleep on a change: when the loop waits while a reported path is not yet
  delivered, either a raw notification is ready to be read, or the sleep ends within the longer of the
  debounce and ten milliseconds.\<close>

theorem watcher_wakes_up:
  assumes "watch_reachable E s" "0 < env_raw_capacity E" "pc s = At_Select" "x \<in> reported s"
  shows "waiting s \<noteq> Pending_Full \<and> raw_queue s \<noteq> [] \<or>
    sleep_until s \<le> time s + max (env_debounce E) 10"
proof -
  have inv: "inv_kept E s" "inv_awake E s" using watch_invariants [OF assms(1,2)] by auto
  then have "kept E s x" using assms(3,4) by (simp add: inv_kept_def)
  then have "covers (waiting s) x \<or> raw_queue s \<noteq> []"
    using inv(2) assms(3) by (cases "raw_queue s") (auto simp: kept_def inv_awake_def)
  then show ?thesis
    using inv(2) assms(3) covers_not_empty [of "waiting s" x]
    by (cases "waiting s = Pending_Full") (auto simp: inv_awake_def delivery_retry_delay_def)
qed

theorem watcher_wakes_up_witness: "sleep_until (loop_top sample_watch) \<le> 200"
proof -
  have "watch_reachable sample_watch_env (loop_top sample_watch)"
    by (rule Watch_Step [OF sample_watch_reachable Task [OF Top]]) (simp add: sample_watch_eq)
  moreover have "pc (loop_top sample_watch) = At_Select" "''src/a.rs'' \<in> reported (loop_top sample_watch)"
    "raw_queue (loop_top sample_watch) = []" "time (loop_top sample_watch) = 0"
    by (simp_all add: sample_watch_eq loop_top_def sample_event_owes watch_start_def)
  ultimately show ?thesis
    using watcher_wakes_up [of sample_watch_env "loop_top sample_watch" "''src/a.rs''"] by simp
qed

text \<open>The watcher's memory is bounded whatever the file system does: the raw queue and the pending
  paths by the raw capacity, the outgoing queue by the capacity of its channel.\<close>

theorem watcher_bounded:
  assumes "watch_reachable E s" "0 < env_raw_capacity E"
  shows "length (raw_queue s) \<le> env_raw_capacity E \<and> length (out_queue s) \<le> max (env_capacity E) 1 \<and>
    (case waiting s of Pending_Full \<Rightarrow> True | Pending_Paths ps \<Rightarrow> finite ps \<and> card ps \<le> env_raw_capacity E)"
  using watch_invariants [OF assms] by (cases "waiting s") (auto simp: inv_bounded_def)

theorem watcher_bounded_witness: "length (raw_queue sample_watch) \<le> 64"
  using watcher_bounded [OF sample_watch_reachable] by simp

lemma admission_loop_complete:
  "adm_fallback (admission_loop dcap ecap items n d) = None \<longleftrightarrow>
     list_all (\<lambda>(cancelled, entry). \<not> cancelled \<and> entry \<noteq> None) items \<and>
     (items \<noteq> [] \<longrightarrow> n + length items \<le> ecap) \<and>
     (length (filter is_directory_entry items) = 0 \<or> d + length (filter is_directory_entry items) \<le> dcap)"
  by (induction dcap ecap items n d rule: admission_loop.induct)
    (auto simp: Let_def is_directory_entry_def split: option.split bool.split)

text \<open>Native notifications are only enabled for a tree whose watch count is known to be bounded: the
  walk saw the whole tree without error or cancellation and found at most the admitted number of
  entries and directories.\<close>

theorem native_backend_bounded:
  assumes "select_backend (inspect_watch_admission dcap ecap items) created registered = None"
  shows "list_all (\<lambda>(cancelled, entry). \<not> cancelled \<and> entry \<noteq> None) items \<and> length items \<le> ecap \<and>
    length (filter is_directory_entry items) \<le> dcap \<and> created \<and> registered"
  using assms admission_loop_complete [of dcap ecap items 0 0]
  by (auto simp: select_backend_def inspect_watch_admission_def split: option.splits if_splits)

theorem native_backend_bounded_witness:
  "length (filter is_directory_entry [(False, Some True), (False, Some False)]) \<le> 1"
proof -
  have "select_backend (inspect_watch_admission 1 2 [(False, Some True), (False, Some False)]) True True = None"
    by code_simp
  from native_backend_bounded [OF this] show ?thesis by blast
qed

end
