(* ===== verification/Watch_System.thy ===== *)
theory Watch_System
  imports Watch_Loop
begin

text \<open>
  The watcher and the index leader together, as \<open>run_index_leader\<close> of
  \<open>src/main/index_runtime.rs\<close> connects them: the watcher's outgoing channel is the receiver the
  leader drains.  To say that the index is up to date, each path has the number of changes reported
  so far (\<open>versions\<close>), and the number that had been reported when the last successful reconciliation
  covering it began (\<open>indexed\<close>); \<open>snapshot\<close> is the number at the start of the running action.
\<close>

record system =
  watcher :: watch_state
  leader :: leader
  versions :: "string \<Rightarrow> nat"
  indexed :: "string \<Rightarrow> nat"
  snapshot :: "string \<Rightarrow> nat"

definition system_start :: "watch_env \<Rightarrow> schedule_policy \<Rightarrow> system" where
  "system_start E p =
     \<lparr> watcher = watch_start E, leader = leader_new p, versions = (\<lambda>_. 0), indexed = (\<lambda>_. 0),
       snapshot = (\<lambda>_. 0) \<rparr>"

definition notify :: "watch_env \<Rightarrow> (host_path \<Rightarrow> bool) \<Rightarrow> raw_event \<Rightarrow> system \<Rightarrow> system" where
  "notify E is_dir raw s =
     s\<lparr>watcher := callback E is_dir raw (watcher s),
       versions := (\<lambda>x. if event_owes E raw x then Suc (versions s x) else versions s x)\<rparr>"

definition hand_over :: "(string \<Rightarrow> bool) \<Rightarrow> watcher_message \<Rightarrow> watcher_message list \<Rightarrow> system \<Rightarrow> system" where
  "hand_over is_artifact m ms s =
     s\<lparr>watcher := (watcher s)\<lparr>out_queue := ms\<rparr>, leader := receive is_artifact m (leader s)\<rparr>"

definition begin_work :: "watcher_action \<Rightarrow> system \<Rightarrow> system" where
  "begin_work a s = s\<lparr>leader := start_action a (leader s), snapshot := versions s\<rparr>"

definition end_work :: "(index_error + unit) \<Rightarrow> bool \<Rightarrow> watcher_action \<Rightarrow> system \<Rightarrow> system" where
  "end_work outcome cancelled a s =
     s\<lparr>leader := finish_action outcome cancelled a (leader s),
       indexed := (\<lambda>x. if outcome = Inr () \<and> action_covers a x then snapshot s x else indexed s x)\<rparr>"

inductive system_step :: "watch_env \<Rightarrow> (string \<Rightarrow> bool) \<Rightarrow> system \<Rightarrow> system \<Rightarrow> bool"
  for E :: watch_env and is_artifact :: "string \<Rightarrow> bool" where
  Watch_Task: "loop_step E (watcher s) w \<Longrightarrow> system_step E is_artifact s (s\<lparr>watcher := w\<rparr>)"
| Notify: "env_native E \<Longrightarrow> system_step E is_artifact s (notify E is_dir raw s)"
| Hand_Over: "out_queue (watcher s) = m # ms \<Longrightarrow> running (leader s) = None \<Longrightarrow> ended (leader s) = None \<Longrightarrow>
    system_step E is_artifact s (hand_over is_artifact m ms s)"
| Leader_Elapse: "system_step E is_artifact s (s\<lparr>leader := (leader s)\<lparr>clock := clock (leader s) + d\<rparr>\<rparr>)"
| Begin_Work: "running (leader s) = None \<Longrightarrow> ended (leader s) = None \<Longrightarrow>
    fst (take_ready (clock (leader s)) (sched (leader s))) = Some a \<Longrightarrow>
    system_step E is_artifact s (begin_work a s)"
| End_Work: "running (leader s) = Some a \<Longrightarrow> system_step E is_artifact s (end_work outcome cancelled a s)"
| Hang_Up: "ended (leader s) \<noteq> None \<Longrightarrow>
    system_step E is_artifact s (s\<lparr>watcher := (watcher s)\<lparr>out_closed := True\<rparr>\<rparr>)"

inductive system_reachable :: "watch_env \<Rightarrow> (string \<Rightarrow> bool) \<Rightarrow> schedule_policy \<Rightarrow> system \<Rightarrow> bool"
  for E :: watch_env and is_artifact :: "string \<Rightarrow> bool" and p :: schedule_policy where
  System_Start: "system_reachable E is_artifact p (system_start E p)"
| System_Step: "system_reachable E is_artifact p s \<Longrightarrow> system_step E is_artifact s s' \<Longrightarrow>
    system_reachable E is_artifact p s'"

section \<open>The components run as on their own\<close>

lemma system_watcher_step:
  assumes "system_step E db s s'"
  shows "watcher s' = watcher s \<or> watch_step E (watcher s) (watcher s')"
  using assms
  by (cases rule: system_step.cases)
    (auto simp: notify_def hand_over_def begin_work_def end_work_def intro: watch_step.intros)

lemma system_leader_step:
  assumes "system_step E db s s'"
  shows "leader s' = leader s \<or> leader_step db (leader s) (leader s')"
  using assms
  by (cases rule: system_step.cases)
    (auto simp: notify_def hand_over_def begin_work_def end_work_def intro: leader_step.intros)

lemma system_components:
  assumes "system_reachable E db p s"
  shows "watch_reachable E (watcher s) \<and> leader_reachable db p (leader s)"
  using assms
proof induction
  case System_Start
  then show ?case by (simp add: system_start_def watch_reachable.intros leader_reachable.intros)
next
  case (System_Step s s')
  then show ?case
    using system_watcher_step [OF System_Step(2)] system_leader_step [OF System_Step(2)]
    by (metis watch_reachable.Watch_Step leader_reachable.Step)
qed

section \<open>Where a change is held\<close>

definition msg_covers :: "string \<Rightarrow> watcher_message \<Rightarrow> bool" where
  "msg_covers x m = (case m of Changed ps \<Rightarrow> x \<in> set ps | ReconcileRequired \<Rightarrow> True)"

definition in_transit :: "watch_env \<Rightarrow> system \<Rightarrow> string \<Rightarrow> bool" where
  "in_transit E s x \<longleftrightarrow> kept E (watcher s) x \<or> list_ex (msg_covers x) (out_queue (watcher s)) \<or>
     (case pending (sched (leader s)) of None \<Rightarrow> False | Some q \<Rightarrow> covers q x)"

definition being_indexed :: "system \<Rightarrow> string \<Rightarrow> bool" where
  "being_indexed s x \<longleftrightarrow> snapshot s x = versions s x \<and>
     (case running (leader s) of None \<Rightarrow> False | Some a \<Rightarrow> action_covers a x)"

definition operating :: "system \<Rightarrow> bool" where
  "operating s \<longleftrightarrow> pc (watcher s) \<noteq> Stopped \<and> ended (leader s) = None"

definition system_ok :: "watch_env \<Rightarrow> (string \<Rightarrow> bool) \<Rightarrow> system \<Rightarrow> bool" where
  "system_ok E db s \<longleftrightarrow> (\<forall>x. indexed s x \<le> versions s x \<and> snapshot s x \<le> versions s x \<and>
     (running (leader s) \<noteq> None \<longrightarrow> indexed s x \<le> snapshot s x) \<and>
     (operating s \<and> \<not> db x \<and> indexed s x \<noteq> versions s x \<longrightarrow> in_transit E s x \<or> being_indexed s x))"

lemma deliver_moves:
  assumes "kept E s x" "inv_bounded E s"
  shows "(kept E (snd (deliver E s)) x \<or> list_ex (msg_covers x) (out_queue (snd (deliver E s)))) \<and>
    set (out_queue s) \<subseteq> set (out_queue (snd (deliver E s)))"
proof -
  have fin: "\<forall>ps. waiting s = Pending_Paths ps \<longrightarrow> finite ps" using assms(2) by (auto simp: inv_bounded_def)
  show ?thesis
  proof (cases "waiting s")
    case (Pending_Paths ps)
    then show ?thesis using assms(1) fin
      by (cases "try_send E s") (auto simp: deliver_def flush_def kept_def msg_covers_def)
  next
    case Pending_Full
    then show ?thesis using assms(1)
      by (cases "try_send E s") (auto simp: deliver_def flush_def kept_def msg_covers_def)
  qed
qed

lemma loop_moves:
  assumes "loop_step E w w'" "inv_bounded E w" "inv_kept E w" "pc w' \<noteq> Stopped" "kept E w x"
  shows "kept E w' x \<or> list_ex (msg_covers x) (out_queue w')"
  using assms(1)
proof (cases rule: loop_step.cases)
  case (Receive_Raw raw rest is_dir)
  then show ?thesis using receive_kept [OF assms(5), of raw rest is_dir] by simp
next
  case Flush
  then show ?thesis using deliver_moves [OF assms(5,2)]
    by (auto simp: after_sleep_eq Let_def kept_def)
next
  case Cancel
  then show ?thesis using assms(4) by simp
qed (use assms(3,5) in \<open>auto simp: kept_def inv_kept_def discarding_def loop_top_def poll_tick_def Let_def\<close>)

lemma deliver_queue: "set (out_queue w) \<subseteq> set (out_queue (snd (deliver E w)))"
  by (auto simp: deliver_def split: prod.split option.split)

lemma loop_queue:
  assumes "loop_step E w w'" shows "set (out_queue w) \<subseteq> set (out_queue w')"
  using assms
proof (cases rule: loop_step.cases)
  case Flush
  then show ?thesis using deliver_queue by (auto simp: after_sleep_eq Let_def)
next
  case Cancel
  then show ?thesis using deliver_queue by auto
qed (auto simp: loop_top_def poll_tick_def receive_raw_def Let_def)

lemma loop_running: "loop_step E w w' \<Longrightarrow> pc w' \<noteq> Stopped \<Longrightarrow> pc w \<noteq> Stopped"
  by (cases rule: loop_step.cases) auto
lemma hand_over_transit:
  assumes "in_transit E s x" "out_queue (watcher s) = m # ms" "\<not> db x"
  shows "in_transit E (hand_over db m ms s) x"
proof -
  let ?l = "leader s"
  have "kept E (watcher s) x \<or> list_ex (msg_covers x) ms \<or>
      (\<exists>q. pending (schedule_watcher_message db m (clock ?l) (sched ?l)) = Some q \<and> covers q x)"
  proof (cases "msg_covers x m")
    case True
    then have "m = ReconcileRequired \<or> x \<in> message_paths db m"
      using assms(3) by (cases m) (auto simp: msg_covers_def message_paths_def)
    then show ?thesis
      using schedule_full [of "sched ?l" m db "clock ?l"] schedule_covers [of "sched ?l" x db m "clock ?l"] by fastforce
  next
    case False
    then show ?thesis using assms(1,2) schedule_covers [of "sched ?l" x db m "clock ?l"]
      by (auto simp: in_transit_def split: option.splits)
  qed
  then show ?thesis by (auto simp: in_transit_def hand_over_def receive_def kept_def)
qed

lemma begin_work_holds:
  assumes "in_transit E s x" "fst (take_ready (clock (leader s)) (sched (leader s))) = Some a"
    "sched_ok p (sched (leader s))"
  shows "in_transit E (begin_work a s) x \<or> being_indexed (begin_work a s) x"
  using assms(1) take_ready_action [OF assms(3,2)]
  by (auto simp: in_transit_def begin_work_def start_action_def being_indexed_def)

lemma end_work_holds:
  assumes "indexed s x \<noteq> versions s x \<Longrightarrow> in_transit E s x \<or> being_indexed s x"
    and "indexed (end_work outcome cancelled a s) x \<noteq> versions s x" "operating (end_work outcome cancelled a s)"
    and "running (leader s) = Some a" "pending (sched (leader s)) = None" "indexed s x \<le> snapshot s x" "snapshot s x \<le> versions s x"
  shows "in_transit E (end_work outcome cancelled a s) x"
proof (cases rule: finish_action_cases [of outcome cancelled a "leader s"])
  case success
  then have "indexed s x \<noteq> versions s x" "\<not> being_indexed s x"
    using assms(2,4-7) by (auto simp: end_work_def being_indexed_def split: if_splits)
  then show ?thesis using assms(1) success
    by (auto simp: in_transit_def end_work_def success_fields)
next
  case (stop r)
  then show ?thesis using assms(3) by (simp add: operating_def end_work_def)
next
  case failure
  have "indexed s x \<noteq> versions s x"
    using assms(2,6,7) by (auto simp: end_work_def split: if_splits)
  then have "in_transit E s x \<or> action_covers a x" using assms(1,4) by (auto simp: being_indexed_def)
  then show ?thesis using failure assms(5) failure_covers [of a x "clock (leader s)" "sched (leader s)"]
    by (auto simp: in_transit_def end_work_def)
qed

lemma system_ok_step:
  assumes step: "system_step E db s s'" and ok: "system_ok E db s"
    and inv: "inv_kept E (watcher s)" "inv_bounded E (watcher s)" "leader_ok p (leader s)"
  shows "system_ok E db s'"
  using step
proof (cases rule: system_step.cases)
  case (Watch_Task w)
  have "in_transit E (s\<lparr>watcher := w\<rparr>) x" if "in_transit E s x" "pc w \<noteq> Stopped" for x
    using that loop_moves [OF Watch_Task(2) inv(2,1), of x] loop_queue [OF Watch_Task(2)]
    by (auto simp: in_transit_def list_ex_iff)
  then show ?thesis using Watch_Task ok loop_running [OF Watch_Task(2)]
    by (auto simp: system_ok_def operating_def being_indexed_def)
next
  case (Notify is_dir raw)
  have "in_transit E s' x" if "in_transit E s x \<or> event_owes E raw x" for x
    using that Notify owed_is_relevant [of E raw x is_dir]
    by (auto simp: in_transit_def notify_def kept_def callback_def Let_def)
  moreover have "being_indexed s' x" if "being_indexed s x" "\<not> event_owes E raw x" for x
    using that Notify by (simp add: being_indexed_def notify_def)
  ultimately show ?thesis using Notify ok
    by (auto simp: system_ok_def operating_def notify_def callback_def Let_def le_SucI)
next
  case (Hand_Over m ms)
  then show ?thesis using ok hand_over_transit [of E s _ m ms db]
    by (auto simp: system_ok_def operating_def being_indexed_def) (auto simp: hand_over_def receive_def)
next
  case (Leader_Elapse d)
  then show ?thesis using ok by (auto simp: system_ok_def operating_def in_transit_def being_indexed_def)
next
  case (Begin_Work a)
  have "sched_ok p (sched (leader s))" using inv(3) by (simp add: leader_ok_def)
  then show ?thesis using Begin_Work ok begin_work_holds [of E s _ a p]
    by (auto simp: system_ok_def operating_def being_indexed_def) (auto simp: begin_work_def start_action_def)
next
  case (End_Work a outcome cancelled)
  have p: "pending (sched (leader s)) = None" using inv(3) End_Work by (simp add: leader_ok_def)
  have n: "running (finish_action outcome cancelled a (leader s)) = None"
    by (cases rule: finish_action_cases [of outcome cancelled a "leader s"]) simp_all
  have op: "operating s" if "operating s'"
    using that End_Work
    by (cases rule: finish_action_cases [of outcome cancelled a "leader s"]) (auto simp: operating_def end_work_def)
  show ?thesis using End_Work ok p n op end_work_holds [of s _ E outcome cancelled a]
    by (auto simp: system_ok_def) (auto simp: end_work_def)
next
  case Hang_Up
  then show ?thesis using ok by (auto simp: system_ok_def operating_def)
qed

lemma system_invariant:
  assumes "system_reachable E db p s" "0 < env_raw_capacity E" "policy_ok p"
  shows "system_ok E db s"
  using assms(1)
proof induction
  case System_Start
  then show ?case by (simp add: system_ok_def system_start_def leader_new_def)
next
  case (System_Step s s')
  have "inv_kept E (watcher s)" "inv_bounded E (watcher s)" "leader_ok p (leader s)"
    using system_components [OF System_Step(1)] watch_invariants assms(2) reachable_ok assms(3) by blast+
  then show ?case using system_ok_step System_Step by blast
qed

section \<open>End to end\<close>

text \<open>C4: No change is lost on its way from the file system to the index.  While the watcher and the
  leader run, a path (not a database artifact) for which more changes were reported than the index
  has taken in is held in one of: the watcher's pending request, its overflow flag, its raw queue,
  a message between the two, the scheduler's pending work, or the running action, started after the
  last reported change.\<close>

theorem no_change_is_lost:
  assumes "system_reachable E is_artifact p s" "0 < env_raw_capacity E" "policy_ok p"
    and "pc (watcher s) \<noteq> Stopped" "ended (leader s) = None" "\<not> is_artifact x"
    and "indexed s x \<noteq> versions s x"
  shows "covers (waiting (watcher s)) x \<or> overflowed (watcher s) \<or>
    list_ex (\<lambda>raw. event_owes E raw x) (raw_queue (watcher s)) \<or>
    list_ex (msg_covers x) (out_queue (watcher s)) \<or>
    (\<exists>q. pending (sched (leader s)) = Some q \<and> covers q x) \<or>
    (\<exists>a. running (leader s) = Some a \<and> action_covers a x \<and> snapshot s x = versions s x)"
proof -
  have "in_transit E s x \<or> being_indexed s x"
    using system_invariant [OF assms(1-3)] assms(4-7) unfolding system_ok_def operating_def by blast
  then show ?thesis by (auto simp: in_transit_def being_indexed_def kept_def split: option.splits)
qed

lemma idle_is_current:
  assumes "system_ok E db s" "operating s" "\<not> db x"
    and "waiting (watcher s) = pending_empty" "\<not> overflowed (watcher s)" "raw_queue (watcher s) = []"
    and "out_queue (watcher s) = []" "pending (sched (leader s)) = None" "running (leader s) = None"
  shows "indexed s x = versions s x"
  using assms by (auto simp: system_ok_def in_transit_def being_indexed_def kept_def)

text \<open>When nothing is queued, pending or running, the index has taken in every reported change of
  every path that is not a database artifact.\<close>

theorem idle_system_is_current:
  assumes "system_reachable E is_artifact p s" "0 < env_raw_capacity E" "policy_ok p"
    and "pc (watcher s) \<noteq> Stopped" "ended (leader s) = None" "\<not> is_artifact x"
    and "waiting (watcher s) = pending_empty" "\<not> overflowed (watcher s)" "raw_queue (watcher s) = []"
    and "out_queue (watcher s) = []" "pending (sched (leader s)) = None" "running (leader s) = None"
  shows "indexed s x = versions s x"
  using idle_is_current [OF system_invariant [OF assms(1-3)] _ assms(6-12)] assms(4,5)
  by (simp add: operating_def)

definition sample_notified :: system where
  "sample_notified = notify sample_watch_env (\<lambda>_. False) sample_event
     (system_start sample_watch_env (runtime_policy 200))"

lemma sample_notified_reachable:
  "system_reachable sample_watch_env (\<lambda>_. False) (runtime_policy 200) sample_notified"
  unfolding sample_notified_def
  by (rule System_Step [OF System_Start Notify]) simp

lemma sample_notified_fields:
  "indexed sample_notified ''src/a.rs'' = 0" "versions sample_notified ''src/a.rs'' = 1"
  "pc (watcher sample_notified) = At_Top" "ended (leader sample_notified) = None"
  "running (leader sample_notified) = None"
  by (simp_all add: sample_notified_def notify_def system_start_def sample_event_owes callback_def Let_def
      watch_start_def leader_new_def)

theorem no_change_is_lost_witness:
  "covers (waiting (watcher sample_notified)) ''src/a.rs'' \<or> overflowed (watcher sample_notified) \<or>
    list_ex (\<lambda>raw. event_owes sample_watch_env raw ''src/a.rs'') (raw_queue (watcher sample_notified)) \<or>
    list_ex (msg_covers ''src/a.rs'') (out_queue (watcher sample_notified)) \<or>
    (\<exists>q. pending (sched (leader sample_notified)) = Some q \<and> covers q ''src/a.rs'')"
  using no_change_is_lost [OF sample_notified_reachable _ runtime_policy_ok, of "''src/a.rs''"]
  by (auto simp: sample_notified_fields)

text \<open>The change of the example: read by the watcher, delivered, handed over and reconciled.\<close>

definition sample_pending :: system where
  "sample_pending = sample_notified\<lparr>watcher := loop_top sample_watch\<rparr>"

definition sample_delivered :: system where
  "sample_delivered =
     (let w = loop_top sample_watch; w = w\<lparr>time := time w + 200\<rparr>; w = w\<lparr>pc := At_Flush\<rparr> in
      sample_notified\<lparr>watcher := after_sleep sample_watch_env w\<rparr>)"

definition sample_handed :: system where
  "sample_handed = hand_over (\<lambda>_. False) (Changed [''src/a.rs'']) [] sample_delivered"

definition sample_due :: system where
  "sample_due = sample_handed\<lparr>leader := (leader sample_handed)\<lparr>clock := clock (leader sample_handed) + 200\<rparr>\<rparr>"

definition sample_indexed :: system where
  "sample_indexed = end_work (Inr ()) False (Act_Paths [''src/a.rs''])
     (begin_work (Act_Paths [''src/a.rs'']) sample_due)"

abbreviation sample_reach :: "system \<Rightarrow> bool" where
  "sample_reach \<equiv> system_reachable sample_watch_env (\<lambda>_. False) (runtime_policy 200)"

lemma reach_task: "sample_reach s \<Longrightarrow> loop_step sample_watch_env (watcher s) w \<Longrightarrow> sample_reach (s\<lparr>watcher := w\<rparr>)"
  by (rule System_Step [OF _ Watch_Task])

lemma sample_select:
  "pc (loop_top sample_watch) = At_Select" "waiting (loop_top sample_watch) = Pending_Paths {''src/a.rs''}"
  "raw_queue (loop_top sample_watch) = []" "\<not> overflowed (loop_top sample_watch)"
  "out_queue (loop_top sample_watch) = []" "\<not> out_closed (loop_top sample_watch)"
  "sleep_until (loop_top sample_watch) = 200" "time (loop_top sample_watch) = 0"
  by (simp_all only: sample_watch_eq) (simp_all add: loop_top_def watch_start_def)

lemma sample_wake:
  "loop_step sample_watch_env ((loop_top sample_watch)\<lparr>time := time (loop_top sample_watch) + 200\<rparr>)
     ((loop_top sample_watch)\<lparr>time := time (loop_top sample_watch) + 200, pc := At_Flush\<rparr>)"
  using Wake [of "(loop_top sample_watch)\<lparr>time := time (loop_top sample_watch) + 200\<rparr>" sample_watch_env]
  by (simp add: sample_select)

lemma sample_pending_reachable: "sample_reach sample_pending"
proof -
  have w: "watcher sample_notified = callback sample_watch_env (\<lambda>_. False) sample_event (watch_start sample_watch_env)"
    by (simp add: sample_notified_def notify_def system_start_def)
  have "sample_reach (sample_notified\<lparr>watcher := loop_top (watcher sample_notified)\<rparr>)"
    by (rule reach_task [OF sample_notified_reachable Top]) (simp add: sample_notified_fields)
  then have "sample_reach (sample_notified\<lparr>watcher := loop_top (watcher sample_notified), watcher := sample_watch\<rparr>)"
    by (rule reach_task) (simp add: w sample_read)
  then have "sample_reach (sample_notified\<lparr>watcher := sample_watch\<rparr>)" by simp
  then have "sample_reach (sample_notified\<lparr>watcher := sample_watch, watcher := loop_top sample_watch\<rparr>)"
    by (rule reach_task) (simp add: loop_step.Top sample_watch_eq)
  then show ?thesis by (simp add: sample_pending_def)
qed

lemma sample_delivered_reachable: "sample_reach sample_delivered"
proof -
  let ?w = "loop_top sample_watch" and ?n = sample_notified
  have "sample_reach (?n\<lparr>watcher := ?w, watcher := ?w\<lparr>time := time ?w + 200\<rparr>\<rparr>)"
    using sample_pending_reachable unfolding sample_pending_def
    by (rule reach_task) (simp add: loop_step.Elapse)
  then have "sample_reach (?n\<lparr>watcher := ?w\<lparr>time := time ?w + 200\<rparr>\<rparr>)" by simp
  then have "sample_reach (?n\<lparr>watcher := ?w\<lparr>time := time ?w + 200\<rparr>, watcher := ?w\<lparr>time := time ?w + 200, pc := At_Flush\<rparr>\<rparr>)"
    by (rule reach_task) (simp add: sample_wake [simplified])
  then have "sample_reach (?n\<lparr>watcher := ?w\<lparr>time := time ?w + 200, pc := At_Flush\<rparr>\<rparr>)" by simp
  then have "sample_reach (?n\<lparr>watcher := ?w\<lparr>time := time ?w + 200, pc := At_Flush\<rparr>,
      watcher := after_sleep sample_watch_env (?w\<lparr>time := time ?w + 200, pc := At_Flush\<rparr>)\<rparr>)"
    by (rule reach_task) (simp add: loop_step.Flush)
  then show ?thesis by (simp add: sample_delivered_def Let_def)
qed

lemma sample_delivered_fields:
  "out_queue (watcher sample_delivered) = [Changed [''src/a.rs'']]" "waiting (watcher sample_delivered) = pending_empty"
  "\<not> overflowed (watcher sample_delivered)" "raw_queue (watcher sample_delivered) = []"
  "pc (watcher sample_delivered) = At_Top" "leader sample_delivered = leader_new (runtime_policy 200)"
  "indexed sample_delivered = indexed sample_notified" "versions sample_delivered = versions sample_notified"
  by (simp_all add: sample_delivered_def Let_def after_sleep_eq deliver_def try_send_def flush_def sample_select)
    (simp_all add: sample_notified_def notify_def system_start_def)

lemma sample_due_action: "fst (take_ready (clock (leader sample_due)) (sched (leader sample_due))) = Some (Act_Paths [''src/a.rs''])"
proof -
  have "leader sample_due = (receive (\<lambda>_. False) (Changed [''src/a.rs'']) (leader_new (runtime_policy 200)))\<lparr>clock := 200\<rparr>"
    by (simp add: sample_due_def sample_handed_def hand_over_def sample_delivered_fields)
      (simp add: receive_def leader_new_def)
  moreover have "fst (take_ready 200 (sched ((receive (\<lambda>_. False) (Changed [''src/a.rs'']) (leader_new (runtime_policy 200)))\<lparr>clock := 200\<rparr>)))
      = Some (Act_Paths [''src/a.rs''])" by code_simp
  ultimately show ?thesis by simp
qed

lemma sample_leader_fields:
  "running (leader sample_handed) = None" "ended (leader sample_handed) = None"
  "running (leader sample_due) = None" "ended (leader sample_due) = None"
  by (simp_all add: sample_due_def sample_handed_def hand_over_def receive_def sample_delivered_fields leader_new_def)

lemma sample_indexed_reachable: "sample_reach sample_indexed"
proof -
  have "sample_reach sample_handed"
    unfolding sample_handed_def
    by (rule System_Step [OF sample_delivered_reachable Hand_Over]) (simp_all add: sample_delivered_fields leader_new_def)
  then have "sample_reach sample_due"
    unfolding sample_due_def by (rule System_Step [OF _ Leader_Elapse])
  then have "sample_reach (begin_work (Act_Paths [''src/a.rs'']) sample_due)"
    by (rule System_Step [OF _ Begin_Work]) (simp_all add: sample_leader_fields sample_due_action)
  then show ?thesis unfolding sample_indexed_def
    by (rule System_Step [OF _ End_Work]) (simp add: begin_work_def start_action_def)
qed

lemma sample_indexed_fields:
  "watcher sample_indexed = (watcher sample_delivered)\<lparr>out_queue := []\<rparr>"
  "running (leader sample_indexed) = None" "ended (leader sample_indexed) = None"
  "pending (sched (leader sample_indexed)) = None" "versions sample_indexed ''src/a.rs'' = 1"
proof -
  have "sched_ok (runtime_policy 200) (sched (leader sample_due))"
    using system_components [OF System_Step [OF System_Step [OF sample_delivered_reachable Hand_Over] Leader_Elapse]]
      reachable_ok [OF _ runtime_policy_ok] sample_delivered_fields
    by (fastforce simp: sample_due_def sample_handed_def leader_ok_def leader_new_def)
  then have "pending (snd (take_ready (clock (leader sample_due)) (sched (leader sample_due)))) = None"
    using take_ready_action sample_due_action by blast
  then show "pending (sched (leader sample_indexed)) = None"
    by (simp add: sample_indexed_def end_work_def begin_work_def start_action_def finish_action_def
        execute_watcher_action_def Let_def success_fields)
qed (simp_all add: sample_indexed_def end_work_def begin_work_def start_action_def finish_action_def
        execute_watcher_action_def Let_def sample_due_def sample_handed_def hand_over_def sample_leader_fields
        sample_delivered_fields sample_notified_fields receive_def leader_new_def)

theorem idle_system_is_current_witness: "indexed sample_indexed ''src/a.rs'' = 1"
  using idle_system_is_current [OF sample_indexed_reachable _ runtime_policy_ok, of "''src/a.rs''"]
  by (simp add: sample_indexed_fields sample_delivered_fields)

end
