(* ===== verification/Fault_IO.thy ===== *)
theory Fault_IO
  imports Main
begin

text \<open>
  Sequential input and output with faults.  A program of type \<open>('s, 'e, 'a) io\<close> passes a state and
  ends with a value, with an error, or in a crash, after which nothing of the program runs.  Each
  primitive effect takes the next fault of a script that is part of the state: it succeeds, fails
  before or after it took effect, or the machine stops before or after it.  \<open>triple\<close> states a
  precondition with one postcondition for each of the three endings.
\<close>

datatype fault = No_Fault | Fail_Before | Fail_After | Crash_Before | Crash_After

datatype ('e, 'a) ending = Done 'a | Failed 'e | Crashed

type_synonym ('s, 'e, 'a) io = "'s \<Rightarrow> ('e, 'a) ending \<times> 's"

definition io_return :: "'a \<Rightarrow> ('s, 'e, 'a) io" where
  "io_return a s = (Done a, s)"

definition io_fail :: "'e \<Rightarrow> ('s, 'e, 'a) io" where
  "io_fail e s = (Failed e, s)"

definition io_bind :: "('s, 'e, 'a) io \<Rightarrow> ('a \<Rightarrow> ('s, 'e, 'b) io) \<Rightarrow> ('s, 'e, 'b) io" where
  "io_bind m f s =
     (case m s of (Done a, t) \<Rightarrow> f a t | (Failed e, t) \<Rightarrow> (Failed e, t) | (Crashed, t) \<Rightarrow> (Crashed, t))"

definition io_then :: "('s, 'e, 'a) io \<Rightarrow> ('s, 'e, 'b) io \<Rightarrow> ('s, 'e, 'b) io" where
  "io_then m n = io_bind m (\<lambda>_. n)"

text \<open>\<open>match\<close> on a \<open>Result\<close>: an error becomes a value; a crash cannot be caught.\<close>

definition io_try :: "('s, 'e, 'a) io \<Rightarrow> ('s, 'e, 'e + 'a) io" where
  "io_try m s =
     (case m s of (Done a, t) \<Rightarrow> (Done (Inr a), t) | (Failed e, t) \<Rightarrow> (Done (Inl e), t) | (Crashed, t) \<Rightarrow> (Crashed, t))"

fun io_each :: "('x \<Rightarrow> ('s, 'e, unit) io) \<Rightarrow> 'x list \<Rightarrow> ('s, 'e, unit) io" where
  "io_each f [] = io_return ()"
| "io_each f (x # xs) = io_then (f x) (io_each f xs)"

definition io_lift :: "('e + 'a) \<Rightarrow> ('s, 'e, 'a) io" where
  "io_lift r = (case r of Inl e \<Rightarrow> io_fail e | Inr a \<Rightarrow> io_return a)"

definition io_get :: "('s \<Rightarrow> 'a) \<Rightarrow> ('s, 'e, 'a) io" where
  "io_get f s = (Done (f s), s)"

definition io_modify :: "('s \<Rightarrow> 's) \<Rightarrow> ('s, 'e, unit) io" where
  "io_modify f s = (Done (), f s)"

text \<open>An effect under a fault.\<close>

definition io_faulty :: "fault \<Rightarrow> 'e \<Rightarrow> ('s \<Rightarrow> 's) \<Rightarrow> ('s, 'e, unit) io" where
  "io_faulty f e eff s =
     (case f of
        No_Fault \<Rightarrow> (Done (), eff s)
      | Fail_Before \<Rightarrow> (Failed e, s)
      | Fail_After \<Rightarrow> (Failed e, eff s)
      | Crash_Before \<Rightarrow> (Crashed, s)
      | Crash_After \<Rightarrow> (Crashed, eff s))"

lemma io_steps:
  "io_return a s = (Done b, t) \<longleftrightarrow> b = a \<and> t = s"
  "io_fail e s \<noteq> (Done b, t)"
  "io_bind m f s = (Done b, t) \<longleftrightarrow> (\<exists>a u. m s = (Done a, u) \<and> f a u = (Done b, t))"
  "io_then m n s = (Done b, t) \<longleftrightarrow> (\<exists>a u. m s = (Done a, u) \<and> n u = (Done b, t))"
  "io_get g s = (Done c, t) \<longleftrightarrow> c = g s \<and> t = s"
  "io_modify h s = (Done x, t) \<longleftrightarrow> t = h s"
  by (auto simp: io_return_def io_fail_def io_bind_def io_then_def io_get_def io_modify_def split: prod.splits ending.splits)

lemmas io_eval = io_then_def io_bind_def io_return_def io_fail_def io_get_def io_modify_def io_try_def

lemma io_bind_Done:
  assumes "io_bind m f s = (Done b, t)"
  obtains a u where "m s = (Done a, u)" "f a u = (Done b, t)"
  using assms unfolding io_steps by blast

lemma io_then_Done:
  assumes "io_then m n s = (Done b, t)"
  obtains a u where "m s = (Done a, u)" "n u = (Done b, t)"
  using assms unfolding io_steps by blast

section \<open>Triples\<close>

definition triple ::
  "('s \<Rightarrow> bool) \<Rightarrow> ('s, 'e, 'a) io \<Rightarrow> ('a \<Rightarrow> 's \<Rightarrow> bool) \<Rightarrow> ('s \<Rightarrow> bool) \<Rightarrow> ('s \<Rightarrow> bool) \<Rightarrow> bool" where
  "triple P m Q F C \<longleftrightarrow>
     (\<forall>s. P s \<longrightarrow> (case m s of (Done a, t) \<Rightarrow> Q a t | (Failed _, t) \<Rightarrow> F t | (Crashed, t) \<Rightarrow> C t))"

named_theorems triple_rules \<open>rules for the programs of a component\<close>

lemma triple_weaken:
  assumes "triple P m Q F C" "\<And>s. P' s \<Longrightarrow> P s" "\<And>a t. Q a t \<Longrightarrow> Q' a t" "\<And>t. F t \<Longrightarrow> F' t" "\<And>t. C t \<Longrightarrow> C' t"
  shows "triple P' m Q' F' C'"
  using assms unfolding triple_def by (fastforce split: prod.splits ending.splits)

lemma triple_return: "(\<And>s. P s \<Longrightarrow> Q a s) \<Longrightarrow> triple P (io_return a) Q F C"
  by (simp add: triple_def io_return_def)

lemma triple_fail: "(\<And>s. P s \<Longrightarrow> F s) \<Longrightarrow> triple P (io_fail e) Q F C"
  by (simp add: triple_def io_fail_def)

lemma triple_bind:
  assumes "triple P m R F C" "\<And>a. triple (R a) (f a) Q F C"
  shows "triple P (io_bind m f) Q F C"
  using assms unfolding triple_def io_bind_def by (fastforce split: prod.splits ending.splits)

lemma triple_then:
  "triple P m (\<lambda>_. R) F C \<Longrightarrow> triple R n Q F C \<Longrightarrow> triple P (io_then m n) Q F C"
  unfolding io_then_def by (rule triple_bind) auto

lemma triple_try:
  assumes "triple P m (\<lambda>a. Q (Inr a)) (\<lambda>t. \<forall>e. Q (Inl e) t) C"
  shows "triple P (io_try m) Q F C"
  using assms unfolding triple_def io_try_def by (fastforce split: prod.splits ending.splits)

lemma triple_each:
  assumes "\<And>x xs ys. zs = ys @ x # xs \<Longrightarrow> triple (I ys) (f x) (\<lambda>_. I (ys @ [x])) F C"
  shows "triple (I []) (io_each f zs) (\<lambda>_. I zs) F C"
proof -
  have "triple (I ys) (io_each f xs) (\<lambda>_. I zs) F C" if "zs = ys @ xs" for ys xs
    using that
  proof (induction xs arbitrary: ys)
    case Nil
    then show ?case by (simp add: triple_return)
  next
    case (Cons x xs)
    have "triple (I (ys @ [x])) (io_each f xs) (\<lambda>_. I zs) F C" using Cons by simp
    moreover have "triple (I ys) (f x) (\<lambda>_. I (ys @ [x])) F C" using Cons.prems by (rule assms)
    ultimately show ?case by (simp add: triple_then)
  qed
  from this [of "[]" zs] show ?thesis by simp
qed

lemma triple_lift:
  "(\<And>s a. P s \<Longrightarrow> r = Inr a \<Longrightarrow> Q a s) \<Longrightarrow> (\<And>s e. P s \<Longrightarrow> r = Inl e \<Longrightarrow> F s) \<Longrightarrow> triple P (io_lift r) Q F C"
  by (cases r) (auto simp: io_lift_def intro: triple_return triple_fail)

lemma triple_disj: "triple P m Q F C \<Longrightarrow> triple P' m Q F C \<Longrightarrow> triple (\<lambda>s. P s \<or> P' s) m Q F C"
  by (auto simp: triple_def)

lemma triple_False: "triple (\<lambda>_. False) m Q F C"
  by (simp add: triple_def)

lemma triple_pure: "(R \<Longrightarrow> triple P m Q F C) \<Longrightarrow> triple (\<lambda>s. R \<and> P s) m Q F C"
  by (auto simp: triple_def)

lemma triple_if:
  "triple (\<lambda>s. P s \<and> b) m Q F C \<Longrightarrow> triple (\<lambda>s. P s \<and> \<not> b) n Q F C \<Longrightarrow> triple P (if b then m else n) Q F C"
  by (auto simp: triple_def)

lemma tripleD:
  assumes "triple P m Q F C" "P s"
  shows "case m s of (Done a, t) \<Rightarrow> Q a t | (Failed _, t) \<Rightarrow> F t | (Crashed, t) \<Rightarrow> C t"
  using assms by (simp add: triple_def)

end
