(* ===== verification/Setup_Transaction.thy ===== *)
theory Setup_Transaction
  imports Fault_IO Rust_Str
begin

text \<open>
  Applying a setup plan to the configuration files of the supported clients
  (\<open>src/setup/transaction.rs\<close>, \<open>src/setup/apply.rs\<close>, and the file primitives of
  \<open>src/setup/edit/common.rs\<close>): the journal written before the first edit, the edits, commit, rollback
  and the recovery of an interrupted run.  The file system maps a path to a regular file (its
  bytes), a symbolic link or another node; a replacement of a file is atomic and effects reach the
  disk in program order.  The journal is the value its JSON text encodes, with the length of that
  text as a parameter, like the content hash.  Installing the private runtime is a parameter: only
  its results matter here.
\<close>

section \<open>Files\<close>

datatype node = Regular string | Symlink | Other_Node

datatype setup_error =
    Err_Io | Err_Symlink string | Err_File_Type string | Err_File_Limit string | Err_Malformed string
  | Err_Changed string | Err_Cannot_Recover string | Err_Omitted string | Err_Journal_Exists
  | Err_Journal_Invalid | Err_Journal_Version | Err_Journal_Limit | Err_Runtime string

datatype update = Present string | Absent

record journal_entry =
  je_path :: string
  je_original :: "string option"
  je_updated :: update

datatype journal_state = Pending | Committed

record setup_journal =
  schema_version :: nat
  journal_state :: journal_state
  entries :: "journal_entry list"

text \<open>What the journal path holds: a journal, or a text that does not parse.\<close>

datatype journal_file = Journal setup_journal | Garbage

record setup_fs =
  files :: "string \<Rightarrow> node option"
  journal :: "journal_file option"
  file_faults :: "fault list"
  journal_faults :: "fault list"

record setup_env =
  hash :: "string \<Rightarrow> string"
  journal_bytes :: "setup_journal \<Rightarrow> nat"

type_synonym 'a setup_io = "(setup_fs, setup_error, 'a) io"

definition max_setup_file_bytes :: nat where "max_setup_file_bytes = 8 * 1024 * 1024"
definition max_setup_journal_bytes :: nat where "max_setup_journal_bytes = 256 * 1024 * 1024"

definition next_fault :: "fault list \<Rightarrow> fault" where
  "next_fault fs = (case fs of [] \<Rightarrow> No_Fault | f # _ \<Rightarrow> f)"

definition on_files :: "((string \<Rightarrow> node option) \<Rightarrow> string \<Rightarrow> node option) \<Rightarrow> unit setup_io" where
  "on_files eff st =
     io_faulty (next_fault (file_faults st)) Err_Io (\<lambda>s. s\<lparr>files := eff (files s)\<rparr>)
       (st\<lparr>file_faults := tl (file_faults st)\<rparr>)"

definition on_journal :: "(journal_file option \<Rightarrow> journal_file option) \<Rightarrow> unit setup_io" where
  "on_journal eff st =
     io_faulty (next_fault (journal_faults st)) Err_Io (\<lambda>s. s\<lparr>journal := eff (journal s)\<rparr>)
       (st\<lparr>journal_faults := tl (journal_faults st)\<rparr>)"

definition get_files :: "(string \<Rightarrow> node option) setup_io" where
  "get_files st = (Done (files st), st)"

definition get_journal :: "journal_file option setup_io" where
  "get_journal st = (Done (journal st), st)"

definition reject_symlink_target :: "string \<Rightarrow> unit setup_io" where
  "reject_symlink_target path =
     io_then (on_files id)
       (io_bind get_files (\<lambda>fs. if fs path = Some Symlink then io_fail (Err_Symlink path) else io_return ()))"

definition read_optional :: "string \<Rightarrow> string option setup_io" where
  "read_optional path =
     io_then (reject_symlink_target path)
     (io_bind get_files (\<lambda>fs.
        case fs path of
          None \<Rightarrow> io_return None
        | Some (Regular s) \<Rightarrow>
            if max_setup_file_bytes < length s then io_fail (Err_File_Limit path)
            else if \<not> utf8_valid s then io_fail (Err_Malformed path)
            else io_return (Some s)
        | Some _ \<Rightarrow> io_fail (Err_File_Type path)))"

definition write_if_changed :: "string \<Rightarrow> string \<Rightarrow> string \<Rightarrow> unit setup_io" where
  "write_if_changed path original updated =
     (if max_setup_file_bytes < length updated then io_fail (Err_File_Limit path)
      else
        io_then (reject_symlink_target path)
          (if original = updated then io_return ()
           else io_bind get_files (\<lambda>fs.
             if fs path = Some Other_Node then io_fail Err_Io
             else on_files (\<lambda>g. g(path \<mapsto> Regular updated)))))"

definition remove_if_exists :: "string \<Rightarrow> unit setup_io" where
  "remove_if_exists path =
     io_then (reject_symlink_target path)
       (io_bind get_files (\<lambda>fs.
          case fs path of
            None \<Rightarrow> io_return ()
          | Some Other_Node \<Rightarrow> io_fail Err_Io
          | Some _ \<Rightarrow> on_files (\<lambda>g. g(path := None))))"

section \<open>Plans\<close>

datatype plan_action = Act_Create | Act_Update | Act_Already_Current | Act_Remove | Act_Not_Configured

datatype edit_status = St_Configured | St_Updated | St_Already_Configured | St_Removed | St_Not_Configured

datatype resolved_edit =
    Configured "string option" string
  | Updated "string option" string
  | Already_Configured "string option"
  | Removed string string
  | Not_Configured "string option"

fun edit_status_of :: "resolved_edit \<Rightarrow> edit_status" where
  "edit_status_of (Configured _ _) = St_Configured"
| "edit_status_of (Updated _ _) = St_Updated"
| "edit_status_of (Already_Configured _) = St_Already_Configured"
| "edit_status_of (Removed _ _) = St_Removed"
| "edit_status_of (Not_Configured _) = St_Not_Configured"

fun edit_original :: "resolved_edit \<Rightarrow> string option" where
  "edit_original (Configured o1 _) = o1"
| "edit_original (Updated o1 _) = o1"
| "edit_original (Already_Configured o1) = o1"
| "edit_original (Removed o1 _) = Some o1"
| "edit_original (Not_Configured o1) = o1"

fun edit_updated :: "resolved_edit \<Rightarrow> string option" where
  "edit_updated (Configured _ u) = Some u"
| "edit_updated (Updated _ u) = Some u"
| "edit_updated (Removed _ u) = Some u"
| "edit_updated (Already_Configured _) = None"
| "edit_updated (Not_Configured _) = None"

record client_edit =
  ce_path :: string
  ce_resolution :: resolved_edit

record discovery_edit =
  de_path :: string
  de_action :: plan_action
  de_original :: "string option"
  de_updated :: "string option"

datatype runtime_receipt = Installed | Unchanged

record setup_plan =
  sp_runtime :: "(setup_error + runtime_receipt) option"
  sp_runtime_rollback :: "setup_error + unit"
  sp_edits :: "client_edit list"
  sp_discovery_edits :: "discovery_edit list"
  sp_snapshots :: "(string \<times> string option) list"

section \<open>The journal\<close>

fun edit_entries :: "setup_env \<Rightarrow> client_edit list \<Rightarrow> journal_entry list" where
  "edit_entries E [] = []"
| "edit_entries E (e # es) =
     (case edit_updated (ce_resolution e) of
        None \<Rightarrow> edit_entries E es
      | Some u \<Rightarrow>
          \<lparr>je_path = ce_path e, je_original = edit_original (ce_resolution e), je_updated = Present (hash E u)\<rparr>
            # edit_entries E es)"

fun discovery_entries :: "setup_env \<Rightarrow> discovery_edit list \<Rightarrow> setup_error + journal_entry list" where
  "discovery_entries E [] = Inr []"
| "discovery_entries E (e # es) =
     (let add = (\<lambda>u. case discovery_entries E es of
                   Inl err \<Rightarrow> Inl err
                 | Inr rest \<Rightarrow> Inr (\<lparr>je_path = de_path e, je_original = de_original e, je_updated = u\<rparr> # rest)) in
      case de_action e of
        Act_Remove \<Rightarrow> add Absent
      | Act_Already_Current \<Rightarrow> discovery_entries E es
      | Act_Not_Configured \<Rightarrow> discovery_entries E es
      | _ \<Rightarrow>
          (case de_updated e of
             None \<Rightarrow> Inl (Err_Omitted (de_path e))
           | Some u \<Rightarrow> add (Present (hash E u))))"

definition serialize_journal :: "setup_env \<Rightarrow> setup_journal \<Rightarrow> unit setup_io" where
  "serialize_journal E j =
     (if max_setup_journal_bytes < journal_bytes E j then io_fail Err_Journal_Limit else io_return ())"

definition begin_setup_transaction :: "setup_env \<Rightarrow> setup_plan \<Rightarrow> setup_journal option setup_io" where
  "begin_setup_transaction E plan =
     io_bind (io_lift (discovery_entries E (sp_discovery_edits plan))) (\<lambda>ds.
       let es = edit_entries E (sp_edits plan) @ ds in
       if es = [] then io_return None
       else
         io_bind get_journal (\<lambda>current.
           if current \<noteq> None then io_fail Err_Journal_Exists
           else
             let j = \<lparr>schema_version = 1, journal_state = Pending, entries = es\<rparr> in
             io_then (serialize_journal E j)
               (io_then (on_journal (\<lambda>_. Some (Journal j))) (io_return (Some j)))))"

definition replace_journal :: "setup_env \<Rightarrow> setup_journal \<Rightarrow> unit setup_io" where
  "replace_journal E j = io_then (serialize_journal E j) (on_journal (\<lambda>_. Some (Journal j)))"

definition remove_journal :: "unit setup_io" where
  "remove_journal = on_journal (\<lambda>_. None)"

definition commit :: "setup_env \<Rightarrow> setup_journal \<Rightarrow> unit setup_io" where
  "commit E j =
     io_then (replace_journal E (j\<lparr>journal_state := Committed\<rparr>))
       (io_then (io_try remove_journal) (io_return ()))"

definition restore_path :: "setup_env \<Rightarrow> string \<Rightarrow> string option \<Rightarrow> update \<Rightarrow> unit setup_io" where
  "restore_path E path original updated =
     io_bind (read_optional path) (\<lambda>current.
       if current = original then io_return ()
       else if \<not> (case updated of
                    Present h \<Rightarrow> (case current of None \<Rightarrow> False | Some v \<Rightarrow> hash E v = h)
                  | Absent \<Rightarrow> current = None)
       then io_fail (Err_Cannot_Recover path)
       else
         case original of
           Some o1 \<Rightarrow>
             (case current of
                None \<Rightarrow> write_if_changed path '' '' o1
              | Some v \<Rightarrow> write_if_changed path v o1)
         | None \<Rightarrow> remove_if_exists path)"

definition recover_interrupted_transaction :: "setup_env \<Rightarrow> unit setup_io" where
  "recover_interrupted_transaction E =
     io_bind get_journal (\<lambda>current.
       case current of
         None \<Rightarrow> io_return ()
       | Some Garbage \<Rightarrow> io_fail Err_Journal_Invalid
       | Some (Journal j) \<Rightarrow>
           if max_setup_journal_bytes < journal_bytes E j then io_fail Err_Journal_Limit
           else if schema_version j \<noteq> 1 then io_fail Err_Journal_Version
           else if journal_state j = Committed then remove_journal
           else
             io_then (io_each (\<lambda>e. restore_path E (je_path e) (je_original e) (je_updated e)) (entries j))
               remove_journal)"

section \<open>Applying a plan\<close>

datatype apply_failure =
    Plain setup_error
  | Rolled_Back setup_error
  | Needs_Recovery setup_error setup_error

datatype client_outcome = Outcome edit_status | Outcome_Failed apply_failure

record apply_outcome =
  ao_results :: "(string \<times> client_outcome) list"
  ao_error :: "apply_failure option"

definition failed_outcome :: "setup_plan \<Rightarrow> apply_failure \<Rightarrow> apply_outcome" where
  "failed_outcome plan err =
     \<lparr> ao_results = map (\<lambda>e. (ce_path e, Outcome_Failed err)) (sp_edits plan), ao_error = Some err \<rparr>"

definition check_unchanged :: "string \<Rightarrow> string option \<Rightarrow> unit setup_io" where
  "check_unchanged path original =
     io_bind (read_optional path) (\<lambda>current.
       if current \<noteq> original then io_fail (Err_Changed path) else io_return ())"

definition preflight_configuration_snapshots :: "(string \<times> string option) list \<Rightarrow> unit setup_io" where
  "preflight_configuration_snapshots = io_each (\<lambda>(p, o1). check_unchanged p o1)"

definition preflight_edits :: "client_edit list \<Rightarrow> unit setup_io" where
  "preflight_edits = io_each (\<lambda>e. check_unchanged (ce_path e) (edit_original (ce_resolution e)))"

definition preflight_discovery :: "discovery_edit list \<Rightarrow> unit setup_io" where
  "preflight_discovery = io_each (\<lambda>e. check_unchanged (de_path e) (de_original e))"

definition or_default :: "string option \<Rightarrow> string" where
  "or_default s = (case s of None \<Rightarrow> [] | Some t \<Rightarrow> t)"

definition apply_edit :: "client_edit \<Rightarrow> unit setup_io" where
  "apply_edit e =
     io_then (check_unchanged (ce_path e) (edit_original (ce_resolution e)))
       (case edit_updated (ce_resolution e) of
          None \<Rightarrow> io_return ()
        | Some u \<Rightarrow> write_if_changed (ce_path e) (or_default (edit_original (ce_resolution e))) u)"

definition apply_discovery_edit :: "discovery_edit \<Rightarrow> unit setup_io" where
  "apply_discovery_edit e =
     io_then (check_unchanged (de_path e) (de_original e))
       (case de_action e of
          Act_Remove \<Rightarrow> remove_if_exists (de_path e)
        | Act_Already_Current \<Rightarrow> io_return ()
        | Act_Not_Configured \<Rightarrow> io_return ()
        | _ \<Rightarrow> write_if_changed (de_path e) (or_default (de_original e)) (or_default (de_updated e)))"

definition restore_edit :: "setup_env \<Rightarrow> client_edit \<Rightarrow> unit setup_io" where
  "restore_edit E e =
     (case edit_updated (ce_resolution e) of
        None \<Rightarrow> io_return ()
      | Some u \<Rightarrow> restore_path E (ce_path e) (edit_original (ce_resolution e)) (Present (hash E u)))"

definition restore_discovery_edit :: "setup_env \<Rightarrow> discovery_edit \<Rightarrow> unit setup_io" where
  "restore_discovery_edit E e =
     (case de_action e of
        Act_Remove \<Rightarrow> restore_path E (de_path e) (de_original e) Absent
      | Act_Already_Current \<Rightarrow> io_return ()
      | Act_Not_Configured \<Rightarrow> io_return ()
      | _ \<Rightarrow>
          (case de_updated e of
             None \<Rightarrow> io_fail (Err_Omitted (de_path e))
           | Some u \<Rightarrow> restore_path E (de_path e) (de_original e) (Present (hash E u))))"

text \<open>Every edit is tried; the first error is kept.\<close>

fun restore_all :: "('x \<Rightarrow> unit setup_io) \<Rightarrow> 'x list \<Rightarrow> setup_error option \<Rightarrow> setup_error option setup_io" where
  "restore_all f [] failure = io_return failure"
| "restore_all f (x # xs) failure =
     io_bind (io_try (f x)) (\<lambda>r.
       restore_all f xs (case (failure, r) of (None, Inl e) \<Rightarrow> Some e | _ \<Rightarrow> failure))"

definition rollback_setup ::
  "setup_env \<Rightarrow> setup_plan \<Rightarrow> client_edit list \<Rightarrow> discovery_edit list \<Rightarrow> setup_journal option \<Rightarrow> unit setup_io" where
  "rollback_setup E plan applied applied_discovery transaction =
     io_bind (restore_all (restore_discovery_edit E) (rev applied_discovery) None) (\<lambda>failure.
     io_bind (restore_all (restore_edit E) (rev applied) failure) (\<lambda>failure.
       case failure of
         Some e \<Rightarrow> io_fail e
       | None \<Rightarrow>
           io_then (if sp_runtime plan = Some (Inr Installed) then io_lift (sp_runtime_rollback plan) else io_return ())
             (case transaction of None \<Rightarrow> io_return () | Some j \<Rightarrow> commit E j)))"

definition rollback_message :: "setup_error \<Rightarrow> setup_error + unit \<Rightarrow> apply_failure" where
  "rollback_message err rollback =
     (case rollback of Inr _ \<Rightarrow> Rolled_Back err | Inl e \<Rightarrow> Needs_Recovery err e)"

definition rollback_runtime_message :: "setup_plan \<Rightarrow> setup_error \<Rightarrow> apply_failure" where
  "rollback_runtime_message plan err =
     (if sp_runtime plan = Some (Inr Installed) then rollback_message err (sp_runtime_rollback plan) else Plain err)"

text \<open>The two loops over the edits have one shape: an edit that changes something is recorded as
  attempted before it is tried, and the first error stops the loop.\<close>

definition edit_active :: "client_edit \<Rightarrow> bool" where
  "edit_active e \<longleftrightarrow> edit_updated (ce_resolution e) \<noteq> None"

definition discovery_active :: "discovery_edit \<Rightarrow> bool" where
  "discovery_active e \<longleftrightarrow> de_action e \<noteq> Act_Already_Current \<and> de_action e \<noteq> Act_Not_Configured"

fun run_edits ::
  "('x \<Rightarrow> bool) \<Rightarrow> ('x \<Rightarrow> unit setup_io) \<Rightarrow> 'x list \<Rightarrow> 'x list \<Rightarrow> ('x list \<times> setup_error option) setup_io" where
  "run_edits active f [] applied = io_return (applied, None)"
| "run_edits active f (e # es) applied =
     (let applied = (if active e then applied @ [e] else applied) in
      io_bind (io_try (f e)) (\<lambda>r.
        case r of Inl err \<Rightarrow> io_return (applied, Some err) | Inr _ \<Rightarrow> run_edits active f es applied))"

definition fail_with_rollback ::
  "setup_env \<Rightarrow> setup_plan \<Rightarrow> client_edit list \<Rightarrow> discovery_edit list \<Rightarrow> setup_journal option \<Rightarrow>
   setup_error \<Rightarrow> apply_outcome setup_io" where
  "fail_with_rollback E plan applied applied_discovery transaction err =
     io_bind (io_try (rollback_setup E plan applied applied_discovery transaction)) (\<lambda>rollback.
       io_return (failed_outcome plan (rollback_message err rollback)))"

definition apply_edits :: "setup_env \<Rightarrow> setup_plan \<Rightarrow> setup_journal option \<Rightarrow> apply_outcome setup_io" where
  "apply_edits E plan transaction =
     io_bind (run_edits edit_active apply_edit (sp_edits plan) []) (\<lambda>(applied, err).
       case err of
         Some e \<Rightarrow> fail_with_rollback E plan applied [] transaction e
       | None \<Rightarrow>
           io_bind (run_edits discovery_active apply_discovery_edit (sp_discovery_edits plan) []) (\<lambda>(applied_discovery, err).
             case err of
               Some e \<Rightarrow> fail_with_rollback E plan applied applied_discovery transaction e
             | None \<Rightarrow>
                 io_bind (case transaction of None \<Rightarrow> io_return (Inr ()) | Some j \<Rightarrow> io_try (commit E j)) (\<lambda>committed.
                   case committed of
                     Inl e \<Rightarrow> fail_with_rollback E plan applied applied_discovery transaction e
                   | Inr _ \<Rightarrow> io_return
                       \<lparr> ao_results = map (\<lambda>e. (ce_path e, Outcome (edit_status_of (ce_resolution e)))) (sp_edits plan),
                         ao_error = None \<rparr>)))"

definition apply_plan :: "setup_env \<Rightarrow> setup_plan \<Rightarrow> apply_outcome setup_io" where
  "apply_plan E plan =
     (case sp_runtime plan of
        Some (Inl e) \<Rightarrow> io_return (failed_outcome plan (Plain e))
      | _ \<Rightarrow>
          io_bind (io_try (io_then (preflight_configuration_snapshots (sp_snapshots plan))
                     (io_then (preflight_edits (sp_edits plan)) (preflight_discovery (sp_discovery_edits plan))))) (\<lambda>checked.
            case checked of
              Inl e \<Rightarrow> io_return (failed_outcome plan (rollback_runtime_message plan e))
            | Inr _ \<Rightarrow>
                io_bind (io_try (begin_setup_transaction E plan)) (\<lambda>begun.
                  case begun of
                    Inl e \<Rightarrow> io_return (failed_outcome plan (rollback_runtime_message plan e))
                  | Inr transaction \<Rightarrow> apply_edits E plan transaction)))"

end
