(* ===== verification/Setup_Props.thy ===== *)
theory Setup_Props
  imports Setup_Transaction
begin

text \<open>
  Atomicity of a setup run.  A plan is seen as its list of changes, each from an original content of
  a path to a target content (\<open>None\<close> for no file).  While the plan runs, every file is at its
  original or, when its edit has been attempted, possibly at its target; the journal on disk lists
  the changes.  From every such state recovery goes back to the originals.
\<close>

section \<open>Changes\<close>

type_synonym change = "string \<times> string option \<times> string option"

definition node_of :: "string option \<Rightarrow> node option" where
  "node_of c = map_option Regular c"

definition content_ok :: "string option \<Rightarrow> bool" where
  "content_ok c \<longleftrightarrow> (case c of None \<Rightarrow> True | Some s \<Rightarrow> utf8_valid s \<and> length s \<le> max_setup_file_bytes)"

fun edit_changes :: "client_edit list \<Rightarrow> change list" where
  "edit_changes [] = []"
| "edit_changes (e # es) =
     (case edit_updated (ce_resolution e) of
        None \<Rightarrow> edit_changes es
      | Some u \<Rightarrow> (ce_path e, edit_original (ce_resolution e), Some u) # edit_changes es)"

definition discovery_change :: "discovery_edit \<Rightarrow> change" where
  "discovery_change e =
     (de_path e, de_original e, if de_action e = Act_Remove then None else Some (or_default (de_updated e)))"

definition discovery_changes :: "discovery_edit list \<Rightarrow> change list" where
  "discovery_changes es = map discovery_change (filter discovery_active es)"

definition plan_changes :: "setup_plan \<Rightarrow> change list" where
  "plan_changes plan = edit_changes (sp_edits plan) @ discovery_changes (sp_discovery_edits plan)"

definition update_of :: "setup_env \<Rightarrow> string option \<Rightarrow> update" where
  "update_of E t = (case t of None \<Rightarrow> Absent | Some u \<Rightarrow> Present (hash E u))"

definition entry_of :: "setup_env \<Rightarrow> change \<Rightarrow> journal_entry" where
  "entry_of E c = (case c of (p, o1, t) \<Rightarrow> \<lparr>je_path = p, je_original = o1, je_updated = update_of E t\<rparr>)"

text \<open>The plans considered: one change per path, texts are UTF-8, a new file is not empty, and a file
  to be removed is not the single space that \<open>restore_path\<close> uses as its sentinel.\<close>

definition change_ok :: "change \<Rightarrow> bool" where
  "change_ok c = (case c of (p, o1, t) \<Rightarrow>
     (case t of None \<Rightarrow> o1 \<noteq> Some '' '' | Some u \<Rightarrow> utf8_valid u \<and> (o1 = None \<longrightarrow> u \<noteq> [])))"

definition plan_ok :: "setup_plan \<Rightarrow> bool" where
  "plan_ok plan \<longleftrightarrow> distinct (map fst (plan_changes plan)) \<and> list_all change_ok (plan_changes plan)"

definition with_targets :: "change list \<Rightarrow> (string \<Rightarrow> node option) \<Rightarrow> string \<Rightarrow> node option" where
  "with_targets cs fs = fold (\<lambda>(p, o1, t) f. f(p := node_of t)) cs fs"

lemma with_targets_eq:
  assumes "distinct (map fst cs)"
  shows "with_targets cs fs p = (case map_of cs p of None \<Rightarrow> fs p | Some (o1, t) \<Rightarrow> node_of t)"
  using assms
proof (induction cs arbitrary: fs)
  case (Cons c cs)
  have "map_of cs (fst c) = None" using Cons.prems by (simp add: map_of_eq_None_iff)
  then show ?case using Cons by (cases c) (auto simp: with_targets_def split: option.split)
qed (simp add: with_targets_def)

lemma edit_entries_eq: "edit_entries E es = map (entry_of E) (edit_changes es)"
  by (induction es) (auto simp: entry_of_def update_of_def split: option.split)

lemma discovery_entries_eq:
  "discovery_entries E es = Inr ds \<Longrightarrow> ds = map (entry_of E) (discovery_changes es)"
proof (induction es arbitrary: ds)
  case (Cons e es)
  then show ?case
    by (cases "de_action e")
      (auto simp: discovery_changes_def discovery_active_def discovery_change_def entry_of_def update_of_def
        or_default_def Let_def split: sum.splits option.splits)
qed (simp add: discovery_changes_def)

section \<open>States of a running plan\<close>

definition mixed :: "(string \<Rightarrow> node option) \<Rightarrow> change list \<Rightarrow> change set \<Rightarrow> setup_fs \<Rightarrow> bool" where
  "mixed fs0 cs att st \<longleftrightarrow>
     (\<forall>p. p \<notin> fst ` set cs \<longrightarrow> files st p = fs0 p) \<and>
     (\<forall>(p, o1, t) \<in> set cs. content_ok o1 \<and> fs0 p = node_of o1 \<and>
        (files st p = node_of o1 \<or> (p, o1, t) \<in> att \<and> files st p = node_of t \<and> content_ok t))"

definition running_at ::
  "(string \<Rightarrow> node option) \<Rightarrow> change list \<Rightarrow> change set \<Rightarrow> journal_file option \<Rightarrow> setup_fs \<Rightarrow> bool" where
  "running_at fs0 cs att j st \<longleftrightarrow> mixed fs0 cs att st \<and> journal st = j \<and> Fail_After \<notin> set (journal_faults st)"

definition insensitive :: "(setup_fs \<Rightarrow> bool) \<Rightarrow> bool" where
  "insensitive P \<longleftrightarrow> (\<forall>st ff. P (st\<lparr>file_faults := ff\<rparr>) = P st)"

lemma insensitive_running [simp]: "insensitive (running_at fs0 cs att j)"
  by (simp add: insensitive_def running_at_def mixed_def)

lemma node_of_simps [simp]:
  "node_of None = None" "node_of (Some s) = Some (Regular s)"
  "Some (Regular s) = node_of c \<longleftrightarrow> c = Some s" "node_of c = Some (Regular s) \<longleftrightarrow> c = Some s"
  "None = node_of c \<longleftrightarrow> c = None" "node_of c = None \<longleftrightarrow> c = None" "node_of c = node_of d \<longleftrightarrow> c = d"
  "node_of c \<noteq> Some Symlink" "node_of c \<noteq> Some Other_Node"
  by (cases c; cases d; auto simp: node_of_def)+

section \<open>Triples of the file primitives\<close>

lemma triple_on_files:
  assumes "insensitive P" "insensitive Q" "insensitive F" "\<And>s. P s \<Longrightarrow> F s"
    "\<And>s. P s \<Longrightarrow> Q (s\<lparr>files := eff (files s)\<rparr>)" "\<And>s. Q s \<Longrightarrow> F s"
  shows "triple P (on_files eff) (\<lambda>_. Q) F F"
proof -
  note ins = assms(1-3) [unfolded insensitive_def]
  have p: "P (st\<lparr>file_faults := ff\<rparr>)" "F (st\<lparr>file_faults := ff\<rparr>)" if "P st" for st ff
    using that ins assms(4) by blast+
  have comm: "st\<lparr>file_faults := ff, files := fs\<rparr> = st\<lparr>files := fs\<rparr>\<lparr>file_faults := ff\<rparr>" for st :: setup_fs and ff fs
    by (cases st) simp
  have "Q (st\<lparr>files := eff (files st)\<rparr>\<lparr>file_faults := ff\<rparr>)" "F (st\<lparr>files := eff (files st)\<rparr>\<lparr>file_faults := ff\<rparr>)"
    if "P st" for st ff
    using that ins assms(5,6) by blast+
  then have "Q (st\<lparr>file_faults := ff, files := eff (files st)\<rparr>)" "F (st\<lparr>file_faults := ff, files := eff (files st)\<rparr>)"
    if "P st" for st ff
    unfolding comm using that by blast+
  then show ?thesis
    using p by (auto simp: triple_def on_files_def io_faulty_def split: fault.split)
qed

lemma triple_files_id:
  assumes "insensitive P" shows "triple P (on_files id) (\<lambda>_. P) P P"
  by (rule triple_on_files) (use assms in \<open>auto simp: id_def\<close>)

lemma triple_get_files:
  assumes "\<And>fs. triple (\<lambda>s. P s \<and> files s = fs) (f fs) Q F C"
  shows "triple P (io_bind get_files f) Q F C"
  using assms by (auto simp: triple_def io_bind_def get_files_def)

lemma triple_read_optional:
  assumes "insensitive P"
  shows "triple P (read_optional path) (\<lambda>c s. P s \<and> files s path = node_of c \<and> content_ok c) P P"
  unfolding read_optional_def reject_symlink_target_def
  by (rule triple_then [where R = P])
    (rule triple_then [OF triple_files_id [OF assms]], rule triple_get_files,
      auto simp: triple_def io_fail_def io_return_def io_bind_def get_files_def content_ok_def
        split: option.split node.split)

lemma triple_reject:
  assumes "insensitive P" shows "triple P (reject_symlink_target path) (\<lambda>_. P) P P"
  unfolding reject_symlink_target_def
  by (rule triple_then [OF triple_files_id [OF assms]], rule triple_get_files)
    (auto simp: triple_def io_fail_def io_return_def)

lemma triple_write:
  assumes "insensitive P" "insensitive Q" "insensitive F" "\<And>s. P s \<Longrightarrow> F s" "\<And>s. Q s \<Longrightarrow> F s"
    "\<And>s. P s \<Longrightarrow> v = u \<Longrightarrow> Q s"
    "\<And>s. P s \<Longrightarrow> v \<noteq> u \<Longrightarrow> length u \<le> max_setup_file_bytes \<Longrightarrow> Q (s\<lparr>files := (files s)(p \<mapsto> Regular u)\<rparr>)"
  shows "triple P (write_if_changed p v u) (\<lambda>_. Q) F F"
proof -
  have "triple P (reject_symlink_target p) (\<lambda>_. P) F F"
    by (rule triple_weaken [OF triple_reject [OF assms(1)]]) (use assms(4) in auto)
  moreover have "triple P (on_files (\<lambda>g. g(p \<mapsto> Regular u))) (\<lambda>_. Q) F F"
    if "v \<noteq> u" "length u \<le> max_setup_file_bytes"
    by (rule triple_on_files) (use assms that in auto)
  then have "triple P (io_bind get_files (\<lambda>fs. if fs p = Some Other_Node then io_fail Err_Io
      else on_files (\<lambda>g. g(p \<mapsto> Regular u)))) (\<lambda>_. Q) F F" if "v \<noteq> u" "length u \<le> max_setup_file_bytes"
    using that assms(4) by (auto simp: triple_def io_bind_def get_files_def io_fail_def)
  ultimately show ?thesis
    unfolding write_if_changed_def using assms(4,6)
    by (auto intro!: triple_then [where R = P] triple_return triple_fail)
qed

lemma triple_remove:
  assumes "insensitive P" "insensitive Q" "insensitive F" "\<And>s. P s \<Longrightarrow> F s" "\<And>s. Q s \<Longrightarrow> F s"
    "\<And>s. P s \<Longrightarrow> files s p = None \<Longrightarrow> Q s" "\<And>s. P s \<Longrightarrow> Q (s\<lparr>files := (files s)(p := None)\<rparr>)"
  shows "triple P (remove_if_exists p) (\<lambda>_. Q) F F"
proof -
  have "triple P (reject_symlink_target p) (\<lambda>_. P) F F"
    by (rule triple_weaken [OF triple_reject [OF assms(1)]]) (use assms(4) in auto)
  moreover have "triple P (on_files (\<lambda>g. g(p := None))) (\<lambda>_. Q) F F"
    by (rule triple_on_files) (use assms in auto)
  then have "triple P (io_bind get_files (\<lambda>fs. case fs p of None \<Rightarrow> io_return ()
      | Some Other_Node \<Rightarrow> io_fail Err_Io | Some _ \<Rightarrow> on_files (\<lambda>g. g(p := None)))) (\<lambda>_. Q) F F"
    using assms(4,6)
    by (auto simp: triple_def io_bind_def get_files_def io_fail_def io_return_def split: option.split node.split)
  ultimately show ?thesis unfolding remove_if_exists_def by (rule triple_then)
qed

section \<open>Restoring and applying one change\<close>

definition plan_changes_ok :: "change list \<Rightarrow> bool" where
  "plan_changes_ok cs \<longleftrightarrow> distinct (map fst cs) \<and> list_all change_ok cs"

lemma changes_unique:
  "plan_changes_ok cs \<Longrightarrow> (p, o1, t) \<in> set cs \<Longrightarrow> (p, o2, u) \<in> set cs \<Longrightarrow> o2 = o1 \<and> u = t"
  unfolding plan_changes_ok_def by (metis eq_key_imp_eq_value prod.inject)

lemma mixed_mono: "mixed fs0 cs att st \<Longrightarrow> att \<subseteq> att' \<Longrightarrow> mixed fs0 cs att' st"
  unfolding mixed_def by blast

lemma mixed_change:
  assumes "mixed fs0 cs att st" "(p, o1, t) \<in> set cs"
  shows "content_ok o1" "fs0 p = node_of o1"
    "files st p = node_of o1 \<or> (p, o1, t) \<in> att \<and> files st p = node_of t \<and> content_ok t"
  using assms unfolding mixed_def by blast+

text \<open>Moving the file of one change to one of its two contents.\<close>

lemma mixed_move:
  assumes mixed: "mixed fs0 cs att st" and ok: "plan_changes_ok cs" and c: "(p, o1, t) \<in> set cs"
    and new: "n = node_of o1 \<or> (p, o1, t) \<in> att' \<and> n = node_of t \<and> content_ok t"
    and att: "att - {(p, o1, t)} \<subseteq> att'"
  shows "mixed fs0 cs att' (st\<lparr>files := (files st)(p := n)\<rparr>)"
proof -
  have other: "((files st)(p := n)) q = fs0 q" if "q \<notin> fst ` set cs" for q
    using that mixed c by (force simp: mixed_def)
  have "content_ok o2 \<and> fs0 q = node_of o2 \<and> (((files st)(p := n)) q = node_of o2 \<or>
      (q, o2, u) \<in> att' \<and> ((files st)(p := n)) q = node_of u \<and> content_ok u)" if "(q, o2, u) \<in> set cs" for q o2 u
  proof (cases "q = p")
    case True
    then have "o2 = o1 \<and> u = t" using changes_unique [OF ok c] that by blast
    then show ?thesis using True new mixed_change [OF mixed c] by simp
  next
    case False
    then show ?thesis using mixed_change [OF mixed that] att by auto
  qed
  then show ?thesis using other by (auto simp: mixed_def)
qed

lemma mixed_restored:
  assumes "mixed fs0 cs att st" "plan_changes_ok cs" "(p, o1, t) \<in> set cs" "files st p = node_of o1"
  shows "mixed fs0 cs (att - {(p, o1, t)}) st"
proof -
  have "mixed fs0 cs (att - {(p, o1, t)}) (st\<lparr>files := (files st)(p := node_of o1)\<rparr>)"
    by (rule mixed_move [OF assms(1-3)]) auto
  moreover have "st\<lparr>files := (files st)(p := node_of o1)\<rparr> = st" using assms(4) by (simp add: fun_upd_idem)
  ultimately show ?thesis by simp
qed

lemma mixed_back:
  assumes "mixed fs0 cs att st" "plan_changes_ok cs" "(p, o1, t) \<in> set cs"
  shows "mixed fs0 cs (att - {(p, o1, t)}) (st\<lparr>files := (files st)(p := node_of o1)\<rparr>)"
  by (rule mixed_move [OF assms]) auto

lemma running_restored:
  assumes "running_at fs0 cs att j st" "plan_changes_ok cs" "(p, o1, t) \<in> set cs" "files st p = node_of o1"
  shows "running_at fs0 cs (att - {(p, o1, t)}) j st"
  using assms mixed_restored by (simp add: running_at_def)

lemma running_back:
  assumes "running_at fs0 cs att j st" "plan_changes_ok cs" "(p, o1, t) \<in> set cs"
  shows "running_at fs0 cs (att - {(p, o1, t)}) j (st\<lparr>files := (files st)(p := node_of o1)\<rparr>)"
  using assms mixed_back by (simp add: running_at_def)

lemma running_mono: "running_at fs0 cs att j st \<Longrightarrow> att \<subseteq> att' \<Longrightarrow> running_at fs0 cs att' j st"
  using mixed_mono by (auto simp: running_at_def)

lemma running_target:
  assumes "running_at fs0 cs att j st" "(p, o1, t) \<in> set cs" "files st p = node_of c" "c \<noteq> o1"
  shows "c = t \<and> content_ok t \<and> content_ok o1"
  using assms by (auto simp: running_at_def mixed_def)

text \<open>Restoring a change keeps the state recoverable whatever fails, and takes the change off the
  attempted ones when it succeeds.\<close>

lemma triple_restore:
  fixes fs0 :: "string \<Rightarrow> node option"
  assumes ok: "plan_changes_ok cs" and c: "(p, o1, t) \<in> set cs"
  defines "R \<equiv> running_at fs0 cs"
  shows "triple (R att j) (restore_path E p o1 (update_of E t)) (\<lambda>_. R (att - {(p, o1, t)}) j) (R att j) (R att j)"
proof -
  let ?done = "R (att - {(p, o1, t)}) j"
  have weaken: "?done s \<Longrightarrow> R att j s" for s unfolding R_def by (erule running_mono) blast
  have ins: "insensitive (R att j)" "insensitive ?done" by (simp_all add: R_def)
  have chk: "change_ok (p, o1, t)" using ok c by (auto simp: plan_changes_ok_def list_all_iff)
  have body: "triple (\<lambda>s. R att j s \<and> files s p = node_of cur \<and> content_ok cur)
      (if cur = o1 then io_return ()
       else if \<not> (case update_of E t of Present h \<Rightarrow> (case cur of None \<Rightarrow> False | Some v \<Rightarrow> hash E v = h) | Absent \<Rightarrow> cur = None)
       then io_fail (Err_Cannot_Recover p)
       else case o1 of Some ob \<Rightarrow> (case cur of None \<Rightarrow> write_if_changed p '' '' ob | Some v \<Rightarrow> write_if_changed p v ob)
          | None \<Rightarrow> remove_if_exists p) (\<lambda>_. ?done) (R att j) (R att j)" (is "triple ?P ?m _ _ _") for cur
  proof (cases "cur = o1")
    case True
    then show ?thesis
      using running_restored [OF _ ok c] by (auto intro!: triple_return simp: R_def)
  next
    case False
    have P: "insensitive ?P" using ins(1) by (simp add: insensitive_def)
    have undo: "?done (s\<lparr>files := (files s)(p := node_of o1)\<rparr>)" if "?P s" for s
      using that running_back [OF _ ok c] by (simp add: R_def)
    have tgt: "cur = t" if "?P s" for s
      using that running_target [OF _ c] False by (auto simp: R_def)
    have rm: "triple ?P (remove_if_exists p) (\<lambda>_. ?done) (R att j) (R att j)" if "o1 = None"
      by (rule triple_remove [OF P ins(2,1)])
        (use undo that weaken False in \<open>auto simp: fun_upd_idem\<close>)
    have wr: "triple ?P (write_if_changed p v ob) (\<lambda>_. ?done) (R att j) (R att j)"
      if "o1 = Some ob" "\<And>s. ?P s \<Longrightarrow> v \<noteq> ob" for v ob
      by (rule triple_write [OF P ins(2,1)]) (use undo that weaken in auto)
    have sentinel: "triple ?P (write_if_changed p '' '' ob) (\<lambda>_. ?done) (R att j) (R att j)"
      if "o1 = Some ob" "cur = None" for ob
      by (rule wr [OF that(1)]) (use tgt that chk in \<open>auto simp: change_ok_def\<close>)
    show ?thesis using False rm wr sentinel
      by (auto intro!: triple_fail split: option.split)
  qed
  show ?thesis unfolding restore_path_def
    by (rule triple_bind [OF triple_read_optional [OF ins(1)]]) (rule body)
qed

section \<open>The loops\<close>

definition at_targets :: "change list \<Rightarrow> setup_fs \<Rightarrow> bool" where
  "at_targets D s \<longleftrightarrow> (\<forall>(p, o1, t) \<in> set D. files s p = node_of t)"

definition advanced ::
  "(string \<Rightarrow> node option) \<Rightarrow> change list \<Rightarrow> change list \<Rightarrow> journal_file option \<Rightarrow> setup_fs \<Rightarrow> bool" where
  "advanced fs0 cs D j s \<longleftrightarrow> running_at fs0 cs (set D) j s \<and> at_targets D s"

lemma insensitive_advanced [simp]: "insensitive (advanced fs0 cs D j)"
  by (simp add: insensitive_def advanced_def at_targets_def running_at_def mixed_def)

lemma advanced_running: "advanced fs0 cs D j s \<Longrightarrow> set D \<subseteq> att \<Longrightarrow> running_at fs0 cs att j s"
  by (auto simp: advanced_def intro: running_mono)

lemma advanced_step:
  assumes "advanced fs0 cs D j s" "plan_changes_ok cs" "(p, o1, t) \<in> set cs" "set D \<subseteq> set cs" "content_ok t"
  shows "advanced fs0 cs (D @ [(p, o1, t)]) j (s\<lparr>files := (files s)(p := node_of t)\<rparr>)"
proof -
  have "running_at fs0 cs (set (D @ [(p, o1, t)])) j (s\<lparr>files := (files s)(p := node_of t)\<rparr>)"
    using assms mixed_move [of fs0 cs "set D" s p o1 t "node_of t" "set (D @ [(p, o1, t)])"]
    by (auto simp: advanced_def running_at_def)
  moreover have "u = t" if "(p, o2, u) \<in> set D" for o2 u
    using that assms(4) changes_unique [OF assms(2,3)] by blast
  ultimately show ?thesis using assms(1) by (auto simp: advanced_def at_targets_def)
qed

lemma advanced_same:
  assumes "advanced fs0 cs D j s" "(p, o1, t) \<in> set cs" "files s p = node_of t"
  shows "advanced fs0 cs (D @ [(p, o1, t)]) j s"
  using assms running_mono [of fs0 cs "set D" j s "insert (p, o1, t) (set D)"]
  by (auto simp: advanced_def at_targets_def)

lemma triple_check:
  assumes "insensitive P"
  shows "triple P (check_unchanged p o1) (\<lambda>_ s. P s \<and> files s p = node_of o1 \<and> content_ok o1) P P"
  unfolding check_unchanged_def
  by (rule triple_bind [OF triple_read_optional [OF assms]])
    (auto simp: triple_def io_fail_def io_return_def)

lemma triple_apply_write:
  assumes ok: "plan_changes_ok cs" and c: "(p, o1, Some u) \<in> set cs" and D: "set D \<subseteq> set cs"
  shows "triple (advanced fs0 cs D j) (io_then (check_unchanged p o1) (write_if_changed p (or_default o1) u))
    (\<lambda>_. advanced fs0 cs (D @ [(p, o1, Some u)]) j)
    (running_at fs0 cs (set (D @ [(p, o1, Some u)])) j) (running_at fs0 cs (set (D @ [(p, o1, Some u)])) j)"
    (is "triple ?P _ (\<lambda>_. ?Q) ?F ?F")
proof (rule triple_then)
  have PF: "?P s \<Longrightarrow> ?F s" for s by (rule advanced_running) auto
  show "triple ?P (check_unchanged p o1) (\<lambda>_ s. ?P s \<and> files s p = node_of o1 \<and> content_ok o1) ?F ?F"
    by (rule triple_weaken [OF triple_check [OF insensitive_advanced]]) (use PF in auto)
  have chk: "utf8_valid u" "o1 = None \<longrightarrow> u \<noteq> []"
    using ok c by (auto simp: plan_changes_ok_def list_all_iff change_ok_def)
  have ins: "insensitive (\<lambda>s. ?P s \<and> files s p = node_of o1 \<and> content_ok o1)"
    using insensitive_advanced [of fs0 cs D j] by (simp add: insensitive_def)
  show "triple (\<lambda>s. ?P s \<and> files s p = node_of o1 \<and> content_ok o1) (write_if_changed p (or_default o1) u) (\<lambda>_. ?Q) ?F ?F"
  proof (rule triple_write [OF ins])
    show "?Q s" if s: "?P s \<and> files s p = node_of o1 \<and> content_ok o1" and u: "or_default o1 = u" for s
    proof -
      have "o1 = Some u" using u chk by (cases o1) (auto simp: or_default_def)
      then show ?thesis using s advanced_same [OF _ c] by simp
    qed
    show "?Q (s\<lparr>files := (files s)(p \<mapsto> Regular u)\<rparr>)"
      if "?P s \<and> files s p = node_of o1 \<and> content_ok o1" "length u \<le> max_setup_file_bytes" for s
      using that advanced_step [OF _ ok c D] chk by (simp add: content_ok_def)
  qed (use PF in \<open>auto intro: advanced_running\<close>)
qed

lemma triple_apply_remove:
  assumes ok: "plan_changes_ok cs" and c: "(p, o1, None) \<in> set cs" and D: "set D \<subseteq> set cs"
  shows "triple (advanced fs0 cs D j) (io_then (check_unchanged p o1) (remove_if_exists p))
    (\<lambda>_. advanced fs0 cs (D @ [(p, o1, None)]) j)
    (running_at fs0 cs (set (D @ [(p, o1, None)])) j) (running_at fs0 cs (set (D @ [(p, o1, None)])) j)"
    (is "triple ?P _ (\<lambda>_. ?Q) ?F ?F")
proof (rule triple_then)
  have PF: "?P s \<Longrightarrow> ?F s" for s by (rule advanced_running) auto
  show "triple ?P (check_unchanged p o1) (\<lambda>_. ?P) ?F ?F"
    by (rule triple_weaken [OF triple_check [OF insensitive_advanced]]) (use PF in auto)
  show "triple ?P (remove_if_exists p) (\<lambda>_. ?Q) ?F ?F"
  proof (rule triple_remove)
    show "?Q s" if "?P s" "files s p = None" for s using that advanced_same [OF _ c] by simp
    show "?Q (s\<lparr>files := (files s)(p := None)\<rparr>)" if "?P s" for s
      using that advanced_step [OF _ ok c D] by (simp add: content_ok_def)
  qed (use PF in \<open>auto intro: advanced_running\<close>)
qed

lemma triple_apply_edit:
  assumes "plan_changes_ok cs" "set (edit_changes [e]) \<subseteq> set cs" "set D \<subseteq> set cs"
  shows "triple (advanced fs0 cs D j) (apply_edit e) (\<lambda>_. advanced fs0 cs (D @ edit_changes [e]) j)
    (running_at fs0 cs (set (D @ edit_changes [e])) j) (running_at fs0 cs (set (D @ edit_changes [e])) j)"
proof (cases "edit_updated (ce_resolution e)")
  case None
  have "triple (advanced fs0 cs D j) (check_unchanged p o1) (\<lambda>_. advanced fs0 cs D j)
      (running_at fs0 cs (set D) j) (running_at fs0 cs (set D) j)" for p o1
    by (rule triple_weaken [OF triple_check [OF insensitive_advanced]]) (auto elim: advanced_running)
  then show ?thesis using None unfolding apply_edit_def
    by (auto intro: triple_then triple_return)
next
  case (Some u)
  then show ?thesis
    using triple_apply_write [OF assms(1) _ assms(3), of "ce_path e" _ u fs0 j] assms(2)
    by (simp add: apply_edit_def)
qed

lemma triple_apply_discovery:
  assumes "plan_changes_ok cs" "set (discovery_changes [e]) \<subseteq> set cs" "set D \<subseteq> set cs"
  shows "triple (advanced fs0 cs D j) (apply_discovery_edit e) (\<lambda>_. advanced fs0 cs (D @ discovery_changes [e]) j)
    (running_at fs0 cs (set (D @ discovery_changes [e])) j) (running_at fs0 cs (set (D @ discovery_changes [e])) j)"
proof (cases "discovery_active e")
  case False
  have "triple (advanced fs0 cs D j) (check_unchanged p o1) (\<lambda>_. advanced fs0 cs D j)
      (running_at fs0 cs (set D) j) (running_at fs0 cs (set D) j)" for p o1
    by (rule triple_weaken [OF triple_check [OF insensitive_advanced]]) (auto elim: advanced_running)
  then have "triple (advanced fs0 cs D j) (io_then (check_unchanged p o1) (io_return ())) (\<lambda>_. advanced fs0 cs D j)
      (running_at fs0 cs (set D) j) (running_at fs0 cs (set D) j)" for p o1
    by (rule triple_then [OF _ triple_return]) simp
  then show ?thesis using False unfolding apply_discovery_edit_def discovery_active_def
    by (auto simp: discovery_changes_def discovery_active_def)
next
  case True
  then show ?thesis
    using triple_apply_write [OF assms(1) _ assms(3), of "de_path e" "de_original e" "or_default (de_updated e)" fs0 j]
      triple_apply_remove [OF assms(1) _ assms(3), of "de_path e" "de_original e" fs0 j] assms(2)
    by (cases "de_action e")
      (simp_all add: apply_discovery_edit_def discovery_changes_def discovery_change_def discovery_active_def)
qed

lemma edit_changes_concat: "edit_changes es = concat (map (\<lambda>e. edit_changes [e]) es)"
  by (induction es) (auto split: option.split)

lemma discovery_changes_concat: "discovery_changes es = concat (map (\<lambda>e. discovery_changes [e]) es)"
  by (induction es) (auto simp: discovery_changes_def)

lemma triple_run_edits:
  assumes step: "\<And>e D. e \<in> set es \<Longrightarrow> set D \<subseteq> set cs \<Longrightarrow>
      triple (advanced fs0 cs D j) (f e) (\<lambda>_. advanced fs0 cs (D @ ch e) j)
        (running_at fs0 cs (set (D @ ch e)) j) (running_at fs0 cs (set (D @ ch e)) j)"
    and ch: "\<And>e. e \<in> set es \<Longrightarrow> set (ch e) \<subseteq> set cs" "\<And>e. \<not> active e \<Longrightarrow> ch e = []" "set D0 \<subseteq> set cs"
    and ap: "set (concat (map ch applied)) \<subseteq> set cs"
  shows "triple (advanced fs0 cs (D0 @ concat (map ch applied)) j) (run_edits active f es applied)
    (\<lambda>(ap, err) s. set ap \<subseteq> set applied \<union> set es \<and> (case err of
        None \<Rightarrow> advanced fs0 cs (D0 @ concat (map ch ap)) j s \<and> concat (map ch ap) = concat (map ch (applied @ es))
      | Some _ \<Rightarrow> running_at fs0 cs (set (D0 @ concat (map ch ap))) j s))
    F (running_at fs0 cs (set cs) j)"
  using step ch(1) ap
proof (induction es arbitrary: applied)
  case Nil
  then show ?case by (auto intro: triple_return)
next
  case (Cons e es)
  let ?ap = "if active e then applied @ [e] else applied"
  have cc: "concat (map ch ?ap) = concat (map ch applied) @ ch e" using ch(2) [of e] by simp
  have sub: "set (concat (map ch ?ap)) \<subseteq> set cs" using Cons.prems(2,3) unfolding cc by auto
  have one: "triple (advanced fs0 cs (D0 @ concat (map ch applied)) j) (f e)
      (\<lambda>_. advanced fs0 cs (D0 @ concat (map ch ?ap)) j)
      (running_at fs0 cs (set (D0 @ concat (map ch ?ap))) j) (running_at fs0 cs (set cs) j)"
  proof -
    have "set (D0 @ concat (map ch applied)) \<subseteq> set cs" using Cons.prems(3) ch(3) by auto
    then have t: "triple (advanced fs0 cs (D0 @ concat (map ch applied)) j) (f e)
        (\<lambda>_. advanced fs0 cs (D0 @ concat (map ch applied) @ ch e) j)
        (running_at fs0 cs (set (D0 @ concat (map ch applied) @ ch e)) j)
        (running_at fs0 cs (set (D0 @ concat (map ch applied) @ ch e)) j)"
      using Cons.prems(1) [of e "D0 @ concat (map ch applied)"] by simp
    have le: "set (D0 @ concat (map ch applied) @ ch e) \<subseteq> set cs" using sub ch(3) unfolding cc by simp
    show ?thesis unfolding cc
      by (rule triple_weaken [OF t]) (assumption | erule running_mono [OF _ le])+
  qed
  have IH: "triple (advanced fs0 cs (D0 @ concat (map ch ?ap)) j) (run_edits active f es ?ap)
      (\<lambda>(ap, err) s. set ap \<subseteq> set applied \<union> set (e # es) \<and> (case err of
          None \<Rightarrow> advanced fs0 cs (D0 @ concat (map ch ap)) j s \<and> concat (map ch ap) = concat (map ch (applied @ e # es))
        | Some _ \<Rightarrow> running_at fs0 cs (set (D0 @ concat (map ch ap))) j s))
      F (running_at fs0 cs (set cs) j)"
    by (rule triple_weaken [OF Cons.IH]) (use Cons.prems sub cc in \<open>auto split: option.splits if_splits\<close>)
  show ?case
    unfolding run_edits.simps Let_def
  proof (rule triple_bind)
    show "triple (advanced fs0 cs (D0 @ concat (map ch applied)) j) (io_try (f e))
        (\<lambda>r s. case r of Inl _ \<Rightarrow> running_at fs0 cs (set (D0 @ concat (map ch ?ap))) j s
           | Inr _ \<Rightarrow> advanced fs0 cs (D0 @ concat (map ch ?ap)) j s) F (running_at fs0 cs (set cs) j)"
      by (rule triple_try) (simp only: sum.case simp_thms one)
  next
    fix r :: "setup_error + unit"
    show "triple (\<lambda>s. case r of Inl _ \<Rightarrow> running_at fs0 cs (set (D0 @ concat (map ch ?ap))) j s
           | Inr _ \<Rightarrow> advanced fs0 cs (D0 @ concat (map ch ?ap)) j s)
        (case r of Inl err \<Rightarrow> io_return (?ap, Some err) | Inr _ \<Rightarrow> run_edits active f es ?ap)
        (\<lambda>(ap, err) s. set ap \<subseteq> set applied \<union> set (e # es) \<and> (case err of
            None \<Rightarrow> advanced fs0 cs (D0 @ concat (map ch ap)) j s \<and> concat (map ch ap) = concat (map ch (applied @ e # es))
          | Some _ \<Rightarrow> running_at fs0 cs (set (D0 @ concat (map ch ap))) j s))
        F (running_at fs0 cs (set cs) j)"
      using IH by (cases r) (auto intro!: triple_return simp: Un_ac)
  qed
qed

lemma triple_restore_all:
  assumes step: "\<And>x att. x \<in> set xs \<Longrightarrow>
      triple (running_at fs0 cs att j) (f x) (\<lambda>_. running_at fs0 cs (att - set (ch x)) j)
        (running_at fs0 cs att j) (running_at fs0 cs att j)"
  shows "triple (running_at fs0 cs att j) (restore_all f xs fl)
    (\<lambda>r s. case r of None \<Rightarrow> fl = None \<and> running_at fs0 cs (att - set (concat (map ch xs))) j s
        | Some _ \<Rightarrow> running_at fs0 cs att j s) F (running_at fs0 cs att j)"
  using step
proof (induction xs arbitrary: att fl)
  case Nil
  then show ?case by (cases fl) (auto intro: triple_return)
next
  case (Cons x xs)
  show ?case unfolding restore_all.simps
  proof (rule triple_bind)
    show "triple (running_at fs0 cs att j) (io_try (f x))
        (\<lambda>r s. case r of Inl _ \<Rightarrow> running_at fs0 cs att j s | Inr _ \<Rightarrow> running_at fs0 cs (att - set (ch x)) j s)
        F (running_at fs0 cs att j)"
      by (rule triple_try) (use Cons.prems in simp)
  next
    fix r :: "setup_error + unit"
    let ?fl = "case (fl, r) of (None, Inl e) \<Rightarrow> Some e | _ \<Rightarrow> fl"
    have IH: "triple (running_at fs0 cs a j) (restore_all f xs ?fl)
        (\<lambda>r s. case r of None \<Rightarrow> ?fl = None \<and> running_at fs0 cs (a - set (concat (map ch xs))) j s
           | Some _ \<Rightarrow> running_at fs0 cs a j s) F (running_at fs0 cs a j)" for a
      by (rule Cons.IH) (use Cons.prems in auto)
    show "triple (\<lambda>s. case r of Inl _ \<Rightarrow> running_at fs0 cs att j s | Inr _ \<Rightarrow> running_at fs0 cs (att - set (ch x)) j s)
        (restore_all f xs ?fl)
        (\<lambda>r s. case r of None \<Rightarrow> fl = None \<and> running_at fs0 cs (att - set (concat (map ch (x # xs)))) j s
           | Some _ \<Rightarrow> running_at fs0 cs att j s) F (running_at fs0 cs att j)"
    proof (cases r)
      case (Inl e)
      show ?thesis unfolding Inl
        by (rule triple_weaken [OF IH [of att, unfolded Inl]]) (auto split: option.splits)
    next
      case (Inr u)
      show ?thesis unfolding Inr
        by (rule triple_weaken [OF IH [of "att - set (ch x)", unfolded Inr]])
          (auto elim: running_mono simp: Diff_eq Int_assoc split: option.splits)
    qed
  qed
qed

section \<open>Commit, rollback and recovery\<close>

definition journal_for :: "setup_env \<Rightarrow> change list \<Rightarrow> setup_journal" where
  "journal_for E cs = \<lparr>schema_version = 1, journal_state = Pending, entries = map (entry_of E) cs\<rparr>"

abbreviation pending_file :: "setup_env \<Rightarrow> change list \<Rightarrow> journal_file option" where
  "pending_file E cs \<equiv> Some (Journal (journal_for E cs))"

text \<open>No journal, or one that recovery only removes.\<close>

definition closed :: "setup_env \<Rightarrow> setup_fs \<Rightarrow> bool" where
  "closed E s \<longleftrightarrow> (case journal s of
      None \<Rightarrow> True
    | Some (Journal j) \<Rightarrow> journal_state j = Committed \<and> schema_version j = 1 \<and> journal_bytes E j \<le> max_setup_journal_bytes
    | Some Garbage \<Rightarrow> False)"

definition recoverable :: "setup_env \<Rightarrow> (string \<Rightarrow> node option) \<Rightarrow> change list \<Rightarrow> setup_fs \<Rightarrow> bool" where
  "recoverable E fs0 cs s \<longleftrightarrow> running_at fs0 cs (set cs) (pending_file E cs) s \<and>
     journal_bytes E (journal_for E cs) \<le> max_setup_journal_bytes"

definition settled :: "setup_env \<Rightarrow> (string \<Rightarrow> node option) \<Rightarrow> setup_fs \<Rightarrow> bool" where
  "settled E fs s \<longleftrightarrow> files s = fs \<and> closed E s"

lemma settled_cong: "files s = files t \<Longrightarrow> journal s = journal t \<Longrightarrow> settled E fs s = settled E fs t"
  by (simp add: settled_def closed_def)

lemma triple_on_journal:
  assumes "\<And>s jf. P s \<Longrightarrow> set jf \<subseteq> set (journal_faults s) \<Longrightarrow> P (s\<lparr>journal_faults := jf\<rparr>)"
    "\<And>s. P s \<Longrightarrow> Q (s\<lparr>journal := eff (journal s)\<rparr>)" "\<And>s. P s \<Longrightarrow> Fail_After \<notin> set (journal_faults s)"
  shows "triple P (on_journal eff) (\<lambda>_. Q) P (\<lambda>s. P s \<or> Q s)"
proof -
  have comm: "st\<lparr>journal_faults := jf, journal := j\<rparr> = st\<lparr>journal_faults := jf\<rparr>\<lparr>journal := j\<rparr>" for st :: setup_fs and jf j
    by simp
  have p: "P (s\<lparr>journal_faults := tl (journal_faults s)\<rparr>)" if "P s" for s
    by (rule assms(1) [OF that]) (cases "journal_faults s"; auto)
  have q: "Q (s\<lparr>journal_faults := tl (journal_faults s), journal := eff (journal s)\<rparr>)" if "P s" for s
    using assms(2) [OF p [OF that]] by simp
  have "next_fault (journal_faults s) \<noteq> Fail_After" if "P s" for s
    using assms(3) [OF that] by (cases "journal_faults s") (auto simp: next_fault_def)
  then show ?thesis
    using p q by (fastforce simp: triple_def on_journal_def io_faulty_def split: fault.split)
qed

lemma running_other: "running_at fs0 cs att j s \<Longrightarrow> p \<notin> fst ` set cs \<Longrightarrow> files s p = fs0 p"
  by (simp add: running_at_def mixed_def)

lemma files_of_running:
  assumes "running_at fs0 cs {} j s" shows "files s = fs0"
proof
  fix p
  show "files s p = fs0 p"
  proof (cases "p \<in> fst ` set cs")
    case True
    then obtain o1 t where c: "(p, o1, t) \<in> set cs" by auto
    show ?thesis using assms mixed_change [OF _ c, of fs0 "{}" s] by (simp add: running_at_def)
  qed (use assms running_other in blast)
qed

lemma files_of_advanced:
  assumes "advanced fs0 cs cs j s" "plan_changes_ok cs" shows "files s = with_targets cs fs0"
proof
  fix p
  have d: "distinct (map fst cs)" using assms(2) by (simp add: plan_changes_ok_def)
  show "files s p = with_targets cs fs0 p"
  proof (cases "map_of cs p")
    case None
    then have "p \<notin> fst ` set cs" by (simp add: map_of_eq_None_iff)
    then have "files s p = fs0 p" using assms(1) running_other by (auto simp: advanced_def)
    then show ?thesis using with_targets_eq [OF d] None by simp
  next
    case (Some ot)
    then have "(p, fst ot, snd ot) \<in> set cs" by (auto dest: map_of_SomeD)
    then show ?thesis using assms(1) with_targets_eq [OF d] Some
      by (cases ot) (auto simp: advanced_def at_targets_def)
  qed
qed

text \<open>Commit from a state with known files: either nothing is committed, or the files are settled.\<close>

lemma triple_commit:
  assumes "\<And>s jf. P s \<Longrightarrow> set jf \<subseteq> set (journal_faults s) \<Longrightarrow> P (s\<lparr>journal_faults := jf\<rparr>)"
    "\<And>s. P s \<Longrightarrow> files s = fs" "\<And>s. P s \<Longrightarrow> Fail_After \<notin> set (journal_faults s)"
    "journal_state j = Pending" "schema_version j = 1"
  shows "triple P (commit E j) (\<lambda>_. settled E fs) P (\<lambda>s. P s \<or> settled E fs s)"
proof -
  let ?c = "j\<lparr>journal_state := Committed\<rparr>"
  have rep: "triple P (replace_journal E ?c) (\<lambda>_. settled E fs) P (\<lambda>s. P s \<or> settled E fs s)"
  proof (cases "journal_bytes E ?c \<le> max_setup_journal_bytes")
    case True
    have "triple P (on_journal (\<lambda>_. Some (Journal ?c))) (\<lambda>_. settled E fs) P (\<lambda>s. P s \<or> settled E fs s)"
      by (rule triple_on_journal) (use assms True in \<open>auto simp: settled_def closed_def\<close>)
    moreover have "triple P (serialize_journal E ?c) (\<lambda>_. P) P (\<lambda>s. P s \<or> settled E fs s)"
      using True by (auto simp: serialize_journal_def intro: triple_return)
    ultimately show ?thesis unfolding replace_journal_def by (intro triple_then)
  next
    case False
    then show ?thesis
      by (auto simp: replace_journal_def serialize_journal_def triple_def io_then_def io_bind_def io_fail_def)
  qed
  have "settled E fs (snd (remove_journal s))" if "settled E fs s" for s
    using that by (auto simp: remove_journal_def on_journal_def io_faulty_def settled_def closed_def split: fault.split)
  then have "triple (settled E fs) (io_then (io_try remove_journal) (io_return ())) (\<lambda>_. settled E fs) P
      (\<lambda>s. P s \<or> settled E fs s)"
    by (fastforce simp: triple_def io_then_def io_bind_def io_try_def io_return_def split: prod.splits ending.splits)
  with rep show ?thesis unfolding commit_def by (rule triple_then)
qed

lemma running_faults:
  "running_at fs0 cs att j s \<Longrightarrow> set jf \<subseteq> set (journal_faults s) \<Longrightarrow> running_at fs0 cs att j (s\<lparr>journal_faults := jf\<rparr>)"
  by (auto simp: running_at_def mixed_def)

lemma running_no_fail: "running_at fs0 cs att j s \<Longrightarrow> Fail_After \<notin> set (journal_faults s)"
  by (simp add: running_at_def)

lemma advanced_faults:
  "advanced fs0 cs D j s \<Longrightarrow> set jf \<subseteq> set (journal_faults s) \<Longrightarrow> advanced fs0 cs D j (s\<lparr>journal_faults := jf\<rparr>)"
  by (auto simp: advanced_def at_targets_def intro: running_faults)

lemma journal_for_simps [simp]:
  "journal_state (journal_for E cs) = Pending" "schema_version (journal_for E cs) = 1"
  "entries (journal_for E cs) = map (entry_of E) cs"
  by (simp_all add: journal_for_def)

definition tx_ok :: "setup_env \<Rightarrow> change list \<Rightarrow> setup_journal option \<Rightarrow> journal_file option \<Rightarrow> bool" where
  "tx_ok E cs tx j \<longleftrightarrow> (case tx of
      None \<Rightarrow> cs = [] \<and> j = None
    | Some jr \<Rightarrow> jr = journal_for E cs \<and> j = pending_file E cs \<and> journal_bytes E jr \<le> max_setup_journal_bytes)"

definition safe :: "setup_env \<Rightarrow> (string \<Rightarrow> node option) \<Rightarrow> change list \<Rightarrow> setup_fs \<Rightarrow> bool" where
  "safe E fs0 cs s \<longleftrightarrow> recoverable E fs0 cs s \<or> settled E fs0 s"

lemma running_safe:
  assumes "tx_ok E cs tx j" "running_at fs0 cs att j s" "att \<subseteq> set cs"
  shows "safe E fs0 cs s"
proof (cases tx)
  case None
  then have "running_at fs0 cs {} j s" "j = None" using assms by (auto simp: tx_ok_def)
  then show ?thesis using files_of_running [of fs0 cs j s]
    by (simp add: safe_def settled_def closed_def running_at_def)
next
  case (Some jr)
  then show ?thesis using assms running_mono [OF assms(2,3)]
    by (auto simp: safe_def recoverable_def tx_ok_def)
qed

lemma triple_restore_edit:
  assumes "plan_changes_ok cs" "set (edit_changes [e]) \<subseteq> set cs"
  shows "triple (running_at fs0 cs att j) (restore_edit E e) (\<lambda>_. running_at fs0 cs (att - set (edit_changes [e])) j)
    (running_at fs0 cs att j) (running_at fs0 cs att j)"
  using triple_restore [OF assms(1), of "ce_path e" _ "edit_updated (ce_resolution e)" fs0 att j E] assms(2)
  by (cases "edit_updated (ce_resolution e)") (auto simp: restore_edit_def update_of_def intro: triple_return)

lemma triple_restore_discovery:
  assumes "plan_changes_ok cs" "set (discovery_changes [e]) \<subseteq> set cs"
  shows "triple (running_at fs0 cs att j) (restore_discovery_edit E e)
    (\<lambda>_. running_at fs0 cs (att - set (discovery_changes [e])) j) (running_at fs0 cs att j) (running_at fs0 cs att j)"
proof (cases "discovery_active e")
  case False
  then show ?thesis
    by (auto simp: restore_discovery_edit_def discovery_changes_def discovery_active_def intro: triple_return)
next
  case True
  then have "discovery_change e \<in> set cs" using assms(2) by (simp add: discovery_changes_def)
  moreover have "triple (running_at fs0 cs att j) (restore_path E (de_path e) (de_original e) (Present (hash E u)))
      (\<lambda>_. running_at fs0 cs (att - {(de_path e, de_original e, Some u)}) j) (running_at fs0 cs att j) (running_at fs0 cs att j)"
    if "(de_path e, de_original e, Some u) \<in> set cs" for u
    using triple_restore [OF assms(1) that, of fs0 att j E] by (simp add: update_of_def)
  moreover have "triple (running_at fs0 cs att j) (restore_path E (de_path e) (de_original e) Absent)
      (\<lambda>_. running_at fs0 cs (att - {(de_path e, de_original e, None)}) j) (running_at fs0 cs att j) (running_at fs0 cs att j)"
    if "(de_path e, de_original e, None) \<in> set cs"
    using triple_restore [OF assms(1) that, of fs0 att j E] by (simp add: update_of_def)
  ultimately show ?thesis using True
    by (cases "de_action e"; cases "de_updated e")
      (simp_all add: restore_discovery_edit_def discovery_changes_def discovery_active_def discovery_change_def
        or_default_def triple_fail)
qed

lemma changes_mem:
  "e \<in> set es \<Longrightarrow> set (edit_changes [e]) \<subseteq> set (edit_changes es)"
  "d \<in> set ds \<Longrightarrow> set (discovery_changes [d]) \<subseteq> set (discovery_changes ds)"
  using edit_changes_concat [of es] discovery_changes_concat [of ds] by auto

lemma changes_rev:
  "set (concat (map (\<lambda>e. edit_changes [e]) (rev es))) = set (edit_changes es)"
  "set (concat (map (\<lambda>d. discovery_changes [d]) (rev ds))) = set (discovery_changes ds)"
  using edit_changes_concat [of es] discovery_changes_concat [of ds] by auto

lemma triple_rollback:
  assumes ok: "plan_changes_ok cs" and tx: "tx_ok E cs tx j"
    and sub: "set (edit_changes applied) \<subseteq> set cs" "set (discovery_changes applied_d) \<subseteq> set cs"
  shows "triple (running_at fs0 cs (set (edit_changes applied @ discovery_changes applied_d)) j)
    (rollback_setup E plan applied applied_d tx) (\<lambda>_. settled E fs0) (safe E fs0 cs) (safe E fs0 cs)"
proof -
  let ?a = "set (edit_changes applied)" and ?d = "set (discovery_changes applied_d)"
  note safe_run = running_safe [OF tx]
  have d: "triple (running_at fs0 cs (?a \<union> ?d) j) (restore_all (restore_discovery_edit E) (rev applied_d) None)
      (\<lambda>r s. case r of None \<Rightarrow> running_at fs0 cs ?a j s | Some _ \<Rightarrow> running_at fs0 cs (?a \<union> ?d) j s)
      (safe E fs0 cs) (safe E fs0 cs)"
  proof (rule triple_weaken [OF triple_restore_all [where ch = "\<lambda>d. discovery_changes [d]" and att = "?a \<union> ?d"]])
    show "triple (running_at fs0 cs att j) (restore_discovery_edit E x)
        (\<lambda>_. running_at fs0 cs (att - set (discovery_changes [x])) j) (running_at fs0 cs att j) (running_at fs0 cs att j)"
      if "x \<in> set (rev applied_d)" for x att
      using triple_restore_discovery [OF ok] changes_mem(2) [of x applied_d] sub(2) that by fastforce
  qed (use sub in \<open>auto simp only: changes_rev split: option.splits elim: running_mono safe_run\<close>)
  have a: "triple (\<lambda>s. case fl of None \<Rightarrow> running_at fs0 cs ?a j s | Some _ \<Rightarrow> running_at fs0 cs (?a \<union> ?d) j s)
      (restore_all (restore_edit E) (rev applied) fl)
      (\<lambda>r s. case r of None \<Rightarrow> running_at fs0 cs {} j s | Some _ \<Rightarrow> safe E fs0 cs s)
      (safe E fs0 cs) (safe E fs0 cs)" for fl
  proof -
    let ?att = "case fl of None \<Rightarrow> ?a | Some _ \<Rightarrow> ?a \<union> ?d"
    have t: "triple (running_at fs0 cs ?att j) (restore_all (restore_edit E) (rev applied) fl)
        (\<lambda>r s. case r of
            None \<Rightarrow> fl = None \<and> running_at fs0 cs (?att - set (concat (map (\<lambda>e. edit_changes [e]) (rev applied)))) j s
          | Some _ \<Rightarrow> running_at fs0 cs ?att j s) (safe E fs0 cs) (running_at fs0 cs ?att j)"
    proof (rule triple_restore_all)
      show "triple (running_at fs0 cs att j) (restore_edit E x)
          (\<lambda>_. running_at fs0 cs (att - set (edit_changes [x])) j) (running_at fs0 cs att j) (running_at fs0 cs att j)"
        if "x \<in> set (rev applied)" for x att
        using triple_restore_edit [OF ok] changes_mem(1) [of x applied] sub(1) that by fastforce
    qed
    have s: "running_at fs0 cs ?att j s \<Longrightarrow> safe E fs0 cs s" for s
      by (erule safe_run) (use sub in \<open>auto split: option.split\<close>)
    show ?thesis
      by (rule triple_weaken [OF t [unfolded changes_rev]]) (use s in \<open>auto split: option.splits\<close>)
  qed
  have rt: "triple (running_at fs0 cs {} j)
      (if sp_runtime plan = Some (Inr Installed) then io_lift (sp_runtime_rollback plan) else io_return ())
      (\<lambda>_. running_at fs0 cs {} j) (safe E fs0 cs) (safe E fs0 cs)"
    by (auto intro!: triple_return triple_lift elim: safe_run)
  have cm: "triple (running_at fs0 cs {} j) (case tx of None \<Rightarrow> io_return () | Some jr \<Rightarrow> commit E jr)
      (\<lambda>_. settled E fs0) (safe E fs0 cs) (safe E fs0 cs)"
  proof (cases tx)
    case None
    then show ?thesis using tx files_of_running [of fs0 cs j]
      by (auto simp: tx_ok_def settled_def closed_def running_at_def intro!: triple_return)
  next
    case (Some jr)
    then have jr: "jr = journal_for E cs" using tx by (simp add: tx_ok_def)
    have "triple (running_at fs0 cs {} j) (commit E jr) (\<lambda>_. settled E fs0) (running_at fs0 cs {} j)
        (\<lambda>s. running_at fs0 cs {} j s \<or> settled E fs0 s)"
      by (rule triple_commit) (auto simp: jr intro: running_faults files_of_running dest: running_no_fail)
    moreover have "running_at fs0 cs {} j s \<Longrightarrow> safe E fs0 cs s" for s by (erule safe_run) simp
    moreover have "settled E fs0 s \<Longrightarrow> safe E fs0 cs s" for s by (simp add: safe_def)
    ultimately show ?thesis unfolding Some option.case by (elim triple_weaken) blast+
  qed
  show ?thesis unfolding rollback_setup_def set_append
  proof (rule triple_bind [OF d], rule triple_bind [OF a])
    fix fl :: "setup_error option"
    show "triple (\<lambda>s. case fl of None \<Rightarrow> running_at fs0 cs {} j s | Some _ \<Rightarrow> safe E fs0 cs s)
        (case fl of
          None \<Rightarrow> io_then (if sp_runtime plan = Some (Inr Installed) then io_lift (sp_runtime_rollback plan) else io_return ())
             (case tx of None \<Rightarrow> io_return () | Some jr \<Rightarrow> commit E jr)
        | Some e \<Rightarrow> io_fail e) (\<lambda>_. settled E fs0) (safe E fs0 cs) (safe E fs0 cs)"
    proof (cases fl)
      case None
      show ?thesis unfolding None option.case by (rule triple_then [OF rt cm])
    next
      case (Some e)
      show ?thesis unfolding Some option.case by (rule triple_fail)
    qed
  qed
qed

end
