(* ===== verification/Setup_Atomic.thy ===== *)
theory Setup_Atomic
  imports Setup_Props
begin

text \<open>
  Setup as a whole: whatever faults and crashes happen while a plan is applied, the files are then
  either all at their targets or can be brought back to their originals by recovery, which itself may
  be interrupted any number of times.
\<close>

section \<open>Applying the edits\<close>

lemma changes_mono:
  "set ap \<subseteq> set es \<Longrightarrow> set (edit_changes ap) \<subseteq> set (edit_changes es)"
  "set ad \<subseteq> set ds \<Longrightarrow> set (discovery_changes ad) \<subseteq> set (discovery_changes ds)"
  unfolding edit_changes_concat [of ap] edit_changes_concat [of es] discovery_changes_concat [of ad]
    discovery_changes_concat [of ds] set_concat set_map by blast+

definition applied_state ::
  "setup_env \<Rightarrow> (string \<Rightarrow> node option) \<Rightarrow> change list \<Rightarrow> apply_failure option \<Rightarrow> setup_fs \<Rightarrow> bool" where
  "applied_state E fs0 cs err s \<longleftrightarrow> (case err of
      None \<Rightarrow> settled E (with_targets cs fs0) s
    | Some (Needs_Recovery _ _) \<Rightarrow> safe E fs0 cs s
    | Some _ \<Rightarrow> settled E fs0 s)"

lemma triple_fail_with_rollback:
  assumes ok: "plan_changes_ok cs" and tx: "tx_ok E cs tx j"
    and sub: "set (edit_changes applied) \<subseteq> set cs" "set (discovery_changes applied_d) \<subseteq> set cs"
  shows "triple (running_at fs0 cs (set (edit_changes applied @ discovery_changes applied_d)) j)
    (fail_with_rollback E plan applied applied_d tx e) (\<lambda>out. applied_state E fs0 cs (ao_error out)) F (safe E fs0 cs)"
  unfolding fail_with_rollback_def
proof (rule triple_bind)
  show "triple (running_at fs0 cs (set (edit_changes applied @ discovery_changes applied_d)) j)
      (io_try (rollback_setup E plan applied applied_d tx))
      (\<lambda>r s. case r of Inl _ \<Rightarrow> safe E fs0 cs s | Inr _ \<Rightarrow> settled E fs0 s) F (safe E fs0 cs)"
    by (rule triple_try) (use triple_rollback [OF assms] in simp)
  show "triple (\<lambda>s. case r of Inl _ \<Rightarrow> safe E fs0 cs s | Inr _ \<Rightarrow> settled E fs0 s)
      (io_return (failed_outcome plan (rollback_message e r)))
      (\<lambda>out. applied_state E fs0 cs (ao_error out)) F (safe E fs0 cs)" for r :: "setup_error + unit"
    by (rule triple_return) (auto simp: applied_state_def failed_outcome_def rollback_message_def split: sum.splits)
qed

text \<open>The last step: commit, or roll everything back.\<close>

lemma triple_finish:
  assumes ok: "plan_changes_ok cs" and tx: "tx_ok E cs tx j"
    and cs: "cs = edit_changes applied @ discovery_changes applied_d"
    and no_err: "ao_error out = None"
  shows "triple (advanced fs0 cs cs j)
    (io_bind (case tx of None \<Rightarrow> io_return (Inr ()) | Some jr \<Rightarrow> io_try (commit E jr)) (\<lambda>committed.
       case committed of
         Inl e \<Rightarrow> fail_with_rollback E plan applied applied_d tx e
       | Inr _ \<Rightarrow> io_return out))
    (\<lambda>out. applied_state E fs0 cs (ao_error out)) F (\<lambda>s. safe E fs0 cs s \<or> settled E (with_targets cs fs0) s)"
proof (rule triple_bind)
  have P_safe: "advanced fs0 cs cs j s \<Longrightarrow> safe E fs0 cs s" for s
    by (rule running_safe [OF tx]) (auto simp: advanced_def)
  have files: "advanced fs0 cs cs j s \<Longrightarrow> files s = with_targets cs fs0" for s
    by (rule files_of_advanced [OF _ ok])
  have no_fail: "advanced fs0 cs cs j s \<Longrightarrow> Fail_After \<notin> set (journal_faults s)" for s
    by (simp add: advanced_def running_at_def)
  show "triple (advanced fs0 cs cs j) (case tx of None \<Rightarrow> io_return (Inr ()) | Some jr \<Rightarrow> io_try (commit E jr))
      (\<lambda>r s. case r of Inl _ \<Rightarrow> advanced fs0 cs cs j s | Inr _ \<Rightarrow> settled E (with_targets cs fs0) s) F
      (\<lambda>s. safe E fs0 cs s \<or> settled E (with_targets cs fs0) s)"
  proof (cases tx)
    case None
    have "settled E (with_targets cs fs0) s" if "advanced fs0 cs cs j s" for s
      using files [OF that] that tx None
      by (simp add: tx_ok_def settled_def closed_def advanced_def running_at_def)
    then show ?thesis using None by (auto intro: triple_return)
  next
    case (Some jr)
    then have jr: "jr = journal_for E cs" using tx by (simp add: tx_ok_def)
    have "triple (advanced fs0 cs cs j) (commit E jr) (\<lambda>_. settled E (with_targets cs fs0)) (advanced fs0 cs cs j)
        (\<lambda>s. advanced fs0 cs cs j s \<or> settled E (with_targets cs fs0) s)"
      by (rule triple_commit)
        (use files no_fail in \<open>auto simp: jr intro: advanced_faults\<close>)
    then have "triple (advanced fs0 cs cs j) (commit E jr) (\<lambda>_. settled E (with_targets cs fs0)) (advanced fs0 cs cs j)
        (\<lambda>s. safe E fs0 cs s \<or> settled E (with_targets cs fs0) s)"
      by (elim triple_weaken) (use P_safe in blast)+
    then show ?thesis unfolding Some option.case by (intro triple_try) simp
  qed
  fix r :: "setup_error + unit"
  show "triple (\<lambda>s. case r of Inl _ \<Rightarrow> advanced fs0 cs cs j s | Inr _ \<Rightarrow> settled E (with_targets cs fs0) s)
      (case r of Inl e \<Rightarrow> fail_with_rollback E plan applied applied_d tx e | Inr _ \<Rightarrow> io_return out)
      (\<lambda>out. applied_state E fs0 cs (ao_error out)) F (\<lambda>s. safe E fs0 cs s \<or> settled E (with_targets cs fs0) s)"
  proof (cases r)
    case (Inl e)
    have "set (edit_changes applied) \<subseteq> set cs" "set (discovery_changes applied_d) \<subseteq> set cs" using cs by auto
    then show ?thesis unfolding Inl sum.case
      by (rule triple_weaken [OF triple_fail_with_rollback [OF ok tx]]) (auto simp: cs advanced_def)
  next
    case (Inr u)
    show ?thesis unfolding Inr sum.case by (rule triple_return) (simp add: applied_state_def no_err)
  qed
qed

text \<open>The two loops of a plan.\<close>

lemma plan_change_sets:
  "set ap \<subseteq> set (sp_edits plan) \<Longrightarrow> set (edit_changes ap) \<subseteq> set (plan_changes plan)"
  "set ad \<subseteq> set (sp_discovery_edits plan) \<Longrightarrow> set (discovery_changes ad) \<subseteq> set (plan_changes plan)"
  using changes_mono unfolding plan_changes_def set_append by blast+

lemma triple_client_edits:
  assumes plan: "plan_ok plan"
  shows "triple (advanced fs0 (plan_changes plan) [] j) (run_edits edit_active apply_edit (sp_edits plan) [])
      (\<lambda>(ap, err) s. set ap \<subseteq> set (sp_edits plan) \<and> (case err of
          None \<Rightarrow> advanced fs0 (plan_changes plan) (edit_changes ap) j s \<and> edit_changes ap = edit_changes (sp_edits plan)
        | Some _ \<Rightarrow> running_at fs0 (plan_changes plan) (set (edit_changes ap)) j s))
      F (running_at fs0 (plan_changes plan) (set (plan_changes plan)) j)"
proof -
  let ?cs = "plan_changes plan" and ?es = "sp_edits plan" and ?ch = "\<lambda>e. edit_changes [e]"
  have ok: "plan_changes_ok ?cs" using plan by (simp add: plan_ok_def plan_changes_ok_def)
  have one: "e \<in> set ?es \<Longrightarrow> set (edit_changes [e]) \<subseteq> set ?cs" for e using plan_change_sets(1) [of "[e]"] by auto
  have "triple (advanced fs0 ?cs ([] @ concat (map ?ch [])) j) (run_edits edit_active apply_edit ?es [])
    (\<lambda>(ap, err) s. set ap \<subseteq> set [] \<union> set ?es \<and> (case err of
        None \<Rightarrow> advanced fs0 ?cs ([] @ concat (map ?ch ap)) j s
          \<and> concat (map ?ch ap) = concat (map ?ch ([] @ ?es))
      | Some _ \<Rightarrow> running_at fs0 ?cs (set ([] @ concat (map ?ch ap))) j s))
    F (running_at fs0 ?cs (set ?cs) j)"
    by (rule triple_run_edits) (use one triple_apply_edit [OF ok] in \<open>auto simp: edit_active_def\<close>)
  then show ?thesis unfolding edit_changes_concat [symmetric] append_Nil
    by (rule triple_weaken) auto
qed

lemma triple_discovery_edits:
  assumes plan: "plan_ok plan"
  shows "triple (advanced fs0 (plan_changes plan) (edit_changes (sp_edits plan)) j)
      (run_edits discovery_active apply_discovery_edit (sp_discovery_edits plan) [])
      (\<lambda>(ad, err) s. set ad \<subseteq> set (sp_discovery_edits plan) \<and> (case err of
          None \<Rightarrow> advanced fs0 (plan_changes plan) (edit_changes (sp_edits plan) @ discovery_changes ad) j s
            \<and> discovery_changes ad = discovery_changes (sp_discovery_edits plan)
        | Some _ \<Rightarrow> running_at fs0 (plan_changes plan) (set (edit_changes (sp_edits plan) @ discovery_changes ad)) j s))
      F (running_at fs0 (plan_changes plan) (set (plan_changes plan)) j)"
proof -
  let ?cs = "plan_changes plan" and ?es = "sp_edits plan" and ?ds = "sp_discovery_edits plan" and ?ch = "\<lambda>d. discovery_changes [d]"
  have ok: "plan_changes_ok ?cs" using plan by (simp add: plan_ok_def plan_changes_ok_def)
  have one: "d \<in> set ?ds \<Longrightarrow> set (discovery_changes [d]) \<subseteq> set ?cs" for d using plan_change_sets(2) [of "[d]"] by auto
  have sub: "set (edit_changes ?es) \<subseteq> set ?cs" by (simp add: plan_changes_def)
  have "triple (advanced fs0 ?cs (edit_changes ?es @ concat (map ?ch [])) j)
    (run_edits discovery_active apply_discovery_edit ?ds [])
    (\<lambda>(ap, err) s. set ap \<subseteq> set [] \<union> set ?ds \<and> (case err of
        None \<Rightarrow> advanced fs0 ?cs (edit_changes ?es @ concat (map ?ch ap)) j s
          \<and> concat (map ?ch ap) = concat (map ?ch ([] @ ?ds))
      | Some _ \<Rightarrow> running_at fs0 ?cs (set (edit_changes ?es @ concat (map ?ch ap))) j s))
    F (running_at fs0 ?cs (set ?cs) j)"
    by (rule triple_run_edits) (use one sub triple_apply_discovery [OF ok] in \<open>auto simp: discovery_changes_def\<close>)
  then have "triple (advanced fs0 ?cs (edit_changes ?es @ discovery_changes []) j)
    (run_edits discovery_active apply_discovery_edit ?ds [])
    (\<lambda>(ap, err) s. set ap \<subseteq> set [] \<union> set ?ds \<and> (case err of
        None \<Rightarrow> advanced fs0 ?cs (edit_changes ?es @ discovery_changes ap) j s
          \<and> discovery_changes ap = discovery_changes ?ds
      | Some _ \<Rightarrow> running_at fs0 ?cs (set (edit_changes ?es @ discovery_changes ap)) j s))
    F (running_at fs0 ?cs (set ?cs) j)"
    unfolding discovery_changes_concat [symmetric] append_Nil .
  then show ?thesis by (rule triple_weaken) (auto simp: discovery_changes_def)
qed

lemma triple_apply_edits:
  assumes plan: "plan_ok plan" and tx: "tx_ok E (plan_changes plan) tx j"
  shows "triple (advanced fs0 (plan_changes plan) [] j) (apply_edits E plan tx)
    (\<lambda>out. applied_state E fs0 (plan_changes plan) (ao_error out)) F
    (\<lambda>s. safe E fs0 (plan_changes plan) s \<or> settled E (with_targets (plan_changes plan) fs0) s)"
proof -
  let ?cs = "plan_changes plan" and ?C = "\<lambda>s. safe E fs0 (plan_changes plan) s \<or> settled E (with_targets (plan_changes plan) fs0) s"
  let ?es = "sp_edits plan" and ?ds = "sp_discovery_edits plan"
  have ok: "plan_changes_ok ?cs" using plan by (simp add: plan_ok_def plan_changes_ok_def)
  have C: "running_at fs0 ?cs (set ?cs) j s \<Longrightarrow> ?C s" for s using running_safe [OF tx] by blast
  note subs = plan_change_sets [of _ plan]
  have run_edits: "triple (advanced fs0 ?cs [] j) (run_edits edit_active apply_edit ?es [])
      (\<lambda>(ap, err) s. set ap \<subseteq> set ?es \<and> (case err of
          None \<Rightarrow> advanced fs0 ?cs (edit_changes ap) j s \<and> edit_changes ap = edit_changes ?es
        | Some _ \<Rightarrow> running_at fs0 ?cs (set (edit_changes ap)) j s)) F ?C"
    by (rule triple_weaken [OF triple_client_edits [OF plan]]) (use C in auto)
  have run_discovery: "triple (advanced fs0 ?cs (edit_changes ?es) j) (run_edits discovery_active apply_discovery_edit ?ds [])
      (\<lambda>(ad, err) s. set ad \<subseteq> set ?ds \<and> (case err of
          None \<Rightarrow> advanced fs0 ?cs (edit_changes ?es @ discovery_changes ad) j s \<and> discovery_changes ad = discovery_changes ?ds
        | Some _ \<Rightarrow> running_at fs0 ?cs (set (edit_changes ?es @ discovery_changes ad)) j s)) F ?C"
    by (rule triple_weaken [OF triple_discovery_edits [OF plan]]) (use C in auto)
  have back1: "triple (\<lambda>s. set ap \<subseteq> set ?es \<and> running_at fs0 ?cs (set (edit_changes ap)) j s)
      (fail_with_rollback E plan ap [] tx e) (\<lambda>out. applied_state E fs0 ?cs (ao_error out)) F ?C" for ap e
    by (rule triple_pure, rule triple_weaken [OF triple_fail_with_rollback [OF ok tx]])
      (use subs(1) in \<open>auto simp: discovery_changes_def\<close>)
  have back2: "triple (\<lambda>s. set ad \<subseteq> set ?ds \<and> running_at fs0 ?cs (set (edit_changes ap @ discovery_changes ad)) j s)
      (fail_with_rollback E plan ap ad tx e) (\<lambda>out. applied_state E fs0 ?cs (ao_error out)) F ?C"
    if "set ap \<subseteq> set ?es" for ap ad e
    by (rule triple_pure, rule triple_weaken [OF triple_fail_with_rollback [OF ok tx]])
      (use subs that in auto)
  let ?finish = "\<lambda>ap ad err. case err of
      Some e \<Rightarrow> fail_with_rollback E plan ap ad tx e
    | None \<Rightarrow>
        io_bind (case tx of None \<Rightarrow> io_return (Inr ()) | Some j \<Rightarrow> io_try (commit E j)) (\<lambda>committed.
          case committed of
            Inl e \<Rightarrow> fail_with_rollback E plan ap ad tx e
          | Inr _ \<Rightarrow> io_return
              \<lparr> ao_results = map (\<lambda>e. (ce_path e, Outcome (edit_status_of (ce_resolution e)))) (sp_edits plan),
                ao_error = None \<rparr>)"
  have finish: "triple (\<lambda>s. set ad \<subseteq> set ?ds \<and> (case err of
          None \<Rightarrow> advanced fs0 ?cs (edit_changes ?es @ discovery_changes ad) j s \<and> discovery_changes ad = discovery_changes ?ds
        | Some _ \<Rightarrow> running_at fs0 ?cs (set (edit_changes ?es @ discovery_changes ad)) j s))
      (?finish ap ad err) (\<lambda>out. applied_state E fs0 ?cs (ao_error out)) F ?C"
    if ap: "set ap \<subseteq> set ?es" "edit_changes ap = edit_changes ?es" for ap ad err
  proof (cases err)
    case (Some e)
    show ?thesis unfolding Some option.case by (rule back2 [OF ap(1), unfolded ap(2)])
  next
    case None
    have "triple (\<lambda>s. discovery_changes ad = discovery_changes ?ds \<and> advanced fs0 ?cs ?cs j s)
        (?finish ap ad None) (\<lambda>out. applied_state E fs0 ?cs (ao_error out)) F ?C"
      unfolding option.case
      by (rule triple_pure, rule triple_finish [OF ok tx]) (simp_all add: plan_changes_def ap)
    then show ?thesis unfolding None option.case by (rule triple_weaken) (auto simp: plan_changes_def)
  qed
  show ?thesis unfolding apply_edits_def
  proof (rule triple_bind [OF run_edits])
    fix r :: "client_edit list \<times> setup_error option"
    obtain ap err where r: "r = (ap, err)" by (cases r)
    show "triple ((\<lambda>(ap, err) s. set ap \<subseteq> set ?es \<and> (case err of
          None \<Rightarrow> advanced fs0 ?cs (edit_changes ap) j s \<and> edit_changes ap = edit_changes ?es
        | Some _ \<Rightarrow> running_at fs0 ?cs (set (edit_changes ap)) j s)) r)
      ((\<lambda>(applied, err). case err of
         Some e \<Rightarrow> fail_with_rollback E plan applied [] tx e
       | None \<Rightarrow> io_bind (run_edits discovery_active apply_discovery_edit ?ds [])
           (\<lambda>(applied_discovery, err). ?finish applied applied_discovery err)) r)
      (\<lambda>out. applied_state E fs0 ?cs (ao_error out)) F ?C"
    proof (cases err)
      case (Some e)
      show ?thesis unfolding r Some prod.case option.case by (rule back1)
    next
      case None
      have "triple (advanced fs0 ?cs (edit_changes ?es) j) (io_bind (run_edits discovery_active apply_discovery_edit ?ds [])
          (\<lambda>(ad, err). ?finish ap ad err)) (\<lambda>out. applied_state E fs0 ?cs (ao_error out)) F ?C"
        if ap: "set ap \<subseteq> set ?es" "edit_changes ap = edit_changes ?es"
        by (rule triple_bind [OF run_discovery]) (use finish [OF ap] in auto)
      then have "triple (\<lambda>s. (set ap \<subseteq> set ?es \<and> edit_changes ap = edit_changes ?es) \<and> advanced fs0 ?cs (edit_changes ?es) j s)
          (io_bind (run_edits discovery_active apply_discovery_edit ?ds []) (\<lambda>(ad, err). ?finish ap ad err))
          (\<lambda>out. applied_state E fs0 ?cs (ao_error out)) F ?C"
        by (intro triple_pure) blast
      then show ?thesis unfolding r None prod.case option.case by (rule triple_weaken) auto
    qed
  qed
qed

section \<open>Applying a plan\<close>

definition fresh :: "(string \<Rightarrow> node option) \<Rightarrow> setup_fs \<Rightarrow> bool" where
  "fresh fs0 s \<longleftrightarrow> files s = fs0 \<and> journal s = None \<and> Fail_After \<notin> set (journal_faults s)"

lemma insensitive_fresh: "insensitive (\<lambda>s. fresh fs0 s \<and> R)"
  by (simp add: insensitive_def fresh_def)

definition confirmed :: "(string \<Rightarrow> node option) \<Rightarrow> string \<Rightarrow> string option \<Rightarrow> bool" where
  "confirmed fs0 p o1 \<longleftrightarrow> fs0 p = node_of o1 \<and> content_ok o1"

lemma triple_preflight_each:
  assumes "\<And>x. x \<in> set xs \<Longrightarrow> f x = check_unchanged (path x) (orig x)"
  shows "triple (\<lambda>s. fresh fs0 s \<and> R) (io_each f xs)
    (\<lambda>_ s. fresh fs0 s \<and> R \<and> (\<forall>x \<in> set xs. confirmed fs0 (path x) (orig x))) (fresh fs0) (fresh fs0)"
proof -
  let ?I = "\<lambda>ys s. fresh fs0 s \<and> R \<and> (\<forall>x \<in> set ys. confirmed fs0 (path x) (orig x))"
  have "triple (?I []) (io_each f xs) (\<lambda>_. ?I xs) (fresh fs0) (fresh fs0)"
  proof (rule triple_each)
    fix x vs ys assume "xs = ys @ x # vs"
    then have "f x = check_unchanged (path x) (orig x)" using assms by simp
    then show "triple (?I ys) (f x) (\<lambda>_. ?I (ys @ [x])) (fresh fs0) (fresh fs0)"
      using triple_check [OF insensitive_fresh [of fs0 "R \<and> (\<forall>x \<in> set ys. confirmed fs0 (path x) (orig x))"], of "path x" "orig x"]
      by (elim triple_weaken ssubst) (auto simp: confirmed_def fresh_def)
  qed
  then show ?thesis by simp
qed

definition preflight :: "setup_plan \<Rightarrow> unit setup_io" where
  "preflight plan = io_then (preflight_configuration_snapshots (sp_snapshots plan))
     (io_then (preflight_edits (sp_edits plan)) (preflight_discovery (sp_discovery_edits plan)))"

definition all_confirmed :: "(string \<Rightarrow> node option) \<Rightarrow> setup_plan \<Rightarrow> bool" where
  "all_confirmed fs0 plan \<longleftrightarrow>
     (\<forall>e \<in> set (sp_edits plan). confirmed fs0 (ce_path e) (edit_original (ce_resolution e))) \<and>
     (\<forall>d \<in> set (sp_discovery_edits plan). confirmed fs0 (de_path d) (de_original d))"

lemma triple_preflight:
  "triple (fresh fs0) (preflight plan) (\<lambda>_ s. fresh fs0 s \<and> all_confirmed fs0 plan) (fresh fs0) (fresh fs0)"
proof -
  have 1: "triple (fresh fs0) (preflight_configuration_snapshots (sp_snapshots plan)) (\<lambda>_ s. fresh fs0 s \<and> True)
      (fresh fs0) (fresh fs0)"
    unfolding preflight_configuration_snapshots_def
    by (rule triple_weaken [OF triple_preflight_each [where path = fst and orig = snd and R = True]]) auto
  have 2: "triple (\<lambda>s. fresh fs0 s \<and> True) (preflight_edits (sp_edits plan))
      (\<lambda>_ s. fresh fs0 s \<and> (\<forall>e \<in> set (sp_edits plan). confirmed fs0 (ce_path e) (edit_original (ce_resolution e))))
      (fresh fs0) (fresh fs0)"
    unfolding preflight_edits_def
    by (rule triple_weaken [OF triple_preflight_each [where path = ce_path and orig = "edit_original \<circ> ce_resolution" and R = True]])
      auto
  have 3: "triple (\<lambda>s. fresh fs0 s \<and> (\<forall>e \<in> set (sp_edits plan). confirmed fs0 (ce_path e) (edit_original (ce_resolution e))))
      (preflight_discovery (sp_discovery_edits plan)) (\<lambda>_ s. fresh fs0 s \<and> all_confirmed fs0 plan) (fresh fs0) (fresh fs0)"
    unfolding preflight_discovery_def
    by (rule triple_weaken [OF triple_preflight_each [where path = de_path and orig = de_original
          and R = "\<forall>e \<in> set (sp_edits plan). confirmed fs0 (ce_path e) (edit_original (ce_resolution e))"]])
      (auto simp: all_confirmed_def)
  show ?thesis unfolding preflight_def by (rule triple_then [OF 1 triple_then [OF 2 3]])
qed

lemma confirmed_changes:
  assumes "all_confirmed fs0 plan" "(p, o1, t) \<in> set (plan_changes plan)"
  shows "confirmed fs0 p o1"
proof -
  have "(p, o1, t) \<in> set (edit_changes es) \<Longrightarrow> \<exists>e \<in> set es. p = ce_path e \<and> o1 = edit_original (ce_resolution e)" for es
    by (induction es) (auto split: option.splits)
  moreover have "(p, o1, t) \<in> set (discovery_changes ds) \<Longrightarrow> \<exists>d \<in> set ds. p = de_path d \<and> o1 = de_original d" for ds
    by (auto simp: discovery_changes_def discovery_change_def)
  ultimately show ?thesis using assms unfolding all_confirmed_def plan_changes_def set_append by blast
qed

lemma advanced_start:
  assumes "fresh fs0 s" "all_confirmed fs0 plan"
  shows "advanced fs0 (plan_changes plan) [] None s"
  using assms(1) confirmed_changes [OF assms(2)]
  by (auto simp: advanced_def at_targets_def running_at_def mixed_def fresh_def confirmed_def)

lemma fresh_settled: "fresh fs0 s \<Longrightarrow> settled E fs0 s"
  by (simp add: fresh_def settled_def closed_def)

lemma bind_lift_Inr: "io_bind (io_lift (Inr a)) f = f a"
  by (simp add: io_bind_def io_lift_def io_return_def fun_eq_iff)

lemma triple_begin:
  "triple (\<lambda>s. fresh fs0 s \<and> all_confirmed fs0 plan) (begin_setup_transaction E plan)
    (\<lambda>tx s. tx_ok E (plan_changes plan) tx (map_option Journal tx) \<and>
       advanced fs0 (plan_changes plan) [] (map_option Journal tx) s)
    (fresh fs0) (safe E fs0 (plan_changes plan))"
proof (cases "discovery_entries E (sp_discovery_edits plan)")
  case (Inl e)
  then show ?thesis
    by (auto simp: begin_setup_transaction_def io_lift_def triple_def io_bind_def io_fail_def)
next
  case (Inr ds)
  let ?cs = "plan_changes plan" and ?P = "\<lambda>s. fresh fs0 s \<and> all_confirmed fs0 plan"
  let ?j = "journal_for E ?cs"
  have es: "edit_entries E (sp_edits plan) @ ds = map (entry_of E) ?cs"
    using discovery_entries_eq [OF Inr] by (simp add: edit_entries_eq plan_changes_def)
  have eq: "begin_setup_transaction E plan =
      (if ?cs = [] then io_return None
       else io_bind get_journal (\<lambda>current.
         if current \<noteq> None then io_fail Err_Journal_Exists
         else io_then (serialize_journal E ?j) (io_then (on_journal (\<lambda>_. Some (Journal ?j))) (io_return (Some ?j)))))"
    unfolding begin_setup_transaction_def Inr bind_lift_Inr Let_def es journal_for_def [symmetric] map_is_Nil_conv ..
  have P_safe: "?P s \<Longrightarrow> safe E fs0 ?cs s" for s using fresh_settled [of fs0 s E] by (simp add: safe_def)
  have written: "advanced fs0 ?cs [] (Some (Journal ?j)) (s\<lparr>journal := Some (Journal ?j)\<rparr>)" if "?P s" for s
    using advanced_start [of fs0 s plan] that by (auto simp: advanced_def at_targets_def running_at_def mixed_def)
  have put: "triple ?P (on_journal (\<lambda>_. Some (Journal ?j))) (\<lambda>_. advanced fs0 ?cs [] (Some (Journal ?j))) ?P
      (\<lambda>s. ?P s \<or> advanced fs0 ?cs [] (Some (Journal ?j)) s)"
    by (rule triple_on_journal) (use written in \<open>auto simp: fresh_def\<close>)
  have crash: "advanced fs0 ?cs [] (Some (Journal ?j)) s \<Longrightarrow> safe E fs0 ?cs s"
    if "journal_bytes E ?j \<le> max_setup_journal_bytes" for s
    by (rule running_safe [of _ _ "Some ?j" "Some (Journal ?j)" _ "{}"]) (use that in \<open>auto simp: tx_ok_def advanced_def\<close>)
  have begun: "triple ?P (io_then (serialize_journal E ?j) (io_then (on_journal (\<lambda>_. Some (Journal ?j))) (io_return (Some ?j))))
      (\<lambda>tx s. tx_ok E ?cs tx (map_option Journal tx) \<and> advanced fs0 ?cs [] (map_option Journal tx) s)
      (fresh fs0) (safe E fs0 ?cs)"
  proof (cases "journal_bytes E ?j \<le> max_setup_journal_bytes")
    case True
    have "triple ?P (serialize_journal E ?j) (\<lambda>_. ?P) (fresh fs0) (safe E fs0 ?cs)"
      using True by (auto simp: serialize_journal_def intro: triple_return)
    moreover have "triple ?P (on_journal (\<lambda>_. Some (Journal ?j))) (\<lambda>_. advanced fs0 ?cs [] (Some (Journal ?j)))
        (fresh fs0) (safe E fs0 ?cs)"
      by (rule triple_weaken [OF put]) (use crash [OF True] P_safe in auto)
    moreover have "triple (advanced fs0 ?cs [] (Some (Journal ?j))) (io_return (Some ?j))
        (\<lambda>tx s. tx_ok E ?cs tx (map_option Journal tx) \<and> advanced fs0 ?cs [] (map_option Journal tx) s)
        (fresh fs0) (safe E fs0 ?cs)"
      by (rule triple_return) (use True in \<open>simp add: tx_ok_def\<close>)
    ultimately show ?thesis by (blast intro: triple_then)
  next
    case False
    then show ?thesis by (auto simp: serialize_journal_def triple_def io_then_def io_bind_def io_fail_def)
  qed
  show ?thesis
  proof (cases "?cs = []")
    case True
    then show ?thesis unfolding eq using advanced_start [of fs0 _ plan]
      by (auto simp: tx_ok_def intro!: triple_return)
  next
    case False
    then show ?thesis unfolding eq using begun
      by (auto simp: triple_def io_bind_def get_journal_def fresh_def)
  qed
qed

lemma triple_apply_plan:
  assumes plan: "plan_ok plan"
  shows "triple (fresh fs0) (apply_plan E plan) (\<lambda>out. applied_state E fs0 (plan_changes plan) (ao_error out)) (\<lambda>_. False)
    (\<lambda>s. safe E fs0 (plan_changes plan) s \<or> settled E (with_targets (plan_changes plan) fs0) s)"
    (is "triple _ _ ?Q ?F ?C")
proof -
  have fresh: "fresh fs0 s \<Longrightarrow> ?C s" "fresh fs0 s \<Longrightarrow> applied_state E fs0 (plan_changes plan) (Some e) s" for s e
    using fresh_settled [of fs0 s E] by (auto simp: safe_def applied_state_def split: apply_failure.splits)
  have early: "triple (fresh fs0) (io_return (failed_outcome plan e)) ?Q ?F ?C" for e
    by (rule triple_return) (simp add: fresh failed_outcome_def)
  have begun: "triple (\<lambda>s. case b of Inl _ \<Rightarrow> fresh fs0 s
        | Inr tx \<Rightarrow> tx_ok E (plan_changes plan) tx (map_option Journal tx) \<and>
            advanced fs0 (plan_changes plan) [] (map_option Journal tx) s)
      (case b of Inl e \<Rightarrow> io_return (failed_outcome plan (rollback_runtime_message plan e))
        | Inr tx \<Rightarrow> apply_edits E plan tx) ?Q ?F ?C" for b
  proof (cases b)
    case (Inl e)
    show ?thesis unfolding Inl sum.case by (rule early)
  next
    case (Inr tx)
    show ?thesis unfolding Inr sum.case by (rule triple_pure) (rule triple_apply_edits [OF plan])
  qed
  have begin_tx: "triple (\<lambda>s. fresh fs0 s \<and> all_confirmed fs0 plan)
      (io_bind (io_try (begin_setup_transaction E plan)) (\<lambda>b. case b of
          Inl e \<Rightarrow> io_return (failed_outcome plan (rollback_runtime_message plan e))
        | Inr tx \<Rightarrow> apply_edits E plan tx)) ?Q ?F ?C"
    by (rule triple_bind [OF triple_try begun], rule triple_weaken [OF triple_begin]) auto
  have checked: "triple (\<lambda>s. case c of Inl _ \<Rightarrow> fresh fs0 s | Inr _ \<Rightarrow> fresh fs0 s \<and> all_confirmed fs0 plan)
      (case c of Inl e \<Rightarrow> io_return (failed_outcome plan (rollback_runtime_message plan e))
        | Inr _ \<Rightarrow> io_bind (io_try (begin_setup_transaction E plan)) (\<lambda>b. case b of
              Inl e \<Rightarrow> io_return (failed_outcome plan (rollback_runtime_message plan e))
            | Inr tx \<Rightarrow> apply_edits E plan tx)) ?Q ?F ?C" for c :: "setup_error + unit"
  proof (cases c)
    case (Inl e)
    show ?thesis unfolding Inl sum.case by (rule early)
  next
    case (Inr u)
    show ?thesis unfolding Inr sum.case by (rule begin_tx)
  qed
  have all: "triple (fresh fs0) (io_bind (io_try (preflight plan)) (\<lambda>c. case c of
          Inl e \<Rightarrow> io_return (failed_outcome plan (rollback_runtime_message plan e))
        | Inr _ \<Rightarrow> io_bind (io_try (begin_setup_transaction E plan)) (\<lambda>b. case b of
              Inl e \<Rightarrow> io_return (failed_outcome plan (rollback_runtime_message plan e))
            | Inr tx \<Rightarrow> apply_edits E plan tx))) ?Q ?F ?C"
    by (rule triple_bind [OF triple_try checked], rule triple_weaken [OF triple_preflight])
      (use fresh(1) in auto)
  then show ?thesis unfolding apply_plan_def preflight_def
    using early by (auto split: option.split sum.split)
qed

section \<open>Recovery\<close>

text \<open>A recovery that meets faults keeps what a later recovery needs.\<close>

lemma recoverable_running:
  "recoverable E fs0 cs s \<longleftrightarrow> running_at fs0 cs (set cs) (pending_file E cs) s \<and>
     journal_bytes E (journal_for E cs) \<le> max_setup_journal_bytes"
  by (simp add: recoverable_def)

lemma triple_restore_entries:
  assumes ok: "plan_changes_ok cs"
  shows "triple (running_at fs0 cs (set cs) j)
    (io_each (\<lambda>e. restore_path E (je_path e) (je_original e) (je_updated e)) (map (entry_of E) cs))
    (\<lambda>_. running_at fs0 cs {} j) (running_at fs0 cs (set cs) j) (running_at fs0 cs (set cs) j)"
proof -
  let ?f = "\<lambda>e. restore_path E (je_path e) (je_original e) (je_updated e)"
  have "triple (running_at fs0 cs (set cs - set ds) j) (io_each ?f (map (entry_of E) es))
      (\<lambda>_. running_at fs0 cs (set cs - set ds - set es) j) (running_at fs0 cs (set cs) j) (running_at fs0 cs (set cs) j)"
    if "set es \<subseteq> set cs" for es ds
    using that
  proof (induction es arbitrary: ds)
    case Nil
    then show ?case by (simp add: triple_return)
  next
    case (Cons c es)
    obtain p o1 t where c: "c = (p, o1, t)" by (cases c)
    have f: "?f (entry_of E c) = restore_path E p o1 (update_of E t)" by (simp add: c entry_of_def)
    have mono: "running_at fs0 cs (set cs - set ds) j s \<Longrightarrow> running_at fs0 cs (set cs) j s" for s
      by (erule running_mono) auto
    have "triple (running_at fs0 cs (set cs - set ds) j) (?f (entry_of E c))
        (\<lambda>_. running_at fs0 cs (set cs - set (c # ds)) j) (running_at fs0 cs (set cs) j) (running_at fs0 cs (set cs) j)"
      unfolding f by (rule triple_weaken [OF triple_restore [OF ok, of p o1 t fs0 "set cs - set ds" j E]])
        (use Cons.prems c mono in \<open>auto elim: running_mono\<close>)
    moreover have "set cs - set (c # ds) - set es = set cs - set ds - set (c # es)" by auto
    ultimately show ?case using Cons.IH [of "c # ds"] Cons.prems by (auto intro: triple_then)
  qed
  from this [of cs "[]"] show ?thesis by simp
qed

lemma triple_remove_settled:
  "triple (settled E fs) remove_journal (\<lambda>_ s. files s = fs \<and> journal s = None) (settled E fs) (settled E fs)"
  by (auto simp: triple_def remove_journal_def on_journal_def io_faulty_def settled_def closed_def split: fault.splits)

lemma triple_recover_settled:
  "triple (settled E fs) (recover_interrupted_transaction E) (\<lambda>_ s. files s = fs \<and> journal s = None) (settled E fs) (settled E fs)"
proof -
  have "recover_interrupted_transaction E s = (case journal s of None \<Rightarrow> (Done (), s) | Some _ \<Rightarrow> remove_journal s)"
    if "settled E fs s" for s
    using that by (auto simp: recover_interrupted_transaction_def settled_def closed_def io_bind_def get_journal_def
        io_return_def split: option.splits journal_file.splits)
  then show ?thesis using triple_remove_settled [of E fs]
    by (auto simp: triple_def settled_def split: option.split)
qed

lemma triple_remove_restored:
  "triple (running_at fs0 cs {} (pending_file E cs)) remove_journal (\<lambda>_ s. files s = fs0 \<and> journal s = None)
     (running_at fs0 cs {} (pending_file E cs))
     (\<lambda>s. running_at fs0 cs {} (pending_file E cs) s \<or> settled E fs0 s)"
proof -
  have "triple (running_at fs0 cs {} (pending_file E cs)) remove_journal (\<lambda>_ s. files s = fs0 \<and> journal s = None)
      (running_at fs0 cs {} (pending_file E cs))
      (\<lambda>s. running_at fs0 cs {} (pending_file E cs) s \<or> files s = fs0 \<and> journal s = None)"
    unfolding remove_journal_def
    by (rule triple_on_journal) (auto intro: running_faults files_of_running dest: running_no_fail)
  then show ?thesis by (rule triple_weaken) (auto simp: settled_def closed_def)
qed

lemma triple_recover:
  assumes ok: "plan_changes_ok cs"
  shows "triple (safe E fs0 cs) (recover_interrupted_transaction E) (\<lambda>_ s. files s = fs0 \<and> journal s = None)
    (safe E fs0 cs) (safe E fs0 cs)"
proof -
  let ?j = "pending_file E cs" and ?rest = "io_each (\<lambda>e. restore_path E (je_path e) (je_original e) (je_updated e)) (map (entry_of E) cs)"
  have to_safe: "running_at fs0 cs att ?j s \<Longrightarrow> safe E fs0 cs s"
    if "journal_bytes E (journal_for E cs) \<le> max_setup_journal_bytes" "att \<subseteq> set cs" for s att
    by (rule running_safe [where tx = "Some (journal_for E cs)"]) (use that in \<open>auto simp: tx_ok_def\<close>)
  have restoring: "triple (recoverable E fs0 cs) (recover_interrupted_transaction E) (\<lambda>_ s. files s = fs0 \<and> journal s = None)
      (safe E fs0 cs) (safe E fs0 cs)"
  proof (cases "journal_bytes E (journal_for E cs) \<le> max_setup_journal_bytes")
    case True
    have "triple (running_at fs0 cs (set cs) ?j) ?rest (\<lambda>_. running_at fs0 cs {} ?j) (safe E fs0 cs) (safe E fs0 cs)"
      by (rule triple_weaken [OF triple_restore_entries [OF ok]]) (use to_safe [OF True] in auto)
    moreover have "triple (running_at fs0 cs {} ?j) remove_journal (\<lambda>_ s. files s = fs0 \<and> journal s = None)
        (safe E fs0 cs) (safe E fs0 cs)"
      by (rule triple_weaken [OF triple_remove_restored]) (use to_safe [OF True] in \<open>auto simp: safe_def\<close>)
    ultimately have "triple (running_at fs0 cs (set cs) ?j) (io_then ?rest remove_journal)
        (\<lambda>_ s. files s = fs0 \<and> journal s = None) (safe E fs0 cs) (safe E fs0 cs)"
      by (rule triple_then)
    moreover have "recover_interrupted_transaction E s = io_then ?rest remove_journal s" if "journal s = ?j" for s
      using that True by (simp add: recover_interrupted_transaction_def io_bind_def get_journal_def)
    ultimately show ?thesis by (simp add: triple_def recoverable_def running_at_def)
  qed (simp add: recoverable_def triple_def)
  have "triple (settled E fs0) (recover_interrupted_transaction E) (\<lambda>_ s. files s = fs0 \<and> journal s = None)
      (safe E fs0 cs) (safe E fs0 cs)"
    by (rule triple_weaken [OF triple_recover_settled]) (auto simp: safe_def)
  with restoring show ?thesis by (rule triple_weaken [OF triple_disj]) (auto simp: safe_def)
qed

section \<open>An undisturbed recovery succeeds\<close>

definition calm :: "setup_fs \<Rightarrow> bool" where
  "calm s \<longleftrightarrow> file_faults s = [] \<and> journal_faults s = []"

lemma calm_on_files: "calm s \<Longrightarrow> on_files eff s = (Done (), s\<lparr>files := eff (files s)\<rparr>)"
  by (simp add: on_files_def calm_def next_fault_def io_faulty_def)

lemma calm_reject:
  "calm s \<Longrightarrow> files s p \<noteq> Some Symlink \<Longrightarrow> reject_symlink_target p s = (Done (), s)"
  by (simp add: reject_symlink_target_def io_then_def io_bind_def calm_on_files get_files_def io_return_def)

lemma calm_read:
  "calm s \<Longrightarrow> files s p = node_of c \<Longrightarrow> content_ok c \<Longrightarrow> read_optional p s = (Done c, s)"
  by (cases c) (auto simp: read_optional_def io_then_def io_bind_def calm_reject get_files_def io_return_def content_ok_def)

lemma calm_write:
  assumes "calm s" "files s p = node_of c" "length u \<le> max_setup_file_bytes"
  shows "\<exists>t. write_if_changed p v u s = (Done (), t) \<and> calm t"
  using assms by (auto simp: write_if_changed_def io_then_def io_bind_def calm_reject calm_on_files get_files_def io_return_def
      calm_def [of "files_update _ _"] calm_def)

lemma calm_remove:
  assumes "calm s" "files s p = node_of c"
  shows "\<exists>t. remove_if_exists p s = (Done (), t) \<and> calm t"
  using assms by (cases c)
    (auto simp: remove_if_exists_def io_then_def io_bind_def calm_reject calm_on_files get_files_def io_return_def calm_def)

lemma calm_restore:
  assumes "calm s" "running_at fs0 cs (set cs) j s" "plan_changes_ok cs" "(p, o1, t) \<in> set cs"
  shows "\<exists>u. restore_path E p o1 (update_of E t) s = (Done (), u) \<and> calm u"
proof -
  have m: "content_ok o1" "files s p = node_of o1 \<or> files s p = node_of t \<and> content_ok t"
    using mixed_change [OF _ assms(4), of fs0 "set cs" s] assms(2) by (auto simp: running_at_def)
  then obtain c where c: "files s p = node_of c" "content_ok c" "c = o1 \<or> c = t" by blast
  then have read: "read_optional p s = (Done c, s)" using calm_read [OF assms(1)] by blast
  have len: "length v \<le> max_setup_file_bytes" if "o1 = Some v" for v using m(1) that by (simp add: content_ok_def)
  have "\<exists>u. (if c = o1 then io_return () else if \<not> (case update_of E t of
                    Present h \<Rightarrow> (case c of None \<Rightarrow> False | Some v \<Rightarrow> hash E v = h)
                  | Absent \<Rightarrow> c = None)
       then io_fail (Err_Cannot_Recover p)
       else case o1 of Some v \<Rightarrow> (case c of None \<Rightarrow> write_if_changed p '' '' v | Some w \<Rightarrow> write_if_changed p w v)
         | None \<Rightarrow> remove_if_exists p) s = (Done (), u) \<and> calm u"
    using calm_write [OF assms(1) c(1) len] calm_remove [OF assms(1) c(1)] c(3) assms(1)
    by (auto simp: io_return_def update_of_def split: option.splits)
  then show ?thesis by (simp add: restore_path_def io_bind_def read)
qed

lemma calm_restore_entries:
  assumes ok: "plan_changes_ok cs"
  shows "set es \<subseteq> set cs \<Longrightarrow> calm s \<Longrightarrow> running_at fs0 cs (set cs) j s \<Longrightarrow>
    \<exists>u. io_each (\<lambda>e. restore_path E (je_path e) (je_original e) (je_updated e)) (map (entry_of E) es) s = (Done (), u) \<and> calm u"
proof (induction es arbitrary: s)
  case Nil
  then show ?case by (simp add: io_return_def)
next
  case (Cons c es)
  obtain p o1 t where c: "c = (p, o1, t)" by (cases c)
  have f: "restore_path E (je_path (entry_of E c)) (je_original (entry_of E c)) (je_updated (entry_of E c)) =
      restore_path E p o1 (update_of E t)" by (simp add: c entry_of_def)
  have mem: "(p, o1, t) \<in> set cs" using Cons.prems c by simp
  obtain u where u: "restore_path E p o1 (update_of E t) s = (Done (), u)" "calm u"
    using calm_restore [OF Cons.prems(2,3) ok mem] by blast
  then have "running_at fs0 cs (set cs - {(p, o1, t)}) j u"
    using tripleD [OF triple_restore [OF ok mem, of fs0 "set cs" j E] Cons.prems(3)] by simp
  then have "running_at fs0 cs (set cs) j u" by (rule running_mono) auto
  then show ?case using Cons.IH [OF _ u(2)] Cons.prems by (simp add: f u io_then_def io_bind_def)
qed

lemma calm_remove_journal: "calm s \<Longrightarrow> remove_journal s = (Done (), s\<lparr>journal := None\<rparr>)"
  by (simp add: remove_journal_def on_journal_def calm_def next_fault_def io_faulty_def)

lemma calm_recover_settled:
  assumes "settled E fs s" "calm s"
  shows "\<exists>u. recover_interrupted_transaction E s = (Done (), u)"
  using assms calm_remove_journal [of s]
  by (auto simp: recover_interrupted_transaction_def settled_def closed_def io_bind_def get_journal_def io_return_def
      split: option.splits journal_file.splits)

lemma calm_recover:
  assumes ok: "plan_changes_ok cs" and s: "safe E fs0 cs s" "calm s"
  shows "\<exists>u. recover_interrupted_transaction E s = (Done (), u)"
proof (cases "settled E fs0 s")
  case True
  then show ?thesis using calm_recover_settled s(2) by blast
next
  case False
  then have r: "running_at fs0 cs (set cs) (pending_file E cs) s" "journal_bytes E (journal_for E cs) \<le> max_setup_journal_bytes"
    using s(1) by (auto simp: safe_def recoverable_def)
  obtain u where "io_each (\<lambda>e. restore_path E (je_path e) (je_original e) (je_updated e)) (map (entry_of E) cs) s = (Done (), u)"
    "calm u" using calm_restore_entries [OF ok _ s(2) r(1), of cs E] by blast
  then show ?thesis using r calm_remove_journal [of u]
    by (simp add: recover_interrupted_transaction_def io_bind_def io_then_def get_journal_def running_at_def)
qed

section \<open>Interrupted recoveries\<close>

type_synonym script = "fault list \<times> fault list"

text \<open>Runs of \<open>recover_interrupted_transaction\<close>, each under its own script.\<close>

definition under :: "script \<Rightarrow> setup_fs \<Rightarrow> setup_fs" where
  "under sc s = s\<lparr>file_faults := fst sc, journal_faults := snd sc\<rparr>"

fun recovery_attempts :: "setup_env \<Rightarrow> script list \<Rightarrow> setup_fs \<Rightarrow> setup_fs" where
  "recovery_attempts E [] s = s"
| "recovery_attempts E (sc # scs) s = recovery_attempts E scs (snd (recover_interrupted_transaction E (under sc s)))"

definition undisturbed :: script where "undisturbed = ([], [])"

definition script_ok :: "script \<Rightarrow> bool" where
  "script_ok sc \<longleftrightarrow> Fail_After \<notin> set (snd sc)"

lemma settled_under: "settled E fs s \<Longrightarrow> settled E fs (under sc s)"
  by (simp add: settled_def closed_def under_def)

lemma safe_under: "safe E fs0 cs s \<Longrightarrow> script_ok sc \<Longrightarrow> safe E fs0 cs (under sc s)"
  using settled_under [of E fs0 s sc] unfolding safe_def
  by (elim disjE) (auto simp: recoverable_def running_at_def script_ok_def mixed_def under_def)

lemma calm_under: "calm (under undisturbed s)"
  by (simp add: calm_def under_def undisturbed_def)

lemma settled_end:
  assumes "triple P (m :: unit setup_io) (\<lambda>_ s. files s = fs \<and> journal s = None) F C" "P s"
    "\<And>t. F t \<Longrightarrow> S t" "\<And>t. C t \<Longrightarrow> S t" "\<And>t. files t = fs \<Longrightarrow> journal t = None \<Longrightarrow> S t"
  shows "S (snd (m s))"
  using tripleD [OF assms(1,2)] assms(3-) by (auto split: prod.splits ending.splits)

lemma attempts_settled: "settled E fs s \<Longrightarrow> settled E fs (recovery_attempts E scs s)"
proof (induction scs arbitrary: s)
  case (Cons sc scs)
  have "settled E fs (snd (recover_interrupted_transaction E (under sc s)))"
    by (rule settled_end [OF triple_recover_settled settled_under [OF Cons.prems]])
      (auto simp: settled_def closed_def)
  then show ?case using Cons.IH by simp
qed simp

lemma attempts_safe:
  assumes "plan_changes_ok cs"
  shows "safe E fs0 cs s \<Longrightarrow> list_all script_ok scs \<Longrightarrow> safe E fs0 cs (recovery_attempts E scs s)"
proof (induction scs arbitrary: s)
  case (Cons sc scs)
  then have "safe E fs0 cs (under sc s)" by (simp add: safe_under)
  then have "safe E fs0 cs (snd (recover_interrupted_transaction E (under sc s)))"
    by (rule settled_end [OF triple_recover [OF assms]])
      (auto simp: safe_def settled_def closed_def)
  then show ?case using Cons by simp
qed simp

lemma recovers_settled:
  assumes "settled E fs s"
  shows "\<exists>u. recover_interrupted_transaction E (under undisturbed (recovery_attempts E scs s)) = (Done (), u)
    \<and> files u = fs \<and> journal u = None"
proof -
  have st: "settled E fs (under undisturbed (recovery_attempts E scs s))"
    using assms by (simp add: attempts_settled settled_under)
  then show ?thesis using calm_recover_settled [OF st calm_under] tripleD [OF triple_recover_settled st] by auto
qed

lemma recovers_safe:
  assumes "plan_changes_ok cs" "safe E fs0 cs s" "list_all script_ok scs"
  shows "\<exists>u. recover_interrupted_transaction E (under undisturbed (recovery_attempts E scs s)) = (Done (), u)
    \<and> files u = fs0 \<and> journal u = None"
proof -
  have st: "safe E fs0 cs (under undisturbed (recovery_attempts E scs s))"
    using assms by (simp add: attempts_safe safe_under script_ok_def undisturbed_def)
  then show ?thesis using calm_recover [OF assms(1) st calm_under] tripleD [OF triple_recover [OF assms(1)] st] by auto
qed

section \<open>The claims\<close>

text \<open>C3: Setup is atomic under crashes.  Take a plan that changes every path at most once, writes only
  UTF-8 texts, creates no empty file and removes no file whose whole content is a single space (the content
  that \<open>restore_path\<close> takes for the sentinel of a missing file); let no journal be on disk; and take
  a run of \<open>apply_plan\<close> in which any file operation and any journal operation may fail or stop the
  machine, before or after its effect, except that a journal operation does not fail after its effect (the
  directory sync after the journal file was replaced or removed).  Let recovery then be attempted any number of times, each attempt
  under faults of its own with the same exception, and once more undisturbed.  That last recovery succeeds, removes the
  journal, and leaves every file of the machine either as before setup or, for all changes together,
  at the planned contents; the planned contents when setup had reported success, and the original
  ones when it had reported an error.\<close>

theorem setup_all_or_nothing:
  assumes "plan_ok plan" "journal s = None" "Fail_After \<notin> set (journal_faults s)" "list_all script_ok scs"
  shows "\<exists>u. recover_interrupted_transaction E
      (under undisturbed (recovery_attempts E scs (snd (apply_plan E plan s)))) = (Done (), u) \<and>
    journal u = None \<and>
    (case fst (apply_plan E plan s) of
       Done out \<Rightarrow> files u = (if ao_error out = None then with_targets (plan_changes plan) (files s) else files s)
     | Failed _ \<Rightarrow> False
     | Crashed \<Rightarrow> files u = files s \<or> files u = with_targets (plan_changes plan) (files s))"
proof -
  let ?cs = "plan_changes plan"
  have ok: "plan_changes_ok ?cs" using assms(1) by (simp add: plan_ok_def plan_changes_ok_def)
  obtain r t where run: "apply_plan E plan s = (r, t)" by (cases "apply_plan E plan s")
  have "fresh (files s) s" using assms(2,3) by (simp add: fresh_def)
  note t = tripleD [OF triple_apply_plan [OF assms(1)] this, of E, unfolded run prod.case]
  note restored = recovers_safe [OF ok _ assms(4), of E "files s"]
  show ?thesis
  proof (cases r)
    case (Done out)
    then have out: "applied_state E (files s) ?cs (ao_error out) t" using t by simp
    show ?thesis
    proof (cases "ao_error out")
      case None
      then have "settled E (with_targets ?cs (files s)) t" using out by (simp add: applied_state_def)
      from recovers_settled [OF this] show ?thesis using run Done None by auto
    next
      case (Some err)
      then have "safe E (files s) ?cs t" using out by (auto simp: applied_state_def safe_def split: apply_failure.splits)
      from restored [OF this] show ?thesis using run Done Some by auto
    qed
  next
    case (Failed e)
    then show ?thesis using t by simp
  next
    case Crashed
    then have "safe E (files s) ?cs t \<or> settled E (with_targets ?cs (files s)) t" using t by simp
    then show ?thesis using recovers_settled [of E _ t scs] restored [of t] run Crashed by auto
  qed
qed

text \<open>C30: What \<open>apply_plan\<close> reports is true.  The plan, the journal and the faults are as for atomicity: one
  change per path, UTF-8 texts, no empty new file, no removal of a file that is a single space, no
  journal on disk at the start, and no journal operation that fails after its effect.  Then the run ends with a result
  unless the machine stops; a result without an error means that every change is on disk and committed; an
  error that does not ask for recovery, or says that everything was rolled back, means that the files are as
  they were before and that no uncommitted journal is left; an error that asks for recovery, and a stop of the machine,
  leave a state from which recovery brings back the original files, or after a stop possibly the completed setup.\<close>

theorem setup_reports_truth:
  assumes "plan_ok plan" "journal s = None" "Fail_After \<notin> set (journal_faults s)"
  shows "case apply_plan E plan s of
      (Done out, t) \<Rightarrow>
        (case ao_error out of
           None \<Rightarrow> settled E (with_targets (plan_changes plan) (files s)) t
         | Some (Needs_Recovery _ _) \<Rightarrow> safe E (files s) (plan_changes plan) t
         | Some _ \<Rightarrow> settled E (files s) t)
    | (Failed _, t) \<Rightarrow> False
    | (Crashed, t) \<Rightarrow> safe E (files s) (plan_changes plan) t \<or> settled E (with_targets (plan_changes plan) (files s)) t"
proof -
  have "fresh (files s) s" using assms(2,3) by (simp add: fresh_def)
  from tripleD [OF triple_apply_plan [OF assms(1)] this, of E] show ?thesis
    unfolding applied_state_def .
qed

text \<open>C7: Restoring a path never destroys somebody else's edit.  Whatever faults happen, either no file
  changes, or the path held exactly what setup had put there (a text with the recorded hash, or
  nothing after a removal) and now holds its original content.\<close>

theorem restore_preserves_foreign:
  "files (snd (restore_path E p o1 upd s)) = files s \<or>
   (case (upd, files s p) of
      (Present h, Some (Regular v)) \<Rightarrow> hash E v = h
    | (Absent, None) \<Rightarrow> True
    | _ \<Rightarrow> False) \<and>
   files (snd (restore_path E p o1 upd s)) = (files s)(p := node_of o1)"
proof -
  let ?P = "\<lambda>t. files t = files s" and ?R = "\<lambda>t. files t = (files s)(p := node_of o1)"
  define M where "M \<longleftrightarrow> (case (upd, files s p) of (Present h, Some (Regular v)) \<Rightarrow> hash E v = h
    | (Absent, None) \<Rightarrow> True | _ \<Rightarrow> False)"
  let ?F = "\<lambda>t. ?P t \<or> M \<and> ?R t"
  have ins: "insensitive ?P" "insensitive ?F" "insensitive (\<lambda>t. ?P t \<and> files t p = node_of c \<and> content_ok c)" for c
    by (simp_all add: insensitive_def)
  have body: "triple (\<lambda>t. ?P t \<and> files t p = node_of cur \<and> content_ok cur)
      (if cur = o1 then io_return ()
       else if \<not> (case upd of Present h \<Rightarrow> (case cur of None \<Rightarrow> False | Some v \<Rightarrow> hash E v = h) | Absent \<Rightarrow> cur = None)
       then io_fail (Err_Cannot_Recover p)
       else case o1 of
           Some v \<Rightarrow> (case cur of None \<Rightarrow> write_if_changed p '' '' v | Some w \<Rightarrow> write_if_changed p w v)
         | None \<Rightarrow> remove_if_exists p) (\<lambda>_. ?F) ?F ?F" (is "triple ?pre ?m _ _ _") for cur
  proof (cases "cur = o1 \<or> \<not> (case upd of Present h \<Rightarrow> (case cur of None \<Rightarrow> False | Some v \<Rightarrow> hash E v = h) | Absent \<Rightarrow> cur = None)")
    case True
    then show ?thesis by (auto intro!: triple_return triple_fail)
  next
    case False
    have M: "M" if "?pre t" for t
    proof -
      have "files s p = node_of cur" using that by metis
      then show ?thesis using False by (auto simp: M_def node_of_def split: update.splits option.splits)
    qed
    have w: "triple ?pre (write_if_changed p v u) (\<lambda>_. ?F) ?F ?F" if "o1 = Some u" for v u
      by (rule triple_write [OF ins(3) ins(2,2)]) (use M that in auto)
    have r: "triple ?pre (remove_if_exists p) (\<lambda>_. ?F) ?F ?F" if "o1 = None"
      by (rule triple_remove [OF ins(3) ins(2,2)]) (use M that in auto)
    show ?thesis using False w r by (auto split: option.split)
  qed
  have "triple ?P (restore_path E p o1 upd) (\<lambda>_. ?F) ?F ?F"
    unfolding restore_path_def
    by (rule triple_bind [OF _ body], rule triple_weaken [OF triple_read_optional [OF ins(1)]]) auto
  from tripleD [OF this, of s] have "?F (snd (restore_path E p o1 upd s))" by (auto split: prod.splits ending.splits)
  then show ?thesis unfolding M_def .
qed

section \<open>A plan as an example\<close>

definition sample_env :: setup_env where
  "sample_env = \<lparr>hash = (\<lambda>s. s), journal_bytes = (\<lambda>_. 100)\<rparr>"

definition sample_plan :: setup_plan where
  "sample_plan = \<lparr>sp_runtime = None, sp_runtime_rollback = Inr (),
     sp_edits = [\<lparr>ce_path = ''a'', ce_resolution = Updated (Some ''1'') ''2''\<rparr>,
                 \<lparr>ce_path = ''b'', ce_resolution = Configured None ''3''\<rparr>],
     sp_discovery_edits = [\<lparr>de_path = ''c'', de_action = Act_Remove, de_original = Some ''4'', de_updated = None\<rparr>],
     sp_snapshots = [(''a'', Some ''1'')]\<rparr>"

definition sample_fs :: "fault list \<Rightarrow> fault list \<Rightarrow> setup_fs" where
  "sample_fs ff jf = \<lparr>files = (\<lambda>p. if p = ''a'' then Some (Regular ''1'') else if p = ''c'' then Some (Regular ''4'') else None),
     journal = None, file_faults = ff, journal_faults = jf\<rparr>"

lemma sample_plan_ok: "plan_ok sample_plan"
  by code_simp

lemma sample_stopped:
  "fst (apply_plan sample_env sample_plan (sample_fs (replicate 8 No_Fault @ [Crash_After]) [])) = Crashed \<and>
   files (snd (apply_plan sample_env sample_plan (sample_fs (replicate 8 No_Fault @ [Crash_After]) []))) ''a'' = Some (Regular ''2'')"
  by code_simp

theorem setup_all_or_nothing_witness:
  "let s = sample_fs (replicate 8 No_Fault @ [Crash_After]) [];
       r = apply_plan sample_env sample_plan s;
       scs = [([No_Fault, Crash_Before], [])] in
   fst r = Crashed \<and> files (snd r) ''a'' = Some (Regular ''2'') \<and>
   (\<exists>u. recover_interrupted_transaction sample_env (under undisturbed (recovery_attempts sample_env scs (snd r))) = (Done (), u) \<and>
     journal u = None \<and> (files u = files s \<or> files u = with_targets (plan_changes sample_plan) (files s)))"
proof -
  let ?s = "sample_fs (replicate 8 No_Fault @ [Crash_After]) []"
  have "journal ?s = None" "Fail_After \<notin> set (journal_faults ?s)" "list_all script_ok [([No_Fault, Crash_Before], [])]"
    by (simp_all add: sample_fs_def script_ok_def)
  from setup_all_or_nothing [OF sample_plan_ok this, of sample_env] show ?thesis
    using sample_stopped by (simp add: Let_def)
qed

lemma sample_rolled_back:
  "fst (apply_plan sample_env sample_plan (sample_fs (replicate 9 No_Fault @ [Fail_After]) [])) =
     Done (failed_outcome sample_plan (Rolled_Back Err_Io))"
  by code_simp

theorem setup_reports_truth_witness:
  "settled sample_env (files (sample_fs [] []))
     (snd (apply_plan sample_env sample_plan (sample_fs (replicate 9 No_Fault @ [Fail_After]) [])))"
proof -
  let ?s = "sample_fs (replicate 9 No_Fault @ [Fail_After]) []"
  have "journal ?s = None" "Fail_After \<notin> set (journal_faults ?s)" by (simp_all add: sample_fs_def)
  from setup_reports_truth [OF sample_plan_ok this, of sample_env]
  have "settled sample_env (files ?s) (snd (apply_plan sample_env sample_plan ?s))"
    using sample_rolled_back by (simp add: failed_outcome_def case_prod_beta)
  moreover have "files ?s = files (sample_fs [] [])" by (simp add: sample_fs_def)
  ultimately show ?thesis by simp
qed

section \<open>The sentinel\<close>

text \<open>The sentinel that stands for a missing file does not differ from every original.\<close>

theorem blank_original_not_restored:
  assumes "calm s" "files s p = None"
  shows "restore_path E p (Some '' '') Absent s = (Done (), s)"
proof -
  have "read_optional p s = (Done None, s)" by (rule calm_read) (use assms in \<open>simp_all add: content_ok_def\<close>)
  then show ?thesis using calm_reject [OF assms(1), of p] assms(2)
    by (simp add: restore_path_def write_if_changed_def io_bind_def io_then_def io_return_def max_setup_file_bytes_def)
qed

theorem blank_original_not_restored_witness:
  "fst (restore_path sample_env ''b'' (Some '' '') Absent (sample_fs [] [])) = Done ()"
proof -
  have "calm (sample_fs [] [])" "files (sample_fs [] []) ''b'' = None" by (simp_all add: calm_def sample_fs_def)
  then show ?thesis by (simp add: blank_original_not_restored)
qed

end
