(* ===== verification/Setup_Gap.thy ===== *)
theory Setup_Gap
  imports Setup_Atomic
begin

text \<open>
  Why atomicity assumes that no journal operation fails after its effect.  When the directory sync fails after
  the committed journal has replaced the pending one, \<open>apply_plan\<close> rolls back under a journal that
  says committed.  A stop of the machine during that rollback leaves a mixture of old and new files,
  which recovery keeps.  The theory shows this for every plan that setup can apply and for every
  point of the rollback, by following a run under a script of faults.
\<close>

section \<open>Runs under a script\<close>

lemma under_simps [simp]:
  "files (under sc s) = files s" "journal (under sc s) = journal s" "under sc (under sc' s) = under sc s"
  "file_faults (under sc s) = fst sc" "journal_faults (under sc s) = snd sc"
  "under sc (s\<lparr>files := fs\<rparr>) = (under sc s)\<lparr>files := fs\<rparr>" "under sc (s\<lparr>journal := j\<rparr>) = (under sc s)\<lparr>journal := j\<rparr>"
  by (simp_all add: under_def)

lemma calm_under_nil: "calm s \<Longrightarrow> under ([], []) s = s"
  by (cases s) (simp add: calm_def under_def)

lemma calm_updates [simp]: "calm (s\<lparr>files := fs\<rparr>) = calm s" "calm (s\<lparr>journal := j\<rparr>) = calm s"
  by (simp_all add: calm_def)

text \<open>A script whose first faults are none.\<close>

definition padded :: "nat \<Rightarrow> nat \<Rightarrow> script \<Rightarrow> script" where
  "padded nf nj sc = (replicate nf No_Fault @ fst sc, replicate nj No_Fault @ snd sc)"

lemma padded_padded: "padded nf nj (padded mf mj sc) = padded (nf + mf) (nj + mj) sc"
  by (simp add: padded_def replicate_add)

lemma padded_zero [simp]: "padded 0 0 sc = sc"
  by (simp add: padded_def)

text \<open>The program \<open>m\<close> goes on from \<open>s\<close> as \<open>m'\<close> from \<open>t\<close>, whatever the script holds after some steps without a fault.\<close>

definition leads :: "'a setup_io \<Rightarrow> setup_fs \<Rightarrow> 'a setup_io \<Rightarrow> setup_fs \<Rightarrow> bool" where
  "leads m s m' t \<longleftrightarrow> (\<exists>nf nj. \<forall>sc. m (under (padded nf nj sc) s) = m' (under sc t))"

definition follows :: "'a setup_io \<Rightarrow> setup_fs \<Rightarrow> (setup_error, 'a) ending \<Rightarrow> setup_fs \<Rightarrow> bool" where
  "follows m s r t \<longleftrightarrow> (\<exists>nf nj. \<forall>sc. m (under (padded nf nj sc) s) = (r, under sc t))"

lemma leads_trans:
  assumes "leads m s m' t" "leads m' t m'' u"
  shows "leads m s m'' u"
proof -
  obtain nf nj mf mj where "m (under (padded nf nj sc) s) = m' (under sc t)" "m' (under (padded mf mj sc) t) = m'' (under sc u)" for sc
    using assms unfolding leads_def by blast
  then have "m (under (padded (nf + mf) (nj + mj) sc) s) = m'' (under sc u)" for sc
    unfolding padded_padded [symmetric] by simp
  then show ?thesis unfolding leads_def by blast
qed

lemma leads_bind:
  assumes "follows m s (Done a) t"
  shows "leads (io_bind m f) s (f a) t"
proof -
  obtain nf nj where "m (under (padded nf nj sc) s) = (Done a, under sc t)" for sc using assms unfolding follows_def by blast
  then have "io_bind m f (under (padded nf nj sc) s) = f a (under sc t)" for sc by (simp add: io_bind_def)
  then show ?thesis unfolding leads_def by blast
qed

lemma leads_follows:
  assumes "leads m s m' t" "follows m' t r u"
  shows "follows m s r u"
proof -
  obtain nf nj mf mj where "m (under (padded nf nj sc) s) = m' (under sc t)" "m' (under (padded mf mj sc) t) = (r, under sc u)" for sc
    using assms unfolding leads_def follows_def by blast
  then have "m (under (padded (nf + mf) (nj + mj) sc) s) = (r, under sc u)" for sc
    unfolding padded_padded [symmetric] by simp
  then show ?thesis unfolding follows_def by blast
qed

lemma follows_stop:
  assumes "follows m s r t"
  shows "r = Failed e \<Longrightarrow> follows (io_bind m f) s (Failed e) t" "r = Crashed \<Longrightarrow> follows (io_bind m f) s Crashed t"
    "follows (io_try m) s (case r of Done a \<Rightarrow> Done (Inr a) | Failed e \<Rightarrow> Done (Inl e) | Crashed \<Rightarrow> Crashed) t"
proof -
  obtain nf nj where m: "m (under (padded nf nj sc) s) = (r, under sc t)" for sc using assms unfolding follows_def by blast
  have "io_bind m f (under (padded nf nj sc) s) = (Failed e, under sc t)" if "r = Failed e" for sc
    using m that by (simp add: io_bind_def)
  then show "r = Failed e \<Longrightarrow> follows (io_bind m f) s (Failed e) t" unfolding follows_def by blast
  have "io_bind m f (under (padded nf nj sc) s) = (Crashed, under sc t)" if "r = Crashed" for sc
    using m that by (simp add: io_bind_def)
  then show "r = Crashed \<Longrightarrow> follows (io_bind m f) s Crashed t" unfolding follows_def by blast
  have "io_try m (under (padded nf nj sc) s) =
      (case r of Done a \<Rightarrow> Done (Inr a) | Failed e \<Rightarrow> Done (Inl e) | Crashed \<Rightarrow> Crashed, under sc t)" for sc
    using m by (simp add: io_try_def split: ending.split)
  then show "follows (io_try m) s (case r of Done a \<Rightarrow> Done (Inr a) | Failed e \<Rightarrow> Done (Inl e) | Crashed \<Rightarrow> Crashed) t"
    unfolding follows_def by blast
qed

text \<open>Programs that treat a script of no faults like the end of the script.\<close>

definition scripted :: "'a setup_io \<Rightarrow> bool" where
  "scripted m \<longleftrightarrow> (\<forall>s. calm s \<longrightarrow> calm (snd (m s)) \<and> follows m s (fst (m s)) (snd (m s)))"

named_theorems scripted_rules \<open>programs that follow a script\<close>

lemma scriptedD: "scripted m \<Longrightarrow> calm s \<Longrightarrow> m s = (r, t) \<Longrightarrow> calm t \<and> follows m s r t"
  unfolding scripted_def by (metis fst_conv snd_conv)

lemma scripted_pure:
  assumes "\<And>s. \<exists>r. \<forall>sc. m (under sc s) = (r, under sc s)"
  shows "scripted m"
  unfolding scripted_def
proof (intro allI impI)
  fix s assume s: "calm s"
  obtain r where r: "\<And>sc. m (under sc s) = (r, under sc s)" using assms by blast
  have "m s = (r, s)" using r [of "([], [])"] calm_under_nil [OF s] by simp
  then show "calm (snd (m s)) \<and> follows m s (fst (m s)) (snd (m s))"
    using s r unfolding follows_def by (metis fst_conv snd_conv padded_zero)
qed

lemma scripted_basic [scripted_rules]:
  "scripted (io_return a)" "scripted (io_fail e)" "scripted get_files" "scripted get_journal" "scripted (io_lift r)"
  by (rule scripted_pure, simp add: io_return_def io_fail_def get_files_def get_journal_def io_lift_def split: sum.split)+

lemma scriptedI:
  assumes "\<And>s. calm s \<Longrightarrow> \<exists>r t. m s = (r, t) \<and> calm t \<and> follows m s r t"
  shows "scripted m"
  using assms unfolding scripted_def by (metis fst_conv snd_conv)

lemma scripted_on_files [scripted_rules]: "scripted (on_files eff)"
proof (rule scriptedI)
  fix s assume s: "calm s"
  have "on_files eff (under (padded 1 0 sc) s) = (Done (), under sc (s\<lparr>files := eff (files s)\<rparr>))" for sc
    by (cases s) (simp add: on_files_def padded_def under_def next_fault_def io_faulty_def)
  then have "follows (on_files eff) s (Done ()) (s\<lparr>files := eff (files s)\<rparr>)" unfolding follows_def by blast
  then show "\<exists>r t. on_files eff s = (r, t) \<and> calm t \<and> follows (on_files eff) s r t" using s calm_on_files [OF s] by simp
qed

lemma calm_on_journal: "calm s \<Longrightarrow> on_journal eff s = (Done (), s\<lparr>journal := eff (journal s)\<rparr>)"
  by (simp add: on_journal_def calm_def next_fault_def io_faulty_def)

lemma scripted_on_journal [scripted_rules]: "scripted (on_journal eff)"
proof (rule scriptedI)
  fix s assume s: "calm s"
  have "on_journal eff (under (padded 0 1 sc) s) = (Done (), under sc (s\<lparr>journal := eff (journal s)\<rparr>))" for sc
    by (cases s) (simp add: on_journal_def padded_def under_def next_fault_def io_faulty_def)
  then have "follows (on_journal eff) s (Done ()) (s\<lparr>journal := eff (journal s)\<rparr>)" unfolding follows_def by blast
  then show "\<exists>r t. on_journal eff s = (r, t) \<and> calm t \<and> follows (on_journal eff) s r t" using s calm_on_journal [OF s] by simp
qed

lemma scripted_bind [scripted_rules]:
  assumes "scripted m" "\<And>a. scripted (f a)"
  shows "scripted (io_bind m f)"
proof (rule scriptedI)
  fix s assume s: "calm s"
  obtain r t where m: "m s = (r, t)" by (cases "m s")
  have t: "calm t" "follows m s r t" using scriptedD [OF assms(1) s m] by auto
  show "\<exists>r t. io_bind m f s = (r, t) \<and> calm t \<and> follows (io_bind m f) s r t"
  proof (cases r)
    case (Done a)
    obtain q u where f: "f a t = (q, u)" by (cases "f a t")
    have "calm u" "follows (f a) t q u" using scriptedD [OF assms(2) t(1) f] by auto
    then show ?thesis using leads_follows [OF leads_bind] t(2) Done m f by (fastforce simp: io_bind_def)
  qed (use t m follows_stop in \<open>fastforce simp: io_bind_def\<close>)+
qed

lemma scripted_then [scripted_rules]: "scripted m \<Longrightarrow> scripted n \<Longrightarrow> scripted (io_then m n)"
  unfolding io_then_def by (rule scripted_bind)

lemma scripted_try [scripted_rules]:
  assumes "scripted m" shows "scripted (io_try m)"
proof (rule scriptedI)
  fix s assume s: "calm s"
  obtain r t where m: "m s = (r, t)" by (cases "m s")
  have "calm t" "follows m s r t" using scriptedD [OF assms s m] by auto
  then show "\<exists>r t. io_try m s = (r, t) \<and> calm t \<and> follows (io_try m) s r t"
    using m follows_stop(3) [of m s r t] by (cases r) (auto simp: io_try_def)
qed

lemma scripted_each [scripted_rules]: "(\<And>x. scripted (f x)) \<Longrightarrow> scripted (io_each f xs)"
  by (induction xs) (auto intro!: scripted_rules)

lemma scripted_file_programs [scripted_rules]:
  "scripted (reject_symlink_target p)" "scripted (read_optional p)" "scripted (write_if_changed p v u)"
  "scripted (remove_if_exists p)" "scripted (check_unchanged p o1)" "scripted (restore_path E p o1 upd)"
proof -
  show r: "scripted (reject_symlink_target p)" for p
    unfolding reject_symlink_target_def by (auto intro!: scripted_rules)
  show d: "scripted (read_optional p)" for p
    unfolding read_optional_def by (auto intro!: scripted_rules r split: option.split node.split)
  show w: "scripted (write_if_changed p v u)" for p v u
    unfolding write_if_changed_def by (auto intro!: scripted_rules r)
  show m: "scripted (remove_if_exists p)" for p
    unfolding remove_if_exists_def by (auto intro!: scripted_rules r split: option.split node.split)
  show "scripted (check_unchanged p o1)" unfolding check_unchanged_def by (auto intro!: scripted_rules d)
  show "scripted (restore_path E p o1 upd)" unfolding restore_path_def
    by (auto intro!: scripted_rules d w m split: option.split)
qed

lemma scripted_edits [scripted_rules]:
  "scripted (apply_edit e)" "scripted (apply_discovery_edit d)" "scripted (preflight plan)"
  "scripted (begin_setup_transaction E plan)"
  unfolding apply_edit_def apply_discovery_edit_def preflight_def preflight_configuration_snapshots_def preflight_edits_def
    preflight_discovery_def begin_setup_transaction_def serialize_journal_def Let_def
  by (auto intro!: scripted_rules split: option.split plan_action.split)

lemma scripted_run_edits [scripted_rules]:
  assumes "\<And>e. scripted (f e)" shows "scripted (run_edits active f es ap)"
  by (induction es arbitrary: ap) (auto intro!: scripted_rules assms simp: Let_def split: sum.split)

lemma scripted_restore_all [scripted_rules]:
  assumes "\<And>e. scripted (f e)" shows "scripted (restore_all f es fl)"
  by (induction es arbitrary: fl) (auto intro!: scripted_rules assms)

section \<open>The restored changes\<close>

definition edit_change :: "client_edit \<Rightarrow> change" where
  "edit_change e = (ce_path e, edit_original (ce_resolution e), edit_updated (ce_resolution e))"

definition restore_change :: "setup_env \<Rightarrow> change \<Rightarrow> unit setup_io" where
  "restore_change E c = (case c of (p, o1, t) \<Rightarrow> restore_path E p o1 (update_of E t))"

lemma active_edit_changes: "\<forall>e \<in> set es. edit_active e \<Longrightarrow> edit_changes es = map edit_change es"
  by (induction es) (auto simp: edit_active_def edit_change_def)

lemma active_discovery_changes: "\<forall>d \<in> set ds. discovery_active d \<Longrightarrow> discovery_changes ds = map discovery_change ds"
  by (simp add: discovery_changes_def filter_id_conv)

lemma restore_edit_change: "edit_active e \<Longrightarrow> restore_edit E e = restore_change E (edit_change e)"
  by (auto simp: edit_active_def restore_edit_def restore_change_def edit_change_def update_of_def)

lemma restore_discovery_change:
  "discovery_active d \<Longrightarrow> de_action d = Act_Remove \<or> de_updated d \<noteq> None \<Longrightarrow>
     restore_discovery_edit E d = restore_change E (discovery_change d)"
  by (cases "de_action d")
    (auto simp: discovery_active_def restore_discovery_edit_def restore_change_def discovery_change_def update_of_def or_default_def)

lemma discovery_entries_updated:
  "discovery_entries E ds = Inr es \<Longrightarrow> d \<in> set ds \<Longrightarrow> discovery_active d \<Longrightarrow> de_action d = Act_Remove \<or> de_updated d \<noteq> None"
proof (induction ds arbitrary: es)
  case (Cons x ds)
  then show ?case
    by (cases "de_action x") (auto simp: discovery_active_def Let_def split: sum.splits option.splits)
qed simp

lemma run_edits_active:
  "run_edits active f es acc s = (Done (ap, err), t) \<Longrightarrow> \<forall>x \<in> set acc. active x \<Longrightarrow> \<forall>x \<in> set ap. active x"
proof (induction es arbitrary: acc s)
  case Nil
  then show ?case by (simp add: io_steps)
next
  case (Cons e es)
  let ?acc = "if active e then acc @ [e] else acc"
  have "io_bind (io_try (f e)) (\<lambda>r. case r of Inl err \<Rightarrow> io_return (?acc, Some err) | Inr _ \<Rightarrow> run_edits active f es ?acc) s =
      (Done (ap, err), t)" using Cons.prems(1) by (simp add: Let_def)
  then obtain r :: "setup_error + unit" and u where r: "(case r of Inl err \<Rightarrow> io_return (?acc, Some err) | Inr _ \<Rightarrow> run_edits active f es ?acc) u = (Done (ap, err), t)"
    by (rule io_bind_Done)
  have acc: "\<forall>x \<in> set ?acc. active x" using Cons.prems(2) by auto
  show ?case
  proof (cases r)
    case (Inl e)
    then have ap: "ap = ?acc" using r unfolding Inl sum.case io_return_def by blast
    show ?thesis unfolding ap by (rule acc)
  next
    case (Inr x)
    show ?thesis by (rule Cons.IH [OF r [unfolded Inr sum.case] acc])
  qed
qed

text \<open>An undisturbed restore of a change that is on disk puts its original back.\<close>

lemma restore_change_calm:
  assumes "calm s" "files s p = node_of t" "content_ok t" "content_ok o1" "change_ok (p, o1, t)"
  shows "restore_change E (p, o1, t) s = (Done (), s\<lparr>files := (files s)(p := node_of o1)\<rparr>)"
proof -
  have wr: "write_if_changed p v u s = (Done (), s\<lparr>files := (files s)(p \<mapsto> Regular u)\<rparr>)"
    if "v \<noteq> u" "length u \<le> max_setup_file_bytes" for v u
    using that assms(1,2) by (simp add: write_if_changed_def io_then_def io_bind_def calm_reject get_files_def calm_on_files)
  have rm: "remove_if_exists p s = (Done (), s\<lparr>files := (files s)(p := None)\<rparr>)" if "t \<noteq> None"
    using that assms(1,2)
    by (auto simp: remove_if_exists_def io_then_def io_bind_def calm_reject get_files_def calm_on_files)
  have "files s p = node_of o1 \<Longrightarrow> s\<lparr>files := (files s)(p := node_of o1)\<rparr> = s" by (simp add: fun_upd_idem)
  then show ?thesis using assms wr rm
    by (cases t; cases o1)
      (auto simp: restore_change_def restore_path_def io_bind_def calm_read io_return_def update_of_def content_ok_def change_ok_def)
qed

lemma with_targets_snoc: "with_targets (cs @ [(p, o1, t)]) fs = (with_targets cs fs)(p := node_of t)"
  by (simp add: with_targets_def)

lemma with_targets_other: "p \<notin> fst ` set cs \<Longrightarrow> with_targets cs fs p = fs p"
  by (induction cs rule: rev_induct) (auto simp: with_targets_def)

definition restorable :: "(string \<Rightarrow> node option) \<Rightarrow> change list \<Rightarrow> bool" where
  "restorable fs0 cs \<longleftrightarrow> distinct (map fst cs) \<and>
     (\<forall>(p, o1, t) \<in> set cs. fs0 p = node_of o1 \<and> content_ok o1 \<and> content_ok t \<and> change_ok (p, o1, t))"

lemma restore_last:
  assumes "restorable fs0 (cs @ [c])" "calm s" "files s = with_targets (cs @ [c]) fs0"
  shows "restore_change E c s = (Done (), s\<lparr>files := with_targets cs fs0\<rparr>)"
proof -
  obtain p o1 t where c: "c = (p, o1, t)" by (cases c)
  have "with_targets cs fs0 p = node_of o1" using assms(1) c with_targets_other [of p cs fs0] by (auto simp: restorable_def)
  then have "(with_targets (cs @ [c]) fs0)(p := node_of o1) = with_targets cs fs0"
    by (simp add: c with_targets_snoc fun_upd_idem)
  then show ?thesis using restore_change_calm [of s p t o1 E] assms
    by (simp add: c restorable_def with_targets_snoc)
qed

lemma restore_suffix:
  assumes "\<And>x. x \<in> set xs \<Longrightarrow> f x = restore_change E (ch x)"
    and "restorable fs0 (ds @ map ch (rev xs))" "calm s" "files s = with_targets (ds @ map ch (rev xs)) fs0"
  shows "restore_all f xs None s = (Done None, s\<lparr>files := with_targets ds fs0\<rparr>)"
  using assms
proof (induction xs arbitrary: s)
  case Nil
  then show ?case by (cases s) (simp add: io_return_def)
next
  case (Cons x xs)
  have "restore_change E (ch x) s = (Done (), s\<lparr>files := with_targets (ds @ map ch (rev xs)) fs0\<rparr>)"
    by (rule restore_last) (use Cons.prems in simp_all)
  then have one: "io_try (f x) s = (Done (Inr ()), s\<lparr>files := with_targets (ds @ map ch (rev xs)) fs0\<rparr>)"
    using Cons.prems(1) by (simp add: io_try_def)
  have "restorable fs0 (ds @ map ch (rev xs))" using Cons.prems(2) by (auto simp: restorable_def)
  then show ?case using Cons.IH [of "s\<lparr>files := with_targets (ds @ map ch (rev xs)) fs0\<rparr>"] Cons.prems one
    by (simp add: io_bind_def)
qed

section \<open>A run up to the commit\<close>

lemma step_Done:
  assumes "io_bind m f s = (Done b, t)" "scripted m" "calm s"
  obtains a u where "m s = (Done a, u)" "f a u = (Done b, t)" "calm u" "leads (io_bind m f) s (f a) u"
proof -
  obtain a u where a: "m s = (Done a, u)" "f a u = (Done b, t)" using assms(1) by (rule io_bind_Done)
  have c: "calm u" "follows m s (Done a) u" using scriptedD [OF assms(2,3) a(1)] by auto
  show thesis by (rule that [OF a c(1) leads_bind [OF c(2)]])
qed

lemma try_Inr: "io_try m s = (Done (Inr a), u) \<Longrightarrow> m s = (Done a, u)"
  by (auto simp: io_try_def split: prod.splits ending.splits)

lemma failed_not_none:
  "fail_with_rollback E plan ap ad tx e s = (Done out, t) \<Longrightarrow> ao_error out \<noteq> None"
  "io_return (failed_outcome plan err) s = (Done out, t) \<Longrightarrow> ao_error out \<noteq> None"
  by (auto simp: fail_with_rollback_def failed_outcome_def io_steps)

definition finish_setup :: "setup_env \<Rightarrow> setup_plan \<Rightarrow> client_edit list \<Rightarrow> discovery_edit list \<Rightarrow> apply_outcome setup_io" where
  "finish_setup E plan ap ad =
     io_bind (io_try (commit E (journal_for E (plan_changes plan)))) (\<lambda>committed.
       case committed of
         Inl e \<Rightarrow> fail_with_rollback E plan ap ad (Some (journal_for E (plan_changes plan))) e
       | Inr _ \<Rightarrow> io_return
           \<lparr> ao_results = map (\<lambda>e. (ce_path e, Outcome (edit_status_of (ce_resolution e)))) (sp_edits plan),
             ao_error = None \<rparr>)"

definition committed_journal :: "setup_env \<Rightarrow> change list \<Rightarrow> setup_journal" where
  "committed_journal E cs = (journal_for E cs)\<lparr>journal_state := Committed\<rparr>"

text \<open>What is known when all edits of a plan are made.\<close>

definition edits_done :: "setup_env \<Rightarrow> setup_plan \<Rightarrow> (string \<Rightarrow> node option) \<Rightarrow> client_edit list \<Rightarrow> discovery_edit list \<Rightarrow> setup_fs \<Rightarrow> bool" where
  "edits_done E plan fs0 ap ad s \<longleftrightarrow> calm s \<and> files s = with_targets (plan_changes plan) fs0 \<and>
     restorable fs0 (plan_changes plan) \<and> plan_changes plan = map edit_change ap @ map discovery_change ad \<and>
     (\<forall>e \<in> set ap. edit_active e) \<and> (\<forall>d \<in> set ad. restore_discovery_edit E d = restore_change E (discovery_change d))"

lemma advanced_restorable:
  assumes "advanced fs0 cs cs j s" "plan_changes_ok cs"
  shows "restorable fs0 cs"
  using assms by (force simp: restorable_def advanced_def running_at_def mixed_def at_targets_def plan_changes_ok_def list_all_iff)

lemma edits_run:
  assumes plan: "plan_ok plan" and s: "calm s" "advanced fs0 (plan_changes plan) [] j s"
    and begun: "discovery_entries E (sp_discovery_edits plan) = Inr es"
    and run: "apply_edits E plan (Some (journal_for E (plan_changes plan))) s = (Done out, t)" "ao_error out = None"
  obtains ap ad u where "leads (apply_edits E plan (Some (journal_for E (plan_changes plan)))) s (finish_setup E plan ap ad) u"
    "edits_done E plan fs0 ap ad u" "finish_setup E plan ap ad u = (Done out, t)"
proof -
  let ?cs = "plan_changes plan" and ?tx = "Some (journal_for E (plan_changes plan))"
  have ok: "plan_changes_ok ?cs" using plan by (simp add: plan_ok_def plan_changes_ok_def)
  let ?G = "\<lambda>ap (ad, err). case err of Some e \<Rightarrow> fail_with_rollback E plan ap ad ?tx e | None \<Rightarrow> finish_setup E plan ap ad"
  let ?D = "\<lambda>ap. io_bind (run_edits discovery_active apply_discovery_edit (sp_discovery_edits plan) []) (?G ap)"
  let ?F = "\<lambda>(ap, err). case err of Some e \<Rightarrow> fail_with_rollback E plan ap [] ?tx e | None \<Rightarrow> ?D ap"
  have eq: "apply_edits E plan ?tx = io_bind (run_edits edit_active apply_edit (sp_edits plan) []) ?F"
    unfolding apply_edits_def finish_setup_def by simp
  obtain r1 s1 where s1: "run_edits edit_active apply_edit (sp_edits plan) [] s = (Done r1, s1)" "?F r1 s1 = (Done out, t)" "calm s1"
      "leads (apply_edits E plan ?tx) s (?F r1) s1"
    using step_Done [OF run(1) [unfolded eq] scripted_run_edits [OF scripted_edits(1)] s(1)] unfolding eq by blast
  obtain ap where ap: "r1 = (ap, None)"
    using s1(2) run(2) by (cases r1; cases "snd r1") (auto dest: failed_not_none(1))
  have a1: "set ap \<subseteq> set (sp_edits plan)" "advanced fs0 ?cs (edit_changes ap) j s1" "edit_changes ap = edit_changes (sp_edits plan)"
    using tripleD [OF triple_client_edits [OF plan] s(2), of "\<lambda>_. False"] s1(1) ap by auto
  have D: "?D ap s1 = (Done out, t)" using s1(2) unfolding ap by simp
  obtain r2 u where u: "run_edits discovery_active apply_discovery_edit (sp_discovery_edits plan) [] s1 = (Done r2, u)"
      "?G ap r2 u = (Done out, t)" "calm u" "leads (?D ap) s1 (?G ap r2) u"
    by (rule step_Done [OF D scripted_run_edits [OF scripted_edits(2)] s1(3)])
  obtain ad where ad: "r2 = (ad, None)"
    using u(2) run(2) by (cases r2; cases "snd r2") (auto dest: failed_not_none(1))
  have a2: "set ad \<subseteq> set (sp_discovery_edits plan)" "advanced fs0 ?cs (edit_changes ap @ discovery_changes ad) j u"
      "discovery_changes ad = discovery_changes (sp_discovery_edits plan)"
    using tripleD [OF triple_discovery_edits [OF plan] a1(2) [unfolded a1(3)], of "\<lambda>_. False"] u(1) ad a1(3) by auto
  have act: "\<forall>e \<in> set ap. edit_active e" "\<forall>d \<in> set ad. discovery_active d"
    using run_edits_active [OF s1(1) [unfolded ap]] run_edits_active [OF u(1) [unfolded ad]] by auto
  have cs: "?cs = map edit_change ap @ map discovery_change ad" "?cs = edit_changes ap @ discovery_changes ad"
    using a1(3) a2(3) active_edit_changes [OF act(1)] active_discovery_changes [OF act(2)] by (simp_all add: plan_changes_def)
  have done1: "advanced fs0 ?cs ?cs j u" using a2(2) unfolding cs(2) [symmetric] .
  have "edits_done E plan fs0 ap ad u"
    using u(3) files_of_advanced [OF done1 ok] advanced_restorable [OF done1 ok] cs(1) act a2(1)
      restore_discovery_change discovery_entries_updated [OF begun] unfolding edits_done_def by blast
  moreover have "leads (apply_edits E plan ?tx) s (finish_setup E plan ap ad) u"
    using leads_trans s1(4) u(4) unfolding ap ad prod.case option.case by blast
  moreover have "finish_setup E plan ap ad u = (Done out, t)" using u(2) unfolding ad prod.case option.case .
  ultimately show thesis using that by blast
qed

lemma begin_Done:
  assumes "begin_setup_transaction E plan s = (Done tx, t)"
  obtains es where "discovery_entries E (sp_discovery_edits plan) = Inr es"
  using assms by (cases "discovery_entries E (sp_discovery_edits plan)")
    (auto simp: begin_setup_transaction_def io_lift_def io_bind_def io_fail_def)

lemma plan_run:
  assumes plan: "plan_ok plan" "plan_changes plan \<noteq> []" and s: "calm s" "journal s = None"
    and run: "apply_plan E plan s = (Done out, t)" "ao_error out = None"
  obtains ap ad u where "leads (apply_plan E plan) s (finish_setup E plan ap ad) u"
    "edits_done E plan (files s) ap ad u" "finish_setup E plan ap ad u = (Done out, t)"
proof -
  let ?B = "\<lambda>b. case b of Inl e \<Rightarrow> io_return (failed_outcome plan (rollback_runtime_message plan e)) | Inr tx \<Rightarrow> apply_edits E plan tx"
  let ?C = "\<lambda>c :: setup_error + unit. case c of Inl e \<Rightarrow> io_return (failed_outcome plan (rollback_runtime_message plan e))
    | Inr _ \<Rightarrow> io_bind (io_try (begin_setup_transaction E plan)) ?B"
  have fr: "fresh (files s) s" using s by (simp add: fresh_def calm_def)
  have eq: "apply_plan E plan = io_bind (io_try (preflight plan)) ?C"
    using run by (auto simp: apply_plan_def preflight_def dest: failed_not_none(2) split: option.split sum.split)
  obtain c s1 where c: "io_try (preflight plan) s = (Done c, s1)" "?C c s1 = (Done out, t)" "calm s1" "leads (apply_plan E plan) s (?C c) s1"
    unfolding eq by (rule step_Done [OF run(1) [unfolded eq] scripted_try [OF scripted_edits(3)] s(1)])
  obtain x where x: "c = Inr x" using c(2) run(2) by (cases c) (auto dest: failed_not_none(2))
  have conf: "fresh (files s) s1 \<and> all_confirmed (files s) plan"
    using tripleD [OF triple_preflight fr, of plan] try_Inr [OF c(1) [unfolded x]] by simp
  have B: "io_bind (io_try (begin_setup_transaction E plan)) ?B s1 = (Done out, t)" using c(2) unfolding x by simp
  obtain b s2 where b: "io_try (begin_setup_transaction E plan) s1 = (Done b, s2)" "?B b s2 = (Done out, t)" "calm s2"
      "leads (io_bind (io_try (begin_setup_transaction E plan)) ?B) s1 (?B b) s2"
    by (rule step_Done [OF B scripted_try [OF scripted_edits(4)] c(3)])
  obtain tx where tx: "b = Inr tx" using b(2) run(2) by (cases b) (auto dest: failed_not_none(2))
  note begun = try_Inr [OF b(1) [unfolded tx]]
  have t: "tx_ok E (plan_changes plan) tx (map_option Journal tx)" "advanced (files s) (plan_changes plan) [] (map_option Journal tx) s2"
    using tripleD [OF triple_begin conf, of E] begun by auto
  have j: "tx = Some (journal_for E (plan_changes plan))" using t(1) plan(2) by (auto simp: tx_ok_def split: option.splits)
  obtain es where es: "discovery_entries E (sp_discovery_edits plan) = Inr es" using begin_Done [OF begun] .
  have run2: "apply_edits E plan (Some (journal_for E (plan_changes plan))) s2 = (Done out, t)" using b(2) unfolding tx j by simp
  obtain ap ad u where u: "leads (apply_edits E plan (Some (journal_for E (plan_changes plan)))) s2 (finish_setup E plan ap ad) u"
      "edits_done E plan (files s) ap ad u" "finish_setup E plan ap ad u = (Done out, t)"
    by (rule edits_run [OF plan(1) b(3) t(2) es run2 run(2)])
  have "leads (apply_plan E plan) s (finish_setup E plan ap ad) u"
    using leads_trans [OF c(4) leads_trans [OF _ u(1)]] b(4) unfolding x tx j by simp
  then show thesis using that u(2,3) by blast
qed

lemma commit_Done:
  assumes "finish_setup E plan ap ad s = (Done out, t)" "ao_error out = None"
  shows "journal_bytes E (committed_journal E (plan_changes plan)) \<le> max_setup_journal_bytes"
proof (rule ccontr)
  assume "\<not> ?thesis"
  then have "io_try (commit E (journal_for E (plan_changes plan))) s = (Done (Inl Err_Journal_Limit), s)"
    by (simp add: commit_def replace_journal_def serialize_journal_def committed_journal_def io_then_def io_bind_def io_fail_def io_try_def)
  then have "fail_with_rollback E plan ap ad (Some (journal_for E (plan_changes plan))) Err_Journal_Limit s = (Done out, t)"
    using assms(1) by (simp add: finish_setup_def io_bind_def)
  then show False using failed_not_none(1) assms(2) by blast
qed

section \<open>The failed sync and the interrupted rollback\<close>

lemma sync_fails:
  assumes "journal_bytes E (committed_journal E (plan_changes plan)) \<le> max_setup_journal_bytes"
  shows "finish_setup E plan ap ad (under (ff, Fail_After # jf) s) =
    fail_with_rollback E plan ap ad (Some (journal_for E (plan_changes plan))) Err_Io
      (under (ff, jf) (s\<lparr>journal := Some (Journal (committed_journal E (plan_changes plan)))\<rparr>))"
proof -
  have "on_journal eff (under (ff, Fail_After # jf) s) = (Failed Err_Io, under (ff, jf) (s\<lparr>journal := eff (journal s)\<rparr>))" for eff
    by (cases s) (simp add: on_journal_def under_def next_fault_def io_faulty_def)
  then show ?thesis using assms
    by (simp add: finish_setup_def commit_def replace_journal_def serialize_journal_def committed_journal_def
        io_then_def io_bind_def io_return_def io_try_def)
qed

lemma restore_crash: "restore_change E c (under (Crash_Before # ff, jf) s) = (Crashed, under (ff, jf) s)"
  by (cases c; cases s)
    (simp add: restore_change_def restore_path_def read_optional_def reject_symlink_target_def io_then_def io_bind_def
      on_files_def under_def next_fault_def io_faulty_def)

lemma restore_all_append: "restore_all f (xs @ ys) fl = io_bind (restore_all f xs fl) (restore_all f ys)"
  by (induction xs arbitrary: fl) (simp_all add: io_bind_def io_return_def fun_eq_iff split: prod.split ending.split)

text \<open>The rollback stops at the next change after \<open>xs\<close> were restored.\<close>

lemma restore_all_stops:
  assumes f: "\<And>y. y \<in> set (xs @ [x]) \<Longrightarrow> f y = restore_change E (ch y)" and sf: "\<And>y. scripted (f y)"
    and r: "restorable fs0 (ds @ map ch (rev xs))" "calm s" "files s = with_targets (ds @ map ch (rev xs)) fs0"
  shows "\<exists>nf nj. \<forall>ff jf. restore_all f (xs @ x # ys) None (under (padded nf nj (Crash_Before # ff, jf)) s) =
    (Crashed, under (ff, jf) (s\<lparr>files := with_targets ds fs0\<rparr>))"
proof -
  have "scripted (restore_all f xs None)" by (rule scripted_restore_all) (rule sf)
  moreover have "restore_all f xs None s = (Done None, s\<lparr>files := with_targets ds fs0\<rparr>)"
    by (rule restore_suffix [OF f r]) simp
  ultimately have "follows (restore_all f xs None) s (Done None) (s\<lparr>files := with_targets ds fs0\<rparr>)"
    using scriptedD r(2) by blast
  then obtain nf nj where xs: "\<And>sc. restore_all f xs None (under (padded nf nj sc) s) =
      (Done None, under sc (s\<lparr>files := with_targets ds fs0\<rparr>))" unfolding follows_def by blast
  have "restore_all f (x # ys) None (under (Crash_Before # ff, jf) t) = (Crashed, under (ff, jf) t)" for ff jf t
    using f [of x] restore_crash [of E "ch x" ff jf t] by (simp add: io_bind_def io_try_def)
  then have "restore_all f (xs @ x # ys) None (under (padded nf nj (Crash_Before # ff, jf)) s) =
      (Crashed, under (ff, jf) (s\<lparr>files := with_targets ds fs0\<rparr>))" for ff jf
    unfolding restore_all_append by (subst io_bind_def) (simp only: xs prod.case ending.case)
  then show ?thesis by blast
qed

lemma rollback_crash:
  assumes "io_bind (restore_all (restore_discovery_edit E) (rev ad) None) (restore_all (restore_edit E) (rev ap)) s = (Crashed, t)"
  shows "fail_with_rollback E plan ap ad tx e s = (Crashed, t)"
  using assms by (auto simp: fail_with_rollback_def rollback_setup_def io_bind_def io_try_def split: prod.splits ending.splits)

lemma scripted_restores: "scripted (restore_discovery_edit E d)" "scripted (restore_edit E e)"
  unfolding restore_discovery_edit_def restore_edit_def by (auto intro!: scripted_rules split: option.split plan_action.split)

lemma rev_split:
  assumes "k < length xs"
  obtains x ys zs where "rev xs = ys @ x # zs" "length ys = k" "xs = (rev zs @ [x]) @ rev ys"
proof -
  have s: "rev xs = take k (rev xs) @ rev xs ! k # drop (Suc k) (rev xs)" using assms by (simp add: id_take_nth_drop)
  then have "xs = rev (take k (rev xs) @ rev xs ! k # drop (Suc k) (rev xs))" by (metis rev_rev_ident)
  then show thesis using that [OF s] assms by simp
qed

lemma restorable_prefix: "restorable fs0 (cs @ ds) \<Longrightarrow> restorable fs0 cs"
  by (auto simp: restorable_def)

lemma rollback_stops:
  assumes u: "edits_done E plan fs0 ap ad s" and k: "k < length (plan_changes plan)"
  shows "\<exists>nf nj. \<forall>ff jf. fail_with_rollback E plan ap ad tx e (under (padded nf nj (Crash_Before # ff, jf)) s) =
    (Crashed, under (ff, jf) (s\<lparr>files := with_targets (take (length (plan_changes plan) - k) (plan_changes plan)) fs0\<rparr>))"
proof -
  let ?es = "map edit_change ap" and ?cs = "plan_changes plan" and ?n = "length (plan_changes plan)"
  have cs: "?cs = ?es @ map discovery_change ad" "restorable fs0 ?cs" "calm s" "files s = with_targets ?cs fs0"
    and fd: "\<And>d. d \<in> set ad \<Longrightarrow> restore_discovery_edit E d = restore_change E (discovery_change d)"
    and fe: "\<And>e. e \<in> set ap \<Longrightarrow> restore_edit E e = restore_change E (edit_change e)"
    using u restore_edit_change by (auto simp: edits_done_def)
  let ?D = "restore_all (restore_discovery_edit E) (rev ad) None" and ?R = "restore_all (restore_edit E) (rev ap)"
  have "\<exists>nf nj. \<forall>ff jf. io_bind ?D ?R (under (padded nf nj (Crash_Before # ff, jf)) s) =
      (Crashed, under (ff, jf) (s\<lparr>files := with_targets (take (?n - k) ?cs) fs0\<rparr>))"
  proof (cases "k < length ad")
    case True
    obtain x ys zs where ad: "rev ad = ys @ x # zs" "length ys = k" "ad = (rev zs @ [x]) @ rev ys" using rev_split [OF True] .
    let ?ds = "?es @ map discovery_change (rev zs @ [x])"
    have split: "?cs = ?ds @ map discovery_change (rev ys)" unfolding cs(1) by (subst ad(3)) simp
    have f: "d \<in> set (ys @ [x]) \<Longrightarrow> restore_discovery_edit E d = restore_change E (discovery_change d)" for d
      by (rule fd) (use ad(3) in auto)
    have take: "take (?n - k) ?cs = ?ds" unfolding split using ad(2) by simp
    obtain nf nj where "\<forall>ff jf. restore_all (restore_discovery_edit E) (ys @ x # zs) None (under (padded nf nj (Crash_Before # ff, jf)) s) =
        (Crashed, under (ff, jf) (s\<lparr>files := with_targets ?ds fs0\<rparr>))"
      using restore_all_stops [where ys = zs, OF f scripted_restores(1) cs(2) [unfolded split] cs(3) cs(4) [unfolded split]] by blast
    then show ?thesis unfolding take ad(1) by (intro exI [of _ nf] exI [of _ nj]) (simp add: io_bind_def)
  next
    case False
    define t where "t = s\<lparr>files := with_targets ?es fs0\<rparr>"
    have "?D s = (Done None, t)" unfolding t_def
      by (rule restore_suffix) (use fd cs(3) cs(1,2,4) in auto)
    moreover have "scripted ?D" by (rule scripted_restore_all) (rule scripted_restores)
    ultimately have "follows ?D s (Done None) t" using scriptedD cs(3) by blast
    then have "leads (io_bind ?D ?R) s (?R None) t" by (rule leads_bind)
    then obtain mf mj where lead: "\<And>sc. io_bind ?D ?R (under (padded mf mj sc) s) = ?R None (under sc t)" unfolding leads_def by blast
    have k2: "k - length ad < length ap" using k False unfolding cs(1) by simp
    obtain x ys zs where ap: "rev ap = ys @ x # zs" "length ys = k - length ad" "ap = (rev zs @ [x]) @ rev ys" using rev_split [OF k2] .
    let ?ds = "map edit_change (rev zs @ [x])"
    have split: "?es = ?ds @ map edit_change (rev ys)" by (subst ap(3)) simp
    have f: "e \<in> set (ys @ [x]) \<Longrightarrow> restore_edit E e = restore_change E (edit_change e)" for e
      by (rule fe) (use ap(3) in auto)
    have "?n - k \<le> length ?es" "length ?es - (k - length ad) = ?n - k" using False unfolding cs(1) by auto
    then have "take (?n - k) ?cs = take (length ?es - (k - length ad)) ?es" unfolding cs(1) by simp
    then have take: "take (?n - k) ?cs = ?ds" unfolding split using ap(2) by simp
    have "restorable fs0 ?es" "calm t" "files t = with_targets ?es fs0"
      using restorable_prefix cs(2) [unfolded cs(1)] cs(3) by (auto simp: t_def)
    note t = this [unfolded split]
    obtain nf nj where "\<forall>ff jf. restore_all (restore_edit E) (ys @ x # zs) None (under (padded nf nj (Crash_Before # ff, jf)) t) =
        (Crashed, under (ff, jf) (t\<lparr>files := with_targets ?ds fs0\<rparr>))"
      using restore_all_stops [where ys = zs, OF f scripted_restores(2) t] by blast
    then have "io_bind ?D ?R (under (padded mf mj (padded nf nj (Crash_Before # ff, jf))) s) =
        (Crashed, under (ff, jf) (s\<lparr>files := with_targets (take (?n - k) ?cs) fs0\<rparr>))" for ff jf
      unfolding take ap(1) lead [unfolded ap(1)] by (simp add: t_def)
    then show ?thesis unfolding padded_padded by blast
  qed
  then show ?thesis using rollback_crash by meson
qed

section \<open>Every mixture can stay\<close>

lemma edits_done_journal: "edits_done E plan fs0 ap ad (s\<lparr>journal := j\<rparr>) = edits_done E plan fs0 ap ad s"
  by (simp add: edits_done_def)

text \<open>C37: The exception in the atomicity of setup is needed, for every plan.  Take any plan of at least one change that setup can apply (it
  succeeds when nothing disturbs it), with the restrictions of the atomicity theorem, and any number \<open>k\<close> smaller than the number of its
  changes.  There is a run with only two faults: the directory sync fails after the committed
  journal has replaced the pending one, and the machine stops in the rollback that \<open>apply_plan\<close> then
  starts, after \<open>k\<close> changes have been rolled back.  An undisturbed recovery afterwards succeeds, removes the journal, and
  leaves exactly that mixture: the last \<open>k\<close> changes undone, the others at their planned contents.\<close>

theorem failed_commit_sync_mixes:
  assumes "plan_ok plan" "calm s" "journal s = None"
    and "apply_plan E plan s = (Done out, t)" "ao_error out = None" "k < length (plan_changes plan)"
  shows "\<exists>nf nj mj r u. let sc = (replicate nf No_Fault @ [Crash_Before], replicate nj No_Fault @ Fail_After # replicate mj No_Fault) in
    apply_plan E plan (under sc s) = (Crashed, r) \<and>
    recover_interrupted_transaction E (under undisturbed r) = (Done (), u) \<and> journal u = None \<and>
    files u = with_targets (take (length (plan_changes plan) - k) (plan_changes plan)) (files s)"
proof -
  let ?cs = "plan_changes plan"
  have "?cs \<noteq> []" using assms(6) by auto
  then obtain ap ad v where v: "leads (apply_plan E plan) s (finish_setup E plan ap ad) v" "edits_done E plan (files s) ap ad v"
      "finish_setup E plan ap ad v = (Done out, t)" using plan_run [OF assms(1) _ assms(2-5)] by blast
  have small: "journal_bytes E (committed_journal E ?cs) \<le> max_setup_journal_bytes" by (rule commit_Done [OF v(3) assms(5)])
  define w where "w = v\<lparr>journal := Some (Journal (committed_journal E ?cs))\<rparr>"
  have "edits_done E plan (files s) ap ad w" using v(2) unfolding w_def edits_done_journal .
  then obtain nf nj where stop: "\<And>ff jf. fail_with_rollback E plan ap ad (Some (journal_for E ?cs)) Err_Io
      (under (padded nf nj (Crash_Before # ff, jf)) w) =
      (Crashed, under (ff, jf) (w\<lparr>files := with_targets (take (length ?cs - k) ?cs) (files s)\<rparr>))"
    using rollback_stops [OF _ assms(6)] by blast
  obtain mf mj where lead: "\<And>sc. apply_plan E plan (under (padded mf mj sc) s) = finish_setup E plan ap ad (under sc v)"
    using v(1) unfolding leads_def by blast
  let ?r = "under ([], []) (w\<lparr>files := with_targets (take (length ?cs - k) ?cs) (files s)\<rparr>)"
  have run: "apply_plan E plan (under (replicate (mf + nf) No_Fault @ [Crash_Before], replicate mj No_Fault @ Fail_After # replicate nj No_Fault) s) =
      (Crashed, ?r)"
    using lead [of "(replicate nf No_Fault @ [Crash_Before], Fail_After # replicate nj No_Fault)"] sync_fails [OF small] stop [of "[]" "[]"]
    by (simp add: padded_def replicate_add w_def)
  have "recover_interrupted_transaction E ?r = (Done (), ?r\<lparr>journal := None\<rparr>)"
    using small calm_remove_journal [of ?r]
    by (simp add: recover_interrupted_transaction_def io_bind_def get_journal_def w_def committed_journal_def journal_for_def calm_def)
  then show ?thesis using run unfolding Let_def undisturbed_def
    by (intro exI [of _ "mf + nf"] exI [of _ mj] exI [of _ nj] exI [of _ ?r] exI [of _ "?r\<lparr>journal := None\<rparr>"]) simp
qed

lemma sample_applied:
  "\<exists>out t. apply_plan sample_env sample_plan (sample_fs [] []) = (Done out, t) \<and> ao_error out = None"
proof -
  have "(case fst (apply_plan sample_env sample_plan (sample_fs [] [])) of Done out \<Rightarrow> ao_error out = None | _ \<Rightarrow> False)"
    by code_simp
  then show ?thesis by (auto split: ending.splits prod.splits) (metis prod.collapse)
qed

text \<open>The plan of three changes, stopped when two of them are undone.\<close>

theorem failed_commit_sync_mixes_witness:
  "\<exists>sc r u. apply_plan sample_env sample_plan (under sc (sample_fs [] [])) = (Crashed, r) \<and>
     recover_interrupted_transaction sample_env (under undisturbed r) = (Done (), u) \<and> journal u = None \<and>
     files u ''a'' = Some (Regular ''2'') \<and> files u ''c'' = Some (Regular ''4'')"
proof -
  obtain out t where run: "apply_plan sample_env sample_plan (sample_fs [] []) = (Done out, t)" "ao_error out = None"
    using sample_applied by blast
  have "calm (sample_fs [] [])" "journal (sample_fs [] []) = None" by (simp_all add: calm_def sample_fs_def)
  moreover have cs: "plan_changes sample_plan = [(''a'', Some ''1'', Some ''2''), (''b'', None, Some ''3''), (''c'', Some ''4'', None)]"
    by code_simp
  ultimately obtain sc r u where mix: "apply_plan sample_env sample_plan (under sc (sample_fs [] [])) = (Crashed, r)"
     "recover_interrupted_transaction sample_env (under undisturbed r) = (Done (), u)" "journal u = None"
     "files u = with_targets (take (length (plan_changes sample_plan) - 2) (plan_changes sample_plan)) (files (sample_fs [] []))"
    using failed_commit_sync_mixes [OF sample_plan_ok _ _ run, of 2] unfolding Let_def by auto
  have "files u ''a'' = Some (Regular ''2'')" "files u ''c'' = Some (Regular ''4'')"
    using mix(4) unfolding cs by (simp_all add: with_targets_def sample_fs_def)
  then show ?thesis using mix(1-3) by blast
qed

end
