(* ===== verification/Cursor.thy ===== *)
theory Cursor
  imports Rust_Str "HOL-Library.Word"
begin

text \<open>
  Continuation cursors (\<open>src/services/cursor.rs\<close>): the identity of a result stream, the envelope that
  binds a payload to a stream and a snapshot, and the cursors that hold a position.  Strings are
  byte strings.  The base64 codec and the hash are libraries: the record \<open>cursor_lib\<close> holds them, and
  \<open>cursor_lib_ok\<close> states what their documentation promises.
\<close>

section \<open>Little-endian integers\<close>

fun le_encode :: "nat \<Rightarrow> nat \<Rightarrow> string" where
  "le_encode 0 v = []"
| "le_encode (Suc n) v = char_of (v mod 256) # le_encode n (v div 256)"

fun le_decode :: "string \<Rightarrow> nat" where
  "le_decode [] = 0"
| "le_decode (c # cs) = of_char c + 256 * le_decode cs"

definition u64_to_le :: "64 word \<Rightarrow> string" where
  "u64_to_le w = le_encode 8 (unat w)"

definition u64_from_le :: "string \<Rightarrow> 64 word" where
  "u64_from_le s = word_of_nat (le_decode s)"

lemma length_le_encode [simp]: "length (le_encode n v) = n"
  by (induction n arbitrary: v) auto

lemma of_char_byte [simp]: "(of_char (char_of (v mod 256 :: nat)) :: nat) = v mod 256"
  by (simp add: of_char_of)

lemma le_decode_encode: "v < 256 ^ n \<Longrightarrow> le_decode (le_encode n v) = v"
proof (induction n arbitrary: v)
  case (Suc n)
  then have "v div 256 < 256 ^ n" by (simp add: less_mult_imp_div_less mult.commute)
  then show ?case using Suc.IH by simp
qed simp

lemma le_decode_less: "le_decode s < 256 ^ length s"
proof (induction s)
  case (Cons c s)
  have "(of_char c :: nat) < 256" by (rule nat_of_char_less_256)
  then have "of_char c + 256 * le_decode s < 256 * 256 ^ length s" using Cons by linarith
  then show ?case by simp
qed simp

lemma le_encode_decode: "le_encode (length s) (le_decode s) = s"
proof (induction s)
  case (Cons c s)
  have "(of_char c :: nat) < 256" by (rule nat_of_char_less_256)
  then show ?case using Cons by simp
qed simp

lemma length_u64 [simp]: "length (u64_to_le w) = 8"
  by (simp add: u64_to_le_def)

lemma u64_roundtrip [simp]: "u64_from_le (u64_to_le w) = w"
proof -
  have "unat w < 256 ^ 8" using unsigned_less [of w, where 'a = nat] by simp
  then show ?thesis by (simp add: u64_from_le_def u64_to_le_def le_decode_encode)
qed

lemma u64_canonical: "length s = 8 \<Longrightarrow> u64_to_le (u64_from_le s) = s"
  using le_decode_less [of s] le_encode_decode [of s]
  by (simp add: u64_from_le_def u64_to_le_def unsigned_of_nat take_bit_nat_eq_self)

section \<open>Kinds, streams and errors\<close>

datatype cursor_error = Stale_Cursor | Operation_Failure string

datatype cursor_kind =
  Kind_Search | Kind_Files | Kind_Outline | Kind_Read | Kind_Json_Keys | Kind_History_Diff_Symbols | Kind_Cache_List

fun kind_byte :: "cursor_kind \<Rightarrow> nat" where
  "kind_byte Kind_Search = 1"
| "kind_byte Kind_Files = 2"
| "kind_byte Kind_Outline = 3"
| "kind_byte Kind_Read = 4"
| "kind_byte Kind_Json_Keys = 5"
| "kind_byte Kind_History_Diff_Symbols = 6"
| "kind_byte Kind_Cache_List = 7"

definition kind_parse :: "nat \<Rightarrow> cursor_error + cursor_kind" where
  "kind_parse v =
     (if v = 1 then Inr Kind_Search else if v = 2 then Inr Kind_Files else if v = 3 then Inr Kind_Outline
      else if v = 4 then Inr Kind_Read else if v = 5 then Inr Kind_Json_Keys
      else if v = 6 then Inr Kind_History_Diff_Symbols else if v = 7 then Inr Kind_Cache_List
      else Inl Stale_Cursor)"

lemma kind_parse_byte [simp]: "kind_parse (kind_byte k) = Inr k"
  by (cases k) (simp_all add: kind_parse_def)

lemma kind_parse_Inr: "kind_parse v = Inr k \<Longrightarrow> kind_byte k = v"
  by (auto simp: kind_parse_def split: if_splits)

lemma kind_byte_less: "kind_byte k < 256"
  by (cases k) auto

record cursor_lib =
  b64_encode :: "string \<Rightarrow> string"
  b64_decode :: "string \<Rightarrow> string option"
  blake3 :: "string \<Rightarrow> string"

definition cursor_lib_ok :: "cursor_lib \<Rightarrow> bool" where
  "cursor_lib_ok L \<longleftrightarrow>
     (\<forall>b. b64_decode L (b64_encode L b) = Some b \<and> length (b64_encode L b) = (4 * length b + 2) div 3) \<and>
     (\<forall>b. length (blake3 L b) = 32)"

definition cursor_version :: nat where "cursor_version = 1"
definition stream_id_bytes :: nat where "stream_id_bytes = 16"
definition checksum_bytes :: nat where "checksum_bytes = 8"
definition cursor_header_bytes :: nat where "cursor_header_bytes = 1 + 1 + 8 + stream_id_bytes"
definition min_cursor_bytes :: nat where "min_cursor_bytes = cursor_header_bytes + checksum_bytes"
definition max_cursor_payload_bytes :: nat where "max_cursor_payload_bytes = 8 * 1024"
definition max_encoded_cursor_bytes :: nat where "max_encoded_cursor_bytes = 11000"
definition encoded_cursor_bytes :: nat where "encoded_cursor_bytes = 56"

definition cursor_checksum_domain :: string where
  "cursor_checksum_domain = ''leantoken-continuation-checksum-v1'' @ [CHR 0x00]"
definition stream_id_domain :: string where
  "stream_id_domain = ''leantoken-stream-identity-v1'' @ [CHR 0x00]"

lemmas cursor_sizes = cursor_version_def stream_id_bytes_def checksum_bytes_def cursor_header_bytes_def
  min_cursor_bytes_def max_cursor_payload_bytes_def max_encoded_cursor_bytes_def encoded_cursor_bytes_def

text \<open>The builder of a stream identity feeds its fields to the hasher one after the other; hashing the
  pieces hashes their concatenation.\<close>

datatype stream_field =
    Field_Bytes string string
  | Field_Optional_Str string "string option"
  | Field_Bool string bool
  | Field_Usize string usize
  | Field_Optional_Usize string "usize option"
  | Field_Strings string "string list"

definition length_prefixed :: "string \<Rightarrow> string" where
  "length_prefixed v = le_encode 8 (length v) @ v"

fun field_input :: "stream_field \<Rightarrow> string" where
  "field_input (Field_Bytes n v) = length_prefixed n @ length_prefixed v"
| "field_input (Field_Optional_Str n v) = length_prefixed n @
     (case v of None \<Rightarrow> [CHR 0x00] | Some s \<Rightarrow> CHR 0x01 # length_prefixed s)"
| "field_input (Field_Bool n v) = length_prefixed n @ [if v then CHR 0x01 else CHR 0x00]"
| "field_input (Field_Usize n v) = length_prefixed n @ le_encode 8 v"
| "field_input (Field_Optional_Usize n v) = length_prefixed n @
     (case v of None \<Rightarrow> [CHR 0x00] | Some s \<Rightarrow> CHR 0x01 # le_encode 8 s)"
| "field_input (Field_Strings n vs) = length_prefixed n @ le_encode 8 (length vs) @ concat (map length_prefixed vs)"

definition stream_input :: "cursor_kind \<Rightarrow> stream_field list \<Rightarrow> string" where
  "stream_input k fs = stream_id_domain @ char_of (kind_byte k) # concat (map field_input fs)"

definition stream_finish :: "cursor_lib \<Rightarrow> cursor_kind \<Rightarrow> stream_field list \<Rightarrow> string" where
  "stream_finish L k fs = take stream_id_bytes (blake3 L (stream_input k fs))"

section \<open>The envelope\<close>

record cursor_envelope =
  env_kind :: cursor_kind
  env_generation :: "64 word"
  env_stream :: string
  env_payload :: string

definition cursor_checksum :: "cursor_lib \<Rightarrow> string \<Rightarrow> string" where
  "cursor_checksum L b = take checksum_bytes (blake3 L (cursor_checksum_domain @ b))"

definition envelope_new :: "cursor_kind \<Rightarrow> 64 word \<Rightarrow> string \<Rightarrow> string \<Rightarrow> cursor_error + cursor_envelope" where
  "envelope_new k g st p =
     (if max_cursor_payload_bytes < length p then Inl (Operation_Failure ''cursor payload overflow'')
      else Inr \<lparr>env_kind = k, env_generation = g, env_stream = st, env_payload = p\<rparr>)"

definition envelope_bytes :: "cursor_envelope \<Rightarrow> string" where
  "envelope_bytes c =
     char_of cursor_version # char_of (kind_byte (env_kind c)) # u64_to_le (env_generation c) @ env_stream c @ env_payload c"

definition envelope_encode :: "cursor_lib \<Rightarrow> cursor_envelope \<Rightarrow> string" where
  "envelope_encode L c = b64_encode L (envelope_bytes c @ cursor_checksum L (envelope_bytes c))"

definition envelope_parse :: "cursor_lib \<Rightarrow> string \<Rightarrow> nat \<Rightarrow> cursor_error + cursor_envelope" where
  "envelope_parse L encoded max_bytes =
     (if encoded = [] \<or> min max_bytes max_encoded_cursor_bytes < length encoded then Inl Stale_Cursor
      else case b64_decode L encoded of
        None \<Rightarrow> Inl Stale_Cursor
      | Some b \<Rightarrow>
          if length b < min_cursor_bytes \<or> cursor_header_bytes + max_cursor_payload_bytes + checksum_bytes < length b
             \<or> b64_encode L b \<noteq> encoded
          then Inl Stale_Cursor
          else
            let checksum_start = length b - checksum_bytes in
            if drop checksum_start b \<noteq> cursor_checksum L (take checksum_start b) then Inl Stale_Cursor
            else if of_char (b ! 0) \<noteq> cursor_version then Inl Stale_Cursor
            else case kind_parse (of_char (b ! 1)) of
              Inl e \<Rightarrow> Inl e
            | Inr k \<Rightarrow> Inr
                \<lparr> env_kind = k,
                  env_generation = u64_from_le (take 8 (drop 2 b)),
                  env_stream = take stream_id_bytes (drop 10 b),
                  env_payload = drop cursor_header_bytes (take checksum_start b) \<rparr>)"

definition payload_for :: "cursor_envelope \<Rightarrow> cursor_kind \<Rightarrow> 64 word \<Rightarrow> string \<Rightarrow> cursor_error + string" where
  "payload_for c k g st =
     (if env_kind c \<noteq> k \<or> env_generation c \<noteq> g \<or> env_stream c \<noteq> st then Inl Stale_Cursor else Inr (env_payload c))"

section \<open>Position cursors\<close>

record continuation_cursor =
  cc_kind :: cursor_kind
  cc_generation :: "64 word"
  cc_stream :: string
  cc_position :: "64 word"

definition continuation_at :: "cursor_kind \<Rightarrow> 64 word \<Rightarrow> string \<Rightarrow> usize \<Rightarrow> cursor_error + continuation_cursor" where
  "continuation_at k g st pos =
     (if 2 ^ 64 \<le> pos then Inl (Operation_Failure ''cursor position overflow'')
      else Inr \<lparr>cc_kind = k, cc_generation = g, cc_stream = st, cc_position = word_of_nat pos\<rparr>)"

definition continuation_parse :: "cursor_lib \<Rightarrow> string \<Rightarrow> cursor_error + continuation_cursor" where
  "continuation_parse L encoded =
     (if length encoded \<noteq> encoded_cursor_bytes then Inl Stale_Cursor
      else case envelope_parse L encoded encoded_cursor_bytes of
        Inl e \<Rightarrow> Inl e
      | Inr c \<Rightarrow>
          if length (env_payload c) \<noteq> 8 then Inl Stale_Cursor
          else Inr \<lparr> cc_kind = env_kind c, cc_generation = env_generation c, cc_stream = env_stream c,
                     cc_position = u64_from_le (env_payload c) \<rparr>)"

definition continuation_parse_optional ::
  "cursor_lib \<Rightarrow> string option \<Rightarrow> cursor_error + continuation_cursor option" where
  "continuation_parse_optional L encoded =
     (case encoded of None \<Rightarrow> Inr None | Some s \<Rightarrow> map_sum id Some (continuation_parse L s))"

definition continuation_envelope :: "continuation_cursor \<Rightarrow> cursor_envelope" where
  "continuation_envelope c =
     \<lparr> env_kind = cc_kind c, env_generation = cc_generation c, env_stream = cc_stream c,
       env_payload = u64_to_le (cc_position c) \<rparr>"

definition continuation_encode :: "cursor_lib \<Rightarrow> continuation_cursor \<Rightarrow> string" where
  "continuation_encode L c = envelope_encode L (continuation_envelope c)"

definition position_for :: "continuation_cursor \<Rightarrow> cursor_kind \<Rightarrow> 64 word \<Rightarrow> string \<Rightarrow> cursor_error + usize" where
  "position_for c k g st =
     (if cc_kind c \<noteq> k \<or> cc_generation c \<noteq> g \<or> cc_stream c \<noteq> st then Inl Stale_Cursor
      else Inr (unat (cc_position c)))"

section \<open>Parsing and printing envelopes\<close>

definition envelope_ok :: "cursor_envelope \<Rightarrow> bool" where
  "envelope_ok c \<longleftrightarrow> length (env_stream c) = stream_id_bytes \<and> length (env_payload c) \<le> max_cursor_payload_bytes"

lemma length_envelope_bytes:
  "length (env_stream c) = stream_id_bytes \<Longrightarrow> length (envelope_bytes c) = cursor_header_bytes + length (env_payload c)"
  by (simp add: envelope_bytes_def cursor_sizes)

lemma envelope_bytes_fields:
  assumes "length (env_stream c) = stream_id_bytes"
  shows "envelope_bytes c ! 0 = char_of cursor_version" "envelope_bytes c ! 1 = char_of (kind_byte (env_kind c))"
    "take 8 (drop 2 (envelope_bytes c)) = u64_to_le (env_generation c)"
    "take stream_id_bytes (drop 10 (envelope_bytes c)) = env_stream c"
    "drop cursor_header_bytes (envelope_bytes c) = env_payload c"
  using assms by (simp_all add: envelope_bytes_def cursor_sizes drop_Cons' numeral_2_eq_2)

lemma envelope_parse_encode:
  assumes L: "cursor_lib_ok L" and c: "envelope_ok c" and fits: "length (envelope_encode L c) \<le> min m max_encoded_cursor_bytes"
  shows "envelope_parse L (envelope_encode L c) m = Inr c"
proof -
  let ?b = "envelope_bytes c" and ?k = "cursor_checksum L (envelope_bytes c)"
  have st: "length (env_stream c) = stream_id_bytes" and pl: "length (env_payload c) \<le> max_cursor_payload_bytes"
    using c by (auto simp: envelope_ok_def)
  have lk: "length ?k = checksum_bytes" using L by (simp add: cursor_checksum_def cursor_lib_ok_def checksum_bytes_def)
  have lb: "length ?b = cursor_header_bytes + length (env_payload c)" by (rule length_envelope_bytes [OF st])
  define bb where "bb = ?b @ ?k"
  have dec: "b64_decode L (b64_encode L bb) = Some bb" using L by (simp add: cursor_lib_ok_def)
  have "length (b64_encode L bb) \<noteq> 0" using L lb by (simp add: bb_def cursor_lib_ok_def cursor_sizes)
  then have ne: "b64_encode L bb \<noteq> []" by auto
  have small: "\<not> length bb < min_cursor_bytes"
    "\<not> cursor_header_bytes + max_cursor_payload_bytes + checksum_bytes < length bb"
    using lb lk pl by (simp_all add: bb_def min_cursor_bytes_def)
  have cut: "drop (length bb - checksum_bytes) bb = ?k" "take (length bb - checksum_bytes) bb = ?b"
    using lk by (simp_all add: bb_def)
  have pos: "2 \<le> length ?b" using lb by (simp add: cursor_sizes)
  have nth: "of_char (bb ! 0) = cursor_version" "of_char (bb ! 1) = kind_byte (env_kind c)"
  proof -
    have "bb ! 0 = ?b ! 0" "bb ! 1 = ?b ! 1" using pos by (auto simp: nth_append bb_def)
    then show "of_char (bb ! 0) = cursor_version" "of_char (bb ! 1) = kind_byte (env_kind c)"
      unfolding envelope_bytes_fields [OF st] of_char_of
      using kind_byte_less [of "env_kind c"] by (simp_all add: cursor_version_def)
  qed
  have tk: "take 8 (drop 2 bb) = u64_to_le (env_generation c)" "take stream_id_bytes (drop 10 bb) = env_stream c"
    using lb envelope_bytes_fields(3,4) [OF st] by (simp_all add: bb_def cursor_sizes)
  show ?thesis
    using fits unfolding envelope_encode_def bb_def [symmetric] envelope_parse_def dec option.case Let_def cut nth
    by (simp add: ne small tk envelope_bytes_fields(5) [OF st] min_less_iff_disj)
qed

lemma envelope_parse_Inr:
  assumes "envelope_parse L s m = Inr c"
  shows "envelope_encode L c = s" "envelope_ok c" "length s \<le> min m max_encoded_cursor_bytes"
proof -
  obtain b where b: "b64_decode L s = Some b" "min_cursor_bytes \<le> length b"
    "length b \<le> cursor_header_bytes + max_cursor_payload_bytes + checksum_bytes" "b64_encode L b = s"
    using assms by (auto simp: envelope_parse_def split: if_splits option.splits)
  let ?n = "length b - checksum_bytes"
  have rest: "drop ?n b = cursor_checksum L (take ?n b)" "of_char (b ! 0) = cursor_version"
    "kind_parse (of_char (b ! 1)) = Inr (env_kind c)" "length s \<le> min m max_encoded_cursor_bytes"
    "env_generation c = u64_from_le (take 8 (drop 2 b))" "env_stream c = take stream_id_bytes (drop 10 b)"
    "env_payload c = drop cursor_header_bytes (take ?n b)"
    using assms b by (auto simp: envelope_parse_def Let_def split: if_splits sum.splits)
  obtain x y r where r: "b = x # y # r"
    using b(2) by (cases b; cases "tl b") (auto simp: cursor_sizes)
  have xy: "x = char_of cursor_version" "y = char_of (kind_byte (env_kind c))"
    using rest(2) kind_parse_Inr [OF rest(3)] r by (metis char_of_char nth_Cons_0, metis One_nat_def char_of_char nth_Cons_0 nth_Cons_Suc)
  have len: "24 + 8 \<le> length r" using b(2) r by (simp add: cursor_sizes)
  have "take ?n b = envelope_bytes c"
  proof -
    have n: "?n = Suc (Suc (length r - 8))" using len r by (simp add: checksum_bytes_def)
    have "u64_to_le (env_generation c) = take 8 r"
      using rest(5) r len by (simp add: u64_canonical)
    moreover have "env_stream c = take 16 (drop 8 r)" using rest(6) r by (simp add: stream_id_bytes_def)
    moreover have "env_payload c = drop 24 (take (length r - 8) r)"
      using rest(7) r n by (simp add: cursor_sizes)
    moreover have "take (length r - 8) r = take 8 r @ take 16 (drop 8 r) @ drop 24 (take (length r - 8) r)"
    proof -
      have "take 24 (take (length r - 8) r) = take 24 r" using len by (simp add: min_absorb1)
      also have "\<dots> = take 8 r @ take 16 (drop 8 r)" using take_add [of 8 16 r] by simp
      finally show ?thesis using append_take_drop_id [of 24 "take (length r - 8) r"] by simp
    qed
    ultimately show ?thesis using n r xy by (simp add: envelope_bytes_def)
  qed
  then show "envelope_encode L c = s"
    using b(4) rest(1) append_take_drop_id [of ?n b] by (simp add: envelope_encode_def)
  show "envelope_ok c"
    using rest(6,7) b(2,3) by (auto simp: envelope_ok_def cursor_sizes)
  show "length s \<le> min m max_encoded_cursor_bytes" by (rule rest(4))
qed

text \<open>C33: Envelopes survive the wire: an envelope with a payload within the bound is printed in at most
  11,000 bytes and parsed back to itself, for every kind, generation and stream.\<close>

theorem envelope_roundtrip:
  assumes "cursor_lib_ok L" "envelope_new k g st p = Inr c" "length st = stream_id_bytes"
  shows "envelope_parse L (envelope_encode L c) max_encoded_cursor_bytes = Inr c"
proof -
  have c: "envelope_ok c" using assms(2,3) by (auto simp: envelope_new_def envelope_ok_def split: if_splits)
  have "length (envelope_bytes c @ cursor_checksum L (envelope_bytes c)) \<le> 34 + 8192"
    using c assms(1) by (simp add: length_envelope_bytes envelope_ok_def cursor_checksum_def cursor_lib_ok_def cursor_sizes)
  then have "length (envelope_encode L c) \<le> max_encoded_cursor_bytes"
    using assms(1) by (simp add: envelope_encode_def cursor_lib_ok_def cursor_sizes)
  then show ?thesis using envelope_parse_encode [OF assms(1) c, of max_encoded_cursor_bytes] by simp
qed

text \<open>A cursor text that is accepted is the one text the service would print for what it says: its kind,
  generation, stream and payload determine it, whatever codec and hash are linked, and it is within the
  caller's bound.  So no two texts continue the same stream at the same place.\<close>

theorem envelope_canonical:
  assumes "envelope_parse L s m = Inr c"
  shows "envelope_encode L c = s \<and> envelope_ok c \<and> length s \<le> m"
  using envelope_parse_Inr [OF assms] by simp

section \<open>Cursors with a position\<close>

lemma continuation_envelope_ok: "length (cc_stream c) = stream_id_bytes \<Longrightarrow> envelope_ok (continuation_envelope c)"
  by (simp add: envelope_ok_def continuation_envelope_def max_cursor_payload_bytes_def)

text \<open>A position cursor made for a stream resumes exactly there: it is 56 bytes long, is parsed back,
  gives the position for the kind, generation and stream it was made for, and is refused as stale for
  any other.\<close>

theorem continuation_resumes:
  assumes "cursor_lib_ok L" "continuation_at k g st pos = Inr c" "length st = stream_id_bytes"
  shows "length (continuation_encode L c) = encoded_cursor_bytes \<and>
    continuation_parse_optional L (Some (continuation_encode L c)) = Inr (Some c) \<and>
    position_for c k' g' st' = (if (k', g', st') = (k, g, st) then Inr pos else Inl Stale_Cursor)"
proof -
  let ?e = "continuation_envelope c"
  have c: "c = \<lparr>cc_kind = k, cc_generation = g, cc_stream = st, cc_position = word_of_nat pos\<rparr>" "pos < 2 ^ 64"
    using assms(2) by (auto simp: continuation_at_def split: if_splits)
  have ok: "envelope_ok ?e" using continuation_envelope_ok [of c] c(1) assms(3) by simp
  have "length (envelope_bytes ?e @ cursor_checksum L (envelope_bytes ?e)) = 42"
    using assms(1,3) c(1)
    by (simp add: length_envelope_bytes continuation_envelope_def cursor_checksum_def cursor_lib_ok_def cursor_sizes)
  then have len: "length (envelope_encode L ?e) = encoded_cursor_bytes"
    using assms(1) by (simp add: envelope_encode_def cursor_lib_ok_def encoded_cursor_bytes_def)
  then have "envelope_parse L (envelope_encode L ?e) encoded_cursor_bytes = Inr ?e"
    by (intro envelope_parse_encode [OF assms(1) ok]) (simp add: cursor_sizes)
  then have "continuation_parse L (continuation_encode L c) = Inr c"
    using len by (simp add: continuation_parse_def continuation_encode_def) (simp add: continuation_envelope_def)
  moreover have "unat (cc_position c) = pos"
    using c by (simp add: unsigned_of_nat take_bit_nat_eq_self)
  ultimately show ?thesis
    using len c(1) by (auto simp: continuation_parse_optional_def continuation_encode_def position_for_def)
qed

section \<open>Stream identities\<close>

fun field_sort :: "stream_field \<Rightarrow> nat" where
  "field_sort (Field_Bytes _ _) = 0"
| "field_sort (Field_Optional_Str _ _) = 1"
| "field_sort (Field_Bool _ _) = 2"
| "field_sort (Field_Usize _ _) = 3"
| "field_sort (Field_Optional_Usize _ _) = 4"
| "field_sort (Field_Strings _ _) = 5"

fun field_fits :: "stream_field \<Rightarrow> bool" where
  "field_fits (Field_Bytes n v) \<longleftrightarrow> length n \<le> usize_max \<and> length v \<le> usize_max"
| "field_fits (Field_Optional_Str n v) \<longleftrightarrow> length n \<le> usize_max \<and> (case v of None \<Rightarrow> True | Some s \<Rightarrow> length s \<le> usize_max)"
| "field_fits (Field_Bool n v) \<longleftrightarrow> length n \<le> usize_max"
| "field_fits (Field_Usize n v) \<longleftrightarrow> length n \<le> usize_max \<and> v \<le> usize_max"
| "field_fits (Field_Optional_Usize n v) \<longleftrightarrow> length n \<le> usize_max \<and> (case v of None \<Rightarrow> True | Some s \<Rightarrow> s \<le> usize_max)"
| "field_fits (Field_Strings n vs) \<longleftrightarrow> length n \<le> usize_max \<and> length vs \<le> usize_max \<and> list_all (\<lambda>v. length v \<le> usize_max) vs"

lemma le8_inj:
  assumes "le_encode 8 a @ r = le_encode 8 b @ q" "a \<le> usize_max" "b \<le> usize_max"
  shows "a = b \<and> r = q"
proof -
  have eq: "le_encode 8 a = le_encode 8 b" "r = q" using assms(1) by (simp_all add: append_eq_append_conv)
  have "a < 256 ^ 8" "b < 256 ^ 8" using assms(2,3) by (simp_all add: usize_max_def)
  then have "a = b" using eq(1) le_decode_encode by metis
  then show ?thesis using eq(2) by simp
qed

lemma length_prefixed_inj:
  assumes "length_prefixed v @ r = length_prefixed w @ q" "length v \<le> usize_max" "length w \<le> usize_max"
  shows "v = w \<and> r = q"
proof -
  have "length v = length w \<and> v @ r = w @ q"
    by (rule le8_inj) (use assms in \<open>simp_all add: length_prefixed_def\<close>)
  then show ?thesis using append_eq_append_conv [of v w r q] by blast
qed

lemma prefixed_list_inj:
  "length vs = length ws \<Longrightarrow> list_all (\<lambda>v. length v \<le> usize_max) vs \<Longrightarrow> list_all (\<lambda>v. length v \<le> usize_max) ws \<Longrightarrow>
    concat (map length_prefixed vs) @ r = concat (map length_prefixed ws) @ q \<Longrightarrow> vs = ws \<and> r = q"
proof (induction vs ws rule: list_induct2)
  case (Cons v vs w ws)
  have "v = w \<and> concat (map length_prefixed vs) @ r = concat (map length_prefixed ws) @ q"
    by (rule length_prefixed_inj) (use Cons.prems in simp_all)
  then show ?case using Cons by simp
qed simp

fun field_name :: "stream_field \<Rightarrow> string" where
  "field_name (Field_Bytes n _) = n"
| "field_name (Field_Optional_Str n _) = n"
| "field_name (Field_Bool n _) = n"
| "field_name (Field_Usize n _) = n"
| "field_name (Field_Optional_Usize n _) = n"
| "field_name (Field_Strings n _) = n"

definition value_input :: "stream_field \<Rightarrow> string" where
  "value_input f = drop (8 + length (field_name f)) (field_input f)"

lemma field_input_eq: "field_input f = length_prefixed (field_name f) @ value_input f"
  by (cases f) (simp_all add: value_input_def length_prefixed_def)

lemma value_input_simps [simp]:
  "value_input (Field_Bytes n v) = length_prefixed v"
  "value_input (Field_Optional_Str n None) = [CHR 0x00]"
  "value_input (Field_Optional_Str n (Some t)) = CHR 0x01 # length_prefixed t"
  "value_input (Field_Bool n b) = [if b then CHR 0x01 else CHR 0x00]"
  "value_input (Field_Usize n u) = le_encode 8 u"
  "value_input (Field_Optional_Usize n None) = [CHR 0x00]"
  "value_input (Field_Optional_Usize n (Some u)) = CHR 0x01 # le_encode 8 u"
  "value_input (Field_Strings n vs) = le_encode 8 (length vs) @ concat (map length_prefixed vs)"
  by (simp_all add: value_input_def length_prefixed_def)

lemma field_fits_name: "field_fits f \<Longrightarrow> length (field_name f) \<le> usize_max"
  by (cases f) auto

lemma field_input_inj:
  assumes eq: "field_input f @ r = field_input g @ q" and sort: "field_sort f = field_sort g"
    and fits: "field_fits f" "field_fits g"
  shows "f = g \<and> r = q"
proof -
  have "field_name f = field_name g \<and> value_input f @ r = value_input g @ q"
    by (rule length_prefixed_inj) (use eq fits field_fits_name in \<open>simp_all add: field_input_eq\<close>)
  then have n: "field_name f = field_name g" and v: "value_input f @ r = value_input g @ q" by auto
  show ?thesis
  proof (cases f)
    case f: (Field_Bytes m x)
    then obtain y where g: "g = Field_Bytes m y" using n sort by (cases g) auto
    show ?thesis using length_prefixed_inj [of x r y q] v fits unfolding f g by simp
  next
    case f: (Field_Optional_Str m x)
    then obtain y where g: "g = Field_Optional_Str m y" using n sort by (cases g) auto
    show ?thesis
      using v fits length_prefixed_inj [of "the x" r "the y" q] unfolding f g by (cases x; cases y; simp)
  next
    case f: (Field_Bool m x)
    then obtain y where g: "g = Field_Bool m y" using n sort by (cases g) auto
    show ?thesis using v unfolding f g by (cases x; cases y; simp)
  next
    case f: (Field_Usize m x)
    then obtain y where g: "g = Field_Usize m y" using n sort by (cases g) auto
    show ?thesis using le8_inj [of x r y q] v fits unfolding f g by simp
  next
    case f: (Field_Optional_Usize m x)
    then obtain y where g: "g = Field_Optional_Usize m y" using n sort by (cases g) auto
    show ?thesis using v fits le8_inj [of "the x" r "the y" q] unfolding f g by (cases x; cases y; simp)
  next
    case f: (Field_Strings m x)
    then obtain y where g: "g = Field_Strings m y" using n sort by (cases g) auto
    have "length x = length y \<and> concat (map length_prefixed x) @ r = concat (map length_prefixed y) @ q"
      by (rule le8_inj) (use v fits in \<open>simp_all add: f g\<close>)
    then show ?thesis using prefixed_list_inj [of x y r q] fits unfolding f g by simp
  qed
qed

lemma fields_input_inj:
  "map field_sort fs = map field_sort gs \<Longrightarrow> list_all field_fits fs \<Longrightarrow> list_all field_fits gs \<Longrightarrow>
    concat (map field_input fs) = concat (map field_input gs) \<Longrightarrow> fs = gs"
proof (induction fs arbitrary: gs)
  case (Cons f fs)
  then obtain g gs' where gs: "gs = g # gs'" by (cases gs) auto
  have "f = g \<and> concat (map field_input fs) = concat (map field_input gs')"
    by (rule field_input_inj) (use Cons.prems gs in simp_all)
  then show ?case using Cons gs by simp
qed simp

text \<open>Stream identities do not mix streams up: two streams described by the same sorts of fields get the
  same identity only if they are of the same kind and every field has the same name and value, or the
  hash of their descriptions collides in its first 16 bytes.\<close>

theorem stream_identity_separates:
  assumes "map field_sort fs = map field_sort gs" "list_all field_fits (fs @ gs)"
    and "stream_finish L k fs = stream_finish L k' gs"
  shows "(k = k' \<and> fs = gs) \<or>
    (stream_input k fs \<noteq> stream_input k' gs \<and>
     take 16 (blake3 L (stream_input k fs)) = take 16 (blake3 L (stream_input k' gs)))"
proof (cases "stream_input k fs = stream_input k' gs")
  case True
  then have k: "(char_of (kind_byte k) :: char) = char_of (kind_byte k')"
    and f: "concat (map field_input fs) = concat (map field_input gs)"
    by (simp_all add: stream_input_def)
  from k have "(of_char (char_of (kind_byte k) :: char) :: nat) = of_char (char_of (kind_byte k') :: char)" by simp
  then have "kind_byte k = kind_byte k'"
    unfolding of_char_of using kind_byte_less [of k] kind_byte_less [of k'] by simp
  then have "k = k'" using kind_parse_byte by (metis sum.inject(2))
  then show ?thesis using fields_input_inj [OF assms(1) _ _ f] assms(2) by simp
next
  case False
  then show ?thesis using assms(3) by (simp add: stream_finish_def stream_id_bytes_def)
qed

section \<open>An instance of the libraries\<close>

definition sample_encode :: "string \<Rightarrow> string" where
  "sample_encode b = b @ replicate ((length b + 2) div 3) CHR ''=''"

definition sample_lib :: cursor_lib where
  "sample_lib = \<lparr> b64_encode = sample_encode,
     b64_decode = (\<lambda>s. let b = take (3 * length s div 4) s in if sample_encode b = s then Some b else None),
     blake3 = (\<lambda>b. take 32 (rev b @ replicate 32 CHR ''0'')) \<rparr>"

lemma sample_lib_ok: "cursor_lib_ok sample_lib"
proof -
  have "length (sample_encode b) = (4 * length b + 2) div 3" for b by (simp add: sample_encode_def)
  moreover have "b64_decode sample_lib (sample_encode b) = Some b" for b
  proof -
    have "3 * length (sample_encode b) div 4 = length b" by (simp add: sample_encode_def)
    then have "take (3 * length (sample_encode b) div 4) (sample_encode b) = b" by (simp add: sample_encode_def)
    then show ?thesis by (simp add: sample_lib_def)
  qed
  moreover have "length (blake3 sample_lib b) = 32" for b by (simp add: sample_lib_def min_def)
  moreover have "b64_encode sample_lib = sample_encode" by (simp add: sample_lib_def)
  ultimately show ?thesis by (simp only: cursor_lib_ok_def simp_thms)
qed

definition sample_stream :: string where
  "sample_stream = stream_finish sample_lib Kind_Search [Field_Bytes ''query'' ''fn main'', Field_Bool ''regex'' False]"

lemma length_sample_stream: "length sample_stream = stream_id_bytes"
  by (simp add: sample_stream_def stream_finish_def sample_lib_def stream_id_bytes_def)

theorem envelope_roundtrip_witness:
  "envelope_parse sample_lib (envelope_encode sample_lib
     \<lparr>env_kind = Kind_Read, env_generation = 7, env_stream = sample_stream, env_payload = ''abc''\<rparr>) max_encoded_cursor_bytes =
   Inr \<lparr>env_kind = Kind_Read, env_generation = 7, env_stream = sample_stream, env_payload = ''abc''\<rparr>"
  by (rule envelope_roundtrip [OF sample_lib_ok _ length_sample_stream, of Kind_Read 7 "''abc''"])
    (simp add: envelope_new_def max_cursor_payload_bytes_def)

definition sample_continuation :: continuation_cursor where
  "sample_continuation = \<lparr>cc_kind = Kind_Search, cc_generation = 7, cc_stream = sample_stream, cc_position = 20\<rparr>"

lemma sample_continuation_at: "continuation_at Kind_Search 7 sample_stream 20 = Inr sample_continuation"
  by (simp add: continuation_at_def sample_continuation_def)

theorem continuation_resumes_witness:
  "continuation_parse_optional sample_lib (Some (continuation_encode sample_lib sample_continuation)) = Inr (Some sample_continuation) \<and>
   position_for sample_continuation Kind_Search 7 sample_stream = Inr 20 \<and>
   position_for sample_continuation Kind_Files 7 sample_stream = Inl Stale_Cursor"
  using continuation_resumes [OF sample_lib_ok sample_continuation_at length_sample_stream, of Kind_Search 7 sample_stream]
    continuation_resumes [OF sample_lib_ok sample_continuation_at length_sample_stream, of Kind_Files 7 sample_stream]
  by simp

lemma sample_parse:
  "envelope_parse sample_lib (continuation_encode sample_lib sample_continuation) 256 =
     Inr (continuation_envelope sample_continuation)"
proof -
  have ok: "envelope_ok (continuation_envelope sample_continuation)"
    by (rule continuation_envelope_ok) (simp add: sample_continuation_def length_sample_stream)
  show ?thesis unfolding continuation_encode_def
    by (rule envelope_parse_encode [OF sample_lib_ok ok])
      (use continuation_resumes [OF sample_lib_ok sample_continuation_at length_sample_stream]
        in \<open>simp add: continuation_encode_def cursor_sizes\<close>)
qed

theorem envelope_canonical_witness:
  "envelope_encode sample_lib (continuation_envelope sample_continuation) = continuation_encode sample_lib sample_continuation"
  using envelope_canonical [OF sample_parse] by simp

theorem stream_identity_separates_witness:
  "(Kind_Search = Kind_Search \<and> [Field_Bytes ''q'' ''a''] = [Field_Bytes ''q'' ''b'']) \<or>
    (stream_input Kind_Search [Field_Bytes ''q'' ''a''] \<noteq> stream_input Kind_Search [Field_Bytes ''q'' ''b''] \<and>
     take 16 (blake3 (sample_lib\<lparr>blake3 := \<lambda>_. replicate 32 CHR ''0''\<rparr>) (stream_input Kind_Search [Field_Bytes ''q'' ''a''])) =
     take 16 (blake3 (sample_lib\<lparr>blake3 := \<lambda>_. replicate 32 CHR ''0''\<rparr>) (stream_input Kind_Search [Field_Bytes ''q'' ''b''])))"
  by (rule stream_identity_separates) (simp_all add: usize_max_def stream_finish_def)

end
