(* ===== verification/Read_Cursor.thy ===== *)
theory Read_Cursor
  imports Cursor Text "HOL-Library.Monad_Syntax"
begin

text \<open>
  The payloads of read and JSON cursors (\<open>src/services/read/cursor.rs\<close>, \<open>src/services/json/cursor.rs\<close>).
  The locale \<open>wire\<close> is the contract between a field's writer and its reader: the reader takes back
  exactly what the writer put, and whatever it takes is what the writer would have put.  Every
  failure of \<open>PayloadReader\<close> is a stale cursor, so a reader is an option.
\<close>

section \<open>Fields on the wire\<close>

locale wire =
  fixes valid :: "'a \<Rightarrow> bool" and put :: "'a \<Rightarrow> string" and get :: "string \<Rightarrow> ('a \<times> string) option"
  assumes get_put: "valid x \<Longrightarrow> get (put x @ rest) = Some (x, rest)"
    and put_get: "get s = Some (x, rest) \<Longrightarrow> valid x \<and> s = put x @ rest"
begin

lemma get_iff: "get s = Some (x, rest) \<longleftrightarrow> valid x \<and> s = put x @ rest"
  using get_put put_get by blast

lemma put_inject: "valid x \<Longrightarrow> valid y \<Longrightarrow> put x @ r = put y @ q \<Longrightarrow> x = y \<and> r = q"
  using get_put [of x r] get_put [of y q] by (metis option.inject prod.inject)

end

definition take_slice :: "nat \<Rightarrow> string \<Rightarrow> (string \<times> string) option" where
  "take_slice n s = (if length s < n then None else Some (take n s, drop n s))"

definition reader_byte :: "string \<Rightarrow> (nat \<times> string) option" where
  "reader_byte s = (case take_slice 1 s of None \<Rightarrow> None | Some (b, r) \<Rightarrow> Some (of_char (b ! 0), r))"

definition push_usize :: "usize \<Rightarrow> string" where
  "push_usize v = le_encode 8 v"

definition reader_usize :: "string \<Rightarrow> (usize \<times> string) option" where
  "reader_usize s = (case take_slice 8 s of None \<Rightarrow> None | Some (b, r) \<Rightarrow> Some (unat (u64_from_le b), r))"

definition push_u128 :: "128 word \<Rightarrow> string" where
  "push_u128 w = le_encode 16 (unat w)"

definition reader_u128 :: "string \<Rightarrow> (128 word \<times> string) option" where
  "reader_u128 s = (case take_slice 16 s of None \<Rightarrow> None | Some (b, r) \<Rightarrow> Some (word_of_nat (le_decode b), r))"

definition is_lower_hex :: "char \<Rightarrow> bool" where
  "is_lower_hex c \<longleftrightarrow> is_ascii_digit c \<or> in_range c 97 102"

definition fingerprint_valid :: "string \<Rightarrow> bool" where
  "fingerprint_valid s \<longleftrightarrow> length s = content_fingerprint_hex_len \<and> list_all is_lower_hex s"

definition reader_fingerprint :: "string \<Rightarrow> (string \<times> string) option" where
  "reader_fingerprint s =
     (case take_slice content_fingerprint_hex_len s of None \<Rightarrow> None
      | Some (b, r) \<Rightarrow> if utf8_valid b \<and> list_all is_lower_hex b then Some (b, r) else None)"

text \<open>\<open>optional_usize\<close>, \<open>optional_u128\<close> and \<open>fingerprint\<close> have one shape: a tag byte before the value.\<close>

definition push_optional :: "('a \<Rightarrow> string) \<Rightarrow> 'a option \<Rightarrow> string" where
  "push_optional put v = (case v of None \<Rightarrow> [CHR 0x00] | Some x \<Rightarrow> CHR 0x01 # put x)"

definition reader_optional :: "(string \<Rightarrow> ('a \<times> string) option) \<Rightarrow> string \<Rightarrow> ('a option \<times> string) option" where
  "reader_optional get s =
     (case reader_byte s of
        None \<Rightarrow> None
      | Some (tag, r) \<Rightarrow>
          if tag = 0 then Some (None, r)
          else if tag = 1 then map_option (\<lambda>(x, r). (Some x, r)) (get r)
          else None)"

lemma reader_byte_Cons [simp]: "reader_byte (c # s) = Some (of_char c, s)"
  by (simp add: reader_byte_def take_slice_def)

lemma reader_byte_Nil [simp]: "reader_byte [] = None"
  by (simp add: reader_byte_def take_slice_def)

lemma take_slice_Some: "take_slice n s = Some (b, r) \<longleftrightarrow> s = b @ r \<and> length b = n"
  by (auto simp: take_slice_def)

lemma take_slice_append [simp]: "length b = n \<Longrightarrow> take_slice n (b @ r) = Some (b, r)"
  by (simp add: take_slice_def)

lemma lower_hex_ascii: "is_lower_hex c \<Longrightarrow> (of_char c :: nat) < 128"
  by (auto simp: is_lower_hex_def is_ascii_digit_def in_range_def)

interpretation usize_wire: wire "\<lambda>v. v \<le> usize_max" push_usize reader_usize
proof
  fix x :: usize and rest
  assume x: "x \<le> usize_max"
  then have "x < 256 ^ 8" by (simp add: usize_max_def)
  then have "unat (u64_from_le (le_encode 8 x)) = x"
    using x by (simp add: u64_from_le_def le_decode_encode unsigned_of_nat take_bit_nat_eq_self usize_max_def)
  then show "reader_usize (push_usize x @ rest) = Some (x, rest)"
    by (simp add: reader_usize_def push_usize_def)
next
  fix s x rest
  assume "reader_usize s = Some (x, rest)"
  then obtain b where b: "s = b @ rest" "length b = 8" "x = unat (u64_from_le b)"
    by (auto simp: reader_usize_def take_slice_Some split: option.splits)
  then have "push_usize x = b" using u64_canonical [OF b(2)] by (simp add: push_usize_def u64_to_le_def)
  moreover have "x \<le> usize_max" using b(3) unsigned_less [of "u64_from_le b", where 'a = nat] by (simp add: usize_max_def)
  ultimately show "x \<le> usize_max \<and> s = push_usize x @ rest" using b(1) by simp
qed

interpretation u128_wire: wire "\<lambda>_. True" push_u128 reader_u128
proof
  fix x :: "128 word" and rest
  have "unat x < 256 ^ 16" using unsigned_less [of x, where 'a = nat] by simp
  then show "reader_u128 (push_u128 x @ rest) = Some (x, rest)"
    by (simp add: reader_u128_def push_u128_def le_decode_encode)
next
  fix s x rest
  assume "reader_u128 s = Some (x, rest)"
  then obtain b where b: "s = b @ rest" "length b = 16" "x = word_of_nat (le_decode b)"
    by (auto simp: reader_u128_def take_slice_Some split: option.splits)
  then have "push_u128 x = b"
    using le_decode_less [of b] le_encode_decode [of b]
    by (simp add: push_u128_def unsigned_of_nat take_bit_nat_eq_self)
  then show "True \<and> s = push_u128 x @ rest" using b(1) by simp
qed

interpretation fingerprint_wire: wire fingerprint_valid "\<lambda>s. s" reader_fingerprint
proof
  fix x rest
  assume "fingerprint_valid x"
  then have x: "length x = content_fingerprint_hex_len" "list_all is_lower_hex x" by (simp_all add: fingerprint_valid_def)
  then have "list_all (\<lambda>c. (of_char c :: nat) < 128) x" by (auto simp: list_all_iff lower_hex_ascii)
  then have "utf8_valid x" by (rule ascii_utf8_valid)
  then show "reader_fingerprint (x @ rest) = Some (x, rest)" using x by (simp add: reader_fingerprint_def)
next
  fix s x rest
  assume "reader_fingerprint s = Some (x, rest)"
  then show "fingerprint_valid x \<and> s = x @ rest"
    by (auto simp: reader_fingerprint_def fingerprint_valid_def take_slice_Some split: option.splits if_splits)
qed

lemma tag_byte: "(of_char c :: nat) = 0 \<longleftrightarrow> c = CHR 0x00" "(of_char c :: nat) = Suc 0 \<longleftrightarrow> c = CHR 0x01"
  using of_char_eq_iff [of c "CHR 0x00", where 'a = nat] of_char_eq_iff [of c "CHR 0x01", where 'a = nat] by simp_all

lemma wire_optional:
  assumes "wire valid put get"
  shows "wire (pred_option valid) (push_optional put) (reader_optional get)"
proof
  fix x rest
  assume "pred_option valid x"
  then show "reader_optional get (push_optional put x @ rest) = Some (x, rest)"
    using wire.get_put [OF assms] by (cases x) (simp_all add: push_optional_def reader_optional_def)
next
  fix s x rest
  assume "reader_optional get s = Some (x, rest)"
  then show "pred_option valid x \<and> s = push_optional put x @ rest"
    using wire.put_get [OF assms]
    by (cases s)
      (auto simp: push_optional_def reader_optional_def tag_byte split: if_splits)
qed

interpretation optional_usize_wire:
  wire "pred_option (\<lambda>v. v \<le> usize_max)" "push_optional push_usize" "reader_optional reader_usize"
  by (rule wire_optional) (rule usize_wire.wire_axioms)

interpretation optional_u128_wire:
  wire "pred_option (\<lambda>_. True)" "push_optional push_u128" "reader_optional reader_u128"
  by (rule wire_optional) (rule u128_wire.wire_axioms)

interpretation optional_fingerprint_wire:
  wire "pred_option fingerprint_valid" "push_optional (\<lambda>s. s)" "reader_optional reader_fingerprint"
  by (rule wire_optional) (rule fingerprint_wire.wire_axioms)

section \<open>Read cursors\<close>

datatype read_policy = Read_Bounded | Read_Full

record read_cursor_state =
  target_start_line :: usize
  target_end_line :: "usize option"
  next_start_line :: usize
  next_byte :: usize
  full_hash :: "string option"
  prefix_hash :: "string option"
  read_policy :: read_policy
  file_size :: usize
  modified_ns :: "128 word option"

record read_cursor =
  rc_envelope :: cursor_envelope
  rc_state :: read_cursor_state

definition max_read_cursor_bytes :: nat where "max_read_cursor_bytes = 256"

definition fingerprints_match_policy :: "read_cursor_state \<Rightarrow> bool" where
  "fingerprints_match_policy st =
     (case read_policy st of
        Read_Bounded \<Rightarrow> full_hash st = None \<and> prefix_hash st \<noteq> None
      | Read_Full \<Rightarrow> full_hash st \<noteq> None \<and> prefix_hash st = None)"

definition validate_read_state :: "read_cursor_state \<Rightarrow> cursor_error + unit" where
  "validate_read_state st =
     (if target_start_line st = 0 \<or> next_start_line st < target_start_line st
         \<or> (case target_end_line st of None \<Rightarrow> False
             | Some e \<Rightarrow> e < target_start_line st \<or> e < next_start_line st)
         \<or> next_byte st = 0 \<or> \<not> fingerprints_match_policy st
      then Inl Stale_Cursor else Inr ())"

definition push_policy :: "read_policy \<Rightarrow> string" where
  "push_policy p = [case p of Read_Bounded \<Rightarrow> CHR 0x01 | Read_Full \<Rightarrow> CHR 0x02]"

definition reader_policy :: "string \<Rightarrow> (read_policy \<times> string) option" where
  "reader_policy s =
     (case reader_byte s of
        None \<Rightarrow> None
      | Some (tag, r) \<Rightarrow>
          if tag = 1 then Some (Read_Bounded, r) else if tag = 2 then Some (Read_Full, r) else None)"

definition push_fingerprint :: "string option \<Rightarrow> cursor_error + string" where
  "push_fingerprint v =
     (if pred_option fingerprint_valid v then Inr (push_optional (\<lambda>s. s) v)
      else Inl (Operation_Failure ''invalid read cursor fingerprint''))"

definition state_payload :: "read_cursor_state \<Rightarrow> string" where
  "state_payload st =
     push_policy (read_policy st) @ push_usize (target_start_line st) @ push_optional push_usize (target_end_line st) @
     push_usize (next_start_line st) @ push_usize (next_byte st) @ push_optional (\<lambda>s. s) (full_hash st) @
     push_optional (\<lambda>s. s) (prefix_hash st) @ push_usize (file_size st) @ push_optional push_u128 (modified_ns st)"

definition encode_read_cursor ::
  "cursor_lib \<Rightarrow> 64 word \<Rightarrow> string \<Rightarrow> read_cursor_state \<Rightarrow> cursor_error + string" where
  "encode_read_cursor L g stream st =
     (case validate_read_state st of
        Inl e \<Rightarrow> Inl e
      | Inr _ \<Rightarrow>
          case push_fingerprint (full_hash st) of
            Inl e \<Rightarrow> Inl e
          | Inr _ \<Rightarrow>
              case push_fingerprint (prefix_hash st) of
                Inl e \<Rightarrow> Inl e
              | Inr _ \<Rightarrow> map_sum id (envelope_encode L) (envelope_new Kind_Read g stream (state_payload st)))"

definition reader_state :: "string \<Rightarrow> (read_cursor_state \<times> string) option" where
  "reader_state s = do {
     (p, s) \<leftarrow> reader_policy s;
     (start, s) \<leftarrow> reader_usize s;
     (end_line, s) \<leftarrow> reader_optional reader_usize s;
     (next_line, s) \<leftarrow> reader_usize s;
     (next_b, s) \<leftarrow> reader_usize s;
     (full, s) \<leftarrow> reader_optional reader_fingerprint s;
     (prefix, s) \<leftarrow> reader_optional reader_fingerprint s;
     (size_b, s) \<leftarrow> reader_usize s;
     (modified, s) \<leftarrow> reader_optional reader_u128 s;
     Some (\<lparr> target_start_line = start, target_end_line = end_line, next_start_line = next_line, next_byte = next_b,
             full_hash = full, prefix_hash = prefix, read_policy = p, file_size = size_b, modified_ns = modified \<rparr>, s) }"

definition decode_read_cursor :: "cursor_lib \<Rightarrow> string \<Rightarrow> cursor_error + read_cursor" where
  "decode_read_cursor L cursor =
     (case envelope_parse L cursor max_read_cursor_bytes of
        Inl e \<Rightarrow> Inl e
      | Inr c \<Rightarrow>
          case payload_for c (env_kind c) (env_generation c) (env_stream c) of
            Inl e \<Rightarrow> Inl e
          | Inr payload \<Rightarrow>
              case reader_state payload of
                None \<Rightarrow> Inl Stale_Cursor
              | Some (st, rest) \<Rightarrow>
                  if rest \<noteq> [] then Inl Stale_Cursor
                  else case validate_read_state st of
                    Inl _ \<Rightarrow> Inl Stale_Cursor
                  | Inr _ \<Rightarrow> Inr \<lparr>rc_envelope = c, rc_state = st\<rparr>)"

definition validate_read_cursor :: "read_cursor \<Rightarrow> 64 word \<Rightarrow> string \<Rightarrow> cursor_error + unit" where
  "validate_read_cursor c g stream = map_sum id (\<lambda>_. ()) (payload_for (rc_envelope c) Kind_Read g stream)"

text \<open>Field values that the types of the program can hold.\<close>

definition state_fits :: "read_cursor_state \<Rightarrow> bool" where
  "state_fits st \<longleftrightarrow> target_start_line st \<le> usize_max \<and> pred_option (\<lambda>v. v \<le> usize_max) (target_end_line st) \<and>
     next_start_line st \<le> usize_max \<and> next_byte st \<le> usize_max \<and> file_size st \<le> usize_max"

definition state_prints :: "read_cursor_state \<Rightarrow> bool" where
  "state_prints st \<longleftrightarrow> state_fits st \<and> pred_option fingerprint_valid (full_hash st) \<and> pred_option fingerprint_valid (prefix_hash st)"

interpretation policy_wire: wire "\<lambda>_. True" push_policy reader_policy
proof
  show "reader_policy (push_policy x @ rest) = Some (x, rest)" for x rest
    by (cases x) (simp_all add: reader_policy_def push_policy_def)
next
  fix s x rest
  have two: "(of_char c :: nat) = 2 \<longleftrightarrow> c = CHR 0x02" for c
    using of_char_eq_iff [of c "CHR 0x02", where 'a = nat] by (simp add: numeral_2_eq_2)
  assume "reader_policy s = Some (x, rest)"
  then show "True \<and> s = push_policy x @ rest"
    by (cases s) (auto simp: reader_policy_def push_policy_def tag_byte two split: if_splits)
qed

lemmas field_readers = policy_wire.get_iff usize_wire.get_iff optional_usize_wire.get_iff
  optional_fingerprint_wire.get_iff optional_u128_wire.get_iff

interpretation state_wire: wire state_prints state_payload reader_state
proof
  fix st rest
  assume "state_prints st"
  then show "reader_state (state_payload st @ rest) = Some (st, rest)"
    by (simp add: state_prints_def state_fits_def reader_state_def state_payload_def policy_wire.get_put
        usize_wire.get_put optional_usize_wire.get_put optional_fingerprint_wire.get_put optional_u128_wire.get_put
        option.pred_True)
next
  fix s st rest
  assume "reader_state s = Some (st, rest)"
  then show "state_prints st \<and> s = state_payload st @ rest"
    by (auto simp: reader_state_def bind_eq_Some_conv field_readers state_prints_def state_fits_def state_payload_def)
qed

lemma length_push_optional: "(\<And>x. v = Some x \<Longrightarrow> length (put x) \<le> n) \<Longrightarrow> length (push_optional put v) \<le> Suc n"
  by (cases v) (auto simp: push_optional_def)

lemma length_state_payload:
  assumes "state_prints st" shows "length (state_payload st) \<le> 125"
proof -
  have "length (push_optional push_usize (target_end_line st)) \<le> Suc 8"
    by (rule length_push_optional) (simp add: push_usize_def)
  moreover have "length (push_optional push_u128 (modified_ns st)) \<le> Suc 16"
    by (rule length_push_optional) (simp add: push_u128_def)
  moreover have "pred_option fingerprint_valid v \<Longrightarrow> length (push_optional (\<lambda>s. s) v) \<le> 33" for v
    by (cases v) (auto simp: push_optional_def fingerprint_valid_def content_fingerprint_hex_len_def)
  then have "length (push_optional (\<lambda>s. s) (full_hash st)) \<le> 33" "length (push_optional (\<lambda>s. s) (prefix_hash st)) \<le> 33"
    using assms by (simp_all add: state_prints_def)
  ultimately show ?thesis by (simp add: state_payload_def push_policy_def push_usize_def)
qed

lemma encode_read_cursor_eq:
  "encode_read_cursor L g stream st =
     (if validate_read_state st \<noteq> Inr () then Inl Stale_Cursor
      else if \<not> (pred_option fingerprint_valid (full_hash st) \<and> pred_option fingerprint_valid (prefix_hash st))
      then Inl (Operation_Failure ''invalid read cursor fingerprint'')
      else map_sum id (envelope_encode L) (envelope_new Kind_Read g stream (state_payload st)))"
  by (auto simp: encode_read_cursor_def validate_read_state_def push_fingerprint_def)

text \<open>A read cursor carries its page exactly: the cursor printed for a reading state decodes to that state
  on the next call, every line, byte, hash and time stamp at its full width, is accepted for the
  snapshot and stream it was made for and refused as stale for every other.\<close>

theorem read_cursor_roundtrip:
  assumes "cursor_lib_ok L" "length stream = stream_id_bytes" "state_fits st" "encode_read_cursor L g stream st = Inr s"
  shows "\<exists>rc. decode_read_cursor L s = Inr rc \<and> rc_state rc = st \<and> (\<forall>g' stream'.
    validate_read_cursor rc g' stream' = (if (g', stream') = (g, stream) then Inr () else Inl Stale_Cursor))"
proof -
  let ?c = "\<lparr>env_kind = Kind_Read, env_generation = g, env_stream = stream, env_payload = state_payload st\<rparr>"
  have ok: "validate_read_state st = Inr ()" "state_prints st"
    using assms(3,4) by (auto simp: encode_read_cursor_eq state_prints_def split: if_splits)
  have len: "length (state_payload st) \<le> 125" by (rule length_state_payload [OF ok(2)])
  then have new: "envelope_new Kind_Read g stream (state_payload st) = Inr ?c"
    by (simp add: envelope_new_def max_cursor_payload_bytes_def)
  then have s: "s = envelope_encode L ?c"
    using assms(4) ok by (simp add: encode_read_cursor_eq state_prints_def split: if_splits)
  have c: "envelope_ok ?c" using len assms(2) by (simp add: envelope_ok_def max_cursor_payload_bytes_def)
  have "length (envelope_bytes ?c @ cursor_checksum L (envelope_bytes ?c)) \<le> 34 + 125"
    using assms(1,2) len by (simp add: length_envelope_bytes cursor_checksum_def cursor_lib_ok_def cursor_sizes)
  then have "length s \<le> min max_read_cursor_bytes max_encoded_cursor_bytes"
    using assms(1) by (simp add: s envelope_encode_def cursor_lib_ok_def cursor_sizes max_read_cursor_bytes_def)
  then have "envelope_parse L s max_read_cursor_bytes = Inr ?c"
    unfolding s by (rule envelope_parse_encode [OF assms(1) c])
  moreover have "reader_state (state_payload st) = Some (st, [])"
    using state_wire.get_put [OF ok(2), of "[]"] by simp
  ultimately have "decode_read_cursor L s = Inr \<lparr>rc_envelope = ?c, rc_state = st\<rparr>"
    using ok(1) by (simp add: decode_read_cursor_def payload_for_def)
  then show ?thesis by (auto simp: validate_read_cursor_def payload_for_def)
qed

text \<open>Nothing but what the service printed is accepted as a read cursor: an accepted text holds a consistent
  state, and for the snapshot and stream it is valid for, printing that state gives the same text.\<close>

theorem read_cursor_canonical:
  assumes "decode_read_cursor L s = Inr rc" "validate_read_cursor rc g stream = Inr ()"
  shows "validate_read_state (rc_state rc) = Inr () \<and> state_prints (rc_state rc) \<and>
    encode_read_cursor L g stream (rc_state rc) = Inr s"
proof -
  obtain c st where rc: "rc = \<lparr>rc_envelope = c, rc_state = st\<rparr>" and c: "envelope_parse L s max_read_cursor_bytes = Inr c"
    and st: "reader_state (env_payload c) = Some (st, [])" "validate_read_state st = Inr ()"
    using assms(1) by (auto simp: decode_read_cursor_def payload_for_def split: sum.splits option.splits if_splits)
  have pr: "state_prints st" "env_payload c = state_payload st" using state_wire.put_get [OF st(1)] by simp_all
  have id: "env_kind c = Kind_Read" "env_generation c = g" "env_stream c = stream"
    using assms(2) rc by (auto simp: validate_read_cursor_def payload_for_def split: if_splits)
  have "envelope_new Kind_Read g stream (state_payload st) = Inr c"
    using envelope_parse_Inr(2) [OF c] pr id by (simp add: envelope_new_def envelope_ok_def)
  then have "encode_read_cursor L g stream st = Inr s"
    using st(2) pr(1) envelope_parse_Inr(1) [OF c] by (simp add: encode_read_cursor_eq state_prints_def)
  then show ?thesis using st(2) pr(1) rc by simp
qed

section \<open>JSON cursors\<close>

definition max_json_cursor_bytes :: nat where "max_json_cursor_bytes = 256"
definition json_cursor_generation :: "64 word" where "json_cursor_generation = 0"

definition is_ascii_hexdigit :: "char \<Rightarrow> bool" where
  "is_ascii_hexdigit c \<longleftrightarrow> is_ascii_digit c \<or> in_range c 97 102 \<or> in_range c 65 70"

definition is_fingerprint :: "string \<Rightarrow> bool" where
  "is_fingerprint s \<longleftrightarrow> length s = content_fingerprint_hex_len \<and> list_all is_ascii_hexdigit s"

definition make_json_cursor :: "cursor_lib \<Rightarrow> string \<Rightarrow> string \<Rightarrow> usize \<Rightarrow> cursor_error + string" where
  "make_json_cursor L stream source_hash offset =
     (if \<not> is_fingerprint source_hash \<or> offset = 0 then Inl (Operation_Failure ''invalid JSON continuation state'')
      else map_sum id (envelope_encode L)
        (envelope_new Kind_Json_Keys json_cursor_generation stream (source_hash @ push_usize offset)))"

definition decode_json_cursor :: "cursor_lib \<Rightarrow> string \<Rightarrow> cursor_error + cursor_envelope" where
  "decode_json_cursor L cursor = envelope_parse L cursor max_json_cursor_bytes"

definition offset_for :: "cursor_envelope \<Rightarrow> string \<Rightarrow> string \<Rightarrow> cursor_error + usize" where
  "offset_for c source_hash stream =
     (case payload_for c Kind_Json_Keys json_cursor_generation stream of
        Inl e \<Rightarrow> Inl e
      | Inr payload \<Rightarrow>
          if length payload \<noteq> content_fingerprint_hex_len + 8 then Inl Stale_Cursor
          else if take content_fingerprint_hex_len payload \<noteq> source_hash then Inl Stale_Cursor
          else
            let offset = unat (u64_from_le (drop content_fingerprint_hex_len payload)) in
            if offset = 0 then Inl Stale_Cursor else Inr offset)"

text \<open>A JSON cursor resumes where it was cut and only in the same source and stream: the cursor made for a
  source hash and an offset is accepted with that offset, and is stale for another hash or stream.\<close>

theorem json_cursor_resumes:
  assumes "cursor_lib_ok L" "length stream = stream_id_bytes" "offset \<le> usize_max" "make_json_cursor L stream h offset = Inr s"
  shows "\<exists>c. decode_json_cursor L s = Inr c \<and> (\<forall>h' stream'.
    offset_for c h' stream' = (if (h', stream') = (h, stream) then Inr offset else Inl Stale_Cursor))"
proof -
  let ?c = "\<lparr>env_kind = Kind_Json_Keys, env_generation = json_cursor_generation, env_stream = stream, env_payload = h @ push_usize offset\<rparr>"
  have h: "length h = 32" "offset \<noteq> 0"
    using assms(4) by (auto simp: make_json_cursor_def is_fingerprint_def content_fingerprint_hex_len_def split: if_splits)
  have len: "length (h @ push_usize offset) = 40" using h by (simp add: push_usize_def)
  then have s: "s = envelope_encode L ?c"
    using assms(4) by (simp add: make_json_cursor_def envelope_new_def max_cursor_payload_bytes_def split: if_splits)
  have c: "envelope_ok ?c" using len assms(2) by (simp add: envelope_ok_def max_cursor_payload_bytes_def)
  have "length (envelope_bytes ?c @ cursor_checksum L (envelope_bytes ?c)) = 74"
    using assms(1,2) len by (simp add: length_envelope_bytes cursor_checksum_def cursor_lib_ok_def cursor_sizes)
  then have "length s \<le> min max_json_cursor_bytes max_encoded_cursor_bytes"
    using assms(1) by (simp add: s envelope_encode_def cursor_lib_ok_def cursor_sizes max_json_cursor_bytes_def)
  then have "decode_json_cursor L s = Inr ?c"
    unfolding s decode_json_cursor_def by (rule envelope_parse_encode [OF assms(1) c])
  moreover have "unat (u64_from_le (push_usize offset)) = offset"
    using usize_wire.get_put [OF assms(3), of "[]"] by (simp add: reader_usize_def push_usize_def take_slice_def)
  ultimately show ?thesis using h
    by (auto simp: offset_for_def payload_for_def content_fingerprint_hex_len_def push_usize_def Let_def)
qed

section \<open>A page as an example\<close>

definition sample_state :: read_cursor_state where
  "sample_state = \<lparr>target_start_line = 10, target_end_line = None, next_start_line = 250, next_byte = 8192,
     full_hash = None, prefix_hash = Some (replicate 32 CHR ''a''), read_policy = Read_Bounded, file_size = 90000,
     modified_ns = Some 1700000000000000000\<rparr>"

lemma sample_state_facts:
  "validate_read_state sample_state = Inr ()" "state_prints sample_state" "state_fits sample_state"
  by (simp_all add: sample_state_def validate_read_state_def fingerprints_match_policy_def state_prints_def state_fits_def
      usize_max_def fingerprint_valid_def content_fingerprint_hex_len_def is_lower_hex_def in_range_def list_all_iff)

definition sample_read_text :: string where
  "sample_read_text = envelope_encode sample_lib
     \<lparr>env_kind = Kind_Read, env_generation = 3, env_stream = sample_stream, env_payload = state_payload sample_state\<rparr>"

lemma sample_encode_read: "encode_read_cursor sample_lib 3 sample_stream sample_state = Inr sample_read_text"
  using sample_state_facts length_state_payload [OF sample_state_facts(2)]
  by (simp add: encode_read_cursor_eq state_prints_def envelope_new_def max_cursor_payload_bytes_def sample_read_text_def)

theorem read_cursor_roundtrip_witness:
  "\<exists>rc. decode_read_cursor sample_lib sample_read_text = Inr rc \<and> rc_state rc = sample_state \<and>
     validate_read_cursor rc 3 sample_stream = Inr () \<and> validate_read_cursor rc 4 sample_stream = Inl Stale_Cursor"
  using read_cursor_roundtrip [OF sample_lib_ok length_sample_stream sample_state_facts(3) sample_encode_read] by fastforce

lemma sample_decode_read:
  "decode_read_cursor sample_lib sample_read_text = Inr \<lparr>rc_envelope =
     \<lparr>env_kind = Kind_Read, env_generation = 3, env_stream = sample_stream, env_payload = state_payload sample_state\<rparr>,
     rc_state = sample_state\<rparr>"
proof -
  let ?c = "\<lparr>env_kind = Kind_Read, env_generation = 3, env_stream = sample_stream, env_payload = state_payload sample_state\<rparr>"
  note len = length_state_payload [OF sample_state_facts(2)]
  have c: "envelope_ok ?c" using len by (simp add: envelope_ok_def max_cursor_payload_bytes_def length_sample_stream)
  have "length (envelope_bytes ?c @ cursor_checksum sample_lib (envelope_bytes ?c)) \<le> 159"
    using sample_lib_ok len
    by (simp add: length_envelope_bytes length_sample_stream cursor_checksum_def cursor_lib_ok_def cursor_sizes)
  then have "length (envelope_encode sample_lib ?c) \<le> min max_read_cursor_bytes max_encoded_cursor_bytes"
    using sample_lib_ok by (simp add: envelope_encode_def cursor_lib_ok_def cursor_sizes max_read_cursor_bytes_def)
  then have "envelope_parse sample_lib sample_read_text max_read_cursor_bytes = Inr ?c"
    unfolding sample_read_text_def by (rule envelope_parse_encode [OF sample_lib_ok c])
  moreover have "reader_state (state_payload sample_state) = Some (sample_state, [])"
    using state_wire.get_put [OF sample_state_facts(2), of "[]"] by simp
  ultimately show ?thesis using sample_state_facts(1) by (simp add: decode_read_cursor_def payload_for_def)
qed

theorem read_cursor_canonical_witness:
  "encode_read_cursor sample_lib 3 sample_stream sample_state = Inr sample_read_text \<and> state_prints sample_state"
  using read_cursor_canonical [OF sample_decode_read, of 3 sample_stream]
  by (simp add: validate_read_cursor_def payload_for_def)

definition sample_json_text :: string where
  "sample_json_text = envelope_encode sample_lib
     \<lparr>env_kind = Kind_Json_Keys, env_generation = 0, env_stream = sample_stream, env_payload = replicate 32 CHR ''b'' @ push_usize 50\<rparr>"

theorem json_cursor_resumes_witness:
  "\<exists>c. decode_json_cursor sample_lib sample_json_text = Inr c \<and>
     offset_for c (replicate 32 CHR ''b'') sample_stream = Inr 50"
proof -
  have "make_json_cursor sample_lib sample_stream (replicate 32 CHR ''b'') 50 = Inr sample_json_text"
    by (simp add: make_json_cursor_def is_fingerprint_def content_fingerprint_hex_len_def list_all_iff is_ascii_hexdigit_def
        in_range_def envelope_new_def push_usize_def max_cursor_payload_bytes_def sample_json_text_def json_cursor_generation_def)
  from json_cursor_resumes [OF sample_lib_ok length_sample_stream _ this] show ?thesis by (auto simp: usize_max_def)
qed

end
