(* ===== verification/Response_Accounting.thy ===== *)
theory Response_Accounting
  imports Tokens
begin

text \<open>
  Sizing of a serialized response that contains its own size (\<open>src/services/accounting.rs\<close>).  The
  accounting fields are part of the text being counted, so they are iterated to a fixed point, with
  the largest value of a cycle as the fallback.  The record \<open>accounting_lib\<close> holds the tokenizer, the
  printer of JSON values, the serializer of the response type and the MCP result builder.
\<close>

section \<open>Responses\<close>

record accounted_meta =
  source_tokens :: usize
  protocol_tokens :: usize
  path_and_metadata_tokens :: usize
  total_response_tokens :: usize
  receipt_id :: "string option"
  receipt_suppressed_exact :: usize
  receipt_suppressed_overlap :: usize
  receipt_near_duplicates :: usize

record 'b response =
  content :: 'b
  meta :: accounted_meta

record budget_breakdown =
  mandatory_response_tokens :: usize
  bd_source_tokens :: usize
  bd_protocol_tokens :: usize
  bd_path_and_metadata_tokens :: usize
  receipt_reserve_tokens :: usize

datatype accounting_error =
    Serialization_Error string
  | Accounting_Invariant
  | Budget_Exceeded usize usize usize budget_breakdown
  \<comment> \<open>provided maximum, minimum required, retry with at least\<close>

datatype receipt_decoration = Omit_Receipt | Include_Receipt

record ('b, 'm) accounting_lib =
  lib_count :: "string \<Rightarrow> usize"
  lib_json_text :: "json \<Rightarrow> string"
  lib_to_text :: "'b response \<Rightarrow> string + string"
  lib_to_value :: "'b response \<Rightarrow> string + json"
  lib_mcp_result :: "json \<Rightarrow> 'm \<Rightarrow> json"

record 'm call_options =
  max_response_tokens :: "usize option"
  mcp_response_shape :: "'m option"

definition max_accounting_passes :: nat where "max_accounting_passes = 64"

definition receipt_id_response_reserve :: string where
  "receipt_id_response_reserve = ''r0a1b2c3d4e5f60718293a4b5c6d7e8f901a2b3c4d5e6f708''"

section \<open>One measurement\<close>

fun json_get :: "string \<Rightarrow> json \<Rightarrow> json option" where
  "json_get k (JObject kvs) = map_of kvs k"
| "json_get _ _ = None"

fun json_insert :: "string \<Rightarrow> json \<Rightarrow> json \<Rightarrow> json" where
  "json_insert k v (JObject kvs) =
     JObject (if k \<in> fst ` set kvs then map (\<lambda>(j, w). if j = k then (j, v) else (j, w)) kvs else kvs @ [(k, v)])"
| "json_insert _ _ j = j"

definition receipt_pointer :: "json \<Rightarrow> string option" where
  "receipt_pointer v =
     (case json_get ''meta'' v of
        None \<Rightarrow> None
      | Some m \<Rightarrow> (case json_get ''receipt_id'' m of Some (JString s) \<Rightarrow> Some s | _ \<Rightarrow> None))"

definition decorate_receipt :: "json \<Rightarrow> json" where
  "decorate_receipt v =
     (case receipt_pointer v of
        None \<Rightarrow> v
      | Some r \<Rightarrow> json_insert ''receipt_resource''
          (JObject [(''kind'', JString ''retrieval_receipt''), (''id'', JString r),
                    (''uri'', JString (''leantoken://receipt/v1/'' @ r))]) v)"

definition accounting ::
  "('b, 'm) accounting_lib \<Rightarrow> 'b response \<Rightarrow> usize \<Rightarrow> 'm option \<Rightarrow> receipt_decoration \<Rightarrow>
   accounting_error + response_token_accounting" where
  "accounting A r source shape decoration =
     (if shape = None \<and> decoration = Omit_Receipt then
        (case lib_to_text A r of
           Inl e \<Rightarrow> Inl (Serialization_Error e)
         | Inr payload \<Rightarrow>
             (case lib_to_value A r of
                Inl e \<Rightarrow> Inl (Serialization_Error e)
              | Inr v \<Rightarrow> Inr (response_token_accounting (lib_count A) (lib_json_text A) payload v source)))
      else
        (case lib_to_value A r of
           Inl e \<Rightarrow> Inl (Serialization_Error e)
         | Inr value \<Rightarrow>
             let value = (if decoration = Include_Receipt \<and> shape = None then decorate_receipt value else value);
                 printed = (case shape of Some sh \<Rightarrow> lib_mcp_result A value sh | None \<Rightarrow> value) in
             Inr (response_token_accounting (lib_count A) (lib_json_text A) (lib_json_text A printed) printed source)))"

section \<open>The fixed point\<close>

definition set_accounting :: "response_token_accounting \<Rightarrow> 'b response \<Rightarrow> 'b response" where
  "set_accounting a r = r\<lparr>meta := (meta r)\<lparr>protocol_tokens := ra_protocol_tokens a,
     path_and_metadata_tokens := ra_path_and_metadata_tokens a,
     total_response_tokens := ra_total_response_tokens a\<rparr>\<rparr>"

definition get_accounting :: "'b response \<Rightarrow> response_token_accounting" where
  "get_accounting r = \<lparr>ra_protocol_tokens = protocol_tokens (meta r),
     ra_path_and_metadata_tokens = path_and_metadata_tokens (meta r),
     ra_total_response_tokens = total_response_tokens (meta r)\<rparr>"

text \<open>\<open>max_by_key\<close> returns the last of the largest elements.\<close>

fun max_by_total :: "response_token_accounting \<Rightarrow> response_token_accounting list \<Rightarrow> response_token_accounting" where
  "max_by_total best [] = best"
| "max_by_total best (x # xs) =
     max_by_total (if ra_total_response_tokens x < ra_total_response_tokens best then best else x) xs"

fun accounting_passes ::
  "('b response \<Rightarrow> accounting_error + response_token_accounting) \<Rightarrow> nat \<Rightarrow> response_token_accounting list \<Rightarrow>
   'b response \<Rightarrow> accounting_error + 'b response" where
  "accounting_passes m 0 observed r = Inl Accounting_Invariant"
| "accounting_passes m (Suc n) observed r =
     (case m r of
        Inl e \<Rightarrow> Inl e
      | Inr a \<Rightarrow>
          if get_accounting r = a then Inr r
          else if a \<in> set observed then Inr (set_accounting (max_by_total (hd observed) (tl observed @ [a])) r)
          else accounting_passes m n (observed @ [a]) (set_accounting a r))"

definition no_tokens :: response_token_accounting where
  "no_tokens = \<lparr>ra_protocol_tokens = 0, ra_path_and_metadata_tokens = 0, ra_total_response_tokens = 0\<rparr>"

definition finalize_accounting ::
  "('b, 'm) accounting_lib \<Rightarrow> 'b response \<Rightarrow> usize \<Rightarrow> 'm option \<Rightarrow> receipt_decoration \<Rightarrow> accounting_error + 'b response" where
  "finalize_accounting A r source shape decoration =
     accounting_passes (\<lambda>r. accounting A r source shape decoration) max_accounting_passes [] (set_accounting no_tokens r)"

definition finalize_for :: "('b, 'm) accounting_lib \<Rightarrow> 'b response \<Rightarrow> 'm option \<Rightarrow> accounting_error + 'b response" where
  "finalize_for A r shape = finalize_accounting A r (source_tokens (meta r)) shape Omit_Receipt"

definition finalize_with_receipt_resource ::
  "('b, 'm) accounting_lib \<Rightarrow> 'b response \<Rightarrow> 'm option \<Rightarrow> accounting_error + 'b response" where
  "finalize_with_receipt_resource A r shape =
     (if receipt_id (meta r) = None then finalize_for A r shape
      else finalize_accounting A r (source_tokens (meta r)) shape Include_Receipt)"

definition finalized_tokens_for :: "('b, 'm) accounting_lib \<Rightarrow> 'b response \<Rightarrow> 'm option \<Rightarrow> accounting_error + usize" where
  "finalized_tokens_for A r shape = map_sum id (\<lambda>r. total_response_tokens (meta r)) (finalize_for A r shape)"

definition finalized_tokens_with_receipt_resource ::
  "('b, 'm) accounting_lib \<Rightarrow> 'b response \<Rightarrow> 'm option \<Rightarrow> accounting_error + usize" where
  "finalized_tokens_with_receipt_resource A r shape =
     map_sum id (\<lambda>r. total_response_tokens (meta r)) (finalize_with_receipt_resource A r shape)"

section \<open>Ceilings\<close>

definition response_fits :: "('b, 'm) accounting_lib \<Rightarrow> 'b response \<Rightarrow> 'm call_options \<Rightarrow> accounting_error + bool" where
  "response_fits A r opts =
     (case max_response_tokens opts of
        None \<Rightarrow> Inr True
      | Some limit \<Rightarrow> map_sum id (\<lambda>n. n \<le> limit) (finalized_tokens_for A r (mcp_response_shape opts)))"

definition with_receipt_reserve :: "usize \<Rightarrow> 'b response \<Rightarrow> 'b response" where
  "with_receipt_reserve n r = r\<lparr>meta := (meta r)\<lparr>
     receipt_id := Some (case receipt_id (meta r) of None \<Rightarrow> receipt_id_response_reserve | Some i \<Rightarrow> i),
     receipt_suppressed_exact := n, receipt_suppressed_overlap := n, receipt_near_duplicates := n\<rparr>\<rparr>"

definition finalized_tokens_with_receipt_reserve ::
  "('b, 'm) accounting_lib \<Rightarrow> 'b response \<Rightarrow> usize \<Rightarrow> 'm call_options \<Rightarrow> accounting_error + usize" where
  "finalized_tokens_with_receipt_reserve A r n opts =
     finalized_tokens_with_receipt_resource A (with_receipt_reserve n r) (mcp_response_shape opts)"

definition fits_with_receipt_reserve ::
  "('b, 'm) accounting_lib \<Rightarrow> 'b response \<Rightarrow> usize \<Rightarrow> 'm call_options \<Rightarrow> accounting_error + bool" where
  "fits_with_receipt_reserve A r n opts =
     (case max_response_tokens opts of
        None \<Rightarrow> Inr True
      | Some limit \<Rightarrow> map_sum id (\<lambda>k. k \<le> limit) (finalized_tokens_with_receipt_reserve A r n opts))"

definition budget_exceeded :: "accounted_meta \<Rightarrow> usize \<Rightarrow> usize \<Rightarrow> accounting_error" where
  "budget_exceeded m provided minimum =
     Budget_Exceeded provided minimum minimum
       \<lparr> mandatory_response_tokens = total_response_tokens m, bd_source_tokens = source_tokens m,
         bd_protocol_tokens = protocol_tokens m, bd_path_and_metadata_tokens = path_and_metadata_tokens m,
         receipt_reserve_tokens = minimum - total_response_tokens m \<rparr>"

definition budget_error ::
  "('b, 'm) accounting_lib \<Rightarrow> 'b response \<Rightarrow> usize \<Rightarrow> 'm call_options \<Rightarrow> accounting_error + accounting_error" where
  "budget_error A r provided opts =
     map_sum id (\<lambda>r. budget_exceeded (meta r) provided (total_response_tokens (meta r)))
       (finalize_for A r (mcp_response_shape opts))"

definition budget_error_with_receipt_reserve ::
  "('b, 'm) accounting_lib \<Rightarrow> 'b response \<Rightarrow> usize \<Rightarrow> usize \<Rightarrow> 'm call_options \<Rightarrow> accounting_error + accounting_error" where
  "budget_error_with_receipt_reserve A r n provided opts =
     (case finalized_tokens_with_receipt_reserve A r n opts of
        Inl e \<Rightarrow> Inl e
      | Inr minimum \<Rightarrow>
          map_sum id (\<lambda>r. budget_exceeded (meta r) provided minimum) (finalize_for A r (mcp_response_shape opts)))"

definition finalize_bounded ::
  "('b, 'm) accounting_lib \<Rightarrow> 'b response \<Rightarrow> 'm call_options \<Rightarrow> accounting_error + 'b response" where
  "finalize_bounded A r opts =
     (case finalize_for A r (mcp_response_shape opts) of
        Inl e \<Rightarrow> Inl e
      | Inr r \<Rightarrow>
          (case max_response_tokens opts of
             None \<Rightarrow> Inr r
           | Some limit \<Rightarrow>
               if limit < total_response_tokens (meta r)
               then Inl (budget_exceeded (meta r) limit (total_response_tokens (meta r)))
               else Inr r))"

section \<open>The iteration\<close>

lemma set_set_accounting [simp]: "set_accounting a (set_accounting b r) = set_accounting a r"
  by (simp add: set_accounting_def)

lemma set_get_accounting [simp]: "set_accounting (get_accounting r) r = r"
  by (simp add: set_accounting_def get_accounting_def)

lemma get_set_accounting [simp]: "get_accounting (set_accounting a r) = a"
  by (simp add: set_accounting_def get_accounting_def)

lemma set_accounting_same [simp]:
  "content (set_accounting a r) = content r" "source_tokens (meta (set_accounting a r)) = source_tokens (meta r)"
  "total_response_tokens (meta (set_accounting a r)) = ra_total_response_tokens a"
  by (simp_all add: set_accounting_def)

lemma max_by_total_max:
  "max_by_total best xs \<in> insert best (set xs) \<and>
   (\<forall>x \<in> insert best (set xs). ra_total_response_tokens x \<le> ra_total_response_tokens (max_by_total best xs))"
proof (induction xs arbitrary: best)
  case (Cons x xs)
  show ?case using Cons [of "if ra_total_response_tokens x < ra_total_response_tokens best then best else x"]
    by (auto split: if_splits)
qed simp

text \<open>The observed accountings are a run of the measurement: each is measured on a response that shows the
  one before.\<close>

definition measured_run ::
  "('b response \<Rightarrow> accounting_error + response_token_accounting) \<Rightarrow> response_token_accounting list \<Rightarrow> 'b response \<Rightarrow> bool" where
  "measured_run m obs r \<longleftrightarrow> (obs \<noteq> [] \<longrightarrow> get_accounting r = last obs) \<and>
     (\<forall>i. Suc i < length obs \<longrightarrow> m (set_accounting (obs ! i) r) = Inr (obs ! Suc i)) \<and>
     (\<forall>a \<in> set obs. \<exists>b. m (set_accounting b r) = Inr a)"

lemma measured_run_step:
  assumes "measured_run m obs r" "m r = Inr a"
  shows "measured_run m (obs @ [a]) (set_accounting a r)"
proof -
  have "m (set_accounting ((obs @ [a]) ! i) r) = Inr ((obs @ [a]) ! Suc i)" if i: "Suc i < length (obs @ [a])" for i
  proof (cases "Suc i < length obs")
    case True
    then show ?thesis using assms(1) by (simp add: measured_run_def nth_append)
  next
    case False
    then have i: "Suc i = length obs" "obs \<noteq> []" using i by auto
    then have "length obs - Suc 0 = i" by simp
    then have "(obs @ [a]) ! i = last obs" using i by (simp add: last_conv_nth nth_append)
    then have "set_accounting ((obs @ [a]) ! i) r = r" using assms(1) i(2) by (metis measured_run_def set_get_accounting)
    then show ?thesis using i assms(2) by (simp add: nth_append)
  qed
  moreover have "\<exists>b. m (set_accounting b r) = Inr a" using assms(2) by (metis set_get_accounting)
  ultimately show ?thesis using assms(1) by (auto simp: measured_run_def)
qed

lemma passes_sound:
  assumes "accounting_passes m n obs r = Inr r'" "measured_run m obs r"
  shows "\<exists>b a. r' = set_accounting b r \<and> m r' = Inr a \<and> ra_total_response_tokens a \<le> ra_total_response_tokens b \<and>
    (\<exists>b'. m (set_accounting b' r) = Inr b)"
  using assms
proof (induction n arbitrary: obs r)
  case (Suc n)
  obtain a where a: "m r = Inr a" using Suc.prems(1) by (cases "m r") auto
  consider "get_accounting r = a" | "get_accounting r \<noteq> a" "a \<in> set obs" | "get_accounting r \<noteq> a" "a \<notin> set obs" by blast
  then show ?case
  proof cases
    case 1
    then have "r' = r" using Suc.prems(1) a by simp
    then show ?thesis using 1 a by (intro exI [of _ a]) (metis order_refl set_get_accounting)
  next
    case 2
    define f where "f = max_by_total (hd obs) (tl obs @ [a])"
    obtain h t where obs: "obs = h # t" using 2 by (cases obs) auto
    then have all: "insert (hd obs) (set (tl obs @ [a])) = set obs" using 2(2) by auto
    then have f: "f \<in> set obs" "\<And>x. x \<in> set obs \<Longrightarrow> ra_total_response_tokens x \<le> ra_total_response_tokens f"
      using max_by_total_max [of "hd obs" "tl obs @ [a]"] unfolding f_def by auto
    have r': "r' = set_accounting f r" using Suc.prems(1) a 2 by (simp add: f_def)
    obtain i where i: "i < length obs" "obs ! i = f" using f(1) by (auto simp: in_set_conv_nth)
    have "\<exists>a'. m (set_accounting f r) = Inr a' \<and> a' \<in> set obs"
    proof (cases "Suc i < length obs")
      case True
      then show ?thesis using Suc.prems(2) i by (metis measured_run_def nth_mem)
    next
      case False
      then have "i = length obs - 1" "obs \<noteq> []" using i by auto
      then have "f = get_accounting r" using Suc.prems(2) i by (simp add: measured_run_def last_conv_nth)
      then show ?thesis using a 2(2) by simp
    qed
    moreover have "\<exists>b'. m (set_accounting b' r) = Inr f" using Suc.prems(2) f(1) by (simp add: measured_run_def)
    ultimately show ?thesis using r' f(2) by blast
  next
    case 3
    then have "accounting_passes m n (obs @ [a]) (set_accounting a r) = Inr r'" using Suc.prems(1) a by simp
    from Suc.IH [OF this measured_run_step [OF Suc.prems(2) a]] show ?thesis by simp
  qed
qed simp

section \<open>What a caller can rely on\<close>

lemma accounting_failure: "accounting A r s sh d = Inl e \<Longrightarrow> \<exists>t. e = Serialization_Error t"
  by (auto simp: accounting_def Let_def split: if_splits sum.splits)

lemma accounting_sum: "accounting A r s sh d = Inr a \<Longrightarrow>
    ra_protocol_tokens a + ra_path_and_metadata_tokens a = ra_total_response_tokens a - s"
  by (auto simp: accounting_def response_token_accounting_def Let_def split: if_splits sum.splits)

lemma passes_error:
  assumes "accounting_passes m n obs r = Inl e" "\<And>r e. m r = Inl e \<Longrightarrow> \<exists>t. e = Serialization_Error t"
  shows "e = Accounting_Invariant \<or> (\<exists>t. e = Serialization_Error t)"
  using assms(1)
proof (induction n arbitrary: obs r)
  case (Suc n)
  then show ?case using assms(2) by (fastforce split: sum.splits if_splits)
qed simp

lemma finalize_accounting_Inr:
  assumes "finalize_accounting A r s sh d = Inr r'"
  shows "\<exists>b a. r' = set_accounting b r \<and> accounting A r' s sh d = Inr a \<and>
    ra_total_response_tokens a \<le> ra_total_response_tokens b \<and>
    ra_protocol_tokens b + ra_path_and_metadata_tokens b = ra_total_response_tokens b - s"
proof -
  let ?m = "\<lambda>r. accounting A r s sh d"
  have "measured_run ?m [] (set_accounting no_tokens r)" by (simp add: measured_run_def)
  from passes_sound [OF assms [unfolded finalize_accounting_def] this]
  obtain b a b' where b: "r' = set_accounting b r" "accounting A r' s sh d = Inr a"
    "ra_total_response_tokens a \<le> ra_total_response_tokens b" "accounting A (set_accounting b' r) s sh d = Inr b" by auto
  then show ?thesis using accounting_sum [OF b(4)] by blast
qed

lemma finalize_for_error: "finalize_for A r sh = Inl e \<Longrightarrow> e = Accounting_Invariant \<or> (\<exists>t. e = Serialization_Error t)"
  unfolding finalize_for_def finalize_accounting_def by (erule passes_error) (rule accounting_failure)

text \<open>C25: The size a response reports is never too small, and the caller's ceiling is kept.  A response that is
  finalized under a ceiling keeps its content and everything in its meta data except the three size
  fields; measuring the text that is sent, with its size fields, gives at most the size it reports,
  whether the sizes reached a fixed point or only a cycle; and that size is within the ceiling.\<close>

theorem response_size_is_ceiling:
  assumes "finalize_bounded A r opts = Inr r'"
  shows "\<exists>b a. r' = set_accounting b r \<and>
    accounting A r' (source_tokens (meta r')) (mcp_response_shape opts) Omit_Receipt = Inr a \<and>
    ra_total_response_tokens a \<le> total_response_tokens (meta r') \<and>
    (case max_response_tokens opts of None \<Rightarrow> True | Some limit \<Rightarrow> total_response_tokens (meta r') \<le> limit)"
proof -
  have fin: "finalize_for A r (mcp_response_shape opts) = Inr r'"
    and lim: "case max_response_tokens opts of None \<Rightarrow> True | Some limit \<Rightarrow> total_response_tokens (meta r') \<le> limit"
    using assms by (auto simp: finalize_bounded_def split: sum.splits option.splits if_splits)
  from finalize_accounting_Inr [OF fin [unfolded finalize_for_def]] show ?thesis using lim by auto
qed

text \<open>The advice in a budget error is exact: the call failed because the ceiling is below the reported
  minimum, a retry with any ceiling at or above it succeeds and with any ceiling below it fails, and
  the breakdown adds up to the minimum.\<close>

theorem budget_retry_exact:
  assumes "finalize_bounded A r \<lparr>max_response_tokens = Some l, mcp_response_shape = sh\<rparr> =
    Inl (Budget_Exceeded provided minimum retry bd)"
  shows "provided = l \<and> l < minimum \<and> retry = minimum \<and>
    (\<forall>l'. (\<exists>r'. finalize_bounded A r \<lparr>max_response_tokens = Some l', mcp_response_shape = sh\<rparr> = Inr r') \<longleftrightarrow> minimum \<le> l') \<and>
    mandatory_response_tokens bd = minimum \<and> receipt_reserve_tokens bd = 0 \<and>
    bd_protocol_tokens bd + bd_path_and_metadata_tokens bd = minimum - bd_source_tokens bd"
proof -
  obtain r' where fin: "finalize_for A r sh = Inr r'" and l: "l < total_response_tokens (meta r')"
    and e: "Budget_Exceeded provided minimum retry bd = budget_exceeded (meta r') l (total_response_tokens (meta r'))"
    using assms finalize_for_error [of A r sh]
    by (auto simp: finalize_bounded_def split: sum.splits if_splits)
  obtain b where b: "r' = set_accounting b r"
      "ra_protocol_tokens b + ra_path_and_metadata_tokens b = ra_total_response_tokens b - source_tokens (meta r)"
    using finalize_accounting_Inr [OF fin [unfolded finalize_for_def]] by blast
  show ?thesis using fin l e b
    by (auto simp: finalize_bounded_def budget_exceeded_def set_accounting_def)
qed

text \<open>Asking whether a response fits is the same as sending it: under a ceiling, \<open>response_fits\<close> says yes exactly when
  \<open>finalize_bounded\<close> succeeds, no exactly when it reports the budget, and fails when it fails.\<close>

theorem fits_agrees_with_finalize:
  assumes "max_response_tokens opts = Some l"
  shows "response_fits A r opts = (case finalize_bounded A r opts of
      Inr _ \<Rightarrow> Inr True
    | Inl (Budget_Exceeded _ _ _ _) \<Rightarrow> Inr False
    | Inl e \<Rightarrow> Inl e)"
proof (cases "finalize_for A r (mcp_response_shape opts)")
  case (Inl e)
  then show ?thesis using finalize_for_error [OF Inl] assms
    by (auto simp: response_fits_def finalized_tokens_for_def finalize_bounded_def)
next
  case (Inr r')
  then show ?thesis using assms
    by (auto simp: response_fits_def finalized_tokens_for_def finalize_bounded_def budget_exceeded_def not_less)
qed

section \<open>A small response\<close>

text \<open>The text shows the total, and one token is one character.\<close>

definition sample_accounting :: "(string, unit) accounting_lib" where
  "sample_accounting = \<lparr> lib_count = length,
     lib_json_text = (\<lambda>v. case v of JObject kvs \<Rightarrow> concat (map fst kvs) | _ \<Rightarrow> []),
     lib_to_text = (\<lambda>r. Inr (content r @ show_nat (total_response_tokens (meta r)))),
     lib_to_value = (\<lambda>r. Inr (JObject [(''k'', JString (content r))])), lib_mcp_result = (\<lambda>v _. v) \<rparr>"

definition sample_response :: "string response" where
  "sample_response = \<lparr> content = ''abcdefgh'', meta = \<lparr> source_tokens = 5, protocol_tokens = 0, path_and_metadata_tokens = 0,
     total_response_tokens = 0, receipt_id = None, receipt_suppressed_exact = 0, receipt_suppressed_overlap = 0,
     receipt_near_duplicates = 0 \<rparr> \<rparr>"

definition sample_sized :: "string response" where
  "sample_sized = set_accounting \<lparr>ra_protocol_tokens = 1, ra_path_and_metadata_tokens = 3, ra_total_response_tokens = 9\<rparr> sample_response"

definition under_limit :: "usize \<Rightarrow> unit call_options" where
  "under_limit l = \<lparr>max_response_tokens = Some l, mcp_response_shape = None\<rparr>"

lemma sample_finalize:
  "finalize_bounded sample_accounting sample_response (under_limit 12) = Inr sample_sized"
  by code_simp

theorem response_size_is_ceiling_witness:
  "\<exists>a. accounting sample_accounting sample_sized 5 None Omit_Receipt = Inr a \<and>
     ra_total_response_tokens a \<le> 9 \<and> total_response_tokens (meta sample_sized) \<le> 12"
  using response_size_is_ceiling [OF sample_finalize]
  by (auto simp: under_limit_def sample_sized_def sample_response_def set_accounting_def)

lemma sample_too_small:
  "finalize_bounded sample_accounting sample_response \<lparr>max_response_tokens = Some 8, mcp_response_shape = None\<rparr> =
     Inl (budget_exceeded (meta sample_sized) 8 9)"
  by code_simp

theorem budget_retry_exact_witness:
  "(\<exists>r'. finalize_bounded sample_accounting sample_response \<lparr>max_response_tokens = Some 9, mcp_response_shape = None\<rparr> = Inr r') \<and>
   (8::nat) < 9"
  using budget_retry_exact [OF sample_too_small [unfolded budget_exceeded_def]] by simp

theorem fits_agrees_with_finalize_witness:
  "response_fits sample_accounting sample_response (under_limit 12) = Inr True"
  using fits_agrees_with_finalize [of "under_limit 12" 12 sample_accounting sample_response]
  by (simp add: sample_finalize under_limit_def [of 12] sample_finalize [unfolded under_limit_def])

end
