(* ===== verification/Accounting_End.thy ===== *)
theory Accounting_End
  imports Response_Accounting
begin

text \<open>
  Sizing a response ends with an answer.  A response shows its own sizes, so measuring it changes what is
  measured.  A response is seen here as what its serializer prints: fixed text around the decimal
  forms of the three sizes.  As the sizes fit into \<open>usize\<close>, they have at most 20 digits, so the totals that the
  measurements can give lie in a short interval, shorter than the 64 passes of the code.
\<close>

section \<open>Printed responses\<close>

datatype size_field = Protocol_Field | Metadata_Field | Total_Field

datatype piece = Fixed string | Shown size_field

fun size_of :: "size_field \<Rightarrow> response_token_accounting \<Rightarrow> usize" where
  "size_of Protocol_Field a = ra_protocol_tokens a"
| "size_of Metadata_Field a = ra_path_and_metadata_tokens a"
| "size_of Total_Field a = ra_total_response_tokens a"

fun print_piece :: "response_token_accounting \<Rightarrow> piece \<Rightarrow> string" where
  "print_piece a (Fixed t) = t"
| "print_piece a (Shown f) = show_nat (size_of f a)"

definition printed :: "piece list \<Rightarrow> response_token_accounting \<Rightarrow> string" where
  "printed ps a = concat (map (print_piece a) ps)"

text \<open>The sizes are of type \<open>usize\<close>.\<close>

definition sizes_fit :: "response_token_accounting \<Rightarrow> bool" where
  "sizes_fit a \<longleftrightarrow> (\<forall>f. size_of f a \<le> usize_max)"

fun shown :: "piece list \<Rightarrow> nat" where
  "shown [] = 0"
| "shown (Fixed t # ps) = shown ps"
| "shown (Shown f # ps) = Suc (shown ps)"

text \<open>No fixed text starts inside a character.\<close>

definition starts_char :: "piece \<Rightarrow> bool" where
  "starts_char p \<longleftrightarrow> (case p of Fixed (b # _) \<Rightarrow> \<not> is_cont b | _ \<Rightarrow> True)"

text \<open>What the serializers do: the text to be counted shows the sizes as decimal numbers at fixed places, and the value of the
  response depends on the sizes only in its numbers, which \<open>strip_response_values\<close> sets to zero.\<close>

definition shows_sizes :: "('b, 'm) accounting_lib \<Rightarrow> 'b response \<Rightarrow> 'm option \<Rightarrow> piece list \<Rightarrow> bool" where
  "shows_sizes A r shape ps \<longleftrightarrow> list_all starts_char ps \<and> (\<exists>skeleton. \<forall>a. sizes_fit a \<longrightarrow> (\<exists>v. strip_response_values v = skeleton \<and>
     (case shape of
        None \<Rightarrow> lib_to_text A (set_accounting a r) = Inr (printed ps a) \<and> lib_to_value A (set_accounting a r) = Inr v
      | Some m \<Rightarrow> \<exists>w. lib_to_value A (set_accounting a r) = Inr w \<and> lib_mcp_result A w m = v \<and> lib_json_text A v = printed ps a)))"

section \<open>The estimate of a printed response\<close>

lemma size_show_digits: "\<forall>c \<in> set (show_nat n). 48 \<le> byte c \<and> byte c \<le> 57"
proof (induction n rule: show_nat.induct)
  case (1 n)
  have b: "48 + n mod 10 < 256" "n < 10 \<Longrightarrow> 48 + n < 256"
    using mod_less_divisor [of 10 n] by linarith+
  have "byte (char_of (48 + n mod 10)) = 48 + n mod 10" "n < 10 \<Longrightarrow> byte (char_of (48 + n)) = 48 + n"
    using b by (simp_all only: of_char_of mod_less)
  moreover have "n mod 10 < 10" by simp
  ultimately show ?case using 1 by (subst show_nat.simps) auto
qed

lemma show_nat_not_Nil: "show_nat n \<noteq> []"
  by (subst show_nat.simps) simp

lemma size_show_length: "n < 10 ^ Suc k \<Longrightarrow> length (show_nat n) \<le> Suc k"
proof (induction k arbitrary: n)
  case 0
  then show ?case by (subst show_nat.simps) simp
next
  case (Suc k)
  have "n div 10 < 10 ^ Suc k" using Suc.prems by (simp add: less_mult_imp_div_less)
  then show ?case using Suc.IH [of "n div 10"] by (subst show_nat.simps) simp
qed

lemma length_show_usize:
  assumes "n \<le> usize_max" shows "1 \<le> length (show_nat n) \<and> length (show_nat n) \<le> 20"
proof -
  have "usize_max < 10 ^ Suc 19" by (simp add: usize_max_def)
  then show ?thesis using size_show_length [of n 19] assms show_nat_not_Nil [of n] by (cases "show_nat n") auto
qed

lemma utf8_chars_append: "y = [] \<or> \<not> is_cont (hd y) \<Longrightarrow> utf8_chars (x @ y) = utf8_chars x @ utf8_chars y"
proof (induction x rule: utf8_chars.induct)
  case (2 b bs)
  have "takeWhile is_cont (bs @ y) = takeWhile is_cont bs \<and> dropWhile is_cont (bs @ y) = dropWhile is_cont bs @ y"
  proof (cases "\<forall>c \<in> set bs. is_cont c")
    case True
    then have bs: "takeWhile is_cont bs = bs" "dropWhile is_cont bs = []" by (simp_all add: takeWhile_eq_all_conv)
    have y: "takeWhile is_cont y = []" "dropWhile is_cont y = y" using 2(2) by (cases y; simp)+
    show ?thesis using takeWhile_append2 [of bs is_cont y] dropWhile_append2 [of bs is_cont y] True y unfolding bs by simp
  next
    case False
    then show ?thesis by (auto simp: takeWhile_append dropWhile_append)
  qed
  then show ?case using 2 by simp
qed simp

lemma utf8_chars_ascii: "\<forall>c \<in> set w. byte c < 128 \<Longrightarrow> utf8_chars w = map (\<lambda>c. [c]) w"
proof (induction w)
  case (Cons c w)
  have "w = [] \<or> \<not> is_cont (hd w)" using Cons.prems by (cases w) (auto simp: is_cont_def)
  then have "utf8_chars ([c] @ w) = utf8_chars [c] @ utf8_chars w" by (rule utf8_chars_append)
  then show ?case using Cons by simp
qed simp

definition word_after :: "bool \<Rightarrow> string list \<Rightarrow> bool" where
  "word_after w cs = (if cs = [] then w else \<not> char_whitespace (last cs))"

lemma count_words_append: "count_words w (xs @ ys) = count_words w xs + count_words (word_after w xs) ys"
  by (induction xs arbitrary: w) (auto simp: word_after_def)

lemma count_words_digits:
  assumes "ds \<noteq> []" "\<forall>c \<in> set ds. \<not> char_whitespace c"
  shows "count_words w ds = (if w then 0 else 1)" "word_after w ds"
proof -
  have "\<forall>c \<in> set ds. \<not> char_whitespace c \<Longrightarrow> count_words True ds = 0" for ds by (induction ds) auto
  then show "count_words w ds = (if w then 0 else 1)" using assms by (cases ds) auto
  show "word_after w ds" using assms by (simp add: word_after_def)
qed

lemma print_starts:
  assumes "list_all starts_char ps"
  shows "printed ps a = [] \<or> \<not> is_cont (hd (printed ps a))"
  using assms
proof (induction ps)
  case (Cons p ps)
  show ?case
  proof (cases "print_piece a p")
    case Nil
    then show ?thesis using Cons by (simp add: printed_def)
  next
    case (Cons b w)
    have "\<not> is_cont b"
    proof (cases p)
      case (Fixed t)
      then show ?thesis using Cons \<open>list_all starts_char (p # ps)\<close> by (simp add: starts_char_def)
    next
      case (Shown f)
      then show ?thesis using Cons size_show_digits [of "size_of f a"] by (force simp: is_cont_def)
    qed
    then show ?thesis using Cons by (simp add: printed_def)
  qed
qed (simp add: printed_def)

lemma printed_Cons:
  assumes "list_all starts_char ps"
  shows "utf8_chars (printed (p # ps) a) = utf8_chars (print_piece a p) @ utf8_chars (printed ps a)"
  using utf8_chars_append [OF print_starts [OF assms]] by (simp add: printed_def)

lemma digit_chars:
  "utf8_chars (show_nat n) = map (\<lambda>c. [c]) (show_nat n)" "\<forall>c \<in> set (utf8_chars (show_nat n)). \<not> char_whitespace c"
proof -
  have "\<forall>c \<in> set (show_nat n). byte c < 128" using size_show_digits [of n] by force
  then show eq: "utf8_chars (show_nat n) = map (\<lambda>c. [c]) (show_nat n)" by (rule utf8_chars_ascii)
  show "\<forall>c \<in> set (utf8_chars (show_nat n)). \<not> char_whitespace c"
    using size_show_digits [of n] unfolding eq by (force simp: char_whitespace_def)
qed

text \<open>The number of words does not depend on the sizes, and each size takes from 1 to 20 characters.\<close>

lemma printed_words:
  "list_all starts_char ps \<Longrightarrow> count_words w (utf8_chars (printed ps a)) = count_words w (utf8_chars (printed ps b))"
proof (induction ps arbitrary: w)
  case (Cons p ps)
  then have ps: "list_all starts_char ps" by simp
  show ?case
  proof (cases p)
    case (Fixed t)
    then show ?thesis using Cons.IH [OF ps] by (simp add: printed_Cons [OF ps] count_words_append)
  next
    case (Shown f)
    have "utf8_chars (show_nat n) \<noteq> []" for n using digit_chars(1) [of n] show_nat_not_Nil [of n] by simp
    note d = count_words_digits [OF this digit_chars(2)]
    show ?thesis using Shown Cons.IH [OF ps] by (simp add: printed_Cons [OF ps] count_words_append d)
  qed
qed (simp add: printed_def)

fun fixed_chars :: "piece list \<Rightarrow> nat" where
  "fixed_chars [] = 0"
| "fixed_chars (Fixed t # ps) = char_count t + fixed_chars ps"
| "fixed_chars (Shown f # ps) = fixed_chars ps"

lemma printed_chars:
  assumes "list_all starts_char ps" "sizes_fit a"
  shows "fixed_chars ps + shown ps \<le> char_count (printed ps a) \<and> char_count (printed ps a) \<le> fixed_chars ps + 20 * shown ps"
  using assms(1)
proof (induction ps)
  case (Cons p ps)
  then have ps: "list_all starts_char ps" by simp
  show ?case
  proof (cases p)
    case (Fixed t)
    then show ?thesis using Cons.IH [OF ps] by (simp add: char_count_def printed_Cons [OF ps])
  next
    case (Shown f)
    have "size_of f a \<le> usize_max" using assms(2) by (simp add: sizes_fit_def)
    then have "1 \<le> length (show_nat (size_of f a)) \<and> length (show_nat (size_of f a)) \<le> 20" by (rule length_show_usize)
    then show ?thesis using Shown Cons.IH [OF ps] by (simp add: char_count_def printed_Cons [OF ps] digit_chars(1))
  qed
qed (simp add: printed_def char_count_def)

lemma estimate_window:
  assumes "list_all starts_char ps" "shown ps \<le> 13" "sizes_fit a" "sizes_fit b"
  shows "estimate_count (printed ps a) \<le> estimate_count (printed ps b) + 62"
proof (cases "printed ps a = []")
  case False
  define x where "x = char_count (printed ps a)"
  define y where "y = char_count (printed ps b)"
  have "x \<le> y + 247" using printed_chars [OF assms(1,3)] printed_chars [OF assms(1,4)] assms(2) by (simp add: x_def y_def)
  then have "div_ceil x 4 \<le> div_ceil y 4 + 62" unfolding div_ceil_def by linarith
  moreover have "count_words False (utf8_chars (printed ps a)) = count_words False (utf8_chars (printed ps b))"
    by (rule printed_words [OF assms(1)])
  moreover have "printed ps b = [] \<Longrightarrow> y = 0" by (simp add: y_def char_count_def)
  ultimately show ?thesis using False
    by (auto simp: estimate_count_def x_def [symmetric] y_def [symmetric] div_ceil_def max_def)
qed (simp add: estimate_count_def)

section \<open>The passes\<close>

text \<open>A run that uses up its passes has made as many different measurements.\<close>

lemma passes_exhausted:
  assumes "accounting_passes m n obs (set_accounting b r) = Inl e" "P b"
    and "\<And>b. P b \<Longrightarrow> \<exists>a. m (set_accounting b r) = Inr a \<and> P a"
  shows "\<exists>xs. length xs = n \<and> distinct xs \<and> set xs \<inter> set obs = {} \<and> (\<forall>a \<in> set xs. \<exists>b. P b \<and> m (set_accounting b r) = Inr a)"
  using assms(1,2)
proof (induction n arbitrary: obs b)
  case (Suc n)
  obtain a where a: "m (set_accounting b r) = Inr a" "P a" using assms(3) [OF Suc.prems(2)] by blast
  have next1: "a \<notin> set obs" "accounting_passes m n (obs @ [a]) (set_accounting a r) = Inl e"
    using Suc.prems(1) a(1) by (auto split: if_splits)
  obtain xs where xs: "length xs = n" "distinct xs" "set xs \<inter> set (obs @ [a]) = {}"
    "\<forall>x \<in> set xs. \<exists>b. P b \<and> m (set_accounting b r) = Inr x"
    using Suc.IH [OF next1(2) a(2)] by blast
  then show ?case using next1(1) a Suc.prems(2) by (intro exI [of _ "a # xs"]) auto
qed simp

text \<open>The measurements differ only in the total.\<close>

definition sized :: "usize \<Rightarrow> usize \<Rightarrow> usize \<Rightarrow> response_token_accounting" where
  "sized skeleton source n =
     (let overhead = n - source; protocol = min skeleton overhead in
      \<lparr>ra_protocol_tokens = protocol, ra_path_and_metadata_tokens = overhead - protocol, ra_total_response_tokens = n\<rparr>)"

lemma sizes_fit_sized: "n \<le> usize_max \<Longrightarrow> sizes_fit (sized skeleton source n)"
  unfolding sizes_fit_def
proof
  show "size_of f (sized skeleton source n) \<le> usize_max" if "n \<le> usize_max" for f
    using that by (cases f) (auto simp: sized_def Let_def)
qed

lemma sized_inj: "sized k s t = sized k s u \<Longrightarrow> t = u"
  by (simp add: sized_def Let_def)

lemma measures_sized:
  assumes "shows_sizes A r shape ps"
  obtains k where "\<And>a. sizes_fit a \<Longrightarrow>
    accounting A (set_accounting a r) s shape Omit_Receipt = Inr (sized k s (lib_count A (printed ps a)))"
proof -
  obtain skeleton where sk: "\<And>a. sizes_fit a \<Longrightarrow> \<exists>v. strip_response_values v = skeleton \<and>
     (case shape of
        None \<Rightarrow> lib_to_text A (set_accounting a r) = Inr (printed ps a) \<and> lib_to_value A (set_accounting a r) = Inr v
      | Some m \<Rightarrow> \<exists>w. lib_to_value A (set_accounting a r) = Inr w \<and> lib_mcp_result A w m = v \<and> lib_json_text A v = printed ps a)"
    using assms unfolding shows_sizes_def by blast
  have "accounting A (set_accounting a r) s shape Omit_Receipt =
      Inr (sized (lib_count A (lib_json_text A skeleton)) s (lib_count A (printed ps a)))" if "sizes_fit a" for a
    using sk [OF that]
    by (auto simp: accounting_def response_token_accounting_def sized_def Let_def split: option.splits)
  then show thesis by (rule that)
qed

lemma sizes_fit_none: "sizes_fit no_tokens"
  unfolding sizes_fit_def
proof
  show "size_of f no_tokens \<le> usize_max" for f by (cases f) (simp_all add: no_tokens_def)
qed

text \<open>C38: Sizing a response always ends with an answer, although the sizes are part of the text that is measured.  Take a
  response whose serializer prints it as fixed text around the decimal forms of its sizes (each at any number of places) and whose
  value depends on the sizes only in its numbers.  The totals measured for sizes of the type \<open>usize\<close> are themselves
  of that type.  With the estimating tokenizer and at most 13 places that show a size, and with an encoding tokenizer under the
  hypothesis that the digits of the sizes change a count by at most 62 tokens, the iteration finds a fixed
  point or a cycle within its 64 passes, and never reports that the accounting did not reach a fixed point.\<close>

theorem accounting_terminates:
  assumes "shows_sizes A r shape ps" "lib_count A = token_count bl tk"
    and "\<forall>a. sizes_fit a \<longrightarrow> token_count bl tk (printed ps a) \<le> usize_max"
    and "tk = Estimate \<and> shown ps \<le> 13 \<or>
      (\<forall>a b. sizes_fit a \<and> sizes_fit b \<longrightarrow> token_count bl tk (printed ps a) \<le> token_count bl tk (printed ps b) + 62)"
  shows "\<exists>r'. finalize_for A r shape = Inr r'"
proof (rule ccontr)
  let ?s = "source_tokens (meta r)" and ?T = "\<lambda>a. token_count bl tk (printed ps a)"
  let ?m = "\<lambda>r'. accounting A r' ?s shape Omit_Receipt"
  have window: "?T a \<le> ?T b + 62" if "sizes_fit a" "sizes_fit b" for a b
    using assms(4) estimate_window [of ps a b] assms(1) that by (auto simp: token_count_def shows_sizes_def)
  obtain k where m: "\<And>a. sizes_fit a \<Longrightarrow> ?m (set_accounting a r) = Inr (sized k ?s (?T a))"
    using measures_sized [OF assms(1), of ?s] unfolding assms(2) by blast
  assume "\<not> ?thesis"
  then obtain e where "finalize_for A r shape = Inl e" by (cases "finalize_for A r shape") auto
  then have e: "accounting_passes ?m 64 [] (set_accounting no_tokens r) = Inl e"
    by (simp add: finalize_for_def finalize_accounting_def max_accounting_passes_def)
  have "\<exists>a. ?m (set_accounting b r) = Inr a \<and> sizes_fit a" if "sizes_fit b" for b
    using m [OF that] sizes_fit_sized assms(3) that by blast
  from passes_exhausted [OF e, of sizes_fit, OF sizes_fit_none this]
  obtain xs where xs: "length xs = 64" "distinct xs" "\<forall>a \<in> set xs. \<exists>b. sizes_fit b \<and> ?m (set_accounting b r) = Inr a" by blast
  define L where "L = (LEAST t. \<exists>b. sizes_fit b \<and> t = ?T b)"
  obtain b where b: "sizes_fit b" "L = ?T b"
    using LeastI_ex [of "\<lambda>t. \<exists>b. sizes_fit b \<and> t = ?T b"] sizes_fit_none unfolding L_def by blast
  have "set xs \<subseteq> sized k ?s ` {L..L + 62}"
  proof
    fix a assume "a \<in> set xs"
    then obtain c where c: "sizes_fit c" "a = sized k ?s (?T c)" using xs(3) m by fastforce
    have "L \<le> ?T c" unfolding L_def by (rule Least_le) (use c(1) in blast)
    then show "a \<in> sized k ?s ` {L..L + 62}" using c window [OF c(1) b(1)] b(2) by auto
  qed
  then have "card (set xs) \<le> card {L..L + 62}" by (meson card_image_le card_mono finite_atLeastAtMost finite_imageI le_trans)
  then show False using xs(1,2) by (simp add: distinct_card)
qed

section \<open>A response that shows all its sizes\<close>

definition shown_text :: "string response \<Rightarrow> string" where
  "shown_text r = ''{protocol:'' @ show_nat (protocol_tokens (meta r)) @ '', metadata:'' @ show_nat (path_and_metadata_tokens (meta r)) @
     '', total:'' @ show_nat (total_response_tokens (meta r)) @ ''}''"

definition shown_pieces :: "piece list" where
  "shown_pieces = [Fixed ''{protocol:'', Shown Protocol_Field, Fixed '', metadata:'', Shown Metadata_Field,
     Fixed '', total:'', Shown Total_Field, Fixed ''}'']"

definition shown_value :: "string response \<Rightarrow> json" where
  "shown_value r = JObject [(''protocol'', JNumber (show_nat (protocol_tokens (meta r)))),
     (''metadata'', JNumber (show_nat (path_and_metadata_tokens (meta r)))), (''total'', JNumber (show_nat (total_response_tokens (meta r))))]"

text \<open>The estimate uses no encoder.\<close>

definition no_bpe :: bpe where
  "no_bpe = \<lparr>encode_ordinary = (\<lambda>_. []), count_ordinary = (\<lambda>_. 0), decode_bytes = (\<lambda>_. None)\<rparr>"

definition no_bpes :: bpe_lib where
  "no_bpes = \<lparr>cl100k_base = no_bpe, o200k_base = no_bpe, o200k_harmony = no_bpe, p50k_base = no_bpe, p50k_edit = no_bpe,
     r50k_base = no_bpe\<rparr>"

definition estimating :: "(string, unit) accounting_lib" where
  "estimating = sample_accounting\<lparr>lib_count := token_count no_bpes Estimate, lib_to_text := (\<lambda>r. Inr (shown_text r)),
     lib_to_value := (\<lambda>r. Inr (shown_value r))\<rparr>"

lemma estimating_shows: "shows_sizes estimating sample_response None shown_pieces"
proof -
  have "list_all starts_char shown_pieces" by (simp add: shown_pieces_def starts_char_def is_cont_def)
  moreover have "lib_to_text estimating (set_accounting a sample_response) = Inr (printed shown_pieces a)" for a
    by (simp add: estimating_def shown_text_def printed_def shown_pieces_def set_accounting_def)
  moreover have "lib_to_value estimating (set_accounting a sample_response) = Inr (shown_value (set_accounting a sample_response))" for a
    by (simp add: estimating_def)
  moreover have "strip_response_values (shown_value (set_accounting a sample_response)) =
      JObject [(''protocol'', JNumber ''0''), (''metadata'', JNumber ''0''), (''total'', JNumber ''0'')]" for a
    by (simp add: shown_value_def)
  ultimately show ?thesis unfolding shows_sizes_def by simp
qed

lemma estimate_le_chars: "estimate_count t \<le> char_count t + count_words False (utf8_chars t) + 1"
  by (auto simp: estimate_count_def div_ceil_def)

theorem accounting_terminates_witness:
  "\<exists>r'. finalize_for estimating sample_response None = Inr r'"
proof -
  have count: "lib_count estimating = token_count no_bpes Estimate" by (simp add: estimating_def)
  have "token_count no_bpes Estimate (printed shown_pieces a) \<le> usize_max" if "sizes_fit a" for a
  proof -
    have ps: "list_all starts_char shown_pieces" using estimating_shows by (simp add: shows_sizes_def)
    have "char_count (printed shown_pieces a) \<le> 100"
      using printed_chars [OF ps that] by (simp add: shown_pieces_def char_count_def is_cont_def)
    moreover have "count_words False (utf8_chars (printed shown_pieces a)) = count_words False (utf8_chars (printed shown_pieces no_tokens))"
      by (rule printed_words [OF ps])
    moreover have "count_words False (utf8_chars (printed shown_pieces no_tokens)) \<le> 100" by code_simp
    ultimately show ?thesis using estimate_le_chars [of "printed shown_pieces a"] by (simp add: token_count_def usize_max_def)
  qed
  then show "\<exists>r'. finalize_for estimating sample_response None = Inr r'"
    using accounting_terminates [OF estimating_shows count] by (simp add: shown_pieces_def)
qed

end
