(* ===== verification/Delta_Fifo.thy ===== *)
theory Delta_Fifo
  imports Prelude "HOL-Library.AList"
begin

text \<open>
  The bounded stores of the read-delta registry (\<open>src/services/read_delta.rs\<close>): a hash map, the order
  of insertion, and the bytes held.  The registry has two of them with the same operations, so the
  model states them once, with the weight and the time stamp of a value as arguments.  The
  specification is a queue of entries, oldest first; \<open>queue_of\<close> relates the two.
\<close>

definition max_read_delta_entries :: nat where "max_read_delta_entries = 128"
definition max_read_delta_entry_bytes :: nat where "max_read_delta_entry_bytes = 512 * 1024"
definition max_read_delta_total_bytes :: nat where "max_read_delta_total_bytes = 8 * 1024 * 1024"

text \<open>Instants and durations in milliseconds.\<close>

definition read_delta_ttl :: nat where "read_delta_ttl = 30 * 60 * 1000"

lemmas delta_bounds = max_read_delta_entries_def max_read_delta_entry_bytes_def max_read_delta_total_bytes_def

record ('k, 'v) fifo =
  items :: "('k \<times> 'v) list"
  order :: "'k list"
  total_bytes :: usize

definition fifo_empty :: "('k, 'v) fifo" where
  "fifo_empty = \<lparr>items = [], order = [], total_bytes = 0\<rparr>"

definition fifo_get :: "('k, 'v) fifo \<Rightarrow> 'k \<Rightarrow> 'v option" where
  "fifo_get f k = map_of (items f) k"

definition evict_oldest :: "('v \<Rightarrow> usize) \<Rightarrow> ('k, 'v) fifo \<Rightarrow> bool \<times> ('k, 'v) fifo" where
  "evict_oldest weight f =
     (case order f of
        [] \<Rightarrow> (False, f)
      | k # ks \<Rightarrow>
          (True,
           case fifo_get f k of
             None \<Rightarrow> f\<lparr>order := ks\<rparr>
           | Some v \<Rightarrow> f\<lparr>order := ks, items := AList.delete k (items f), total_bytes := total_bytes f - weight v\<rparr>))"

definition expired :: "('v \<Rightarrow> nat) \<Rightarrow> nat \<Rightarrow> 'v option \<Rightarrow> bool" where
  "expired stamp now v = (case v of None \<Rightarrow> True | Some v \<Rightarrow> read_delta_ttl \<le> now - stamp v)"

text \<open>The first loop of \<open>prune_expired\<close>; it runs at most once for each element of the queue.\<close>

function prune_expired :: "('v \<Rightarrow> usize) \<Rightarrow> ('v \<Rightarrow> nat) \<Rightarrow> nat \<Rightarrow> ('k, 'v) fifo \<Rightarrow> ('k, 'v) fifo" where
  "prune_expired weight stamp now f =
     (case order f of
        [] \<Rightarrow> f
      | k # _ \<Rightarrow>
          if expired stamp now (fifo_get f k) then prune_expired weight stamp now (snd (evict_oldest weight f)) else f)"
  by pat_completeness auto
termination
  by (relation "measure (\<lambda>(_, _, _, f). length (order f))") (auto simp: evict_oldest_def split: option.split)

declare prune_expired.simps [simp del]

definition no_room :: "usize \<Rightarrow> ('k, 'v) fifo \<Rightarrow> bool" where
  "no_room w f \<longleftrightarrow> max_read_delta_entries \<le> length (items f) \<or> max_read_delta_total_bytes < sat_add (total_bytes f) w"

function make_room :: "('v \<Rightarrow> usize) \<Rightarrow> usize \<Rightarrow> ('k, 'v) fifo \<Rightarrow> ('k, 'v) fifo" where
  "make_room weight w f =
     (if no_room w f then
        (case evict_oldest weight f of (False, _) \<Rightarrow> f | (True, g) \<Rightarrow> make_room weight w g)
      else f)"
  by pat_completeness auto
termination
  by (relation "measure (\<lambda>(_, _, f). length (order f))") (auto simp: evict_oldest_def split: list.splits option.splits)

declare make_room.simps [simp del]

definition remove_previous :: "('v \<Rightarrow> usize) \<Rightarrow> 'k \<Rightarrow> ('k, 'v) fifo \<Rightarrow> ('k, 'v) fifo" where
  "remove_previous weight k f =
     (case fifo_get f k of
        None \<Rightarrow> f
      | Some v \<Rightarrow>
          f\<lparr>items := AList.delete k (items f), total_bytes := total_bytes f - weight v,
            order := filter (\<lambda>j. j \<noteq> k) (order f)\<rparr>)"

definition fifo_insert :: "('v \<Rightarrow> usize) \<Rightarrow> 'k \<Rightarrow> 'v \<Rightarrow> ('k, 'v) fifo \<Rightarrow> ('k, 'v) fifo" where
  "fifo_insert weight k v f =
     (let f = make_room weight (weight v) (remove_previous weight k f) in
      if no_room (weight v) f then f
      else f\<lparr>total_bytes := total_bytes f + weight v, order := order f @ [k], items := AList.update k v (items f)\<rparr>)"

section \<open>The queue behind a store\<close>

definition weight_sum :: "('v \<Rightarrow> nat) \<Rightarrow> ('k \<times> 'v) list \<Rightarrow> nat" where
  "weight_sum weight q = sum_list (map (weight \<circ> snd) q)"

definition fifo_ok :: "('v \<Rightarrow> nat) \<Rightarrow> ('k, 'v) fifo \<Rightarrow> bool" where
  "fifo_ok weight f \<longleftrightarrow> distinct (map fst (items f)) \<and> distinct (order f) \<and> set (order f) = fst ` set (items f) \<and>
     total_bytes f = weight_sum weight (items f) \<and> length (items f) \<le> max_read_delta_entries \<and>
     total_bytes f \<le> max_read_delta_total_bytes"

definition queue_of :: "('k, 'v) fifo \<Rightarrow> ('k \<times> 'v) list" where
  "queue_of f = map (\<lambda>k. (k, the (fifo_get f k))) (order f)"

definition spec_prune :: "('v \<Rightarrow> nat) \<Rightarrow> nat \<Rightarrow> ('k \<times> 'v) list \<Rightarrow> ('k \<times> 'v) list" where
  "spec_prune stamp now q = dropWhile (\<lambda>(_, v). read_delta_ttl \<le> now - stamp v) q"

definition spec_fits :: "('v \<Rightarrow> nat) \<Rightarrow> nat \<Rightarrow> ('k \<times> 'v) list \<Rightarrow> bool" where
  "spec_fits weight w q \<longleftrightarrow> length q < max_read_delta_entries \<and> weight_sum weight q + w \<le> max_read_delta_total_bytes"

fun spec_room :: "('v \<Rightarrow> nat) \<Rightarrow> nat \<Rightarrow> ('k \<times> 'v) list \<Rightarrow> ('k \<times> 'v) list" where
  "spec_room weight w [] = []"
| "spec_room weight w (e # q) = (if spec_fits weight w (e # q) then e # q else spec_room weight w q)"

definition spec_insert :: "('v \<Rightarrow> nat) \<Rightarrow> 'k \<Rightarrow> 'v \<Rightarrow> ('k \<times> 'v) list \<Rightarrow> ('k \<times> 'v) list" where
  "spec_insert weight k v q = spec_room weight (weight v) (filter (\<lambda>e. fst e \<noteq> k) q) @ [(k, v)]"

text \<open>A store without its bounds is a permutation of its queue.\<close>

definition linked :: "('v \<Rightarrow> nat) \<Rightarrow> ('k, 'v) fifo \<Rightarrow> bool" where
  "linked weight f \<longleftrightarrow> distinct (map fst (items f)) \<and> mset (queue_of f) = mset (items f) \<and> map fst (queue_of f) = order f \<and>
     total_bytes f = weight_sum weight (items f)"

lemma fst_queue_of [simp]: "map fst (queue_of f) = order f"
  by (simp add: queue_of_def comp_def)

lemma weight_sum_mset: "weight_sum weight q = sum_mset (image_mset (weight \<circ> snd) (mset q))"
  by (simp add: weight_sum_def sum_mset_sum_list [symmetric] mset_map [symmetric] del: mset_map)

lemma linked_iff:
  "linked weight f \<longleftrightarrow> distinct (map fst (items f)) \<and> distinct (order f) \<and> set (order f) = fst ` set (items f) \<and>
     total_bytes f = weight_sum weight (items f)"
proof -
  have "mset (queue_of f) = mset (items f) \<longleftrightarrow> distinct (order f) \<and> set (order f) = fst ` set (items f)"
    if d: "distinct (map fst (items f))"
  proof
    assume m: "mset (queue_of f) = mset (items f)"
    then have "mset (order f) = mset (map fst (items f))"
      using fst_queue_of [of f] by (metis mset_map)
    then show "distinct (order f) \<and> set (order f) = fst ` set (items f)"
      using d mset_eq_imp_distinct_iff mset_eq_setD by (metis list.set_map)
  next
    assume o: "distinct (order f) \<and> set (order f) = fst ` set (items f)"
    have "set (queue_of f) = set (items f)"
      using o d by (force simp: queue_of_def fifo_get_def image_image intro: rev_image_eqI)
    moreover have "distinct (queue_of f)" using o distinct_map [of fst "queue_of f"] by simp
    moreover have "distinct (items f)" using d by (simp add: distinct_map)
    ultimately show "mset (queue_of f) = mset (items f)" by (simp add: set_eq_iff_mset_eq_distinct)
  qed
  then show ?thesis by (auto simp: linked_def)
qed

section \<open>The operations on stores and on queues\<close>

lemma mset_delete:
  "distinct (map fst xs) \<Longrightarrow> map_of xs k = Some v \<Longrightarrow> mset xs = add_mset (k, v) (mset (AList.delete k xs))"
proof (induction xs)
  case (Cons x xs)
  show ?case
  proof (cases "fst x = k")
    case True
    then have "k \<notin> fst ` set xs" using Cons.prems(1) by auto
    then have "AList.delete k xs = xs" by (simp add: AList.delete_id)
    then show ?thesis using True Cons.prems(2) by (cases x) simp
  qed (use Cons in \<open>cases x, auto\<close>)
qed simp

lemma weight_sum_delete:
  assumes "distinct (map fst xs)" "map_of xs k = Some v"
  shows "weight_sum weight xs = weight v + weight_sum weight (AList.delete k xs)"
    "length xs = Suc (length (AList.delete k xs))"
  using mset_delete [OF assms] by (simp_all add: weight_sum_mset size_mset [symmetric] del: size_mset)

lemma set_delete_keys: "fst ` set (AList.delete k xs) = fst ` set xs - {k}"
  by (auto simp: AList.delete_eq)

lemma linked_get: "linked weight f \<Longrightarrow> k \<in> set (order f) \<Longrightarrow> \<exists>v. fifo_get f k = Some v"
  using map_of_eq_None_iff [of "items f" k] by (auto simp: linked_iff fifo_get_def)

lemma linked_remove:
  assumes f: "linked weight f" and v: "fifo_get f k = Some v" and ks: "set ks = set (order f) - {k}" "distinct ks"
    and g: "g = f\<lparr>order := ks, items := AList.delete k (items f), total_bytes := total_bytes f - weight v\<rparr>"
  shows "linked weight g" "\<And>j. j \<noteq> k \<Longrightarrow> fifo_get g j = fifo_get f j"
    "queue_of g = map (\<lambda>j. (j, the (fifo_get f j))) ks" "total_bytes f = total_bytes g + weight v"
    "length (items f) = Suc (length (items g))"
proof -
  have d: "distinct (map fst (items f))" and m: "map_of (items f) k = Some v"
    using f v by (auto simp: linked_iff fifo_get_def)
  note w = weight_sum_delete [OF d m]
  show "linked weight g" using f ks w(1) [of weight] by (auto simp: linked_iff g set_delete_keys AList.distinct_delete)
  show get: "\<And>j. j \<noteq> k \<Longrightarrow> fifo_get g j = fifo_get f j" by (simp add: fifo_get_def g AList.delete_conv')
  show "queue_of g = map (\<lambda>j. (j, the (fifo_get f j))) ks" using get ks(1) by (auto simp: queue_of_def g)
  show "total_bytes f = total_bytes g + weight v" using f w(1) [of weight] by (simp add: linked_iff g)
  show "length (items f) = Suc (length (items g))" using w(2) by (simp add: g)
qed

lemma linked_evict:
  assumes f: "linked weight f" and q: "queue_of f = (k, v) # q"
  shows "\<exists>g. evict_oldest weight f = (True, g) \<and> linked weight g \<and> queue_of g = q"
proof -
  obtain ks where ks: "order f = k # ks" "v = the (fifo_get f k)" "q = map (\<lambda>j. (j, the (fifo_get f j))) ks"
    using q by (cases "order f") (auto simp: queue_of_def)
  then obtain w where w: "fifo_get f k = Some w" using linked_get [OF f, of k] by auto
  let ?g = "f\<lparr>order := ks, items := AList.delete k (items f), total_bytes := total_bytes f - weight w\<rparr>"
  have "set ks = set (order f) - {k}" "distinct ks" using f ks(1) by (auto simp: linked_iff)
  note g = linked_remove [OF f w this refl]
  show ?thesis using g ks w by (auto simp: evict_oldest_def)
qed

lemma linked_prune:
  assumes "linked weight f"
  shows "linked weight (prune_expired weight stamp now f) \<and>
    queue_of (prune_expired weight stamp now f) = spec_prune stamp now (queue_of f)"
  using assms
proof (induction "queue_of f" arbitrary: f)
  case Nil
  then show ?case by (simp add: prune_expired.simps [of weight stamp now f] spec_prune_def queue_of_def)
next
  case (Cons e q)
  obtain k v where e: "e = (k, v)" by (cases e)
  obtain g where g: "evict_oldest weight f = (True, g)" "linked weight g" "queue_of g = q"
    using linked_evict [OF Cons.prems, of k v q] Cons.hyps(2) e by metis
  obtain ks where ks: "order f = k # ks" using Cons.hyps(2) e by (cases "order f") (auto simp: queue_of_def)
  have v: "fifo_get f k = Some v"
    using linked_get [OF Cons.prems, of k] ks Cons.hyps(2) e by (auto simp: queue_of_def)
  have q: "queue_of f = (k, v) # q" using Cons.hyps(2) e by simp
  show ?case using Cons.hyps(1) [OF g(3) [symmetric] g(2)] Cons.prems
    by (simp add: prune_expired.simps [of weight stamp now f] ks v q expired_def spec_prune_def g)
qed

lemma linked_sizes: "linked weight f \<Longrightarrow> length (items f) = length (queue_of f) \<and> total_bytes f = weight_sum weight (queue_of f)"
  by (metis linked_def size_mset weight_sum_mset)

lemma linked_no_room: "linked weight f \<Longrightarrow> no_room w f \<longleftrightarrow> \<not> spec_fits weight w (queue_of f)"
  using linked_sizes [of weight f] by (auto simp: no_room_def spec_fits_def sat_add_def usize_max_def delta_bounds)

lemma linked_make_room:
  assumes "linked weight f"
  shows "linked weight (make_room weight w f) \<and> queue_of (make_room weight w f) = spec_room weight w (queue_of f)"
  using assms
proof (induction "queue_of f" arbitrary: f)
  case Nil
  then show ?case by (simp add: make_room.simps [of weight w f] evict_oldest_def queue_of_def)
next
  case (Cons e q)
  obtain g where g: "evict_oldest weight f = (True, g)" "linked weight g" "queue_of g = q"
    using linked_evict [OF Cons.prems, of "fst e" "snd e" q] Cons.hyps(2) by auto
  show ?case using Cons.hyps(1) [OF g(3) [symmetric] g(2)] Cons.prems g Cons.hyps(2)
    by (simp add: make_room.simps [of weight w f] linked_no_room [OF Cons.prems] Cons.hyps(2) [symmetric])
qed

lemma linked_remove_previous:
  assumes f: "linked weight f"
  shows "linked weight (remove_previous weight k f) \<and> queue_of (remove_previous weight k f) = filter (\<lambda>e. fst e \<noteq> k) (queue_of f)
    \<and> k \<notin> set (order (remove_previous weight k f))"
proof (cases "fifo_get f k")
  case None
  then have "k \<notin> set (order f)" using linked_get [OF f] by force
  moreover from this have "filter (\<lambda>e. fst e \<noteq> k) (queue_of f) = queue_of f"
    by (intro filter_True) (auto simp: queue_of_def)
  ultimately show ?thesis using None f by (simp add: remove_previous_def)
next
  case (Some v)
  have "set (filter (\<lambda>j. j \<noteq> k) (order f)) = set (order f) - {k}" "distinct (filter (\<lambda>j. j \<noteq> k) (order f))"
    using f by (auto simp: linked_iff)
  note g = linked_remove [OF f Some this refl]
  have eq: "remove_previous weight k f = f\<lparr>order := filter (\<lambda>j. j \<noteq> k) (order f), items := AList.delete k (items f),
      total_bytes := total_bytes f - weight v\<rparr>" using Some by (simp add: remove_previous_def)
  show ?thesis unfolding eq using g(1,3) by (simp add: queue_of_def [of f] filter_map comp_def)
qed

lemma linked_push:
  assumes f: "linked weight f" and k: "k \<notin> set (order f)"
  shows "linked weight (f\<lparr>total_bytes := total_bytes f + weight v, order := order f @ [k], items := AList.update k v (items f)\<rparr>)
    \<and> queue_of (f\<lparr>total_bytes := total_bytes f + weight v, order := order f @ [k], items := AList.update k v (items f)\<rparr>)
      = queue_of f @ [(k, v)]"
proof -
  have nk: "k \<notin> fst ` set (items f)" using f k by (auto simp: linked_iff)
  have up: "k \<notin> fst ` set xs \<Longrightarrow> AList.update k v xs = xs @ [(k, v)]" for xs
    by (induction xs) auto
  have "map_of (items f @ [(k, v)]) j = map_of (items f) j" if "j \<in> set (order f)" for j
    using linked_get [OF f that] by (auto simp: fifo_get_def)
  moreover have "map_of (items f @ [(k, v)]) k = Some v"
    using nk by (simp add: map_of_eq_None_iff [symmetric] map_add_def)
  ultimately have "map (\<lambda>j. (j, the (map_of (items f @ [(k, v)]) j))) (order f @ [k]) = queue_of f @ [(k, v)]"
    by (auto simp: queue_of_def fifo_get_def)
  moreover have "linked weight (f\<lparr>total_bytes := total_bytes f + weight v, order := order f @ [k], items := items f @ [(k, v)]\<rparr>)"
    using f k nk by (auto simp: linked_iff weight_sum_def)
  ultimately show ?thesis unfolding up [OF nk] by (simp add: queue_of_def [of "_\<lparr>items := _\<rparr>"] fifo_get_def)
qed

lemma spec_room_fits: "w \<le> max_read_delta_entry_bytes \<Longrightarrow> spec_fits weight w (spec_room weight w q)"
  by (induction q) (auto simp: spec_fits_def delta_bounds weight_sum_def)

lemma spec_room_suffix: "\<exists>p. q = p @ spec_room weight w q"
  by (induction q) (auto intro: exI [of _ "_ # _"] exI [of _ "[]"])

lemma fifo_ok_linked: "fifo_ok weight f \<longleftrightarrow> linked weight f \<and> length (items f) \<le> max_read_delta_entries \<and>
    total_bytes f \<le> max_read_delta_total_bytes"
  by (auto simp: fifo_ok_def linked_iff)

lemma fifo_ok_queue: "fifo_ok weight f \<longleftrightarrow> linked weight f \<and> length (queue_of f) \<le> max_read_delta_entries \<and>
    weight_sum weight (queue_of f) \<le> max_read_delta_total_bytes"
  using linked_sizes [of weight f] by (auto simp: fifo_ok_linked)

lemma spec_prune_small:
  "length (spec_prune stamp now q) \<le> length q \<and> weight_sum weight (spec_prune stamp now q) \<le> weight_sum weight q"
  by (induction q) (auto simp: spec_prune_def weight_sum_def)

lemma fifo_insert_queue:
  assumes "linked weight f" "weight v \<le> max_read_delta_entry_bytes"
  shows "linked weight (fifo_insert weight k v f) \<and> queue_of (fifo_insert weight k v f) = spec_insert weight k v (queue_of f)"
proof -
  define g where "g = make_room weight (weight v) (remove_previous weight k f)"
  note r = linked_remove_previous [OF assms(1), of k]
  have g: "linked weight g" "queue_of g = spec_room weight (weight v) (filter (\<lambda>e. fst e \<noteq> k) (queue_of f))"
    using linked_make_room [of weight "remove_previous weight k f" "weight v"] r by (auto simp: g_def)
  have "set (order g) \<subseteq> set (order (remove_previous weight k f))"
  proof -
    obtain p where "filter (\<lambda>e. fst e \<noteq> k) (queue_of f) = p @ queue_of g"
      using spec_room_suffix [of "filter (\<lambda>e. fst e \<noteq> k) (queue_of f)" weight "weight v"] g(2) by metis
    then have "order (remove_previous weight k f) = map fst p @ order g"
      using r fst_queue_of [of "remove_previous weight k f"] fst_queue_of [of g] by (metis map_append)
    then show ?thesis by simp
  qed
  then have k: "k \<notin> set (order g)" using r by blast
  have room: "\<not> no_room (weight v) g"
    using linked_no_room [OF g(1)] g(2) spec_room_fits [OF assms(2), of weight] by simp
  have eq: "fifo_insert weight k v f =
      g\<lparr>total_bytes := total_bytes g + weight v, order := order g @ [k], items := AList.update k v (items g)\<rparr>"
    using room by (simp add: fifo_insert_def g_def Let_def)
  show ?thesis unfolding eq spec_insert_def g(2) [symmetric] by (rule linked_push [OF g(1) k])
qed

lemma fifo_insert_ok:
  assumes "fifo_ok weight f" "weight v \<le> max_read_delta_entry_bytes"
  shows "fifo_ok weight (fifo_insert weight k v f)"
proof -
  have l: "linked weight f" using assms(1) by (simp add: fifo_ok_linked)
  note q = fifo_insert_queue [of weight f, OF l assms(2), of k]
  have "length (spec_insert weight k v p) \<le> max_read_delta_entries \<and> weight_sum weight (spec_insert weight k v p) \<le> max_read_delta_total_bytes" for p
    using spec_room_fits [OF assms(2), of weight "filter (\<lambda>e. fst e \<noteq> k) p"]
    by (simp add: spec_insert_def spec_fits_def weight_sum_def)
  then show ?thesis using q by (simp add: fifo_ok_queue)
qed

lemma fifo_prune_ok: "fifo_ok weight f \<Longrightarrow> fifo_ok weight (prune_expired weight stamp now f)"
  using linked_prune [of weight f stamp now] spec_prune_small [of stamp now "queue_of f" weight]
  by (auto simp: fifo_ok_queue)

lemma fifo_get_queue: "linked weight f \<Longrightarrow> fifo_get f k = map_of (queue_of f) k"
proof -
  assume f: "linked weight f"
  then have "distinct (map fst (items f))" "distinct (map fst (queue_of f))" "set (items f) = set (queue_of f)"
    by (auto simp: linked_iff) (metis f linked_def mset_eq_setD)+
  then show ?thesis unfolding fifo_get_def by (metis map_of_inject_set)
qed

text \<open>C26: A store of the read-delta registry is a bounded queue.  From a well-formed store, pruning and
  inserting lead to a well-formed store (its hash map, insertion order and byte count agree, at most
  128 entries, at most 8 MiB) and act on the queue of entries as the specification says: pruning drops
  the expired entries at the front, inserting drops an older entry of the same key, then as few of the
  oldest entries as make room, and puts the new one at the end; looking up is looking up in the queue.\<close>

theorem delta_store_refines_queue:
  assumes "fifo_ok weight f" "weight v \<le> max_read_delta_entry_bytes"
  shows "fifo_ok weight (prune_expired weight stamp now f) \<and>
    queue_of (prune_expired weight stamp now f) = spec_prune stamp now (queue_of f) \<and>
    fifo_ok weight (fifo_insert weight k v f) \<and>
    queue_of (fifo_insert weight k v f) = spec_insert weight k v (queue_of f) \<and>
    fifo_get f j = map_of (queue_of f) j"
proof -
  have l: "linked weight f" using assms(1) by (simp add: fifo_ok_linked)
  show ?thesis using linked_prune [OF l] fifo_prune_ok [OF assms(1)] fifo_insert_ok [of weight f, OF assms]
      fifo_insert_queue [of weight f, OF l assms(2)] fifo_get_queue [OF l] by blast
qed

text \<open>A run of the store on two entries: both stay.\<close>

theorem delta_store_refines_queue_witness:
  "queue_of (fifo_insert id ''b'' 500 (fifo_insert id ''a'' 7 fifo_empty)) = [(''a'', 7), (''b'', 500)] \<and>
   fifo_ok id (fifo_insert id ''b'' 500 (fifo_insert id ''a'' 7 fifo_empty))"
proof -
  have a: "fifo_ok id (fifo_empty :: (string, nat) fifo)" by (simp add: fifo_ok_def fifo_empty_def weight_sum_def)
  have small: "id (7::nat) \<le> max_read_delta_entry_bytes" "id (500::nat) \<le> max_read_delta_entry_bytes"
    by (simp_all add: delta_bounds)
  note one = delta_store_refines_queue [of id fifo_empty 7 id 0 "''a''" "''a''", OF a small(1)]
  note two = delta_store_refines_queue [of id "fifo_insert id ''a'' 7 fifo_empty" 500 id 0 "''b''" "''b''", OF _ small(2)]
  have q: "queue_of (fifo_insert id ''a'' 7 fifo_empty) = [(''a'', 7)]"
  proof -
    have "queue_of (fifo_empty :: (string, nat) fifo) = []" by (simp add: queue_of_def fifo_empty_def)
    then show ?thesis using one by (simp add: spec_insert_def)
  qed
  have "spec_fits id 500 [(''a'', 7 :: nat)]" by (simp add: spec_fits_def delta_bounds weight_sum_def)
  then show ?thesis using one two q by (simp add: spec_insert_def)
qed

section \<open>What a store can hold\<close>

lemma fifo_get_mem: "linked weight f \<Longrightarrow> fifo_get f k = Some v \<longleftrightarrow> (k, v) \<in> set (queue_of f)"
  using fifo_get_queue [of weight f k] map_of_eq_Some_iff [of "queue_of f" k v] by (simp add: linked_iff)

lemma spec_room_mem: "e \<in> set (spec_room weight w q) \<Longrightarrow> e \<in> set q"
  by (induction q) (auto split: if_splits)

lemma spec_insert_mem: "e \<in> set (spec_insert weight k v q) \<Longrightarrow> e = (k, v) \<or> e \<in> set q"
  by (auto simp: spec_insert_def dest: spec_room_mem)

lemma fifo_prune_get:
  assumes f: "fifo_ok weight f" and get: "fifo_get (prune_expired weight stamp now f) k = Some v"
  shows "fifo_get f k = Some v"
proof -
  have l: "linked weight f" using f by (simp add: fifo_ok_linked)
  have p: "linked weight (prune_expired weight stamp now f)"
      "queue_of (prune_expired weight stamp now f) = spec_prune stamp now (queue_of f)"
    using linked_prune [OF l] by blast+
  have "(k, v) \<in> set (spec_prune stamp now (queue_of f))" using get fifo_get_mem [OF p(1)] unfolding p(2) by blast
  then have "(k, v) \<in> set (queue_of f)" unfolding spec_prune_def by (rule set_dropWhileD)
  then show ?thesis using fifo_get_mem [OF l] by blast
qed

lemma fifo_insert_get:
  assumes f: "fifo_ok weight f" and v: "weight v \<le> max_read_delta_entry_bytes"
    and get: "fifo_get (fifo_insert weight k v f) j = Some w"
  shows "j = k \<and> w = v \<or> fifo_get f j = Some w"
proof -
  have l: "linked weight f" using f by (simp add: fifo_ok_linked)
  note q = fifo_insert_queue [of weight f, OF l v, of k]
  have "(j, w) \<in> set (spec_insert weight k v (queue_of f))"
    using get fifo_get_mem [of weight "fifo_insert weight k v f" j w] q by simp
  from spec_insert_mem [OF this] show ?thesis using fifo_get_mem [OF l, of j w] by auto
qed

end
