(* ===== verification/Read_Delta.thy ===== *)
theory Read_Delta
  imports Delta_Fifo Cursor
begin

text \<open>
  Deltas of repeated reads (\<open>src/services/read_delta.rs\<close>, \<open>src/read_delta.rs\<close>): the process-local
  registry of base contents and computed deltas, and the decision \<open>evaluate\<close> makes for one read.  The
  hash, the diff, the tokenizer and the repository storage are parameters; the clock is read in the
  order of the calls, and \<open>clk\<close> lists its readings.
\<close>

section \<open>The registry\<close>

record cache_key =
  ck_target :: string
  ck_hash :: string

record delta_cache_key =
  dk_target :: string
  dk_base :: string
  dk_head :: string
  dk_start :: usize
  dk_end :: usize

record read_delta_base =
  rb_content :: string
  rb_generation :: nat
  rb_target_start :: usize
  rb_target_end :: usize
  rb_returned_start :: usize
  rb_returned_end :: usize

record cache_entry = read_delta_base +
  inserted_at :: nat

record delta_cache_entry =
  dl_delta :: string
  dl_inserted_at :: nat

record registry =
  bases :: "(cache_key, cache_entry) fifo"
  deltas :: "(delta_cache_key, delta_cache_entry) fifo"

definition registry_empty :: registry where
  "registry_empty = \<lparr>bases = fifo_empty, deltas = fifo_empty\<rparr>"

definition base_weight :: "cache_entry \<Rightarrow> usize" where "base_weight e = length (rb_content e)"
definition delta_weight :: "delta_cache_entry \<Rightarrow> usize" where "delta_weight e = length (dl_delta e)"

definition registry_prune :: "nat \<Rightarrow> registry \<Rightarrow> registry" where
  "registry_prune now r =
     \<lparr>bases = prune_expired base_weight inserted_at now (bases r),
      deltas = prune_expired delta_weight dl_inserted_at now (deltas r)\<rparr>"

definition registry_lookup :: "nat \<Rightarrow> string \<Rightarrow> string \<Rightarrow> registry \<Rightarrow> registry \<times> cache_entry option" where
  "registry_lookup now target h r =
     (let r = registry_prune now r in (r, fifo_get (bases r) \<lparr>ck_target = target, ck_hash = h\<rparr>))"

fun find_latest :: "string \<Rightarrow> (cache_key, cache_entry) fifo \<Rightarrow> cache_key list \<Rightarrow> (string \<times> cache_entry) option" where
  "find_latest target f [] = None"
| "find_latest target f (k # ks) =
     (if ck_target k \<noteq> target then find_latest target f ks
      else case fifo_get f k of Some e \<Rightarrow> Some (ck_hash k, e) | None \<Rightarrow> find_latest target f ks)"

definition registry_lookup_latest :: "nat \<Rightarrow> string \<Rightarrow> registry \<Rightarrow> registry \<times> (string \<times> cache_entry) option" where
  "registry_lookup_latest now target r =
     (let r = registry_prune now r in (r, find_latest target (bases r) (rev (order (bases r)))))"

definition registry_lookup_delta :: "nat \<Rightarrow> delta_cache_key \<Rightarrow> registry \<Rightarrow> registry \<times> string option" where
  "registry_lookup_delta now k r =
     (let r = registry_prune now r in (r, map_option dl_delta (fifo_get (deltas r) k)))"

definition registry_insert :: "nat \<Rightarrow> cache_key \<Rightarrow> cache_entry \<Rightarrow> registry \<Rightarrow> registry" where
  "registry_insert now k e r =
     (if max_read_delta_entry_bytes < length (rb_content e) then r
      else let r = registry_prune now r in r\<lparr>bases := fifo_insert base_weight k e (bases r)\<rparr>)"

definition registry_insert_delta :: "nat \<Rightarrow> nat \<Rightarrow> delta_cache_key \<Rightarrow> string \<Rightarrow> registry \<Rightarrow> registry" where
  "registry_insert_delta now now' k d r =
     (if max_read_delta_entry_bytes < length d then r
      else let r = registry_prune now r in
        r\<lparr>deltas := fifo_insert delta_weight k \<lparr>dl_delta = d, dl_inserted_at = now'\<rparr> (deltas r)\<rparr>)"

section \<open>One read\<close>

datatype read_target = Target_Symbol string | Target_Heading string nat | Target_Lines nat "nat option"

datatype delta_outcome = Outcome_Full | Outcome_Delta | Outcome_Not_Modified

datatype delta_fallback = Base_Unavailable | Target_Changed | Current_Truncated | Content_Too_Large | Delta_Not_Smaller

datatype base_source = Process_Local | Persistent

datatype persistence_fallback =
  Persist_Current_Truncated | Persist_Content_Too_Large | Live_Differs_From_Index | Indexed_Hash_Unavailable | Storage_Capacity

datatype delta_error = Operation_Failed string | Storage_Failed string

record read_response =
  rr_path :: string
  rr_content_hash :: string
  rr_target_start :: usize
  rr_target_end :: "usize option"
  rr_returned_start :: usize
  rr_returned_end :: usize
  rr_truncated :: bool
  rr_index_stale :: bool
  rr_indexed_hash :: "string option"
  rr_generation :: nat

record delta_receipt =
  dr_target_key :: string
  dr_base_hash :: "string option"
  dr_head_hash :: string
  dr_base_generation :: "nat option"
  dr_base_source :: "base_source option"
  dr_head_generation :: nat
  dr_outcome :: delta_outcome
  dr_full_tokens :: usize
  dr_delta_tokens :: "usize option"
  dr_avoided_tokens :: usize
  dr_head_persisted :: bool
  dr_persistence_fallback :: "persistence_fallback option"
  dr_fallback :: "delta_fallback option"

record evaluation =
  ev_delta :: "string option"
  ev_receipt :: delta_receipt

record delta_lib =
  hash_hex :: "string \<Rightarrow> string"
  unified_diff :: "string \<Rightarrow> string \<Rightarrow> string \<Rightarrow> string \<Rightarrow> string"
  count_tokens :: "string \<Rightarrow> usize"
  stored_base :: "string \<Rightarrow> string \<Rightarrow> delta_error + read_delta_base option"
  stored_latest :: "string \<Rightarrow> delta_error + (string \<times> read_delta_base) option"
  persist_base :: "string \<Rightarrow> string \<Rightarrow> read_delta_base \<Rightarrow> delta_error + bool"

definition u64_le :: "nat \<Rightarrow> string" where
  "u64_le n = le_encode 8 (min n (2 ^ 64 - 1))"

definition target_key :: "delta_lib \<Rightarrow> string \<Rightarrow> string \<Rightarrow> read_target \<Rightarrow> string" where
  "target_key D repository path t =
     hash_hex D (repository @ CHR 0x00 # path @ CHR 0x00 #
       (case t of
          Target_Symbol s \<Rightarrow> ''symbol'' @ CHR 0x00 # s
        | Target_Heading n k \<Rightarrow> ''heading'' @ CHR 0x00 # n @ CHR 0x00 # u64_le k
        | Target_Lines a b \<Rightarrow> ''lines'' @ CHR 0x00 # u64_le a @ u64_le (case b of None \<Rightarrow> 2 ^ 64 - 1 | Some e \<Rightarrow> e)))"

definition target_coordinates_changed :: "'a read_delta_base_scheme \<Rightarrow> read_response \<Rightarrow> bool" where
  "target_coordinates_changed b r \<longleftrightarrow>
     rb_target_start b \<noteq> rr_target_start r \<or> Some (rb_target_end b) \<noteq> rr_target_end r \<or>
     rb_returned_start b \<noteq> rr_returned_start r \<or> rb_returned_end b \<noteq> rr_returned_end r"

definition from_persistent :: "nat \<Rightarrow> read_delta_base \<Rightarrow> cache_entry" where
  "from_persistent now b = read_delta_base.extend b \<lparr>inserted_at = now\<rparr>"

definition diff_header :: "string \<Rightarrow> string \<Rightarrow> usize \<Rightarrow> usize \<Rightarrow> string" where
  "diff_header side path a b = side @ ''/'' @ path @ '':'' @ show_nat a @ ''-'' @ show_nat b"

text \<open>The base an unconditional or conditional read is compared with.\<close>

definition select_base ::
  "delta_lib \<Rightarrow> nat \<Rightarrow> nat \<Rightarrow> string \<Rightarrow> string option \<Rightarrow> registry \<Rightarrow>
   registry \<times> (delta_error + (string \<times> cache_entry \<times> base_source) option)" where
  "select_base D now now' target expected_hash r =
     (case expected_hash of
        Some h \<Rightarrow>
          (case registry_lookup now target h r of
             (r, Some e) \<Rightarrow> (r, Inr (Some (h, e, Process_Local)))
           | (r, None) \<Rightarrow>
               (r, case stored_base D target h of
                     Inl err \<Rightarrow> Inl err
                   | Inr None \<Rightarrow> Inr None
                   | Inr (Some b) \<Rightarrow> Inr (Some (h, from_persistent now' b, Persistent))))
      | None \<Rightarrow>
          (case registry_lookup_latest now target r of
             (r, local) \<Rightarrow>
               (r, case stored_latest D target of
                     Inl err \<Rightarrow> Inl err
                   | Inr persistent \<Rightarrow>
                       (case (local, persistent) of
                          (Some (h, e), Some (ph, p)) \<Rightarrow>
                            if rb_generation p \<le> rb_generation e then Inr (Some (h, e, Process_Local))
                            else Inr (Some (ph, from_persistent now' p, Persistent))
                        | (Some (h, e), None) \<Rightarrow> Inr (Some (h, e, Process_Local))
                        | (None, Some (ph, p)) \<Rightarrow> Inr (Some (ph, from_persistent now' p, Persistent))
                        | (None, None) \<Rightarrow> Inr None))))"

record decision =
  de_base_hash :: "string option"
  de_base_generation :: "nat option"
  de_base_source :: "base_source option"
  de_delta :: "string option"
  de_outcome :: delta_outcome
  de_delta_tokens :: "usize option"
  de_avoided :: usize
  de_fallback :: "delta_fallback option"

definition decide_initial :: "string option \<Rightarrow> decision" where
  "decide_initial expected_hash = \<lparr>de_base_hash = expected_hash, de_base_generation = None, de_base_source = None,
     de_delta = None, de_outcome = Outcome_Full, de_delta_tokens = None, de_avoided = 0, de_fallback = None\<rparr>"

definition not_modified :: "usize \<Rightarrow> decision \<Rightarrow> decision" where
  "not_modified full_tokens d = d\<lparr>de_outcome := Outcome_Not_Modified, de_delta_tokens := Some 0, de_avoided := full_tokens\<rparr>"

text \<open>The delta against a selected base: from the cache, or computed and cached.\<close>

definition obtain_delta ::
  "delta_lib \<Rightarrow> (nat \<Rightarrow> nat) \<Rightarrow> string \<Rightarrow> string \<Rightarrow> cache_entry \<Rightarrow> read_response \<Rightarrow> string \<Rightarrow> registry \<Rightarrow> registry \<times> string" where
  "obtain_delta D clk target base_hash base resp current r =
     (let k = \<lparr>dk_target = target, dk_base = base_hash, dk_head = rr_content_hash resp,
               dk_start = rr_returned_start resp, dk_end = rr_returned_end resp\<rparr> in
      case registry_lookup_delta (clk 2) k r of
        (r, Some d) \<Rightarrow> (r, d)
      | (r, None) \<Rightarrow>
          let d = unified_diff D (rb_content base) current
                    (diff_header ''base'' (rr_path resp) (rr_returned_start resp) (rr_returned_end resp))
                    (diff_header ''head'' (rr_path resp) (rr_returned_start resp) (rr_returned_end resp)) in
          (registry_insert_delta (clk 3) (clk 4) k d r, d))"

definition decide_with_base ::
  "delta_lib \<Rightarrow> (nat \<Rightarrow> nat) \<Rightarrow> string \<Rightarrow> string \<Rightarrow> cache_entry \<Rightarrow> base_source \<Rightarrow> read_response \<Rightarrow> string \<Rightarrow> usize \<Rightarrow>
   decision \<Rightarrow> registry \<Rightarrow> registry \<times> decision" where
  "decide_with_base D clk target h base src resp current full_tokens d r =
     (let d = d\<lparr>de_base_hash := Some h, de_base_generation := Some (rb_generation base), de_base_source := Some src\<rparr> in
      if h = rr_content_hash resp then (r, not_modified full_tokens d)
      else if target_coordinates_changed base resp then (r, d\<lparr>de_fallback := Some Target_Changed\<rparr>)
      else
        (case obtain_delta D clk target h base resp current r of
           (r, full_delta) \<Rightarrow>
             let candidate = count_tokens D full_delta in
             (r, if candidate < full_tokens
                 then d\<lparr>de_outcome := Outcome_Delta, de_delta_tokens := Some candidate,
                        de_avoided := full_tokens - candidate, de_delta := Some full_delta\<rparr>
                 else d\<lparr>de_fallback := Some Delta_Not_Smaller\<rparr>)))"

definition decide ::
  "delta_lib \<Rightarrow> (nat \<Rightarrow> nat) \<Rightarrow> string \<Rightarrow> string option \<Rightarrow> read_response \<Rightarrow> string \<Rightarrow> usize \<Rightarrow> registry \<Rightarrow>
   registry \<times> (delta_error + decision)" where
  "decide D clk target expected_hash resp current full_tokens r =
     (let d = decide_initial expected_hash in
      if expected_hash = Some (rr_content_hash resp) then (r, Inr (not_modified full_tokens d))
      else if rr_truncated resp then (r, Inr (d\<lparr>de_fallback := Some Current_Truncated\<rparr>))
      else if max_read_delta_entry_bytes < length current then (r, Inr (d\<lparr>de_fallback := Some Content_Too_Large\<rparr>))
      else
        (case select_base D (clk 0) (clk 1) target expected_hash r of
           (r, Inl err) \<Rightarrow> (r, Inl err)
         | (r, Inr None) \<Rightarrow> (r, Inr (d\<lparr>de_fallback := Some Base_Unavailable\<rparr>))
         | (r, Inr (Some (h, base, src))) \<Rightarrow>
             (case decide_with_base D clk target h base src resp current full_tokens d r of (r, d) \<Rightarrow> (r, Inr d))))"

definition persistence_reason :: "read_response \<Rightarrow> string \<Rightarrow> persistence_fallback option" where
  "persistence_reason resp current =
     (if rr_truncated resp then Some Persist_Current_Truncated
      else if max_read_delta_entry_bytes < length current then Some Persist_Content_Too_Large
      else if rr_index_stale resp then Some Live_Differs_From_Index
      else if rr_indexed_hash resp = None then Some Indexed_Hash_Unavailable
      else None)"

definition delta_evaluate ::
  "delta_lib \<Rightarrow> (nat \<Rightarrow> nat) \<Rightarrow> string \<Rightarrow> string \<Rightarrow> read_target \<Rightarrow> string option \<Rightarrow> read_response \<Rightarrow> string \<Rightarrow> usize \<Rightarrow>
   registry \<Rightarrow> registry \<times> (delta_error + evaluation)" where
  "delta_evaluate D clk repository path t expected_hash resp current full_tokens r =
     (case rr_target_end resp of
        None \<Rightarrow> (r, Inl (Operation_Failed ''read delta requires a complete target end''))
      | Some target_end \<Rightarrow>
          let target = target_key D repository path t in
          (case decide D clk target expected_hash resp current full_tokens r of
             (r, Inl err) \<Rightarrow> (r, Inl err)
           | (r, Inr d) \<Rightarrow>
               let base = \<lparr>rb_content = current, rb_generation = rr_generation resp, rb_target_start = rr_target_start resp,
                           rb_target_end = target_end, rb_returned_start = rr_returned_start resp,
                           rb_returned_end = rr_returned_end resp\<rparr>;
                   r = (if \<not> rr_truncated resp \<and> length current \<le> max_read_delta_entry_bytes
                        then registry_insert (clk 6) \<lparr>ck_target = target, ck_hash = rr_content_hash resp\<rparr>
                               (from_persistent (clk 5) base) r
                        else r);
                   receipt = (\<lambda>persisted reason.
                     \<lparr>dr_target_key = target, dr_base_hash = de_base_hash d, dr_head_hash = rr_content_hash resp,
                      dr_base_generation = de_base_generation d, dr_base_source = de_base_source d,
                      dr_head_generation = rr_generation resp, dr_outcome = de_outcome d, dr_full_tokens = full_tokens,
                      dr_delta_tokens = de_delta_tokens d, dr_avoided_tokens = de_avoided d,
                      dr_head_persisted = persisted, dr_persistence_fallback = reason, dr_fallback = de_fallback d\<rparr>) in
               (r, case persistence_reason resp current of
                     Some reason \<Rightarrow> Inr \<lparr>ev_delta = de_delta d, ev_receipt = receipt False (Some reason)\<rparr>
                   | None \<Rightarrow>
                       (case persist_base D target (rr_content_hash resp) base of
                          Inl err \<Rightarrow> Inl err
                        | Inr persisted \<Rightarrow> Inr \<lparr>ev_delta = de_delta d,
                            ev_receipt = receipt persisted (if persisted then None else Some Storage_Capacity)\<rparr>))))"

section \<open>What the registry can hold\<close>

text \<open>Two contracts of a keyed store: a step may lose entries but invents none, and a put adds only its own
  entry.  Whatever holds of all entries survives both.\<close>

definition holds :: "('s \<Rightarrow> 'k \<Rightarrow> 'v option) \<Rightarrow> ('k \<Rightarrow> 'v \<Rightarrow> bool) \<Rightarrow> 's \<Rightarrow> bool" where
  "holds get P s \<longleftrightarrow> (\<forall>k v. get s k = Some v \<longrightarrow> P k v)"

locale lossy =
  fixes get :: "'s \<Rightarrow> 'k \<Rightarrow> 'v option" and ok :: "'s \<Rightarrow> bool" and step :: "'s \<Rightarrow> 's"
  assumes step_ok: "ok s \<Longrightarrow> ok (step s)"
    and step_get: "ok s \<Longrightarrow> get (step s) k = Some v \<Longrightarrow> get s k = Some v"
begin

lemma holds_step: "ok s \<Longrightarrow> holds get P s \<Longrightarrow> holds get P (step s)"
  unfolding holds_def using step_get by blast

end

locale store =
  fixes get :: "'s \<Rightarrow> 'k \<Rightarrow> 'v option" and ok :: "'s \<Rightarrow> bool" and put :: "'k \<Rightarrow> 'v \<Rightarrow> 's \<Rightarrow> 's"
  assumes put_ok: "ok s \<Longrightarrow> ok (put k v s)"
    and put_get: "ok s \<Longrightarrow> get (put k v s) j = Some w \<Longrightarrow> j = k \<and> w = v \<or> get s j = Some w"
begin

lemma holds_put: "ok s \<Longrightarrow> holds get P s \<Longrightarrow> P k v \<Longrightarrow> holds get P (put k v s)"
  unfolding holds_def using put_get by blast

end

definition registry_ok :: "registry \<Rightarrow> bool" where
  "registry_ok r \<longleftrightarrow> fifo_ok base_weight (bases r) \<and> fifo_ok delta_weight (deltas r)"

definition get_base :: "registry \<Rightarrow> cache_key \<Rightarrow> cache_entry option" where "get_base r = fifo_get (bases r)"
definition get_delta :: "registry \<Rightarrow> delta_cache_key \<Rightarrow> delta_cache_entry option" where "get_delta r = fifo_get (deltas r)"

lemma registry_prune_ok: "registry_ok r \<Longrightarrow> registry_ok (registry_prune now r)"
  by (simp add: registry_ok_def registry_prune_def fifo_prune_ok)

lemma registry_prune_get:
  assumes "registry_ok r"
  shows "get_base (registry_prune now r) k = Some e \<Longrightarrow> get_base r k = Some e"
    "get_delta (registry_prune now r) k' = Some d \<Longrightarrow> get_delta r k' = Some d"
  using assms by (auto simp: registry_ok_def registry_prune_def get_base_def get_delta_def intro: fifo_prune_get)

lemma delta_entry_eta: "\<lparr>dl_delta = dl_delta v, dl_inserted_at = dl_inserted_at v\<rparr> = (v :: delta_cache_entry)"
  by simp

interpretation prune_bases: lossy get_base registry_ok "registry_prune now" for now
  by unfold_locales (fact registry_prune_ok registry_prune_get)+

interpretation prune_deltas: lossy get_delta registry_ok "registry_prune now" for now
  by unfold_locales (fact registry_prune_ok registry_prune_get)+

interpretation put_bases: store get_base registry_ok "registry_insert now" for now
proof
  fix s k v j w assume s: "registry_ok s"
  have p: "registry_ok (registry_prune now s)" by (rule registry_prune_ok [OF s])
  then show "registry_ok (registry_insert now k v s)"
    using s by (simp add: registry_insert_def Let_def registry_ok_def fifo_insert_ok base_weight_def)
  assume "get_base (registry_insert now k v s) j = Some w"
  then show "j = k \<and> w = v \<or> get_base s j = Some w"
    using p registry_prune_get(1) [OF s, of now j w] fifo_insert_get [of base_weight "bases (registry_prune now s)" v k j w]
    by (auto simp: registry_insert_def Let_def registry_ok_def get_base_def base_weight_def split: if_splits)
qed

interpretation put_bases_deltas: lossy get_delta registry_ok "registry_insert now k v" for now k v
proof
  fix s k' d assume s: "registry_ok s"
  show "registry_ok (registry_insert now k v s)" by (rule put_bases.put_ok [OF s])
  assume "get_delta (registry_insert now k v s) k' = Some d"
  then show "get_delta s k' = Some d" using registry_prune_get(2) [OF s, of now k' d]
    by (auto simp: registry_insert_def Let_def get_delta_def split: if_splits)
qed

interpretation put_deltas: store get_delta registry_ok "\<lambda>k d. registry_insert_delta now (dl_inserted_at d) k (dl_delta d)" for now
proof
  fix s k j and v w :: delta_cache_entry assume s: "registry_ok s"
  have p: "registry_ok (registry_prune now s)" by (rule registry_prune_ok [OF s])
  then show "registry_ok (registry_insert_delta now (dl_inserted_at v) k (dl_delta v) s)"
    using s by (simp add: registry_insert_delta_def Let_def registry_ok_def fifo_insert_ok delta_weight_def)
  assume "get_delta (registry_insert_delta now (dl_inserted_at v) k (dl_delta v) s) j = Some w"
  then show "j = k \<and> w = v \<or> get_delta s j = Some w"
    using p registry_prune_get(2) [OF s, of now j w] fifo_insert_get [of delta_weight "deltas (registry_prune now s)" v k j w]
    by (auto simp: registry_insert_delta_def Let_def registry_ok_def get_delta_def delta_weight_def delta_entry_eta
        split: if_splits)
qed

interpretation put_deltas_bases: lossy get_base registry_ok "registry_insert_delta now now' k d" for now now' k d
proof
  fix s k' e assume s: "registry_ok s"
  show "registry_ok (registry_insert_delta now now' k d s)"
    using put_deltas.put_ok [OF s, of now "\<lparr>dl_delta = d, dl_inserted_at = now'\<rparr>" k] by simp
  assume "get_base (registry_insert_delta now now' k d s) k' = Some e"
  then show "get_base s k' = Some e" using registry_prune_get(1) [OF s, of now k' e]
    by (auto simp: registry_insert_delta_def Let_def get_base_def split: if_splits)
qed

section \<open>Coherence\<close>

text \<open>A base is filed under the hash of its content; a delta under the hashes of the two texts it relates.\<close>

definition base_true :: "delta_lib \<Rightarrow> cache_key \<Rightarrow> cache_entry \<Rightarrow> bool" where
  "base_true D k e \<longleftrightarrow> hash_hex D (rb_content e) = ck_hash k"

definition relates :: "delta_lib \<Rightarrow> string \<Rightarrow> string \<Rightarrow> usize \<Rightarrow> usize \<Rightarrow> string \<Rightarrow> bool" where
  "relates D h h' a b d \<longleftrightarrow> (\<exists>old new path. hash_hex D old = h \<and> hash_hex D new = h' \<and>
     d = unified_diff D old new (diff_header ''base'' path a b) (diff_header ''head'' path a b))"

definition delta_true :: "delta_lib \<Rightarrow> delta_cache_key \<Rightarrow> delta_cache_entry \<Rightarrow> bool" where
  "delta_true D k d \<longleftrightarrow> relates D (dk_base k) (dk_head k) (dk_start k) (dk_end k) (dl_delta d)"

definition coherent :: "delta_lib \<Rightarrow> registry \<Rightarrow> bool" where
  "coherent D r \<longleftrightarrow> registry_ok r \<and> holds get_base (base_true D) r \<and> holds get_delta (delta_true D) r"

text \<open>What the storage promises: a base it returns has the hash it is filed under.\<close>

definition storage_true :: "delta_lib \<Rightarrow> bool" where
  "storage_true D \<longleftrightarrow>
     (\<forall>t h b. stored_base D t h = Inr (Some b) \<longrightarrow> hash_hex D (rb_content b) = h) \<and>
     (\<forall>t h b. stored_latest D t = Inr (Some (h, b)) \<longrightarrow> hash_hex D (rb_content b) = h)"

lemma coherent_prune: "coherent D r \<Longrightarrow> coherent D (registry_prune now r)"
  unfolding coherent_def using registry_prune_ok prune_bases.holds_step prune_deltas.holds_step by blast

lemma coherent_insert:
  assumes "coherent D r" "base_true D k e"
  shows "coherent D (registry_insert now k e r)"
  using assms unfolding coherent_def using put_bases.put_ok put_bases.holds_put put_bases_deltas.holds_step by blast

lemma coherent_insert_delta:
  assumes "coherent D r" "delta_true D k \<lparr>dl_delta = d, dl_inserted_at = now'\<rparr>"
  shows "coherent D (registry_insert_delta now now' k d r)"
proof -
  have "holds get_delta (delta_true D) (registry_insert_delta now now' k d r)"
    using put_deltas.holds_put [of r "delta_true D" k "\<lparr>dl_delta = d, dl_inserted_at = now'\<rparr>" now] assms
    by (simp add: coherent_def)
  then show ?thesis using assms(1) put_deltas_bases.step_ok put_deltas_bases.holds_step unfolding coherent_def by blast
qed

lemma find_latest_Some: "find_latest target f ks = Some (h, e) \<Longrightarrow> \<exists>k. ck_hash k = h \<and> fifo_get f k = Some e"
  by (induction ks) (auto split: if_splits option.splits)

lemma select_base_coherent:
  assumes "coherent D r" "storage_true D" "select_base D now now' target expected_hash r = (r', res)"
  shows "coherent D r' \<and> (\<forall>h e src. res = Inr (Some (h, e, src)) \<longrightarrow> hash_hex D (rb_content e) = h)"
proof -
  have p: "coherent D (registry_prune now r)" by (rule coherent_prune [OF assms(1)])
  have content: "rb_content (from_persistent t b) = rb_content b" for t b
    by (simp add: from_persistent_def read_delta_base.defs)
  have local: "hash_hex D (rb_content e) = h"
    if "find_latest target (bases (registry_prune now r)) ks = Some (h, e)" for ks h e
    using find_latest_Some [OF that] p by (auto simp: coherent_def holds_def base_true_def get_base_def)
  have exact: "hash_hex D (rb_content e) = h"
    if "fifo_get (bases (registry_prune now r)) \<lparr>ck_target = target, ck_hash = h\<rparr> = Some e" for h e
    using that p by (fastforce simp: coherent_def holds_def base_true_def get_base_def)
  show ?thesis
  proof (cases expected_hash)
    case None
    then show ?thesis using assms(2,3) p local
      by (auto simp: select_base_def registry_lookup_latest_def Let_def storage_true_def content
          split: sum.splits option.splits if_splits)
  next
    case (Some h)
    then show ?thesis using assms(2,3) p exact
      by (auto simp: select_base_def registry_lookup_def Let_def storage_true_def content
          split: sum.splits option.splits if_splits)
  qed
qed

lemma obtain_delta_coherent:
  assumes "coherent D r" "hash_hex D (rb_content e) = h" "hash_hex D current = rr_content_hash resp"
    and "obtain_delta D clk target h e resp current r = (r', d)"
  shows "coherent D r' \<and> relates D h (rr_content_hash resp) (rr_returned_start resp) (rr_returned_end resp) d"
proof -
  let ?k = "\<lparr>dk_target = target, dk_base = h, dk_head = rr_content_hash resp,
      dk_start = rr_returned_start resp, dk_end = rr_returned_end resp\<rparr>"
  have p: "coherent D (registry_prune (clk 2) r)" by (rule coherent_prune [OF assms(1)])
  show ?thesis
  proof (cases "fifo_get (deltas (registry_prune (clk 2) r)) ?k")
    case (Some c)
    then have "r' = registry_prune (clk 2) r" "d = dl_delta c"
      using assms(4) by (simp_all add: obtain_delta_def registry_lookup_delta_def Let_def)
    moreover have "delta_true D ?k c" using p Some by (simp add: coherent_def holds_def get_delta_def)
    ultimately show ?thesis using p by (simp add: delta_true_def)
  next
    case None
    then have r': "r' = registry_insert_delta (clk 3) (clk 4) ?k d (registry_prune (clk 2) r)"
      and d: "d = unified_diff D (rb_content e) current
          (diff_header ''base'' (rr_path resp) (rr_returned_start resp) (rr_returned_end resp))
          (diff_header ''head'' (rr_path resp) (rr_returned_start resp) (rr_returned_end resp))"
      using assms(4) by (auto simp: obtain_delta_def registry_lookup_delta_def Let_def)
    have rel: "relates D h (rr_content_hash resp) (rr_returned_start resp) (rr_returned_end resp) d"
      unfolding relates_def d using assms(2,3) by blast
    then show ?thesis unfolding r' using coherent_insert_delta [OF p] by (simp add: delta_true_def)
  qed
qed

section \<open>Decisions\<close>

definition decision_true :: "delta_lib \<Rightarrow> read_response \<Rightarrow> decision \<Rightarrow> bool" where
  "decision_true D resp d \<longleftrightarrow>
     (case de_delta d of None \<Rightarrow> True
      | Some t \<Rightarrow> (\<exists>h. de_base_hash d = Some h \<and>
          relates D h (rr_content_hash resp) (rr_returned_start resp) (rr_returned_end resp) t)) \<and>
     (de_outcome d = Outcome_Not_Modified \<longrightarrow> de_base_hash d = Some (rr_content_hash resp))"

definition decision_adds_up :: "delta_lib \<Rightarrow> usize \<Rightarrow> decision \<Rightarrow> bool" where
  "decision_adds_up D full d \<longleftrightarrow> (case de_outcome d of
      Outcome_Full \<Rightarrow> de_delta d = None \<and> de_delta_tokens d = None \<and> de_avoided d = 0 \<and> de_fallback d \<noteq> None
    | Outcome_Delta \<Rightarrow> (case de_delta d of None \<Rightarrow> False | Some t \<Rightarrow>
        de_delta_tokens d = Some (count_tokens D t) \<and> count_tokens D t < full \<and>
        de_avoided d + count_tokens D t = full \<and> de_fallback d = None)
    | Outcome_Not_Modified \<Rightarrow> de_delta d = None \<and> de_delta_tokens d = Some 0 \<and> de_avoided d = full \<and> de_fallback d = None)"

lemma decide_adds_up:
  assumes "decide D clk target expected_hash resp current full r = (r', Inr d)"
  shows "decision_adds_up D full d"
  using assms
  by (auto simp: decide_def decide_with_base_def decide_initial_def not_modified_def decision_adds_up_def Let_def
      split: if_splits sum.splits option.splits prod.splits)

lemma decide_coherent:
  assumes c: "coherent D r" and st: "storage_true D" and cur: "hash_hex D current = rr_content_hash resp"
    and run: "decide D clk target expected_hash resp current full r = (r', res)"
  shows "coherent D r' \<and> (\<forall>d. res = Inr d \<longrightarrow> decision_true D resp d)"
proof (cases "expected_hash = Some (rr_content_hash resp) \<or> rr_truncated resp \<or> max_read_delta_entry_bytes < length current")
  case True
  then show ?thesis using run c
    by (auto simp: decide_def decide_initial_def not_modified_def decision_true_def Let_def split: if_splits)
next
  case False
  obtain r1 sel where sel: "select_base D (clk 0) (clk 1) target expected_hash r = (r1, sel)"
    by (cases "select_base D (clk 0) (clk 1) target expected_hash r")
  note s = select_base_coherent [OF c st sel]
  show ?thesis
  proof (cases "\<exists>h e src. sel = Inr (Some (h, e, src))")
    case no: False
    then show ?thesis using False run sel s
      by (auto simp: decide_def decide_initial_def decision_true_def Let_def split: sum.splits option.splits)
  next
    case True
    then obtain h e src where e: "sel = Inr (Some (h, e, src))" by blast
    let ?d = "(decide_initial expected_hash)\<lparr>de_base_hash := Some h, de_base_generation := Some (rb_generation e), de_base_source := Some src\<rparr>"
    have run': "(r', res) = (case decide_with_base D clk target h e src resp current full (decide_initial expected_hash) r1 of (r, d) \<Rightarrow> (r, Inr d))"
      using False run sel e by (simp add: decide_def Let_def)
    show ?thesis
    proof (cases "h = rr_content_hash resp \<or> target_coordinates_changed e resp")
      case True
      then show ?thesis using run' s
        by (auto simp: decide_with_base_def decide_initial_def not_modified_def decision_true_def Let_def split: if_splits)
    next
      case no: False
      obtain r2 t where t: "obtain_delta D clk target h e resp current r1 = (r2, t)"
        by (cases "obtain_delta D clk target h e resp current r1")
      have "coherent D r2 \<and> relates D h (rr_content_hash resp) (rr_returned_start resp) (rr_returned_end resp) t"
        by (rule obtain_delta_coherent [OF _ _ cur t]) (use s e in auto)
      then show ?thesis using run' no t
        by (auto simp: decide_with_base_def decide_initial_def decision_true_def Let_def)
    qed
  qed
qed

lemma evaluate_decides:
  assumes "delta_evaluate D clk repository path t expected_hash resp current full r = (r', res)"
  shows "(r' = r \<and> (\<exists>err. res = Inl err)) \<or>
    (\<exists>e r1 dec. rr_target_end resp = Some e \<and>
      decide D clk (target_key D repository path t) expected_hash resp current full r = (r1, dec) \<and>
      (case dec of Inl err \<Rightarrow> r' = r1 \<and> res = Inl err
       | Inr d \<Rightarrow>
          r' = (if \<not> rr_truncated resp \<and> length current \<le> max_read_delta_entry_bytes
             then registry_insert (clk 6) \<lparr>ck_target = target_key D repository path t, ck_hash = rr_content_hash resp\<rparr>
               (from_persistent (clk 5) \<lparr>rb_content = current, rb_generation = rr_generation resp,
                 rb_target_start = rr_target_start resp, rb_target_end = e, rb_returned_start = rr_returned_start resp,
                 rb_returned_end = rr_returned_end resp\<rparr>) r1 else r1) \<and>
          (\<forall>ev. res = Inr ev \<longrightarrow> ev_delta ev = de_delta d \<and> dr_base_hash (ev_receipt ev) = de_base_hash d \<and>
            dr_head_hash (ev_receipt ev) = rr_content_hash resp \<and> dr_outcome (ev_receipt ev) = de_outcome d \<and>
            dr_delta_tokens (ev_receipt ev) = de_delta_tokens d \<and> dr_avoided_tokens (ev_receipt ev) = de_avoided d \<and>
            dr_fallback (ev_receipt ev) = de_fallback d \<and> dr_base_source (ev_receipt ev) = de_base_source d)))"
  using assms by (auto simp: delta_evaluate_def Let_def split: option.splits prod.splits sum.splits if_splits)

text \<open>C27: A delta never lies.  In a coherent registry, with a storage whose bases have the hash they are filed
  under, one evaluated read leaves the registry coherent (so any number of reads does); if it answers
  with a delta, that delta is the unified diff from a text with the reported base hash to a text with
  the reported current hash, over the returned lines, whether it was computed now or came from the
  cache; and it answers \<open>not modified\<close> only if the reported base hash is the current one.\<close>

theorem read_delta_truthful:
  assumes "coherent D r" "storage_true D" "hash_hex D current = rr_content_hash resp"
    and "delta_evaluate D clk repository path t expected_hash resp current full r = (r', res)"
  shows "coherent D r' \<and> (case res of Inl _ \<Rightarrow> True | Inr ev \<Rightarrow>
    (case ev_delta ev of None \<Rightarrow> True
     | Some d \<Rightarrow> (\<exists>h. dr_base_hash (ev_receipt ev) = Some h \<and>
         relates D h (rr_content_hash resp) (rr_returned_start resp) (rr_returned_end resp) d)) \<and>
    dr_head_hash (ev_receipt ev) = rr_content_hash resp \<and>
    (dr_outcome (ev_receipt ev) = Outcome_Not_Modified \<longrightarrow> dr_base_hash (ev_receipt ev) = Some (rr_content_hash resp)))"
  using evaluate_decides [OF assms(4)]
proof
  assume "r' = r \<and> (\<exists>err. res = Inl err)"
  then show ?thesis using assms(1) by auto
next
  let ?target = "target_key D repository path t"
  assume "\<exists>e r1 dec. rr_target_end resp = Some e \<and> decide D clk ?target expected_hash resp current full r = (r1, dec) \<and>
      (case dec of Inl err \<Rightarrow> r' = r1 \<and> res = Inl err
       | Inr d \<Rightarrow>
          r' = (if \<not> rr_truncated resp \<and> length current \<le> max_read_delta_entry_bytes
             then registry_insert (clk 6) \<lparr>ck_target = ?target, ck_hash = rr_content_hash resp\<rparr>
               (from_persistent (clk 5) \<lparr>rb_content = current, rb_generation = rr_generation resp,
                 rb_target_start = rr_target_start resp, rb_target_end = e, rb_returned_start = rr_returned_start resp,
                 rb_returned_end = rr_returned_end resp\<rparr>) r1 else r1) \<and>
          (\<forall>ev. res = Inr ev \<longrightarrow> ev_delta ev = de_delta d \<and> dr_base_hash (ev_receipt ev) = de_base_hash d \<and>
            dr_head_hash (ev_receipt ev) = rr_content_hash resp \<and> dr_outcome (ev_receipt ev) = de_outcome d \<and>
            dr_delta_tokens (ev_receipt ev) = de_delta_tokens d \<and> dr_avoided_tokens (ev_receipt ev) = de_avoided d \<and>
            dr_fallback (ev_receipt ev) = de_fallback d \<and> dr_base_source (ev_receipt ev) = de_base_source d))"
  then obtain e r1 dec where run: "decide D clk ?target expected_hash resp current full r = (r1, dec)"
    and after: "case dec of Inl err \<Rightarrow> r' = r1 \<and> res = Inl err
       | Inr d \<Rightarrow>
          r' = (if \<not> rr_truncated resp \<and> length current \<le> max_read_delta_entry_bytes
             then registry_insert (clk 6) \<lparr>ck_target = ?target, ck_hash = rr_content_hash resp\<rparr>
               (from_persistent (clk 5) \<lparr>rb_content = current, rb_generation = rr_generation resp,
                 rb_target_start = rr_target_start resp, rb_target_end = e, rb_returned_start = rr_returned_start resp,
                 rb_returned_end = rr_returned_end resp\<rparr>) r1 else r1) \<and>
          (\<forall>ev. res = Inr ev \<longrightarrow> ev_delta ev = de_delta d \<and> dr_base_hash (ev_receipt ev) = de_base_hash d \<and>
            dr_head_hash (ev_receipt ev) = rr_content_hash resp \<and> dr_outcome (ev_receipt ev) = de_outcome d \<and>
            dr_delta_tokens (ev_receipt ev) = de_delta_tokens d \<and> dr_avoided_tokens (ev_receipt ev) = de_avoided d \<and>
            dr_fallback (ev_receipt ev) = de_fallback d \<and> dr_base_source (ev_receipt ev) = de_base_source d)"
    by blast
  note co = decide_coherent [OF assms(1-3) run]
  have ins: "coherent D (registry_insert now \<lparr>ck_target = ?target, ck_hash = rr_content_hash resp\<rparr>
      (from_persistent now' \<lparr>rb_content = current, rb_generation = a, rb_target_start = b, rb_target_end = c,
        rb_returned_start = d, rb_returned_end = f\<rparr>) r1)" for now now' a b c d f
    by (rule coherent_insert) (use co assms(3) in \<open>auto simp: base_true_def from_persistent_def read_delta_base.defs\<close>)
  show ?thesis
  proof (cases dec)
    case (Inl err)
    then show ?thesis using after co by auto
  next
    case (Inr d)
    then have "coherent D r'" using after co ins by auto
    moreover have "decision_true D resp d" using co Inr by simp
    ultimately show ?thesis using after Inr
      by (cases res) (auto simp: decision_true_def split: option.splits)
  qed
qed

lemma evaluate_succeeds:
  assumes "delta_evaluate D clk repository path t expected_hash resp current full r = (r', Inr ev)"
  shows "\<exists>r1 d. decide D clk (target_key D repository path t) expected_hash resp current full r = (r1, Inr d) \<and>
    ev_delta ev = de_delta d \<and> dr_outcome (ev_receipt ev) = de_outcome d \<and>
    dr_delta_tokens (ev_receipt ev) = de_delta_tokens d \<and> dr_avoided_tokens (ev_receipt ev) = de_avoided d \<and>
    dr_fallback (ev_receipt ev) = de_fallback d"
  using assms by (auto simp: delta_evaluate_def Let_def split: option.splits prod.splits sum.splits)

text \<open>The receipt adds up.  For every evaluated read, whatever the registry, the storage and the clock: a full
  answer carries no delta, claims no saving and names a fallback reason; a delta answer carries the delta, its
  token count is strictly below the full one and saving and delta tokens sum to the full tokens; a \<open>not modified\<close>
  answer carries no delta, counts zero tokens and claims the whole saving.  The head is reported as
  persisted exactly when no persistence fallback is reported.\<close>

theorem read_delta_adds_up:
  assumes "delta_evaluate D clk repository path t expected_hash resp current full r = (r', Inr ev)"
  shows "dr_full_tokens (ev_receipt ev) = full \<and>
    (case dr_outcome (ev_receipt ev) of
      Outcome_Full \<Rightarrow> ev_delta ev = None \<and> dr_delta_tokens (ev_receipt ev) = None \<and> dr_avoided_tokens (ev_receipt ev) = 0 \<and>
        dr_fallback (ev_receipt ev) \<noteq> None
    | Outcome_Delta \<Rightarrow> (case ev_delta ev of None \<Rightarrow> False | Some d \<Rightarrow>
        dr_delta_tokens (ev_receipt ev) = Some (count_tokens D d) \<and> count_tokens D d < full \<and>
        dr_avoided_tokens (ev_receipt ev) + count_tokens D d = full \<and> dr_fallback (ev_receipt ev) = None)
    | Outcome_Not_Modified \<Rightarrow> ev_delta ev = None \<and> dr_delta_tokens (ev_receipt ev) = Some 0 \<and>
        dr_avoided_tokens (ev_receipt ev) = full \<and> dr_fallback (ev_receipt ev) = None) \<and>
    (dr_head_persisted (ev_receipt ev) \<longleftrightarrow> dr_persistence_fallback (ev_receipt ev) = None)"
proof -
  from evaluate_succeeds [OF assms] obtain r1 d
    where d: "decide D clk (target_key D repository path t) expected_hash resp current full r = (r1, Inr d)"
      and ev: "ev_delta ev = de_delta d" "dr_outcome (ev_receipt ev) = de_outcome d"
        "dr_delta_tokens (ev_receipt ev) = de_delta_tokens d" "dr_avoided_tokens (ev_receipt ev) = de_avoided d"
        "dr_fallback (ev_receipt ev) = de_fallback d"
    by blast
  have "decision_adds_up D full d" by (rule decide_adds_up [OF d])
  moreover have "dr_full_tokens (ev_receipt ev) = full \<and>
      (dr_head_persisted (ev_receipt ev) \<longleftrightarrow> dr_persistence_fallback (ev_receipt ev) = None)"
    using assms by (auto simp: delta_evaluate_def Let_def split: option.splits prod.splits sum.splits if_splits)
  ultimately show ?thesis by (auto simp: decision_adds_up_def ev split: delta_outcome.splits option.splits)
qed

section \<open>Two reads\<close>

text \<open>A library for the examples: the content is its own hash, a diff joins both texts, a token is a character and
  the repository storage is empty and keeps nothing.\<close>

definition toy_lib :: delta_lib where
  "toy_lib = \<lparr>hash_hex = (\<lambda>s. s), unified_diff = (\<lambda>a b _ _. a @ b), count_tokens = length,
     stored_base = (\<lambda>_ _. Inr None), stored_latest = (\<lambda>_. Inr None), persist_base = (\<lambda>_ _ _. Inr False)\<rparr>"

definition toy_read :: "string \<Rightarrow> nat \<Rightarrow> read_response" where
  "toy_read h g = \<lparr>rr_path = ''a'', rr_content_hash = h, rr_target_start = 1, rr_target_end = Some 1, rr_returned_start = 1,
     rr_returned_end = 1, rr_truncated = False, rr_index_stale = False, rr_indexed_hash = None, rr_generation = g\<rparr>"

definition toy_first :: registry where
  "toy_first = fst (delta_evaluate toy_lib (\<lambda>_. 0) [] ''a'' (Target_Lines 1 None) None (toy_read ''x'' 1) ''x'' 9 registry_empty)"

definition toy_second :: "registry \<times> (delta_error + evaluation)" where
  "toy_second = delta_evaluate toy_lib (\<lambda>_. 0) [] ''a'' (Target_Lines 1 None) None (toy_read ''y'' 2) ''y'' 9 toy_first"

lemma prune_still:
  "order f = [] \<Longrightarrow> prune_expired weight stamp now f = f"
  "order f = k # ks \<Longrightarrow> \<not> expired stamp now (fifo_get f k) \<Longrightarrow> prune_expired weight stamp now f = f"
  by (simp_all add: prune_expired.simps)

lemma make_room_still: "\<not> no_room w f \<Longrightarrow> make_room weight w f = f"
  by (simp add: make_room.simps)

lemmas toy_defs = toy_lib_def toy_read_def delta_evaluate_def decide_def decide_initial_def decide_with_base_def
  select_base_def registry_lookup_def registry_lookup_latest_def registry_lookup_delta_def obtain_delta_def
  registry_insert_def registry_insert_delta_def registry_prune_def registry_empty_def fifo_empty_def
  fifo_insert_def remove_previous_def evict_oldest_def expired_def no_room_def fifo_get_def base_weight_def delta_weight_def
  from_persistent_def read_delta_base.defs target_coordinates_changed_def persistence_reason_def delta_bounds read_delta_ttl_def
  prune_still make_room_still Let_def sat_add_def

lemma toy_first_registry: "toy_first = (let k = \<lparr>ck_target = target_key toy_lib [] ''a'' (Target_Lines 1 None), ck_hash = ''x''\<rparr> in
   \<lparr>bases = \<lparr>items = [(k, \<lparr>rb_content = ''x'', rb_generation = 1, rb_target_start = 1, rb_target_end = 1,
      rb_returned_start = 1, rb_returned_end = 1, inserted_at = 0\<rparr>)], order = [k], total_bytes = 1\<rparr>,
    deltas = fifo_empty\<rparr>)"
  by (simp add: toy_first_def toy_defs)

lemma toy_second_outcome:
  "\<exists>ev. snd toy_second = Inr ev \<and> ev_delta ev = Some ''xy'' \<and> dr_outcome (ev_receipt ev) = Outcome_Delta \<and>
     dr_avoided_tokens (ev_receipt ev) = 7"
  by (simp add: toy_second_def toy_first_registry toy_defs)

lemma coherent_empty: "coherent D registry_empty"
  by (simp add: coherent_def registry_ok_def registry_empty_def fifo_ok_def fifo_empty_def weight_sum_def holds_def
      get_base_def get_delta_def fifo_get_def)

lemma toy_storage_true: "storage_true toy_lib"
  by (simp add: storage_true_def toy_lib_def)

theorem read_delta_truthful_witness:
  "coherent toy_lib toy_first \<and> coherent toy_lib (fst toy_second) \<and>
   (\<exists>ev h. snd toy_second = Inr ev \<and> ev_delta ev = Some ''xy'' \<and> dr_base_hash (ev_receipt ev) = Some h \<and>
     relates toy_lib h ''y'' 1 1 ''xy'')"
proof -
  have first: "coherent toy_lib toy_first"
    using read_delta_truthful [OF coherent_empty toy_storage_true, of "''x''" "toy_read ''x'' 1" "\<lambda>_. 0" "[]" "''a''"
        "Target_Lines 1 None" None 9]
    by (cases "delta_evaluate toy_lib (\<lambda>_. 0) [] ''a'' (Target_Lines 1 None) None (toy_read ''x'' 1) ''x'' 9 registry_empty")
      (auto simp: toy_first_def toy_lib_def toy_read_def)
  obtain ev where ev: "snd toy_second = Inr ev" "ev_delta ev = Some ''xy''" using toy_second_outcome by blast
  have "hash_hex toy_lib ''y'' = rr_content_hash (toy_read ''y'' 2)" by (simp add: toy_lib_def toy_read_def)
  from read_delta_truthful [OF first toy_storage_true this, of "\<lambda>_. 0" "[]" "''a''" "Target_Lines 1 None" None 9
      "fst toy_second" "snd toy_second"]
  show ?thesis using first ev by (simp add: toy_second_def toy_read_def)
qed

theorem read_delta_adds_up_witness:
  "\<exists>ev. snd toy_second = Inr ev \<and> dr_outcome (ev_receipt ev) = Outcome_Delta \<and>
     dr_avoided_tokens (ev_receipt ev) + count_tokens toy_lib ''xy'' = 9"
proof -
  obtain ev where ev: "snd toy_second = Inr ev" "ev_delta ev = Some ''xy''" "dr_outcome (ev_receipt ev) = Outcome_Delta"
    using toy_second_outcome by blast
  then show ?thesis
    using read_delta_adds_up [of toy_lib "\<lambda>_. 0" "[]" "''a''" "Target_Lines 1 None" None "toy_read ''y'' 2" "''y''" 9 toy_first
        "fst toy_second" ev]
    by (simp add: toy_second_def) (metis prod.collapse)
qed

end
