(* ===== verification/Cache_Model.thy ===== *)
theory Cache_Model
  imports Rust_Str Fault_IO
begin

text \<open>
  Managed index caches (\<open>src/cache/models.rs\<close>, the cache identities of \<open>src/config.rs\<close>, the sidecar
  names of \<open>src/coordination.rs\<close>): directory names, metadata and compatibility.  A cache directory is
  named after the version of its content, a hash of its repository root and a hash of its scope.
\<close>

section \<open>Identities\<close>

datatype managed_cache_identity =
    Cache_Unversioned
  | Cache_Versioned nat string "string option"
  \<comment> \<open>version, hash of the root, digest of the scope\<close>

definition index_content_version :: nat where "index_content_version = 15"
definition managed_cache_hash_bytes :: nat where "managed_cache_hash_bytes = 16"

definition is_managed_cache_hash :: "string \<Rightarrow> bool" where
  "is_managed_cache_hash s \<longleftrightarrow>
     length s = managed_cache_hash_bytes \<and> list_all (\<lambda>c. is_ascii_digit c \<or> in_range c 97 102) s"

text \<open>\<open>str::parse::<u32>\<close>: an optional plus sign, then digits.\<close>

definition digit_value :: "char \<Rightarrow> nat" where
  "digit_value c = of_char c - 48"

definition parse_u32 :: "string \<Rightarrow> nat option" where
  "parse_u32 s =
     (let d = (case s of c # r \<Rightarrow> if c = CHR ''+'' \<and> r \<noteq> [] then r else s | [] \<Rightarrow> s) in
      if d \<noteq> [] \<and> list_all is_ascii_digit d then
        (let n = foldl (\<lambda>n c. 10 * n + digit_value c) 0 d in if n < 2 ^ 32 then Some n else None)
      else None)"

definition parse_managed_cache_id :: "string \<Rightarrow> managed_cache_identity option" where
  "parse_managed_cache_id value =
     (if is_managed_cache_hash value then Some Cache_Unversioned
      else
        (case strip_prefix value ''v'' of
           None \<Rightarrow> None
         | Some rest \<Rightarrow>
             (case split_once (CHR ''-'') rest of
                None \<Rightarrow> None
              | Some (version_text, remainder) \<Rightarrow>
                  (case parse_u32 version_text of
                     None \<Rightarrow> None
                   | Some version \<Rightarrow>
                       if version = 0 then None
                       else
                         (let parts = split_char (CHR ''-'') remainder;
                              finish = (\<lambda>scope more. if more \<noteq> [] \<or> show_nat version \<noteq> version_text \<or>
                                          \<not> is_managed_cache_hash (hd parts) \<or>
                                          (case scope of None \<Rightarrow> False | Some d \<Rightarrow> \<not> is_managed_cache_hash d)
                                        then None else Some (Cache_Versioned version (hd parts) scope)) in
                          case tl parts of
                            [] \<Rightarrow> finish None []
                          | scope # more \<Rightarrow>
                              (case strip_prefix scope ''s'' of None \<Rightarrow> None | Some d \<Rightarrow> finish (Some d) more))))))"

definition is_cache_id :: "string \<Rightarrow> bool" where
  "is_cache_id value \<longleftrightarrow> parse_managed_cache_id value \<noteq> None"

definition managed_cache_root_hash :: "(string \<Rightarrow> string) \<Rightarrow> string \<Rightarrow> string" where
  "managed_cache_root_hash b3 root = take managed_cache_hash_bytes (b3 root)"

definition managed_cache_id_for_version :: "(string \<Rightarrow> string) \<Rightarrow> string \<Rightarrow> nat \<Rightarrow> string option \<Rightarrow> string" where
  "managed_cache_id_for_version b3 root version scope =
     (let base = ''v'' @ show_nat version @ ''-'' @ managed_cache_root_hash b3 root in
      case scope of None \<Rightarrow> base | Some s \<Rightarrow> base @ ''-s'' @ s)"

definition managed_cache_identity_matches_root :: "(string \<Rightarrow> string) \<Rightarrow> managed_cache_identity \<Rightarrow> string \<Rightarrow> string \<Rightarrow> bool" where
  "managed_cache_identity_matches_root b3 i value root =
     (let h = managed_cache_root_hash b3 root in
      case i of Cache_Unversioned \<Rightarrow> value = h | Cache_Versioned _ root_hash _ \<Rightarrow> root_hash = h)"

section \<open>Files of a cache directory\<close>

definition database_name :: string where "database_name = ''index.sqlite''"
definition wal_name :: string where "wal_name = ''index.sqlite-wal''"

definition prunable_artifacts :: "string list" where
  "prunable_artifacts = [database_name, wal_name, ''index.sqlite-shm'', ''index.sqlite-journal'']"

definition lease_lock_suffix :: string where "lease_lock_suffix = ''.lease.lock''"

definition coordination_lock_suffixes :: "string list" where
  "coordination_lock_suffixes = [lease_lock_suffix, ''.init.lock'', ''.leader.lock'', ''.index.lock'']"

definition coordination_sidecar :: "string \<Rightarrow> string" where
  "coordination_sidecar suffix = database_name @ suffix"

definition known_artifact :: "string \<Rightarrow> bool" where
  "known_artifact name \<longleftrightarrow> name \<in> set prunable_artifacts \<or> name \<in> set (map coordination_sidecar coordination_lock_suffixes)"

definition lease_name :: string where
  "lease_name = coordination_sidecar lease_lock_suffix"

section \<open>Entries\<close>

datatype cache_state = State_Current | Older_Schema | Incomplete | Corrupt | Unsupported | Unrecognized

definition all_states :: "cache_state list" where
  "all_states = [State_Current, Older_Schema, Incomplete, Corrupt, Unsupported, Unrecognized]"

fun state_label :: "cache_state \<Rightarrow> string" where
  "state_label State_Current = ''current''"
| "state_label Older_Schema = ''legacy''"
| "state_label Incomplete = ''incomplete''"
| "state_label Corrupt = ''corrupt''"
| "state_label Unsupported = ''unsupported''"
| "state_label Unrecognized = ''unrecognized''"

datatype cache_compatibility = Compatible_Current | Obsolete_Older | Unversioned | Newer_Unsupported | Compat_Unknown

definition all_compatibilities :: "cache_compatibility list" where
  "all_compatibilities = [Compatible_Current, Obsolete_Older, Unversioned, Newer_Unsupported, Compat_Unknown]"

fun compatibility_label :: "cache_compatibility \<Rightarrow> string" where
  "compatibility_label Compatible_Current = ''compatible_current''"
| "compatibility_label Obsolete_Older = ''obsolete_older''"
| "compatibility_label Unversioned = ''legacy_unversioned''"
| "compatibility_label Newer_Unsupported = ''newer_unsupported''"
| "compatibility_label Compat_Unknown = ''unknown''"

definition safely_incompatible :: "cache_compatibility \<Rightarrow> bool" where
  "safely_incompatible c \<longleftrightarrow> c = Obsolete_Older \<or> c = Unversioned"

datatype access_time_source = Access_Database | Access_File_Mtime

datatype index_scope_mode = Mode_Full | Mode_Scoped

record managed_cache =
  mc_id :: string
  mc_path :: string
  mc_content_version :: "nat option"
  mc_index_scope :: index_scope_mode
  mc_scope_digest :: "string option"
  mc_repository_root :: "string option"
  mc_repository_available :: "bool option"
  mc_last_access :: "nat option"
  mc_access_source :: "access_time_source option"
  mc_age_seconds :: "nat option"
  mc_schema_version :: "int option"
  mc_size_bytes :: nat
  mc_active :: bool
  mc_state :: cache_state
  mc_detail :: "string option"

definition classify :: "managed_cache \<Rightarrow> cache_compatibility" where
  "classify e =
     (if mc_state e = Corrupt \<or> mc_state e = Unrecognized then Compat_Unknown
      else
        (case mc_content_version e of
           Some v \<Rightarrow> if v = index_content_version then Compatible_Current
                     else if v < index_content_version then Obsolete_Older else Newer_Unsupported
         | None \<Rightarrow> Unversioned))"

record inspected_cache =
  ic_identity :: managed_cache_identity
  ic_entry :: managed_cache
  ic_compatibility :: cache_compatibility
  ic_safe_to_prune :: bool

text \<open>The errors of the cache commands.\<close>

datatype cache_error =
    Cache_Cancelled
  | Cache_Inventory_Incomplete string nat nat  \<comment> \<open>dimension, observed, limit\<close>
  | Cache_Io string
  | Cache_Configuration string
  | Cache_Database string
  | Cache_Invalid_Request string
  | Cache_Invalid_Input string string  \<comment> \<open>field, reason\<close>
  | Cache_Limit_Exceeded string nat nat  \<comment> \<open>field, requested, limit\<close>
  | Cache_Input_Too_Long string nat
  | Cache_Operation_Failure string
  | Cache_Stale_Cursor

section \<open>Names determine identities\<close>

lemma show_nat_digits: "list_all is_ascii_digit (show_nat n) \<and> show_nat n \<noteq> []"
proof (induction n rule: show_nat.induct)
  case (1 n)
  have "k < 10 \<Longrightarrow> is_ascii_digit (char_of (48 + k :: nat))" for k
    by (simp add: is_ascii_digit_def of_char_of)
  then show ?case using 1 by (subst (1 2) show_nat.simps) simp
qed

lemma digit_value_char: "k < 10 \<Longrightarrow> digit_value (char_of (48 + k :: nat)) = k"
  by (simp add: digit_value_def of_char_of)

lemma value_show_nat: "foldl (\<lambda>n c. 10 * n + digit_value c) 0 (show_nat n) = n"
proof (induction n rule: show_nat.induct)
  case (1 n)
  show ?case
  proof (cases "n < 10")
    case True
    then show ?thesis by (subst show_nat.simps) (simp add: digit_value_char)
  next
    case False
    then show ?thesis using 1 by (subst show_nat.simps) (simp add: digit_value_char)
  qed
qed

lemma parse_u32_show: "n < 2 ^ 32 \<Longrightarrow> parse_u32 (show_nat n) = Some n"
  using show_nat_digits [of n] value_show_nat [of n]
  by (auto simp: parse_u32_def is_ascii_digit_def list_all_iff split: list.splits)

lemma parse_u32_less: "parse_u32 s = Some n \<Longrightarrow> n < 2 ^ 32"
  by (auto simp: parse_u32_def Let_def split: if_splits list.splits)

lemma cache_hash_plain: "is_managed_cache_hash h \<Longrightarrow> c \<in> set h \<Longrightarrow> c \<noteq> CHR ''-'' \<and> c \<noteq> CHR ''v''"
  by (auto simp: is_managed_cache_hash_def list_all_iff is_ascii_digit_def in_range_def)

lemma cache_hash_not_v: "\<not> is_managed_cache_hash (CHR ''v'' # s)"
  using cache_hash_plain [of "CHR ''v'' # s" "CHR ''v''"] by auto

definition print_cache_id :: "nat \<Rightarrow> string \<Rightarrow> string option \<Rightarrow> string" where
  "print_cache_id v h scope = ''v'' @ show_nat v @ ''-'' @ h @ (case scope of None \<Rightarrow> '''' | Some s \<Rightarrow> ''-s'' @ s)"

definition valid_cache_parts :: "nat \<Rightarrow> string \<Rightarrow> string option \<Rightarrow> bool" where
  "valid_cache_parts v h scope \<longleftrightarrow> 0 < v \<and> v < 2 ^ 32 \<and> is_managed_cache_hash h \<and>
     (case scope of None \<Rightarrow> True | Some s \<Rightarrow> is_managed_cache_hash s)"

lemma split_hash: "is_managed_cache_hash h \<Longrightarrow> split_char (CHR ''-'') h = [h]"
  unfolding split_char_def using cache_hash_plain by (intro split_by_id) blast

lemma split_hash_more: "is_managed_cache_hash h \<Longrightarrow> split_char (CHR ''-'') (h @ CHR ''-'' # s) = h # split_char (CHR ''-'') s"
  unfolding split_char_def using cache_hash_plain by (intro split_by_append_sep) blast+

lemma parse_print_cache_id:
  assumes "valid_cache_parts v h scope"
  shows "parse_managed_cache_id (print_cache_id v h scope) = Some (Cache_Versioned v h scope)"
proof -
  have v: "0 < v" "v < 2 ^ 32" and h: "is_managed_cache_hash h" using assms by (simp_all add: valid_cache_parts_def)
  have "CHR ''-'' \<notin> set (show_nat v)" using show_nat_digits [of v] by (auto simp: list_all_iff is_ascii_digit_def)
  then have once: "split_once (CHR ''-'') (show_nat v @ CHR ''-'' # r) = Some (show_nat v, r)" for r
    by (simp add: split_once_Some)
  show ?thesis
  proof (cases scope)
    case None
    then show ?thesis using v h
      by (simp add: parse_managed_cache_id_def print_cache_id_def cache_hash_not_v strip_prefix_def starts_with_def
          once parse_u32_show split_hash)
  next
    case (Some s)
    have "is_managed_cache_hash s" using assms Some by (simp add: valid_cache_parts_def)
    then have "CHR ''-'' \<notin> set (CHR ''s'' # s)" using cache_hash_plain by fastforce
    then have "split_char (CHR ''-'') (CHR ''s'' # s) = [CHR ''s'' # s]"
      unfolding split_char_def by (intro split_by_id) blast
    then show ?thesis using v h Some \<open>is_managed_cache_hash s\<close>
      by (simp add: parse_managed_cache_id_def print_cache_id_def cache_hash_not_v strip_prefix_def starts_with_def
          once parse_u32_show split_hash_more)
  qed
qed

lemma print_parse_cache_id:
  assumes "parse_managed_cache_id s = Some (Cache_Versioned v h scope)"
  shows "valid_cache_parts v h scope \<and> s = print_cache_id v h scope"
proof -
  from assms obtain rest vt remainder where s: "s = CHR ''v'' # rest" "split_once (CHR ''-'') rest = Some (vt, remainder)"
    and v: "parse_u32 vt = Some v" "0 < v"
    by (auto simp: parse_managed_cache_id_def strip_prefix_Some Let_def split: if_splits option.splits list.splits)
  have strip_v: "strip_prefix (CHR ''v'' # r) ''v'' = Some r" for r by (simp add: strip_prefix_Some)
  have not_hash: "\<not> is_managed_cache_hash s" using s cache_hash_not_v by simp
  have rest: "rest = vt @ CHR ''-'' # remainder" using s by (simp add: split_once_Some)
  obtain parts where parts_def: "parts = split_char (CHR ''-'') remainder" by blast
  have join: "str_join ''-'' parts = remainder" by (simp add: parts_def join_split)
  have parts: "parts \<noteq> []" by (simp add: parts_def split_char_def)
  from assms s v not_hash parts have fin: "vt = show_nat v \<and> is_managed_cache_hash h \<and> hd parts = h \<and>
      (case scope of None \<Rightarrow> tl parts = [] | Some d \<Rightarrow> is_managed_cache_hash d \<and> tl parts = [CHR ''s'' # d])"
    by (auto simp: parse_managed_cache_id_def strip_v Let_def parts_def [symmetric] strip_prefix_Some
        split: if_splits option.splits list.splits)
  have "remainder = h @ (case scope of None \<Rightarrow> '''' | Some d \<Rightarrow> ''-s'' @ d)"
    using fin parts join by (cases parts) (auto split: option.splits)
  then show ?thesis using fin v s rest parse_u32_less [OF v(1)]
    by (auto simp: print_cache_id_def valid_cache_parts_def split: option.splits)
qed

text \<open>A cache directory name and its identity determine each other.  The name printed for a version, a
  root and a scope parses back to exactly these, matches its own root, and is a cache name; and a
  name that parses to a version, a root hash and a scope digest is the one printed for them, so no
  two names share a versioned identity.\<close>

theorem cache_id_roundtrip:
  assumes "0 < v" "v < 2 ^ 32" "is_managed_cache_hash (managed_cache_root_hash b3 root)"
    and "case scope of None \<Rightarrow> True | Some s \<Rightarrow> is_managed_cache_hash s"
  shows "let name = managed_cache_id_for_version b3 root v scope;
             i = Cache_Versioned v (managed_cache_root_hash b3 root) scope in
    parse_managed_cache_id name = Some i \<and> is_cache_id name \<and> managed_cache_identity_matches_root b3 i name root \<and>
    (parse_managed_cache_id other = Some i \<longrightarrow> other = name)"
proof -
  have name: "managed_cache_id_for_version b3 root v scope = print_cache_id v (managed_cache_root_hash b3 root) scope"
    by (auto simp: managed_cache_id_for_version_def print_cache_id_def Let_def split: option.splits)
  show ?thesis using parse_print_cache_id [of v "managed_cache_root_hash b3 root" scope] print_parse_cache_id [of other] assms
    by (auto simp: name Let_def valid_cache_parts_def is_cache_id_def managed_cache_identity_matches_root_def)
qed

theorem cache_id_roundtrip_witness:
  "parse_managed_cache_id ''v15-0123456789abcdef-saaaaaaaaaaaaaaaa'' =
     Some (Cache_Versioned 15 ''0123456789abcdef'' (Some ''aaaaaaaaaaaaaaaa''))"
proof -
  have h: "is_managed_cache_hash ''0123456789abcdef''" "is_managed_cache_hash ''aaaaaaaaaaaaaaaa''"
    by (simp_all add: is_managed_cache_hash_def managed_cache_hash_bytes_def is_ascii_digit_def in_range_def)
  have n: "managed_cache_id_for_version (\<lambda>_. ''0123456789abcdef00'') ''/r'' 15 (Some ''aaaaaaaaaaaaaaaa'') =
      ''v15-0123456789abcdef-saaaaaaaaaaaaaaaa''"
    by (simp add: managed_cache_id_for_version_def managed_cache_root_hash_def managed_cache_hash_bytes_def show_nat.simps) code_simp
  have r: "managed_cache_root_hash (\<lambda>_. ''0123456789abcdef00'') ''/r'' = ''0123456789abcdef''"
    by (simp add: managed_cache_root_hash_def managed_cache_hash_bytes_def)
  show ?thesis using cache_id_roundtrip [of 15 "\<lambda>_. ''0123456789abcdef00''" "''/r''" "Some ''aaaaaaaaaaaaaaaa''"] h
    by (simp add: n r Let_def)
qed

end
