(* ===== verification/Cache_Inspect.thy ===== *)
theory Cache_Inspect
  imports Cache_Model "HOL-Library.Sublist"
begin

text \<open>
  The inventory of managed caches (\<open>src/cache/inventory.rs\<close>, \<open>src/cache/artifacts.rs\<close>,
  \<open>src/cache/inspection.rs\<close>).  The budget of one inventory is the state of an \<open>io\<close> program.  What the
  operating system and SQLite answer is data: a \<open>cache_view\<close> holds the two listings of a cache
  directory, the lease and the answers of its database, and \<open>obs n\<close> is what the \<open>n\<close>-th check of the
  budget observes of the cancellation token, the clock and the SQLite step counter.
\<close>

section \<open>Budgets\<close>

record inventory_limits =
  lim_root_entries :: nat
  lim_candidates :: nat
  lim_artifacts :: nat
  lim_sqlite_opens :: nat
  lim_metadata_bytes :: nat
  lim_sqlite_steps :: nat
  lim_elapsed :: nat

definition default_inventory_limits :: inventory_limits where
  "default_inventory_limits = \<lparr>lim_root_entries = 4096, lim_candidates = 1024, lim_artifacts = 32768,
     lim_sqlite_opens = 1024, lim_metadata_bytes = 8 * 1024 * 1024, lim_sqlite_steps = 2000000, lim_elapsed = 10 * 1000\<rparr>"

record inventory_budget =
  bg_limits :: inventory_limits
  bg_root_entries :: nat
  bg_candidates :: nat
  bg_artifacts :: nat
  bg_sqlite_opens :: nat
  bg_metadata_bytes :: nat
  bg_checks :: nat  \<comment> \<open>the checks made so far\<close>

record observation =
  ob_cancelled :: bool
  ob_elapsed :: nat
  ob_steps :: nat

type_synonym 'a inventory = "(inventory_budget, cache_error, 'a) io"

definition budget_new :: "inventory_limits \<Rightarrow> inventory_budget" where
  "budget_new limits = \<lparr>bg_limits = limits, bg_root_entries = 0, bg_candidates = 0, bg_artifacts = 0,
     bg_sqlite_opens = 0, bg_metadata_bytes = 0, bg_checks = 0\<rparr>"

definition budget_enforce :: "string \<Rightarrow> nat \<Rightarrow> nat \<Rightarrow> unit inventory" where
  "budget_enforce dimension observed limit =
     (if limit < observed then io_fail (Cache_Inventory_Incomplete dimension observed limit) else io_return ())"

definition enforce_counter :: "string \<Rightarrow> (inventory_budget \<Rightarrow> nat) \<Rightarrow> (inventory_limits \<Rightarrow> nat) \<Rightarrow> unit inventory" where
  "enforce_counter dimension counter limit =
     io_bind (io_get (\<lambda>b. (counter b, limit (bg_limits b)))) (\<lambda>(n, l). budget_enforce dimension n l)"

definition budget_check :: "(nat \<Rightarrow> observation) \<Rightarrow> unit inventory" where
  "budget_check obs =
     io_bind (io_get (\<lambda>b. (obs (bg_checks b), bg_limits b))) (\<lambda>(seen, limits).
       io_then (io_modify (\<lambda>b. b\<lparr>bg_checks := bg_checks b + 1\<rparr>))
         (if ob_cancelled seen then io_fail Cache_Cancelled
          else io_then (budget_enforce ''elapsed_millis'' (ob_elapsed seen) (lim_elapsed limits))
            (budget_enforce ''sqlite_steps'' (ob_steps seen) (lim_sqlite_steps limits))))"

definition admit_metadata :: "(nat \<Rightarrow> observation) \<Rightarrow> nat \<Rightarrow> unit inventory" where
  "admit_metadata obs bytes =
     io_then (budget_check obs)
       (io_then (io_modify (\<lambda>b. b\<lparr>bg_metadata_bytes := sat_add (bg_metadata_bytes b) bytes\<rparr>))
          (enforce_counter ''metadata_bytes'' bg_metadata_bytes lim_metadata_bytes))"

datatype db_failure = Value_Too_Big string | Db_Failure string

definition max_inventory_value_bytes :: nat where "max_inventory_value_bytes = 64 * 1024"

definition sqlite_result :: "(nat \<Rightarrow> observation) \<Rightarrow> db_failure + 'a \<Rightarrow> 'a inventory" where
  "sqlite_result obs r =
     io_then (budget_check obs)
       (case r of
          Inl (Value_Too_Big _) \<Rightarrow> io_fail (Cache_Inventory_Incomplete ''sqlite_value_bytes''
            (max_inventory_value_bytes + 1) max_inventory_value_bytes)
        | Inl (Db_Failure e) \<Rightarrow> io_fail (Cache_Database e)
        | Inr a \<Rightarrow> io_return a)"

section \<open>Artifacts\<close>

record dir_item =
  di_name :: string
  di_regular :: bool
  di_len :: nat
  di_modified :: "nat option"

text \<open>Reading a directory fails at once, or yields its children, each with its metadata or an error.\<close>

type_synonym listing = "string + (string + dir_item) list"

record artifact_scan =
  sc_size_bytes :: nat
  sc_latest_access_mtime :: "nat option"
  sc_has_artifacts :: bool
  sc_unexpected :: bool

definition scan_item :: "dir_item \<Rightarrow> artifact_scan \<Rightarrow> artifact_scan" where
  "scan_item child scan =
     (if \<not> known_artifact (di_name child) \<or> \<not> di_regular child then scan\<lparr>sc_unexpected := True\<rparr>
      else if di_name child = lease_name then scan
      else
        (let scan = scan\<lparr>sc_has_artifacts := True, sc_size_bytes := sat_add (sc_size_bytes scan) (di_len child)\<rparr> in
         if di_name child = database_name \<or> (di_name child = wal_name \<and> 0 < di_len child) then
           (case di_modified child of
              None \<Rightarrow> scan
            | Some m \<Rightarrow> scan\<lparr>sc_latest_access_mtime :=
                Some (case sc_latest_access_mtime scan of None \<Rightarrow> m | Some current \<Rightarrow> max current m)\<rparr>)
         else scan))"

fun scan_children :: "(nat \<Rightarrow> observation) \<Rightarrow> (string + dir_item) list \<Rightarrow> artifact_scan \<Rightarrow> artifact_scan inventory" where
  "scan_children obs [] scan = io_return scan"
| "scan_children obs (child # rest) scan =
     io_then (budget_check obs)
       (io_then (io_modify (\<lambda>b. b\<lparr>bg_artifacts := bg_artifacts b + 1\<rparr>))
         (io_then (enforce_counter ''artifact_entries'' bg_artifacts lim_artifacts)
           (case child of
              Inl e \<Rightarrow> io_fail (Cache_Io e)
            | Inr item \<Rightarrow> scan_children obs rest (scan_item item scan))))"

definition empty_scan :: artifact_scan where
  "empty_scan = \<lparr>sc_size_bytes = 0, sc_latest_access_mtime = None, sc_has_artifacts = False, sc_unexpected = False\<rparr>"

definition scan_artifacts :: "(nat \<Rightarrow> observation) \<Rightarrow> listing \<Rightarrow> artifact_scan inventory" where
  "scan_artifacts obs listing =
     io_then (budget_check obs)
       (case listing of
          Inl e \<Rightarrow> io_fail (Cache_Io e)
        | Inr children \<Rightarrow>
            io_bind (scan_children obs children empty_scan) (\<lambda>scan. io_then (budget_check obs) (io_return scan)))"

section \<open>The database of a cache\<close>

datatype database_schema = Schema_Current | Schema_Older | Schema_Future

record database_metadata =
  dm_schema_version :: "int option"
  dm_repository_root :: "string option"
  dm_last_access :: "nat option"
  dm_schema :: database_schema

text \<open>What SQLite answers, in the order of the calls.\<close>

record database_view =
  dv_open :: "db_failure + unit"
  dv_busy_timeout :: "db_failure + unit"
  dv_progress_handler :: "db_failure + unit"
  dv_value_limit :: "db_failure + unit"
  dv_sql_limit :: "db_failure + unit"
  dv_cache_size :: "db_failure + unit"
  dv_user_version :: "db_failure + int"
  dv_prepare :: "db_failure + unit"
  dv_query :: "db_failure + unit"
  dv_rows :: "(db_failure + (db_failure + string)) list"
  dv_schema :: "db_failure + int"
  dv_root :: "db_failure + string"
  dv_access :: "db_failure + int"

definition current_migration_version :: int where "current_migration_version = 13"
definition current_schema_version :: int where "current_schema_version = 12"

definition observe_sqlite :: "db_failure + unit \<Rightarrow> unit inventory" where
  "observe_sqlite r =
     (case r of Inl (Value_Too_Big e) \<Rightarrow> io_fail (Cache_Database e)
      | Inl (Db_Failure e) \<Rightarrow> io_fail (Cache_Database e) | Inr _ \<Rightarrow> io_return ())"

fun read_columns :: "(nat \<Rightarrow> observation) \<Rightarrow> (db_failure + (db_failure + string)) list \<Rightarrow> string list inventory" where
  "read_columns obs [] = io_then (budget_check obs) (io_return [])"
| "read_columns obs (row # rows) =
     io_bind (sqlite_result obs row) (\<lambda>row.
       io_bind (sqlite_result obs row) (\<lambda>column.
         io_then (admit_metadata obs (length column))
           (io_bind (read_columns obs rows) (\<lambda>columns. io_return (column # columns)))))"

definition read_root :: "(nat \<Rightarrow> observation) \<Rightarrow> database_view \<Rightarrow> string list \<Rightarrow> string option inventory" where
  "read_root obs V columns =
     (if ''repository_root'' \<in> set columns then
        io_bind (sqlite_result obs (dv_root V)) (\<lambda>root.
          io_then (budget_enforce ''repository_root_bytes'' (length root) 8192)
            (io_then (admit_metadata obs (length root)) (io_return (if root = [] then None else Some root))))
      else io_return None)"

definition read_access :: "(nat \<Rightarrow> observation) \<Rightarrow> database_view \<Rightarrow> string list \<Rightarrow> nat option inventory" where
  "read_access obs V columns =
     (if ''last_access_unix_seconds'' \<in> set columns then
        io_bind (sqlite_result obs (dv_access V)) (\<lambda>t. io_return (if 0 < t then Some (nat t) else None))
      else io_return None)"

definition inspect_database :: "(nat \<Rightarrow> observation) \<Rightarrow> database_view \<Rightarrow> database_metadata inventory" where
  "inspect_database obs V =
     io_then (budget_check obs)
     (io_then (io_modify (\<lambda>b. b\<lparr>bg_sqlite_opens := bg_sqlite_opens b + 1\<rparr>))
     (io_then (enforce_counter ''sqlite_opens'' bg_sqlite_opens lim_sqlite_opens)
     (io_then (sqlite_result obs (dv_open V))
     (io_then (sqlite_result obs (dv_busy_timeout V))
     (io_then (observe_sqlite (dv_progress_handler V))
     (io_then (sqlite_result obs (dv_value_limit V))
     (io_then (sqlite_result obs (dv_sql_limit V))
     (io_then (sqlite_result obs (dv_cache_size V))
     (io_bind (sqlite_result obs (dv_user_version V)) (\<lambda>migration.
       if current_migration_version < migration then
         io_return \<lparr>dm_schema_version = None, dm_repository_root = None, dm_last_access = None, dm_schema = Schema_Future\<rparr>
       else
         io_then (sqlite_result obs (dv_prepare V))
         (io_then (sqlite_result obs (dv_query V))
         (io_bind (read_columns obs (dv_rows V)) (\<lambda>columns.
           if ''schema_version'' \<notin> set columns then
             io_fail (Cache_Configuration ''cache metadata table has no schema version'')
           else
             io_bind (sqlite_result obs (dv_schema V)) (\<lambda>schema.
               if current_schema_version < schema then
                 io_return \<lparr>dm_schema_version = Some schema, dm_repository_root = None, dm_last_access = None,
                            dm_schema = Schema_Future\<rparr>
               else
                 io_bind (read_root obs V columns) (\<lambda>root.
                   io_bind (read_access obs V columns) (\<lambda>access.
                     io_return \<lparr>dm_schema_version = Some schema, dm_repository_root = root, dm_last_access = access,
                       dm_schema = (if schema = current_schema_version \<and> ''last_access_unix_seconds'' \<in> set columns
                         then Schema_Current else Schema_Older)\<rparr>))))))))))))))))"

section \<open>One cache\<close>

datatype stat_outcome = Stat_Found | Stat_Missing | Stat_Failed

fun root_available :: "stat_outcome \<Rightarrow> bool option" where
  "root_available Stat_Found = Some True"
| "root_available Stat_Missing = Some False"
| "root_available Stat_Failed = None"

record cache_env =
  env_root :: string
  env_now :: nat
  env_blake3 :: "string \<Rightarrow> string"
  env_show_error :: "cache_error \<Rightarrow> string"
  env_observe :: "nat \<Rightarrow> observation"

record cache_view =
  cv_first :: listing
  cv_last :: listing
  cv_lease_exists :: bool
  cv_lease :: "cache_error + bool"  \<comment> \<open>whether the prune lease is free\<close>
  cv_database_regular :: bool
  cv_database :: database_view
  cv_stat_root :: "string \<Rightarrow> stat_outcome"

definition probe_active :: "cache_view \<Rightarrow> bool \<Rightarrow> bool inventory" where
  "probe_active V probe =
     (if probe \<and> cv_lease_exists V then
        (case cv_lease V of Inl e \<Rightarrow> io_fail e | Inr free \<Rightarrow> io_return (\<not> free))
      else io_return False)"

definition initial_entry ::
  "cache_env \<Rightarrow> string \<Rightarrow> managed_cache_identity \<Rightarrow> artifact_scan \<Rightarrow> bool \<Rightarrow> managed_cache" where
  "initial_entry E cid identity scan active =
     (let version = (case identity of Cache_Unversioned \<Rightarrow> None | Cache_Versioned v _ _ \<Rightarrow> Some v);
          digest = (case identity of Cache_Unversioned \<Rightarrow> None | Cache_Versioned _ _ d \<Rightarrow> d) in
      \<lparr>mc_id = cid, mc_path = env_root E @ ''/'' @ cid, mc_content_version = version,
       mc_index_scope = (if digest \<noteq> None then Mode_Scoped else Mode_Full), mc_scope_digest = digest,
       mc_repository_root = None, mc_repository_available = None,
       mc_last_access = sc_latest_access_mtime scan,
       mc_access_source = map_option (\<lambda>_. Access_File_Mtime) (sc_latest_access_mtime scan),
       mc_age_seconds = map_option (\<lambda>accessed. env_now E - accessed) (sc_latest_access_mtime scan),
       mc_schema_version = None, mc_size_bytes = sc_size_bytes scan, mc_active = active,
       mc_state = Incomplete, mc_detail = None\<rparr>)"

text \<open>The entry and whether its metadata is safe, after the answers of the database.\<close>

definition apply_metadata ::
  "cache_env \<Rightarrow> cache_view \<Rightarrow> string \<Rightarrow> managed_cache_identity \<Rightarrow> database_metadata \<Rightarrow> managed_cache \<Rightarrow>
   managed_cache \<times> bool" where
  "apply_metadata E V cid identity m e =
     (let e = e\<lparr>mc_schema_version := dm_schema_version m, mc_repository_root := dm_repository_root m,
                mc_repository_available := (case dm_repository_root m of None \<Rightarrow> None
                  | Some root \<Rightarrow> root_available (cv_stat_root V root))\<rparr>;
          e = (case dm_last_access m of None \<Rightarrow> e
                | Some accessed \<Rightarrow> e\<lparr>mc_last_access := Some accessed, mc_access_source := Some Access_Database,
                    mc_age_seconds := Some (env_now E - accessed)\<rparr>);
          (e, safe) = (case dm_schema m of
              Schema_Current \<Rightarrow> (e\<lparr>mc_state := State_Current\<rparr>, True)
            | Schema_Older \<Rightarrow> (e\<lparr>mc_state := Older_Schema\<rparr>, True)
            | Schema_Future \<Rightarrow> (e\<lparr>mc_state := Unsupported, mc_detail := Some ''cache uses a newer unsupported schema''\<rparr>, False)) in
      case mc_repository_root e of
        None \<Rightarrow> (e, safe)
      | Some root \<Rightarrow>
          if managed_cache_identity_matches_root (env_blake3 E) identity cid root then (e, safe)
          else (e\<lparr>mc_state := Unsupported, mc_detail := Some ''cache identity does not match its recorded root''\<rparr>, False))"

definition read_metadata ::
  "cache_env \<Rightarrow> cache_view \<Rightarrow> string \<Rightarrow> managed_cache_identity \<Rightarrow> managed_cache \<Rightarrow> (managed_cache \<times> bool) inventory" where
  "read_metadata E V cid identity e =
     io_bind (io_try (inspect_database (env_observe E) (cv_database V))) (\<lambda>r.
       case r of
         Inr m \<Rightarrow> io_return (apply_metadata E V cid identity m e)
       | Inl Cache_Cancelled \<Rightarrow> io_fail Cache_Cancelled
       | Inl (Cache_Inventory_Incomplete d n l) \<Rightarrow> io_fail (Cache_Inventory_Incomplete d n l)
       | Inl err \<Rightarrow>
           io_then (admit_metadata (env_observe E) (length (env_show_error E err)))
             (io_return (e\<lparr>mc_state := Corrupt, mc_detail := Some (env_show_error E err)\<rparr>, False)))"

definition check_content_version :: "managed_cache \<times> bool \<Rightarrow> managed_cache \<times> bool" where
  "check_content_version p =
     (case mc_content_version (fst p) of
        None \<Rightarrow> p
      | Some v \<Rightarrow>
          if index_content_version < v then
            ((fst p)\<lparr>mc_state := Unsupported, mc_detail := Some ''cache uses a newer index-content version''\<rparr>, False)
          else p)"

definition finish_inspection :: "managed_cache_identity \<Rightarrow> artifact_scan \<Rightarrow> bool \<Rightarrow> managed_cache \<times> bool \<Rightarrow> inspected_cache" where
  "finish_inspection identity scan unexpected p =
     (let e = (fst p)\<lparr>mc_size_bytes := sc_size_bytes scan\<rparr>;
          unexpected = (unexpected \<or> sc_unexpected scan);
          e = (if unexpected then e\<lparr>mc_state := Unrecognized, mc_detail := Some ''cache directory contains unexpected entries''\<rparr>
               else e) in
      \<lparr>ic_identity = identity, ic_entry = e, ic_compatibility = classify e,
       ic_safe_to_prune = (sc_has_artifacts scan \<and> \<not> unexpected \<and> snd p)\<rparr>)"

definition inspect_managed_cache ::
  "cache_env \<Rightarrow> cache_view \<Rightarrow> string \<Rightarrow> managed_cache_identity \<Rightarrow> bool \<Rightarrow> inspected_cache inventory" where
  "inspect_managed_cache E V cid identity probe =
     (let obs = env_observe E in
      io_then (budget_check obs)
      (io_bind (scan_artifacts obs (cv_first V)) (\<lambda>first.
       io_bind (probe_active V probe) (\<lambda>active.
       io_bind (let e = initial_entry E cid identity first active in
                if sc_has_artifacts first \<and> cv_database_regular V then read_metadata E V cid identity e
                else io_return (e, True)) (\<lambda>p.
       io_bind (scan_artifacts obs (cv_last V)) (\<lambda>last.
       io_then (budget_check obs)
         (io_return (finish_inspection identity last (sc_unexpected first) (check_content_version p)))))))))"

section \<open>The inventory\<close>

text \<open>A child of the cache root: an error, or a name (\<open>None\<close> when it is not UTF-8) with its type or an error.\<close>

type_synonym root_child = "string + (string option \<times> (string + bool))"

fun inspect_children ::
  "cache_env \<Rightarrow> (string \<Rightarrow> cache_view) \<Rightarrow> root_child list \<Rightarrow> inspected_cache list \<Rightarrow> nat \<Rightarrow>
   (inspected_cache list \<times> nat) inventory" where
  "inspect_children E views [] entries ignored = io_return (entries, ignored)"
| "inspect_children E views (child # rest) entries ignored =
     io_then (budget_check (env_observe E))
     (io_then (io_modify (\<lambda>b. b\<lparr>bg_root_entries := bg_root_entries b + 1\<rparr>))
     (io_then (enforce_counter ''root_entries'' bg_root_entries lim_root_entries)
       (case child of
          Inl e \<Rightarrow> io_fail (Cache_Io e)
        | Inr (_, Inl e) \<Rightarrow> io_fail (Cache_Io e)
        | Inr (None, Inr _) \<Rightarrow> inspect_children E views rest entries (ignored + 1)
        | Inr (Some cid, Inr is_dir) \<Rightarrow>
            (case (if is_dir then parse_managed_cache_id cid else None) of
               None \<Rightarrow> inspect_children E views rest entries (ignored + 1)
             | Some identity \<Rightarrow>
                 io_then (io_modify (\<lambda>b. b\<lparr>bg_candidates := bg_candidates b + 1\<rparr>))
                 (io_then (enforce_counter ''candidate_caches'' bg_candidates lim_candidates)
                 (io_bind (inspect_managed_cache E (views cid) cid identity True) (\<lambda>cache.
                   if mc_size_bytes (ic_entry cache) = 0 \<and> mc_state (ic_entry cache) = Incomplete
                   then inspect_children E views rest entries ignored
                   else inspect_children E views rest (entries @ [cache]) ignored)))))))"

datatype root_listing = Root_Missing | Root_Error string | Root_Children "root_child list"

definition cache_id_cmp :: "inspected_cache cmp" where
  "cache_id_cmp = key_cmp (\<lambda>c. mc_id (ic_entry c))"

definition inspect_all ::
  "cache_env \<Rightarrow> (string \<Rightarrow> cache_view) \<Rightarrow> root_listing \<Rightarrow> (inspected_cache list \<times> nat) inventory" where
  "inspect_all E views listing =
     io_then (budget_check (env_observe E))
       (case listing of
          Root_Missing \<Rightarrow> io_return ([], 0)
        | Root_Error e \<Rightarrow> io_fail (Cache_Io e)
        | Root_Children children \<Rightarrow>
            io_bind (inspect_children E views children [] 0) (\<lambda>(entries, ignored).
              io_then (budget_check (env_observe E)) (io_return (sort_by cache_id_cmp entries, ignored))))"

section \<open>Successful programs\<close>

lemma io_done [simp]:
  "io_return a s = (Done b, t) \<longleftrightarrow> b = a \<and> t = s"
  "io_fail e s \<noteq> (Done b, t)"
  "io_bind m f s = (Done b, t) \<longleftrightarrow> (\<exists>a u. m s = (Done a, u) \<and> f a u = (Done b, t))"
  "io_then m n s = (Done b, t) \<longleftrightarrow> (\<exists>a u. m s = (Done a, u) \<and> n u = (Done b, t))"
  "io_get g s = (Done c, t) \<longleftrightarrow> c = g s \<and> t = s"
  "io_modify h s = (Done x, t) \<longleftrightarrow> t = h s"
  by (auto simp: io_return_def io_fail_def io_bind_def io_then_def io_get_def io_modify_def
      split: prod.splits ending.splits)

lemma io_try_done: "io_try m s = (Done r, t) \<longleftrightarrow> (case r of Inl e \<Rightarrow> m s = (Failed e, t) | Inr a \<Rightarrow> m s = (Done a, t))"
  by (auto simp: io_try_def split: prod.splits ending.splits sum.splits)

text \<open>The budget is spent: every program that is not stopped by the budget or a cancellation leaves its counters
  within the limits, whether it succeeds or reports another error; and programs on one cache do not touch
  the counters of the root.\<close>

definition within :: "inventory_budget \<Rightarrow> bool" where
  "within b \<longleftrightarrow> bg_artifacts b \<le> lim_artifacts (bg_limits b) \<and> bg_sqlite_opens b \<le> lim_sqlite_opens (bg_limits b) \<and>
     bg_metadata_bytes b \<le> lim_metadata_bytes (bg_limits b)"

definition same_root :: "inventory_budget \<Rightarrow> inventory_budget \<Rightarrow> bool" where
  "same_root s t \<longleftrightarrow> bg_limits t = bg_limits s \<and> bg_root_entries t = bg_root_entries s \<and> bg_candidates t = bg_candidates s"

fun stopped :: "(cache_error, 'a) ending \<Rightarrow> bool" where
  "stopped (Done _) = False"
| "stopped (Failed e) = (case e of Cache_Cancelled \<Rightarrow> True | Cache_Inventory_Incomplete _ _ _ \<Rightarrow> True | _ \<Rightarrow> False)"
| "stopped Crashed = True"

definition keeps :: "'a inventory \<Rightarrow> bool" where
  "keeps m \<longleftrightarrow> (\<forall>s r t. within s \<longrightarrow> m s = (r, t) \<longrightarrow> \<not> stopped r \<longrightarrow> within t \<and> same_root s t)"

named_theorems keeps_rules \<open>programs within their budget\<close>

lemma same_root_trans: "same_root s t \<Longrightarrow> same_root t u \<Longrightarrow> same_root s u"
  by (simp add: same_root_def)

lemma keeps_return [keeps_rules]: "keeps (io_return a)"
  by (simp add: keeps_def io_return_def same_root_def)

lemma keeps_fail [keeps_rules]: "keeps (io_fail e)"
  by (simp add: keeps_def io_fail_def same_root_def)

lemma keeps_get [keeps_rules]: "keeps (io_get f)"
  by (simp add: keeps_def io_get_def same_root_def)

lemma keeps_bind [keeps_rules]:
  assumes "keeps m" "\<And>a. keeps (f a)"
  shows "keeps (io_bind m f)"
  unfolding keeps_def
proof (intro allI impI)
  fix s r t assume s: "within s" and run: "io_bind m f s = (r, t)" and go: "\<not> stopped r"
  obtain q u where m: "m s = (q, u)" by (cases "m s")
  have q: "\<not> stopped q" using run go m by (auto simp: io_bind_def split: ending.splits)
  have u: "within u \<and> same_root s u" using assms(1) s m q by (auto simp: keeps_def)
  show "within t \<and> same_root s t"
  proof (cases q)
    case (Done a)
    then have "f a u = (r, t)" using run m by (simp add: io_bind_def)
    then have "within t \<and> same_root u t" using assms(2) [of a] u go unfolding keeps_def by blast
    then show ?thesis using u same_root_trans by blast
  qed (use run m u q in \<open>auto simp: io_bind_def\<close>)
qed

lemma keeps_then [keeps_rules]: "keeps m \<Longrightarrow> keeps n \<Longrightarrow> keeps (io_then m n)"
  unfolding io_then_def by (rule keeps_bind)

lemma keeps_enforce [keeps_rules]: "keeps (budget_enforce d n l)"
  by (simp add: budget_enforce_def keeps_return keeps_fail)

lemma keeps_if [keeps_rules]: "keeps m \<Longrightarrow> keeps n \<Longrightarrow> keeps (if b then m else n)"
  by simp

lemma keeps_check [keeps_rules]: "keeps (budget_check obs)"
proof -
  have "keeps (io_modify (\<lambda>b. b\<lparr>bg_checks := bg_checks b + 1\<rparr>))"
    by (simp add: keeps_def io_modify_def within_def same_root_def)
  then show ?thesis unfolding budget_check_def by (auto intro!: keeps_rules)
qed

lemma keeps_spend:
  assumes "keeps n" "\<And>s. bg_limits (h s) = bg_limits s \<and> bg_root_entries (h s) = bg_root_entries s \<and> bg_candidates (h s) = bg_candidates s"
    and "\<And>s. within s \<Longrightarrow> counter (h s) \<le> limit (bg_limits s) \<Longrightarrow> within (h s)"
  shows "keeps (io_then (io_modify h) (io_then (enforce_counter d counter limit) n))"
  unfolding keeps_def
proof (intro allI impI)
  fix s r t assume s: "within s" and go: "\<not> stopped r"
    and run: "io_then (io_modify h) (io_then (enforce_counter d counter limit) n) s = (r, t)"
  have ok: "counter (h s) \<le> limit (bg_limits s)" and run': "n (h s) = (r, t)"
    using run go assms(2) [of s]
    by (auto simp: io_then_def io_bind_def io_modify_def enforce_counter_def io_get_def budget_enforce_def io_return_def
        io_fail_def split: if_splits)
  have "within (h s)" "same_root s (h s)" using assms(2,3) [of s] s ok by (auto simp: same_root_def)
  then show "within t \<and> same_root s t" using assms(1) run' go same_root_trans by (auto simp: keeps_def)
qed

lemma keeps_admit [keeps_rules]: "keeps (admit_metadata obs n)"
proof -
  have "keeps (io_then (io_modify (\<lambda>b. b\<lparr>bg_metadata_bytes := sat_add (bg_metadata_bytes b) n\<rparr>))
      (io_then (enforce_counter ''metadata_bytes'' bg_metadata_bytes lim_metadata_bytes) (io_return ())))"
    by (rule keeps_spend) (auto intro: keeps_return simp: within_def)
  moreover have "io_then m (io_return ()) = m" for m :: "unit inventory"
    by (rule ext) (auto simp: io_then_def io_bind_def io_return_def split: prod.splits ending.splits)
  ultimately show ?thesis unfolding admit_metadata_def by (auto intro!: keeps_rules)
qed

lemma keeps_sqlite [keeps_rules]: "keeps (sqlite_result obs r)"
  unfolding sqlite_result_def by (auto intro!: keeps_rules split: sum.split db_failure.split)

lemma keeps_observe [keeps_rules]: "keeps (observe_sqlite r)"
  unfolding observe_sqlite_def by (auto intro!: keeps_rules split: sum.split db_failure.split)

lemma keeps_scan_children [keeps_rules]: "keeps (scan_children obs children scan)"
proof (induction obs children scan rule: scan_children.induct)
  case (2 obs child rest scan)
  have "keeps (case child of Inl e \<Rightarrow> io_fail (Cache_Io e) | Inr item \<Rightarrow> scan_children obs rest (scan_item item scan))"
    using 2 by (auto intro: keeps_rules split: sum.split)
  then have "keeps (io_then (io_modify (\<lambda>b. b\<lparr>bg_artifacts := bg_artifacts b + 1\<rparr>))
      (io_then (enforce_counter ''artifact_entries'' bg_artifacts lim_artifacts)
        (case child of Inl e \<Rightarrow> io_fail (Cache_Io e) | Inr item \<Rightarrow> scan_children obs rest (scan_item item scan))))"
    by (rule keeps_spend) (auto simp: within_def)
  then show ?case by (auto intro: keeps_then keeps_check)
qed (auto intro: keeps_rules)

lemma keeps_scan [keeps_rules]: "keeps (scan_artifacts obs listing)"
  unfolding scan_artifacts_def by (auto intro!: keeps_rules split: sum.split)

lemma keeps_columns [keeps_rules]: "keeps (read_columns obs rows)"
  by (induction obs rows rule: read_columns.induct) (auto intro!: keeps_rules)

lemma keeps_root [keeps_rules]: "keeps (read_root obs V columns)"
  unfolding read_root_def by (auto intro!: keeps_rules)

lemma keeps_access [keeps_rules]: "keeps (read_access obs V columns)"
  unfolding read_access_def by (auto intro!: keeps_rules)

lemma keeps_inspect_database [keeps_rules]: "keeps (inspect_database obs V)"
  unfolding inspect_database_def
  by (intro keeps_then [OF keeps_check] keeps_spend) (auto simp: within_def intro!: keeps_rules)


lemma keeps_read_metadata [keeps_rules]: "keeps (read_metadata E V cid identity e)"
  unfolding keeps_def
proof (intro allI impI)
  fix s r t assume s: "within s" and run: "read_metadata E V cid identity e s = (r, t)" and go: "\<not> stopped r"
  obtain q u where m: "inspect_database (env_observe E) (cv_database V) s = (q, u)" by (cases "inspect_database (env_observe E) (cv_database V) s")
  have q: "\<not> stopped q" using run go m
    by (cases q) (auto simp: read_metadata_def io_bind_def io_try_def io_fail_def split: cache_error.splits)
  have u: "within u \<and> same_root s u" using keeps_inspect_database s m q unfolding keeps_def by blast
  show "within t \<and> same_root s t"
  proof (cases q)
    case (Done a)
    then show ?thesis using run m u by (simp add: read_metadata_def io_bind_def io_try_def io_return_def)
  next
    case (Failed err)
    then have "io_then (admit_metadata (env_observe E) (length (env_show_error E err)))
        (io_return (e\<lparr>mc_state := Corrupt, mc_detail := Some (env_show_error E err)\<rparr>, False)) u = (r, t)"
      using run m q by (cases err) (auto simp: read_metadata_def io_bind_def io_try_def)
    moreover have "keeps (io_then (admit_metadata (env_observe E) (length (env_show_error E err)))
        (io_return (e\<lparr>mc_state := Corrupt, mc_detail := Some (env_show_error E err)\<rparr>, False)))"
      by (intro keeps_rules)
    ultimately show ?thesis using u go same_root_trans unfolding keeps_def by blast
  qed (use run m u q in \<open>auto simp: read_metadata_def io_bind_def io_try_def\<close>)
qed

lemma keeps_inspect_cache [keeps_rules]: "keeps (inspect_managed_cache E V cid identity probe)"
  unfolding inspect_managed_cache_def probe_active_def Let_def
  by (auto intro!: keeps_rules split: sum.split)

section \<open>What a program yields\<close>

definition yields :: "('s, 'e, 'a) io \<Rightarrow> ('a \<Rightarrow> bool) \<Rightarrow> bool" where
  "yields m Q \<longleftrightarrow> (\<forall>s a t. m s = (Done a, t) \<longrightarrow> Q a)"

lemma yields_any: "yields m (\<lambda>_. True)"
  by (simp add: yields_def)

lemma yields_return: "Q a \<Longrightarrow> yields (io_return a) Q"
  by (simp add: yields_def)

lemma yields_fail: "yields (io_fail e) Q"
  by (simp add: yields_def)

lemma yields_bind: "yields m R \<Longrightarrow> (\<And>a. R a \<Longrightarrow> yields (f a) Q) \<Longrightarrow> yields (io_bind m f) Q"
  by (fastforce simp: yields_def)

lemma yields_then: "yields n Q \<Longrightarrow> yields (io_then m n) Q"
  by (auto simp: yields_def)

lemma yieldsD: "yields m Q \<Longrightarrow> m s = (Done a, t) \<Longrightarrow> Q a"
  unfolding yields_def by blast

section \<open>What an inventory spends\<close>

lemma initial_entry_id: "mc_id (initial_entry E cid identity scan active) = cid"
  by (simp add: initial_entry_def Let_def)

lemma apply_metadata_id: "mc_id (fst (apply_metadata E V cid identity m e)) = mc_id e"
  by (auto simp: apply_metadata_def Let_def split: option.split database_schema.split)

lemma read_metadata_id: "yields (read_metadata E V cid identity e) (\<lambda>p. mc_id (fst p) = mc_id e)"
  unfolding read_metadata_def
proof (rule yields_bind [OF yields_any])
  fix r
  have corrupt: "yields (io_then m (io_return (e\<lparr>mc_state := st, mc_detail := d\<rparr>, False))) (\<lambda>p. mc_id (fst p) = mc_id e)"
    for m :: "unit inventory" and st d
    by (intro yields_then yields_return) simp
  show "yields (case r of Inr m \<Rightarrow> io_return (apply_metadata E V cid identity m e)
      | Inl Cache_Cancelled \<Rightarrow> io_fail Cache_Cancelled
      | Inl (Cache_Inventory_Incomplete d n l) \<Rightarrow> io_fail (Cache_Inventory_Incomplete d n l)
      | Inl err \<Rightarrow> io_then (admit_metadata (env_observe E) (length (env_show_error E err)))
          (io_return (e\<lparr>mc_state := Corrupt, mc_detail := Some (env_show_error E err)\<rparr>, False))) (\<lambda>p. mc_id (fst p) = mc_id e)"
    using corrupt by (auto intro!: yields_return yields_fail simp: apply_metadata_id split: sum.split cache_error.split)
qed

lemma check_content_version_id [simp]: "mc_id (fst (check_content_version p)) = mc_id (fst p)"
  by (auto simp: check_content_version_def split: option.split)

lemma inspect_managed_cache_id: "yields (inspect_managed_cache E V cid identity probe) (\<lambda>c. mc_id (ic_entry c) = cid)"
proof -
  have p: "yields (let e = initial_entry E cid identity first active in
      if sc_has_artifacts first \<and> cv_database_regular V then read_metadata E V cid identity e else io_return (e, True))
      (\<lambda>p. mc_id (fst p) = cid)" for first active
    using read_metadata_id [of E V cid identity "initial_entry E cid identity first active"]
    by (auto intro!: yields_return simp: Let_def initial_entry_id)
  show ?thesis unfolding inspect_managed_cache_def Let_def
    by (intro yields_then yields_bind [OF yields_any] yields_bind [OF p [unfolded Let_def]] yields_return)
      (simp add: finish_inspection_def Let_def)
qed

fun child_name :: "root_child \<Rightarrow> string option" where
  "child_name (Inr (Some n, Inr _)) = Some n"
| "child_name _ = None"

lemma enforce_counter_done:
  "enforce_counter d counter limit s = (Done x, t) \<longleftrightarrow> t = s \<and> counter s \<le> limit (bg_limits s)"
  by (auto simp: enforce_counter_def budget_enforce_def split: if_splits)

lemma budget_check_done: "budget_check obs s = (Done x, t) \<Longrightarrow> t = s\<lparr>bg_checks := bg_checks s + 1\<rparr>"
  by (auto simp: budget_check_def budget_enforce_def split: if_splits)

text \<open>What becomes of the children of the cache root: each must be readable; the directories with the name of a
  managed cache are inspected, and what is found is kept unless it is an empty directory.\<close>

definition readable :: "root_child \<Rightarrow> bool" where
  "readable child \<longleftrightarrow> (\<exists>name is_dir. child = Inr (name, Inr is_dir))"

fun candidate_of :: "root_child \<Rightarrow> (string \<times> managed_cache_identity) option" where
  "candidate_of (Inr (Some cid, Inr True)) = map_option (Pair cid) (parse_managed_cache_id cid)"
| "candidate_of _ = None"

definition empty_cache :: "inspected_cache \<Rightarrow> bool" where
  "empty_cache c \<longleftrightarrow> mc_size_bytes (ic_entry c) = 0 \<and> mc_state (ic_entry c) = Incomplete"

definition inspected_as :: "cache_env \<Rightarrow> (string \<Rightarrow> cache_view) \<Rightarrow> string \<times> managed_cache_identity \<Rightarrow> inspected_cache \<Rightarrow> bool" where
  "inspected_as E views candidate c \<longleftrightarrow> mc_id (ic_entry c) = fst candidate \<and>
     (\<exists>b t. inspect_managed_cache E (views (fst candidate)) (fst candidate) (snd candidate) True b = (Done c, t))"

definition spends :: "cache_env \<Rightarrow> (string \<Rightarrow> cache_view) \<Rightarrow> root_child list \<Rightarrow> inventory_budget \<Rightarrow> inspected_cache list \<Rightarrow>
    inspected_cache list \<Rightarrow> nat \<Rightarrow> inventory_budget \<Rightarrow> bool" where
  "spends E views children s caches found ignored t \<longleftrightarrow>
     within t \<and> bg_limits t = bg_limits s \<and> bg_root_entries t \<le> lim_root_entries (bg_limits s) \<and>
     bg_candidates t \<le> lim_candidates (bg_limits s) \<and> bg_candidates t = length caches + bg_candidates s \<and>
     bg_root_entries t = length children + bg_root_entries s \<and> ignored + length caches = length children \<and>
     list_all readable children \<and> list_all2 (inspected_as E views) (List.map_filter candidate_of children) caches \<and>
     found = filter (\<lambda>c. \<not> empty_cache c) caches"

lemma inspect_children_spends:
  assumes "inspect_children E views children entries ignored s = (Done (entries', ignored'), t)" "within s"
    and "bg_root_entries s \<le> lim_root_entries (bg_limits s)" "bg_candidates s \<le> lim_candidates (bg_limits s)"
  shows "\<exists>caches found n. entries' = entries @ found \<and> ignored' = ignored + n \<and> spends E views children s caches found n t"
  using assms
proof (induction E views children entries ignored arbitrary: s rule: inspect_children.induct)
  case (2 E views child rest entries ignored)
  define s2 where "s2 = s\<lparr>bg_checks := bg_checks s + 1, bg_root_entries := bg_root_entries s + 1\<rparr>"
  have s2: "within s2" "bg_root_entries s2 \<le> lim_root_entries (bg_limits s2)" "bg_limits s2 = bg_limits s"
      "bg_root_entries s2 = bg_root_entries s + 1" "bg_candidates s2 = bg_candidates s"
    using "2.prems" by (auto simp: s2_def within_def enforce_counter_done dest!: budget_check_done)
  from "2.prems"(1) obtain name ty where child: "child = Inr (name, Inr ty)"
    by (cases child) (auto split: option.splits sum.splits)
  have readable: "readable child" by (simp add: child readable_def)
  show ?case
  proof (cases "case name of Some cid \<Rightarrow> if ty then parse_managed_cache_id cid else None | None \<Rightarrow> None")
    case None
    then have run: "inspect_children E views rest entries (ignored + 1) s2 = (Done (entries', ignored'), t)"
      using "2.prems"(1) child
      by (auto simp: s2_def enforce_counter_done dest!: budget_check_done split: option.splits if_splits)
    have "\<exists>caches found n. entries' = entries @ found \<and> ignored' = ignored + 1 + n \<and> spends E views rest s2 caches found n t"
    proof (cases name)
      case None
      then show ?thesis using "2.IH"(1) [OF child refl None refl run] s2 "2.prems"(4) by auto
    next
      case (Some cid)
      then show ?thesis using "2.IH"(2) [OF child refl Some refl _ run] s2 "2.prems"(4) None by (auto split: if_splits)
    qed
    then obtain caches found n where "entries' = entries @ found" "ignored' = ignored + (1 + n)"
        and rest: "spends E views rest s2 caches found n t" by auto
    moreover have "candidate_of child = None" using None child by (cases ty) (auto split: option.splits)
    then have "spends E views (child # rest) s caches found (1 + n) t"
      using rest s2 readable by (auto simp: spends_def List.map_filter_simps)
    ultimately show ?thesis by blast
  next
    case (Some identity)
    then obtain cid where cid: "name = Some cid" "ty" "parse_managed_cache_id cid = Some identity"
      by (auto split: option.splits if_splits)
    then have found: "(if ty then parse_managed_cache_id cid else None) = Some identity" by simp
    define s3 where "s3 = s2\<lparr>bg_candidates := bg_candidates s2 + 1\<rparr>"
    from "2.prems"(1) child cid obtain c s4 where c: "inspect_managed_cache E (views cid) cid identity True s3 = (Done c, s4)"
      and limit: "bg_candidates s3 \<le> lim_candidates (bg_limits s)"
      and run: "(if mc_size_bytes (ic_entry c) = 0 \<and> mc_state (ic_entry c) = Incomplete
        then inspect_children E views rest entries ignored
        else inspect_children E views rest (entries @ [c]) ignored) s4 = (Done (entries', ignored'), t)"
      by (auto simp: s2_def s3_def enforce_counter_done dest!: budget_check_done)
    have s3: "within s3" using s2 by (simp add: s3_def within_def)
    have "within s4 \<and> same_root s3 s4" using keeps_inspect_cache [of E "views cid" cid identity True] s3 c
      unfolding keeps_def by fastforce
    then have s4: "within s4" "bg_limits s4 = bg_limits s" "bg_root_entries s4 = bg_root_entries s + 1"
        "bg_candidates s4 = bg_candidates s + 1" "bg_root_entries s4 \<le> lim_root_entries (bg_limits s4)"
        "bg_candidates s4 \<le> lim_candidates (bg_limits s4)"
      using s2 limit by (auto simp: same_root_def s3_def)
    have "mc_id (ic_entry c) = cid" by (rule yieldsD [OF inspect_managed_cache_id c])
    then have insp: "inspected_as E views (cid, identity) c" using c by (auto simp: inspected_as_def)
    have cand: "candidate_of child = Some (cid, identity)" using child cid by simp
    show ?thesis
    proof (cases "mc_size_bytes (ic_entry c) = 0 \<and> mc_state (ic_entry c) = Incomplete")
      case True
      then have "inspect_children E views rest entries ignored s4 = (Done (entries', ignored'), t)" using run by simp
      from "2.IH"(3) [OF child refl cid(1) refl found True this s4(1,5,6)]
      obtain caches found n where "entries' = entries @ found" "ignored' = ignored + n"
        and rest: "spends E views rest s4 caches found n t" by blast
      moreover have "empty_cache c" using True by (simp add: empty_cache_def)
      then have "spends E views (child # rest) s (c # caches) found n t"
        using rest s4 readable insp cand by (auto simp: spends_def List.map_filter_simps)
      ultimately show ?thesis by blast
    next
      case False
      then have "inspect_children E views rest (entries @ [c]) ignored s4 = (Done (entries', ignored'), t)" using run by auto
      from "2.IH"(4) [OF child refl cid(1) refl found False this s4(1,5,6)]
      obtain caches found n where "entries' = entries @ c # found" "ignored' = ignored + n"
        and rest: "spends E views rest s4 caches found n t" by auto
      moreover have "\<not> empty_cache c" using False by (simp add: empty_cache_def)
      then have "spends E views (child # rest) s (c # caches) (c # found) n t"
        using rest s4 readable insp cand by (auto simp: spends_def List.map_filter_simps)
      ultimately show ?thesis by blast
    qed
  qed
qed (auto simp: spends_def List.map_filter_simps)

lemma inspected_ids: "list_all2 (inspected_as E views) cands caches \<Longrightarrow> map (\<lambda>c. mc_id (ic_entry c)) caches = map fst cands"
  by (induction rule: list_all2_induct) (auto simp: inspected_as_def)

lemma candidate_names:
  "set (map fst (List.map_filter candidate_of children)) \<subseteq> set (List.map_filter child_name children)"
  "distinct (List.map_filter child_name children) \<Longrightarrow> distinct (map fst (List.map_filter candidate_of children))"
proof (induction children)
  case (Cons child rest)
  have name: "child_name child = Some (fst cand)" if "candidate_of child = Some cand" for cand
    using that by (cases child rule: candidate_of.cases) auto
  {
    case 1
    then show ?case using Cons.IH(1) name by (auto simp: List.map_filter_simps split: option.split)
  next
    case 2
    then show ?case using Cons.IH name by (auto simp: List.map_filter_simps split: option.splits)
  }
qed (simp_all add: List.map_filter_simps)

lemma strictly_sorted:
  "sorted_wrt (\<lambda>a b. key_cmp f a b \<noteq> Greater) xs \<Longrightarrow> distinct (map f xs) \<Longrightarrow> sorted_wrt (\<lambda>a b. f a < f b) xs"
  by (induction xs) (auto simp: key_cmp_def ord_cmp_def split: if_splits)

definition inventory_of ::
  "cache_env \<Rightarrow> (string \<Rightarrow> cache_view) \<Rightarrow> inventory_limits \<Rightarrow> root_listing \<Rightarrow> inspected_cache list \<Rightarrow> nat \<Rightarrow> inventory_budget \<Rightarrow> bool" where
  "inventory_of E views limits listing entries ignored t \<longleftrightarrow>
     (\<exists>children caches. (listing = Root_Children children \<or> listing = Root_Missing \<and> children = []) \<and>
        list_all readable children \<and> list_all2 (inspected_as E views) (List.map_filter candidate_of children) caches \<and>
        mset entries = mset (filter (\<lambda>c. \<not> empty_cache c) caches) \<and> ignored + length caches = length children \<and>
        length children \<le> lim_root_entries limits \<and> length caches \<le> lim_candidates limits) \<and>
     sorted_wrt (\<lambda>a b. mc_id (ic_entry a) < mc_id (ic_entry b)) entries \<and> within t \<and> bg_limits t = limits"

lemma inventory_facts:
  assumes "inspect_all E views listing (budget_new limits) = (Done (entries, ignored), t)"
    and "case listing of Root_Children children \<Rightarrow> distinct (List.map_filter child_name children) | _ \<Rightarrow> True"
  shows "inventory_of E views limits listing entries ignored t"
proof (cases listing)
  case Root_Missing
  then show ?thesis using assms(1)
    by (auto simp: inspect_all_def budget_new_def inventory_of_def within_def List.map_filter_simps dest!: budget_check_done)
next
  case (Root_Error e)
  then show ?thesis using assms(1) by (auto simp: inspect_all_def)
next
  case (Root_Children children)
  obtain s u found where run: "inspect_children E views children [] 0 s = (Done (found, ignored), u)"
    and s: "s = (budget_new limits)\<lparr>bg_checks := 1\<rparr>" and t: "t = u\<lparr>bg_checks := bg_checks u + 1\<rparr>"
    and entries: "entries = sort_by cache_id_cmp found"
    using assms(1) Root_Children by (auto simp: inspect_all_def budget_new_def dest!: budget_check_done)
  obtain caches where sp: "spends E views children s caches found ignored u"
    using inspect_children_spends [OF run] s by (auto simp: within_def budget_new_def)
  let ?id = "\<lambda>c. mc_id (ic_entry c)"
  have "distinct (map ?id caches)"
    using sp assms(2) Root_Children candidate_names(2) inspected_ids by (fastforce simp: spends_def)
  then have "distinct (map ?id found)" using sp by (auto simp: spends_def distinct_map_filter)
  moreover have "mset (map ?id entries) = mset (map ?id found)" by (simp add: entries)
  ultimately have "distinct (map ?id entries)" using mset_eq_imp_distinct_iff by blast
  moreover have "comparator_laws cache_id_cmp" unfolding cache_id_cmp_def by (rule comparator_key_cmp)
  then have "sorted_wrt (\<lambda>a b. cache_id_cmp a b \<noteq> Greater) entries" unfolding entries
    by (rule comparator_laws.sorted_sort_by)
  ultimately have "sorted_wrt (\<lambda>a b. ?id a < ?id b) entries"
    unfolding cache_id_cmp_def using strictly_sorted [of ?id entries] by simp
  moreover have "mset entries = mset (filter (\<lambda>c. \<not> empty_cache c) caches)" using sp by (simp add: entries spends_def)
  ultimately show ?thesis using sp s t Root_Children
    unfolding inventory_of_def by (auto simp: spends_def within_def budget_new_def)
qed

lemma inventory_sorted:
  assumes "inspect_all E views listing (budget_new limits) = (Done (entries, ignored), t)"
    and "case listing of Root_Children children \<Rightarrow> distinct (List.map_filter child_name children) | _ \<Rightarrow> True"
  shows "sorted_wrt (\<lambda>a b. mc_id (ic_entry a) < mc_id (ic_entry b)) entries"
  using inventory_facts [OF assms] by (simp add: inventory_of_def)

text \<open>C24: An inventory that succeeds is complete and within its budget.  Every child of the cache root could be
  read, and each is accounted for: the directories with the name of a managed cache are inspected, every
  other child is counted as ignored.  The entries are exactly what these inspections found, each once,
  without the empty directories, sorted by their identifiers, which are the names of the inspected
  directories.  No more children and candidate caches than allowed were looked at, no more databases opened, artifacts
  scanned and metadata bytes admitted.  (The children of the cache root have distinct names.)\<close>

theorem inventory_bounded:
  assumes "inspect_all E views listing (budget_new limits) = (Done (entries, ignored), t)"
    and "case listing of Root_Children children \<Rightarrow> distinct (List.map_filter child_name children) | _ \<Rightarrow> True"
  shows "(\<exists>children caches. (listing = Root_Children children \<or> listing = Root_Missing \<and> children = []) \<and>
      (\<forall>child \<in> set children. \<exists>name is_dir. child = Inr (name, Inr is_dir)) \<and>
      list_all2 (inspected_as E views) (List.map_filter candidate_of children) caches \<and>
      mset entries = mset (filter (\<lambda>c. \<not> empty_cache c) caches) \<and>
      ignored + length caches = length children \<and>
      length children \<le> lim_root_entries limits \<and> length caches \<le> lim_candidates limits) \<and>
    sorted_wrt (\<lambda>a b. mc_id (ic_entry a) < mc_id (ic_entry b)) entries \<and>
    bg_sqlite_opens t \<le> lim_sqlite_opens limits \<and> bg_artifacts t \<le> lim_artifacts limits \<and>
    bg_metadata_bytes t \<le> lim_metadata_bytes limits"
  using inventory_facts [OF assms] by (auto simp: inventory_of_def within_def list_all_iff readable_def)

section \<open>A sample inventory\<close>

definition quiet :: observation where
  "quiet = \<lparr>ob_cancelled = False, ob_elapsed = 0, ob_steps = 0\<rparr>"

definition sample_cache_env :: cache_env where
  "sample_cache_env = \<lparr>env_root = ''/c'', env_now = 100, env_blake3 = (\<lambda>s. s), env_show_error = (\<lambda>_. ''error''),
     env_observe = (\<lambda>_. quiet)\<rparr>"

definition sample_item :: dir_item where
  "sample_item = \<lparr>di_name = database_name, di_regular = True, di_len = 5, di_modified = Some 40\<rparr>"

definition sample_cache_view :: cache_view where
  "sample_cache_view = \<lparr>cv_first = Inr [Inr sample_item], cv_last = Inr [Inr sample_item], cv_lease_exists = False, cv_lease = Inr True,
     cv_database_regular = True,
     cv_database = \<lparr>dv_open = Inl (Db_Failure ''busy''), dv_busy_timeout = Inr (), dv_progress_handler = Inr (), dv_value_limit = Inr (),
       dv_sql_limit = Inr (), dv_cache_size = Inr (), dv_user_version = Inr 0, dv_prepare = Inr (), dv_query = Inr (), dv_rows = [],
       dv_schema = Inr 0, dv_root = Inr [], dv_access = Inr 0\<rparr>,
     cv_stat_root = (\<lambda>_. Stat_Missing)\<rparr>"

definition sample_children :: "root_child list" where
  "sample_children = [Inr (Some ''notes'', Inr True), Inr (Some ''0123456789abcdef'', Inr True)]"

lemma sample_ids: "parse_managed_cache_id ''notes'' = None" "parse_managed_cache_id ''0123456789abcdef'' = Some Cache_Unversioned"
  by (simp_all add: parse_managed_cache_id_def is_managed_cache_hash_def managed_cache_hash_bytes_def is_ascii_digit_def in_range_def
      strip_prefix_def starts_with_def)

lemma sample_check: "budget_check (\<lambda>_. quiet) s = (Done (), s\<lparr>bg_checks := bg_checks s + 1\<rparr>)"
  by (simp add: budget_check_def budget_enforce_def quiet_def io_eval)

lemma sample_known: "known_artifact database_name" "database_name \<noteq> lease_name"
  by (simp_all add: known_artifact_def prunable_artifacts_def lease_name_def coordination_sidecar_def lease_lock_suffix_def)

lemma sample_scan: "lim_artifacts (bg_limits s) = 32768 \<Longrightarrow> bg_artifacts s < 32768 \<Longrightarrow>
    scan_artifacts (\<lambda>_. quiet) (Inr [Inr sample_item]) s =
    (Done \<lparr>sc_size_bytes = 5, sc_latest_access_mtime = Some 40, sc_has_artifacts = True, sc_unexpected = False\<rparr>,
     s\<lparr>bg_checks := bg_checks s + 3, bg_artifacts := bg_artifacts s + 1\<rparr>)"
  using sample_known
  by (simp add: scan_artifacts_def sample_check io_eval enforce_counter_def budget_enforce_def scan_item_def sample_item_def
      empty_scan_def Let_def sat_add_def usize_max_def)

lemma sample_inventory:
  "\<exists>c t. inspect_all sample_cache_env (\<lambda>_. sample_cache_view) (Root_Children sample_children) (budget_new default_inventory_limits) =
     (Done ([c], 1), t) \<and> mc_state (ic_entry c) = Corrupt \<and> \<not> ic_safe_to_prune c \<and> mc_size_bytes (ic_entry c) = 5"
  by (simp add: inspect_all_def sample_children_def sample_check sample_ids io_eval enforce_counter_def budget_enforce_def
      budget_new_def default_inventory_limits_def inspect_managed_cache_def sample_cache_env_def sample_cache_view_def sample_scan
      probe_active_def read_metadata_def inspect_database_def sqlite_result_def admit_metadata_def initial_entry_def Let_def
      check_content_version_def finish_inspection_def sat_add_def usize_max_def)

theorem inventory_bounded_witness:
  "\<exists>entries t caches. inspect_all sample_cache_env (\<lambda>_. sample_cache_view) (Root_Children sample_children)
      (budget_new default_inventory_limits) = (Done (entries, 1), t) \<and>
     list_all2 (inspected_as sample_cache_env (\<lambda>_. sample_cache_view)) [(''0123456789abcdef'', Cache_Unversioned)] caches \<and>
     mset entries = mset (filter (\<lambda>c. \<not> empty_cache c) caches) \<and> bg_artifacts t \<le> 32768"
proof -
  obtain c t where run: "inspect_all sample_cache_env (\<lambda>_. sample_cache_view) (Root_Children sample_children)
      (budget_new default_inventory_limits) = (Done ([c], 1), t)" using sample_inventory by blast
  have "distinct (List.map_filter child_name sample_children)"
    by (simp add: sample_children_def List.map_filter_simps)
  moreover have "List.map_filter candidate_of sample_children = [(''0123456789abcdef'', Cache_Unversioned)]"
    by (simp add: sample_children_def List.map_filter_simps sample_ids)
  ultimately show ?thesis using inventory_bounded [OF run] run by (auto simp: default_inventory_limits_def)
qed

section \<open>What makes a cache safe to prune\<close>

definition scan_of :: "dir_item list \<Rightarrow> artifact_scan" where
  "scan_of items = foldl (\<lambda>scan i. scan_item i scan) empty_scan items"

lemma yields_scan_children:
  "yields (scan_children obs children scan)
     (\<lambda>r. \<exists>items. children = map Inr items \<and> r = foldl (\<lambda>scan i. scan_item i scan) scan items)"
proof (induction obs children scan rule: scan_children.induct)
  case (2 obs child rest scan)
  show ?case
  proof (cases child)
    case (Inr item)
    then have "yields (scan_children obs rest (scan_item item scan))
        (\<lambda>r. \<exists>items. rest = map Inr items \<and> r = foldl (\<lambda>scan i. scan_item i scan) (scan_item item scan) items)"
      using 2 by blast
    moreover have "\<exists>zs. child # rest = map Inr zs \<and> r = foldl (\<lambda>scan i. scan_item i scan) scan zs"
      if "rest = map Inr items" "r = foldl (\<lambda>scan i. scan_item i scan) (scan_item item scan) items" for r items
      by (rule exI [of _ "item # items"]) (use that Inr in simp)
    ultimately have "yields (scan_children obs rest (scan_item item scan))
        (\<lambda>r. \<exists>zs. child # rest = map Inr zs \<and> r = foldl (\<lambda>scan i. scan_item i scan) scan zs)"
      unfolding yields_def by blast
    then show ?thesis using Inr by (auto intro!: yields_then)
  qed (auto intro!: yields_then yields_fail)
qed (auto intro: yields_return)

lemma yields_scan: "yields (scan_artifacts obs listing) (\<lambda>r. \<exists>items. listing = Inr (map Inr items) \<and> r = scan_of items)"
proof (cases listing)
  case (Inr children)
  then show ?thesis unfolding scan_artifacts_def scan_of_def
    by (auto intro!: yields_then yields_bind [OF yields_scan_children] yields_return)
qed (auto simp: scan_artifacts_def intro!: yields_then yields_fail)

definition plain_artifact :: "dir_item \<Rightarrow> bool" where
  "plain_artifact i \<longleftrightarrow> known_artifact (di_name i) \<and> di_regular i"

lemma scan_item_unexpected: "sc_unexpected (scan_item i scan) \<longleftrightarrow> sc_unexpected scan \<or> \<not> plain_artifact i"
  by (auto simp: scan_item_def plain_artifact_def Let_def split: option.split)

lemma scan_item_has: "sc_has_artifacts (scan_item i scan) \<longleftrightarrow> sc_has_artifacts scan \<or> plain_artifact i \<and> di_name i \<noteq> lease_name"
  by (auto simp: scan_item_def plain_artifact_def Let_def split: option.split)

lemma scan_of_unexpected: "sc_unexpected (scan_of items) \<longleftrightarrow> (\<exists>i \<in> set items. \<not> plain_artifact i)"
proof -
  have "sc_unexpected (foldl (\<lambda>scan i. scan_item i scan) scan items) \<longleftrightarrow> sc_unexpected scan \<or> (\<exists>i \<in> set items. \<not> plain_artifact i)" for scan
    by (induction items arbitrary: scan) (auto simp: scan_item_unexpected)
  then show ?thesis by (simp add: scan_of_def empty_scan_def)
qed

lemma scan_of_has: "sc_has_artifacts (scan_of items) \<longleftrightarrow> (\<exists>i \<in> set items. plain_artifact i \<and> di_name i \<noteq> lease_name)"
proof -
  have "sc_has_artifacts (foldl (\<lambda>scan i. scan_item i scan) scan items) \<longleftrightarrow>
      sc_has_artifacts scan \<or> (\<exists>i \<in> set items. plain_artifact i \<and> di_name i \<noteq> lease_name)" for scan
    by (induction items arbitrary: scan) (auto simp: scan_item_has)
  then show ?thesis by (simp add: scan_of_def empty_scan_def)
qed

text \<open>What the metadata of an entry must satisfy.\<close>

definition metadata_ok :: "cache_env \<Rightarrow> string \<Rightarrow> managed_cache_identity \<Rightarrow> managed_cache \<times> bool \<Rightarrow> bool" where
  "metadata_ok E cid identity p \<longleftrightarrow> (snd p \<longrightarrow> mc_state (fst p) \<in> {State_Current, Older_Schema, Incomplete} \<and>
     (case mc_repository_root (fst p) of None \<Rightarrow> True
      | Some root \<Rightarrow> managed_cache_identity_matches_root (env_blake3 E) identity cid root))"

lemma apply_metadata_ok: "metadata_ok E cid identity (apply_metadata E V cid identity m e)"
  by (cases "dm_schema m"; cases "dm_repository_root m"; cases "dm_last_access m") (simp_all add: metadata_ok_def apply_metadata_def Let_def)

lemma read_metadata_ok: "yields (read_metadata E V cid identity e) (metadata_ok E cid identity)"
  unfolding read_metadata_def
proof (rule yields_bind [OF yields_any])
  fix r
  have corrupt: "yields (io_then m (io_return (e\<lparr>mc_state := st, mc_detail := d\<rparr>, False))) (metadata_ok E cid identity)"
    for m :: "unit inventory" and st d
    by (intro yields_then yields_return) (simp add: metadata_ok_def)
  show "yields (case r of Inr m \<Rightarrow> io_return (apply_metadata E V cid identity m e)
      | Inl Cache_Cancelled \<Rightarrow> io_fail Cache_Cancelled
      | Inl (Cache_Inventory_Incomplete d n l) \<Rightarrow> io_fail (Cache_Inventory_Incomplete d n l)
      | Inl err \<Rightarrow> io_then (admit_metadata (env_observe E) (length (env_show_error E err)))
          (io_return (e\<lparr>mc_state := Corrupt, mc_detail := Some (env_show_error E err)\<rparr>, False))) (metadata_ok E cid identity)"
    using corrupt by (auto intro!: yields_return yields_fail simp: apply_metadata_ok split: sum.split cache_error.split)
qed

lemma check_content_version_ok:
  assumes "metadata_ok E cid identity p" "check_content_version p = q" "snd q"
  shows "metadata_ok E cid identity q \<and>
    (case mc_content_version (fst q) of None \<Rightarrow> True | Some v \<Rightarrow> v \<le> index_content_version)"
  using assms by (auto simp: check_content_version_def split: option.splits if_splits)

lemma finish_inspection_safe:
  assumes "ic_safe_to_prune (finish_inspection identity scan unexpected p)"
  shows "snd p \<and> \<not> unexpected \<and> \<not> sc_unexpected scan \<and> sc_has_artifacts scan \<and>
    ic_entry (finish_inspection identity scan unexpected p) = (fst p)\<lparr>mc_size_bytes := sc_size_bytes scan\<rparr>"
  using assms by (auto simp: finish_inspection_def Let_def)

text \<open>C23: What is safe to prune is a cache this program recognizes completely.  If an inspection calls a cache
  safe to prune, both listings of its directory could be read and hold nothing but regular files with
  names the program writes, at least one of them not the lease lock; its content version is not newer
  than the program's; its database, if it was opened, is neither corrupt nor of a newer schema; and
  the repository root the database records, if any, is the one the directory is named after.\<close>

theorem safe_cache_is_recognized:
  assumes "inspect_managed_cache E V cid identity probe s = (Done c, t)" and "ic_safe_to_prune c"
  shows "(\<exists>first last. cv_first V = Inr (map Inr first) \<and> cv_last V = Inr (map Inr last) \<and>
      list_all (\<lambda>i. known_artifact (di_name i) \<and> di_regular i) (first @ last) \<and> list_ex (\<lambda>i. di_name i \<noteq> lease_name) last) \<and>
    (case mc_content_version (ic_entry c) of None \<Rightarrow> True | Some v \<Rightarrow> v \<le> index_content_version) \<and>
    mc_state (ic_entry c) \<in> {State_Current, Older_Schema, Incomplete} \<and>
    (case mc_repository_root (ic_entry c) of None \<Rightarrow> True
     | Some root \<Rightarrow> managed_cache_identity_matches_root (env_blake3 E) identity cid root)"
proof -
  define good where "good c \<longleftrightarrow> (\<exists>first last p q. cv_first V = Inr (map Inr first) \<and> cv_last V = Inr (map Inr last) \<and>
      metadata_ok E cid identity p \<and> q = check_content_version p \<and>
      c = finish_inspection identity (scan_of last) (sc_unexpected (scan_of first)) q)" for c
  have p: "yields (let e = initial_entry E cid identity first active in
      if sc_has_artifacts first \<and> cv_database_regular V then read_metadata E V cid identity e else io_return (e, True))
      (metadata_ok E cid identity)" for first active
    using read_metadata_ok [of E V cid identity "initial_entry E cid identity first active"]
    by (auto intro!: yields_return simp: Let_def metadata_ok_def initial_entry_def)
  have "yields (inspect_managed_cache E V cid identity probe) good"
    unfolding inspect_managed_cache_def Let_def
    by (intro yields_then yields_bind [OF yields_scan] yields_bind [OF yields_any] yields_bind [OF p [unfolded Let_def]] yields_return)
      (auto simp: good_def)
  then have "good c" using assms(1) by (rule yieldsD)
  then obtain first last p q where l: "cv_first V = Inr (map Inr first)" "cv_last V = Inr (map Inr last)"
    and p: "metadata_ok E cid identity p" and q: "q = check_content_version p"
    and c: "c = finish_inspection identity (scan_of last) (sc_unexpected (scan_of first)) q"
    unfolding good_def by blast
  note safe = finish_inspection_safe [of identity "scan_of last" "sc_unexpected (scan_of first)" q]
  from safe assms(2) c have sq: "snd q" "\<not> sc_unexpected (scan_of first)" "\<not> sc_unexpected (scan_of last)" "sc_has_artifacts (scan_of last)"
    and e: "ic_entry c = (fst q)\<lparr>mc_size_bytes := sc_size_bytes (scan_of last)\<rparr>" by auto
  have "list_all (\<lambda>i. known_artifact (di_name i) \<and> di_regular i) (first @ last)" "list_ex (\<lambda>i. di_name i \<noteq> lease_name) last"
    using sq by (auto simp: scan_of_unexpected scan_of_has plain_artifact_def list_all_iff list_ex_iff)
  then show ?thesis using l check_content_version_ok [OF p q [symmetric] sq(1)] sq(1) e by (auto simp: metadata_ok_def)
qed

lemma sample_safe:
  "\<exists>c t. inspect_managed_cache sample_cache_env (sample_cache_view\<lparr>cv_database_regular := False\<rparr>) ''0123456789abcdef'' Cache_Unversioned
     True (budget_new default_inventory_limits) = (Done c, t) \<and> ic_safe_to_prune c"
  by (simp add: sample_check io_eval budget_new_def default_inventory_limits_def inspect_managed_cache_def sample_cache_env_def
      sample_cache_view_def sample_scan probe_active_def initial_entry_def Let_def check_content_version_def finish_inspection_def)

theorem safe_cache_is_recognized_witness:
  "\<exists>c t. inspect_managed_cache sample_cache_env (sample_cache_view\<lparr>cv_database_regular := False\<rparr>) ''0123456789abcdef'' Cache_Unversioned
     True (budget_new default_inventory_limits) = (Done c, t) \<and> ic_safe_to_prune c \<and>
     mc_state (ic_entry c) \<in> {State_Current, Older_Schema, Incomplete}"
proof -
  obtain c t where run: "inspect_managed_cache sample_cache_env (sample_cache_view\<lparr>cv_database_regular := False\<rparr>)
      ''0123456789abcdef'' Cache_Unversioned True (budget_new default_inventory_limits) = (Done c, t)" "ic_safe_to_prune c"
    using sample_safe by blast
  then show ?thesis using safe_cache_is_recognized [OF run] by blast
qed

section \<open>No crashes\<close>

definition calm :: "('s, 'e, 'a) io \<Rightarrow> bool" where
  "calm m \<longleftrightarrow> (\<forall>s. fst (m s) \<noteq> Crashed)"

named_theorems calm_rules \<open>programs that cannot crash\<close>

lemma calm_basic [calm_rules]:
  "calm (io_return a)" "calm (io_fail e)" "calm (io_get f)" "calm (io_modify h)"
  by (simp_all add: calm_def io_return_def io_fail_def io_get_def io_modify_def)

lemma calm_bind [calm_rules]:
  assumes "calm m" "\<And>a. calm (f a)"
  shows "calm (io_bind m f)"
  unfolding calm_def
proof
  fix s
  obtain q t where m: "m s = (q, t)" by (cases "m s")
  then have "q \<noteq> Crashed" using assms(1) by (metis calm_def fst_conv)
  then show "fst (io_bind m f s) \<noteq> Crashed" using m assms(2) by (cases q) (simp_all add: io_bind_def calm_def)
qed

lemma calm_then [calm_rules]: "calm m \<Longrightarrow> calm n \<Longrightarrow> calm (io_then m n)"
  unfolding io_then_def by (rule calm_bind)

lemma calm_try [calm_rules]: "calm m \<Longrightarrow> calm (io_try m)"
  by (auto simp: calm_def io_try_def split: prod.splits ending.splits) (metis fst_conv)

lemma calm_if [calm_rules]: "calm m \<Longrightarrow> calm n \<Longrightarrow> calm (if b then m else n)"
  by simp

lemma calm_budget [calm_rules]:
  "calm (budget_enforce d n l)" "calm (enforce_counter d counter limit)" "calm (budget_check obs)" "calm (admit_metadata obs n)"
  "calm (sqlite_result obs r)" "calm (observe_sqlite q)"
  unfolding budget_enforce_def enforce_counter_def budget_check_def admit_metadata_def sqlite_result_def observe_sqlite_def
  by (auto intro!: calm_rules split: sum.split db_failure.split prod.split)

lemma calm_scan_children [calm_rules]: "calm (scan_children obs children scan)"
  by (induction obs children scan rule: scan_children.induct) (auto intro!: calm_rules split: sum.split)

lemma calm_scan [calm_rules]: "calm (scan_artifacts obs listing)"
  unfolding scan_artifacts_def by (auto intro!: calm_rules split: sum.split)

lemma calm_columns [calm_rules]: "calm (read_columns obs rows)"
  by (induction obs rows rule: read_columns.induct) (auto intro!: calm_rules)

lemma calm_database [calm_rules]: "calm (inspect_database obs V)"
  unfolding inspect_database_def read_root_def read_access_def by (auto intro!: calm_rules)

lemma calm_inspect [calm_rules]: "calm (inspect_managed_cache E V cid identity probe)"
  unfolding inspect_managed_cache_def probe_active_def read_metadata_def Let_def
  by (auto intro!: calm_rules split: sum.split cache_error.split)

lemma calm_children [calm_rules]: "calm (inspect_children E views children entries ignored)"
  by (induction children arbitrary: entries ignored)
    (auto intro!: calm_rules split: sum.split option.split prod.split)

lemma calm_inspect_all: "calm (inspect_all E views listing)"
  unfolding inspect_all_def by (auto intro!: calm_rules split: root_listing.split prod.split)

end
