(* ===== verification/Cache_Prune.thy ===== *)
theory Cache_Prune
  imports Cache_Inspect
begin

text \<open>
  Pruning managed caches (\<open>src/cache/prune_policy.rs\<close>, \<open>src/cache/prune.rs\<close>, \<open>src/mutation.rs\<close>): the
  plan, the selection of candidates, the revalidation of each candidate under its lease and the removal
  of its artifacts.  The prune lease, the second inspection, the cancellation token and the outcome of
  each file operation are answers of the world; since every cache is visited once, the world answers by
  cache identifier.  The log of the removals is part of the result.
\<close>

section \<open>The plan\<close>

record prune_request =
  pr_older_than_days :: "nat option"
  pr_max_total_bytes :: "nat option"
  pr_remove_missing_roots :: bool
  pr_dry_run :: bool
  pr_yes :: bool
  pr_incompatible :: bool

datatype mutation_mode = Dry_Run | Apply

definition mutation_mode_parse :: "bool \<Rightarrow> bool \<Rightarrow> string \<Rightarrow> cache_error + mutation_mode" where
  "mutation_mode_parse dry_run confirmed missing_confirmation =
     (if dry_run then Inr Dry_Run else if confirmed then Inr Apply
      else Inl (Cache_Invalid_Request missing_confirmation))"

record prune_plan =
  pp_older_than_days :: "nat option"
  pp_max_total_bytes :: "nat option"
  pp_remove_missing_roots :: bool
  pp_incompatible :: bool
  pp_execution :: mutation_mode

definition prune_plan_of :: "prune_request \<Rightarrow> cache_error + prune_plan" where
  "prune_plan_of r =
     (if pr_older_than_days r = Some 0 then Inl (Cache_Invalid_Request ''--older-than must be at least one day'')
      else if pr_older_than_days r = None \<and> pr_max_total_bytes r = None \<and> \<not> pr_remove_missing_roots r \<and> \<not> pr_incompatible r
      then Inl (Cache_Invalid_Request (''cache prune requires --older-than, --max-total-bytes, '' @
        ''--remove-missing-roots, or --incompatible-with-current''))
      else
        (case mutation_mode_parse (pr_dry_run r) (pr_yes r) ''cache prune requires --yes unless --dry-run is used'' of
           Inl e \<Rightarrow> Inl e
         | Inr mode \<Rightarrow> Inr \<lparr>pp_older_than_days = pr_older_than_days r, pp_max_total_bytes = pr_max_total_bytes r,
             pp_remove_missing_roots = pr_remove_missing_roots r, pp_incompatible = pr_incompatible r, pp_execution = mode\<rparr>))"

section \<open>Selection\<close>

definition seconds_per_day :: nat where "seconds_per_day = 24 * 60 * 60"

type_synonym selection = "string \<Rightarrow> string list option"

definition add_reason :: "string \<Rightarrow> string \<Rightarrow> selection \<Rightarrow> selection" where
  "add_reason cid reason sel = sel(cid \<mapsto> (case sel cid of None \<Rightarrow> [] | Some rs \<Rightarrow> rs) @ [reason])"

definition incompatible_prefix :: string where "incompatible_prefix = ''incompatible_with_current:''"

definition minimum_age :: "prune_plan \<Rightarrow> nat option" where
  "minimum_age plan = map_option (\<lambda>days. sat_mul days seconds_per_day) (pp_older_than_days plan)"

definition old_enough :: "nat option \<Rightarrow> nat option \<Rightarrow> bool" where
  "old_enough age seconds = (case (age, seconds) of (Some a, Some s) \<Rightarrow> a \<le> s | _ \<Rightarrow> False)"

definition select_by_criteria :: "prune_plan \<Rightarrow> inspected_cache \<Rightarrow> selection \<Rightarrow> selection" where
  "select_by_criteria plan c sel =
     (let cid = mc_id (ic_entry c);
          sel = (if pp_incompatible plan \<and> safely_incompatible (ic_compatibility c)
                 then add_reason cid (incompatible_prefix @ compatibility_label (ic_compatibility c)) sel else sel);
          sel = (if old_enough (minimum_age plan) (mc_age_seconds (ic_entry c)) then add_reason cid ''older_than'' sel else sel) in
      if pp_remove_missing_roots plan \<and> mc_repository_available (ic_entry c) = Some False
      then add_reason cid ''missing_repository'' sel else sel)"

definition prunable :: "inspected_cache \<Rightarrow> bool" where
  "prunable c \<longleftrightarrow> ic_safe_to_prune c \<and> \<not> mc_active (ic_entry c)"

definition lru_cmp :: "inspected_cache cmp" where
  "lru_cmp = lex_cmp (key_cmp (\<lambda>c. case mc_last_access (ic_entry c) of None \<Rightarrow> 0 | Some t \<Rightarrow> t))
     (key_cmp (\<lambda>c. mc_id (ic_entry c)))"

fun select_lru :: "nat \<Rightarrow> nat \<Rightarrow> inspected_cache list \<Rightarrow> selection \<Rightarrow> selection" where
  "select_lru limit projected [] sel = sel"
| "select_lru limit projected (c # cs) sel =
     (if projected \<le> limit then sel
      else select_lru limit (projected - mc_size_bytes (ic_entry c)) cs
        (add_reason (mc_id (ic_entry c)) ''max_total_bytes'' sel))"

definition select_prune_candidates :: "inspected_cache list \<Rightarrow> prune_plan \<Rightarrow> nat \<Rightarrow> selection" where
  "select_prune_candidates entries plan total_bytes =
     (let selected = fold (select_by_criteria plan) entries Map.empty in
      case pp_max_total_bytes plan of
        None \<Rightarrow> selected
      | Some limit \<Rightarrow>
          let projected = fold (\<lambda>c projected. if selected (mc_id (ic_entry c)) \<noteq> None \<and> prunable c
                                 then projected - mc_size_bytes (ic_entry c) else projected) entries total_bytes;
              lru = sort_by lru_cmp (filter (\<lambda>c. selected (mc_id (ic_entry c)) = None \<and> prunable c) entries) in
          select_lru limit projected lru selected)"

section \<open>Removal of artifacts\<close>

text \<open>A child of the opened directory: an error, or its name with its metadata (regular file, length) or an error.\<close>

type_synonym opened_child = "string + (string \<times> (string + (bool \<times> nat)))"

datatype removal_stat = Still_Regular | No_Longer_Regular | Already_Gone | Stat_Error string
datatype removal_result = Removed | Vanished | Remove_Error string

record removal_view =
  rv_handle :: "string + unit"  \<comment> \<open>opening the directory and checking its identity\<close>
  rv_children :: "string + opened_child list"
  rv_stat :: "string \<Rightarrow> removal_stat"
  rv_remove :: "string \<Rightarrow> removal_result"

fun btree_insert :: "string \<Rightarrow> nat \<Rightarrow> (string \<times> nat) list \<Rightarrow> (string \<times> nat) list" where
  "btree_insert k v [] = [(k, v)]"
| "btree_insert k v ((j, w) # rest) =
     (if k < j then (k, v) # (j, w) # rest
      else if k = j then (k, v) # rest
      else (j, w) # btree_insert k v rest)"

fun collect_artifacts :: "string \<Rightarrow> opened_child list \<Rightarrow> (string \<times> nat) list \<Rightarrow> string + (string \<times> nat) list" where
  "collect_artifacts path [] artifacts = Inr artifacts"
| "collect_artifacts path (Inl e # rest) artifacts = Inl e"
| "collect_artifacts path (Inr (name, metadata) # rest) artifacts =
     (if \<not> known_artifact name then Inl (''cache directory contains an unexpected entry: '' @ path @ ''/'' @ name)
      else
        (case metadata of
           Inl e \<Rightarrow> Inl e
         | Inr (regular, len) \<Rightarrow>
             if \<not> regular then Inl (''cache directory contains a non-regular artifact: '' @ path @ ''/'' @ name)
             else collect_artifacts path rest (if name \<noteq> lease_name then btree_insert name len artifacts else artifacts)))"

definition open_managed_artifacts :: "string \<Rightarrow> removal_view \<Rightarrow> string + (string \<times> nat) list" where
  "open_managed_artifacts path V =
     (case rv_handle V of
        Inl e \<Rightarrow> Inl e
      | Inr _ \<Rightarrow> (case rv_children V of Inl e \<Rightarrow> Inl e | Inr children \<Rightarrow> collect_artifacts path children []))"

record removal_outcome =
  ro_reclaimed_bytes :: nat
  ro_error :: "string option"
  ro_attempts :: "string list"  \<comment> \<open>the files \<open>remove_file\<close> was called on\<close>

fun remove_loop :: "removal_view \<Rightarrow> (string \<times> nat) list \<Rightarrow> nat \<Rightarrow> string list \<Rightarrow> removal_outcome" where
  "remove_loop V [] reclaimed attempts = \<lparr>ro_reclaimed_bytes = reclaimed, ro_error = None, ro_attempts = attempts\<rparr>"
| "remove_loop V ((name, bytes) # rest) reclaimed attempts =
     (case rv_stat V name of
        No_Longer_Regular \<Rightarrow> \<lparr>ro_reclaimed_bytes = reclaimed,
          ro_error = Some (''cache artifact is no longer a regular file: '' @ name), ro_attempts = attempts\<rparr>
      | Already_Gone \<Rightarrow> remove_loop V rest reclaimed attempts
      | Stat_Error e \<Rightarrow> \<lparr>ro_reclaimed_bytes = reclaimed, ro_error = Some e, ro_attempts = attempts\<rparr>
      | Still_Regular \<Rightarrow>
          (case rv_remove V name of
             Removed \<Rightarrow> remove_loop V rest (sat_add reclaimed bytes) (attempts @ [name])
           | Vanished \<Rightarrow> remove_loop V rest reclaimed (attempts @ [name])
           | Remove_Error e \<Rightarrow> \<lparr>ro_reclaimed_bytes = reclaimed, ro_error = Some e, ro_attempts = attempts @ [name]\<rparr>))"

definition remove_managed_artifacts :: "string \<Rightarrow> removal_view \<Rightarrow> removal_outcome" where
  "remove_managed_artifacts path V =
     (case open_managed_artifacts path V of
        Inl e \<Rightarrow> \<lparr>ro_reclaimed_bytes = 0, ro_error = Some e, ro_attempts = []\<rparr>
      | Inr artifacts \<Rightarrow> remove_loop V artifacts 0 [])"

section \<open>The prune loop\<close>

datatype prune_outcome =
    Prune_Kept | Would_Delete | Prune_Deleted
  | Skipped_Active string | Skipped_Unsafe string | Prune_Failed string

definition skipped_active :: prune_outcome where
  "skipped_active = Skipped_Active ''cache lease is held by a running process''"

definition skipped_unsafe :: "string option \<Rightarrow> prune_outcome" where
  "skipped_unsafe detail =
     Skipped_Unsafe (case detail of None \<Rightarrow> ''cache metadata is not safe to prune'' | Some d \<Rightarrow> d)"

record prune_result =
  px_id :: string
  px_path :: string
  px_outcome :: prune_outcome
  px_reasons :: "string list"
  px_size_bytes :: nat

definition mk_prune_result :: "inspected_cache \<Rightarrow> prune_outcome \<Rightarrow> string list \<Rightarrow> prune_result" where
  "mk_prune_result c outcome reasons = \<lparr>px_id = mc_id (ic_entry c), px_path = mc_path (ic_entry c),
     px_outcome = outcome, px_reasons = reasons, px_size_bytes = mc_size_bytes (ic_entry c)\<rparr>"

record prune_world =
  pw_lease :: "string \<Rightarrow> cache_error + bool"  \<comment> \<open>whether the lease was acquired\<close>
  pw_view :: "string \<Rightarrow> cache_view"
  pw_cancelled :: "string \<Rightarrow> bool"
  pw_removal :: "string \<Rightarrow> removal_view"

text \<open>No inventory program crashes (\<open>calm_inspect\<close>, \<open>calm_inspect_all\<close>), so the last case is never taken.\<close>

definition run_inventory :: "'a inventory \<Rightarrow> inventory_budget \<Rightarrow> (cache_error + 'a) \<times> inventory_budget" where
  "run_inventory m b = (case m b of (Done a, t) \<Rightarrow> (Inr a, t) | (Failed e, t) \<Rightarrow> (Inl e, t) | (Crashed, t) \<Rightarrow> (Inl Cache_Cancelled, t))"

text \<open>What the loop appends to its results and its log for one cache.\<close>

record prune_effect =
  pe_result :: prune_result
  pe_reclaimed :: nat
  pe_removed :: "string list option"  \<comment> \<open>the attempts of a removal, if one was started\<close>

definition no_removal :: "inspected_cache \<Rightarrow> prune_outcome \<Rightarrow> string list \<Rightarrow> prune_effect" where
  "no_removal c outcome reasons =
     \<lparr>pe_result = mk_prune_result c outcome reasons, pe_reclaimed = 0, pe_removed = None\<rparr>"

definition is_incompatible_reason :: "string \<Rightarrow> bool" where
  "is_incompatible_reason r \<longleftrightarrow> starts_with r incompatible_prefix"

definition drop_compatible :: "inspected_cache \<Rightarrow> string list \<Rightarrow> string list" where
  "drop_compatible current reasons =
     (if list_ex is_incompatible_reason reasons \<and> \<not> safely_incompatible (ic_compatibility current)
      then filter (\<lambda>r. \<not> is_incompatible_reason r) reasons else reasons)"

definition too_young :: "prune_plan \<Rightarrow> inspected_cache \<Rightarrow> bool" where
  "too_young plan current =
     (case (minimum_age plan, mc_age_seconds (ic_entry current)) of (Some a, Some s) \<Rightarrow> s < a | _ \<Rightarrow> False)"

definition drop_young :: "prune_plan \<Rightarrow> inspected_cache \<Rightarrow> string list \<Rightarrow> string list" where
  "drop_young plan current reasons =
     (if too_young plan current then filter (\<lambda>r. r \<noteq> ''older_than'') reasons else reasons)"

definition remove_current :: "(cache_error \<Rightarrow> string) \<Rightarrow> prune_world \<Rightarrow> inspected_cache \<Rightarrow> string list \<Rightarrow> prune_effect" where
  "remove_current show_error W current reasons =
     (if pw_cancelled W (mc_id (ic_entry current)) then no_removal current (Prune_Failed (show_error Cache_Cancelled)) reasons
      else
        (let removal = remove_managed_artifacts (mc_path (ic_entry current)) (pw_removal W (mc_id (ic_entry current))) in
         \<lparr>pe_result = mk_prune_result current
            (case ro_error removal of None \<Rightarrow> Prune_Deleted | Some e \<Rightarrow> Prune_Failed e) reasons,
          pe_reclaimed = ro_reclaimed_bytes removal, pe_removed = Some (ro_attempts removal)\<rparr>))"

definition revalidate ::
  "(cache_error \<Rightarrow> string) \<Rightarrow> prune_world \<Rightarrow> prune_plan \<Rightarrow> inspected_cache \<Rightarrow> string list \<Rightarrow> prune_effect" where
  "revalidate show_error W plan current reasons0 =
     (let reasons = drop_compatible current reasons0 in
      if reasons = [] \<and> reasons0 \<noteq> [] then
        no_removal current Prune_Kept
          [''incompatible_with_current_revalidated:'' @ compatibility_label (ic_compatibility current)]
      else if \<not> ic_safe_to_prune current then
        no_removal current (skipped_unsafe (mc_detail (ic_entry current))) reasons
      else
        (let reasons1 = drop_young plan current reasons in
         if too_young plan current \<and> reasons1 = [] then no_removal current Prune_Kept [''older_than_revalidated_young'']
         else if reasons1 = [''missing_repository''] \<and> mc_repository_available (ic_entry current) \<noteq> Some False
         then no_removal current Prune_Kept reasons1
         else remove_current show_error W current reasons1))"

definition prune_one ::
  "cache_env \<Rightarrow> prune_world \<Rightarrow> prune_plan \<Rightarrow> selection \<Rightarrow> inspected_cache \<Rightarrow> inventory_budget \<Rightarrow> prune_effect \<times> inventory_budget" where
  "prune_one E W plan selected c b =
     (let cid = mc_id (ic_entry c) in
      case selected cid of
        None \<Rightarrow> (no_removal c Prune_Kept [], b)
      | Some reasons \<Rightarrow>
          if mc_active (ic_entry c) then (no_removal c skipped_active reasons, b)
          else if \<not> ic_safe_to_prune c then (no_removal c (skipped_unsafe (mc_detail (ic_entry c))) reasons, b)
          else if pp_execution plan = Dry_Run then
            (\<lparr>pe_result = mk_prune_result c Would_Delete reasons, pe_reclaimed = mc_size_bytes (ic_entry c), pe_removed = None\<rparr>, b)
          else
            (case pw_lease W cid of
               Inl e \<Rightarrow> (no_removal c (Prune_Failed (env_show_error E e)) reasons, b)
             | Inr False \<Rightarrow> (no_removal c skipped_active (reasons @ [''prune_lease_unavailable'']), b)
             | Inr True \<Rightarrow>
                 (case run_inventory (inspect_managed_cache E (pw_view W cid) cid (ic_identity c) False) b of
                    (Inl e, b) \<Rightarrow> (no_removal c (Prune_Failed (env_show_error E e)) reasons, b)
                  | (Inr current, b) \<Rightarrow> (revalidate (env_show_error E) W plan current reasons, b))))"

fun prune_loop ::
  "cache_env \<Rightarrow> prune_world \<Rightarrow> prune_plan \<Rightarrow> selection \<Rightarrow> inspected_cache list \<Rightarrow> inventory_budget \<Rightarrow> prune_effect list" where
  "prune_loop E W plan selected [] b = []"
| "prune_loop E W plan selected (c # cs) b =
     (case prune_one E W plan selected c b of (e, b) \<Rightarrow> e # prune_loop E W plan selected cs b)"

record prune_report =
  pt_cache_root :: string
  pt_dry_run :: bool
  pt_total_bytes_before :: nat
  pt_total_bytes_after :: nat
  pt_reclaimed_bytes :: nat
  pt_results :: "prune_result list"

definition entries_bytes :: "inspected_cache list \<Rightarrow> nat" where
  "entries_bytes entries = fold (\<lambda>c total. sat_add total (mc_size_bytes (ic_entry c))) entries 0"

definition report_of :: "string \<Rightarrow> prune_plan \<Rightarrow> nat \<Rightarrow> prune_effect list \<Rightarrow> prune_report" where
  "report_of root plan before effects =
     (let reclaimed = fold (\<lambda>e total. sat_add total (pe_reclaimed e)) effects 0 in
      \<lparr>pt_cache_root = root, pt_dry_run = (pp_execution plan = Dry_Run), pt_total_bytes_before = before,
       pt_total_bytes_after = before - reclaimed, pt_reclaimed_bytes = reclaimed,
       pt_results = sort_by (key_cmp px_id) (map pe_result effects)\<rparr>)"

definition prune_entries :: "cache_env \<Rightarrow> prune_world \<Rightarrow> inventory_budget \<Rightarrow> prune_plan \<Rightarrow> inspected_cache list \<Rightarrow> prune_effect list" where
  "prune_entries E W b plan entries =
     prune_loop E W plan (select_prune_candidates entries plan (entries_bytes entries)) entries b"

text \<open>The revalidations have a budget of their own; only the position among the observations goes on.\<close>

definition prune_caches ::
  "cache_env \<Rightarrow> prune_world \<Rightarrow> inventory_limits \<Rightarrow> (string \<Rightarrow> cache_view) \<Rightarrow> root_listing \<Rightarrow> prune_request \<Rightarrow>
   cache_error + (prune_report \<times> prune_effect list)" where
  "prune_caches E W limits views listing request =
     (case prune_plan_of request of
        Inl e \<Rightarrow> Inl e
      | Inr plan \<Rightarrow>
          (case run_inventory (inspect_all E views listing) (budget_new limits) of
             (Inl e, _) \<Rightarrow> Inl e
           | (Inr (entries, _), b) \<Rightarrow>
               (let effects = prune_entries E W ((budget_new limits)\<lparr>bg_checks := bg_checks b\<rparr>) plan entries in
                Inr (report_of (env_root E) plan (entries_bytes entries) effects, effects))))"

section \<open>Only justified removals\<close>

text \<open>What still speaks for a removal after the cache was inspected again under its lease.\<close>

definition still_justified :: "prune_plan \<Rightarrow> inspected_cache \<Rightarrow> bool" where
  "still_justified plan current \<longleftrightarrow>
     pp_incompatible plan \<and> safely_incompatible (ic_compatibility current) \<or>
     pp_older_than_days plan \<noteq> None \<and> \<not> too_young plan current \<or>
     pp_remove_missing_roots plan \<and> mc_repository_available (ic_entry current) = Some False \<or>
     pp_max_total_bytes plan \<noteq> None"

text \<open>The reasons a selection can give.\<close>

definition reason_granted :: "prune_plan \<Rightarrow> string \<Rightarrow> bool" where
  "reason_granted plan r \<longleftrightarrow>
     is_incompatible_reason r \<and> pp_incompatible plan \<or> r = ''older_than'' \<and> pp_older_than_days plan \<noteq> None \<or>
     r = ''missing_repository'' \<and> pp_remove_missing_roots plan \<or> r = ''max_total_bytes'' \<and> pp_max_total_bytes plan \<noteq> None"

definition reasons_granted :: "prune_plan \<Rightarrow> selection \<Rightarrow> bool" where
  "reasons_granted plan sel \<longleftrightarrow>
     (\<forall>cid rs. sel cid = Some rs \<longrightarrow> rs \<noteq> [] \<and> distinct rs \<and> (\<forall>r \<in> set rs. reason_granted plan r))"

section \<open>The selection in closed form\<close>

abbreviation cid_of :: "inspected_cache \<Rightarrow> string" where "cid_of c \<equiv> mc_id (ic_entry c)"
abbreviation bytes_of :: "inspected_cache \<Rightarrow> nat" where "bytes_of c \<equiv> mc_size_bytes (ic_entry c)"

definition criteria_reasons :: "prune_plan \<Rightarrow> inspected_cache \<Rightarrow> string list" where
  "criteria_reasons plan c =
     (if pp_incompatible plan \<and> safely_incompatible (ic_compatibility c)
      then [incompatible_prefix @ compatibility_label (ic_compatibility c)] else []) @
     (if old_enough (minimum_age plan) (mc_age_seconds (ic_entry c)) then [''older_than''] else []) @
     (if pp_remove_missing_roots plan \<and> mc_repository_available (ic_entry c) = Some False then [''missing_repository''] else [])"

definition nonempty :: "'a list \<Rightarrow> 'a list option" where
  "nonempty rs = (if rs = [] then None else Some rs)"

lemma select_by_criteria_at:
  "sel (cid_of c) = None \<Longrightarrow> select_by_criteria plan c sel = sel(cid_of c := nonempty (criteria_reasons plan c))"
  by (auto simp: select_by_criteria_def criteria_reasons_def add_reason_def nonempty_def Let_def fun_eq_iff)

lemma fold_select:
  assumes "distinct (map cid_of entries)" "\<forall>c \<in> set entries. sel (cid_of c) = None"
  shows "(\<forall>c \<in> set entries. fold (select_by_criteria plan) entries sel (cid_of c) = nonempty (criteria_reasons plan c)) \<and>
    (\<forall>cid. cid \<notin> cid_of ` set entries \<longrightarrow> fold (select_by_criteria plan) entries sel cid = sel cid)"
  using assms
proof (induction entries arbitrary: sel)
  case (Cons c entries)
  define s1 where "s1 = select_by_criteria plan c sel"
  have s1: "s1 (cid_of c) = nonempty (criteria_reasons plan c)" "\<And>cid. cid \<noteq> cid_of c \<Longrightarrow> s1 cid = sel cid"
    using Cons.prems by (simp_all add: s1_def select_by_criteria_at)
  have "\<forall>d \<in> set entries. s1 (cid_of d) = None" using Cons.prems s1(2) by (auto simp: image_iff)
  then show ?case using Cons.IH [of s1] Cons.prems s1 by (auto simp: s1_def [symmetric])
qed simp

lemma select_lru_prefix:
  "\<exists>k \<le> length cs. select_lru limit p cs sel = fold (\<lambda>c. add_reason (cid_of c) ''max_total_bytes'') (take k cs) sel \<and>
     (k = length cs \<or> p - sum_list (map bytes_of (take k cs)) \<le> limit) \<and>
     (\<forall>j < k. limit < p - sum_list (map bytes_of (take j cs)))"
proof (induction limit p cs sel rule: select_lru.induct)
  case (2 limit p c cs sel)
  show ?case
  proof (cases "p \<le> limit")
    case True
    then show ?thesis by (intro exI [of _ 0]) simp
  next
    case False
    from 2 [OF False] obtain k where k: "k \<le> length cs"
      "select_lru limit (p - bytes_of c) cs (add_reason (cid_of c) ''max_total_bytes'' sel) =
        fold (\<lambda>c. add_reason (cid_of c) ''max_total_bytes'') (take k cs) (add_reason (cid_of c) ''max_total_bytes'' sel)"
      "k = length cs \<or> p - bytes_of c - sum_list (map bytes_of (take k cs)) \<le> limit"
      "\<forall>j < k. limit < p - bytes_of c - sum_list (map bytes_of (take j cs))" by blast
    have "limit < p - sum_list (map bytes_of (take j (c # cs)))" if "j < Suc k" for j
      using k(4) that False by (cases j) auto
    then show ?thesis using k False by (intro exI [of _ "Suc k"]) auto
  qed
qed simp

lemma fold_add_max:
  assumes "distinct (map cid_of cs)" "\<forall>c \<in> set cs. sel (cid_of c) = None"
  shows "fold (\<lambda>c. add_reason (cid_of c) r) cs sel cid = (if cid \<in> cid_of ` set cs then Some [r] else sel cid)"
  using assms
proof (induction cs arbitrary: sel)
  case (Cons c cs)
  define s1 where "s1 = add_reason (cid_of c) r sel"
  have s1: "s1 (cid_of c) = Some [r]" "\<And>cid. cid \<noteq> cid_of c \<Longrightarrow> s1 cid = sel cid"
    using Cons.prems by (simp_all add: s1_def add_reason_def)
  have "\<forall>d \<in> set cs. s1 (cid_of d) = None" using Cons.prems s1(2) by (auto simp: image_iff)
  then show ?case using Cons.IH [of s1] Cons.prems s1 by (auto simp: s1_def [symmetric] image_iff)
qed simp

definition lru_pool :: "prune_plan \<Rightarrow> inspected_cache list \<Rightarrow> inspected_cache list" where
  "lru_pool plan entries = sort_by lru_cmp (filter (\<lambda>c. criteria_reasons plan c = [] \<and> prunable c) entries)"

lemma fold_projected:
  "fold (\<lambda>c p. if P c then p - bytes_of c else p) entries tot = tot - sum_list (map bytes_of (filter P entries))"
  by (induction entries arbitrary: tot) auto

lemma selection_closed_form:
  assumes d: "distinct (map cid_of entries)"
  shows "\<exists>k \<le> length (lru_pool plan entries).
    (\<forall>c \<in> set entries. select_prune_candidates entries plan tot (cid_of c) =
      (if criteria_reasons plan c \<noteq> [] then Some (criteria_reasons plan c)
       else if c \<in> set (take k (lru_pool plan entries)) then Some [''max_total_bytes''] else None)) \<and>
    (case pp_max_total_bytes plan of None \<Rightarrow> k = 0 | Some limit \<Rightarrow>
      (let left = (\<lambda>j. tot - sum_list (map bytes_of (filter (\<lambda>c. criteria_reasons plan c \<noteq> [] \<and> prunable c) entries)) -
                     sum_list (map bytes_of (take j (lru_pool plan entries)))) in
       (k = length (lru_pool plan entries) \<or> left k \<le> limit) \<and> (\<forall>j < k. limit < left j)))"
proof -
  define sel where "sel = fold (select_by_criteria plan) entries Map.empty"
  have sel: "sel (cid_of c) = nonempty (criteria_reasons plan c)" if "c \<in> set entries" for c
    using fold_select [OF d, of Map.empty plan] that by (simp add: sel_def)
  have pool: "lru_pool plan entries = sort_by lru_cmp (filter (\<lambda>c. sel (cid_of c) = None \<and> prunable c) entries)"
    unfolding lru_pool_def by (intro arg_cong [where f = "sort_by lru_cmp"] filter_cong) (auto simp: sel nonempty_def)
  have proj: "fold (\<lambda>c p. if sel (cid_of c) \<noteq> None \<and> prunable c then p - bytes_of c else p) entries tot =
      tot - sum_list (map bytes_of (filter (\<lambda>c. criteria_reasons plan c \<noteq> [] \<and> prunable c) entries))"
    unfolding fold_projected by (intro arg_cong2 [where f = "(-)"] arg_cong [where f = sum_list] arg_cong [where f = "map bytes_of"] filter_cong)
      (auto simp: sel nonempty_def)
  show ?thesis
  proof (cases "pp_max_total_bytes plan")
    case None
    then show ?thesis using sel by (intro exI [of _ 0]) (auto simp: select_prune_candidates_def sel_def [symmetric] nonempty_def Let_def)
  next
    case (Some limit)
    define p where "p = tot - sum_list (map bytes_of (filter (\<lambda>c. criteria_reasons plan c \<noteq> [] \<and> prunable c) entries))"
    obtain k where k: "k \<le> length (lru_pool plan entries)"
      "select_lru limit p (lru_pool plan entries) sel =
         fold (\<lambda>c. add_reason (cid_of c) ''max_total_bytes'') (take k (lru_pool plan entries)) sel"
      "k = length (lru_pool plan entries) \<or> p - sum_list (map bytes_of (take k (lru_pool plan entries))) \<le> limit"
      "\<forall>j < k. limit < p - sum_list (map bytes_of (take j (lru_pool plan entries)))"
      using select_lru_prefix [of "lru_pool plan entries" limit p sel] by blast
    have run: "select_prune_candidates entries plan tot = select_lru limit p (lru_pool plan entries) sel"
      unfolding select_prune_candidates_def Let_def Some option.case sel_def [symmetric] proj pool p_def by (rule refl)
    have in_pool: "c \<in> set entries \<and> criteria_reasons plan c = [] \<and> prunable c" if "c \<in> set (take k (lru_pool plan entries))" for c
      using set_take_subset [of k "lru_pool plan entries"] that by (auto simp: lru_pool_def)
    have "distinct (map cid_of (lru_pool plan entries))"
    proof -
      have "mset (map cid_of (lru_pool plan entries)) = mset (map cid_of (filter (\<lambda>c. criteria_reasons plan c = [] \<and> prunable c) entries))"
        by (simp add: lru_pool_def)
      then show ?thesis using d distinct_map_filter mset_eq_imp_distinct_iff by blast
    qed
    then have dt: "distinct (map cid_of (take k (lru_pool plan entries)))" by (simp add: take_map [symmetric])
    have "\<forall>c \<in> set (take k (lru_pool plan entries)). sel (cid_of c) = None"
      using in_pool sel by (auto simp: nonempty_def)
    note at = fold_add_max [OF dt this, of "''max_total_bytes''"]
    have same: "c = e" if "c \<in> set entries" "e \<in> set entries" "cid_of c = cid_of e" for c e
      using d that by (auto simp: distinct_map inj_on_def)
    have "select_prune_candidates entries plan tot (cid_of c) =
      (if criteria_reasons plan c \<noteq> [] then Some (criteria_reasons plan c)
       else if c \<in> set (take k (lru_pool plan entries)) then Some [''max_total_bytes''] else None)" if "c \<in> set entries" for c
      using in_pool same [OF that] sel [OF that] unfolding run k(2) at by (auto simp: nonempty_def image_iff)
    then show ?thesis using k Some by (intro exI [of _ k]) (simp add: p_def Let_def)
  qed
qed

section \<open>Least recently used first\<close>

definition last_access :: "inspected_cache \<Rightarrow> nat" where
  "last_access c = (case mc_last_access (ic_entry c) of None \<Rightarrow> 0 | Some t \<Rightarrow> t)"

definition used_before :: "inspected_cache \<Rightarrow> inspected_cache \<Rightarrow> bool" where
  "used_before c d \<longleftrightarrow> last_access c < last_access d \<or> last_access c = last_access d \<and> cid_of c < cid_of d"

lemma used_before_iff: "lru_cmp c d = Less \<longleftrightarrow> used_before c d"
  by (auto simp: lru_cmp_def lex_cmp_def key_cmp_def ord_cmp_def used_before_def last_access_def split: if_splits)

lemma lru_equal: "lru_cmp c d = Equal \<Longrightarrow> cid_of c = cid_of d"
  by (auto simp: lru_cmp_def lex_cmp_def key_cmp_def ord_cmp_def split: if_splits)

lemma comparator_lru: "comparator_laws lru_cmp"
  unfolding lru_cmp_def by (intro comparator_lex_cmp comparator_key_cmp)

lemma distinct_pool: "distinct (map cid_of entries) \<Longrightarrow> distinct (map cid_of (lru_pool plan entries))"
proof -
  assume d: "distinct (map cid_of entries)"
  have "mset (map cid_of (lru_pool plan entries)) = mset (map cid_of (filter (\<lambda>c. criteria_reasons plan c = [] \<and> prunable c) entries))"
    by (simp add: lru_pool_def)
  then show ?thesis using d distinct_map_filter mset_eq_imp_distinct_iff by blast
qed

lemma pool_sorted: "distinct (map cid_of entries) \<Longrightarrow> sorted_wrt used_before (lru_pool plan entries)"
proof -
  assume "distinct (map cid_of entries)"
  then have d: "distinct (map cid_of (lru_pool plan entries))" by (rule distinct_pool)
  have s: "sorted_wrt (\<lambda>a b. lru_cmp a b \<noteq> Greater) (lru_pool plan entries)"
    unfolding lru_pool_def by (rule comparator_laws.sorted_sort_by [OF comparator_lru])
  have strict: "sorted_wrt used_before xs"
    if "sorted_wrt (\<lambda>a b. lru_cmp a b \<noteq> Greater) xs" "distinct (map cid_of xs)" for xs
    using that
  proof (induction xs)
    case (Cons x xs)
    then have "used_before x y" if "y \<in> set xs" for y
      using that lru_equal [of x y] by (cases "lru_cmp x y") (auto simp: used_before_iff [symmetric])
    then show ?case using Cons by simp
  qed simp
  show ?thesis by (rule strict [OF s d])
qed

lemma used_before_irrefl: "\<not> used_before c c"
  by (simp add: used_before_def)

lemma used_before_asym: "used_before c d \<Longrightarrow> \<not> used_before d c"
  by (auto simp: used_before_def)

lemma sorted_prefix:
  assumes "sorted_wrt used_before xs" "j < length xs"
  shows "set (take j xs) = {x \<in> set xs. used_before x (xs ! j)}"
proof -
  have "x = xs ! i \<Longrightarrow> i < length xs \<Longrightarrow> used_before x (xs ! j) \<longleftrightarrow> i < j" for x i
    using assms used_before_irrefl used_before_asym
    by (cases i j rule: linorder_cases) (auto simp: sorted_wrt_iff_nth_less)
  note at = this
  show ?thesis
  proof (intro equalityI subsetI)
    fix x assume "x \<in> set (take j xs)"
    then obtain i where "i < j" "x = xs ! i" using assms(2) by (auto simp: in_set_conv_nth)
    then show "x \<in> {x \<in> set xs. used_before x (xs ! j)}" using at [of x i] assms(2) by auto
  next
    fix x assume "x \<in> {x \<in> set xs. used_before x (xs ! j)}"
    then obtain i where "i < length xs" "x = xs ! i" "used_before x (xs ! j)" by (auto simp: in_set_conv_nth)
    then show "x \<in> set (take j xs)" using at [of x i] assms(2) by (auto simp: in_set_conv_nth intro!: exI [of _ i])
  qed
qed

lemma sum_distinct: "distinct (map cid_of xs) \<Longrightarrow> sum_list (map bytes_of xs) = (\<Sum>c \<in> set xs. bytes_of c)"
  by (simp add: sum_list_distinct_conv_sum_set distinct_map)

lemma lru_eviction:
  assumes d: "distinct (map cid_of entries)" and limit: "pp_max_total_bytes plan = Some limit"
    and sel: "sel = select_prune_candidates entries plan tot"
    and chosen: "\<And>c. chosen c \<longleftrightarrow> c \<in> set entries \<and> sel (cid_of c) = Some [''max_total_bytes'']"
    and given: "\<And>c. given c \<longleftrightarrow> c \<in> set entries \<and> prunable c \<and> criteria_reasons plan c \<noteq> []"
  shows "(\<forall>c. chosen c \<longrightarrow> prunable c \<and> criteria_reasons plan c = []) \<and>
    (\<forall>c e. chosen c \<and> e \<in> set entries \<and> prunable e \<and> sel (cid_of e) = None \<longrightarrow> used_before c e) \<and>
    (tot - (\<Sum>c | c \<in> set entries \<and> prunable c \<and> sel (cid_of c) \<noteq> None. bytes_of c) \<le> limit \<or>
      (\<forall>c \<in> set entries. prunable c \<longrightarrow> sel (cid_of c) \<noteq> None)) \<and>
    (\<forall>c. chosen c \<longrightarrow> limit < tot - (\<Sum>e | given e \<or> chosen e \<and> used_before e c. bytes_of e))"
proof -
  define pool where "pool = lru_pool plan entries"
  define base where "base = sum_list (map bytes_of (filter (\<lambda>c. criteria_reasons plan c \<noteq> [] \<and> prunable c) entries))"
  obtain k where k: "k \<le> length pool" and s: "\<And>c. c \<in> set entries \<Longrightarrow> sel (cid_of c) =
      (if criteria_reasons plan c \<noteq> [] then Some (criteria_reasons plan c)
       else if c \<in> set (take k pool) then Some [''max_total_bytes''] else None)"
    and stop: "k = length pool \<or> tot - base - sum_list (map bytes_of (take k pool)) \<le> limit"
    and go: "\<And>j. j < k \<Longrightarrow> limit < tot - base - sum_list (map bytes_of (take j pool))"
    using selection_closed_form [OF d, of plan tot] limit unfolding sel pool_def base_def by (auto simp: Let_def)
  have pool: "set pool = {c \<in> set entries. criteria_reasons plan c = [] \<and> prunable c}"
    by (auto simp: pool_def lru_pool_def)
  have dp: "distinct (map cid_of pool)" and sorted: "sorted_wrt used_before pool"
    unfolding pool_def using distinct_pool pool_sorted d by blast+
  have dt: "distinct (map cid_of (take j pool))" for j using dp by (simp add: take_map [symmetric])
  have sub: "set (take j pool) \<subseteq> set pool" for j by (rule set_take_subset)
  have not_max: "criteria_reasons plan c \<noteq> [''max_total_bytes'']" for c
    by (auto simp: criteria_reasons_def incompatible_prefix_def)
  have ch: "chosen c \<longleftrightarrow> c \<in> set (take k pool)" for c
    using s [of c] not_max [of c] pool sub [of k] by (auto simp: chosen split: if_splits)
  have base: "base = (\<Sum>c | given c. bytes_of c)"
  proof -
    have "distinct (map cid_of (filter (\<lambda>c. criteria_reasons plan c \<noteq> [] \<and> prunable c) entries))"
      using d by (simp add: distinct_map_filter)
    then show ?thesis unfolding base_def by (subst sum_distinct) (auto intro!: sum.cong simp: given)
  qed
  have fin: "finite {c. given c}" by (rule finite_subset [of _ "set entries"]) (auto simp: given)
  have parts: "base + sum_list (map bytes_of (take j pool)) = (\<Sum>c | given c \<or> c \<in> set (take j pool). bytes_of c)" for j
  proof -
    have "{c. given c} \<inter> set (take j pool) = {}" using pool sub [of j] by (auto simp: given)
    then have "(\<Sum>c \<in> {c. given c} \<union> set (take j pool). bytes_of c) = base + sum_list (map bytes_of (take j pool))"
      using fin by (simp add: sum.union_disjoint base sum_distinct [OF dt])
    moreover have "{c. given c} \<union> set (take j pool) = {c. given c \<or> c \<in> set (take j pool)}" by auto
    ultimately show ?thesis by simp
  qed
  have selected: "{c. c \<in> set entries \<and> prunable c \<and> sel (cid_of c) \<noteq> None} = {c. given c \<or> c \<in> set (take k pool)}"
    using s pool sub [of k] by (auto simp: given split: if_splits)
  have 1: "\<forall>c. chosen c \<longrightarrow> prunable c \<and> criteria_reasons plan c = []" using ch pool sub [of k] by auto
  have 2: "used_before c e" if c: "chosen c" and e: "e \<in> set entries" "prunable e" "sel (cid_of e) = None" for c e
  proof -
    have "e \<in> set pool" "e \<notin> set (take k pool)" using s [OF e(1)] e pool by (auto split: if_splits)
    then have "e \<in> set (drop k pool)" by (metis UnE append_take_drop_id set_append)
    moreover have "sorted_wrt used_before (take k pool @ drop k pool)" using sorted by simp
    ultimately show ?thesis using c ch by (auto simp only: sorted_wrt_append)
  qed
  have 3: "tot - (\<Sum>c | c \<in> set entries \<and> prunable c \<and> sel (cid_of c) \<noteq> None. bytes_of c) \<le> limit \<or>
      (\<forall>c \<in> set entries. prunable c \<longrightarrow> sel (cid_of c) \<noteq> None)"
    using stop
  proof
    assume "k = length pool"
    then show ?thesis using s pool by auto
  next
    assume "tot - base - sum_list (map bytes_of (take k pool)) \<le> limit"
    then show ?thesis unfolding selected parts [symmetric] by simp
  qed
  have 4: "limit < tot - (\<Sum>e | given e \<or> chosen e \<and> used_before e c. bytes_of e)" if c: "chosen c" for c
  proof -
    obtain j where j: "j < k" "c = pool ! j" using c ch k by (auto simp: in_set_conv_nth)
    have "set (take j pool) \<subseteq> set (take k pool)" using j by (simp add: set_take_subset_set_take)
    then have "{e. given e \<or> chosen e \<and> used_before e c} = {e. given e \<or> e \<in> set (take j pool)}"
      using sorted_prefix [OF sorted, of j] j k ch sub [of k] by auto
    then show ?thesis using go [OF j(1)] parts [of j] by simp
  qed
  show ?thesis using 1 2 3 4 by blast
qed

definition size_victims :: "prune_plan \<Rightarrow> inspected_cache list \<Rightarrow> nat \<Rightarrow> inspected_cache set" where
  "size_victims plan entries tot =
     {c \<in> set entries. select_prune_candidates entries plan tot (cid_of c) = Some [''max_total_bytes'']}"

definition other_victims :: "prune_plan \<Rightarrow> inspected_cache list \<Rightarrow> inspected_cache set" where
  "other_victims plan entries = {c \<in> set entries. prunable c \<and> criteria_reasons plan c \<noteq> []}"

text \<open>C21: The byte limit evicts the least recently used caches and no more.  With a limit on the managed bytes, every
  cache selected for its size alone is safe to prune, inactive and matches no other criterion; a safe
  inactive cache that stays was used after every cache selected for its size (by last access, then by
  identifier); after the selection the projected bytes are within the limit or every safe inactive
  cache is selected; and before each cache selected for its size the projected bytes were still above
  the limit.\<close>

theorem lru_eviction_exact:
  assumes "distinct (map cid_of entries)" "pp_max_total_bytes plan = Some limit"
  shows "let sel = select_prune_candidates entries plan tot; victims = size_victims plan entries tot in
    (\<forall>c \<in> victims. prunable c \<and> criteria_reasons plan c = []) \<and>
    (\<forall>c \<in> victims. \<forall>e \<in> set entries. prunable e \<and> sel (cid_of e) = None \<longrightarrow> used_before c e) \<and>
    (tot - (\<Sum>c | c \<in> set entries \<and> prunable c \<and> sel (cid_of c) \<noteq> None. bytes_of c) \<le> limit \<or>
      (\<forall>c \<in> set entries. prunable c \<longrightarrow> sel (cid_of c) \<noteq> None)) \<and>
    (\<forall>c \<in> victims. limit < tot - (\<Sum>e | e \<in> other_victims plan entries \<or> e \<in> victims \<and> used_before e c. bytes_of e))"
  using lru_eviction [OF assms refl, of "\<lambda>c. c \<in> size_victims plan entries tot" tot "\<lambda>c. c \<in> other_victims plan entries"]
  unfolding Let_def by (simp add: size_victims_def other_victims_def)

definition sample_entry :: "string \<Rightarrow> nat \<Rightarrow> nat \<Rightarrow> inspected_cache" where
  "sample_entry cid accessed bytes = \<lparr>ic_identity = Cache_Unversioned,
     ic_entry = \<lparr>mc_id = cid, mc_path = cid, mc_content_version = None, mc_index_scope = Mode_Full, mc_scope_digest = None,
       mc_repository_root = None, mc_repository_available = None, mc_last_access = Some accessed,
       mc_access_source = Some Access_File_Mtime, mc_age_seconds = Some (100 - accessed), mc_schema_version = None,
       mc_size_bytes = bytes, mc_active = False, mc_state = Incomplete, mc_detail = None\<rparr>,
     ic_compatibility = Unversioned, ic_safe_to_prune = True\<rparr>"

definition sample_plan :: prune_plan where
  "sample_plan = \<lparr>pp_older_than_days = None, pp_max_total_bytes = Some 10, pp_remove_missing_roots = False,
     pp_incompatible = False, pp_execution = Dry_Run\<rparr>"

theorem lru_eviction_exact_witness:
  "let entries = [sample_entry ''a'' 30 6, sample_entry ''b'' 10 5, sample_entry ''c'' 20 4]; victims = size_victims sample_plan entries 15 in
   sample_entry ''b'' 10 5 \<in> victims \<and> (\<forall>c \<in> victims. 10 < 15 - (\<Sum>e | e \<in> victims \<and> used_before e c. bytes_of e))"
proof -
  define entries where "entries = [sample_entry ''a'' 30 6, sample_entry ''b'' 10 5, sample_entry ''c'' 20 4]"
  have d: "distinct (map cid_of entries)" "pp_max_total_bytes sample_plan = Some 10"
    by (simp_all add: entries_def sample_entry_def sample_plan_def)
  have none: "other_victims sample_plan entries = {}"
    by (auto simp: other_victims_def criteria_reasons_def sample_plan_def minimum_age_def old_enough_def)
  have "sample_entry ''b'' 10 5 \<in> size_victims sample_plan entries 15"
    by (simp add: size_victims_def entries_def select_prune_candidates_def sample_plan_def sample_entry_def select_by_criteria_def
        minimum_age_def old_enough_def prunable_def lru_cmp_def lex_cmp_def key_cmp_def ord_cmp_def add_reason_def)
  then show ?thesis using lru_eviction_exact [OF d, of 15] none unfolding Let_def entries_def [symmetric] by simp
qed

section \<open>One cache\<close>

lemma remove_loop_attempts: "set (ro_attempts (remove_loop V xs n attempts)) \<subseteq> set attempts \<union> fst ` set xs"
proof (induction V xs n attempts rule: remove_loop.induct)
  case (2 V name bytes rest reclaimed attempts)
  then show ?case by (auto split: removal_stat.split removal_result.split)
qed simp

lemma set_btree_insert: "fst ` set (btree_insert k v xs) = insert k (fst ` set xs)"
  by (induction k v xs rule: btree_insert.induct) auto

definition managed :: "(string \<times> nat) list \<Rightarrow> bool" where
  "managed xs \<longleftrightarrow> fst ` set xs \<subseteq> {n. known_artifact n \<and> n \<noteq> lease_name}"

lemma managed_insert: "managed xs \<Longrightarrow> known_artifact n \<Longrightarrow> n \<noteq> lease_name \<Longrightarrow> managed (btree_insert n v xs)"
  unfolding managed_def set_btree_insert by simp

lemma collect_artifacts_managed:
  "collect_artifacts path children acc = Inr artifacts \<Longrightarrow> managed acc \<Longrightarrow> managed artifacts"
proof (induction path children acc rule: collect_artifacts.induct)
  case (3 path name metadata rest acc)
  then obtain len where known: "known_artifact name" and md: "metadata = Inr (True, len)"
    by (cases metadata) (auto split: if_splits)
  have "managed (if name \<noteq> lease_name then btree_insert name len acc else acc)"
    using "3.prems"(2) known managed_insert by simp
  then show ?case using "3.IH" known md "3.prems"(1) by auto
qed simp_all

lemma removal_attempts_known:
  "n \<in> set (ro_attempts (remove_managed_artifacts path V)) \<Longrightarrow> known_artifact n \<and> n \<noteq> lease_name"
proof -
  assume n: "n \<in> set (ro_attempts (remove_managed_artifacts path V))"
  then obtain artifacts where ok: "open_managed_artifacts path V = Inr artifacts"
    and "n \<in> set (ro_attempts (remove_loop V artifacts 0 []))"
    by (cases "open_managed_artifacts path V") (simp_all add: remove_managed_artifacts_def)
  then have "n \<in> fst ` set artifacts" using remove_loop_attempts [of V artifacts 0 "[]"] by auto
  moreover have "managed artifacts" using ok collect_artifacts_managed [of path _ "[]" artifacts]
    by (simp add: open_managed_artifacts_def managed_def split: sum.splits)
  ultimately show ?thesis unfolding managed_def by blast
qed

lemma drop_compatible_subset: "set (drop_compatible current rs) \<subseteq> set rs" "distinct rs \<Longrightarrow> distinct (drop_compatible current rs)"
  by (auto simp: drop_compatible_def)

lemma drop_young_subset: "set (drop_young plan current rs) \<subseteq> set rs" "distinct rs \<Longrightarrow> distinct (drop_young plan current rs)"
  by (auto simp: drop_young_def)

lemma revalidate_removes:
  assumes rs: "rs \<noteq> []" "distinct rs" "\<forall>r \<in> set rs. reason_granted plan r"
    and run: "pe_removed (revalidate show_error W plan current rs) = Some attempts"
  shows "ic_safe_to_prune current \<and> \<not> pw_cancelled W (cid_of current) \<and> still_justified plan current \<and>
    attempts = ro_attempts (remove_managed_artifacts (mc_path (ic_entry current)) (pw_removal W (cid_of current)))"
proof -
  define r1 where "r1 = drop_compatible current rs"
  define r2 where "r2 = drop_young plan current r1"
  have r1: "r1 \<noteq> []" using run rs(1) by (auto simp: revalidate_def r1_def no_removal_def Let_def split: if_splits)
  have safe: "ic_safe_to_prune current" and r2: "\<not> (too_young plan current \<and> r2 = [])"
    and miss: "\<not> (r2 = [''missing_repository''] \<and> mc_repository_available (ic_entry current) \<noteq> Some False)"
    and rem: "pe_removed (remove_current show_error W current r2) = Some attempts"
    using run r1 rs(1) by (auto simp: revalidate_def r1_def [symmetric] r2_def [symmetric] no_removal_def Let_def split: if_splits)
  have "r2 \<noteq> []" using r1 r2 by (auto simp: r2_def drop_young_def)
  have d: "distinct r2" using rs(2) drop_young_subset drop_compatible_subset by (auto simp: r2_def r1_def)
  have sub: "set r2 \<subseteq> set rs" using drop_young_subset drop_compatible_subset by (fastforce simp: r2_def r1_def)
  have "\<exists>r \<in> set r2. r \<noteq> ''missing_repository'' \<or> mc_repository_available (ic_entry current) = Some False"
  proof (rule ccontr)
    assume "\<not> ?thesis"
    then have all: "\<forall>r \<in> set r2. r = ''missing_repository''" and av: "mc_repository_available (ic_entry current) \<noteq> Some False"
      using \<open>r2 \<noteq> []\<close> by (auto simp: neq_Nil_conv)
    have "r2 = [''missing_repository'']" using all d \<open>r2 \<noteq> []\<close>
      by (cases r2 rule: remdups_adj.cases) auto
    then show False using miss av by simp
  qed
  then obtain r where r: "r \<in> set r2" "r \<noteq> ''missing_repository'' \<or> mc_repository_available (ic_entry current) = Some False" by blast
  have young: "r = ''older_than'' \<Longrightarrow> \<not> too_young plan current" using r(1) by (auto simp: r2_def drop_young_def)
  have incompatible: "is_incompatible_reason r \<Longrightarrow> safely_incompatible (ic_compatibility current)"
    using r(1) drop_young_subset(1) [of plan current r1] by (auto simp: r2_def r1_def drop_compatible_def list_ex_iff split: if_splits)
  have "reason_granted plan r" using r(1) sub rs(3) by blast
  then have "still_justified plan current" using r young incompatible
    by (auto simp: reason_granted_def still_justified_def)
  then show ?thesis using safe rem by (auto simp: remove_current_def no_removal_def Let_def split: if_splits)
qed

lemma prune_one_removes:
  assumes "pe_removed (fst (prune_one E W plan sel c b)) = Some attempts"
  shows "\<exists>rs current t. sel (cid_of c) = Some rs \<and> prunable c \<and> pp_execution plan = Apply \<and> pw_lease W (cid_of c) = Inr True \<and>
    inspect_managed_cache E (pw_view W (cid_of c)) (cid_of c) (ic_identity c) False b = (Done current, t) \<and>
    fst (prune_one E W plan sel c b) = revalidate (env_show_error E) W plan current rs"
proof -
  obtain rs where rs: "sel (cid_of c) = Some rs" using assms by (cases "sel (cid_of c)") (simp_all add: prune_one_def no_removal_def)
  have c: "prunable c" "pp_execution plan = Apply"
    using assms rs by (auto simp: prune_one_def no_removal_def prunable_def Let_def split: if_splits) (metis mutation_mode.exhaust)
  have lease: "pw_lease W (cid_of c) = Inr True"
    using assms rs c by (cases "pw_lease W (cid_of c)") (auto simp: prune_one_def no_removal_def prunable_def Let_def split: if_splits bool.splits)
  obtain q t where q: "inspect_managed_cache E (pw_view W (cid_of c)) (cid_of c) (ic_identity c) False b = (q, t)"
    by (cases "inspect_managed_cache E (pw_view W (cid_of c)) (cid_of c) (ic_identity c) False b")
  have eq: "fst (prune_one E W plan sel c b) = (case q of Done current \<Rightarrow> revalidate (env_show_error E) W plan current rs
      | Failed e \<Rightarrow> no_removal c (Prune_Failed (env_show_error E e)) rs
      | Crashed \<Rightarrow> no_removal c (Prune_Failed (env_show_error E Cache_Cancelled)) rs)"
    using rs c lease by (simp add: prune_one_def run_inventory_def prunable_def q split: ending.split)
  show ?thesis using assms rs c lease q eq by (cases q) (auto simp: no_removal_def)
qed

lemma prune_loop_effects: "list_all2 (\<lambda>c e. \<exists>b. e = fst (prune_one E W plan sel c b)) entries (prune_loop E W plan sel entries b)"
proof (induction entries arbitrary: b)
  case (Cons c cs)
  then show ?case by (cases "prune_one E W plan sel c b") (auto intro!: exI [of _ b])
qed simp

lemma incompatible_reason:
  "is_incompatible_reason (incompatible_prefix @ l)"
  "incompatible_prefix @ l \<noteq> ''older_than''" "incompatible_prefix @ l \<noteq> ''missing_repository''"
  "''older_than'' \<noteq> incompatible_prefix @ l" "''missing_repository'' \<noteq> incompatible_prefix @ l"
  by (simp_all add: is_incompatible_reason_def incompatible_prefix_def starts_with_def)

lemma selection_granted:
  assumes "distinct (map cid_of entries)" "c \<in> set entries" "select_prune_candidates entries plan tot (cid_of c) = Some rs"
  shows "rs \<noteq> [] \<and> distinct rs \<and> (\<forall>r \<in> set rs. reason_granted plan r)"
proof -
  have "\<exists>k. (\<forall>c \<in> set entries. select_prune_candidates entries plan tot (cid_of c) =
      (if criteria_reasons plan c \<noteq> [] then Some (criteria_reasons plan c)
       else if c \<in> set (take k (lru_pool plan entries)) then Some [''max_total_bytes''] else None)) \<and>
      (pp_max_total_bytes plan = None \<longrightarrow> k = 0)"
    using selection_closed_form [OF assms(1), of plan tot]
    by (elim exE conjE) (intro exI conjI, assumption, simp split: option.splits)
  then obtain k where at: "\<forall>c \<in> set entries. select_prune_candidates entries plan tot (cid_of c) =
      (if criteria_reasons plan c \<noteq> [] then Some (criteria_reasons plan c)
       else if c \<in> set (take k (lru_pool plan entries)) then Some [''max_total_bytes''] else None)"
    and none: "pp_max_total_bytes plan = None \<longrightarrow> k = 0" by (elim exE conjE)
  have here: "Some rs = (if criteria_reasons plan c \<noteq> [] then Some (criteria_reasons plan c)
      else if c \<in> set (take k (lru_pool plan entries)) then Some [''max_total_bytes''] else None)"
    using bspec [OF at assms(2)] unfolding assms(3) .
  then have "rs = criteria_reasons plan c \<and> rs \<noteq> [] \<or> rs = [''max_total_bytes''] \<and> pp_max_total_bytes plan \<noteq> None"
  proof (cases "criteria_reasons plan c = []")
    case True
    then have "c \<in> set (take k (lru_pool plan entries))" "rs = [''max_total_bytes'']" using here by (auto split: if_splits)
    then show ?thesis using none by (cases "pp_max_total_bytes plan") auto
  qed simp
  then show ?thesis
  proof
    assume "rs = criteria_reasons plan c \<and> rs \<noteq> []"
    then show ?thesis
      by (auto simp: criteria_reasons_def reason_granted_def incompatible_reason minimum_age_def old_enough_def
          split: option.splits if_splits)
  qed (auto simp: reason_granted_def)
qed

section \<open>The whole command\<close>

lemma prune_caches_done:
  assumes "prune_caches E W limits views listing request = Inr (report, effects)"
    and "case listing of Root_Children children \<Rightarrow> distinct (List.map_filter child_name children) | _ \<Rightarrow> True"
  shows "\<exists>plan entries ignored b0 b. prune_plan_of request = Inr plan \<and> distinct (map cid_of entries) \<and>
    inspect_all E views listing (budget_new limits) = (Done (entries, ignored), b0) \<and>
    effects = prune_entries E W b plan entries \<and> report = report_of (env_root E) plan (entries_bytes entries) effects"
proof -
  obtain plan where plan: "prune_plan_of request = Inr plan"
    using assms(1) by (cases "prune_plan_of request") (auto simp: prune_caches_def)
  obtain q b where run: "inspect_all E views listing (budget_new limits) = (q, b)"
    by (cases "inspect_all E views listing (budget_new limits)")
  then obtain entries ignored where q: "q = Done (entries, ignored)"
    using assms(1) plan by (cases q) (auto simp: prune_caches_def run_inventory_def)
  have "sorted_wrt (\<lambda>a b. cid_of a < cid_of b) entries"
    using inventory_sorted [OF run [unfolded q] assms(2)] .
  then have "distinct (map cid_of entries)" by (induction entries) auto
  then show ?thesis using assms(1) plan run q by (auto simp: prune_caches_def run_inventory_def Let_def)
qed

lemma filter_key_unique: "distinct (map k xs) \<Longrightarrow> x \<in> set xs \<Longrightarrow> filter (\<lambda>y. k y = k x) xs = [x]"
  by (induction xs) (auto simp: filter_empty_conv image_iff)

lemma prune_plan_mode: "prune_plan_of request = Inr plan \<Longrightarrow> pp_execution plan = Apply \<Longrightarrow> pr_yes request \<and> \<not> pr_dry_run request"
  by (auto simp: prune_plan_of_def mutation_mode_parse_def split: if_splits sum.splits)

text \<open>C20: Nothing is deleted without a reason that still holds.  Whenever a prune run calls \<open>remove_file\<close> for a
  cache, the user confirmed the run and did not ask for a dry run; the one entry of the inventory of this run with that
  identifier was inactive and safe to prune and was selected by a criterion; its prune lease was acquired, the run
  was not cancelled, and the second inspection, made under the lease, again found it safe to prune; one of the requested criteria still
  holds for what that inspection saw (incompatible content, not known to be younger than the minimum
  age, a missing repository) or a byte limit was given; and only files with the names of managed
  artifacts are removed, never the lease lock.  (The children of the cache root have distinct names.)\<close>

theorem prune_removes_only_justified:
  assumes "prune_caches E W limits views listing request = Inr (report, effects)"
    and "case listing of Root_Children children \<Rightarrow> distinct (List.map_filter child_name children) | _ \<Rightarrow> True"
    and "e \<in> set effects" "pe_removed e = Some attempts"
  shows "pr_yes request \<and> \<not> pr_dry_run request \<and>
    (\<exists>plan entries ignored b0 c b current t. prune_plan_of request = Inr plan \<and>
       inspect_all E views listing (budget_new limits) = (Done (entries, ignored), b0) \<and>
       filter (\<lambda>c. cid_of c = px_id (pe_result e)) entries = [c] \<and>
       \<not> mc_active (ic_entry c) \<and> ic_safe_to_prune c \<and>
       select_prune_candidates entries plan (entries_bytes entries) (cid_of c) \<noteq> None \<and>
       pw_lease W (cid_of c) = Inr True \<and> \<not> pw_cancelled W (cid_of c) \<and>
       inspect_managed_cache E (pw_view W (cid_of c)) (cid_of c) (ic_identity c) False b = (Done current, t) \<and>
       ic_safe_to_prune current \<and> still_justified plan current) \<and>
    (\<forall>n \<in> set attempts. known_artifact n \<and> n \<noteq> lease_name)"
proof -
  obtain plan entries ignored b0 b where plan: "prune_plan_of request = Inr plan" and d: "distinct (map cid_of entries)"
    and found: "inspect_all E views listing (budget_new limits) = (Done (entries, ignored), b0)"
    and eff: "effects = prune_entries E W b plan entries"
    using prune_caches_done [OF assms(1,2)] by blast
  define sel where "sel = select_prune_candidates entries plan (entries_bytes entries)"
  have "list_all2 (\<lambda>c e. \<exists>b. e = fst (prune_one E W plan sel c b)) entries effects"
    unfolding eff prune_entries_def sel_def by (rule prune_loop_effects)
  then obtain c b' where c: "c \<in> set entries" and e: "e = fst (prune_one E W plan sel c b')"
    using assms(3) unfolding list_all2_conv_all_nth in_set_conv_nth by metis
  obtain rs current t where one: "sel (cid_of c) = Some rs" "prunable c" "pp_execution plan = Apply" "pw_lease W (cid_of c) = Inr True"
      "inspect_managed_cache E (pw_view W (cid_of c)) (cid_of c) (ic_identity c) False b' = (Done current, t)"
      "e = revalidate (env_show_error E) W plan current rs"
    using prune_one_removes [of E W plan sel c b' attempts] assms(4) e by auto
  have cid: "cid_of current = cid_of c" by (rule yieldsD [OF inspect_managed_cache_id one(5)])
  have granted: "rs \<noteq> []" "distinct rs" "\<forall>r \<in> set rs. reason_granted plan r"
    using selection_granted [OF d c, of plan "entries_bytes entries" rs] one(1) by (simp_all add: sel_def)
  have rev: "ic_safe_to_prune current" "\<not> pw_cancelled W (cid_of current)" "still_justified plan current"
      "attempts = ro_attempts (remove_managed_artifacts (mc_path (ic_entry current)) (pw_removal W (cid_of current)))"
    using revalidate_removes [OF granted, of "env_show_error E" W current attempts] assms(4) one(6) by auto
  have "px_id (pe_result e) = cid_of current"
    unfolding one(6) revalidate_def remove_current_def no_removal_def mk_prune_result_def Let_def by simp
  then have "px_id (pe_result e) = cid_of c" using cid by simp
  then have "filter (\<lambda>c. cid_of c = px_id (pe_result e)) entries = [c]" using filter_key_unique [OF d c] by simp
  then show ?thesis using prune_plan_mode [OF plan one(3)] plan found one rev cid removal_attempts_known
    unfolding prunable_def sel_def by (intro conjI exI) auto
qed


definition sample_world :: prune_world where
  "sample_world = \<lparr>pw_lease = (\<lambda>_. Inr True), pw_view = (\<lambda>_. sample_cache_view\<lparr>cv_database_regular := False\<rparr>),
     pw_cancelled = (\<lambda>_. False),
     pw_removal = (\<lambda>_. \<lparr>rv_handle = Inr (), rv_children = Inr [Inr (database_name, Inr (True, 5)), Inr (lease_name, Inr (True, 0))],
       rv_stat = (\<lambda>_. Still_Regular), rv_remove = (\<lambda>_. Removed)\<rparr>)\<rparr>"

definition sample_request :: prune_request where
  "sample_request = \<lparr>pr_older_than_days = None, pr_max_total_bytes = None, pr_remove_missing_roots = False,
     pr_dry_run = False, pr_yes = True, pr_incompatible = True\<rparr>"

definition sample_views :: "string \<Rightarrow> cache_view" where
  "sample_views _ = sample_cache_view\<lparr>cv_database_regular := False\<rparr>"

definition sample_found :: inspected_cache where
  "sample_found = (let scan = \<lparr>sc_size_bytes = 5, sc_latest_access_mtime = Some 40, sc_has_artifacts = True, sc_unexpected = False\<rparr> in
     finish_inspection Cache_Unversioned scan False
       (initial_entry sample_cache_env ''0123456789abcdef'' Cache_Unversioned scan False, True))"

lemma sample_inspection:
  "lim_artifacts (bg_limits b) = 32768 \<Longrightarrow> bg_artifacts b < 1000 \<Longrightarrow>
   inspect_managed_cache sample_cache_env (sample_cache_view\<lparr>cv_database_regular := False\<rparr>) ''0123456789abcdef'' Cache_Unversioned probe b =
     (Done sample_found, b\<lparr>bg_checks := bg_checks b + 8, bg_artifacts := bg_artifacts b + 2\<rparr>)"
  by (simp add: sample_check io_eval inspect_managed_cache_def sample_cache_env_def sample_cache_view_def sample_scan
      probe_active_def initial_entry_def Let_def check_content_version_def sample_found_def)

lemma sample_found_facts: "bytes_of sample_found = 5" "mc_state (ic_entry sample_found) = Incomplete" "cid_of sample_found = ''0123456789abcdef''"
  "ic_compatibility sample_found = Unversioned" "prunable sample_found" "ic_safe_to_prune sample_found" "\<not> mc_active (ic_entry sample_found)"
  "ic_identity sample_found = Cache_Unversioned" "mc_path (ic_entry sample_found) = ''/c/0123456789abcdef''"
  "mc_repository_available (ic_entry sample_found) = None"
  by (simp_all add: sample_found_def finish_inspection_def initial_entry_def sample_cache_env_def classify_def prunable_def)

lemma sample_all: "\<exists>t. inspect_all sample_cache_env sample_views (Root_Children sample_children) (budget_new default_inventory_limits) =
    (Done ([sample_found], 1), t)"
  by (simp add: inspect_all_def sample_children_def sample_ids io_eval enforce_counter_def budget_enforce_def budget_new_def
      default_inventory_limits_def sample_views_def sample_inspection sample_found_facts budget_check_def)
    (simp add: sample_cache_env_def quiet_def)

lemma lease_known: "known_artifact lease_name"
  by (simp add: known_artifact_def lease_name_def coordination_lock_suffixes_def)

lemma sample_prune:
  "\<exists>report e. prune_caches sample_cache_env sample_world default_inventory_limits sample_views (Root_Children sample_children) sample_request =
     Inr (report, [e]) \<and> pe_removed e = Some [database_name] \<and> pt_reclaimed_bytes report = 5"
proof -
  obtain t where t: "inspect_all sample_cache_env sample_views (Root_Children sample_children) (budget_new default_inventory_limits) =
      (Done ([sample_found], 1), t)" using sample_all by blast
  have fresh: "bg_artifacts (budget_new l) = 0" "bg_limits (budget_new l) = l" "lim_artifacts default_inventory_limits = 32768" for l
    by (simp_all add: budget_new_def default_inventory_limits_def)
  show ?thesis
    by (simp add: prune_caches_def sample_request_def prune_plan_of_def mutation_mode_parse_def run_inventory_def t prune_entries_def
        prune_one_def select_prune_candidates_def select_by_criteria_def sample_found_facts safely_incompatible_def add_reason_def
        minimum_age_def old_enough_def sample_world_def sample_inspection fresh
        revalidate_def drop_compatible_def drop_young_def too_young_def remove_current_def remove_managed_artifacts_def
        open_managed_artifacts_def sample_known lease_known report_of_def sat_add_def usize_max_def Let_def)
qed

theorem prune_removes_only_justified_witness:
  "\<exists>report e plan. prune_caches sample_cache_env sample_world default_inventory_limits sample_views (Root_Children sample_children)
     sample_request = Inr (report, [e]) \<and> pe_removed e = Some [database_name] \<and> known_artifact database_name \<and>
     prune_plan_of sample_request = Inr plan \<and> still_justified plan sample_found"
proof -
  obtain report e where run: "prune_caches sample_cache_env sample_world default_inventory_limits sample_views
      (Root_Children sample_children) sample_request = Inr (report, [e])" "pe_removed e = Some [database_name]"
    using sample_prune by blast
  have "distinct (List.map_filter child_name sample_children)"
    by (simp add: sample_children_def List.map_filter_simps)
  then have "\<forall>n \<in> set [database_name]. known_artifact n \<and> n \<noteq> lease_name"
    using prune_removes_only_justified [OF run(1) _ _ run(2)] by simp
  then show ?thesis using run
    by (auto simp: prune_plan_of_def sample_request_def mutation_mode_parse_def still_justified_def sample_found_facts safely_incompatible_def)
qed

section \<open>Dry runs\<close>

definition dry_effect :: "selection \<Rightarrow> inspected_cache \<Rightarrow> prune_effect" where
  "dry_effect sel c =
     (case sel (cid_of c) of
        None \<Rightarrow> no_removal c Prune_Kept []
      | Some rs \<Rightarrow>
          if mc_active (ic_entry c) then no_removal c skipped_active rs
          else if \<not> ic_safe_to_prune c then no_removal c (skipped_unsafe (mc_detail (ic_entry c))) rs
          else \<lparr>pe_result = mk_prune_result c Would_Delete rs, pe_reclaimed = bytes_of c, pe_removed = None\<rparr>)"

lemma prune_loop_dry: "pp_execution plan = Dry_Run \<Longrightarrow> prune_loop E W plan sel entries b = map (dry_effect sel) entries"
proof (induction entries)
  case (Cons c cs)
  have "prune_one E W plan sel c b = (dry_effect sel c, b)"
    using Cons.prems by (simp add: prune_one_def dry_effect_def Let_def split: option.split)
  then show ?case using Cons by simp
qed simp

lemma dry_effect_facts:
  "px_id (pe_result (dry_effect sel c)) = cid_of c" "pe_removed (dry_effect sel c) = None"
  "px_outcome (pe_result (dry_effect sel c)) = Would_Delete \<longleftrightarrow> prunable c \<and> sel (cid_of c) \<noteq> None"
  "pe_reclaimed (dry_effect sel c) = (if prunable c \<and> sel (cid_of c) \<noteq> None then bytes_of c else 0)"
  by (auto simp: dry_effect_def no_removal_def mk_prune_result_def prunable_def skipped_active_def skipped_unsafe_def split: option.split)

lemma fold_sat_add: "n + sum_list (map f xs) \<le> usize_max \<Longrightarrow> fold (\<lambda>x tot. sat_add tot (f x)) xs n = n + sum_list (map f xs)"
  by (induction xs arbitrary: n) (auto simp: sat_add_exact)

lemma sum_list_if: "sum_list (map (\<lambda>c. if P c then f c else 0 :: nat) xs) = sum_list (map f (filter P xs))"
  by (induction xs) auto

text \<open>A dry run tells what a run would do and does nothing.  It starts no removal; it reports \<open>would delete\<close> for
  exactly the selected caches that are inactive and safe to prune, with exactly one result for each
  cache; the reclaimed bytes are theirs, and before is after plus reclaimed (as long as the sizes sum
  up within 64 bits); and under a byte limit the bytes after are within it unless every safe inactive
  cache would be deleted.\<close>

theorem dry_run_predicts:
  assumes d: "distinct (map cid_of entries)" and dry: "pp_execution plan = Dry_Run"
    and small: "sum_list (map bytes_of entries) \<le> usize_max"
  shows "let effects = prune_entries E W b plan entries; report = report_of root plan (entries_bytes entries) effects;
             sel = select_prune_candidates entries plan (entries_bytes entries) in
    (\<forall>e \<in> set effects. pe_removed e = None) \<and>
    mset (map px_id (pt_results report)) = mset (map cid_of entries) \<and>
    (\<forall>c \<in> set entries. (\<exists>x \<in> set (pt_results report). px_id x = cid_of c \<and> px_outcome x = Would_Delete) \<longleftrightarrow>
       prunable c \<and> sel (cid_of c) \<noteq> None) \<and>
    pt_total_bytes_before report = pt_total_bytes_after report + pt_reclaimed_bytes report \<and>
    pt_reclaimed_bytes report = (\<Sum>c | c \<in> set entries \<and> prunable c \<and> sel (cid_of c) \<noteq> None. bytes_of c) \<and>
    (case pp_max_total_bytes plan of None \<Rightarrow> True
     | Some limit \<Rightarrow> pt_total_bytes_after report \<le> limit \<or> (\<forall>c \<in> set entries. prunable c \<longrightarrow> sel (cid_of c) \<noteq> None))"
proof -
  define sel where "sel = select_prune_candidates entries plan (entries_bytes entries)"
  define wd where "wd c \<longleftrightarrow> prunable c \<and> sel (cid_of c) \<noteq> None" for c
  define report where "report = report_of root plan (entries_bytes entries) (map (dry_effect sel) entries)"
  have eff: "prune_entries E W b plan entries = map (dry_effect sel) entries"
    by (simp add: prune_entries_def prune_loop_dry [OF dry] sel_def)
  have tot: "entries_bytes entries = sum_list (map bytes_of entries)"
    using fold_sat_add [of 0 bytes_of entries] small by (simp add: entries_bytes_def)
  have le: "sum_list (map (\<lambda>c. if wd c then bytes_of c else 0) entries) \<le> sum_list (map bytes_of entries)"
    by (rule sum_list_mono) simp
  have "pt_reclaimed_bytes report = fold (\<lambda>c tot. sat_add tot (if wd c then bytes_of c else 0)) entries 0"
    by (simp add: report_def report_of_def Let_def fold_map comp_def dry_effect_facts wd_def)
  also have "\<dots> = sum_list (map (\<lambda>c. if wd c then bytes_of c else 0) entries)"
    using fold_sat_add [of 0 "\<lambda>c. if wd c then bytes_of c else 0" entries] le small by simp
  finally have rec: "pt_reclaimed_bytes report = sum_list (map (\<lambda>c. if wd c then bytes_of c else 0) entries)" .
  also have "\<dots> = (\<Sum>c \<in> set (filter wd entries). bytes_of c)"
    unfolding sum_list_if using d by (intro sum_distinct) (simp add: distinct_map_filter)
  also have "set (filter wd entries) = {c. c \<in> set entries \<and> prunable c \<and> sel (cid_of c) \<noteq> None}"
    by (auto simp: wd_def)
  finally have sum: "pt_reclaimed_bytes report = (\<Sum>c | c \<in> set entries \<and> prunable c \<and> sel (cid_of c) \<noteq> None. bytes_of c)" .
  have after: "pt_total_bytes_after report = entries_bytes entries - pt_reclaimed_bytes report"
    "pt_total_bytes_before report = entries_bytes entries"
    by (simp_all add: report_def report_of_def Let_def)
  have results: "set (pt_results report) = pe_result ` dry_effect sel ` set entries"
    by (simp add: report_def report_of_def Let_def image_image)
  have same: "c = e" if "c \<in> set entries" "e \<in> set entries" "cid_of c = cid_of e" for c e
    using d that by (auto simp: distinct_map inj_on_def)
  have would: "(\<exists>x \<in> set (pt_results report). px_id x = cid_of c \<and> px_outcome x = Would_Delete) \<longleftrightarrow> prunable c \<and> sel (cid_of c) \<noteq> None"
    if c: "c \<in> set entries" for c
  proof
    assume "\<exists>x \<in> set (pt_results report). px_id x = cid_of c \<and> px_outcome x = Would_Delete"
    then obtain e where "e \<in> set entries" "cid_of e = cid_of c" "prunable e \<and> sel (cid_of e) \<noteq> None"
      unfolding results by (auto simp: dry_effect_facts)
    then show "prunable c \<and> sel (cid_of c) \<noteq> None" using same c by metis
  next
    assume "prunable c \<and> sel (cid_of c) \<noteq> None"
    then show "\<exists>x \<in> set (pt_results report). px_id x = cid_of c \<and> px_outcome x = Would_Delete"
      unfolding results using c dry_effect_facts by blast
  qed
  have one: "mset (map px_id (pt_results report)) = mset (map cid_of entries)"
    by (simp add: report_def report_of_def Let_def image_mset.compositionality comp_def dry_effect_facts)
  have lim: "case pp_max_total_bytes plan of None \<Rightarrow> True
     | Some limit \<Rightarrow> pt_total_bytes_after report \<le> limit \<or> (\<forall>c \<in> set entries. prunable c \<longrightarrow> sel (cid_of c) \<noteq> None)"
  proof (cases "pp_max_total_bytes plan")
    case (Some limit)
    then show ?thesis using lru_eviction [OF d Some sel_def refl refl] unfolding after sum by simp
  qed simp
  show ?thesis unfolding Let_def eff report_def [symmetric] sel_def [symmetric]
    using would one lim sum after le rec tot by (auto simp: dry_effect_facts)
qed

theorem dry_run_predicts_witness:
  "let entries = [sample_entry ''a'' 30 6, sample_entry ''b'' 10 5, sample_entry ''c'' 20 4];
       report = report_of ''/c'' sample_plan (entries_bytes entries) (prune_entries sample_cache_env sample_world
         (budget_new default_inventory_limits) sample_plan entries) in
   pt_total_bytes_before report = 15 \<and> pt_total_bytes_after report + pt_reclaimed_bytes report = 15"
proof -
  define entries where "entries = [sample_entry ''a'' 30 6, sample_entry ''b'' 10 5, sample_entry ''c'' 20 4]"
  have d: "distinct (map cid_of entries)" "pp_execution sample_plan = Dry_Run" "sum_list (map bytes_of entries) \<le> usize_max"
    by (simp_all add: entries_def sample_entry_def sample_plan_def usize_max_def)
  have "entries_bytes entries = 15"
    by (simp add: entries_bytes_def entries_def sample_entry_def sat_add_def usize_max_def)
  then have "pt_total_bytes_before (report_of ''/c'' sample_plan (entries_bytes entries) (prune_entries sample_cache_env sample_world
      (budget_new default_inventory_limits) sample_plan entries)) = 15"
    by (simp add: report_of_def Let_def)
  then show ?thesis using dry_run_predicts [OF d, of sample_cache_env sample_world "budget_new default_inventory_limits" "''/c''"]
    unfolding Let_def entries_def [symmetric] by simp
qed

end
