(* ===== verification/Cache_List.thy ===== *)
theory Cache_List
  imports Cache_Inspect Cursor
begin

text \<open>
  Listing managed caches (\<open>src/cache/list.rs\<close>, \<open>src/cache/cursor.rs\<close>): the filters, the aggregate
  counts, the pages and the cursors between them.  Canonical paths come from the operating system.
\<close>

section \<open>Requests\<close>

record list_request =
  lq_summary :: bool
  lq_states :: "cache_state list"
  lq_repository_root :: "string option"
  lq_limit :: nat
  lq_cursor :: "string option"
  lq_compatibilities :: "cache_compatibility list"
  lq_content_versions :: "nat list"
  lq_incompatible :: bool

datatype list_mode = Mode_Summary | Mode_Page nat "string option"

definition max_cache_list_limit :: nat where "max_cache_list_limit = 100"
definition max_cache_compatibility_filters :: nat where "max_cache_compatibility_filters = 5"
definition max_cache_content_version_filters :: nat where "max_cache_content_version_filters = 32"
definition max_cache_list_cursor_bytes :: nat where "max_cache_list_cursor_bytes = 128"
definition cache_list_cursor_hash_chars :: nat where "cache_list_cursor_hash_chars = 16"
definition legacy_cursor_prefix :: string where "legacy_cursor_prefix = ''cl2''"

definition parse_list_mode :: "list_request \<Rightarrow> cache_error + list_mode" where
  "parse_list_mode r =
     (if lq_limit r = 0 then Inl (Cache_Invalid_Input ''cache list limit'' ''must be greater than zero'')
      else if max_cache_list_limit < lq_limit r
      then Inl (Cache_Limit_Exceeded ''cache list limit'' (lq_limit r) max_cache_list_limit)
      else if lq_summary r \<and> lq_cursor r \<noteq> None
      then Inl (Cache_Invalid_Input ''cache list cursor'' ''cannot be combined with summary mode'')
      else if lq_summary r then Inr Mode_Summary
      else Inr (Mode_Page (lq_limit r) (lq_cursor r)))"

section \<open>Filter hashes and cursors\<close>

record list_lib =
  ll_cursor :: cursor_lib
  ll_canonical :: "string \<Rightarrow> string"

definition filter_hash_input :: "string \<Rightarrow> list_request \<Rightarrow> string option \<Rightarrow> string" where
  "filter_hash_input namespace r root =
     namespace @
     (if lq_states r = [] then ''all-states''
      else concat (map (\<lambda>s. if s \<in> set (lq_states r) then state_label s @ [CHR 0x00] else []) all_states)) @
     [CHR 0xFF] @ (case root of None \<Rightarrow> [] | Some p \<Rightarrow> p) @
     CHR 0xFF # ''compatibility'' @ [CHR 0x00] @
     (if lq_compatibilities r = [] then ''all''
      else concat (map (\<lambda>c. if c \<in> set (lq_compatibilities r) then compatibility_label c @ [CHR 0x00] else []) all_compatibilities)) @
     CHR 0xFF # ''content-versions'' @ [CHR 0x00] @
     (let versions = remdups_adj (sort (lq_content_versions r)) in
      if versions = [] then ''all'' else concat (map (le_encode 4) versions)) @
     CHR 0xFF # ''incompatible'' @ [CHR 0x00] @ [if lq_incompatible r then CHR 0x01 else CHR 0x00]"

definition filter_hash_in_namespace :: "cache_env \<Rightarrow> string \<Rightarrow> list_request \<Rightarrow> string option \<Rightarrow> string" where
  "filter_hash_in_namespace E namespace r root =
     take cache_list_cursor_hash_chars (env_blake3 E (filter_hash_input namespace r root))"

definition cache_list_filter_hash :: "cache_env \<Rightarrow> list_request \<Rightarrow> string option \<Rightarrow> string" where
  "cache_list_filter_hash E = filter_hash_in_namespace E (''cache-list-v3'' @ [CHR 0x00])"

definition previous_filter_hash :: "cache_env \<Rightarrow> list_request \<Rightarrow> string option \<Rightarrow> string" where
  "previous_filter_hash E = filter_hash_in_namespace E (''cache-list-v2'' @ [CHR 0x00])"

definition unversioned_filter_hash :: "cache_env \<Rightarrow> list_request \<Rightarrow> string option \<Rightarrow> string" where
  "unversioned_filter_hash E = filter_hash_in_namespace E []"

definition cache_list_stream_id :: "list_lib \<Rightarrow> string \<Rightarrow> string \<Rightarrow> string" where
  "cache_list_stream_id L cache_root filter_hash =
     stream_finish (ll_cursor L) Kind_Cache_List
       [Field_Bytes ''cache_root'' (ll_canonical L cache_root), Field_Bytes ''filter_hash'' filter_hash]"

fun cache_error_of :: "cursor_error \<Rightarrow> cache_error" where
  "cache_error_of Stale_Cursor = Cache_Stale_Cursor"
| "cache_error_of (Operation_Failure e) = Cache_Operation_Failure e"

definition encode_cache_list_cursor :: "list_lib \<Rightarrow> string \<Rightarrow> string \<Rightarrow> cache_error + string" where
  "encode_cache_list_cursor L stream_id after =
     (if \<not> is_cache_id after then Inl (Cache_Operation_Failure ''invalid cache list continuation state'')
      else
        (case envelope_new Kind_Cache_List 0 stream_id after of
           Inl e \<Rightarrow> Inl (cache_error_of e)
         | Inr c \<Rightarrow> Inr (envelope_encode (ll_cursor L) c)))"

definition invalid_cache_cursor :: cache_error where
  "invalid_cache_cursor = Cache_Invalid_Input ''cache list cursor'' ''must be an opaque cursor returned by cache list''"

definition filter_mismatch :: cache_error where
  "filter_mismatch = Cache_Invalid_Input ''cache list cursor'' ''does not match the active cache filters''"

text \<open>\<open>cursor.splitn(3, ':')\<close>: at most three pieces, the last one unsplit.\<close>

definition splitn3 :: "char \<Rightarrow> string \<Rightarrow> string \<times> string option \<times> string option" where
  "splitn3 c s =
     (case split_once c s of
        None \<Rightarrow> (s, None, None)
      | Some (a, rest) \<Rightarrow>
          (case split_once c rest of None \<Rightarrow> (a, Some rest, None) | Some (b, d) \<Rightarrow> (a, Some b, Some d)))"

definition is_hex_digit :: "char \<Rightarrow> bool" where
  "is_hex_digit c \<longleftrightarrow> is_ascii_digit c \<or> in_range c 97 102 \<or> in_range c 65 70"

definition decode_legacy_cursor :: "string \<Rightarrow> string \<Rightarrow> cache_error + string" where
  "decode_legacy_cursor cursor expected =
     (case splitn3 (CHR '':'') cursor of
        (tag, hash, after) \<Rightarrow>
          if tag \<noteq> legacy_cursor_prefix \<or>
             (case hash of None \<Rightarrow> True
              | Some h \<Rightarrow> length h \<noteq> cache_list_cursor_hash_chars \<or> \<not> list_all is_hex_digit h)
          then Inl invalid_cache_cursor
          else if hash \<noteq> Some expected then Inl filter_mismatch
          else (case after of None \<Rightarrow> Inl invalid_cache_cursor
                | Some a \<Rightarrow> if is_cache_id a then Inr a else Inl invalid_cache_cursor))"

definition decode_cache_list_cursor ::
  "cache_env \<Rightarrow> list_lib \<Rightarrow> string \<Rightarrow> string \<Rightarrow> list_request \<Rightarrow> string option \<Rightarrow> cache_error + string" where
  "decode_cache_list_cursor E L cursor stream_id r root =
     (if max_cache_list_cursor_bytes < length cursor
      then Inl (Cache_Input_Too_Long ''cache list cursor'' max_cache_list_cursor_bytes)
      else if starts_with cursor legacy_cursor_prefix then
        (case decode_legacy_cursor cursor (previous_filter_hash E r root) of
           Inr a \<Rightarrow> Inr a
         | Inl e \<Rightarrow>
             (case decode_legacy_cursor cursor (unversioned_filter_hash E r root) of Inr a \<Rightarrow> Inr a | Inl _ \<Rightarrow> Inl e))
      else
        (case envelope_parse (ll_cursor L) cursor max_cache_list_cursor_bytes of
           Inl _ \<Rightarrow> Inl invalid_cache_cursor
         | Inr envelope \<Rightarrow>
             (case payload_for envelope Kind_Cache_List 0 stream_id of
                Inl _ \<Rightarrow> Inl filter_mismatch
              | Inr payload \<Rightarrow>
                  if utf8_valid payload \<and> is_cache_id payload then Inr payload else Inl invalid_cache_cursor)))"

section \<open>The report\<close>

definition matches_filters :: "list_request \<Rightarrow> string option \<Rightarrow> inspected_cache \<Rightarrow> bool" where
  "matches_filters r root c \<longleftrightarrow>
     (lq_states r = [] \<or> mc_state (ic_entry c) \<in> set (lq_states r)) \<and>
     (case root of None \<Rightarrow> True | Some p \<Rightarrow> mc_repository_root (ic_entry c) = Some p) \<and>
     (lq_compatibilities r = [] \<or> ic_compatibility c \<in> set (lq_compatibilities r)) \<and>
     (lq_content_versions r = [] \<or>
       (case mc_content_version (ic_entry c) of None \<Rightarrow> False | Some v \<Rightarrow> v \<in> set (lq_content_versions r))) \<and>
     (lq_incompatible r \<longrightarrow> safely_incompatible (ic_compatibility c))"

record compatibility_summary =
  cs_entries :: nat
  cs_bytes :: nat

record list_counts =
  lc_states :: "string \<Rightarrow> nat option"
  lc_compatibilities :: "string \<Rightarrow> compatibility_summary option"
  lc_reclaimable_entries :: nat
  lc_reclaimable_bytes :: nat

definition initial_counts :: list_counts where
  "initial_counts = \<lparr>lc_states = map_of (map (\<lambda>s. (state_label s, 0)) all_states),
     lc_compatibilities = map_of (map (\<lambda>c. (compatibility_label c, \<lparr>cs_entries = 0, cs_bytes = 0\<rparr>)) all_compatibilities),
     lc_reclaimable_entries = 0, lc_reclaimable_bytes = 0\<rparr>"

text \<open>Both lookups panic when a label has no bucket.\<close>

definition count_cache :: "inspected_cache \<Rightarrow> list_counts \<Rightarrow> list_counts option" where
  "count_cache c k =
     (let s = state_label (mc_state (ic_entry c)); p = compatibility_label (ic_compatibility c);
          bytes = mc_size_bytes (ic_entry c) in
      case (lc_states k s, lc_compatibilities k p) of
        (Some n, Some summary) \<Rightarrow>
          let k = k\<lparr>lc_states := (lc_states k)(s \<mapsto> n + 1),
                    lc_compatibilities := (lc_compatibilities k)(p \<mapsto> \<lparr>cs_entries = sat_add (cs_entries summary) 1,
                      cs_bytes = sat_add (cs_bytes summary) bytes\<rparr>)\<rparr> in
          Some (if safely_incompatible (ic_compatibility c) \<and> ic_safe_to_prune c \<and> \<not> mc_active (ic_entry c)
                then k\<lparr>lc_reclaimable_entries := sat_add (lc_reclaimable_entries k) 1,
                       lc_reclaimable_bytes := sat_add (lc_reclaimable_bytes k) bytes\<rparr>
                else k)
      | _ \<Rightarrow> None)"

fun count_caches :: "inspected_cache list \<Rightarrow> list_counts \<Rightarrow> list_counts option" where
  "count_caches [] k = Some k"
| "count_caches (c # cs) k = (case count_cache c k of None \<Rightarrow> None | Some k \<Rightarrow> count_caches cs k)"

record list_report =
  lt_cache_root :: string
  lt_total_entries :: nat
  lt_matched_entries :: nat
  lt_total_bytes :: nat
  lt_matched_bytes :: nat
  lt_active_entries :: nat
  lt_missing_root_entries :: nat
  lt_counts :: list_counts
  lt_ignored_entries :: nat
  lt_page :: "(string option \<times> (managed_cache \<times> cache_compatibility) list) option"  \<comment> \<open>absent in a summary\<close>

definition listed_bytes :: "inspected_cache list \<Rightarrow> nat" where
  "listed_bytes entries = fold (\<lambda>c sum. sat_add sum (mc_size_bytes (ic_entry c))) entries 0"

text \<open>\<open>partition_point\<close>; the inventory is sorted by identifier, so the test holds on a prefix.\<close>

definition page_start :: "string option \<Rightarrow> inspected_cache list \<Rightarrow> nat" where
  "page_start after matching =
     (case after of None \<Rightarrow> 0 | Some a \<Rightarrow> length (takeWhile (\<lambda>c. mc_id (ic_entry c) \<le> a) matching))"

definition list_contents ::
  "list_lib \<Rightarrow> string \<Rightarrow> list_mode \<Rightarrow> string option \<Rightarrow> inspected_cache list \<Rightarrow>
   cache_error + (string option \<times> (managed_cache \<times> cache_compatibility) list) option" where
  "list_contents L stream_id mode after matching =
     (case mode of
        Mode_Summary \<Rightarrow> Inr None
      | Mode_Page limit _ \<Rightarrow>
          (let start = page_start after matching;
               stop = min (sat_add start limit) (length matching);
               page = map (\<lambda>c. (ic_entry c, ic_compatibility c)) (take (stop - start) (drop start matching)) in
           if stop < length matching \<and> page \<noteq> [] then
             (case encode_cache_list_cursor L stream_id (mc_id (fst (last page))) of
                Inl e \<Rightarrow> Inl e
              | Inr cursor \<Rightarrow> Inr (Some (Some cursor, page)))
           else Inr (Some (None, page))))"

definition validate_list_filters :: "list_request \<Rightarrow> cache_error + unit" where
  "validate_list_filters r =
     (if max_cache_compatibility_filters < length (lq_compatibilities r)
      then Inl (Cache_Limit_Exceeded ''cache compatibility filters'' (length (lq_compatibilities r)) max_cache_compatibility_filters)
      else if max_cache_content_version_filters < length (lq_content_versions r)
      then Inl (Cache_Limit_Exceeded ''cache content-version filters'' (length (lq_content_versions r)) max_cache_content_version_filters)
      else if 0 \<in> set (lq_content_versions r)
      then Inl (Cache_Invalid_Input ''cache content-version filter'' ''must be positive'')
      else Inr ())"

text \<open>The outer option is a panic of the count loop.\<close>

definition report_entries ::
  "list_lib \<Rightarrow> string \<Rightarrow> string \<Rightarrow> list_mode \<Rightarrow> string option \<Rightarrow> list_request \<Rightarrow> string option \<Rightarrow>
   inspected_cache list \<Rightarrow> nat \<Rightarrow> (cache_error + list_report) option" where
  "report_entries L cache_root stream_id mode after r root entries ignored =
     (let matching = filter (matches_filters r root) entries in
      case count_caches matching initial_counts of
        None \<Rightarrow> None
      | Some counts \<Rightarrow>
          Some (case list_contents L stream_id mode after matching of
                  Inl e \<Rightarrow> Inl e
                | Inr contents \<Rightarrow> Inr
                    \<lparr>lt_cache_root = cache_root, lt_total_entries = length entries, lt_matched_entries = length matching,
                     lt_total_bytes = listed_bytes entries, lt_matched_bytes = listed_bytes matching,
                     lt_active_entries = length (filter (\<lambda>c. mc_active (ic_entry c)) matching),
                     lt_missing_root_entries = length (filter (\<lambda>c. mc_repository_available (ic_entry c) = Some False) matching),
                     lt_counts = counts, lt_ignored_entries = ignored, lt_page = contents\<rparr>))"

definition list_caches ::
  "cache_env \<Rightarrow> list_lib \<Rightarrow> inventory_limits \<Rightarrow> (string \<Rightarrow> cache_view) \<Rightarrow> root_listing \<Rightarrow> list_request \<Rightarrow>
   (cache_error + list_report) option" where
  "list_caches E L limits views listing r =
     (case parse_list_mode r of
        Inl e \<Rightarrow> Some (Inl e)
      | Inr mode \<Rightarrow>
          (case validate_list_filters r of
             Inl e \<Rightarrow> Some (Inl e)
           | Inr _ \<Rightarrow>
               (let root = map_option (ll_canonical L) (lq_repository_root r);
                    stream_id = cache_list_stream_id L (env_root E) (cache_list_filter_hash E r root);
                    cursor = (case mode of Mode_Summary \<Rightarrow> None | Mode_Page _ c \<Rightarrow> c) in
                case (case cursor of None \<Rightarrow> Inr None
                      | Some c \<Rightarrow> map_sum (\<lambda>e. e) Some (decode_cache_list_cursor E L c stream_id r root)) of
                  Inl e \<Rightarrow> Some (Inl e)
                | Inr after \<Rightarrow>
                    (case inspect_all E views listing (budget_new limits) of
                       (Failed e, _) \<Rightarrow> Some (Inl e)
                     | (Crashed, _) \<Rightarrow> None
                     | (Done (entries, ignored), _) \<Rightarrow>
                         report_entries L (env_root E) stream_id mode after r root entries ignored))))"


section \<open>Counts\<close>

lemma state_label_inj: "state_label s = state_label t \<longleftrightarrow> s = t"
  by (cases s; cases t) simp_all

lemma compatibility_label_inj: "compatibility_label s = compatibility_label t \<longleftrightarrow> s = t"
  by (cases s; cases t) simp_all

text \<open>The buckets after counting a list of caches.\<close>

definition counts_of :: "inspected_cache list \<Rightarrow> list_counts \<Rightarrow> bool" where
  "counts_of cs k \<longleftrightarrow>
     (\<forall>s. lc_states k (state_label s) = Some (length (filter (\<lambda>c. mc_state (ic_entry c) = s) cs))) \<and>
     (\<forall>p. lc_compatibilities k (compatibility_label p) = Some
        \<lparr>cs_entries = length (filter (\<lambda>c. ic_compatibility c = p) cs),
         cs_bytes = sum_list (map (\<lambda>c. mc_size_bytes (ic_entry c)) (filter (\<lambda>c. ic_compatibility c = p) cs))\<rparr>) \<and>
     (let freed = filter (\<lambda>c. safely_incompatible (ic_compatibility c) \<and> ic_safe_to_prune c \<and> \<not> mc_active (ic_entry c)) cs in
      lc_reclaimable_entries k = length freed \<and> lc_reclaimable_bytes k = sum_list (map (\<lambda>c. mc_size_bytes (ic_entry c)) freed))"

lemma initial_counts_ok: "counts_of [] initial_counts"
proof -
  have "lc_states initial_counts (state_label s) = Some 0" for s
    by (cases s) (simp_all add: initial_counts_def all_states_def)
  moreover have "lc_compatibilities initial_counts (compatibility_label p) = Some \<lparr>cs_entries = 0, cs_bytes = 0\<rparr>" for p
    by (cases p) (simp_all add: initial_counts_def all_compatibilities_def)
  ultimately show ?thesis by (simp add: counts_of_def initial_counts_def)
qed

lemma sum_list_filter_le: "sum_list (map f (filter P xs)) \<le> sum_list (map (f :: _ \<Rightarrow> nat) xs)"
  by (induction xs) auto

lemma count_cache_ok:
  assumes k: "counts_of cs k"
    and small: "length (cs @ [c]) \<le> usize_max" "sum_list (map (\<lambda>c. mc_size_bytes (ic_entry c)) (cs @ [c])) \<le> usize_max"
  shows "\<exists>k'. count_cache c k = Some k' \<and> counts_of (cs @ [c]) k'"
proof -
  let ?bytes = "\<lambda>c. mc_size_bytes (ic_entry c)"
  have "length (filter P cs) + 1 \<le> usize_max" for P
    using small(1) length_filter_le [of P cs] unfolding length_append list.size by linarith
  moreover have "sum_list (map ?bytes (filter P cs)) + ?bytes c \<le> usize_max" for P
    using small(2) sum_list_filter_le [of ?bytes P cs] by simp
  ultimately have exact: "sat_add (length (filter P cs)) 1 = length (filter P cs) + 1"
    "sat_add (sum_list (map ?bytes (filter P cs))) (?bytes c) = sum_list (map ?bytes (filter P cs)) + ?bytes c" for P
    by (simp_all only: sat_add_exact)
  show ?thesis using k
    by (auto simp: count_cache_def counts_of_def Let_def exact(1) [simplified] exact(2) state_label_inj compatibility_label_inj)
qed


lemma count_caches_ok:
  assumes "counts_of ds k" "length (ds @ cs) \<le> usize_max"
    and "sum_list (map (\<lambda>c. mc_size_bytes (ic_entry c)) (ds @ cs)) \<le> usize_max"
  shows "\<exists>k'. count_caches cs k = Some k' \<and> counts_of (ds @ cs) k'"
  using assms
proof (induction cs arbitrary: ds k)
  case (Cons c cs)
  have "\<exists>k1. count_cache c k = Some k1 \<and> counts_of (ds @ [c]) k1"
    using Cons.prems by (intro count_cache_ok) auto
  then obtain k1 where "count_cache c k = Some k1" "counts_of (ds @ [c]) k1" by blast
  then show ?case using Cons.IH [of "ds @ [c]" k1] Cons.prems by simp
qed simp

lemma listed_bytes_sum: "sum_list (map (\<lambda>c. mc_size_bytes (ic_entry c)) cs) \<le> usize_max \<Longrightarrow>
    listed_bytes cs = sum_list (map (\<lambda>c. mc_size_bytes (ic_entry c)) cs)"
proof -
  have "n + sum_list (map f xs) \<le> usize_max \<Longrightarrow> fold (\<lambda>c sum. sat_add sum (f c)) xs n = n + sum_list (map f xs)"
    for f :: "inspected_cache \<Rightarrow> nat" and n xs
    by (induction xs arbitrary: n) (auto simp: sat_add_exact)
  from this [of 0] show "sum_list (map (\<lambda>c. mc_size_bytes (ic_entry c)) cs) \<le> usize_max \<Longrightarrow> ?thesis" by (simp add: listed_bytes_def)
qed

text \<open>The aggregates of a cache list are those of the matching caches, and counting never panics: as long as
  the sizes sum up within 64 bits, every state and every compatibility class has its bucket, which holds the
  number (and the bytes) of the matching caches in it; the reclaimable totals are those of the matching
  caches that are older or unversioned, safe to prune and inactive; and the matched bytes are the sum over
  the matching caches.\<close>

theorem list_counts_exact:
  assumes "length entries \<le> usize_max" "sum_list (map (\<lambda>c. mc_size_bytes (ic_entry c)) entries) \<le> usize_max"
  shows "report_entries L cache_root stream_id mode after r root entries ignored \<noteq> None \<and>
    (\<forall>report. report_entries L cache_root stream_id mode after r root entries ignored = Some (Inr report) \<longrightarrow>
      counts_of (filter (matches_filters r root) entries) (lt_counts report) \<and>
      lt_matched_entries report = length (filter (matches_filters r root) entries) \<and>
      lt_matched_bytes report = sum_list (map (\<lambda>c. mc_size_bytes (ic_entry c)) (filter (matches_filters r root) entries)))"
proof -
  let ?m = "filter (matches_filters r root) entries"
  have small: "length ?m \<le> usize_max" "sum_list (map (\<lambda>c. mc_size_bytes (ic_entry c)) ?m) \<le> usize_max"
    using assms(1) length_filter_le [of "matches_filters r root" entries] order_trans apply blast
    using assms(2) sum_list_filter_le order_trans by blast
  then obtain k where k: "count_caches ?m initial_counts = Some k" "counts_of ?m k"
    using count_caches_ok [OF initial_counts_ok, of ?m] by auto
  show ?thesis using k listed_bytes_sum [OF small(2)] by (auto simp: report_entries_def Let_def split: sum.splits)
qed

section \<open>Cursors between pages\<close>

text \<open>What the cursor codec promises beyond \<open>cursor_lib_ok\<close>: by RFC 4648 the first byte of the data determines
  the first character of the text, and for the version byte 1 it is not the first character of \<open>cl2\<close>.\<close>

definition wire_ok :: "cursor_lib \<Rightarrow> bool" where
  "wire_ok L \<longleftrightarrow> cursor_lib_ok L \<and> (\<forall>b. \<not> starts_with (b64_encode L (CHR 0x01 # b)) legacy_cursor_prefix)"

lemma length_show_nat: "n < 10 ^ Suc k \<Longrightarrow> length (show_nat n) \<le> Suc k"
proof (induction k arbitrary: n)
  case 0
  then show ?case by (subst show_nat.simps) simp
next
  case (Suc k)
  then have "n div 10 < 10 ^ Suc k" by (simp add: less_mult_imp_div_less)
  then show ?case using Suc.IH by (subst show_nat.simps) simp
qed

lemma is_cache_id_cases:
  assumes "is_cache_id s"
  shows "is_managed_cache_hash s \<or> (\<exists>v h scope. valid_cache_parts v h scope \<and> s = print_cache_id v h scope)"
proof -
  obtain i where i: "parse_managed_cache_id s = Some i" using assms by (auto simp: is_cache_id_def)
  show ?thesis
  proof (cases i)
    case Cache_Unversioned
    then show ?thesis using i
      by (auto simp: parse_managed_cache_id_def Let_def split: if_splits option.splits list.splits)
  next
    case (Cache_Versioned v h scope)
    then show ?thesis using print_parse_cache_id i by blast
  qed
qed

lemma cache_hash_ascii: "is_managed_cache_hash h \<Longrightarrow> list_all (\<lambda>c. (of_char c :: nat) < 128) h \<and> length h = 16"
  by (auto simp: is_managed_cache_hash_def managed_cache_hash_bytes_def list_all_iff is_ascii_digit_def in_range_def)

lemma cache_id_ascii: "is_cache_id s \<Longrightarrow> list_all (\<lambda>c. (of_char c :: nat) < 128) s \<and> length s \<le> 46"
proof -
  assume "is_cache_id s"
  then consider "is_managed_cache_hash s" | v h scope where "valid_cache_parts v h scope" "s = print_cache_id v h scope"
    using is_cache_id_cases by blast
  then show ?thesis
  proof cases
    case 1
    then show ?thesis using cache_hash_ascii by fastforce
  next
    case 2
    have v: "length (show_nat v) \<le> 10" using 2 length_show_nat [of v 9] by (simp add: valid_cache_parts_def)
    have "list_all (\<lambda>c. (of_char c :: nat) < 128) (show_nat v)"
      using show_nat_digits [of v] by (auto simp: list_all_iff is_ascii_digit_def)
    then show ?thesis using 2 v cache_hash_ascii
      by (cases scope) (auto simp: print_cache_id_def valid_cache_parts_def dest!: cache_hash_ascii)
  qed
qed


lemma cursor_version_char: "(char_of cursor_version :: char) = CHR 0x01"
  by (simp add: cursor_version_def char_of_def bit_iff_odd)

lemma cursor_decodes:
  assumes L: "wire_ok (ll_cursor L)" and st: "length stream_id = stream_id_bytes" and a: "is_cache_id a"
  shows "\<exists>cursor. encode_cache_list_cursor L stream_id a = Inr cursor \<and>
    decode_cache_list_cursor E L cursor st r root = (if st = stream_id then Inr a else Inl filter_mismatch)"
proof -
  define c where "c = \<lparr>env_kind = Kind_Cache_List, env_generation = 0, env_stream = stream_id, env_payload = a\<rparr>"
  define cursor where "cursor = envelope_encode (ll_cursor L) c"
  have L': "cursor_lib_ok (ll_cursor L)" using L by (simp add: wire_ok_def)
  have len: "length a \<le> 46" "utf8_valid a" using cache_id_ascii [OF a] ascii_utf8_valid by auto
  then have ok: "envelope_ok c" using st by (simp add: envelope_ok_def c_def max_cursor_payload_bytes_def)
  have enc: "encode_cache_list_cursor L stream_id a = Inr cursor"
    using a len by (simp add: encode_cache_list_cursor_def envelope_new_def max_cursor_payload_bytes_def cursor_def c_def)
  have short: "length cursor \<le> 128"
    using L' len length_envelope_bytes [of c] st
    by (simp add: cursor_def envelope_encode_def cursor_lib_ok_def c_def cursor_checksum_def cursor_sizes)
  have "\<exists>b. cursor = b64_encode (ll_cursor L) (CHR 0x01 # b)"
    by (auto simp: cursor_def envelope_encode_def envelope_bytes_def cursor_version_char)
  then have new: "\<not> starts_with cursor legacy_cursor_prefix" using L by (auto simp: wire_ok_def)
  have "envelope_parse (ll_cursor L) cursor 128 = Inr c" unfolding cursor_def
    by (rule envelope_parse_encode [OF L' ok]) (use short in \<open>simp add: cursor_def max_encoded_cursor_bytes_def\<close>)
  then have "decode_cache_list_cursor E L cursor st r root = (if st = stream_id then Inr a else Inl filter_mismatch)"
    using short new a len by (auto simp: decode_cache_list_cursor_def max_cache_list_cursor_bytes_def payload_for_def c_def)
  then show ?thesis using enc by blast
qed

text \<open>A cache list cursor continues the list it was made for and no other: the cursor printed after a cache
  is decoded, with the stream of the same root and filters, to that cache's identifier, and with any
  other stream it is refused with the error that the filters do not match, never silently
  reinterpreted.\<close>

theorem cache_cursor_bound_to_filters:
  assumes "wire_ok (ll_cursor L)" "is_cache_id after"
    and "encode_cache_list_cursor L (cache_list_stream_id L cache_root h) after = Inr cursor"
  shows "decode_cache_list_cursor E L cursor (cache_list_stream_id L cache_root' h') r root =
    (if cache_list_stream_id L cache_root' h' = cache_list_stream_id L cache_root h then Inr after
     else Inl (Cache_Invalid_Input ''cache list cursor'' ''does not match the active cache filters''))"
proof -
  have "length (cache_list_stream_id L cache_root h) = stream_id_bytes"
    using assms(1) by (simp add: cache_list_stream_id_def stream_finish_def wire_ok_def cursor_lib_ok_def stream_id_bytes_def)
  from cursor_decodes [OF assms(1) this assms(2), of E "cache_list_stream_id L cache_root' h'" r root]
  show ?thesis using assms(3) by (auto simp: filter_mismatch_def)
qed

section \<open>Pages\<close>

lemma count_caches_total:
  "\<forall>s. lc_states k (state_label s) \<noteq> None \<Longrightarrow> \<forall>p. lc_compatibilities k (compatibility_label p) \<noteq> None \<Longrightarrow>
    \<exists>k'. count_caches cs k = Some k'"
proof (induction cs arbitrary: k)
  case (Cons c cs)
  obtain n summary where n: "lc_states k (state_label (mc_state (ic_entry c))) = Some n"
    "lc_compatibilities k (compatibility_label (ic_compatibility c)) = Some summary" using Cons.prems by blast
  obtain k1 where k1: "count_cache c k = Some k1" using n by (simp add: count_cache_def Let_def)
  have "\<forall>s. lc_states k1 (state_label s) \<noteq> None" "\<forall>p. lc_compatibilities k1 (compatibility_label p) \<noteq> None"
    using k1 n Cons.prems by (auto simp: count_cache_def Let_def split: if_splits)
  then show ?case using Cons.IH k1 by simp
qed simp

lemma count_matching: "\<exists>k. count_caches cs initial_counts = Some k"
  using initial_counts_ok by (intro count_caches_total) (simp_all add: counts_of_def)

definition entry_report :: "inspected_cache \<Rightarrow> managed_cache \<times> cache_compatibility" where
  "entry_report c = (ic_entry c, ic_compatibility c)"

text \<open>A client that follows the cursors.\<close>

fun follow :: "(string option \<Rightarrow> (cache_error + list_report) option) \<Rightarrow> nat \<Rightarrow> string option \<Rightarrow>
    (managed_cache \<times> cache_compatibility) list option" where
  "follow ask 0 cursor = None"
| "follow ask (Suc n) cursor =
     (case ask cursor of
        Some (Inr report) \<Rightarrow>
          (case lt_page report of
             Some (None, page) \<Rightarrow> Some page
           | Some (Some next, page) \<Rightarrow> map_option ((@) page) (follow ask n (Some next))
           | None \<Rightarrow> None)
      | _ \<Rightarrow> None)"

lemma page_start_at:
  assumes "sorted_wrt (\<lambda>a b. mc_id (ic_entry a) < mc_id (ic_entry b)) (pre @ suf)"
    and "(case after of None \<Rightarrow> pre = [] | Some a \<Rightarrow> pre \<noteq> [] \<and> a = mc_id (ic_entry (last pre)))"
  shows "page_start after (pre @ suf) = length pre"
proof (cases after)
  case (Some a)
  then have a: "pre \<noteq> []" "a = mc_id (ic_entry (last pre))" using assms(2) by auto
  then obtain xs x where pre: "pre = xs @ [x]" by (cases pre rule: rev_cases) auto
  have "\<forall>c \<in> set pre. mc_id (ic_entry c) \<le> a" using assms(1) a pre by (auto simp: sorted_wrt_append)
  moreover have "\<forall>c \<in> set suf. \<not> mc_id (ic_entry c) \<le> a" using assms(1) a pre by (auto simp: sorted_wrt_append)
  ultimately have "takeWhile (\<lambda>c. mc_id (ic_entry c) \<le> a) (pre @ suf) = pre"
    by (cases suf) (simp_all add: takeWhile_eq_all_conv)
  then show ?thesis using Some by (simp add: page_start_def)
qed (use assms in \<open>simp add: page_start_def\<close>)

lemma list_contents_at:
  assumes "page_start after matching = length pre" "matching = pre @ suf" "length matching \<le> usize_max" "0 < limit"
  shows "list_contents L stream_id (Mode_Page limit q) after matching =
    (if limit < length suf then
       (case encode_cache_list_cursor L stream_id (mc_id (ic_entry (suf ! (limit - 1)))) of
          Inl e \<Rightarrow> Inl e | Inr cursor \<Rightarrow> Inr (Some (Some cursor, map entry_report (take limit suf))))
     else Inr (Some (None, map entry_report suf)))"
proof -
  have stop: "min (sat_add (length pre) limit) (length matching) = length pre + min limit (length suf)"
    using assms(2,3) by (auto simp: sat_add_def)
  have page: "map (\<lambda>c. (ic_entry c, ic_compatibility c)) (take (length pre + min limit (length suf) - length pre) (drop (length pre) matching)) =
      map entry_report (take limit suf)"
    using assms(2) by (simp add: entry_report_def fun_eq_iff cong: map_cong) (cases "limit \<le> length suf"; simp add: min_def)
  have at_end: "mc_id (fst (last (map entry_report (take limit suf)))) = mc_id (ic_entry (suf ! (limit - 1)))" if "limit < length suf"
  proof -
    have "take limit suf \<noteq> []" using that assms(4) by auto
    moreover have "last (take limit suf) = suf ! (limit - 1)"
      using \<open>take limit suf \<noteq> []\<close> that assms(4) by (subst last_conv_nth) auto
    ultimately show ?thesis by (simp add: last_map entry_report_def)
  qed
  show ?thesis
  proof (cases "limit < length suf")
    case True
    then have "map entry_report (take limit suf) \<noteq> []" using assms(4) by auto
    then show ?thesis unfolding list_contents_def list_mode.case Let_def assms(1) stop page
      using True at_end assms(2) by simp
  next
    case False
    then show ?thesis unfolding list_contents_def list_mode.case Let_def assms(1) stop page using assms(2) by simp
  qed
qed

lemma inspect_children_ids:
  assumes "inspect_children E views children entries ignored s = (Done (found, n), t)"
    and "\<forall>c \<in> set entries. is_cache_id (mc_id (ic_entry c))"
  shows "\<forall>c \<in> set found. is_cache_id (mc_id (ic_entry c))"
  using assms
proof (induction children arbitrary: entries ignored s)
  case (Cons child children)
  obtain u where steps: "inspect_children E views children entries (ignored + 1) u = (Done (found, n), t) \<or>
      inspect_children E views children entries ignored u = (Done (found, n), t) \<or>
      (\<exists>cache. is_cache_id (mc_id (ic_entry cache)) \<and>
        inspect_children E views children (entries @ [cache]) ignored u = (Done (found, n), t))"
  proof (cases child)
    case (Inr p)
    obtain name kind where p: "p = (name, kind)" by force
    show ?thesis
    proof (cases "\<exists>cid identity. name = Some cid \<and> kind = Inr True \<and> parse_managed_cache_id cid = Some identity")
      case False
      then show ?thesis using Cons.prems(1) Inr p that
        by (auto split: option.splits sum.splits if_splits)
    next
      case True
      then obtain cid identity where id: "name = Some cid" "kind = Inr True" "parse_managed_cache_id cid = Some identity"
        by blast
      obtain a v w where a: "inspect_managed_cache E (views cid) cid identity True v = (Done a, w)"
        and rest: "inspect_children E views children (if mc_size_bytes (ic_entry a) = 0 \<and> mc_state (ic_entry a) = Incomplete
          then entries else entries @ [a]) ignored w = (Done (found, n), t)"
        using Cons.prems(1) Inr p id by (auto split: if_splits)
      have "is_cache_id (mc_id (ic_entry a))"
        using inspect_managed_cache_id [of E "views cid" cid identity True] a id(3) by (auto simp: yields_def is_cache_id_def)
      then show ?thesis using rest that [of w] by (auto split: if_splits)
    qed
  qed (use Cons.prems(1) in simp)
  then show ?case using Cons.IH Cons.prems(2) by fastforce
qed simp

lemma inspect_all_ids:
  assumes "inspect_all E views listing b = (Done (entries, ignored), t)"
  shows "\<forall>c \<in> set entries. is_cache_id (mc_id (ic_entry c))"
  using assms inspect_children_ids [where entries = "[]"]
  by (auto simp: inspect_all_def split: root_listing.splits)

text \<open>One request of a client that follows cursors: the cursor is absent at the start and otherwise the one
  printed after the caches already seen.\<close>

definition resumes :: "list_lib \<Rightarrow> string \<Rightarrow> inspected_cache list \<Rightarrow> string option \<Rightarrow> bool" where
  "resumes L stream_id pre cur \<longleftrightarrow>
     (case cur of None \<Rightarrow> pre = []
      | Some c \<Rightarrow> pre \<noteq> [] \<and> encode_cache_list_cursor L stream_id (mc_id (ic_entry (last pre))) = Inr c)"

lemma list_caches_resumes:
  assumes L: "wire_ok (ll_cursor L)"
    and r: "\<not> lq_summary r" "0 < lq_limit r" "lq_limit r \<le> max_cache_list_limit" "validate_list_filters r = Inr ()"
    and run: "inspect_all E views listing (budget_new limits) = (Done (entries, ignored), t)"
    and sorted: "sorted_wrt (\<lambda>a b. mc_id (ic_entry a) < mc_id (ic_entry b)) entries" and n: "length entries \<le> usize_max"
    and m: "filter (matches_filters r (map_option (ll_canonical L) (lq_repository_root r))) entries = pre @ suf"
    and st: "stream_id = cache_list_stream_id L (env_root E)
      (cache_list_filter_hash E r (map_option (ll_canonical L) (lq_repository_root r)))"
    and cur: "resumes L stream_id pre cur"
  shows "\<exists>report. list_caches E L limits views listing (r\<lparr>lq_cursor := cur\<rparr>) = Some (Inr report) \<and>
    (if lq_limit r < length suf then
       (\<exists>c. lt_page report = Some (Some c, map entry_report (take (lq_limit r) suf)) \<and>
            resumes L stream_id (pre @ take (lq_limit r) suf) (Some c))
     else lt_page report = Some (None, map entry_report suf))"
proof -
  let ?root = "map_option (ll_canonical L) (lq_repository_root r)"
  let ?r = "r\<lparr>lq_cursor := cur\<rparr>"
  let ?mode = "Mode_Page (lq_limit r) cur"
  have mode: "parse_list_mode ?r = Inr ?mode" using r by (simp add: parse_list_mode_def)
  have filters: "validate_list_filters ?r = Inr ()" using r(4) by (auto simp: validate_list_filters_def split: if_splits)
  have hash: "cache_list_filter_hash E ?r ?root = cache_list_filter_hash E r ?root"
    by (simp add: cache_list_filter_hash_def filter_hash_in_namespace_def filter_hash_input_def)
  have root: "lq_repository_root ?r = lq_repository_root r" by simp
  have match: "matches_filters ?r ?root = matches_filters r ?root" by (simp add: matches_filters_def fun_eq_iff cong: option.case_cong)
  have ids: "\<forall>c \<in> set (pre @ suf). is_cache_id (mc_id (ic_entry c))"
    using inspect_all_ids [OF run] unfolding m [symmetric] by simp
  have len: "length stream_id = stream_id_bytes"
    using L by (simp add: st cache_list_stream_id_def stream_finish_def wire_ok_def cursor_lib_ok_def stream_id_bytes_def)
  have small: "length (pre @ suf) \<le> usize_max"
    using n length_filter_le [of "matches_filters r ?root" entries] unfolding m by linarith
  define after where "after = (if pre = [] then None else Some (mc_id (ic_entry (last pre))))"
  have decoded: "(case cur of None \<Rightarrow> Inr None
      | Some c \<Rightarrow> map_sum (\<lambda>e. e) Some (decode_cache_list_cursor E L c stream_id ?r ?root)) = Inr after"
  proof (cases cur)
    case (Some c)
    then have c: "pre \<noteq> []" "encode_cache_list_cursor L stream_id (mc_id (ic_entry (last pre))) = Inr c"
      using cur by (auto simp: resumes_def)
    have "is_cache_id (mc_id (ic_entry (last pre)))" using ids c(1) by simp
    from cursor_decodes [OF L len this, of E stream_id ?r ?root] show ?thesis
      using Some c by (auto simp: after_def)
  qed (use cur in \<open>simp add: resumes_def after_def\<close>)
  have "sorted_wrt (\<lambda>a b. mc_id (ic_entry a) < mc_id (ic_entry b)) (pre @ suf)"
    using sorted unfolding m [symmetric] by (rule sorted_wrt_filter)
  then have start: "page_start after (pre @ suf) = length pre"
    by (rule page_start_at) (simp add: after_def)
  obtain k where k: "count_caches (pre @ suf) initial_counts = Some k" using count_matching by blast
  have run': "list_caches E L limits views listing ?r =
      report_entries L (env_root E) stream_id ?mode after ?r ?root entries ignored"
    unfolding list_caches_def mode filters Let_def sum.case list_mode.case root hash st [symmetric] decoded run
    by simp
  have contents: "list_contents L stream_id ?mode after (pre @ suf) =
    (if lq_limit r < length suf then
       (case encode_cache_list_cursor L stream_id (mc_id (ic_entry (suf ! (lq_limit r - 1)))) of
          Inl e \<Rightarrow> Inl e | Inr c \<Rightarrow> Inr (Some (Some c, map entry_report (take (lq_limit r) suf))))
     else Inr (Some (None, map entry_report suf)))"
    using start small r(2) by (intro list_contents_at) auto
  show ?thesis
  proof (cases "lq_limit r < length suf")
    case False
    then show ?thesis using run' contents k by (simp add: report_entries_def match m)
  next
    case True
    have "is_cache_id (mc_id (ic_entry (suf ! (lq_limit r - 1))))" using ids True by (simp add: less_imp_diff_less)
    then obtain c where c: "encode_cache_list_cursor L stream_id (mc_id (ic_entry (suf ! (lq_limit r - 1)))) = Inr c"
      using cursor_decodes [OF L len] by blast
    have "last (pre @ take (lq_limit r) suf) = suf ! (lq_limit r - 1)" using True r(2)
      by (subst last_conv_nth) (auto simp: nth_append)
    then show ?thesis using True run' contents k c r(2)
      by (auto simp: report_entries_def match m resumes_def)
  qed
qed

lemma follow_rest:
  assumes L: "wire_ok (ll_cursor L)"
    and r: "\<not> lq_summary r" "0 < lq_limit r" "lq_limit r \<le> max_cache_list_limit" "validate_list_filters r = Inr ()"
    and run: "inspect_all E views listing (budget_new limits) = (Done (entries, ignored), t)"
    and sorted: "sorted_wrt (\<lambda>a b. mc_id (ic_entry a) < mc_id (ic_entry b)) entries" and n: "length entries \<le> usize_max"
    and m: "filter (matches_filters r (map_option (ll_canonical L) (lq_repository_root r))) entries = pre @ suf"
    and st: "stream_id = cache_list_stream_id L (env_root E)
      (cache_list_filter_hash E r (map_option (ll_canonical L) (lq_repository_root r)))"
    and cur: "resumes L stream_id pre cur" and fuel: "length suf < k"
  shows "follow (\<lambda>cur. list_caches E L limits views listing (r\<lparr>lq_cursor := cur\<rparr>)) k cur = Some (map entry_report suf)"
  using m cur fuel
proof (induction k arbitrary: pre suf cur)
  case (Suc k)
  from list_caches_resumes [OF L r run sorted n Suc.prems(1) st Suc.prems(2)]
  obtain report where report: "list_caches E L limits views listing (r\<lparr>lq_cursor := cur\<rparr>) = Some (Inr report)"
    and page: "if lq_limit r < length suf then
       (\<exists>c. lt_page report = Some (Some c, map entry_report (take (lq_limit r) suf)) \<and>
            resumes L stream_id (pre @ take (lq_limit r) suf) (Some c))
     else lt_page report = Some (None, map entry_report suf)" by blast
  show ?case
  proof (cases "lq_limit r < length suf")
    case False
    then show ?thesis using report page by simp
  next
    case True
    then obtain c where c: "lt_page report = Some (Some c, map entry_report (take (lq_limit r) suf))"
      "resumes L stream_id (pre @ take (lq_limit r) suf) (Some c)" using page by auto
    have "follow (\<lambda>cur. list_caches E L limits views listing (r\<lparr>lq_cursor := cur\<rparr>)) k (Some c) =
        Some (map entry_report (drop (lq_limit r) suf))"
      using Suc.prems(1,3) True r(2) c(2) by (intro Suc.IH [of "pre @ take (lq_limit r) suf"]) auto
    then show ?thesis using report c(1) by (simp flip: map_append)
  qed
qed simp

text \<open>C22: The pages of a cache list tile it.  Over an inventory that does not change, a client that starts without
  a cursor and passes on the cursor of each page until a page has none receives, in at most one more
  request than there are caches, exactly the caches that match the filters, each once, in the order of
  their identifiers; no request on the way is refused.\<close>

theorem cache_pages_tile:
  assumes "wire_ok (ll_cursor L)"
    and "\<not> lq_summary r" "0 < lq_limit r" "lq_limit r \<le> max_cache_list_limit" "validate_list_filters r = Inr ()"
    and "inspect_all E views listing (budget_new limits) = (Done (entries, ignored), t)"
    and "case listing of Root_Children children \<Rightarrow> distinct (List.map_filter child_name children) | _ \<Rightarrow> True"
    and "length entries \<le> usize_max"
  shows "follow (\<lambda>cur. list_caches E L limits views listing (r\<lparr>lq_cursor := cur\<rparr>)) (length entries + 1) None =
    Some (map entry_report (filter (matches_filters r (map_option (ll_canonical L) (lq_repository_root r))) entries)) \<and>
    sorted_wrt (\<lambda>a b. mc_id (ic_entry a) < mc_id (ic_entry b)) entries"
proof -
  have sorted: "sorted_wrt (\<lambda>a b. mc_id (ic_entry a) < mc_id (ic_entry b)) entries"
    using assms(6,7) by (rule inventory_sorted)
  show ?thesis
    using follow_rest [OF assms(1-6) sorted assms(8) append_Nil [symmetric] refl, of None "length entries + 1"]
      length_filter_le sorted by (simp add: resumes_def le_imp_less_Suc)
qed

section \<open>A sample list\<close>

definition sample_list_lib :: list_lib where
  "sample_list_lib = \<lparr>ll_cursor = sample_lib, ll_canonical = (\<lambda>p. p)\<rparr>"

lemma sample_wire_ok: "wire_ok sample_lib"
proof -
  have "\<not> starts_with (b64_encode sample_lib (CHR 0x01 # b)) legacy_cursor_prefix" for b
    by (simp add: sample_lib_def sample_encode_def starts_with_def legacy_cursor_prefix_def)
  then show ?thesis using sample_lib_ok by (simp add: wire_ok_def)
qed

definition sample_list_request :: list_request where
  "sample_list_request = \<lparr>lq_summary = False, lq_states = [Corrupt], lq_repository_root = None, lq_limit = 1, lq_cursor = None,
     lq_compatibilities = [], lq_content_versions = [], lq_incompatible = False\<rparr>"

definition sample_pair :: "root_child list" where
  "sample_pair = [Inr (Some ''1123456789abcdef'', Inr True), Inr (Some ''0123456789abcdef'', Inr True)]"

lemma sample_pair_ids: "parse_managed_cache_id ''1123456789abcdef'' = Some Cache_Unversioned"
  by (simp add: parse_managed_cache_id_def is_managed_cache_hash_def managed_cache_hash_bytes_def is_ascii_digit_def in_range_def
      strip_prefix_def starts_with_def)

lemma sample_pair_inventory:
  "\<exists>c d t. inspect_all sample_cache_env (\<lambda>_. sample_cache_view) (Root_Children sample_pair) (budget_new default_inventory_limits) =
     (Done ([c, d], 0), t) \<and> mc_state (ic_entry c) = Corrupt \<and> mc_state (ic_entry d) = Corrupt"
  by (simp add: inspect_all_def sample_pair_def sample_check sample_ids sample_pair_ids io_eval enforce_counter_def budget_enforce_def
      budget_new_def default_inventory_limits_def inspect_managed_cache_def sample_cache_env_def sample_cache_view_def sample_scan
      probe_active_def read_metadata_def inspect_database_def sqlite_result_def admit_metadata_def initial_entry_def Let_def
      check_content_version_def finish_inspection_def sat_add_def usize_max_def cache_id_cmp_def key_cmp_def ord_cmp_def)

theorem list_counts_exact_witness:
  "\<exists>c d t. inspect_all sample_cache_env (\<lambda>_. sample_cache_view) (Root_Children sample_pair) (budget_new default_inventory_limits) =
     (Done ([c, d], 0), t) \<and>
   report_entries sample_list_lib ''/c'' ''stream'' Mode_Summary None sample_list_request None [c\<lparr>ic_entry := (ic_entry c)\<lparr>mc_size_bytes := 5\<rparr>\<rparr>] 0 \<noteq> None"
proof -
  obtain c d t where run: "inspect_all sample_cache_env (\<lambda>_. sample_cache_view) (Root_Children sample_pair)
      (budget_new default_inventory_limits) = (Done ([c, d], 0), t)" using sample_pair_inventory by blast
  have "report_entries sample_list_lib ''/c'' ''stream'' Mode_Summary None sample_list_request None
      [c\<lparr>ic_entry := (ic_entry c)\<lparr>mc_size_bytes := 5\<rparr>\<rparr>] 0 \<noteq> None"
    using list_counts_exact [of "[c\<lparr>ic_entry := (ic_entry c)\<lparr>mc_size_bytes := 5\<rparr>\<rparr>]"] by (simp add: usize_max_def)
  then show ?thesis using run by blast
qed

lemma sample_cursor:
  "encode_cache_list_cursor sample_list_lib (cache_list_stream_id sample_list_lib ''/c'' ''0123456789abcdef'') ''0123456789abcdef'' \<noteq> Inl e"
proof -
  have "is_cache_id ''0123456789abcdef''" using sample_ids(2) by (simp add: is_cache_id_def)
  then show ?thesis by (simp add: encode_cache_list_cursor_def envelope_new_def max_cursor_payload_bytes_def)
qed

theorem cache_cursor_bound_to_filters_witness:
  "\<exists>cursor. encode_cache_list_cursor sample_list_lib (cache_list_stream_id sample_list_lib ''/c'' ''0123456789abcdef'') ''0123456789abcdef'' =
     Inr cursor \<and>
   decode_cache_list_cursor sample_cache_env sample_list_lib cursor (cache_list_stream_id sample_list_lib ''/c'' ''0123456789abcdef'')
     sample_list_request None = Inr ''0123456789abcdef''"
proof -
  obtain cursor where c: "encode_cache_list_cursor sample_list_lib
      (cache_list_stream_id sample_list_lib ''/c'' ''0123456789abcdef'') ''0123456789abcdef'' = Inr cursor"
    using sample_cursor by (metis sum.exhaust)
  have "is_cache_id ''0123456789abcdef''" using sample_ids(2) by (simp add: is_cache_id_def)
  then show ?thesis using cache_cursor_bound_to_filters [OF _ _ c] c sample_wire_ok
    by (fastforce simp: sample_list_lib_def)
qed

theorem cache_pages_tile_witness:
  "\<exists>entries. length entries = 2 \<and>
    follow (\<lambda>cur. list_caches sample_cache_env sample_list_lib default_inventory_limits (\<lambda>_. sample_cache_view) (Root_Children sample_pair)
      (sample_list_request\<lparr>lq_cursor := cur\<rparr>)) 3 None = Some (map entry_report entries)"
proof -
  obtain c d t where run: "inspect_all sample_cache_env (\<lambda>_. sample_cache_view) (Root_Children sample_pair)
      (budget_new default_inventory_limits) = (Done ([c, d], 0), t)" "mc_state (ic_entry c) = Corrupt" "mc_state (ic_entry d) = Corrupt"
    using sample_pair_inventory by blast
  have "follow (\<lambda>cur. list_caches sample_cache_env sample_list_lib default_inventory_limits (\<lambda>_. sample_cache_view) (Root_Children sample_pair)
      (sample_list_request\<lparr>lq_cursor := cur\<rparr>)) (length [c, d] + 1) None =
    Some (map entry_report (filter (matches_filters sample_list_request (map_option (ll_canonical sample_list_lib) (lq_repository_root sample_list_request))) [c, d]))"
    by (rule conjunct1 [OF cache_pages_tile [OF _ _ _ _ _ run(1)]])
      (simp_all add: sample_list_lib_def sample_wire_ok sample_list_request_def max_cache_list_limit_def validate_list_filters_def
        max_cache_compatibility_filters_def max_cache_content_version_filters_def sample_pair_def List.map_filter_simps usize_max_def)
  moreover have "filter (matches_filters sample_list_request (map_option (ll_canonical sample_list_lib) (lq_repository_root sample_list_request))) [c, d] = [c, d]"
    using run by (simp add: matches_filters_def sample_list_request_def)
  ultimately have "follow (\<lambda>cur. list_caches sample_cache_env sample_list_lib default_inventory_limits (\<lambda>_. sample_cache_view) (Root_Children sample_pair)
      (sample_list_request\<lparr>lq_cursor := cur\<rparr>)) 3 None = Some (map entry_report [c, d])"
    by (simp only:) (simp add: numeral_3_eq_3)
  then show ?thesis by (intro exI [of _ "[c, d]"]) simp
qed

end
