(* ===== verification/Symbol_Identity.thy ===== *)
theory Symbol_Identity
  imports Rust_Str Prelude
begin

text \<open>
  Symbol identities and case-insensitive literals (\<open>src/symbol_identity.rs\<close>).  The simple case folding
  of one character, the characters a regular expression engine matches for it, comes from
  \<open>regex_syntax\<close> and is a parameter: \<open>F c\<close> lists them, or is \<open>None\<close> when the tables are missing.
\<close>

section \<open>Literals under case folding\<close>

type_synonym fold_table = "string \<Rightarrow> string list option"

definition max_case_fold_literal_variants :: nat where "max_case_fold_literal_variants = 32"

record literal_variants =
  lv_values :: "string list"
  lv_expanded :: bool

text \<open>A character is given by its bytes; the ones below 128 stand alone.\<close>

definition ascii_fold :: "string \<Rightarrow> string" where
  "ascii_fold c = (case c of [b] \<Rightarrow> [ascii_lower b] | _ \<Rightarrow> c)"

definition fold_choices :: "fold_table \<Rightarrow> string \<Rightarrow> string list option" where
  "fold_choices F c = map_option (\<lambda>cls. remdups_adj (sort (map ascii_fold cls))) (F c)"

fun expand_variants :: "fold_table \<Rightarrow> string list \<Rightarrow> string list \<Rightarrow> string list option" where
  "expand_variants F [] vals = Some vals"
| "expand_variants F (c # cs) vals =
     (case fold_choices F c of
        None \<Rightarrow> None
      | Some choices \<Rightarrow>
          if max_case_fold_literal_variants < length vals * length choices then None
          else expand_variants F cs (concat (map (\<lambda>p. map (\<lambda>choice. p @ choice) choices) vals)))"

definition case_fold_literal_variants :: "fold_table \<Rightarrow> string \<Rightarrow> literal_variants option" where
  "case_fold_literal_variants F value =
     (if list_ex (\<lambda>c. fold_choices F c = None) (utf8_chars value) then None
      else
        map_option (\<lambda>vals.
          let vals = remdups_adj (sort vals);
              ascii_canonical = concat (map ascii_fold (utf8_chars value)) in
          \<lparr>lv_values = vals, lv_expanded = (length vals \<noteq> 1 \<or> (case vals of [] \<Rightarrow> True | first # _ \<Rightarrow> first \<noteq> ascii_canonical))\<rparr>)
        (expand_variants F (utf8_chars value) [[]]))"

definition case_fold_fts_query :: "literal_variants \<Rightarrow> string" where
  "case_fold_fts_query v =
     str_join '' OR '' (map (\<lambda>value. CHR 0x22 # concat (map (\<lambda>c. if c = CHR 0x22 then [c, c] else [c]) value) @ [CHR 0x22])
       (lv_values v))"

section \<open>Qualified names\<close>

definition split_qualified_symbol :: "string \<Rightarrow> (string \<times> string) option" where
  "split_qualified_symbol requested =
     (case rsplit_once (CHR ''.'') requested of
        None \<Rightarrow> None
      | Some (parent, name) \<Rightarrow> if parent \<noteq> [] \<and> name \<noteq> [] then Some (parent, name) else None)"

definition symbol_identity_matches :: "string \<Rightarrow> string \<Rightarrow> string option \<Rightarrow> bool" where
  "symbol_identity_matches requested name parent \<longleftrightarrow>
     requested = name \<or>
     (case parent of
        None \<Rightarrow> False
      | Some p \<Rightarrow> Option.bind (strip_prefix requested p) (\<lambda>suffix. strip_prefix suffix ''.'') = Some name)"

text \<open>A compiled matcher: the first match of a text, and whether there is one.\<close>

definition literal_match_is_entire :: "(string \<Rightarrow> (nat \<times> nat) option) \<Rightarrow> string \<Rightarrow> bool" where
  "literal_match_is_entire matcher candidate \<longleftrightarrow>
     (case matcher candidate of None \<Rightarrow> False | Some (i, j) \<Rightarrow> i = 0 \<and> j = length candidate)"

definition symbol_identity_matches_case_fold :: "(string \<Rightarrow> (nat \<times> nat) option) \<Rightarrow> string \<Rightarrow> string option \<Rightarrow> bool" where
  "symbol_identity_matches_case_fold matcher name parent \<longleftrightarrow>
     literal_match_is_entire matcher name \<or>
     (case parent of None \<Rightarrow> False | Some p \<Rightarrow> literal_match_is_entire matcher (p @ ''.'' @ name))"

definition symbol_identity_contains_case_fold ::
  "string \<Rightarrow> (string \<Rightarrow> (nat \<times> nat) option) \<Rightarrow> string \<Rightarrow> string option \<Rightarrow> bool" where
  "symbol_identity_contains_case_fold requested matcher name parent \<longleftrightarrow>
     matcher name \<noteq> None \<or>
     split_qualified_symbol requested \<noteq> None \<and>
     (case parent of None \<Rightarrow> False | Some p \<Rightarrow> matcher (p @ ''.'' @ name) \<noteq> None)"

datatype 'a symbol_resolution = Not_Found | Unique 'a | Ambiguous

definition resolve_symbol_matches :: "'a list \<Rightarrow> 'a symbol_resolution" where
  "resolve_symbol_matches matches =
     (case matches of [] \<Rightarrow> Not_Found | [first] \<Rightarrow> Unique first | _ \<Rightarrow> Ambiguous)"

section \<open>Completeness of the variants\<close>

text \<open>What a case-insensitive matcher for a literal accepts: character by character, one of its class.\<close>

definition folds_to :: "fold_table \<Rightarrow> string \<Rightarrow> string list \<Rightarrow> bool" where
  "folds_to F value cs \<longleftrightarrow> list_all2 (\<lambda>v c. \<exists>cls. F v = Some cls \<and> c \<in> set cls) (utf8_chars value) cs"

lemma fold_choices_set: "fold_choices F v = Some choices \<Longrightarrow> set choices = ascii_fold ` {c. \<exists>cls. F v = Some cls \<and> c \<in> set cls}"
  by (auto simp: fold_choices_def)

lemma expand_variants_set:
  assumes "expand_variants F vs vals = Some out"
  shows "set out = {p @ concat (map ascii_fold cs) |p cs. p \<in> set vals \<and>
    list_all2 (\<lambda>v c. \<exists>cls. F v = Some cls \<and> c \<in> set cls) vs cs}"
  using assms
proof (induction F vs vals rule: expand_variants.induct)
  case (2 F v vs vals)
  from 2(2) obtain choices where ch: "fold_choices F v = Some choices" "length vals * length choices \<le> max_case_fold_literal_variants"
    and rest: "expand_variants F vs (concat (map (\<lambda>p. map (\<lambda>choice. p @ choice) choices) vals)) = Some out"
    by (auto split: option.splits if_splits)
  have IH: "set out = {p @ concat (map ascii_fold cs) |p cs. p \<in> set (concat (map (\<lambda>p. map (\<lambda>choice. p @ choice) choices) vals)) \<and>
      list_all2 (\<lambda>v c. \<exists>cls. F v = Some cls \<and> c \<in> set cls) vs cs}"
    using 2(1) [OF ch(1) _ rest] ch(2) by simp
  show ?case (is "_ = ?rhs")
  proof (intro equalityI subsetI)
    fix w
    assume "w \<in> set out"
    then obtain p choice cs where w: "w = (p @ choice) @ concat (map ascii_fold cs)" "p \<in> set vals" "choice \<in> set choices"
      "list_all2 (\<lambda>v c. \<exists>cls. F v = Some cls \<and> c \<in> set cls) vs cs" unfolding IH by auto
    obtain c where c: "choice = ascii_fold c" "\<exists>cls. F v = Some cls \<and> c \<in> set cls"
      using w(3) fold_choices_set [OF ch(1)] by auto
    then have "w = p @ concat (map ascii_fold (c # cs)) \<and> list_all2 (\<lambda>v c. \<exists>cls. F v = Some cls \<and> c \<in> set cls) (v # vs) (c # cs)"
      using w by simp
    then show "w \<in> ?rhs" using w(2) by blast
  next
    fix w
    assume "w \<in> ?rhs"
    then obtain p c cs where w: "w = p @ ascii_fold c @ concat (map ascii_fold cs)" "p \<in> set vals"
      "\<exists>cls. F v = Some cls \<and> c \<in> set cls" "list_all2 (\<lambda>v c. \<exists>cls. F v = Some cls \<and> c \<in> set cls) vs cs"
      by (auto simp: list_all2_Cons1)
    have "p @ ascii_fold c \<in> set (concat (map (\<lambda>p. map (\<lambda>choice. p @ choice) choices) vals))"
      using w(2,3) fold_choices_set [OF ch(1)] by auto
    then show "w \<in> set out" unfolding IH using w(1,4) by (metis (mono_tags, lifting) append.assoc mem_Collect_eq)
  qed
qed auto

lemma expand_variants_length: "expand_variants F vs vals = Some out \<Longrightarrow> length vals \<le> max_case_fold_literal_variants \<Longrightarrow>
    length out \<le> max_case_fold_literal_variants"
proof (induction F vs vals rule: expand_variants.induct)
  case (2 F v vs vals)
  have "length (concat (map (\<lambda>p. map (\<lambda>choice. p @ choice) choices) vals)) = length vals * length choices" for choices :: "string list"
    by (induction vals) auto
  then show ?case using 2 by (auto split: option.splits if_splits)
qed simp

lemma distinct_remdups_adj: "sorted xs \<Longrightarrow> distinct (remdups_adj xs)"
  by (induction xs rule: remdups_adj.induct) (auto simp: less_le)

lemma variants_facts:
  assumes "case_fold_literal_variants F value = Some v"
  shows "set (lv_values v) = {concat (map ascii_fold cs) |cs. folds_to F value cs} \<and>
    length (lv_values v) \<le> max_case_fold_literal_variants \<and> sorted (lv_values v) \<and> distinct (lv_values v)"
proof -
  obtain out where out: "expand_variants F (utf8_chars value) [[]] = Some out" "lv_values v = remdups_adj (sort out)"
    using assms by (auto simp: case_fold_literal_variants_def Let_def split: if_splits)
  have "length out \<le> max_case_fold_literal_variants"
    using expand_variants_length [OF out(1)] by (simp add: max_case_fold_literal_variants_def)
  then have len: "length (remdups_adj (sort out)) \<le> max_case_fold_literal_variants"
    by (rule order_trans [OF _ _, rotated]) (metis length_sort remdups_adj_length)
  have "set (lv_values v) = {concat (map ascii_fold cs) |cs. folds_to F value cs}"
    using expand_variants_set [OF out(1)] out(2) by (simp add: folds_to_def)
  moreover have "sorted (lv_values v) \<and> distinct (lv_values v)"
    using out(2) by (simp add: sorted_remdups_adj distinct_remdups_adj)
  ultimately show ?thesis using len out(2) by simp
qed

text \<open>The index literals of a case-insensitive query are complete and few.  When the query has variants at
  all they are, each once and in order, exactly the ASCII-folded forms of the texts a case-insensitive
  matcher accepts for it, character by character, and there are at most 32 of them; a query with more is
  refused instead of being given an incomplete list.\<close>

theorem fold_variants_complete:
  assumes "case_fold_literal_variants F value = Some v"
  shows "set (lv_values v) = {concat (map ascii_fold cs) |cs. folds_to F value cs} \<and>
    length (lv_values v) \<le> 32 \<and> sorted (lv_values v) \<and> distinct (lv_values v)"
  using variants_facts [OF assms] by (simp add: max_case_fold_literal_variants_def)

definition sample_fold :: fold_table where
  "sample_fold c = Some (if c = ''k'' \<or> c = ''K'' then [''K'', ''k'', [CHR 0xE2, CHR 0x84, CHR 0xAA]] else [c])"

lemma sample_lower: "ascii_lower (CHR ''K'') = CHR ''k''" "ascii_lower (CHR ''k'') = CHR ''k''" "ascii_lower (CHR ''o'') = CHR ''o''"
  by (simp_all add: ascii_lower_def is_ascii_upper_def char_of_def bit_simps bit_iff_odd)

theorem fold_variants_complete_witness:
  "\<exists>v. case_fold_literal_variants sample_fold ''ok'' = Some v \<and> ''ok'' \<in> set (lv_values v) \<and> length (lv_values v) \<le> 32"
proof -
  have "folds_to sample_fold ''ok'' [''o'', ''K'']"
    by (simp add: folds_to_def sample_fold_def is_cont_def)
  moreover have "concat (map ascii_fold [''o'', ''K'']) = ''ok''"
    by (simp add: ascii_fold_def sample_lower)
  ultimately have ok: "\<exists>cs. ''ok'' = concat (map ascii_fold cs) \<and> folds_to sample_fold ''ok'' cs" by metis
  obtain v where v: "case_fold_literal_variants sample_fold ''ok'' = Some v"
    by (simp add: case_fold_literal_variants_def fold_choices_def sample_fold_def is_cont_def
        max_case_fold_literal_variants_def ascii_fold_def sample_lower less_char_def Let_def)
  have "''ok'' \<in> set (lv_values v)" using fold_variants_complete [OF v] ok by simp
  then show ?thesis using fold_variants_complete [OF v] v by blast
qed

end
