(* ===== verification/Regex_Plan.thy ===== *)
theory Regex_Plan
  imports Symbol_Identity Fault_IO
begin

text \<open>
  Planning a regular expression search over the trigram index (\<open>src/services/search/regex_plan.rs\<close>,
  \<open>src/services/search/types.rs\<close>).  The planner walks the parsed pattern, keeps the literal words every
  match must contain and builds an index query from them; a chunk the query does not return is never
  verified, so a plan is correct when every chunk that matches the pattern satisfies it.  The parser and
  the literal extractor of \<open>regex_syntax\<close> are the fields of \<open>regex_lib\<close>.
\<close>

section \<open>Patterns\<close>

text \<open>
  The nodes of a parsed pattern.  A class is the set of texts it stands for, an assertion a condition on
  a position of the content; \<open>match_hir c h i j\<close> says that \<open>h\<close> matches \<open>c\<close> from \<open>i\<close> to \<open>j\<close>.
\<close>

datatype hir =
    Hir_Empty
  | Hir_Literal string
  | Hir_Class "string \<Rightarrow> bool"
  | Hir_Look "string \<Rightarrow> nat \<Rightarrow> bool"
  | Hir_Repetition nat "nat option" hir
  | Hir_Capture hir
  | Hir_Concat "hir list"
  | Hir_Alternation "hir list"

definition slice :: "string \<Rightarrow> nat \<Rightarrow> nat \<Rightarrow> string" where
  "slice c i j = take (j - i) (drop i c)"

primrec match_hir :: "string \<Rightarrow> hir \<Rightarrow> nat \<Rightarrow> nat \<Rightarrow> bool" where
  "match_hir c Hir_Empty = (\<lambda>i j. i = j)"
| "match_hir c (Hir_Literal l) = (\<lambda>i j. i \<le> j \<and> j \<le> length c \<and> slice c i j = l)"
| "match_hir c (Hir_Class p) = (\<lambda>i j. i \<le> j \<and> j \<le> length c \<and> p (slice c i j))"
| "match_hir c (Hir_Look p) = (\<lambda>i j. i = j \<and> p c i)"
| "match_hir c (Hir_Repetition lo hi h) =
     (\<lambda>i j. \<exists>n \<ge> lo. (case hi of None \<Rightarrow> True | Some m \<Rightarrow> n \<le> m) \<and> (match_hir c h ^^ n) i j)"
| "match_hir c (Hir_Capture h) = match_hir c h"
| "match_hir c (Hir_Concat hs) = foldr (OO) (map (match_hir c) hs) (=)"
| "match_hir c (Hir_Alternation hs) = (\<lambda>i j. \<exists>r \<in> set (map (match_hir c) hs). r i j)"

definition found_in :: "hir \<Rightarrow> string \<Rightarrow> bool" where
  "found_in h c \<longleftrightarrow> (\<exists>i j. i \<le> j \<and> j \<le> length c \<and> match_hir c h i j)"

datatype extract_kind = Extract_Prefix | Extract_Suffix

text \<open>\<open>rl_extract\<close> answers with the literals, when the sequence is finite, and the length of the shortest.\<close>

record regex_lib =
  rl_parse :: "string \<Rightarrow> hir option"
  rl_extract :: "extract_kind \<Rightarrow> hir \<Rightarrow> string list option \<times> nat option"

section \<open>Plans\<close>

datatype search_mode_text = Exhaustive_Text | Exhaustive_Regex

datatype search_kind =
    Kind_Auto bool
  | Kind_Text
  | Kind_Regex
  | Kind_Identifier bool
  | Kind_Symbol
  | Kind_Reference
  | Kind_Exhaustive search_mode_text

definition is_exhaustive_text :: "search_kind \<Rightarrow> bool" where
  "is_exhaustive_text k \<longleftrightarrow> k = Kind_Exhaustive Exhaustive_Text"

record search_input =
  si_query :: string
  si_kind :: search_kind
  si_include_paths :: "string list"
  si_exclude_paths :: "string list"
  si_case_sensitive :: bool

definition max_regex_plan_nodes :: nat where "max_regex_plan_nodes = 256"
definition max_regex_plan_terms :: nat where "max_regex_plan_terms = 32"
definition max_regex_plan_term_bytes :: nat where "max_regex_plan_term_bytes = 256"
definition max_literal_identifier_plan_bytes :: nat where "max_literal_identifier_plan_bytes = 4 * 1024"
definition min_literal_identifier_bytes :: nat where "min_literal_identifier_bytes = 12"

datatype plan_source = Literal_Identifier | Mandatory_Literals | Prefix_Literals | Suffix_Literals

datatype regex_fallback =
    Planning_Disabled | Case_Insensitive_Unicode | Literal_Identifier_Ineligible | Hir_Parse_Failed
  | Plan_Node_Limit | Plan_Term_Limit | Plan_Term_Bytes_Limit | Literal_Sequence_Unavailable

datatype candidate_expr = Term string | All_Of "candidate_expr list" | Any_Of "candidate_expr list"

record candidate_plan =
  pl_expression :: candidate_expr
  pl_source :: plan_source
  pl_nodes_visited :: nat
  pl_term_count :: nat
  pl_term_bytes :: nat
  pl_alternative_count :: nat
  pl_min_literal_len :: nat

record plan_diagnostics =
  pd_fallback_reason :: regex_fallback
  pd_nodes_visited :: nat
  pd_term_count :: nat
  pd_term_bytes :: nat

datatype plan_decision = Planned candidate_plan | Fallback plan_diagnostics

datatype plan_exceeded = Exceeded_Nodes | Exceeded_Terms | Exceeded_Term_Bytes

record plan_budget =
  pb_nodes :: nat
  pb_terms :: nat
  pb_term_bytes :: nat

definition empty_plan_budget :: plan_budget where
  "empty_plan_budget = \<lparr>pb_nodes = 0, pb_terms = 0, pb_term_bytes = 0\<rparr>"

type_synonym 'a planning = "(plan_budget, plan_exceeded, 'a) io"

definition add_term :: "string \<Rightarrow> unit planning" where
  "add_term t b =
     (let b = b\<lparr>pb_terms := sat_add (pb_terms b) 1, pb_term_bytes := sat_add (pb_term_bytes b) (length t)\<rparr> in
      if max_regex_plan_terms < pb_terms b then (Failed Exceeded_Terms, b)
      else if max_regex_plan_term_bytes < pb_term_bytes b then (Failed Exceeded_Term_Bytes, b)
      else (Done (), b))"

definition combine_candidate_expr :: "candidate_expr list \<Rightarrow> bool \<Rightarrow> candidate_expr option" where
  "combine_candidate_expr es conjunctive =
     (case es of
        [] \<Rightarrow> None
      | [e] \<Rightarrow> Some e
      | _ \<Rightarrow> Some (if conjunctive then All_Of es else Any_Of es))"

section \<open>From patterns to plans\<close>

definition term_separator :: "char \<Rightarrow> bool" where
  "term_separator c \<longleftrightarrow> \<not> is_ascii_alphanumeric c \<and> c \<noteq> CHR ''_''"

fun literal_terms :: "string list \<Rightarrow> candidate_expr list planning" where
  "literal_terms [] = io_return []"
| "literal_terms (piece # pieces) =
     (if length piece < 3 then literal_terms pieces
      else if \<not> utf8_valid piece then literal_terms pieces
      else io_then (add_term piece) (io_bind (literal_terms pieces) (\<lambda>terms. io_return (Term piece # terms))))"

definition literal_candidate_expr :: "string \<Rightarrow> candidate_expr option planning" where
  "literal_candidate_expr literal =
     io_bind (literal_terms (split_by term_separator literal)) (\<lambda>terms. io_return (combine_candidate_expr terms True))"

fun regex_candidate_expr :: "hir \<Rightarrow> candidate_expr option planning"
  and concat_plans :: "hir list \<Rightarrow> candidate_expr list planning"
  and alternation_plans :: "hir list \<Rightarrow> candidate_expr list option planning" where
  "regex_candidate_expr (Hir_Literal l) = literal_candidate_expr l"
| "regex_candidate_expr (Hir_Capture h) = regex_candidate_expr h"
| "regex_candidate_expr (Hir_Repetition lo hi h) = (if 0 < lo then regex_candidate_expr h else io_return None)"
| "regex_candidate_expr (Hir_Concat hs) =
     io_bind (concat_plans hs) (\<lambda>plans. io_return (combine_candidate_expr plans True))"
| "regex_candidate_expr (Hir_Alternation hs) =
     io_bind (alternation_plans hs) (\<lambda>plans. io_return
       (case plans of None \<Rightarrow> None | Some plans \<Rightarrow> combine_candidate_expr plans False))"
| "regex_candidate_expr h = io_return None"
| "concat_plans [] = io_return []"
| "concat_plans (h # hs) =
     io_bind (regex_candidate_expr h) (\<lambda>plan.
       io_bind (concat_plans hs) (\<lambda>plans. io_return (case plan of None \<Rightarrow> plans | Some p \<Rightarrow> p # plans)))"
| "alternation_plans [] = io_return (Some [])"
| "alternation_plans (h # hs) =
     io_bind (regex_candidate_expr h) (\<lambda>plan.
       case plan of
         None \<Rightarrow> io_return None
       | Some p \<Rightarrow> io_bind (alternation_plans hs) (\<lambda>plans. io_return (map_option ((#) p) plans)))"

fun visit_nodes :: "hir \<Rightarrow> nat \<Rightarrow> plan_exceeded + nat"
  and visit_all :: "hir list \<Rightarrow> nat \<Rightarrow> plan_exceeded + nat" where
  "visit_nodes h nodes =
     (let nodes = sat_add nodes 1 in
      if max_regex_plan_nodes < nodes then Inl Exceeded_Nodes
      else
        (case h of
           Hir_Capture sub \<Rightarrow> visit_nodes sub nodes
         | Hir_Repetition lo hi sub \<Rightarrow> visit_nodes sub nodes
         | Hir_Concat hs \<Rightarrow> visit_all hs nodes
         | Hir_Alternation hs \<Rightarrow> visit_all hs nodes
         | _ \<Rightarrow> Inr nodes))"
| "visit_all [] nodes = Inr nodes"
| "visit_all (h # hs) nodes = (case visit_nodes h nodes of Inl e \<Rightarrow> Inl e | Inr nodes \<Rightarrow> visit_all hs nodes)"

declare visit_nodes.simps [simp del]

definition bounded_hir_node_count :: "hir \<Rightarrow> plan_exceeded + nat" where
  "bounded_hir_node_count h = visit_nodes h 0"

fun exceeded_reason :: "plan_exceeded \<Rightarrow> regex_fallback" where
  "exceeded_reason Exceeded_Nodes = Plan_Node_Limit"
| "exceeded_reason Exceeded_Terms = Plan_Term_Limit"
| "exceeded_reason Exceeded_Term_Bytes = Plan_Term_Bytes_Limit"

definition regex_plan_budget_fallback :: "plan_exceeded \<Rightarrow> plan_budget \<Rightarrow> plan_decision" where
  "regex_plan_budget_fallback e b =
     Fallback \<lparr>pd_fallback_reason = exceeded_reason e, pd_nodes_visited = pb_nodes b, pd_term_count = pb_terms b,
       pd_term_bytes = pb_term_bytes b\<rparr>"

fun literal_alternatives :: "string list \<Rightarrow> candidate_expr list option planning" where
  "literal_alternatives [] = io_return (Some [])"
| "literal_alternatives (l # ls) =
     io_bind (literal_candidate_expr l) (\<lambda>plan.
       case plan of
         None \<Rightarrow> io_return None
       | Some p \<Rightarrow> io_bind (literal_alternatives ls) (\<lambda>plans. io_return (map_option ((#) p) plans)))"

definition extracted_literal_plan ::
  "regex_lib \<Rightarrow> hir \<Rightarrow> nat \<Rightarrow> extract_kind \<Rightarrow> plan_source \<Rightarrow> (plan_exceeded \<times> plan_budget) + candidate_plan option" where
  "extracted_literal_plan L h nodes kind source =
     (case rl_extract L kind h of
        (literals, shortest) \<Rightarrow>
          (case literals of
             None \<Rightarrow> Inr None
           | Some [] \<Rightarrow> Inr None
           | Some ls \<Rightarrow>
               (case literal_alternatives ls (empty_plan_budget\<lparr>pb_nodes := nodes\<rparr>) of
                  (Failed e, b) \<Rightarrow> Inl (e, b)
                | (Crashed, _) \<Rightarrow> Inr None
                | (Done None, _) \<Rightarrow> Inr None
                | (Done (Some alternatives), b) \<Rightarrow>
                    Inr (map_option (\<lambda>e. \<lparr>pl_expression = e, pl_source = source, pl_nodes_visited = nodes,
                      pl_term_count = pb_terms b, pl_term_bytes = pb_term_bytes b,
                      pl_alternative_count = length alternatives,
                      pl_min_literal_len = (case shortest of None \<Rightarrow> 0 | Some n \<Rightarrow> n)\<rparr>)
                      (combine_candidate_expr alternatives False)))))"

fun regex_plan_source_order :: "plan_source \<Rightarrow> nat" where
  "regex_plan_source_order Literal_Identifier = 0"
| "regex_plan_source_order Mandatory_Literals = 1"
| "regex_plan_source_order Prefix_Literals = 2"
| "regex_plan_source_order Suffix_Literals = 3"

definition plan_cmp :: "candidate_plan cmp" where
  "plan_cmp l r =
     then_with (ord_cmp (pl_alternative_count l) (pl_alternative_count r))
    (then_with (ord_cmp (pl_min_literal_len r) (pl_min_literal_len l))
    (then_with (ord_cmp (pl_term_bytes r) (pl_term_bytes l))
       (ord_cmp (regex_plan_source_order (pl_source l)) (regex_plan_source_order (pl_source r)))))"

definition extracted_regex_candidate_plan :: "regex_lib \<Rightarrow> hir \<Rightarrow> nat \<Rightarrow> plan_decision option" where
  "extracted_regex_candidate_plan L h nodes =
     (let outcomes = [extracted_literal_plan L h nodes Extract_Prefix Prefix_Literals,
                      extracted_literal_plan L h nodes Extract_Suffix Suffix_Literals];
          plans = List.map_filter (\<lambda>r. case r of Inr p \<Rightarrow> p | Inl _ \<Rightarrow> None) outcomes;
          limits = List.map_filter (\<lambda>r. case r of Inl l \<Rightarrow> Some l | Inr _ \<Rightarrow> None) outcomes in
      case sort_by plan_cmp plans of
        [] \<Rightarrow> (case limits of [] \<Rightarrow> None | (e, b) # _ \<Rightarrow> Some (regex_plan_budget_fallback e b))
      | best # _ \<Rightarrow> Some (Planned best))"

definition no_work :: "regex_fallback \<Rightarrow> plan_decision" where
  "no_work reason = Fallback \<lparr>pd_fallback_reason = reason, pd_nodes_visited = 0, pd_term_count = 0, pd_term_bytes = 0\<rparr>"

definition regex_candidate_plan :: "regex_lib \<Rightarrow> search_input \<Rightarrow> plan_decision" where
  "regex_candidate_plan L request =
     (if \<not> si_case_sensitive request then no_work Case_Insensitive_Unicode
      else
        (case rl_parse L (si_query request) of
           None \<Rightarrow> no_work Hir_Parse_Failed
         | Some h \<Rightarrow>
             (case bounded_hir_node_count h of
                Inl e \<Rightarrow> regex_plan_budget_fallback e (empty_plan_budget\<lparr>pb_nodes := sat_add max_regex_plan_nodes 1\<rparr>)
              | Inr nodes \<Rightarrow>
                  (case regex_candidate_expr h (empty_plan_budget\<lparr>pb_nodes := nodes\<rparr>) of
                     (Done (Some e), b) \<Rightarrow>
                       Planned \<lparr>pl_expression = e, pl_source = Mandatory_Literals, pl_nodes_visited = nodes,
                         pl_term_count = pb_terms b, pl_term_bytes = pb_term_bytes b, pl_alternative_count = 1,
                         pl_min_literal_len = 0\<rparr>
                   | (Failed e, b) \<Rightarrow> regex_plan_budget_fallback e b
                   | (_, b) \<Rightarrow>
                       (case extracted_regex_candidate_plan L h nodes of
                          Some d \<Rightarrow> d
                        | None \<Rightarrow> Fallback \<lparr>pd_fallback_reason = Literal_Sequence_Unavailable, pd_nodes_visited = nodes,
                            pd_term_count = pb_terms b, pd_term_bytes = pb_term_bytes b\<rparr>)))))"

section \<open>Long identifiers\<close>

fun identifier_terms :: "string list \<Rightarrow> nat \<Rightarrow> nat \<Rightarrow> plan_diagnostics + candidate_expr list \<times> nat" where
  "identifier_terms [] taken bytes = Inr ([], bytes)"
| "identifier_terms (v # vs) taken bytes =
     (let bytes = sat_add bytes (length v) in
      if max_literal_identifier_plan_bytes < bytes then
        Inl \<lparr>pd_fallback_reason = Plan_Term_Bytes_Limit, pd_nodes_visited = 0, pd_term_count = sat_add taken 1, pd_term_bytes = bytes\<rparr>
      else
        (case identifier_terms vs (taken + 1) bytes of
           Inl d \<Rightarrow> Inl d
         | Inr (terms, bytes) \<Rightarrow> Inr (Term v # terms, bytes)))"

definition identifier_eligible :: "search_input \<Rightarrow> bool" where
  "identifier_eligible request \<longleftrightarrow>
     is_exhaustive_text (si_kind request) \<and> min_literal_identifier_bytes \<le> length (si_query request) \<and>
     list_all (\<lambda>b. byte b < 128) (si_query request) \<and>
     list_all (\<lambda>b. is_ascii_alphanumeric b \<or> b = CHR ''_'') (si_query request) \<and>
     list_ex is_ascii_alphanumeric (si_query request)"

definition literal_identifier_candidate_plan :: "fold_table \<Rightarrow> search_input \<Rightarrow> plan_decision" where
  "literal_identifier_candidate_plan F request =
     (if \<not> identifier_eligible request then no_work Literal_Identifier_Ineligible
      else
        (case (if si_case_sensitive request then Some [si_query request]
               else map_option lv_values (case_fold_literal_variants F (si_query request))) of
           None \<Rightarrow> no_work Case_Insensitive_Unicode
         | Some variants \<Rightarrow>
             (case identifier_terms variants 0 0 of
                Inl d \<Rightarrow> Fallback d
              | Inr (alternatives, bytes) \<Rightarrow>
                  (case combine_candidate_expr alternatives False of
                     None \<Rightarrow> no_work Literal_Sequence_Unavailable
                   | Some e \<Rightarrow> Planned \<lparr>pl_expression = e, pl_source = Literal_Identifier, pl_nodes_visited = 0,
                       pl_term_count = length variants, pl_term_bytes = bytes, pl_alternative_count = length variants,
                       pl_min_literal_len = length (si_query request)\<rparr>))))"

text \<open>Which planner \<open>regex_hits\<close> asks.\<close>

definition plan_search :: "regex_lib \<Rightarrow> fold_table \<Rightarrow> search_input \<Rightarrow> plan_decision" where
  "plan_search L F request =
     (if is_exhaustive_text (si_kind request) then literal_identifier_candidate_plan F request
      else regex_candidate_plan L request)"

section \<open>The query of a plan\<close>

definition fts_quote :: "string \<Rightarrow> string" where
  "fts_quote value = CHR 0x22 # concat (map (\<lambda>c. if c = CHR 0x22 then [c, c] else [c]) value) @ [CHR 0x22]"

fun fts_query :: "candidate_expr \<Rightarrow> string" where
  "fts_query (Term t) = fts_quote t"
| "fts_query (All_Of es) = str_join '' AND '' (map (\<lambda>e. ''('' @ fts_query e @ '')'') es)"
| "fts_query (Any_Of es) = str_join '' OR '' (map (\<lambda>e. ''('' @ fts_query e @ '')'') es)"

section \<open>Soundness\<close>

text \<open>What the trigram index can tell of a content: it folds ASCII case.\<close>

fun admits_expr :: "string \<Rightarrow> candidate_expr \<Rightarrow> bool" where
  "admits_expr c (Term t) = str_contains (to_ascii_lowercase c) (to_ascii_lowercase t)"
| "admits_expr c (All_Of es) = list_all (admits_expr c) es"
| "admits_expr c (Any_Of es) = list_ex (admits_expr c) es"

lemma str_contains_iff: "str_contains s t \<longleftrightarrow> (\<exists>a b. s = a @ t @ b)"
proof (induction s)
  case (Cons c s)
  have "(\<exists>a b. c # s = a @ t @ b) \<longleftrightarrow> (\<exists>b. c # s = t @ b) \<or> (\<exists>a b. s = a @ t @ b)"
    by (metis append_Cons append_Nil list.exhaust list.inject)
  then show ?case using Cons.IH by (simp add: starts_with_iff)
qed auto

lemma admits_term: "c = a @ t @ b \<Longrightarrow> admits_expr c (Term t)"
  by (auto simp: str_contains_iff to_ascii_lowercase_def)

lemma split_by_infix: "w \<in> set (split_by p s) \<Longrightarrow> \<exists>a b. s = a @ w @ b"
proof (induction s arbitrary: w)
  case (Cons c s)
  show ?case
  proof (cases "p c")
    case True
    then consider "w = []" | "w \<in> set (split_by p s)" using Cons.prems by auto
    then show ?thesis
    proof cases
      case 2
      then obtain a b where "s = a @ w @ b" using Cons.IH by blast
      then have "c # s = (c # a) @ w @ b" by simp
      then show ?thesis by blast
    qed auto
  next
    case False
    obtain v ws where sp: "split_by p s = v # ws" using split_by_not_Nil [of p s] by (meson neq_Nil_conv)
    obtain a b where ab: "s = a @ v @ b" using Cons.IH [of v] sp by auto
    have head: "\<exists>b. s = v @ b"
      using sp by (induction s arbitrary: v ws) (auto split: list.splits if_splits)
    from Cons.prems False sp consider "w = c # v" | "w \<in> set ws" by auto
    then show ?thesis
    proof cases
      case 1
      then show ?thesis using head by (metis append_Cons append_Nil)
    next
      case 2
      then obtain a b where "s = a @ w @ b" using Cons.IH [of w] sp by auto
      then have "c # s = (c # a) @ w @ b" by simp
      then show ?thesis by blast
    qed
  qed
qed simp

lemma combine_all: "combine_candidate_expr es True = Some e \<Longrightarrow> admits_expr c e \<longleftrightarrow> list_all (admits_expr c) es"
  by (auto simp: combine_candidate_expr_def split: list.splits)

lemma combine_any: "combine_candidate_expr es False = Some e \<Longrightarrow> admits_expr c e \<longleftrightarrow> list_ex (admits_expr c) es"
  by (auto simp: combine_candidate_expr_def split: list.splits)

lemma literal_terms_pieces: "literal_terms ps b = (Done ts, b') \<Longrightarrow> e \<in> set ts \<Longrightarrow> \<exists>p \<in> set ps. e = Term p"
proof (induction ps arbitrary: b ts)
  case (Cons p ps)
  then show ?case by (auto simp: io_steps split: if_splits) blast+
qed (simp add: io_steps)

lemma literal_expr_admits:
  assumes "literal_candidate_expr l b = (Done (Some e), b')" "c = u @ l @ v"
  shows "admits_expr c e"
proof -
  obtain ts b1 where ts: "literal_terms (split_by term_separator l) b = (Done ts, b1)" "combine_candidate_expr ts True = Some e"
    using assms(1) by (auto simp: literal_candidate_expr_def io_steps)
  have "admits_expr c t" if t: "t \<in> set ts" for t
  proof -
    obtain p where p: "p \<in> set (split_by term_separator l)" "t = Term p" using literal_terms_pieces [OF ts(1) t] by blast
    obtain a b where "l = a @ p @ b" using split_by_infix [OF p(1)] by blast
    then have "c = (u @ a) @ p @ (b @ v)" using assms(2) by simp
    then show ?thesis using admits_term p(2) by blast
  qed
  then show ?thesis using combine_all [OF ts(2)] by (simp add: list_all_iff)
qed

lemma slice_infix: "\<exists>a b. c = a @ slice c i j @ b"
proof -
  have "c = take i c @ slice c i j @ drop (j - i) (drop i c)" unfolding slice_def append_take_drop_id ..
  then show ?thesis by blast
qed

lemma candidate_expr_sound:
  shows "\<And>b e b' i j. regex_candidate_expr h b = (Done (Some e), b') \<Longrightarrow> match_hir c h i j \<Longrightarrow> admits_expr c e"
    and "\<And>b es b' i j. concat_plans hs b = (Done es, b') \<Longrightarrow> foldr (OO) (map (match_hir c) hs) (=) i j \<Longrightarrow> list_all (admits_expr c) es"
    and "\<And>b es b' i j. alternation_plans hs' b = (Done (Some es), b') \<Longrightarrow> \<exists>r \<in> set (map (match_hir c) hs'). r i j \<Longrightarrow>
      list_ex (admits_expr c) es"
proof (induction h and hs and hs' rule: regex_candidate_expr_concat_plans_alternation_plans.induct)
  case (1 l)
  obtain u v where "c = u @ l @ v" using 1(2) slice_infix [of c i j] by auto
  then show ?case using literal_expr_admits 1(1) by simp
next
  case (3 lo hi h)
  then obtain n where n: "lo \<le> n" "(match_hir c h ^^ n) i j" "0 < lo" by (auto simp: io_steps split: if_splits)
  then obtain m where "n = Suc m" by (cases n) auto
  then obtain k where "match_hir c h i k" using n(2) by (blast dest: relpowp_Suc_D2)
  then show ?case using 3 n(3) by auto
next
  case (4 hs)
  then show ?case by (auto simp: io_steps combine_all)
next
  case (5 hs)
  then obtain es where "alternation_plans hs b = (Done (Some es), b')" "combine_candidate_expr es False = Some e"
    by (auto simp: io_steps split: option.splits)
  then show ?case using 5(1) [of b es b'] 5(3) combine_any by auto
next
  case (8 h hs)
  obtain p u es' where run: "regex_candidate_expr h b = (Done p, u)" "concat_plans hs u = (Done es', b')"
    "es = (case p of None \<Rightarrow> es' | Some p \<Rightarrow> p # es')" using 8(3) by (auto simp: io_steps)
  obtain k where k: "match_hir c h i k" "foldr (OO) (map (match_hir c) hs) (=) k j" using 8(4) by auto
  then show ?case using 8(1) 8(2) run by (auto split: option.splits)
next
  case (10 h hs)
  obtain p u es' where run: "regex_candidate_expr h b = (Done (Some p), u)" "alternation_plans hs u = (Done (Some es'), b')" "es = p # es'"
    using 10(3) by (fastforce simp: io_steps split: option.splits dest: sym [of "Some es"])
  from 10(4) consider "match_hir c h i j" | "\<exists>r \<in> set (map (match_hir c) hs). r i j" by auto
  then show ?case
  proof cases
    case 1
    then show ?thesis using 10(1) [OF run(1) 1] run(3) by simp
  next
    case 2
    then show ?thesis using 10(2) [OF run(2) 2] run(3) by simp
  qed
qed (auto simp: io_steps)

text \<open>
  What the libraries promise.  A finite sequence of prefix (suffix) literals: every match starts (ends)
  with one of them.  A folding class lists encoded characters.
\<close>

definition extractor_ok :: "regex_lib \<Rightarrow> bool" where
  "extractor_ok L \<longleftrightarrow>
     (\<forall>h ls n c i j. i \<le> j \<longrightarrow> j \<le> length c \<longrightarrow> match_hir c h i j \<longrightarrow>
       (rl_extract L Extract_Prefix h = (Some ls, n) \<longrightarrow> (\<exists>l \<in> set ls. starts_with (slice c i j) l)) \<and>
       (rl_extract L Extract_Suffix h = (Some ls, n) \<longrightarrow> (\<exists>l \<in> set ls. ends_with (slice c i j) l)))"

definition encoded_char :: "string \<Rightarrow> bool" where
  "encoded_char c \<longleftrightarrow> (case c of [] \<Rightarrow> False
     | b # bs \<Rightarrow> \<not> is_cont b \<and> list_all is_cont bs \<and> (bs \<noteq> [] \<longrightarrow> 128 \<le> byte b))"

definition fold_table_ok :: "fold_table \<Rightarrow> bool" where
  "fold_table_ok F \<longleftrightarrow> (\<forall>v cls c. F v = Some cls \<longrightarrow> c \<in> set cls \<longrightarrow> encoded_char c)"

lemma encoded_char_bytes: "encoded_char c \<Longrightarrow> length c = 1 \<or> list_all (\<lambda>b. 128 \<le> byte b) c"
  by (auto simp: encoded_char_def is_cont_def list_all_iff split: list.splits)

text \<open>The texts the compiled matcher of a request accepts, by the documentation of \<open>regex\<close>.\<close>

definition request_found :: "regex_lib \<Rightarrow> fold_table \<Rightarrow> search_input \<Rightarrow> string \<Rightarrow> bool" where
  "request_found L F request c \<longleftrightarrow>
     (if is_exhaustive_text (si_kind request) then
        (if si_case_sensitive request then \<exists>a b. c = a @ si_query request @ b
         else \<exists>a cs b. c = a @ concat cs @ b \<and> folds_to F (si_query request) cs)
      else si_case_sensitive request \<longrightarrow> (\<exists>h. rl_parse L (si_query request) = Some h \<and> found_in h c))"

lemma literal_alternatives_admit:
  assumes "literal_alternatives ls b = (Done (Some es), b')" "l \<in> set ls" "c = u @ l @ v"
  shows "list_ex (admits_expr c) es"
  using assms(1,2)
proof (induction ls arbitrary: b es)
  case (Cons l' ls)
  obtain p b1 es' where run: "literal_candidate_expr l' b = (Done (Some p), b1)" "literal_alternatives ls b1 = (Done (Some es'), b')"
    "es = p # es'" using Cons.prems(1) by (fastforce simp: io_steps split: option.splits dest: sym [of "Some es"])
  then show ?case using Cons.IH [OF run(2)] Cons.prems(2) literal_expr_admits [OF run(1)] assms(3) by auto
qed simp

lemma extracted_literal_plan_Some:
  assumes "extracted_literal_plan L h nodes kind source = Inr (Some p)"
  obtains ls n es b where "rl_extract L kind h = (Some ls, n)"
    "literal_alternatives ls (empty_plan_budget\<lparr>pb_nodes := nodes\<rparr>) = (Done (Some es), b)"
    "combine_candidate_expr es False = Some (pl_expression p)" "pl_nodes_visited p = nodes" "pl_term_count p = pb_terms b"
    "pl_term_bytes p = pb_term_bytes b"
proof -
  obtain ls n where ls: "rl_extract L kind h = (Some ls, n)" "ls \<noteq> []" using assms
    by (auto simp: extracted_literal_plan_def split: prod.splits option.splits list.splits)
  then show ?thesis using assms that [OF ls(1)]
    by (cases "literal_alternatives ls (empty_plan_budget\<lparr>pb_nodes := nodes\<rparr>)", cases ls)
      (auto simp: extracted_literal_plan_def simp del: literal_alternatives.simps split: ending.splits option.splits)
qed

lemma extracted_plan_sound:
  assumes "extracted_literal_plan L h nodes kind source = Inr (Some p)" "extractor_ok L" "found_in h c"
  shows "admits_expr c (pl_expression p)"
proof -
  obtain ls n es b where ls: "rl_extract L kind h = (Some ls, n)"
    and es: "literal_alternatives ls (empty_plan_budget\<lparr>pb_nodes := nodes\<rparr>) = (Done (Some es), b)"
      "combine_candidate_expr es False = Some (pl_expression p)"
    using extracted_literal_plan_Some [OF assms(1)] by metis
  obtain i j where ij: "i \<le> j" "j \<le> length c" "match_hir c h i j" using assms(3) by (auto simp: found_in_def)
  obtain l s t where l: "l \<in> set ls" "slice c i j = s @ l @ t"
  proof (cases kind)
    case Extract_Prefix
    then obtain l where l: "l \<in> set ls" "starts_with (slice c i j) l" using assms(2) ij ls unfolding extractor_ok_def by blast
    then obtain t where "slice c i j = l @ t" by (auto simp: starts_with_iff)
    then show ?thesis using l(1) that [of l "[]" t] by simp
  next
    case Extract_Suffix
    then obtain l where l: "l \<in> set ls" "ends_with (slice c i j) l" using assms(2) ij ls unfolding extractor_ok_def by blast
    then obtain s where "slice c i j = s @ l" by (auto simp: ends_with_iff)
    then show ?thesis using l(1) that [of l s "[]"] by simp
  qed
  obtain u v where "c = u @ slice c i j @ v" using slice_infix [of c i j] by blast
  then have "c = (u @ s) @ l @ (t @ v)" using l(2) by simp
  then show ?thesis using literal_alternatives_admit [OF es(1) l(1)] combine_any [OF es(2)] by blast
qed

lemma regex_candidate_plan_sound:
  assumes "regex_candidate_plan L request = Planned p" "extractor_ok L"
    and "rl_parse L (si_query request) = Some h" "found_in h c"
  shows "admits_expr c (pl_expression p)"
proof -
  obtain nodes where nodes: "bounded_hir_node_count h = Inr nodes"
    using assms(1,3) by (auto simp: regex_candidate_plan_def no_work_def regex_plan_budget_fallback_def split: sum.splits if_splits)
  obtain r b where rb: "regex_candidate_expr h (empty_plan_budget\<lparr>pb_nodes := nodes\<rparr>) = (r, b)" by force
  consider e where "r = Done (Some e)" "pl_expression p = e" | "extracted_regex_candidate_plan L h nodes = Some (Planned p)"
    using assms(1,3) nodes rb
    by (auto simp: regex_candidate_plan_def no_work_def regex_plan_budget_fallback_def split: ending.splits option.splits if_splits)
  then show ?thesis
  proof cases
    case 1
    obtain i j where "match_hir c h i j" using assms(4) by (auto simp: found_in_def)
    then show ?thesis using candidate_expr_sound(1) [of h _ e b c i j] rb 1 by auto
  next
    case 2
    have "p \<in> set (List.map_filter (\<lambda>r. case r of Inr p \<Rightarrow> p | Inl _ \<Rightarrow> None)
        [extracted_literal_plan L h nodes Extract_Prefix Prefix_Literals, extracted_literal_plan L h nodes Extract_Suffix Suffix_Literals])"
      (is "_ \<in> set ?plans")
    proof -
      obtain ps where "sort_by plan_cmp ?plans = p # ps" using 2
        by (auto simp: extracted_regex_candidate_plan_def Let_def regex_plan_budget_fallback_def split: list.splits prod.splits)
      then have "p \<in> set (sort_by plan_cmp ?plans)" by simp
      then show ?thesis by simp
    qed
    then have "extracted_literal_plan L h nodes Extract_Prefix Prefix_Literals = Inr (Some p) \<or>
        extracted_literal_plan L h nodes Extract_Suffix Suffix_Literals = Inr (Some p)"
      by (auto simp: List.map_filter_simps split: sum.splits option.splits)
    then show ?thesis using extracted_plan_sound assms(2,4) by blast
  qed
qed

lemma identifier_terms_all: "identifier_terms vs taken bytes = Inr (ts, bytes') \<Longrightarrow> ts = map Term vs"
proof (induction vs arbitrary: taken bytes ts)
  case (Cons v vs)
  then show ?case by (auto simp: Let_def split: if_splits sum.splits prod.splits)
qed simp

lemma ascii_lower_twice [simp]: "ascii_lower (ascii_lower c) = ascii_lower c"
proof (cases "is_ascii_upper c")
  case True
  then have "byte (char_of (byte c + 32)) = byte c + 32" by (simp add: is_ascii_upper_def)
  then show ?thesis using True by (simp add: ascii_lower_def is_ascii_upper_def)
qed (simp add: ascii_lower_def)

lemma to_ascii_lowercase_simps [simp]:
  "to_ascii_lowercase (to_ascii_lowercase s) = to_ascii_lowercase s"
  "to_ascii_lowercase (s @ t) = to_ascii_lowercase s @ to_ascii_lowercase t"
  by (simp_all add: to_ascii_lowercase_def)

lemma ascii_fold_lowercase:
  assumes "length c = 1 \<or> list_all (\<lambda>b. 128 \<le> byte b) c"
  shows "ascii_fold c = to_ascii_lowercase c"
proof -
  have "ascii_lower b = b" if "128 \<le> byte b" for b using that by (simp add: ascii_lower_def is_ascii_upper_def)
  then have "list_all (\<lambda>b. 128 \<le> byte b) c \<Longrightarrow> to_ascii_lowercase c = c" by (induction c) (auto simp: to_ascii_lowercase_def)
  moreover have "list_all (\<lambda>b. 128 \<le> byte b) c \<Longrightarrow> ascii_fold c = c"
    using \<open>\<And>b. 128 \<le> byte b \<Longrightarrow> ascii_lower b = b\<close> by (auto simp: ascii_fold_def split: list.splits)
  moreover have "length c = 1 \<Longrightarrow> ascii_fold c = to_ascii_lowercase c"
    by (cases c) (auto simp: ascii_fold_def to_ascii_lowercase_def)
  ultimately show ?thesis using assms by auto
qed

lemma folds_to_lowercase:
  assumes "fold_table_ok F" "folds_to F value cs"
  shows "concat (map ascii_fold cs) = to_ascii_lowercase (concat cs)"
proof -
  have "ascii_fold c = to_ascii_lowercase c" if "c \<in> set cs" for c
  proof -
    obtain i where i: "i < length cs" "cs ! i = c" using \<open>c \<in> set cs\<close> by (auto simp: in_set_conv_nth)
    obtain v cls where "F v = Some cls" "c \<in> set cls"
      using list_all2_nthD2 [OF assms(2) [unfolded folds_to_def] i(1)] i(2) by blast
    then show ?thesis using assms(1) by (intro ascii_fold_lowercase encoded_char_bytes) (auto simp: fold_table_ok_def)
  qed
  then show ?thesis by (induction cs) (auto simp: to_ascii_lowercase_def)
qed

lemma identifier_plan_sound:
  assumes "literal_identifier_candidate_plan F request = Planned p" "fold_table_ok F"
    and "if si_case_sensitive request then \<exists>a b. c = a @ si_query request @ b
         else \<exists>a cs b. c = a @ concat cs @ b \<and> folds_to F (si_query request) cs"
  shows "admits_expr c (pl_expression p)"
proof -
  let ?variants = "if si_case_sensitive request then Some [si_query request]
    else map_option lv_values (case_fold_literal_variants F (si_query request))"
  obtain vs ts bytes where vs: "?variants = Some vs" "identifier_terms vs 0 0 = Inr (ts, bytes)"
    "combine_candidate_expr ts False = Some (pl_expression p)"
    using assms(1) unfolding literal_identifier_candidate_plan_def no_work_def
    by (auto split: if_splits option.splits sum.splits prod.splits)
  have "\<exists>v \<in> set vs. admits_expr c (Term v)"
  proof (cases "si_case_sensitive request")
    case True
    then obtain a b where "c = a @ si_query request @ b" using assms(3) by auto
    then have "admits_expr c (Term (si_query request))" by (rule admits_term)
    then show ?thesis using vs(1) True by auto
  next
    case False
    then obtain a cs b where cs: "c = a @ concat cs @ b" "folds_to F (si_query request) cs" using assms(3) by auto
    obtain v where v: "case_fold_literal_variants F (si_query request) = Some v" "vs = lv_values v"
      using vs(1) False by auto
    have "to_ascii_lowercase (concat cs) \<in> set vs"
      using variants_facts [OF v(1)] v(2) cs(2) folds_to_lowercase [OF assms(2) cs(2)] by auto
    moreover have "admits_expr c (Term (to_ascii_lowercase (concat cs)))" using cs(1) by (auto simp: str_contains_iff)
    ultimately show ?thesis by blast
  qed
  then show ?thesis using combine_any [OF vs(3)] identifier_terms_all [OF vs(2)] by (auto simp: list_ex_iff)
qed

lemma regex_plan_sound_lemma:
  assumes "plan_search L F request = Planned p" "extractor_ok L" "fold_table_ok F" "request_found L F request c"
  shows "admits_expr c (pl_expression p)"
proof (cases "is_exhaustive_text (si_kind request)")
  case True
  then show ?thesis using assms identifier_plan_sound [of F request p c] by (simp add: plan_search_def request_found_def)
next
  case False
  then have plan: "regex_candidate_plan L request = Planned p" using assms(1) by (simp add: plan_search_def)
  then have "si_case_sensitive request" by (auto simp: regex_candidate_plan_def no_work_def split: if_splits)
  then obtain h where "rl_parse L (si_query request) = Some h" "found_in h c"
    using assms(4) False by (auto simp: request_found_def)
  then show ?thesis using regex_candidate_plan_sound plan assms(2) by blast
qed

text \<open>C13: Planning loses nothing.  Whenever the planner answers with an index query, every content the request's
  matcher accepts satisfies that query, case folding of the index included: all the words of a
  conjunction and one branch of each alternation occur in it.  This holds for plans from the mandatory
  words of the pattern, for plans from its prefixes or suffixes and for long identifiers in either case
  mode; so no chunk that matches is left out by the index.\<close>

theorem regex_plan_sound:
  assumes "plan_search L F request = Planned p" "extractor_ok L" "fold_table_ok F" "request_found L F request c"
  shows "admits_expr c (pl_expression p)"
  using regex_plan_sound_lemma [OF assms] .

section \<open>Size of a plan\<close>

fun terms_of :: "candidate_expr \<Rightarrow> string list" where
  "terms_of (Term t) = [t]"
| "terms_of (All_Of es) = concat (map terms_of es)"
| "terms_of (Any_Of es) = concat (map terms_of es)"

definition indexable :: "string \<Rightarrow> bool" where
  "indexable t \<longleftrightarrow> 3 \<le> length t \<and> list_all (\<lambda>c. \<not> term_separator c) t"

definition words_size :: "string list \<Rightarrow> nat" where "words_size ts = sum_list (map length ts)"

text \<open>A program that builds plans pays for its words from the budget, within the limits.\<close>

definition pays :: "plan_budget \<Rightarrow> string list \<Rightarrow> plan_budget \<Rightarrow> bool" where
  "pays b ts b' \<longleftrightarrow> pb_nodes b' = pb_nodes b \<and> list_all indexable ts \<and>
     pb_terms b + length ts \<le> pb_terms b' \<and> pb_term_bytes b + words_size ts \<le> pb_term_bytes b' \<and>
     (pb_terms b \<le> max_regex_plan_terms \<longrightarrow> pb_terms b' \<le> max_regex_plan_terms) \<and>
     (pb_term_bytes b \<le> max_regex_plan_term_bytes \<longrightarrow> pb_term_bytes b' \<le> max_regex_plan_term_bytes)"

lemma pays_refl: "pays b [] b"
  by (simp add: pays_def words_size_def)

lemma pays_trans: "pays b ts b1 \<Longrightarrow> pays b1 us b2 \<Longrightarrow> pays b (ts @ us) b2"
  by (auto simp: pays_def words_size_def)

lemma pays_less: "pays b ts b' \<Longrightarrow> pays b [] b'"
  by (auto simp: pays_def words_size_def)

lemma combine_terms: "combine_candidate_expr es conjunctive = Some e \<Longrightarrow> terms_of e = concat (map terms_of es)"
  by (auto simp: combine_candidate_expr_def split: list.splits if_splits)

lemma add_term_pays:
  assumes "add_term t b = (Done (), b')" "indexable t" shows "pays b [t] b'"
  using assms
  by (auto simp: add_term_def pays_def words_size_def Let_def sat_add_def max_regex_plan_terms_def max_regex_plan_term_bytes_def
      usize_max_def split: if_splits)

lemma literal_terms_pay:
  "literal_terms ps b = (Done ts, b') \<Longrightarrow> (\<And>p. p \<in> set ps \<Longrightarrow> list_all (\<lambda>c. \<not> term_separator c) p) \<Longrightarrow>
    pays b (concat (map terms_of ts)) b'"
proof (induction ps arbitrary: b ts)
  case (Cons p ps)
  show ?case
  proof (cases "length p < 3 \<or> \<not> utf8_valid p")
    case True
    then show ?thesis using Cons by (auto split: if_splits)
  next
    case False
    then obtain b1 ts' where run: "add_term p b = (Done (), b1)" "literal_terms ps b1 = (Done ts', b')" "ts = Term p # ts'"
      using Cons.prems(1) by (auto simp: io_steps)
    have "pays b [p] b1" using run(1) False Cons.prems(2) [of p] by (intro add_term_pays) (auto simp: indexable_def)
    from pays_trans [OF this Cons.IH [OF run(2)]] show ?thesis using run(3) Cons.prems(2) by simp
  qed
qed (simp add: io_steps pays_refl)

lemma literal_expr_pays:
  assumes "literal_candidate_expr l b = (Done r, b')"
  shows "pays b (case r of None \<Rightarrow> [] | Some e \<Rightarrow> terms_of e) b'"
proof -
  obtain ts where ts: "literal_terms (split_by term_separator l) b = (Done ts, b')" "r = combine_candidate_expr ts True"
    using assms by (auto simp: literal_candidate_expr_def io_steps)
  have "pays b (concat (map terms_of ts)) b'"
    using literal_terms_pay [OF ts(1)] split_by_pieces by (auto simp: list_all_iff)
  then show ?thesis using ts(2) combine_terms [of ts True] by (auto split: option.split intro: pays_less)
qed

lemma candidate_expr_pays:
  shows "\<And>b r b'. regex_candidate_expr h b = (Done r, b') \<Longrightarrow> pays b (case r of None \<Rightarrow> [] | Some e \<Rightarrow> terms_of e) b'"
    and "\<And>b es b'. concat_plans hs b = (Done es, b') \<Longrightarrow> pays b (concat (map terms_of es)) b'"
    and "\<And>b r b'. alternation_plans hs' b = (Done r, b') \<Longrightarrow> pays b (case r of None \<Rightarrow> [] | Some es \<Rightarrow> concat (map terms_of es)) b'"
proof (induction h and hs and hs' rule: regex_candidate_expr_concat_plans_alternation_plans.induct)
  case (1 l)
  then show ?case using literal_expr_pays by simp
next
  case (3 lo hi h)
  then show ?case by (auto simp: io_steps pays_refl split: if_splits)
next
  case (4 hs)
  then obtain es where "concat_plans hs b = (Done es, b')" "r = combine_candidate_expr es True" by (auto simp: io_steps)
  then show ?case using 4(1) [of b es b'] combine_terms [of es True] by (auto split: option.split intro: pays_less)
next
  case (5 hs)
  then obtain r' where r': "alternation_plans hs b = (Done r', b')"
    "r = (case r' of None \<Rightarrow> None | Some plans \<Rightarrow> combine_candidate_expr plans False)" by (auto simp: io_steps)
  then show ?case using 5(1) [OF r'(1)] combine_terms [of _ False] by (auto split: option.splits intro: pays_less)
next
  case (8 h hs)
  obtain p u es' where run: "regex_candidate_expr h b = (Done p, u)" "concat_plans hs u = (Done es', b')"
    "es = (case p of None \<Rightarrow> es' | Some p \<Rightarrow> p # es')" using 8(3) by (auto simp: io_steps)
  from pays_trans [OF 8(1) [OF run(1)] 8(2) [OF run(2)]] show ?case using run(3) by (auto split: option.splits)
next
  case (10 h hs)
  obtain p u where run: "regex_candidate_expr h b = (Done p, u)" using 10(3) by (auto simp: io_steps)
  show ?case
  proof (cases p)
    case None
    then show ?thesis using 10(1) [OF run] 10(3) run by (auto simp: io_steps)
  next
    case (Some e)
    then obtain r' where r': "alternation_plans hs u = (Done r', b')" "r = map_option ((#) e) r'"
      using 10(3) run by (auto simp: io_steps)
    from pays_trans [OF 10(1) [OF run] 10(2) [OF r'(1)]] show ?thesis
      using r'(2) Some by (cases r') (auto intro: pays_less)
  qed
qed (auto simp: io_steps pays_refl)

lemma literal_alternatives_pay:
  "literal_alternatives ls b = (Done (Some es), b') \<Longrightarrow> pays b (concat (map terms_of es)) b'"
proof (induction ls arbitrary: b es)
  case (Cons l ls)
  obtain p b1 es' where run: "literal_candidate_expr l b = (Done (Some p), b1)" "literal_alternatives ls b1 = (Done (Some es'), b')"
    "es = p # es'" using Cons.prems(1) by (fastforce simp: io_steps split: option.splits dest: sym [of "Some es"])
  from pays_trans [OF literal_expr_pays [OF run(1)] Cons.IH [OF run(2)]] show ?case using run(3) by simp
qed (simp add: io_steps pays_refl)

lemma visit_nodes_bounded:
  shows "\<And>m. visit_nodes h n = Inr m \<Longrightarrow> m \<le> max_regex_plan_nodes"
    and "\<And>m. visit_all hs n = Inr m \<Longrightarrow> n \<le> max_regex_plan_nodes \<Longrightarrow> m \<le> max_regex_plan_nodes"
proof (induction h n and hs n rule: visit_nodes_visit_all.induct)
  case (1 h n)
  have step: "(if max_regex_plan_nodes < sat_add n 1 then Inl Exceeded_Nodes
      else case h of Hir_Capture sub \<Rightarrow> visit_nodes sub (sat_add n 1) | Hir_Repetition lo hi sub \<Rightarrow> visit_nodes sub (sat_add n 1)
        | Hir_Concat hs \<Rightarrow> visit_all hs (sat_add n 1) | Hir_Alternation hs \<Rightarrow> visit_all hs (sat_add n 1)
        | _ \<Rightarrow> Inr (sat_add n 1)) = Inr m"
    using 1(5) unfolding visit_nodes.simps [of h n] Let_def .
  show ?case using 1(1-4) step by (cases h) (auto split: if_splits)
next
  case (3 h hs n)
  then show ?case by (auto split: sum.splits)
qed simp

lemma empty_budget_limits: "pays (empty_plan_budget\<lparr>pb_nodes := n\<rparr>) ts b \<Longrightarrow>
    list_all indexable ts \<and> length ts \<le> pb_terms b \<and> pb_terms b \<le> max_regex_plan_terms \<and>
    words_size ts \<le> pb_term_bytes b \<and> pb_term_bytes b \<le> max_regex_plan_term_bytes"
  by (simp add: pays_def empty_plan_budget_def)


section \<open>Words long enough for the index\<close>

lemma utf8_chars_encoded: "encoded_char c \<Longrightarrow> (s = [] \<or> \<not> is_cont (hd s)) \<Longrightarrow> utf8_chars (c @ s) = c # utf8_chars s"
proof (cases c)
  case (Cons b bs)
  assume c: "encoded_char c" and s: "s = [] \<or> \<not> is_cont (hd s)"
  have bs: "\<forall>x \<in> set bs. is_cont x" using c Cons by (simp add: encoded_char_def list_all_iff)
  have "takeWhile is_cont s = []" "dropWhile is_cont s = s" using s by (cases s; simp)+
  then have "takeWhile is_cont (bs @ s) = bs" "dropWhile is_cont (bs @ s) = s" using bs by simp_all
  then show ?thesis using Cons by simp
qed (simp add: encoded_char_def)

lemma hd_concat_encoded: "list_all encoded_char cs \<Longrightarrow> concat cs = [] \<or> \<not> is_cont (hd (concat cs))"
  by (cases cs) (auto simp: encoded_char_def split: list.splits)

lemma utf8_chars_concat: "list_all encoded_char cs \<Longrightarrow> utf8_chars (concat cs) = cs"
proof (induction cs)
  case (Cons c cs)
  then have "utf8_chars (c @ concat cs) = c # utf8_chars (concat cs)" by (intro utf8_chars_encoded hd_concat_encoded) auto
  then show ?case using Cons by simp
qed simp

lemma ascii_encoded: "list_all (\<lambda>b. byte b < 128) s \<Longrightarrow> char_count s = length s"
proof -
  assume "list_all (\<lambda>b. byte b < 128) s"
  then have "list_all encoded_char (map (\<lambda>b. [b]) s)" by (auto simp: list_all_iff encoded_char_def is_cont_def)
  moreover have "concat (map (\<lambda>b. [b]) s) = s" by (induction s) auto
  ultimately show ?thesis using utf8_chars_concat [of "map (\<lambda>b. [b]) s"] by (simp add: char_count_def)
qed

lemma ascii_lower_cont: "is_cont (ascii_lower b) \<longleftrightarrow> is_cont b"
proof (cases "is_ascii_upper b")
  case True
  then have "byte (char_of (byte b + 32)) = byte b + 32" by (simp add: is_ascii_upper_def)
  then show ?thesis using True by (simp add: ascii_lower_def is_ascii_upper_def is_cont_def)
qed (simp add: ascii_lower_def)

lemma ascii_fold_encoded: "encoded_char c \<Longrightarrow> encoded_char (ascii_fold c)"
  by (auto simp: encoded_char_def ascii_fold_def ascii_lower_cont split: list.splits)

lemma word_ascii: "indexable t \<Longrightarrow> list_all (\<lambda>b. byte b < 128) t"
  by (auto simp: indexable_def term_separator_def list_all_iff is_ascii_alphanumeric_def is_ascii_digit_def is_ascii_lower_def
      is_ascii_upper_def)

lemma regex_plan_facts:
  assumes "regex_candidate_plan L request = Planned p"
  shows "pl_nodes_visited p \<le> 256 \<and> length (terms_of (pl_expression p)) \<le> pl_term_count p \<and> pl_term_count p \<le> 32 \<and>
    words_size (terms_of (pl_expression p)) \<le> pl_term_bytes p \<and> pl_term_bytes p \<le> 256 \<and>
    list_all indexable (terms_of (pl_expression p))"
proof -
  obtain h nodes r b where h: "rl_parse L (si_query request) = Some h" "bounded_hir_node_count h = Inr nodes"
    and rb: "regex_candidate_expr h (empty_plan_budget\<lparr>pb_nodes := nodes\<rparr>) = (r, b)"
    using assms by (auto simp: regex_candidate_plan_def no_work_def regex_plan_budget_fallback_def
        split: if_splits option.splits sum.splits ending.splits prod.splits)
  have nodes: "nodes \<le> 256" using visit_nodes_bounded(1) h(2) by (auto simp: bounded_hir_node_count_def max_regex_plan_nodes_def)
  consider e where "r = Done (Some e)" "p = \<lparr>pl_expression = e, pl_source = Mandatory_Literals, pl_nodes_visited = nodes,
      pl_term_count = pb_terms b, pl_term_bytes = pb_term_bytes b, pl_alternative_count = 1, pl_min_literal_len = 0\<rparr>"
    | kind source where "extracted_literal_plan L h nodes kind source = Inr (Some p)"
    using assms h rb
    by (auto simp: regex_candidate_plan_def no_work_def regex_plan_budget_fallback_def extracted_regex_candidate_plan_def
        List.map_filter_simps Let_def split: ending.splits option.splits if_splits sum.splits list.splits prod.splits)
  then show ?thesis
  proof cases
    case 1
    then have "pays (empty_plan_budget\<lparr>pb_nodes := nodes\<rparr>) (terms_of e) b"
      using candidate_expr_pays(1) [of h _ "Some e" b] rb by auto
    from empty_budget_limits [OF this] show ?thesis
      using 1 nodes by (simp add: max_regex_plan_terms_def max_regex_plan_term_bytes_def)
  next
    case 2
    then obtain ls es b where es: "literal_alternatives ls (empty_plan_budget\<lparr>pb_nodes := nodes\<rparr>) = (Done (Some es), b)"
      "combine_candidate_expr es False = Some (pl_expression p)" "pl_nodes_visited p = nodes" "pl_term_count p = pb_terms b"
      "pl_term_bytes p = pb_term_bytes b"
      using extracted_literal_plan_Some by metis
    from empty_budget_limits [OF literal_alternatives_pay [OF es(1)]] show ?thesis
      using es nodes combine_terms [OF es(2)] by (simp add: max_regex_plan_terms_def max_regex_plan_term_bytes_def)
  qed
qed

text \<open>A regex plan is small.  A plan for a pattern visited at most 256 nodes and holds at most 32 words with at
  most 256 bytes together, as many as it reports or fewer; each has at least the three bytes the trigram
  index needs and only letters, digits and underscores, so nothing in the query has to be escaped.\<close>

theorem regex_plan_bounded:
  assumes "regex_candidate_plan L request = Planned p"
  shows "pl_nodes_visited p \<le> 256 \<and> length (terms_of (pl_expression p)) \<le> pl_term_count p \<and> pl_term_count p \<le> 32 \<and>
    words_size (terms_of (pl_expression p)) \<le> pl_term_bytes p \<and> pl_term_bytes p \<le> 256 \<and>
    list_all indexable (terms_of (pl_expression p))"
  using regex_plan_facts [OF assms] .

lemma plan_words:
  assumes "plan_search L F request = Planned p" "fold_table_ok F" "t \<in> set (terms_of (pl_expression p))"
  shows "3 \<le> char_count t"
proof (cases "is_exhaustive_text (si_kind request)")
  case False
  then have "regex_candidate_plan L request = Planned p" using assms(1) by (simp add: plan_search_def)
  then have "indexable t" using regex_plan_facts assms(3) by (auto simp: list_all_iff)
  then show ?thesis using ascii_encoded [OF word_ascii] by (simp add: indexable_def)
next
  case True
  let ?variants = "if si_case_sensitive request then Some [si_query request]
    else map_option lv_values (case_fold_literal_variants F (si_query request))"
  have plan: "literal_identifier_candidate_plan F request = Planned p" using assms(1) True by (simp add: plan_search_def)
  then have el: "identifier_eligible request" by (auto simp: literal_identifier_candidate_plan_def no_work_def split: if_splits)
  then obtain vs ts bytes where vs: "?variants = Some vs" "identifier_terms vs 0 0 = Inr (ts, bytes)"
    "combine_candidate_expr ts False = Some (pl_expression p)"
    using plan unfolding literal_identifier_candidate_plan_def no_work_def
    by (auto split: if_splits option.splits sum.splits prod.splits)
  have query: "12 \<le> char_count (si_query request)"
    using el ascii_encoded [of "si_query request"] by (auto simp: identifier_eligible_def min_literal_identifier_bytes_def)
  have "terms_of (pl_expression p) = vs"
    using combine_terms [OF vs(3)] identifier_terms_all [OF vs(2)] by (simp add: comp_def)
  then have t: "t \<in> set vs" using assms(3) by simp
  show ?thesis
  proof (cases "si_case_sensitive request")
    case True
    then show ?thesis using t vs(1) query by auto
  next
    case False
    then obtain v where v: "case_fold_literal_variants F (si_query request) = Some v" "vs = lv_values v"
      using vs(1) by auto
    then obtain cs where cs: "t = concat (map ascii_fold cs)" "folds_to F (si_query request) cs"
      using variants_facts [OF v(1)] t by auto
    have "list_all encoded_char (map ascii_fold cs)"
      unfolding list_all_length
    proof (intro allI impI)
      fix i
      assume "i < length (map ascii_fold cs)"
      then have "encoded_char (cs ! i)"
        using list_all2_nthD2 [OF cs(2) [unfolded folds_to_def], of i] assms(2) by (auto simp: fold_table_ok_def)
      then show "encoded_char (map ascii_fold cs ! i)" using \<open>i < _\<close> by (simp add: ascii_fold_encoded)
    qed
    then have "char_count t = length cs" using utf8_chars_concat cs(1) by (simp add: char_count_def)
    also have "\<dots> = char_count (si_query request)"
      using cs(2) by (auto simp: folds_to_def char_count_def dest: list_all2_lengthD)
    finally show ?thesis using query by simp
  qed
qed

section \<open>A sample request\<close>

definition sample_regex_lib :: regex_lib where
  "sample_regex_lib = \<lparr>rl_parse = (\<lambda>q. Some (Hir_Concat [Hir_Literal q, Hir_Repetition 0 None (Hir_Class (\<lambda>s. length s = 1))])),
     rl_extract = (\<lambda>kind h. (None, None))\<rparr>"

definition sample_caseless :: fold_table where
  "sample_caseless c = (if encoded_char c then Some [c] else None)"

definition sample_search :: search_input where
  "sample_search = \<lparr>si_query = ''fn main'', si_kind = Kind_Regex, si_include_paths = [], si_exclude_paths = [], si_case_sensitive = True\<rparr>"

definition sample_plan_for_main :: candidate_plan where
  "sample_plan_for_main = \<lparr>pl_expression = Term ''main'', pl_source = Mandatory_Literals, pl_nodes_visited = 4, pl_term_count = 1,
     pl_term_bytes = 4, pl_alternative_count = 1, pl_min_literal_len = 0\<rparr>"

lemma sample_plan_made: "regex_candidate_plan sample_regex_lib sample_search = Planned sample_plan_for_main"
  by (simp add: regex_candidate_plan_def sample_regex_lib_def sample_search_def sample_plan_for_main_def bounded_hir_node_count_def
      visit_nodes.simps literal_candidate_expr_def term_separator_def is_ascii_alphanumeric_def is_ascii_digit_def is_ascii_lower_def
      is_ascii_upper_def utf8_valid.simps add_term_def combine_candidate_expr_def empty_plan_budget_def sat_add_def usize_max_def
      max_regex_plan_nodes_def max_regex_plan_terms_def max_regex_plan_term_bytes_def io_bind_def io_then_def io_return_def Let_def)

theorem regex_plan_sound_witness:
  "plan_search sample_regex_lib sample_caseless sample_search = Planned sample_plan_for_main \<and>
   admits_expr ''fn main() {}'' (pl_expression sample_plan_for_main)"
proof -
  have plan: "plan_search sample_regex_lib sample_caseless sample_search = Planned sample_plan_for_main"
    using sample_plan_made by (simp add: plan_search_def is_exhaustive_text_def sample_search_def)
  have "extractor_ok sample_regex_lib" by (simp add: extractor_ok_def sample_regex_lib_def)
  moreover have "fold_table_ok sample_caseless"
    by (simp add: fold_table_ok_def sample_caseless_def)
  moreover have "match_hir ''fn main() {}'' (Hir_Concat [Hir_Literal ''fn main'', Hir_Repetition 0 None (Hir_Class (\<lambda>s. length s = 1))]) 0 7"
  proof -
    have "match_hir ''fn main() {}'' (Hir_Literal ''fn main'') 0 7" by (simp add: slice_def)
    moreover have "match_hir ''fn main() {}'' (Hir_Repetition 0 None (Hir_Class (\<lambda>s. length s = 1))) 7 7"
      by (auto intro: exI [of _ "0::nat"])
    ultimately show ?thesis by (auto intro!: relcomppI simp del: match_hir.simps(2,5))
  qed
  then have "found_in (Hir_Concat [Hir_Literal ''fn main'', Hir_Repetition 0 None (Hir_Class (\<lambda>s. length s = 1))]) ''fn main() {}''"
    unfolding found_in_def by (intro exI [of _ "0::nat"] exI [of _ "7::nat"] conjI) simp_all
  then have "request_found sample_regex_lib sample_caseless sample_search ''fn main() {}''"
    by (simp add: request_found_def is_exhaustive_text_def sample_search_def sample_regex_lib_def)
  ultimately show ?thesis using regex_plan_sound [OF plan] plan by blast
qed

theorem regex_plan_bounded_witness:
  "pl_nodes_visited sample_plan_for_main \<le> 256 \<and> length (terms_of (pl_expression sample_plan_for_main)) \<le> 1 \<and>
   list_all indexable (terms_of (pl_expression sample_plan_for_main))"
  using regex_plan_bounded [OF sample_plan_made] by (simp add: sample_plan_for_main_def)

end
