(* ===== verification/Regex_Scan.thy ===== *)
theory Regex_Scan
  imports Regex_Plan Repo_Path
begin

text \<open>
  Running a regular expression search (\<open>regex_hits\<close> and \<open>regex_candidate_hits\<close> of
  \<open>src/services/search/regex_plan.rs\<close>, the work budget of \<open>src/services/search/types.rs\<close>, the row
  selection of \<open>src/storage/scoped_regex.rs\<close>, \<open>src/storage/read/search.rs\<close> and \<open>src/storage/read/files.rs\<close>).
  A snapshot of the index is the list of its files, in the order of their identifiers, each with its
  chunks in the order of their first bytes; the SQL statements become list functions over it, with what the
  full text index answers (\<open>ix_fts\<close>) as a parameter.  A cancellation is a function of the number of
  probes made so far.
\<close>

section \<open>The index\<close>

record chunk_row =
  ck_id :: int
  ck_content :: string
  ck_start_line :: nat
  ck_end_line :: nat
  ck_start_byte :: nat
  ck_end_byte :: nat
  ck_token_count :: nat

record file_row =
  fl_id :: int
  fl_path :: string
  fl_generation :: nat
  fl_chunks :: "chunk_row list"

record index_snapshot =
  ix_files :: "file_row list"
  ix_fts :: "string \<Rightarrow> string \<Rightarrow> bool"

record chunk_hit =
  ht_chunk :: chunk_row
  ht_file_id :: int
  ht_path :: string
  ht_generation :: nat

definition hit_of :: "file_row \<Rightarrow> chunk_row \<Rightarrow> chunk_hit" where
  "hit_of f c = \<lparr>ht_chunk = c, ht_file_id = fl_id f, ht_path = fl_path f, ht_generation = fl_generation f\<rparr>"

abbreviation ht_content :: "chunk_hit \<Rightarrow> string" where
  "ht_content h \<equiv> ck_content (ht_chunk h)"

abbreviation ht_id :: "chunk_hit \<Rightarrow> int" where
  "ht_id h \<equiv> ck_id (ht_chunk h)"

definition all_hits :: "index_snapshot \<Rightarrow> chunk_hit list" where
  "all_hits S = concat (map (\<lambda>f. map (hit_of f) (fl_chunks f)) (ix_files S))"

definition fts_rows :: "index_snapshot \<Rightarrow> string \<Rightarrow> chunk_hit list" where
  "fts_rows S query = filter (\<lambda>h. ix_fts S query (ht_content h)) (all_hits S)"

section \<open>Errors and limits\<close>

datatype limit_kind =
    Regex_Full_Scan_Files | Regex_Chunks_Per_File | Regex_Candidate_Chunks | Regex_Scoped_Rows | Regex_Retained_Chunks

datatype work_dimension = Candidate_Files | Candidate_Chunks | Candidate_Bytes

datatype scan_error =
    Scan_Cancelled
  | Retrieval_Limit limit_kind nat nat
  | Retrieval_Path_Limit limit_kind string nat nat
  | Work_Budget_Exceeded work_dimension nat nat nat nat
  | Scan_Input repo_error

fun retrieval_limit_details :: "scan_error \<Rightarrow> bool" where
  "retrieval_limit_details (Retrieval_Limit _ _ _) = True"
| "retrieval_limit_details (Retrieval_Path_Limit _ _ _ _) = True"
| "retrieval_limit_details (Work_Budget_Exceeded _ _ _ _ _) = True"
| "retrieval_limit_details _ = False"

definition max_regex_candidates :: nat where "max_regex_candidates = 2000"
definition max_regex_files_scanned :: nat where "max_regex_files_scanned = 10000"
definition max_regex_chunks_per_file :: nat where "max_regex_chunks_per_file = 256"
definition max_regex_candidate_chunks :: nat where "max_regex_candidate_chunks = 10000"
definition max_scoped_regex_rows_scanned :: nat where "max_scoped_regex_rows_scanned = 100000"
definition default_regex_work_files :: nat where "default_regex_work_files = max_regex_files_scanned"
definition default_regex_work_chunks :: nat where "default_regex_work_chunks = 20510"
definition default_regex_work_bytes :: nat where "default_regex_work_bytes = 1024 * 1024 * 1024"
definition regex_cancellation_check_interval :: nat where "regex_cancellation_check_interval = 64"
definition regex_candidate_page_size :: nat where "regex_candidate_page_size = 512"
definition hard_max_results :: nat where "hard_max_results = 10000"

definition bounded_limit :: "nat \<Rightarrow> nat" where
  "bounded_limit limit = max 1 (min limit hard_max_results)"

section \<open>Path scopes in SQL\<close>

datatype path_atom = Atom_Prefix string | Atom_Children string

definition trim_slashes :: "string \<Rightarrow> string" where
  "trim_slashes s = rev (dropWhile (\<lambda>c. c = CHR ''/'') (rev (dropWhile (\<lambda>c. c = CHR ''/'') s)))"

definition expressible_scoped_regex_path :: "glob_lib \<Rightarrow> string \<Rightarrow> path_atom option" where
  "expressible_scoped_regex_path gl pattern =
     (case repository_pattern_parse gl pattern of
        Inl _ \<Rightarrow> None
      | Inr pattern \<Rightarrow>
          if pattern = [] then None
          else if \<not> has_glob_meta pattern then Some (Atom_Prefix pattern)
          else
            (case strip_suffix pattern ''/**'' of
               None \<Rightarrow> None
             | Some pre \<Rightarrow>
                 (let pre = trim_slashes pre in
                  if pre = [] \<or> has_glob_meta pre then None else Some (Atom_Children pre))))"

text \<open>What the emitted predicate says of a path.\<close>

fun path_atom_holds :: "path_atom \<Rightarrow> string \<Rightarrow> bool" where
  "path_atom_holds (Atom_Prefix p) path \<longleftrightarrow> path = p \<or> starts_with path (p @ ''/'')"
| "path_atom_holds (Atom_Children p) path \<longleftrightarrow> starts_with path (p @ ''/'')"

definition scoped_path_holds :: "glob_lib \<Rightarrow> string list \<Rightarrow> string list \<Rightarrow> string \<Rightarrow> bool" where
  "scoped_path_holds gl includes excludes path \<longleftrightarrow>
     (let atoms = map (expressible_scoped_regex_path gl) includes in
      includes = [] \<or> None \<in> set atoms \<or> list_ex (\<lambda>a. path_atom_holds a path) (List.map_filter (\<lambda>a. a) atoms)) \<and>
     list_all (\<lambda>a. \<not> path_atom_holds a path) (List.map_filter (expressible_scoped_regex_path gl) excludes)"

section \<open>Storage reads\<close>

fun scoped_rows :: "nat \<Rightarrow> nat \<Rightarrow> (string \<Rightarrow> bool) \<Rightarrow> chunk_hit list \<Rightarrow> nat \<Rightarrow> int list \<Rightarrow> scan_error + int list" where
  "scoped_rows max_rows max_candidates allows [] scanned ids = Inr ids"
| "scoped_rows max_rows max_candidates allows (row # rows) scanned ids =
     (let scanned = sat_add scanned 1 in
      if max_rows < scanned then Inl (Retrieval_Limit Regex_Scoped_Rows scanned max_rows)
      else if \<not> allows (ht_path row) then scoped_rows max_rows max_candidates allows rows scanned ids
      else if length ids = max_candidates
      then Inl (Retrieval_Limit Regex_Candidate_Chunks (sat_add (length ids) 1) max_candidates)
      else scoped_rows max_rows max_candidates allows rows scanned (ids @ [ht_id row]))"

definition select_scoped_regex_candidate_ids ::
  "glob_lib \<Rightarrow> index_snapshot \<Rightarrow> string \<Rightarrow> nat \<Rightarrow> nat \<Rightarrow> string list \<Rightarrow> string list \<Rightarrow> (string \<Rightarrow> bool) \<Rightarrow> scan_error + int list" where
  "select_scoped_regex_candidate_ids gl S query max_rows max_candidates includes excludes allows =
     scoped_rows max_rows max_candidates allows
       (take (sat_add max_rows 1) (filter (\<lambda>h. scoped_path_holds gl includes excludes (ht_path h)) (fts_rows S query))) 0 []"

definition regex_candidates_by_ids :: "index_snapshot \<Rightarrow> int list \<Rightarrow> chunk_hit list" where
  "regex_candidates_by_ids S ids = concat (map (\<lambda>i. filter (\<lambda>h. ht_id h = i) (all_hits S)) ids)"

definition regex_candidate_count_up_to :: "index_snapshot \<Rightarrow> string \<Rightarrow> nat \<Rightarrow> nat" where
  "regex_candidate_count_up_to S query n = min n (length (fts_rows S query))"

definition search_regex_candidates_page :: "index_snapshot \<Rightarrow> string \<Rightarrow> nat \<Rightarrow> nat \<Rightarrow> chunk_hit list" where
  "search_regex_candidates_page S query max_results offset =
     take (bounded_limit max_results) (drop offset (fts_rows S query))"

definition get_chunks_for_file :: "index_snapshot \<Rightarrow> file_row \<Rightarrow> nat \<Rightarrow> chunk_row list" where
  "get_chunks_for_file S f max_results = take (bounded_limit max_results) (fl_chunks f)"

section \<open>The state of a scan\<close>

datatype planning_outcome = Full_Scan "regex_fallback option" | Trigram plan_source

record scan_phases =
  sp_planning :: planning_outcome
  sp_plan_nodes :: nat
  sp_plan_terms :: nat
  sp_plan_term_bytes :: nat
  sp_files_considered :: nat
  sp_chunks_loaded :: nat
  sp_candidate_chunks :: nat
  sp_chunks_verified :: nat
  sp_retained_chunks :: nat

text \<open>The local variables of a search; \<open>ss_checks\<close> counts the cancellation probes.\<close>

record scan_state =
  ss_files :: nat
  ss_chunks :: nat
  ss_bytes :: nat
  ss_checks :: nat
  ss_charged :: "int set"
  ss_hits :: "chunk_hit list"
  ss_phases :: scan_phases

type_synonym 'a scan = "(scan_state, scan_error, 'a) io"

definition scan_check :: "(nat \<Rightarrow> bool) \<Rightarrow> unit scan" where
  "scan_check cancelled =
     io_bind (io_get ss_checks) (\<lambda>n.
       io_then (io_modify (\<lambda>s. s\<lparr>ss_checks := n + 1\<rparr>)) (if cancelled n then io_fail Scan_Cancelled else io_return ()))"

definition work_enforce :: "work_dimension \<Rightarrow> (scan_state \<Rightarrow> nat) \<Rightarrow> nat \<Rightarrow> unit scan" where
  "work_enforce dimension observed limit =
     io_bind (io_get (\<lambda>s. s)) (\<lambda>s.
       if observed s \<le> limit then io_return ()
       else io_fail (Work_Budget_Exceeded dimension (ss_files s) (ss_chunks s) (ss_bytes s) limit))"

definition charge_file :: "(nat \<Rightarrow> bool) \<Rightarrow> unit scan" where
  "charge_file cancelled =
     io_then (scan_check cancelled)
    (io_then (io_modify (\<lambda>s. s\<lparr>ss_files := sat_add (ss_files s) 1\<rparr>))
       (work_enforce Candidate_Files ss_files default_regex_work_files))"

definition charge_chunk :: "(nat \<Rightarrow> bool) \<Rightarrow> nat \<Rightarrow> unit scan" where
  "charge_chunk cancelled bytes =
     io_then (io_modify (\<lambda>s. s\<lparr>ss_chunks := sat_add (ss_chunks s) 1, ss_bytes := sat_add (ss_bytes s) bytes\<rparr>))
    (io_then (work_enforce Candidate_Chunks ss_chunks default_regex_work_chunks)
    (io_then (work_enforce Candidate_Bytes ss_bytes default_regex_work_bytes)
       (io_bind (io_get ss_chunks) (\<lambda>n.
          if n mod regex_cancellation_check_interval = 0 then scan_check cancelled else io_return ()))))"

definition note_phase :: "(scan_phases \<Rightarrow> scan_phases) \<Rightarrow> unit scan" where
  "note_phase f = io_modify (\<lambda>s. s\<lparr>ss_phases := f (ss_phases s)\<rparr>)"

definition retain :: "chunk_hit \<Rightarrow> unit scan" where
  "retain h =
     io_then (note_phase (\<lambda>p. p\<lparr>sp_retained_chunks := sat_add (sp_retained_chunks p) 1\<rparr>))
       (io_modify (\<lambda>s. s\<lparr>ss_hits := ss_hits s @ [h]\<rparr>))"

definition retained_limit :: "nat option \<Rightarrow> nat \<Rightarrow> scan_error" where
  "retained_limit max_candidates hits =
     Retrieval_Limit Regex_Retained_Chunks (sat_add hits 1) (case max_candidates of None \<Rightarrow> max_regex_candidates | Some l \<Rightarrow> l)"

definition at_limit :: "nat option \<Rightarrow> scan_state \<Rightarrow> bool" where
  "at_limit max_candidates s \<longleftrightarrow> (case max_candidates of None \<Rightarrow> False | Some l \<Rightarrow> length (ss_hits s) = l)"

section \<open>Candidates of the index\<close>

text \<open>One candidate row: the file is charged once, the chunk each time, and a match beyond the limit is an error.\<close>

definition verify_candidate :: "(nat \<Rightarrow> bool) \<Rightarrow> (string \<Rightarrow> bool) \<Rightarrow> nat option \<Rightarrow> chunk_hit \<Rightarrow> unit scan" where
  "verify_candidate cancelled rx max_candidates h =
     io_bind (io_get (\<lambda>s. ht_file_id h \<in> ss_charged s)) (\<lambda>seen.
       io_then
         (if seen then io_return ()
          else io_then (io_modify (\<lambda>s. s\<lparr>ss_charged := insert (ht_file_id h) (ss_charged s)\<rparr>)) (charge_file cancelled))
      (io_bind (io_get (\<lambda>s. (at_limit max_candidates s, length (ss_hits s)))) (\<lambda>(full, hits).
         if full \<and> rx (ht_content h) then io_fail (retained_limit max_candidates hits)
         else
           io_then (charge_chunk cancelled (length (ht_content h)))
          (io_then (note_phase (\<lambda>p. p\<lparr>sp_chunks_verified := sat_add (sp_chunks_verified p) 1\<rparr>))
             (if rx (ht_content h)
              then (if full then io_fail (retained_limit max_candidates hits) else retain h)
              else io_return ())))))"

function batches :: "nat \<Rightarrow> 'a list \<Rightarrow> 'a list list" where
  "batches n xs = (if xs = [] \<or> n = 0 then [] else take n xs # batches n (drop n xs))"
  by pat_completeness auto
termination by (relation "measure (\<lambda>(n, xs). length xs)") auto

declare batches.simps [simp del]

definition scoped_candidates ::
  "(nat \<Rightarrow> bool) \<Rightarrow> (string \<Rightarrow> bool) \<Rightarrow> nat option \<Rightarrow> index_snapshot \<Rightarrow> int list \<Rightarrow> unit scan" where
  "scoped_candidates cancelled rx max_candidates S ids =
     io_each (\<lambda>batch. io_then (scan_check cancelled)
         (io_each (verify_candidate cancelled rx max_candidates) (regex_candidates_by_ids S batch)))
       (batches regex_candidate_page_size ids)"

text \<open>The pages of an unscoped search.  There are at most 10,000 rows, so the offset does not saturate.\<close>

function candidate_pages ::
  "(nat \<Rightarrow> bool) \<Rightarrow> (string \<Rightarrow> bool) \<Rightarrow> nat option \<Rightarrow> (string \<Rightarrow> bool) \<Rightarrow> index_snapshot \<Rightarrow> string \<Rightarrow> nat \<Rightarrow> unit scan" where
  "candidate_pages cancelled rx max_candidates allows S query offset =
     (let page = search_regex_candidates_page S query regex_candidate_page_size offset in
      io_then (scan_check cancelled)
        (if page = [] then io_return ()
         else
           io_then (io_each (\<lambda>h. if \<not> allows (ht_path h) then io_return () else verify_candidate cancelled rx max_candidates h) page)
             (if length page < regex_candidate_page_size then io_return ()
              else candidate_pages cancelled rx max_candidates allows S query (offset + length page))))"
  by pat_completeness auto
termination
  by (relation "measure (\<lambda>(_, _, _, _, S, query, offset). length (fts_rows S query) - offset)")
    (auto simp: search_regex_candidates_page_def bounded_limit_def regex_candidate_page_size_def hard_max_results_def)

declare candidate_pages.simps [simp del]

record search_scan =
  sn_hits :: "chunk_hit list"
  sn_phases :: scan_phases
  sn_limitation :: "scan_error option"

definition finish_scan :: "scan_error option \<Rightarrow> search_scan scan" where
  "finish_scan limitation =
     io_get (\<lambda>s. \<lparr>sn_hits = ss_hits s, sn_phases = ss_phases s, sn_limitation = limitation\<rparr>)"

definition regex_candidate_hits ::
  "glob_lib \<Rightarrow> (nat \<Rightarrow> bool) \<Rightarrow> (string \<Rightarrow> bool) \<Rightarrow> index_snapshot \<Rightarrow> search_input \<Rightarrow> path_filter \<Rightarrow> nat option \<Rightarrow> candidate_plan
   \<Rightarrow> search_scan scan" where
  "regex_candidate_hits gl cancelled rx S request pf max_candidates plan =
     (let query = fts_query (pl_expression plan) in
      io_then (note_phase (\<lambda>p. p\<lparr>sp_planning := Trigram (pl_source plan), sp_plan_nodes := pl_nodes_visited plan,
        sp_plan_terms := pl_term_count plan, sp_plan_term_bytes := pl_term_bytes plan,
        sp_files_considered := length (ix_files S)\<rparr>))
      (if si_include_paths request \<noteq> [] \<or> si_exclude_paths request \<noteq> [] then
         io_bind (io_lift (select_scoped_regex_candidate_ids gl S query max_scoped_regex_rows_scanned max_regex_candidate_chunks
             (si_include_paths request) (si_exclude_paths request) (path_filter_allows gl pf))) (\<lambda>ids.
         io_then (note_phase (\<lambda>p. p\<lparr>sp_candidate_chunks := length ids\<rparr>))
        (io_then (scoped_candidates cancelled rx max_candidates S ids) (finish_scan None)))
       else
         (let candidates = regex_candidate_count_up_to S query (sat_add max_regex_candidate_chunks 1) in
          if max_regex_candidate_chunks < candidates
          then io_fail (Retrieval_Limit Regex_Candidate_Chunks candidates max_regex_candidate_chunks)
          else
            io_then (note_phase (\<lambda>p. p\<lparr>sp_candidate_chunks := candidates\<rparr>))
           (io_then (candidate_pages cancelled rx max_candidates (path_filter_allows gl pf) S query 0) (finish_scan None)))))"

section \<open>The full scan\<close>

datatype scan_limit = Limit_Complete "nat option" | Limit_Ranked nat "string \<Rightarrow> bool"

fun limit_allows_path :: "scan_limit \<Rightarrow> string \<Rightarrow> bool" where
  "limit_allows_path (Limit_Complete _) path = True"
| "limit_allows_path (Limit_Ranked _ allows) path = allows path"

fun limit_candidates :: "scan_limit \<Rightarrow> nat option" where
  "limit_candidates (Limit_Complete l) = map_option (\<lambda>n. min n max_regex_candidates) l"
| "limit_candidates (Limit_Ranked n _) = Some (min n max_regex_candidates)"

definition scan_stop :: "scan_limit \<Rightarrow> scan_error \<Rightarrow> search_scan scan" where
  "scan_stop limit e =
     (case limit of
        Limit_Ranked _ _ \<Rightarrow> if retrieval_limit_details e then finish_scan (Some e) else io_fail e
      | Limit_Complete _ \<Rightarrow> io_fail e)"

fun regex_scan_files :: "nat \<Rightarrow> nat \<Rightarrow> (string \<Rightarrow> bool scan) \<Rightarrow> file_row list \<Rightarrow> nat \<Rightarrow> file_row list \<Rightarrow> file_row list scan" where
  "regex_scan_files max_results max_rows allows [] scanned files = io_return files"
| "regex_scan_files max_results max_rows allows (f # fs) scanned files =
     (if max_rows < scanned + 1 then io_fail (Retrieval_Limit Regex_Scoped_Rows (scanned + 1) max_rows)
      else
        io_bind (allows (fl_path f)) (\<lambda>allowed.
          if \<not> allowed then regex_scan_files max_results max_rows allows fs (scanned + 1) files
          else if length files = max_results
          then io_fail (Retrieval_Limit Regex_Full_Scan_Files (sat_add (length files) 1) max_results)
          else regex_scan_files max_results max_rows allows fs (scanned + 1) (files @ [f])))"

definition check_chunk_counts :: "(nat \<Rightarrow> bool) \<Rightarrow> file_row list \<Rightarrow> unit scan" where
  "check_chunk_counts cancelled files =
     io_each (\<lambda>f. io_then (scan_check cancelled)
       (if max_regex_chunks_per_file < length (fl_chunks f)
        then io_fail (Retrieval_Path_Limit Regex_Chunks_Per_File (fl_path f) (length (fl_chunks f)) max_regex_chunks_per_file)
        else io_return ())) files"

text \<open>The loops answer with the error at which \<open>stop\<close> is called, if any.\<close>

fun scan_chunk_rows ::
  "(nat \<Rightarrow> bool) \<Rightarrow> (string \<Rightarrow> bool) \<Rightarrow> nat option \<Rightarrow> file_row \<Rightarrow> chunk_row list \<Rightarrow> scan_error option scan" where
  "scan_chunk_rows cancelled rx max_candidates f [] = io_return None"
| "scan_chunk_rows cancelled rx max_candidates f (c # cs) =
     io_bind (io_try (charge_chunk cancelled (length (ck_content c)))) (\<lambda>charged.
       case charged of
         Inl e \<Rightarrow> io_return (Some e)
       | Inr _ \<Rightarrow>
           io_then (note_phase (\<lambda>p. p\<lparr>sp_chunks_loaded := sat_add (sp_chunks_loaded p) 1,
               sp_chunks_verified := sat_add (sp_chunks_verified p) 1\<rparr>))
             (if rx (ck_content c) then
                io_bind (io_get (\<lambda>s. (at_limit max_candidates s, length (ss_hits s)))) (\<lambda>(full, hits).
                  if full then io_return (Some (retained_limit max_candidates hits))
                  else io_then (retain (hit_of f c)) (scan_chunk_rows cancelled rx max_candidates f cs))
              else scan_chunk_rows cancelled rx max_candidates f cs))"

fun scan_file_rows ::
  "(nat \<Rightarrow> bool) \<Rightarrow> (string \<Rightarrow> bool) \<Rightarrow> nat option \<Rightarrow> index_snapshot \<Rightarrow> file_row list \<Rightarrow> scan_error option scan" where
  "scan_file_rows cancelled rx max_candidates S [] = io_return None"
| "scan_file_rows cancelled rx max_candidates S (f # fs) =
     io_then (scan_check cancelled)
       (io_bind (io_try (charge_file cancelled)) (\<lambda>charged.
          case charged of
            Inl e \<Rightarrow> io_return (Some e)
          | Inr _ \<Rightarrow>
              io_bind (scan_chunk_rows cancelled rx max_candidates f (get_chunks_for_file S f max_regex_chunks_per_file)) (\<lambda>stopped.
                case stopped of
                  Some e \<Rightarrow> io_return (Some e)
                | None \<Rightarrow> scan_file_rows cancelled rx max_candidates S fs)))"

definition full_scan ::
  "glob_lib \<Rightarrow> (nat \<Rightarrow> bool) \<Rightarrow> (string \<Rightarrow> bool) \<Rightarrow> index_snapshot \<Rightarrow> search_input \<Rightarrow> path_filter \<Rightarrow> scan_limit \<Rightarrow> plan_diagnostics
   \<Rightarrow> search_scan scan" where
  "full_scan gl cancelled rx S request pf limit fallback =
     io_bind (regex_scan_files max_regex_files_scanned max_scoped_regex_rows_scanned
         (\<lambda>path. io_then (scan_check cancelled) (io_return (path_filter_allows gl pf path \<and> limit_allows_path limit path)))
         (take (sat_add max_scoped_regex_rows_scanned 1)
           (filter (\<lambda>f. scoped_path_holds gl (si_include_paths request) (si_exclude_paths request) (fl_path f)) (ix_files S))) 0 [])
       (\<lambda>files.
         io_then (check_chunk_counts cancelled files)
        (io_then (note_phase (\<lambda>p. p\<lparr>sp_planning := Full_Scan (Some (pd_fallback_reason fallback)),
           sp_plan_nodes := pd_nodes_visited fallback, sp_plan_terms := pd_term_count fallback,
           sp_plan_term_bytes := pd_term_bytes fallback, sp_files_considered := length files\<rparr>))
        (io_bind (scan_file_rows cancelled rx (limit_candidates limit) S files) (\<lambda>stopped.
           case stopped of
             Some e \<Rightarrow> scan_stop limit e
           | None \<Rightarrow> finish_scan None))))"

section \<open>The search\<close>

definition scan_start :: scan_state where
  "scan_start = \<lparr>ss_files = 0, ss_chunks = 0, ss_bytes = 0, ss_checks = 0, ss_charged = {}, ss_hits = [],
     ss_phases = \<lparr>sp_planning = Full_Scan None, sp_plan_nodes = 0, sp_plan_terms = 0, sp_plan_term_bytes = 0,
       sp_files_considered = 0, sp_chunks_loaded = 0, sp_candidate_chunks = 0, sp_chunks_verified = 0, sp_retained_chunks = 0\<rparr>\<rparr>"

definition regex_hits ::
  "regex_lib \<Rightarrow> fold_table \<Rightarrow> glob_lib \<Rightarrow> (nat \<Rightarrow> bool) \<Rightarrow> (string \<Rightarrow> bool) \<Rightarrow> index_snapshot \<Rightarrow> search_input \<Rightarrow> scan_limit
   \<Rightarrow> bool \<Rightarrow> search_scan scan" where
  "regex_hits L F gl cancelled rx S request limit planning =
     (case path_filter_new gl (si_include_paths request) (si_exclude_paths request) of
        Inl e \<Rightarrow> io_fail (Scan_Input e)
      | Inr pf \<Rightarrow>
          (case (if planning then plan_search L F request else no_work Planning_Disabled) of
             Planned plan \<Rightarrow> regex_candidate_hits gl cancelled rx S request pf (limit_candidates limit) plan
           | Fallback fallback \<Rightarrow> full_scan gl cancelled rx S request pf limit fallback))"

definition full_scan_literal_hits ::
  "regex_lib \<Rightarrow> fold_table \<Rightarrow> glob_lib \<Rightarrow> (nat \<Rightarrow> bool) \<Rightarrow> (string \<Rightarrow> bool) \<Rightarrow> index_snapshot \<Rightarrow> string \<Rightarrow> string list \<Rightarrow> string list
   \<Rightarrow> nat \<Rightarrow> (string \<Rightarrow> bool) \<Rightarrow> search_scan scan" where
  "full_scan_literal_hits L F gl cancelled rx S query includes excludes max_candidates allows =
     regex_hits L F gl cancelled rx S
       \<lparr>si_query = query, si_kind = Kind_Text, si_include_paths = includes, si_exclude_paths = excludes, si_case_sensitive = False\<rparr>
       (Limit_Ranked max_candidates allows) False"

section \<open>What the programs retain\<close>

definition same_hits :: "'a scan \<Rightarrow> bool" where
  "same_hits m \<longleftrightarrow> (\<forall>s. ss_hits (snd (m s)) = ss_hits s)"

named_theorems same_hits_rules \<open>programs that leave the retained chunks alone\<close>

lemma same_hits_basic [same_hits_rules]:
  "same_hits (io_return a)" "same_hits (io_fail e)" "same_hits (io_get g)" "same_hits (note_phase f)"
  by (simp_all add: same_hits_def io_return_def io_fail_def io_get_def note_phase_def io_modify_def)

lemma same_hits_modify [same_hits_rules]: "(\<And>s. ss_hits (g s) = ss_hits s) \<Longrightarrow> same_hits (io_modify g)"
  by (simp add: same_hits_def io_modify_def)

lemma same_hits_bind [same_hits_rules]: "same_hits m \<Longrightarrow> (\<And>a. same_hits (f a)) \<Longrightarrow> same_hits (io_bind m f)"
  unfolding same_hits_def io_bind_def by (auto split: prod.splits ending.splits) (metis snd_conv)+

lemma same_hits_then [same_hits_rules]: "same_hits m \<Longrightarrow> same_hits n \<Longrightarrow> same_hits (io_then m n)"
  unfolding io_then_def by (intro same_hits_bind)

lemma same_hits_try [same_hits_rules]: "same_hits m \<Longrightarrow> same_hits (io_try m)"
  unfolding same_hits_def io_try_def by (auto split: prod.splits ending.splits) (metis snd_conv)+

lemma same_hits_if [same_hits_rules]: "same_hits m \<Longrightarrow> same_hits n \<Longrightarrow> same_hits (if b then m else n)"
  by simp

lemma same_hits_each [same_hits_rules]: "(\<And>x. same_hits (f x)) \<Longrightarrow> same_hits (io_each f xs)"
  by (induction xs) (auto intro: same_hits_rules)

lemma same_hits_charges [same_hits_rules]:
  "same_hits (scan_check c)" "same_hits (work_enforce d g l)" "same_hits (charge_file c)" "same_hits (charge_chunk c n)"
  unfolding charge_file_def charge_chunk_def scan_check_def work_enforce_def by (intro same_hits_rules; simp)+

lemma same_hitsD: "same_hits m \<Longrightarrow> m s = (r, t) \<Longrightarrow> ss_hits t = ss_hits s"
  unfolding same_hits_def by (metis snd_conv)

text \<open>What a program adds to the retained chunks when it succeeds.\<close>

definition adds_hits :: "'a scan \<Rightarrow> chunk_hit list \<Rightarrow> bool" where
  "adds_hits m hs \<longleftrightarrow> (\<forall>s a t. m s = (Done a, t) \<longrightarrow> ss_hits t = ss_hits s @ hs)"

lemma adds_none: "same_hits m \<Longrightarrow> adds_hits m []"
  by (auto simp: adds_hits_def dest: same_hitsD)

lemma adds_then: "adds_hits m hs \<Longrightarrow> adds_hits n ks \<Longrightarrow> adds_hits (io_then m n) (hs @ ks)"
  by (auto simp: adds_hits_def io_steps)

lemma adds_then_same: "same_hits m \<Longrightarrow> adds_hits n ks \<Longrightarrow> adds_hits (io_then m n) ks"
  using adds_then [OF adds_none] by fastforce

lemma adds_bind: "same_hits m \<Longrightarrow> (\<And>a. adds_hits (f a) ks) \<Longrightarrow> adds_hits (io_bind m f) ks"
  unfolding adds_hits_def io_steps by (metis same_hitsD)

lemma adds_fail: "adds_hits (io_fail e) ks"
  by (simp add: adds_hits_def io_steps)

lemma adds_retain: "adds_hits (retain h) [h]"
  by (auto simp: adds_hits_def retain_def note_phase_def io_steps)

lemma adds_each: "(\<And>x. x \<in> set xs \<Longrightarrow> adds_hits (f x) (g x)) \<Longrightarrow> adds_hits (io_each f xs) (concat (map g xs))"
proof (induction xs)
  case Nil
  then show ?case by (simp add: adds_none same_hits_rules)
next
  case (Cons x xs)
  then show ?case by (auto intro: adds_then)
qed

lemma adds_verify: "adds_hits (verify_candidate c rx m h) (filter (\<lambda>h. rx (ht_content h)) [h])"
  unfolding verify_candidate_def
proof (intro adds_bind adds_then_same same_hits_rules)
  fix seen p
  show "adds_hits (case p of (full, hits) \<Rightarrow>
      if full \<and> rx (ht_content h) then io_fail (retained_limit m hits)
      else io_then (charge_chunk c (length (ht_content h)))
        (io_then (note_phase (\<lambda>p. p\<lparr>sp_chunks_verified := sat_add (sp_chunks_verified p) 1\<rparr>))
          (if rx (ht_content h) then if full then io_fail (retained_limit m hits) else retain h else io_return ())))
      (filter (\<lambda>h. rx (ht_content h)) [h])"
    by (cases p) (auto intro!: adds_then_same same_hits_rules adds_retain adds_fail adds_none)
qed simp_all

lemma concat_batches: "0 < n \<Longrightarrow> concat (batches n xs) = xs"
proof (induction n xs rule: batches.induct)
  case (1 n xs)
  then show ?case by (subst batches.simps) auto
qed

lemma by_ids_append: "regex_candidates_by_ids S (is @ js) = regex_candidates_by_ids S is @ regex_candidates_by_ids S js"
  by (simp add: regex_candidates_by_ids_def)

lemma by_ids_concat: "concat (map (regex_candidates_by_ids S) bs) = regex_candidates_by_ids S (concat bs)"
  by (induction bs) (simp_all add: by_ids_append, simp add: regex_candidates_by_ids_def)

lemma filter_singleton_concat: "concat (map (\<lambda>h. filter P [h]) hs) = filter P hs"
  by (induction hs) auto

lemma adds_scoped: "adds_hits (scoped_candidates c rx m S ids) (filter (\<lambda>h. rx (ht_content h)) (regex_candidates_by_ids S ids))"
proof -
  have "adds_hits (scoped_candidates c rx m S ids)
      (concat (map (\<lambda>b. filter (\<lambda>h. rx (ht_content h)) (regex_candidates_by_ids S b)) (batches regex_candidate_page_size ids)))"
    unfolding scoped_candidates_def
  proof (intro adds_each adds_then_same same_hits_rules)
    fix b
    show "adds_hits (io_each (verify_candidate c rx m) (regex_candidates_by_ids S b))
        (filter (\<lambda>h. rx (ht_content h)) (regex_candidates_by_ids S b))"
      using adds_each [of "regex_candidates_by_ids S b" "verify_candidate c rx m", OF adds_verify]
      by (simp only: filter_singleton_concat)
  qed
  moreover have "concat (map (\<lambda>b. filter P (regex_candidates_by_ids S b)) bs) = filter P (regex_candidates_by_ids S (concat bs))" for P bs
    by (simp add: filter_concat comp_def flip: by_ids_concat)
  ultimately show ?thesis by (simp add: concat_batches regex_candidate_page_size_def)
qed

lemma adds_pages:
  "adds_hits (candidate_pages c rx m allows S query offset)
     (filter (\<lambda>h. allows (ht_path h) \<and> rx (ht_content h)) (drop offset (fts_rows S query)))"
proof (induction c rx m allows S query offset rule: candidate_pages.induct)
  case (1 c rx m allows S query offset)
  let ?page = "search_regex_candidates_page S query regex_candidate_page_size offset"
  let ?step = "\<lambda>h. if \<not> allows (ht_path h) then io_return () else verify_candidate c rx m h"
  have page: "?page = take 512 (drop offset (fts_rows S query))"
    by (simp add: search_regex_candidates_page_def bounded_limit_def regex_candidate_page_size_def hard_max_results_def)
  have "adds_hits (?step h) (filter (\<lambda>h. allows (ht_path h) \<and> rx (ht_content h)) [h])" for h
    using adds_verify [of c rx m h] by (auto intro: adds_none same_hits_rules)
  then have each: "adds_hits (io_each ?step ?page) (filter (\<lambda>h. allows (ht_path h) \<and> rx (ht_content h)) ?page)"
    using adds_each [of ?page ?step "\<lambda>h. filter (\<lambda>h. allows (ht_path h) \<and> rx (ht_content h)) [h]"]
    by (simp only: filter_singleton_concat)
  let ?P = "\<lambda>h. allows (ht_path h) \<and> rx (ht_content h)"
  have "adds_hits (if ?page = [] then io_return ()
      else io_then (io_each ?step ?page)
        (if length ?page < regex_candidate_page_size then io_return ()
         else candidate_pages c rx m allows S query (offset + length ?page)))
      (filter ?P (drop offset (fts_rows S query)))"
  proof (cases "?page = []")
    case True
    then have "drop offset (fts_rows S query) = []" unfolding page by simp
    then show ?thesis using True by (simp add: adds_none same_hits_rules)
  next
    case page1: False
    show ?thesis
    proof (cases "length ?page < regex_candidate_page_size")
      case True
      then have "?page = drop offset (fts_rows S query)" unfolding page by (simp add: regex_candidate_page_size_def)
      then show ?thesis using adds_then [OF each adds_none [OF same_hits_basic(1) [of "()"]]] page1 True
        by (simp only: if_True if_False append_Nil2 simp_thms)
    next
      case False
      have "drop offset (fts_rows S query) = ?page @ drop (offset + length ?page) (fts_rows S query)"
      proof -
        have "length ?page = 512" using False unfolding page by (simp add: regex_candidate_page_size_def)
        then show ?thesis unfolding page
          by (metis add.commute append_take_drop_id drop_drop)
      qed
      then have "filter ?P (drop offset (fts_rows S query)) =
          filter ?P ?page @ filter ?P (drop (offset + length ?page) (fts_rows S query))" by (metis filter_append)
      then show ?thesis using adds_then [OF each 1 [OF refl page1 False]] page1 False by (simp only: if_False simp_thms)
    qed
  qed
  then show ?case
    by (subst candidate_pages.simps) (simp only: Let_def adds_then_same [OF same_hits_charges(1)])
qed
section \<open>The predicate pushed into SQL\<close>

text \<open>
  What \<open>globset\<close> documents of \<open>prefix/**\<close> with a literal prefix: it matches the paths below the prefix.
\<close>

definition children_glob :: "string \<Rightarrow> string \<Rightarrow> bool" where
  "children_glob g p \<longleftrightarrow> g = p @ ''/**'' \<and> p \<noteq> [] \<and> \<not> has_glob_meta p"

definition globs_ok :: "glob_lib \<Rightarrow> bool" where
  "globs_ok gl \<longleftrightarrow>
     (\<forall>gs g p path. g \<in> set gs \<longrightarrow> children_glob g p \<longrightarrow> starts_with path (p @ ''/'') \<longrightarrow> globset_match gl gs path) \<and>
     (\<forall>gs path. (\<forall>g \<in> set gs. \<exists>p. children_glob g p) \<longrightarrow> globset_match gl gs path \<longrightarrow>
       (\<exists>g \<in> set gs. \<exists>p. children_glob g p \<and> starts_with path (p @ ''/'')))"

lemma collect_results_map: "collect_results (map f xs) = Inr ys \<longleftrightarrow> list_all2 (\<lambda>x y. f x = Inr y) xs ys"
proof (induction xs arbitrary: ys)
  case (Cons x xs)
  then show ?case by (cases "f x"; cases ys; cases "collect_results (map f xs)") auto
qed auto

lemma pattern_set_facts:
  assumes "pattern_set_new gl pats = Inr ps"
  shows "list_all2 (\<lambda>p c. repository_pattern_parse gl p = Inr c) pats (ps_patterns ps) \<and>
    ps_literals ps = filter (\<lambda>p. \<not> has_glob_meta p) (ps_patterns ps) \<and> ps_globs ps = filter has_glob_meta (ps_patterns ps)"
  using assms
  by (auto simp: pattern_set_new_def pattern_set_compile_def Let_def collect_results_map split: if_splits sum.splits option.splits)

lemma parsed_pattern_canonical: "repository_pattern_parse gl p = Inr c \<Longrightarrow> canonical_path c"
  by (auto simp: repository_pattern_parse_def split: sum.splits if_splits dest!: normalize_repository_value_Inr intro: canonical_path_join)

lemma trim_slashes_id: "hd s \<noteq> CHR ''/'' \<Longrightarrow> last s \<noteq> CHR ''/'' \<Longrightarrow> trim_slashes s = s"
proof (cases s rule: rev_cases)
  case (snoc t b)
  assume s: "hd s \<noteq> CHR ''/''" "last s \<noteq> CHR ''/''"
  then have "dropWhile (\<lambda>c. c = CHR ''/'') s = s" by (cases s) (auto simp: snoc)
  then show ?thesis using s snoc by (simp add: trim_slashes_def)
qed (simp add: trim_slashes_def)

lemma children_trim:
  assumes "canonical_path (pre @ ''/**'')" shows "trim_slashes pre = pre"
proof (cases "pre = []")
  case False
  have "split_char CHR ''/'' (pre @ ''/**'') = split_char CHR ''/'' pre @ [''**'']"
    using split_char_append [of "CHR ''/''" pre "''**''"] by (simp add: split_char_def)
  then have ok: "list_all component_ok (split_char CHR ''/'' pre)"
    using assms by (simp add: canonical_path_def canonical_components_def)
  have "hd pre \<noteq> CHR ''/''"
  proof
    assume "hd pre = CHR ''/''"
    then obtain t where "pre = CHR ''/'' # t" using False by (cases pre) auto
    then show False using ok by (simp add: split_char_def component_ok_def)
  qed
  moreover have "last pre \<noteq> CHR ''/''"
  proof
    assume "last pre = CHR ''/''"
    then obtain t where t: "pre = t @ [CHR ''/'']" using False by (metis append_butlast_last_id)
    then have "split_char CHR ''/'' pre = split_char CHR ''/'' t @ [[]]"
      using split_char_append [of "CHR ''/''" t "[]"] by (simp add: split_char_def)
    then show False using ok by (simp add: component_ok_def)
  qed
  ultimately show ?thesis by (rule trim_slashes_id)
qed (simp add: trim_slashes_def)

lemma expressible_cases:
  assumes "expressible_scoped_regex_path gl p = Some a"
  obtains c where "repository_pattern_parse gl p = Inr c" "\<not> has_glob_meta c" "a = Atom_Prefix c"
    | c q where "repository_pattern_parse gl p = Inr c" "has_glob_meta c" "children_glob c q" "a = Atom_Children q"
proof -
  obtain c where c: "repository_pattern_parse gl p = Inr c"
    using assms by (auto simp: expressible_scoped_regex_path_def split: sum.splits)
  have can: "canonical_path c" using parsed_pattern_canonical [OF c] .
  show ?thesis
  proof (cases "has_glob_meta c")
    case False
    then show ?thesis using that(1) [OF c] assms c by (auto simp: expressible_scoped_regex_path_def split: if_splits)
  next
    case True
    then obtain pre where pre: "strip_suffix c ''/**'' = Some pre" using assms c
      by (auto simp: expressible_scoped_regex_path_def split: if_splits option.splits)
    then have "c = pre @ ''/**''" by (auto simp: strip_suffix_def ends_with_def split: if_splits) (metis append_take_drop_id)
    then show ?thesis using that(2) [OF c True] assms c True pre children_trim can
      by (auto simp: expressible_scoped_regex_path_def children_glob_def Let_def split: if_splits)
  qed
qed

lemma within_starts: "path_is_within path p \<longleftrightarrow> path = p \<or> starts_with path (p @ ''/'')"
  by (auto simp: path_is_within_iff starts_with_iff)

lemma set_map_filter: "set (List.map_filter f xs) = {y. \<exists>x \<in> set xs. f x = Some y}"
  by (induction xs) (auto simp: List.map_filter_simps split: option.split)

text \<open>The predicate never hides an allowed path.\<close>

lemma scoped_path_sound:
  assumes gl: "globs_ok gl" and pf: "path_filter_new gl includes excludes = Inr pf" and path: "path_filter_allows gl pf path"
  shows "scoped_path_holds gl includes excludes path"
proof -
  obtain inc exc where sets: "pattern_set_new gl includes = Inr inc" "pattern_set_new gl excludes = Inr exc"
    "pf = \<lparr>pf_includes = inc, pf_excludes = exc, pf_include_all = (includes = [])\<rparr>"
    using pf by (auto simp: path_filter_new_def split: sum.splits)
  note inc = pattern_set_facts [OF sets(1)] and exc = pattern_set_facts [OF sets(2)]
  have "\<not> path_atom_holds a path" if a: "expressible_scoped_regex_path gl p = Some a" "p \<in> set excludes" for a p
  proof
    assume holds: "path_atom_holds a path"
    have member: "c \<in> set (ps_patterns exc)" if "repository_pattern_parse gl p = Inr c" for c
      using exc a(2) that by (fastforce simp: list_all2_conv_all_nth in_set_conv_nth)
    from a(1) have "is_match gl exc path"
    proof (cases rule: expressible_cases)
      case (1 c)
      then have "c \<in> set (ps_literals exc)" using exc member by auto
      then show ?thesis using 1 holds by (auto simp: is_match_def list_ex_iff within_starts)
    next
      case (2 c q)
      then have "c \<in> set (ps_globs exc)" using exc member by auto
      then have "ps_globs exc \<noteq> [] \<and> globset_match gl (ps_globs exc) path"
        using 2 holds gl unfolding globs_ok_def by auto
      then show ?thesis by (simp add: is_match_def)
    qed
    then show False using path sets(3) by (simp add: path_filter_allows_def)
  qed
  then have excludes: "list_all (\<lambda>a. \<not> path_atom_holds a path) (List.map_filter (expressible_scoped_regex_path gl) excludes)"
    by (auto simp: list_all_iff set_map_filter)
  have "\<exists>p \<in> set includes. \<exists>a. expressible_scoped_regex_path gl p = Some a \<and> path_atom_holds a path"
    if "includes \<noteq> []" and all: "None \<notin> set (map (expressible_scoped_regex_path gl) includes)"
  proof -
    have atom: "\<exists>a. expressible_scoped_regex_path gl p = Some a" if "p \<in> set includes" for p
      using all that by force
    have origin: "\<exists>p \<in> set includes. repository_pattern_parse gl p = Inr c" if "c \<in> set (ps_patterns inc)" for c
      using inc that by (fastforce simp: list_all2_conv_all_nth in_set_conv_nth)
    have "is_match gl inc path" using path sets(3) that(1) by (simp add: path_filter_allows_def)
    then consider l where "l \<in> set (ps_literals inc)" "path_is_within path l"
      | "ps_globs inc \<noteq> []" "globset_match gl (ps_globs inc) path" by (auto simp: is_match_def list_ex_iff)
    then show ?thesis
    proof cases
      case 1
      then have l: "l \<in> set (ps_patterns inc)" "\<not> has_glob_meta l" using inc by auto
      then obtain p where p: "p \<in> set includes" "repository_pattern_parse gl p = Inr l" using origin by blast
      then obtain a where a: "expressible_scoped_regex_path gl p = Some a" using atom by blast
      then have "a = Atom_Prefix l" using p(2) l(2) by (cases rule: expressible_cases) auto
      then have "path_atom_holds a path" using 1(2) by (simp add: within_starts)
      then show ?thesis using p(1) a by blast
    next
      case 2
      have "\<exists>q. children_glob g q" if "g \<in> set (ps_globs inc)" for g
      proof -
        have g: "g \<in> set (ps_patterns inc)" "has_glob_meta g" using inc that by auto
        then obtain p where p: "p \<in> set includes" "repository_pattern_parse gl p = Inr g" using origin by blast
        then obtain a where "expressible_scoped_regex_path gl p = Some a" using atom by blast
        then show ?thesis using p(2) g(2) by (cases rule: expressible_cases) auto
      qed
      then obtain g q where gq: "g \<in> set (ps_globs inc)" "children_glob g q" "starts_with path (q @ ''/'')"
        using gl 2(2) unfolding globs_ok_def by blast
      then have g: "g \<in> set (ps_patterns inc)" "has_glob_meta g" using inc by auto
      then obtain p where p: "p \<in> set includes" "repository_pattern_parse gl p = Inr g" using origin by blast
      then obtain a where a: "expressible_scoped_regex_path gl p = Some a" using atom by blast
      then have "a = Atom_Children q" using p(2) g(2) gq(2) by (cases rule: expressible_cases) (auto simp: children_glob_def)
      then have "path_atom_holds a path" using gq(3) by simp
      then show ?thesis using p(1) a by blast
    qed
  qed
  then have "includes = [] \<or> None \<in> set (map (expressible_scoped_regex_path gl) includes) \<or>
      list_ex (\<lambda>a. path_atom_holds a path) (List.map_filter (\<lambda>a. a) (map (expressible_scoped_regex_path gl) includes))"
    by (force simp: list_ex_iff set_map_filter)
  then show ?thesis using excludes by (simp add: scoped_path_holds_def Let_def)
qed

section \<open>Rows selected and rows scanned\<close>

lemma scoped_rows_Inr:
  "scoped_rows max_rows max_candidates allows rows scanned ids = Inr out \<Longrightarrow> scanned \<le> max_rows \<Longrightarrow> max_rows < usize_max \<Longrightarrow>
    out = ids @ map ht_id (filter (\<lambda>h. allows (ht_path h)) rows) \<and> scanned + length rows \<le> max_rows"
proof (induction max_rows max_candidates allows rows scanned ids rule: scoped_rows.induct)
  case (2 max_rows max_candidates allows row rows scanned ids)
  have step: "sat_add scanned 1 = scanned + 1" "scanned + 1 \<le> max_rows"
    using 2(3-5) by (auto simp: sat_add_def Let_def split: if_splits)
  then show ?case using 2 by (auto simp: Let_def split: if_splits)
qed simp

lemma take_all_rows: "length (take (n + 1) xs) \<le> n \<Longrightarrow> take (n + 1) xs = xs"
  by (cases "length xs \<le> n") auto

lemma select_scoped_Inr:
  assumes "select_scoped_regex_candidate_ids gl S query max_scoped_regex_rows_scanned max_candidates includes excludes allows = Inr ids"
    and "\<And>path. allows path \<Longrightarrow> scoped_path_holds gl includes excludes path"
  shows "ids = map ht_id (filter (\<lambda>h. allows (ht_path h)) (fts_rows S query))"
proof -
  let ?rows = "filter (\<lambda>h. scoped_path_holds gl includes excludes (ht_path h)) (fts_rows S query)"
  have sat: "sat_add max_scoped_regex_rows_scanned 1 = max_scoped_regex_rows_scanned + 1"
    by (simp add: sat_add_def usize_max_def max_scoped_regex_rows_scanned_def)
  have out: "ids = map ht_id (filter (\<lambda>h. allows (ht_path h)) (take (max_scoped_regex_rows_scanned + 1) ?rows)) \<and>
      length (take (max_scoped_regex_rows_scanned + 1) ?rows) \<le> max_scoped_regex_rows_scanned"
    using scoped_rows_Inr [OF assms(1) [unfolded select_scoped_regex_candidate_ids_def sat]]
    by (simp add: usize_max_def max_scoped_regex_rows_scanned_def)
  then have "take (max_scoped_regex_rows_scanned + 1) ?rows = ?rows" by (intro take_all_rows) blast
  moreover have "filter (\<lambda>h. allows (ht_path h)) ?rows = filter (\<lambda>h. allows (ht_path h)) (fts_rows S query)"
    using assms(2) by (auto intro: filter_cong)
  ultimately show ?thesis using out by simp
qed

lemma by_ids_rows:
  assumes "distinct (map ht_id (all_hits S))" "set hs \<subseteq> set (all_hits S)"
  shows "regex_candidates_by_ids S (map ht_id hs) = hs"
proof -
  have unique: "filter (\<lambda>k. ht_id k = ht_id h) xs = [h]" if "distinct (map ht_id xs)" "h \<in> set xs" for h and xs :: "chunk_hit list"
    using that
  proof (induction xs)
    case (Cons x xs)
    show ?case
    proof (cases "x = h")
      case True
      then have "filter (\<lambda>k. ht_id k = ht_id h) xs = []" using Cons.prems by (auto simp: filter_empty_conv) (metis imageI)
      then show ?thesis using True by simp
    next
      case False
      then have "ht_id x \<noteq> ht_id h" using Cons.prems by (auto simp: image_iff)
      then show ?thesis using Cons False by simp
    qed
  qed simp
  show ?thesis using assms(2) unique [OF assms(1)] by (induction hs) (auto simp: regex_candidates_by_ids_def)
qed

lemma regex_scan_files_Done:
  "regex_scan_files max_results max_rows allows fs scanned files s = (Done out, t) \<Longrightarrow> scanned \<le> max_rows \<Longrightarrow>
    (\<And>path u b v. allows path u = (Done b, v) \<Longrightarrow> b = allowed path \<and> ss_hits v = ss_hits u) \<Longrightarrow>
    out = files @ filter (\<lambda>f. allowed (fl_path f)) fs \<and> scanned + length fs \<le> max_rows \<and> ss_hits t = ss_hits s"
proof (induction max_results max_rows allows fs scanned files arbitrary: s rule: regex_scan_files.induct)
  case (2 max_results max_rows allows f fs scanned files)
  obtain b u where b: "\<not> max_rows < scanned + 1" "allows (fl_path f) s = (Done b, u)"
    using "2.prems"(1) by (auto simp: io_steps split: if_splits)
  then have a: "b = allowed (fl_path f)" "ss_hits u = ss_hits s" using "2.prems"(3) by blast+
  show ?case
  proof (cases b)
    case False
    then have "regex_scan_files max_results max_rows allows fs (scanned + 1) files u = (Done out, t)"
      using "2.prems"(1) b by (auto simp: io_steps split: if_splits)
    from "2.IH"(1) [OF b(1) _ this] False b a "2.prems"(3) show ?thesis by fastforce
  next
    case True
    then have "length files \<noteq> max_results" "regex_scan_files max_results max_rows allows fs (scanned + 1) (files @ [f]) u = (Done out, t)"
      using "2.prems"(1) b by (auto simp: io_steps split: if_splits)
    from "2.IH"(2) [OF b(1) _ this] True b a "2.prems"(3) show ?thesis by fastforce
  qed
qed (simp add: io_steps)

lemma check_chunk_counts_Done:
  "check_chunk_counts c files s = (Done (), t) \<Longrightarrow> ss_hits t = ss_hits s \<and> (\<forall>f \<in> set files. length (fl_chunks f) \<le> max_regex_chunks_per_file)"
proof (induction files arbitrary: s)
  case (Cons f fs)
  then show ?case unfolding check_chunk_counts_def
    by (auto simp: io_steps split: if_splits dest!: same_hitsD [OF same_hits_charges(1)])
qed (simp add: check_chunk_counts_def io_steps)

text \<open>A loop of the full scan retains a first part of the matching chunks, all of them when it is not stopped.\<close>

definition gathers :: "scan_state \<Rightarrow> chunk_hit list \<Rightarrow> scan_error option \<Rightarrow> scan_state \<Rightarrow> bool" where
  "gathers s hs r t \<longleftrightarrow> (\<exists>ks rest. hs = ks @ rest \<and> ss_hits t = ss_hits s @ ks \<and> (r = None \<longrightarrow> rest = []))"

lemma gathers_stop: "ss_hits t = ss_hits s \<Longrightarrow> gathers s hs (Some e) t"
  by (simp add: gathers_def)

lemma gathers_nil: "ss_hits t = ss_hits s \<Longrightarrow> gathers s [] r t"
  by (simp add: gathers_def)

lemma gathers_step: "gathers s hs None t \<Longrightarrow> gathers t ks r u \<Longrightarrow> gathers s (hs @ ks) r u"
  by (auto simp: gathers_def)

lemma gathers_weaken: "gathers s hs (Some e) t \<Longrightarrow> gathers s (hs @ ks) (Some e) t"
  by (auto simp: gathers_def)

lemma gathers_same: "ss_hits t = ss_hits s \<Longrightarrow> gathers t hs r u \<Longrightarrow> gathers s hs r u"
  by (auto simp: gathers_def)

lemma io_try_Done: "io_try m s = (Done r, t) \<Longrightarrow> same_hits m \<Longrightarrow> ss_hits t = ss_hits s"
  using same_hitsD [OF same_hits_try] by blast

lemma scan_chunk_rows_gathers:
  "scan_chunk_rows c rx m f cs s = (Done r, t) \<Longrightarrow> gathers s (filter (\<lambda>h. rx (ht_content h)) (map (hit_of f) cs)) r t"
proof (induction cs arbitrary: s)
  case (Cons ck cs)
  obtain charged u where charged: "io_try (charge_chunk c (length (ck_content ck))) s = (Done charged, u)"
    and rest: "(case charged of
         Inl e \<Rightarrow> io_return (Some e)
       | Inr _ \<Rightarrow>
           io_then (note_phase (\<lambda>p. p\<lparr>sp_chunks_loaded := sat_add (sp_chunks_loaded p) 1,
               sp_chunks_verified := sat_add (sp_chunks_verified p) 1\<rparr>))
             (if rx (ck_content ck) then
                io_bind (io_get (\<lambda>s. (at_limit m s, length (ss_hits s)))) (\<lambda>(full, hits).
                  if full then io_return (Some (retained_limit m hits))
                  else io_then (retain (hit_of f ck)) (scan_chunk_rows c rx m f cs))
              else scan_chunk_rows c rx m f cs)) u = (Done r, t)"
    using Cons.prems unfolding scan_chunk_rows.simps io_steps by blast
  have u: "ss_hits u = ss_hits s" using io_try_Done [OF charged] by (simp add: same_hits_rules)
  show ?case
  proof (cases charged)
    case (Inl e)
    then show ?thesis using rest u by (auto simp: io_steps intro: gathers_stop)
  next
    case (Inr x)
    define v where "v = u\<lparr>ss_phases := (ss_phases u)\<lparr>sp_chunks_loaded := sat_add (sp_chunks_loaded (ss_phases u)) 1,
        sp_chunks_verified := sat_add (sp_chunks_verified (ss_phases u)) 1\<rparr>\<rparr>"
    have v: "ss_hits v = ss_hits s" using u by (simp add: v_def)
    have content: "ht_content (hit_of f ck) = ck_content ck" by (simp add: hit_of_def)
    show ?thesis
    proof (cases "rx (ck_content ck)")
      case False
      then have "scan_chunk_rows c rx m f cs v = (Done r, t)" using rest Inr by (simp add: io_steps note_phase_def v_def)
      from gathers_same [OF v Cons.IH [OF this]] show ?thesis using False content by simp
    next
      case True
      show ?thesis
      proof (cases "at_limit m v")
        case True
        then show ?thesis using rest Inr \<open>rx (ck_content ck)\<close> v
          by (auto simp: io_steps note_phase_def v_def intro!: gathers_stop)
      next
        case False
        then obtain w where w: "retain (hit_of f ck) v = (Done (), w)" "scan_chunk_rows c rx m f cs w = (Done r, t)"
          using rest Inr \<open>rx (ck_content ck)\<close> by (auto simp: io_steps note_phase_def v_def)
        have "gathers s [hit_of f ck] None w" using w(1) v adds_retain by (auto simp: gathers_def adds_hits_def)
        from gathers_step [OF this Cons.IH [OF w(2)]] show ?thesis using \<open>rx (ck_content ck)\<close> content by simp
      qed
    qed
  qed
qed (simp add: io_steps gathers_nil)

lemma scan_file_rows_gathers:
  "scan_file_rows c rx m S fs s = (Done r, t) \<Longrightarrow>
    gathers s (concat (map (\<lambda>f. filter (\<lambda>h. rx (ht_content h)) (map (hit_of f) (get_chunks_for_file S f max_regex_chunks_per_file))) fs)) r t"
proof (induction fs arbitrary: s)
  case (Cons f fs)
  obtain y u1 charged u where u1: "scan_check c s = (Done y, u1)" and charged: "io_try (charge_file c) u1 = (Done charged, u)"
    and rest: "(case charged of
            Inl e \<Rightarrow> io_return (Some e)
          | Inr _ \<Rightarrow>
              io_bind (scan_chunk_rows c rx m f (get_chunks_for_file S f max_regex_chunks_per_file)) (\<lambda>stopped.
                case stopped of
                  Some e \<Rightarrow> io_return (Some e)
                | None \<Rightarrow> scan_file_rows c rx m S fs)) u = (Done r, t)"
    using Cons.prems unfolding scan_file_rows.simps io_steps by blast
  have u: "ss_hits u = ss_hits s"
    using io_try_Done [OF charged] same_hitsD [OF same_hits_charges(1) u1] by (simp add: same_hits_rules)
  show ?case
  proof (cases charged)
    case (Inl e)
    then show ?thesis using rest u by (auto simp: io_steps intro: gathers_stop)
  next
    case (Inr x)
    then obtain stopped v where v: "scan_chunk_rows c rx m f (get_chunks_for_file S f max_regex_chunks_per_file) u = (Done stopped, v)"
      and more: "(case stopped of Some e \<Rightarrow> io_return (Some e) | None \<Rightarrow> scan_file_rows c rx m S fs) v = (Done r, t)"
      using rest by (auto simp: io_steps)
    note g = gathers_same [OF u scan_chunk_rows_gathers [OF v]]
    show ?thesis
    proof (cases stopped)
      case None
      then show ?thesis using gathers_step [OF g [unfolded None] Cons.IH] more by simp
    next
      case (Some e)
      then show ?thesis using gathers_weaken [OF g [unfolded Some]] more by (simp add: io_steps)
    qed
  qed
qed (simp add: io_steps gathers_nil)

section \<open>The search is exact\<close>

text \<open>
  What the search relies on: identifiers of chunks are distinct, and the full text index returns every row
  whose content satisfies the query, which for the trigram tokenizer holds for words of three characters
  or more.
\<close>

definition index_ok :: "index_snapshot \<Rightarrow> bool" where
  "index_ok S \<longleftrightarrow> distinct (map ht_id (all_hits S)) \<and>
     (\<forall>e c. (\<forall>t \<in> set (terms_of e). 3 \<le> char_count t) \<longrightarrow> admits_expr c e \<longrightarrow> ix_fts S (fts_query e) c)"

definition search_laws :: "regex_lib \<Rightarrow> fold_table \<Rightarrow> glob_lib \<Rightarrow> index_snapshot \<Rightarrow> (string \<Rightarrow> bool) \<Rightarrow> search_input \<Rightarrow> bool" where
  "search_laws L F gl S rx request \<longleftrightarrow> extractor_ok L \<and> fold_table_ok F \<and> globs_ok gl \<and> index_ok S \<and>
     (\<forall>c. rx c \<longrightarrow> request_found L F request c)"

definition wanted_hits :: "glob_lib \<Rightarrow> path_filter \<Rightarrow> scan_limit \<Rightarrow> (string \<Rightarrow> bool) \<Rightarrow> index_snapshot \<Rightarrow> chunk_hit list" where
  "wanted_hits gl pf limit rx S =
     filter (\<lambda>h. path_filter_allows gl pf (ht_path h) \<and> limit_allows_path limit (ht_path h) \<and> rx (ht_content h)) (all_hits S)"

lemma planned_rows:
  assumes "search_laws L F gl S rx request" "plan_search L F request = Planned plan"
  shows "filter (\<lambda>h. P h \<and> rx (ht_content h)) (fts_rows S (fts_query (pl_expression plan))) =
    filter (\<lambda>h. P h \<and> rx (ht_content h)) (all_hits S)"
proof -
  have "ix_fts S (fts_query (pl_expression plan)) c" if "rx c" for c
  proof -
    have "admits_expr c (pl_expression plan)"
      using assms that unfolding search_laws_def by (intro regex_plan_sound_lemma [OF assms(2)]) auto
    then show ?thesis using assms plan_words [OF assms(2)] unfolding search_laws_def index_ok_def by blast
  qed
  then show ?thesis unfolding fts_rows_def filter_filter by (auto intro: filter_cong)
qed

text \<open>A program that ends without a limitation, having added these chunks.\<close>

definition finishes :: "search_scan scan \<Rightarrow> chunk_hit list \<Rightarrow> bool" where
  "finishes m hs \<longleftrightarrow> (\<forall>s scan t. m s = (Done scan, t) \<longrightarrow> sn_limitation scan = None \<and> sn_hits scan = ss_hits s @ hs)"

lemma finishes_scan: "finishes (finish_scan None) []"
  by (auto simp: finishes_def finish_scan_def io_steps)

lemma finishes_fail: "finishes (io_fail e) hs"
  by (simp add: finishes_def io_steps)

lemma finishes_then: "adds_hits m hs \<Longrightarrow> finishes n [] \<Longrightarrow> finishes (io_then m n) hs"
  unfolding finishes_def adds_hits_def io_steps by fastforce

lemma finishes_same: "same_hits m \<Longrightarrow> finishes n hs \<Longrightarrow> finishes (io_then m n) hs"
  unfolding finishes_def io_steps by (metis same_hitsD)

lemma finishes_lift: "(\<And>a. r = Inr a \<Longrightarrow> finishes (f a) hs) \<Longrightarrow> finishes (io_bind (io_lift r) f) hs"
  unfolding finishes_def io_steps by (auto simp: io_lift_def io_steps split: sum.splits)

lemma regex_candidate_hits_finishes:
  assumes laws: "search_laws L F gl S rx request" and plan: "plan_search L F request = Planned plan"
    and pf: "path_filter_new gl (si_include_paths request) (si_exclude_paths request) = Inr pf"
  shows "finishes (regex_candidate_hits gl c rx S request pf m plan)
    (filter (\<lambda>h. path_filter_allows gl pf (ht_path h) \<and> rx (ht_content h)) (all_hits S))"
proof -
  let ?q = "fts_query (pl_expression plan)" and ?allows = "path_filter_allows gl pf"
  let ?hits = "filter (\<lambda>h. ?allows (ht_path h) \<and> rx (ht_content h)) (all_hits S)"
  note rows = planned_rows [OF laws plan, of "\<lambda>h. ?allows (ht_path h)"]
  have "filter (\<lambda>h. rx (ht_content h)) (regex_candidates_by_ids S ids) = ?hits"
    if "select_scoped_regex_candidate_ids gl S ?q max_scoped_regex_rows_scanned max_regex_candidate_chunks
        (si_include_paths request) (si_exclude_paths request) ?allows = Inr ids" for ids
  proof -
    have "ids = map ht_id (filter (\<lambda>h. ?allows (ht_path h)) (fts_rows S ?q))"
      using select_scoped_Inr [OF that] scoped_path_sound [OF _ pf] laws by (simp add: search_laws_def)
    moreover have "set (filter (\<lambda>h. ?allows (ht_path h)) (fts_rows S ?q)) \<subseteq> set (all_hits S)" by (auto simp: fts_rows_def)
    moreover have "distinct (map ht_id (all_hits S))" using laws by (simp add: search_laws_def index_ok_def)
    ultimately have "regex_candidates_by_ids S ids = filter (\<lambda>h. ?allows (ht_path h)) (fts_rows S ?q)" by (simp add: by_ids_rows)
    then show ?thesis using rows by (simp add: conj_commute)
  qed
  then have "adds_hits (scoped_candidates c rx m S ids) ?hits"
    if "select_scoped_regex_candidate_ids gl S ?q max_scoped_regex_rows_scanned max_regex_candidate_chunks
        (si_include_paths request) (si_exclude_paths request) ?allows = Inr ids" for ids
    using adds_scoped [of c rx m S ids] that by simp
  moreover have "adds_hits (candidate_pages c rx m ?allows S ?q 0) ?hits"
    using adds_pages [of c rx m ?allows S ?q 0] rows by simp
  ultimately show ?thesis unfolding regex_candidate_hits_def Let_def
    by (auto intro!: finishes_same [OF same_hits_basic(4)] finishes_lift finishes_then [OF _ finishes_scan] finishes_fail)
qed

lemma full_scan_Done:
  assumes gl: "globs_ok gl" and pf: "path_filter_new gl (si_include_paths request) (si_exclude_paths request) = Inr pf"
    and run: "full_scan gl c rx S request pf limit fallback s = (Done scan, t)"
  shows "\<exists>ks rest. wanted_hits gl pf limit rx S = ks @ rest \<and> sn_hits scan = ss_hits s @ ks \<and>
    (sn_limitation scan = None \<longrightarrow> rest = [])"
proof -
  let ?allowed = "\<lambda>path. path_filter_allows gl pf path \<and> limit_allows_path limit path"
  let ?rows = "filter (\<lambda>f. scoped_path_holds gl (si_include_paths request) (si_exclude_paths request) (fl_path f)) (ix_files S)"
  have sat: "sat_add max_scoped_regex_rows_scanned 1 = max_scoped_regex_rows_scanned + 1"
    by (simp add: sat_add_def usize_max_def max_scoped_regex_rows_scanned_def)
  obtain files u1 u2 u3 stopped u4 where
    files: "regex_scan_files max_regex_files_scanned max_scoped_regex_rows_scanned
        (\<lambda>path. io_then (scan_check c) (io_return (?allowed path))) (take (max_scoped_regex_rows_scanned + 1) ?rows) 0 [] s = (Done files, u1)"
    and counts: "check_chunk_counts c files u1 = (Done (), u2)" and u3: "ss_hits u3 = ss_hits u2"
    and rows: "scan_file_rows c rx (limit_candidates limit) S files u3 = (Done stopped, u4)"
    and ending: "(case stopped of Some e \<Rightarrow> scan_stop limit e | None \<Rightarrow> finish_scan None) u4 = (Done scan, t)"
    using run unfolding full_scan_def sat by (elim io_bind_Done io_then_Done)
      (rule that, assumption, simp, erule same_hitsD [OF same_hits_basic(4)], assumption+)
  have visited: "files = filter (\<lambda>f. ?allowed (fl_path f)) (take (max_scoped_regex_rows_scanned + 1) ?rows) \<and>
      length (take (max_scoped_regex_rows_scanned + 1) ?rows) \<le> max_scoped_regex_rows_scanned \<and> ss_hits u1 = ss_hits s"
    using regex_scan_files_Done [OF files, of ?allowed] by (auto simp: io_steps dest: same_hitsD [OF same_hits_charges(1)])
  then have "take (max_scoped_regex_rows_scanned + 1) ?rows = ?rows" by (intro take_all_rows) blast
  moreover have "filter (\<lambda>f. ?allowed (fl_path f)) ?rows = filter (\<lambda>f. ?allowed (fl_path f)) (ix_files S)"
    using scoped_path_sound [OF gl pf] by (auto intro: filter_cong)
  ultimately have fs: "files = filter (\<lambda>f. ?allowed (fl_path f)) (ix_files S)" using visited by simp
  note small = check_chunk_counts_Done [OF counts]
  have "map (\<lambda>f. filter (\<lambda>h. rx (ht_content h)) (map (hit_of f) (get_chunks_for_file S f max_regex_chunks_per_file))) files =
      map (\<lambda>f. filter (\<lambda>h. rx (ht_content h)) (map (hit_of f) (fl_chunks f))) files"
    using small by (auto simp: get_chunks_for_file_def bounded_limit_def max_regex_chunks_per_file_def hard_max_results_def)
  moreover have "concat (map (\<lambda>f. filter (\<lambda>h. rx (ht_content h)) (map (hit_of f) (fl_chunks f))) (filter (\<lambda>f. ?allowed (fl_path f)) xs)) =
      filter (\<lambda>h. path_filter_allows gl pf (ht_path h) \<and> limit_allows_path limit (ht_path h) \<and> rx (ht_content h))
        (concat (map (\<lambda>f. map (hit_of f) (fl_chunks f)) xs))" for xs
    by (induction xs) (auto simp: hit_of_def filter_map comp_def)
  ultimately have all: "concat (map (\<lambda>f. filter (\<lambda>h. rx (ht_content h))
      (map (hit_of f) (get_chunks_for_file S f max_regex_chunks_per_file))) files) = wanted_hits gl pf limit rx S"
    unfolding wanted_hits_def all_hits_def fs by (simp only:)
  obtain ks rest where ks: "wanted_hits gl pf limit rx S = ks @ rest" "ss_hits u4 = ss_hits u3 @ ks" "stopped = None \<longrightarrow> rest = []"
    using scan_file_rows_gathers [OF rows] unfolding all gathers_def by blast
  have "sn_hits scan = ss_hits u4 \<and> (sn_limitation scan = None \<longrightarrow> stopped = None)"
    using ending by (auto simp: scan_stop_def finish_scan_def io_steps split: option.splits scan_limit.splits if_splits)
  then show ?thesis using ks visited small u3 by auto
qed

lemma regex_hits_Done:
  assumes "search_laws L F gl S rx request" "planning \<Longrightarrow> \<exists>l. limit = Limit_Complete l"
    and pf: "path_filter_new gl (si_include_paths request) (si_exclude_paths request) = Inr pf"
    and run: "regex_hits L F gl c rx S request limit planning scan_start = (Done scan, t)"
  shows "\<exists>rest. wanted_hits gl pf limit rx S = sn_hits scan @ rest \<and> (sn_limitation scan = None \<longrightarrow> rest = [])"
proof (cases "if planning then plan_search L F request else no_work Planning_Disabled")
  case (Planned plan)
  then have planning: "planning" "plan_search L F request = Planned plan" by (auto simp: no_work_def split: if_splits)
  have "regex_candidate_hits gl c rx S request pf (limit_candidates limit) plan scan_start = (Done scan, t)"
    using run pf Planned by (simp add: regex_hits_def)
  then have "sn_limitation scan = None \<and> sn_hits scan = ss_hits scan_start @
      filter (\<lambda>h. path_filter_allows gl pf (ht_path h) \<and> rx (ht_content h)) (all_hits S)"
    using regex_candidate_hits_finishes [OF assms(1) planning(2) pf] unfolding finishes_def by blast
  then show ?thesis using assms(2) [OF planning(1)] by (auto simp: wanted_hits_def scan_start_def)
next
  case (Fallback d)
  then have "full_scan gl c rx S request pf limit d scan_start = (Done scan, t)" using run pf by (simp add: regex_hits_def)
  from full_scan_Done [OF _ pf this] show ?thesis using assms(1) by (auto simp: search_laws_def scan_start_def)
qed

text \<open>C11: A regular expression search returns exactly the matching chunks.  When it succeeds without a limitation,
  its hits are, in the order of the index, all the chunks on allowed paths whose content the matcher
  accepts, and only those, whether the planner chose the trigram index, with or without path filters, or
  the full scan; when a ranked scan reports a limitation, the hits are a first part of them.  Every other
  case is an error: no limit on rows, pages, files, chunks, bytes or candidates drops a match silently.\<close>

theorem regex_search_exact:
  assumes "search_laws L F gl S rx request" "planning \<Longrightarrow> \<exists>l. limit = Limit_Complete l"
    and "path_filter_new gl (si_include_paths request) (si_exclude_paths request) = Inr pf"
    and "regex_hits L F gl cancelled rx S request limit planning scan_start = (Done scan, t)"
  shows "\<exists>rest. filter (\<lambda>h. path_filter_allows gl pf (ht_path h) \<and> limit_allows_path limit (ht_path h) \<and> rx (ht_content h)) (all_hits S) =
      sn_hits scan @ rest \<and> (sn_limitation scan = None \<longrightarrow> rest = [])"
  using regex_hits_Done [OF assms] unfolding wanted_hits_def .

text \<open>C12: The index is an optimisation only.  A complete search that succeeds with planning and one that succeeds
  with planning disabled, the forced full scan the code calls its oracle, return the same chunks in the
  same order, whatever their cancellations, limits and work.\<close>

theorem planning_changes_nothing:
  assumes "search_laws L F gl S rx request"
    and "regex_hits L F gl cancelled rx S request (Limit_Complete l) True scan_start = (Done planned, t)"
    and "regex_hits L F gl cancelled' rx S request (Limit_Complete l') False scan_start = (Done oracle, u)"
  shows "sn_hits planned = sn_hits oracle"
proof -
  obtain pf where pf: "path_filter_new gl (si_include_paths request) (si_exclude_paths request) = Inr pf"
    using assms(2) by (auto simp: regex_hits_def io_steps split: sum.splits)
  have complete: "sn_limitation scan = None"
    if run: "regex_hits L F gl c rx S request (Limit_Complete l) p scan_start = (Done scan, t)" for c l p scan t
  proof (cases "if p then plan_search L F request else no_work Planning_Disabled")
    case (Planned plan)
    then have "plan_search L F request = Planned plan" by (auto simp: no_work_def split: if_splits)
    from regex_candidate_hits_finishes [OF assms(1) this pf] show ?thesis
      using run pf Planned unfolding finishes_def by (simp add: regex_hits_def) blast
  next
    case (Fallback d)
    then have "full_scan gl c rx S request pf (Limit_Complete l) d scan_start = (Done scan, t)"
      using run pf by (simp add: regex_hits_def)
    then show ?thesis
      by (auto simp: full_scan_def io_steps scan_stop_def finish_scan_def split: option.splits)
  qed
  show ?thesis
    using regex_hits_Done [OF assms(1) _ pf assms(2)] regex_hits_Done [OF assms(1) _ pf assms(3)]
      complete [OF assms(2)] complete [OF assms(3)] by (auto simp: wanted_hits_def)
qed

section \<open>A sample search\<close>

definition children_match :: "string \<Rightarrow> string \<Rightarrow> bool" where
  "children_match g path = (case strip_suffix g ''/**'' of
     None \<Rightarrow> False | Some p \<Rightarrow> p \<noteq> [] \<and> \<not> has_glob_meta p \<and> starts_with path (p @ ''/''))"

lemma children_match_iff: "children_match g path \<longleftrightarrow> (\<exists>p. children_glob g p \<and> starts_with path (p @ ''/''))"
  by (auto simp: children_match_def children_glob_def strip_suffix_def ends_with_iff)

definition sample_glob_lib :: glob_lib where
  "sample_glob_lib = \<lparr>glob_new = (\<lambda>_. True), glob_error = (\<lambda>_. []), globset_build = (\<lambda>_. True), globset_error = (\<lambda>_. []),
     globset_match = (\<lambda>gs path. list_ex (\<lambda>g. children_match g path) gs)\<rparr>"

lemma sample_globs_ok: "globs_ok sample_glob_lib"
  by (auto simp: globs_ok_def sample_glob_lib_def list_ex_iff children_match_iff)

definition sample_main :: file_row where
  "sample_main = \<lparr>fl_id = 1, fl_path = ''main.rs'', fl_generation = 1, fl_chunks =
     [\<lparr>ck_id = 7, ck_content = ''fn main() {}'', ck_start_line = 1, ck_end_line = 1, ck_start_byte = 0, ck_end_byte = 12, ck_token_count = 4\<rparr>]\<rparr>"

definition sample_index :: index_snapshot where
  "sample_index = \<lparr>ix_files = [sample_main], ix_fts = (\<lambda>_ _. True)\<rparr>"

definition sample_rx :: "string \<Rightarrow> bool" where
  "sample_rx c = starts_with c ''fn main''"

lemma sample_laws: "search_laws sample_regex_lib sample_caseless sample_glob_lib sample_index sample_rx sample_search"
proof -
  have "request_found sample_regex_lib sample_caseless sample_search (''fn main'' @ t)" for t
  proof -
    have "match_hir (''fn main'' @ t) (Hir_Literal ''fn main'') 0 7" by (simp add: slice_def)
    moreover have "match_hir (''fn main'' @ t) (Hir_Repetition 0 None (Hir_Class (\<lambda>s. length s = 1))) 7 7"
      by (auto intro: exI [of _ "0::nat"])
    ultimately have "match_hir (''fn main'' @ t) (Hir_Concat [Hir_Literal ''fn main'', Hir_Repetition 0 None (Hir_Class (\<lambda>s. length s = 1))]) 0 7"
      by (auto intro!: relcomppI simp del: match_hir.simps(2,5))
    then have "found_in (Hir_Concat [Hir_Literal ''fn main'', Hir_Repetition 0 None (Hir_Class (\<lambda>s. length s = 1))]) (''fn main'' @ t)"
      unfolding found_in_def by (intro exI [of _ "0::nat"] exI [of _ "7::nat"] conjI) simp_all
    then show ?thesis by (simp add: request_found_def is_exhaustive_text_def sample_search_def sample_regex_lib_def)
  qed
  then have "sample_rx c \<longrightarrow> request_found sample_regex_lib sample_caseless sample_search c" for c
    unfolding sample_rx_def starts_with_iff by blast
  moreover have "fold_table_ok sample_caseless" by (simp add: fold_table_ok_def sample_caseless_def)
  moreover have "extractor_ok sample_regex_lib" by (simp add: extractor_ok_def sample_regex_lib_def)
  moreover have "index_ok sample_index" by (simp add: index_ok_def sample_index_def all_hits_def sample_main_def hit_of_def)
  ultimately show ?thesis using sample_globs_ok by (simp add: search_laws_def)
qed

definition sample_pf :: path_filter where
  "sample_pf = \<lparr>pf_includes = pattern_set_empty, pf_excludes = pattern_set_empty, pf_include_all = True\<rparr>"

lemma sample_filter: "path_filter_new sample_glob_lib (si_include_paths sample_search) (si_exclude_paths sample_search) = Inr sample_pf"
  by (simp add: sample_search_def path_filter_new_def pattern_set_new_def pattern_set_compile_def max_repository_patterns_def
      sample_glob_lib_def sample_pf_def pattern_set_empty_def)

definition sample_hit :: chunk_hit where
  "sample_hit = hit_of sample_main (hd (fl_chunks sample_main))"

lemma sample_hit_simps: "sample_rx (ht_content sample_hit)" "length (ht_content sample_hit) = 12" "path_filter_allows sample_glob_lib sample_pf p"
  by (simp_all add: sample_hit_def hit_of_def sample_main_def sample_rx_def starts_with_def path_filter_allows_def is_match_def sample_pf_def pattern_set_empty_def)

lemma sample_rows: "fts_rows sample_index q = [sample_hit]"
  by (simp add: fts_rows_def all_hits_def sample_index_def sample_main_def sample_hit_def)

lemma sample_pages:
  "candidate_pages c rx m allows sample_index q 0 =
     io_then (scan_check c) (io_then (io_each (\<lambda>h. if \<not> allows (ht_path h) then io_return () else verify_candidate c rx m h) [sample_hit])
       (io_return ()))"
  by (subst candidate_pages.simps)
    (simp add: search_regex_candidates_page_def sample_rows bounded_limit_def regex_candidate_page_size_def hard_max_results_def)

lemmas sample_search_simps = io_eval io_lift_def note_phase_def retain_def verify_candidate_def charge_file_def charge_chunk_def
  scan_check_def work_enforce_def at_limit_def finish_scan_def scan_start_def sat_add_def usize_max_def default_regex_work_files_def
  default_regex_work_chunks_def default_regex_work_bytes_def max_regex_files_scanned_def regex_cancellation_check_interval_def

lemma sample_planned_run:
  "\<exists>scan t. regex_hits sample_regex_lib sample_caseless sample_glob_lib (\<lambda>_. False) sample_rx sample_index sample_search
     (Limit_Complete None) True scan_start = (Done scan, t) \<and> sn_limitation scan = None"
proof -
  have "plan_search sample_regex_lib sample_caseless sample_search = Planned sample_plan_for_main"
    using sample_plan_made by (simp add: plan_search_def is_exhaustive_text_def sample_search_def)
  moreover have "si_include_paths sample_search = []" "si_exclude_paths sample_search = []" by (simp_all add: sample_search_def)
  ultimately show ?thesis using sample_filter
    by (simp add: regex_hits_def regex_candidate_hits_def sample_pages regex_candidate_count_up_to_def sample_rows
        max_regex_candidate_chunks_def Let_def sample_hit_simps sample_search_simps)
qed

lemma sample_full_run:
  "\<exists>scan t. regex_hits sample_regex_lib sample_caseless sample_glob_lib (\<lambda>_. False) sample_rx sample_index sample_search
     (Limit_Complete None) False scan_start = (Done scan, t)"
proof -
  have "sample_rx ''fn main() {}''" by (simp add: sample_rx_def starts_with_def)
  then show ?thesis using sample_filter
    by (simp add: regex_hits_def full_scan_def no_work_def scoped_path_holds_def sample_search_def sample_index_def Let_def
        max_scoped_regex_rows_scanned_def sample_hit_simps check_chunk_counts_def max_regex_chunks_per_file_def sample_main_def
        get_chunks_for_file_def bounded_limit_def hard_max_results_def sample_search_simps List.map_filter_simps)
qed

theorem regex_search_exact_witness:
  "\<exists>scan t. regex_hits sample_regex_lib sample_caseless sample_glob_lib (\<lambda>_. False) sample_rx sample_index sample_search
     (Limit_Complete None) True scan_start = (Done scan, t) \<and> sn_hits scan = [sample_hit]"
proof -
  obtain scan t where run: "regex_hits sample_regex_lib sample_caseless sample_glob_lib (\<lambda>_. False) sample_rx sample_index sample_search
     (Limit_Complete None) True scan_start = (Done scan, t)" "sn_limitation scan = None" using sample_planned_run by blast
  have "filter (\<lambda>h. path_filter_allows sample_glob_lib sample_pf (ht_path h) \<and> limit_allows_path (Limit_Complete None) (ht_path h) \<and>
      sample_rx (ht_content h)) (all_hits sample_index) = [sample_hit]"
    using sample_rows [of undefined] by (simp add: fts_rows_def sample_index_def sample_hit_simps)
  then have "sn_hits scan = [sample_hit]"
    using regex_search_exact [OF sample_laws _ sample_filter run(1)] run(2) by auto
  then show ?thesis using run by blast
qed

theorem planning_changes_nothing_witness:
  "\<exists>planned oracle t u.
     regex_hits sample_regex_lib sample_caseless sample_glob_lib (\<lambda>_. False) sample_rx sample_index sample_search
       (Limit_Complete None) True scan_start = (Done planned, t) \<and>
     regex_hits sample_regex_lib sample_caseless sample_glob_lib (\<lambda>_. False) sample_rx sample_index sample_search
       (Limit_Complete None) False scan_start = (Done oracle, u) \<and> sn_hits planned = sn_hits oracle"
  using sample_planned_run sample_full_run planning_changes_nothing [OF sample_laws] by blast

end
