(* ===== verification/Parser_Hierarchy.thy ===== *)
theory Parser_Hierarchy
  imports Rust_Str
begin

text \<open>
  What a parse adds to the nodes the grammars report (\<open>src/parser/hierarchy.rs\<close>, \<open>deduplicate_imports\<close> of
  \<open>src/parser/imports.rs\<close>, the end of \<open>parse_language_with_cancellation\<close> in \<open>src/parser/api.rs\<close>): duplicates
  are dropped, symbols get the name of their parent and references the name of the symbol around them.
  The stack scans of the code are shown to compute the innermost container.  The tree walks before them
  read the nodes of tree-sitter and are not modelled.
\<close>

section \<open>Symbols and references\<close>

record symbol =
  sb_name :: string
  sb_kind :: string
  sb_parent :: "string option"
  sb_signature :: "string option"
  sb_start_line :: nat
  sb_end_line :: nat
  sb_start_byte :: nat
  sb_end_byte :: nat

datatype reference_role = Role_Definition | Role_Reference

record reference =
  rf_name :: string
  rf_kind :: string
  rf_role :: reference_role
  rf_enclosing_symbol :: "string option"
  rf_start_line :: nat
  rf_end_line :: nat
  rf_start_byte :: nat
  rf_end_byte :: nat

record import_line =
  im_raw_target :: string
  im_resolved_path :: "string option"
  im_line :: nat

section \<open>Duplicates\<close>

text \<open>\<open>retain\<close> with a set of the keys seen.\<close>

fun retain_first :: "('a \<Rightarrow> 'k) \<Rightarrow> 'k set \<Rightarrow> 'a list \<Rightarrow> 'a list" where
  "retain_first key seen [] = []"
| "retain_first key seen (x # xs) =
     (if key x \<in> seen then retain_first key seen xs else x # retain_first key (insert (key x) seen) xs)"

definition symbol_key :: "symbol \<Rightarrow> string \<times> string \<times> nat \<times> nat" where
  "symbol_key s = (sb_kind s, sb_name s, sb_start_byte s, sb_end_byte s)"

definition deduplicate_symbols :: "symbol list \<Rightarrow> symbol list" where
  "deduplicate_symbols symbols = retain_first symbol_key {} symbols"

definition deduplicate_imports :: "import_line list \<Rightarrow> import_line list" where
  "deduplicate_imports imports = retain_first (\<lambda>i. (im_line i, im_raw_target i)) {} imports"

section \<open>Parents\<close>

definition strictly_contains :: "symbol \<Rightarrow> symbol \<Rightarrow> bool" where
  "strictly_contains parent child \<longleftrightarrow>
     sb_start_byte parent \<le> sb_start_byte child \<and> sb_end_byte child \<le> sb_end_byte parent \<and>
     (sb_start_byte parent < sb_start_byte child \<or> sb_end_byte child < sb_end_byte parent)"

text \<open>Outer symbols first; and the order of the results.\<close>

definition extent_cmp :: "symbol cmp" where
  "extent_cmp = lex_cmp (key_cmp sb_start_byte) (rev_cmp (key_cmp sb_end_byte))"

definition place_cmp :: "symbol cmp" where
  "place_cmp = lex_cmp (key_cmp sb_start_byte) (key_cmp sb_end_byte)"

definition extent_order :: "symbol list \<Rightarrow> nat list \<Rightarrow> nat list" where
  "extent_order symbols indices = sort_by (\<lambda>a b. extent_cmp (symbols ! a) (symbols ! b)) indices"

text \<open>The stack has its top first.\<close>

fun assign_parents :: "symbol list \<Rightarrow> nat list \<Rightarrow> nat list \<Rightarrow> symbol list" where
  "assign_parents symbols [] stack = symbols"
| "assign_parents symbols (i # indices) stack =
     (let stack = dropWhile (\<lambda>t. \<not> strictly_contains (symbols ! t) (symbols ! i)) stack;
          symbols =
            (if sb_parent (symbols ! i) = None
             then symbols[i := (symbols ! i)\<lparr>sb_parent := (case stack of [] \<Rightarrow> None | t # _ \<Rightarrow> Some (sb_name (symbols ! t)))\<rparr>]
             else symbols) in
      assign_parents symbols indices (i # stack))"

definition compute_symbol_parents :: "symbol list \<Rightarrow> symbol list" where
  "compute_symbol_parents symbols =
     (if symbols = [] then []
      else sort_by place_cmp (assign_parents symbols (extent_order symbols [0..<length symbols]) []))"

section \<open>Enclosing symbols\<close>

definition reference_cmp :: "reference cmp" where
  "reference_cmp = lex_cmp (key_cmp rf_start_byte) (key_cmp rf_end_byte)"

fun push_symbols :: "symbol list \<Rightarrow> nat \<Rightarrow> nat list \<Rightarrow> nat list \<Rightarrow> nat list \<times> nat list" where
  "push_symbols symbols ref_start [] stack = ([], stack)"
| "push_symbols symbols ref_start (si # rest) stack =
     (if ref_start < sb_start_byte (symbols ! si) then (si # rest, stack)
      else push_symbols symbols ref_start rest (if ref_start < sb_end_byte (symbols ! si) then si # stack else stack))"

fun enclose_references :: "symbol list \<Rightarrow> reference list \<Rightarrow> nat list \<Rightarrow> nat list \<Rightarrow> nat list \<Rightarrow> reference list" where
  "enclose_references symbols references [] sym_rest stack = references"
| "enclose_references symbols references (ri # ref_indices) sym_rest stack =
     (let ref_start = rf_start_byte (references ! ri);
          ref_end = rf_end_byte (references ! ri);
          stack = dropWhile (\<lambda>t. sb_end_byte (symbols ! t) \<le> ref_start) stack;
          (sym_rest, stack) = push_symbols symbols ref_start sym_rest stack;
          enclosing = map_option (\<lambda>t. sb_name (symbols ! t)) (find (\<lambda>t. ref_end \<le> sb_end_byte (symbols ! t)) stack) in
      enclose_references symbols (references[ri := (references ! ri)\<lparr>rf_enclosing_symbol := enclosing\<rparr>]) ref_indices sym_rest stack)"

definition alias_kind :: "string \<Rightarrow> bool" where
  "alias_kind kind \<longleftrightarrow> kind = ''latex_label'' \<or> kind = ''latex_caption''"

definition compute_reference_enclosing :: "symbol list \<Rightarrow> reference list \<Rightarrow> reference list" where
  "compute_reference_enclosing symbols references =
     (if symbols = [] \<or> references = [] then sort_by reference_cmp references
      else
        let sym_indices = extent_order symbols (filter (\<lambda>i. \<not> alias_kind (sb_kind (symbols ! i))) [0..<length symbols]);
            ref_indices = sort_by (key_cmp (\<lambda>i. rf_start_byte (references ! i))) [0..<length references] in
        sort_by reference_cmp (enclose_references symbols references ref_indices sym_indices []))"

definition finish_parse :: "symbol list \<Rightarrow> reference list \<Rightarrow> import_line list \<Rightarrow> symbol list \<times> reference list \<times> import_line list" where
  "finish_parse symbols references imports =
     (let imports = deduplicate_imports imports;
          symbols = compute_symbol_parents (deduplicate_symbols symbols) in
      (symbols, compute_reference_enclosing symbols references, imports))"

section \<open>Deduplication keeps one element of each key\<close>

lemma retain_first_set: "set (retain_first key seen xs) \<subseteq> set xs"
  by (induction xs arbitrary: seen) auto

lemma retain_first_keys: "key ` set (retain_first key seen xs) = key ` set xs - seen"
  by (induction xs arbitrary: seen) auto

lemma retain_first_distinct: "distinct (map key (retain_first key seen xs))"
proof (induction xs arbitrary: seen)
  case (Cons x xs)
  then show ?case using retain_first_keys [of key "insert (key x) seen" xs] by auto
qed simp

section \<open>Orders\<close>

lemma comparator_via: "comparator_laws c \<Longrightarrow> comparator_laws (\<lambda>a b. c (f a) (f b))"
  unfolding comparator_laws_def by blast

lemma map_insert_by: "map f (insert_by (\<lambda>a b. c (f a) (f b)) x ys) = insert_by c (f x) (map f ys)"
  by (induction ys) auto

lemma map_sort_by: "map f (sort_by (\<lambda>a b. c (f a) (f b)) xs) = sort_by c (map f xs)"
  by (induction xs) (auto simp: map_insert_by)

lemma comparator_extent: "comparator_laws extent_cmp"
  unfolding extent_cmp_def by (intro comparator_lex_cmp comparator_rev_cmp comparator_key_cmp)

lemma extent_le: "extent_cmp a b \<noteq> Greater \<longleftrightarrow>
    sb_start_byte a < sb_start_byte b \<or> sb_start_byte a = sb_start_byte b \<and> sb_end_byte b \<le> sb_end_byte a"
  by (auto simp: extent_cmp_def lex_cmp_def key_cmp_def rev_cmp_def)

lemma extent_order_sorted: "sorted_wrt (\<lambda>a b. extent_cmp (symbols ! a) (symbols ! b) \<noteq> Greater) (extent_order symbols indices)"
  unfolding extent_order_def by (rule comparator_laws.sorted_sort_by [OF comparator_via [OF comparator_extent]])

lemma extent_order_simps [simp]:
  "set (extent_order symbols indices) = set indices" "distinct (extent_order symbols indices) = distinct indices"
  "map ((!) symbols) (extent_order symbols indices) = sort_by extent_cmp (map ((!) symbols) indices)"
  unfolding extent_order_def
  using mset_eq_imp_distinct_iff [OF mset_sort_by, of "\<lambda>a b. extent_cmp (symbols ! a) (symbols ! b)" indices]
  by (simp_all add: map_sort_by)

text \<open>The last element of an order with a property, and what is known of it.\<close>

lemma find_last_Some:
  assumes "find P (rev xs) = Some x" "sorted_wrt R xs"
  shows "P x \<and> x \<in> set xs \<and> (\<forall>y \<in> set xs. P y \<longrightarrow> y = x \<or> R y x)"
proof -
  obtain as bs where xs: "rev xs = as @ x # bs" "P x" "\<forall>y \<in> set as. \<not> P y"
    using assms(1) by (auto simp: find_Some_iff in_set_conv_nth) (metis id_take_nth_drop in_set_conv_nth length_rev length_take min_less_iff_conj nth_take)
  then have "xs = rev bs @ x # rev as" by (metis append.assoc append_Cons append_Nil rev.simps(2) rev_append rev_rev_ident)
  then show ?thesis using xs(2,3) assms(2) by (auto simp: sorted_wrt_append)
qed

lemma find_map: "find P (map f xs) = map_option f (find (\<lambda>x. P (f x)) xs)"
  by (induction xs) auto

lemma find_append: "find P (xs @ ys) = (case find P xs of None \<Rightarrow> find P ys | Some x \<Rightarrow> Some x)"
  by (induction xs) auto

lemma find_none: "(\<And>x. x \<in> set xs \<Longrightarrow> \<not> P x) \<Longrightarrow> find P xs = None"
  by (simp add: find_None_iff)

lemma find_dropWhile_implies: "(\<And>x. x \<in> set xs \<Longrightarrow> Q x \<Longrightarrow> \<not> P x) \<Longrightarrow> find P (dropWhile Q xs) = find P xs"
  by (induction xs) auto

section \<open>The parents\<close>

lemma contained_again:
  assumes "extent_cmp t i \<noteq> Greater" "extent_cmp i k \<noteq> Greater" "\<not> strictly_contains t i" "\<not> strictly_contains i k"
  shows "\<not> strictly_contains t k"
  using assms unfolding extent_le strictly_contains_def by auto

lemma contains_before: "strictly_contains a b \<Longrightarrow> extent_cmp b a = Greater"
  by (auto simp: strictly_contains_def extent_cmp_def lex_cmp_def key_cmp_def rev_cmp_def)

definition bare :: "symbol \<Rightarrow> symbol" where
  "bare s = s\<lparr>sb_parent := None\<rparr>"

lemma bare_facts: "bare a = bare b \<Longrightarrow> sb_name a = sb_name b \<and> sb_start_byte a = sb_start_byte b \<and> sb_end_byte a = sb_end_byte b"
  by (cases a; cases b) (simp add: bare_def)

definition nearest_container :: "symbol list \<Rightarrow> symbol \<Rightarrow> symbol option" where
  "nearest_container symbols s = find (\<lambda>p. strictly_contains p s) (rev (sort_by extent_cmp symbols))"

definition with_parent :: "symbol list \<Rightarrow> symbol \<Rightarrow> symbol" where
  "with_parent symbols s =
     (if sb_parent s = None then s\<lparr>sb_parent := map_option sb_name (nearest_container symbols s)\<rparr> else s)"

lemma dropped_not_containing:
  assumes "\<And>j. j \<in> set stack \<Longrightarrow> extent_cmp (ss ! j) (ss ! i) \<noteq> Greater" "extent_cmp (ss ! i) (ss ! k) \<noteq> Greater"
    and "\<not> strictly_contains (ss ! i) (ss ! k)"
  shows "find (\<lambda>j. strictly_contains (ss ! j) (ss ! k)) (dropWhile (\<lambda>t. \<not> strictly_contains (ss ! t) (ss ! i)) stack) =
    find (\<lambda>j. strictly_contains (ss ! j) (ss ! k)) stack"
  using assms contained_again by (intro find_dropWhile_implies) blast

lemma assign_parents_nth:
  fixes ss :: "symbol list"
  defines "c \<equiv> \<lambda>j k. strictly_contains (ss ! j) (ss ! k)" and "le \<equiv> \<lambda>j k. extent_cmp (ss ! j) (ss ! k) \<noteq> Greater"
  assumes "sorted_wrt le (before @ indices)" "distinct (before @ indices)" "set (before @ indices) \<subseteq> {..<length ss}"
    and "map bare symbols = map bare ss" "set stack \<subseteq> set before"
    and "\<And>k. k \<in> set indices \<Longrightarrow> find (\<lambda>j. c j k) stack = find (\<lambda>j. c j k) (rev before)"
    and "\<And>i. i \<in> set indices \<Longrightarrow> symbols ! i = ss ! i"
  shows "length (assign_parents symbols indices stack) = length ss \<and>
    (\<forall>n < length ss. assign_parents symbols indices stack ! n =
      (if n \<in> set indices \<and> sb_parent (ss ! n) = None
       then (ss ! n)\<lparr>sb_parent := map_option (\<lambda>j. sb_name (ss ! j)) (find (\<lambda>j. c j n) (rev (before @ indices)))\<rparr>
       else symbols ! n))"
  using assms(3-)
proof (induction indices arbitrary: before symbols stack)
  case Nil
  then show ?case using map_eq_imp_length_eq [OF Nil.prems(4)] by simp
next
  case (Cons i indices)
  note sorted = Cons.prems(1) and range = Cons.prems(3) and shape = Cons.prems(4)
  have len: "length symbols = length ss" using map_eq_imp_length_eq [OF shape] .
  have same: "bare (symbols ! j) = bare (ss ! j)" if "j < length ss" for j
    using arg_cong [OF shape, of "\<lambda>xs. xs ! j"] that len by simp
  have geometry: "sb_name (symbols ! j) = sb_name (ss ! j)" "strictly_contains (symbols ! j) (ss ! i) = c j i"
    if "j \<in> set before" for j
    using bare_facts [OF same, of j] that range by (auto simp: strictly_contains_def c_def)
  have i: "symbols ! i = ss ! i" "i < length ss" using Cons.prems range by auto
  define kept where "kept = dropWhile (\<lambda>t. \<not> c t i) stack"
  have kept: "dropWhile (\<lambda>t. \<not> strictly_contains (symbols ! t) (symbols ! i)) stack = kept" "set kept \<subseteq> set before"
    using Cons.prems(5) geometry(2) i unfolding kept_def
    by (auto intro!: dropWhile_cong dest: set_dropWhileD)
  have top: "(case kept of [] \<Rightarrow> None | t # _ \<Rightarrow> Some (sb_name (symbols ! t))) =
      map_option (\<lambda>j. sb_name (ss ! j)) (find (\<lambda>j. c j i) (rev before))"
  proof -
    have "find (\<lambda>j. c j i) (rev before) = (case kept of [] \<Rightarrow> None | t # _ \<Rightarrow> Some t)"
      using Cons.prems(6) [of i] unfolding kept_def by (simp add: find_dropWhile comp_def)
    then show ?thesis using kept(2) geometry(1) by (auto split: list.splits)
  qed
  have later: "\<not> c j i" if "j \<in> set (i # indices)" for j
  proof
    assume "c j i"
    then have "extent_cmp (ss ! i) (ss ! j) = Greater" "j \<noteq> i"
      using contains_before unfolding c_def by (blast, auto simp: strictly_contains_def)
    then show False using that sorted by (auto simp: sorted_wrt_append le_def)
  qed
  define new where "new = (if sb_parent (ss ! i) = None
     then symbols[i := (ss ! i)\<lparr>sb_parent := map_option (\<lambda>j. sb_name (ss ! j)) (find (\<lambda>j. c j i) (rev before))\<rparr>] else symbols)"
  have step: "assign_parents symbols (i # indices) stack = assign_parents new indices (i # kept)"
    unfolding assign_parents.simps Let_def i(1) kept(1) [unfolded i(1)] new_def top ..
  have others: "\<not> c j i" if "j \<in> set (rev indices)" for j using later that by simp
  have whole: "find (\<lambda>j. c j i) (rev (before @ i # indices)) = find (\<lambda>j. c j i) (rev before)"
    using later find_none [of "rev indices" "\<lambda>j. c j i"] by (simp add: find_append)
  have shape': "map bare new = map bare ss"
  proof -
    have "bare ((ss ! i)\<lparr>sb_parent := p\<rparr>) = map bare ss ! i" for p using i(2) by (simp add: bare_def)
    then show ?thesis unfolding new_def using shape by (simp add: map_update)
  qed
  have IH: "length (assign_parents new indices (i # kept)) = length ss \<and>
    (\<forall>n < length ss. assign_parents new indices (i # kept) ! n =
      (if n \<in> set indices \<and> sb_parent (ss ! n) = None
       then (ss ! n)\<lparr>sb_parent := map_option (\<lambda>j. sb_name (ss ! j)) (find (\<lambda>j. c j n) (rev ((before @ [i]) @ indices)))\<rparr>
       else new ! n))"
  proof (rule Cons.IH)
    show "map bare new = map bare ss" by (rule shape')
    show "new ! j = ss ! j" if "j \<in> set indices" for j
      using that Cons.prems(2,7) by (cases "j = i") (auto simp: new_def)
    show "find (\<lambda>j. c j k) (i # kept) = find (\<lambda>j. c j k) (rev (before @ [i]))" if "k \<in> set indices" for k
    proof (cases "c i k")
      case False
      have "find (\<lambda>j. c j k) kept = find (\<lambda>j. c j k) stack"
        unfolding kept_def c_def
        using False sorted Cons.prems(5) that
        by (intro dropped_not_containing) (auto simp: sorted_wrt_append le_def c_def)
      then show ?thesis using False Cons.prems(6) [of k] that by simp
    qed simp
  qed (use sorted Cons.prems(2) range kept(2) in auto)
  show ?case unfolding step using IH whole Cons.prems(2) i(2) len by (auto simp: new_def nth_list_update)
qed

lemma assign_parents_map:
  "assign_parents symbols (extent_order symbols [0..<length symbols]) [] = map (with_parent symbols) symbols"
proof (rule nth_equalityI)
  let ?order = "extent_order symbols [0..<length symbols]"
  have nth: "length (assign_parents symbols ?order []) = length symbols \<and>
    (\<forall>n < length symbols. assign_parents symbols ?order [] ! n =
      (if n \<in> set ?order \<and> sb_parent (symbols ! n) = None
       then (symbols ! n)\<lparr>sb_parent := map_option (\<lambda>j. sb_name (symbols ! j))
         (find (\<lambda>j. strictly_contains (symbols ! j) (symbols ! n)) (rev ([] @ ?order)))\<rparr>
       else symbols ! n))"
    by (rule assign_parents_nth) (use extent_order_sorted in auto)
  then show "length (assign_parents symbols ?order []) = length (map (with_parent symbols) symbols)" by simp
  have "nearest_container symbols s = map_option ((!) symbols) (find (\<lambda>j. strictly_contains (symbols ! j) s) (rev ?order))" for s
  proof -
    have order: "sort_by extent_cmp symbols = map ((!) symbols) ?order" by (simp add: map_nth)
    show ?thesis unfolding nearest_container_def order rev_map find_map ..
  qed
  then show "assign_parents symbols ?order [] ! n = map (with_parent symbols) symbols ! n"
    if "n < length (assign_parents symbols ?order [])" for n
    using nth that by (auto simp: with_parent_def option.map_comp comp_def)
qed

lemma compute_symbol_parents_eq: "compute_symbol_parents symbols = sort_by place_cmp (map (with_parent symbols) symbols)"
  by (auto simp: compute_symbol_parents_def assign_parents_map)

lemma nearest_container_spec:
  "case nearest_container symbols s of
     None \<Rightarrow> \<forall>q \<in> set symbols. \<not> strictly_contains q s
   | Some p \<Rightarrow> p \<in> set symbols \<and> strictly_contains p s \<and>
       (\<forall>q \<in> set symbols. strictly_contains q s \<longrightarrow>
         sb_start_byte q < sb_start_byte p \<or> sb_start_byte q = sb_start_byte p \<and> sb_end_byte p \<le> sb_end_byte q)"
proof (cases "nearest_container symbols s")
  case None
  then have "\<forall>q \<in> set symbols. \<not> strictly_contains q s" by (simp add: nearest_container_def find_None_iff)
  then show ?thesis using None by simp
next
  case (Some p)
  have "strictly_contains p s \<and> p \<in> set symbols \<and>
      (\<forall>q \<in> set symbols. strictly_contains q s \<longrightarrow> q = p \<or> extent_cmp q p \<noteq> Greater)"
    using find_last_Some [OF Some [unfolded nearest_container_def] comparator_laws.sorted_sort_by [OF comparator_extent]] by simp
  then show ?thesis using Some by (auto simp: extent_le)
qed

text \<open>C18: The parent of a symbol is its innermost container.  \<open>compute_symbol_parents\<close> returns the symbols in the
  order of their places, each with its given parent or, where there was none, the name of a symbol that
  strictly contains it such that every other container starts before that one or starts with it and ends
  no earlier; a symbol without container gets no parent.  It holds for any ranges, nested or not, so the
  stack the code keeps never pops a symbol that is needed again.\<close>

theorem symbol_parents_innermost:
  "\<exists>container. compute_symbol_parents symbols =
     sort_by place_cmp (map (\<lambda>s. if sb_parent s = None then s\<lparr>sb_parent := map_option sb_name (container s)\<rparr> else s) symbols) \<and>
   (\<forall>s. case container s of
     None \<Rightarrow> \<forall>q \<in> set symbols. \<not> strictly_contains q s
   | Some p \<Rightarrow> p \<in> set symbols \<and> strictly_contains p s \<and>
       (\<forall>q \<in> set symbols. strictly_contains q s \<longrightarrow>
         sb_start_byte q < sb_start_byte p \<or> sb_start_byte q = sb_start_byte p \<and> sb_end_byte p \<le> sb_end_byte q))"
  unfolding compute_symbol_parents_eq with_parent_def
  by (intro exI [of _ "nearest_container symbols"] conjI allI nearest_container_spec refl)

section \<open>The enclosing symbols\<close>

lemma push_symbols_split:
  assumes "push_symbols symbols rs syms stack = (rest, stack')" "sorted_wrt (\<lambda>a b. extent_cmp (symbols ! a) (symbols ! b) \<noteq> Greater) syms"
  shows "\<exists>pushed. syms = pushed @ rest \<and> (\<forall>j \<in> set pushed. sb_start_byte (symbols ! j) \<le> rs) \<and>
    (\<forall>j \<in> set rest. rs < sb_start_byte (symbols ! j)) \<and>
    stack' = rev (filter (\<lambda>j. rs < sb_end_byte (symbols ! j)) pushed) @ stack"
  using assms
proof (induction symbols rs syms stack rule: push_symbols.induct)
  case (2 symbols rs si syms stack)
  show ?case
  proof (cases "rs < sb_start_byte (symbols ! si)")
    case True
    then show ?thesis using "2.prems" by (fastforce simp: extent_le intro!: exI [of _ "[]"])
  next
    case False
    then obtain pushed where "syms = pushed @ rest" "\<forall>j \<in> set pushed. sb_start_byte (symbols ! j) \<le> rs"
      "\<forall>j \<in> set rest. rs < sb_start_byte (symbols ! j)"
      "stack' = rev (filter (\<lambda>j. rs < sb_end_byte (symbols ! j)) pushed) @ (if rs < sb_end_byte (symbols ! si) then si # stack else stack)"
      using 2 by auto
    then show ?thesis using False by (intro exI [of _ "si # pushed"]) auto
  qed
qed simp

text \<open>Elements that end at or before the start of a later reference do not matter to the search.\<close>

lemma find_enclosing_filter:
  assumes "rs < re"
  shows "find (\<lambda>j. re \<le> e j) (filter (\<lambda>j. rs < e j) xs) = find (\<lambda>j. re \<le> (e j :: nat)) xs"
  using assms by (induction xs) auto

lemma enclose_references_nth:
  fixes symbols :: "symbol list"
  defines "fits \<equiv> \<lambda>r j. rf_end_byte r \<le> sb_end_byte (symbols ! j)"
  assumes "sorted_wrt (\<lambda>a b. extent_cmp (symbols ! a) (symbols ! b) \<noteq> Greater) (before @ syms)"
    and "sorted_wrt (\<lambda>a b. rf_start_byte (rs ! a) \<le> rf_start_byte (rs ! b)) refs" "distinct refs" "set refs \<subseteq> {..<length rs}"
    and "length cur = length rs" "\<And>i. i \<in> set refs \<Longrightarrow> cur ! i = rs ! i"
    and "\<And>i j. i \<in> set refs \<Longrightarrow> j \<in> set before \<Longrightarrow> sb_start_byte (symbols ! j) \<le> rf_start_byte (rs ! i)"
    and "\<And>i. i \<in> set refs \<Longrightarrow> rf_start_byte (rs ! i) < rf_end_byte (rs ! i) \<Longrightarrow> find (fits (rs ! i)) stack = find (fits (rs ! i)) (rev before)"
  shows "\<exists>enclosing. length (enclose_references symbols cur refs syms stack) = length rs \<and>
    (\<forall>n < length rs. enclose_references symbols cur refs syms stack ! n =
       (if n \<in> set refs then (rs ! n)\<lparr>rf_enclosing_symbol := enclosing n\<rparr> else cur ! n)) \<and>
    (\<forall>n \<in> set refs. rf_start_byte (rs ! n) < rf_end_byte (rs ! n) \<longrightarrow>
       enclosing n = map_option (\<lambda>j. sb_name (symbols ! j))
         (find (\<lambda>j. sb_start_byte (symbols ! j) \<le> rf_start_byte (rs ! n) \<and> fits (rs ! n) j) (rev (before @ syms))))"
  using assms(2-)
proof (induction refs arbitrary: before syms stack cur)
  case (Cons ri refs)
  let ?start = "rf_start_byte (rs ! ri)"
  define kept where "kept = dropWhile (\<lambda>t. sb_end_byte (symbols ! t) \<le> ?start) stack"
  obtain rest stack' where push: "push_symbols symbols ?start syms kept = (rest, stack')" by force
  obtain pushed where pushed: "syms = pushed @ rest" "\<forall>j \<in> set pushed. sb_start_byte (symbols ! j) \<le> ?start"
    "\<forall>j \<in> set rest. ?start < sb_start_byte (symbols ! j)"
    "stack' = rev (filter (\<lambda>j. ?start < sb_end_byte (symbols ! j)) pushed) @ kept"
    using push_symbols_split [OF push] Cons.prems(1) by (auto simp: sorted_wrt_append)
  define new where "new = cur[ri := (rs ! ri)\<lparr>rf_enclosing_symbol :=
    map_option (\<lambda>t. sb_name (symbols ! t)) (find (fits (rs ! ri)) stack')\<rparr>]"
  have step: "enclose_references symbols cur (ri # refs) syms stack = enclose_references symbols new refs rest stack'"
    using push Cons.prems(6) [of ri] by (simp add: new_def kept_def fits_def)
  have agree: "find (fits (rs ! i)) stack' = find (fits (rs ! i)) (rev (before @ pushed))"
    if i: "i \<in> set (ri # refs)" "rf_start_byte (rs ! i) < rf_end_byte (rs ! i)" for i
  proof -
    have later: "?start < rf_end_byte (rs ! i)" using i Cons.prems(2) by auto
    have "find (fits (rs ! i)) kept = find (fits (rs ! i)) stack"
      unfolding kept_def using later by (intro find_dropWhile_implies) (auto simp: fits_def)
    moreover have "find (fits (rs ! i)) (filter (\<lambda>j. ?start < sb_end_byte (symbols ! j)) (rev pushed)) = find (fits (rs ! i)) (rev pushed)"
      unfolding fits_def by (rule find_enclosing_filter [OF later])
    ultimately show ?thesis using Cons.prems(8) [OF i] by (simp add: pushed(4) find_append rev_filter split: option.split)
  qed
  obtain enclosing where IH: "length (enclose_references symbols new refs rest stack') = length rs"
    "\<forall>n < length rs. enclose_references symbols new refs rest stack' ! n =
       (if n \<in> set refs then (rs ! n)\<lparr>rf_enclosing_symbol := enclosing n\<rparr> else new ! n)"
    "\<forall>n \<in> set refs. rf_start_byte (rs ! n) < rf_end_byte (rs ! n) \<longrightarrow>
       enclosing n = map_option (\<lambda>j. sb_name (symbols ! j))
         (find (\<lambda>j. sb_start_byte (symbols ! j) \<le> rf_start_byte (rs ! n) \<and> fits (rs ! n) j) (rev ((before @ pushed) @ rest)))"
  proof -
    have "\<exists>enclosing. length (enclose_references symbols new refs rest stack') = length rs \<and>
      (\<forall>n < length rs. enclose_references symbols new refs rest stack' ! n =
         (if n \<in> set refs then (rs ! n)\<lparr>rf_enclosing_symbol := enclosing n\<rparr> else new ! n)) \<and>
      (\<forall>n \<in> set refs. rf_start_byte (rs ! n) < rf_end_byte (rs ! n) \<longrightarrow>
         enclosing n = map_option (\<lambda>j. sb_name (symbols ! j))
           (find (\<lambda>j. sb_start_byte (symbols ! j) \<le> rf_start_byte (rs ! n) \<and> fits (rs ! n) j) (rev ((before @ pushed) @ rest))))"
    proof (rule Cons.IH)
      show "new ! i = rs ! i" if "i \<in> set refs" for i using that Cons.prems(3,6) by (cases "i = ri") (auto simp: new_def)
      show "sb_start_byte (symbols ! j) \<le> rf_start_byte (rs ! i)" if "i \<in> set refs" "j \<in> set (before @ pushed)" for i j
        using that pushed(2) Cons.prems(2) Cons.prems(7) [of i j] by fastforce
      show "find (fits (rs ! i)) stack' = find (fits (rs ! i)) (rev (before @ pushed))"
        if "i \<in> set refs" "rf_start_byte (rs ! i) < rf_end_byte (rs ! i)" for i using agree [of i] that by simp
    qed (use Cons.prems pushed(1) in \<open>auto simp: new_def\<close>)
    then show ?thesis using that by blast
  qed
  have first: "find (fits (rs ! ri)) stack' =
      find (\<lambda>j. sb_start_byte (symbols ! j) \<le> ?start \<and> fits (rs ! ri) j) (rev (before @ syms))"
    if "?start < rf_end_byte (rs ! ri)"
  proof -
    have "find (\<lambda>j. sb_start_byte (symbols ! j) \<le> ?start \<and> fits (rs ! ri) j) (rev rest) = None"
      using pushed(3) by (intro find_none) auto
    moreover have "find (\<lambda>j. sb_start_byte (symbols ! j) \<le> ?start \<and> fits (rs ! ri) j) (rev (before @ pushed)) =
        find (fits (rs ! ri)) (rev (before @ pushed))"
      using pushed(2) Cons.prems(7) [of ri] by (intro find_cong) auto
    ultimately show ?thesis using agree [of ri] that pushed(1) by (simp add: find_append)
  qed
  show ?case
    unfolding step
    by (rule exI [of _ "\<lambda>n. if n = ri then map_option (\<lambda>t. sb_name (symbols ! t)) (find (fits (rs ! ri)) stack') else enclosing n"])
      (use IH first pushed(1) Cons.prems(3,4,5) in \<open>auto simp: new_def nth_list_update\<close>)
qed simp

definition lies_around :: "reference \<Rightarrow> symbol \<Rightarrow> bool" where
  "lies_around r s \<longleftrightarrow> \<not> alias_kind (sb_kind s) \<and> sb_start_byte s \<le> rf_start_byte r \<and> rf_end_byte r \<le> sb_end_byte s"

definition innermost_around :: "symbol list \<Rightarrow> reference \<Rightarrow> symbol option \<Rightarrow> bool" where
  "innermost_around symbols r e \<longleftrightarrow>
     (case e of
        None \<Rightarrow> \<forall>q \<in> set symbols. \<not> lies_around r q
      | Some p \<Rightarrow> p \<in> set symbols \<and> lies_around r p \<and>
          (\<forall>q \<in> set symbols. lies_around r q \<longrightarrow>
            sb_start_byte q < sb_start_byte p \<or> sb_start_byte q = sb_start_byte p \<and> sb_end_byte p \<le> sb_end_byte q))"

lemma find_innermost:
  assumes "order = extent_order symbols (filter (\<lambda>i. \<not> alias_kind (sb_kind (symbols ! i))) [0..<length symbols])"
  shows "innermost_around symbols r (map_option ((!) symbols)
    (find (\<lambda>j. sb_start_byte (symbols ! j) \<le> rf_start_byte r \<and> rf_end_byte r \<le> sb_end_byte (symbols ! j)) (rev order)))"
proof -
  have members: "set order = {i. i < length symbols \<and> \<not> alias_kind (sb_kind (symbols ! i))}" using assms by auto
  show ?thesis
  proof (cases "find (\<lambda>j. sb_start_byte (symbols ! j) \<le> rf_start_byte r \<and> rf_end_byte r \<le> sb_end_byte (symbols ! j)) (rev order)")
    case None
    have "\<not> lies_around r (symbols ! i)" if "i < length symbols" for i
      using None that members by (auto simp: find_None_iff lies_around_def)
    then show ?thesis using None by (auto simp: innermost_around_def in_set_conv_nth)
  next
    case (Some p)
    note p = find_last_Some [OF Some extent_order_sorted [of symbols "filter (\<lambda>i. \<not> alias_kind (sb_kind (symbols ! i))) [0..<length symbols]", folded assms]]
    have "sb_start_byte (symbols ! i) < sb_start_byte (symbols ! p) \<or>
        sb_start_byte (symbols ! i) = sb_start_byte (symbols ! p) \<and> sb_end_byte (symbols ! p) \<le> sb_end_byte (symbols ! i)"
      if "i < length symbols" "lies_around r (symbols ! i)" for i
    proof -
      have "i = p \<or> extent_cmp (symbols ! i) (symbols ! p) \<noteq> Greater" using p that members by (simp add: lies_around_def)
      then show ?thesis by (auto simp: extent_le)
    qed
    then have "\<forall>q \<in> set symbols. lies_around r q \<longrightarrow> sb_start_byte q < sb_start_byte (symbols ! p) \<or>
        sb_start_byte q = sb_start_byte (symbols ! p) \<and> sb_end_byte (symbols ! p) \<le> sb_end_byte q"
      by (metis in_set_conv_nth)
    moreover have "symbols ! p \<in> set symbols" "lies_around r (symbols ! p)"
      using p members by (auto simp: lies_around_def)
    ultimately show ?thesis using Some by (simp add: innermost_around_def)
  qed
qed

text \<open>C17: A reference gets the name of the innermost symbol around it.  \<open>compute_reference_enclosing\<close> returns
  the references in the order of their places, changed in nothing but the enclosing symbol; for a
  reference that is not empty this is the name of a symbol whose range contains the reference, that is
  no LaTeX label or caption, and such that every other such symbol starts before it or starts with it
  and ends no earlier, and there is none only if no such symbol exists.  One pass over both sorted lists
  with a stack finds it for every reference, overlapping symbols and references included.\<close>

theorem enclosing_symbol_innermost:
  assumes "symbols \<noteq> []"
  shows "\<exists>results. compute_reference_enclosing symbols references = sort_by reference_cmp results \<and>
    length results = length references \<and>
    (\<forall>n < length references. \<exists>e. results ! n = (references ! n)\<lparr>rf_enclosing_symbol := e\<rparr> \<and>
      (rf_start_byte (references ! n) < rf_end_byte (references ! n) \<longrightarrow>
        (\<exists>p. innermost_around symbols (references ! n) p \<and> e = map_option sb_name p)))"
proof (cases "references = []")
  case True
  then show ?thesis by (simp add: compute_reference_enclosing_def)
next
  case False
  let ?refs = "sort_by (key_cmp (\<lambda>i. rf_start_byte (references ! i))) [0..<length references]"
  let ?syms = "extent_order symbols (filter (\<lambda>i. \<not> alias_kind (sb_kind (symbols ! i))) [0..<length symbols])"
  have sorted: "sorted_wrt (\<lambda>a b. rf_start_byte (references ! a) \<le> rf_start_byte (references ! b)) ?refs"
    using comparator_laws.sorted_sort_by [OF comparator_key_cmp, of "\<lambda>i. rf_start_byte (references ! i)" "[0..<length references]"]
    by (simp add: key_cmp_def not_less)
  have "distinct ?refs" using mset_eq_imp_distinct_iff [OF mset_sort_by] by (metis distinct_upt)
  then have "\<exists>enclosing. length (enclose_references symbols references ?refs ?syms []) = length references \<and>
    (\<forall>n < length references. enclose_references symbols references ?refs ?syms [] ! n =
       (if n \<in> set ?refs then (references ! n)\<lparr>rf_enclosing_symbol := enclosing n\<rparr> else references ! n)) \<and>
    (\<forall>n \<in> set ?refs. rf_start_byte (references ! n) < rf_end_byte (references ! n) \<longrightarrow>
       enclosing n = map_option (\<lambda>j. sb_name (symbols ! j))
         (find (\<lambda>j. sb_start_byte (symbols ! j) \<le> rf_start_byte (references ! n) \<and> rf_end_byte (references ! n) \<le> sb_end_byte (symbols ! j))
           (rev ([] @ ?syms))))"
    using sorted extent_order_sorted by (intro enclose_references_nth) auto
  then obtain enclosing where
    results: "length (enclose_references symbols references ?refs ?syms []) = length references"
      "\<forall>n < length references. enclose_references symbols references ?refs ?syms [] ! n =
         (references ! n)\<lparr>rf_enclosing_symbol := enclosing n\<rparr>"
    and enclosing: "\<forall>n \<in> {0..<length references}. rf_start_byte (references ! n) < rf_end_byte (references ! n) \<longrightarrow>
       enclosing n = map_option (\<lambda>j. sb_name (symbols ! j))
         (find (\<lambda>j. sb_start_byte (symbols ! j) \<le> rf_start_byte (references ! n) \<and> rf_end_byte (references ! n) \<le> sb_end_byte (symbols ! j))
           (rev ?syms))"
    by auto
  have "\<exists>p. innermost_around symbols (references ! n) p \<and> enclosing n = map_option sb_name p"
    if "n < length references" "rf_start_byte (references ! n) < rf_end_byte (references ! n)" for n
    using enclosing that find_innermost [of ?syms symbols "references ! n"] by (auto simp: option.map_comp comp_def)
  then show ?thesis using assms False results
    by (intro exI [of _ "enclose_references symbols references ?refs ?syms []"])
      (auto simp: compute_reference_enclosing_def Let_def)
qed

section \<open>Samples\<close>

definition sample_symbol :: "string \<Rightarrow> string \<Rightarrow> nat \<Rightarrow> nat \<Rightarrow> symbol" where
  "sample_symbol name kind a b = \<lparr>sb_name = name, sb_kind = kind, sb_parent = None, sb_signature = None, sb_start_line = 1,
     sb_end_line = 1, sb_start_byte = a, sb_end_byte = b\<rparr>"

definition sample_reference :: "nat \<Rightarrow> nat \<Rightarrow> reference" where
  "sample_reference a b = \<lparr>rf_name = ''call'', rf_kind = ''call'', rf_role = Role_Reference, rf_enclosing_symbol = None,
     rf_start_line = 1, rf_end_line = 1, rf_start_byte = a, rf_end_byte = b\<rparr>"

theorem enclosing_symbol_innermost_witness:
  "compute_reference_enclosing [sample_symbol ''Outer'' ''class'' 0 90, sample_symbol ''run'' ''method'' 10 40] [sample_reference 20 30] =
     [(sample_reference 20 30)\<lparr>rf_enclosing_symbol := Some ''run''\<rparr>]"
proof -
  let ?symbols = "[sample_symbol ''Outer'' ''class'' 0 90, sample_symbol ''run'' ''method'' 10 40]" and ?r = "sample_reference 20 30"
  obtain results where results: "compute_reference_enclosing ?symbols [?r] = sort_by reference_cmp results" "length results = 1"
    and "\<exists>e. results ! 0 = ?r\<lparr>rf_enclosing_symbol := e\<rparr> \<and> (rf_start_byte ?r < rf_end_byte ?r \<longrightarrow>
      (\<exists>p. innermost_around ?symbols ?r p \<and> e = map_option sb_name p))"
    using enclosing_symbol_innermost [of ?symbols "[?r]"] by auto
  then obtain p where p: "results ! 0 = ?r\<lparr>rf_enclosing_symbol := map_option sb_name p\<rparr>" "innermost_around ?symbols ?r p"
    by (auto simp: sample_reference_def)
  have "p = Some (sample_symbol ''run'' ''method'' 10 40)"
    using p(2) by (auto simp: innermost_around_def lies_around_def alias_kind_def sample_symbol_def sample_reference_def split: option.splits)
  then have "results = [?r\<lparr>rf_enclosing_symbol := Some ''run''\<rparr>]"
    using results(2) p(1) by (cases results) (auto simp: sample_symbol_def)
  then show ?thesis using results(1) by simp
qed

theorem symbol_parents_innermost_witness:
  "\<exists>a b. compute_symbol_parents [sample_symbol ''run'' ''method'' 10 40, sample_symbol ''Outer'' ''class'' 0 90] = [a, b] \<and>
     sb_parent b = Some ''Outer''"
proof -
  let ?run = "sample_symbol ''run'' ''method'' 10 40" and ?outer = "sample_symbol ''Outer'' ''class'' 0 90"
  obtain container where result: "compute_symbol_parents [?run, ?outer] = sort_by place_cmp
      (map (\<lambda>s. if sb_parent s = None then s\<lparr>sb_parent := map_option sb_name (container s)\<rparr> else s) [?run, ?outer])"
    and spec: "\<And>s. case container s of
       None \<Rightarrow> \<forall>q \<in> set [?run, ?outer]. \<not> strictly_contains q s
     | Some p \<Rightarrow> p \<in> set [?run, ?outer] \<and> strictly_contains p s \<and> (\<forall>q \<in> set [?run, ?outer]. strictly_contains q s \<longrightarrow>
         sb_start_byte q < sb_start_byte p \<or> sb_start_byte q = sb_start_byte p \<and> sb_end_byte p \<le> sb_end_byte q)"
    using symbol_parents_innermost [of "[?run, ?outer]"] by auto
  have "container ?run = Some ?outer"
    using spec [of ?run] by (auto simp: strictly_contains_def sample_symbol_def split: option.splits)
  then show ?thesis unfolding result
    by (simp add: place_cmp_def lex_cmp_def key_cmp_def sample_symbol_def)
qed

end
