(* ===== verification/Host_Path.thy ===== *)
theory Host_Path
  imports Repo_Path
begin

text \<open>
  What the indexer uses of \<open>std::path\<close> on a Unix host.  A path is the list of its components, as
  \<open>Path::components\<close> yields them; two paths are equal when their components are.  A relative path has no
  root component and a leading dot is its only current-directory component.
\<close>

section \<open>Components\<close>

datatype component = Root_Dir | Cur_Dir | Parent_Dir | Normal string

type_synonym host_path = "component list"

definition piece_component :: "string \<Rightarrow> component" where
  "piece_component w = (if w = ''..'' then Parent_Dir else Normal w)"

definition path_components :: "string \<Rightarrow> host_path" where
  "path_components p =
     (let body = map piece_component (filter (\<lambda>w. w \<noteq> [] \<and> w \<noteq> ''.'') (split_char CHR ''/'' p)) in
      if starts_with p ''/'' then Root_Dir # body
      else if p = ''.'' \<or> starts_with p ''./'' then Cur_Dir # body
      else body)"

fun component_text :: "component \<Rightarrow> string" where
  "component_text Root_Dir = ''/''"
| "component_text Cur_Dir = ''.''"
| "component_text Parent_Dir = ''..''"
| "component_text (Normal w) = w"

definition path_text :: "host_path \<Rightarrow> string" where
  "path_text cs =
     (case cs of
        Root_Dir # rest \<Rightarrow> ''/'' @ str_join ''/'' (map component_text rest)
      | _ \<Rightarrow> str_join ''/'' (map component_text cs))"

definition path_join :: "host_path \<Rightarrow> host_path \<Rightarrow> host_path" where
  "path_join a b =
     (case b of
        Root_Dir # _ \<Rightarrow> b
      | Cur_Dir # rest \<Rightarrow> (if a = [] then b else a @ rest)
      | _ \<Rightarrow> a @ b)"

definition path_parent :: "host_path \<Rightarrow> host_path option" where
  "path_parent cs = (if cs = [] \<or> last cs = Root_Dir then None else Some (butlast cs))"

definition file_name :: "host_path \<Rightarrow> string option" where
  "file_name cs = (if cs = [] then None else case last cs of Normal w \<Rightarrow> Some w | _ \<Rightarrow> None)"

text \<open>A leading dot does not begin an extension.\<close>

definition split_extension :: "string \<Rightarrow> string \<times> string option" where
  "split_extension name =
     (case rsplit_once CHR ''.'' name of
        None \<Rightarrow> (name, None)
      | Some (stem, ext) \<Rightarrow> if stem = [] then (name, None) else (stem, Some ext))"

definition file_stem :: "host_path \<Rightarrow> string option" where
  "file_stem cs = map_option (\<lambda>name. fst (split_extension name)) (file_name cs)"

definition extension_of :: "host_path \<Rightarrow> string option" where
  "extension_of cs = Option.bind (file_name cs) (\<lambda>name. snd (split_extension name))"

definition with_extension :: "string \<Rightarrow> host_path \<Rightarrow> host_path" where
  "with_extension ext cs =
     (case file_stem cs of
        None \<Rightarrow> cs
      | Some stem \<Rightarrow> butlast cs @ [Normal (if ext = [] then stem else stem @ ''.'' @ ext)])"

section \<open>Lexical normalization\<close>

text \<open>\<open>normalize_relative\<close> of \<open>src/indexer/import_resolution.rs\<close>; the accumulator holds the names pushed so far.\<close>

fun normalize_onto :: "string list \<Rightarrow> host_path \<Rightarrow> string list option" where
  "normalize_onto names [] = Some names"
| "normalize_onto names (Cur_Dir # cs) = normalize_onto names cs"
| "normalize_onto names (Normal w # cs) = normalize_onto (names @ [w]) cs"
| "normalize_onto names (Parent_Dir # cs) = (if names = [] then None else normalize_onto (butlast names) cs)"
| "normalize_onto names (Root_Dir # cs) = None"

definition normalize_lexically :: "host_path \<Rightarrow> string list option" where
  "normalize_lexically cs = normalize_onto [] cs"

section \<open>Facts\<close>

lemma normalize_onto_Normals [simp]: "normalize_onto names (map Normal ws) = Some (names @ ws)"
  by (induction ws arbitrary: names) auto

text \<open>Every name that survives is one of the path.\<close>

lemma normalize_onto_names:
  "normalize_onto names cs = Some ws \<Longrightarrow> set ws \<subseteq> set names \<union> {w. Normal w \<in> set cs}"
  by (induction names cs rule: normalize_onto.induct) (fastforce split: if_splits dest: in_set_butlastD)+

lemma normalize_lexically_names: "normalize_lexically cs = Some ws \<Longrightarrow> w \<in> set ws \<Longrightarrow> Normal w \<in> set cs"
  unfolding normalize_lexically_def using normalize_onto_names by fastforce

lemma path_join_names: "Normal w \<in> set (path_join a b) \<Longrightarrow> Normal w \<in> set a \<or> Normal w \<in> set b"
  by (auto simp: path_join_def split: list.splits component.splits if_splits)

end
