(* ===== verification/Import_Resolution.thy ===== *)
theory Import_Resolution
  imports Host_Path
begin

text \<open>
  The derivation of import projections (\<open>src/indexer/import_resolution.rs\<close>, the bounds of
  \<open>src/storage/models.rs\<close> and the check of \<open>src/storage/projections.rs\<close>): a raw import of a source file
  becomes an ordered list of candidate paths, and the first one that is indexed is the import's target.
  The indexed paths are a list, sorted where the code binary searches it; the texts of the indexed
  \<open>go.mod\<close> files are given by a function.
\<close>

section \<open>Bounds\<close>

definition max_import_target_bytes :: nat where "max_import_target_bytes = 16 * 1024"
definition max_import_candidates_per_import :: nat where "max_import_candidates_per_import = 64"
definition max_import_candidate_path_bytes :: nat where "max_import_candidate_path_bytes = 4 * 1024"
definition max_rust_module_bases :: nat where "max_rust_module_bases = max_import_candidates_per_import div 2"
definition max_go_mod_walk_depth :: nat where "max_go_mod_walk_depth = 64"

section \<open>Candidates\<close>

definition slashed :: "string \<Rightarrow> string" where
  "slashed s = str_replace_char (CHR 0x5C) CHR ''/'' s"

definition push_candidate :: "string list \<Rightarrow> host_path \<Rightarrow> string list" where
  "push_candidate candidates candidate =
     (if max_import_candidates_per_import \<le> length candidates then candidates
      else
        case normalize_lexically candidate of
          None \<Rightarrow> candidates
        | Some names \<Rightarrow>
            (let candidate = slashed (str_join ''/'' names) in
             if max_import_candidate_path_bytes < length candidate then candidates
             else if candidate \<in> set candidates then candidates
             else candidates @ [candidate]))"

definition push_all :: "string list \<Rightarrow> host_path list \<Rightarrow> string list" where
  "push_all candidates paths = fold (\<lambda>p cs. push_candidate cs p) paths candidates"

text \<open>The bases that normalize, as paths.\<close>

definition normal_bases :: "host_path list \<Rightarrow> host_path list" where
  "normal_bases bases = map (map Normal) (List.map_filter normalize_lexically bases)"

section \<open>Python\<close>

fun source_root_of :: "host_path \<Rightarrow> host_path option \<Rightarrow> host_path \<Rightarrow> host_path option" where
  "source_root_of pre found [] = found"
| "source_root_of pre found (Normal c # cs) =
     source_root_of (pre @ [Normal c]) (if c = ''src'' then Some (pre @ [Normal c]) else found) cs"
| "source_root_of pre found (_ # cs) = None"

definition conventional_python_source_root :: "host_path \<Rightarrow> host_path option" where
  "conventional_python_source_root source = Option.bind (path_parent source) (source_root_of [] None)"

fun pop_times :: "nat \<Rightarrow> host_path \<Rightarrow> host_path option" where
  "pop_times 0 base = Some base"
| "pop_times (Suc n) base = Option.bind (path_parent base) (pop_times n)"

definition python_module_paths :: "host_path \<Rightarrow> string \<Rightarrow> host_path list" where
  "python_module_paths source raw_target =
     (let level = length (takeWhile (\<lambda>c. c = CHR ''.'') raw_target);
          module = path_components (str_replace_char CHR ''.'' CHR ''/'' (drop level raw_target)) in
      if level = 0 then
        remdups_adj ((case conventional_python_source_root source of None \<Rightarrow> [] | Some root \<Rightarrow> [path_join root module]) @ [module])
      else
        (case pop_times (level - 1) (case path_parent source of None \<Rightarrow> [] | Some p \<Rightarrow> p) of
           None \<Rightarrow> []
         | Some base \<Rightarrow> [if drop level raw_target = [] then base else path_join base module]))"

definition python_extensions :: "string list" where
  "python_extensions = [''py'', ''pyi'']"

definition python_import_candidates :: "host_path \<Rightarrow> string \<Rightarrow> string list" where
  "python_import_candidates source raw_target =
     push_all [] (concat (map (\<lambda>base.
         map (\<lambda>ext. with_extension ext (path_join base (path_components ''__init__''))) python_extensions @
         map (\<lambda>ext. with_extension ext base) python_extensions)
       (normal_bases (python_module_paths source raw_target))))"

section \<open>Relative imports\<close>

definition source_relative_base :: "string \<Rightarrow> string \<Rightarrow> host_path option" where
  "source_relative_base source_path raw_target =
     (case repository_path_parse source_path of
        Inl _ \<Rightarrow> None
      | Inr p \<Rightarrow> (case join_relative p raw_target of Inl _ \<Rightarrow> None | Inr path \<Rightarrow> Some (path_components path)))"

definition relative_import_base :: "string \<Rightarrow> string \<Rightarrow> host_path option" where
  "relative_import_base source_path raw_target =
     (if starts_with raw_target ''.'' then source_relative_base source_path raw_target else None)"

definition javascript_extensions :: "string list" where
  "javascript_extensions = [''js'', ''mjs'', ''cjs'', ''jsx'']"

definition javascript_import_candidates :: "string \<Rightarrow> string \<Rightarrow> string list" where
  "javascript_import_candidates source_path raw_target =
     (case relative_import_base source_path raw_target of
        None \<Rightarrow> []
      | Some base \<Rightarrow>
          if extension_of base \<noteq> None then push_all [] [base]
          else push_all [] (map (\<lambda>ext. with_extension ext base) javascript_extensions @
            map (\<lambda>ext. with_extension ext (path_join base (path_components ''index''))) javascript_extensions))"

definition typescript_substitutions :: "string option \<Rightarrow> string list" where
  "typescript_substitutions ext =
     (if ext = None \<or> ext = Some ''js'' then [''ts'', ''tsx'', ''d.ts'', ''js'', ''jsx'']
      else if ext = Some ''jsx'' then [''tsx'', ''d.ts'', ''jsx'']
      else if ext = Some ''mjs'' then [''mts'', ''d.mts'', ''mjs'']
      else if ext = Some ''cjs'' then [''cts'', ''d.cts'', ''cjs'']
      else [])"

definition typescript_import_candidates :: "string \<Rightarrow> string \<Rightarrow> string list" where
  "typescript_import_candidates source_path raw_target =
     (case relative_import_base source_path raw_target of
        None \<Rightarrow> []
      | Some base \<Rightarrow>
          (let ext = extension_of base; substitutions = typescript_substitutions ext in
           if ext = None \<and> extension_of (path_components source_path) = Some ''mts'' then []
           else if substitutions = [] then push_all [] [base]
           else push_all [] (map (\<lambda>s. with_extension s base) substitutions @
             (if ext = None then map (\<lambda>s. with_extension s (path_join base (path_components ''index''))) substitutions else []))))"

definition latex_import_candidates :: "string \<Rightarrow> string \<Rightarrow> string list" where
  "latex_import_candidates source_path raw_target =
     (case source_relative_base source_path raw_target of
        None \<Rightarrow> []
      | Some base \<Rightarrow>
          if extension_of base \<noteq> None then push_all [] [base]
          else push_all [] (map (\<lambda>ext. with_extension ext base) [''tex'', ''ltx'']))"

definition web_resource_import_candidates :: "string \<Rightarrow> string \<Rightarrow> string list" where
  "web_resource_import_candidates source_path raw_target =
     (if CHR ''?'' \<in> set raw_target \<or> CHR ''#'' \<in> set raw_target then []
      else case relative_import_base source_path raw_target of
        None \<Rightarrow> []
      | Some base \<Rightarrow> push_all [] [base])"

section \<open>Rust\<close>

text \<open>\<open>str::split\<close> on a string.\<close>

function split_str :: "string \<Rightarrow> string \<Rightarrow> string list" where
  "split_str pat [] = [[]]"
| "split_str pat (c # s) =
     (if pat \<noteq> [] \<and> starts_with (c # s) pat then [] # split_str pat (drop (length pat - 1) s)
      else case split_str pat s of [] \<Rightarrow> [[c]] | w # ws \<Rightarrow> (c # w) # ws)"
  by pat_completeness auto
termination by (relation "measure (\<lambda>(pat, s). length s)") auto

definition trim_end_matches :: "char \<Rightarrow> string \<Rightarrow> string" where
  "trim_end_matches c s = rev (dropWhile (\<lambda>d. d = c) (rev s))"

definition normal_names :: "host_path \<Rightarrow> string list" where
  "normal_names cs = List.map_filter (\<lambda>c. case c of Normal w \<Rightarrow> Some w | _ \<Rightarrow> None) cs"

fun rposition :: "('a \<Rightarrow> bool) \<Rightarrow> 'a list \<Rightarrow> nat option" where
  "rposition p [] = None"
| "rposition p (x # xs) =
     (case rposition p xs of Some i \<Rightarrow> Some (Suc i) | None \<Rightarrow> if p x then Some 0 else None)"

definition rust_crate_root :: "host_path \<Rightarrow> host_path" where
  "rust_crate_root source =
     (let components = normal_names source;
          file_index = length components - 1 in
      case rposition (\<lambda>c. c = ''src'') (take file_index components) of
        Some index \<Rightarrow>
          map Normal (take (index + 1) components @
            (if index + 1 < length components \<and> components ! (index + 1) = ''bin''
             then ''bin'' # (if index + 2 < file_index then [components ! (index + 2)] else [])
             else []))
      | None \<Rightarrow>
          (case rposition (\<lambda>c. c = ''tests'' \<or> c = ''examples'' \<or> c = ''benches'') (take file_index components) of
             Some index \<Rightarrow>
               map Normal (take (index + 1) components @ (if index + 1 < file_index then [components ! (index + 1)] else []))
           | None \<Rightarrow> (case path_parent source of None \<Rightarrow> [] | Some p \<Rightarrow> p)))"

definition rust_source_module_dir :: "host_path \<Rightarrow> host_path \<Rightarrow> host_path" where
  "rust_source_module_dir source crate_root =
     (let parent = (case path_parent source of None \<Rightarrow> [] | Some p \<Rightarrow> p) in
      case file_stem source of
        None \<Rightarrow> parent
      | Some stem \<Rightarrow>
          if stem = ''lib'' \<or> stem = ''main'' \<or> stem = ''mod'' then parent
          else if parent = [] \<or> (parent = crate_root \<and>
              (file_name parent = Some ''bin'' \<or> file_name parent = Some ''tests'' \<or> file_name parent = Some ''examples''
               \<or> file_name parent = Some ''benches'')) then parent
          else path_join parent (path_components stem))"

text \<open>The loop over leading \<open>super::\<close>; \<open>None\<close> is the return without candidates.\<close>

function climb_supers :: "host_path \<Rightarrow> host_path \<Rightarrow> string \<Rightarrow> (string \<times> host_path) option" where
  "climb_supers crate_root root target =
     (case strip_prefix target ''super::'' of
        None \<Rightarrow> Some (target, root)
      | Some rest \<Rightarrow>
          (if root = crate_root then None
           else case path_parent root of None \<Rightarrow> None | Some root \<Rightarrow> climb_supers crate_root root rest))"
  by pat_completeness auto
termination
  by (relation "measure (\<lambda>(_, _, target). length target)") (auto simp: strip_prefix_def starts_with_iff split: if_splits)

declare climb_supers.simps [simp del]

text \<open>The target without its qualifier, and the directory it is looked up in.\<close>

definition rust_qualified :: "host_path \<Rightarrow> string \<Rightarrow> (string \<times> host_path) option" where
  "rust_qualified source trimmed =
     (let crate_root = rust_crate_root source in
      case strip_prefix trimmed ''crate::'' of
        Some target \<Rightarrow> Some (target, crate_root)
      | None \<Rightarrow>
          (case strip_prefix trimmed ''self::'' of
             Some target \<Rightarrow> Some (target, rust_source_module_dir source crate_root)
           | None \<Rightarrow>
               if starts_with trimmed ''super::''
               then climb_supers crate_root (rust_source_module_dir source crate_root) trimmed
               else Some (trimmed, crate_root)))"

fun group_targets :: "string \<Rightarrow> string list \<Rightarrow> string list \<Rightarrow> string list option" where
  "group_targets pre [] targets = Some targets"
| "group_targets pre (item # items) targets =
     (let item = trim (hd (split_str '' as '' (trim item))) in
      if item = [] then group_targets pre items targets
      else
        (let targets = targets @ [if pre = [] then item else pre @ ''::'' @ item] in
         if max_rust_module_bases < length targets then None else group_targets pre items targets))"

definition rust_targets :: "string \<Rightarrow> string list option" where
  "rust_targets stripped =
     (case split_char CHR ''{'' stripped of
        before # rest # _ \<Rightarrow>
          group_targets (trim_end_matches CHR '':'' before) (split_char CHR '','' (hd (split_char CHR ''}'' rest))) []
      | _ \<Rightarrow>
          (let single = trim (hd (split_str '' as '' stripped)) in Some (if single = [] then [] else [single])))"

fun parse_targets :: "string list \<Rightarrow> nat \<Rightarrow> string list list \<Rightarrow> string list list option" where
  "parse_targets [] required parsed = Some parsed"
| "parse_targets (target # targets) required parsed =
     (let segments = filter (\<lambda>w. w \<noteq> []) (split_str ''::'' target) in
      if segments = [] then parse_targets targets required parsed
      else
        case checked_add required (length segments) of
          None \<Rightarrow> None
        | Some n \<Rightarrow>
            if n \<le> max_rust_module_bases then parse_targets targets n (parsed @ [segments]) else None)"

definition rust_prefix_bases :: "host_path \<Rightarrow> string list \<Rightarrow> host_path list" where
  "rust_prefix_bases root segments =
     map (\<lambda>n. path_join root (path_components (str_join ''/'' (take n segments)))) (rev [1..<length segments + 1])"

definition rust_module_paths :: "host_path \<Rightarrow> string \<Rightarrow> host_path list" where
  "rust_module_paths source raw_target =
     (case rust_qualified source (trim raw_target) of
        None \<Rightarrow> []
      | Some (stripped, root) \<Rightarrow>
          (case Option.bind (rust_targets stripped) (\<lambda>targets. parse_targets targets 0 []) of
             None \<Rightarrow> []
           | Some parsed \<Rightarrow> concat (map (rust_prefix_bases root) parsed)))"

definition rust_base_candidates :: "host_path \<Rightarrow> host_path list" where
  "rust_base_candidates base =
     (if extension_of base \<noteq> None then [base] else [with_extension ''rs'' base, path_join base (path_components ''mod.rs'')])"

definition rust_import_candidates :: "host_path \<Rightarrow> string \<Rightarrow> string list" where
  "rust_import_candidates source raw_target =
     push_all [] (concat (map rust_base_candidates (normal_bases (rust_module_paths source raw_target))))"

section \<open>Go\<close>

definition is_go_mod_path :: "string \<Rightarrow> bool" where
  "is_go_mod_path path \<longleftrightarrow> path = ''go.mod'' \<or> ends_with path ''/go.mod''"

definition trim_quotes :: "(char \<Rightarrow> bool) \<Rightarrow> string \<Rightarrow> string" where
  "trim_quotes p s = rev (dropWhile p (rev (dropWhile p s)))"

definition double_quote :: char where "double_quote = CHR 0x22"
definition single_quote :: char where "single_quote = CHR 0x27"

definition module_directive_line :: "string \<Rightarrow> string option" where
  "module_directive_line line =
     (case strip_prefix (trim line) ''module '' of
        None \<Rightarrow> None
      | Some module_path \<Rightarrow>
          (let module_path = trim_quotes (\<lambda>c. c = single_quote) (trim_quotes (\<lambda>c. c = double_quote)
             (trim (hd (split_str ''//'' module_path)))) in
           if module_path = [] \<or> max_import_target_bytes < length module_path then None else Some module_path))"

definition parse_module_directive :: "string \<Rightarrow> string option" where
  "parse_module_directive content =
     (case List.map_filter module_directive_line (split_char (CHR 0x0A) content) of [] \<Rightarrow> None | m # _ \<Rightarrow> Some m)"

text \<open>\<open>GoModuleIndex::load\<close> without cancellation; \<open>read\<close> gives the bounded text of a file that still exists.\<close>

definition load_go_modules :: "string set \<Rightarrow> (string \<Rightarrow> string option) \<Rightarrow> string \<Rightarrow> string option" where
  "load_go_modules repository_paths read path =
     (if path \<in> repository_paths \<and> is_go_mod_path path then Option.bind (read path) parse_module_directive else None)"

definition partition_point :: "('a \<Rightarrow> bool) \<Rightarrow> 'a list \<Rightarrow> nat" where
  "partition_point p xs = length (takeWhile p xs)"

definition minimum_indexed_go_file :: "string \<Rightarrow> string list \<Rightarrow> string option" where
  "minimum_indexed_go_file package_dir sorted_paths =
     (let pre = (if package_dir = [] then [] else package_dir @ ''/'');
          start = (if pre = [] then 0 else partition_point (\<lambda>path. path < pre) sorted_paths) in
      find (\<lambda>path. let direct = drop (length pre) path in
          CHR ''/'' \<notin> set direct \<and> ends_with direct ''.go'' \<and> \<not> ends_with direct ''_test.go'')
        (takeWhile (\<lambda>path. starts_with path pre) (drop start sorted_paths)))"

definition module_covers :: "string \<Rightarrow> string \<Rightarrow> bool" where
  "module_covers module_path target \<longleftrightarrow>
     target = module_path \<or>
     (starts_with target module_path \<and> length module_path < length target \<and> target ! length module_path = CHR ''/'')"

definition go_package_dir :: "string \<Rightarrow> string \<Rightarrow> string \<Rightarrow> string option" where
  "go_package_dir go_mod_path module_path target =
     (let remainder = drop (length module_path) target;
          remainder = (case strip_prefix remainder ''/'' of None \<Rightarrow> remainder | Some r \<Rightarrow> r);
          go_mod_dir = path_text (case path_parent (path_components go_mod_path) of None \<Rightarrow> [] | Some p \<Rightarrow> p) in
      if remainder = [] then Some go_mod_dir
      else
        (case normalize_lexically (path_components remainder) of
           None \<Rightarrow> None
         | Some names \<Rightarrow>
             (let package_dir = slashed (str_join ''/'' names) in
              Some (if package_dir = [] \<or> go_mod_dir = [] then package_dir else go_mod_dir @ ''/'' @ package_dir))))"

text \<open>The walk up from the source; the first argument is what is left of \<open>MAX_GO_MOD_WALK_DEPTH\<close>.\<close>

fun go_walk :: "nat \<Rightarrow> (string \<Rightarrow> string option) \<Rightarrow> string list \<Rightarrow> string \<Rightarrow> host_path option \<Rightarrow> string list" where
  "go_walk 0 modules sorted_paths target dir = []"
| "go_walk (Suc depth) modules sorted_paths target None = []"
| "go_walk (Suc depth) modules sorted_paths target (Some parent) =
     (let go_mod_path = slashed (path_text (path_join parent (path_components ''go.mod''))) in
      case modules go_mod_path of
        None \<Rightarrow> go_walk depth modules sorted_paths target (path_parent parent)
      | Some module_path \<Rightarrow>
          if \<not> module_covers module_path target then []
          else
            (case go_package_dir go_mod_path module_path target of
               None \<Rightarrow> []
             | Some package_dir \<Rightarrow>
                 (case minimum_indexed_go_file package_dir sorted_paths of None \<Rightarrow> [] | Some path \<Rightarrow> [path])))"

definition go_import_candidates :: "host_path \<Rightarrow> string \<Rightarrow> (string \<Rightarrow> string option) \<Rightarrow> string list \<Rightarrow> string list" where
  "go_import_candidates source raw_target modules sorted_paths =
     (let target = trim_quotes (\<lambda>c. c = double_quote \<or> c = single_quote) raw_target in
      if target = [] then [] else go_walk max_go_mod_walk_depth modules sorted_paths target (path_parent source))"

section \<open>Projections\<close>

datatype resolution_policy = Python_Policy | JavaScript_Policy | TypeScript_Policy | Rust_Policy | Latex_Policy | Web_Policy | Go_Policy | Unsupported

definition for_source :: "host_path \<Rightarrow> resolution_policy" where
  "for_source source =
     (case extension_of source of
        None \<Rightarrow> Unsupported
      | Some ext \<Rightarrow>
          if ext \<in> {''py'', ''pyi''} then Python_Policy
          else if ext \<in> {''js'', ''mjs'', ''cjs'', ''jsx''} then JavaScript_Policy
          else if ext \<in> {''ts'', ''mts'', ''cts'', ''tsx''} then TypeScript_Policy
          else if ext = ''rs'' then Rust_Policy
          else if ext \<in> {''tex'', ''ltx''} then Latex_Policy
          else if ext \<in> {''html'', ''htm''} then Web_Policy
          else if ext = ''go'' then Go_Policy
          else Unsupported)"

definition import_candidates :: "string \<Rightarrow> string \<Rightarrow> string list \<Rightarrow> (string \<Rightarrow> string option) \<Rightarrow> string list" where
  "import_candidates source_path raw_target sorted_paths modules =
     (if max_import_target_bytes < length raw_target then []
      else
        let source = path_components source_path in
        case for_source source of
          Python_Policy \<Rightarrow> python_import_candidates source raw_target
        | JavaScript_Policy \<Rightarrow> javascript_import_candidates source_path raw_target
        | TypeScript_Policy \<Rightarrow> typescript_import_candidates source_path raw_target
        | Rust_Policy \<Rightarrow> rust_import_candidates source raw_target
        | Latex_Policy \<Rightarrow> latex_import_candidates source_path raw_target
        | Web_Policy \<Rightarrow> web_resource_import_candidates source_path raw_target
        | Go_Policy \<Rightarrow> go_import_candidates source raw_target modules sorted_paths
        | Unsupported \<Rightarrow> [])"

text \<open>A binary search of a sorted list succeeds on its elements.\<close>

definition resolve_import_candidates :: "string list \<Rightarrow> string list \<Rightarrow> string option" where
  "resolve_import_candidates candidates sorted_paths = find (\<lambda>c. c \<in> set sorted_paths) candidates"

record import_projection =
  ip_resolved_path :: "string option"
  ip_candidate_paths :: "string list"

definition derive_import_projection :: "string \<Rightarrow> string \<Rightarrow> string list \<Rightarrow> (string \<Rightarrow> string option) \<Rightarrow> import_projection" where
  "derive_import_projection source_path raw_target sorted_paths modules =
     (let candidate_paths = import_candidates source_path raw_target sorted_paths modules in
      \<lparr>ip_resolved_path = resolve_import_candidates candidate_paths sorted_paths, ip_candidate_paths = candidate_paths\<rparr>)"

definition sorted_indexed_paths :: "string list \<Rightarrow> string list" where
  "sorted_indexed_paths repository_paths = sort repository_paths"

text \<open>The check that \<open>repair_import_projections\<close> makes before it stores derived candidates.\<close>

definition exceeds_persisted_bounds :: "string list \<Rightarrow> bool" where
  "exceeds_persisted_bounds candidate_paths \<longleftrightarrow>
     max_import_candidates_per_import < length candidate_paths \<or>
     list_ex (\<lambda>c. c = [] \<or> max_import_candidate_path_bytes < length c) candidate_paths"

section \<open>Bounds of the candidates\<close>

definition candidates_bounded :: "string list \<Rightarrow> bool" where
  "candidates_bounded cs \<longleftrightarrow> length cs \<le> max_import_candidates_per_import \<and> distinct cs \<and>
     (\<forall>c \<in> set cs. length c \<le> max_import_candidate_path_bytes)"

lemma push_candidate_bounded: "candidates_bounded cs \<Longrightarrow> candidates_bounded (push_candidate cs p)"
  by (auto simp: push_candidate_def candidates_bounded_def Let_def split: option.split)

lemma push_all_bounded: "candidates_bounded cs \<Longrightarrow> candidates_bounded (push_all cs ps)"
  unfolding push_all_def by (induction ps arbitrary: cs) (auto intro: push_candidate_bounded)

lemma candidates_bounded_Nil [simp]: "candidates_bounded []"
  by (simp add: candidates_bounded_def)

lemma find_Some_mem: "find P xs = Some x \<Longrightarrow> x \<in> set xs \<and> P x"
  by (induction xs) (auto split: if_splits)

lemma go_walk_result: "go_walk depth modules sp target dir = [] \<or> (\<exists>path \<in> set sp. go_walk depth modules sp target dir = [path])"
proof (induction depth modules sp target dir rule: go_walk.induct)
  case (3 depth modules sp target parent)
  have "path \<in> set sp" if "minimum_indexed_go_file d sp = Some path" for d path
    using that by (auto simp: minimum_indexed_go_file_def Let_def dest!: find_Some_mem set_takeWhileD in_set_dropD)
  then show ?case using 3 by (auto simp: Let_def split: option.splits)
qed simp_all

lemma import_candidates_within:
  assumes "\<forall>path \<in> set sorted_paths. length path \<le> max_import_candidate_path_bytes"
  shows "candidates_bounded (import_candidates source_path raw_target sorted_paths modules)"
proof -
  have "candidates_bounded (go_import_candidates source raw_target modules sorted_paths)" for source
    using assms go_walk_result [of max_go_mod_walk_depth modules sorted_paths
        "trim_quotes (\<lambda>c. c = double_quote \<or> c = single_quote) raw_target" "path_parent source"]
    by (auto simp: go_import_candidates_def Let_def candidates_bounded_def max_import_candidates_per_import_def)
  then show ?thesis
    by (auto simp: import_candidates_def python_import_candidates_def javascript_import_candidates_def typescript_import_candidates_def
        rust_import_candidates_def latex_import_candidates_def web_resource_import_candidates_def Let_def push_all_bounded
        split: resolution_policy.split option.split)
qed

text \<open>The candidates of an import fit what the index stores, except for an empty one.  With indexed paths of at
  most 4,096 bytes, any source and any raw import, there are at most 64 candidates, no two are equal and
  none is longer than 4,096 bytes; so the check before the repair of stored projections fails exactly
  when one of them is the empty path.\<close>

theorem import_candidates_bounded:
  assumes "\<forall>path \<in> set sorted_paths. length path \<le> max_import_candidate_path_bytes"
  shows "let candidates = import_candidates source_path raw_target sorted_paths modules in
    length candidates \<le> max_import_candidates_per_import \<and> distinct candidates \<and>
    (\<forall>c \<in> set candidates. length c \<le> max_import_candidate_path_bytes) \<and>
    (exceeds_persisted_bounds candidates \<longleftrightarrow> [] \<in> set candidates)"
  using import_candidates_within [OF assms, of source_path raw_target modules]
  by (auto simp: Let_def candidates_bounded_def exceeds_persisted_bounds_def list_ex_iff not_less)

section \<open>The import that breaks the repair\<close>

lemma pop_times_root: "pop_times (length ns) (map Normal ns) = Some []"
proof (induction ns rule: rev_induct)
  case (snoc n ns)
  then show ?case by (simp add: path_parent_def)
qed simp

lemma init_components: "path_components ''__init__'' = [Normal ''__init__'']" "path_components [] = []"
  by (simp_all add: path_components_def split_char_def piece_component_def starts_with_def)

lemma init_extension: "with_extension ''py'' [Normal ''__init__''] = [Normal ''__init__.py'']"
  "with_extension ''pyi'' [Normal ''__init__''] = [Normal ''__init__.pyi'']" "with_extension ext [] = []"
  by (simp_all add: with_extension_def file_stem_def file_name_def split_extension_def rsplit_once_def)

lemma star_base:
  assumes "path_components source_path = map Normal (ns @ [f])"
  shows "python_module_paths (path_components source_path) (replicate (length ns + 1) CHR ''.'') = [[]]"
proof -
  have "takeWhile (\<lambda>c. c = CHR ''.'') (replicate n CHR ''.'') = replicate n CHR ''.''" for n by (induction n) auto
  then show ?thesis
    using pop_times_root [of ns] assms
    by (simp add: python_module_paths_def Let_def path_parent_def str_replace_char_def flip: replicate_Suc)
qed

text \<open>C40: A wildcard import from the root package breaks the repair of import projections.  For a Python file at
  depth n, the import of n + 1 dots, which is what the parser records for \<open>from . import *\<close> in a file at
  the top of the repository, has the candidates \<open>__init__.py\<close>, \<open>__init__.pyi\<close> and the empty path, and the
  check of \<open>repair_import_projections\<close> refuses the empty path with an operation failure.\<close>

theorem star_import_breaks_repair:
  assumes "path_components source_path = map Normal (ns @ [f])" "for_source (path_components source_path) = Python_Policy"
    and "length ns < max_import_target_bytes"
  shows "import_candidates source_path (replicate (length ns + 1) CHR ''.'') sorted_paths modules = [''__init__.py'', ''__init__.pyi'', []] \<and>
    exceeds_persisted_bounds (import_candidates source_path (replicate (length ns + 1) CHR ''.'') sorted_paths modules)"
proof -
  have "python_import_candidates (path_components source_path) (replicate (length ns + 1) CHR ''.'') = [''__init__.py'', ''__init__.pyi'', []]"
    unfolding python_import_candidates_def star_base [OF assms(1)]
    by (simp add: normal_bases_def List.map_filter_simps normalize_lexically_def python_extensions_def init_components path_join_def
        init_extension push_all_def push_candidate_def max_import_candidates_per_import_def max_import_candidate_path_bytes_def
        slashed_def str_replace_char_def Let_def)
  then show ?thesis using assms(2,3) by (simp add: import_candidates_def Let_def exceeds_persisted_bounds_def)
qed

section \<open>Resolution\<close>

text \<open>An import resolves to an indexed file, the first of its candidates that is one, and stays unresolved only
  when no candidate is indexed.\<close>

theorem import_resolves_first_indexed:
  "let p = derive_import_projection source_path raw_target sorted_paths modules in
   case ip_resolved_path p of
     None \<Rightarrow> set (ip_candidate_paths p) \<inter> set sorted_paths = {}
   | Some path \<Rightarrow> path \<in> set sorted_paths \<and>
       (\<exists>a b. ip_candidate_paths p = a @ path # b \<and> set a \<inter> set sorted_paths = {})"
proof -
  have "case find (\<lambda>c. c \<in> A) cs of
     None \<Rightarrow> set cs \<inter> A = {} | Some path \<Rightarrow> path \<in> A \<and> (\<exists>a b. cs = a @ path # b \<and> set a \<inter> A = {})" for A and cs :: "string list"
  proof (induction cs)
    case (Cons c cs)
    show ?case
    proof (cases "c \<in> A")
      case True
      then show ?thesis by (auto intro: exI [of _ "[]"])
    next
      case False
      then show ?thesis using Cons
        by (auto split: option.splits) (metis append_Cons insert_disjoint(1) list.simps(15))
    qed
  qed simp
  then show ?thesis
    unfolding derive_import_projection_def resolve_import_candidates_def Let_def import_projection.simps .
qed

section \<open>No Rust candidate is lost\<close>

lemma parse_targets_bounded:
  "parse_targets targets required parsed = Some out \<Longrightarrow> required = length (concat parsed) \<Longrightarrow> required \<le> max_rust_module_bases \<Longrightarrow>
    length (concat out) \<le> max_rust_module_bases"
  by (induction targets required parsed rule: parse_targets.induct) (auto simp: Let_def split: if_splits option.splits)

lemma length_prefix_bases: "length (concat (map (rust_prefix_bases root) parsed)) = length (concat parsed)"
proof -
  have "length (rust_prefix_bases root a) = length a" for a by (simp add: rust_prefix_bases_def del: upt_Suc)
  then show ?thesis by (induction parsed) auto
qed

lemma rust_bases_bounded: "length (rust_module_paths source raw_target) \<le> max_rust_module_bases"
  using parse_targets_bounded [of _ 0 "[]"]
  by (auto simp: rust_module_paths_def length_prefix_bases bind_eq_Some_conv split: option.split)

definition candidate_text :: "host_path \<Rightarrow> string option" where
  "candidate_text p = (case normalize_lexically p of
     None \<Rightarrow> None
   | Some names \<Rightarrow>
       (let c = slashed (str_join ''/'' names) in if max_import_candidate_path_bytes < length c then None else Some c))"

lemma push_all_complete:
  "length cs + length ps \<le> max_import_candidates_per_import \<Longrightarrow>
    set (push_all cs ps) = set cs \<union> set (List.map_filter candidate_text ps)"
proof (induction ps arbitrary: cs)
  case (Cons p ps)
  have "length (push_candidate cs p) \<le> Suc (length cs)" by (auto simp: push_candidate_def Let_def split: option.split)
  moreover have "set (push_candidate cs p) = set cs \<union> set (List.map_filter candidate_text [p])"
    using Cons.prems by (auto simp: push_candidate_def candidate_text_def Let_def List.map_filter_simps split: option.split)
  ultimately show ?case
    using Cons.IH [of "push_candidate cs p"] Cons.prems by (auto simp: push_all_def List.map_filter_simps split: option.splits)
qed (simp add: push_all_def List.map_filter_simps)

lemma length_normal_bases: "length (normal_bases ps) \<le> length ps"
  by (induction ps) (auto simp: normal_bases_def List.map_filter_simps split: option.split)

lemma length_base_candidates: "length (concat (map rust_base_candidates ps)) \<le> 2 * length ps"
  by (induction ps) (auto simp: rust_base_candidates_def)

text \<open>The bound on Rust imports loses no candidate.  An import group whose paths need more than 32 module bases is
  refused as a whole; any other yields every module base, each as a file and as a \<open>mod.rs\<close>, and the 64 places
  of the candidate list are enough for all of them, so the candidates are all those that normalize inside
  the repository and are not too long.\<close>

theorem rust_candidates_complete:
  "set (rust_import_candidates source raw_target) =
     {c. \<exists>base \<in> set (normal_bases (rust_module_paths source raw_target)). \<exists>p \<in> set (rust_base_candidates base). candidate_text p = Some c} \<and>
   length (rust_module_paths source raw_target) \<le> max_rust_module_bases"
proof -
  let ?ps = "concat (map rust_base_candidates (normal_bases (rust_module_paths source raw_target)))"
  have "length ?ps \<le> 2 * length (rust_module_paths source raw_target)"
    using length_base_candidates length_normal_bases by (meson le_trans mult_le_mono2)
  then have "set (push_all [] ?ps) = set (List.map_filter candidate_text ?ps)"
    using rust_bases_bounded [of source raw_target]
    by (subst push_all_complete) (auto simp: max_rust_module_bases_def max_import_candidates_per_import_def)
  moreover have "set (List.map_filter f xs) = {y. \<exists>x \<in> set xs. f x = Some y}" for f :: "host_path \<Rightarrow> string option" and xs
    by (induction xs) (auto simp: List.map_filter_simps split: option.split)
  ultimately show ?thesis using rust_bases_bounded by (auto simp: rust_import_candidates_def)
qed

section \<open>Samples\<close>

theorem import_candidates_bounded_witness:
  "length (import_candidates ''src/app.ts'' ''./util'' [''src/util.ts''] (\<lambda>_. None)) \<le> 64"
  using import_candidates_bounded [of "[''src/util.ts'']" "''src/app.ts''" "''./util''" "\<lambda>_. None"]
  by (simp add: Let_def max_import_candidate_path_bytes_def max_import_candidates_per_import_def)

theorem star_import_breaks_repair_witness:
  "exceeds_persisted_bounds (import_candidates ''__init__.py'' ''.'' [''__init__.py''] (\<lambda>_. None))"
proof -
  have "path_components ''__init__.py'' = map Normal ([] @ [''__init__.py''])" "for_source (path_components ''__init__.py'') = Python_Policy"
    by code_simp+
  from star_import_breaks_repair [OF this, of "[''__init__.py'']" "\<lambda>_. None"] show ?thesis
    by (simp add: max_import_target_bytes_def exceeds_persisted_bounds_def)
qed

end
