(* ===== verification/Import_Props.thy ===== *)
theory Import_Props
  imports Import_Resolution
begin

text \<open>
  Two properties of the import candidates that need more of the text functions: they stay inside the
  repository, and the file that represents a Go package is the smallest one.
\<close>

section \<open>Plain texts and paths\<close>

definition plain_text :: "string \<Rightarrow> bool" where
  "plain_text s \<longleftrightarrow> CHR 0x5C \<notin> set s \<and> CHR 0x00 \<notin> set s"

definition plain_path :: "host_path \<Rightarrow> bool" where
  "plain_path cs \<longleftrightarrow> (\<forall>w. Normal w \<in> set cs \<longrightarrow> component_ok w)"

named_theorems plain_intros \<open>paths whose names are proper components\<close>

lemma plain_text_subset: "plain_text s \<Longrightarrow> set t \<subseteq> set s \<union> {CHR ''/'', CHR '':'', CHR ''.''} \<Longrightarrow> plain_text t"
  by (auto simp: plain_text_def)

lemma plain_components [plain_intros]:
  assumes "plain_text s" shows "plain_path (path_components s)"
proof -
  have "component_ok w" if "w \<in> set (split_char CHR ''/'' s)" "w \<noteq> []" "w \<noteq> ''.''" "w \<noteq> ''..''" for w
    using that assms split_char_pieces [OF that(1)] by (fastforce simp: component_ok_def plain_text_def)
  then show ?thesis
    by (auto simp: plain_path_def path_components_def piece_component_def Let_def split: if_splits)
qed

lemma plain_join [plain_intros]: "plain_path a \<Longrightarrow> plain_path b \<Longrightarrow> plain_path (path_join a b)"
  unfolding plain_path_def using path_join_names by blast

lemma plain_butlast: "plain_path cs \<Longrightarrow> plain_path (butlast cs)"
  by (auto simp: plain_path_def dest: in_set_butlastD)

lemma plain_Nil [plain_intros]: "plain_path []"
  by (simp add: plain_path_def)

lemma plain_parent: "plain_path cs \<Longrightarrow> path_parent cs = Some p \<Longrightarrow> plain_path p"
  by (auto simp: path_parent_def plain_butlast split: if_splits)

lemma plain_parent_or_empty [plain_intros]: "plain_path cs \<Longrightarrow> plain_path (case path_parent cs of None \<Rightarrow> [] | Some p \<Rightarrow> p)"
  by (auto simp: plain_Nil dest: plain_parent split: option.split)

lemma plain_file_name: "plain_path cs \<Longrightarrow> file_name cs = Some w \<Longrightarrow> component_ok w"
  by (auto simp: plain_path_def file_name_def split: if_splits component.splits dest!: last_in_set)

lemma stem_part: "fst (split_extension name) \<noteq> [] \<or> name = []" "set (fst (split_extension name)) \<subseteq> set name"
  by (auto simp: split_extension_def rsplit_once_Some split: option.split)

lemma plain_with_extension [plain_intros]:
  assumes "plain_path cs" "plain_text ext" "CHR ''/'' \<notin> set ext" "ext \<noteq> []"
  shows "plain_path (with_extension ext cs)"
proof (cases "file_stem cs")
  case None
  then show ?thesis using assms by (simp add: with_extension_def)
next
  case (Some stem)
  then obtain name where name: "file_name cs = Some name" "stem = fst (split_extension name)" by (auto simp: file_stem_def)
  have ok: "component_ok name" using plain_file_name [OF assms(1) name(1)] .
  then have "stem \<noteq> []" "set stem \<subseteq> set name" using stem_part [of name] name(2) by (auto simp: component_ok_def)
  moreover have "a @ CHR ''.'' # b \<noteq> ''..''" if "a \<noteq> []" "b \<noteq> []" for a b :: string
    using that by (cases a; cases b) (auto simp: append_eq_Cons_conv)
  ultimately have "component_ok (stem @ ''.'' @ ext)"
    using ok assms(2-4) by (auto simp: component_ok_def plain_text_def append_eq_Cons_conv)
  then show ?thesis
    using Some plain_butlast [OF assms(1)] assms(4) by (auto simp: with_extension_def plain_path_def)
qed

lemma plain_normal: "normalize_lexically p = Some names \<Longrightarrow> plain_path p \<Longrightarrow> list_all component_ok names"
  using normalize_lexically_names by (fastforce simp: plain_path_def list_all_iff)

lemma plain_normal_bases: "(\<And>p. p \<in> set ps \<Longrightarrow> plain_path p) \<Longrightarrow> b \<in> set (normal_bases ps) \<Longrightarrow> plain_path b"
  by (induction ps) (auto simp: normal_bases_def List.map_filter_simps plain_path_def list_all_iff
    split: option.splits dest!: plain_normal [unfolded plain_path_def])

section \<open>The candidates stay inside\<close>

lemma candidate_text_inside:
  assumes "candidate_text p = Some c" "plain_path p" shows "c = [] \<or> canonical_path c"
proof -
  obtain names where names: "normalize_lexically p = Some names" "c = slashed (str_join ''/'' names)"
    using assms(1) by (auto simp: candidate_text_def Let_def split: option.splits if_splits)
  have ok: "list_all component_ok names" using plain_normal [OF names(1) assms(2)] .
  show ?thesis
  proof (cases "names = []")
    case True
    then show ?thesis using names(2) by (simp add: slashed_def str_replace_char_def)
  next
    case False
    then have can: "canonical_path (str_join ''/'' names)" using ok by (intro canonical_path_join) (simp add: canonical_components_def)
    then show ?thesis using names(2) canonical_path_chars(2) [OF can] by (simp add: slashed_def replace_id)
  qed
qed

lemma push_all_subset: "set (push_all cs ps) \<subseteq> set cs \<union> {c. \<exists>p \<in> set ps. candidate_text p = Some c}"
proof (induction ps arbitrary: cs)
  case (Cons p ps)
  have "set (push_candidate cs p) \<subseteq> set cs \<union> {c. candidate_text p = Some c}"
    by (auto simp: push_candidate_def candidate_text_def Let_def split: option.split)
  then show ?case using Cons.IH [of "push_candidate cs p"] by (auto simp: push_all_def)
qed (simp add: push_all_def)

definition inside :: "string \<Rightarrow> bool" where
  "inside c \<longleftrightarrow> c = [] \<or> canonical_path c"

definition plain_paths :: "host_path list \<Rightarrow> bool" where
  "plain_paths ps \<longleftrightarrow> (\<forall>p \<in> set ps. plain_path p)"

definition plain_extension :: "string \<Rightarrow> bool" where
  "plain_extension ext \<longleftrightarrow> plain_text ext \<and> CHR ''/'' \<notin> set ext \<and> ext \<noteq> []"

lemma push_all_inside: "plain_paths ps \<Longrightarrow> \<forall>c \<in> set (push_all [] ps). inside c"
  using push_all_subset [of "[]" ps] candidate_text_inside by (fastforce simp: plain_paths_def inside_def)

lemma plain_paths_rules:
  "plain_paths []" "plain_path p \<Longrightarrow> plain_paths [p]" "plain_paths ps \<Longrightarrow> plain_paths qs \<Longrightarrow> plain_paths (ps @ qs)"
  "\<forall>ext \<in> set exts. plain_extension ext \<Longrightarrow> plain_path base \<Longrightarrow> plain_paths (map (\<lambda>ext. with_extension ext base) exts)"
  by (auto simp: plain_paths_def plain_extension_def intro: plain_with_extension)

lemma plain_literals: "plain_text ''__init__''" "plain_text ''index''" "plain_text ''mod.rs''" "plain_text ''py''" "plain_text ''pyi''"
  "plain_text ''js''" "plain_text ''mjs''" "plain_text ''cjs''" "plain_text ''jsx''" "plain_text ''rs''" "plain_text ''tex''" "plain_text ''ltx''"
  "plain_text ''ts''" "plain_text ''tsx''" "plain_text ''d.ts''" "plain_text ''mts''" "plain_text ''d.mts''" "plain_text ''cts''" "plain_text ''d.cts''"
  by (simp_all add: plain_text_def)

lemma relative_base_plain:
  assumes "source_relative_base source_path raw_target = Some base" shows "plain_path base"
proof -
  obtain p q where q: "join_relative p raw_target = Inr q" "base = path_components q"
    using assms by (auto simp: source_relative_base_def split: sum.splits)
  then obtain v where "repository_path_parse v = Inr q"
    by (auto simp: join_relative_def split: if_splits option.splits list.splits)
  then have "q = ''.'' \<or> canonical_path q"
    using normalize_repository_value_Inr canonical_path_join unfolding repository_path_parse_def by blast
  then have "plain_text q" using canonical_path_chars by (auto simp: plain_text_def)
  then show ?thesis using q(2) by (simp add: plain_components)
qed

lemma relative_import_base_plain: "relative_import_base source_path raw_target = Some base \<Longrightarrow> plain_path base"
  using relative_base_plain by (auto simp: relative_import_base_def split: if_splits)

lemma plain_extensions:
  "\<forall>ext \<in> set javascript_extensions. plain_extension ext" "\<forall>ext \<in> set python_extensions. plain_extension ext"
  "\<forall>ext \<in> set (typescript_substitutions e). plain_extension ext" "\<forall>ext \<in> set [''tex'', ''ltx'']. plain_extension ext" "plain_extension ''rs''"
proof -
  show "\<forall>ext \<in> set javascript_extensions. plain_extension ext"
    by (simp add: javascript_extensions_def plain_extension_def plain_literals)
  show "\<forall>ext \<in> set python_extensions. plain_extension ext"
    by (simp add: python_extensions_def plain_extension_def plain_literals)
  show "\<forall>ext \<in> set (typescript_substitutions e). plain_extension ext"
    unfolding typescript_substitutions_def
    by (cases "e = None \<or> e = Some ''js''"; cases "e = Some ''jsx''"; cases "e = Some ''mjs''"; cases "e = Some ''cjs''")
      (simp_all add: plain_extension_def plain_literals)
qed (simp_all add: plain_extension_def plain_literals)

lemma index_plain: "plain_path base \<Longrightarrow> plain_path (path_join base (path_components ''index''))"
  by (intro plain_join plain_components plain_literals)

lemma relative_candidates_inside:
  "\<forall>c \<in> set (javascript_import_candidates source_path raw_target). inside c"
  "\<forall>c \<in> set (typescript_import_candidates source_path raw_target). inside c"
  "\<forall>c \<in> set (latex_import_candidates source_path raw_target). inside c"
  "\<forall>c \<in> set (web_resource_import_candidates source_path raw_target). inside c"
proof -
  show "\<forall>c \<in> set (javascript_import_candidates source_path raw_target). inside c"
  proof (cases "relative_import_base source_path raw_target")
    case (Some base)
    note base = relative_import_base_plain [OF Some]
    have "plain_paths [base]" "plain_paths (map (\<lambda>ext. with_extension ext base) javascript_extensions @
        map (\<lambda>ext. with_extension ext (path_join base (path_components ''index''))) javascript_extensions)"
      by (intro plain_paths_rules base plain_extensions index_plain)+
    then show ?thesis using Some push_all_inside by (simp add: javascript_import_candidates_def)
  qed (simp add: javascript_import_candidates_def)
  show "\<forall>c \<in> set (typescript_import_candidates source_path raw_target). inside c"
  proof (cases "relative_import_base source_path raw_target")
    case (Some base)
    note base = relative_import_base_plain [OF Some]
    let ?subs = "typescript_substitutions (extension_of base)"
    have "plain_paths [base]" "plain_paths (map (\<lambda>ext. with_extension ext base) ?subs @
        (if extension_of base = None then map (\<lambda>ext. with_extension ext (path_join base (path_components ''index''))) ?subs else []))"
      by (cases "extension_of base = None") (auto intro!: plain_paths_rules base plain_extensions index_plain)
    then show ?thesis using Some push_all_inside by (simp add: typescript_import_candidates_def Let_def)
  qed (simp add: typescript_import_candidates_def)
  show "\<forall>c \<in> set (latex_import_candidates source_path raw_target). inside c"
  proof (cases "source_relative_base source_path raw_target")
    case (Some base)
    note base = relative_base_plain [OF Some]
    have "plain_paths [base]" "plain_paths (map (\<lambda>ext. with_extension ext base) [''tex'', ''ltx''])"
      by (intro plain_paths_rules base plain_extensions)+
    then show ?thesis using Some push_all_inside by (simp add: latex_import_candidates_def)
  qed (simp add: latex_import_candidates_def)
  show "\<forall>c \<in> set (web_resource_import_candidates source_path raw_target). inside c"
  proof (cases "relative_import_base source_path raw_target")
    case (Some base)
    then show ?thesis
      using push_all_inside [OF plain_paths_rules(2) [OF relative_import_base_plain [OF Some]]]
      by (simp add: web_resource_import_candidates_def)
  qed (simp add: web_resource_import_candidates_def)
qed

section \<open>Module imports\<close>

lemma source_root_plain: "source_root_of pre found cs = Some r \<Longrightarrow> plain_path pre \<Longrightarrow> plain_path cs \<Longrightarrow>
    (\<And>f. found = Some f \<Longrightarrow> plain_path f) \<Longrightarrow> plain_path r"
proof (induction pre found cs rule: source_root_of.induct)
  case (2 pre found c cs)
  have "plain_path (pre @ [Normal c])" "plain_path cs" using "2.prems"(2,3) by (auto simp: plain_path_def)
  moreover from this have "plain_path f" if "(if c = ''src'' then Some (pre @ [Normal c]) else found) = Some f" for f
    using that "2.prems"(4) by (auto split: if_splits)
  ultimately show ?case using "2.IH" "2.prems"(1) by simp
qed auto

lemma pop_times_plain: "pop_times n base = Some p \<Longrightarrow> plain_path base \<Longrightarrow> plain_path p"
  by (induction n arbitrary: base) (auto simp: bind_eq_Some_conv dest: plain_parent)

lemma plain_text_rules:
  "plain_text s \<Longrightarrow> plain_text (drop n s)" "plain_text s \<Longrightarrow> plain_text (str_replace_char CHR ''.'' CHR ''/'' s)"
  by (auto simp: plain_text_def dest: in_set_dropD set_replace_in)

lemma python_paths_plain:
  assumes "plain_path source" "plain_text raw_target" shows "plain_paths (python_module_paths source raw_target)"
proof -
  let ?module = "\<lambda>n. path_components (str_replace_char CHR ''.'' CHR ''/'' (drop n raw_target))"
  have module: "plain_path (?module n)" for n using assms(2) by (intro plain_components plain_text_rules)
  have root: "plain_path r" if "conventional_python_source_root source = Some r" for r
    using that assms(1) by (auto simp: conventional_python_source_root_def bind_eq_Some_conv plain_Nil dest: plain_parent intro: source_root_plain)
  show ?thesis
  proof (cases "length (takeWhile (\<lambda>c. c = CHR ''.'') raw_target) = 0")
    case True
    then show ?thesis using module [of 0] root
      by (auto simp: python_module_paths_def Let_def plain_paths_def intro: plain_join split: option.splits)
  next
    case False
    then show ?thesis
      using module pop_times_plain [OF _ plain_parent_or_empty [OF assms(1)]]
      by (auto simp: python_module_paths_def Let_def plain_paths_def intro: plain_join split: option.split)
  qed
qed

lemma normal_bases_plain: "plain_paths ps \<Longrightarrow> plain_paths (normal_bases ps)"
  using plain_normal_bases by (auto simp: plain_paths_def)

lemma plain_concat: "(\<And>b. b \<in> set bs \<Longrightarrow> plain_paths (f b)) \<Longrightarrow> plain_paths (concat (map f bs))"
  by (auto simp: plain_paths_def)

lemma python_candidates_inside:
  assumes "plain_path source" "plain_text raw_target"
  shows "\<forall>c \<in> set (python_import_candidates source raw_target). inside c"
  unfolding python_import_candidates_def
proof (intro push_all_inside plain_concat plain_paths_rules plain_extensions)
  fix base assume "base \<in> set (normal_bases (python_module_paths source raw_target))"
  then show base: "plain_path base" using normal_bases_plain [OF python_paths_plain [OF assms]] by (simp add: plain_paths_def)
  then show "plain_path (path_join base (path_components ''__init__''))" by (intro plain_join plain_components plain_literals)
qed

lemma plain_text_sub: "plain_text s \<Longrightarrow> set t \<subseteq> set s \<Longrightarrow> plain_text t"
  by (auto simp: plain_text_def)

lemma dropped_chars: "set (concat (dropWhile P ws)) \<subseteq> set (concat ws)"
  by (auto dest: set_dropWhileD)

lemma trim_chars: "set (trim s) \<subseteq> set s"
proof -
  have ends: "set (trim_end t) \<subseteq> set t" for t
  proof -
    have "set (trim_end t) = set (concat (dropWhile char_whitespace (rev (utf8_chars t))))" by (simp add: trim_end_def)
    also have "\<dots> \<subseteq> set (concat (rev (utf8_chars t)))" by (rule dropped_chars)
    also have "\<dots> = set (concat (utf8_chars t))" by (simp del: concat_utf8_chars)
    finally show ?thesis by simp
  qed
  have "set (concat (dropWhile char_whitespace (utf8_chars s))) \<subseteq> set s"
    using dropped_chars [of char_whitespace "utf8_chars s"] by simp
  then show ?thesis unfolding trim_def using ends by blast
qed

lemma split_str_chars: "split_str pat s \<noteq> [] \<and> (\<forall>w \<in> set (split_str pat s). set w \<subseteq> set s)"
proof (induction pat s rule: split_str.induct)
  case (2 pat c s)
  show ?case
  proof (cases "pat \<noteq> [] \<and> starts_with (c # s) pat")
    case True
    have "set (drop n s) \<subseteq> set s" for n by (rule set_drop_subset)
    then show ?thesis using "2.IH"(1) [OF True] True by (simp add: subset_insertI2) blast
  next
    case False
    obtain w ws where ws: "split_str pat s = w # ws" using "2.IH"(2) [OF False] by (cases "split_str pat s") auto
    then show ?thesis using "2.IH"(2) [OF False] False by auto
  qed
qed simp

lemma hd_split_str: "set (hd (split_str pat s)) \<subseteq> set s"
  using split_str_chars [of pat s] by (cases "split_str pat s") auto

lemma split_char_chars: "w \<in> set (split_char c s) \<Longrightarrow> set w \<subseteq> set s"
  using split_char_pieces by blast

lemma hd_split_char: "set (hd (split_char c s)) \<subseteq> set s"
proof -
  have "split_char c s \<noteq> []" by (cases s) (auto simp: split_char_def split: list.split)
  then show ?thesis using split_char_chars by (meson hd_in_set)
qed

lemma str_join_chars: "set (str_join sep ws) \<subseteq> set sep \<union> \<Union> (set ` set ws)"
  by (induction sep ws rule: str_join.induct) auto

lemma strip_prefix_chars: "strip_prefix s p = Some t \<Longrightarrow> set t \<subseteq> set s"
  by (auto simp: strip_prefix_def split: if_splits dest: in_set_dropD)

lemma plain_piece: "plain_text s \<Longrightarrow> plain_text (trim (hd (split_str pat s)))"
  using trim_chars hd_split_str by (meson order_trans plain_text_sub)

lemma group_targets_plain:
  "group_targets pre items targets = Some out \<Longrightarrow> plain_text pre \<Longrightarrow> \<forall>w \<in> set items. plain_text w \<Longrightarrow> \<forall>t \<in> set targets. plain_text t \<Longrightarrow>
    \<forall>t \<in> set out. plain_text t"
proof (induction pre items targets rule: group_targets.induct)
  case (2 pre item items targets)
  let ?item = "trim (hd (split_str '' as '' (trim item)))"
  have "plain_text (trim item)" using "2.prems"(3) trim_chars [of item] plain_text_sub by auto
  then have "plain_text ?item" by (rule plain_piece)
  then have "plain_text (if pre = [] then ?item else pre @ ''::'' @ ?item)" using "2.prems"(2) by (auto simp: plain_text_def)
  then show ?case using 2 by (auto simp: Let_def split: if_splits)
qed simp

lemma rust_targets_plain: "rust_targets stripped = Some out \<Longrightarrow> plain_text stripped \<Longrightarrow> \<forall>t \<in> set out. plain_text t"
proof (cases "split_char CHR ''{'' stripped")
  case Nil
  assume "rust_targets stripped = Some out" "plain_text stripped"
  then show ?thesis using Nil by (auto simp: rust_targets_def Let_def plain_piece split: if_splits)
next
  case (Cons before rests)
  assume out: "rust_targets stripped = Some out" and plain: "plain_text stripped"
  show ?thesis
  proof (cases rests)
    case Nil
    then show ?thesis using out plain Cons
      by (auto simp: rust_targets_def Let_def plain_piece split: if_splits)
  next
    case (Cons rest more)
    note pieces = split_char_chars [of _ "CHR ''{''" stripped, unfolded \<open>split_char CHR ''{'' stripped = before # rests\<close>]
    have "set (trim_end_matches CHR '':'' before) \<subseteq> set before"
      by (auto simp: trim_end_matches_def dest: set_dropWhileD)
    then have "plain_text (trim_end_matches CHR '':'' before)"
      using plain pieces [of before] by (meson list.set_intros(1) order_trans plain_text_sub)
    moreover have "set rest \<subseteq> set stripped" using pieces [of rest] Cons by simp
    then have "\<forall>w \<in> set (split_char CHR '','' (hd (split_char CHR ''}'' rest))). plain_text w"
      using plain hd_split_char split_char_chars by (meson order_trans plain_text_sub)
    ultimately show ?thesis using out \<open>split_char CHR ''{'' stripped = before # rests\<close> Cons
      by (auto simp: rust_targets_def dest: group_targets_plain)
  qed
qed

lemma parse_targets_plain:
  "parse_targets targets required parsed = Some out \<Longrightarrow> \<forall>t \<in> set targets. plain_text t \<Longrightarrow> \<forall>ws \<in> set parsed. \<forall>w \<in> set ws. plain_text w \<Longrightarrow>
    \<forall>ws \<in> set out. \<forall>w \<in> set ws. plain_text w"
proof (induction targets required parsed rule: parse_targets.induct)
  case (2 target targets required parsed)
  have "\<forall>w \<in> set (split_str ''::'' target). plain_text w"
    using "2.prems"(2) split_str_chars plain_text_sub by (meson list.set_intros(1))
  then have "\<forall>w \<in> set (filter (\<lambda>w. w \<noteq> []) (split_str ''::'' target)). plain_text w" by simp
  then show ?case using 2 by (auto simp: Let_def split: if_splits option.splits)
qed simp

lemma normal_names_plain: "plain_path cs \<Longrightarrow> w \<in> set (normal_names cs) \<Longrightarrow> component_ok w"
  by (induction cs) (auto simp: normal_names_def List.map_filter_simps plain_path_def split: component.splits)

lemma map_Normal_plain: "(\<And>w. w \<in> set ws \<Longrightarrow> component_ok w) \<Longrightarrow> plain_path (map Normal ws)"
  by (auto simp: plain_path_def)

lemma plain_append: "plain_path (a @ b) \<longleftrightarrow> plain_path a \<and> plain_path b" "plain_path (Normal w # b) \<longleftrightarrow> component_ok w \<and> plain_path b"
  by (auto simp: plain_path_def)

lemma crate_root_plain:
  assumes "plain_path source" shows "plain_path (rust_crate_root source)"
proof -
  have names: "plain_path (map Normal (take n (normal_names source)))" for n
    using normal_names_plain [OF assms] by (auto intro!: map_Normal_plain dest: in_set_takeD)
  have name: "component_ok (normal_names source ! n)" if "n < length (normal_names source)" for n
    using normal_names_plain [OF assms] that by simp
  show ?thesis
    using names name plain_parent_or_empty [OF assms]
    by (auto simp: rust_crate_root_def Let_def plain_append plain_Nil component_ok_def [of "''bin''"] simp del: take_Suc_conv_app_nth
        split: option.split)
qed

lemma module_dir_plain:
  assumes "plain_path source" shows "plain_path (rust_source_module_dir source crate_root)"
proof (cases "file_stem source")
  case None
  then show ?thesis using plain_parent_or_empty [OF assms] by (simp add: rust_source_module_dir_def)
next
  case (Some stem)
  then obtain name where "file_name source = Some name" "set stem \<subseteq> set name"
    using stem_part(2) by (auto simp: file_stem_def)
  then have "plain_text stem" using plain_file_name [OF assms] by (auto simp: component_ok_def plain_text_def)
  then have "plain_path (path_join p (path_components stem))" if "plain_path p" for p using that by (intro plain_join plain_components)
  then show ?thesis using Some plain_parent_or_empty [OF assms] by (simp add: rust_source_module_dir_def Let_def)
qed

lemma climb_supers_plain:
  "climb_supers crate_root root target = Some (t, r) \<Longrightarrow> plain_path root \<Longrightarrow> plain_text target \<Longrightarrow> plain_path r \<and> plain_text t"
proof (induction crate_root root target rule: climb_supers.induct)
  case (1 crate_root root target)
  show ?case
  proof (cases "strip_prefix target ''super::''")
    case None
    then show ?thesis using "1.prems" by (simp add: climb_supers.simps)
  next
    case (Some rest)
    then obtain up where up: "root \<noteq> crate_root" "path_parent root = Some up" "climb_supers crate_root up rest = Some (t, r)"
      using "1.prems"(1) by (subst (asm) climb_supers.simps) (auto split: if_splits option.splits)
    then show ?thesis using "1.IH" [OF Some up(1,2,3)] plain_parent [OF "1.prems"(2) up(2)] strip_prefix_chars [OF Some]
        "1.prems"(3) plain_text_sub by blast
  qed
qed

lemma rust_paths_plain:
  assumes "plain_path source" "plain_text raw_target" shows "plain_paths (rust_module_paths source raw_target)"
proof (cases "rust_qualified source (trim raw_target)")
  case (Some sr)
  then obtain stripped root where sr: "rust_qualified source (trim raw_target) = Some (stripped, root)" by (cases sr) auto
  have trimmed: "plain_text (trim raw_target)" using assms(2) trim_chars plain_text_sub by blast
  have found: "plain_path root \<and> plain_text stripped"
    using sr crate_root_plain [OF assms(1)] module_dir_plain [OF assms(1)] trimmed climb_supers_plain
    by (auto simp: rust_qualified_def Let_def split: option.splits if_splits dest: strip_prefix_chars intro: plain_text_sub)
  have "plain_paths (concat (map (rust_prefix_bases root) parsed))"
    if bound: "Option.bind (rust_targets stripped) (\<lambda>targets. parse_targets targets 0 []) = Some parsed" for parsed
  proof (rule plain_concat)
    obtain targets where targets: "rust_targets stripped = Some targets" "parse_targets targets 0 [] = Some parsed"
      using bound by (auto simp: bind_eq_Some_conv)
    have "\<forall>ws \<in> set parsed. \<forall>w \<in> set ws. plain_text w"
      using parse_targets_plain [OF targets(2)] rust_targets_plain [OF targets(1)] found by simp
    moreover fix segments assume "segments \<in> set parsed"
    ultimately have plain: "\<forall>w \<in> set segments. plain_text w" by blast
    have "plain_text (str_join ''/'' (take n segments))" for n
      using plain str_join_chars [of "''/''" "take n segments"] by (fastforce simp: plain_text_def dest: in_set_takeD)
    then show "plain_paths (rust_prefix_bases root segments)"
      using found by (auto simp: rust_prefix_bases_def plain_paths_def simp del: upt_Suc intro!: plain_join plain_components)
  qed
  then show ?thesis using sr by (auto simp: rust_module_paths_def plain_paths_rules split: option.split)
qed (simp add: rust_module_paths_def plain_paths_rules)

lemma rust_candidates_inside:
  assumes "plain_path source" "plain_text raw_target"
  shows "\<forall>c \<in> set (rust_import_candidates source raw_target). inside c"
  unfolding rust_import_candidates_def
proof (intro push_all_inside plain_concat)
  fix base assume "base \<in> set (normal_bases (rust_module_paths source raw_target))"
  then have base: "plain_path base" using normal_bases_plain [OF rust_paths_plain [OF assms]] by (simp add: plain_paths_def)
  then show "plain_paths (rust_base_candidates base)"
    using plain_join [OF base plain_components [OF plain_literals(3)]] plain_extensions(5) plain_with_extension [OF base, of "''rs''"]
    by (auto simp: rust_base_candidates_def plain_paths_def plain_extension_def)
qed

text \<open>C19: Import candidates never leave the repository.  For a source path and a raw import without backslash and NUL,
  in any of the supported languages, whatever dots, slashes, braces, qualifiers or absolute paths the import
  contains, every candidate is a proper path below the repository root or the empty path.\<close>

theorem import_candidates_inside:
  assumes "plain_text source_path" "plain_text raw_target" "\<forall>path \<in> set sorted_paths. canonical_path path"
    and "c \<in> set (import_candidates source_path raw_target sorted_paths modules)"
  shows "c = [] \<or> canonical_path c"
proof -
  have source: "plain_path (path_components source_path)" using assms(1) by (rule plain_components)
  have "\<forall>c \<in> set (go_import_candidates source raw_target modules sorted_paths). inside c" for source
    using assms(3) go_walk_result [of max_go_mod_walk_depth modules sorted_paths
        "trim_quotes (\<lambda>c. c = double_quote \<or> c = single_quote) raw_target" "path_parent source"]
    by (auto simp: go_import_candidates_def Let_def inside_def)
  then have "inside c"
    using assms(4) python_candidates_inside [OF source assms(2)] rust_candidates_inside [OF source assms(2)] relative_candidates_inside
    by (auto simp: import_candidates_def Let_def split: if_splits resolution_policy.splits)
  then show ?thesis by (simp add: inside_def)
qed

section \<open>The file that represents a Go package\<close>

lemma prefix_le: "starts_with q pre \<Longrightarrow> pre \<le> (q :: string)"
proof -
  have "pre \<le> pre @ t" for t by (induction pre) auto
  then show "starts_with q pre \<Longrightarrow> pre \<le> q" by (auto simp: starts_with_iff)
qed

lemma prefix_interval: "pre \<le> (x :: string) \<Longrightarrow> \<not> starts_with x pre \<Longrightarrow> starts_with q pre \<Longrightarrow> q < x"
proof (induction pre arbitrary: x q)
  case (Cons c pre)
  obtain q' where q: "q = c # q'" "starts_with q' pre" using Cons.prems(3) by (auto simp: starts_with_iff)
  then show ?case using Cons.prems(1,2) Cons.IH [of _ q'] by (cases x) (auto simp: starts_with_def)
qed (simp add: starts_with_def)

lemma prefix_block:
  assumes "sorted sp" "q \<in> set sp" "starts_with q pre"
  shows "q \<in> set (takeWhile (\<lambda>path. starts_with path pre) (drop (partition_point (\<lambda>path. path < pre) sp) sp))"
proof -
  let ?rest = "dropWhile (\<lambda>path. path < pre) sp"
  have rest: "drop (partition_point (\<lambda>path. path < pre) sp) sp = ?rest"
    unfolding partition_point_def by (simp add: dropWhile_eq_drop)
  have "q \<notin> set (takeWhile (\<lambda>path. path < pre) sp)" using prefix_le [OF assms(3)] by (auto dest: set_takeWhileD)
  then have q: "q \<in> set ?rest" using assms(2) by (metis Un_iff set_append takeWhile_dropWhile_id)
  have sorted: "sorted ?rest" by (rule sorted_dropWhile [OF assms(1)])
  have above: "pre \<le> x" if "x \<in> set ?rest" for x
  proof (cases ?rest)
    case (Cons y ys)
    then have "\<not> y < pre" by (metis hd_dropWhile list.distinct(1) list.sel(1))
    then show ?thesis using that sorted Cons by auto
  next
    case Nil
    then show ?thesis using that by (simp only: Nil list.set empty_iff)
  qed
  show ?thesis
  proof (rule ccontr)
    assume "q \<notin> set (takeWhile (\<lambda>path. starts_with path pre) (drop (partition_point (\<lambda>path. path < pre) sp) sp))"
    then have "q \<in> set (dropWhile (\<lambda>path. starts_with path pre) ?rest)"
      using q unfolding rest by (metis Un_iff set_append takeWhile_dropWhile_id)
    then obtain y ys where y: "dropWhile (\<lambda>path. starts_with path pre) ?rest = y # ys" "q \<in> set (y # ys)"
      by (cases "dropWhile (\<lambda>path. starts_with path pre) ?rest") auto
    have "\<not> starts_with y pre" using y(1) by (metis hd_dropWhile list.distinct(1) list.sel(1))
    moreover have "y \<in> set ?rest" using y(1) by (metis list.set_intros(1) set_dropWhileD)
    ultimately have "q < y" using prefix_interval above assms(3) by blast
    moreover have "sorted (y # ys)" using sorted_dropWhile [OF sorted, of "\<lambda>path. starts_with path pre"] y(1) by simp
    ultimately show False using y(2) by auto
  qed
qed

lemma find_least: "sorted xs \<Longrightarrow> find P xs = Some x \<Longrightarrow> \<forall>y \<in> set xs. P y \<longrightarrow> x \<le> (y :: string)"
  by (induction xs) (auto split: if_splits)

definition represents_package :: "string \<Rightarrow> string \<Rightarrow> bool" where
  "represents_package package_dir path \<longleftrightarrow>
     (\<exists>name. path = (if package_dir = [] then name else package_dir @ ''/'' @ name) \<and> CHR ''/'' \<notin> set name \<and>
       ends_with name ''.go'' \<and> \<not> ends_with name ''_test.go'')"

text \<open>A Go package is represented by its smallest file.  In a sorted index, the search that starts at the first path
  not below the directory's prefix and stops after the last one with it returns the least indexed file directly in
  the directory that ends in \<open>.go\<close> and is no test file, and nothing exactly when there is none.\<close>

theorem go_package_representative:
  assumes "sorted sorted_paths"
  shows "case minimum_indexed_go_file package_dir sorted_paths of
     None \<Rightarrow> \<forall>path \<in> set sorted_paths. \<not> represents_package package_dir path
   | Some path \<Rightarrow> path \<in> set sorted_paths \<and> represents_package package_dir path \<and>
       (\<forall>other \<in> set sorted_paths. represents_package package_dir other \<longrightarrow> path \<le> other)"
proof -
  define pre where "pre = (if package_dir = [] then [] else package_dir @ ''/'')"
  let ?block = "takeWhile (\<lambda>path. starts_with path pre) (drop (partition_point (\<lambda>path. path < pre) sorted_paths) sorted_paths)"
  let ?fits = "\<lambda>path. CHR ''/'' \<notin> set (drop (length pre) path) \<and> ends_with (drop (length pre) path) ''.go'' \<and>
      \<not> ends_with (drop (length pre) path) ''_test.go''"
  have result: "minimum_indexed_go_file package_dir sorted_paths = find ?fits ?block"
  proof -
    have none: "takeWhile (\<lambda>x. False) xs = []" for xs :: "string list" by (cases xs) auto
    show ?thesis by (auto simp: minimum_indexed_go_file_def pre_def Let_def partition_point_def none)
  qed
  have represents: "represents_package package_dir path \<longleftrightarrow> starts_with path pre \<and> ?fits path" for path
    by (auto simp: represents_package_def pre_def starts_with_iff)
  have block: "path \<in> set ?block \<longleftrightarrow> path \<in> set sorted_paths \<and> starts_with path pre" for path
    using prefix_block [OF assms] by (auto dest: set_takeWhileD in_set_dropD)
  have sorted: "sorted ?block" using assms by (intro sorted_takeWhile sorted_wrt_drop)
  show ?thesis
  proof (cases "find ?fits ?block")
    case None
    then have "\<forall>path \<in> set sorted_paths. \<not> represents_package package_dir path"
      using block represents by (auto simp: find_None_iff)
    then show ?thesis using None result by simp
  next
    case (Some path)
    have "path \<in> set ?block" "?fits path" using find_Some_mem [OF Some] by auto
    moreover have "\<forall>other \<in> set sorted_paths. represents_package package_dir other \<longrightarrow> path \<le> other"
      using find_least [OF sorted Some] block represents by blast
    ultimately show ?thesis using Some result block represents by simp
  qed
qed

section \<open>Samples\<close>

lemma sample_go_sorted: "sorted [''go.mod'', ''pkg/a_test.go'', ''pkg/b.go'', ''pkg/sub/a.go'']"
  by simp

theorem go_package_representative_witness:
  "minimum_indexed_go_file ''pkg'' [''go.mod'', ''pkg/a_test.go'', ''pkg/b.go'', ''pkg/sub/a.go''] = Some ''pkg/b.go''"
proof -
  have mem: "represents_package ''pkg'' ''pkg/b.go''"
    unfolding represents_package_def by (intro exI [of _ "''b.go''"]) (simp add: ends_with_def)
  have "\<not> represents_package ''pkg'' p" if "p \<in> {''go.mod'', ''pkg/a_test.go'', ''pkg/sub/a.go''}" for p
    using that by (auto simp: represents_package_def ends_with_def)
  then show ?thesis
    using go_package_representative [OF sample_go_sorted, of "''pkg''"] mem
    by (auto split: option.splits)
qed

theorem import_candidates_inside_witness:
  "canonical_path (hd (import_candidates ''app/views.py'' ''..core'' [] (\<lambda>_. None)))"
proof -
  have "for_source (path_components ''app/views.py'') = Python_Policy"
    "hd (python_import_candidates (path_components ''app/views.py'') ''..core'') = ''core/__init__.py''"
    "''core/__init__.py'' \<in> set (python_import_candidates (path_components ''app/views.py'') ''..core'')" by code_simp+
  then have result: "hd (import_candidates ''app/views.py'' ''..core'' [] (\<lambda>_. None)) = ''core/__init__.py''"
    "''core/__init__.py'' \<in> set (import_candidates ''app/views.py'' ''..core'' [] (\<lambda>_. None))"
    by (simp_all add: import_candidates_def max_import_target_bytes_def)
  have "plain_text ''app/views.py''" "plain_text ''..core''" by (simp_all add: plain_text_def)
  then show ?thesis using import_candidates_inside [OF _ _ _ result(2)] result(1) by auto
qed

end
