(* ===== verification/Executor.thy ===== *)
theory Executor
  imports Prelude
begin

text \<open>
  The blocking executor of the services (\<open>src/services/executor.rs\<close>, its capacities from
  \<open>src/concurrency.rs\<close>) as a state machine.  A call of \<open>run\<close> is a task; its phases are the points at which
  other tasks, the clock and cancellations interleave with it.  The \<open>active\<close> semaphore admits calls, the
  \<open>execution\<close> semaphore lets them run; a permit is dropped with the scope that owns it.  Which of the
  waiting calls gets a free permit is left open, so the order of tokio's queue is one of the runs.
\<close>

section \<open>Capacities\<close>

text \<open>\<open>available\<close> is what the host reports as its parallelism.\<close>

definition min_cpu_capacity :: nat where "min_cpu_capacity = 4"
definition max_cpu_capacity :: nat where "max_cpu_capacity = 16"
definition blocking_queue_capacity :: nat where "blocking_queue_capacity = 8"

definition default_cpu_capacity :: "nat option \<Rightarrow> nat" where
  "default_cpu_capacity available =
     max min_cpu_capacity (min max_cpu_capacity (case available of None \<Rightarrow> 1 | Some n \<Rightarrow> n))"

definition default_blocking_active_capacity :: "nat option \<Rightarrow> nat" where
  "default_blocking_active_capacity available = default_cpu_capacity available + blocking_queue_capacity"

section \<open>Tasks\<close>

datatype outcome = Was_Cancelled | Overloaded | Queue_Timeout | Completed | Abandoned

text \<open>
  \<open>Called\<close>: not polled yet.  \<open>Waiting\<close>: in \<open>wait_for_execution\<close> with an active permit.  \<open>Granted\<close>: has both
  permits, not handed to the blocking pool.  \<open>Spawned\<close>: the closure owns both permits and waits for a
  thread.  \<open>Executing\<close>: the operation runs.
\<close>

datatype phase = Called | Waiting | Granted | Spawned | Executing | Ended outcome

record task =
  tk_phase :: phase
  tk_cancelled :: bool
  tk_started :: bool
  tk_listening :: bool

record executor =
  ex_active :: nat
  ex_execution :: nat
  ex_active_capacity :: nat
  ex_execution_capacity :: nat
  ex_tasks :: "task list"

definition executor_new :: "nat \<Rightarrow> nat \<Rightarrow> executor" where
  "executor_new active_capacity execution_capacity =
     \<lparr>ex_active = active_capacity, ex_execution = execution_capacity, ex_active_capacity = active_capacity,
      ex_execution_capacity = execution_capacity, ex_tasks = []\<rparr>"

definition new_task :: "bool \<Rightarrow> task" where
  "new_task cancelled = \<lparr>tk_phase = Called, tk_cancelled = cancelled, tk_started = False, tk_listening = True\<rparr>"

abbreviation phase_of :: "executor \<Rightarrow> nat \<Rightarrow> phase" where
  "phase_of s i \<equiv> tk_phase (ex_tasks s ! i)"

definition enter :: "nat \<Rightarrow> phase \<Rightarrow> executor \<Rightarrow> executor" where
  "enter i p s = s\<lparr>ex_tasks := (ex_tasks s)[i := (ex_tasks s ! i)\<lparr>tk_phase := p\<rparr>]\<rparr>"

definition drop_active :: "executor \<Rightarrow> executor" where
  "drop_active s = s\<lparr>ex_active := ex_active s + 1\<rparr>"

definition drop_execution :: "executor \<Rightarrow> executor" where
  "drop_execution s = s\<lparr>ex_execution := ex_execution s + 1\<rparr>"

definition drop_both :: "executor \<Rightarrow> executor" where
  "drop_both s = drop_execution (drop_active s)"

definition executor_default :: "nat option \<Rightarrow> executor" where
  "executor_default available = executor_new (default_blocking_active_capacity available) (default_cpu_capacity available)"

section \<open>The parts of a call\<close>

text \<open>\<open>run\<close> up to its first await: the early cancellation, then \<open>try_acquire_owned\<close>.\<close>

definition poll_called :: "nat \<Rightarrow> executor \<Rightarrow> executor" where
  "poll_called i s =
     (if tk_cancelled (ex_tasks s ! i) then enter i (Ended Was_Cancelled) s
      else if ex_active s = 0 then enter i (Ended Overloaded) s
      else enter i Waiting (s\<lparr>ex_active := ex_active s - 1\<rparr>))"

text \<open>One poll of \<open>wait_for_execution\<close>: the cancellation is first, then the permit, then the timer.\<close>

definition poll_waiting :: "nat \<Rightarrow> bool \<Rightarrow> executor \<Rightarrow> executor" where
  "poll_waiting i elapsed s =
     (if tk_cancelled (ex_tasks s ! i) then enter i (Ended Was_Cancelled) (drop_active s)
      else if 0 < ex_execution s then enter i Granted (s\<lparr>ex_execution := ex_execution s - 1\<rparr>)
      else if elapsed then enter i (Ended Queue_Timeout) (drop_active s)
      else s)"

text \<open>The check after the wait, and the hand-over of both permits to the closure.\<close>

definition poll_granted :: "nat \<Rightarrow> executor \<Rightarrow> executor" where
  "poll_granted i s =
     (if tk_cancelled (ex_tasks s ! i) then enter i (Ended Was_Cancelled) (drop_both s) else enter i Spawned s)"

text \<open>The closure on its thread: a last check, then the operation.\<close>

definition begin_closure :: "nat \<Rightarrow> executor \<Rightarrow> executor" where
  "begin_closure i s =
     (if tk_cancelled (ex_tasks s ! i) then enter i (Ended Was_Cancelled) (drop_both s)
      else s\<lparr>ex_tasks := (ex_tasks s)[i := (ex_tasks s ! i)\<lparr>tk_phase := Executing, tk_started := True\<rparr>]\<rparr>)"

text \<open>The operation returned, failed or panicked: both permits are dropped with the closure.\<close>

definition end_closure :: "nat \<Rightarrow> executor \<Rightarrow> executor" where
  "end_closure i s = enter i (Ended Completed) (drop_both s)"

text \<open>The caller drops its future: before the hand-over its permits go with it, after it the closure goes on.\<close>

definition drop_caller :: "nat \<Rightarrow> executor \<Rightarrow> executor" where
  "drop_caller i s =
     (case phase_of s i of
        Called \<Rightarrow> enter i (Ended Abandoned) s
      | Waiting \<Rightarrow> enter i (Ended Abandoned) (drop_active s)
      | Granted \<Rightarrow> enter i (Ended Abandoned) (drop_both s)
      | _ \<Rightarrow> s\<lparr>ex_tasks := (ex_tasks s)[i := (ex_tasks s ! i)\<lparr>tk_listening := False\<rparr>]\<rparr>)"

definition cancel_task :: "nat \<Rightarrow> executor \<Rightarrow> executor" where
  "cancel_task i s = s\<lparr>ex_tasks := (ex_tasks s)[i := (ex_tasks s ! i)\<lparr>tk_cancelled := True\<rparr>]\<rparr>"

inductive exec_step :: "executor \<Rightarrow> executor \<Rightarrow> bool" where
  step_call: "exec_step s (s\<lparr>ex_tasks := ex_tasks s @ [new_task cancelled]\<rparr>)"
| step_cancel: "i < length (ex_tasks s) \<Longrightarrow> exec_step s (cancel_task i s)"
| step_drop: "i < length (ex_tasks s) \<Longrightarrow> exec_step s (drop_caller i s)"
| step_called: "i < length (ex_tasks s) \<Longrightarrow> phase_of s i = Called \<Longrightarrow> exec_step s (poll_called i s)"
| step_waiting: "i < length (ex_tasks s) \<Longrightarrow> phase_of s i = Waiting \<Longrightarrow> exec_step s (poll_waiting i elapsed s)"
| step_granted: "i < length (ex_tasks s) \<Longrightarrow> phase_of s i = Granted \<Longrightarrow> exec_step s (poll_granted i s)"
| step_begin: "i < length (ex_tasks s) \<Longrightarrow> phase_of s i = Spawned \<Longrightarrow> exec_step s (begin_closure i s)"
| step_end: "i < length (ex_tasks s) \<Longrightarrow> phase_of s i = Executing \<Longrightarrow> exec_step s (end_closure i s)"

inductive exec_reachable :: "nat \<Rightarrow> nat \<Rightarrow> executor \<Rightarrow> bool" for active_capacity execution_capacity where
  reach_new: "exec_reachable active_capacity execution_capacity (executor_new active_capacity execution_capacity)"
| reach_step: "exec_reachable active_capacity execution_capacity s \<Longrightarrow> exec_step s t \<Longrightarrow> exec_reachable active_capacity execution_capacity t"

section \<open>The invariant\<close>

fun holds_active :: "phase \<Rightarrow> bool" where
  "holds_active Called = False"
| "holds_active (Ended _) = False"
| "holds_active _ = True"

fun holds_execution :: "phase \<Rightarrow> bool" where
  "holds_execution Called = False"
| "holds_execution Waiting = False"
| "holds_execution (Ended _) = False"
| "holds_execution _ = True"

definition tally :: "(phase \<Rightarrow> bool) \<Rightarrow> task list \<Rightarrow> nat" where
  "tally P ts = length (filter (\<lambda>t. P (tk_phase t)) ts)"

definition task_ok :: "task \<Rightarrow> bool" where
  "task_ok t \<longleftrightarrow> (tk_started t \<longleftrightarrow> tk_phase t = Executing \<or> tk_phase t = Ended Completed)"

definition exec_inv :: "nat \<Rightarrow> nat \<Rightarrow> executor \<Rightarrow> bool" where
  "exec_inv A E s \<longleftrightarrow>
     ex_active s + tally holds_active (ex_tasks s) = A \<and> ex_execution s + tally holds_execution (ex_tasks s) = E \<and>
     ex_active_capacity s = A \<and> ex_execution_capacity s = E \<and> list_all task_ok (ex_tasks s)"

named_theorems exec_defs \<open>the parts of a call\<close>

declare enter_def [exec_defs] drop_active_def [exec_defs] drop_execution_def [exec_defs] drop_both_def [exec_defs]
  poll_called_def [exec_defs] poll_waiting_def [exec_defs] poll_granted_def [exec_defs] begin_closure_def [exec_defs]
  end_closure_def [exec_defs] drop_caller_def [exec_defs] cancel_task_def [exec_defs]

lemma tally_append [simp]: "tally P (xs @ ys) = tally P xs + tally P ys"
  by (simp add: tally_def)

lemma tally_Cons [simp]: "tally P (t # ts) = (if P (tk_phase t) then Suc (tally P ts) else tally P ts)" "tally P [] = 0"
  by (simp_all add: tally_def)

lemma tally_update:
  assumes "i < length ts"
  shows "tally P (ts[i := t]) + (if P (tk_phase (ts ! i)) then 1 else 0) = tally P ts + (if P (tk_phase t) then 1 else 0)"
proof -
  have "ts[i := t] = take i ts @ t # drop (Suc i) ts" using assms by (simp add: upd_conv_take_nth_drop)
  moreover have "tally P ts = tally P (take i ts) + tally P (ts ! i # drop (Suc i) ts)"
    using assms by (metis id_take_nth_drop tally_append)
  ultimately show ?thesis by simp
qed

text \<open>Replacing one task keeps the invariant when the free permits change by what the task gives back or takes.\<close>

lemma exec_inv_update:
  assumes "exec_inv A E s" "i < length (ex_tasks s)" "task_ok t"
    and "a + (if holds_active (tk_phase t) then 1 else 0) = ex_active s + (if holds_active (phase_of s i) then 1 else 0)"
    and "e + (if holds_execution (tk_phase t) then 1 else 0) = ex_execution s + (if holds_execution (phase_of s i) then 1 else 0)"
  shows "exec_inv A E (s\<lparr>ex_active := a, ex_execution := e, ex_tasks := (ex_tasks s)[i := t]\<rparr>)"
proof -
  have "list_all task_ok ((ex_tasks s)[i := t])"
    using assms(1,3) set_update_subset_insert [of "ex_tasks s" i t] by (auto simp: exec_inv_def list_all_iff)
  moreover have "a + tally holds_active ((ex_tasks s)[i := t]) = A" "e + tally holds_execution ((ex_tasks s)[i := t]) = E"
    using assms tally_update [OF assms(2), of holds_active t] tally_update [OF assms(2), of holds_execution t]
    unfolding exec_inv_def by linarith+
  ultimately show ?thesis using assms(1) by (simp add: exec_inv_def)
qed

lemma exec_inv_moved:
  assumes inv: "exec_inv A E s" and i: "i < length (ex_tasks s)" and ok: "task_ok (ex_tasks s ! i) \<Longrightarrow> task_ok (ex_tasks s' ! i)"
    and shape: "s' = s\<lparr>ex_active := ex_active s', ex_execution := ex_execution s', ex_tasks := (ex_tasks s)[i := ex_tasks s' ! i]\<rparr>"
    and "ex_active s' + (if holds_active (phase_of s' i) then 1 else 0) = ex_active s + (if holds_active (phase_of s i) then 1 else 0)"
    and "ex_execution s' + (if holds_execution (phase_of s' i) then 1 else 0) = ex_execution s + (if holds_execution (phase_of s i) then 1 else 0)"
  shows "exec_inv A E s'"
proof -
  have "task_ok (ex_tasks s ! i)" using inv i by (simp add: exec_inv_def list_all_length)
  from exec_inv_update [OF inv i ok [OF this] assms(5,6)] show ?thesis using shape by simp
qed

lemma exec_inv_step:
  assumes "exec_step s t" "exec_inv A E s" shows "exec_inv A E t"
  using assms
proof (induction rule: exec_step.induct)
  case (step_call s cancelled)
  then show ?case by (simp add: exec_inv_def new_task_def task_ok_def)
next
  case (step_cancel i s)
  show ?case by (rule exec_inv_moved [OF step_cancel(2,1)]) (use step_cancel in \<open>auto simp: exec_defs task_ok_def\<close>)
next
  case (step_drop i s)
  show ?case
    by (rule exec_inv_moved [OF step_drop(2,1)]; cases "phase_of s i") (use step_drop in \<open>auto simp: exec_defs task_ok_def\<close>)
next
  case (step_called i s)
  show ?case by (rule exec_inv_moved [OF step_called(3,1)]) (use step_called in \<open>auto simp: exec_defs task_ok_def\<close>)
next
  case (step_waiting i s elapsed)
  show ?case by (rule exec_inv_moved [OF step_waiting(3,1)]) (use step_waiting in \<open>auto simp: exec_defs task_ok_def\<close>)
next
  case (step_granted i s)
  show ?case by (rule exec_inv_moved [OF step_granted(3,1)]) (use step_granted in \<open>auto simp: exec_defs task_ok_def\<close>)
next
  case (step_begin i s)
  show ?case by (rule exec_inv_moved [OF step_begin(3,1)]) (use step_begin in \<open>auto simp: exec_defs task_ok_def\<close>)
next
  case (step_end i s)
  show ?case by (rule exec_inv_moved [OF step_end(3,1)]) (use step_end in \<open>auto simp: exec_defs task_ok_def\<close>)
qed

lemma exec_inv_reachable: "exec_reachable A E s \<Longrightarrow> exec_inv A E s"
proof (induction rule: exec_reachable.induct)
  case reach_new
  then show ?case by (simp add: exec_inv_def executor_new_def)
next
  case (reach_step s t)
  then show ?case using exec_inv_step by blast
qed

lemma tally_mono: "(\<And>p. P p \<Longrightarrow> Q p) \<Longrightarrow> tally P ts \<le> tally Q ts"
  by (induction ts) auto

lemma tally_none: "tally P ts = 0 \<longleftrightarrow> (\<forall>t \<in> set ts. \<not> P (tk_phase t))"
  by (auto simp: tally_def filter_empty_conv)

section \<open>What the executor promises\<close>

text \<open>C16: The executor keeps its two bounds and loses no permit.  In every state that calls, polls, timers,
  cancellations, dropped callers and finishing operations can reach, at most as many operations run as
  the execution capacity and at most as many calls are admitted as the active capacity, an operation
  whose caller is gone still counts; an operation was started only by a call that is running it or has
  completed, so a call that was rejected, timed out, abandoned in the queue or found cancelled never ran;
  and once every call has ended all permits are free again.\<close>

theorem executor_bounded:
  assumes "exec_reachable A E s"
  shows "length (filter (\<lambda>t. tk_phase t = Executing) (ex_tasks s)) \<le> E \<and>
    length (filter (\<lambda>t. holds_active (tk_phase t)) (ex_tasks s)) \<le> A \<and>
    (\<forall>t \<in> set (ex_tasks s). tk_started t \<longleftrightarrow> tk_phase t = Executing \<or> tk_phase t = Ended Completed) \<and>
    ((\<forall>t \<in> set (ex_tasks s). \<exists>r. tk_phase t = Ended r) \<longrightarrow> ex_active s = A \<and> ex_execution s = E)"
proof -
  have inv: "exec_inv A E s" using assms by (rule exec_inv_reachable)
  have "tally (\<lambda>p. p = Executing) (ex_tasks s) \<le> tally holds_execution (ex_tasks s)" by (rule tally_mono) simp
  moreover have "tally holds_active (ex_tasks s) = 0 \<and> tally holds_execution (ex_tasks s) = 0"
    if "\<forall>t \<in> set (ex_tasks s). \<exists>r. tk_phase t = Ended r"
    unfolding tally_none using that by (metis holds_active.simps(2) holds_execution.simps(3))
  ultimately show ?thesis using inv by (auto simp: exec_inv_def tally_def list_all_iff task_ok_def)
qed

text \<open>The executor never gets stuck.  In a reachable state where some call has not ended, one of the calls
  can go on without any timer, cancellation or new call: an unended call either holds an execution permit,
  so its next poll, its thread or the end of its operation is a step, or it can take the next one; a
  waiting call finds a permit free unless another call holds it.\<close>

theorem executor_progress:
  assumes "exec_reachable A E s" "0 < E" "i < length (ex_tasks s)" "\<forall>r. phase_of s i \<noteq> Ended r"
  shows "\<exists>j < length (ex_tasks s). case phase_of s j of
      Called \<Rightarrow> phase_of (poll_called j s) j \<noteq> Called
    | Waiting \<Rightarrow> phase_of (poll_waiting j False s) j \<noteq> Waiting
    | Granted \<Rightarrow> phase_of (poll_granted j s) j \<noteq> Granted
    | Spawned \<Rightarrow> phase_of (begin_closure j s) j \<noteq> Spawned
    | Executing \<Rightarrow> phase_of (end_closure j s) j \<noteq> Executing
    | Ended r \<Rightarrow> False"
proof (cases "phase_of s i = Waiting \<and> ex_execution s = 0")
  case True
  have "tally holds_execution (ex_tasks s) = E" using exec_inv_reachable [OF assms(1)] True by (simp add: exec_inv_def)
  then have "tally holds_execution (ex_tasks s) \<noteq> 0" using assms(2) by simp
  then obtain t where "t \<in> set (ex_tasks s)" "holds_execution (tk_phase t)" unfolding tally_none by blast
  then obtain j where j: "j < length (ex_tasks s)" "holds_execution (phase_of s j)" by (auto simp: in_set_conv_nth)
  show ?thesis
    by (rule exI [of _ j], cases "phase_of s j") (use j in \<open>auto simp: exec_defs\<close>)
next
  case False
  show ?thesis
    by (rule exI [of _ i], cases "phase_of s i") (use False assms(3,4) in \<open>auto simp: exec_defs\<close>)
qed

section \<open>Samples\<close>

definition sample_run :: executor where
  "sample_run = (let s = executor_new 2 1; s = s\<lparr>ex_tasks := [new_task False, new_task False]\<rparr> in
     poll_called 1 (begin_closure 0 (poll_granted 0 (poll_waiting 0 False (poll_called 0 s)))))"

lemma sample_run_reachable: "exec_reachable 2 1 sample_run"
proof -
  let ?n = "executor_new 2 1"
  let ?a = "?n\<lparr>ex_tasks := ex_tasks ?n @ [new_task False]\<rparr>"
  let ?b = "?a\<lparr>ex_tasks := ex_tasks ?a @ [new_task False]\<rparr>"
  let ?c = "poll_called 0 ?b" let ?d = "poll_waiting 0 False ?c" let ?e = "poll_granted 0 ?d" let ?f = "begin_closure 0 ?e"
  have "exec_reachable 2 1 ?a" by (rule reach_step [OF reach_new step_call])
  then have b: "exec_reachable 2 1 ?b" by (rule reach_step [OF _ step_call])
  have "exec_step ?b ?c" by (rule step_called) (simp_all add: executor_new_def new_task_def)
  moreover have "exec_step ?c ?d" by (rule step_waiting) (simp_all add: executor_new_def new_task_def exec_defs)
  moreover have "exec_step ?d ?e" by (rule step_granted) (simp_all add: executor_new_def new_task_def exec_defs)
  moreover have "exec_step ?e ?f" by (rule step_begin) (simp_all add: executor_new_def new_task_def exec_defs)
  moreover have "exec_step ?f (poll_called 1 ?f)" by (rule step_called) (simp_all add: executor_new_def new_task_def exec_defs)
  ultimately have "exec_reachable 2 1 (poll_called 1 ?f)" using b by (meson reach_step)
  then show ?thesis by (simp add: sample_run_def Let_def executor_new_def)
qed

lemma sample_run_phases: "map tk_phase (ex_tasks sample_run) = [Executing, Waiting]"
  by (simp add: sample_run_def executor_new_def new_task_def exec_defs Let_def)

theorem executor_bounded_witness: "length (filter (\<lambda>t. tk_phase t = Executing) (ex_tasks sample_run)) \<le> 1"
  using executor_bounded [OF sample_run_reachable] by blast

theorem executor_progress_witness: "\<exists>j < 2. phase_of sample_run j = Executing \<and> phase_of (end_closure j sample_run) j \<noteq> Executing"
proof -
  have len: "length (ex_tasks sample_run) = 2" using sample_run_phases by (metis One_nat_def Suc_1 length_map list.size(3) list.size(4) add.commute plus_1_eq_Suc)
  have phases: "phase_of sample_run 0 = Executing" "phase_of sample_run 1 = Waiting"
    using sample_run_phases len by (auto simp: list_eq_iff_nth_eq less_Suc_eq)
  have "phase_of (poll_waiting 1 False sample_run) 1 = Waiting"
    by (simp add: sample_run_def executor_new_def new_task_def exec_defs Let_def)
  then show ?thesis
    using executor_progress [OF sample_run_reachable, of 1] len phases by (auto simp: less_Suc_eq numeral_2_eq_2)
qed

end
