(* ===== verification/Reconciliation.thy ===== *)
theory Reconciliation
  imports Prelude "HOL-Library.Sublist"
begin

text \<open>
  The coordinator that shares one reconciliation of the index among concurrent requests
  (\<open>src/services/reconciliation.rs\<close>).  Requests that arrive before a wave starts its scan join it; those that
  arrive later wait for the next wave.  Every critical section of the state mutex is one operation here, and
  the system between them (task scheduling, the indexing permit, the operation lock, the scan itself,
  a poisoned mutex) is a step relation that leaves the answers of the environment open.  Cancellation tokens are
  shared between a wave and its task, so they live in a store.
\<close>

section \<open>State\<close>

text \<open>The variants of \<open>crate::Error\<close> the coordinator makes or matches; any other error is \<open>Other_Error\<close>.\<close>

datatype rec_error =
    Cancelled_Error
  | Retrieval_Overloaded
  | Index_Not_Ready
  | Mcp_Runtime_Stopped
  | State_Poisoned
  | Stopped_Unexpectedly
  | Reconciliation_Failed rec_error
  | Other_Error string

datatype wave_phase = Waiting_For_Operation | Running_Scan

record wave =
  wv_id :: nat
  wv_phase :: wave_phase
  wv_token :: nat
  wv_waiters :: "nat list"

datatype wave_outcome = Wave_Complete | Wave_Failed rec_error

datatype waiter_exit = Exit_Cancelled | Exit_Timed_Out

record rec_diagnostics =
  rd_requests :: nat
  rd_rejected :: nat
  rd_created :: nat
  rd_started :: nat
  rd_completed :: nat
  rd_failed :: nat
  rd_cancelled_before_start :: nat
  rd_coalesced :: nat
  rd_cancelled_waiters :: nat
  rd_timed_out :: nat
  rd_active_waves :: nat
  rd_peak_active :: nat
  rd_pending_waiters :: nat
  rd_peak_pending :: nat

text \<open>
  A spawned wave is a task: it waits for the indexing permit, then on the blocking pool for the operation lock,
  scans, and finishes the wave with a result.
\<close>

datatype task_phase = At_Admission | At_Operation | Scanning | Finishing "rec_error + unit" | Task_Over

record wave_task =
  wt_wave :: nat
  wt_token :: nat
  wt_phase :: task_phase

text \<open>
  \<open>co_tokens\<close> is the store of cancellation tokens, \<open>co_active\<close> this coordinator's share of the
  \<open>active_reconciliations\<close> counter, \<open>co_sent\<close> the messages sent through the oneshot channels, in order.
\<close>

record coordinator =
  co_next_wave :: nat
  co_next_waiter :: nat
  co_current :: "wave option"
  co_pending :: "wave option"
  co_diag :: rec_diagnostics
  co_poisoned :: bool
  co_tokens :: "bool list"
  co_active :: nat
  co_sent :: "(nat \<times> wave_outcome) list"
  co_tasks :: "wave_task list"

definition no_diagnostics :: rec_diagnostics where
  "no_diagnostics =
     \<lparr>rd_requests = 0, rd_rejected = 0, rd_created = 0, rd_started = 0, rd_completed = 0, rd_failed = 0,
      rd_cancelled_before_start = 0, rd_coalesced = 0, rd_cancelled_waiters = 0, rd_timed_out = 0,
      rd_active_waves = 0, rd_peak_active = 0, rd_pending_waiters = 0, rd_peak_pending = 0\<rparr>"

definition coordinator_new :: coordinator where
  "coordinator_new =
     \<lparr>co_next_wave = 1, co_next_waiter = 1, co_current = None, co_pending = None, co_diag = no_diagnostics,
      co_poisoned = False, co_tokens = [], co_active = 0, co_sent = [], co_tasks = []\<rparr>"

section \<open>Operations under the lock\<close>

definition count_up :: "nat \<Rightarrow> nat" where
  "count_up n = sat_add n 1"

definition waves_present :: "coordinator \<Rightarrow> nat" where
  "waves_present s = (if co_current s = None then 0 else 1) + (if co_pending s = None then 0 else 1)"

definition pending_length :: "coordinator \<Rightarrow> nat" where
  "pending_length s = (case co_pending s of None \<Rightarrow> 0 | Some w \<Rightarrow> length (wv_waiters w))"

definition update_waiter_high_water :: "coordinator \<Rightarrow> coordinator" where
  "update_waiter_high_water s = s\<lparr>co_diag := (co_diag s)\<lparr>rd_active_waves := waves_present s,
     rd_pending_waiters := pending_length s, rd_peak_pending := max (rd_peak_pending (co_diag s)) (pending_length s)\<rparr>\<rparr>"

text \<open>\<open>Vec::swap_remove\<close>: the last element takes the place of the removed one.\<close>

definition swap_remove :: "nat \<Rightarrow> 'a list \<Rightarrow> 'a list" where
  "swap_remove i xs = (if Suc i = length xs then butlast xs else (butlast xs)[i := last xs])"

definition remove_waiter :: "nat list \<Rightarrow> nat \<Rightarrow> nat list option" where
  "remove_waiter waiters w = map_option (\<lambda>i. swap_remove i waiters) (position (\<lambda>x. x = w) waiters)"

definition distribute_failure :: "nat list \<Rightarrow> rec_error \<Rightarrow> (nat \<times> wave_outcome) list" where
  "distribute_failure waiters e = map (\<lambda>w. (w, Wave_Failed e)) waiters"

definition token_cancelled :: "coordinator \<Rightarrow> nat \<Rightarrow> bool" where
  "token_cancelled s t \<longleftrightarrow> co_tokens s ! t"

definition new_wave :: "nat \<Rightarrow> coordinator \<Rightarrow> wave \<times> coordinator" where
  "new_wave waiter s =
     (let d = co_diag s; active = count_up (rd_active_waves d) in
      (\<lparr>wv_id = co_next_wave s, wv_phase = Waiting_For_Operation, wv_token = length (co_tokens s), wv_waiters = [waiter]\<rparr>,
       s\<lparr>co_next_wave := count_up (co_next_wave s),
         co_diag := d\<lparr>rd_created := count_up (rd_created d), rd_active_waves := active, rd_peak_active := max (rd_peak_active d) active\<rparr>,
         co_tokens := co_tokens s @ [False],
         co_active := co_active s + 1\<rparr>))"

definition spawn_wave :: "wave \<Rightarrow> coordinator \<Rightarrow> coordinator" where
  "spawn_wave w s = s\<lparr>co_tasks := co_tasks s @ [\<lparr>wt_wave = wv_id w, wt_token = wv_token w, wt_phase = At_Admission\<rparr>]\<rparr>"

definition count_coalesced :: "coordinator \<Rightarrow> coordinator" where
  "count_coalesced s = s\<lparr>co_diag := (co_diag s)\<lparr>rd_coalesced := count_up (rd_coalesced (co_diag s))\<rparr>\<rparr>"

text \<open>The result of \<open>enqueue\<close> is the new waiter; its receiver reads the messages of that waiter.\<close>

definition enqueue_waiter :: "coordinator \<Rightarrow> rec_error + nat \<times> coordinator" where
  "enqueue_waiter s0 =
     (if co_poisoned s0 then Inl State_Poisoned
      else
        let waiter = co_next_waiter s0; s = s0\<lparr>co_next_waiter := count_up waiter\<rparr> in
        (case co_current s of
           None \<Rightarrow>
             (let (w, s1) = new_wave waiter s in
              Inr (waiter, spawn_wave w (update_waiter_high_water (s1\<lparr>co_current := Some w\<rparr>))))
         | Some current \<Rightarrow>
             if wv_phase current = Waiting_For_Operation \<and> \<not> token_cancelled s (wv_token current)
             then Inr (waiter, update_waiter_high_water (count_coalesced
                    (s\<lparr>co_current := Some (current\<lparr>wv_waiters := wv_waiters current @ [waiter]\<rparr>)\<rparr>)))
             else
               (case co_pending s of
                  Some pending \<Rightarrow>
                    Inr (waiter, update_waiter_high_water (count_coalesced
                      (s\<lparr>co_pending := Some (pending\<lparr>wv_waiters := wv_waiters pending @ [waiter]\<rparr>)\<rparr>)))
                | None \<Rightarrow>
                    (let (w, s1) = new_wave waiter s in
                     Inr (waiter, update_waiter_high_water (s1\<lparr>co_pending := Some w\<rparr>))))))"

definition mark_running :: "nat \<Rightarrow> coordinator \<Rightarrow> rec_error + bool \<times> coordinator" where
  "mark_running wave s =
     (if co_poisoned s then Inl State_Poisoned
      else case co_current s of
        None \<Rightarrow> Inr (False, s)
      | Some current \<Rightarrow>
          if wv_id current \<noteq> wave \<or> wv_phase current \<noteq> Waiting_For_Operation \<or> wv_waiters current = [] \<or>
             token_cancelled s (wv_token current)
          then Inr (False, s)
          else Inr (True, s\<lparr>co_current := Some (current\<lparr>wv_phase := Running_Scan\<rparr>),
                            co_diag := (co_diag s)\<lparr>rd_started := count_up (rd_started (co_diag s))\<rparr>\<rparr>))"

text \<open>The three ways a wave ends, by its result; the wave itself is dropped.\<close>

definition settle_wave :: "wave \<Rightarrow> rec_error + unit \<Rightarrow> coordinator \<Rightarrow> coordinator" where
  "settle_wave current result s =
     (let d = co_diag s; s = s\<lparr>co_active := co_active s - 1\<rparr> in
      case result of
        Inr _ \<Rightarrow> s\<lparr>co_diag := d\<lparr>rd_completed := count_up (rd_completed d)\<rparr>,
                    co_sent := co_sent s @ map (\<lambda>w. (w, Wave_Complete)) (wv_waiters current)\<rparr>
      | Inl e \<Rightarrow>
          if e = Cancelled_Error \<and> wv_waiters current = []
          then s\<lparr>co_diag := d\<lparr>rd_cancelled_before_start := count_up (rd_cancelled_before_start d)\<rparr>\<rparr>
          else s\<lparr>co_diag := d\<lparr>rd_failed := count_up (rd_failed d)\<rparr>,
                 co_sent := co_sent s @ distribute_failure (wv_waiters current) e\<rparr>)"

text \<open>The pending wave becomes the current one, unless nobody waits for it any more.\<close>

definition promote_pending :: "coordinator \<Rightarrow> coordinator" where
  "promote_pending s =
     (case co_pending s of
        None \<Rightarrow> update_waiter_high_water s
      | Some pending \<Rightarrow>
          let d = co_diag s; s = s\<lparr>co_pending := None\<rparr> in
          if wv_waiters pending = []
          then update_waiter_high_water (s\<lparr>co_active := co_active s - 1,
                 co_diag := d\<lparr>rd_cancelled_before_start := count_up (rd_cancelled_before_start d)\<rparr>\<rparr>)
          else spawn_wave pending (update_waiter_high_water (s\<lparr>co_current := Some pending\<rparr>)))"

definition waiters_of :: "wave option \<Rightarrow> nat list" where
  "waiters_of w = (case w of None \<Rightarrow> [] | Some w \<Rightarrow> wv_waiters w)"

definition finish_wave :: "nat \<Rightarrow> rec_error + unit \<Rightarrow> coordinator \<Rightarrow> coordinator" where
  "finish_wave wave result s =
     (if co_poisoned s
      then s\<lparr>co_current := None, co_pending := None, co_active := co_active s - waves_present s,
             co_diag := (co_diag s)\<lparr>rd_active_waves := 0, rd_pending_waiters := 0, rd_failed := count_up (rd_failed (co_diag s))\<rparr>,
             co_sent := co_sent s @ distribute_failure (waiters_of (co_current s) @ waiters_of (co_pending s)) State_Poisoned\<rparr>
      else case co_current s of
        None \<Rightarrow> s
      | Some current \<Rightarrow>
          if wv_id current \<noteq> wave then s
          else promote_pending (settle_wave current result (s\<lparr>co_current := None\<rparr>)))"

definition count_exit :: "waiter_exit \<Rightarrow> coordinator \<Rightarrow> coordinator" where
  "count_exit reason s = s\<lparr>co_diag := (case reason of
       Exit_Cancelled \<Rightarrow> (co_diag s)\<lparr>rd_cancelled_waiters := count_up (rd_cancelled_waiters (co_diag s))\<rparr>
     | Exit_Timed_Out \<Rightarrow> (co_diag s)\<lparr>rd_timed_out := count_up (rd_timed_out (co_diag s))\<rparr>)\<rparr>"

definition exit_pending :: "nat \<Rightarrow> coordinator \<Rightarrow> coordinator" where
  "exit_pending waiter s =
     (case co_pending s of
        None \<Rightarrow> s
      | Some pending \<Rightarrow>
          (case remove_waiter (wv_waiters pending) waiter of
             None \<Rightarrow> s
           | Some rest \<Rightarrow>
               if rest = []
               then s\<lparr>co_pending := None, co_active := co_active s - 1,
                      co_diag := (co_diag s)\<lparr>rd_cancelled_before_start := count_up (rd_cancelled_before_start (co_diag s))\<rparr>\<rparr>
               else s\<lparr>co_pending := Some (pending\<lparr>wv_waiters := rest\<rparr>)\<rparr>))"

definition exit_current :: "nat \<Rightarrow> coordinator \<Rightarrow> coordinator option" where
  "exit_current waiter s =
     (case co_current s of
        None \<Rightarrow> None
      | Some current \<Rightarrow>
          (case remove_waiter (wv_waiters current) waiter of
             None \<Rightarrow> None
           | Some rest \<Rightarrow>
               let s' = s\<lparr>co_current := Some (current\<lparr>wv_waiters := rest\<rparr>)\<rparr> in
               Some (if rest = [] \<and> wv_phase current = Waiting_For_Operation
                     then s'\<lparr>co_tokens := (co_tokens s)[wv_token current := True]\<rparr> else s')))"

definition exit_waiter :: "nat \<Rightarrow> waiter_exit \<Rightarrow> coordinator \<Rightarrow> rec_error + coordinator" where
  "exit_waiter waiter reason s0 =
     (if co_poisoned s0 then Inl State_Poisoned
      else let s = count_exit reason s0 in
        (case exit_current waiter s of
           Some s' \<Rightarrow> Inr (update_waiter_high_water s')
         | None \<Rightarrow> Inr (update_waiter_high_water (exit_pending waiter s))))"

section \<open>A request\<close>

text \<open>\<open>reconcile\<close> up to its wait: the counter, the permit of \<open>active_requests\<close>, an early cancellation.  The code takes
  the lock of the state once for the counter and once more for the refusal or the queueing, and spawns the
  task of a new wave after it has released the lock; here this is one step.  The counters of requests,
  refusals and early cancellations are read by no other step, so only when they become visible differs.  A
  request that is merged this way counts as made when it is queued, which is the later of the two points.\<close>

definition begin_request :: "bool \<Rightarrow> bool \<Rightarrow> coordinator \<Rightarrow> (rec_error + nat) \<times> coordinator" where
  "begin_request permit cancelled s0 =
     (if co_poisoned s0 then (Inl State_Poisoned, s0)
      else let s = s0\<lparr>co_diag := (co_diag s0)\<lparr>rd_requests := count_up (rd_requests (co_diag s0))\<rparr>\<rparr> in
        if \<not> permit
        then (Inl Retrieval_Overloaded, s\<lparr>co_diag := (co_diag s)\<lparr>rd_rejected := count_up (rd_rejected (co_diag s))\<rparr>\<rparr>)
        else if cancelled
        then (Inl Cancelled_Error, s\<lparr>co_diag := (co_diag s)\<lparr>rd_cancelled_waiters := count_up (rd_cancelled_waiters (co_diag s))\<rparr>\<rparr>)
        else case enqueue_waiter s of Inl e \<Rightarrow> (Inl e, s) | Inr (waiter, s') \<Rightarrow> (Inr waiter, s'))"

text \<open>What the receiver holds: the message sent to the waiter, nothing yet, or the news that its sender is gone.\<close>

definition sender_alive :: "nat \<Rightarrow> coordinator \<Rightarrow> bool" where
  "sender_alive waiter s \<longleftrightarrow> waiter \<in> set (waiters_of (co_current s)) \<union> set (waiters_of (co_pending s))"

definition received :: "nat \<Rightarrow> coordinator \<Rightarrow> wave_outcome option option" where
  "received waiter s =
     (case map_of (co_sent s) waiter of
        Some outcome \<Rightarrow> Some (Some outcome)
      | None \<Rightarrow> if sender_alive waiter s then None else Some None)"

definition answer_result :: "wave_outcome option \<Rightarrow> rec_error + unit" where
  "answer_result outcome =
     (case outcome of
        Some Wave_Complete \<Rightarrow> Inr ()
      | Some (Wave_Failed e) \<Rightarrow> Inl (Reconciliation_Failed e)
      | None \<Rightarrow> Inl Stopped_Unexpectedly)"

definition leave_with :: "nat \<Rightarrow> waiter_exit \<Rightarrow> rec_error \<Rightarrow> coordinator \<Rightarrow> (rec_error + unit) \<times> coordinator" where
  "leave_with waiter reason e s = (case exit_waiter waiter reason s of Inl e' \<Rightarrow> (Inl e', s) | Inr s' \<Rightarrow> (Inl e, s'))"

text \<open>One poll of the biased select: cancellation, then the answer, then the deadline.\<close>

definition poll_request :: "nat \<Rightarrow> bool \<Rightarrow> bool \<Rightarrow> coordinator \<Rightarrow> (rec_error + unit) option \<times> coordinator" where
  "poll_request waiter cancelled elapsed s =
     (if cancelled then apfst Some (leave_with waiter Exit_Cancelled Cancelled_Error s)
      else case received waiter s of
        Some outcome \<Rightarrow> (Some (answer_result outcome), s)
      | None \<Rightarrow> if elapsed then apfst Some (leave_with waiter Exit_Timed_Out Index_Not_Ready s) else (None, s))"

text \<open>The caller drops the future: the guard leaves for it and ignores an error.\<close>

definition drop_request :: "nat \<Rightarrow> coordinator \<Rightarrow> coordinator" where
  "drop_request waiter s = (case exit_waiter waiter Exit_Cancelled s of Inl _ \<Rightarrow> s | Inr s' \<Rightarrow> s')"

section \<open>The task of a wave\<close>

definition task_at :: "coordinator \<Rightarrow> nat \<Rightarrow> wave_task" where
  "task_at s i = co_tasks s ! i"

definition set_phase :: "nat \<Rightarrow> task_phase \<Rightarrow> coordinator \<Rightarrow> coordinator" where
  "set_phase i p s = s\<lparr>co_tasks := (co_tasks s)[i := (co_tasks s ! i)\<lparr>wt_phase := p\<rparr>]\<rparr>"

text \<open>The select on the permit is biased to the cancellation; \<open>opened\<close> is false when the semaphore was closed.\<close>

definition poll_admission :: "nat \<Rightarrow> bool \<Rightarrow> coordinator \<Rightarrow> coordinator" where
  "poll_admission i opened s =
     (if token_cancelled s (wt_token (task_at s i)) then set_phase i (Finishing (Inl Cancelled_Error)) s
      else if opened then set_phase i At_Operation s
      else set_phase i (Finishing (Inl Mcp_Runtime_Stopped)) s)"

text \<open>\<open>acquired\<close> is the answer of \<open>acquire_operation\<close>, \<open>released\<close> that of \<open>release\<close> when the wave may not run.\<close>

definition begin_operation :: "nat \<Rightarrow> rec_error + unit \<Rightarrow> rec_error + unit \<Rightarrow> coordinator \<Rightarrow> coordinator" where
  "begin_operation i acquired released s =
     (case acquired of
        Inl e \<Rightarrow> set_phase i (Finishing (Inl e)) s
      | Inr _ \<Rightarrow>
          (case mark_running (wt_wave (task_at s i)) s of
             Inl e \<Rightarrow> set_phase i (Finishing (Inl e)) s
           | Inr (True, s') \<Rightarrow> set_phase i Scanning s'
           | Inr (False, s') \<Rightarrow>
               set_phase i (Finishing (Inl (case released of Inl e \<Rightarrow> e | Inr _ \<Rightarrow> Cancelled_Error))) s'))"

definition end_scan :: "nat \<Rightarrow> rec_error + unit \<Rightarrow> rec_error + unit \<Rightarrow> coordinator \<Rightarrow> coordinator" where
  "end_scan i scanned released s = set_phase i (Finishing (case released of Inl e \<Rightarrow> Inl e | Inr _ \<Rightarrow> scanned)) s"

definition end_task :: "nat \<Rightarrow> rec_error + unit \<Rightarrow> coordinator \<Rightarrow> coordinator" where
  "end_task i result s = finish_wave (wt_wave (task_at s i)) result (set_phase i Task_Over s)"

section \<open>The system\<close>

text \<open>The log records what the answers are measured against.\<close>

datatype rec_event =
    Request_Made nat
  | Request_Left nat
  | Scan_Begins nat
  | Scan_Ends nat "rec_error + unit"
  | Answered nat nat wave_outcome

record rec_system =
  sy_state :: coordinator
  sy_log :: "rec_event list"

definition logged :: "rec_event list \<Rightarrow> coordinator \<Rightarrow> rec_system \<Rightarrow> rec_system" where
  "logged es s y = \<lparr>sy_state = s, sy_log = sy_log y @ es\<rparr>"

definition answers_since :: "nat \<Rightarrow> coordinator \<Rightarrow> coordinator \<Rightarrow> rec_event list" where
  "answers_since wave s s' = map (\<lambda>(w, outcome). Answered wave w outcome) (drop (length (co_sent s)) (co_sent s'))"

definition request_step :: "bool \<Rightarrow> bool \<Rightarrow> rec_system \<Rightarrow> rec_system" where
  "request_step permit cancelled y =
     (case begin_request permit cancelled (sy_state y) of
        (Inl e, s) \<Rightarrow> logged [] s y
      | (Inr waiter, s) \<Rightarrow> logged [Request_Made waiter] s y)"

definition leave_step :: "nat \<Rightarrow> waiter_exit \<Rightarrow> rec_system \<Rightarrow> rec_system" where
  "leave_step waiter reason y =
     (case exit_waiter waiter reason (sy_state y) of Inl e \<Rightarrow> y | Inr s \<Rightarrow> logged [Request_Left waiter] s y)"

definition operation_step :: "nat \<Rightarrow> rec_error + unit \<Rightarrow> rec_error + unit \<Rightarrow> rec_system \<Rightarrow> rec_system" where
  "operation_step i acquired released y =
     (let s = begin_operation i acquired released (sy_state y); t = task_at s i in
      logged (if wt_phase t = Scanning then [Scan_Begins (wt_wave t)] else []) s y)"

definition scanned_step :: "nat \<Rightarrow> rec_error + unit \<Rightarrow> rec_error + unit \<Rightarrow> rec_system \<Rightarrow> rec_system" where
  "scanned_step i scanned released y =
     logged [Scan_Ends (wt_wave (task_at (sy_state y) i)) scanned] (end_scan i scanned released (sy_state y)) y"

definition finish_step :: "nat \<Rightarrow> rec_error + unit \<Rightarrow> rec_system \<Rightarrow> rec_system" where
  "finish_step i result y =
     (let s = sy_state y; s' = end_task i result s in logged (answers_since (wt_wave (task_at s i)) s s') s' y)"

abbreviation task_phase_of :: "rec_system \<Rightarrow> nat \<Rightarrow> task_phase" where
  "task_phase_of y i \<equiv> wt_phase (task_at (sy_state y) i)"

abbreviation task_count :: "rec_system \<Rightarrow> nat" where
  "task_count y \<equiv> length (co_tasks (sy_state y))"

text \<open>
  The steps: a request arrives, a request leaves (cancelled, timed out or dropped), a task gets on, panics or
  finishes, a panic poisons the mutex.
\<close>

inductive rec_step :: "rec_system \<Rightarrow> rec_system \<Rightarrow> bool" where
  rec_request: "rec_step y (request_step permit cancelled y)"
| rec_leave: "w < co_next_waiter (sy_state y) \<Longrightarrow> rec_step y (leave_step w reason y)"
| rec_admission: "i < task_count y \<Longrightarrow> task_phase_of y i = At_Admission \<Longrightarrow>
    rec_step y (logged [] (poll_admission i opened (sy_state y)) y)"
| rec_operation: "i < task_count y \<Longrightarrow> task_phase_of y i = At_Operation \<Longrightarrow> rec_step y (operation_step i acquired released y)"
| rec_scanned: "i < task_count y \<Longrightarrow> task_phase_of y i = Scanning \<Longrightarrow> rec_step y (scanned_step i scanned released y)"
| rec_panic: "i < task_count y \<Longrightarrow> task_phase_of y i = At_Operation \<or> task_phase_of y i = Scanning \<Longrightarrow>
    rec_step y (logged [] (set_phase i (Finishing (Inl e)) (sy_state y)) y)"
| rec_finish: "i < task_count y \<Longrightarrow> task_phase_of y i = Finishing result \<Longrightarrow> rec_step y (finish_step i result y)"
| rec_poison: "rec_step y (logged [] ((sy_state y)\<lparr>co_poisoned := True\<rparr>) y)"

definition rec_start :: rec_system where
  "rec_start = \<lparr>sy_state = coordinator_new, sy_log = []\<rparr>"

inductive rec_reachable :: "rec_system \<Rightarrow> bool" where
  rec_init: "rec_reachable rec_start"
| rec_next: "rec_reachable y \<Longrightarrow> rec_step y z \<Longrightarrow> rec_reachable z"

section \<open>The invariant of the state\<close>

definition wave_fits :: "coordinator \<Rightarrow> wave \<Rightarrow> bool" where
  "wave_fits s c \<longleftrightarrow> wv_id c < co_next_wave s \<and> wv_token c < length (co_tokens s) \<and>
     (token_cancelled s (wv_token c) \<longleftrightarrow> wv_phase c = Waiting_For_Operation \<and> wv_waiters c = [])"

definition apart :: "wave \<Rightarrow> wave \<Rightarrow> bool" where
  "apart c p \<longleftrightarrow> wv_id p \<noteq> wv_id c \<and> wv_token p \<noteq> wv_token c \<and> wv_phase p = Waiting_For_Operation \<and> wv_waiters p \<noteq> []"

definition waves_ok :: "coordinator \<Rightarrow> bool" where
  "waves_ok s \<longleftrightarrow> co_next_wave s \<le> co_next_waiter s \<and>
     (case co_current s of None \<Rightarrow> co_pending s = None
      | Some c \<Rightarrow> wave_fits s c \<and> (case co_pending s of None \<Rightarrow> True | Some p \<Rightarrow> wave_fits s p \<and> apart c p))"

fun task_fits :: "wave \<Rightarrow> wave_task \<Rightarrow> bool" where
  "task_fits c t \<longleftrightarrow> wt_wave t = wv_id c \<and> wt_token t = wv_token c \<and>
     (case wt_phase t of
        At_Admission \<Rightarrow> wv_phase c = Waiting_For_Operation
      | At_Operation \<Rightarrow> wv_phase c = Waiting_For_Operation
      | Scanning \<Rightarrow> wv_phase c = Running_Scan
      | Finishing result \<Rightarrow> (result = Inr () \<longrightarrow> wv_phase c = Running_Scan)
      | Task_Over \<Rightarrow> False)"

definition live_tasks :: "coordinator \<Rightarrow> wave_task list" where
  "live_tasks s = filter (\<lambda>t. wt_phase t \<noteq> Task_Over) (co_tasks s)"

definition tasks_ok :: "coordinator \<Rightarrow> bool" where
  "tasks_ok s \<longleftrightarrow>
     (case co_current s of None \<Rightarrow> live_tasks s = [] | Some c \<Rightarrow> \<exists>t. live_tasks s = [t] \<and> task_fits c t)"

definition waiting :: "coordinator \<Rightarrow> nat list" where
  "waiting s = waiters_of (co_current s) @ waiters_of (co_pending s)"

definition ids_ok :: "coordinator \<Rightarrow> bool" where
  "ids_ok s \<longleftrightarrow> distinct (waiting s @ map fst (co_sent s)) \<and>
     0 < co_next_waiter s \<and> (\<forall>w \<in> set (waiting s @ map fst (co_sent s)). 0 < w \<and> w < co_next_waiter s)"

definition gauges_ok :: "coordinator \<Rightarrow> bool" where
  "gauges_ok s \<longleftrightarrow> co_active s = waves_present s \<and> rd_active_waves (co_diag s) = waves_present s \<and>
     rd_pending_waiters (co_diag s) = pending_length s"

definition state_ok :: "coordinator \<Rightarrow> bool" where
  "state_ok s \<longleftrightarrow> waves_ok s \<and> tasks_ok s \<and> ids_ok s \<and> gauges_ok s"

named_theorems rec_defs \<open>the operations of the coordinator\<close>

declare update_waiter_high_water_def [rec_defs] new_wave_def [rec_defs] spawn_wave_def [rec_defs]
  count_coalesced_def [rec_defs] enqueue_waiter_def [rec_defs] mark_running_def [rec_defs] settle_wave_def [rec_defs]
  promote_pending_def [rec_defs] finish_wave_def [rec_defs] count_exit_def [rec_defs] exit_pending_def [rec_defs]
  exit_current_def [rec_defs] exit_waiter_def [rec_defs] begin_request_def [rec_defs] set_phase_def [rec_defs]
  poll_admission_def [rec_defs] begin_operation_def [rec_defs] end_scan_def [rec_defs] end_task_def [rec_defs]
  distribute_failure_def [rec_defs]

named_theorems rec_inv \<open>the parts of the invariant of the state\<close>

declare waves_ok_def [rec_inv] wave_fits_def [rec_inv] apart_def [rec_inv] tasks_ok_def [rec_inv] ids_ok_def [rec_inv]
  gauges_ok_def [rec_inv] waiting_def [rec_inv] waiters_of_def [rec_inv] token_cancelled_def [rec_inv]
  waves_present_def [rec_inv] pending_length_def [rec_inv] live_tasks_def [rec_inv]

lemma count_up_exact: "n < usize_max \<Longrightarrow> count_up n = Suc n"
  by (simp add: count_up_def usize_simps)

lemma count_up_ge: "n \<le> usize_max \<Longrightarrow> n \<le> count_up n"
  by (simp add: count_up_def usize_simps)

lemma mset_swap_remove:
  assumes "i < length xs" shows "mset (swap_remove i xs) = mset xs - {#xs ! i#}"
proof -
  obtain ys y where xs: "xs = ys @ [y]" using assms by (metis append_butlast_last_id list.size(3) not_less_zero)
  show ?thesis
  proof (cases "i < length ys")
    case True
    then have "mset (ys[i := y]) = mset ys - {#ys ! i#} + {#y#}" by (simp add: mset_update)
    then show ?thesis using True by (simp add: xs swap_remove_def nth_append)
  qed (use assms in \<open>auto simp: xs swap_remove_def less_Suc_eq\<close>)
qed

lemma remove_waiter_Some:
  "remove_waiter ws w = Some rest \<Longrightarrow> mset ws = add_mset w (mset rest)"
  by (auto simp: remove_waiter_def mset_swap_remove dest!: position_Some)

lemma remove_waiter_facts:
  assumes "remove_waiter ws w = Some rest"
  shows "set ws = insert w (set rest)" "distinct ws \<Longrightarrow> distinct rest \<and> w \<notin> set rest" "length ws = Suc (length rest)"
  using remove_waiter_Some [OF assms]
  by (metis set_mset_mset set_mset_add_mset_insert,
      metis distinct.simps(2) mset.simps(2) mset_eq_imp_distinct_iff,
      metis size_add_mset size_mset)

lemma remove_waiter_sets:
  "remove_waiter ws w = Some rest \<Longrightarrow> set ws = insert w (set rest) \<and> (distinct ws \<longrightarrow> distinct rest \<and> w \<notin> set rest)"
  using remove_waiter_facts by metis

lemma remove_waiter_None: "remove_waiter ws w = None \<longleftrightarrow> w \<notin> set ws"
  by (auto simp: remove_waiter_def position_None)

text \<open>The operations by the fields they change.\<close>

definition gauges_fresh :: "coordinator \<Rightarrow> bool" where
  "gauges_fresh s \<longleftrightarrow> rd_active_waves (co_diag s) = waves_present s \<and> rd_pending_waiters (co_diag s) = pending_length s"

lemma high_water_fields [simp]:
  "co_next_wave (update_waiter_high_water s) = co_next_wave s" "co_next_waiter (update_waiter_high_water s) = co_next_waiter s"
  "co_current (update_waiter_high_water s) = co_current s" "co_pending (update_waiter_high_water s) = co_pending s"
  "co_poisoned (update_waiter_high_water s) = co_poisoned s" "co_tokens (update_waiter_high_water s) = co_tokens s"
  "co_active (update_waiter_high_water s) = co_active s" "co_sent (update_waiter_high_water s) = co_sent s"
  "co_tasks (update_waiter_high_water s) = co_tasks s" "gauges_fresh (update_waiter_high_water s)"
  by (simp_all add: update_waiter_high_water_def gauges_fresh_def waves_present_def pending_length_def)

lemma gauges_fresh_tasks [simp]: "gauges_fresh (s\<lparr>co_tasks := ts\<rparr>) = gauges_fresh s"
  by (simp add: gauges_fresh_def waves_present_def pending_length_def)

definition wave_for :: "coordinator \<Rightarrow> wave" where
  "wave_for s = \<lparr>wv_id = co_next_wave s, wv_phase = Waiting_For_Operation, wv_token = length (co_tokens s),
     wv_waiters = [co_next_waiter s]\<rparr>"

lemma enqueue_cases:
  assumes "enqueue_waiter s = Inr (w, s')"
  obtains
    (common) "w = co_next_waiter s" "\<not> co_poisoned s" "co_poisoned s' = co_poisoned s" "co_next_waiter s' = count_up w"
      "co_sent s' = co_sent s" "gauges_fresh s'"
      "co_current s = None \<and> co_current s' = Some (wave_for s) \<and> co_pending s' = co_pending s \<and>
         co_next_wave s' = count_up (co_next_wave s) \<and> co_tokens s' = co_tokens s @ [False] \<and> co_active s' = co_active s + 1 \<and>
         co_tasks s' = co_tasks s @ [\<lparr>wt_wave = co_next_wave s, wt_token = length (co_tokens s), wt_phase = At_Admission\<rparr>] \<or>
       (\<exists>c. co_current s = Some c \<and> co_tasks s' = co_tasks s \<and>
         (wv_phase c = Waiting_For_Operation \<and> \<not> token_cancelled s (wv_token c) \<and>
            co_current s' = Some (c\<lparr>wv_waiters := wv_waiters c @ [w]\<rparr>) \<and> co_pending s' = co_pending s \<and>
            co_next_wave s' = co_next_wave s \<and> co_tokens s' = co_tokens s \<and> co_active s' = co_active s \<or>
          \<not> (wv_phase c = Waiting_For_Operation \<and> \<not> token_cancelled s (wv_token c)) \<and> co_current s' = Some c \<and>
            ((\<exists>p. co_pending s = Some p \<and> co_pending s' = Some (p\<lparr>wv_waiters := wv_waiters p @ [w]\<rparr>) \<and>
               co_next_wave s' = co_next_wave s \<and> co_tokens s' = co_tokens s \<and> co_active s' = co_active s) \<or>
             co_pending s = None \<and> co_pending s' = Some (wave_for s) \<and> co_next_wave s' = count_up (co_next_wave s) \<and>
               co_tokens s' = co_tokens s @ [False] \<and> co_active s' = co_active s + 1)))"
proof (cases "co_poisoned s")
  case True
  then show ?thesis using assms by (simp add: enqueue_waiter_def)
next
  case False
  show ?thesis
  proof (cases "co_current s")
    case None
    then show ?thesis using assms False
      by (intro that) (auto simp: enqueue_waiter_def new_wave_def spawn_wave_def wave_for_def Let_def)
  next
    case (Some c)
    show ?thesis
    proof (cases "wv_phase c = Waiting_For_Operation \<and> \<not> token_cancelled s (wv_token c)")
      case True
      then show ?thesis using assms False Some
        by (intro that) (auto simp: enqueue_waiter_def count_coalesced_def token_cancelled_def Let_def)
    next
      case joined: False
      show ?thesis
        by (cases "co_pending s"; rule that)
          (use assms False Some joined in \<open>auto simp: enqueue_waiter_def count_coalesced_def new_wave_def wave_for_def token_cancelled_def Let_def\<close>)
    qed
  qed
qed

lemma exit_cases:
  assumes "exit_waiter w reason s = Inr s'"
  obtains
    (common) "\<not> co_poisoned s" "co_poisoned s' = co_poisoned s" "co_next_wave s' = co_next_wave s"
      "co_next_waiter s' = co_next_waiter s" "co_sent s' = co_sent s" "co_tasks s' = co_tasks s" "gauges_fresh s'"
      "(\<exists>c rest. co_current s = Some c \<and> remove_waiter (wv_waiters c) w = Some rest \<and>
          co_current s' = Some (c\<lparr>wv_waiters := rest\<rparr>) \<and> co_pending s' = co_pending s \<and> co_active s' = co_active s \<and>
          co_tokens s' = (if rest = [] \<and> wv_phase c = Waiting_For_Operation then (co_tokens s)[wv_token c := True] else co_tokens s)) \<or>
       w \<notin> set (waiters_of (co_current s)) \<and> co_current s' = co_current s \<and> co_tokens s' = co_tokens s \<and>
         ((\<exists>p rest. co_pending s = Some p \<and> remove_waiter (wv_waiters p) w = Some rest \<and>
            (rest = [] \<and> co_pending s' = None \<and> co_active s' = co_active s - 1 \<or>
             rest \<noteq> [] \<and> co_pending s' = Some (p\<lparr>wv_waiters := rest\<rparr>) \<and> co_active s' = co_active s)) \<or>
          w \<notin> set (waiters_of (co_pending s)) \<and> co_pending s' = co_pending s \<and> co_active s' = co_active s)"
proof (cases "co_poisoned s")
  case True
  then show ?thesis using assms by (simp add: exit_waiter_def)
next
  case False
  let ?s = "count_exit reason s"
  have same: "co_current ?s = co_current s" "co_pending ?s = co_pending s" "co_tokens ?s = co_tokens s" "co_active ?s = co_active s"
    "co_next_wave ?s = co_next_wave s" "co_next_waiter ?s = co_next_waiter s" "co_sent ?s = co_sent s" "co_tasks ?s = co_tasks s"
    "co_poisoned ?s = co_poisoned s"
    by (simp_all add: count_exit_def)
  show ?thesis
  proof (cases "exit_current w ?s")
    case (Some t)
    then have s': "s' = update_waiter_high_water t" using assms False by (simp add: exit_waiter_def)
    from Some obtain c rest where c: "co_current s = Some c" "remove_waiter (wv_waiters c) w = Some rest"
      by (auto simp: exit_current_def same split: option.splits)
    show ?thesis
      by (rule that) (use Some c False same in \<open>auto simp: s' exit_current_def Let_def split: if_splits\<close>)
  next
    case None
    then have s': "s' = update_waiter_high_water (exit_pending w ?s)" using assms False by (simp add: exit_waiter_def)
    have notin: "w \<notin> set (waiters_of (co_current s))"
      using None by (auto simp: exit_current_def same waiters_of_def Let_def remove_waiter_None split: option.splits)
    show ?thesis
    proof (cases "co_pending s")
      case None
      show ?thesis by (rule that) (use None False same notin in \<open>auto simp: s' exit_pending_def waiters_of_def\<close>)
    next
      case (Some p)
      show ?thesis
      proof (cases "remove_waiter (wv_waiters p) w")
        case None
        then have "w \<notin> set (wv_waiters p)" by (simp add: remove_waiter_None)
        then show ?thesis
          by (intro that) (use None Some False same notin in \<open>auto simp: s' exit_pending_def waiters_of_def\<close>)
      next
        case (Some rest)
        show ?thesis
          by (rule that; cases "rest = []")
            (use \<open>co_pending s = Some p\<close> Some False same notin in \<open>simp_all add: s' exit_pending_def\<close>)
      qed
    qed
  qed
qed

definition outcome_of :: "rec_error + unit \<Rightarrow> wave_outcome" where
  "outcome_of result = (case result of Inl e \<Rightarrow> Wave_Failed e | Inr _ \<Rightarrow> Wave_Complete)"

lemma settle_fields [simp]:
  "co_next_wave (settle_wave c r s) = co_next_wave s" "co_next_waiter (settle_wave c r s) = co_next_waiter s"
  "co_current (settle_wave c r s) = co_current s" "co_pending (settle_wave c r s) = co_pending s"
  "co_poisoned (settle_wave c r s) = co_poisoned s" "co_tokens (settle_wave c r s) = co_tokens s"
  "co_active (settle_wave c r s) = co_active s - 1" "co_tasks (settle_wave c r s) = co_tasks s"
  "co_sent (settle_wave c r s) = co_sent s @ map (\<lambda>w. (w, outcome_of r)) (wv_waiters c)"
  by (auto simp: settle_wave_def Let_def distribute_failure_def outcome_of_def split: sum.splits)

lemma promote_cases:
  obtains
    (common) "co_next_wave (promote_pending s) = co_next_wave s" "co_next_waiter (promote_pending s) = co_next_waiter s"
      "co_poisoned (promote_pending s) = co_poisoned s" "co_tokens (promote_pending s) = co_tokens s"
      "co_sent (promote_pending s) = co_sent s" "co_pending (promote_pending s) = None" "gauges_fresh (promote_pending s)"
      "(case co_pending s of
          None \<Rightarrow> co_current (promote_pending s) = co_current s \<and> co_active (promote_pending s) = co_active s \<and>
            co_tasks (promote_pending s) = co_tasks s
        | Some p \<Rightarrow> wv_waiters p = [] \<and> co_current (promote_pending s) = co_current s \<and>
              co_active (promote_pending s) = co_active s - 1 \<and> co_tasks (promote_pending s) = co_tasks s \<or>
            wv_waiters p \<noteq> [] \<and> co_current (promote_pending s) = Some p \<and> co_active (promote_pending s) = co_active s \<and>
              co_tasks (promote_pending s) =
                co_tasks s @ [\<lparr>wt_wave = wv_id p, wt_token = wv_token p, wt_phase = At_Admission\<rparr>])"
  by (cases "co_pending s"; rule that) (auto simp: promote_pending_def spawn_wave_def Let_def)

lemmas rec_state = waves_ok_def wave_fits_def apart_def ids_ok_def gauges_ok_def gauges_fresh_def waiting_def
  waiters_of_def token_cancelled_def waves_present_def pending_length_def

lemma tasks_ok_cong:
  assumes "tasks_ok s" "co_tasks s' = co_tasks s"
    and "co_current s = Some c" "co_current s' = Some c'" "wv_id c' = wv_id c" "wv_token c' = wv_token c" "wv_phase c' = wv_phase c"
  shows "tasks_ok s'"
proof -
  have "task_fits c' t = task_fits c t" for t using assms(5-7) by (cases "wt_phase t") simp_all
  then show ?thesis using assms(1-4) by (simp add: tasks_ok_def live_tasks_def)
qed

lemma waves_ok_enqueue:
  assumes "waves_ok s" "enqueue_waiter s = Inr (w, s')" "co_next_waiter s < usize_max"
  shows "waves_ok s'"
  using assms(2)
  by (cases rule: enqueue_cases; elim disjE exE conjE)
    (use assms(1,3) in \<open>auto simp: rec_state wave_for_def count_up_exact nth_append split: option.splits\<close>)

lemma tasks_ok_enqueue:
  assumes "tasks_ok s" "enqueue_waiter s = Inr (w, s')"
  shows "tasks_ok s'"
  using assms(2)
proof (cases rule: enqueue_cases)
  case common
  from common(7) show ?thesis
  proof (elim disjE exE conjE)
    assume "co_current s = None" "co_current s' = Some (wave_for s)"
      "co_tasks s' = co_tasks s @ [\<lparr>wt_wave = co_next_wave s, wt_token = length (co_tokens s), wt_phase = At_Admission\<rparr>]"
    then show ?thesis using assms(1) by (simp add: tasks_ok_def live_tasks_def wave_for_def)
  qed (use tasks_ok_cong [OF assms(1)] in auto)
qed

lemma ids_ok_enqueue:
  assumes "ids_ok s" "enqueue_waiter s = Inr (w, s')" "co_next_waiter s < usize_max" "waves_ok s"
  shows "ids_ok s'"
  using assms(2)
  by (cases rule: enqueue_cases; elim disjE exE conjE)
    (use assms(1,3,4) in \<open>auto simp: rec_state wave_for_def count_up_exact less_Suc_eq split: option.splits\<close>)

lemma gauges_ok_enqueue:
  assumes "gauges_ok s" "enqueue_waiter s = Inr (w, s')"
  shows "gauges_ok s'"
  using assms(2)
  by (cases rule: enqueue_cases; elim disjE exE conjE)
    (use assms(1) in \<open>auto simp: gauges_ok_def gauges_fresh_def waves_present_def\<close>)

lemma waves_ok_exit:
  assumes "waves_ok s" "exit_waiter w reason s = Inr s'"
  shows "waves_ok s'"
  using assms(2)
  by (cases rule: exit_cases; elim disjE exE conjE)
    (use assms(1) in \<open>auto simp: rec_state nth_list_update dest: remove_waiter_facts(3) split: option.splits\<close>)

lemma tasks_ok_exit:
  assumes "tasks_ok s" "exit_waiter w reason s = Inr s'"
  shows "tasks_ok s'"
proof -
  from assms(2) have tasks: "co_tasks s' = co_tasks s" by (cases rule: exit_cases)
  show ?thesis
  proof (cases "co_current s")
    case None
    from assms(2) have "co_current s' = None" by (cases rule: exit_cases; elim disjE) (use None in auto)
    then show ?thesis using assms(1) None tasks by (simp add: tasks_ok_def live_tasks_def)
  next
    case (Some c)
    from assms(2) have "\<exists>c'. co_current s' = Some c' \<and> wv_id c' = wv_id c \<and> wv_token c' = wv_token c \<and> wv_phase c' = wv_phase c"
      by (cases rule: exit_cases; elim disjE exE conjE) (use Some in auto)
    then show ?thesis using tasks_ok_cong [OF assms(1) tasks Some] by blast
  qed
qed

lemma exit_waiting:
  assumes "exit_waiter w reason s = Inr s'" "ids_ok s"
  shows "distinct (waiting s') \<and> set (waiting s') = set (waiting s) - {w}"
  using assms(1)
  by (cases rule: exit_cases; elim disjE exE conjE)
    (use assms(2) in \<open>auto simp: ids_ok_def waiting_def waiters_of_def dest!: remove_waiter_sets split: option.splits\<close>)

lemma ids_ok_exit:
  assumes "ids_ok s" "exit_waiter w reason s = Inr s'"
  shows "ids_ok s'"
proof -
  from assms(2) have "co_sent s' = co_sent s" "co_next_waiter s' = co_next_waiter s" by (cases rule: exit_cases; simp)+
  then show ?thesis using exit_waiting [OF assms(2,1)] assms(1) by (auto simp: ids_ok_def)
qed

lemma gauges_ok_exit:
  assumes "gauges_ok s" "exit_waiter w reason s = Inr s'"
  shows "gauges_ok s'"
  using assms(2)
  by (cases rule: exit_cases; elim disjE exE conjE)
    (use assms(1) in \<open>auto simp: gauges_ok_def gauges_fresh_def waves_present_def\<close>)

lemma filter_only_update:
  assumes "filter P xs = [x]" "i < length xs" "P (xs ! i)"
  shows "xs ! i = x \<and> filter P (xs[i := y]) = (if P y then [y] else [])"
proof -
  have xs: "xs = take i xs @ xs ! i # drop (Suc i) xs" using assms(2) by (rule id_take_nth_drop)
  have "filter P (take i xs) @ xs ! i # filter P (drop (Suc i) xs) = [x]"
    using assms(1,3) by (metis filter.simps(2) filter_append xs)
  then have "filter P (take i xs) = [] \<and> xs ! i = x \<and> filter P (drop (Suc i) xs) = []" by (auto simp: append_eq_Cons_conv)
  then show ?thesis using assms(2) by (simp add: upd_conv_take_nth_drop)
qed

lemma live_at:
  assumes "tasks_ok s" "i < length (co_tasks s)" "wt_phase (task_at s i) \<noteq> Task_Over"
  obtains c where "co_current s = Some c" "task_fits c (task_at s i)" "live_tasks s = [task_at s i]"
    "\<And>p. live_tasks (set_phase i p s) = (if p = Task_Over then [] else [(task_at s i)\<lparr>wt_phase := p\<rparr>])"
proof -
  have "task_at s i \<in> set (live_tasks s)" using assms(2,3) by (auto simp: live_tasks_def task_at_def)
  then obtain c t where c: "co_current s = Some c" "live_tasks s = [t]" "task_fits c t"
    using assms(1) by (auto simp: tasks_ok_def split: option.splits)
  have "task_at s i = t" "live_tasks (set_phase i p s) = (if p = Task_Over then [] else [(task_at s i)\<lparr>wt_phase := p\<rparr>])" for p
    using filter_only_update [of _ "co_tasks s" t i] c(2) assms(2,3) by (auto simp: live_tasks_def task_at_def set_phase_def)
  with c that show ?thesis by auto
qed

lemma set_phase_fields [simp]:
  "co_next_wave (set_phase i p s) = co_next_wave s" "co_next_waiter (set_phase i p s) = co_next_waiter s"
  "co_current (set_phase i p s) = co_current s" "co_pending (set_phase i p s) = co_pending s"
  "co_poisoned (set_phase i p s) = co_poisoned s" "co_tokens (set_phase i p s) = co_tokens s"
  "co_active (set_phase i p s) = co_active s" "co_sent (set_phase i p s) = co_sent s" "co_diag (set_phase i p s) = co_diag s"
  "waiting (set_phase i p s) = waiting s" "waves_ok (set_phase i p s) = waves_ok s" "ids_ok (set_phase i p s) = ids_ok s"
  "gauges_ok (set_phase i p s) = gauges_ok s" "waves_present (set_phase i p s) = waves_present s"
  by (simp_all add: set_phase_def waiting_def waves_ok_def wave_fits_def token_cancelled_def ids_ok_def gauges_ok_def
      waves_present_def pending_length_def cong: option.case_cong)

lemma tasks_ok_set_phase:
  assumes "tasks_ok s" "i < length (co_tasks s)" "wt_phase (task_at s i) \<noteq> Task_Over" "p \<noteq> Task_Over"
    and "\<And>c. co_current s = Some c \<Longrightarrow> task_fits c (task_at s i) \<Longrightarrow> task_fits c ((task_at s i)\<lparr>wt_phase := p\<rparr>)"
  shows "tasks_ok (set_phase i p s)"
proof -
  from live_at [OF assms(1-3)] obtain c where "co_current s = Some c" "task_fits c (task_at s i)"
    "\<And>p. live_tasks (set_phase i p s) = (if p = Task_Over then [] else [(task_at s i)\<lparr>wt_phase := p\<rparr>])" by metis
  then show ?thesis using assms(4,5) by (simp add: tasks_ok_def)
qed

definition verdict :: "coordinator \<Rightarrow> rec_error + unit \<Rightarrow> wave_outcome" where
  "verdict s result = (if co_poisoned s then Wave_Failed State_Poisoned else outcome_of result)"

definition answered_now :: "coordinator \<Rightarrow> nat list" where
  "answered_now s = (if co_poisoned s then waiting s else waiters_of (co_current s))"

lemma end_task_facts:
  fixes result :: "rec_error + unit"
  assumes "state_ok s" "i < length (co_tasks s)" "wt_phase (task_at s i) \<noteq> Task_Over"
  defines "s' \<equiv> end_task i result s"
  shows "co_next_wave s' = co_next_wave s \<and> co_next_waiter s' = co_next_waiter s \<and> co_poisoned s' = co_poisoned s \<and>
    co_tokens s' = co_tokens s \<and> co_pending s' = None \<and> gauges_fresh s' \<and>
    co_current s' = (if co_poisoned s then None else co_pending s) \<and>
    co_active s' = co_active s - (if co_poisoned s then waves_present s else 1) \<and>
    co_sent s' = co_sent s @ map (\<lambda>w. (w, verdict s result)) (answered_now s) \<and>
    live_tasks s' = (case co_current s' of None \<Rightarrow> []
      | Some p \<Rightarrow> [\<lparr>wt_wave = wv_id p, wt_token = wv_token p, wt_phase = At_Admission\<rparr>])"
proof -
  let ?t = "set_phase i Task_Over s"
  from assms(1) have "tasks_ok s" by (simp add: state_ok_def)
  from live_at [OF this assms(2,3)] obtain c where c: "co_current s = Some c" "task_fits c (task_at s i)"
    and over: "live_tasks ?t = []" by metis
  have wave: "wt_wave (task_at s i) = wv_id c" using c(2) by simp
  show ?thesis
  proof (cases "co_poisoned s")
    case True
    then show ?thesis using over
      by (simp add: s'_def end_task_def finish_wave_def gauges_fresh_def waves_present_def pending_length_def waiting_def
          distribute_failure_def verdict_def answered_now_def live_tasks_def)
  next
    case False
    let ?u = "settle_wave c result (?t\<lparr>co_current := None\<rparr>)"
    have s': "s' = promote_pending ?u" using False c(1) wave by (simp add: s'_def end_task_def finish_wave_def)
    have pend: "co_pending s = Some p \<Longrightarrow> wv_waiters p \<noteq> []" for p
      using assms(1) c(1) by (auto simp: state_ok_def waves_ok_def apart_def)
    show ?thesis unfolding s'
      by (cases rule: promote_cases [of ?u]; cases "co_pending s")
        (use pend False c(1) over in \<open>auto simp: verdict_def answered_now_def waiters_of_def live_tasks_def\<close>)
  qed
qed

lemma state_ok_diag:
  assumes "rd_active_waves d = rd_active_waves (co_diag s)" "rd_pending_waiters d = rd_pending_waiters (co_diag s)"
  shows "state_ok (s\<lparr>co_diag := d\<rparr>) = state_ok s"
  using assms
  by (simp add: state_ok_def waves_ok_def wave_fits_def token_cancelled_def tasks_ok_def live_tasks_def ids_ok_def
      waiting_def gauges_ok_def waves_present_def pending_length_def cong: option.case_cong)

lemma begin_request_cases:
  obtains
    (turned_away) e d where "begin_request permit cancelled s = (Inl e, s\<lparr>co_diag := d\<rparr>)"
      "state_ok (s\<lparr>co_diag := d\<rparr>) = state_ok s"
  | (entered) w s' d where "begin_request permit cancelled s = (Inr w, s')" "enqueue_waiter (s\<lparr>co_diag := d\<rparr>) = Inr (w, s')"
      "state_ok (s\<lparr>co_diag := d\<rparr>) = state_ok s"
proof -
  let ?d = "(co_diag s)\<lparr>rd_requests := count_up (rd_requests (co_diag s))\<rparr>"
  have ok: "state_ok (s\<lparr>co_diag := ?d\<rparr>) = state_ok s" by (rule state_ok_diag) simp_all
  consider "co_poisoned s" | "\<not> co_poisoned s" "\<not> permit" | "\<not> co_poisoned s" permit cancelled
    | "\<not> co_poisoned s" permit "\<not> cancelled" by blast
  then show ?thesis
  proof cases
    case 1
    then show ?thesis by (intro turned_away [of State_Poisoned "co_diag s"]) (simp_all add: begin_request_def)
  next
    case 2
    then show ?thesis
      by (intro turned_away [of Retrieval_Overloaded "?d\<lparr>rd_rejected := count_up (rd_rejected (co_diag s))\<rparr>"])
        (simp_all add: begin_request_def Let_def state_ok_diag)
  next
    case 3
    then show ?thesis
      by (intro turned_away [of Cancelled_Error "?d\<lparr>rd_cancelled_waiters := count_up (rd_cancelled_waiters (co_diag s))\<rparr>"])
        (simp_all add: begin_request_def Let_def state_ok_diag)
  next
    case 4
    show ?thesis
    proof (cases "enqueue_waiter (s\<lparr>co_diag := ?d\<rparr>)")
      case (Inl e)
      then show ?thesis by (intro turned_away [of e ?d]) (use 4 ok in \<open>simp_all add: begin_request_def Let_def\<close>)
    next
      case (Inr r)
      then show ?thesis
        by (intro entered [of "fst r" "snd r" ?d]) (use 4 ok in \<open>simp_all add: begin_request_def Let_def split_beta\<close>)
    qed
  qed
qed

lemma state_ok_enqueue:
  assumes "state_ok s" "enqueue_waiter s = Inr (w, s')" "co_next_waiter s < usize_max"
  shows "state_ok s'"
  using assms waves_ok_enqueue tasks_ok_enqueue ids_ok_enqueue gauges_ok_enqueue unfolding state_ok_def by blast

lemma state_ok_exit:
  assumes "state_ok s" "exit_waiter w reason s = Inr s'"
  shows "state_ok s'"
  using assms waves_ok_exit tasks_ok_exit ids_ok_exit gauges_ok_exit unfolding state_ok_def by blast

lemma state_ok_set_phase:
  assumes "state_ok s" "i < length (co_tasks s)" "wt_phase (task_at s i) \<noteq> Task_Over" "p \<noteq> Task_Over"
    and "\<And>c. co_current s = Some c \<Longrightarrow> task_fits c (task_at s i) \<Longrightarrow> task_fits c ((task_at s i)\<lparr>wt_phase := p\<rparr>)"
  shows "state_ok (set_phase i p s)"
  using assms tasks_ok_set_phase [of s i p] by (simp add: state_ok_def)

lemma state_ok_end_task:
  assumes "state_ok s" "i < length (co_tasks s)" "wt_phase (task_at s i) \<noteq> Task_Over"
  shows "state_ok (end_task i result s)"
proof -
  note f = end_task_facts [OF assms, of result]
  from assms(1) have ok: "waves_ok s" "tasks_ok s" "ids_ok s" "gauges_ok s" by (simp_all add: state_ok_def)
  from live_at [OF ok(2) assms(2,3)] obtain c where c: "co_current s = Some c" by metis
  have "waves_ok (end_task i result s)"
    using f ok(1) c by (auto simp: waves_ok_def wave_fits_def token_cancelled_def split: option.splits)
  moreover have "tasks_ok (end_task i result s)"
    using f ok(1) c by (auto simp: tasks_ok_def waves_ok_def apart_def split: option.splits)
  moreover have "ids_ok (end_task i result s)"
    using f ok(3) c
    by (auto simp: ids_ok_def waiting_def waiters_of_def answered_now_def comp_def image_iff split: option.splits)
  moreover have "gauges_ok (end_task i result s)"
    using f ok(4) c by (auto simp: gauges_ok_def gauges_fresh_def waves_present_def)
  ultimately show ?thesis by (simp add: state_ok_def)
qed

lemma mark_running_cases:
  assumes "mark_running wave s = Inr (b, s')"
  obtains (kept) "\<not> b" "s' = s"
  | (runs) c d where "b" "co_current s = Some c" "wv_id c = wave" "wv_phase c = Waiting_For_Operation" "wv_waiters c \<noteq> []"
      "\<not> token_cancelled s (wv_token c)" "s' = s\<lparr>co_current := Some (c\<lparr>wv_phase := Running_Scan\<rparr>), co_diag := d\<rparr>"
      "rd_active_waves d = rd_active_waves (co_diag s)" "rd_pending_waiters d = rd_pending_waiters (co_diag s)"
proof (cases b)
  case True
  then obtain c where "co_current s = Some c" "wv_id c = wave" "wv_phase c = Waiting_For_Operation" "wv_waiters c \<noteq> []"
    "\<not> token_cancelled s (wv_token c)"
    "s' = s\<lparr>co_current := Some (c\<lparr>wv_phase := Running_Scan\<rparr>), co_diag := (co_diag s)\<lparr>rd_started := count_up (rd_started (co_diag s))\<rparr>\<rparr>"
    using assms by (simp add: mark_running_def split: option.splits if_splits)
  with True show ?thesis by (intro runs [of c "(co_diag s)\<lparr>rd_started := count_up (rd_started (co_diag s))\<rparr>"]) simp_all
next
  case False
  then have "s' = s" using assms by (simp add: mark_running_def split: option.splits if_splits)
  with False show ?thesis by (rule kept)
qed

lemma begin_operation_cases:
  obtains (gives_up) e where "begin_operation i acquired released s = set_phase i (Finishing (Inl e)) s"
  | (scans) c d where "co_current s = Some c" "wv_id c = wt_wave (task_at s i)" "wv_waiters c \<noteq> []"
      "\<not> token_cancelled s (wv_token c)" "wv_phase c = Waiting_For_Operation"
      "begin_operation i acquired released s =
         set_phase i Scanning (s\<lparr>co_current := Some (c\<lparr>wv_phase := Running_Scan\<rparr>), co_diag := d\<rparr>)"
      "rd_active_waves d = rd_active_waves (co_diag s)" "rd_pending_waiters d = rd_pending_waiters (co_diag s)"
proof (cases acquired)
  case (Inl e)
  then show ?thesis by (intro gives_up [of e]) (simp add: begin_operation_def)
next
  case acquired: (Inr u)
  show ?thesis
  proof (cases "mark_running (wt_wave (task_at s i)) s")
    case (Inl e)
    then show ?thesis by (intro gives_up [of e]) (simp add: begin_operation_def acquired)
  next
    case (Inr r)
    obtain b s' where r: "r = (b, s')" by (cases r)
    from Inr [unfolded r] show ?thesis
    proof (cases rule: mark_running_cases)
      case kept
      then show ?thesis by (intro gives_up) (simp add: begin_operation_def acquired Inr r)
    next
      case (runs c d)
      then show ?thesis by (intro scans [of c d]) (simp_all add: begin_operation_def acquired Inr r)
    qed
  qed
qed

section \<open>The invariant of the log\<close>

text \<open>The answers of a log, in order.\<close>

fun answers :: "rec_event list \<Rightarrow> (nat \<times> wave_outcome) list" where
  "answers [] = []"
| "answers (Answered v w outcome # es) = (w, outcome) # answers es"
| "answers (e # es) = answers es"

text \<open>Before a waiter hears that the reconciliation is complete: its request, then a whole successful scan.\<close>

definition served_in :: "nat \<Rightarrow> nat \<Rightarrow> rec_event list" where
  "served_in v w = [Request_Made w, Scan_Begins v, Scan_Ends v (Inr ())]"

definition fresh_log :: "rec_event list \<Rightarrow> bool" where
  "fresh_log log \<longleftrightarrow> (\<forall>pre v w post. log = pre @ Answered v w Wave_Complete # post \<longrightarrow> subseq (served_in v w) pre)"

definition final_log :: "rec_event list \<Rightarrow> bool" where
  "final_log log \<longleftrightarrow> (\<forall>pre w post. log = pre @ Request_Left w # post \<longrightarrow> (\<forall>v outcome. Answered v w outcome \<notin> set post))"

definition log_ok :: "coordinator \<Rightarrow> rec_event list \<Rightarrow> bool" where
  "log_ok s log \<longleftrightarrow> answers log = co_sent s \<and>
     (\<forall>w. Request_Made w \<in> set log \<longleftrightarrow> 0 < w \<and> w < co_next_waiter s) \<and>
     (\<forall>w. 0 < w \<and> w < co_next_waiter s \<longrightarrow>
        w \<in> set (waiting s) \<or> Request_Left w \<in> set log \<or> w \<in> fst ` set (co_sent s)) \<and>
     (\<forall>w. Request_Left w \<in> set log \<longrightarrow> w < co_next_waiter s \<and> w \<notin> set (waiting s)) \<and>
     fresh_log log \<and> final_log log \<and>
     (\<forall>c. co_current s = Some c \<longrightarrow>
        (wv_phase c = Running_Scan \<longrightarrow> (\<forall>w \<in> set (wv_waiters c). subseq [Request_Made w, Scan_Begins (wv_id c)] log)) \<and>
        (\<forall>t \<in> set (live_tasks s). wt_phase t = Finishing (Inr ()) \<longrightarrow>
           (\<forall>w \<in> set (wv_waiters c). subseq (served_in (wv_id c) w) log)))"

definition sys_ok :: "rec_system \<Rightarrow> bool" where
  "sys_ok y \<longleftrightarrow> state_ok (sy_state y) \<and> log_ok (sy_state y) (sy_log y)"

lemma answers_append [simp]: "answers (xs @ ys) = answers xs @ answers ys"
  by (induction xs rule: answers.induct) auto

lemma answers_map [simp]: "answers (map (\<lambda>(w, outcome). Answered v w outcome) ps) = ps"
  by (induction ps) auto

lemma answers_mem: "(w, outcome) \<in> set (answers log) \<longleftrightarrow> (\<exists>v. Answered v w outcome \<in> set log)"
  by (induction log rule: answers.induct) auto

lemma fresh_Nil [simp]: "fresh_log []" and final_Nil [simp]: "final_log []"
  by (simp_all add: fresh_log_def final_log_def)

lemma fresh_append:
  assumes "fresh_log log" "\<And>v w. Answered v w Wave_Complete \<in> set es \<Longrightarrow> subseq (served_in v w) log"
  shows "fresh_log (log @ es)"
  unfolding fresh_log_def
proof (intro allI impI)
  fix pre v w post assume "log @ es = pre @ Answered v w Wave_Complete # post"
  then consider us where "log = pre @ Answered v w Wave_Complete # us" | us where "pre = log @ us" "es = us @ Answered v w Wave_Complete # post"
    by (auto simp: append_eq_append_conv2 append_eq_Cons_conv)
  then show "subseq (served_in v w) pre"
    by cases (use assms in \<open>auto simp: fresh_log_def intro: subseq_rev_drop_many\<close>)
qed

lemma final_append:
  assumes "final_log log" "final_log es" "\<And>v w outcome. Request_Left w \<in> set log \<Longrightarrow> Answered v w outcome \<notin> set es"
  shows "final_log (log @ es)"
  unfolding final_log_def
proof (intro allI impI)
  fix pre w post v outcome assume "log @ es = pre @ Request_Left w # post"
  then consider us where "log = pre @ Request_Left w # us" "post = us @ es" | us where "pre = log @ us" "es = us @ Request_Left w # post"
    by (auto simp: append_eq_append_conv2 append_eq_Cons_conv)
  then show "Answered v w outcome \<notin> set post"
    by cases (use assms in \<open>auto simp: final_log_def\<close>)
qed

lemma final_others: "(\<And>w. Request_Left w \<notin> set es) \<Longrightarrow> final_log es"
  unfolding final_log_def by (metis in_set_conv_decomp)

lemma final_one [simp]: "final_log [e]"
  by (auto simp: final_log_def Cons_eq_append_conv)

lemma subseq_last: "x \<in> set log \<Longrightarrow> subseq [x, y] (log @ [y])"
  using list_emb_append_mono [of "(=)" "[x]" log "[y]" "[y]"] by (simp add: subseq_singleton_left)

lemma log_ok_grow:
  assumes "log_ok s log" "\<And>v w outcome. Answered v w outcome \<notin> set es" "\<And>w. Request_Made w \<notin> set es" "\<And>w. Request_Left w \<notin> set es"
    "co_sent s' = co_sent s" "co_next_waiter s' = co_next_waiter s" "waiting s' = waiting s"
    "\<And>c w. co_current s' = Some c \<Longrightarrow> wv_phase c = Running_Scan \<Longrightarrow> w \<in> set (wv_waiters c) \<Longrightarrow>
       subseq [Request_Made w, Scan_Begins (wv_id c)] (log @ es)"
    "\<And>c t w. co_current s' = Some c \<Longrightarrow> t \<in> set (live_tasks s') \<Longrightarrow> wt_phase t = Finishing (Inr ()) \<Longrightarrow>
       w \<in> set (wv_waiters c) \<Longrightarrow> subseq (served_in (wv_id c) w) (log @ es)"
  shows "log_ok s' (log @ es)"
proof -
  have "answers es = []" using assms(2) by (metis answers_mem list.set_intros(1) neq_Nil_conv surj_pair)
  moreover have "fresh_log (log @ es)" by (rule fresh_append) (use assms(1,2) in \<open>auto simp: log_ok_def\<close>)
  moreover have "final_log (log @ es)" by (rule final_append) (use assms(1,2,4) in \<open>auto simp: log_ok_def intro: final_others\<close>)
  ultimately show ?thesis using assms(1,3-7) assms(8,9) unfolding log_ok_def by auto
qed

lemma log_ok_running:
  "log_ok s log \<Longrightarrow> co_current s = Some c \<Longrightarrow> wv_phase c = Running_Scan \<Longrightarrow> w \<in> set (wv_waiters c) \<Longrightarrow>
    subseq [Request_Made w, Scan_Begins (wv_id c)] log"
  unfolding log_ok_def by blast

lemma log_ok_finishing:
  "log_ok s log \<Longrightarrow> co_current s = Some c \<Longrightarrow> t \<in> set (live_tasks s) \<Longrightarrow> wt_phase t = Finishing (Inr ()) \<Longrightarrow>
    w \<in> set (wv_waiters c) \<Longrightarrow> subseq (served_in (wv_id c) w) log"
  unfolding log_ok_def by blast

lemma log_ok_frame:
  "co_sent s' = co_sent s \<Longrightarrow> co_next_waiter s' = co_next_waiter s \<Longrightarrow> waiting s' = waiting s \<Longrightarrow>
    co_current s' = co_current s \<Longrightarrow> live_tasks s' = live_tasks s \<Longrightarrow> log_ok s' log = log_ok s log"
  by (simp add: log_ok_def)

lemma enqueue_waiting:
  assumes "enqueue_waiter s = Inr (w, s')" "waves_ok s"
  shows "set (waiting s') = insert w (set (waiting s))"
  using assms(1)
  by (cases rule: enqueue_cases; elim disjE exE conjE)
    (use assms(2) in \<open>auto simp: waiting_def waiters_of_def wave_for_def waves_ok_def\<close>)

lemma enqueue_running:
  assumes "enqueue_waiter s = Inr (w, s')" "co_current s' = Some c" "wv_phase c = Running_Scan"
  shows "co_current s = Some c \<and> live_tasks s' = live_tasks s"
  using assms(1)
  by (cases rule: enqueue_cases; elim disjE exE conjE)
    (use assms(2,3) in \<open>auto simp: wave_for_def live_tasks_def\<close>)

lemma finishing_runs:
  "tasks_ok s \<Longrightarrow> co_current s = Some c \<Longrightarrow> t \<in> set (live_tasks s) \<Longrightarrow> wt_phase t = Finishing (Inr ()) \<Longrightarrow>
    wv_phase c = Running_Scan"
  by (auto simp: tasks_ok_def)

lemma log_ok_request:
  assumes ok: "state_ok s" "log_ok s log" and w: "enqueue_waiter s = Inr (w, s')" and bound: "co_next_waiter s < usize_max"
  shows "log_ok s' (log @ [Request_Made w])"
proof -
  from w have f: "w = co_next_waiter s" "co_next_waiter s' = Suc (co_next_waiter s)" "co_sent s' = co_sent s"
    by (cases rule: enqueue_cases; simp add: count_up_exact bound)+
  have wt: "set (waiting s') = insert w (set (waiting s))" using enqueue_waiting [OF w] ok(1) by (simp add: state_ok_def)
  have t: "tasks_ok s'" using tasks_ok_enqueue [OF _ w] ok(1) by (simp add: state_ok_def)
  have ids: "0 < co_next_waiter s" using ok(1) by (simp add: state_ok_def ids_ok_def)
  have "fresh_log (log @ [Request_Made w])" by (rule fresh_append) (use ok(2) in \<open>auto simp: log_ok_def\<close>)
  moreover have "final_log (log @ [Request_Made w])" by (rule final_append) (use ok(2) in \<open>auto simp: log_ok_def\<close>)
  moreover have "answers (log @ [Request_Made w]) = co_sent s'" using ok(2) f by (simp add: log_ok_def)
  moreover have "\<forall>v. Request_Made v \<in> set (log @ [Request_Made w]) \<longleftrightarrow> 0 < v \<and> v < co_next_waiter s'"
    using ok(2) f ids by (auto simp: log_ok_def less_Suc_eq)
  moreover have "\<forall>v. 0 < v \<and> v < co_next_waiter s' \<longrightarrow>
      v \<in> set (waiting s') \<or> Request_Left v \<in> set (log @ [Request_Made w]) \<or> v \<in> fst ` set (co_sent s')"
    using ok(2) f wt by (auto simp: log_ok_def less_Suc_eq)
  moreover have "\<forall>v. Request_Left v \<in> set (log @ [Request_Made w]) \<longrightarrow> v < co_next_waiter s' \<and> v \<notin> set (waiting s')"
    using ok(2) f wt by (auto simp: log_ok_def less_Suc_eq)
  moreover have "\<forall>c. co_current s' = Some c \<longrightarrow>
      (wv_phase c = Running_Scan \<longrightarrow> (\<forall>v \<in> set (wv_waiters c). subseq [Request_Made v, Scan_Begins (wv_id c)] (log @ [Request_Made w]))) \<and>
      (\<forall>u \<in> set (live_tasks s'). wt_phase u = Finishing (Inr ()) \<longrightarrow>
         (\<forall>v \<in> set (wv_waiters c). subseq (served_in (wv_id c) v) (log @ [Request_Made w])))"
  proof (intro allI impI conjI ballI subseq_rev_drop_many)
    fix c v assume "co_current s' = Some c" "wv_phase c = Running_Scan" "v \<in> set (wv_waiters c)"
    then show "subseq [Request_Made v, Scan_Begins (wv_id c)] log"
      using log_ok_running [OF ok(2)] enqueue_running [OF w] by blast
  next
    fix c u v assume c: "co_current s' = Some c" "u \<in> set (live_tasks s')" "wt_phase u = Finishing (Inr ())" "v \<in> set (wv_waiters c)"
    then have "wv_phase c = Running_Scan" using finishing_runs [OF t] by blast
    then show "subseq (served_in (wv_id c) v) log" using c log_ok_finishing [OF ok(2)] enqueue_running [OF w c(1)] by metis
  qed
  ultimately show ?thesis unfolding log_ok_def by blast
qed

lemma sys_ok_request:
  assumes "sys_ok y" "co_next_waiter (sy_state (request_step permit cancelled y)) < usize_max"
  shows "sys_ok (request_step permit cancelled y)"
proof (cases rule: begin_request_cases [of permit cancelled "sy_state y"])
  case (turned_away e d)
  have "log_ok ((sy_state y)\<lparr>co_diag := d\<rparr>) (sy_log y) = log_ok (sy_state y) (sy_log y)"
    by (rule log_ok_frame) (simp_all add: waiting_def live_tasks_def)
  then show ?thesis using turned_away assms(1) by (simp add: sys_ok_def request_step_def logged_def)
next
  case (entered w s' d)
  let ?s = "(sy_state y)\<lparr>co_diag := d\<rparr>"
  have "log_ok ?s (sy_log y) = log_ok (sy_state y) (sy_log y)"
    by (rule log_ok_frame) (simp_all add: waiting_def live_tasks_def)
  then have ok: "state_ok ?s" "log_ok ?s (sy_log y)" using assms(1) entered(3) by (simp_all add: sys_ok_def)
  from entered(2) have "co_next_waiter s' = count_up (co_next_waiter ?s)" by (cases rule: enqueue_cases) simp
  then have "co_next_waiter ?s < usize_max"
    using assms(2) entered(1) by (simp add: request_step_def logged_def count_up_def usize_simps)
  then show ?thesis
    using state_ok_enqueue [OF ok(1) entered(2)] log_ok_request [OF ok entered(2)] entered(1)
    by (simp add: sys_ok_def request_step_def logged_def)
qed

lemma exit_current_shape:
  assumes "exit_waiter w reason s = Inr s'" "co_current s' = Some c'"
  shows "\<exists>c. co_current s = Some c \<and> wv_id c' = wv_id c \<and> wv_phase c' = wv_phase c \<and> set (wv_waiters c') \<subseteq> set (wv_waiters c)"
proof (cases "co_current s")
  case None
  from assms(1) show ?thesis by (cases rule: exit_cases; elim disjE exE conjE) (use None assms(2) in auto)
next
  case (Some c)
  from assms(1) show ?thesis
    by (cases rule: exit_cases; elim disjE exE conjE) (use Some assms(2) in \<open>auto dest!: remove_waiter_sets\<close>)
qed

lemma log_ok_leave:
  assumes ok: "state_ok s" "log_ok s log" and w: "exit_waiter w reason s = Inr s'" "w < co_next_waiter s"
  shows "log_ok s' (log @ [Request_Left w])"
proof -
  from w(1) have f: "co_next_waiter s' = co_next_waiter s" "co_sent s' = co_sent s" "live_tasks s' = live_tasks s"
    by (cases rule: exit_cases; simp add: live_tasks_def)+
  have wt: "set (waiting s') = set (waiting s) - {w}" using exit_waiting [OF w(1)] ok(1) by (simp add: state_ok_def)
  have "fresh_log (log @ [Request_Left w])" by (rule fresh_append) (use ok(2) in \<open>auto simp: log_ok_def\<close>)
  moreover have "final_log (log @ [Request_Left w])" by (rule final_append) (use ok(2) in \<open>auto simp: log_ok_def\<close>)
  moreover have "answers (log @ [Request_Left w]) = co_sent s'" using ok(2) f by (simp add: log_ok_def)
  moreover have "\<forall>v. Request_Made v \<in> set (log @ [Request_Left w]) \<longleftrightarrow> 0 < v \<and> v < co_next_waiter s'"
    using ok(2) f by (auto simp: log_ok_def)
  moreover have "\<forall>v. 0 < v \<and> v < co_next_waiter s' \<longrightarrow>
      v \<in> set (waiting s') \<or> Request_Left v \<in> set (log @ [Request_Left w]) \<or> v \<in> fst ` set (co_sent s')"
    using ok(2) f wt by (auto simp: log_ok_def)
  moreover have "\<forall>v. Request_Left v \<in> set (log @ [Request_Left w]) \<longrightarrow> v < co_next_waiter s' \<and> v \<notin> set (waiting s')"
    using ok(2) f wt w(2) by (auto simp: log_ok_def)
  moreover have "\<forall>c. co_current s' = Some c \<longrightarrow>
      (wv_phase c = Running_Scan \<longrightarrow> (\<forall>v \<in> set (wv_waiters c). subseq [Request_Made v, Scan_Begins (wv_id c)] (log @ [Request_Left w]))) \<and>
      (\<forall>u \<in> set (live_tasks s'). wt_phase u = Finishing (Inr ()) \<longrightarrow>
         (\<forall>v \<in> set (wv_waiters c). subseq (served_in (wv_id c) v) (log @ [Request_Left w])))"
  proof (intro allI impI conjI ballI subseq_rev_drop_many)
    fix c v assume c: "co_current s' = Some c" "wv_phase c = Running_Scan" "v \<in> set (wv_waiters c)"
    obtain b where b: "co_current s = Some b" "wv_id c = wv_id b" "wv_phase c = wv_phase b" "set (wv_waiters c) \<subseteq> set (wv_waiters b)"
      using exit_current_shape [OF w(1) c(1)] by blast
    then show "subseq [Request_Made v, Scan_Begins (wv_id c)] log" using log_ok_running [OF ok(2) b(1)] c(2,3) by auto
  next
    fix c u v assume c: "co_current s' = Some c" "u \<in> set (live_tasks s')" "wt_phase u = Finishing (Inr ())" "v \<in> set (wv_waiters c)"
    obtain b where b: "co_current s = Some b" "wv_id c = wv_id b" "set (wv_waiters c) \<subseteq> set (wv_waiters b)"
      using exit_current_shape [OF w(1) c(1)] by blast
    then show "subseq (served_in (wv_id c) v) log" using log_ok_finishing [OF ok(2) b(1)] c(2-4) f(3) by auto
  qed
  ultimately show ?thesis unfolding log_ok_def by blast
qed

lemma sys_ok_leave:
  assumes "sys_ok y" "w < co_next_waiter (sy_state y)" shows "sys_ok (leave_step w reason y)"
proof (cases "exit_waiter w reason (sy_state y)")
  case (Inl e)
  then show ?thesis using assms by (simp add: leave_step_def)
next
  case (Inr s')
  then show ?thesis using assms state_ok_exit [OF _ Inr] log_ok_leave [OF _ _ Inr] by (simp add: leave_step_def sys_ok_def logged_def)
qed

lemma live_tasks_phase:
  assumes "tasks_ok s" "i < length (co_tasks s)" "wt_phase (task_at s i) \<noteq> Task_Over" "p \<noteq> Task_Over"
  shows "live_tasks (set_phase i p s) = [(task_at s i)\<lparr>wt_phase := p\<rparr>]"
  using live_at [OF assms(1-3)] assms(4) by metis

text \<open>A task that moves on without finishing; only scan events are logged.\<close>

definition scan_events :: "rec_event list \<Rightarrow> bool" where
  "scan_events es \<longleftrightarrow> (\<forall>e \<in> set es. case e of Scan_Begins v \<Rightarrow> True | Scan_Ends v r \<Rightarrow> True | _ \<Rightarrow> False)"

lemma scan_events_not:
  "scan_events es \<Longrightarrow> Answered v w outcome \<notin> set es \<and> Request_Made w \<notin> set es \<and> Request_Left w \<notin> set es"
  by (auto simp: scan_events_def)

lemma sys_ok_phase:
  assumes y: "sys_ok y" "i < length (co_tasks (sy_state y))" "wt_phase (task_at (sy_state y) i) \<noteq> Task_Over" "p \<noteq> Task_Over"
    and fits: "\<And>c. co_current (sy_state y) = Some c \<Longrightarrow> task_fits c (task_at (sy_state y) i) \<Longrightarrow>
      task_fits c ((task_at (sy_state y) i)\<lparr>wt_phase := p\<rparr>)"
    and es: "scan_events es"
    and served: "\<And>c w. p = Finishing (Inr ()) \<Longrightarrow> co_current (sy_state y) = Some c \<Longrightarrow> w \<in> set (wv_waiters c) \<Longrightarrow>
      subseq (served_in (wv_id c) w) (sy_log y @ es)"
  shows "sys_ok (logged es (set_phase i p (sy_state y)) y)"
proof -
  let ?s = "sy_state y"
  have ok: "state_ok ?s" "log_ok ?s (sy_log y)" "tasks_ok ?s" using y(1) by (simp_all add: sys_ok_def state_ok_def)
  have "log_ok (set_phase i p ?s) (sy_log y @ es)"
  proof (rule log_ok_grow [OF ok(2)])
    fix c w assume "co_current (set_phase i p ?s) = Some c" "wv_phase c = Running_Scan" "w \<in> set (wv_waiters c)"
    then show "subseq [Request_Made w, Scan_Begins (wv_id c)] (sy_log y @ es)"
      using log_ok_running [OF ok(2)] by (auto intro: subseq_rev_drop_many)
  next
    fix c t w assume "co_current (set_phase i p ?s) = Some c" "t \<in> set (live_tasks (set_phase i p ?s))"
      "wt_phase t = Finishing (Inr ())" "w \<in> set (wv_waiters c)"
    then show "subseq (served_in (wv_id c) w) (sy_log y @ es)"
      using served live_tasks_phase [OF ok(3) y(2-4)] by auto
  qed (use scan_events_not [OF es] in simp_all)
  then show ?thesis using state_ok_set_phase [OF ok(1) y(2-4) fits] by (simp add: sys_ok_def logged_def)
qed

end
