(* ===== verification/Reconcile_Props.thy ===== *)
theory Reconcile_Props
  imports Reconciliation
begin

text \<open>
  What the reconciliation coordinator promises: the invariant holds in every reachable state of the system, and
  from it follow the freshness of an answer, the bound of one scan at a time and that no waiting request is lost.
\<close>

section \<open>The invariant is kept\<close>

lemma logged_state [simp]: "sy_state (logged es s y) = s" "sy_log (logged es s y) = sy_log y @ es"
  by (simp_all add: logged_def)

lemma scan_events_simps [simp]: "scan_events []" "scan_events [Scan_Begins v]" "scan_events [Scan_Ends v r]"
  by (simp_all add: scan_events_def)

lemma sys_ok_admission:
  assumes "sys_ok y" "i < task_count y" "task_phase_of y i = At_Admission"
  shows "sys_ok (logged [] (poll_admission i opened (sy_state y)) y)"
  using assms by (auto simp: poll_admission_def intro!: sys_ok_phase)

lemma sys_ok_panic:
  assumes "sys_ok y" "i < task_count y" "task_phase_of y i \<noteq> Task_Over"
  shows "sys_ok (logged [] (set_phase i (Finishing (Inl e)) (sy_state y)) y)"
  using assms by (intro sys_ok_phase) auto

lemma live_only:
  "tasks_ok s \<Longrightarrow> i < length (co_tasks s) \<Longrightarrow> wt_phase (task_at s i) \<noteq> Task_Over \<Longrightarrow> live_tasks s = [task_at s i]"
  using live_at by metis

text \<open>The current wave starts its scan.\<close>

definition running_now :: "wave \<Rightarrow> rec_diagnostics \<Rightarrow> coordinator \<Rightarrow> coordinator" where
  "running_now c d s = s\<lparr>co_current := Some (c\<lparr>wv_phase := Running_Scan\<rparr>), co_diag := d\<rparr>"

lemma running_fields [simp]:
  "co_next_wave (running_now c d s) = co_next_wave s" "co_next_waiter (running_now c d s) = co_next_waiter s"
  "co_current (running_now c d s) = Some (c\<lparr>wv_phase := Running_Scan\<rparr>)" "co_pending (running_now c d s) = co_pending s"
  "co_tokens (running_now c d s) = co_tokens s" "co_active (running_now c d s) = co_active s"
  "co_sent (running_now c d s) = co_sent s" "co_tasks (running_now c d s) = co_tasks s" "co_diag (running_now c d s) = d"
  by (simp_all add: running_now_def)

lemma state_ok_running:
  assumes "state_ok s" "co_current s = Some c" "wv_waiters c \<noteq> []" "\<not> token_cancelled s (wv_token c)"
    and "i < length (co_tasks s)" "wt_phase (task_at s i) = At_Operation"
    and "rd_active_waves d = rd_active_waves (co_diag s)" "rd_pending_waiters d = rd_pending_waiters (co_diag s)"
  shows "state_ok (set_phase i Scanning (running_now c d s))"
proof -
  let ?r = "running_now c d s"
  have ok: "waves_ok s" "tasks_ok s" "ids_ok s" "gauges_ok s" using assms(1) by (simp_all add: state_ok_def)
  have "waves_ok ?r"
    using ok(1) assms(2-4) by (auto simp: waves_ok_def wave_fits_def token_cancelled_def apart_def split: option.splits)
  moreover have "ids_ok ?r" "gauges_ok ?r"
    using ok(3,4) assms(2,7,8)
    by (simp_all add: ids_ok_def gauges_ok_def waiting_def waiters_of_def waves_present_def pending_length_def)
  moreover have "tasks_ok (set_phase i Scanning ?r)"
  proof -
    have "wt_phase (task_at s i) \<noteq> Task_Over" using assms(6) by simp
    from live_at [OF ok(2) assms(5) this] assms(2) have "task_fits c (task_at s i)" "live_tasks s = [task_at s i]" by auto
    moreover have "live_tasks (set_phase i Scanning ?r) = live_tasks (set_phase i Scanning s)"
      by (simp add: live_tasks_def set_phase_def)
    moreover have "live_tasks (set_phase i Scanning s) = [(task_at s i)\<lparr>wt_phase := Scanning\<rparr>]"
      using live_tasks_phase [OF ok(2) assms(5)] assms(6) by simp
    ultimately show ?thesis by (simp add: tasks_ok_def)
  qed
  ultimately show ?thesis by (simp add: state_ok_def)
qed

lemma sys_ok_operation:
  assumes "sys_ok y" "i < task_count y" "task_phase_of y i = At_Operation"
  shows "sys_ok (operation_step i acquired released y)"
proof (cases rule: begin_operation_cases [of i acquired released "sy_state y"])
  case (gives_up e)
  have "wt_phase (task_at (set_phase i (Finishing (Inl e)) (sy_state y)) i) = Finishing (Inl e)"
    using assms(2) by (simp add: task_at_def set_phase_def)
  then show ?thesis using sys_ok_panic [OF assms(1,2), of e] assms(3) gives_up by (simp add: operation_step_def Let_def)
next
  case (scans c d)
  let ?s = "sy_state y" and ?t = "set_phase i Scanning (running_now c d (sy_state y))"
  have s': "begin_operation i acquired released ?s = ?t" using scans(6) by (simp add: running_now_def)
  have t: "task_at ?t i = (task_at ?s i)\<lparr>wt_phase := Scanning\<rparr>" using assms(2) by (simp add: task_at_def set_phase_def)
  have ok: "state_ok ?s" "log_ok ?s (sy_log y)" using assms(1) by (simp_all add: sys_ok_def)
  have st: "state_ok ?t" by (rule state_ok_running) (use ok scans assms in simp_all)
  have live: "live_tasks ?t = [task_at ?t i]"
    by (rule live_only) (use st assms(2) t in \<open>simp_all add: state_ok_def set_phase_def\<close>)
  have "log_ok ?t (sy_log y @ [Scan_Begins (wv_id c)])"
  proof (rule log_ok_grow [OF ok(2)])
    fix b w assume b: "co_current ?t = Some b" "w \<in> set (wv_waiters b)"
    then have "w \<in> set (waiting ?s)" using scans(1) by (auto simp: waiting_def waiters_of_def)
    then have "Request_Made w \<in> set (sy_log y)" using ok by (auto simp: state_ok_def ids_ok_def log_ok_def)
    then show "subseq [Request_Made w, Scan_Begins (wv_id b)] (sy_log y @ [Scan_Begins (wv_id c)])"
      using b(1) by (auto intro: subseq_last)
  next
    show "waiting ?t = waiting ?s" using scans(1) by (simp add: waiting_def waiters_of_def)
  qed (use t live in auto)
  then show ?thesis using st s' t scans(2) by (simp add: operation_step_def Let_def sys_ok_def logged_def)
qed
lemma subseq_snoc: "subseq xs ys \<Longrightarrow> subseq (xs @ [z]) (ys @ [z])"
  by (rule list_emb_append_mono) simp_all

lemma sys_ok_scanned:
  assumes "sys_ok y" "i < task_count y" "task_phase_of y i = Scanning"
  shows "sys_ok (scanned_step i scanned released y)"
proof -
  let ?s = "sy_state y"
  let ?p = "Finishing (case released of Inl e \<Rightarrow> Inl e | Inr _ \<Rightarrow> scanned)"
  have ok: "log_ok ?s (sy_log y)" "tasks_ok ?s" using assms(1) by (simp_all add: sys_ok_def state_ok_def)
  have "task_phase_of y i \<noteq> Task_Over" using assms(3) by simp
  from live_at [OF ok(2) assms(2) this] obtain c where c: "co_current ?s = Some c" "task_fits c (task_at ?s i)" by metis
  have "sys_ok (logged [Scan_Ends (wt_wave (task_at ?s i)) scanned] (set_phase i ?p ?s) y)"
  proof (rule sys_ok_phase [OF assms(1,2)])
    fix b w assume p: "?p = Finishing (Inr ())" and b: "co_current ?s = Some b" "w \<in> set (wv_waiters b)"
    have "scanned = Inr ()" using p by (auto split: sum.splits)
    moreover have "b = c" using b(1) c(1) by simp
    moreover have "subseq [Request_Made w, Scan_Begins (wv_id c)] (sy_log y)"
      using log_ok_running [OF ok(1) c(1)] c(2) assms(3) b(2) \<open>b = c\<close> by simp
    ultimately show "subseq (served_in (wv_id b) w) (sy_log y @ [Scan_Ends (wt_wave (task_at ?s i)) scanned])"
      using subseq_snoc [of "[Request_Made w, Scan_Begins (wv_id c)]" "sy_log y" "Scan_Ends (wv_id c) (Inr ())"] c(2)
      by (simp add: served_in_def)
  qed (use assms(3) in simp_all)
  then show ?thesis by (simp add: scanned_step_def end_scan_def)
qed

lemma answered_now_waiting: "set (answered_now s) \<subseteq> set (waiting s)"
  by (auto simp: answered_now_def waiting_def)

lemma finish_events:
  assumes "state_ok s" "i < length (co_tasks s)" "wt_phase (task_at s i) \<noteq> Task_Over"
  shows "answers_since v s (end_task i result s) = map (\<lambda>w. Answered v w (verdict s result)) (answered_now s)"
  using end_task_facts [OF assms, of result] by (simp add: answers_since_def)

lemma finish_waiting:
  assumes "state_ok s" "i < length (co_tasks s)" "wt_phase (task_at s i) \<noteq> Task_Over"
  shows "set (waiting s) = set (answered_now s) \<union> set (waiting (end_task i result s))"
  using end_task_facts [OF assms, of result] by (simp add: answered_now_def waiting_def waiters_of_def)

lemma log_ok_finish:
  assumes ok: "state_ok s" "log_ok s log" and i: "i < length (co_tasks s)" "wt_phase (task_at s i) = Finishing result"
  shows "log_ok (end_task i result s) (log @ answers_since (wt_wave (task_at s i)) s (end_task i result s))"
proof -
  let ?v = "wt_wave (task_at s i)" and ?t = "end_task i result s"
  let ?es = "map (\<lambda>w. Answered ?v w (verdict s result)) (answered_now s)"
  have i': "wt_phase (task_at s i) \<noteq> Task_Over" using i(2) by simp
  note f = end_task_facts [OF ok(1) i(1) i', of result] and es = finish_events [OF ok(1) i(1) i', of ?v result]
    and wt = finish_waiting [OF ok(1) i(1) i', of result]
  have "tasks_ok s" using ok(1) by (simp add: state_ok_def)
  from live_at [OF this i(1) i'] obtain c where c: "co_current s = Some c" "task_fits c (task_at s i)"
    "live_tasks s = [task_at s i]" by metis
  have fresh: "fresh_log (log @ ?es)"
  proof (rule fresh_append)
    fix v w assume "Answered v w Wave_Complete \<in> set ?es"
    then have w: "v = ?v" "w \<in> set (answered_now s)" "verdict s result = Wave_Complete" by auto
    then have "\<not> co_poisoned s" "result = Inr ()" by (auto simp: verdict_def outcome_of_def split: if_splits sum.splits)
    then show "subseq (served_in v w) log"
      using log_ok_finishing [OF ok(2) c(1), of "task_at s i" w] c w i(2) by (simp add: answered_now_def waiters_of_def)
  qed (use ok(2) in \<open>simp add: log_ok_def\<close>)
  have final: "final_log (log @ ?es)"
    by (rule final_append) (use ok(2) answered_now_waiting [of s] in \<open>auto simp: log_ok_def intro!: final_others\<close>)
  have waits: "wv_phase b = Waiting_For_Operation" if "co_current ?t = Some b" for b
    using f that ok(1) c(1) by (auto simp: state_ok_def waves_ok_def apart_def split: if_splits option.splits)
  have "answers (log @ ?es) = co_sent ?t" using ok(2) f answers_map [of ?v "map (\<lambda>w. (w, verdict s result)) (answered_now s)"]
    by (simp add: log_ok_def comp_def)
  moreover have "\<forall>w. Request_Made w \<in> set (log @ ?es) \<longleftrightarrow> 0 < w \<and> w < co_next_waiter ?t"
    using ok(2) f by (auto simp: log_ok_def)
  moreover have "\<forall>w. 0 < w \<and> w < co_next_waiter ?t \<longrightarrow>
      w \<in> set (waiting ?t) \<or> Request_Left w \<in> set (log @ ?es) \<or> w \<in> fst ` set (co_sent ?t)"
  proof (intro allI impI)
    fix w assume "0 < w \<and> w < co_next_waiter ?t"
    then have "w \<in> set (waiting s) \<or> Request_Left w \<in> set log \<or> w \<in> fst ` set (co_sent s)"
      using ok(2) f unfolding log_ok_def by simp
    moreover have "fst ` set (co_sent ?t) = fst ` set (co_sent s) \<union> set (answered_now s)" using f by force
    ultimately show "w \<in> set (waiting ?t) \<or> Request_Left w \<in> set (log @ ?es) \<or> w \<in> fst ` set (co_sent ?t)"
      using wt by auto
  qed
  moreover have "\<forall>w. Request_Left w \<in> set (log @ ?es) \<longrightarrow> w < co_next_waiter ?t \<and> w \<notin> set (waiting ?t)"
  proof (intro allI impI)
    fix w assume "Request_Left w \<in> set (log @ ?es)"
    then have "Request_Left w \<in> set log" by auto
    then have "w < co_next_waiter s \<and> w \<notin> set (waiting s)" using ok(2) unfolding log_ok_def by blast
    then show "w < co_next_waiter ?t \<and> w \<notin> set (waiting ?t)" using f wt by simp
  qed
  moreover have "\<forall>b. co_current ?t = Some b \<longrightarrow>
      (wv_phase b = Running_Scan \<longrightarrow> (\<forall>w \<in> set (wv_waiters b). subseq [Request_Made w, Scan_Begins (wv_id b)] (log @ ?es))) \<and>
      (\<forall>t \<in> set (live_tasks ?t). wt_phase t = Finishing (Inr ()) \<longrightarrow>
         (\<forall>w \<in> set (wv_waiters b). subseq (served_in (wv_id b) w) (log @ ?es)))"
    using f waits by auto
  ultimately show ?thesis unfolding es log_ok_def using fresh final by blast
qed

lemma sys_ok_finish:
  assumes "sys_ok y" "i < task_count y" "task_phase_of y i = Finishing result"
  shows "sys_ok (finish_step i result y)"
  using assms log_ok_finish [of "sy_state y" "sy_log y" i result] state_ok_end_task [of "sy_state y" i result]
  by (simp add: sys_ok_def finish_step_def Let_def)

lemma sys_ok_poison:
  assumes "sys_ok y" shows "sys_ok (logged [] ((sy_state y)\<lparr>co_poisoned := True\<rparr>) y)"
proof -
  have "log_ok ((sy_state y)\<lparr>co_poisoned := True\<rparr>) (sy_log y) = log_ok (sy_state y) (sy_log y)"
    by (rule log_ok_frame) (simp_all add: waiting_def live_tasks_def)
  moreover have "state_ok ((sy_state y)\<lparr>co_poisoned := True\<rparr>) = state_ok (sy_state y)"
    by (simp add: state_ok_def waves_ok_def wave_fits_def token_cancelled_def tasks_ok_def live_tasks_def ids_ok_def
        waiting_def gauges_ok_def waves_present_def pending_length_def cong: option.case_cong)
  ultimately show ?thesis using assms by (simp add: sys_ok_def)
qed

lemma next_waiter_finish [simp]: "co_next_waiter (finish_wave v r s) = co_next_waiter s"
proof -
  have "co_next_waiter (promote_pending u) = co_next_waiter u" for u by (cases rule: promote_cases [of u])
  then show ?thesis by (simp add: finish_wave_def split: option.splits)
qed

lemma next_waiter_operation: "co_next_waiter (begin_operation i acquired released s) = co_next_waiter s"
  by (cases rule: begin_operation_cases [of i acquired released s]) simp_all

lemma next_waiter_request:
  assumes "co_next_waiter (sy_state (request_step permit cancelled y)) < usize_max"
  shows "co_next_waiter (sy_state y) < usize_max"
proof (cases rule: begin_request_cases [of permit cancelled "sy_state y"])
  case (turned_away e d)
  then show ?thesis using assms by (simp add: request_step_def)
next
  case (entered w s' d)
  from entered(2) have "co_next_waiter s' = count_up (co_next_waiter (sy_state y))" by (cases rule: enqueue_cases) simp
  then show ?thesis using assms entered(1) by (simp add: request_step_def count_up_def usize_simps)
qed

lemma next_waiter_leave: "co_next_waiter (sy_state (leave_step w reason y)) = co_next_waiter (sy_state y)"
proof (cases "exit_waiter w reason (sy_state y)")
  case (Inl e)
  then show ?thesis by (simp add: leave_step_def)
next
  case (Inr s')
  from Inr have "co_next_waiter s' = co_next_waiter (sy_state y)" by (cases rule: exit_cases)
  with Inr show ?thesis by (simp add: leave_step_def)
qed

lemma sys_ok_step:
  assumes "rec_step y z" "co_next_waiter (sy_state z) < usize_max" "co_next_waiter (sy_state y) < usize_max \<Longrightarrow> sys_ok y"
  shows "sys_ok z"
  using assms
proof (induction rule: rec_step.induct)
  case (rec_request y permit cancelled)
  then show ?case by (intro sys_ok_request) (use next_waiter_request in blast)
next
  case (rec_leave w y reason)
  then show ?case by (intro sys_ok_leave) (simp_all add: next_waiter_leave)
next
  case (rec_admission i y opened)
  then show ?case by (intro sys_ok_admission) (simp_all add: poll_admission_def split: if_splits)
next
  case (rec_operation i y acquired released)
  then show ?case by (intro sys_ok_operation) (simp_all add: operation_step_def Let_def next_waiter_operation)
next
  case (rec_scanned i y scanned released)
  then show ?case by (intro sys_ok_scanned) (simp_all add: scanned_step_def end_scan_def)
next
  case (rec_panic i y e)
  then show ?case by (intro sys_ok_panic) auto
next
  case (rec_finish i y result)
  then show ?case by (intro sys_ok_finish) (simp_all add: finish_step_def Let_def end_task_def)
next
  case (rec_poison y)
  then show ?case by (intro sys_ok_poison) simp
qed

lemma sys_ok_start: "sys_ok rec_start"
  by (auto simp: sys_ok_def rec_start_def coordinator_new_def no_diagnostics_def state_ok_def rec_state log_ok_def
      tasks_ok_def live_tasks_def)

lemma sys_ok_reachable:
  assumes "rec_reachable y" "co_next_waiter (sy_state y) < usize_max" shows "sys_ok y"
  using assms
proof (induction rule: rec_reachable.induct)
  case rec_init
  show ?case by (rule sys_ok_start)
next
  case (rec_next y z)
  show ?case by (rule sys_ok_step [OF rec_next(2,4,3)])
qed

section \<open>What the coordinator promises\<close>

text \<open>C8: A request that is told its reconciliation is complete was served by a scan that saw everything up to the
  request.  In every run of the coordinator, with requests, cancellations, deadlines, dropped callers, panics, failing
  scans and a poisoned mutex in any order, before the answer \<open>Wave_Complete\<close> of wave \<open>v\<close> to waiter \<open>w\<close> stand in this
  order the request of \<open>w\<close>, the begin of the scan of \<open>v\<close> and its successful end.  (While fewer than
  \<open>u64::MAX - 1\<close> waiters have been numbered.)\<close>

theorem reconcile_answers_fresh:
  assumes "rec_reachable y" "co_next_waiter (sy_state y) < usize_max"
    and "sy_log y = pre @ Answered v w Wave_Complete # post"
  shows "subseq [Request_Made w, Scan_Begins v, Scan_Ends v (Inr ())] pre"
  using sys_ok_reachable [OF assms(1,2)] assms(3) by (simp add: sys_ok_def log_ok_def fresh_log_def served_in_def)

text \<open>C10: The waves of the coordinator in every reachable state: at most one spawned task is not over, and it
  belongs to the current wave, so at most one scan runs; a pending wave has waiters and a current wave before it;
  the token of the current wave is cancelled exactly when its last waiter left before the scan, so a wave
  somebody waits for is never cancelled; no waiter stands in two places or gets two answers, and none is answered
  after it left; and the gauges count the waves and the pending waiters exactly.\<close>

theorem reconcile_waves_bounded:
  assumes "rec_reachable y" "co_next_waiter (sy_state y) < usize_max"
  shows "(case co_current (sy_state y) of
        None \<Rightarrow> live_tasks (sy_state y) = [] \<and> co_pending (sy_state y) = None
      | Some c \<Rightarrow> map wt_wave (live_tasks (sy_state y)) = [wv_id c] \<and>
          (token_cancelled (sy_state y) (wv_token c) \<longleftrightarrow> wv_phase c = Waiting_For_Operation \<and> wv_waiters c = []) \<and>
          (\<forall>p. co_pending (sy_state y) = Some p \<longrightarrow> wv_waiters p \<noteq> [] \<and> \<not> token_cancelled (sy_state y) (wv_token p))) \<and>
    distinct (waiting (sy_state y) @ map fst (answers (sy_log y))) \<and>
    (\<forall>before w after v outcome. sy_log y = before @ Request_Left w # after \<longrightarrow> Answered v w outcome \<notin> set after) \<and>
    rd_active_waves (co_diag (sy_state y)) = waves_present (sy_state y) \<and>
    rd_pending_waiters (co_diag (sy_state y)) = pending_length (sy_state y) \<and> co_active (sy_state y) = waves_present (sy_state y)"
proof -
  have ok: "waves_ok (sy_state y)" "tasks_ok (sy_state y)" "ids_ok (sy_state y)" "gauges_ok (sy_state y)"
    "log_ok (sy_state y) (sy_log y)"
    using sys_ok_reachable [OF assms] by (simp_all add: sys_ok_def state_ok_def)
  have "distinct (waiting (sy_state y) @ map fst (answers (sy_log y)))"
    using ok(3,5) by (simp add: ids_ok_def log_ok_def)
  moreover have "\<forall>before w after v outcome. sy_log y = before @ Request_Left w # after \<longrightarrow> Answered v w outcome \<notin> set after"
    using ok(5) unfolding log_ok_def final_log_def by blast
  ultimately show ?thesis
    using ok(1,2,4) by (auto simp: waves_ok_def wave_fits_def apart_def tasks_ok_def gauges_ok_def split: option.splits)
qed

lemma live_task_index:
  assumes "live_tasks s = [t]" shows "\<exists>i < length (co_tasks s). wt_phase (task_at s i) \<noteq> Task_Over"
proof -
  have "t \<in> set (live_tasks s)" using assms by simp
  then have "t \<in> set (co_tasks s)" "wt_phase t \<noteq> Task_Over" by (simp_all add: live_tasks_def)
  then show ?thesis by (auto simp: in_set_conv_nth task_at_def)
qed

lemma current_waiter_task:
  assumes "tasks_ok s" "w \<in> set (waiters_of (co_current s))"
  shows "\<exists>i < length (co_tasks s). wt_phase (task_at s i) \<noteq> Task_Over"
proof -
  obtain t where "live_tasks s = [t]" using assms by (auto simp: tasks_ok_def waiters_of_def split: option.splits)
  then show ?thesis by (rule live_task_index)
qed

lemma only_entry:
  "distinct (map fst xs) \<Longrightarrow> (k, v) \<in> set xs \<Longrightarrow> filter (\<lambda>a. fst a = k) xs = [(k, v)]"
proof (induction xs)
  case (Cons x xs)
  show ?case
  proof (cases "fst x = k")
    case True
    then have "k \<notin> fst ` set xs" using Cons.prems(1) by auto
    then have "\<forall>a \<in> set xs. fst a \<noteq> k" by blast
    moreover have "x = (k, v)" using Cons.prems True \<open>\<forall>a \<in> set xs. fst a \<noteq> k\<close> by auto
    ultimately show ?thesis by (simp add: filter_empty_conv)
  qed (use Cons in auto)
qed simp

lemma finish_moves_on:
  assumes "state_ok s" "w \<in> set (waiting s)" "i < length (co_tasks s)" "wt_phase (task_at s i) \<noteq> Task_Over"
  shows "w \<in> fst ` set (co_sent (end_task i result s)) \<or> w \<in> set (waiters_of (co_current (end_task i result s)))"
proof -
  have "co_pending (end_task i result s) = None" using end_task_facts [OF assms(1,3,4)] by simp
  moreover have "w \<in> set (answered_now s) \<or> w \<in> set (waiting (end_task i result s))"
    using assms(2) finish_waiting [OF assms(1,3,4), of result] by blast
  moreover have "set (answered_now s) \<subseteq> fst ` set (co_sent (end_task i result s))"
    using end_task_facts [OF assms(1,3,4), of result] by force
  ultimately show ?thesis by (auto simp: waiting_def waiters_of_def)
qed

lemma current_finish_answers:
  assumes "state_ok s" "w \<in> set (waiters_of (co_current s))" "i < length (co_tasks s)" "wt_phase (task_at s i) \<noteq> Task_Over"
  shows "w \<in> fst ` set (co_sent (end_task i result s))"
  using end_task_facts [OF assms(1,3,4), of result] assms(2) by (force simp: answered_now_def waiting_def)

lemma exit_error: "exit_waiter w reason s = Inl e \<Longrightarrow> e = State_Poisoned"
  by (auto simp: exit_waiter_def Let_def split: if_splits option.splits)

lemma poll_not_stopped:
  "received w s \<noteq> Some None \<Longrightarrow> fst (poll_request w cancelled elapsed s) \<noteq> Some (Inl Stopped_Unexpectedly)"
  by (auto simp: poll_request_def leave_with_def answer_result_def dest: exit_error
      split: option.splits sum.splits wave_outcome.splits if_splits)

text \<open>C9: No request is lost and none is told that the coordinator stopped.  In every reachable state the
  select of a request that was made and has not left does not return \<open>Stopped_Unexpectedly\<close>, and the request
  has either exactly one answer, or it waits in the current or the
  pending wave; then the receiver still waits for a message, some task of a wave is not over, and whatever result
  that task finishes with answers the request, or makes the pending wave the current one with a task of its own
  whose end answers it.\<close>

theorem no_request_is_lost:
  assumes "rec_reachable y" "co_next_waiter (sy_state y) < usize_max"
    and "Request_Made w \<in> set (sy_log y)" "Request_Left w \<notin> set (sy_log y)"
  shows "(\<forall>cancelled elapsed. fst (poll_request w cancelled elapsed (sy_state y)) \<noteq> Some (Inl Stopped_Unexpectedly)) \<and>
    ((\<exists>outcome. filter (\<lambda>a. fst a = w) (answers (sy_log y)) = [(w, outcome)] \<and>
      received w (sy_state y) = Some (Some outcome)) \<or>
    received w (sy_state y) = None \<and>
    (\<exists>i < task_count y. task_phase_of y i \<noteq> Task_Over \<and> (\<forall>result. let s = end_task i result (sy_state y) in
       w \<in> fst ` set (co_sent s) \<or>
       (\<exists>j < length (co_tasks s). wt_phase (task_at s j) \<noteq> Task_Over \<and> (\<forall>r. w \<in> fst ` set (co_sent (end_task j r s)))))))"
proof -
  let ?s = "sy_state y"
  have ok: "state_ok ?s" "log_ok ?s (sy_log y)" using sys_ok_reachable [OF assms(1,2)] by (simp_all add: sys_ok_def)
  have sent: "answers (sy_log y) = co_sent ?s" using ok(2) by (simp add: log_ok_def)
  have once: "distinct (map fst (co_sent ?s))" "set (waiting ?s) \<inter> fst ` set (co_sent ?s) = {}" "tasks_ok ?s"
    using ok(1) by (simp_all add: state_ok_def ids_ok_def)
  consider outcome where "(w, outcome) \<in> set (co_sent ?s)" | "w \<in> set (waiting ?s)"
  proof -
    have "0 < w \<and> w < co_next_waiter ?s" using ok(2) assms(3) unfolding log_ok_def by simp
    then have "w \<in> set (waiting ?s) \<or> w \<in> fst ` set (co_sent ?s)" using ok(2) assms(4) unfolding log_ok_def by blast
    then show ?thesis using that by auto
  qed
  then show ?thesis
  proof cases
    case (1 outcome)
    then have "filter (\<lambda>a. fst a = w) (co_sent ?s) = [(w, outcome)]" "map_of (co_sent ?s) w = Some outcome"
      using once(1) by (auto simp: only_entry)
    then show ?thesis by (simp add: sent received_def poll_not_stopped)
  next
    case 2
    then have "map_of (co_sent ?s) w = None" using once(2) by (auto simp: map_of_eq_None_iff)
    then have waits: "received w ?s = None" using 2 by (simp add: received_def sender_alive_def waiting_def)
    have "waves_ok ?s" using ok(1) by (simp add: state_ok_def)
    then have "co_current ?s \<noteq> None" using 2 by (cases "co_current ?s") (simp_all add: waiting_def waiters_of_def waves_ok_def)
    then obtain t where "live_tasks ?s = [t]" using once(3) by (auto simp: tasks_ok_def)
    from live_task_index [OF this] obtain i where i: "i < task_count y" "task_phase_of y i \<noteq> Task_Over" by blast
    have "w \<in> fst ` set (co_sent s) \<or>
        (\<exists>j < length (co_tasks s). wt_phase (task_at s j) \<noteq> Task_Over \<and> (\<forall>r. w \<in> fst ` set (co_sent (end_task j r s))))"
      if s: "s = end_task i result ?s" for s result
    proof (cases "w \<in> set (waiters_of (co_current s))")
      case True
      have st: "state_ok s" unfolding s by (rule state_ok_end_task [OF ok(1) i])
      then have "tasks_ok s" by (simp add: state_ok_def)
      from current_waiter_task [OF this True] obtain j where "j < length (co_tasks s)" "wt_phase (task_at s j) \<noteq> Task_Over"
        by blast
      then show ?thesis using current_finish_answers [OF st True] by blast
    next
      case False
      then show ?thesis using finish_moves_on [OF ok(1) 2 i, of result] unfolding s by blast
    qed
    then have "\<forall>result. let s = end_task i result ?s in w \<in> fst ` set (co_sent s) \<or>
        (\<exists>j < length (co_tasks s). wt_phase (task_at s j) \<noteq> Task_Over \<and> (\<forall>r. w \<in> fst ` set (co_sent (end_task j r s))))"
      by (simp add: Let_def)
    moreover have "received w ?s \<noteq> Some None" using waits by simp
    ultimately show ?thesis using waits i poll_not_stopped [of w ?s] by blast
  qed
qed

section \<open>Samples\<close>

text \<open>Two requests: the second arrives while the scan for the first runs, so it waits for the next wave.\<close>

definition sample_request :: rec_system where
  "sample_request = request_step True False rec_start"

definition sample_admitted :: rec_system where
  "sample_admitted = logged [] (poll_admission 0 True (sy_state sample_request)) sample_request"

definition sample_scanning :: rec_system where
  "sample_scanning = operation_step 0 (Inr ()) (Inr ()) sample_admitted"

definition sample_second :: rec_system where
  "sample_second = request_step True False sample_scanning"

definition sample_scanned :: rec_system where
  "sample_scanned = scanned_step 0 (Inr ()) (Inr ()) sample_second"

definition sample_finished :: rec_system where
  "sample_finished = finish_step 0 (Inr ()) sample_scanned"

lemma sample_phases:
  "task_count sample_request = 1 \<and> task_phase_of sample_request 0 = At_Admission"
  "task_count sample_admitted = 1 \<and> task_phase_of sample_admitted 0 = At_Operation"
  "task_count sample_second = 1 \<and> task_phase_of sample_second 0 = Scanning"
  "task_count sample_scanned = 1 \<and> task_phase_of sample_scanned 0 = Finishing (Inr ())"
  by code_simp+

lemma sample_outcome:
  "co_next_waiter (sy_state sample_finished) = 3"
  "sy_log sample_finished =
     [Request_Made 1, Scan_Begins 1, Request_Made 2, Scan_Ends 1 (Inr ()), Answered 1 1 Wave_Complete]"
  "received 2 (sy_state sample_finished) = None"
  by code_simp+

lemma sample_reachable: "rec_reachable sample_finished"
proof -
  have "rec_reachable sample_request" unfolding sample_request_def by (rule rec_next [OF rec_init rec_request])
  then have "rec_reachable sample_admitted" unfolding sample_admitted_def
    by (rule rec_next) (rule rec_admission, use sample_phases in simp_all)
  then have "rec_reachable sample_scanning" unfolding sample_scanning_def
    by (rule rec_next) (rule rec_operation, use sample_phases in simp_all)
  then have "rec_reachable sample_second" unfolding sample_second_def by (rule rec_next [OF _ rec_request])
  then have "rec_reachable sample_scanned" unfolding sample_scanned_def
    by (rule rec_next) (rule rec_scanned, use sample_phases in simp_all)
  then show ?thesis unfolding sample_finished_def
    by (rule rec_next) (rule rec_finish, use sample_phases in simp_all)
qed

lemma sample_bound: "co_next_waiter (sy_state sample_finished) < usize_max"
  by (simp add: sample_outcome usize_max_def)

theorem reconcile_answers_fresh_witness:
  "subseq [Request_Made 1, Scan_Begins 1, Scan_Ends 1 (Inr ())]
     [Request_Made 1, Scan_Begins 1, Request_Made 2, Scan_Ends 1 (Inr ())]"
  by (rule reconcile_answers_fresh [OF sample_reachable sample_bound, of _ 1 1 "[]"]) (simp add: sample_outcome)

theorem reconcile_waves_bounded_witness:
  "distinct (waiting (sy_state sample_finished) @ map fst (answers (sy_log sample_finished)))"
  using reconcile_waves_bounded [OF sample_reachable sample_bound] by blast

theorem no_request_is_lost_witness:
  "\<exists>i < task_count sample_finished. task_phase_of sample_finished i \<noteq> Task_Over"
  using no_request_is_lost [OF sample_reachable sample_bound, of 2] by (auto simp: sample_outcome)

end
