(* ===== verification/Json_Projection.thy ===== *)
theory Json_Projection
  imports Tokens
begin

text \<open>
  The projections of JSON values under an item budget (\<open>src/services/json/projection.rs\<close>, \<open>collapsed.rs\<close>
  and the streaming part of \<open>keys.rs\<close>).  A \<open>serde_json\<close> object is the list of its entries in iteration
  order; inserting a new key appends.  Numbers are their printed form.
\<close>

section \<open>Values and the budget\<close>

datatype json_projection = Project_Value | Project_Collapsed | Project_Keys | Project_Schema

datatype json_error =
    Json_Limit_Exceeded string nat nat
  | Json_Invalid_Input string string
  | Json_Stale_Cursor
  | Json_Failure string

record projection_state =
  ps_remaining :: usize
  ps_array_sample_size :: usize
  ps_complete :: bool

definition projection_state_new :: "usize \<Rightarrow> usize \<Rightarrow> projection_state" where
  "projection_state_new max_items array_sample_size =
     \<lparr>ps_remaining = max_items, ps_array_sample_size = array_sample_size, ps_complete = True\<rparr>"

definition mark_incomplete :: "projection_state \<Rightarrow> projection_state" where
  "mark_incomplete st = st\<lparr>ps_complete := False\<rparr>"

definition take_item :: "projection_state \<Rightarrow> bool \<times> projection_state" where
  "take_item st =
     (if ps_remaining st = 0 then (False, mark_incomplete st) else (True, st\<lparr>ps_remaining := ps_remaining st - 1\<rparr>))"

fun json_type :: "json \<Rightarrow> string" where
  "json_type JNull = ''null''"
| "json_type (JBool _) = ''boolean''"
| "json_type (JNumber _) = ''number''"
| "json_type (JString _) = ''string''"
| "json_type (JArray _) = ''array''"
| "json_type (JObject _) = ''object''"

definition sat_sum :: "usize list \<Rightarrow> usize" where
  "sat_sum ns = foldl sat_add 0 ns"

fun count_nodes :: "json \<Rightarrow> usize" where
  "count_nodes (JArray vs) = sat_add 1 (sat_sum (map count_nodes vs))"
| "count_nodes (JObject kvs) = sat_add 1 (sat_sum (map (\<lambda>(_, v). count_nodes v) kvs))"
| "count_nodes _ = 1"

definition escape_pointer :: "string \<Rightarrow> string" where
  "escape_pointer s = concat (map (\<lambda>c. if c = CHR ''/'' then ''~1'' else [c])
     (concat (map (\<lambda>c. if c = CHR ''~'' then ''~0'' else [c]) s)))"

text \<open>The numbers of \<open>json!\<close> are \<open>usize\<close>.\<close>

definition json_usize :: "usize \<Rightarrow> json" where
  "json_usize n = JNumber (show_nat n)"

section \<open>Collapsed projection\<close>

function collapsed_item_count :: "json \<Rightarrow> usize \<Rightarrow> usize" where
  "collapsed_item_count (JArray vs) k = sat_add 1 (sat_sum (map (\<lambda>v. collapsed_item_count v k) (take k vs)))"
| "collapsed_item_count (JObject kvs) k = sat_add 1 (sat_sum (map (\<lambda>(_, v). collapsed_item_count v k) kvs))"
| "collapsed_item_count JNull k = 1"
| "collapsed_item_count (JBool b) k = 1"
| "collapsed_item_count (JNumber n) k = 1"
| "collapsed_item_count (JString s) k = 1"
  by pat_completeness auto

lemma size_member_pair: "(a, b) \<in> set kvs \<Longrightarrow> size b < Suc (size_list (size_prod (\<lambda>_. 0) size) kvs)"
  by (induction kvs) auto

lemma size_member: "v \<in> set vs \<Longrightarrow> size v < Suc (size_list size vs)"
  by (induction vs) auto

termination collapsed_item_count
  by (relation "measure (\<lambda>(v, _). size v)")
    (auto dest!: in_set_takeD intro: size_member size_member_pair)

definition array_summary :: "nat \<Rightarrow> json list \<Rightarrow> json" where
  "array_summary n sample = JObject [(''$array'',
     JObject [(''count'', json_usize n), (''sample'', JArray sample), (''omitted'', json_usize (n - length sample))])]"

text \<open>\<open>collapse_elements\<close> is the loop over at most \<open>k\<close> elements, \<open>collapse_fields\<close> the loop over an object.\<close>

function collapse_json :: "json \<Rightarrow> projection_state \<Rightarrow> json \<times> projection_state"
  and collapse_elements :: "nat \<Rightarrow> json list \<Rightarrow> projection_state \<Rightarrow> json list \<times> projection_state"
  and collapse_fields :: "(string \<times> json) list \<Rightarrow> projection_state \<Rightarrow> (string \<times> json) list \<times> projection_state" where
  "collapse_json v st =
     (let (taken, st) = take_item st in
      if \<not> taken then (JNull, st)
      else case v of
        JArray vs \<Rightarrow> (let (sample, st) = collapse_elements (ps_array_sample_size st) vs st in (array_summary (length vs) sample, st))
      | JObject kvs \<Rightarrow> (let (projected, st) = collapse_fields kvs st in (JObject projected, st))
      | _ \<Rightarrow> (v, st))"
| "collapse_elements k [] st = ([], st)"
| "collapse_elements k (v # vs) st =
     (if k = 0 then ([], st)
      else if ps_remaining st = 0 then ([], mark_incomplete st)
      else let (w, st) = collapse_json v st; (ws, st) = collapse_elements (k - 1) vs st in (w # ws, st))"
| "collapse_fields [] st = ([], st)"
| "collapse_fields ((key, v) # kvs) st =
     (if ps_remaining st = 0 then ([], mark_incomplete st)
      else let (w, st) = collapse_json v st; (rest, st) = collapse_fields kvs st in ((key, w) # rest, st))"
  by pat_completeness auto

termination
  by (relation "measure (\<lambda>x. case x of Inl (v, _) \<Rightarrow> size v
      | Inr (Inl (_, vs, _)) \<Rightarrow> size_list size vs
      | Inr (Inr (kvs, _)) \<Rightarrow> size_list (\<lambda>kv. Suc (size (snd kv))) kvs)")
    (auto simp: size_prod_simp)

declare collapse_json.simps [simp del]

section \<open>Keys under the budget\<close>

text \<open>A \<open>BTreeMap\<close> by pointer.\<close>

type_synonym 'a pointer_map = "(string \<times> 'a) list"

fun pointer_insert :: "string \<Rightarrow> 'a \<Rightarrow> 'a pointer_map \<Rightarrow> 'a pointer_map" where
  "pointer_insert p x [] = [(p, x)]"
| "pointer_insert p x ((q, y) # m) =
     (if p < q then (p, x) # (q, y) # m else if p = q then (p, x) # m else (q, y) # pointer_insert p x m)"

definition contains_pointer :: "'a pointer_map \<Rightarrow> string \<Rightarrow> bool" where
  "contains_pointer m p \<longleftrightarrow> p \<in> fst ` set m"

definition field_pointer :: "string \<Rightarrow> string \<Rightarrow> string" where
  "field_pointer pointer key = pointer @ ''/'' @ escape_pointer key"

definition element_pointer :: "string \<Rightarrow> string" where
  "element_pointer pointer = pointer @ ''/*''"

text \<open>The first lines of \<open>collect_keys\<close>: a new pointer needs an item, a known one does not.\<close>

definition visit_pointer ::
  "json \<Rightarrow> string \<Rightarrow> string pointer_map \<times> projection_state \<Rightarrow> bool \<times> string pointer_map \<times> projection_state" where
  "visit_pointer v pointer ks =
     (if contains_pointer (fst ks) pointer then (True, ks)
      else let (taken, st) = take_item (snd ks) in
        if taken then (True, pointer_insert pointer (json_type v) (fst ks), st) else (False, fst ks, st))"

function collect_keys :: "json \<Rightarrow> string \<Rightarrow> string pointer_map \<times> projection_state \<Rightarrow> string pointer_map \<times> projection_state"
  and collect_fields :: "(string \<times> json) list \<Rightarrow> string \<Rightarrow> string pointer_map \<times> projection_state \<Rightarrow>
    string pointer_map \<times> projection_state"
  and collect_elements :: "json list \<Rightarrow> string \<Rightarrow> string pointer_map \<times> projection_state \<Rightarrow>
    string pointer_map \<times> projection_state" where
  "collect_keys v pointer ks =
     (let go = fst (visit_pointer v pointer ks); ks' = snd (visit_pointer v pointer ks) in
      if \<not> go then ks'
      else case v of
        JObject kvs \<Rightarrow> collect_fields kvs pointer ks'
      | JArray vs \<Rightarrow> collect_elements vs (element_pointer pointer) ks'
      | _ \<Rightarrow> ks')"
| "collect_fields [] pointer ks = ks"
| "collect_fields (kv # kvs) pointer ks =
     collect_fields kvs pointer (collect_keys (snd kv) (field_pointer pointer (fst kv)) ks)"
| "collect_elements [] pointer ks = ks"
| "collect_elements (v # vs) pointer ks = collect_elements vs pointer (collect_keys v pointer ks)"
  by pat_completeness auto

termination
  by (relation "measure (\<lambda>x. case x of Inl (v, _) \<Rightarrow> size v
      | Inr (Inl (kvs, _)) \<Rightarrow> size_list (\<lambda>kv. Suc (size (snd kv))) kvs
      | Inr (Inr (vs, _)) \<Rightarrow> size_list size vs)")
    (auto simp: size_prod_simp)

declare collect_keys.simps [simp del]

definition key_entry :: "string \<Rightarrow> string \<Rightarrow> json" where
  "key_entry pointer value_type = JObject [(''pointer'', JString pointer), (''type'', JString value_type)]"

section \<open>The full key enumeration\<close>

datatype json_key_order = Pointer_Order | Depth_Then_Pointer

function collect_all_keys :: "json \<Rightarrow> string \<Rightarrow> usize \<Rightarrow> usize option \<Rightarrow> (usize \<times> string) pointer_map \<Rightarrow> (usize \<times> string) pointer_map"
  and collect_all_fields :: "(string \<times> json) list \<Rightarrow> string \<Rightarrow> usize \<Rightarrow> usize option \<Rightarrow> (usize \<times> string) pointer_map \<Rightarrow>
    (usize \<times> string) pointer_map"
  and collect_all_elements :: "json list \<Rightarrow> string \<Rightarrow> usize \<Rightarrow> usize option \<Rightarrow> (usize \<times> string) pointer_map \<Rightarrow>
    (usize \<times> string) pointer_map" where
  "collect_all_keys v pointer depth max_depth keys0 =
     (let keys = (if contains_pointer keys0 pointer then keys0 else pointer_insert pointer (depth, json_type v) keys0) in
      if (case max_depth of None \<Rightarrow> False | Some maximum \<Rightarrow> maximum \<le> depth) then keys
      else case v of
        JObject kvs \<Rightarrow> collect_all_fields kvs pointer (sat_add depth 1) max_depth keys
      | JArray vs \<Rightarrow> collect_all_elements vs (element_pointer pointer) (sat_add depth 1) max_depth keys
      | _ \<Rightarrow> keys)"
| "collect_all_fields [] pointer depth max_depth keys = keys"
| "collect_all_fields ((key, v) # kvs) pointer depth max_depth keys =
     collect_all_fields kvs pointer depth max_depth (collect_all_keys v (field_pointer pointer key) depth max_depth keys)"
| "collect_all_elements [] pointer depth max_depth keys = keys"
| "collect_all_elements (v # vs) pointer depth max_depth keys =
     collect_all_elements vs pointer depth max_depth (collect_all_keys v pointer depth max_depth keys)"
  by pat_completeness auto

termination
  by (relation "measure (\<lambda>x. case x of Inl (v, _) \<Rightarrow> size v
      | Inr (Inl (kvs, _)) \<Rightarrow> size_list (\<lambda>kv. Suc (size (snd kv))) kvs
      | Inr (Inr (vs, _)) \<Rightarrow> size_list size vs)")
    (auto simp: size_prod_simp)

declare collect_all_keys.simps [simp del]

definition depth_cmp :: "string \<times> usize \<times> string \<Rightarrow> string \<times> usize \<times> string \<Rightarrow> ordering" where
  "depth_cmp l r = then_with (ord_cmp (fst (snd l)) (fst (snd r))) (ord_cmp (fst l) (fst r))"

definition key_entries :: "json \<Rightarrow> usize option \<Rightarrow> json_key_order \<Rightarrow> json list" where
  "key_entries v max_depth order =
     (let keys = collect_all_keys v [] 0 max_depth [];
          entries = (case order of Pointer_Order \<Rightarrow> keys | Depth_Then_Pointer \<Rightarrow> sort_by depth_cmp keys)
      in map (\<lambda>(pointer, _, value_type). key_entry pointer value_type) entries)"

section \<open>The projections\<close>

definition projection_item_count :: "json \<Rightarrow> json_projection \<Rightarrow> usize \<Rightarrow> usize" where
  "projection_item_count v projection array_sample_size =
     (case projection of
        Project_Value \<Rightarrow> count_nodes v
      | Project_Schema \<Rightarrow> count_nodes v
      | Project_Collapsed \<Rightarrow> collapsed_item_count v array_sample_size
      | Project_Keys \<Rightarrow> length (key_entries v None Pointer_Order))"

definition project_json :: "json \<Rightarrow> json_projection \<Rightarrow> projection_state \<Rightarrow> json_error + json \<times> projection_state" where
  "project_json v projection st =
     (case projection of
        Project_Value \<Rightarrow>
          (let items = count_nodes v in
           if ps_remaining st < items then Inl (Json_Limit_Exceeded ''selected JSON items'' items (ps_remaining st))
           else Inr (v, st\<lparr>ps_remaining := ps_remaining st - items\<rparr>))
      | Project_Collapsed \<Rightarrow> Inr (collapse_json v st)
      | Project_Keys \<Rightarrow>
          (let (keys, st) = collect_keys v [] ([], st) in Inr (JArray (map (\<lambda>(p, t). key_entry p t) keys), st))
      | Project_Schema \<Rightarrow> Inl (Json_Invalid_Input ''projection'' ''schema projection requires bounded schema execution''))"

end
