(* ===== verification/Json_Budget.thy ===== *)
theory Json_Budget
  imports Json_Projection
begin

text \<open>
  The item budget of the JSON projections: what a projection takes from the budget is the number of items announced
  for it, it is complete exactly when the budget covers them, and a complete projection is the unbounded one.
\<close>

section \<open>Exact counts\<close>

function collapsed_total :: "nat \<Rightarrow> json \<Rightarrow> nat" where
  "collapsed_total k (JArray vs) = 1 + sum_list (map (collapsed_total k) (take k vs))"
| "collapsed_total k (JObject kvs) = 1 + sum_list (map (\<lambda>(_, v). collapsed_total k v) kvs)"
| "collapsed_total k JNull = 1"
| "collapsed_total k (JBool b) = 1"
| "collapsed_total k (JNumber n) = 1"
| "collapsed_total k (JString s) = 1"
  by pat_completeness auto

termination collapsed_total
  by (relation "measure (\<lambda>(_, v). size v)")
    (auto dest!: in_set_takeD intro: size_member size_member_pair)

text \<open>The collapsed value without a budget.\<close>

function collapsed :: "nat \<Rightarrow> json \<Rightarrow> json" where
  "collapsed k (JArray vs) = array_summary (length vs) (map (collapsed k) (take k vs))"
| "collapsed k (JObject kvs) = JObject (map (\<lambda>(key, v). (key, collapsed k v)) kvs)"
| "collapsed k JNull = JNull"
| "collapsed k (JBool b) = JBool b"
| "collapsed k (JNumber n) = JNumber n"
| "collapsed k (JString s) = JString s"
  by pat_completeness auto

termination collapsed
  by (relation "measure (\<lambda>(_, v). size v)")
    (auto dest!: in_set_takeD intro: size_member size_member_pair)

lemma foldl_sat_add: "a \<le> usize_max \<Longrightarrow> foldl sat_add a ns = min (a + sum_list ns) usize_max"
  by (induction ns arbitrary: a) (auto simp: usize_simps)

lemma sat_sum_min: "sat_sum ns = min (sum_list ns) usize_max"
  by (simp add: sat_sum_def foldl_sat_add)

lemma sum_list_min: "min (sum_list (map (\<lambda>x. min (f x) M) xs)) M = min (sum_list (map f xs)) (M :: nat)"
  by (induction xs) auto

lemma sat_count:
  "sat_add 1 (sat_sum (map (\<lambda>x. min (f x) usize_max) xs)) = min (1 + sum_list (map f xs)) usize_max"
  using sum_list_min [of f usize_max xs] by (simp add: sat_sum_min usize_simps)

lemma one_le_usize_max [simp]: "1 \<le> usize_max" "min 1 usize_max = 1" "Suc 0 \<le> usize_max" "min (Suc 0) usize_max = Suc 0"
  by (simp_all add: usize_max_def)

lemma collapsed_item_count_total: "collapsed_item_count v k = min (collapsed_total k v) usize_max"
proof (induction k v rule: collapsed_total.induct)
  case (1 k vs)
  then have "map (\<lambda>v. collapsed_item_count v k) (take k vs) = map (\<lambda>v. min (collapsed_total k v) usize_max) (take k vs)" by simp
  then show ?case unfolding collapsed_item_count.simps collapsed_total.simps using sat_count [of "collapsed_total k" "take k vs"] by metis
next
  case (2 k kvs)
  then have "map (\<lambda>(_, v). collapsed_item_count v k) kvs = map (\<lambda>x. min ((\<lambda>(_, v). collapsed_total k v) x) usize_max) kvs"
    by (auto intro!: map_cong)
  then show ?case unfolding collapsed_item_count.simps collapsed_total.simps
    using sat_count [of "\<lambda>(_, v). collapsed_total k v" kvs] by metis
qed simp_all

section \<open>Collapsing\<close>

text \<open>\<open>n\<close> items taken from a budget: all of them, or what is left.\<close>

definition takes :: "nat \<Rightarrow> projection_state \<Rightarrow> projection_state \<Rightarrow> bool" where
  "takes n st st' \<longleftrightarrow> ps_remaining st' = ps_remaining st - n \<and> ps_array_sample_size st' = ps_array_sample_size st \<and>
     ps_complete st' = (ps_complete st \<and> n \<le> ps_remaining st)"

lemma takes_none [simp]: "takes 0 st st"
  by (simp add: takes_def)

lemma takes_trans: "takes n st st' \<Longrightarrow> takes m st' st'' \<Longrightarrow> takes (n + m) st st''"
  by (auto simp: takes_def)

lemma takes_item: "0 < ps_remaining st \<Longrightarrow> takes 1 st (st\<lparr>ps_remaining := ps_remaining st - 1\<rparr>)"
  by (auto simp: takes_def)

lemma takes_refused: "ps_remaining st = 0 \<Longrightarrow> 0 < n \<Longrightarrow> takes n st (mark_incomplete st)"
  by (auto simp: takes_def mark_incomplete_def)

lemma takes_sample: "takes n st st' \<Longrightarrow> ps_array_sample_size st' = ps_array_sample_size st"
  by (simp add: takes_def)

lemma takes_fits: "takes n st st' \<Longrightarrow> n + m \<le> ps_remaining st \<Longrightarrow> m \<le> ps_remaining st'"
  by (simp add: takes_def)

lemma collapsed_total_pos [simp]: "0 < collapsed_total k v" "collapsed_total k v \<noteq> 0"
  by (cases v; simp)+

lemma collapse_takes:
  shows "takes (collapsed_total (ps_array_sample_size st) v) st (snd (collapse_json v st)) \<and>
      (collapsed_total (ps_array_sample_size st) v \<le> ps_remaining st \<longrightarrow>
        fst (collapse_json v st) = collapsed (ps_array_sample_size st) v)"
    and "takes (sum_list (map (collapsed_total (ps_array_sample_size st)) (take j vs))) st (snd (collapse_elements j vs st)) \<and>
      (sum_list (map (collapsed_total (ps_array_sample_size st)) (take j vs)) \<le> ps_remaining st \<longrightarrow>
        fst (collapse_elements j vs st) = map (collapsed (ps_array_sample_size st)) (take j vs))"
    and "takes (sum_list (map (\<lambda>(_, v). collapsed_total (ps_array_sample_size st) v) kvs)) st (snd (collapse_fields kvs st)) \<and>
      (sum_list (map (\<lambda>(_, v). collapsed_total (ps_array_sample_size st) v) kvs) \<le> ps_remaining st \<longrightarrow>
        fst (collapse_fields kvs st) = map (\<lambda>(key, v). (key, collapsed (ps_array_sample_size st) v)) kvs)"
proof (induction v st and j vs st and kvs st rule: collapse_json_collapse_elements_collapse_fields.induct)
  case (1 v st)
  show ?case
  proof (cases "ps_remaining st = 0")
    case True
    then show ?thesis by (simp add: collapse_json.simps take_item_def takes_refused)
  next
    case False
    let ?st = "st\<lparr>ps_remaining := ps_remaining st - 1\<rparr>"
    have item: "take_item st = (True, ?st)" using False by (simp add: take_item_def)
    have one: "takes 1 st ?st" using False by (intro takes_item) simp
    show ?thesis
    proof (cases v)
      case (JArray vs)
      let ?n = "sum_list (map (collapsed_total (ps_array_sample_size st)) (take (ps_array_sample_size st) vs))"
      have ih: "takes ?n ?st (snd (collapse_elements (ps_array_sample_size st) vs ?st)) \<and>
          (?n \<le> ps_remaining st - 1 \<longrightarrow> fst (collapse_elements (ps_array_sample_size st) vs ?st) =
            map (collapsed (ps_array_sample_size st)) (take (ps_array_sample_size st) vs))"
        using 1(1) [OF item [symmetric] refl _ JArray] by simp
      show ?thesis
        using takes_trans [OF one conjunct1 [OF ih]] ih False
        by (auto simp: collapse_json.simps item JArray split_beta)
    next
      case (JObject kvs)
      let ?n = "sum_list (map (\<lambda>(_, v). collapsed_total (ps_array_sample_size st) v) kvs)"
      have ih: "takes ?n ?st (snd (collapse_fields kvs ?st)) \<and>
          (?n \<le> ps_remaining st - 1 \<longrightarrow> fst (collapse_fields kvs ?st) = map (\<lambda>(key, v). (key, collapsed (ps_array_sample_size st) v)) kvs)"
        using 1(2) [OF item [symmetric] refl _ JObject] by simp
      show ?thesis
        using takes_trans [OF one conjunct1 [OF ih]] ih False
        by (auto simp: collapse_json.simps item JObject split_beta)
    qed (use one in \<open>simp_all add: collapse_json.simps item\<close>)
  qed
next
  case (2 k st)
  then show ?case by simp
next
  case (3 k v vs st)
  show ?case
  proof (cases "k = 0 \<or> ps_remaining st = 0")
    case True
    then show ?thesis by (cases k) (auto simp: takes_refused)
  next
    case False
    obtain j where k: "k = Suc j" using False by (cases k) auto
    let ?t = "collapsed_total (ps_array_sample_size st)"
    obtain w st1 where 1: "collapse_json v st = (w, st1)" by force
    obtain ws st2 where 2: "collapse_elements j vs st1 = (ws, st2)" by force
    have a: "takes (?t v) st st1" "?t v \<le> ps_remaining st \<Longrightarrow> w = collapsed (ps_array_sample_size st) v"
      using "3.IH"(1) False 1 by auto
    have size: "ps_array_sample_size st1 = ps_array_sample_size st" using takes_sample [OF a(1)] .
    have b: "takes (sum_list (map ?t (take j vs))) st1 st2"
      "sum_list (map ?t (take j vs)) \<le> ps_remaining st1 \<Longrightarrow> ws = map (collapsed (ps_array_sample_size st)) (take j vs)"
      using "3.IH"(2) [OF _ _ 1 [symmetric] refl] False k 2 size by auto
    show ?thesis
      using takes_trans [OF a(1) b(1)] a(2) b(2) takes_fits [OF a(1), of "sum_list (map ?t (take j vs))"] False 1 2
      by (simp add: k)
  qed
next
  case (4 st)
  then show ?case by simp
next
  case (5 key v kvs st)
  show ?case
  proof (cases "ps_remaining st = 0")
    case True
    then show ?thesis by (auto simp: takes_refused)
  next
    case False
    let ?t = "collapsed_total (ps_array_sample_size st)"
    let ?n = "sum_list (map (\<lambda>(_, v). ?t v) kvs)"
    obtain w st1 where 1: "collapse_json v st = (w, st1)" by force
    obtain rest st2 where 2: "collapse_fields kvs st1 = (rest, st2)" by force
    have a: "takes (?t v) st st1" "?t v \<le> ps_remaining st \<Longrightarrow> w = collapsed (ps_array_sample_size st) v"
      using "5.IH"(1) False 1 by auto
    have size: "ps_array_sample_size st1 = ps_array_sample_size st" using takes_sample [OF a(1)] .
    have b: "takes ?n st1 st2"
      "?n \<le> ps_remaining st1 \<Longrightarrow> rest = map (\<lambda>(key, v). (key, collapsed (ps_array_sample_size st) v)) kvs"
      using "5.IH"(2) [OF _ 1 [symmetric] refl] False 2 size by auto
    show ?thesis
      using takes_trans [OF a(1) b(1)] a(2) b(2) takes_fits [OF a(1), of ?n] False 1 2 by simp
  qed
qed
section \<open>Keys\<close>

text \<open>The pointers in the order of the traversal, each with the type found there.\<close>

fun key_visits :: "json \<Rightarrow> string \<Rightarrow> (string \<times> string) list" where
  "key_visits (JObject kvs) p = (p, ''object'') # concat (map (\<lambda>(key, v). key_visits v (field_pointer p key)) kvs)"
| "key_visits (JArray vs) p = (p, ''array'') # concat (map (\<lambda>v. key_visits v (element_pointer p)) vs)"
| "key_visits v p = [(p, json_type v)]"

text \<open>The first visit of a pointer decides.\<close>

definition absorb :: "(string \<times> 'a) list \<Rightarrow> 'a pointer_map \<Rightarrow> 'a pointer_map" where
  "absorb visits keys = fold (\<lambda>(p, x) m. if contains_pointer m p then m else pointer_insert p x m) visits keys"

abbreviation pointers :: "'a pointer_map \<Rightarrow> string set" where
  "pointers m \<equiv> fst ` set m"

lemma absorb_simps [simp]:
  "absorb [] m = m" "absorb ((p, x) # vs) m = absorb vs (if contains_pointer m p then m else pointer_insert p x m)"
  "absorb (us @ vs) m = absorb vs (absorb us m)"
  by (simp_all add: absorb_def)

lemma pointers_insert [simp]: "pointers (pointer_insert p x m) = insert p (pointers m)"
  by (induction p x m rule: pointer_insert.induct) auto

lemma pointers_absorb: "pointers (absorb vs m) = pointers m \<union> pointers vs"
proof (induction vs arbitrary: m)
  case (Cons v vs)
  obtain p x where v: "v = (p, x)" by (cases v)
  have "pointers (if contains_pointer m p then m else pointer_insert p x m) = insert p (pointers m)"
    by (simp add: contains_pointer_def insert_absorb)
  then show ?case using Cons by (simp add: v)
qed simp

lemma length_pointer_insert: "\<not> contains_pointer m p \<Longrightarrow> length (pointer_insert p x m) = Suc (length m)"
  by (induction p x m rule: pointer_insert.induct) (auto simp: contains_pointer_def)

definition pointer_sorted :: "'a pointer_map \<Rightarrow> bool" where
  "pointer_sorted m \<longleftrightarrow> sorted_wrt (<) (map fst m)"

lemma pointer_sorted_insert: "pointer_sorted m \<Longrightarrow> pointer_sorted (pointer_insert p x m)"
  unfolding pointer_sorted_def
proof (induction p x m rule: pointer_insert.induct)
  case (2 p x q y m)
  then have "sorted_wrt (<) (map fst m)" "\<forall>r \<in> pointers m. q < r" by auto
  moreover have "pointers (pointer_insert p x m) = insert p (pointers m)" by simp
  ultimately show ?case using 2 by (auto simp: not_less_iff_gr_or_eq)
qed simp

lemma pointer_sorted_absorb: "pointer_sorted m \<Longrightarrow> pointer_sorted (absorb vs m)"
  by (induction vs arbitrary: m) (auto simp: pointer_sorted_insert)

lemma pointer_sorted_length: "pointer_sorted m \<Longrightarrow> length m = card (pointers m)"
  unfolding pointer_sorted_def by (metis distinct_card length_map list.set_map strict_sorted_iff)

definition fresh_pointers :: "(string \<times> 'a) list \<Rightarrow> 'b pointer_map \<Rightarrow> nat" where
  "fresh_pointers visits keys = card (pointers visits - pointers keys)"

text \<open>What a traversal step does to the map and the budget.\<close>

definition collects :: "(string \<times> string) list \<Rightarrow> string pointer_map \<times> projection_state \<Rightarrow>
    string pointer_map \<times> projection_state \<Rightarrow> bool" where
  "collects visits ks ks' \<longleftrightarrow> takes (fresh_pointers visits (fst ks)) (snd ks) (snd ks') \<and>
     (fresh_pointers visits (fst ks) \<le> ps_remaining (snd ks) \<longrightarrow> fst ks' = absorb visits (fst ks)) \<and>
     length (fst ks') + ps_remaining (snd ks') = length (fst ks) + ps_remaining (snd ks)"

lemma collects_Nil: "collects [] ks ks"
  by (simp add: collects_def fresh_pointers_def)

lemma fresh_pointers_append:
  "fresh_pointers (us @ vs) m = fresh_pointers us m + fresh_pointers vs (absorb us m)"
proof -
  have "pointers (us @ vs) - pointers m = (pointers us - pointers m) \<union> (pointers vs - pointers (absorb us m))"
    by (auto simp: pointers_absorb)
  then show ?thesis unfolding fresh_pointers_def by (subst card_Un_disjoint [symmetric]) (auto simp: pointers_absorb)
qed

lemma fresh_pointers_mono: "fresh_pointers us m \<le> fresh_pointers (us @ vs) m"
  by (auto simp: fresh_pointers_def intro!: card_mono)

lemma collects_append:
  assumes "collects us ks ks1" "collects vs ks1 ks2" shows "collects (us @ vs) ks ks2"
proof (cases "fresh_pointers us (fst ks) \<le> ps_remaining (snd ks)")
  case True
  then have "fst ks1 = absorb us (fst ks)" using assms(1) by (simp add: collects_def)
  moreover have "ps_remaining (snd ks1) = ps_remaining (snd ks) - fresh_pointers us (fst ks)"
    using assms(1) by (simp add: collects_def takes_def)
  ultimately show ?thesis
    using assms takes_trans [of "fresh_pointers us (fst ks)" "snd ks" "snd ks1"] True
    by (auto simp: collects_def fresh_pointers_append)
next
  case False
  then have "ps_remaining (snd ks) < fresh_pointers (us @ vs) (fst ks)"
    using fresh_pointers_mono [of us "fst ks" vs] by simp
  moreover have "ps_remaining (snd ks1) = 0 \<and> \<not> ps_complete (snd ks1)"
    using assms(1) False by (simp add: collects_def takes_def)
  ultimately show ?thesis using assms by (auto simp: collects_def takes_def)
qed

lemma collects_visit:
  assumes "visit_pointer v p ks = (go, ks')"
  shows "if go then collects [(p, json_type v)] ks ks' else ks' = (fst ks, mark_incomplete (snd ks)) \<and>
    p \<notin> pointers (fst ks) \<and> ps_remaining (snd ks) = 0"
proof -
  have "p \<notin> pointers (fst ks) \<Longrightarrow> {p} - pointers (fst ks) = {p}" by blast
  then show ?thesis
    using assms takes_item [of "snd ks"]
    by (auto simp: visit_pointer_def take_item_def collects_def fresh_pointers_def contains_pointer_def
        length_pointer_insert split: if_splits)
qed

lemma collects_refused:
  assumes "ps_remaining (snd ks) = 0" "p \<notin> pointers (fst ks)"
  shows "collects ((p, t) # visits) ks (fst ks, mark_incomplete (snd ks))"
proof -
  have "p \<in> pointers ((p, t) # visits) - pointers (fst ks)" using assms(2) by simp
  then have "0 < fresh_pointers ((p, t) # visits) (fst ks)" unfolding fresh_pointers_def by (subst card_gt_0_iff) auto
  then show ?thesis using assms takes_refused [OF assms(1)] by (auto simp: collects_def mark_incomplete_def)
qed

lemma key_visits_head: "\<exists>rest. key_visits v p = (p, json_type v) # rest"
  by (cases v) simp_all

lemma collect_collects:
  shows "collects (key_visits v p) ks (collect_keys v p ks)"
    and "collects (concat (map (\<lambda>(key, v). key_visits v (field_pointer p key)) kvs)) ks (collect_fields kvs p ks)"
    and "collects (concat (map (\<lambda>v. key_visits v p) vs)) ks (collect_elements vs p ks)"
proof (induction v p ks and kvs p ks and vs p ks rule: collect_keys_collect_fields_collect_elements.induct)
  case (1 v p ks)
  obtain go ks' where go: "visit_pointer v p ks = (go, ks')" by (cases "visit_pointer v p ks")
  note visit = collects_visit [OF go]
  show ?case
  proof (cases go)
    case False
    then show ?thesis
      using visit collects_refused [of ks p "json_type v"] key_visits_head [of v p] go by (auto simp: collect_keys.simps)
  next
    case True
    show ?thesis
    proof (cases v)
      case (JObject kvs)
      then show ?thesis
        using visit True go collects_append [of "[(p, ''object'')]" ks ks'] 1(2) [OF refl refl _ JObject] by (simp add: collect_keys.simps)
    next
      case (JArray vs)
      then show ?thesis
        using visit True go collects_append [of "[(p, ''array'')]" ks ks'] 1(1) [OF refl refl _ JArray] by (simp add: collect_keys.simps)
    qed (use visit True go in \<open>simp_all add: collect_keys.simps\<close>)
  qed
next
  case (3 kv kvs p ks)
  then show ?case using collects_append by (auto simp: split_beta)
next
  case (5 v vs p ks)
  then show ?case using collects_append by auto
qed (simp_all add: collects_Nil)

section \<open>The full enumeration agrees\<close>

definition undepth :: "(usize \<times> string) pointer_map \<Rightarrow> string pointer_map" where
  "undepth m = map (\<lambda>(p, _, t). (p, t)) m"

lemma pointers_undepth [simp]: "pointers (undepth m) = pointers m"
  by (induction m) (auto simp: undepth_def)

lemma undepth_insert: "undepth (pointer_insert p (d, t) m) = pointer_insert p t (undepth m)"
  by (induction m) (auto simp: undepth_def)

lemma contains_undepth [simp]: "contains_pointer (undepth m) p = contains_pointer m p"
  by (simp add: contains_pointer_def)

lemma collect_all_absorb:
  shows "max_depth = None \<Longrightarrow> undepth (collect_all_keys v p d max_depth m) = absorb (key_visits v p) (undepth m)"
    and "max_depth = None \<Longrightarrow> undepth (collect_all_fields kvs p d max_depth m) =
      absorb (concat (map (\<lambda>(key, v). key_visits v (field_pointer p key)) kvs)) (undepth m)"
    and "max_depth = None \<Longrightarrow> undepth (collect_all_elements vs p d max_depth m) =
      absorb (concat (map (\<lambda>v. key_visits v p) vs)) (undepth m)"
proof (induction v p d max_depth m and kvs p d max_depth m and vs p d max_depth m
    rule: collect_all_keys_collect_all_fields_collect_all_elements.induct)
  case (1 v p d max_depth m)
  note ih = 1(1) [OF refl] 1(2) [OF refl]
  show ?case
    by (cases v; cases "contains_pointer m p") (use ih 1(3) in \<open>simp_all add: collect_all_keys.simps undepth_insert\<close>)
qed simp_all

lemma key_entries_absorb:
  "key_entries v None Pointer_Order = map (\<lambda>(p, t). key_entry p t) (absorb (key_visits v []) [])"
proof -
  have "map (\<lambda>(p, _, t). key_entry p t) m = map (\<lambda>(p, t). key_entry p t) (undepth m)" for m
    by (induction m) (auto simp: undepth_def)
  moreover have "undepth (collect_all_keys v [] 0 None []) = absorb (key_visits v []) []"
    using collect_all_absorb(1) [OF refl, of v "[]" 0 "[]"] by (simp add: undepth_def)
  ultimately show ?thesis by (simp add: key_entries_def Let_def)
qed

lemma pointer_sorted_Nil [simp]: "pointer_sorted []"
  by (simp add: pointer_sorted_def)

lemma length_key_entries: "length (key_entries v None Pointer_Order) = fresh_pointers (key_visits v []) ([] :: string pointer_map)"
  using pointer_sorted_length [OF pointer_sorted_absorb [OF pointer_sorted_Nil, of "key_visits v []"]]
  by (simp add: key_entries_absorb fresh_pointers_def pointers_absorb)

section \<open>The budget theorem\<close>

text \<open>The projection without limits.\<close>

definition unbounded_projection :: "json \<Rightarrow> json_projection \<Rightarrow> usize \<Rightarrow> json" where
  "unbounded_projection v projection k =
     (case projection of
        Project_Collapsed \<Rightarrow> collapsed k v
      | Project_Keys \<Rightarrow> JArray (key_entries v None Pointer_Order)
      | _ \<Rightarrow> v)"

lemma projection_takes:
  assumes "project_json v projection st = Inr (w, st')"
    and "ps_remaining st < usize_max"
  shows "takes (projection_item_count v projection (ps_array_sample_size st)) st st' \<and>
    (projection_item_count v projection (ps_array_sample_size st) \<le> ps_remaining st \<longrightarrow>
      w = unbounded_projection v projection (ps_array_sample_size st))"
proof (cases projection)
  case Project_Value
  then show ?thesis using assms(1)
    by (auto simp: project_json_def projection_item_count_def unbounded_projection_def takes_def Let_def split: if_splits)
next
  case Project_Collapsed
  let ?n = "collapsed_total (ps_array_sample_size st) v"
  have "takes ?n st st'" "?n \<le> ps_remaining st \<longrightarrow> w = collapsed (ps_array_sample_size st) v"
    using assms(1) collapse_takes(1) [of st v] Project_Collapsed by (auto simp: project_json_def)
  moreover have "min ?n usize_max \<le> ps_remaining st \<longleftrightarrow> ?n \<le> ps_remaining st"
    "ps_remaining st - min ?n usize_max = ps_remaining st - ?n" using assms(2) by auto
  ultimately show ?thesis
    by (simp add: Project_Collapsed projection_item_count_def unbounded_projection_def collapsed_item_count_total takes_def)
next
  case Project_Keys
  obtain keys st1 where k: "collect_keys v [] ([], st) = (keys, st1)" by (cases "collect_keys v [] ([], st)")
  then have w: "w = JArray (map (\<lambda>(p, t). key_entry p t) keys)" "st' = st1"
    using assms(1) Project_Keys by (auto simp: project_json_def)
  have "projection_item_count v Project_Keys (ps_array_sample_size st) = fresh_pointers (key_visits v []) ([] :: string pointer_map)"
    by (simp add: projection_item_count_def length_key_entries)
  moreover have "unbounded_projection v Project_Keys (ps_array_sample_size st) =
      JArray (map (\<lambda>(p, t). key_entry p t) (absorb (key_visits v []) []))"
    by (simp add: unbounded_projection_def key_entries_absorb)
  ultimately show ?thesis
    using collect_collects(1) [of v "[]" "([], st)"] k w by (simp add: Project_Keys collects_def)
next
  case Project_Schema
  then show ?thesis using assms(1) by (simp add: project_json_def)
qed

lemma projection_error:
  "project_json v projection st = Inl e \<Longrightarrow> projection = Project_Schema \<or>
    projection = Project_Value \<and> ps_remaining st < count_nodes v"
  by (cases projection) (auto simp: project_json_def Let_def split: if_splits prod.splits)

text \<open>C14: The item budget of a JSON projection is exact.  A value, collapsed or keys projection takes from the
  budget precisely the number of items \<open>projection_item_count\<close> announces for it (all that is left when there are
  more), it stays complete exactly when the budget covered them, a keys projection emits one entry per item taken,
  and a projection the budget covers is the one without limits: the whole value, the collapse with
  every array sampled to its first elements, the enumeration of all distinct pointers in order.\<close>

theorem projection_budget_exact:
  assumes "project_json v projection st = Inr (w, st')" "ps_remaining st < usize_max"
  defines "n \<equiv> projection_item_count v projection (ps_array_sample_size st)"
  shows "ps_remaining st' = ps_remaining st - n \<and> (ps_complete st' \<longleftrightarrow> ps_complete st \<and> n \<le> ps_remaining st) \<and>
    (n \<le> ps_remaining st \<longrightarrow> w = unbounded_projection v projection (ps_array_sample_size st)) \<and>
    (projection = Project_Keys \<longrightarrow> (\<exists>entries. w = JArray entries \<and> length entries = min n (ps_remaining st)))"
proof -
  have t: "takes n st st'" "n \<le> ps_remaining st \<longrightarrow> w = unbounded_projection v projection (ps_array_sample_size st)"
    using projection_takes [OF assms(1,2)] by (simp_all add: n_def)
  have "\<exists>entries. w = JArray entries \<and> length entries = min n (ps_remaining st)" if "projection = Project_Keys"
  proof -
    obtain keys st1 where k: "collect_keys v [] ([], st) = (keys, st1)" by (cases "collect_keys v [] ([], st)")
    then have "w = JArray (map (\<lambda>(p, t). key_entry p t) keys)" "st' = st1"
      using assms(1) that by (auto simp: project_json_def)
    moreover have "length keys + ps_remaining st1 = ps_remaining st"
      using collect_collects(1) [of v "[]" "([], st)"] k by (simp add: collects_def)
    ultimately show ?thesis using t(1) by (auto simp: takes_def)
  qed
  then show ?thesis using t by (auto simp: takes_def)
qed

definition sample_json :: json where
  "sample_json = JObject [(''a'', JArray [JNumber ''1'', JNumber ''2'', JNumber ''3'']), (''b'', JNull)]"

theorem projection_budget_exact_witness:
  "ps_complete (snd (collect_keys sample_json [] ([], projection_state_new 3 2))) = False"
proof -
  let ?st = "projection_state_new 3 2"
  obtain w st' where w: "project_json sample_json Project_Keys ?st = Inr (w, st')"
    by (cases "collect_keys sample_json [] ([], ?st)") (simp add: project_json_def)
  have "projection_item_count sample_json Project_Keys 2 = 4" by code_simp
  then show ?thesis
    using projection_budget_exact [OF w] w
    by (auto simp: projection_state_new_def usize_max_def project_json_def split: prod.splits)
qed

end
