(* ===== verification/Json_Keys.thy ===== *)
theory Json_Keys
  imports Json_Budget Read_Cursor
begin

text \<open>
  Pages of the keys projection (\<open>src/services/json/keys.rs\<close>, \<open>project_key_page\<close>) and their fitting into a
  response (\<open>dispatch.rs\<close>, \<open>fit_json_response\<close>).  The memoized measurement of a value (printing and
  tokenizer) is the parameter \<open>kl_measure\<close>, the size of the finished response that holds a page
  \<open>kl_finalized\<close>.
\<close>

datatype incomplete_reason = Max_Items | Max_Tokens

datatype key_page_error =
    Page_Stale
  | Page_Limit string nat nat
  | Page_Budget nat nat
  | Page_Cursor cursor_error
  | Page_Measure string

record key_page =
  kp_entries :: "json list"
  kp_total :: usize
  kp_returned :: usize
  kp_remaining :: usize
  kp_reason :: "incomplete_reason option"
  kp_next_cursor :: "string option"
  kp_tokens :: usize
  kp_complete :: bool

record key_lib =
  kl_cursor :: cursor_lib
  kl_measure :: "json \<Rightarrow> string + usize"
  kl_finalized :: "key_page \<Rightarrow> string + usize"

record key_request =
  kr_depth :: "usize option"
  kr_order :: json_key_order
  kr_max_items :: usize
  kr_max_tokens :: usize
  kr_response_limit :: "usize option"
  kr_stream :: string
  kr_source_hash :: string

definition measure_tokens :: "key_lib \<Rightarrow> json \<Rightarrow> key_page_error + usize" where
  "measure_tokens K v = map_sum Page_Measure id (kl_measure K v)"

definition finalized_tokens :: "key_lib \<Rightarrow> key_page \<Rightarrow> key_page_error + usize" where
  "finalized_tokens K p = map_sum Page_Measure id (kl_finalized K p)"

section \<open>The largest prefix within the tokens\<close>

definition key_prefix_tokens :: "key_lib \<Rightarrow> json list \<Rightarrow> nat \<Rightarrow> key_page_error + usize" where
  "key_prefix_tokens K entries n = measure_tokens K (JArray (take n entries))"

text \<open>The sum of two indices of a slice cannot saturate: a slice has at most \<open>isize::MAX\<close> elements.\<close>

function key_prefix_search :: "key_lib \<Rightarrow> json list \<Rightarrow> usize \<Rightarrow> usize \<Rightarrow> usize \<Rightarrow> key_page_error + usize" where
  "key_prefix_search K entries max_tokens lower upper =
     (if lower < upper
      then let middle = (lower + upper + 1) div 2 in
        (case key_prefix_tokens K entries middle of
           Inl e \<Rightarrow> Inl e
         | Inr n \<Rightarrow>
             if n \<le> max_tokens then key_prefix_search K entries max_tokens middle upper
             else key_prefix_search K entries max_tokens lower (middle - 1))
      else Inr lower)"
  by pat_completeness auto
termination by (relation "measure (\<lambda>(_, _, _, lower, upper). upper - lower)") auto

declare key_prefix_search.simps [simp del]

definition largest_key_prefix :: "key_lib \<Rightarrow> json list \<Rightarrow> usize \<Rightarrow> key_page_error + usize \<times> usize" where
  "largest_key_prefix K entries max_tokens =
     (if entries = [] then map_sum id (Pair 0) (key_prefix_tokens K entries 0)
      else case key_prefix_tokens K entries (length entries) of
        Inl e \<Rightarrow> Inl e
      | Inr full \<Rightarrow>
          if full \<le> max_tokens then Inr (length entries, full)
          else case key_prefix_search K entries max_tokens 0 (length entries) of
            Inl e \<Rightarrow> Inl e
          | Inr lower \<Rightarrow> map_sum id (Pair lower) (key_prefix_tokens K entries lower))"

section \<open>One page\<close>

definition page_offset :: "key_request \<Rightarrow> cursor_envelope option \<Rightarrow> key_page_error + usize" where
  "page_offset r cursor =
     (case cursor of None \<Rightarrow> Inr 0 | Some c \<Rightarrow> map_sum Page_Cursor id (offset_for c (kr_source_hash r) (kr_stream r)))"

definition next_page_cursor :: "key_lib \<Rightarrow> key_request \<Rightarrow> usize \<Rightarrow> usize \<Rightarrow> key_page_error + string option" where
  "next_page_cursor K r remaining consumed =
     (if 0 < remaining
      then map_sum Page_Cursor Some (make_json_cursor (kl_cursor K) (kr_stream r) (kr_source_hash r) consumed)
      else Inr None)"

text \<open>The page of the enumeration \<open>entries\<close> that starts at \<open>offset\<close>.\<close>

definition page_candidates :: "json list \<Rightarrow> usize \<Rightarrow> usize \<Rightarrow> json list" where
  "page_candidates entries offset max_items =
     (let page_end = min (sat_add offset max_items) (length entries) in take (page_end - offset) (drop offset entries))"

definition key_page_at :: "key_lib \<Rightarrow> key_request \<Rightarrow> json list \<Rightarrow> usize \<Rightarrow> key_page_error + key_page" where
  "key_page_at K r entries offset =
     (let total = length entries; candidates = page_candidates entries offset (kr_max_items r) in
      case largest_key_prefix K candidates (kr_max_tokens r) of
        Inl e \<Rightarrow> Inl e
      | Inr (returned, tokens) \<Rightarrow>
        if returned = 0 \<and> candidates \<noteq> []
        then (case key_prefix_tokens K candidates 1 of
                Inl e \<Rightarrow> Inl e
              | Inr n \<Rightarrow> Inl (Page_Limit ''one projected JSON item tokens'' n (kr_max_tokens r)))
        else
          let consumed = sat_add offset returned; remaining = total - consumed in
          case next_page_cursor K r remaining consumed of
            Inl e \<Rightarrow> Inl e
          | Inr next \<Rightarrow>
              Inr \<lparr>kp_entries = take returned candidates, kp_total = total, kp_returned = returned,
                   kp_remaining = remaining,
                   kp_reason = (if 0 < remaining
                     then Some (if returned < length candidates then Max_Tokens else Max_Items) else None),
                   kp_next_cursor = next, kp_tokens = tokens, kp_complete = (remaining = 0)\<rparr>)"

definition project_key_page :: "key_lib \<Rightarrow> key_request \<Rightarrow> json \<Rightarrow> cursor_envelope option \<Rightarrow> key_page_error + key_page" where
  "project_key_page K r v cursor =
     (let entries = key_entries v (kr_depth r) (kr_order r) in
      case page_offset r cursor of
        Inl e \<Rightarrow> Inl e
      | Inr offset \<Rightarrow>
        if length entries < offset \<or> (offset = length entries \<and> offset \<noteq> 0) then Inl Page_Stale
        else key_page_at K r entries offset)"

section \<open>Fitting the response\<close>

text \<open>The page cut to its first \<open>keep\<close> entries, as the response would show it.\<close>

definition cut_page :: "key_lib \<Rightarrow> key_request \<Rightarrow> usize \<Rightarrow> key_page \<Rightarrow> nat \<Rightarrow> key_page_error + key_page" where
  "cut_page K r offset page keep =
     (let consumed = sat_add offset keep; remaining = kp_total page - consumed in
      case next_page_cursor K r remaining consumed of
        Inl e \<Rightarrow> Inl e
      | Inr next \<Rightarrow>
        (case measure_tokens K (JArray (take keep (kp_entries page))) of
           Inl e \<Rightarrow> Inl e
         | Inr tokens \<Rightarrow>
             Inr (page\<lparr>kp_entries := take keep (kp_entries page), kp_returned := keep, kp_remaining := remaining,
               kp_complete := (remaining = 0), kp_reason := (if 0 < remaining then Some Max_Tokens else None),
               kp_next_cursor := next, kp_tokens := tokens\<rparr>)))"

definition budget_refusal :: "key_lib \<Rightarrow> key_page \<Rightarrow> usize \<Rightarrow> key_page_error" where
  "budget_refusal K page limit = (case finalized_tokens K page of Inl e \<Rightarrow> e | Inr n \<Rightarrow> Page_Budget limit n)"

text \<open>\<open>keep.filter(|keep| *keep > 0)\<close>\<close>

definition filter_keep :: "usize option \<Rightarrow> usize option" where
  "filter_keep found = (case found of Some keep \<Rightarrow> if 0 < keep then Some keep else None | None \<Rightarrow> None)"

definition fit_key_page :: "key_lib \<Rightarrow> key_request \<Rightarrow> usize \<Rightarrow> key_page \<Rightarrow> key_page_error + key_page" where
  "fit_key_page K r offset page =
     (case kr_response_limit r of
        None \<Rightarrow> Inr page
      | Some limit \<Rightarrow>
        (case finalized_tokens K page of
           Inl e \<Rightarrow> Inl e
         | Inr n \<Rightarrow>
           if n \<le> limit then Inr page
           else
             (case largest_fitting_prefix limit (length (kp_entries page)) (\<lambda>keep.
                     case cut_page K r offset page keep of Inl e \<Rightarrow> Inl e | Inr p \<Rightarrow> finalized_tokens K p) of
                Inl e \<Rightarrow> Inl e
              | Inr found \<Rightarrow>
                  (case filter_keep found of
                     Some keep \<Rightarrow> cut_page K r offset page keep
                   | None \<Rightarrow>
                       if kp_entries page \<noteq> []
                       then (case cut_page K r offset page 1 of
                               Inl e \<Rightarrow> Inl e
                             | Inr minimum \<Rightarrow> Inl (budget_refusal K minimum limit))
                       else Inl (budget_refusal K page limit)))))"

definition query_keys :: "key_lib \<Rightarrow> key_request \<Rightarrow> json \<Rightarrow> cursor_envelope option \<Rightarrow> key_page_error + key_page" where
  "query_keys K r v cursor =
     (case page_offset r cursor of
        Inl e \<Rightarrow> Inl e
      | Inr offset \<Rightarrow>
        (case project_key_page K r v cursor of
           Inl e \<Rightarrow> Inl e
         | Inr page \<Rightarrow>
             if kr_max_tokens r < kp_tokens page
             then Inl (Page_Limit ''projected JSON tokens'' (kp_tokens page) (kr_max_tokens r))
             else fit_key_page K r offset page))"

text \<open>A request names its cursor as text.\<close>

definition ask_keys :: "key_lib \<Rightarrow> key_request \<Rightarrow> json \<Rightarrow> string option \<Rightarrow> key_page_error + key_page" where
  "ask_keys K r v cursor =
     (case cursor of
        None \<Rightarrow> query_keys K r v None
      | Some text \<Rightarrow>
        (case decode_json_cursor (kl_cursor K) text of
           Inl e \<Rightarrow> Inl (Page_Cursor e)
         | Inr c \<Rightarrow> query_keys K r v (Some c)))"

end
