(* ===== verification/Json_Pages.thy ===== *)
theory Json_Pages
  imports Json_Keys
begin

text \<open>
  What the pages of the keys projection promise: the prefix a page keeps is exact at its token limit, a client
  that follows the cursors gets the whole enumeration, and one case in which fitting a first page into a response
  fails although an answer exists.
\<close>

section \<open>The prefix searches\<close>

lemma key_prefix_search_boundary:
  assumes "key_prefix_search K es mx lower upper = Inr n" "lower \<le> upper" "upper \<le> length es"
    and "lower = 0 \<or> (\<exists>c. key_prefix_tokens K es lower = Inr c \<and> c \<le> mx)"
    and "\<exists>c. key_prefix_tokens K es (Suc upper) = Inr c \<and> mx < c \<or> upper = length es"
  shows "lower \<le> n \<and> n \<le> upper \<and> (n = 0 \<or> (\<exists>c. key_prefix_tokens K es n = Inr c \<and> c \<le> mx)) \<and>
    ((\<exists>c. key_prefix_tokens K es (Suc n) = Inr c \<and> mx < c) \<or> n = length es)"
  using assms
proof (induction K es mx lower upper rule: key_prefix_search.induct)
  case (1 K es mx lower upper)
  show ?case
  proof (cases "lower < upper")
    case False
    then show ?thesis using 1 by (subst (asm) key_prefix_search.simps) auto
  next
    case True
    define mid where "mid = (lower + upper + 1) div 2"
    have mid: "lower < mid" "mid \<le> upper" using True by (auto simp: mid_def)
    obtain c where c: "key_prefix_tokens K es mid = Inr c"
      using 1(3) True by (subst (asm) key_prefix_search.simps) (auto simp: mid_def Let_def split: sum.splits)
    show ?thesis
    proof (cases "c \<le> mx")
      case fits: True
      then have "key_prefix_search K es mx mid upper = Inr n"
        using 1(3) True c by (subst (asm) key_prefix_search.simps) (simp add: mid_def Let_def)
      then show ?thesis
        using 1(1) [OF True mid_def, of c] c fits mid 1(5,7) by auto
    next
      case False
      then have "key_prefix_search K es mx lower (mid - 1) = Inr n"
        using 1(3) True c by (subst (asm) key_prefix_search.simps) (simp add: mid_def Let_def)
      moreover have "mid - 1 \<le> length es" "lower \<le> mid - 1" "Suc (mid - 1) = mid" "mid - 1 \<le> upper" using mid 1(5) by auto
      ultimately show ?thesis
        using 1(2) [OF True mid_def, of c] c False 1(6) by auto
    qed
  qed
qed

lemma largest_key_prefix_boundary:
  assumes "largest_key_prefix K es mx = Inr (n, tokens)" "es \<noteq> []"
  shows "n \<le> length es \<and> key_prefix_tokens K es n = Inr tokens \<and> (0 < n \<longrightarrow> tokens \<le> mx) \<and>
    ((\<exists>c. key_prefix_tokens K es (Suc n) = Inr c \<and> mx < c) \<or> n = length es)"
proof -
  obtain full where full: "key_prefix_tokens K es (length es) = Inr full"
    using assms by (auto simp: largest_key_prefix_def split: sum.splits)
  show ?thesis
  proof (cases "full \<le> mx")
    case True
    then show ?thesis using assms full by (auto simp: largest_key_prefix_def)
  next
    case False
    then obtain lower where l: "key_prefix_search K es mx 0 (length es) = Inr lower"
      "map_sum id (Pair lower) (key_prefix_tokens K es lower) = Inr (n, tokens)"
      using assms full by (auto simp: largest_key_prefix_def split: sum.splits)
    then have n: "n = lower" "key_prefix_tokens K es lower = Inr tokens"
      by (cases "key_prefix_tokens K es lower"; simp)+
    then show ?thesis using key_prefix_search_boundary [OF l(1)] by auto
  qed
qed

section \<open>One page\<close>

lemma length_page_candidates [simp]:
  "length (page_candidates es offset mx) = min (sat_add offset mx) (length es) - offset"
  by (simp add: page_candidates_def)

lemma take_page_candidates: "n \<le> length (page_candidates es offset mx) \<Longrightarrow> take n (page_candidates es offset mx) = take n (drop offset es)"
  by (simp add: page_candidates_def)

lemma largest_key_prefix_le: "largest_key_prefix K es mx = Inr (n, tokens) \<Longrightarrow> n \<le> length es"
proof (cases "es = []")
  case True
  assume "largest_key_prefix K es mx = Inr (n, tokens)"
  then show ?thesis using True by (cases "key_prefix_tokens K es 0") (simp_all add: largest_key_prefix_def)
qed (use largest_key_prefix_boundary in blast)

lemma key_page_at_Inr:
  assumes "key_page_at K r es offset = Inr page" "offset \<le> length es"
  shows "kp_entries page = take (kp_returned page) (drop offset es) \<and> kp_total page = length es \<and>
    offset + kp_returned page \<le> length es \<and> kp_remaining page = length es - sat_add offset (kp_returned page) \<and>
    next_page_cursor K r (kp_remaining page) (sat_add offset (kp_returned page)) = Inr (kp_next_cursor page) \<and>
    (0 < kr_max_items r \<longrightarrow> offset < length es \<longrightarrow> length es \<le> usize_max \<longrightarrow> 0 < kp_returned page)"
proof -
  define cs where "cs = page_candidates es offset (kr_max_items r)"
  note defs = key_page_at_def cs_def [symmetric] Let_def
  obtain n tokens where n: "largest_key_prefix K cs (kr_max_tokens r) = Inr (n, tokens)"
    using assms(1) by (auto simp: defs split: sum.splits)
  have ok: "\<not> (n = 0 \<and> cs \<noteq> [])"
    using assms(1) n by (auto simp: defs split: sum.splits if_splits)
  obtain nxt where nxt: "next_page_cursor K r (length es - sat_add offset n) (sat_add offset n) = Inr nxt"
    using assms(1) n ok by (auto simp: defs split: sum.splits)
  have page: "kp_entries page = take n cs" "kp_total page = length es" "kp_returned page = n"
    "kp_remaining page = length es - sat_add offset n" "kp_next_cursor page = nxt"
    using assms(1) n ok nxt by (auto simp: defs)
  have len: "n \<le> length cs" using largest_key_prefix_le [OF n] .
  have "0 < n" if "0 < kr_max_items r" "offset < length es" "length es \<le> usize_max"
  proof -
    have "0 < length cs" using that by (simp add: cs_def usize_simps)
    then show ?thesis using ok by auto
  qed
  moreover have "take n cs = take n (drop offset es)" using len by (simp add: cs_def take_page_candidates)
  moreover have "offset + n \<le> length es" using len assms(2) by (auto simp: cs_def)
  ultimately show ?thesis using page nxt by simp
qed

section \<open>Fitting\<close>

lemma prefix_search_within:
  "prefix_search mx f lower upper best = Inr (Some k) \<Longrightarrow> best = Some k \<or> k \<le> upper"
proof (induction mx f lower upper best rule: prefix_search.induct)
  case (1 mx f lower upper best)
  show ?case
  proof (cases "upper < lower")
    case True
    then show ?thesis using 1(3) by (subst (asm) prefix_search.simps) simp
  next
    case False
    define mid where "mid = lower + (upper - lower) div 2"
    have mid: "mid \<le> upper" using False by (auto simp: mid_def)
    obtain n where n: "f mid = Inr n"
      using 1(3) False by (subst (asm) prefix_search.simps) (auto simp: mid_def Let_def split: sum.splits)
    have "prefix_search mx f lower upper best = (if n \<le> mx then prefix_search mx f (mid + 1) upper (Some mid)
        else if mid = 0 then Inr best else prefix_search mx f lower (mid - 1) best)"
      by (subst prefix_search.simps, simp only: mid_def [symmetric] Let_def) (simp add: n False)
    with 1(3) have step: "(if n \<le> mx then prefix_search mx f (mid + 1) upper (Some mid)
        else if mid = 0 then Inr best else prefix_search mx f lower (mid - 1) best) = Inr (Some k)" by simp
    show ?thesis
      using step 1(1) [OF False mid_def n] 1(2) [OF False mid_def n] mid by (auto split: if_splits)
  qed
qed

lemma largest_fitting_within: "largest_fitting_prefix mx n f = Inr (Some k) \<Longrightarrow> k \<le> n"
  unfolding largest_fitting_prefix_def by (drule prefix_search_within) simp

lemma cut_page_Inr:
  assumes "cut_page K r offset page keep = Inr p"
  shows "kp_entries p = take keep (kp_entries page) \<and> kp_total p = kp_total page \<and> kp_returned p = keep \<and>
    kp_remaining p = kp_total page - sat_add offset keep \<and>
    next_page_cursor K r (kp_remaining p) (sat_add offset keep) = Inr (kp_next_cursor p)"
  using assms by (auto simp: cut_page_def Let_def split: sum.splits)

lemma fit_key_page_Inr:
  assumes "fit_key_page K r offset page = Inr p"
  shows "p = page \<or> (\<exists>keep. 0 < keep \<and> keep \<le> length (kp_entries page) \<and> cut_page K r offset page keep = Inr p)"
  using assms
  by (auto simp: fit_key_page_def filter_keep_def dest: largest_fitting_within split: option.splits sum.splits if_splits)

text \<open>A page that resumes the enumeration at its offset and names the place where the next one starts.\<close>

definition tiles_from :: "key_lib \<Rightarrow> key_request \<Rightarrow> json list \<Rightarrow> usize \<Rightarrow> key_page \<Rightarrow> bool" where
  "tiles_from K r es offset p \<longleftrightarrow> (\<exists>n. kp_entries p = take n (drop offset es) \<and> offset + n \<le> length es \<and>
     (offset < length es \<longrightarrow> 0 < n) \<and>
     (if offset + n < length es
      then \<exists>c. kp_next_cursor p = Some c \<and> make_json_cursor (kl_cursor K) (kr_stream r) (kr_source_hash r) (offset + n) = Inr c
      else kp_next_cursor p = None))"

lemma next_page_cursor_Inr:
  "next_page_cursor K r (len - consumed) consumed = Inr nxt \<Longrightarrow>
    if consumed < len then \<exists>c. nxt = Some c \<and> make_json_cursor (kl_cursor K) (kr_stream r) (kr_source_hash r) consumed = Inr c
    else nxt = None"
  by (cases "make_json_cursor (kl_cursor K) (kr_stream r) (kr_source_hash r) consumed")
    (auto simp: next_page_cursor_def split: if_splits)

lemma query_keys_tiles:
  assumes "query_keys K r v cursor = Inr p" "page_offset r cursor = Inr offset"
    and "0 < kr_max_items r" "length (key_entries v (kr_depth r) (kr_order r)) \<le> usize_max"
  shows "tiles_from K r (key_entries v (kr_depth r) (kr_order r)) offset p"
proof -
  let ?es = "key_entries v (kr_depth r) (kr_order r)"
  obtain page where page: "project_key_page K r v cursor = Inr page" "fit_key_page K r offset page = Inr p"
    using assms(1,2) by (auto simp: query_keys_def split: sum.splits if_splits)
  then have at: "key_page_at K r ?es offset = Inr page" "offset \<le> length ?es"
    using assms(2) by (auto simp: project_key_page_def Let_def split: if_splits)
  note f = key_page_at_Inr [OF at]
  have sat: "sat_add offset n = offset + n" if "offset + n \<le> length ?es" for n
    using that assms(4) by (simp add: usize_simps)
  from fit_key_page_Inr [OF page(2)] show ?thesis
  proof (elim disjE exE conjE)
    assume p: "p = page"
    have "next_page_cursor K r (length ?es - (offset + kp_returned page)) (offset + kp_returned page) = Inr (kp_next_cursor page)"
      using f sat [of "kp_returned page"] by auto
    from next_page_cursor_Inr [OF this] show ?thesis
      using f p assms(3,4) unfolding tiles_from_def by blast
  next
    fix keep assume keep: "0 < keep" "keep \<le> length (kp_entries page)" "cut_page K r offset page keep = Inr p"
    note g = cut_page_Inr [OF keep(3)]
    have n: "keep \<le> kp_returned page" "offset + keep \<le> length ?es" using keep(2) f by auto
    have "next_page_cursor K r (length ?es - (offset + keep)) (offset + keep) = Inr (kp_next_cursor p)"
      using g f sat [OF n(2)] by auto
    from next_page_cursor_Inr [OF this] show ?thesis
      using f g keep(1) n unfolding tiles_from_def by (intro exI [of _ keep]) (simp add: min_def)
  qed
qed

section \<open>Errors\<close>

definition stale_error :: "key_page_error \<Rightarrow> bool" where
  "stale_error e \<longleftrightarrow> e = Page_Stale \<or> e = Page_Cursor Stale_Cursor"

lemma stale_error_simps [simp]:
  "stale_error Page_Stale" "\<not> stale_error (Page_Measure m)" "\<not> stale_error (Page_Limit f a b)" "\<not> stale_error (Page_Budget a b)"
  "stale_error (Page_Cursor e) \<longleftrightarrow> e = Stale_Cursor"
  by (simp_all add: stale_error_def)

lemma make_json_cursor_error: "make_json_cursor L stream h offset = Inl e \<Longrightarrow> e \<noteq> Stale_Cursor"
  by (auto simp: make_json_cursor_def envelope_new_def split: if_splits)

lemma next_page_cursor_error: "next_page_cursor K r remaining consumed = Inl e \<Longrightarrow> \<not> stale_error e"
  by (cases "make_json_cursor (kl_cursor K) (kr_stream r) (kr_source_hash r) consumed")
    (auto simp: next_page_cursor_def dest: make_json_cursor_error split: if_splits)

lemma measure_error: "measure_tokens K v = Inl e \<Longrightarrow> \<not> stale_error e" "finalized_tokens K p = Inl e \<Longrightarrow> \<not> stale_error e"
  by (cases "kl_measure K v"; auto simp: measure_tokens_def) (cases "kl_finalized K p"; auto simp: finalized_tokens_def)

lemma key_prefix_search_error: "key_prefix_search K es mx lower upper = Inl e \<Longrightarrow> \<not> stale_error e"
proof (induction K es mx lower upper rule: key_prefix_search.induct)
  case (1 K es mx lower upper)
  show ?case
    using 1(3) by (subst (asm) key_prefix_search.simps)
      (auto simp: Let_def key_prefix_tokens_def dest: measure_error 1(1,2) [OF _ refl] split: if_splits sum.splits)
qed

lemma largest_key_prefix_error: "largest_key_prefix K es mx = Inl e \<Longrightarrow> \<not> stale_error e"
proof -
  have m: "map_sum id f (key_prefix_tokens K es n) = Inl e \<Longrightarrow> \<not> stale_error e" for f n e
    by (cases "key_prefix_tokens K es n") (auto simp: key_prefix_tokens_def dest: measure_error)
  show "largest_key_prefix K es mx = Inl e \<Longrightarrow> \<not> stale_error e"
    using m key_prefix_search_error measure_error
    by (auto simp: largest_key_prefix_def key_prefix_tokens_def split: if_splits sum.splits)
qed

lemma key_page_at_error: "key_page_at K r es offset = Inl e \<Longrightarrow> \<not> stale_error e"
  by (auto simp: key_page_at_def Let_def key_prefix_tokens_def
      dest: largest_key_prefix_error next_page_cursor_error measure_error split: if_splits sum.splits)

lemma cut_page_error: "cut_page K r offset page keep = Inl e \<Longrightarrow> \<not> stale_error e"
  by (auto simp: cut_page_def Let_def dest: next_page_cursor_error measure_error split: sum.splits)

lemma prefix_search_error: "prefix_search mx f lower upper best = Inl e \<Longrightarrow> \<exists>k. f k = Inl e"
proof (induction mx f lower upper best rule: prefix_search.induct)
  case (1 mx f lower upper best)
  show ?case
  proof (cases "upper < lower")
    case True
    then show ?thesis using 1(3) by (subst (asm) prefix_search.simps) simp
  next
    case False
    define mid where "mid = lower + (upper - lower) div 2"
    show ?thesis
    proof (cases "f mid")
      case (Inr n)
      have "prefix_search mx f lower upper best = (if n \<le> mx then prefix_search mx f (mid + 1) upper (Some mid)
          else if mid = 0 then Inr best else prefix_search mx f lower (mid - 1) best)"
        by (subst prefix_search.simps, simp only: mid_def [symmetric] Let_def) (simp add: Inr False)
      then show ?thesis
        using 1(3) 1(1) [OF False mid_def Inr] 1(2) [OF False mid_def Inr] by (auto split: if_splits)
    next
      case (Inl e')
      have "prefix_search mx f lower upper best = Inl e'"
        by (subst prefix_search.simps, simp only: mid_def [symmetric] Let_def) (simp add: Inl False)
      then show ?thesis using 1(3) Inl by auto
    qed
  qed
qed

lemma fit_key_page_error:
  assumes "fit_key_page K r offset page = Inl e" shows "\<not> stale_error e"
proof -
  have refusal: "\<not> stale_error (budget_refusal K p limit)" for p limit
    using measure_error(2) [of K p] by (auto simp: budget_refusal_def split: sum.splits)
  show ?thesis
    using assms refusal
    by (auto simp: fit_key_page_def largest_fitting_prefix_def
        dest!: prefix_search_error dest: cut_page_error measure_error split: option.splits sum.splits if_splits)
qed

lemma not_stale:
  assumes "query_keys K r v cursor = Inl e" "page_offset r cursor = Inr offset"
    and "offset < length (key_entries v (kr_depth r) (kr_order r)) \<or> offset = 0"
  shows "\<not> stale_error e"
  using assms
  by (auto simp: query_keys_def project_key_page_def Let_def dest: key_page_at_error fit_key_page_error
      split: sum.splits if_splits)

section \<open>When a page succeeds\<close>

text \<open>No limit on the response, measuring works and every single entry fits.\<close>

definition entries_fit :: "key_lib \<Rightarrow> key_request \<Rightarrow> json list \<Rightarrow> bool" where
  "entries_fit K r es \<longleftrightarrow> kr_response_limit r = None \<and> is_fingerprint (kr_source_hash r) \<and>
     (\<forall>v. \<exists>n. kl_measure K v = Inr n) \<and> (\<forall>e \<in> set es. \<forall>n. kl_measure K (JArray [e]) = Inr n \<longrightarrow> n \<le> kr_max_tokens r)"

lemma key_prefix_search_total:
  "(\<And>n. \<exists>c. key_prefix_tokens K es n = Inr c) \<Longrightarrow> \<exists>n. key_prefix_search K es mx lower upper = Inr n"
proof (induction K es mx lower upper rule: key_prefix_search.induct)
  case (1 K es mx lower upper)
  show ?case
  proof (cases "lower < upper")
    case False
    then show ?thesis by (subst key_prefix_search.simps) simp
  next
    case True
    obtain c where c: "key_prefix_tokens K es ((lower + upper + 1) div 2) = Inr c" using 1(3) by blast
    show ?thesis
      using 1(1) [OF True refl c] 1(2) [OF True refl c] 1(3) True c
      by (subst key_prefix_search.simps) (auto simp: Let_def)
  qed
qed

lemma entries_fit_total: "entries_fit K r es \<Longrightarrow> \<exists>c. key_prefix_tokens K xs n = Inr c"
  by (auto simp: entries_fit_def key_prefix_tokens_def measure_tokens_def) (metis map_sum.simps(2) id_apply)

lemma entries_fit_prefix:
  assumes "entries_fit K r es"
  shows "\<exists>n tokens. largest_key_prefix K cs mx = Inr (n, tokens)"
proof -
  note total = entries_fit_total [OF assms]
  obtain c where c: "key_prefix_tokens K cs (length cs) = Inr c" using total by blast
  obtain n where n: "key_prefix_search K cs mx 0 (length cs) = Inr n" using key_prefix_search_total [OF total] by blast
  obtain d where d: "key_prefix_tokens K cs n = Inr d" using total by blast
  obtain z where z: "key_prefix_tokens K cs 0 = Inr z" using total by blast
  show ?thesis by (cases "cs = []") (use c n d z in \<open>auto simp: largest_key_prefix_def\<close>)
qed

lemma made_cursor_fits:
  "entries_fit K r es \<Longrightarrow> 0 < consumed \<Longrightarrow> \<exists>nxt. next_page_cursor K r remaining consumed = Inr nxt"
  by (auto simp: next_page_cursor_def make_json_cursor_def entries_fit_def envelope_new_def is_fingerprint_def
      content_fingerprint_hex_len_def push_usize_def max_cursor_payload_bytes_def)

lemma key_page_at_fits:
  assumes fit: "entries_fit K r es" and range: "offset < length es" "0 < kr_max_items r" "length es \<le> usize_max"
  shows "\<exists>page. key_page_at K r es offset = Inr page \<and> kp_tokens page \<le> kr_max_tokens r"
proof -
  define cs where "cs = page_candidates es offset (kr_max_items r)"
  have cs: "cs \<noteq> []" "set cs \<subseteq> set es"
  proof -
    have "0 < length cs" using range by (simp add: cs_def usize_simps)
    then show "cs \<noteq> []" by auto
    show "set cs \<subseteq> set es" by (auto simp: cs_def page_candidates_def Let_def dest: in_set_takeD in_set_dropD)
  qed
  obtain n tokens where n: "largest_key_prefix K cs (kr_max_tokens r) = Inr (n, tokens)"
    using entries_fit_prefix [OF fit] by blast
  note bound = largest_key_prefix_boundary [OF n cs(1)]
  have "n \<noteq> 0"
  proof
    assume "n = 0"
    then obtain c where c: "key_prefix_tokens K cs 1 = Inr c" "kr_max_tokens r < c" using bound cs(1) by auto
    have one: "take 1 cs = [hd cs]" using cs(1) by (cases cs) simp_all
    obtain k where "kl_measure K (JArray [hd cs]) = Inr k" using fit unfolding entries_fit_def by blast
    moreover have "hd cs \<in> set es" using cs by auto
    ultimately show False using c one fit by (fastforce simp: key_prefix_tokens_def measure_tokens_def entries_fit_def)
  qed
  obtain nxt where nxt: "next_page_cursor K r (length es - sat_add offset n) (sat_add offset n) = Inr nxt"
    using made_cursor_fits [OF fit, of "sat_add offset n"] \<open>n \<noteq> 0\<close> by (auto simp: usize_simps usize_max_def)
  show ?thesis
    unfolding key_page_at_def cs_def [symmetric] Let_def using n nxt \<open>n \<noteq> 0\<close> bound by simp
qed

lemma query_keys_fits:
  assumes "entries_fit K r es" "es = key_entries v (kr_depth r) (kr_order r)" "page_offset r cursor = Inr offset"
    and "offset < length es" "0 < kr_max_items r" "length es \<le> usize_max"
  shows "\<exists>page. query_keys K r v cursor = Inr page"
proof -
  obtain page where page: "key_page_at K r es offset = Inr page" "kp_tokens page \<le> kr_max_tokens r"
    using key_page_at_fits [OF assms(1,4-6)] by blast
  then have "project_key_page K r v cursor = Inr page"
    using assms(2-4) by (simp add: project_key_page_def Let_def)
  moreover have "fit_key_page K r offset page = Inr page" using assms(1) by (simp add: fit_key_page_def entries_fit_def)
  ultimately show ?thesis using page(2) assms(3) by (simp add: query_keys_def)
qed

text \<open>The enumeration names at least the root.\<close>

lemma collect_all_keeps:
  shows "pointers m \<subseteq> pointers (collect_all_keys v p d mx m)"
    and "pointers m \<subseteq> pointers (collect_all_fields kvs p d mx m)"
    and "pointers m \<subseteq> pointers (collect_all_elements vs p d mx m)"
proof (induction v p d mx m and kvs p d mx m and vs p d mx m rule: collect_all_keys_collect_all_fields_collect_all_elements.induct)
  case (1 v p d mx m)
  let ?k = "if contains_pointer m p then m else pointer_insert p (d, json_type v) m"
  have m: "pointers m \<subseteq> pointers ?k" by auto
  note ih = 1(1) [OF refl] 1(2) [OF refl]
  show ?case
    by (cases v; cases "case mx of None \<Rightarrow> False | Some x \<Rightarrow> x \<le> d")
      (use m ih in \<open>auto simp: collect_all_keys.simps Let_def split del: if_split\<close>)
next
  case (3 key v kvs p d mx m)
  then show ?case by (simp add: subset_trans)
next
  case (5 v vs p d mx m)
  then show ?case by (simp add: subset_trans)
qed simp_all

lemma key_entries_not_Nil: "key_entries v d order \<noteq> []"
proof -
  have "[] \<in> pointers (collect_all_keys v [] 0 d [])"
  proof -
    have "collect_all_keys v [] 0 d [] = collect_all_keys v [] 0 d [([], 0, json_type v)]"
      by (simp add: collect_all_keys.simps contains_pointer_def)
    then show ?thesis using collect_all_keeps(1) [of "[([], 0, json_type v)]" v "[]" 0 d] by auto
  qed
  then have "collect_all_keys v [] 0 d [] \<noteq> []" by auto
  moreover from this have "sort_by depth_cmp (collect_all_keys v [] 0 d []) \<noteq> []"
    by (metis length_0_conv length_sort_by)
  ultimately show ?thesis
    by (cases order) (auto simp: key_entries_def Let_def)
qed

section \<open>Following the cursors\<close>

fun follow_keys :: "(string option \<Rightarrow> key_page_error + key_page) \<Rightarrow> nat \<Rightarrow> string option \<Rightarrow>
    (key_page_error + json list) option" where
  "follow_keys ask 0 cursor = None"
| "follow_keys ask (Suc n) cursor =
     (case ask cursor of
        Inl e \<Rightarrow> Some (Inl e)
      | Inr page \<Rightarrow>
        (case kp_next_cursor page of
           None \<Rightarrow> Some (Inr (kp_entries page))
         | Some next \<Rightarrow> map_option (map_sum id (\<lambda>rest. kp_entries page @ rest)) (follow_keys ask n (Some next))))"

text \<open>A cursor text that stands for an offset.\<close>

definition stands_for :: "key_lib \<Rightarrow> key_request \<Rightarrow> string option \<Rightarrow> usize \<Rightarrow> bool" where
  "stands_for K r cursor offset \<longleftrightarrow>
     (case cursor of
        None \<Rightarrow> offset = 0
      | Some text \<Rightarrow> \<exists>c. decode_json_cursor (kl_cursor K) text = Inr c \<and> page_offset r (Some c) = Inr offset)"

lemma json_cursor_offset:
  assumes "cursor_lib_ok L" "length stream = stream_id_bytes" "offset \<le> usize_max" "make_json_cursor L stream h offset = Inr s"
  shows "\<exists>c. decode_json_cursor L s = Inr c \<and> offset_for c h stream = Inr offset"
  using json_cursor_resumes [OF assms] by auto

lemma made_cursor_stands_for:
  assumes "cursor_lib_ok (kl_cursor K)" "length (kr_stream r) = stream_id_bytes" "offset \<le> usize_max"
    and "make_json_cursor (kl_cursor K) (kr_stream r) (kr_source_hash r) offset = Inr c"
  shows "stands_for K r (Some c) offset"
  using json_cursor_offset [OF assms] by (auto simp: stands_for_def page_offset_def)

lemma follow_keys_rest:
  assumes lib: "cursor_lib_ok (kl_cursor K)" "length (kr_stream r) = stream_id_bytes"
    and es: "es = key_entries v (kr_depth r) (kr_order r)" "length es \<le> usize_max" "0 < kr_max_items r"
    and "stands_for K r cursor offset" "offset < length es" "length es - offset < n"
  shows "\<exists>res. follow_keys (ask_keys K r v) n cursor = Some res \<and>
    (case res of Inr rest \<Rightarrow> rest = drop offset es | Inl e \<Rightarrow> \<not> stale_error e \<and> \<not> entries_fit K r es)"
  using assms(6-8)
proof (induction n arbitrary: cursor offset)
  case (Suc n)
  obtain c where c: "ask_keys K r v cursor = query_keys K r v c" "page_offset r c = Inr offset"
    using Suc.prems(1) by (auto simp: stands_for_def ask_keys_def page_offset_def split: option.splits)
  show ?case
  proof (cases "query_keys K r v c")
    case (Inl e)
    have "\<not> entries_fit K r es"
    proof
      assume "entries_fit K r es"
      from query_keys_fits [OF this es(1) c(2) Suc.prems(2) es(3,2)] show False using Inl by simp
    qed
    moreover have "\<not> stale_error e" using not_stale [OF Inl c(2)] Suc.prems(2) es(1) by simp
    ultimately show ?thesis using c Inl by simp
  next
    case (Inr p)
    obtain m where m: "kp_entries p = take m (drop offset es)" "offset + m \<le> length es" "offset < length es \<longrightarrow> 0 < m"
      "if offset + m < length es
       then \<exists>t. kp_next_cursor p = Some t \<and> make_json_cursor (kl_cursor K) (kr_stream r) (kr_source_hash r) (offset + m) = Inr t
       else kp_next_cursor p = None"
      using query_keys_tiles [OF Inr c(2) es(3)] es(1,2) unfolding tiles_from_def by auto
    show ?thesis
    proof (cases "offset + m < length es")
      case False
      then show ?thesis using m c Inr by simp
    next
      case True
      then obtain t where t: "kp_next_cursor p = Some t"
        "make_json_cursor (kl_cursor K) (kr_stream r) (kr_source_hash r) (offset + m) = Inr t" using m(4) by auto
      have "stands_for K r (Some t) (offset + m)" by (rule made_cursor_stands_for [OF lib _ t(2)]) (use True es(2) in simp)
      moreover have "length es - (offset + m) < n" "offset + m < length es" using True m(3) Suc.prems(3) by linarith+
      ultimately obtain res where res: "follow_keys (ask_keys K r v) n (Some t) = Some res"
        "case res of Inr rest \<Rightarrow> rest = drop (offset + m) es | Inl e \<Rightarrow> \<not> stale_error e \<and> \<not> entries_fit K r es"
        using Suc.IH by blast
      have "take m (drop offset es) @ drop (offset + m) es = drop offset es"
        by (metis add.commute append_take_drop_id drop_drop)
      then show ?thesis using res t(1) m(1) c Inr by (cases res) auto
    qed
  qed
qed simp

text \<open>C15: The pages of a keys projection tile the enumeration.  A client that starts without a cursor and passes on
  the cursor of each page until a page has none gets its answer in at most one request more than there are
  keys; the answer is the whole enumeration, in order, each key once, or the error of a limit or a measurement, but
  no cursor on the way is stale; and it is never an error when every single entry fits the token limit and the
  response has no limit of its own, whatever the tokenizer does with longer prefixes.\<close>

theorem key_pages_tile:
  assumes "cursor_lib_ok (kl_cursor K)" "length (kr_stream r) = stream_id_bytes"
    and "0 < kr_max_items r" "length (key_entries v (kr_depth r) (kr_order r)) \<le> usize_max"
  defines "es \<equiv> key_entries v (kr_depth r) (kr_order r)"
  shows "\<exists>res. follow_keys (ask_keys K r v) (length es + 1) None = Some res \<and>
    (case res of
       Inr keys \<Rightarrow> keys = es
     | Inl e \<Rightarrow> e \<noteq> Page_Stale \<and> e \<noteq> Page_Cursor Stale_Cursor \<and> \<not> entries_fit K r es)"
proof -
  have "0 < length es" using key_entries_not_Nil by (simp add: es_def)
  moreover have "stands_for K r None 0" by (simp add: stands_for_def)
  ultimately show ?thesis
    using follow_keys_rest [OF assms(1,2) es_def [THEN meta_eq_to_obj_eq] _ assms(3), of None 0 "length es + 1"] assms(4)
    by (auto simp: es_def stale_error_def split: sum.splits)
qed

section \<open>A first page that does not fit\<close>

lemma prefix_search_reaches_zero:
  assumes "f 0 = Inl e" "\<forall>k. 0 < k \<and> k \<le> upper \<longrightarrow> (\<exists>n. f k = Inr n \<and> mx < n)"
  shows "prefix_search mx f 0 upper best = Inl e"
  using assms(2)
proof (induction upper rule: less_induct)
  case (less upper)
  show ?case
  proof (cases "upper div 2 = 0")
    case True
    then show ?thesis by (subst prefix_search.simps) (simp add: assms(1) Let_def)
  next
    case False
    then obtain n where n: "f (upper div 2) = Inr n" "mx < n" using less.prems by (meson div_le_dividend not_gr_zero)
    have "prefix_search mx f 0 (upper div 2 - 1) best = Inl e"
      using less.IH [of "upper div 2 - 1"] less.prems False by auto
    then show ?thesis using n False by (subst prefix_search.simps) (simp add: Let_def)
  qed
qed

lemma prefix_search_of_four:
  assumes "f 0 = Inl e" "f 2 = Inr n" "mx < n"
  shows "prefix_search mx f 0 4 best = Inl e"
proof -
  have "prefix_search mx f 0 1 best = Inl e" by (subst prefix_search.simps) (simp add: assms(1) Let_def)
  moreover have "f (Suc (Suc 0)) = Inr n" using assms(2) by (simp add: numeral_2_eq_2)
  then have "prefix_search mx f 0 4 best = prefix_search mx f 0 1 best"
    by (subst prefix_search.simps) (use assms(3) in \<open>simp add: Let_def\<close>)
  ultimately show ?thesis by simp
qed

text \<open>C39: Fitting a first page of keys into the response limit fails in place of the answer it has.  The search for the
  largest prefix also tries the empty one, whose continuation would start at offset 0, and \<open>make_json_cursor\<close>
  refuses that offset; so when the page does not fit and no shorter page fits, the request ends with
  \<open>OperationFailure\<close> and not with the budget error the code after the search prepares, and a page of four entries whose
  first two do not fit fails the same way although its first entry alone may fit.\<close>

theorem first_key_page_fit_fails:
  assumes "kr_response_limit r = Some limit" "finalized_tokens K page = Inr n" "limit < n" "0 < kp_total page"
    and "(\<forall>keep. 0 < keep \<and> keep \<le> length (kp_entries page) \<longrightarrow>
           (\<exists>p m. cut_page K r 0 page keep = Inr p \<and> finalized_tokens K p = Inr m \<and> limit < m)) \<or>
         length (kp_entries page) = 4 \<and> (\<exists>p m. cut_page K r 0 page 2 = Inr p \<and> finalized_tokens K p = Inr m \<and> limit < m)"
  shows "fit_key_page K r 0 page = Inl (Page_Cursor (Operation_Failure ''invalid JSON continuation state''))"
proof -
  let ?e = "Page_Cursor (Operation_Failure ''invalid JSON continuation state'')"
  let ?f = "\<lambda>keep. case cut_page K r 0 page keep of Inl e \<Rightarrow> Inl e | Inr p \<Rightarrow> finalized_tokens K p"
  have "cut_page K r 0 page 0 = Inl ?e"
    using assms(4) by (simp add: cut_page_def next_page_cursor_def make_json_cursor_def usize_simps)
  then have zero: "?f 0 = Inl ?e" by simp
  have "largest_fitting_prefix limit (length (kp_entries page)) ?f = Inl ?e"
    using assms(5)
  proof
    assume "\<forall>keep. 0 < keep \<and> keep \<le> length (kp_entries page) \<longrightarrow>
      (\<exists>p m. cut_page K r 0 page keep = Inr p \<and> finalized_tokens K p = Inr m \<and> limit < m)"
    then have "\<forall>k. 0 < k \<and> k \<le> length (kp_entries page) \<longrightarrow> (\<exists>n. ?f k = Inr n \<and> limit < n)" by fastforce
    then show ?thesis unfolding largest_fitting_prefix_def by (rule prefix_search_reaches_zero [where f = ?f, OF zero])
  next
    assume four: "length (kp_entries page) = 4 \<and> (\<exists>p m. cut_page K r 0 page 2 = Inr p \<and> finalized_tokens K p = Inr m \<and> limit < m)"
    then obtain m where "?f 2 = Inr m" "limit < m" by auto
    from prefix_search_of_four [where f = ?f, OF zero this] show ?thesis
      unfolding largest_fitting_prefix_def using four by simp
  qed
  then show ?thesis using assms(1-3) by (simp add: fit_key_page_def)
qed

section \<open>Samples\<close>

text \<open>A value of four keys, each response of \<open>n\<close> entries taking \<open>10 * n\<close> tokens.\<close>

definition sample_value :: json where
  "sample_value = JObject [(''a'', JNull), (''b'', JNull), (''c'', JNull)]"

definition sample_keys_lib :: key_lib where
  "sample_keys_lib = \<lparr>kl_cursor = sample_lib, kl_measure = (\<lambda>v. Inr (case v of JArray es \<Rightarrow> length es | _ \<Rightarrow> 0)),
     kl_finalized = (\<lambda>p. Inr (10 * length (kp_entries p)))\<rparr>"

definition sample_keys_request :: "usize option \<Rightarrow> key_request" where
  "sample_keys_request limit = \<lparr>kr_depth = None, kr_order = Pointer_Order, kr_max_items = 4, kr_max_tokens = 3,
     kr_response_limit = limit, kr_stream = sample_stream, kr_source_hash = replicate 32 CHR ''b''\<rparr>"

lemma sample_keys_length: "length (key_entries sample_value None Pointer_Order) = 4"
  by code_simp

lemma sample_fingerprint: "is_fingerprint (replicate 32 CHR ''b'')"
  by (simp add: is_fingerprint_def content_fingerprint_hex_len_def list_all_iff is_ascii_hexdigit_def in_range_def)

theorem key_pages_tile_witness:
  "follow_keys (ask_keys sample_keys_lib (sample_keys_request None) sample_value) 5 None =
    Some (Inr (key_entries sample_value None Pointer_Order))"
proof -
  have fit: "entries_fit sample_keys_lib (sample_keys_request None) es" for es
    by (simp add: entries_fit_def sample_keys_request_def sample_keys_lib_def sample_fingerprint)
  have "cursor_lib_ok (kl_cursor sample_keys_lib)" "length (kr_stream (sample_keys_request None)) = stream_id_bytes"
    by (simp_all add: sample_keys_lib_def sample_keys_request_def sample_lib_ok length_sample_stream)
  moreover have entries: "key_entries sample_value (kr_depth (sample_keys_request None)) (kr_order (sample_keys_request None)) =
      key_entries sample_value None Pointer_Order"
    by (simp add: sample_keys_request_def)
  moreover have "0 < kr_max_items (sample_keys_request None)" by (simp add: sample_keys_request_def)
  ultimately obtain res where
      res: "follow_keys (ask_keys sample_keys_lib (sample_keys_request None) sample_value) (4 + 1) None = Some res"
        "case res of Inr keys \<Rightarrow> keys = key_entries sample_value None Pointer_Order
         | Inl e \<Rightarrow> e \<noteq> Page_Stale \<and> e \<noteq> Page_Cursor Stale_Cursor \<and>
             \<not> entries_fit sample_keys_lib (sample_keys_request None) (key_entries sample_value None Pointer_Order)"
    using key_pages_tile [of sample_keys_lib "sample_keys_request None" sample_value]
    unfolding entries sample_keys_length by (auto simp: usize_max_def)
  show ?thesis
  proof (cases res)
    case (Inl e)
    then show ?thesis using res(2) fit by simp
  next
    case (Inr keys)
    then show ?thesis using res by simp
  qed
qed

definition sample_first_page :: key_page where
  "sample_first_page = \<lparr>kp_entries = [JNull, JNull, JNull, JNull], kp_total = 9, kp_returned = 4, kp_remaining = 5,
     kp_reason = Some Max_Items, kp_next_cursor = None, kp_tokens = 4, kp_complete = False\<rparr>"

text \<open>One entry would take 10 of the 15 tokens.\<close>

theorem first_key_page_fit_fails_witness:
  "fit_key_page sample_keys_lib (sample_keys_request (Some 15)) 0 sample_first_page =
    Inl (Page_Cursor (Operation_Failure ''invalid JSON continuation state''))"
proof (rule first_key_page_fit_fails [where limit = 15 and n = 40])
  obtain c where "next_page_cursor sample_keys_lib (sample_keys_request (Some 15)) 7 2 = Inr c"
    by (simp add: next_page_cursor_def make_json_cursor_def sample_keys_request_def sample_fingerprint envelope_new_def
        push_usize_def max_cursor_payload_bytes_def)
  moreover have "sat_add 0 2 = 2" by (simp add: usize_simps usize_max_def del: add_2_eq_Suc add_2_eq_Suc')
  moreover have "measure_tokens sample_keys_lib v = Inr (case v of JArray es \<Rightarrow> length es | _ \<Rightarrow> 0)" for v
    by (simp add: measure_tokens_def sample_keys_lib_def)
  ultimately have "\<exists>p. cut_page sample_keys_lib (sample_keys_request (Some 15)) 0 sample_first_page 2 = Inr p \<and>
      length (kp_entries p) = 2"
    by (simp add: cut_page_def Let_def sample_first_page_def)
  then have "\<exists>p m. cut_page sample_keys_lib (sample_keys_request (Some 15)) 0 sample_first_page 2 = Inr p \<and>
      finalized_tokens sample_keys_lib p = Inr m \<and> 15 < m"
    by (auto simp: finalized_tokens_def sample_keys_lib_def)
  moreover have "length (kp_entries sample_first_page) = 4" by (simp add: sample_first_page_def)
  ultimately show "(\<forall>keep. 0 < keep \<and> keep \<le> length (kp_entries sample_first_page) \<longrightarrow>
      (\<exists>p m. cut_page sample_keys_lib (sample_keys_request (Some 15)) 0 sample_first_page keep = Inr p \<and>
        finalized_tokens sample_keys_lib p = Inr m \<and> 15 < m)) \<or>
    length (kp_entries sample_first_page) = 4 \<and>
      (\<exists>p m. cut_page sample_keys_lib (sample_keys_request (Some 15)) 0 sample_first_page 2 = Inr p \<and>
        finalized_tokens sample_keys_lib p = Inr m \<and> 15 < m)"
    by blast
qed (simp_all add: sample_keys_request_def finalized_tokens_def sample_keys_lib_def sample_first_page_def)

end
