(* ===== verification/Spec2Isabelle.thy ===== *)
theory Spec2Isabelle
  imports Text_Chunks Rank_Response Watch_System Setup_Gap Read_Cursor Accounting_End Read_Delta Cache_Prune Cache_List Regex_Scan Parser_Hierarchy Import_Props Executor Reconcile_Props Json_Pages
begin

text \<open>
  A verification library for leantoken, a local retrieval tool that answers questions about a source
  repository under token budgets.  The Rust sources are under \<open>src/\<close> of the repository; all file names below
  are relative to its inner \<open>src/\<close> directory.

  \<^bold>\<open>The program.\<close>  A process opens a repository, walks its visible files, chunks and parses them into an index
  (SQLite with FTS5), and keeps it current through a filesystem watcher whose changes an elected leader
  reconciles.  Services answer requests over the index and the live files: context selection (rank candidate
  fragments and fit them into a token budget), regular expression search, reads with continuation cursors and
  deltas, structural JSON queries.  Every response is sized in tokens of the chosen tokenizer and says its own
  size.  Beside this stand the setup of client configurations (a transaction over several files) and the
  management of the caches of all repositories (inventory, listing, pruning).

  \<^bold>\<open>Conventions.\<close>  A \<open>usize\<close> is a \<open>nat\<close> with the saturating, checked and wrapping operations written out against
  \<open>2 ^ 64 - 1\<close>; words stand where bits matter (cursors).  A \<open>str\<close> is its list of UTF-8 bytes.  An error is the
  left side of a sum, a panic the value \<open>None\<close> of an option.  A record has the fields of its struct that
  the modelled code uses.  Comparators return \<open>ordering\<close>, and a stable sort is insertion by comparator.

  \<^bold>\<open>Foundations.\<close>
  \<^item> \<open>Prelude\<close>: machine-size counters, comparators (locale \<open>comparator_laws\<close>), stable sort, positions, counters.
  \<^item> \<open>Rust_Str\<close>: the string functions of the Rust library on bytes.  \<open>F64\<close>: binary64 with exact rounding, the
    order of \<open>total_cmp\<close>.  \<open>Host_Path\<close>: \<open>std::path\<close> on Unix as component lists.
  \<^item> \<open>Fault_IO\<close>: sequential input and output against a script of answers.  Each action consumes one answer
    of the script, which may be a failure or a crash; a theorem over all scripts is a theorem over all
    faults at all points.

  \<^bold>\<open>Text and tokens.\<close>
  \<^item> \<open>Text\<close>, \<open>Text_Lines\<close>, \<open>Text_Chunks\<close> (\<open>text.rs\<close>): line tables, byte and line conversions, windows,
    excerpts, chunking.  Indexing outside a table is \<open>None\<close>, as the panic it is.  Chunks of valid UTF-8 cover the file without gap or overlap on character
    boundaries, the loops never panic, and \<open>line_range_to_byte_range\<close> panics exactly in one case.
  \<^item> \<open>Tokens\<close> (\<open>tokens.rs\<close>): the estimate, truncation and the search for the largest prefix in a budget.  The
    byte-pair encoders are a parameter with the laws that decoding inverts encoding.

  \<^bold>\<open>Ranking and context\<close> (\<open>ranking/\<close>, \<open>model/context.rs\<close>).
  \<^item> \<open>Rank_Candidate\<close>, \<open>Rank_Metadata\<close>: candidates, signals, scores in \<open>f64\<close>, path classes; a score is
    always a regular number, so the order is total.
  \<^item> \<open>Rank_Dedup\<close>: merging of identical and mostly overlapping fragments.
  \<^item> \<open>Rank_Required\<close>, \<open>Rank_Greedy\<close>, \<open>Rank_Greedy_Props\<close>, \<open>Rank_Select\<close>: required evidence first, then greedy
    passes under the token budget, the fragment cap, the per-file cap and the quotas.  The invariant of
    a pass is the locale \<open>greedy_phase\<close>, interpreted for the four passes.  The selection respects every
    limit, what it omits is the rest of the input, and it is maximal for the final fill.
  \<^item> \<open>Rank_Report\<close>, \<open>Rank_Response\<close>: what a response says about its selection, and the response itself.

  \<^bold>\<open>Repository and indexing.\<close>
  \<^item> \<open>Repo_Path\<close>, \<open>Repo_Scope\<close>, \<open>Repo_Discovery\<close> (\<open>repository/\<close>): normalization, patterns, the index scope and its
    pruning of directories, the walk with its limits.  Glob matching and the ignore rules are parameters
    with the laws of the crates; the walk is the list of entries the walker yields.
  \<^item> \<open>Watch\<close>, \<open>Watch_Loop\<close>, \<open>Watch_System\<close> (\<open>watcher/\<close>, \<open>main/index_runtime.rs\<close>): the scheduler, the watcher loop with
    the bounded callback queue and the leader, composed into one step relation.  No change is lost in any
    interleaving, failed work is merged back, waits are bounded, and an idle system is current.
  \<^item> \<open>Parser_Hierarchy\<close> (\<open>parser/hierarchy.rs\<close>): parents and enclosing symbols are the innermost ones.
  \<^item> \<open>Import_Resolution\<close>, \<open>Import_Props\<close> (\<open>indexer/import_resolution.rs\<close>): the candidate paths of imports for every
    language, their bounds, Go modules.  The recursion over parent directories has
    \<open>MAX_GO_MOD_WALK_DEPTH\<close> as its fuel, which is the loop bound of the code.
  \<^item> \<open>Reconciliation\<close>, \<open>Reconcile_Props\<close> (\<open>services/reconciliation.rs\<close>): the coordinator that shares one
    reconciliation among requests, as a step relation over its critical sections with a log.  A completed
    answer means a whole successful scan began after the request; one scan runs at a time; no request is
    lost.  Waiter identifiers saturate, so the theorems ask that fewer than \<open>2 ^ 64 - 1\<close> were given out.
  \<^item> \<open>Executor\<close> (\<open>services/executor.rs\<close>, \<open>concurrency.rs\<close>): the blocking executor and its two semaphores.

  \<^bold>\<open>Services.\<close>
  \<^item> \<open>Cursor\<close>, \<open>Read_Cursor\<close> (\<open>services/cursor.rs\<close>, \<open>read/cursor.rs\<close>, \<open>json/cursor.rs\<close>): stream identities,
    the envelope and its payloads; the locale \<open>wire\<close> is the contract of a field's writer and reader.  The
    base64 codec and BLAKE3 are parameters.
  \<^item> \<open>Response_Accounting\<close>, \<open>Accounting_End\<close> (\<open>services/accounting.rs\<close>): the fixed point of a response that contains
    its own size, in at most 64 passes as in the code.  A response whose text shows its three sizes in decimal
    always gets a size: a \<open>usize\<close> has at most 20 digits, so the totals lie in a window of fewer than 64 values
    and a pass repeats a total before the passes are used up.
  \<^item> \<open>Delta_Fifo\<close>, \<open>Read_Delta\<close> (\<open>services/read_delta.rs\<close>): the bounded registries refine an abstract queue, and a
    delta applied to the base the client holds gives the current text.
  \<^item> \<open>Symbol_Identity\<close>, \<open>Regex_Plan\<close>, \<open>Regex_Scan\<close> (\<open>symbol_identity.rs\<close>, \<open>services/search/\<close>, \<open>storage/scoped_regex.rs\<close>): case
    folding, the trigram plan of an expression, and the search with and without it.  A plan never excludes a
    match, so planning changes no answer.  The parser and the literal extractor of the regex crate and the
    answers of FTS5 are parameters with their documented laws.
  \<^item> \<open>Json_Projection\<close>, \<open>Json_Budget\<close>, \<open>Json_Keys\<close>, \<open>Json_Pages\<close> (\<open>services/json/\<close>): projections of JSON values under
    an item budget, which is spent exactly, and the pages of the keys projection, which tile the enumeration.

  \<^bold>\<open>Setup and caches.\<close>
  \<^item> \<open>Setup_Transaction\<close>, \<open>Setup_Props\<close>, \<open>Setup_Atomic\<close>, \<open>Setup_Gap\<close> (\<open>setup/\<close>): applying a plan to configuration files with a
    journal, rollback and recovery.  For every script of faults and crashes the files end at their
    targets, or recovery (itself interruptible any number of times) brings back the originals.  The one
    exception, a failed directory sync after the journal was committed, is excluded there by a hypothesis and is
    the theorem of \<open>Setup_Gap\<close>: with it, any plan of files and any point of the rollback gives a mixture.
  \<^item> \<open>Cache_Model\<close>, \<open>Cache_Inspect\<close>, \<open>Cache_Prune\<close>, \<open>Cache_List\<close> (\<open>cache/\<close>): identities, inventory under a scan budget,
    pruning with revalidation under the lease, listing with cursors.  The operating system and SQLite
    answer through scripts.

  \<^bold>\<open>What modelling showed.\<close>  \<open>line_range_panics_iff\<close>: an end line of 0 underflows an index.  \<open>failed_commit_sync_mixes\<close>: a
  failed sync after the journal says committed can leave a mixture that recovery keeps.
  \<open>normalize_again\<close>: a drive prefix after a dot component is accepted and becomes a value the same function
  refuses.  \<open>star_import_breaks_repair\<close>: a wildcard import of the root package gives an empty candidate path that
  fails the repair of the whole index.
  \<open>first_key_page_fit_fails\<close>: shortening a first page of keys measures the empty page, whose cursor is refused.

  \<^bold>\<open>Not modelled.\<close>  The SQL schema and statements (\<open>storage/\<close>, modelled only as list functions where the
  scoped regex search and the search hits need them), tree-sitter extraction (\<open>parser/\<close>), the
  gathering of candidates from the index and from Git history (\<open>services/context\<close>, \<open>services/history\<close>), the
  MCP server and the command line, upgrade and doctor commands, compaction of caches, building setup
  plans with the TOML and JSON editors, the JSON schema projection and numeric summary, examples,
  benchmarks and tests.  These are calls into crates, databases, the network or the
  terminal, or gather inputs the modelled parts take as arguments.
\<close>

end
